(* ===== verification/Prelude.thy ===== *)
theory Prelude
  imports Main "HOL-Library.Word"
begin

text \<open>
  The types and the generic lemmas every component of the MQTTium development shares:
  Python's byte strings, text strings and exceptions, results that may raise, indexing and
  slicing with Python's behaviour out of range, and bytes assembled from integers.

  Python integers are \<^typ>\<open>int\<close>; offsets, lengths and counters, which the sources never
  make negative, are \<^typ>\<open>nat\<close>. A text string is the list of its Unicode code points.
\<close>

unbundle bit_operations_syntax

subsection \<open>Bytes, text and exceptions\<close>

type_synonym byte = "8 word"
type_synonym bytes = "byte list"
type_synonym pystr = "nat list"

text \<open>
  Exception classes of \<^verbatim>\<open>errors.py\<close> and of the language that the modelled code raises.
  The message text is dropped: no code of the library branches on it. The attributes of the
  classes that carry data (\<^verbatim>\<open>PublishRejectedError.reason_code\<close>) are kept.
\<close>

datatype exn =
    MalformedPacketError
  | ProtocolError
  | PublishRejectedError int
  | PacketTooLargeError
  | MandatoryResponseTooLargeError
  | SessionReplayError
  | SessionDiscardedError
  | FlowControlError
  | NotConnectedError
  | ValueError
  | TypeError
  | RuntimeError
  | AssertionError
  | KeyError
  | IndexError
  | StructError
  | UnicodeEncodeError
  | UnicodeDecodeError
  | StoreError
  | ConnectionError
  | StaleConnectionEffect
  | MessageDeliveryError
  | MQTTError
  | MQTTTimeoutError
  | DependencyCancelledError
  | BrokerDisconnectError int
  | ConnectRefusedError int
  | PublishBatchError
  | CancelledError
  | InvalidStateError
  | QueueFull

type_synonym 'a result = "exn + 'a"

named_theorems result_simps \<open>equations of the result combinators and of the library calls\<close>
named_theorems decode_facts \<open>what a successful decode of each primitive establishes\<close>

subsection \<open>Results\<close>

text \<open>Sequencing of two computations that may raise: the second runs on the first's value.\<close>

definition rbind :: "'a result \<Rightarrow> ('a \<Rightarrow> 'b result) \<Rightarrow> 'b result" where
  "rbind m f = (case m of Inl e \<Rightarrow> Inl e | Inr x \<Rightarrow> f x)"

lemma rbind_Inl [simp, result_simps]: "rbind (Inl e) f = Inl e"
  by (simp add: rbind_def)

lemma rbind_Inr [simp, result_simps]: "rbind (Inr x) f = f x"
  by (simp add: rbind_def)

lemma rbind_eq_Inr [simp]: "rbind m f = Inr y \<longleftrightarrow> (\<exists>x. m = Inr x \<and> f x = Inr y)"
  by (cases m) (auto simp: rbind_def)

lemma rbind_eq_Inl: "rbind m f = Inl e \<longleftrightarrow> m = Inl e \<or> (\<exists>x. m = Inr x \<and> f x = Inl e)"
  by (cases m) (auto simp: rbind_def)

lemma rbind_assoc: "rbind (rbind m f) g = rbind m (\<lambda>x. rbind (f x) g)"
  by (cases m) simp_all

lemma rbind_cong [fundef_cong]:
  "m = m' \<Longrightarrow> (\<And>x. m' = Inr x \<Longrightarrow> f x = f' x) \<Longrightarrow> rbind m f = rbind m' f'"
  by (cases m') (auto simp: rbind_def)

definition guard :: "bool \<Rightarrow> exn \<Rightarrow> unit result" where
  "guard b e = (if b then Inr () else Inl e)"

lemma guard_True [simp, result_simps]: "guard True e = Inr ()"
  by (simp add: guard_def)

lemma guard_False [simp, result_simps]: "guard False e = Inl e"
  by (simp add: guard_def)

lemma guard_eq_Inr [simp]: "guard b e = Inr u \<longleftrightarrow> b"
  by (simp add: guard_def)

lemma guard_eq_Inl [simp]: "guard b e = Inl e' \<longleftrightarrow> \<not> b \<and> e = e'"
  by (auto simp: guard_def)

fun is_ok :: "'a result \<Rightarrow> bool" where
  "is_ok (Inr x) = True"
| "is_ok (Inl e) = False"

subsection \<open>Python indexing, slicing and byte construction\<close>

definition py_index :: "'a list \<Rightarrow> nat \<Rightarrow> 'a result" where
  "py_index xs i = (if i < length xs then Inr (xs ! i) else Inl IndexError)"

definition py_slice :: "'a list \<Rightarrow> nat \<Rightarrow> nat \<Rightarrow> 'a list" where
  "py_slice xs a b = take (b - a) (drop a xs)"

lemma py_index_ok [simp, result_simps]: "i < length xs \<Longrightarrow> py_index xs i = Inr (xs ! i)"
  by (simp add: py_index_def)

lemma py_index_eq_Inr: "py_index xs i = Inr x \<longleftrightarrow> i < length xs \<and> x = xs ! i"
  by (auto simp: py_index_def)

lemma py_index_append [simp]: "py_index (xs @ y # ys) (length xs) = Inr y"
  by (simp add: py_index_def)

lemma length_py_slice [simp]: "length (py_slice xs a b) = min (b - a) (length xs - a)"
  by (simp add: py_slice_def)

lemma py_slice_append [simp]:
  "py_slice (xs @ ys @ zs) (length xs) (length xs + length ys) = ys"
  by (simp add: py_slice_def)

lemma py_slice_append_end [simp]: "py_slice (xs @ ys) (length xs) (length xs + length ys) = ys"
  by (simp add: py_slice_def)

definition byte_of :: "int \<Rightarrow> byte" where
  "byte_of v = word_of_int v"

text \<open>\<^verbatim>\<open>bytes((a, b, ...))\<close> raises \<^verbatim>\<open>ValueError\<close> for an element outside 0..255.\<close>

fun py_bytes :: "int list \<Rightarrow> bytes result" where
  "py_bytes [] = Inr []"
| "py_bytes (v # vs) =
     (if 0 \<le> v \<and> v \<le> 255 then rbind (py_bytes vs) (\<lambda>bs. Inr (byte_of v # bs))
      else Inl ValueError)"

lemma py_bytes_ok: "\<forall>v\<in>set vs. 0 \<le> v \<and> v \<le> 255 \<Longrightarrow> py_bytes vs = Inr (map byte_of vs)"
  by (induction vs) auto

lemma length_py_bytes: "py_bytes vs = Inr bs \<Longrightarrow> length bs = length vs"
  by (induction vs arbitrary: bs) (auto split: if_splits)

subsection \<open>Byte arithmetic\<close>

text \<open>Indexing a byte string gives an integer.\<close>

definition byte_at :: "bytes \<Rightarrow> nat \<Rightarrow> int result" where
  "byte_at bs i = (if i < length bs then Inr (uint (bs ! i)) else Inl IndexError)"

lemma byte_at_ok [simp, result_simps]: "i < length bs \<Longrightarrow> byte_at bs i = Inr (uint (bs ! i))"
  by (simp add: byte_at_def)

lemma byte_at_eq_Inr: "byte_at bs i = Inr v \<longleftrightarrow> i < length bs \<and> v = uint (bs ! i)"
  by (auto simp: byte_at_def)

lemma byte_at_append [simp]: "byte_at (xs @ b # ys) (length xs) = Inr (uint b)"
  by (simp add: byte_at_def)

lemma uint_byte_ge_0 [simp]: "0 \<le> uint (b :: byte)"
  by simp

lemma uint_byte_less [simp]: "uint (b :: byte) < 256"
  using uint_bounded [of b] by simp

lemma uint_byte_le [simp]: "uint (b :: byte) \<le> 255"
  using uint_byte_less [of b] by linarith

lemma uint_byte_of [simp]: "0 \<le> v \<Longrightarrow> v \<le> 255 \<Longrightarrow> uint (byte_of v) = v"
  by (simp add: byte_of_def uint_word_of_int)

lemma byte_of_uint [simp]: "byte_of (uint b) = b"
  by (simp add: byte_of_def)

lemma byte_eq_iff: "(a :: byte) = b \<longleftrightarrow> uint a = uint b"
  by (simp add: word_uint_eq_iff)

definition byte_of_nat :: "nat \<Rightarrow> byte" where
  "byte_of_nat n = of_nat n"

lemma unat_byte_of_nat [simp]: "n < 256 \<Longrightarrow> unat (byte_of_nat n) = n"
  by (simp add: byte_of_nat_def unat_of_nat)

lemma byte_of_nat_unat [simp]: "byte_of_nat (unat b) = b"
  by (simp add: byte_of_nat_def)

lemma unat_byte_less [simp]: "unat (b :: byte) < 256"
  using uint_byte_less [of b] by (metis nat_less_numeral_power_cancel_iff nat_mono_iff nat_numeral unat_eq_nat_uint zero_less_numeral)

text \<open>The masks and shifts the sources use, as arithmetic.\<close>

lemma int_and_FF: "(v :: int) AND 0xFF = v mod 256"
  using take_bit_eq_mask [of 8 v] by (simp add: take_bit_eq_mod mask_eq_exp_minus_1)

lemma int_and_7F: "(v :: int) AND 0x7F = v mod 128"
  using take_bit_eq_mask [of 7 v] by (simp add: take_bit_eq_mod mask_eq_exp_minus_1)

lemma int_and_0F: "(v :: int) AND 0x0F = v mod 16"
  using take_bit_eq_mask [of 4 v] by (simp add: take_bit_eq_mod mask_eq_exp_minus_1)

lemma int_and_80_eq_0: "(v :: int) AND 0x80 = 0 \<longleftrightarrow> even (v div 128)"
  using and_exp_eq_0_iff_not_bit [of v 7] by (simp add: bit_iff_odd)

lemma int_or_80: "0 \<le> v \<Longrightarrow> v < 128 \<Longrightarrow> (v :: int) OR 0x80 = v + 128"
proof -
  assume "0 \<le> v" "v < 128"
  then have "v AND 0x80 = 0"
    by (simp add: int_and_80_eq_0)
  then show ?thesis
    using plus_and_or [of v "0x80"] by simp
qed

lemma byte_top_bit: "0 \<le> v \<Longrightarrow> v < 256 \<Longrightarrow> (v :: int) AND 0x80 = 0 \<longleftrightarrow> v < 128"
proof -
  assume v: "0 \<le> v" "v < 256"
  then have "v div 128 = (if v < 128 then 0 else 1)"
    by auto
  then show ?thesis
    by (simp add: int_and_80_eq_0)
qed

lemma shift_or_byte:
  assumes "0 \<le> b" "b < 256"
  shows "push_bit 8 a OR b = a * 256 + (b :: int)"
proof -
  have "push_bit 8 a AND b = 0"
  proof (rule bit_eqI)
    fix n
    have "\<not> bit b n" if "8 \<le> n"
    proof -
      from that have "b < 2 ^ n"
        using assms power_increasing [of 8 n "2::int"] by simp
      with assms(1) show ?thesis by (simp add: bit_iff_odd)
    qed
    then show "bit (push_bit 8 a AND b) n = bit 0 n"
      by (auto simp: bit_simps)
  qed
  then show ?thesis
    using plus_and_or [of "push_bit 8 a" b] by (simp add: push_bit_eq_mult)
qed

lemma shift_or_bytes [simp]: "push_bit 8 (uint a) OR uint b = uint a * 256 + uint (b :: byte)"
  by (simp add: shift_or_byte)

lemma py_slice_all [simp]: "py_slice xs 0 (length xs) = xs"
  by (simp add: py_slice_def)

lemma py_slice_split:
  "a \<le> b \<Longrightarrow> b \<le> length xs \<Longrightarrow> xs = take a xs @ py_slice xs a b @ drop b xs"
  by (simp add: py_slice_def) (metis append_take_drop_id drop_drop le_add_diff_inverse2)

lemma py_slice_append_split:
  assumes "a \<le> b" "b \<le> c" "c \<le> length xs"
  shows "py_slice xs a c = py_slice xs a b @ py_slice xs b c"
proof -
  have "take (c - a) (drop a xs) = take ((b - a) + (c - b)) (drop a xs)" using assms by simp
  then show ?thesis using assms by (simp only: py_slice_def take_add drop_drop) simp
qed

lemma py_slice_Cons: "a < b \<Longrightarrow> b \<le> length xs \<Longrightarrow> py_slice xs a b = xs ! a # py_slice xs (Suc a) b"
  by (simp add: py_slice_def Cons_nth_drop_Suc [symmetric] take_Cons' Suc_diff_Suc)

lemma py_slice_empty [simp]: "b \<le> a \<Longrightarrow> py_slice xs a b = []"
  by (simp add: py_slice_def)

subsection \<open>Invariants of transition systems\<close>

locale kept_invariant =
  fixes init :: "'s \<Rightarrow> bool" and step :: "'s \<Rightarrow> 's \<Rightarrow> bool" and inv :: "'s \<Rightarrow> bool"
  assumes init_inv: "init s \<Longrightarrow> inv s"
    and step_inv: "inv s \<Longrightarrow> step s s' \<Longrightarrow> inv s'"
begin

lemma run_inv: "step\<^sup>*\<^sup>* s s' \<Longrightarrow> inv s \<Longrightarrow> inv s'"
  by (induction rule: rtranclp_induct) (auto intro: step_inv)

lemma always: "init s \<Longrightarrow> step\<^sup>*\<^sup>* s s' \<Longrightarrow> inv s'"
  using run_inv init_inv by blast

end

end
