(* ===== verification/Packet_Ids.thy ===== *)
theory Packet_Ids
  imports Prelude
begin

text \<open>
  The outbound packet-identifier allocator, \<^verbatim>\<open>src/src/mqttium/protocol/packet_ids.py\<close>: the frontier
  with its one scalar free slot, its set of further holes and its out-of-order reservations. The
  invariant ties the counters to the sets; every operation refines an operation on the abstract set
  of identifiers in use, which is the contract \<^verbatim>\<open>id_pool\<close> its clients rely on.

  \<^verbatim>\<open>set.pop()\<close> removes an arbitrary element: the choice is the argument \<open>pick\<close>, with
  \<open>pops pick\<close> as the documented behaviour.
\<close>

subsection \<open>State and operations\<close>

definition MAX_ID :: int where
  "MAX_ID = 65535"

record pool =
  free_count :: int
  free_one :: int
  free_many :: "int set option"
  reserved :: "int set option"
  frontier :: int

definition new_pool :: pool where
  "new_pool = \<lparr>free_count = 0, free_one = 0, free_many = None, reserved = None, frontier = 1\<rparr>"

definition pool_clear :: "pool \<Rightarrow> pool" where
  "pool_clear p = p\<lparr>free_count := 0, free_one := 0, free_many := None, reserved := None, frontier := 1\<rparr>"

definition pool_len :: "pool \<Rightarrow> int" where
  "pool_len p =
     (let reserved_count = (case reserved p of None \<Rightarrow> 0 | Some r \<Rightarrow> int (card r))
      in frontier p - 1 - free_count p + reserved_count)"

definition pool_available :: "pool \<Rightarrow> int" where
  "pool_available p = MAX_ID - pool_len p"

text \<open>An emptied set is replaced by \<^verbatim>\<open>None\<close>.\<close>

definition keep_set :: "int set \<Rightarrow> int set option" where
  "keep_set s = (if s = {} then None else Some s)"

definition pops :: "(int set \<Rightarrow> int) \<Rightarrow> bool" where
  "pops pick \<longleftrightarrow> (\<forall>s. finite s \<longrightarrow> s \<noteq> {} \<longrightarrow> pick s \<in> s)"

text \<open>\<^verbatim>\<open>while mid in reserved: reserved.remove(mid); mid += 1\<close> (a Python set is finite).\<close>

function skip_reserved :: "int set \<Rightarrow> int \<Rightarrow> int set \<times> int" where
  "skip_reserved r mid =
     (if finite r \<and> mid \<in> r then skip_reserved (r - {mid}) (mid + 1) else (r, mid))"
  by pat_completeness auto
termination
proof (relation "measure (\<lambda>(r, mid). card r)")
  fix r :: "int set" and mid
  assume "finite r \<and> mid \<in> r"
  then show "((r - {mid}, mid + 1), r, mid) \<in> measure (\<lambda>(r, mid). card r)"
    by (simp add: card_Diff1_less del: card_Diff_insert)
qed simp

declare skip_reserved.simps [simp del, code del]

lemma skip_reserved_code [code]:
  "skip_reserved (set xs) mid = (if mid \<in> set xs then skip_reserved (Set.remove mid (set xs)) (mid + 1) else (set xs, mid))"
  by (subst skip_reserved.simps) simp

definition allocate_frontier :: "pool \<Rightarrow> int result \<times> pool" where
  "allocate_frontier p =
     (let (mid, p') =
        (case reserved p of
           None \<Rightarrow> (frontier p, p)
         | Some r \<Rightarrow>
             (let (r', mid) = skip_reserved r (frontier p)
              in (mid, p\<lparr>reserved := keep_set r', frontier := mid\<rparr>)))
      in if mid > MAX_ID then (Inl FlowControlError, p')
         else (Inr mid, p'\<lparr>frontier := mid + 1\<rparr>))"

definition allocate :: "(int set \<Rightarrow> int) \<Rightarrow> pool \<Rightarrow> int result \<times> pool" where
  "allocate pick p =
     (if free_one p \<noteq> 0 then
        (Inr (free_one p), p\<lparr>free_one := 0, free_count := free_count p - 1\<rparr>)
      else case free_many p of
        None \<Rightarrow> allocate_frontier p
      | Some free \<Rightarrow>
          if free = {} then allocate_frontier p
          else
            (let mid = pick free
             in (Inr mid, p\<lparr>free_many := keep_set (free - {mid}), free_count := free_count p - 1\<rparr>)))"

definition reserve :: "int \<Rightarrow> pool \<Rightarrow> unit result \<times> pool" where
  "reserve mid p =
     (if mid < 1 \<or> mid > MAX_ID then (Inl ValueError, p)
      else if mid < frontier p then
        (if free_one p = mid then (Inr (), p\<lparr>free_one := 0, free_count := free_count p - 1\<rparr>)
         else case free_many p of
           None \<Rightarrow> (Inr (), p)
         | Some free \<Rightarrow>
             if mid \<in> free then
               (Inr (), p\<lparr>free_many := keep_set (free - {mid}), free_count := free_count p - 1\<rparr>)
             else (Inr (), p))
      else if mid = frontier p then
        (case reserved p of
           None \<Rightarrow> (Inr (), p\<lparr>frontier := mid + 1\<rparr>)
         | Some r \<Rightarrow>
             (let (r', front) = skip_reserved (r - {mid}) (mid + 1)
              in (Inr (), p\<lparr>reserved := keep_set r', frontier := front\<rparr>)))
      else case reserved p of
        None \<Rightarrow> (Inr (), p\<lparr>reserved := Some {mid}\<rparr>)
      | Some r \<Rightarrow> (Inr (), p\<lparr>reserved := Some (insert mid r)\<rparr>))"

definition in_free_many :: "int \<Rightarrow> pool \<Rightarrow> bool" where
  "in_free_many mid p = (case free_many p of None \<Rightarrow> False | Some free \<Rightarrow> mid \<in> free)"

definition release :: "int \<Rightarrow> pool \<Rightarrow> pool" where
  "release mid p =
     (if mid < 1 \<or> mid > MAX_ID then p
      else if mid < frontier p then
        (if free_one p = mid then p
         else if in_free_many mid p then p
         else
           (let p' =
              (if free_one p = 0 then p\<lparr>free_one := mid\<rparr>
               else case free_many p of
                 None \<Rightarrow> p\<lparr>free_many := Some {mid}\<rparr>
               | Some free \<Rightarrow> p\<lparr>free_many := Some (insert mid free)\<rparr>);
              count = free_count p + 1;
              p'' = p'\<lparr>free_count := count\<rparr>
            in if count = frontier p - 1 \<and> reserved p = None then pool_clear p'' else p''))
      else case reserved p of
        None \<Rightarrow> p
      | Some r \<Rightarrow>
          if mid \<notin> r then p
          else if r - {mid} \<noteq> {} then p\<lparr>reserved := Some (r - {mid})\<rparr>
          else if free_count p = frontier p - 1 then pool_clear (p\<lparr>reserved := None\<rparr>)
          else p\<lparr>reserved := None\<rparr>)"

definition in_use :: "int \<Rightarrow> pool \<Rightarrow> bool" where
  "in_use mid p =
     (if mid < 1 \<or> mid > MAX_ID then False
      else if mid < frontier p then
        (if free_one p = mid then False else \<not> in_free_many mid p)
      else case reserved p of None \<Rightarrow> False | Some r \<Rightarrow> mid \<in> r)"

subsection \<open>The abstract set of identifiers in use, and the invariant\<close>

definition used :: "pool \<Rightarrow> int set" where
  "used p = {mid. in_use mid p}"

definition free_set :: "pool \<Rightarrow> int set" where
  "free_set p = (if free_one p = 0 then {} else {free_one p})
     \<union> (case free_many p of None \<Rightarrow> {} | Some s \<Rightarrow> s)"

definition reserved_set :: "pool \<Rightarrow> int set" where
  "reserved_set p = (case reserved p of None \<Rightarrow> {} | Some s \<Rightarrow> s)"

definition pool_inv :: "pool \<Rightarrow> bool" where
  "pool_inv p \<longleftrightarrow>
     1 \<le> frontier p \<and> frontier p \<le> MAX_ID + 1
     \<and> free_set p \<subseteq> {1..<frontier p} \<and> free_count p = int (card (free_set p))
     \<and> (free_one p \<noteq> 0 \<longrightarrow> \<not> in_free_many (free_one p) p)
     \<and> free_many p \<noteq> Some {} \<and> reserved p \<noteq> Some {}
     \<and> reserved_set p \<subseteq> {frontier p..MAX_ID}"

lemma used_eq:
  assumes "pool_inv p"
  shows "used p = ({1..<frontier p} - free_set p) \<union> reserved_set p"
  using assms
  by (auto simp: used_def in_use_def pool_inv_def free_set_def reserved_set_def in_free_many_def
      split: option.splits if_splits)

lemma pool_inv_finite:
  assumes "pool_inv p"
  shows "finite (free_set p)" "finite (reserved_set p)" "finite (used p)"
    "free_many p = Some s \<Longrightarrow> finite s" "reserved p = Some s \<Longrightarrow> finite s"
proof -
  from assms have sub: "free_set p \<subseteq> {1..<frontier p}" "reserved_set p \<subseteq> {frontier p..MAX_ID}"
    by (auto simp: pool_inv_def)
  then show f: "finite (free_set p)" and r: "finite (reserved_set p)"
    by (auto intro: finite_subset)
  then show "finite (used p)" using used_eq [OF assms] by simp
  from f show "free_many p = Some s \<Longrightarrow> finite s" by (simp add: free_set_def)
  from r show "reserved p = Some s \<Longrightarrow> finite s" by (simp add: reserved_set_def)
qed

lemma keep_set_simps [simp]:
  "keep_set s \<noteq> Some {}" "(case keep_set s of None \<Rightarrow> {} | Some s \<Rightarrow> s) = s"
  "keep_set s = None \<longleftrightarrow> s = {}" "keep_set s = Some r \<longleftrightarrow> r = s \<and> s \<noteq> {}"
  by (auto simp: keep_set_def)

lemma skip_reserved_spec:
  assumes "finite r" "skip_reserved r mid = (r', m)"
  shows "mid \<le> m \<and> r' = r - {mid..<m} \<and> {mid..<m} \<subseteq> r \<and> m \<notin> r"
  using assms
proof (induction r mid arbitrary: r' m rule: skip_reserved.induct)
  case (1 r mid)
  note run = "1.prems"(2) [unfolded skip_reserved.simps [of r mid]]
  show ?case
  proof (cases "mid \<in> r")
    case True
    with run "1.prems"(1) have "skip_reserved (r - {mid}) (mid + 1) = (r', m)" by simp
    then have "mid + 1 \<le> m \<and> r' = r - {mid} - {mid + 1..<m} \<and> {mid + 1..<m} \<subseteq> r - {mid} \<and> m \<notin> r - {mid}"
      using True "1.prems"(1) by (intro "1.IH") auto
    moreover from this have "{mid..<m} = insert mid {mid + 1..<m}" by auto
    moreover have "m \<noteq> mid" using calculation(1) by linarith
    ultimately show ?thesis using True by auto
  next
    case False
    with run show ?thesis by auto
  qed
qed

lemma skip_reserved_empty [simp]: "skip_reserved {} m = ({}, m)"
  by (simp add: skip_reserved.simps)

subsection \<open>Every operation keeps the invariant and refines the abstract set\<close>

lemmas pool_simps = pool_inv_def free_set_def reserved_set_def in_free_many_def

lemma new_pool_inv: "pool_inv new_pool" "used new_pool = {}"
  by (auto simp: pool_simps new_pool_def MAX_ID_def used_def in_use_def)

lemma pool_clear_eq: "pool_clear p = new_pool"
  by (cases p) (simp add: pool_clear_def new_pool_def)

text \<open>Both ways of taking a free identifier shrink the free set by it.\<close>

lemma take_free:
  assumes "pool_inv p" "mid \<in> free_set p"
    and "free_set p' = free_set p - {mid}" "free_count p' = free_count p - 1"
    and "frontier p' = frontier p" "reserved p' = reserved p"
    and "free_one p' \<noteq> 0 \<longrightarrow> \<not> in_free_many (free_one p') p'" "free_many p' \<noteq> Some {}"
  shows "pool_inv p'" "used p' = insert mid (used p)"
proof -
  have fin: "finite (free_set p)" using assms(1) by (rule pool_inv_finite)
  then have "int (card (free_set p - {mid})) = int (card (free_set p)) - 1"
    using assms(2) card_gt_0_iff [of "free_set p"] by (auto simp: of_nat_diff)
  moreover have "reserved_set p' = reserved_set p" using assms(6) by (simp add: reserved_set_def)
  ultimately show inv: "pool_inv p'"
    using assms by (auto simp: pool_inv_def)
  show "used p' = insert mid (used p)"
  proof -
    have "reserved_set p' = reserved_set p" using assms(6) by (simp add: reserved_set_def)
    moreover have "mid \<in> {1..<frontier p}" using assms(1,2) by (auto simp: pool_inv_def)
    ultimately show ?thesis
      unfolding used_eq [OF inv] used_eq [OF assms(1)] assms(3,5) using assms(2) by blast
  qed
qed

lemma free_one_in: "free_one p \<noteq> 0 \<Longrightarrow> free_one p \<in> free_set p"
  by (simp add: free_set_def)

lemma take_free_one:
  assumes "pool_inv p" "free_one p \<noteq> 0"
  defines "p' \<equiv> p\<lparr>free_one := 0, free_count := free_count p - 1\<rparr>"
  shows "pool_inv p'" "used p' = insert (free_one p) (used p)"
proof -
  have one: "free_one p' = 0" and rest: "free_many p' = free_many p" "frontier p' = frontier p"
    "reserved p' = reserved p" "free_count p' = free_count p - 1"
    by (simp_all add: p'_def)
  have "free_set p' = free_set p - {free_one p}"
    using assms(1,2) one rest by (auto simp: free_set_def pool_inv_def in_free_many_def split: option.splits)
  from take_free [OF assms(1) free_one_in [OF assms(2)] this] one rest
  show "pool_inv p'" "used p' = insert (free_one p) (used p)"
    using assms(1) by (simp_all add: pool_inv_def)
qed

lemma take_free_many:
  assumes "pool_inv p" "free_many p = Some free" "mid \<in> free"
  defines "p' \<equiv> p\<lparr>free_many := keep_set (free - {mid}), free_count := free_count p - 1\<rparr>"
  shows "pool_inv p'" "used p' = insert mid (used p)"
proof -
  have rest: "free_one p' = free_one p" "frontier p' = frontier p"
    "reserved p' = reserved p" "free_count p' = free_count p - 1" "free_many p' = keep_set (free - {mid})"
    by (simp_all add: p'_def)
  have ne: "free_one p \<noteq> 0 \<Longrightarrow> free_one p \<notin> free"
    using assms(1-3) by (auto simp: pool_simps)
  then have set: "free_set p' = free_set p - {mid}"
    using rest assms(2,3) by (auto simp: free_set_def)
  have mem: "mid \<in> free_set p" using assms(2,3) by (simp add: free_set_def)
  have excl: "free_one p' \<noteq> 0 \<longrightarrow> \<not> in_free_many (free_one p') p'"
    using ne rest by (auto simp: in_free_many_def keep_set_def)
  from take_free [OF assms(1) mem set] rest excl
  show "pool_inv p'" "used p' = insert mid (used p)"
    by simp_all
qed

text \<open>Moving the frontier past a run of reservations.\<close>

lemma advance_frontier:
  assumes "pool_inv p" "frontier p \<le> m" "m \<le> MAX_ID + 1"
    and "{frontier p..<m} - {new} \<subseteq> reserved_set p"
    and "frontier p \<le> new" "new < m"
    and "p' = p\<lparr>reserved := keep_set (reserved_set p - {frontier p..<m}), frontier := m\<rparr>"
  shows "pool_inv p'" "used p' = insert new (used p)"
proof -
  show inv: "pool_inv p'"
    using assms(1-3) unfolding assms(7) by (auto simp: pool_simps)
  have "free_set p' = free_set p" "reserved_set p' = reserved_set p - {frontier p..<m}"
    unfolding assms(7) by (simp_all add: free_set_def reserved_set_def)
  have "frontier p' = m" unfolding assms(7) by simp
  have "free_set p \<subseteq> {1..<frontier p}" "1 \<le> frontier p" "reserved_set p \<subseteq> {frontier p..}"
    using assms(1) by (auto simp: pool_inv_def)
  show "used p' = insert new (used p)"
  proof -
    have split: "{1..<m} = {1..<frontier p} \<union> {frontier p..<m}" and disj: "{frontier p..<m} \<inter> free_set p = {}"
      using assms(2) \<open>1 \<le> frontier p\<close> \<open>free_set p \<subseteq> {1..<frontier p}\<close> by auto
    have "new \<in> {frontier p..<m}" using assms(5,6) by simp
    then show ?thesis
      unfolding used_eq [OF inv] used_eq [OF assms(1)] \<open>free_set p' = free_set p\<close>
        \<open>reserved_set p' = reserved_set p - {frontier p..<m}\<close> \<open>frontier p' = m\<close> split
      using disj assms(4) by blast
  qed
qed

lemma free_not_used:
  assumes "pool_inv p" "mid \<in> free_set p"
  shows "mid \<in> {1..MAX_ID} - used p"
proof -
  have "free_set p \<subseteq> {1..<frontier p}" "reserved_set p \<subseteq> {frontier p..MAX_ID}" "frontier p \<le> MAX_ID + 1"
    using assms(1) by (auto simp: pool_inv_def)
  with assms(2) have "1 \<le> mid" "mid < frontier p" "mid \<notin> reserved_set p" "mid \<le> MAX_ID" by force+
  with assms(2) show ?thesis unfolding used_eq [OF assms(1)] by simp
qed

lemma allocate_frontier_refines:
  assumes "pool_inv p" "free_set p = {}" "allocate_frontier p = (res, p')"
  shows "pool_inv p' \<and> (case res of
      Inr mid \<Rightarrow> mid \<in> {1..MAX_ID} - used p \<and> used p' = insert mid (used p)
    | Inl e \<Rightarrow> e = FlowControlError \<and> used p = {1..MAX_ID} \<and> used p' = used p)"
proof -
  obtain r' m where skip: "skip_reserved (reserved_set p) (frontier p) = (r', m)" by fastforce
  from skip_reserved_spec [OF pool_inv_finite(2) [OF assms(1)] skip]
  have m: "frontier p \<le> m" "r' = reserved_set p - {frontier p..<m}" "{frontier p..<m} \<subseteq> reserved_set p"
    "m \<notin> reserved_set p" by auto
  have bounds: "1 \<le> frontier p" "reserved_set p \<subseteq> {frontier p..MAX_ID}" "frontier p \<le> MAX_ID + 1"
    using assms(1) by (auto simp: pool_inv_def)
  have le: "m \<le> MAX_ID + 1"
  proof (rule ccontr)
    assume "\<not> m \<le> MAX_ID + 1"
    with bounds(3) have "MAX_ID + 1 \<in> {frontier p..<m}" by auto
    with m(3) have "MAX_ID + 1 \<in> reserved_set p" by (rule subsetD)
    with bounds(2) have "MAX_ID + 1 \<in> {frontier p..MAX_ID}" by (rule subsetD)
    then show False by simp
  qed
  define q where "q = p\<lparr>reserved := keep_set r', frontier := m\<rparr>"
  have loop: "(case reserved p of None \<Rightarrow> (frontier p, p)
       | Some r \<Rightarrow> let (r', mid) = skip_reserved r (frontier p) in (mid, p\<lparr>reserved := keep_set r', frontier := mid\<rparr>)) = (m, q)"
  proof (cases "reserved p")
    case None
    with skip have "r' = {}" "m = frontier p" by (simp_all add: reserved_set_def)
    with None show ?thesis by (cases p) (simp add: q_def keep_set_def)
  next
    case (Some r)
    with skip show ?thesis by (simp add: reserved_set_def q_def)
  qed
  show ?thesis
  proof (cases "m > MAX_ID")
    case True
    with le have m_top: "m = MAX_ID + 1" by simp
    have "pool_inv q"
      using assms(1) le m unfolding q_def m(2) by (auto simp: pool_simps)
    have full: "used p = {1..MAX_ID}"
    proof -
      have "{1..MAX_ID} = {1..<frontier p} \<union> {frontier p..<m}" using bounds m_top by auto
      with m(3) bounds(2) show ?thesis unfolding used_eq [OF assms(1)] assms(2) m_top by auto
    qed
    have "used q = used p"
    proof -
      have "free_set q = free_set p" by (simp add: q_def free_set_def)
      then have "free_set q = {}" using assms(2) by simp
      moreover have "reserved_set q = {}" "frontier q = m"
        using m(2) bounds(2) m_top by (auto simp: q_def reserved_set_def)
      ultimately show ?thesis using m_top full unfolding used_eq [OF \<open>pool_inv q\<close>] by auto
    qed
    with True loop full \<open>pool_inv q\<close> assms(3) show ?thesis by (auto simp: allocate_frontier_def)
  next
    case False
    define q' where "q' = q\<lparr>frontier := m + 1\<rparr>"
    have "q' = p\<lparr>reserved := keep_set (reserved_set p - {frontier p..<m + 1}), frontier := m + 1\<rparr>"
    proof -
      have "{frontier p..<m + 1} = insert m {frontier p..<m}" using m(1) by auto
      with m(4) have "reserved_set p - {frontier p..<m + 1} = r'" unfolding m(2) by auto
      then show ?thesis by (simp add: q'_def q_def)
    qed
    moreover have "{frontier p..<m + 1} - {m} \<subseteq> reserved_set p" using m(3) by (intro subsetI, elim subsetD) simp
    ultimately have "pool_inv q'" "used q' = insert m (used p)"
      using advance_frontier [OF assms(1), of "m + 1" m q'] m(1) False by simp_all
    moreover have "m \<notin> used p" using m(1,4) unfolding used_eq [OF assms(1)] by auto
    moreover have "(res, p') = (Inr m, q')" using loop False assms(3) by (simp add: allocate_frontier_def q'_def)
    ultimately show ?thesis using False bounds(1) m(1) by auto
  qed
qed

text \<open>Allocation returns an identifier in range that was not in use, and now is; it fails only
  when all 65535 are in use, and then changes nothing of the abstract state.\<close>

lemma allocate_refines:
  assumes "pops pick" "pool_inv p" "allocate pick p = (res, p')"
  shows "pool_inv p' \<and> (case res of
      Inr mid \<Rightarrow> mid \<in> {1..MAX_ID} - used p \<and> used p' = insert mid (used p)
    | Inl e \<Rightarrow> e = FlowControlError \<and> used p = {1..MAX_ID} \<and> used p' = used p)"
proof -
  have free: "mid \<in> free_set p \<Longrightarrow> mid \<in> {1..MAX_ID} - used p" for mid
    by (rule free_not_used [OF assms(2)])
  show ?thesis
  proof (cases "free_one p = 0")
    case False
    with assms(3) have "res = Inr (free_one p)" "p' = p\<lparr>free_one := 0, free_count := free_count p - 1\<rparr>"
      by (auto simp: allocate_def)
    with take_free_one [OF assms(2) False] free [OF free_one_in [OF False]] show ?thesis by simp
  next
    case True
    show ?thesis
    proof (cases "free_many p")
      case None
      with True have "free_set p = {}" by (simp add: free_set_def)
      moreover have "allocate_frontier p = (res, p')" using assms(3) True None by (simp add: allocate_def)
      ultimately show ?thesis using assms(2) by (intro allocate_frontier_refines)
    next
      case (Some f)
      have "f \<noteq> {}" "finite f" using assms(2) Some pool_inv_finite(4) by (auto simp: pool_inv_def)
      with assms(1) have pick: "pick f \<in> f" by (auto simp: pops_def)
      with assms(3) True Some \<open>f \<noteq> {}\<close>
      have "res = Inr (pick f)" "p' = p\<lparr>free_many := keep_set (f - {pick f}), free_count := free_count p - 1\<rparr>"
        by (auto simp: allocate_def Let_def)
      with take_free_many [OF assms(2) Some pick] free [of "pick f"] pick Some show ?thesis
        by (simp add: free_set_def)
    qed
  qed
qed

lemma reserve_refines:
  assumes "pool_inv p" "reserve mid p = (res, p')"
  shows "pool_inv p' \<and> (if mid \<in> {1..MAX_ID} then res = Inr () \<and> used p' = insert mid (used p)
     else res = Inl ValueError \<and> p' = p)"
proof (cases "mid \<in> {1..MAX_ID}")
  case False
  with assms show ?thesis by (auto simp: reserve_def)
next
  case True
  have bounds: "1 \<le> frontier p" "reserved_set p \<subseteq> {frontier p..MAX_ID}" "frontier p \<le> MAX_ID + 1"
      "free_set p \<subseteq> {1..<frontier p}"
    using assms(1) by (auto simp: pool_inv_def)
  consider (below) "mid < frontier p" | (at) "mid = frontier p" | (above) "mid > frontier p" by linarith
  then show ?thesis
  proof cases
    case below
    consider (one) "free_one p = mid" | (many) f where "free_one p \<noteq> mid" "free_many p = Some f" "mid \<in> f"
      | (busy) "free_one p \<noteq> mid" "\<not> in_free_many mid p"
      by (cases "free_many p") (auto simp: in_free_many_def)
    then show ?thesis
    proof cases
      case one
      with True have "free_one p \<noteq> 0" by auto
      from take_free_one [OF assms(1) this] one True below assms(2) show ?thesis by (auto simp: reserve_def)
    next
      case many
      from take_free_many [OF assms(1) many(2,3)] many True below assms(2) show ?thesis by (auto simp: reserve_def)
    next
      case busy
      with True below assms(2) have "p' = p" "res = Inr ()"
        by (auto simp: reserve_def in_free_many_def split: option.splits if_splits)
      moreover from busy True below have "mid \<in> used p" by (simp add: used_def in_use_def)
      ultimately show ?thesis using assms(1) True by auto
    qed
  next
    case at
    obtain r' m where skip: "skip_reserved (reserved_set p - {mid}) (mid + 1) = (r', m)" by fastforce
    from skip_reserved_spec [OF _ skip] pool_inv_finite(2) [OF assms(1)]
    have m: "mid + 1 \<le> m" "r' = reserved_set p - {mid} - {mid + 1..<m}" "{mid + 1..<m} \<subseteq> reserved_set p - {mid}"
      "m \<notin> reserved_set p - {mid}" by auto
    have "m \<le> MAX_ID + 1"
    proof (rule ccontr)
      assume "\<not> m \<le> MAX_ID + 1"
      with True have "MAX_ID + 1 \<in> {mid + 1..<m}" by auto
      with m(3) have "MAX_ID + 1 \<in> reserved_set p - {mid}" by (rule subsetD)
      with bounds(2) show False by force
    qed
    moreover have ivl: "{mid..<m} = insert mid {mid + 1..<m}" using m(1) by auto
    then have r': "r' = reserved_set p - {frontier p..<m}" using m(2) at by auto
    moreover have run: "(res, p') = (Inr (), p\<lparr>reserved := keep_set r', frontier := m\<rparr>)"
    proof (cases "reserved p")
      case None
      with skip have "r' = {}" "m = mid + 1" by (simp_all add: reserved_set_def)
      with None assms(2) True at show ?thesis by (cases p) (simp add: reserve_def keep_set_def)
    next
      case (Some r)
      with skip assms(2) True at show ?thesis by (simp add: reserve_def reserved_set_def)
    qed
    moreover have "{frontier p..<m} - {mid} \<subseteq> reserved_set p" using m(3) ivl at by auto
    ultimately show ?thesis
      using advance_frontier [OF assms(1), of m mid p'] m(1) at True by auto
  next
    case above
    with True assms(2) have p': "res = Inr ()" "p' = p\<lparr>reserved := Some (insert mid (reserved_set p))\<rparr>"
      by (auto simp: reserve_def reserved_set_def split: option.splits)
    have sets: "free_set p' = free_set p" "reserved_set p' = insert mid (reserved_set p)" "frontier p' = frontier p"
      using p'(2) by (simp_all add: free_set_def reserved_set_def)
    have inv: "pool_inv p'"
      using assms(1) True above sets unfolding pool_inv_def by (simp add: p'(2) in_free_many_def)
    have "used p' = insert mid (used p)"
      unfolding used_eq [OF inv] used_eq [OF assms(1)] sets by auto
    with inv p' True show ?thesis by simp
  qed
qed

text \<open>Giving an identifier below the frontier back, when its free slot is chosen.\<close>

lemma put_free:
  assumes "pool_inv p" "mid \<in> {1..<frontier p}" "mid \<notin> free_set p"
    and "free_set p' = insert mid (free_set p)" "free_count p' = free_count p + 1"
    and "frontier p' = frontier p" "reserved p' = reserved p"
    and "free_one p' \<noteq> 0 \<longrightarrow> \<not> in_free_many (free_one p') p'" "free_many p' \<noteq> Some {}"
  shows "pool_inv p'" "used p' = used p - {mid}"
proof -
  have res: "reserved_set p' = reserved_set p" using assms(7) by (simp add: reserved_set_def)
  have bounds: "reserved_set p \<subseteq> {frontier p..MAX_ID}" using assms(1) by (auto simp: pool_inv_def)
  have "finite (free_set p)" using assms(1) by (rule pool_inv_finite)
  with assms(3) have "int (card (insert mid (free_set p))) = int (card (free_set p)) + 1" by simp
  with res show inv: "pool_inv p'"
    using assms by (auto simp: pool_inv_def)
  have "mid \<notin> reserved_set p" using bounds assms(2) by force
  then show "used p' = used p - {mid}"
    unfolding used_eq [OF inv] used_eq [OF assms(1)] res assms(4,6) by blast
qed

lemma all_free_unused:
  assumes "pool_inv p" "free_count p = frontier p - 1" "reserved p = None"
  shows "used p = {}"
proof -
  have sub: "free_set p \<subseteq> {1..<frontier p}" and card: "int (card (free_set p)) = frontier p - 1" "1 \<le> frontier p"
    using assms by (auto simp: pool_inv_def)
  then have "card (free_set p) = card {1..<frontier p}" by simp
  with sub have "free_set p = {1..<frontier p}" by (intro card_subset_eq) auto
  then show ?thesis unfolding used_eq [OF assms(1)] using assms(3) by (simp add: reserved_set_def)
qed

text \<open>The free slot \<^verbatim>\<open>release\<close> chooses for an identifier below the frontier.\<close>

lemma release_slot:
  assumes "pool_inv p" "1 \<le> mid" "mid \<le> MAX_ID" "mid < frontier p"
    and "free_one p \<noteq> mid" "\<not> in_free_many mid p"
  shows "\<exists>q. release mid p = (if free_count p + 1 = frontier p - 1 \<and> reserved p = None then pool_clear q else q)
    \<and> frontier q = frontier p \<and> reserved q = reserved p \<and> free_count q = free_count p + 1
    \<and> free_set q = insert mid (free_set p) \<and> free_many q \<noteq> Some {}
    \<and> (free_one q \<noteq> 0 \<longrightarrow> \<not> in_free_many (free_one q) q)"
proof -
  have range: "\<not> (mid < 1 \<or> mid > MAX_ID)" using assms(2,3) by simp
  have mid: "mid \<noteq> 0" using assms(2) by simp
  show ?thesis
  proof (cases "free_one p = 0")
    case True
    show ?thesis
      by (rule exI [of _ "p\<lparr>free_one := mid, free_count := free_count p + 1\<rparr>"])
        (use assms range mid True in \<open>simp add: release_def in_free_many_def free_set_def pool_inv_def insert_commute Let_def\<close>)
  next
    case False
    show ?thesis
    proof (cases "free_many p")
      case None
      show ?thesis
        by (rule exI [of _ "p\<lparr>free_many := Some {mid}, free_count := free_count p + 1\<rparr>"])
          (use assms range mid False None in \<open>simp add: release_def in_free_many_def free_set_def insert_commute Let_def\<close>)
    next
      case (Some f)
      show ?thesis
        by (rule exI [of _ "p\<lparr>free_many := Some (insert mid f), free_count := free_count p + 1\<rparr>"])
          (use assms range mid False Some in \<open>simp add: release_def in_free_many_def free_set_def pool_inv_def insert_commute Let_def\<close>)
    qed
  qed
qed

lemma release_below:
  assumes "pool_inv p" "1 \<le> mid" "mid \<le> MAX_ID" "mid < frontier p"
  shows "pool_inv (release mid p) \<and> used (release mid p) = used p - {mid}"
proof (cases "mid \<in> free_set p")
  case True
  then have "free_one p = mid \<or> in_free_many mid p"
    by (auto simp: free_set_def in_free_many_def split: if_splits option.splits)
  then have "release mid p = p" using assms(2-4) by (auto simp: release_def)
  with assms(1) free_not_used [OF assms(1) True] show ?thesis by simp
next
  case False
  have nfree: "free_one p \<noteq> mid" "\<not> in_free_many mid p"
    using False assms(2) by (auto simp: free_set_def in_free_many_def split: if_splits option.splits)
  obtain q where run: "release mid p = (if free_count p + 1 = frontier p - 1 \<and> reserved p = None then pool_clear q else q)"
    and keep: "frontier q = frontier p" "reserved q = reserved p" "free_count q = free_count p + 1"
    and set: "free_set q = insert mid (free_set p)" and many: "free_many q \<noteq> Some {}"
    and excl: "free_one q \<noteq> 0 \<longrightarrow> \<not> in_free_many (free_one q) q"
    using release_slot [OF assms nfree] by (elim exE conjE) (rule that)
  have inv: "pool_inv q" and used: "used q = used p - {mid}"
    using put_free [OF assms(1) _ False set keep(3,1,2) excl many] assms(2,4) by auto
  show ?thesis
  proof (cases "free_count p + 1 = frontier p - 1 \<and> reserved p = None")
    case True
    then have "release mid p = new_pool" using run unfolding pool_clear_eq by (simp only: if_True simp_thms)
    moreover have "free_count q = frontier q - 1" "reserved q = None" using True unfolding keep by simp_all
    then have "used q = {}" by (rule all_free_unused [OF inv])
    ultimately show ?thesis unfolding used [symmetric] using new_pool_inv by simp
  next
    case False
    then have "release mid p = q" using run by (simp only: if_False)
    with inv used show ?thesis by simp
  qed
qed

lemma release_above:
  assumes "pool_inv p" "1 \<le> mid" "mid \<le> MAX_ID" "frontier p \<le> mid"
  shows "pool_inv (release mid p) \<and> used (release mid p) = used p - {mid}"
proof (cases "mid \<in> reserved_set p")
  case False
  then have "release mid p = p"
    using assms(2-4) by (cases "reserved p") (simp_all add: release_def reserved_set_def)
  moreover have "mid \<notin> used p" using False assms(4) unfolding used_eq [OF assms(1)] by auto
  ultimately show ?thesis using assms by simp
next
  case True
  then obtain r where r: "reserved p = Some r" "mid \<in> r" by (auto simp: reserved_set_def split: option.splits)
  define q where "q = p\<lparr>reserved := keep_set (r - {mid})\<rparr>"
  have sets: "reserved_set q = reserved_set p - {mid}" "free_set q = free_set p" "frontier q = frontier p"
      "free_count q = free_count p"
    by (simp_all add: q_def reserved_set_def free_set_def r)
  have inv: "pool_inv q"
    using assms(1) by (auto simp: pool_inv_def sets) (auto simp: q_def in_free_many_def)
  have used: "used q = used p - {mid}"
    using assms(4) unfolding used_eq [OF inv] used_eq [OF assms(1)] sets by auto
  have run: "release mid p = (if reserved q = None \<and> free_count p = frontier p - 1 then pool_clear q else q)"
    using assms(2-4) r by (simp add: release_def q_def keep_set_def)
  show ?thesis
  proof (cases "reserved q = None \<and> free_count p = frontier p - 1")
    case True
    then have "release mid p = new_pool" using run unfolding pool_clear_eq by (simp only: if_True simp_thms)
    moreover have "free_count q = frontier q - 1" "reserved q = None" using True unfolding sets by simp_all
    then have "used q = {}" by (rule all_free_unused [OF inv])
    ultimately show ?thesis unfolding used [symmetric] using new_pool_inv by simp
  next
    case False
    then have "release mid p = q" using run by (simp only: if_False)
    with inv used show ?thesis by simp
  qed
qed

lemma release_refines:
  assumes "pool_inv p"
  shows "pool_inv (release mid p) \<and> used (release mid p) = used p - {mid}"
proof (cases "1 \<le> mid \<and> mid \<le> MAX_ID")
  case True
  with assms show ?thesis using release_below [of p mid] release_above [of p mid] by linarith
next
  case False
  then have "release mid p = p" "mid \<notin> used p" by (auto simp: release_def used_def in_use_def)
  with assms show ?thesis by simp
qed

lemma pool_len_card:
  assumes "pool_inv p"
  shows "pool_len p = int (card (used p))"
proof -
  have sub: "free_set p \<subseteq> {1..<frontier p}" "reserved_set p \<subseteq> {frontier p..MAX_ID}"
    and fc: "free_count p = int (card (free_set p))" "1 \<le> frontier p"
    using assms by (auto simp: pool_inv_def)
  have fin: "finite (free_set p)" "finite (reserved_set p)" using assms by (auto intro: pool_inv_finite)
  have "({1..<frontier p} - free_set p) \<inter> reserved_set p = {}" using sub(2) by force
  then have "card (used p) = card ({1..<frontier p} - free_set p) + card (reserved_set p)"
    unfolding used_eq [OF assms] using fin by (simp add: card_Un_disjoint)
  also have "card ({1..<frontier p} - free_set p) = card {1..<frontier p} - card (free_set p)"
    using sub(1) fin(1) by (rule card_Diff_subset [rotated])
  finally have "int (card (used p)) = frontier p - 1 - int (card (free_set p)) + int (card (reserved_set p))"
    using card_mono [OF _ sub(1)] fc(2) by (simp add: of_nat_diff)
  then show ?thesis
    unfolding pool_len_def Let_def fc(1) by (simp add: reserved_set_def split: option.splits)
qed

subsection \<open>The contract of an identifier pool\<close>

text \<open>
  What the outbound session relies on: the pool keeps a set of identifiers in use, allocation hands
  out an identifier that is not one of them and fails only when none is left.
\<close>

locale id_pool =
  fixes inv :: "'s \<Rightarrow> bool" and ids :: "'s \<Rightarrow> int set" and initial :: 's
    and choice :: "'c \<Rightarrow> bool" and alloc :: "'c \<Rightarrow> 's \<Rightarrow> int result \<times> 's"
    and claim :: "int \<Rightarrow> 's \<Rightarrow> unit result \<times> 's" and free :: "int \<Rightarrow> 's \<Rightarrow> 's"
  assumes initial: "inv initial" "ids initial = {}"
    and ids_range: "inv s \<Longrightarrow> ids s \<subseteq> {1..MAX_ID}"
    and alloc_law: "choice c \<Longrightarrow> inv s \<Longrightarrow> alloc c s = (res, s') \<Longrightarrow> inv s' \<and> (case res of
        Inr mid \<Rightarrow> mid \<in> {1..MAX_ID} - ids s \<and> ids s' = insert mid (ids s)
      | Inl e \<Rightarrow> e = FlowControlError \<and> ids s = {1..MAX_ID} \<and> ids s' = ids s)"
    and claim_law: "inv s \<Longrightarrow> claim mid s = (ack, s') \<Longrightarrow> inv s' \<and> (if mid \<in> {1..MAX_ID}
        then ack = Inr () \<and> ids s' = insert mid (ids s) else ack = Inl ValueError \<and> s' = s)"
    and free_law: "inv s \<Longrightarrow> inv (free mid s) \<and> ids (free mid s) = ids s - {mid}"
begin

fun allocs :: "'c \<Rightarrow> nat \<Rightarrow> 's \<Rightarrow> int list result \<times> 's" where
  "allocs c 0 s = (Inr [], s)"
| "allocs c (Suc n) s =
     (case alloc c s of
        (Inl e, s') \<Rightarrow> (Inl e, s')
      | (Inr mid, s') \<Rightarrow>
          (case allocs c n s' of (Inl e, t) \<Rightarrow> (Inl e, t) | (Inr mids, t) \<Rightarrow> (Inr (mid # mids), t)))"

lemma finite_ids: "inv s \<Longrightarrow> finite (ids s)"
  using ids_range finite_subset by blast

lemma alloc_succeeds:
  assumes "choice c" "inv s" "card (ids s) < nat MAX_ID"
  shows "\<exists>mid s'. alloc c s = (Inr mid, s') \<and> inv s' \<and> mid \<in> {1..MAX_ID} - ids s \<and> ids s' = insert mid (ids s)"
proof -
  obtain res s' where run: "alloc c s = (res, s')" by fastforce
  from alloc_law [OF assms(1,2) run] assms(3) run show ?thesis
    by (cases res) (auto simp: MAX_ID_def)
qed

lemma alloc_free_round_trip:
  assumes "choice c" "inv s" "alloc c s = (Inr mid, s')"
  shows "ids (free mid s') = ids s"
  using alloc_law [OF assms] free_law [of s' mid] by auto

text \<open>A burst of allocations succeeds as long as enough identifiers are free, and returns pairwise
  distinct identifiers none of which was in use.\<close>

lemma allocs_distinct:
  assumes "choice c" "inv s" "card (ids s) + n \<le> nat MAX_ID"
  shows "\<exists>mids s'. allocs c n s = (Inr mids, s') \<and> inv s' \<and> length mids = n \<and> distinct mids
    \<and> set mids \<subseteq> {1..MAX_ID} - ids s \<and> ids s' = ids s \<union> set mids"
  using assms(2,3)
proof (induction n arbitrary: s)
  case 0
  then show ?case by simp
next
  case (Suc n)
  then obtain mid s' where one: "alloc c s = (Inr mid, s')" "inv s'" "mid \<in> {1..MAX_ID} - ids s"
      "ids s' = insert mid (ids s)"
    using alloc_succeeds [OF assms(1) Suc.prems(1)] by auto
  moreover have "card (ids s') + n \<le> nat MAX_ID"
    using one Suc.prems finite_ids [of s] by simp
  ultimately obtain mids t where "allocs c n s' = (Inr mids, t)" "inv t" "length mids = n" "distinct mids"
      "set mids \<subseteq> {1..MAX_ID} - ids s'" "ids t = ids s' \<union> set mids"
    using Suc.IH [of s'] by blast
  with one show ?case by auto
qed

end

lemma used_range: "used p \<subseteq> {1..MAX_ID}"
  by (auto simp: used_def in_use_def split: if_splits)

interpretation mids: id_pool pool_inv used new_pool pops allocate reserve release
proof
  show "pool_inv new_pool" "used new_pool = {}" by (fact new_pool_inv)+
  show "used s \<subseteq> {1..MAX_ID}" for s by (fact used_range)
qed (fact allocate_refines, fact reserve_refines, fact release_refines)

subsection \<open>Any sequence of operations\<close>

datatype pool_op = OpAllocate | OpReserve int | OpRelease int | OpClear

fun pool_step :: "(int set \<Rightarrow> int) \<Rightarrow> pool_op \<Rightarrow> pool \<Rightarrow> pool" where
  "pool_step pick OpAllocate p = snd (allocate pick p)"
| "pool_step pick (OpReserve mid) p = snd (reserve mid p)"
| "pool_step pick (OpRelease mid) p = release mid p"
| "pool_step pick OpClear p = pool_clear p"

lemma pool_step_inv:
  assumes "pops pick" "pool_inv p"
  shows "pool_inv (pool_step pick op p)"
proof (cases op)
  case OpAllocate
  then show ?thesis using allocate_refines [OF assms, of "fst (allocate pick p)" "snd (allocate pick p)"] by simp
next
  case (OpReserve mid)
  then show ?thesis using reserve_refines [OF assms(2), of mid "fst (reserve mid p)" "snd (reserve mid p)"] by simp
qed (use assms(2) in \<open>simp_all add: release_refines pool_clear_eq new_pool_inv\<close>)

lemma pool_run_inv: "pops pick \<Longrightarrow> pool_inv p \<Longrightarrow> pool_inv (fold (pool_step pick) ops p)"
  by (induction ops arbitrary: p) (simp_all add: pool_step_inv)

lemma pops_Min: "pops Min"
  by (simp add: pops_def)

text \<open>
  C23. After any sequence of allocate, reserve, release and clear calls on a new pool, the identifier
  counter reported by \<^verbatim>\<open>len()\<close> is the number of identifiers in use, a further
  \<^verbatim>\<open>allocate\<close> returns an identifier between 1 and 65535 that was not in use and marks exactly it,
  and it raises \<^verbatim>\<open>FlowControlError\<close> only when all 65535 are in use, leaving them so. The
  unspecified choice of \<^verbatim>\<open>set.pop\<close> is the parameter \<open>pick\<close>.
\<close>

theorem allocate_fresh:
  fixes pick :: "int set \<Rightarrow> int" and ops :: "pool_op list"
  assumes "pops pick"
  defines "p \<equiv> fold (pool_step pick) ops new_pool"
  shows "pool_len p = int (card {mid. in_use mid p}) \<and>
    (case allocate pick p of
       (Inr mid, p') \<Rightarrow> 1 \<le> mid \<and> mid \<le> MAX_ID \<and> \<not> in_use mid p
         \<and> (\<forall>m. in_use m p' = (m = mid \<or> in_use m p))
     | (Inl e, p') \<Rightarrow> e = FlowControlError \<and> pool_available p = 0
         \<and> (\<forall>m. in_use m p' = (1 \<le> m \<and> m \<le> MAX_ID)))"
proof -
  have inv: "pool_inv p" unfolding p_def using assms(1) new_pool_inv by (simp add: pool_run_inv)
  obtain res p' where run: "allocate pick p = (res, p')" by fastforce
  have iff: "in_use m q \<longleftrightarrow> m \<in> used q" for m q by (simp add: used_def)
  have len: "pool_len p = int (card (used p))" by (rule pool_len_card [OF inv])
  from mids.alloc_law [OF assms(1) inv run] show ?thesis
    unfolding run used_def [symmetric] unfolding iff using len
    by (cases res) (simp_all add: pool_available_def MAX_ID_def)
qed

theorem allocate_fresh_witness:
  "allocate Min (fold (pool_step Min) [OpAllocate, OpReserve 3, OpAllocate, OpRelease 1] new_pool)
     = (Inr 1, \<lparr>free_count = 0, free_one = 0, free_many = None, reserved = Some {3}, frontier = 3\<rparr>)
   \<and> pool_len (fold (pool_step Min) [OpAllocate, OpReserve 3, OpAllocate, OpRelease 1] new_pool) = 2"
  using allocate_fresh [OF pops_Min, of "[OpAllocate, OpReserve 3, OpAllocate, OpRelease 1]"]
  by (simp add: allocate_def allocate_frontier_def reserve_def release_def new_pool_def MAX_ID_def
      in_free_many_def pool_len_def skip_reserved.simps keep_set_def)

text \<open>
  Reserving an identifier in range marks it in use and nothing else, whatever it was before;
  out of range it raises \<^verbatim>\<open>ValueError\<close> and changes nothing. Releasing an identifier frees it
  and nothing else, and a second release, or one out of range, changes nothing of the identifiers in
  use: no identifier is ever counted twice.
\<close>

theorem reserve_release_exact:
  fixes pick :: "int set \<Rightarrow> int" and ops :: "pool_op list"
  assumes "pops pick"
  defines "p \<equiv> fold (pool_step pick) ops new_pool"
  shows "(case reserve mid p of
       (Inr _, p') \<Rightarrow> 1 \<le> mid \<and> mid \<le> MAX_ID \<and> (\<forall>m. in_use m p' = (m = mid \<or> in_use m p))
         \<and> pool_len p' = pool_len p + (if in_use mid p then 0 else 1)
     | (Inl e, p') \<Rightarrow> e = ValueError \<and> \<not> (1 \<le> mid \<and> mid \<le> MAX_ID) \<and> p' = p)
    \<and> (\<forall>m. in_use m (release mid p) = (m \<noteq> mid \<and> in_use m p))
    \<and> pool_len (release mid p) = pool_len p - (if in_use mid p then 1 else 0)"
proof -
  have inv: "pool_inv p" unfolding p_def using assms(1) new_pool_inv by (simp add: pool_run_inv)
  obtain res p' where run: "reserve mid p = (res, p')" by fastforce
  have iff: "in_use m q \<longleftrightarrow> m \<in> used q" for m q by (simp add: used_def)
  note res = mids.claim_law [OF inv run] and rel = mids.free_law [OF inv, of mid]
  have fin: "finite (used p)" using inv by (rule pool_inv_finite)
  have len: "pool_len p = int (card (used p))" "pool_len p' = int (card (used p'))"
      "pool_len (release mid p) = int (card (used (release mid p)))"
    by (rule pool_len_card, rule inv conjunct1 [OF res] conjunct1 [OF rel])+
  have "case res of Inr _ \<Rightarrow> 1 \<le> mid \<and> mid \<le> MAX_ID \<and> (\<forall>m. in_use m p' = (m = mid \<or> in_use m p))
         \<and> pool_len p' = pool_len p + (if in_use mid p then 0 else 1)
     | Inl e \<Rightarrow> e = ValueError \<and> \<not> (1 \<le> mid \<and> mid \<le> MAX_ID) \<and> p' = p"
    using res len(1,2) fin unfolding iff by (cases res) (simp_all add: card_insert_if split: if_splits)
  moreover have "pool_len (release mid p) = pool_len p - (if in_use mid p then 1 else 0)"
    using rel len(1,3) fin card_Suc_Diff1 [of "used p" mid] unfolding iff by (cases "mid \<in> used p") simp_all
  ultimately show ?thesis using rel unfolding run iff by (cases res) auto
qed

theorem reserve_release_exact_witness:
  "pool_len (release 2 (release 2 (snd (reserve 2 (snd (reserve 2 (fold (pool_step Min) [OpAllocate] new_pool)))))))
     = 1"
  using reserve_release_exact [OF pops_Min, of 2 "[OpAllocate]"]
  by (simp add: allocate_def allocate_frontier_def reserve_def release_def new_pool_def MAX_ID_def
      in_free_many_def pool_len_def skip_reserved.simps keep_set_def)

end
