(* ===== verification/Flow_Control.thy ===== *)
theory Flow_Control
  imports Prelude
begin

text \<open>
  The outbound QoS 1/2 window, \<^verbatim>\<open>src/src/mqttium/protocol/flow_control.py\<close>: a limit and the set
  of packet identifiers that hold a slot. The contract \<^verbatim>\<open>send_quota\<close> is what the outbound
  session relies on: no more than the limit is ever held, and only its owner frees a slot.
\<close>

subsection \<open>State and operations\<close>

record flow =
  flow_limit :: int
  holders :: "int set"

definition new_flow :: "int \<Rightarrow> flow" where
  "new_flow limit = \<lparr>flow_limit = max 1 limit, holders = {}\<rparr>"

definition set_limit :: "int \<Rightarrow> flow \<Rightarrow> flow" where
  "set_limit value f = f\<lparr>flow_limit := max 1 value\<rparr>"

definition inflight :: "flow \<Rightarrow> int" where
  "inflight f = int (card (holders f))"

definition flow_available :: "flow \<Rightarrow> int" where
  "flow_available f = max 0 (flow_limit f - int (card (holders f)))"

definition holds :: "int \<Rightarrow> flow \<Rightarrow> bool" where
  "holds mid f \<longleftrightarrow> mid \<in> holders f"

definition try_acquire :: "int \<Rightarrow> flow \<Rightarrow> bool result \<times> flow" where
  "try_acquire mid f =
     (let count = card (holders f)
      in if int count \<ge> flow_limit f then (Inr False, f)
         else
           (let f' = f\<lparr>holders := insert mid (holders f)\<rparr>
            in if card (holders f') = count then (Inl AssertionError, f') else (Inr True, f')))"

definition flow_release :: "int \<Rightarrow> flow \<Rightarrow> bool \<times> flow" where
  "flow_release mid f =
     (if mid \<in> holders f then (True, f\<lparr>holders := holders f - {mid}\<rparr>) else (False, f))"

definition flow_reset :: "flow \<Rightarrow> flow" where
  "flow_reset f = f\<lparr>holders := {}\<rparr>"

definition apply_broker_receive_maximum :: "int \<Rightarrow> int option \<Rightarrow> flow \<Rightarrow> flow" where
  "apply_broker_receive_maximum receive_maximum local_outbound f =
     (let limit = max 1 receive_maximum;
          limit' = (case local_outbound of None \<Rightarrow> limit | Some cap \<Rightarrow> max 1 (min limit cap))
      in f\<lparr>flow_limit := limit'\<rparr>)"

subsection \<open>The contract of a send quota\<close>

text \<open>A Python set is finite, and every limit that is stored is at least one.\<close>

definition flow_inv :: "flow \<Rightarrow> bool" where
  "flow_inv f \<longleftrightarrow> finite (holders f) \<and> 1 \<le> flow_limit f"

locale send_quota =
  fixes inv :: "'s \<Rightarrow> bool" and cap :: "'s \<Rightarrow> int" and held :: "'s \<Rightarrow> int set"
    and acquire :: "int \<Rightarrow> 's \<Rightarrow> bool result \<times> 's" and free :: "int \<Rightarrow> 's \<Rightarrow> bool \<times> 's"
  assumes finite_held: "inv s \<Longrightarrow> finite (held s)" and cap_pos: "inv s \<Longrightarrow> 1 \<le> cap s"
    and acquire_law: "inv s \<Longrightarrow> acquire mid s = (res, s') \<Longrightarrow> inv s' \<and> cap s' = cap s \<and>
      (if int (card (held s)) \<ge> cap s then res = Inr False \<and> s' = s
       else if mid \<in> held s then res = Inl AssertionError \<and> s' = s
       else res = Inr True \<and> held s' = insert mid (held s))"
    and free_law: "inv s \<Longrightarrow> free mid s = (b, s') \<Longrightarrow> inv s' \<and> cap s' = cap s \<and>
      b = (mid \<in> held s) \<and> held s' = held s - {mid}"
begin

text \<open>The operations of an exchange, one after the other, whatever they return.\<close>

fun quota_run :: "(bool \<times> int) list \<Rightarrow> 's \<Rightarrow> 's" where
  "quota_run [] s = s"
| "quota_run ((True, mid) # ops) s = quota_run ops (snd (acquire mid s))"
| "quota_run ((False, mid) # ops) s = quota_run ops (snd (free mid s))"

lemma acquire_bound:
  assumes "inv s" "int (card (held s)) \<le> cap s" "acquire mid s = (res, s')"
  shows "int (card (held s')) \<le> cap s'"
  using acquire_law [OF assms(1,3)] assms(2) finite_held [OF assms(1)]
  by (auto simp: card_insert_if split: if_splits)

lemma free_bound:
  assumes "inv s" "int (card (held s)) \<le> cap s" "free mid s = (b, s')"
  shows "int (card (held s')) \<le> cap s'"
proof -
  have "card (held s - {mid}) \<le> card (held s)"
    by (rule card_Diff1_le)
  with free_law [OF assms(1,3)] assms(2) show ?thesis by simp
qed

lemma quota_run_bound:
  "inv s \<Longrightarrow> int (card (held s)) \<le> cap s \<Longrightarrow>
   inv (quota_run ops s) \<and> cap (quota_run ops s) = cap s \<and> int (card (held (quota_run ops s))) \<le> cap s"
proof (induction ops s rule: quota_run.induct)
  case (1 s)
  then show ?case by simp
next
  case (2 mid ops s)
  obtain res s' where run: "acquire mid s = (res, s')" by fastforce
  from acquire_law [OF 2(2) run] acquire_bound [OF 2(2,3) run] 2(1) run show ?case by simp
next
  case (3 mid ops s)
  obtain b s' where run: "free mid s = (b, s')" by fastforce
  from free_law [OF 3(2) run] free_bound [OF 3(2,3) run] 3(1) run show ?case by simp
qed

lemma acquire_free:
  assumes "inv s" "acquire mid s = (Inr True, s')" "free mid s' = (b, t)"
  shows "b \<and> held t = held s \<and> cap t = cap s"
proof -
  from acquire_law [OF assms(1,2)] have a: "inv s'" "cap s' = cap s" "mid \<notin> held s" "held s' = insert mid (held s)"
    by (auto split: if_splits)
  from free_law [OF a(1) assms(3)] a show ?thesis by auto
qed

end

lemma try_acquire_law:
  assumes "flow_inv f" "try_acquire mid f = (res, f')"
  shows "flow_inv f' \<and> flow_limit f' = flow_limit f \<and>
      (if int (card (holders f)) \<ge> flow_limit f then res = Inr False \<and> f' = f
       else if mid \<in> holders f then res = Inl AssertionError \<and> f' = f
       else res = Inr True \<and> holders f' = insert mid (holders f))"
proof -
  have "finite (holders f)" using assms(1) by (simp add: flow_inv_def)
  then show ?thesis
    using assms by (cases f) (auto simp: try_acquire_def flow_inv_def Let_def insert_absorb split: if_splits)
qed

interpretation quota: send_quota flow_inv flow_limit holders try_acquire flow_release
proof
  show "flow_inv f \<Longrightarrow> finite (holders f)" "flow_inv f \<Longrightarrow> 1 \<le> flow_limit f" for f
    by (simp_all add: flow_inv_def)
  show "flow_inv f \<Longrightarrow> flow_release mid f = (b, f') \<Longrightarrow> flow_inv f' \<and> flow_limit f' = flow_limit f \<and>
      b = (mid \<in> holders f) \<and> holders f' = holders f - {mid}" for f f' mid b
    by (cases f) (auto simp: flow_inv_def flow_release_def split: if_splits)
qed (fact try_acquire_law)

lemma flow_inv_ops:
  "flow_inv (new_flow limit)" "flow_inv f \<Longrightarrow> flow_inv (set_limit v f)" "flow_inv f \<Longrightarrow> flow_inv (flow_reset f)"
  "flow_inv f \<Longrightarrow> flow_inv (apply_broker_receive_maximum r cap f)"
  by (auto simp: flow_inv_def new_flow_def set_limit_def flow_reset_def apply_broker_receive_maximum_def Let_def
      split: option.splits)

text \<open>One call on the window: an acquisition or a release, by packet identifier.\<close>

definition flow_call :: "bool \<times> int \<Rightarrow> flow \<Rightarrow> flow" where
  "flow_call c f = (if fst c then snd (try_acquire (snd c) f) else snd (flow_release (snd c) f))"

lemma flow_calls_eq: "fold flow_call ops f = quota.quota_run ops f"
  by (induction ops f rule: quota.quota_run.induct) (simp_all add: flow_call_def)

text \<open>
  C24. Once the limit is the smaller of the broker's Receive Maximum and the local cap (each at
  least 1), no sequence of acquisitions and releases on the emptied window makes more than that
  limit of exchanges hold a slot; an acquisition is refused exactly when the window is full, and
  a release by an exchange that holds no slot leaves every slot with its owner.
\<close>

theorem send_window_bound:
  fixes f :: flow and ops :: "(bool \<times> int) list" and r :: int and cap :: "int option"
  assumes "flow_inv f"
  defines "g \<equiv> fold flow_call ops (flow_reset (apply_broker_receive_maximum r cap f))"
  shows "flow_limit g = max 1 (case cap of None \<Rightarrow> r | Some c \<Rightarrow> min r c)
    \<and> inflight g \<le> flow_limit g
    \<and> flow_available g = flow_limit g - inflight g
    \<and> (fst (try_acquire mid g) = Inr False) = (inflight g = flow_limit g)
    \<and> (\<not> holds mid g \<longrightarrow> flow_release mid g = (False, g))"
proof -
  define f0 where "f0 = flow_reset (apply_broker_receive_maximum r cap f)"
  have inv: "flow_inv f0" using assms(1) by (simp add: f0_def flow_inv_ops)
  have none: "holders f0 = {}" and lim: "flow_limit f0 = max 1 (case cap of None \<Rightarrow> r | Some c \<Rightarrow> min r c)"
    by (auto simp: f0_def flow_reset_def apply_broker_receive_maximum_def Let_def split: option.splits)
  have "int (card (holders f0)) \<le> flow_limit f0" using none inv by (simp add: flow_inv_def)
  from quota.quota_run_bound [OF inv this, of ops]
  have g: "flow_inv g" "flow_limit g = flow_limit f0" "inflight g \<le> flow_limit g"
    unfolding g_def f0_def flow_calls_eq by (simp_all add: inflight_def)
  obtain res g' where run: "try_acquire mid g = (res, g')" by fastforce
  from quota.acquire_law [OF g(1) run] g(3)
  have "(res = Inr False) = (inflight g = flow_limit g)" by (auto simp: inflight_def split: if_splits)
  with g lim run show ?thesis by (auto simp: flow_available_def inflight_def holds_def flow_release_def)
qed

theorem send_window_bound_witness:
  "inflight (fold flow_call [(True, 7), (True, 8), (True, 9), (False, 4)]
     (flow_reset (apply_broker_receive_maximum 10 (Some 2) (new_flow 65535)))) = 2"
  using send_window_bound [OF flow_inv_ops(1), where ops = "[(True, 7), (True, 8), (True, 9), (False, 4)]"
      and r = 10 and cap = "Some 2" and mid = 7]
  by (simp add: inflight_def flow_call_def try_acquire_def flow_release_def flow_reset_def new_flow_def
      apply_broker_receive_maximum_def)

end
