(* ===== verification/Vbi.thy ===== *)
theory Vbi
  imports Prelude
begin

text \<open>
  Variable Byte Integers, \<^verbatim>\<open>src/src/mqttium/codec/vbi.py\<close>: the encoder, its appending
  twin, the decoder with its canonicity check, and the length table. The lemmas show that the
  decoder accepts exactly the encoder's outputs: it is a left inverse on every value in range
  and every accepted byte run is the encoding of the value it returns.
\<close>

subsection \<open>Operations\<close>

definition MAX_VBI :: int where
  "MAX_VBI = 268435455"

text \<open>The digit loop shared by \<^verbatim>\<open>encode_vbi\<close> and \<^verbatim>\<open>append_vbi\<close>, on a value already known
  to be non-negative.\<close>

function vbi_loop :: "int \<Rightarrow> bytes" where
  "vbi_loop value =
     (let digit = value mod 128;
          value' = value div 128;
          digit' = (if value' > 0 then digit OR 0x80 else digit)
      in if value' \<le> 0 then [byte_of digit']
         else byte_of digit' # vbi_loop value')"
  by pat_completeness auto
termination
  by (relation "measure nat") auto

declare vbi_loop.simps [simp del]

definition encode_vbi :: "int \<Rightarrow> bytes result" where
  "encode_vbi value =
     (if value < 128 then
        if value < 0 then Inl ValueError else Inr [byte_of value]
      else if value > MAX_VBI then Inl ValueError
      else Inr (vbi_loop value))"

definition append_vbi :: "bytes \<Rightarrow> int \<Rightarrow> bytes result" where
  "append_vbi buf value =
     (if \<not> (0 \<le> value \<and> value \<le> MAX_VBI) then Inl ValueError
      else Inr (buf @ vbi_loop value))"

definition vbi_len :: "int \<Rightarrow> nat result" where
  "vbi_len value =
     (if \<not> (0 \<le> value \<and> value \<le> MAX_VBI) then Inl ValueError
      else if value < 128 then Inr 1
      else if value < 16384 then Inr 2
      else if value < 2097152 then Inr 3
      else Inr 4)"

text \<open>The continuation loop of the decoder: multiplier, value so far, read position and number
  of bytes read; it returns the value, the position after it and the number of bytes.\<close>

function decode_vbi_loop ::
  "bytes \<Rightarrow> nat \<Rightarrow> int \<Rightarrow> int \<Rightarrow> nat \<Rightarrow> nat \<Rightarrow> (int \<times> nat \<times> nat) result" where
  "decode_vbi_loop buffer len multiplier value pos encoded_bytes =
     (if pos \<ge> len then Inl MalformedPacketError
      else if encoded_bytes + 1 > 4 then Inl MalformedPacketError
      else rbind (byte_at buffer pos) (\<lambda>byte.
        let value' = value + (byte AND 0x7F) * multiplier
        in if byte AND 0x80 = 0 then Inr (value', pos + 1, encoded_bytes + 1)
           else decode_vbi_loop buffer len (multiplier * 128) value' (pos + 1) (encoded_bytes + 1)))"
  by pat_completeness auto
termination
  by (relation "measure (\<lambda>(buffer, len, multiplier, value, pos, encoded_bytes). 4 - encoded_bytes)") auto

declare decode_vbi_loop.simps [simp del]

definition decode_vbi :: "bytes \<Rightarrow> nat \<Rightarrow> nat option \<Rightarrow> (int \<times> nat) result" where
  "decode_vbi buffer offset end =
     (let len = (case end of None \<Rightarrow> length buffer | Some e \<Rightarrow> e)
      in if offset \<ge> len then Inl MalformedPacketError
         else rbind (byte_at buffer offset) (\<lambda>first.
           if first < 128 then Inr (first, offset + 1)
           else rbind (decode_vbi_loop buffer len 128 (first AND 0x7F) (offset + 1) 1)
             (\<lambda>(value, pos, encoded_bytes).
               rbind (vbi_len value) (\<lambda>n.
                 if encoded_bytes \<noteq> n then Inl MalformedPacketError
                 else Inr (value, pos)))))"

subsection \<open>The digits of a value\<close>

lemma vbi_loop_last: "0 \<le> v \<Longrightarrow> v < 128 \<Longrightarrow> vbi_loop v = [byte_of v]"
  by (subst vbi_loop.simps) (simp add: Let_def)

lemma vbi_loop_step:
  assumes "128 \<le> v"
  shows "vbi_loop v = byte_of (v mod 128 + 128) # vbi_loop (v div 128)"
proof -
  from assms have "v div 128 > 0" by (simp add: pos_imp_zdiv_pos_iff)
  then show ?thesis
    by (subst vbi_loop.simps) (simp add: Let_def int_or_80)
qed

lemma vbi_loop_nonempty [simp]: "vbi_loop v \<noteq> []"
  by (subst vbi_loop.simps) (simp add: Let_def)

lemma vbi_loop_induct [consumes 1, case_names last step]:
  fixes v :: int
  assumes "0 \<le> v"
    and "\<And>v. 0 \<le> v \<Longrightarrow> v < 128 \<Longrightarrow> P v"
    and "\<And>v. 128 \<le> v \<Longrightarrow> P (v div 128) \<Longrightarrow> P v"
  shows "P v"
  using assms(1)
proof (induction "nat v" arbitrary: v rule: less_induct)
  case less
  show ?case
  proof (cases "v < 128")
    case True
    with less.prems show ?thesis by (rule assms(2))
  next
    case False
    with less.prems have "nat (v div 128) < nat v" "0 \<le> v div 128" by auto
    then have P: "P (v div 128)" by (rule less.hyps)
    from False have "128 \<le> v" by simp
    from this P show ?thesis by (rule assms(3))
  qed
qed

lemma vbi_len_step: "128 \<le> v \<Longrightarrow> v \<le> MAX_VBI \<Longrightarrow> vbi_len v = Inr (Suc n) \<longleftrightarrow> vbi_len (v div 128) = Inr n"
  by (auto simp: vbi_len_def MAX_VBI_def)

lemma length_vbi_loop:
  "0 \<le> v \<Longrightarrow> v \<le> MAX_VBI \<Longrightarrow> vbi_len v = Inr (length (vbi_loop v))"
proof (induction v rule: vbi_loop_induct)
  case (last v)
  then show ?case by (simp add: vbi_loop_last vbi_len_def MAX_VBI_def)
next
  case (step v)
  then have "vbi_len (v div 128) = Inr (length (vbi_loop (v div 128)))"
    by (simp add: MAX_VBI_def)
  with step show ?case by (simp add: vbi_loop_step vbi_len_step)
qed

lemma length_vbi_loop_le4: "0 \<le> v \<Longrightarrow> v \<le> MAX_VBI \<Longrightarrow> length (vbi_loop v) \<le> 4"
  using length_vbi_loop [of v] by (auto simp: vbi_len_def split: if_splits)

lemma encode_vbi_eq: "0 \<le> v \<Longrightarrow> v \<le> MAX_VBI \<Longrightarrow> encode_vbi v = Inr (vbi_loop v)"
  by (simp add: encode_vbi_def vbi_loop_last)

lemma encode_vbi_eq_Inr:
  "encode_vbi v = Inr bs \<longleftrightarrow> 0 \<le> v \<and> v \<le> MAX_VBI \<and> bs = vbi_loop v"
  by (auto simp: encode_vbi_def vbi_loop_last MAX_VBI_def)

subsection \<open>Decoding what was encoded\<close>

lemma decode_vbi_loop_continue:
  assumes "pos < len" "enc < 4" "byte_at buf pos = Inr (d + 128)" "0 \<le> d" "d < 128"
  shows "decode_vbi_loop buf len m acc pos enc
    = decode_vbi_loop buf len (m * 128) (acc + d * m) (pos + 1) (enc + 1)"
proof -
  have "(d + 128) AND 0x80 \<noteq> 0" "(d + 128) AND 0x7F = d"
    using assms(4,5) by (simp_all add: byte_top_bit int_and_7F)
  with assms(1-3) show ?thesis
    by (simp add: decode_vbi_loop.simps [of buf len m acc pos enc])
qed

lemma decode_vbi_loop_encoded:
  assumes "0 \<le> v" "enc + length (vbi_loop v) \<le> 4" "len \<ge> length pre + length (vbi_loop v)"
  shows "decode_vbi_loop (pre @ vbi_loop v @ rest) len m acc (length pre) enc
    = Inr (acc + v * m, length pre + length (vbi_loop v), enc + length (vbi_loop v))"
  using assms
proof (induction v arbitrary: pre acc m enc rule: vbi_loop_induct)
  case (last v)
  then show ?case
    by (subst decode_vbi_loop.simps)
       (simp add: vbi_loop_last int_and_7F byte_top_bit)
next
  case (step v)
  let ?b = "byte_of (v mod 128 + 128)"
  have d: "0 \<le> v mod 128" "v mod 128 < 128" by simp_all
  then have b: "uint ?b = v mod 128 + 128" by simp
  have eq: "pre @ vbi_loop v @ rest = (pre @ [?b]) @ vbi_loop (v div 128) @ rest"
    using step by (simp add: vbi_loop_step)
  have IH: "decode_vbi_loop ((pre @ [?b]) @ vbi_loop (v div 128) @ rest) len (m * 128)
      (acc + v mod 128 * m) (length (pre @ [?b])) (enc + 1)
    = Inr (acc + v mod 128 * m + v div 128 * (m * 128),
        length (pre @ [?b]) + length (vbi_loop (v div 128)), enc + 1 + length (vbi_loop (v div 128)))"
    by (rule step.IH) (use step in \<open>auto simp: vbi_loop_step\<close>)
  have arith: "acc + v mod 128 * m + v div 128 * (m * 128) = acc + v * m"
  proof -
    have "acc + v mod 128 * m + v div 128 * (m * 128) = acc + (v div 128 * 128 + v mod 128) * m"
      by algebra
    then show ?thesis by simp
  qed
  have first: "byte_at ((pre @ [?b]) @ vbi_loop (v div 128) @ rest) (length pre) = Inr (v mod 128 + 128)"
    using b by (simp add: byte_at_def nth_append)
  from step have len: "length pre < len" "enc < 4" by (auto simp: vbi_loop_step)
  show ?case
    unfolding eq decode_vbi_loop_continue [OF len first d]
    using IH arith step.hyps by (simp add: vbi_loop_step)
qed

lemma decode_vbi_encoded:
  assumes "0 \<le> v" "v \<le> MAX_VBI"
    and "case end of None \<Rightarrow> True | Some e \<Rightarrow> length pre + length (vbi_loop v) \<le> e"
  shows "decode_vbi (pre @ vbi_loop v @ rest) (length pre) end
    = Inr (v, length pre + length (vbi_loop v))"
proof (cases "v < 128")
  case True
  with assms show ?thesis
    by (auto simp: decode_vbi_def vbi_loop_last split: option.splits)
next
  case False
  let ?b = "byte_of (v mod 128 + 128)"
  let ?len = "case end of None \<Rightarrow> length (pre @ vbi_loop v @ rest) | Some e \<Rightarrow> e"
  from False have step: "vbi_loop v = ?b # vbi_loop (v div 128)" by (simp add: vbi_loop_step)
  have d: "0 \<le> v mod 128" "v mod 128 < 128" by simp_all
  then have b: "uint ?b = v mod 128 + 128" by simp
  have eq: "pre @ vbi_loop v @ rest = (pre @ [?b]) @ vbi_loop (v div 128) @ rest"
    by (simp add: step)
  have len: "length pre + length (vbi_loop v) \<le> ?len"
    using assms(3) by (auto split: option.splits)
  have "decode_vbi_loop ((pre @ [?b]) @ vbi_loop (v div 128) @ rest) ?len 128 (v mod 128) (length (pre @ [?b])) 1
    = Inr (v mod 128 + v div 128 * 128, length (pre @ [?b]) + length (vbi_loop (v div 128)), 1 + length (vbi_loop (v div 128)))"
    by (rule decode_vbi_loop_encoded)
       (use False assms(1,2) len length_vbi_loop_le4 [of v] step in auto)
  then have loop: "decode_vbi_loop (pre @ vbi_loop v @ rest) ?len 128 (v mod 128) (Suc (length pre)) 1
    = Inr (v, length pre + length (vbi_loop v), length (vbi_loop v))"
    unfolding eq by (simp add: step)
  have first: "byte_at (pre @ vbi_loop v @ rest) (length pre) = Inr (v mod 128 + 128)"
    by (simp add: step b)
  from len step have "length pre < ?len" by simp
  moreover have "\<not> v mod 128 + 128 < 128" using d(1) by linarith
  ultimately show ?thesis
    using loop first length_vbi_loop [OF assms(1,2)]
    by (simp add: decode_vbi_def Let_def int_and_7F del: byte_at_ok add_less_same_cancel2)
qed

subsection \<open>Encoding what was decoded\<close>

text \<open>A continuation run of the decoder read exactly the digits of the value it added, unless its
  last digit was zero, which the canonicity check refuses.\<close>

lemma byte_split: "128 \<le> uint b \<Longrightarrow> b = byte_of (uint b mod 128 + 128)" for b :: byte
proof -
  have "128 \<le> x \<Longrightarrow> x < 256 \<Longrightarrow> x mod 128 + 128 = x" for x :: int by presburger
  moreover assume "128 \<le> uint b"
  ultimately have "uint b mod 128 + 128 = uint b" by simp
  then show ?thesis by simp
qed

lemma vbi_loop_digit:
  fixes b :: byte
  assumes "128 \<le> uint b" "0 < w"
  shows "vbi_loop (uint b mod 128 + w * 128) = b # vbi_loop w"
proof -
  have ge: "128 \<le> uint b mod 128 + w * 128"
    using assms(2) pos_mod_sign [of 128 "uint b"] by linarith
  show ?thesis
    using vbi_loop_step [OF ge] byte_split [OF assms(1)] by simp
qed

lemma decode_vbi_loop_sound:
  assumes "decode_vbi_loop buf len m acc pos enc = Inr (v, p, e)" "len \<le> length buf"
  shows "\<exists>w n. v = acc + w * m \<and> 0 \<le> w \<and> w < 128 ^ Suc n \<and> p = pos + Suc n \<and> e = enc + Suc n
    \<and> e \<le> 4 \<and> p \<le> len \<and> (128 ^ n \<le> w \<longrightarrow> py_slice buf pos p = vbi_loop w)"
  using assms
proof (induction buf len m acc pos enc rule: decode_vbi_loop.induct)
  case (1 buf len m acc pos enc)
  let ?b = "buf ! pos"
  note run = "1.prems"(1) [unfolded decode_vbi_loop.simps [of buf len m acc pos enc]]
  from run have pos: "pos < len" "enc < 4" by (auto split: if_splits)
  with "1.prems"(2) have inb: "pos < length buf" by simp
  show ?case
  proof (cases "uint ?b < 128")
    case True
    with run pos inb have "v = acc + uint ?b * m" "p = pos + 1" "e = enc + 1"
      by (auto simp: Let_def byte_top_bit int_and_7F)
    moreover have "py_slice buf pos (pos + 1) = vbi_loop (uint ?b)"
      using inb True by (simp add: py_slice_Cons vbi_loop_last)
    ultimately show ?thesis
      using True pos by (intro exI [of _ "uint ?b"] exI [of _ 0]) auto
  next
    case False
    with run pos inb have rec: "decode_vbi_loop buf len (m * 128) (acc + uint ?b mod 128 * m) (pos + 1) (enc + 1) = Inr (v, p, e)"
      by (auto simp: Let_def byte_top_bit int_and_7F)
    have "\<exists>w n. v = acc + uint ?b mod 128 * m + w * (m * 128) \<and> 0 \<le> w \<and> w < 128 ^ Suc n
        \<and> p = pos + 1 + Suc n \<and> e = enc + 1 + Suc n \<and> e \<le> 4 \<and> p \<le> len
        \<and> (128 ^ n \<le> w \<longrightarrow> py_slice buf (pos + 1) p = vbi_loop w)"
      by (rule "1.IH" [of "uint ?b"])
         (use pos inb False rec "1.prems"(2) in \<open>simp_all add: byte_top_bit int_and_7F\<close>)
    then obtain w n where w: "v = acc + uint ?b mod 128 * m + w * (m * 128)" "0 \<le> w" "w < 128 ^ Suc n"
        "p = pos + 1 + Suc n" "e = enc + 1 + Suc n" "e \<le> 4" "p \<le> len"
        "128 ^ n \<le> w \<longrightarrow> py_slice buf (pos + 1) p = vbi_loop w"
      by blast
    let ?w = "uint ?b mod 128 + w * 128"
    have slice: "py_slice buf pos p = ?b # py_slice buf (pos + 1) p"
      using w(4,7) "1.prems"(2) by (simp add: py_slice_Cons)
    have low: "0 \<le> uint ?b mod 128" "uint ?b mod 128 < 128" by simp_all
    have bound: "?w < 128 ^ Suc (Suc n)" "128 ^ Suc n \<le> ?w \<Longrightarrow> 128 ^ n \<le> w"
      using w(3) low by auto
    have "128 ^ Suc n \<le> ?w \<longrightarrow> py_slice buf pos p = vbi_loop ?w"
    proof
      assume "128 ^ Suc n \<le> ?w"
      with bound(2) have ge: "128 ^ n \<le> w" by simp
      then have "0 < w" using zero_less_power [of "128::int" n] by linarith
      with False have "vbi_loop ?w = ?b # vbi_loop w" by (intro vbi_loop_digit) auto
      with slice w(8) ge show "py_slice buf pos p = vbi_loop ?w" by simp
    qed
    with w low bound(1) show ?thesis
      by (intro exI [of _ ?w] exI [of _ "Suc n"]) (auto simp: algebra_simps)
  qed
qed

lemma vbi_len_lower: "vbi_len v = Inr (Suc n) \<Longrightarrow> 0 < n \<Longrightarrow> 128 ^ n \<le> v"
  by (auto simp: vbi_len_def split: if_splits)

lemma decode_vbi_sound:
  assumes "decode_vbi buf off end = Inr (v, p)" "case end of None \<Rightarrow> True | Some e \<Rightarrow> e \<le> length buf"
  shows "0 \<le> v \<and> v \<le> MAX_VBI \<and> off < p \<and> p \<le> length buf \<and> p \<le> off + 4
    \<and> (case end of None \<Rightarrow> True | Some e \<Rightarrow> p \<le> e) \<and> py_slice buf off p = vbi_loop v"
proof -
  define len where "len = (case end of None \<Rightarrow> length buf | Some e \<Rightarrow> e)"
  from assms(2) have len: "len \<le> length buf" by (auto simp: len_def split: option.splits)
  have lene: "(case end of None \<Rightarrow> True | Some e \<Rightarrow> p \<le> e) \<longleftrightarrow> (case end of None \<Rightarrow> True | Some e \<Rightarrow> p \<le> len)"
    by (auto simp: len_def split: option.splits)
  note run = assms(1) [unfolded decode_vbi_def Let_def, folded len_def]
  from run have off: "off < len" by (auto split: if_splits)
  show ?thesis
  proof (cases "uint (buf ! off) < 128")
    case True
    with run off len have "v = uint (buf ! off)" "p = off + 1" by auto
    moreover have "py_slice buf off (off + 1) = vbi_loop (uint (buf ! off))"
      using True off len by (simp add: py_slice_Cons vbi_loop_last)
    ultimately show ?thesis
      using True off len unfolding lene by (auto simp: MAX_VBI_def split: option.splits)
  next
    case False
    with run off len obtain e where
      loop: "decode_vbi_loop buf len 128 (uint (buf ! off) mod 128) (off + 1) 1 = Inr (v, p, e)" and
      canon: "vbi_len v = Inr e"
      by (auto simp: int_and_7F split: if_splits)
    from decode_vbi_loop_sound [OF loop len] obtain w n where w:
      "v = uint (buf ! off) mod 128 + w * 128" "0 \<le> w" "p = off + 1 + Suc n" "e = 1 + Suc n"
      "e \<le> 4" "p \<le> len" "128 ^ n \<le> w \<longrightarrow> py_slice buf (off + 1) p = vbi_loop w"
      by auto
    from canon w(4) have "128 ^ Suc n \<le> v" by (intro vbi_len_lower) auto
    moreover have "uint (buf ! off) mod 128 < 128" by simp
    ultimately have ge: "128 ^ n \<le> w" using w(1) by auto
    then have "0 < w" using zero_less_power [of "128::int" n] by linarith
    with False w(1) have "vbi_loop v = buf ! off # vbi_loop w" by (simp add: vbi_loop_digit)
    moreover have "py_slice buf off p = buf ! off # py_slice buf (off + 1) p"
      using w(3,6) len by (simp add: py_slice_Cons)
    moreover have "0 \<le> v" "v \<le> MAX_VBI" using canon by (auto simp: vbi_len_def split: if_splits)
    ultimately show ?thesis
      using w ge len unfolding lene by (auto split: option.splits)
  qed
qed

subsection \<open>The decoder as an acceptor\<close>

lemma decode_vbi_bounded_iff:
  assumes "e \<le> length buf"
  shows "decode_vbi buf off (Some e) = Inr (v, p) \<longleftrightarrow>
    off \<le> p \<and> p \<le> e \<and> encode_vbi v = Inr (py_slice buf off p)"
proof
  assume "decode_vbi buf off (Some e) = Inr (v, p)"
  from decode_vbi_sound [OF this] assms show "off \<le> p \<and> p \<le> e \<and> encode_vbi v = Inr (py_slice buf off p)"
    by (auto simp: encode_vbi_eq_Inr)
next
  assume "off \<le> p \<and> p \<le> e \<and> encode_vbi v = Inr (py_slice buf off p)"
  then have p: "off \<le> p" "p \<le> e" and v: "0 \<le> v" "v \<le> MAX_VBI" "py_slice buf off p = vbi_loop v"
    by (auto simp: encode_vbi_eq_Inr)
  have buf: "take off buf @ vbi_loop v @ drop p buf = buf"
    using p assms v(3) [symmetric] by (simp add: py_slice_split [symmetric])
  have "length (vbi_loop v) = p - off" "length (take off buf) = off" using p assms v(3) [symmetric] by auto
  with decode_vbi_encoded [OF v(1,2), of "take off buf" "Some e" "drop p buf"] p buf
  show "decode_vbi buf off (Some e) = Inr (v, p)" by simp
qed

lemma decode_vbi_loop_error:
  "decode_vbi_loop buf len m acc pos enc = Inl x \<Longrightarrow> len \<le> length buf \<Longrightarrow> x = MalformedPacketError"
proof (induction buf len m acc pos enc rule: decode_vbi_loop.induct)
  case (1 buf len m acc pos enc)
  show ?case
  proof (cases "pos \<ge> len \<or> enc + 1 > 4")
    case True
    with "1.prems"(1) show ?thesis unfolding decode_vbi_loop.simps [of buf len m acc pos enc] by (auto split: if_splits)
  next
    case False
    then have b: "byte_at buf pos = Inr (uint (buf ! pos))" using "1.prems"(2) by simp
    with False "1.prems"(1)
    have "decode_vbi_loop buf len (m * 128) (acc + (uint (buf ! pos) AND 0x7F) * m) (pos + 1) (enc + 1) = Inl x"
      "uint (buf ! pos) AND 0x80 \<noteq> 0"
      unfolding decode_vbi_loop.simps [of buf len m acc pos enc] by (auto simp: Let_def split: if_splits)
    with "1.IH" [OF _ _ b] False "1.prems"(2) show ?thesis by simp
  qed
qed

lemma decode_vbi_error:
  assumes "decode_vbi buf off (Some e) = Inl x" "e \<le> length buf"
  shows "x = MalformedPacketError"
proof (cases "off < e \<and> 128 \<le> uint (buf ! off)")
  case False
  with assms show ?thesis by (auto simp: decode_vbi_def split: if_splits)
next
  case True
  let ?loop = "decode_vbi_loop buf e 128 (uint (buf ! off) AND 0x7F) (off + 1) 1"
  show ?thesis
  proof (cases ?loop)
    case (Inl y)
    with assms True decode_vbi_loop_error [OF Inl assms(2)] show ?thesis by (auto simp: decode_vbi_def)
  next
    case (Inr r)
    obtain v p n where r: "r = (v, p, n)" by (cases r) auto
    from decode_vbi_loop_sound [OF Inr [unfolded r] assms(2)] obtain w k where
      w: "v = (uint (buf ! off) AND 0x7F) + w * 128" "0 \<le> w" "w < 128 ^ Suc k" "n = 1 + Suc k" "n \<le> 4" by blast
    have "(128 :: int) ^ Suc k \<le> 128 ^ 3" using w(4,5) by (intro power_increasing) simp_all
    with w(3) have "w < 2097152" by simp
    moreover have "0 \<le> x \<and> x \<le> MAX_VBI" if "x = a + w * 128" "0 \<le> a" "a < 128" for x a :: int
      using that w(2) \<open>w < 2097152\<close> unfolding MAX_VBI_def by linarith
    ultimately have "0 \<le> v \<and> v \<le> MAX_VBI" using w(1) by (simp add: int_and_7F)
    then have "vbi_len v = Inr (length (vbi_loop v))" by (simp add: length_vbi_loop)
    with assms True Inr r show ?thesis by (auto simp: decode_vbi_def split: if_splits)
  qed
qed

text \<open>Every byte but the last of an encoding carries the continuation bit.\<close>

lemma vbi_loop_continued:
  "0 \<le> v \<Longrightarrow> i + 1 < length (vbi_loop v) \<Longrightarrow> 128 \<le> uint (vbi_loop v ! i)"
proof (induction v arbitrary: i rule: vbi_loop_induct)
  case (last v)
  then show ?case by (simp add: vbi_loop_last)
next
  case (step v)
  show ?case
  proof (cases i)
    case 0
    have "v mod 128 + 128 \<le> 255" using pos_mod_bound [of 128 v] by linarith
    with 0 step.hyps show ?thesis by (simp add: vbi_loop_step)
  next
    case (Suc j)
    with step show ?thesis by (simp add: vbi_loop_step)
  qed
qed

end
