(* ===== verification/Utf8.thy ===== *)
theory Utf8
  imports Prelude
begin

text \<open>
  Python's \<^verbatim>\<open>str.encode("utf-8")\<close>, strict \<^verbatim>\<open>bytes.decode("utf-8")\<close> and \<^verbatim>\<open>str.isascii\<close>, the
  standard-library operations the codec relies on, with the round trip between them. A surrogate
  code point cannot be encoded; an overlong form, a surrogate, a stray continuation byte and a
  value above \<^verbatim>\<open>0x10FFFF\<close> cannot be decoded.
\<close>

definition isascii :: "pystr \<Rightarrow> bool" where
  "isascii s = list_all (\<lambda>c. c < 128) s"

definition utf8_char :: "nat \<Rightarrow> bytes result" where
  "utf8_char c =
     (if c < 0x80 then Inr [byte_of_nat c]
      else if c < 0x800 then Inr [byte_of_nat (0xC0 + c div 64), byte_of_nat (0x80 + c mod 64)]
      else if 0xD800 \<le> c \<and> c \<le> 0xDFFF then Inl UnicodeEncodeError
      else if c < 0x10000 then
        Inr [byte_of_nat (0xE0 + c div 64 div 64), byte_of_nat (0x80 + c div 64 mod 64),
             byte_of_nat (0x80 + c mod 64)]
      else if c < 0x110000 then
        Inr [byte_of_nat (0xF0 + c div 64 div 64 div 64), byte_of_nat (0x80 + c div 64 div 64 mod 64),
             byte_of_nat (0x80 + c div 64 mod 64), byte_of_nat (0x80 + c mod 64)]
      else Inl UnicodeEncodeError)"

fun utf8_encode :: "pystr \<Rightarrow> bytes result" where
  "utf8_encode [] = Inr []"
| "utf8_encode (c # cs) =
     rbind (utf8_char c) (\<lambda>b. rbind (utf8_encode cs) (\<lambda>bs. Inr (b @ bs)))"

definition utf8_cont :: "byte \<Rightarrow> bool" where
  "utf8_cont b = (0x80 \<le> unat b \<and> unat b < 0xC0)"

fun utf8_next :: "bytes \<Rightarrow> (nat \<times> bytes) option" where
  "utf8_next [] = None"
| "utf8_next (b # bs) =
     (let n = unat b in
      if n < 0x80 then Some (n, bs)
      else if 0xC2 \<le> n \<and> n < 0xE0 then
        (case bs of
           c1 # r \<Rightarrow>
             if utf8_cont c1 then Some ((n - 0xC0) * 64 + (unat c1 - 0x80), r) else None
         | _ \<Rightarrow> None)
      else if 0xE0 \<le> n \<and> n < 0xF0 then
        (case bs of
           c1 # c2 # r \<Rightarrow>
             (let v = ((n - 0xE0) * 64 + (unat c1 - 0x80)) * 64 + (unat c2 - 0x80)
              in if utf8_cont c1 \<and> utf8_cont c2 \<and> 0x800 \<le> v \<and> \<not> (0xD800 \<le> v \<and> v \<le> 0xDFFF)
                 then Some (v, r) else None)
         | _ \<Rightarrow> None)
      else if 0xF0 \<le> n \<and> n < 0xF5 then
        (case bs of
           c1 # c2 # c3 # r \<Rightarrow>
             (let v = (((n - 0xF0) * 64 + (unat c1 - 0x80)) * 64 + (unat c2 - 0x80)) * 64
                        + (unat c3 - 0x80)
              in if utf8_cont c1 \<and> utf8_cont c2 \<and> utf8_cont c3 \<and> 0x10000 \<le> v \<and> v < 0x110000
                 then Some (v, r) else None)
         | _ \<Rightarrow> None)
      else None)"

lemma utf8_next_shorter: "utf8_next bs = Some (c, r) \<Longrightarrow> length r < length bs"
  by (cases bs) (auto simp: Let_def split: if_splits list.splits)

function utf8_decode :: "bytes \<Rightarrow> pystr result" where
  "utf8_decode bs =
     (if bs = [] then Inr []
      else case utf8_next bs of
        None \<Rightarrow> Inl UnicodeDecodeError
      | Some (c, r) \<Rightarrow> rbind (utf8_decode r) (\<lambda>cs. Inr (c # cs)))"
  by pat_completeness auto
termination
  by (relation "measure length") (auto simp: utf8_next_shorter)

declare utf8_decode.simps [simp del]

subsection \<open>One code point\<close>

lemma utf8_cont_byte [simp]: "n < 64 \<Longrightarrow> utf8_cont (byte_of_nat (0x80 + n))"
  by (simp add: utf8_cont_def)

lemma digit64 [simp]: "k < 64 \<Longrightarrow> (x * 64 + k) div 64 = x" "k < 64 \<Longrightarrow> (x * 64 + k) mod 64 = (k :: nat)"
  by auto

lemma split64: "\<exists>q k. c = q * 64 + k \<and> k < (64 :: nat)"
  by (intro exI [of _ "c div 64"] exI [of _ "c mod 64"]) simp

lemma utf8_next_char:
  assumes "utf8_char c = Inr bs"
  shows "utf8_next (bs @ rest) = Some (c, rest)"
proof -
  obtain q k where c: "c = q * 64 + k" "k < 64" using split64 by blast
  obtain q1 k1 where q: "q = q1 * 64 + k1" "k1 < 64" using split64 by blast
  obtain q2 k2 where q1: "q1 = q2 * 64 + k2" "k2 < 64" using split64 by blast
  have dv: "c div 64 = q" "c mod 64 = k" "q div 64 = q1" "q mod 64 = k1" "q1 div 64 = q2" "q1 mod 64 = k2"
    unfolding c(1) q(1) q1(1) using c(2) q(2) q1(2) by (simp_all only: digit64)
  consider (one) "c < 0x80" | (two) "0x80 \<le> c" "c < 0x800"
    | (three) "0x800 \<le> c" "c < 0x10000" "\<not> (0xD800 \<le> c \<and> c \<le> 0xDFFF)"
    | (four) "0x10000 \<le> c" "c < 0x110000"
    using assms by (auto simp: utf8_char_def split: if_splits)
  then show ?thesis
  proof cases
    case one
    with assms show ?thesis by (auto simp: utf8_char_def)
  next
    case two
    with c have "2 \<le> q" "q < 32" by linarith+
    with two assms c show ?thesis by (auto simp: utf8_char_def)
  next
    case three
    with c q have m: "q1 < 16" by linarith
    from three have "utf8_char c = Inr [byte_of_nat (0xE0 + q1), byte_of_nat (0x80 + k1), byte_of_nat (0x80 + k)]"
      by (simp add: utf8_char_def dv)
    with assms m c(2) q(2) three(1,3) show ?thesis
      unfolding c(1) q(1) by auto
  next
    case four
    with c q q1 have m: "q2 < 5" by linarith
    from four have "utf8_char c = Inr [byte_of_nat (0xF0 + q2), byte_of_nat (0x80 + k2), byte_of_nat (0x80 + k1), byte_of_nat (0x80 + k)]"
      by (simp add: utf8_char_def dv)
    with assms m c(2) q(2) q1(2) four(1,2) show ?thesis
      unfolding c(1) q(1) q1(1) by auto
  qed
qed

lemma cont_split: "utf8_cont b \<Longrightarrow> \<exists>k. k < 64 \<and> b = byte_of_nat (0x80 + k)"
  by (intro exI [of _ "unat b - 0x80"]) (auto simp: utf8_cont_def)

lemma lead_split: "l \<le> unat b \<Longrightarrow> unat b < u \<Longrightarrow> \<exists>m. b = byte_of_nat (l + m) \<and> m < u - l"
  by (intro exI [of _ "unat b - l"]) auto

lemma utf8_char_next:
  assumes "utf8_next bs = Some (c, r)"
  shows "\<exists>e. utf8_char c = Inr e \<and> bs = e @ r"
proof -
  from assms obtain b bs' where bs: "bs = b # bs'" by (cases bs) auto
  note run = assms [unfolded bs utf8_next.simps Let_def]
  consider (one) "unat b < 0x80" | (two) "0xC2 \<le> unat b" "unat b < 0xE0"
    | (three) "0xE0 \<le> unat b" "unat b < 0xF0" | (four) "0xF0 \<le> unat b" "unat b < 0xF5"
    using run by (auto split: if_splits)
  then show ?thesis
  proof cases
    case one
    with run bs show ?thesis by (auto simp: utf8_char_def)
  next
    case two
    then obtain m where m: "b = byte_of_nat (0xC2 + m)" "m < 0x1E" using lead_split [of "0xC2" b "0xE0"] by auto
    from two run obtain c1 where l: "bs' = c1 # r" "utf8_cont c1" "c = (unat b - 0xC0) * 64 + (unat c1 - 0x80)"
      by (auto split: if_splits list.splits)
    obtain k where k: "k < 64" "c1 = byte_of_nat (0x80 + k)" using cont_split l(2) by blast
    have c: "c = (m + 2) * 64 + k" using l(3) m k by simp
    have "c div 64 = m + 2" "c mod 64 = k" unfolding c using k(1) by (simp_all only: digit64)
    moreover have "0x80 \<le> c" using c by (simp add: add_mult_distrib)
    moreover have "c < 0x800" using c k(1) m(2) by (simp add: add_mult_distrib)
    ultimately have "utf8_char c = Inr [b, c1]" by (simp add: utf8_char_def k(2) m(1))
    with bs l(1) show ?thesis by simp
  next
    case three
    then obtain m where m: "b = byte_of_nat (0xE0 + m)" "m < 16" using lead_split [of "0xE0" b "0xF0"] by auto
    from three run obtain c1 c2 where l: "bs' = c1 # c2 # r" "utf8_cont c1" "utf8_cont c2"
        "c = ((unat b - 0xE0) * 64 + (unat c1 - 0x80)) * 64 + (unat c2 - 0x80)"
        "0x800 \<le> c" "\<not> (0xD800 \<le> c \<and> c \<le> 0xDFFF)"
      by (auto split: if_splits list.splits)
    obtain k1 k2 where k: "k1 < 64" "c1 = byte_of_nat (0x80 + k1)" "k2 < 64" "c2 = byte_of_nat (0x80 + k2)"
      using cont_split l(2,3) by metis
    have c: "c = (m * 64 + k1) * 64 + k2" using l(4) m k by simp
    with m(2) k(1,3) have "c < 0x10000" by (simp add: add_mult_distrib)
    with l(5,6) have "utf8_char c = Inr [byte_of_nat (0xE0 + c div 64 div 64), byte_of_nat (0x80 + c div 64 mod 64), byte_of_nat (0x80 + c mod 64)]"
      by (auto simp: utf8_char_def)
    moreover have "c div 64 = m * 64 + k1" "c mod 64 = k2" unfolding c using k by (simp_all only: digit64)
    ultimately have "utf8_char c = Inr [b, c1, c2]" using k m by simp
    with bs l(1) show ?thesis by simp
  next
    case four
    then obtain m where m: "b = byte_of_nat (0xF0 + m)" "m < 5" using lead_split [of "0xF0" b "0xF5"] by auto
    from four run obtain c1 c2 c3 where l: "bs' = c1 # c2 # c3 # r" "utf8_cont c1" "utf8_cont c2" "utf8_cont c3"
        "c = (((unat b - 0xF0) * 64 + (unat c1 - 0x80)) * 64 + (unat c2 - 0x80)) * 64 + (unat c3 - 0x80)"
        "0x10000 \<le> c" "c < 0x110000"
      by (auto split: if_splits list.splits)
    obtain k1 k2 k3 where k: "k1 < 64" "c1 = byte_of_nat (0x80 + k1)" "k2 < 64" "c2 = byte_of_nat (0x80 + k2)"
        "k3 < 64" "c3 = byte_of_nat (0x80 + k3)"
      using cont_split l(2-4) by metis
    have c: "c = ((m * 64 + k1) * 64 + k2) * 64 + k3" using l(5) m k by simp
    from l(6,7) have "utf8_char c = Inr [byte_of_nat (0xF0 + c div 64 div 64 div 64), byte_of_nat (0x80 + c div 64 div 64 mod 64), byte_of_nat (0x80 + c div 64 mod 64), byte_of_nat (0x80 + c mod 64)]"
      by (auto simp: utf8_char_def)
    moreover have "c div 64 = (m * 64 + k1) * 64 + k2" "c mod 64 = k3" unfolding c using k by (simp_all only: digit64)
    moreover have "((m * 64 + k1) * 64 + k2) div 64 = m * 64 + k1" "((m * 64 + k1) * 64 + k2) mod 64 = k2"
      using k by (simp_all only: digit64)
    ultimately have "utf8_char c = Inr [b, c1, c2, c3]" using k m by simp
    with bs l(1) show ?thesis by simp
  qed
qed

subsection \<open>Whole strings\<close>

lemma utf8_char_nonempty: "utf8_char c = Inr bs \<Longrightarrow> bs \<noteq> []"
  by (auto simp: utf8_char_def split: if_splits)

lemma utf8_decode_encode: "utf8_encode s = Inr bs \<Longrightarrow> utf8_decode bs = Inr s"
proof (induction s arbitrary: bs)
  case Nil
  then show ?case by (simp add: utf8_decode.simps)
next
  case (Cons c cs)
  then obtain b bs' where b: "utf8_char c = Inr b" "utf8_encode cs = Inr bs'" "bs = b @ bs'" by auto
  with Cons.IH have "utf8_decode bs' = Inr cs" by simp
  with b utf8_next_char [OF b(1), of bs'] utf8_char_nonempty [OF b(1)] show ?case
    by (subst utf8_decode.simps) simp
qed

lemma utf8_encode_decode: "utf8_decode bs = Inr s \<Longrightarrow> utf8_encode s = Inr bs"
proof (induction bs arbitrary: s rule: utf8_decode.induct)
  case (1 bs)
  show ?case
  proof (cases "bs = []")
    case True
    with "1.prems" show ?thesis by (simp add: utf8_decode.simps)
  next
    case False
    with "1.prems" obtain c r cs where r: "utf8_next bs = Some (c, r)" "utf8_decode r = Inr cs" "s = c # cs"
      by (subst (asm) utf8_decode.simps) (auto split: option.splits)
    with "1.IH" False have "utf8_encode cs = Inr r" by auto
    with utf8_char_next [OF r(1)] r(3) show ?thesis by auto
  qed
qed

lemma utf8_encode_ascii: "isascii s \<Longrightarrow> utf8_encode s = Inr (map byte_of_nat s)"
  by (induction s) (auto simp: isascii_def utf8_char_def)

lemma utf8_encode_ascii_length: "isascii s \<Longrightarrow> utf8_encode s = Inr bs \<Longrightarrow> length bs = length s"
  by (auto simp: utf8_encode_ascii)

end
