(* ===== verification/Primitives.thy ===== *)
theory Primitives
  imports Vbi Utf8
begin

text \<open>
  The binary primitives of \<^verbatim>\<open>src/src/mqttium/codec/primitives.py\<close>: big-endian integers, MQTT
  UTF-8 strings and binary data. Every encoder with its decoder satisfies the interface
  \<^verbatim>\<open>prefix_codec\<close>: the decoder reads back an encoding wherever it stands in a buffer, and what it
  accepts is an encoding. The laws that follow from it (injectivity, self-delimitation, sequences)
  are proved once inside the locale.
\<close>

subsection \<open>The contract of an encoder and its decoder\<close>

locale prefix_codec =
  fixes enc :: "'a \<Rightarrow> bytes result"
    and dec :: "bytes \<Rightarrow> nat \<Rightarrow> ('a \<times> nat) result"
  assumes dec_enc:
      "enc v = Inr bs \<Longrightarrow> dec (pre @ bs @ rest) (length pre) = Inr (v, length pre + length bs)"
    and dec_sound:
      "dec buf off = Inr (v, p) \<Longrightarrow> off \<le> p \<and> p \<le> length buf \<and> enc v = Inr (py_slice buf off p)"
begin

lemma dec_enc_start: "enc v = Inr bs \<Longrightarrow> dec (bs @ rest) 0 = Inr (v, length bs)"
  using dec_enc [of v bs "[]"] by simp

lemma enc_inject: "enc v = Inr bs \<Longrightarrow> enc w = Inr bs \<Longrightarrow> v = w"
  using dec_enc_start [of v bs "[]"] dec_enc_start [of w bs "[]"] by simp

text \<open>No encoding is a proper prefix of another.\<close>

lemma enc_prefix_free: "enc v = Inr bs \<Longrightarrow> enc w = Inr (bs @ cs) \<Longrightarrow> v = w \<and> cs = []"
  using dec_enc_start [of v bs cs] dec_enc_start [of w "bs @ cs" "[]"] by simp

text \<open>The decoder accepts exactly the encodings.\<close>

lemma dec_iff: "dec buf off = Inr (v, p) \<longleftrightarrow> off \<le> p \<and> p \<le> length buf \<and> enc v = Inr (py_slice buf off p)"
proof
  assume "off \<le> p \<and> p \<le> length buf \<and> enc v = Inr (py_slice buf off p)"
  then have p: "off \<le> p" "p \<le> length buf" and e: "enc v = Inr (py_slice buf off p)" by auto
  have "dec (take off buf @ py_slice buf off p @ drop p buf) (length (take off buf))
    = Inr (v, length (take off buf) + length (py_slice buf off p))"
    using e by (rule dec_enc)
  with p show "dec buf off = Inr (v, p)" by (simp add: py_slice_split [symmetric])
qed (rule dec_sound)

text \<open>What was decoded does not depend on the bytes after it.\<close>

lemma dec_append:
  assumes "dec buf off = Inr (v, p)"
  shows "dec (buf @ more) off = Inr (v, p)"
proof -
  from dec_sound [OF assms] have p: "off \<le> p" "p \<le> length buf" and e: "enc v = Inr (py_slice buf off p)"
    by auto
  have buf: "buf = take off buf @ py_slice buf off p @ drop p buf"
    using p by (rule py_slice_split)
  have "dec (take off buf @ py_slice buf off p @ (drop p buf @ more)) (length (take off buf))
    = Inr (v, length (take off buf) + length (py_slice buf off p))"
    using e by (rule dec_enc)
  moreover have "take off buf @ py_slice buf off p @ (drop p buf @ more) = buf @ more"
    using buf by (metis append.assoc)
  ultimately show ?thesis using p by simp
qed

text \<open>Reading a fixed number of values one after the other inverts their concatenation.\<close>

fun dec_many :: "bytes \<Rightarrow> nat \<Rightarrow> nat \<Rightarrow> ('a list \<times> nat) result" where
  "dec_many buf off 0 = Inr ([], off)"
| "dec_many buf off (Suc n) = rbind (dec buf off) (\<lambda>(v, p).
     rbind (dec_many buf p n) (\<lambda>(vs, q). Inr (v # vs, q)))"

fun enc_many :: "'a list \<Rightarrow> bytes result" where
  "enc_many [] = Inr []"
| "enc_many (v # vs) = rbind (enc v) (\<lambda>b. rbind (enc_many vs) (\<lambda>bs. Inr (b @ bs)))"

lemma dec_many_enc_many:
  "enc_many vs = Inr bs \<Longrightarrow>
   dec_many (pre @ bs @ rest) (length pre) (length vs) = Inr (vs, length pre + length bs)"
proof (induction vs arbitrary: bs pre)
  case Nil
  then show ?case by simp
next
  case (Cons v vs)
  then obtain b bs' where b: "enc v = Inr b" "enc_many vs = Inr bs'" "bs = b @ bs'" by auto
  from Cons.IH [OF b(2), of "pre @ b"]
  have "dec_many (pre @ b @ bs' @ rest) (length pre + length b) (length vs)
    = Inr (vs, length pre + length b + length bs')" by simp
  with dec_enc [OF b(1), of pre "bs' @ rest"] b(3) show ?case by (simp add: add.assoc)
qed

end

subsection \<open>Unsigned integers\<close>

text \<open>\<^verbatim>\<open>struct.Struct("!H").pack\<close> and \<^verbatim>\<open>struct.Struct("!I").pack\<close> raise \<^verbatim>\<open>struct.error\<close> out of range.\<close>

definition pack_u16 :: "int \<Rightarrow> bytes result" where
  "pack_u16 value =
     (if 0 \<le> value \<and> value \<le> 65535
      then Inr [byte_of (value div 256), byte_of (value mod 256)] else Inl StructError)"

text \<open>\<^verbatim>\<open>unpack_from\<close> raises \<^verbatim>\<open>struct.error\<close> when the buffer ends before the last byte.\<close>

definition unpack_from_u16 :: "bytes \<Rightarrow> nat \<Rightarrow> int result" where
  "unpack_from_u16 buffer offset =
     (if offset + 2 > length buffer then Inl StructError
      else Inr (uint (buffer ! offset) * 256 + uint (buffer ! (offset + 1))))"

definition unpack_u16 :: "bytes \<Rightarrow> nat \<Rightarrow> (int \<times> nat) result" where
  "unpack_u16 buffer offset =
     (if offset + 2 > length buffer then Inl MalformedPacketError
      else rbind (unpack_from_u16 buffer offset) (\<lambda>value. Inr (value, offset + 2)))"

definition pack_u32 :: "int \<Rightarrow> bytes result" where
  "pack_u32 value =
     (if 0 \<le> value \<and> value \<le> 4294967295
      then Inr [byte_of (value div 16777216), byte_of (value div 65536 mod 256),
                byte_of (value div 256 mod 256), byte_of (value mod 256)]
      else Inl StructError)"

definition unpack_from_u32 :: "bytes \<Rightarrow> nat \<Rightarrow> int result" where
  "unpack_from_u32 buffer offset =
     (if offset + 4 > length buffer then Inl StructError
      else Inr (((uint (buffer ! offset) * 256 + uint (buffer ! (offset + 1))) * 256
                 + uint (buffer ! (offset + 2))) * 256 + uint (buffer ! (offset + 3))))"

definition unpack_u32 :: "bytes \<Rightarrow> nat \<Rightarrow> (int \<times> nat) result" where
  "unpack_u32 buffer offset =
     (if offset + 4 > length buffer then Inl MalformedPacketError
      else rbind (unpack_from_u32 buffer offset) (\<lambda>value. Inr (value, offset + 4)))"

subsection \<open>MQTT UTF-8 strings\<close>

definition validate_mqtt_utf8 :: "exn \<Rightarrow> pystr \<Rightarrow> unit result" where
  "validate_mqtt_utf8 error_type text = guard (0 \<notin> set text) error_type"

definition validate_utf8 :: "pystr \<Rightarrow> nat result" where
  "validate_utf8 value =
     rbind (validate_mqtt_utf8 ProtocolError value) (\<lambda>_.
       if isascii value then
         (let n = length value in if n > 65535 then Inl ProtocolError else Inr n)
       else case utf8_encode value of
         Inl _ \<Rightarrow> Inl ProtocolError
       | Inr data \<Rightarrow> if length data > 65535 then Inl ProtocolError else Inr (length data))"

definition encode_utf8 :: "pystr \<Rightarrow> bytes result" where
  "encode_utf8 value =
     (case utf8_encode value of
        Inl _ \<Rightarrow> Inl ProtocolError
      | Inr data \<Rightarrow>
          rbind (validate_mqtt_utf8 ProtocolError value) (\<lambda>_.
            if length data > 65535 then Inl ProtocolError else Inr data))"

definition pack_utf8 :: "pystr \<Rightarrow> bytes result" where
  "pack_utf8 value =
     rbind (encode_utf8 value) (\<lambda>data.
       rbind (pack_u16 (int (length data))) (\<lambda>prefix. Inr (prefix @ data)))"

definition append_utf8 :: "bytes \<Rightarrow> pystr \<Rightarrow> bytes result" where
  "append_utf8 buf value =
     rbind (encode_utf8 value) (\<lambda>data.
       rbind (pack_u16 (int (length data))) (\<lambda>prefix. Inr ((buf @ prefix) @ data)))"

definition unpack_utf8 :: "bytes \<Rightarrow> nat \<Rightarrow> (pystr \<times> nat) result" where
  "unpack_utf8 buffer offset =
     (let pos = offset + 2 in
      if pos > length buffer then Inl MalformedPacketError
      else rbind (byte_at buffer offset) (\<lambda>high. rbind (byte_at buffer (offset + 1)) (\<lambda>low.
        (let end = pos + nat (push_bit 8 high OR low)
         in if end > length buffer then Inl MalformedPacketError
            else case utf8_decode (py_slice buffer pos end) of
              Inl _ \<Rightarrow> Inl MalformedPacketError
            | Inr text \<Rightarrow>
                rbind (validate_mqtt_utf8 MalformedPacketError text) (\<lambda>_. Inr (text, end))))))"

subsection \<open>Binary data\<close>

definition pack_binary :: "bytes \<Rightarrow> bytes result" where
  "pack_binary value =
     (if length value > 65535 then Inl ValueError
      else rbind (pack_u16 (int (length value))) (\<lambda>prefix. Inr (prefix @ value)))"

definition unpack_binary :: "bytes \<Rightarrow> nat \<Rightarrow> (bytes \<times> nat) result" where
  "unpack_binary buffer offset =
     rbind (unpack_u16 buffer offset) (\<lambda>(len, pos).
       (let end = pos + nat len in
        if end > length buffer then Inl MalformedPacketError
        else Inr (py_slice buffer pos end, end)))"

subsection \<open>The primitives satisfy the contract\<close>

text \<open>Behind the length checks neither \<^verbatim>\<open>struct.error\<close> nor \<^verbatim>\<open>IndexError\<close> is left.\<close>

lemma unpack_u16_value:
  "unpack_u16 buffer offset =
     (if offset + 2 > length buffer then Inl MalformedPacketError
      else Inr (uint (buffer ! offset) * 256 + uint (buffer ! (offset + 1)), offset + 2))"
  by (simp add: unpack_u16_def unpack_from_u16_def)

lemma unpack_u32_value:
  "unpack_u32 buffer offset =
     (if offset + 4 > length buffer then Inl MalformedPacketError
      else Inr (((uint (buffer ! offset) * 256 + uint (buffer ! (offset + 1))) * 256
                 + uint (buffer ! (offset + 2))) * 256 + uint (buffer ! (offset + 3)), offset + 4))"
  by (simp add: unpack_u32_def unpack_from_u32_def)

lemma unpack_utf8_value:
  "unpack_utf8 buffer offset =
     (let pos = offset + 2 in
      if pos > length buffer then Inl MalformedPacketError
      else
        (let end = pos + nat (push_bit 8 (uint (buffer ! offset)) OR uint (buffer ! (offset + 1)))
         in if end > length buffer then Inl MalformedPacketError
            else case utf8_decode (py_slice buffer pos end) of
              Inl _ \<Rightarrow> Inl MalformedPacketError
            | Inr text \<Rightarrow>
                rbind (validate_mqtt_utf8 MalformedPacketError text) (\<lambda>_. Inr (text, end))))"
  by (simp add: unpack_utf8_def byte_at_def Let_def del: shift_or_bytes)

lemma py_slice_two: "off + 2 \<le> length xs \<Longrightarrow> py_slice xs off (off + 2) = [xs ! off, xs ! (off + 1)]"
  by (simp add: py_slice_Cons)

lemma py_slice_four:
  "off + 4 \<le> length xs \<Longrightarrow>
   py_slice xs off (off + 4) = [xs ! off, xs ! (off + 1), xs ! (off + 2), xs ! (off + 3)]"
  by (simp add: py_slice_Cons numeral_eq_Suc)

lemma pack_u16_two_bytes: "pack_u16 (uint a * 256 + uint b) = Inr [a, b]" for a b :: byte
proof -
  have "uint a < 256" "uint b < 256" by simp_all
  then have "(uint a * 256 + uint b) div 256 = uint a" "(uint a * 256 + uint b) mod 256 = uint b"
    by (simp_all add: div_pos_pos_trivial)
  moreover have "uint a * 256 + uint b \<le> 65535"
    using uint_byte_le [of a] uint_byte_le [of b] by linarith
  ultimately show ?thesis by (simp add: pack_u16_def)
qed

lemma pack_u32_four_bytes:
  "pack_u32 (((uint a * 256 + uint b) * 256 + uint c) * 256 + uint d) = Inr [a, b, c, d]" for a b c d :: byte
proof -
  let ?v = "((uint a * 256 + uint b) * 256 + uint c) * 256 + uint d"
  have s: "(x * 256 + uint w) div 256 = x" "(x * 256 + uint w) mod 256 = uint w" for x and w :: byte
    by (simp_all add: div_pos_pos_trivial)
  have d1: "?v div 256 = (uint a * 256 + uint b) * 256 + uint c" by (rule s)
  have d2: "?v div 65536 = uint a * 256 + uint b"
    using s(1) [of "uint a * 256 + uint b" c] d1 zdiv_zmult2_eq [of 256 ?v 256] by simp
  have d3: "?v div 16777216 = uint a"
    using s(1) [of "uint a" b] d2 zdiv_zmult2_eq [of 256 ?v 65536] by simp
  have bound: "((x * 256 + y) * 256 + z) * 256 + w \<le> 4294967295"
    if "x \<le> 255" "y \<le> 255" "z \<le> 255" "w \<le> 255" for x y z w :: int
    using that by (simp add: algebra_simps)
  have "?v \<le> 4294967295" by (rule bound) simp_all
  moreover have "0 \<le> ?v" by simp
  ultimately show ?thesis
    unfolding pack_u32_def d1 d2 d3 s(2) by simp
qed

interpretation u16: prefix_codec pack_u16 unpack_u16
proof
  fix v bs and pre rest :: bytes
  assume "pack_u16 v = Inr bs"
  then have v: "0 \<le> v" "v \<le> 65535" and bs: "bs = [byte_of (v div 256), byte_of (v mod 256)]"
    by (auto simp: pack_u16_def split: if_splits)
  from v have "uint (byte_of (v div 256)) = v div 256" "uint (byte_of (v mod 256)) = v mod 256"
    by (auto intro!: uint_byte_of)
  then show "unpack_u16 (pre @ bs @ rest) (length pre) = Inr (v, length pre + length bs)"
    by (simp add: unpack_u16_value bs nth_append)
next
  fix buf off v p
  assume "unpack_u16 buf off = Inr (v, p)"
  then show "off \<le> p \<and> p \<le> length buf \<and> pack_u16 v = Inr (py_slice buf off p)"
    by (auto simp: unpack_u16_value py_slice_Cons pack_u16_two_bytes split: if_splits)
qed

interpretation u32: prefix_codec pack_u32 unpack_u32
proof
  fix v bs and pre rest :: bytes
  assume "pack_u32 v = Inr bs"
  then have v: "0 \<le> v" "v \<le> 4294967295" and bs: "bs = [byte_of (v div 16777216),
      byte_of (v div 65536 mod 256), byte_of (v div 256 mod 256), byte_of (v mod 256)]"
    by (auto simp: pack_u32_def split: if_splits)
  have "v div 16777216 \<le> 255" using zdiv_mono1 [OF v(2), of 16777216] by simp
  then have u: "uint (byte_of (v div 16777216)) = v div 16777216" using v by (intro uint_byte_of) auto
  have m: "uint (byte_of (x mod 256)) = x mod 256" for x
    using pos_mod_bound [of 256 x] by (intro uint_byte_of) simp_all
  have "v div 65536 = v div 256 div 256" "v div 16777216 = v div 256 div 256 div 256"
    using zdiv_zmult2_eq [of 256 v 256] zdiv_zmult2_eq [of 256 v 65536] by simp_all
  then have "((v div 16777216 * 256 + v div 65536 mod 256) * 256 + v div 256 mod 256) * 256 + v mod 256 = v"
    by (simp only: div_mult_mod_eq)
  moreover have "unpack_u32 (pre @ [a, b, c, d] @ rest) (length pre)
      = Inr (((uint a * 256 + uint b) * 256 + uint c) * 256 + uint d, length pre + 4)" for a b c d
    by (simp add: unpack_u32_value nth_append)
  ultimately show "unpack_u32 (pre @ bs @ rest) (length pre) = Inr (v, length pre + length bs)"
    unfolding bs by (simp only: u m) simp
next
  fix buf off v p
  assume "unpack_u32 buf off = Inr (v, p)"
  then have "off + 4 \<le> length buf" "p = off + 4" and
    v: "v = ((uint (buf ! off) * 256 + uint (buf ! (off + 1))) * 256
                 + uint (buf ! (off + 2))) * 256 + uint (buf ! (off + 3))"
    by (auto simp: unpack_u32_value split: if_splits)
  then show "off \<le> p \<and> p \<le> length buf \<and> pack_u32 v = Inr (py_slice buf off p)"
    by (simp only: pack_u32_four_bytes py_slice_four) simp
qed

interpretation vbi: prefix_codec encode_vbi "\<lambda>buf off. decode_vbi buf off None"
proof
  fix v bs and pre rest :: bytes
  assume "encode_vbi v = Inr bs"
  then show "decode_vbi (pre @ bs @ rest) (length pre) None = Inr (v, length pre + length bs)"
    by (auto simp: encode_vbi_eq_Inr intro!: decode_vbi_encoded)
next
  fix buf off v p
  assume "decode_vbi buf off None = Inr (v, p)"
  from decode_vbi_sound [OF this] show "off \<le> p \<and> p \<le> length buf \<and> encode_vbi v = Inr (py_slice buf off p)"
    by (auto simp: encode_vbi_eq_Inr)
qed

lemma encode_utf8_eq_Inr:
  "encode_utf8 s = Inr bs \<longleftrightarrow> utf8_encode s = Inr bs \<and> 0 \<notin> set s \<and> length bs \<le> 65535"
  by (auto simp: encode_utf8_def validate_mqtt_utf8_def split: sum.splits if_splits)

lemma pack_u16_length: "n \<le> 65535 \<Longrightarrow> \<exists>a b. pack_u16 (int n) = Inr [a, b] \<and> uint a * 256 + uint b = int n"
proof -
  assume n: "n \<le> 65535"
  then have "pack_u16 (int n) = Inr [byte_of (int n div 256), byte_of (int n mod 256)]"
    by (simp add: pack_u16_def)
  moreover have "uint (byte_of (int n div 256)) = int n div 256" "uint (byte_of (int n mod 256)) = int n mod 256"
    using n by (auto intro!: uint_byte_of)
  ultimately show ?thesis by auto
qed

lemma nth_pre: "(pre @ a # b # xs) ! length pre = a" "(pre @ a # b # xs) ! Suc (length pre) = b"
  by (simp_all add: nth_append)

interpretation utf8: prefix_codec pack_utf8 unpack_utf8
proof
  fix v bs and pre rest :: bytes
  assume "pack_utf8 v = Inr bs"
  then obtain data prefix where d: "encode_utf8 v = Inr data" "pack_u16 (int (length data)) = Inr prefix"
    and bs: "bs = prefix @ data" by (auto simp: pack_utf8_def)
  from d(1) have e: "utf8_encode v = Inr data" "0 \<notin> set v" "length data \<le> 65535"
    by (simp_all add: encode_utf8_eq_Inr)
  from pack_u16_length [OF e(3)] d(2) obtain a b where ab: "prefix = [a, b]" "uint a * 256 + uint b = int (length data)"
    by auto
  have "utf8_decode data = Inr v" using e(1) by (rule utf8_decode_encode)
  moreover have "py_slice (pre @ a # b # data @ rest) (Suc (Suc (length pre))) (Suc (Suc (length pre)) + length data) = data"
    using py_slice_append [of "pre @ [a, b]" data rest] by simp
  ultimately show "unpack_utf8 (pre @ bs @ rest) (length pre) = Inr (v, length pre + length bs)"
    using e ab by (simp add: bs unpack_utf8_value Let_def nth_pre validate_mqtt_utf8_def)
next
  fix buf off v p
  assume run: "unpack_utf8 buf off = Inr (v, p)"
  let ?n = "uint (buf ! off) * 256 + uint (buf ! Suc off)"
  from run have p: "off + 2 \<le> length buf" "p = off + 2 + nat ?n" "p \<le> length buf"
    and v: "utf8_decode (py_slice buf (off + 2) p) = Inr v" "0 \<notin> set v"
    by (auto simp: unpack_utf8_value Let_def validate_mqtt_utf8_def split: if_splits sum.splits)
  let ?d = "py_slice buf (off + 2) p"
  have len: "int (length ?d) = ?n" using p by simp
  moreover have "?n \<le> 65535"
    using uint_byte_le [of "buf ! off"] uint_byte_le [of "buf ! Suc off"] by linarith
  ultimately have "length ?d \<le> 65535" by linarith
  then have "encode_utf8 v = Inr ?d"
    using v by (simp add: encode_utf8_eq_Inr utf8_encode_decode)
  moreover have "py_slice buf off p = [buf ! off, buf ! Suc off] @ ?d"
    using p by (subst py_slice_append_split [of off "off + 2"]) (simp_all add: py_slice_Cons)
  ultimately show "off \<le> p \<and> p \<le> length buf \<and> pack_utf8 v = Inr (py_slice buf off p)"
    using p len pack_u16_two_bytes [of "buf ! off" "buf ! Suc off"] by (simp add: pack_utf8_def)
qed

interpretation binary: prefix_codec pack_binary unpack_binary
proof
  fix v bs and pre rest :: bytes
  assume "pack_binary v = Inr bs"
  then obtain prefix where len: "length v \<le> 65535" and d: "pack_u16 (int (length v)) = Inr prefix"
    and bs: "bs = prefix @ v" by (auto simp: pack_binary_def split: if_splits)
  from pack_u16_length [OF len] d obtain a b where ab: "prefix = [a, b]" by auto
  have "unpack_u16 (pre @ prefix @ v @ rest) (length pre) = Inr (int (length v), length pre + 2)"
    using u16.dec_enc [OF d] ab by simp
  moreover have "py_slice (pre @ a # b # v @ rest) (Suc (Suc (length pre))) (Suc (Suc (length pre)) + length v) = v"
    using py_slice_append [of "pre @ [a, b]" v rest] by simp
  ultimately show "unpack_binary (pre @ bs @ rest) (length pre) = Inr (v, length pre + length bs)"
    using ab by (simp add: bs unpack_binary_def Let_def)
next
  fix buf off v p
  assume run: "unpack_binary buf off = Inr (v, p)"
  let ?n = "uint (buf ! off) * 256 + uint (buf ! Suc off)"
  from run have p: "off + 2 \<le> length buf" "p = off + 2 + nat ?n" "p \<le> length buf"
    and v: "v = py_slice buf (off + 2) p"
    by (auto simp: unpack_binary_def unpack_u16_value Let_def split: if_splits)
  have len: "int (length v) = ?n" using p v by simp
  moreover have "?n \<le> 65535"
    using uint_byte_le [of "buf ! off"] uint_byte_le [of "buf ! Suc off"] by linarith
  ultimately have "length v \<le> 65535" by linarith
  moreover have "py_slice buf off p = [buf ! off, buf ! Suc off] @ v"
    unfolding v using p by (subst py_slice_append_split [of off "off + 2"]) (simp_all add: py_slice_Cons)
  ultimately show "off \<le> p \<and> p \<le> length buf \<and> pack_binary v = Inr (py_slice buf off p)"
    using p len pack_u16_two_bytes [of "buf ! off" "buf ! Suc off"] by (simp add: pack_binary_def)
qed

text \<open>Validating and encoding agree: the size \<^verbatim>\<open>validate_utf8\<close> reports is the length of the bytes
  \<^verbatim>\<open>encode_utf8\<close> produces, and they refuse the same strings.\<close>

lemma validate_utf8_encode_utf8: "validate_utf8 s = map_sum id length (encode_utf8 s)"
  by (auto simp: validate_utf8_def encode_utf8_def validate_mqtt_utf8_def guard_def Let_def
      utf8_encode_ascii split: sum.splits)

lemma append_utf8_pack_utf8: "append_utf8 buf s = map_sum id (\<lambda>bs. buf @ bs) (pack_utf8 s)"
  by (auto simp: append_utf8_def pack_utf8_def rbind_def split: sum.splits)

text \<open>
  The Variable Byte Integer decoder accepts exactly the encoder's outputs: it returns a value
  and the offset after it if and only if the bytes between the two offsets are the encoding of that
  value, so it accepts no overlong, truncated or five-byte form; and the length the encoding has is
  the one the length table \<^verbatim>\<open>vbi_len\<close> announces.
\<close>

theorem decode_vbi_exact:
  "(decode_vbi buf off None = Inr (v, p)) =
     (off \<le> p \<and> p \<le> length buf \<and> encode_vbi v = Inr (py_slice buf off p))
   \<and> map_sum id length (encode_vbi v) = vbi_len v"
proof -
  have "map_sum id length (encode_vbi v) = vbi_len v"
  proof (cases "0 \<le> v \<and> v \<le> MAX_VBI")
    case True
    then show ?thesis by (simp add: encode_vbi_eq length_vbi_loop)
  next
    case False
    then show ?thesis by (auto simp: encode_vbi_def vbi_len_def MAX_VBI_def)
  qed
  then show ?thesis by (simp add: vbi.dec_iff)
qed

text \<open>
  C25. The MQTT string decoder accepts exactly the encodings of the strings the encoder accepts: the
  text it returns re-encodes to the very bytes it consumed (no overlong form, surrogate or NUL gets
  through) and every encodable string is read back from wherever it stands in a buffer.
  Validating a string reports the length its encoding has and refuses the same strings.
\<close>

theorem unpack_utf8_exact:
  "(unpack_utf8 buf off = Inr (s, p)) =
     (off \<le> p \<and> p \<le> length buf \<and> pack_utf8 s = Inr (py_slice buf off p))
   \<and> validate_utf8 s = map_sum id length (encode_utf8 s)
   \<and> append_utf8 pre s = map_sum id (\<lambda>bs. pre @ bs) (pack_utf8 s)"
  by (simp add: utf8.dec_iff validate_utf8_encode_utf8 append_utf8_pack_utf8)

end
