(* ===== verification/Topics.thy ===== *)
theory Topics
  imports Primitives
begin

text \<open>
  Topic names and topic filters, \<^verbatim>\<open>src/src/mqttium/topics.py\<close>: the validation of published and
  received topics and of subscription filters, with the string operations of the language they use.
  The filter validator is shown equivalent to the wildcard rules stated level by level.
\<close>

subsection \<open>Python's string operations\<close>

definition lit :: "string \<Rightarrow> pystr" where
  "lit s = map of_char s"

abbreviation (input) SLASH :: nat where "SLASH \<equiv> 47"
abbreviation (input) PLUS :: nat where "PLUS \<equiv> 43"
abbreviation (input) HASH :: nat where "HASH \<equiv> 35"
abbreviation (input) DOLLAR :: nat where "DOLLAR \<equiv> 36"

definition py_startswith :: "pystr \<Rightarrow> pystr \<Rightarrow> bool" where
  "py_startswith s p \<longleftrightarrow> take (length p) s = p"

text \<open>\<^verbatim>\<open>s.split(c)\<close>, never empty, and \<^verbatim>\<open>s.split(c, 1)\<close> on a string that has the separator.\<close>

fun split_on :: "'a \<Rightarrow> 'a list \<Rightarrow> 'a list list" where
  "split_on c [] = [[]]"
| "split_on c (x # xs) =
     (if x = c then [] # split_on c xs
      else case split_on c xs of [] \<Rightarrow> [[x]] | w # ws \<Rightarrow> (x # w) # ws)"

definition split_first :: "'a \<Rightarrow> 'a list \<Rightarrow> 'a list \<times> 'a list" where
  "split_first c xs = (takeWhile (\<lambda>x. x \<noteq> c) xs, tl (dropWhile (\<lambda>x. x \<noteq> c) xs))"

lemma split_on_nonempty [simp]: "split_on c xs \<noteq> []"
  by (induction xs) (auto split: list.splits)

fun join_on :: "'a \<Rightarrow> 'a list list \<Rightarrow> 'a list" where
  "join_on c [] = []"
| "join_on c [w] = w"
| "join_on c (w # v # ws) = w @ c # join_on c (v # ws)"

lemma join_split_on [simp]: "join_on c (split_on c xs) = xs"
proof (induction xs)
  case (Cons x xs)
  then show ?case
    by (cases "split_on c xs"; cases "tl (split_on c xs)") auto
qed simp

lemma split_on_inject: "split_on c xs = split_on c ys \<Longrightarrow> xs = ys"
  by (metis join_split_on)

lemma split_on_no_sep: "w \<in> set (split_on c xs) \<Longrightarrow> c \<notin> set w"
  by (induction xs arbitrary: w) (auto split: list.splits if_splits)

subsection \<open>Topic names\<close>

definition check_utf8_mqtt_topic :: "pystr \<Rightarrow> nat result" where
  "check_utf8_mqtt_topic topic =
     (case validate_utf8 topic of Inl ProtocolError \<Rightarrow> Inl ProtocolError | r \<Rightarrow> r)"

definition validate_publish_topic :: "pystr \<Rightarrow> bool \<Rightarrow> nat result" where
  "validate_publish_topic topic allow_empty =
     (if topic = [] then (if allow_empty then Inr 0 else Inl ProtocolError)
      else rbind (check_utf8_mqtt_topic topic) (\<lambda>size.
        if PLUS \<in> set topic \<or> HASH \<in> set topic then Inl ProtocolError else Inr size))"

definition encode_validated_publish_topic :: "pystr \<Rightarrow> bool \<Rightarrow> bytes result" where
  "encode_validated_publish_topic topic allow_empty =
     (if topic = [] \<and> \<not> allow_empty then Inl ProtocolError
      else rbind (case encode_utf8 topic of Inl ProtocolError \<Rightarrow> Inl ProtocolError | r \<Rightarrow> r) (\<lambda>encoded.
        if PLUS \<in> set topic \<or> HASH \<in> set topic then Inl ProtocolError else Inr encoded))"

definition validate_received_publish_topic :: "pystr \<Rightarrow> bool \<Rightarrow> unit result" where
  "validate_received_publish_topic topic utf8_validated =
     (if topic = [] then Inr ()
      else rbind (if utf8_validated then Inr ()
                  else case check_utf8_mqtt_topic topic of
                    Inl ProtocolError \<Rightarrow> Inl MalformedPacketError
                  | Inl e \<Rightarrow> Inl e
                  | Inr _ \<Rightarrow> Inr ()) (\<lambda>_.
        if PLUS \<in> set topic \<or> HASH \<in> set topic then Inl MalformedPacketError else Inr ()))"

subsection \<open>Topic filters\<close>

text \<open>The loop over \<^verbatim>\<open>enumerate(levels)\<close>, from index \<open>i\<close>.\<close>

fun check_levels :: "nat \<Rightarrow> nat \<Rightarrow> pystr list \<Rightarrow> unit result" where
  "check_levels n i [] = Inr ()"
| "check_levels n i (level # levels) =
     (if level = [HASH] then
        (if i \<noteq> n - 1 then Inl ProtocolError else check_levels n (i + 1) levels)
      else if HASH \<in> set level then Inl ProtocolError
      else if level = [PLUS] then check_levels n (i + 1) levels
      else if PLUS \<in> set level then Inl ProtocolError
      else check_levels n (i + 1) levels)"

definition validate_filter_levels :: "pystr \<Rightarrow> unit result" where
  "validate_filter_levels topic_filter =
     (let levels = split_on SLASH topic_filter in check_levels (length levels) 0 levels)"

definition validate_subscribe_filter :: "pystr \<Rightarrow> unit result" where
  "validate_subscribe_filter topic_filter =
     (if topic_filter = [] then Inl ProtocolError
      else rbind (check_utf8_mqtt_topic topic_filter) (\<lambda>_.
        if py_startswith topic_filter (lit ''$share/'') then
          (let rest = drop (length (lit ''$share/'')) topic_filter
           in if SLASH \<notin> set rest then Inl ProtocolError
              else
                (let (grp, flt) = split_first SLASH rest
                 in if grp = [] \<or> (\<exists>c \<in> set (lit ''/+#''). c \<in> set grp) then Inl ProtocolError
                    else if flt = [] then Inl ProtocolError
                    else validate_filter_levels flt))
        else validate_filter_levels topic_filter))"

subsection \<open>The rules the validators implement\<close>

text \<open>The wildcard rules: a \<^verbatim>\<open>#\<close> is a whole level and the last one, a \<^verbatim>\<open>+\<close> is a whole level.\<close>

definition wildcards_ok :: "pystr list \<Rightarrow> bool" where
  "wildcards_ok levels \<longleftrightarrow> (\<forall>i < length levels.
     (HASH \<in> set (levels ! i) \<longrightarrow> levels ! i = [HASH] \<and> Suc i = length levels)
     \<and> (PLUS \<in> set (levels ! i) \<longrightarrow> levels ! i = [PLUS]))"

lemma check_levels_iff:
  assumes "i + length levels = n"
  shows "check_levels n i levels = (if wildcards_ok levels then Inr () else Inl ProtocolError)"
  using assms
proof (induction n i levels rule: check_levels.induct)
  case (1 n i)
  then show ?case by (simp add: wildcards_ok_def)
next
  case (2 n i level levels)
  have cons: "wildcards_ok (level # levels) \<longleftrightarrow>
      (HASH \<in> set level \<longrightarrow> level = [HASH] \<and> levels = []) \<and> (PLUS \<in> set level \<longrightarrow> level = [PLUS])
      \<and> wildcards_ok levels"
    unfolding wildcards_ok_def by (auto simp: All_less_Suc2)
  have last: "i \<noteq> n - 1 \<longleftrightarrow> levels \<noteq> []" using "2.prems" by (cases levels) auto
  have "wildcards_ok []" by (simp add: wildcards_ok_def)
  with 2 show ?case unfolding cons check_levels.simps last by auto
qed

lemma validate_filter_levels_iff:
  "validate_filter_levels f = (if wildcards_ok (split_on SLASH f) then Inr () else Inl ProtocolError)"
  by (simp add: validate_filter_levels_def Let_def check_levels_iff)

lemma encode_utf8_error: "encode_utf8 s = Inl e \<Longrightarrow> e = ProtocolError"
  by (auto simp: encode_utf8_def validate_mqtt_utf8_def rbind_eq_Inl split: sum.splits if_splits)

lemma validate_utf8_error: "validate_utf8 s = Inl e \<Longrightarrow> e = ProtocolError"
  using encode_utf8_error by (auto simp: validate_utf8_encode_utf8 map_sum_def split: sum.splits)

lemma check_utf8_mqtt_topic_eq: "check_utf8_mqtt_topic t = validate_utf8 t"
  using validate_utf8_error by (auto simp: check_utf8_mqtt_topic_def split: sum.splits exn.splits)

lemma encode_topic_eq: "(case encode_utf8 t of Inl ProtocolError \<Rightarrow> Inl ProtocolError | r \<Rightarrow> r) = encode_utf8 t"
  using encode_utf8_error by (auto split: sum.splits exn.splits)

definition valid_filter :: "pystr \<Rightarrow> bool" where
  "valid_filter f \<longleftrightarrow> f \<noteq> [] \<and> is_ok (encode_utf8 f) \<and>
     (if py_startswith f (lit ''$share/'')
      then \<exists>grp flt. f = lit ''$share/'' @ grp @ SLASH # flt \<and> grp \<noteq> [] \<and> flt \<noteq> []
             \<and> set grp \<inter> {SLASH, PLUS, HASH} = {} \<and> wildcards_ok (split_on SLASH flt)
      else wildcards_ok (split_on SLASH f))"

lemma lit_share: "lit ''$share/'' = [36, 115, 104, 97, 114, 101, 47]"
  by (simp add: lit_def)

lemma lit_wild: "set (lit ''/+#'') = {SLASH, PLUS, HASH}"
  by (auto simp: lit_def)

lemma split_first_eq:
  "SLASH \<notin> set g \<Longrightarrow> split_first SLASH (g @ SLASH # r) = (g, r)"
  by (simp add: split_first_def takeWhile_append dropWhile_append)

lemma split_first_parts:
  assumes "c \<in> set xs" "split_first c xs = (g, r)"
  shows "xs = g @ c # r \<and> c \<notin> set g"
proof -
  from assms(1) obtain ys zs where xs: "xs = ys @ c # zs" "c \<notin> set ys" by (meson split_list_first)
  then have tw: "takeWhile (\<lambda>x. x \<noteq> c) xs = ys" "dropWhile (\<lambda>x. x \<noteq> c) xs = c # zs"
    by (simp_all add: takeWhile_append dropWhile_append)
  with assms(2) xs show ?thesis by (auto simp: split_first_def)
qed

lemma valid_filter_shared:
  assumes "SLASH \<notin> set grp" "is_ok (encode_utf8 (lit ''$share/'' @ grp @ SLASH # flt))"
  shows "valid_filter (lit ''$share/'' @ grp @ SLASH # flt) \<longleftrightarrow>
    grp \<noteq> [] \<and> flt \<noteq> [] \<and> set grp \<inter> {SLASH, PLUS, HASH} = {} \<and> wildcards_ok (split_on SLASH flt)"
    (is "?l \<longleftrightarrow> ?r grp flt")
proof -
  have start: "py_startswith (lit ''$share/'' @ xs) (lit ''$share/'')" for xs by (simp add: py_startswith_def)
  have uniq: "g = grp \<and> r = flt" if "grp @ SLASH # flt = g @ SLASH # r" "SLASH \<notin> set g" for g r
    using split_first_eq [OF that(2), of r] split_first_eq [OF assms(1), of flt] that(1) by simp
  have "?l \<longleftrightarrow> (\<exists>g r. grp @ SLASH # flt = g @ SLASH # r \<and> ?r g r)"
    using start [of "grp @ SLASH # flt"] assms(2) unfolding valid_filter_def by (simp add: lit_share)
  also have "\<dots> \<longleftrightarrow> ?r grp flt"
  proof
    assume "\<exists>g r. grp @ SLASH # flt = g @ SLASH # r \<and> ?r g r"
    then obtain g r where *: "grp @ SLASH # flt = g @ SLASH # r" "?r g r" by blast
    then have "SLASH \<notin> set g" by blast
    with uniq [OF *(1)] *(2) show "?r grp flt" by simp
  qed blast
  finally show ?thesis .
qed

text \<open>
  C26. A subscription filter is accepted exactly when it obeys the wildcard rules of MQTT 4.7: it is a
  non-empty encodable string, every level that contains \<^verbatim>\<open>#\<close> is \<^verbatim>\<open>#\<close> alone and the last one, every level that
  contains \<^verbatim>\<open>+\<close> is \<^verbatim>\<open>+\<close> alone, and \<^verbatim>\<open>$share/group/filter\<close> has a group without \<^verbatim>\<open>/ + #\<close> and a filter
  that obeys them. Every other filter is refused with \<^verbatim>\<open>ProtocolError\<close>.
\<close>

theorem subscribe_filter_exact:
  "validate_subscribe_filter f = (if valid_filter f then Inr () else Inl ProtocolError)"
proof (cases "f = [] \<or> \<not> is_ok (encode_utf8 f)")
  case True
  have "\<exists>e. encode_utf8 f = Inl e" if "\<not> is_ok (encode_utf8 f)" using that by (cases "encode_utf8 f") auto
  with True show ?thesis
    using encode_utf8_error
    by (auto simp: validate_subscribe_filter_def valid_filter_def check_utf8_mqtt_topic_eq validate_utf8_encode_utf8)
next
  case False
  then obtain bs where ok: "encode_utf8 f = Inr bs" "f \<noteq> []" by (cases "encode_utf8 f") auto
  then have chk: "check_utf8_mqtt_topic f = Inr (length bs)"
    by (simp add: check_utf8_mqtt_topic_eq validate_utf8_encode_utf8)
  show ?thesis
  proof (cases "py_startswith f (lit ''$share/'')")
    case False
    with ok chk show ?thesis
      by (simp add: validate_subscribe_filter_def valid_filter_def validate_filter_levels_iff)
  next
    case True
    then obtain rest where f: "f = lit ''$share/'' @ rest"
      by (metis append_take_drop_id py_startswith_def)
    show ?thesis
    proof (cases "SLASH \<in> set rest")
      case False
      with f ok chk True show ?thesis
        by (auto simp: validate_subscribe_filter_def valid_filter_def)
    next
      case True
      obtain grp flt where split: "split_first SLASH rest = (grp, flt)" by fastforce
      from split_first_parts [OF True split] have rest: "rest = grp @ SLASH # flt" "SLASH \<notin> set grp" by auto
      have "is_ok (encode_utf8 (lit ''$share/'' @ grp @ SLASH # flt))" using ok f rest(1) by simp
      from valid_filter_shared [OF rest(2) this]
      have iff: "valid_filter f \<longleftrightarrow> grp \<noteq> [] \<and> flt \<noteq> [] \<and> set grp \<inter> {SLASH, PLUS, HASH} = {} \<and> wildcards_ok (split_on SLASH flt)"
        unfolding f rest(1) .
      have drop: "drop (length (lit ''$share/'')) f = rest" using f by simp
      have grp: "(\<exists>c \<in> set (lit ''/+#''). c \<in> set grp) \<longleftrightarrow> set grp \<inter> {SLASH, PLUS, HASH} \<noteq> {}"
        unfolding lit_wild by blast
      from ok(2) chk \<open>py_startswith f _\<close> True show ?thesis
        unfolding validate_subscribe_filter_def drop Let_def split validate_filter_levels_iff iff prod.case grp
        by simp
    qed
  qed
qed

text \<open>
  The two publish-topic validators agree: the one that returns the encoded bytes accepts the
  same topics as the one that returns only their length, the lengths are equal, an accepted topic
  contains no wildcard, and a topic received from the broker passes under the same rules (an empty
  one is left to alias resolution).
\<close>

theorem publish_topic_validators_agree:
  "map_sum id length (encode_validated_publish_topic topic allow_empty) = validate_publish_topic topic allow_empty
   \<and> (is_ok (validate_publish_topic topic True) = (is_ok (encode_utf8 topic) \<and> PLUS \<notin> set topic \<and> HASH \<notin> set topic))
   \<and> validate_received_publish_topic topic False
       = (if is_ok (validate_publish_topic topic True) then Inr () else Inl MalformedPacketError)"
proof (cases "topic = []")
  case True
  have e: "encode_utf8 [] = Inr []" by (simp add: encode_utf8_def validate_mqtt_utf8_def)
  with True show ?thesis
    by (simp add: encode_validated_publish_topic_def validate_publish_topic_def validate_received_publish_topic_def)
next
  case False
  show ?thesis
  proof (cases "encode_utf8 topic")
    case (Inl e)
    then have "e = ProtocolError" by (rule encode_utf8_error)
    with Inl False show ?thesis
      by (simp add: encode_validated_publish_topic_def validate_publish_topic_def validate_received_publish_topic_def
          check_utf8_mqtt_topic_eq validate_utf8_encode_utf8)
  next
    case (Inr bs)
    with False show ?thesis
      by (simp add: encode_validated_publish_topic_def validate_publish_topic_def validate_received_publish_topic_def
          check_utf8_mqtt_topic_eq validate_utf8_encode_utf8)
  qed
qed

end
