(* ===== verification/Matcher.thy ===== *)
theory Matcher
  imports Topics "HOL-Library.AList" "HOL-Library.Multiset"
begin

text \<open>
  The callback dispatcher's topic matcher, \<^verbatim>\<open>src/src/mqttium/dispatch/matcher.py\<close>: an index of
  literal filters and a prefix tree of the wildcard ones, whose entries are objects shared by both.
  An entry object is an address into \<open>objs\<close>; the address is the entry's insertion sequence number.
  The iterative walk with its stack is shown to return, in registration order, the values of exactly
  the registered filters that match, so the matcher refines an ordered list of filters and values.
\<close>

subsection \<open>Entries and nodes\<close>

record 'v entry =
  e_sequence :: nat
  e_levels :: "pystr list option"
  e_value :: 'v

datatype node = Node
  (children: "(pystr \<times> node) list") (plus_node: "node option") (hash_node: "node option") (wild: bool)
  (node_entries: "nat list option")

definition new_node :: node where
  "new_node = Node [] None None False None"

definition child :: "node \<Rightarrow> pystr \<Rightarrow> node option" where
  "child n level =
     (if level = [PLUS] then plus_node n else if level = [HASH] then hash_node n else map_of (children n) level)"

text \<open>\<^verbatim>\<open>add_child\<close> links a new node; \<open>put_child\<close> is the reference to an existing child, whose
  in-place changes the parent sees.\<close>

definition add_child :: "node \<Rightarrow> pystr \<Rightarrow> node \<Rightarrow> node" where
  "add_child n level c =
     (if level = [PLUS] then Node (children n) (Some c) (hash_node n) True (node_entries n)
      else if level = [HASH] then Node (children n) (plus_node n) (Some c) True (node_entries n)
      else Node (AList.update level c (children n)) (plus_node n) (hash_node n) (wild n) (node_entries n))"

definition put_child :: "node \<Rightarrow> pystr \<Rightarrow> node \<Rightarrow> node" where
  "put_child n level c =
     (if level = [PLUS] then Node (children n) (Some c) (hash_node n) (wild n) (node_entries n)
      else if level = [HASH] then Node (children n) (plus_node n) (Some c) (wild n) (node_entries n)
      else Node (AList.update level c (children n)) (plus_node n) (hash_node n) (wild n) (node_entries n))"

definition remove_child :: "node \<Rightarrow> pystr \<Rightarrow> node" where
  "remove_child n level =
     (let (ch, pl, ha) =
        (if level = [PLUS] then (children n, None, hash_node n)
         else if level = [HASH] then (children n, plus_node n, None)
         else (AList.delete level (children n), plus_node n, hash_node n))
      in Node ch pl ha (pl \<noteq> None \<or> ha \<noteq> None) (node_entries n))"

definition is_empty :: "node \<Rightarrow> bool" where
  "is_empty n \<longleftrightarrow> node_entries n = None \<and> children n = [] \<and> \<not> wild n"

subsection \<open>The matcher\<close>

record 'v matcher =
  m_entries :: "(pystr \<times> nat) list"
  m_objs :: "nat \<rightharpoonup> 'v entry"
  m_root :: "node option"
  m_next_sequence :: nat

definition new_matcher :: "'v matcher" where
  "new_matcher = \<lparr>m_entries = [], m_objs = Map.empty, m_root = None, m_next_sequence = 0\<rparr>"

text \<open>\<^verbatim>\<open>topic_filter.split("/", 2)[2]\<close> raises \<^verbatim>\<open>IndexError\<close> without a second separator.\<close>

definition compile :: "pystr \<Rightarrow> pystr list option result" where
  "compile topic_filter =
     (if py_startswith topic_filter (lit ''$share/'') then
        (let (_, rest) = split_first SLASH topic_filter
         in if SLASH \<notin> set rest then Inl IndexError
            else Inr (Some (split_on SLASH (snd (split_first SLASH rest)))))
      else
        (let levels = split_on SLASH topic_filter
         in Inr (if \<exists>level \<in> set levels. level \<in> {[PLUS], [HASH]} then Some levels else None)))"

text \<open>The descent of \<^verbatim>\<open>__setitem__\<close>, creating missing children, and the append at its end.\<close>

fun node_add :: "pystr list \<Rightarrow> nat \<Rightarrow> node \<Rightarrow> node" where
  "node_add [] a n =
     Node (children n) (plus_node n) (hash_node n) (wild n)
       (Some (case node_entries n of None \<Rightarrow> [a] | Some es \<Rightarrow> es @ [a]))"
| "node_add (level # levels) a n =
     (case child n level of
        None \<Rightarrow> add_child n level (node_add levels a new_node)
      | Some c \<Rightarrow> put_child n level (node_add levels a c))"

definition setitem :: "pystr \<Rightarrow> 'v \<Rightarrow> 'v matcher \<Rightarrow> unit result \<times> 'v matcher" where
  "setitem topic_filter v m =
     (case map_of (m_entries m) topic_filter of
        Some a \<Rightarrow>
          (Inr (), m\<lparr>m_objs := (m_objs m)(a \<mapsto> (the (m_objs m a))\<lparr>e_value := v\<rparr>)\<rparr>)
      | None \<Rightarrow>
          (case compile topic_filter of
             Inl e \<Rightarrow> (Inl e, m)
           | Inr levels \<Rightarrow>
               (let a = m_next_sequence m;
                    entry = \<lparr>e_sequence = m_next_sequence m, e_levels = levels, e_value = v\<rparr>;
                    m' = m\<lparr>m_next_sequence := m_next_sequence m + 1,
                           m_objs := (m_objs m)(a \<mapsto> entry),
                           m_entries := AList.update topic_filter a (m_entries m)\<rparr>
                in case levels of
                     None \<Rightarrow> (Inr (), m')
                   | Some ls \<Rightarrow>
                       (let root = (case m_root m of None \<Rightarrow> new_node | Some n \<Rightarrow> n)
                        in (Inr (), m'\<lparr>m_root := Some (node_add ls a root)\<rparr>)))))"

definition obj_value :: "'v matcher \<Rightarrow> nat \<Rightarrow> 'v" where
  "obj_value m a = e_value (the (m_objs m a))"

definition getitem :: "pystr \<Rightarrow> 'v matcher \<Rightarrow> 'v result" where
  "getitem topic_filter m =
     (case map_of (m_entries m) topic_filter of
        None \<Rightarrow> Inl KeyError
      | Some a \<Rightarrow> Inr (obj_value m a))"

text \<open>The descent of \<^verbatim>\<open>__delitem__\<close>, the removal of the entry by identity and the pruning on the
  way back; the flag says whether the pruning loop has not met its \<^verbatim>\<open>break\<close> yet.\<close>

fun node_remove :: "pystr list \<Rightarrow> nat \<Rightarrow> node \<Rightarrow> (node \<times> bool) result" where
  "node_remove [] a n =
     (case node_entries n of
        None \<Rightarrow> Inl AssertionError
      | Some es \<Rightarrow>
          (let es' = remove1 a es
           in Inr (Node (children n) (plus_node n) (hash_node n) (wild n) (if es' = [] then None else Some es'), True)))"
| "node_remove (level # levels) a n =
     (case child n level of
        None \<Rightarrow> Inl AssertionError
      | Some c \<Rightarrow> rbind (node_remove levels a c) (\<lambda>(c', pruning).
          if pruning \<and> is_empty c' then Inr (remove_child (put_child n level c') level, True)
          else Inr (put_child n level c', False)))"

definition delitem :: "pystr \<Rightarrow> 'v matcher \<Rightarrow> unit result \<times> 'v matcher" where
  "delitem topic_filter m =
     (case map_of (m_entries m) topic_filter of
        None \<Rightarrow> (Inl KeyError, m)
      | Some a \<Rightarrow>
          (let m' = m\<lparr>m_entries := AList.delete topic_filter (m_entries m)\<rparr>
           in case e_levels (the (m_objs m a)) of
                None \<Rightarrow> (Inr (), m')
              | Some ls \<Rightarrow>
                  (case m_root m of
                     None \<Rightarrow> (Inl AssertionError, m')
                   | Some root \<Rightarrow>
                       (case node_remove ls a root of
                          Inl e \<Rightarrow> (Inl e, m')
                        | Inr (root', _) \<Rightarrow>
                            (Inr (), m'\<lparr>m_root := if is_empty root' then None else Some root'\<rparr>)))))"

definition matcher_bool :: "'v matcher \<Rightarrow> bool" where
  "matcher_bool m \<longleftrightarrow> m_entries m \<noteq> []"

definition matcher_items :: "'v matcher \<Rightarrow> (pystr \<times> 'v) list" where
  "matcher_items m = map (\<lambda>(f, a). (f, obj_value m a)) (m_entries m)"

subsection \<open>Matching\<close>

definition opt_list :: "'a list option \<Rightarrow> 'a list" where
  "opt_list xs = (case xs of None \<Rightarrow> [] | Some ys \<Rightarrow> ys)"

lemma opt_list_simps [simp]: "opt_list None = []" "opt_list (Some xs) = xs"
  by (simp_all add: opt_list_def)

text \<open>The measure of the walk: every node it moves to or leaves on the stack is below the current one.\<close>

lemma size_child_le:
  assumes "map_of (children n) level = Some c"
  shows "size c + size_option size (plus_node n) < size n"
proof -
  have "(level, c) \<in> set (children n)" using assms by (rule map_of_SomeD)
  then have "size c \<le> size_list (size_prod (\<lambda>x. 0) size) (children n)"
    by (rule size_list_estimation') simp
  then show ?thesis by (cases n) auto
qed

lemma size_plus_less: "size_option size (plus_node n) < size n"
  by (cases n) simp

definition walk_measure :: "node option \<Rightarrow> (node \<times> nat) list \<Rightarrow> nat" where
  "walk_measure n pending =
     (case n of None \<Rightarrow> 0 | Some n \<Rightarrow> 2 * size n) + sum_list (map (\<lambda>(p, i). 2 * size p + 1) pending)"

lemma walk_measure_less:
  "walk_measure (map_of (children n) level) (case plus_node n of None \<Rightarrow> pending | Some p \<Rightarrow> (p, i) # pending)
     < walk_measure (Some n) pending"
  "walk_measure (map_of (children n) level) pending < walk_measure (Some n) pending"
  "walk_measure None pending < walk_measure (Some n) pending"
  "walk_measure (Some p) pending < walk_measure None ((p, i) # pending)"
  using size_child_le [of n level] size_plus_less [of n]
  by (auto simp: walk_measure_def split: option.splits)

text \<open>The two nested loops of \<^verbatim>\<open>iter_match\<close>: the current node, its level index, the stack of
  pending branches (its top first) and the candidates found so far.\<close>

function iter_walk ::
  "pystr list \<Rightarrow> node option \<Rightarrow> nat \<Rightarrow> (node \<times> nat) list \<Rightarrow> nat list \<Rightarrow> nat list result" where
  "iter_walk levels None index [] candidates = Inr candidates"
| "iter_walk levels None index ((n, i) # pending) candidates =
     iter_walk levels (Some n) i pending candidates"
| "iter_walk levels (Some n) index pending candidates =
     (if wild n then
        (let candidates' =
           (case hash_node n of
              None \<Rightarrow> candidates
            | Some h \<Rightarrow> candidates @ opt_list (node_entries h))
         in if index = length levels then
              iter_walk levels None index pending (candidates' @ opt_list (node_entries n))
            else
              (let pending' =
                 (case plus_node n of None \<Rightarrow> pending | Some p \<Rightarrow> (p, index + 1) # pending)
               in rbind (py_index levels index) (\<lambda>level.
                    iter_walk levels (map_of (children n) level) (index + 1) pending' candidates')))
      else if index = length levels then
        iter_walk levels None index pending (candidates @ opt_list (node_entries n))
      else
        rbind (py_index levels index) (\<lambda>level.
          iter_walk levels (map_of (children n) level) (index + 1) pending candidates))"
  by pat_completeness auto

termination
  by (relation "measure (\<lambda>(levels, n, index, pending, cand). walk_measure n pending)")
    (auto simp: walk_measure_less)

definition iter_match :: "'v matcher \<Rightarrow> pystr \<Rightarrow> 'v list result" where
  "iter_match m topic =
     (let exact = (case map_of (m_entries m) topic of
                     Some a \<Rightarrow> if e_levels (the (m_objs m a)) = None then [a] else []
                   | None \<Rightarrow> [])
      in case m_root m of
           None \<Rightarrow> Inr (map (obj_value m) exact)
         | Some root \<Rightarrow>
             (let levels = split_on SLASH topic;
                  (node, index) =
                    (if py_startswith topic [DOLLAR] then (map_of (children root) (levels ! 0), 1)
                     else (Some root, 0))
              in rbind (iter_walk levels node index [] exact) (\<lambda>candidates.
                   Inr (map (obj_value m)
                     (if length candidates > 1 then sort_key (\<lambda>a. e_sequence (the (m_objs m a))) candidates
                      else candidates)))))"

subsection \<open>The tree as a map from filter paths to entries\<close>

fun node_get :: "node \<Rightarrow> pystr list \<Rightarrow> nat list" where
  "node_get n [] = opt_list (node_entries n)"
| "node_get n (level # levels) = (case child n level of None \<Rightarrow> [] | Some c \<Rightarrow> node_get c levels)"

definition node_local :: "node \<Rightarrow> bool" where
  "node_local n \<longleftrightarrow> wild n = (plus_node n \<noteq> None \<or> hash_node n \<noteq> None) \<and> node_entries n \<noteq> Some []
     \<and> distinct (map fst (children n)) \<and> [PLUS] \<notin> fst ` set (children n) \<and> [HASH] \<notin> fst ` set (children n)"

text \<open>Every node below is well-formed and no branch below is empty.\<close>

inductive node_ok :: "node \<Rightarrow> bool" where
  "node_local n \<Longrightarrow> \<forall>l c. child n l = Some c \<longrightarrow> node_ok c \<and> \<not> is_empty c \<Longrightarrow> node_ok n"

lemma node_ok_iff: "node_ok n \<longleftrightarrow> node_local n \<and> (\<forall>l c. child n l = Some c \<longrightarrow> node_ok c \<and> \<not> is_empty c)"
  by (subst node_ok.simps) auto

lemma new_node_facts [simp]: "node_local new_node" "child new_node l = None" "node_entries new_node = None"
  by (simp_all add: new_node_def node_local_def child_def)

lemma new_node_ok [simp]: "node_ok new_node"
  by (subst node_ok_iff) simp

lemma child_update [simp]:
  "child (add_child n l c) l' = (if l' = l then Some c else child n l')"
  "child (put_child n l c) l' = (if l' = l then Some c else child n l')"
  "child (remove_child n l) l' = (if l' = l then None else child n l')"
  by (auto simp: child_def add_child_def put_child_def remove_child_def update_conv' delete_conv')

lemma entries_update [simp]:
  "node_entries (add_child n l c) = node_entries n"
  "node_entries (put_child n l c) = node_entries n"
  "node_entries (remove_child n l) = node_entries n"
  by (auto simp: add_child_def put_child_def remove_child_def)

lemma dom_delete_keys: "fst ` set (AList.delete k al) = fst ` set al - {k}"
  using arg_cong [OF delete_keys [of k al], of set] by simp

lemma node_local_update:
  assumes "node_local n"
  shows "node_local (add_child n l c)" "child n l \<noteq> None \<Longrightarrow> node_local (put_child n l c)"
    "node_local (remove_child n l)"
proof -
  show "node_local (add_child n l c)" "node_local (remove_child n l)"
    using assms by (simp_all add: node_local_def add_child_def remove_child_def dom_update
      distinct_update distinct_delete dom_delete_keys)
  show "node_local (put_child n l c)" if "child n l \<noteq> None"
    using that assms unfolding node_local_def put_child_def child_def
    by (cases "l = [PLUS]"; cases "l = [HASH]") (simp_all add: dom_update distinct_update)
qed

lemma is_empty_iff: "node_local n \<Longrightarrow> is_empty n \<longleftrightarrow> node_entries n = None \<and> (\<forall>l. child n l = None)"
proof -
  assume "node_local n"
  moreover have "(\<forall>l. child n l = None) \<longleftrightarrow> plus_node n = None \<and> hash_node n = None \<and> children n = []"
    if "node_local n"
  proof
    assume none: "\<forall>l. child n l = None"
    have "children n = []"
    proof (rule ccontr)
      assume "children n \<noteq> []"
      then obtain l c where "(l, c) \<in> set (children n)" by (cases "children n") auto
      with that have "child n l = Some c" by (force simp: child_def node_local_def)
      with none show False by simp
    qed
    with none show "plus_node n = None \<and> hash_node n = None \<and> children n = []"
      using none [rule_format, of "[PLUS]"] none [rule_format, of "[HASH]"] by (simp add: child_def)
  qed (simp add: child_def)
  ultimately show ?thesis by (auto simp: is_empty_def node_local_def)
qed

lemma node_get_empty: "node_local n \<Longrightarrow> is_empty n \<Longrightarrow> node_get n p = []"
  by (cases p) (auto simp: is_empty_iff)

lemma node_add_ok:
  "node_ok n \<Longrightarrow> node_ok (node_add ls a n) \<and> \<not> is_empty (node_add ls a n)
     \<and> (\<forall>p. node_get (node_add ls a n) p = (if p = ls then node_get n p @ [a] else node_get n p))"
proof (induction ls arbitrary: n)
  case Nil
  have sub: "child (node_add [] a n) l = child n l" for l by (simp add: child_def)
  have es: "node_entries (node_add [] a n) = Some (opt_list (node_entries n) @ [a])"
    by (simp add: opt_list_def split: option.splits)
  have "node_local (node_add [] a n)"
    using Nil by (auto simp: node_ok_iff [of n] node_local_def split: option.splits)
  with Nil es have "node_ok (node_add [] a n)" "\<not> is_empty (node_add [] a n)"
    by (auto simp: node_ok_iff [of n] node_ok_iff [of "node_add [] a n"] sub is_empty_def simp del: node_add.simps)
  moreover have "node_get (node_add [] a n) p = (if p = [] then node_get n p @ [a] else node_get n p)" for p
    using es sub by (cases p) (simp_all del: node_add.simps)
  ultimately show ?case by blast
next
  case (Cons l ls)
  define c where "c = (case child n l of None \<Rightarrow> new_node | Some c \<Rightarrow> c)"
  define n' where "n' = node_add (l # ls) a n"
  have c: "node_ok c" using Cons.prems by (auto simp: c_def node_ok_iff [of n] split: option.splits)
  have get_c: "node_get c q = (case child n l of None \<Rightarrow> [] | Some c \<Rightarrow> node_get c q)" for q
    by (cases q) (auto simp: c_def split: option.splits)
  have loc: "node_local n" using Cons.prems by (simp add: node_ok_iff [of n])
  have sub: "child n' l' = (if l' = l then Some (node_add ls a c) else child n l')" for l'
    by (simp add: n'_def c_def split: option.splits)
  have es: "node_entries n' = node_entries n" by (simp add: n'_def split: option.splits)
  have loc': "node_local n'"
    using loc by (auto simp: n'_def node_local_update split: option.splits)
  note IH = Cons.IH [OF c]
  have "node_ok n'"
    using IH Cons.prems loc' by (auto simp: node_ok_iff [of n] node_ok_iff [of n'] sub)
  moreover have "\<not> is_empty n'" using sub [of l] is_empty_iff [OF loc'] by auto
  moreover have "node_get n' p = (if p = l # ls then node_get n p @ [a] else node_get n p)" for p
    using IH get_c by (cases p) (auto simp: es sub)
  ultimately show ?case unfolding n'_def by blast
qed

lemma node_remove_ok:
  "node_ok n \<Longrightarrow> a \<in> set (node_get n ls) \<Longrightarrow>
   \<exists>n' b. node_remove ls a n = Inr (n', b) \<and> node_ok n' \<and> (\<not> b \<longrightarrow> \<not> is_empty n')
     \<and> (\<forall>p. node_get n' p = (if p = ls then remove1 a (node_get n p) else node_get n p))"
proof (induction ls arbitrary: n)
  case Nil
  then obtain es where es: "node_entries n = Some es" by (cases "node_entries n") auto
  define n' where "n' = Node (children n) (plus_node n) (hash_node n) (wild n)
    (if remove1 a es = [] then None else Some (remove1 a es))"
  have sub: "child n' l = child n l" for l by (simp add: child_def n'_def)
  have "node_ok n'"
    using Nil by (auto simp: node_ok_iff [of n] node_ok_iff [of n'] sub) (auto simp: node_local_def n'_def)
  moreover have "node_get n' p = (if p = [] then remove1 a (node_get n p) else node_get n p)" for p
    using es sub by (cases p) (simp_all add: n'_def)
  moreover have "node_remove [] a n = Inr (n', True)" using es by (simp add: n'_def Let_def)
  ultimately show ?case by blast
next
  case (Cons l ls)
  then obtain c where c: "child n l = Some c" by (cases "child n l") auto
  with Cons.prems have "node_ok c" "a \<in> set (node_get c ls)" by (auto simp: node_ok_iff [of n])
  from Cons.IH [OF this] obtain c' b where IH: "node_remove ls a c = Inr (c', b)" "node_ok c'"
      "\<not> b \<Longrightarrow> \<not> is_empty c'" "\<And>p. node_get c' p = (if p = ls then remove1 a (node_get c p) else node_get c p)"
    by blast
  have loc: "node_local n" using Cons.prems by (simp add: node_ok_iff [of n])
  have loc_put: "node_local (put_child n l c')" using loc c by (simp add: node_local_update)
  show ?case
  proof (cases "b \<and> is_empty c'")
    case True
    define n' where "n' = remove_child (put_child n l c') l"
    have loc': "node_local n'" unfolding n'_def using loc_put by (rule node_local_update)
    have sub: "child n' l' = (if l' = l then None else child n l')" for l' by (simp add: n'_def)
    have empty: "node_get c' p = []" for p using True IH(2) by (intro node_get_empty) (auto simp: node_ok_iff [of c'])
    have gone: "p \<noteq> ls \<Longrightarrow> node_get c p = []" "remove1 a (node_get c ls) = []" for p
      using IH(4) [of p] IH(4) [of ls] empty by auto
    have "node_ok n'" using Cons.prems loc' by (auto simp: node_ok_iff [of n] node_ok_iff [of n'] sub)
    moreover have "node_get n' p = (if p = l # ls then remove1 a (node_get n p) else node_get n p)" for p
    proof (cases p)
      case Nil
      then show ?thesis by (simp add: n'_def)
    next
      case (Cons l' q)
      then show ?thesis using c gone by (auto simp: sub)
    qed
    moreover have "node_remove (l # ls) a n = Inr (n', True)" using c IH(1) True by (simp add: n'_def)
    ultimately show ?thesis by blast
  next
    case False
    define n' where "n' = put_child n l c'"
    have ne: "\<not> is_empty c'" using False IH(3) by blast
    have sub: "child n' l' = (if l' = l then Some c' else child n l')" for l' by (simp add: n'_def)
    have "node_ok n'"
      using Cons.prems loc_put IH(2) ne by (auto simp: node_ok_iff [of n] node_ok_iff [of n'] sub) (simp add: n'_def)
    moreover have "\<not> is_empty n'" using is_empty_iff [OF loc_put] sub [of l] by (auto simp: n'_def)
    moreover have "node_get n' p = (if p = l # ls then remove1 a (node_get n p) else node_get n p)" for p
    proof (cases p)
      case Nil
      then show ?thesis by (simp add: n'_def)
    next
      case (Cons l' q)
      then show ?thesis using c by (auto simp: sub IH(4))
    qed
    moreover have "node_remove (l # ls) a n = Inr (n', False)" using c IH(1) False by (auto simp: n'_def)
    ultimately show ?thesis by blast
  qed
qed

subsection \<open>What the walk collects\<close>

text \<open>Matching of filter levels against topic levels (MQTT 4.7.1): \<^verbatim>\<open>#\<close> is last and matches any
  number of remaining levels, none included; \<^verbatim>\<open>+\<close> matches one level.\<close>

fun levels_match :: "pystr list \<Rightarrow> pystr list \<Rightarrow> bool" where
  "levels_match [] ts = (ts = [])"
| "levels_match (f # fs) [] = (f = [HASH] \<and> fs = [])"
| "levels_match (f # fs) (t # ts) =
     (if f = [HASH] then fs = [] else (f = [PLUS] \<or> f = t) \<and> levels_match fs ts)"

fun collect :: "pystr list \<Rightarrow> node \<Rightarrow> nat multiset" where
  "collect [] n = mset (node_get n [[HASH]]) + mset (node_get n [])"
| "collect (t # ts) n = mset (node_get n [[HASH]])
     + (case plus_node n of None \<Rightarrow> {#} | Some p \<Rightarrow> collect ts p)
     + (case map_of (children n) t of None \<Rightarrow> {#} | Some c \<Rightarrow> collect ts c)"

lemma node_get_hash: "node_get n [[HASH]] = (case hash_node n of None \<Rightarrow> [] | Some h \<Rightarrow> opt_list (node_entries h))"
  by (simp add: child_def split: option.splits)

lemma collect_branches:
  assumes "node_local n"
  shows "collect [] n = (if wild n then mset (node_get n [[HASH]]) else {#}) + mset (opt_list (node_entries n))"
    "collect (t # ts) n = (if wild n then mset (node_get n [[HASH]])
        + (case plus_node n of None \<Rightarrow> {#} | Some p \<Rightarrow> collect ts p) else {#})
      + (case map_of (children n) t of None \<Rightarrow> {#} | Some c \<Rightarrow> collect ts c)"
  using assms by (auto simp: node_local_def child_def)

definition collect_opt :: "pystr list \<Rightarrow> node option \<Rightarrow> nat multiset" where
  "collect_opt ts n = (case n of None \<Rightarrow> {#} | Some n \<Rightarrow> collect ts n)"

lemma node_ok_child:
  "node_ok n \<Longrightarrow> plus_node n = Some p \<Longrightarrow> node_ok p"
  "node_ok n \<Longrightarrow> map_of (children n) l = Some c \<Longrightarrow> node_ok c"
proof -
  assume ok: "node_ok n"
  show "node_ok p" if "plus_node n = Some p"
  proof -
    from that have "child n [PLUS] = Some p" by (simp add: child_def)
    with ok show ?thesis by (simp add: node_ok_iff [of n])
  qed
  show "node_ok c" if "map_of (children n) l = Some c"
  proof -
    from that have "l \<in> fst ` set (children n)" by (force dest: map_of_SomeD)
    moreover from ok have "[PLUS] \<notin> fst ` set (children n)" "[HASH] \<notin> fst ` set (children n)"
      by (simp_all add: node_ok_iff [of n] node_local_def)
    ultimately have "l \<noteq> [PLUS]" "l \<noteq> [HASH]" by metis+
    with that have "child n l = Some c" by (simp add: child_def)
    with ok show ?thesis by (simp add: node_ok_iff [of n])
  qed
qed

lemma iter_walk_collects:
  assumes "\<forall>n. no = Some n \<longrightarrow> node_ok n \<and> i \<le> length levels"
    and "\<forall>(n, j) \<in> set pending. node_ok n \<and> j \<le> length levels"
  shows "\<exists>r. iter_walk levels no i pending cand = Inr r
    \<and> mset r = mset cand + collect_opt (drop i levels) no + (\<Sum>(n, j)\<leftarrow>pending. collect (drop j levels) n)"
  using assms
proof (induction levels no i pending cand rule: iter_walk.induct)
  case (1 levels i cand)
  then show ?case by (simp add: collect_opt_def)
next
  case (2 levels i n j pending cand)
  then show ?case by (simp add: collect_opt_def add.assoc)
next
  case (3 levels n i pending cand)
  from "3.prems" have ok: "node_ok n" "i \<le> length levels" by auto
  then have loc: "node_local n" by (simp add: node_ok_iff [of n])
  define cand' where "cand' = (case hash_node n of None \<Rightarrow> cand | Some h \<Rightarrow> cand @ opt_list (node_entries h))"
  define pending' where "pending' = (case plus_node n of None \<Rightarrow> pending | Some p \<Rightarrow> (p, i + 1) # pending)"
  have cand': "mset cand' = mset cand + mset (node_get n [[HASH]])"
    by (simp add: cand'_def child_def split: option.splits)
  show ?case
  proof (cases "i = length levels")
    case True
    then show ?thesis
      using "3.IH"(1) [OF _ cand'_def] "3.IH"(3) "3.prems"(2) collect_branches(1) [OF loc] cand'
      by (cases "wild n")
        (auto simp: collect_opt_def Let_def cand'_def [symmetric] simp del: node_get.simps collect.simps)
  next
    case False
    with ok(2) have i: "i < length levels" by simp
    then have drop: "drop i levels = levels ! i # drop (i + 1) levels" by (simp add: Cons_nth_drop_Suc)
    have sub: "\<forall>c. map_of (children n) (levels ! i) = Some c \<longrightarrow> node_ok c \<and> i + 1 \<le> length levels"
      using node_ok_child(2) [OF ok(1)] i by auto
    have pend: "\<forall>(n, j) \<in> set pending'. node_ok n \<and> j \<le> length levels"
      using "3.prems"(2) node_ok_child(1) [OF ok(1)] i by (auto simp: pending'_def split: option.splits)
    have sum: "(\<Sum>(n, j)\<leftarrow>pending'. collect (drop j levels) n)
      = (case plus_node n of None \<Rightarrow> {#} | Some p \<Rightarrow> collect (drop (i + 1) levels) p) + (\<Sum>(n, j)\<leftarrow>pending. collect (drop j levels) n)"
      by (simp add: pending'_def split: option.splits)
    have py: "py_index levels i = Inr (levels ! i)" using i by simp
    show ?thesis
    proof (cases "wild n")
      case True
      from "3.IH"(2) [OF True cand'_def False pending'_def py sub pend]
      obtain r where "iter_walk levels (map_of (children n) (levels ! i)) (i + 1) pending' cand' = Inr r"
          "mset r = mset cand' + collect_opt (drop (i + 1) levels) (map_of (children n) (levels ! i))
            + (\<Sum>(n, j)\<leftarrow>pending'. collect (drop j levels) n)" by blast
      moreover have "iter_walk levels (Some n) i pending cand
          = iter_walk levels (map_of (children n) (levels ! i)) (i + 1) pending' cand'"
        using True False py by (simp add: cand'_def pending'_def cong: option.case_cong)
      ultimately show ?thesis
        using True cand' sum unfolding drop collect_opt_def
        by (simp add: collect_branches(2) [OF loc] ac_simps cong: option.case_cong
            del: node_get.simps collect.simps iter_walk.simps)
    next
      case wild: False
      from "3.IH"(4) [OF wild False py sub "3.prems"(2)]
      show ?thesis
        using wild False py unfolding drop collect_opt_def
        by (simp add: collect_branches(2) [OF loc] cong: option.case_cong del: collect.simps)
    qed
  qed
qed

text \<open>The entries of a list of paths and addresses whose path satisfies a predicate.\<close>

definition sel :: "(pystr list \<Rightarrow> bool) \<Rightarrow> (pystr list \<times> nat) list \<Rightarrow> nat multiset" where
  "sel P L = mset (map snd (filter (\<lambda>x. P (fst x)) L))"

lemma sel_Nil [simp]: "sel P [] = {#}"
  by (simp add: sel_def)

lemma sel_Cons [simp]: "sel P (x # L) = (if P (fst x) then add_mset (snd x) (sel P L) else sel P L)"
  by (simp add: sel_def)

lemma sel_cong: "(\<And>q. P q = Q q) \<Longrightarrow> sel P L = sel Q L"
  by (induction L) auto

lemma sel_or: "(\<And>q. P q \<Longrightarrow> Q q \<Longrightarrow> False) \<Longrightarrow> sel (\<lambda>q. P q \<or> Q q) L = sel P L + sel Q L"
  by (induction L) auto

definition sub_paths :: "pystr \<Rightarrow> (pystr list \<times> nat) list \<Rightarrow> (pystr list \<times> nat) list" where
  "sub_paths l L = map (\<lambda>(q, a). (tl q, a)) (filter (\<lambda>(q, a). q \<noteq> [] \<and> hd q = l) L)"

lemma sel_sub_paths: "sel P (sub_paths l L) = sel (\<lambda>q. q \<noteq> [] \<and> hd q = l \<and> P (tl q)) L"
  by (induction L) (auto simp: sub_paths_def)

lemma sub_paths_empty:
  assumes "\<And>p. sel (\<lambda>q. q = l # p) L = {#}"
  shows "sub_paths l L = []"
proof (rule ccontr)
  assume "sub_paths l L \<noteq> []"
  then obtain q a where "(q, a) \<in> set L" "q \<noteq> []" "hd q = l"
    by (fastforce simp: sub_paths_def filter_empty_conv)
  then have "(l # tl q, a) \<in> set L" by (cases q) auto
  then have "sel (\<lambda>r. r = l # tl q) L \<noteq> {#}" by (auto simp: sel_def filter_empty_conv)
  with assms show False by blast
qed

definition represents :: "node \<Rightarrow> (pystr list \<times> nat) list \<Rightarrow> bool" where
  "represents n L \<longleftrightarrow> (\<forall>p. mset (node_get n p) = sel (\<lambda>q. q = p) L)"

lemma represents_child:
  assumes "represents n L"
  shows "child n l = Some c \<Longrightarrow> represents c (sub_paths l L)"
    and "child n l = None \<Longrightarrow> sub_paths l L = []"
proof -
  have get: "mset (node_get n (l # p)) = sel (\<lambda>q. q = l # p) L" for p using assms unfolding represents_def by blast
  have eq: "sel (\<lambda>q. q = l # p) L = sel (\<lambda>q. q = p) (sub_paths l L)" for p
    unfolding sel_sub_paths by (rule sel_cong) (metis list.collapse list.sel list.distinct(1))
  show "child n l = Some c \<Longrightarrow> represents c (sub_paths l L)"
    using get eq by (simp add: represents_def)
  show "child n l = None \<Longrightarrow> sub_paths l L = []"
    using get by (intro sub_paths_empty) simp
qed

lemma map_of_children:
  assumes "node_local n"
  shows "map_of (children n) t = (if t = [PLUS] \<or> t = [HASH] then None else child n t)"
  using assms by (auto simp: child_def node_local_def map_of_eq_None_iff)

text \<open>A tree that represents a list of filters collects exactly the filters that match.\<close>

lemma collect_matches:
  "node_ok n \<Longrightarrow> represents n L \<Longrightarrow> collect ts n = sel (\<lambda>q. levels_match q ts) L"
proof (induction ts arbitrary: n L)
  case Nil
  have "levels_match q [] \<longleftrightarrow> q = [[HASH]] \<or> q = []" for q by (cases q) auto
  then have "sel (\<lambda>q. levels_match q []) L = sel (\<lambda>q. q = [[HASH]] \<or> q = []) L" by (rule sel_cong)
  also have "\<dots> = sel (\<lambda>q. q = [[HASH]]) L + sel (\<lambda>q. q = []) L" by (rule sel_or) simp
  finally show ?case using Nil by (simp add: represents_def del: node_get.simps)
next
  case (Cons t ts)
  let ?m = "\<lambda>l q. q \<noteq> [] \<and> hd q = l \<and> levels_match (tl q) ts"
  have ok: "node_local n" using Cons.prems by (simp add: node_ok_iff [of n])
  have branch: "(case child n l of None \<Rightarrow> {#} | Some c \<Rightarrow> collect ts c) = sel (?m l) L" for l
  proof (cases "child n l")
    case None
    with represents_child [OF Cons.prems(2)] have "sel (\<lambda>q. levels_match q ts) (sub_paths l L) = {#}" by simp
    with None show ?thesis unfolding sel_sub_paths by simp
  next
    case (Some c)
    with Cons.prems have "node_ok c" by (simp add: node_ok_iff [of n])
    with Some show ?thesis
      using Cons.IH represents_child(1) [OF Cons.prems(2) Some] by (simp add: sel_sub_paths)
  qed
  have plus: "(case plus_node n of None \<Rightarrow> {#} | Some p \<Rightarrow> collect ts p) = sel (?m [PLUS]) L"
    using branch [of "[PLUS]"] by (simp add: child_def)
  have lit: "(case map_of (children n) t of None \<Rightarrow> {#} | Some p \<Rightarrow> collect ts p)
      = sel (\<lambda>q. t \<noteq> [PLUS] \<and> t \<noteq> [HASH] \<and> ?m t q) L"
    using branch [of t] by (auto simp: map_of_children [OF ok] sel_def)
  have "levels_match q (t # ts) \<longleftrightarrow> (q = [[HASH]] \<or> ?m [PLUS] q) \<or> (t \<noteq> [PLUS] \<and> t \<noteq> [HASH] \<and> ?m t q)" for q
    by (cases q) auto
  then have "sel (\<lambda>q. levels_match q (t # ts)) L
      = sel (\<lambda>q. (q = [[HASH]] \<or> ?m [PLUS] q) \<or> (t \<noteq> [PLUS] \<and> t \<noteq> [HASH] \<and> ?m t q)) L" by (rule sel_cong)
  also have "\<dots> = sel (\<lambda>q. q = [[HASH]] \<or> ?m [PLUS] q) L + sel (\<lambda>q. t \<noteq> [PLUS] \<and> t \<noteq> [HASH] \<and> ?m t q) L"
    by (rule sel_or) auto
  also have "sel (\<lambda>q. q = [[HASH]] \<or> ?m [PLUS] q) L = sel (\<lambda>q. q = [[HASH]]) L + sel (?m [PLUS]) L"
    by (rule sel_or) auto
  finally show ?case
    using Cons.prems(2) plus lit by (simp add: represents_def del: node_get.simps)
qed

subsection \<open>The contract of a topic dispatcher, and the matcher's invariant\<close>

text \<open>The filter a registration matches with, and what it matches (MQTT 4.7.2: a wildcard at the
  first level never matches a topic that begins with \<^verbatim>\<open>$\<close>).\<close>

definition effective_levels :: "pystr \<Rightarrow> pystr list" where
  "effective_levels f = split_on SLASH
     (if py_startswith f (lit ''$share/'') then snd (split_first SLASH (snd (split_first SLASH f))) else f)"

definition filter_matches :: "pystr \<Rightarrow> pystr \<Rightarrow> bool" where
  "filter_matches f topic \<longleftrightarrow> levels_match (effective_levels f) (split_on SLASH topic)
     \<and> (py_startswith topic [DOLLAR] \<longrightarrow> hd (effective_levels f) \<notin> {[PLUS], [HASH]})"

definition registrable :: "pystr \<Rightarrow> bool" where
  "registrable f \<longleftrightarrow> is_ok (compile f)"

definition wild_list :: "(nat \<rightharpoonup> 'v entry) \<Rightarrow> (pystr \<times> nat) list \<Rightarrow> (pystr list \<times> nat) list" where
  "wild_list objs E = concat (map (\<lambda>(f, a).
     case e_levels (the (objs a)) of None \<Rightarrow> [] | Some p \<Rightarrow> [(p, a)]) E)"

definition entry_ok :: "'v matcher \<Rightarrow> pystr \<Rightarrow> nat \<Rightarrow> bool" where
  "entry_ok m f a \<longleftrightarrow> a < m_next_sequence m \<and>
     (\<exists>e. m_objs m a = Some e \<and> e_sequence e = a \<and> compile f = Inr (e_levels e))"

definition tree_ok :: "node option \<Rightarrow> (pystr list \<times> nat) list \<Rightarrow> bool" where
  "tree_ok root L = (case root of None \<Rightarrow> L = [] | Some n \<Rightarrow> node_ok n \<and> \<not> is_empty n \<and> represents n L)"

definition matcher_inv :: "'v matcher \<Rightarrow> bool" where
  "matcher_inv m \<longleftrightarrow> distinct (map fst (m_entries m)) \<and> sorted_wrt (<) (map snd (m_entries m))
     \<and> (\<forall>(f, a) \<in> set (m_entries m). entry_ok m f a)
     \<and> tree_ok (m_root m) (wild_list (m_objs m) (m_entries m))"

subsection \<open>Matching is filtering the registrations\<close>

lemma levels_match_literal:
  "\<forall>l \<in> set q. l \<notin> {[PLUS], [HASH]} \<Longrightarrow> levels_match q ts \<longleftrightarrow> q = ts"
  by (induction q ts rule: levels_match.induct) auto

lemma compile_effective:
  assumes "compile f = Inr levels"
  shows "case levels of Some p \<Rightarrow> p = effective_levels f
    | None \<Rightarrow> effective_levels f = split_on SLASH f \<and> (\<forall>l \<in> set (effective_levels f). l \<notin> {[PLUS], [HASH]})"
  using assms by (auto simp: compile_def effective_levels_def Let_def split: if_splits prod.splits)

lemma dollar_first:
  assumes "py_startswith topic [DOLLAR]"
  shows "hd (split_on SLASH topic) \<notin> {[PLUS], [HASH]}"
proof -
  from assms obtain rest where "topic = DOLLAR # rest" by (cases topic) (auto simp: py_startswith_def)
  then show ?thesis by (simp split: list.splits)
qed

lemma exact_matches:
  assumes "compile f = Inr None"
  shows "filter_matches f topic \<longleftrightarrow> f = topic"
proof -
  from compile_effective [OF assms]
  have e: "effective_levels f = split_on SLASH f" "\<forall>l \<in> set (effective_levels f). l \<notin> {[PLUS], [HASH]}" by auto
  have "levels_match (effective_levels f) (split_on SLASH topic) \<longleftrightarrow> f = topic"
    using levels_match_literal [OF e(2)] split_on_inject unfolding e(1) by metis
  moreover have "hd (effective_levels f) \<notin> {[PLUS], [HASH]}" using e by simp
  ultimately show ?thesis unfolding filter_matches_def by blast
qed

definition path_matches :: "pystr \<Rightarrow> pystr list \<Rightarrow> bool" where
  "path_matches topic q \<longleftrightarrow> levels_match q (split_on SLASH topic)
     \<and> (py_startswith topic [DOLLAR] \<longrightarrow> hd q \<notin> {[PLUS], [HASH]})"

definition exact_of :: "(nat \<rightharpoonup> 'v entry) \<Rightarrow> (pystr \<times> nat) list \<Rightarrow> pystr \<Rightarrow> nat list" where
  "exact_of objs E topic = (case map_of E topic of
     Some a \<Rightarrow> if e_levels (the (objs a)) = None then [a] else [] | None \<Rightarrow> [])"

lemma matching_split:
  assumes "distinct (map fst E)" "\<forall>(f, a) \<in> set E. \<exists>e. objs a = Some e \<and> compile f = Inr (e_levels e)"
  shows "mset (exact_of objs E topic) + sel (path_matches topic) (wild_list objs E)
    = mset (map snd (filter (\<lambda>(f, a). filter_matches f topic) E))"
  using assms
proof (induction E)
  case Nil
  then show ?case by (simp add: exact_of_def wild_list_def)
next
  case (Cons fa E)
  obtain f a where fa: "fa = (f, a)" by fastforce
  then obtain e where e: "objs a = Some e" "compile f = Inr (e_levels e)" using Cons.prems(2) by auto
  have IH: "mset (exact_of objs E topic) + sel (path_matches topic) (wild_list objs E)
    = mset (map snd (filter (\<lambda>(f, a). filter_matches f topic) E))" using Cons by auto
  have none: "map_of E topic = None" if "f = topic"
    using Cons.prems(1) that fa by (simp add: map_of_eq_None_iff)
  show ?case
  proof (cases "e_levels e")
    case None
    have "exact_of objs (fa # E) topic = (if f = topic then [a] else exact_of objs E topic)"
      using e None fa by (simp add: exact_of_def)
    moreover have "exact_of objs E topic = []" if "f = topic" using none [OF that] by (simp add: exact_of_def)
    moreover have "wild_list objs (fa # E) = wild_list objs E" using e None fa by (simp add: wild_list_def)
    ultimately show ?thesis using IH exact_matches [of f topic] e None fa by auto
  next
    case (Some p)
    have "exact_of objs (fa # E) topic = exact_of objs E topic"
      using e Some fa none by (cases "f = topic") (simp_all add: exact_of_def)
    moreover have "wild_list objs (fa # E) = (p, a) # wild_list objs E" using e Some fa by (simp add: wild_list_def)
    moreover have "filter_matches f topic \<longleftrightarrow> path_matches topic p"
      using compile_effective [OF e(2)] Some by (simp add: filter_matches_def path_matches_def)
    ultimately show ?thesis using IH fa by auto
  qed
qed

lemma walk_from_root:
  fixes topic :: pystr
  assumes "node_ok root" "represents root L"
  defines "levels \<equiv> split_on SLASH topic"
  shows "\<exists>r. (case (if py_startswith topic [DOLLAR] then (map_of (children root) (levels ! 0), 1) else (Some root, 0)) of
      (node, index) \<Rightarrow> iter_walk levels node index [] cand) = Inr r
    \<and> mset r = mset cand + sel (path_matches topic) L"
proof (cases "py_startswith topic [DOLLAR]")
  case False
  from iter_walk_collects [of "Some root" 0 levels "[]" cand] assms(1)
  obtain r where "iter_walk levels (Some root) 0 [] cand = Inr r" "mset r = mset cand + collect levels root"
    by (auto simp: collect_opt_def)
  moreover have "collect levels root = sel (path_matches topic) L"
    unfolding collect_matches [OF assms(1,2)] by (rule sel_cong) (use False in \<open>simp add: path_matches_def levels_def\<close>)
  ultimately show ?thesis using False by simp
next
  case True
  obtain t ts where lv: "levels = t # ts" unfolding levels_def by (cases "split_on SLASH topic") auto
  have t: "t \<notin> {[PLUS], [HASH]}" using dollar_first [OF True] lv by (simp add: levels_def)
  have loc: "node_local root" using assms(1) by (simp add: node_ok_iff [of root])
  have look: "map_of (children root) t = child root t" using t by (simp add: map_of_children [OF loc])
  have sub: "\<forall>n. child root t = Some n \<longrightarrow> node_ok n \<and> 1 \<le> length levels"
    using assms(1) lv by (simp add: node_ok_iff [of root])
  from iter_walk_collects [OF sub, of "[]" cand]
  obtain r where "iter_walk levels (child root t) 1 [] cand = Inr r" "mset r = mset cand + collect_opt ts (child root t)"
    by (auto simp: lv)
  moreover have "collect_opt ts (child root t) = sel (path_matches topic) L"
  proof -
    have "collect_opt ts (child root t) = sel (\<lambda>q. levels_match q ts) (sub_paths t L)"
      using sub represents_child [OF assms(2), of t] collect_matches
      by (cases "child root t") (auto simp: collect_opt_def)
    also have "\<dots> = sel (path_matches topic) L"
      unfolding sel_sub_paths
    proof (rule sel_cong)
      fix q
      show "(q \<noteq> [] \<and> hd q = t \<and> levels_match (tl q) ts) = path_matches topic q"
        using True t lv by (cases q) (auto simp: path_matches_def levels_def [symmetric])
    qed
    finally show ?thesis .
  qed
  ultimately show ?thesis using True lv look by simp
qed

lemma iter_match_filters:
  assumes "matcher_inv m"
  shows "iter_match m topic = Inr (map (obj_value m) (map snd (filter (\<lambda>(f, a). filter_matches f topic) (m_entries m))))"
proof -
  let ?E = "m_entries m" let ?k = "\<lambda>a. e_sequence (the (m_objs m a))"
  define R where "R = map snd (filter (\<lambda>(f, a). filter_matches f topic) ?E)"
  define ex where "ex = exact_of (m_objs m) ?E topic"
  have parts: "distinct (map fst ?E)" "\<forall>(f, a) \<in> set ?E. \<exists>e. m_objs m a = Some e \<and> compile f = Inr (e_levels e)"
    using assms by (auto simp: matcher_inv_def entry_ok_def)
  have total: "mset ex + sel (path_matches topic) (wild_list (m_objs m) ?E) = mset R"
    unfolding ex_def R_def by (rule matching_split [OF parts])
  have keys: "?k a = a" if "a \<in> set R" for a
    using assms that by (auto simp: R_def matcher_inv_def entry_ok_def)
  then have mapk: "map ?k R = R" by (induction R) auto
  have sorted: "sorted R"
  proof -
    have "sorted_wrt (\<lambda>x y. snd x < snd y) ?E" using assms by (simp add: matcher_inv_def sorted_wrt_map)
    then have "sorted_wrt (<) R" unfolding R_def sorted_wrt_map by (rule sorted_wrt_filter)
    then show ?thesis by (rule strict_sorted_imp_sorted)
  qed
  have sort: "sort_key ?k r = R" if "mset r = mset R" for r
  proof (rule sort_key_inj_key_eq [OF that])
    have "set r = set R" using that by (metis set_mset_mset)
    then show "inj_on ?k (set r)" using keys by (auto intro!: inj_onI)
    show "sorted (map ?k R)" using mapk sorted by simp
  qed
  have short: "sort_key ?k r = r" if "length r \<le> 1" for r
    using that by (cases r) auto
  have pick: "(if length r > 1 then sort_key ?k r else r) = R" if "mset r = mset R" for r
    using sort [OF that] short [of r] by auto
  show ?thesis
  proof (cases "m_root m")
    case None
    then have "wild_list (m_objs m) ?E = []" using assms by (simp add: matcher_inv_def tree_ok_def)
    with total have "mset ex = mset R" by simp
    moreover have "length ex \<le> 1" by (simp add: ex_def exact_of_def split: option.splits)
    ultimately have "ex = R" using pick [of ex] by simp
    with None show ?thesis by (simp add: iter_match_def R_def ex_def exact_of_def)
  next
    case (Some root)
    then have "node_ok root" "represents root (wild_list (m_objs m) ?E)"
      using assms by (auto simp: matcher_inv_def tree_ok_def)
    from walk_from_root [OF this, of topic ex] obtain r where
      "(case (if py_startswith topic [DOLLAR] then (map_of (children root) (split_on SLASH topic ! 0), 1) else (Some root, 0)) of
        (node, index) \<Rightarrow> iter_walk (split_on SLASH topic) node index [] ex) = Inr r" "mset r = mset R"
      using total by auto
    with Some pick [of r] show ?thesis
      by (auto simp: iter_match_def R_def [symmetric] ex_def [symmetric] exact_of_def [symmetric] Let_def split: if_splits)
  qed
qed

subsection \<open>Registration and removal\<close>

lemma wild_list_append: "wild_list objs (E @ E') = wild_list objs E @ wild_list objs E'"
  by (simp add: wild_list_def)

lemma wild_list_cong:
  "(\<And>f a. (f, a) \<in> set E \<Longrightarrow> e_levels (the (objs a)) = e_levels (the (objs' a))) \<Longrightarrow> wild_list objs E = wild_list objs' E"
  by (auto simp: wild_list_def intro!: arg_cong [where f = concat])

lemma sel_append: "sel P (L @ L') = sel P L + sel P L'"
  by (simp add: sel_def)

lemma setitem_replace:
  fixes m :: "'v matcher" and v :: 'v
  assumes "matcher_inv m" "map_of (m_entries m) f = Some a"
  defines "m' \<equiv> snd (setitem f v m)"
  shows "fst (setitem f v m) = Inr ()" "matcher_inv m'" "matcher_items m' = AList.update f v (matcher_items m)"
proof -
  let ?E = "m_entries m"
  have m': "m' = m\<lparr>m_objs := (m_objs m)(a \<mapsto> (the (m_objs m a))\<lparr>e_value := v\<rparr>)\<rparr>"
    using assms(2) by (simp add: m'_def setitem_def)
  show "fst (setitem f v m) = Inr ()" using assms(2) by (simp add: setitem_def)
  have inE: "(f, a) \<in> set ?E" using assms(2) by (rule map_of_SomeD)
  have ok: "entry_ok m g b" if "(g, b) \<in> set ?E" for g b using assms(1) that by (auto simp: matcher_inv_def)
  have dist: "distinct (map fst ?E)" "distinct (map snd ?E)"
    using assms(1) by (auto simp: matcher_inv_def strict_sorted_iff)
  have ok': "entry_ok m' g b" if "(g, b) \<in> set ?E" for g b
    using ok [OF that] by (auto simp: entry_ok_def m')
  have "wild_list (m_objs m') ?E = wild_list (m_objs m) ?E"
    by (rule wild_list_cong) (simp add: m')
  with assms(1) ok' show "matcher_inv m'" by (auto simp: matcher_inv_def m')
  have E': "m_entries m' = ?E" by (simp add: m')
  have val: "obj_value m' b = (if b = a then v else obj_value m b)" for b by (simp add: obj_value_def m')
  have "b = a \<longleftrightarrow> g = f" if "(g, b) \<in> set ?E" for g b
    using inE that dist by (metis eq_key_imp_eq_value distinct_map inj_onD fst_conv snd_conv)
  then have items: "matcher_items m' = map (\<lambda>(g, b). (g, if g = f then v else obj_value m b)) ?E"
    by (auto simp: matcher_items_def E' val)
  have upd: "AList.update f v (map (\<lambda>(g, b). (g, h b)) E) = map (\<lambda>(g, b). (g, if g = f then v else h b)) E"
    if "f \<in> fst ` set E" "distinct (map fst E)" for E :: "(pystr \<times> nat) list" and h
    using that
  proof (induction E)
    case (Cons x E)
    obtain g b where x: "x = (g, b)" by fastforce
    have "map (\<lambda>(g, b). (g, if g = f then v else h b)) E = map (\<lambda>(g, b). (g, h b)) E" if "f \<notin> fst ` set E"
      using that by (force simp: image_iff)
    with Cons x show ?case by (cases "g = f") auto
  qed simp
  show "matcher_items m' = AList.update f v (matcher_items m)"
    unfolding items matcher_items_def [of m] using inE dist(1) by (intro upd [symmetric]) force+
qed

lemma setitem_new:
  fixes m :: "'v matcher" and v :: 'v
  assumes "matcher_inv m" "map_of (m_entries m) f = None" "compile f = Inr levels"
  defines "m' \<equiv> snd (setitem f v m)"
  shows "fst (setitem f v m) = Inr ()" "matcher_inv m'" "matcher_items m' = AList.update f v (matcher_items m)"
proof -
  let ?E = "m_entries m" and ?a = "m_next_sequence m"
  have notin: "f \<notin> fst ` set ?E" using assms(2) by (simp add: map_of_eq_None_iff)
  have upd: "AList.update f (x :: 'x) E = E @ [(f, x)]" if "f \<notin> fst ` set E" for x E
    using that by (induction E) auto
  have old: "entry_ok m g b" if "(g, b) \<in> set ?E" for g b using assms(1) that by (auto simp: matcher_inv_def)
  have E': "m_entries m' = ?E @ [(f, ?a)]"
    using assms(2,3) upd [OF notin] by (auto simp: m'_def setitem_def Let_def split: option.splits)
  have objs': "m_objs m' = (m_objs m)(?a \<mapsto> \<lparr>e_sequence = ?a, e_levels = levels, e_value = v\<rparr>)"
    and next': "m_next_sequence m' = ?a + 1"
    and root': "m_root m' = (case levels of None \<Rightarrow> m_root m
      | Some ls \<Rightarrow> Some (node_add ls ?a (case m_root m of None \<Rightarrow> new_node | Some n \<Rightarrow> n)))"
    using assms(2,3) by (auto simp: m'_def setitem_def Let_def split: option.splits)
  show "fst (setitem f v m) = Inr ()" using assms(2,3) by (auto simp: setitem_def Let_def split: option.splits)
  have ne: "b \<noteq> ?a" if "(g, b) \<in> set ?E" for g b using old [OF that] by (simp add: entry_ok_def)
  have ok': "entry_ok m' g b" if "(g, b) \<in> set (m_entries m')" for g b
    using that old [of g b] ne [of g b] assms(3) by (auto simp: E' entry_ok_def objs' next')
  have W: "wild_list (m_objs m') (m_entries m') = wild_list (m_objs m) ?E @ (case levels of None \<Rightarrow> [] | Some p \<Rightarrow> [(p, ?a)])"
  proof -
    have "wild_list (m_objs m') ?E = wild_list (m_objs m) ?E" by (rule wild_list_cong) (use ne in \<open>auto simp: objs'\<close>)
    moreover have "wild_list (m_objs m') [(f, ?a)] = (case levels of None \<Rightarrow> [] | Some p \<Rightarrow> [(p, ?a)])"
      by (simp add: wild_list_def objs')
    ultimately show ?thesis by (simp add: E' wild_list_append)
  qed
  have "tree_ok (m_root m') (wild_list (m_objs m') (m_entries m'))"
  proof (cases levels)
    case None
    with assms(1) W root' show ?thesis by (simp add: matcher_inv_def)
  next
    case (Some ls)
    define n where "n = (case m_root m of None \<Rightarrow> new_node | Some n \<Rightarrow> n)"
    have get_new: "node_get new_node p = []" for p by (cases p) simp_all
    have n: "node_ok n" "represents n (wild_list (m_objs m) ?E)"
      using assms(1) by (auto simp: n_def matcher_inv_def tree_ok_def represents_def get_new split: option.splits)
    from node_add_ok [OF n(1), of ls ?a] n(2)
    have "represents (node_add ls ?a n) (wild_list (m_objs m) ?E @ [(ls, ?a)])"
      unfolding represents_def sel_append by simp
    with node_add_ok [OF n(1), of ls ?a] Some W root' n_def show ?thesis by (simp add: tree_ok_def)
  qed
  moreover have "sorted_wrt (<) (map snd (m_entries m'))"
    using assms(1) old by (force simp: E' matcher_inv_def sorted_wrt_append entry_ok_def)
  ultimately show "matcher_inv m'"
    using assms(1) ok' notin by (auto simp: matcher_inv_def [of m'] matcher_inv_def [of m] E')
  have "matcher_items m' = matcher_items m @ [(f, v)]"
    using ne by (auto simp: matcher_items_def E' obj_value_def objs')
  moreover have "f \<notin> fst ` set (matcher_items m)" using notin by (force simp: matcher_items_def)
  ultimately show "matcher_items m' = AList.update f v (matcher_items m)" by (simp add: upd)
qed

lemma map_delete: "map (\<lambda>(g, b). (g, h b)) (AList.delete f E) = AList.delete f (map (\<lambda>(g, b). (g, h b)) E)"
  by (induction E) auto

lemma delete_key_split:
  assumes "distinct (map fst E)" "map_of E f = Some a"
  shows "\<exists>E1 E2. E = E1 @ (f, a) # E2 \<and> AList.delete f E = E1 @ E2"
proof -
  from assms(2) obtain E1 E2 where E: "E = E1 @ (f, a) # E2" by (meson map_of_SomeD split_list)
  with assms(1) have "f \<notin> fst ` set E1" "f \<notin> fst ` set E2" by auto
  then have "AList.delete f E1 = E1" "AList.delete f E2 = E2" by (simp_all add: delete_id)
  moreover have "AList.delete f (X @ Y) = AList.delete f X @ AList.delete f Y" for X Y :: "('a \<times> 'b) list"
    by (simp add: AList.delete_eq)
  ultimately show ?thesis using E by auto
qed

lemma delitem_found:
  fixes m :: "'v matcher"
  assumes "matcher_inv m" "map_of (m_entries m) f = Some a"
  defines "m' \<equiv> snd (delitem f m)"
  shows "fst (delitem f m) = Inr () \<and> matcher_inv m' \<and> matcher_items m' = AList.delete f (matcher_items m)"
proof -
  let ?E = "m_entries m" and ?W = "wild_list (m_objs m)"
  have dist: "distinct (map fst ?E)" using assms(1) by (simp add: matcher_inv_def)
  from delete_key_split [OF this assms(2)] obtain E1 E2
    where E: "?E = E1 @ (f, a) # E2" and del: "AList.delete f ?E = E1 @ E2" by blast
  have "entry_ok m f a" using assms(1) E by (auto simp: matcher_inv_def)
  then obtain e where e: "m_objs m a = Some e" by (auto simp: entry_ok_def)
  have W: "?W ?E = ?W E1 @ (case e_levels e of None \<Rightarrow> [] | Some p \<Rightarrow> [(p, a)]) @ ?W E2"
    using e by (simp add: E wild_list_def)
  have tree: "tree_ok (m_root m) (?W ?E)" using assms(1) by (simp add: matcher_inv_def)
  have "\<exists>root'. delitem f m = (Inr (), m\<lparr>m_entries := E1 @ E2, m_root := root'\<rparr>) \<and> tree_ok root' (?W (E1 @ E2))"
  proof (cases "e_levels e")
    case None
    with tree W have "tree_ok (m_root m) (?W (E1 @ E2))" by (simp add: wild_list_append)
    with None e assms(2) del show ?thesis by (intro exI [of _ "m_root m"]) (simp add: delitem_def)
  next
    case (Some ls)
    with W tree obtain root where root: "m_root m = Some root" "node_ok root" "represents root (?W ?E)"
      by (auto simp: tree_ok_def split: option.splits)
    have sel: "sel (\<lambda>q. q = p) (?W ?E) = (if p = ls then {#a#} else {#}) + sel (\<lambda>q. q = p) (?W (E1 @ E2))" for p
      unfolding W Some by (simp add: sel_append wild_list_append)
    have "a \<in># mset (node_get root ls)" using root(3) sel [of ls] by (simp add: represents_def)
    then have "a \<in> set (node_get root ls)" by simp
    from node_remove_ok [OF root(2) this] obtain n' b where n': "node_remove ls a root = Inr (n', b)" "node_ok n'"
        "\<And>p. node_get n' p = (if p = ls then remove1 a (node_get root p) else node_get root p)" by blast
    have rep: "represents n' (?W (E1 @ E2))"
      using root(3) sel by (simp add: represents_def n'(3))
    have none: "?W (E1 @ E2) = []" if "is_empty n'"
    proof (rule ccontr)
      assume "?W (E1 @ E2) \<noteq> []"
      then obtain p x L where "?W (E1 @ E2) = (p, x) # L" by (metis list.exhaust surj_pair)
      then have "sel (\<lambda>q. q = p) (?W (E1 @ E2)) \<noteq> {#}" by simp
      moreover have "node_get n' p = []" using that n'(2) by (intro node_get_empty) (auto simp: node_ok_iff [of n'])
      ultimately show False using rep unfolding represents_def by (metis mset.simps(1))
    qed
    have "delitem f m = (Inr (), m\<lparr>m_entries := E1 @ E2, m_root := if is_empty n' then None else Some n'\<rparr>)"
      using assms(2) e Some root(1) n'(1) del by (simp add: delitem_def)
    moreover have "tree_ok (if is_empty n' then None else Some n') (?W (E1 @ E2))"
      using n'(2) rep none by (simp add: tree_ok_def)
    ultimately show ?thesis by blast
  qed
  then obtain root' where run: "delitem f m = (Inr (), m\<lparr>m_entries := E1 @ E2, m_root := root'\<rparr>)"
    and ok: "tree_ok root' (?W (E1 @ E2))" by blast
  have same: "entry_ok (m\<lparr>m_entries := E1 @ E2, m_root := root'\<rparr>) = entry_ok m"
    by (intro ext) (simp add: entry_ok_def)
  have "matcher_inv m'"
    using assms(1) ok unfolding matcher_inv_def m'_def run E by (auto simp: same sorted_wrt_append)
  moreover have "matcher_items m' = AList.delete f (matcher_items m)"
    unfolding matcher_items_def map_delete [symmetric] del by (simp add: m'_def run obj_value_def)
  ultimately show ?thesis by (simp add: run)
qed

subsection \<open>The contract of a topic dispatcher\<close>

text \<open>What the client's callback dispatch relies on: registrations form an ordered dictionary, a
  registration in place keeps its position, and matching enumerates the values of the matching
  filters in that order.\<close>

locale topic_dispatch =
  fixes inv :: "'s \<Rightarrow> bool" and items :: "'s \<Rightarrow> (pystr \<times> 'v) list" and initial :: 's
    and register :: "pystr \<Rightarrow> 'v \<Rightarrow> 's \<Rightarrow> unit result \<times> 's"
    and unregister :: "pystr \<Rightarrow> 's \<Rightarrow> unit result \<times> 's"
    and lookup :: "'s \<Rightarrow> pystr \<Rightarrow> 'v list result"
    and accepts :: "pystr \<Rightarrow> bool" and hits :: "pystr \<Rightarrow> pystr \<Rightarrow> bool"
  assumes initial: "inv initial" "items initial = []"
    and register_law: "inv s \<Longrightarrow> register f v s = (res, s') \<Longrightarrow> inv s' \<and>
      (if f \<in> fst ` set (items s) \<or> accepts f then res = Inr () \<and> items s' = AList.update f v (items s)
       else res = Inl IndexError \<and> s' = s)"
    and unregister_law: "inv s \<Longrightarrow> unregister f s = (ack, s') \<Longrightarrow> inv s' \<and>
      items s' = AList.delete f (items s) \<and>
      ack = (if f \<in> fst ` set (items s) then Inr () else Inl KeyError)"
    and lookup_law: "inv s \<Longrightarrow> lookup s t = Inr (map snd (filter (\<lambda>(f, v). hits f t) (items s)))"
begin

text \<open>A history of registrations (with a value) and removals, on the dispatcher and on the list.\<close>

fun history :: "(pystr \<times> 'v option) list \<Rightarrow> 's \<Rightarrow> 's" where
  "history [] s = s"
| "history ((f, Some v) # ops) s = history ops (snd (register f v s))"
| "history ((f, None) # ops) s = history ops (snd (unregister f s))"

fun history_spec :: "(pystr \<times> 'v option) list \<Rightarrow> (pystr \<times> 'v) list \<Rightarrow> (pystr \<times> 'v) list" where
  "history_spec [] L = L"
| "history_spec ((f, Some v) # ops) L =
     history_spec ops (if f \<in> fst ` set L \<or> accepts f then AList.update f v L else L)"
| "history_spec ((f, None) # ops) L = history_spec ops (AList.delete f L)"

lemma history_refines: "inv s \<Longrightarrow> inv (history ops s) \<and> items (history ops s) = history_spec ops (items s)"
proof (induction ops s rule: history.induct)
  case (2 f v ops s)
  obtain res s' where run: "register f v s = (res, s')" by fastforce
  from register_law [OF 2(2) run] 2(1) run show ?case by (auto split: if_splits)
next
  case (3 f ops s)
  obtain ack s' where run: "unregister f s = (ack, s')" by fastforce
  from unregister_law [OF 3(2) run] 3(1) run show ?case by auto
qed simp

lemma history_lookup:
  "lookup (history ops initial) t = Inr (map snd (filter (\<lambda>(f, v). hits f t) (history_spec ops [])))"
  using history_refines [OF initial(1), of ops] lookup_law initial(2) by simp

end

lemma fst_matcher_items: "fst ` set (matcher_items m) = fst ` set (m_entries m)"
  by (force simp: matcher_items_def)

lemma map_of_none_keys: "map_of E f = None \<longleftrightarrow> f \<notin> fst ` set E"
  by (simp add: map_of_eq_None_iff)

lemma compile_error: "compile f = Inl e \<Longrightarrow> e = IndexError"
  by (auto simp: compile_def Let_def split: if_splits prod.splits)

interpretation dispatch: topic_dispatch matcher_inv matcher_items new_matcher setitem delitem iter_match
    registrable filter_matches
proof
  show "matcher_inv new_matcher" "matcher_items new_matcher = []"
    by (simp_all add: matcher_inv_def new_matcher_def tree_ok_def wild_list_def matcher_items_def)
next
  fix m m' :: "'v matcher" and f v res
  assume inv: "matcher_inv m" and run: "setitem f v m = (res, m')"
  have none: "map_of (m_entries m) f = None \<longleftrightarrow> f \<notin> fst ` set (matcher_items m)"
    by (simp only: map_of_none_keys fst_matcher_items)
  show "matcher_inv m' \<and> (if f \<in> fst ` set (matcher_items m) \<or> registrable f
      then res = Inr () \<and> matcher_items m' = AList.update f v (matcher_items m) else res = Inl IndexError \<and> m' = m)"
  proof (cases "map_of (m_entries m) f")
    case (Some a)
    from setitem_replace [OF inv Some, of v] run Some none show ?thesis by simp
  next
    case new: None
    show ?thesis
    proof (cases "compile f")
      case (Inr levels)
      then have "registrable f" by (simp add: registrable_def)
      with setitem_new [OF inv new Inr, of v] run show ?thesis by simp
    next
      case (Inl e)
      then have "\<not> registrable f" "e = IndexError" by (simp_all add: registrable_def compile_error)
      with Inl new none inv run show ?thesis by (auto simp: setitem_def)
    qed
  qed
next
  fix m m' :: "'v matcher" and f ack
  assume inv: "matcher_inv m" and run: "delitem f m = (ack, m')"
  have none: "map_of (m_entries m) f = None \<longleftrightarrow> f \<notin> fst ` set (matcher_items m)"
    by (simp only: map_of_none_keys fst_matcher_items)
  show "matcher_inv m' \<and> matcher_items m' = AList.delete f (matcher_items m)
      \<and> ack = (if f \<in> fst ` set (matcher_items m) then Inr () else Inl KeyError)"
  proof (cases "map_of (m_entries m) f")
    case (Some a)
    from delitem_found [OF inv Some] run Some none show ?thesis by simp
  next
    case None
    with inv run none show ?thesis by (auto simp: delitem_def delete_id)
  qed
next
  fix m :: "'v matcher" and t
  assume "matcher_inv m"
  from iter_match_filters [OF this, of t]
  show "iter_match m t = Inr (map snd (filter (\<lambda>(f, v). filter_matches f t) (matcher_items m)))"
    by (simp add: matcher_items_def filter_map comp_def case_prod_unfold)
qed

text \<open>
  C27. Whatever registrations and removals preceded, the matcher holds exactly the ordered dictionary
  of filters and values they leave, and matching a topic returns the values of the filters that
  match it under the MQTT wildcard rules, in registration order, with no value missing, repeated
  or taken from a removed filter: the tree with its exact index, its cached wildcard flags, its
  shared entry objects and the stack-driven walk refines a linear scan of the registrations.
\<close>

theorem iter_match_refines:
  "matcher_items (dispatch.history ops new_matcher) = dispatch.history_spec ops []
   \<and> iter_match (dispatch.history ops new_matcher) topic
     = Inr (map snd (filter (\<lambda>(f, v). filter_matches f topic) (dispatch.history_spec ops [])))"
  using dispatch.history_refines [OF dispatch.initial(1), of ops] dispatch.history_lookup [of ops topic]
  by (simp add: dispatch.initial)

lemma getitem_items:
  "matcher_inv m \<Longrightarrow> getitem f m = (case map_of (matcher_items m) f of None \<Rightarrow> Inl KeyError | Some v \<Rightarrow> Inr v)"
  by (simp add: getitem_def matcher_items_def map_of_map split: option.splits)

text \<open>
  Removing a filter never fails an internal assertion: it succeeds exactly when the filter is
  registered and raises \<^verbatim>\<open>KeyError\<close> otherwise; afterwards the filter is not found, every other filter
  keeps its value, and the tree has no branch without a filter: the root is dropped
  exactly when no wildcard registration is left.
\<close>

theorem delitem_prunes:
  fixes ops :: "(pystr \<times> 'v option) list"
  defines "m \<equiv> dispatch.history ops new_matcher"
  shows "fst (delitem f m) = (if is_ok (getitem f m) then Inr () else Inl KeyError)
    \<and> (\<forall>g. getitem g (snd (delitem f m)) = (if g = f then Inl KeyError else getitem g m))
    \<and> (case m_root (snd (delitem f m)) of
         None \<Rightarrow> wild_list (m_objs (snd (delitem f m))) (m_entries (snd (delitem f m))) = []
       | Some n \<Rightarrow> node_ok n \<and> \<not> is_empty n)"
proof -
  have inv: "matcher_inv m" using dispatch.history_refines [OF dispatch.initial(1), of ops] by (simp add: m_def)
  obtain ack m' where run: "delitem f m = (ack, m')" by fastforce
  from dispatch.unregister_law [OF inv run] have inv': "matcher_inv m'"
    and items: "matcher_items m' = AList.delete f (matcher_items m)"
    and ack: "ack = (if f \<in> fst ` set (matcher_items m) then Inr () else Inl KeyError)" by auto
  have "is_ok (getitem f m) \<longleftrightarrow> f \<in> fst ` set (matcher_items m)"
    using map_of_none_keys [of "matcher_items m" f]
    by (cases "map_of (matcher_items m) f") (simp_all add: getitem_items [OF inv])
  moreover have "getitem g m' = (if g = f then Inl KeyError else getitem g m)" for g
    by (simp add: getitem_items [OF inv] getitem_items [OF inv'] items delete_conv')
  moreover have "case m_root m' of None \<Rightarrow> wild_list (m_objs m') (m_entries m') = [] | Some n \<Rightarrow> node_ok n \<and> \<not> is_empty n"
    using inv' by (simp add: matcher_inv_def tree_ok_def split: option.splits)
  ultimately show ?thesis using ack unfolding run fst_conv snd_conv by auto
qed

end
