(* ===== verification/Enums.thy ===== *)
theory Enums
  imports Prelude
begin

text \<open>
  The enumerations of \<^verbatim>\<open>src/src/mqttium/enums.py\<close>: packet types with their wire values and the
  table lookup by the high nibble of the header byte, protocol versions and the QoS exchange states.
\<close>

datatype protocol_version = MQTTv311 | MQTTv5

definition version_value :: "protocol_version \<Rightarrow> int" where
  "version_value v = (case v of MQTTv311 \<Rightarrow> 4 | MQTTv5 \<Rightarrow> 5)"

datatype packet_type =
    CONNECT | CONNACK | PUBLISH | PUBACK | PUBREC | PUBREL | PUBCOMP | SUBSCRIBE | SUBACK
  | UNSUBSCRIBE | UNSUBACK | PINGREQ | PINGRESP | DISCONNECT | AUTH

fun packet_type_value :: "packet_type \<Rightarrow> int" where
  "packet_type_value CONNECT = 0x10"
| "packet_type_value CONNACK = 0x20"
| "packet_type_value PUBLISH = 0x30"
| "packet_type_value PUBACK = 0x40"
| "packet_type_value PUBREC = 0x50"
| "packet_type_value PUBREL = 0x60"
| "packet_type_value PUBCOMP = 0x70"
| "packet_type_value SUBSCRIBE = 0x80"
| "packet_type_value SUBACK = 0x90"
| "packet_type_value UNSUBSCRIBE = 0xA0"
| "packet_type_value UNSUBACK = 0xB0"
| "packet_type_value PINGREQ = 0xC0"
| "packet_type_value PINGRESP = 0xD0"
| "packet_type_value DISCONNECT = 0xE0"
| "packet_type_value AUTH = 0xF0"

definition PACKET_TYPES_BY_NIBBLE :: "packet_type option list" where
  "PACKET_TYPES_BY_NIBBLE =
     [None, Some CONNECT, Some CONNACK, Some PUBLISH, Some PUBACK, Some PUBREC, Some PUBREL, Some PUBCOMP,
      Some SUBSCRIBE, Some SUBACK, Some UNSUBSCRIBE, Some UNSUBACK, Some PINGREQ, Some PINGRESP,
      Some DISCONNECT, Some AUTH]"

definition from_byte :: "int \<Rightarrow> packet_type result" where
  "from_byte byte =
     rbind (py_index PACKET_TYPES_BY_NIBBLE (nat (drop_bit 4 (byte AND 0xF0)))) (\<lambda>packet_type.
       case packet_type of None \<Rightarrow> Inl MalformedPacketError | Some t \<Rightarrow> Inr t)"

datatype outbound_state = QUEUED | WAIT_PUBACK | WAIT_PUBREC | WAIT_PUBCOMP | DONE

datatype inbound_state = IN_WAIT_PUBREL | IN_DONE | IN_WAIT_PUBACK | IN_WAIT_USER_ACK

subsection \<open>The header byte\<close>

lemma high_nibble: "drop_bit 4 ((b :: int) AND 0xF0) = b div 16 mod 16"
proof -
  have "drop_bit 4 (b AND 0xF0) = drop_bit 4 b AND drop_bit 4 0xF0" by (rule drop_bit_and)
  also have "drop_bit 4 (0xF0 :: int) = 0x0F" by (simp add: drop_bit_eq_div)
  also have "drop_bit 4 b AND 0x0F = b div 16 mod 16" by (simp add: int_and_0F drop_bit_eq_div)
  finally show ?thesis .
qed

lemma from_byte_alt: "from_byte b = (case PACKET_TYPES_BY_NIBBLE ! nat (b div 16 mod 16) of
    None \<Rightarrow> Inl MalformedPacketError | Some t \<Rightarrow> Inr t)"
proof -
  have "nat (b div 16 mod 16) < length PACKET_TYPES_BY_NIBBLE"
    using pos_mod_bound [of 16 "b div 16"] by (simp add: PACKET_TYPES_BY_NIBBLE_def nat_less_iff)
  then show ?thesis unfolding from_byte_def high_nibble by simp
qed

lemma from_byte_value: "from_byte (packet_type_value t) = Inr t"
  by (cases t) (simp_all add: from_byte_alt PACKET_TYPES_BY_NIBBLE_def)

lemma from_byte_flags:
  assumes "0 \<le> flags" "flags < 16"
  shows "from_byte (packet_type_value t + flags) = Inr t"
proof -
  have "(packet_type_value t + flags) div 16 = packet_type_value t div 16"
    using assms by (cases t) simp_all
  with from_byte_value [of t] show ?thesis by (simp add: from_byte_alt)
qed

lemma packet_type_value_range: "16 \<le> packet_type_value t" "packet_type_value t \<le> 240" "packet_type_value t mod 16 = 0"
  by (cases t; simp)+

lemma packet_types_table:
  "\<forall>n<16. case PACKET_TYPES_BY_NIBBLE ! n of None \<Rightarrow> True | Some t \<Rightarrow> packet_type_value t = 16 * int n"
  by (simp add: numeral_eq_Suc All_less_Suc PACKET_TYPES_BY_NIBBLE_def)

lemma from_byte_sound:
  assumes "from_byte b = Inr t" "0 \<le> b" "b < 256"
  shows "b = packet_type_value t + b mod 16"
proof -
  have k: "b div 16 mod 16 = b div 16" "0 \<le> b div 16" "nat (b div 16) < 16" using assms(2,3) by auto
  from packet_types_table k(3) assms(1) have "packet_type_value t = 16 * (b div 16)"
    using k by (auto simp: from_byte_alt split: option.splits)
  then show ?thesis using div_mult_mod_eq [of b 16] by simp
qed

lemma from_byte_error: "from_byte b = Inl e \<Longrightarrow> e = MalformedPacketError"
  by (simp add: from_byte_alt split: option.splits)

end
