(* ===== verification/Buffer.thy ===== *)
theory Buffer
  imports Primitives Enums
begin

text \<open>
  The incremental frame decoder, \<^verbatim>\<open>src/src/mqttium/codec/buffer.py\<close>: a reusable slab with a read and a
  write offset, in-place compaction, progressive growth, adaptive receive windows and retirement of
  oversized slabs. Its live bytes refine a plain byte stream: no operation but consumption
  loses or reorders a byte, and the packets read do not depend on how the stream was cut into
  fragments nor on the storage policy.
\<close>

subsection \<open>Constants and state\<close>

definition DEFAULT_MAX_PACKET_SIZE :: nat where "DEFAULT_MAX_PACKET_SIZE = 16777216"
definition DEFAULT_CAPACITY :: nat where "DEFAULT_CAPACITY = 262144"
definition MIN_CAPACITY :: nat where "MIN_CAPACITY = 16384"
definition INITIAL_WINDOW :: nat where "INITIAL_WINDOW = 65536"
definition PROMOTE_AFTER :: nat where "PROMOTE_AFTER = 4"
definition LARGE_FRAME :: nat where "LARGE_FRAME = DEFAULT_CAPACITY"
definition RECEIVE_QUANTUM :: nat where "RECEIVE_QUANTUM = DEFAULT_CAPACITY"
definition OVERSIZE_RETENTION :: nat where "OVERSIZE_RETENTION = 64"

record raw_packet =
  raw_type :: packet_type
  raw_flags :: int
  remaining :: bytes

record decoder =
  d_buf :: bytes
  d_start :: nat
  d_end :: nat
  d_capacity :: nat
  idle_drains :: nat
  window_peak :: nat
  drain_had_large_frame :: bool
  d_offered :: nat
  target_window :: nat
  full_fills :: nat
  max_packet_size :: nat
  high_water :: nat

definition new_decoder :: "nat \<Rightarrow> decoder result" where
  "new_decoder max_size =
     (if max_size < 1 then Inl ValueError
      else Inr \<lparr>d_buf = [], d_start = 0, d_end = 0, d_capacity = 0, idle_drains = 0, window_peak = 0,
                drain_had_large_frame = False, d_offered = 0, target_window = INITIAL_WINDOW,
                full_fills = 0, max_packet_size = max_size, high_water = 0\<rparr>)"

definition buffered :: "decoder \<Rightarrow> nat" where
  "buffered d = d_end d - d_start d"

definition next_header_byte :: "decoder \<Rightarrow> int option" where
  "next_header_byte d = (if d_start d < d_end d then Some (uint (d_buf d ! d_start d)) else None)"

definition set_max_packet_size :: "nat \<Rightarrow> decoder \<Rightarrow> decoder result" where
  "set_max_packet_size v d = (if v < 1 then Inl ValueError else Inr (d\<lparr>max_packet_size := v\<rparr>))"

subsection \<open>Storage policy\<close>

text \<open>Assigning to a slice of a memoryview of another length raises \<^verbatim>\<open>ValueError\<close>.\<close>

definition reallocate :: "nat \<Rightarrow> decoder \<Rightarrow> decoder result" where
  "reallocate capacity d =
     (let live = d_end d - d_start d
      in if live > capacity then Inl ValueError
         else Inr (d\<lparr>d_buf := py_slice (d_buf d) (d_start d) (d_end d) @ replicate (capacity - live) 0,
                     d_capacity := capacity, d_start := 0, d_end := live\<rparr>))"

definition ensure :: "nat \<Rightarrow> nat option \<Rightarrow> decoder \<Rightarrow> decoder result" where
  "ensure need exact_total d =
     (if d_capacity d - d_end d \<ge> need then Inr d
      else
        (let live = d_end d - d_start d
         in if d_capacity d - live \<ge> need then
              Inr (d\<lparr>d_buf := py_slice (d_buf d) (d_start d) (d_end d) @ drop live (d_buf d),
                     d_start := 0, d_end := live\<rparr>)
            else
              (let required = live + need;
                   capacity = max (max (d_capacity d * 2) MIN_CAPACITY) required;
                   capacity' = (case exact_total of None \<Rightarrow> capacity
                                | Some frame_total \<Rightarrow> max required (min capacity frame_total));
                   ceiling = max_packet_size d + RECEIVE_QUANTUM;
                   capacity'' = (if required \<le> ceiling \<and> ceiling < capacity' then ceiling else capacity')
               in reallocate capacity'' d)))"

text \<open>\<^verbatim>\<open>while target < peak: target *= 2\<close>; the target starts at 16 KiB or tail.\<close>

function double_until :: "nat \<Rightarrow> nat \<Rightarrow> nat" where
  "double_until target peak = (if 0 < target \<and> target < peak then double_until (target * 2) peak else target)"
  by pat_completeness auto
termination
  by (relation "measure (\<lambda>(target, peak). peak - target)") auto

declare double_until.simps [simp del]

definition retire_oversize :: "decoder \<Rightarrow> decoder result" where
  "retire_oversize d =
     (if drain_had_large_frame d then
        Inr (d\<lparr>drain_had_large_frame := False, idle_drains := 0, window_peak := 0\<rparr>)
      else
        (let d1 = d\<lparr>idle_drains := idle_drains d + 1\<rparr>
         in if idle_drains d1 < OVERSIZE_RETENTION then Inr d1
            else
              (let floor = target_window d1;
                   target = double_until (if MIN_CAPACITY > floor then MIN_CAPACITY else floor) (window_peak d1);
                   d2 = d1\<lparr>idle_drains := 0, window_peak := 0\<rparr>
               in if target < d_capacity d2 then reallocate target d2 else Inr d2)))"

definition known_frame_total :: "decoder \<Rightarrow> nat option" where
  "known_frame_total d =
     (if d_end d - d_start d < 2 then None
      else case decode_vbi (d_buf d) (d_start d + 1) (Some (d_end d)) of
        Inl _ \<Rightarrow> None
      | Inr (rem, rl_end) \<Rightarrow>
          (let frame_total = (rl_end - d_start d) + nat rem
           in if frame_total \<le> d_end d - d_start d \<or> frame_total > max_packet_size d then None else Some frame_total))"

definition decoder_reset :: "decoder \<Rightarrow> decoder result" where
  "decoder_reset d =
     (let d1 = d\<lparr>d_start := 0, d_end := 0\<rparr>
      in if d_capacity d1 > target_window d1 then retire_oversize d1 else Inr d1)"

definition decoder_clear :: "decoder \<Rightarrow> decoder result" where
  "decoder_clear d =
     (let d1 = d\<lparr>d_start := 0, d_end := 0, idle_drains := 0, window_peak := 0, drain_had_large_frame := False,
                 d_offered := 0, target_window := INITIAL_WINDOW, full_fills := 0\<rparr>
      in if d_capacity d1 > INITIAL_WINDOW then reallocate INITIAL_WINDOW d1 else Inr d1)"

subsection \<open>Receiving\<close>

text \<open>The window is the range of slab offsets the receiver may fill.\<close>

definition writable_window :: "nat \<Rightarrow> decoder \<Rightarrow> ((nat \<times> nat) \<times> decoder) result" where
  "writable_window preferred d =
     (let want = (if preferred > target_window d then preferred else target_window d);
          (exact, want') =
            (if d_capacity d - d_end d < want then
               (case known_frame_total d of
                  None \<Rightarrow> (None, want)
                | Some frame_total \<Rightarrow>
                    (let rest = frame_total - (d_end d - d_start d)
                     in (Some frame_total, if 0 < rest \<and> rest < want then rest else want)))
             else (None, want))
      in rbind (ensure want' exact d) (\<lambda>d1.
           (let end = d_end d1;
                limit = (if end + want' > d_capacity d1 then d_capacity d1 else end + want')
            in Inr ((end, limit), d1\<lparr>d_offered := limit - end\<rparr>))))"

text \<open>What the receiver does with the window: the first bytes of it are overwritten.\<close>

definition fill_window :: "nat \<times> nat \<Rightarrow> bytes \<Rightarrow> decoder \<Rightarrow> decoder" where
  "fill_window w data d =
     d\<lparr>d_buf := take (fst w) (d_buf d) @ data @ drop (fst w + length data) (d_buf d)\<rparr>"

definition note_ingress :: "decoder \<Rightarrow> decoder" where
  "note_ingress d =
     (let n = d_end d - d_start d
      in d\<lparr>high_water := (if n > high_water d then n else high_water d),
           window_peak := (if n > window_peak d then n else window_peak d)\<rparr>)"

definition decoder_commit :: "nat \<Rightarrow> decoder \<Rightarrow> decoder result" where
  "decoder_commit nbytes d =
     (if nbytes = 0 then Inr d
      else if nbytes > d_offered d then Inl ValueError
      else
        (let d1 = d\<lparr>d_offered := 0\<rparr>;
             d2 = (if nbytes = d_offered d \<and> target_window d < RECEIVE_QUANTUM then
                     (let fills = full_fills d + 1
                      in if fills \<ge> PROMOTE_AFTER
                         then d1\<lparr>full_fills := 0, target_window := target_window d * 2\<rparr>
                         else d1\<lparr>full_fills := fills\<rparr>)
                   else d1\<lparr>full_fills := 0\<rparr>)
         in Inr (note_ingress (d2\<lparr>d_end := d_end d2 + nbytes\<rparr>))))"

definition feed :: "bytes \<Rightarrow> decoder \<Rightarrow> decoder result" where
  "feed data d =
     (let nbytes = length data
      in if nbytes = 0 then Inr d
         else rbind (if d_capacity d - d_end d < nbytes then ensure nbytes (known_frame_total d) d else Inr d)
           (\<lambda>d1.
             (let end = d_end d1
              in if end + nbytes > length (d_buf d1) then Inl ValueError
                 else Inr (note_ingress
                   (d1\<lparr>d_buf := take end (d_buf d1) @ data @ drop (end + nbytes) (d_buf d1),
                       d_end := end + nbytes\<rparr>)))))"

subsection \<open>Framing\<close>

text \<open>\<^verbatim>\<open>all(buf[start + i] & 0x80 for i in range(1, available))\<close>\<close>

definition all_continued :: "bytes \<Rightarrow> nat \<Rightarrow> nat \<Rightarrow> bool" where
  "all_continued buf start available \<longleftrightarrow>
     list_all (\<lambda>i. uint (buf ! (start + i)) AND 0x80 \<noteq> 0) [1..<available]"

text \<open>The Remaining Length of the head frame as \<^verbatim>\<open>next_packet\<close> reads it: \<^verbatim>\<open>None\<close> while it is incomplete.\<close>

definition head_length :: "decoder \<Rightarrow> (int \<times> nat) option result" where
  "head_length d =
     (let available = d_end d - d_start d
      in case decode_vbi (d_buf d) (d_start d + 1) (Some (d_end d)) of
           Inr r \<Rightarrow> Inr (Some r)
         | Inl MalformedPacketError \<Rightarrow>
             if available \<ge> 5 then Inl MalformedPacketError
             else if all_continued (d_buf d) (d_start d) available then Inr None
             else Inl MalformedPacketError
         | Inl e \<Rightarrow> Inl e)"

definition peek_packet_bounds :: "decoder \<Rightarrow> (int \<times> nat \<times> nat) option result" where
  "peek_packet_bounds d =
     (let buf = d_buf d; start = d_start d; available = d_end d - start
      in if available < 2 then Inr None
         else
           (let header = uint (buf ! start); first = uint (buf ! (start + 1))
            in rbind
                 (if first < 0x80 then Inr (Some (first, start + 2))
                  else if available \<ge> 3 \<and> uint (buf ! (start + 2)) < 0x80 then
                    (let len = (first AND 0x7F) OR push_bit 7 (uint (buf ! (start + 2)))
                     in if len < 128 then Inl MalformedPacketError else Inr (Some (len, start + 3)))
                  else head_length d)
                 (\<lambda>r. case r of
                    None \<Rightarrow> Inr None
                  | Some (remaining_length, rl_end) \<Rightarrow>
                      (let fixed_header_len = rl_end - start;
                           frame_total = fixed_header_len + nat remaining_length
                       in if frame_total > max_packet_size d then Inl PacketTooLargeError
                          else if available < frame_total then Inr None
                          else Inr (Some (header, start + fixed_header_len, start + frame_total))))))"

definition head_frame_ready :: "decoder \<Rightarrow> bool result" where
  "head_frame_ready d =
     (case peek_packet_bounds d of
        Inr r \<Rightarrow> Inr (r \<noteq> None)
      | Inl MalformedPacketError \<Rightarrow> Inr True
      | Inl PacketTooLargeError \<Rightarrow> Inr True
      | Inl e \<Rightarrow> Inl e)"

definition consume_peeked_packet :: "nat \<Rightarrow> decoder \<Rightarrow> decoder result" where
  "consume_peeked_packet body_end d =
     (if \<not> (d_start d < body_end \<and> body_end \<le> d_end d) then Inl AssertionError
      else
        (let d1 = (if body_end - d_start d > LARGE_FRAME then d\<lparr>drain_had_large_frame := True\<rparr> else d);
             d2 = d1\<lparr>d_start := body_end\<rparr>
         in if d_start d2 = d_end d2 then decoder_reset d2 else Inr d2))"

definition next_packet :: "decoder \<Rightarrow> (raw_packet option \<times> decoder) result" where
  "next_packet d =
     (let buf = d_buf d; start = d_start d; available = d_end d - start
      in if available < 2 then Inr (None, d)
         else
           (let header = uint (buf ! start)
            in rbind (head_length d) (\<lambda>r. case r of
                 None \<Rightarrow> Inr (None, d)
               | Some (remaining_length, rl_end) \<Rightarrow>
                   (let fixed_header_len = rl_end - start;
                        frame_total = fixed_header_len + nat remaining_length
                    in if frame_total > max_packet_size d then Inl PacketTooLargeError
                       else if available < frame_total then Inr (None, d)
                       else rbind (from_byte header) (\<lambda>packet_type.
                         (let flags = header AND 0x0F;
                              body_start = start + fixed_header_len;
                              body_end = start + frame_total;
                              body = py_slice buf body_start body_end;
                              d1 = d\<lparr>d_start := body_end\<rparr>;
                              d2 = (if frame_total > LARGE_FRAME then d1\<lparr>drain_had_large_frame := True\<rparr> else d1)
                          in rbind (if body_end = d_end d2 then decoder_reset d2 else Inr d2) (\<lambda>d3.
                               Inr (Some \<lparr>raw_type = packet_type, raw_flags = flags, remaining = body\<rparr>, d3))))))))"

fun drain_packets :: "nat \<Rightarrow> decoder \<Rightarrow> raw_packet list result \<times> decoder" where
  "drain_packets 0 d = (Inr [], d)"
| "drain_packets (Suc limit) d =
     (case next_packet d of
        Inl e \<Rightarrow> (Inl e, d)
      | Inr (None, d') \<Rightarrow> (Inr [], d')
      | Inr (Some packet, d') \<Rightarrow>
          (let (r, d'') = drain_packets limit d' in (rbind r (\<lambda>ps. Inr (packet # ps)), d'')))"

subsection \<open>The live bytes, and the invariant of the slab\<close>

definition live :: "decoder \<Rightarrow> bytes" where
  "live d = py_slice (d_buf d) (d_start d) (d_end d)"

definition decoder_inv :: "decoder \<Rightarrow> bool" where
  "decoder_inv d \<longleftrightarrow> length (d_buf d) = d_capacity d \<and> d_start d \<le> d_end d \<and> d_end d \<le> d_capacity d
     \<and> 1 \<le> max_packet_size d \<and> target_window d \<in> {INITIAL_WINDOW, INITIAL_WINDOW * 2, RECEIVE_QUANTUM}"

lemma length_live: "decoder_inv d \<Longrightarrow> length (live d) = d_end d - d_start d"
  unfolding live_def decoder_inv_def length_py_slice by linarith

lemma py_slice_whole: "length xs \<le> n \<Longrightarrow> py_slice xs 0 n = xs"
  by (simp add: py_slice_def)

lemma py_slice_prefix: "b \<le> length xs \<Longrightarrow> py_slice (xs @ ys) a b = py_slice xs a b"
  by (simp add: py_slice_def take_drop)

lemma py_slice_py_slice:
  assumes "a + c \<le> b" "b \<le> length xs"
  shows "py_slice (py_slice xs a b) k c = py_slice xs (a + k) (a + c)"
  using assms by (simp add: py_slice_def take_drop drop_drop take_take min_def ac_simps)

lemma live_nth: "decoder_inv d \<Longrightarrow> i < d_end d - d_start d \<Longrightarrow> live d ! i = d_buf d ! (d_start d + i)"
  by (simp add: live_def py_slice_def decoder_inv_def)

definition same_policy :: "decoder \<Rightarrow> decoder \<Rightarrow> bool" where
  "same_policy d d' \<longleftrightarrow> decoder_inv d' \<and> live d' = live d \<and> max_packet_size d' = max_packet_size d
     \<and> target_window d' = target_window d"

lemma same_policyD:
  "same_policy d d' \<Longrightarrow> decoder_inv d'" "same_policy d d' \<Longrightarrow> live d' = live d"
  "same_policy d d' \<Longrightarrow> max_packet_size d' = max_packet_size d" "same_policy d d' \<Longrightarrow> target_window d' = target_window d"
  by (simp_all add: same_policy_def)

lemma reallocate_keeps:
  assumes "decoder_inv d" "d_end d - d_start d \<le> capacity"
  shows "\<exists>d'. reallocate capacity d = Inr d' \<and> same_policy d d' \<and> d_capacity d' = capacity
    \<and> d_end d' = d_end d - d_start d \<and> d_start d' = 0"
proof -
  let ?live = "d_end d - d_start d"
  define d' where "d' = d\<lparr>d_buf := live d @ replicate (capacity - ?live) 0, d_capacity := capacity, d_start := 0, d_end := ?live\<rparr>"
  have len: "length (live d) = ?live" using assms(1) by (rule length_live)
  have "live d' = live d" using len by (subst live_def) (simp add: d'_def py_slice_prefix py_slice_whole)
  moreover have "decoder_inv d'" using assms len by (simp add: d'_def decoder_inv_def)
  moreover have "reallocate capacity d = Inr d'" using assms(2) by (simp add: reallocate_def d'_def live_def Let_def)
  ultimately show ?thesis by (simp add: same_policy_def d'_def)
qed

lemma ensure_keeps:
  assumes "decoder_inv d"
  shows "\<exists>d'. ensure need exact d = Inr d' \<and> same_policy d d' \<and> need \<le> d_capacity d' - d_end d'"
proof -
  let ?live = "d_end d - d_start d"
  have len: "length (live d) = ?live" using assms by (rule length_live)
  consider (room) "d_capacity d - d_end d \<ge> need" | (compact) "\<not> d_capacity d - d_end d \<ge> need" "d_capacity d - ?live \<ge> need"
    | (grow) "\<not> d_capacity d - d_end d \<ge> need" "\<not> d_capacity d - ?live \<ge> need" by blast
  then show ?thesis
  proof cases
    case room
    with assms show ?thesis by (auto simp: ensure_def same_policy_def)
  next
    case compact
    define d' where "d' = d\<lparr>d_buf := live d @ drop ?live (d_buf d), d_start := 0, d_end := ?live\<rparr>"
    have "live d' = live d" using len by (subst live_def) (simp add: d'_def py_slice_prefix py_slice_whole)
    moreover have "decoder_inv d'" using assms len by (auto simp: d'_def decoder_inv_def)
    moreover have "ensure need exact d = Inr d'" using compact by (simp add: ensure_def Let_def d'_def live_def)
    ultimately show ?thesis using compact by (auto simp: same_policy_def d'_def)
  next
    case grow
    obtain capacity where "ensure need exact d = reallocate capacity d" "?live + need \<le> capacity"
      using grow by (auto simp: ensure_def Let_def split: option.splits if_splits)
    with reallocate_keeps [OF assms, of capacity] show ?thesis by auto
  qed
qed

lemma note_ingress_simps [simp]:
  "live (note_ingress d) = live d" "decoder_inv (note_ingress d) = decoder_inv d"
  "max_packet_size (note_ingress d) = max_packet_size d" "target_window (note_ingress d) = target_window d"
  by (simp_all add: note_ingress_def Let_def live_def decoder_inv_def)

lemma overwrite_live:
  assumes "decoder_inv d" "d_end d + length data \<le> d_capacity d"
  defines "d' \<equiv> d\<lparr>d_buf := take (d_end d) (d_buf d) @ data @ drop (d_end d + length data) (d_buf d), d_end := d_end d + length data\<rparr>"
  shows "live d' = live d @ data" "decoder_inv d'"
proof -
  have inv: "length (d_buf d) = d_capacity d" "d_start d \<le> d_end d" "d_end d \<le> d_capacity d"
    using assms(1) by (auto simp: decoder_inv_def)
  define buf where "buf = take (d_end d) (d_buf d) @ data @ drop (d_end d + length data) (d_buf d)"
  have len: "length buf = d_capacity d" using inv assms(2) by (simp add: buf_def)
  have "live d' = py_slice buf (d_start d) (d_end d + length data)" by (simp add: live_def d'_def buf_def)
  also have "\<dots> = py_slice buf (d_start d) (d_end d) @ py_slice buf (d_end d) (d_end d + length data)"
    using inv(2) assms(2) len by (intro py_slice_append_split) simp_all
  also have "py_slice buf (d_start d) (d_end d) = py_slice (take (d_end d) (d_buf d)) (d_start d) (d_end d)"
    unfolding buf_def using inv by (intro py_slice_prefix) simp
  also have "\<dots> = live d" using inv(2) by (simp add: live_def py_slice_def take_drop)
  also have "py_slice buf (d_end d) (d_end d + length data) = data"
    using inv py_slice_append [of "take (d_end d) (d_buf d)" data "drop (d_end d + length data) (d_buf d)"]
    by (simp add: buf_def min_absorb2)
  finally show "live d' = live d @ data" .
  show "decoder_inv d'" using assms(1,2) len unfolding decoder_inv_def d'_def buf_def [symmetric] by simp
qed

lemma feed_appends:
  assumes "decoder_inv d"
  shows "\<exists>d'. feed data d = Inr d' \<and> decoder_inv d' \<and> live d' = live d @ data \<and> max_packet_size d' = max_packet_size d"
proof (cases "data = []")
  case True
  with assms show ?thesis by (simp add: feed_def)
next
  case False
  obtain d1 where d1: "(if d_capacity d - d_end d < length data then ensure (length data) (known_frame_total d) d else Inr d) = Inr d1"
    and keep: "same_policy d d1" "length data \<le> d_capacity d1 - d_end d1"
    using ensure_keeps [OF assms, of "length data" "known_frame_total d"] assms
    by (cases "d_capacity d - d_end d < length data") (auto simp: same_policy_def)
  note inv1 = same_policyD(1) [OF keep(1)]
  have room: "d_end d1 + length data \<le> d_capacity d1" using keep(2) inv1 by (auto simp: decoder_inv_def)
  with d1 False inv1 have "feed data d = Inr (note_ingress (d1\<lparr>d_buf := take (d_end d1) (d_buf d1) @ data
      @ drop (d_end d1 + length data) (d_buf d1), d_end := d_end d1 + length data\<rparr>))"
    unfolding feed_def Let_def by (simp add: decoder_inv_def)
  with overwrite_live [OF inv1 room] same_policyD [OF keep(1)] show ?thesis by simp
qed

subsection \<open>The reference framing of a byte stream\<close>

definition frame_head :: "nat \<Rightarrow> bytes \<Rightarrow> (raw_packet \<times> bytes) option result" where
  "frame_head mx bs =
     (if length bs < 2 then Inr None
      else case decode_vbi bs 1 (Some (length bs)) of
        Inr (n, p) \<Rightarrow>
          (if p + nat n > mx then Inl PacketTooLargeError
           else if length bs < p + nat n then Inr None
           else rbind (from_byte (uint (bs ! 0))) (\<lambda>t.
             Inr (Some (\<lparr>raw_type = t, raw_flags = uint (bs ! 0) AND 0x0F, remaining = py_slice bs p (p + nat n)\<rparr>,
                        drop (p + nat n) bs))))
      | Inl _ \<Rightarrow>
          if length bs < 5 \<and> (\<forall>i \<in> {1..<length bs}. 128 \<le> uint (bs ! i)) then Inr None
          else Inl MalformedPacketError)"

lemma head_length_live:
  assumes "decoder_inv d" "2 \<le> length (live d)"
  shows "head_length d =
    (case decode_vbi (live d) 1 (Some (length (live d))) of
       Inr (n, p) \<Rightarrow> Inr (Some (n, d_start d + p))
     | Inl _ \<Rightarrow> if length (live d) < 5 \<and> (\<forall>i \<in> {1..<length (live d)}. 128 \<le> uint (live d ! i)) then Inr None
               else Inl MalformedPacketError)"
proof -
  let ?s = "d_start d" and ?e = "d_end d" and ?bs = "live d"
  have inv: "?e \<le> length (d_buf d)" "?s \<le> ?e" using assms(1) by (auto simp: decoder_inv_def)
  have len: "length ?bs = ?e - ?s" using assms(1) by (rule length_live)
  have slice: "py_slice ?bs a b = py_slice (d_buf d) (?s + a) (?s + b)" if "?s + b \<le> ?e" for a b
    unfolding live_def using that inv(1) by (rule py_slice_py_slice)
  have iff: "decode_vbi (d_buf d) (?s + 1) (Some ?e) = Inr (n, ?s + p) \<longleftrightarrow> decode_vbi ?bs 1 (Some (length ?bs)) = Inr (n, p)" for n p
    unfolding decode_vbi_bounded_iff [OF inv(1)] decode_vbi_bounded_iff [OF order.refl]
    unfolding len using inv(2) slice [of p 1] by auto
  have cont: "all_continued (d_buf d) ?s (?e - ?s) \<longleftrightarrow> (\<forall>i \<in> {1..<length ?bs}. 128 \<le> uint (?bs ! i))"
    using live_nth [OF assms(1)] len
    by (auto simp: all_continued_def list_all_iff byte_top_bit linorder_not_less)
  show ?thesis
  proof (cases "decode_vbi ?bs 1 (Some (length ?bs))")
    case (Inr r)
    obtain n p where r: "r = (n, p)" by fastforce
    with Inr iff [of n p] show ?thesis by (simp add: head_length_def)
  next
    case (Inl x)
    obtain y where y: "decode_vbi (d_buf d) (?s + 1) (Some ?e) = Inl y"
    proof (cases "decode_vbi (d_buf d) (?s + 1) (Some ?e)")
      case (Inr r)
      obtain n q where r: "r = (n, q)" by fastforce
      with Inr have "?s + 1 \<le> q" using decode_vbi_bounded_iff [OF inv(1)] by blast
      then obtain p where "q = ?s + p" by (metis add.assoc le_Suc_ex)
      with Inr r iff [of n p] Inl show ?thesis by simp
    qed (rule that)
    with decode_vbi_error [OF y inv(1)] Inl cont len show ?thesis by (auto simp: head_length_def Let_def)
  qed
qed

lemma decoder_reset_keeps:
  assumes "decoder_inv d"
  shows "\<exists>d'. decoder_reset d = Inr d' \<and> decoder_inv d' \<and> live d' = [] \<and> max_packet_size d' = max_packet_size d"
proof -
  have empty: "live d' = []" if "d_start d' = d_end d'" for d' using that by (simp add: live_def)
  define d1 where "d1 = d\<lparr>d_start := 0, d_end := 0\<rparr>"
  have d1: "decoder_inv d1" "d_start d1 = 0" "d_end d1 = 0" "max_packet_size d1 = max_packet_size d"
    using assms by (auto simp: d1_def decoder_inv_def)
  have "\<exists>d'. retire_oversize d1 = Inr d' \<and> decoder_inv d' \<and> live d' = [] \<and> max_packet_size d' = max_packet_size d"
  proof (cases "drain_had_large_frame d1 \<or> idle_drains d1 + 1 < OVERSIZE_RETENTION")
    case True
    with d1 show ?thesis by (auto simp: retire_oversize_def decoder_inv_def live_def)
  next
    case False
    define d2 where "d2 = d1\<lparr>idle_drains := 0, window_peak := 0\<rparr>"
    have d2: "decoder_inv d2" "d_end d2 - d_start d2 = 0" "live d2 = []" "max_packet_size d2 = max_packet_size d"
      using d1 by (auto simp: d2_def decoder_inv_def live_def)
    define tgt where "tgt = double_until
      (if MIN_CAPACITY > target_window d1 then MIN_CAPACITY else target_window d1) (window_peak d1)"
    have run: "retire_oversize d1 = (if tgt < d_capacity d2 then reallocate tgt d2 else Inr d2)"
      using False by (simp add: retire_oversize_def Let_def d2_def tgt_def)
    from reallocate_keeps [OF d2(1), of tgt] d2(2)
    obtain d3 where "reallocate tgt d2 = Inr d3" "same_policy d2 d3" by auto
    with d2 run show ?thesis by (auto simp: same_policy_def)
  qed
  with d1 empty [of d1] show ?thesis by (auto simp: decoder_reset_def d1_def [symmetric] Let_def)
qed

lemma consume_keeps:
  assumes "decoder_inv d" "d_start d < b" "b \<le> d_end d"
  shows "\<exists>d'. consume_peeked_packet b d = Inr d' \<and> decoder_inv d' \<and> live d' = drop (b - d_start d) (live d)
    \<and> max_packet_size d' = max_packet_size d"
proof -
  define d2 where "d2 = (if b - d_start d > LARGE_FRAME then d\<lparr>drain_had_large_frame := True\<rparr> else d)\<lparr>d_start := b\<rparr>"
  have d2: "decoder_inv d2" "d_start d2 = b" "d_end d2 = d_end d" "max_packet_size d2 = max_packet_size d" "d_buf d2 = d_buf d"
    using assms by (auto simp: d2_def decoder_inv_def)
  have live2: "live d2 = drop (b - d_start d) (live d)"
    using d2 assms by (simp add: live_def py_slice_def drop_take)
  have run: "consume_peeked_packet b d = (if d_start d2 = d_end d2 then decoder_reset d2 else Inr d2)"
    using assms by (simp add: consume_peeked_packet_def Let_def d2_def)
  show ?thesis
  proof (cases "d_start d2 = d_end d2")
    case True
    then have "live d2 = []" by (simp add: live_def)
    with decoder_reset_keeps [OF d2(1)] run True live2 d2 show ?thesis by auto
  next
    case False
    with run live2 d2 show ?thesis by auto
  qed
qed

lemma next_packet_consume:
  assumes "2 \<le> d_end d - d_start d" "head_length d = Inr (Some (n, q))" "d_start d < q"
  shows "next_packet d =
    (let tot = (q - d_start d) + nat n in
     if tot > max_packet_size d then Inl PacketTooLargeError
     else if d_end d - d_start d < tot then Inr (None, d)
     else rbind (from_byte (uint (d_buf d ! d_start d))) (\<lambda>t.
       rbind (consume_peeked_packet (d_start d + tot) d) (\<lambda>d'.
         Inr (Some \<lparr>raw_type = t, raw_flags = uint (d_buf d ! d_start d) AND 0x0F,
           remaining = py_slice (d_buf d) (d_start d + (q - d_start d)) (d_start d + tot)\<rparr>, d'))))"
proof -
  define tot where "tot = (q - d_start d) + nat n"
  have "0 < tot" using assms(3) by (simp add: tot_def)
  moreover have "d_start d < d_end d" using assms(1) by linarith
  ultimately have "consume_peeked_packet (d_start d + tot) d =
      (let d1 = d\<lparr>d_start := d_start d + tot\<rparr>; d2 = (if tot > LARGE_FRAME then d1\<lparr>drain_had_large_frame := True\<rparr> else d1)
       in if d_start d + tot = d_end d2 then decoder_reset d2 else Inr d2)" if "\<not> d_end d - d_start d < tot"
  proof -
    have "d_start d + tot \<le> d_end d" using that \<open>d_start d < d_end d\<close> by linarith
    then show ?thesis using \<open>0 < tot\<close> by (cases d) (simp add: consume_peeked_packet_def Let_def)
  qed
  then show ?thesis
    using assms(1,2) unfolding next_packet_def Let_def tot_def [symmetric] by (simp add: tot_def [symmetric] cong: if_cong)
qed

lemma next_packet_frame:
  assumes "decoder_inv d"
  shows "case frame_head (max_packet_size d) (live d) of
     Inl e \<Rightarrow> next_packet d = Inl e
   | Inr None \<Rightarrow> next_packet d = Inr (None, d)
   | Inr (Some (p, rest)) \<Rightarrow> \<exists>d'. next_packet d = Inr (Some p, d') \<and> decoder_inv d' \<and> live d' = rest
       \<and> max_packet_size d' = max_packet_size d"
proof (cases "2 \<le> length (live d)")
  case False
  with length_live [OF assms] show ?thesis by (simp add: frame_head_def next_packet_def)
next
  case True
  let ?s = "d_start d" and ?bs = "live d"
  have inv: "?s \<le> d_end d" "d_end d \<le> length (d_buf d)" using assms by (auto simp: decoder_inv_def)
  have len: "length ?bs = d_end d - ?s" using assms by (rule length_live)
  note head = head_length_live [OF assms True]
  show ?thesis
  proof (cases "decode_vbi ?bs 1 (Some (length ?bs))")
    case (Inl x)
    with head True len show ?thesis by (auto simp: frame_head_def next_packet_def Let_def)
  next
    case (Inr r)
    obtain n p where r: "r = (n, p)" by fastforce
    with Inr decode_vbi_bounded_iff [OF order.refl, of ?bs 1 n p] have p: "1 \<le> p" "p \<le> length ?bs" by auto
    define tot where "tot = p + nat n"
    have hd: "?bs ! 0 = d_buf d ! ?s" using live_nth [OF assms, of 0] True len by simp
    from Inr r head have hl: "head_length d = Inr (Some (n, ?s + p))" by simp
    have run: "next_packet d = (if tot > max_packet_size d then Inl PacketTooLargeError
      else if length ?bs < tot then Inr (None, d)
      else rbind (from_byte (uint (?bs ! 0))) (\<lambda>t. rbind (consume_peeked_packet (?s + tot) d) (\<lambda>d'.
         Inr (Some \<lparr>raw_type = t, raw_flags = uint (?bs ! 0) AND 0x0F, remaining = py_slice (d_buf d) (?s + p) (?s + tot)\<rparr>, d'))))"
      using next_packet_consume [OF _ hl] True p(1) unfolding len hd tot_def Let_def by simp
    show ?thesis
    proof (cases "tot > max_packet_size d \<or> length ?bs < tot \<or> (\<exists>e. from_byte (uint (?bs ! 0)) = Inl e)")
      case True
      with run Inr r \<open>2 \<le> length ?bs\<close> show ?thesis by (auto simp: frame_head_def tot_def)
    next
      case False
      then obtain t where t: "from_byte (uint (?bs ! 0)) = Inr t" by (cases "from_byte (uint (?bs ! 0))") auto
      have tot: "0 < tot" "?s + tot \<le> d_end d" using False p(1) len inv(1) by (auto simp: tot_def)
      then obtain d' where d': "consume_peeked_packet (?s + tot) d = Inr d'" "decoder_inv d'" "live d' = drop tot ?bs"
          "max_packet_size d' = max_packet_size d"
        using consume_keeps [OF assms, of "?s + tot"] by auto
      have "py_slice (d_buf d) (?s + p) (?s + tot) = py_slice ?bs p tot"
        unfolding live_def using tot(2) inv(2) by (rule py_slice_py_slice [symmetric])
      with run d' t False Inr r \<open>2 \<le> length ?bs\<close> show ?thesis by (simp add: frame_head_def tot_def [symmetric])
    qed
  qed
qed

subsection \<open>Framing is decided by a prefix of the stream\<close>

lemma frame_head_append:
  "frame_head mx bs = Inl e \<Longrightarrow> frame_head mx (bs @ tail) = Inl e"
  "frame_head mx bs = Inr (Some (p, rest)) \<Longrightarrow> frame_head mx (bs @ tail) = Inr (Some (p, rest @ tail))"
proof -
  let ?D = "decode_vbi bs 1 (Some (length bs))" and ?E = "decode_vbi (bs @ tail) 1 (Some (length (bs @ tail)))"
  have keep: "?E = Inr (n, q)" if "?D = Inr (n, q)" for n q
    using that unfolding decode_vbi_bounded_iff [OF order.refl] by (auto simp: py_slice_prefix)
  have fail: "\<exists>x. ?E = Inl x" if D: "?D = Inl y" and bad: "\<not> (length bs < 5 \<and> (\<forall>i \<in> {1..<length bs}. 128 \<le> uint (bs ! i)))" for y
  proof (cases ?E)
    case (Inr r)
    obtain n q where r: "r = (n, q)" by fastforce
    from Inr have q: "1 \<le> q" "encode_vbi n = Inr (py_slice (bs @ tail) 1 q)" "q \<le> length (bs @ tail)"
      unfolding r decode_vbi_bounded_iff [OF order.refl] by blast+
    then have n: "0 \<le> n" "n \<le> MAX_VBI" "py_slice (bs @ tail) 1 q = vbi_loop n" by (auto simp: encode_vbi_eq_Inr)
    have len: "length (vbi_loop n) = q - 1" unfolding n(3) [symmetric] using q(3) by simp
    then have q5: "q \<le> 5" using length_vbi_loop_le4 [OF n(1,2)] by simp
    have long: "length bs < q"
    proof (rule ccontr)
      assume "\<not> length bs < q"
      then have "?D = Inr (n, q)" unfolding decode_vbi_bounded_iff [OF order.refl] using q by (auto simp: py_slice_prefix)
      with D show False by simp
    qed
    have "128 \<le> uint (bs ! i)" if "i \<in> {1..<length bs}" for i
    proof -
      obtain j where j: "i = Suc j" using \<open>i \<in> _\<close> by (cases i) auto
      moreover from this that have "j < length bs - Suc 0" by auto
      ultimately have "vbi_loop n ! (i - 1) = bs ! i"
        unfolding n(3) [symmetric] py_slice_def using that long by (simp add: nth_append)
      moreover have "128 \<le> uint (vbi_loop n ! (i - 1))"
        using that long len n(1) by (intro vbi_loop_continued) auto
      ultimately show ?thesis by simp
    qed
    with bad long q5 show ?thesis by auto
  qed auto
  have hd: "(bs @ tail) ! 0 = bs ! 0" if "2 \<le> length bs" using that by (cases bs) simp_all
  show "frame_head mx bs = Inl e \<Longrightarrow> frame_head mx (bs @ tail) = Inl e"
  proof -
    assume e: "frame_head mx bs = Inl e"
    then have len: "2 \<le> length bs" by (auto simp: frame_head_def split: if_splits)
    show "frame_head mx (bs @ tail) = Inl e"
    proof (cases ?D)
      case (Inl y)
      with e len have "\<not> (length bs < 5 \<and> (\<forall>i \<in> {1..<length bs}. 128 \<le> uint (bs ! i)))" "e = MalformedPacketError"
        by (auto simp: frame_head_def split: if_splits)
      moreover from fail [OF Inl this(1)] obtain x where "?E = Inl x" by blast
      moreover have "\<not> (length (bs @ tail) < 5 \<and> (\<forall>i \<in> {1..<length (bs @ tail)}. 128 \<le> uint ((bs @ tail) ! i)))"
        using calculation(1) by (auto simp: nth_append)
      ultimately show ?thesis using len by (simp add: frame_head_def)
    next
      case (Inr r)
      obtain n q where r: "r = (n, q)" by fastforce
      with keep Inr have "?E = Inr (n, q)" by simp
      with e Inr r len hd show ?thesis by (auto simp: frame_head_def rbind_eq_Inl split: if_splits)
    qed
  qed
  show "frame_head mx bs = Inr (Some (p, rest)) \<Longrightarrow> frame_head mx (bs @ tail) = Inr (Some (p, rest @ tail))"
  proof -
    assume e: "frame_head mx bs = Inr (Some (p, rest))"
    then have len: "2 \<le> length bs" by (auto simp: frame_head_def split: if_splits)
    then obtain n q where D: "?D = Inr (n, q)" using e by (auto simp: frame_head_def split: if_splits sum.splits)
    with keep have "?E = Inr (n, q)" by simp
    with e D len hd show ?thesis by (auto simp: frame_head_def py_slice_prefix split: if_splits)
  qed
qed

text \<open>What a frame looks like on the wire.\<close>

definition frame_bytes :: "raw_packet \<Rightarrow> bytes" where
  "frame_bytes p = byte_of (packet_type_value (raw_type p) + raw_flags p)
     # vbi_loop (int (length (remaining p))) @ remaining p"

definition raw_wf :: "raw_packet \<Rightarrow> bool" where
  "raw_wf p \<longleftrightarrow> 0 \<le> raw_flags p \<and> raw_flags p < 16 \<and> int (length (remaining p)) \<le> MAX_VBI"

lemma frame_head_sound:
  assumes "frame_head mx bs = Inr (Some (p, rest))"
  shows "bs = frame_bytes p @ rest \<and> raw_wf p \<and> length (frame_bytes p) \<le> mx"
proof -
  from assms have len: "2 \<le> length bs" by (auto simp: frame_head_def split: if_splits)
  with assms obtain n q t where D: "decode_vbi bs 1 (Some (length bs)) = Inr (n, q)"
    and tot: "q + nat n \<le> mx" "q + nat n \<le> length bs" and t: "from_byte (uint (bs ! 0)) = Inr t"
    and p: "p = \<lparr>raw_type = t, raw_flags = uint (bs ! 0) AND 0x0F, remaining = py_slice bs q (q + nat n)\<rparr>"
    and rest: "rest = drop (q + nat n) bs"
    by (auto simp: frame_head_def split: if_splits sum.splits)
  from D have q: "1 \<le> q" "0 \<le> n" "n \<le> MAX_VBI" "py_slice bs 1 q = vbi_loop n"
    unfolding decode_vbi_bounded_iff [OF order.refl] by (auto simp: encode_vbi_eq_Inr)
  have body: "int (length (remaining p)) = n" using tot(2) q(2) by (simp add: p)
  have hd: "byte_of (packet_type_value t + (uint (bs ! 0) AND 0x0F)) = bs ! 0"
    using from_byte_sound [OF t] by (simp add: int_and_0F)
  have "py_slice bs 0 1 = [bs ! 0]" using len by (simp add: py_slice_Cons)
  then have "frame_bytes p = py_slice bs 0 1 @ py_slice bs 1 q @ py_slice bs q (q + nat n)"
    unfolding frame_bytes_def body q(4) by (simp add: p hd)
  also have "\<dots> = py_slice bs 0 (q + nat n)"
    using q(1) tot(2) py_slice_append_split [of 0 1 q bs] py_slice_append_split [of 0 q "q + nat n" bs] by simp
  finally have fb: "frame_bytes p = take (q + nat n) bs" by (simp add: py_slice_def)
  then have "bs = frame_bytes p @ rest" by (simp add: rest)
  moreover have "length (frame_bytes p) = q + nat n" using fb tot(2) by simp
  moreover have "raw_wf p" unfolding raw_wf_def body using q by (simp add: p int_and_0F)
  ultimately show ?thesis using tot(1) by simp
qed

lemma frame_head_complete:
  assumes "raw_wf p" "length (frame_bytes p) \<le> mx"
  shows "frame_head mx (frame_bytes p @ rest) = Inr (Some (p, rest))"
proof -
  let ?n = "int (length (remaining p))" let ?b = "byte_of (packet_type_value (raw_type p) + raw_flags p)"
  let ?bs = "frame_bytes p @ rest" and ?q = "1 + length (vbi_loop ?n)"
  have bs: "?bs = [?b] @ vbi_loop ?n @ remaining p @ rest" by (simp add: frame_bytes_def)
  have flags: "0 \<le> raw_flags p" "raw_flags p < 16" using assms(1) by (auto simp: raw_wf_def)
  have b: "uint ?b = packet_type_value (raw_type p) + raw_flags p"
    using flags packet_type_value_range [of "raw_type p"] by (intro uint_byte_of) auto
  have D: "decode_vbi ?bs 1 (Some (length ?bs)) = Inr (?n, ?q)"
    using assms(1) decode_vbi_encoded [of ?n "[?b]" "Some (length ?bs)" "remaining p @ rest"]
    unfolding bs by (simp add: raw_wf_def)
  have tot: "?q + nat ?n = length (frame_bytes p)" by (simp add: frame_bytes_def)
  have "py_slice ?bs ?q (?q + nat ?n) = remaining p"
    using py_slice_append [of "?b # vbi_loop ?n" "remaining p" rest] by (simp add: bs)
  moreover have "uint ?b AND 0x0F = raw_flags p"
    using flags packet_type_value_range(3) [of "raw_type p"] unfolding b int_and_0F by (simp add: mod_add_left_eq [symmetric])
  moreover have "from_byte (uint ?b) = Inr (raw_type p)" unfolding b using flags by (rule from_byte_flags)
  moreover have "2 \<le> length ?bs" by (simp add: frame_bytes_def Suc_le_eq)
  moreover have "?bs ! 0 = ?b" by (simp add: bs)
  ultimately show ?thesis
    using D assms(2) tot by (simp add: frame_head_def)
qed

subsection \<open>The contract of a frame source\<close>

text \<open>
  What the read loop of the client relies on: bytes are pushed at the end of a stream and whole
  frames are pulled from its start. Inside it, the packets of a stream are shown not to depend on
  how it was cut into fragments.
\<close>

lemma frame_head_shorter: "frame_head mx bs = Inr (Some (p, rest)) \<Longrightarrow> length rest < length bs"
  using frame_head_sound [of mx bs p rest] by (auto simp: frame_bytes_def)

text \<open>The packets of a complete stream, the error that stops it and the bytes left over.\<close>

function parse_stream :: "nat \<Rightarrow> bytes \<Rightarrow> raw_packet list \<times> exn option \<times> bytes" where
  "parse_stream mx bs =
     (case frame_head mx bs of
        Inl e \<Rightarrow> ([], Some e, bs)
      | Inr None \<Rightarrow> ([], None, bs)
      | Inr (Some (p, rest)) \<Rightarrow> (let (ps, e, r) = parse_stream mx rest in (p # ps, e, r)))"
  by pat_completeness auto
termination
  by (relation "measure (\<lambda>(mx, bs). length bs)") (auto dest: frame_head_shorter)

declare parse_stream.simps [simp del]

lemma parse_stream_append:
  "parse_stream mx bs = (ps, e, r) \<Longrightarrow>
   (case e of Some x \<Rightarrow> \<exists>r'. parse_stream mx (bs @ tail) = (ps, Some x, r')
    | None \<Rightarrow> parse_stream mx (bs @ tail) = (let (qs, e', r') = parse_stream mx (r @ tail) in (ps @ qs, e', r')))"
proof (induction mx bs arbitrary: ps rule: parse_stream.induct)
  case (1 mx bs)
  show ?case
  proof (cases "frame_head mx bs")
    case (Inl x)
    with "1.prems" have "ps = []" "e = Some x" "r = bs" by (simp_all add: parse_stream.simps [of mx bs])
    with frame_head_append(1) [OF Inl, of tail] show ?thesis by (simp add: parse_stream.simps [of mx "bs @ tail"])
  next
    case (Inr o1)
    show ?thesis
    proof (cases o1)
      case None
      with Inr "1.prems" have "ps = []" "e = None" "r = bs" by (simp_all add: parse_stream.simps [of mx bs])
      then show ?thesis by simp
    next
      case (Some pr)
      obtain p rest where pr: "pr = (p, rest)" by fastforce
      obtain ps' where run: "parse_stream mx rest = (ps', e, r)" "ps = p # ps'"
        using "1.prems" Inr Some pr by (auto simp: parse_stream.simps [of mx bs] split: prod.splits)
      have step: "parse_stream mx (bs @ tail) = (let (qs, e, r) = parse_stream mx (rest @ tail) in (p # qs, e, r))"
        using frame_head_append(2) [of mx bs p rest tail] Inr Some pr by (simp add: parse_stream.simps [of mx "bs @ tail"])
      from "1.IH" [OF Inr Some pr [symmetric] run(1)] show ?thesis
        unfolding step run(2) by (auto split: option.splits prod.splits)
    qed
  qed
qed

locale frame_source =
  fixes inv :: "'s \<Rightarrow> bool" and contents :: "'s \<Rightarrow> bytes" and limit :: "'s \<Rightarrow> nat"
    and push :: "bytes \<Rightarrow> 's \<Rightarrow> 's result" and pull :: "'s \<Rightarrow> (raw_packet option \<times> 's) result"
  assumes push_law: "inv s \<Longrightarrow> \<exists>s'. push c s = Inr s' \<and> inv s' \<and> contents s' = contents s @ c \<and> limit s' = limit s"
    and pull_law: "inv s \<Longrightarrow> case frame_head (limit s) (contents s) of
       Inl e \<Rightarrow> pull s = Inl e
     | Inr None \<Rightarrow> pull s = Inr (None, s)
     | Inr (Some (p, rest)) \<Rightarrow> \<exists>s'. pull s = Inr (Some p, s') \<and> inv s' \<and> contents s' = rest \<and> limit s' = limit s"
begin

text \<open>The reader: pull packets until none is complete or one is refused.\<close>

fun read_all :: "nat \<Rightarrow> 's \<Rightarrow> raw_packet list \<times> exn option \<times> 's" where
  "read_all 0 s = ([], None, s)"
| "read_all (Suc fuel) s =
     (case pull s of
        Inl e \<Rightarrow> ([], Some e, s)
      | Inr (None, s') \<Rightarrow> ([], None, s')
      | Inr (Some p, s') \<Rightarrow> (let (ps, e, t) = read_all fuel s' in (p # ps, e, t)))"

text \<open>One more pull than there are bytes is enough fuel, because every packet takes bytes.\<close>

lemma read_all_parses:
  "inv s \<Longrightarrow> length (contents s) < fuel \<Longrightarrow>
   \<exists>ps e t. read_all fuel s = (ps, e, t) \<and> inv t \<and> limit t = limit s \<and> parse_stream (limit s) (contents s) = (ps, e, contents t)"
proof (induction fuel arbitrary: s)
  case (Suc fuel)
  show ?case
  proof (cases "frame_head (limit s) (contents s)")
    case (Inl e)
    with pull_law [OF Suc.prems(1)] Suc.prems(1) show ?thesis by (simp add: parse_stream.simps [of _ "contents s"])
  next
    case (Inr o1)
    show ?thesis
    proof (cases o1)
      case None
      with Inr pull_law [OF Suc.prems(1)] Suc.prems(1) show ?thesis by (simp add: parse_stream.simps [of _ "contents s"])
    next
      case (Some pr)
      obtain p rest where pr: "pr = (p, rest)" by fastforce
      with Inr Some pull_law [OF Suc.prems(1)] obtain s' where
        s': "pull s = Inr (Some p, s')" "inv s'" "contents s' = rest" "limit s' = limit s" by auto
      have "length (contents s') < fuel"
        using frame_head_shorter [of "limit s" "contents s" p rest] Inr Some pr Suc.prems(2) s'(3) by simp
      from Suc.IH [OF s'(2) this] s' Inr Some pr show ?thesis by (auto simp: parse_stream.simps [of _ "contents s"])
    qed
  qed
qed simp

fun receive_chunks :: "bytes list \<Rightarrow> 's \<Rightarrow> raw_packet list \<times> exn option \<times> 's" where
  "receive_chunks [] s = ([], None, s)"
| "receive_chunks (c # cs) s =
     (case push c s of
        Inl e \<Rightarrow> ([], Some e, s)
      | Inr s1 \<Rightarrow>
          (case read_all (Suc (length (contents s1))) s1 of
             (ps, Some e, t) \<Rightarrow> (ps, Some e, t)
           | (ps, None, t) \<Rightarrow> (let (qs, e, u) = receive_chunks cs t in (ps @ qs, e, u))))"

lemma receive_chunks_parses:
  "inv s \<Longrightarrow> parse_stream (limit s) (contents s) = ([], None, contents s) \<Longrightarrow>
   \<exists>ps e t. receive_chunks cs s = (ps, e, t) \<and>
     (case parse_stream (limit s) (contents s @ concat cs) of (qs, e', r) \<Rightarrow> ps = qs \<and> e = e' \<and> (e = None \<longrightarrow> contents t = r))"
proof (induction cs arbitrary: s)
  case (Cons c cs)
  from push_law [OF Cons.prems(1)] obtain s1 where
    s1: "push c s = Inr s1" "inv s1" "contents s1 = contents s @ c" "limit s1 = limit s" by blast
  from read_all_parses [OF s1(2), of "Suc (length (contents s1))"] obtain ps e t where
    t: "read_all (Suc (length (contents s1))) s1 = (ps, e, t)" "inv t" "limit t = limit s"
      "parse_stream (limit s) (contents s @ c) = (ps, e, contents t)" using s1 by auto
  note app = parse_stream_append [OF t(4), of "concat cs"]
  show ?case
  proof (cases e)
    case (Some x)
    with app t s1 show ?thesis by auto
  next
    case None
    from parse_stream_append [OF t(4), of "[]"] None
    have "parse_stream (limit t) (contents t) = ([], None, contents t)"
      using t(3,4) by (auto split: prod.splits)
    from Cons.IH [OF t(2) this] obtain qs e' u where u: "receive_chunks cs t = (qs, e', u)"
        "case parse_stream (limit s) (contents t @ concat cs) of (rs, e2, r) \<Rightarrow> qs = rs \<and> e' = e2 \<and> (e' = None \<longrightarrow> contents u = r)"
      using t(3) by auto
    with app t s1 None show ?thesis by (auto split: prod.splits)
  qed
qed auto

end

interpretation decoder: frame_source decoder_inv live max_packet_size feed next_packet
  by unfold_locales (fact feed_appends, fact next_packet_frame)

text \<open>
  C28. The packets the decoder yields do not depend on fragmentation or on its storage: feeding a
  byte stream to a new decoder in any fragments, and reading every complete packet after each,
  yields exactly the packets, in order, of the reference framing of the whole stream, and the same
  error if the stream is malformed or a frame exceeds the maximum packet size; when there is no
  error the bytes left in the slab are the incomplete tail of the stream.
\<close>

theorem decoder_fragmentation:
  assumes "new_decoder mx = Inr d"
  shows "\<exists>ps e d'. decoder.receive_chunks chunks d = (ps, e, d') \<and>
    (case parse_stream mx (concat chunks) of (qs, e', tail) \<Rightarrow>
       ps = qs \<and> e = e' \<and> (e = None \<longrightarrow> live d' = tail))"
proof -
  from assms have d: "decoder_inv d" "live d = []" "max_packet_size d = mx"
    by (auto simp: new_decoder_def decoder_inv_def live_def split: if_splits)
  have "parse_stream mx [] = ([], None, [])" by (simp add: parse_stream.simps frame_head_def)
  with decoder.receive_chunks_parses [OF d(1), of chunks] d show ?thesis by simp
qed

theorem decoder_fragmentation_witness:
  "\<exists>ps e d'. decoder.receive_chunks [[0xD0], [0x00, 0xC0], [0x00]] (projr (new_decoder 100)) = (ps, e, d') \<and>
     map raw_type ps = [PINGRESP, PINGREQ] \<and> e = None \<and> live d' = []"
proof -
  have d: "new_decoder 100 = Inr (projr (new_decoder 100))" by (simp add: new_decoder_def)
  have f: "frame_head 100 [0xD0, 0x00, 0xC0, 0x00] = Inr (Some (\<lparr>raw_type = PINGRESP, raw_flags = 0, remaining = []\<rparr>, [0xC0, 0x00]))"
    "frame_head 100 [0xC0, 0x00] = Inr (Some (\<lparr>raw_type = PINGREQ, raw_flags = 0, remaining = []\<rparr>, []))"
    "frame_head 100 [] = Inr None"
    by (simp_all add: frame_head_def decode_vbi_def from_byte_alt PACKET_TYPES_BY_NIBBLE_def)
  then have "parse_stream 100 [0xD0, 0x00, 0xC0, 0x00] = ([\<lparr>raw_type = PINGRESP, raw_flags = 0, remaining = []\<rparr>,
      \<lparr>raw_type = PINGREQ, raw_flags = 0, remaining = []\<rparr>], None, [])"
    by (simp add: parse_stream.simps)
  with decoder_fragmentation [OF d, of "[[0xD0], [0x00, 0xC0], [0x00]]"] show ?thesis by auto
qed

text \<open>
  A packet is read exactly when the stream starts with its frame: the decoder returns a packet
  if and only if the live bytes begin with the packet's header byte, the canonical Remaining
  Length of its body and the body, and the frame is within the maximum size; what follows the frame
  stays, untouched, for the next call.
\<close>

theorem next_packet_exact:
  assumes "decoder_inv d"
  shows "(\<exists>d'. next_packet d = Inr (Some p, d') \<and> live d' = rest) \<longleftrightarrow>
    live d = frame_bytes p @ rest \<and> raw_wf p \<and> length (frame_bytes p) \<le> max_packet_size d"
proof
  assume "\<exists>d'. next_packet d = Inr (Some p, d') \<and> live d' = rest"
  with next_packet_frame [OF assms] have "frame_head (max_packet_size d) (live d) = Inr (Some (p, rest))"
    by (auto split: sum.splits option.splits prod.splits)
  then show "live d = frame_bytes p @ rest \<and> raw_wf p \<and> length (frame_bytes p) \<le> max_packet_size d"
    by (rule frame_head_sound)
next
  assume "live d = frame_bytes p @ rest \<and> raw_wf p \<and> length (frame_bytes p) \<le> max_packet_size d"
  then have "frame_head (max_packet_size d) (live d) = Inr (Some (p, rest))" by (simp add: frame_head_complete)
  with next_packet_frame [OF assms] show "\<exists>d'. next_packet d = Inr (Some p, d') \<and> live d' = rest" by auto
qed

theorem next_packet_exact_witness:
  "\<exists>d d'. feed [0xC0, 0x00, 0x30] (projr (new_decoder 100)) = Inr d
     \<and> next_packet d = Inr (Some \<lparr>raw_type = PINGREQ, raw_flags = 0, remaining = []\<rparr>, d') \<and> live d' = [0x30]"
proof -
  have "decoder_inv (projr (new_decoder 100))" "live (projr (new_decoder 100)) = []" "max_packet_size (projr (new_decoder 100)) = 100"
    by (simp_all add: new_decoder_def decoder_inv_def live_def)
  with feed_appends [of "projr (new_decoder 100)" "[0xC0, 0x00, 0x30]"] obtain d where
    d: "feed [0xC0, 0x00, 0x30] (projr (new_decoder 100)) = Inr d" "decoder_inv d" "live d = [0xC0, 0x00, 0x30]"
      "max_packet_size d = 100" by auto
  have "frame_bytes \<lparr>raw_type = PINGREQ, raw_flags = 0, remaining = []\<rparr> = [0xC0, 0x00]"
    by (simp add: frame_bytes_def vbi_loop_last byte_of_def)
  with next_packet_exact [OF d(2), of "\<lparr>raw_type = PINGREQ, raw_flags = 0, remaining = []\<rparr>" "[0x30]"] d
  show ?thesis by (auto simp: raw_wf_def MAX_VBI_def)
qed

subsection \<open>Peeking and receiving in place\<close>

lemma peek_slow:
  assumes "decoder_inv d"
  shows "peek_packet_bounds d =
    (if d_end d - d_start d < 2 then Inr None
     else rbind (head_length d) (\<lambda>r. case r of
        None \<Rightarrow> Inr None
      | Some (n, q) \<Rightarrow>
          (let tot = (q - d_start d) + nat n
           in if tot > max_packet_size d then Inl PacketTooLargeError
              else if d_end d - d_start d < tot then Inr None
              else Inr (Some (uint (d_buf d ! d_start d), d_start d + (q - d_start d), d_start d + tot)))))"
proof (cases "d_end d - d_start d < 2")
  case True
  then show ?thesis by (simp add: peek_packet_bounds_def)
next
  case False
  let ?s = "d_start d" and ?a = "uint (d_buf d ! (d_start d + 1))" and ?b = "uint (d_buf d ! (d_start d + 2))"
  have inv: "d_end d \<le> length (d_buf d)" "?s + 2 \<le> d_end d" using assms False by (auto simp: decoder_inv_def)
  have a: "0 \<le> ?a" "?a < 256" by simp_all
  have one: "head_length d = Inr (Some (?a, ?s + 2))" if "?a < 0x80"
    using that inv by (simp add: head_length_def decode_vbi_def)
  have two: "head_length d = (if len < 128 then Inl MalformedPacketError else Inr (Some (len, ?s + 3)))"
    if cond: "\<not> ?a < 0x80" "d_end d - ?s \<ge> 3" "?b < 0x80" and len: "len = (?a AND 0x7F) OR push_bit 7 ?b" for len
  proof -
    have len': "len = ?a mod 128 + ?b * 128"
    proof -
      have "take_bit 7 ?a OR push_bit 7 ?b = take_bit 7 ?a + push_bit 7 ?b"
        by (rule disjunctive_add [symmetric]) (auto simp: bit_simps)
      then show ?thesis unfolding len by (simp add: int_and_7F take_bit_eq_mod push_bit_eq_mult)
    qed
    have b: "0 \<le> ?b" "?b < 128" using cond(3) by simp_all
    have loop: "decode_vbi_loop (d_buf d) (d_end d) 128 (?a mod 128) (?s + 2) 1 = Inr (len, ?s + 3, 2)"
      using inv cond b by (subst decode_vbi_loop.simps) (simp add: byte_top_bit int_and_7F len' Let_def numeral_3_eq_3)
    have range: "0 \<le> len" "len < 16384" using b(1,2) unfolding len' by (auto simp: pos_mod_bound)
    then have vl: "vbi_len len = Inr (if len < 128 then 1 else 2)" by (simp add: vbi_len_def MAX_VBI_def)
    have "decode_vbi (d_buf d) (?s + 1) (Some (d_end d)) = (if len < 128 then Inl MalformedPacketError else Inr (len, ?s + 3))"
      using inv cond(1) loop vl by (simp add: decode_vbi_def int_and_7F)
    moreover have "\<not> all_continued (d_buf d) ?s (d_end d - ?s)"
      using cond(2,3) b by (auto simp: all_continued_def list_all_iff byte_top_bit intro!: bexI [of _ 2])
    ultimately show ?thesis by (simp add: head_length_def Let_def)
  qed
  show ?thesis
  proof (cases "?a < 0x80")
    case True
    with one False show ?thesis by (simp add: peek_packet_bounds_def Let_def)
  next
    case a: False
    show ?thesis
    proof (cases "d_end d - ?s \<ge> 3 \<and> ?b < 0x80")
      case True
      with two [OF a _ _ refl] False a show ?thesis by (simp add: peek_packet_bounds_def Let_def)
    next
      case b: False
      with a False show ?thesis unfolding peek_packet_bounds_def Let_def by (simp add: if_not_P)
    qed
  qed
qed

text \<open>
  The inlined fast path agrees with the generic one: \<^verbatim>\<open>peek_packet_bounds\<close> raises what
  \<^verbatim>\<open>next_packet\<close> raises, sees no frame when it sees none, and otherwise announces the header
  and the extent of the very packet \<^verbatim>\<open>next_packet\<close> would return, and consuming the peeked frame
  leaves the same decoder state.
\<close>

theorem peek_agrees_with_next:
  assumes "decoder_inv d"
  shows "case peek_packet_bounds d of
     Inl e \<Rightarrow> next_packet d = Inl e
   | Inr None \<Rightarrow> next_packet d = Inr (None, d)
   | Inr (Some (header, body_start, body_end)) \<Rightarrow>
       (case from_byte header of
          Inl e \<Rightarrow> next_packet d = Inl e
        | Inr t \<Rightarrow> \<exists>d'. consume_peeked_packet body_end d = Inr d' \<and> next_packet d =
            Inr (Some \<lparr>raw_type = t, raw_flags = header AND 0x0F, remaining = py_slice (d_buf d) body_start body_end\<rparr>, d'))"
proof (cases "d_end d - d_start d < 2")
  case True
  then show ?thesis by (simp add: peek_packet_bounds_def next_packet_def)
next
  case False
  then have avail: "2 \<le> length (live d)" using length_live [OF assms] by simp
  show ?thesis
  proof (cases "head_length d")
    case (Inl e)
    with False show ?thesis by (simp add: peek_slow [OF assms] next_packet_def)
  next
    case (Inr r)
    show ?thesis
    proof (cases r)
      case None
      with Inr False show ?thesis by (simp add: peek_slow [OF assms] next_packet_def)
    next
      case (Some nq)
      obtain n q where nq: "nq = (n, q)" by fastforce
      obtain p where p: "decode_vbi (live d) 1 (Some (length (live d))) = Inr (n, p)" "q = d_start d + p"
        using Inr Some nq head_length_live [OF assms avail] by (auto split: sum.splits if_splits)
      then have "1 \<le> p" unfolding decode_vbi_bounded_iff [OF order.refl] by blast
      with p(2) have "d_start d < q" by simp
      note run = next_packet_consume [OF _ Inr [unfolded Some nq] this]
      define tot where "tot = (q - d_start d) + nat n"
      have next_eq: "next_packet d = (if tot > max_packet_size d then Inl PacketTooLargeError
         else if d_end d - d_start d < tot then Inr (None, d)
         else rbind (from_byte (uint (d_buf d ! d_start d))) (\<lambda>t.
           rbind (consume_peeked_packet (d_start d + tot) d) (\<lambda>d'.
             Inr (Some \<lparr>raw_type = t, raw_flags = uint (d_buf d ! d_start d) AND 0x0F,
               remaining = py_slice (d_buf d) (d_start d + (q - d_start d)) (d_start d + tot)\<rparr>, d'))))"
        using run False unfolding Let_def tot_def [symmetric] by simp
      have peek_eq: "peek_packet_bounds d = (if tot > max_packet_size d then Inl PacketTooLargeError
         else if d_end d - d_start d < tot then Inr None
         else Inr (Some (uint (d_buf d ! d_start d), d_start d + (q - d_start d), d_start d + tot)))"
        unfolding peek_slow [OF assms] using False Inr Some nq by (simp add: tot_def Let_def)
      show ?thesis
      proof (cases "tot > max_packet_size d \<or> d_end d - d_start d < tot")
        case True
        then show ?thesis unfolding next_eq peek_eq by auto
      next
        case ok: False
        have "0 < tot" using \<open>d_start d < q\<close> by (simp add: tot_def)
        moreover have "d_start d + tot \<le> d_end d" using ok False by linarith
        ultimately have "\<exists>d'. consume_peeked_packet (d_start d + tot) d = Inr d'"
          using consume_keeps [OF assms, of "d_start d + tot"] by auto
        with ok show ?thesis unfolding next_eq peek_eq by (auto split: sum.splits)
      qed
    qed
  qed
qed

theorem peek_agrees_with_next_witness:
  "peek_packet_bounds (projr (feed [0xC0, 0x00] (projr (new_decoder 100)))) = Inr (Some (0xC0, 2, 2))
   \<and> is_ok (next_packet (projr (feed [0xC0, 0x00] (projr (new_decoder 100)))))"
proof -
  have "decoder_inv (projr (new_decoder 100))" by (simp add: new_decoder_def decoder_inv_def)
  with feed_appends [of "projr (new_decoder 100)" "[0xC0, 0x00]"]
  have inv: "decoder_inv (projr (feed [0xC0, 0x00] (projr (new_decoder 100))))" by auto
  have peek: "peek_packet_bounds (projr (feed [0xC0, 0x00] (projr (new_decoder 100)))) = Inr (Some (0xC0, 2, 2))"
    by (simp add: peek_packet_bounds_def feed_def ensure_def reallocate_def known_frame_total_def new_decoder_def
        note_ingress_def MIN_CAPACITY_def RECEIVE_QUANTUM_def DEFAULT_CAPACITY_def Let_def)
  have "from_byte 0xC0 = Inr PINGREQ" by (simp add: from_byte_alt PACKET_TYPES_BY_NIBBLE_def)
  with peek_agrees_with_next [OF inv] peek show ?thesis by auto
qed

text \<open>Opening a window, letting the receiver fill part of it and committing that part.\<close>

definition receive_in_place :: "nat \<Rightarrow> (nat \<Rightarrow> bytes) \<Rightarrow> decoder \<Rightarrow> decoder result" where
  "receive_in_place preferred fill d =
     rbind (writable_window preferred d) (\<lambda>(w, d1).
       let data = fill (snd w - fst w) in decoder_commit (length data) (fill_window w data d1))"

lemma writable_window_open:
  assumes "decoder_inv d"
  shows "\<exists>lo hi d1. writable_window preferred d = Inr ((lo, hi), d1) \<and> decoder_inv d1 \<and> live d1 = live d
    \<and> max_packet_size d1 = max_packet_size d \<and> lo = d_end d1 \<and> lo < hi \<and> hi \<le> d_capacity d1 \<and> d_offered d1 = hi - lo"
proof -
  define want where "want = (if preferred > target_window d then preferred else target_window d)"
  define ew where "ew = (if d_capacity d - d_end d < want then
      (case known_frame_total d of None \<Rightarrow> (None, want)
       | Some t \<Rightarrow> (let rest = t - (d_end d - d_start d) in (Some t, if 0 < rest \<and> rest < want then rest else want)))
      else (None, want))"
  have "0 < target_window d" using assms by (auto simp: decoder_inv_def INITIAL_WINDOW_def RECEIVE_QUANTUM_def DEFAULT_CAPACITY_def)
  then have pos: "0 < snd ew" by (auto simp: ew_def want_def Let_def split: option.splits)
  from ensure_keeps [OF assms, of "snd ew" "fst ew"] obtain d1 where
    d1: "ensure (snd ew) (fst ew) d = Inr d1" "same_policy d d1" "snd ew \<le> d_capacity d1 - d_end d1" by blast
  note inv1 = same_policyD [OF d1(2)]
  have room: "\<not> d_end d1 + snd ew > d_capacity d1" using d1(3) pos by linarith
  have "writable_window preferred d = Inr ((d_end d1, d_end d1 + snd ew), d1\<lparr>d_offered := snd ew\<rparr>)"
    unfolding writable_window_def Let_def want_def [symmetric] ew_def [unfolded Let_def, symmetric]
    using d1(1) room by (cases ew) simp
  moreover have "decoder_inv (d1\<lparr>d_offered := snd ew\<rparr>)" "live (d1\<lparr>d_offered := snd ew\<rparr>) = live d"
    using inv1(1,2) by (simp_all add: decoder_inv_def live_def)
  ultimately show ?thesis using inv1(3) pos room by auto
qed

text \<open>
  C29. Receiving straight into the slab loses nothing: the window handed out is never empty and lies
  inside the slab behind the live bytes, and when the receiver fills any non-empty prefix
  of it and commits what it wrote, the live bytes are the old ones followed by exactly those written,
  whatever compaction or growth was needed, and the adaptive window stays within its quantum.
\<close>

theorem window_receive_appends:
  assumes "decoder_inv d" "\<And>n. 0 < n \<Longrightarrow> 0 < length (fill n) \<and> length (fill n) \<le> n"
  shows "\<exists>d' n. receive_in_place preferred fill d = Inr d' \<and> 0 < n \<and> live d' = live d @ fill n
    \<and> decoder_inv d' \<and> max_packet_size d' = max_packet_size d \<and> target_window d' \<le> RECEIVE_QUANTUM"
proof -
  from writable_window_open [OF assms(1), of preferred] obtain lo hi d1 where
    w: "writable_window preferred d = Inr ((lo, hi), d1)" "decoder_inv d1" "live d1 = live d"
      "max_packet_size d1 = max_packet_size d" "lo = d_end d1" "lo < hi" "hi \<le> d_capacity d1" "d_offered d1 = hi - lo" by blast
  define data where "data = fill (hi - lo)"
  have data: "0 < length data" "length data \<le> hi - lo" using assms(2) [of "hi - lo"] w(6) by (auto simp: data_def)
  define d2 where "d2 = fill_window (lo, hi) data d1"
  define d3 where "d3 = d1\<lparr>d_buf := take (d_end d1) (d_buf d1) @ data @ drop (d_end d1 + length data) (d_buf d1), d_end := d_end d1 + length data\<rparr>"
  have room: "d_end d1 + length data \<le> d_capacity d1" using data w(5,7) by linarith
  note d3 = overwrite_live [OF w(2) room, folded d3_def]
  have tgt: "target_window d1 \<in> {INITIAL_WINDOW, INITIAL_WINDOW * 2, RECEIVE_QUANTUM}" using w(2) by (simp add: decoder_inv_def)
  obtain d4 where d4: "decoder_commit (length data) d2 = Inr (note_ingress d4)"
      "d_buf d4 = d_buf d3" "d_start d4 = d_start d3" "d_end d4 = d_end d3" "d_capacity d4 = d_capacity d3"
      "max_packet_size d4 = max_packet_size d3" "target_window d4 \<in> {INITIAL_WINDOW, INITIAL_WINDOW * 2, RECEIVE_QUANTUM}"
    using data tgt w(5,8)
    by (auto simp: decoder_commit_def Let_def d2_def fill_window_def d3_def INITIAL_WINDOW_def RECEIVE_QUANTUM_def DEFAULT_CAPACITY_def)
  have "live d4 = live d @ data" "decoder_inv d4"
    using d3 d4(2-7) w(3) by (simp_all add: live_def decoder_inv_def)
  moreover have "receive_in_place preferred fill d = Inr (note_ingress d4)"
    using w(1) d4(1) by (simp add: receive_in_place_def data_def d2_def Let_def)
  moreover have "max_packet_size d4 = max_packet_size d" using d4(6) w(4) by (simp add: d3_def)
  moreover have "target_window d4 \<le> RECEIVE_QUANTUM"
    using d4(7) by (auto simp: INITIAL_WINDOW_def RECEIVE_QUANTUM_def DEFAULT_CAPACITY_def)
  ultimately show ?thesis using w(6) by (intro exI [of _ "note_ingress d4"] exI [of _ "hi - lo"]) (simp add: data_def)
qed

theorem window_receive_appends_witness:
  "\<exists>d'. receive_in_place 0 (\<lambda>n. [0xC0]) (projr (new_decoder 100)) = Inr d' \<and> live d' = [0xC0]"
proof -
  have inv: "decoder_inv (projr (new_decoder 100))" "live (projr (new_decoder 100)) = []"
    by (simp_all add: new_decoder_def decoder_inv_def live_def)
  from window_receive_appends [OF inv(1), of "\<lambda>n. [0xC0]" 0] inv(2) show ?thesis by auto
qed

end
