(* ===== verification/Properties.thy ===== *)
theory Properties
  imports Primitives
begin

text \<open>
  MQTT 5 properties, \<^verbatim>\<open>src/src/mqttium/codec/properties.py\<close> and the \<^verbatim>\<open>Properties\<close> class of
  \<^verbatim>\<open>src/src/mqttium/types.py\<close>: the specification table, the encoders and decoders by value type, the
  packet-level encoder with its per-packet validation, and the decoder with its duplicate checks and
  its budget of 1024 repeatable values. A property table is an ordered dictionary of names and
  values; encoding a canonical table and decoding it gives it back.
\<close>

subsection \<open>Values and tables\<close>

text \<open>The values \<^verbatim>\<open>_freeze_property_value\<close> admits: integers (and booleans, which are integers), floats,
  text, bytes, tuples and \<^verbatim>\<open>None\<close>. Every encoder refuses a float, so its value is dropped.\<close>

datatype prop_value = VInt int | VFloat | VStr pystr | VBytes bytes | VTuple "prop_value list" | VNone

type_synonym prop_table = "(string \<times> prop_value) list"

record properties =
  prop_values :: prop_table

definition is_str :: "prop_value \<Rightarrow> bool" where
  "is_str v = (case v of VStr _ \<Rightarrow> True | _ \<Rightarrow> False)"

text \<open>\<^verbatim>\<open>Properties.__post_init__\<close>: a single user property pair becomes a tuple of one pair.\<close>

definition freeze_entry :: "string \<times> prop_value \<Rightarrow> string \<times> prop_value" where
  "freeze_entry nv = (case nv of (name, v) \<Rightarrow>
     (name, case v of
        VTuple items \<Rightarrow>
          if name = ''user_property'' \<and> length items = 2 \<and> list_all is_str items then VTuple [v] else v
      | _ \<Rightarrow> v))"

definition mk_properties :: "prop_table \<Rightarrow> properties" where
  "mk_properties values = \<lparr>prop_values = map freeze_entry values\<rparr>"

definition props_get :: "properties \<Rightarrow> string \<Rightarrow> prop_value option" where
  "props_get p name = map_of (prop_values p) name"

definition props_bool :: "properties option \<Rightarrow> bool" where
  "props_bool p = (case p of None \<Rightarrow> False | Some q \<Rightarrow> prop_values q \<noteq> [])"

definition properties_without_topic_alias :: "properties option \<Rightarrow> properties option" where
  "properties_without_topic_alias p =
     (case p of None \<Rightarrow> None
      | Some q \<Rightarrow>
          if props_get q ''topic_alias'' = None \<or> props_get q ''topic_alias'' = Some VNone then p
          else Some (mk_properties (filter (\<lambda>(name, v). name \<noteq> ''topic_alias'') (prop_values q))))"

subsection \<open>The specification table\<close>

datatype prop_type = BYTE | U16 | U32 | VBI | STRING | STRING_PAIR | BINARY

record property_spec =
  spec_id :: int
  spec_name :: string
  spec_type :: prop_type
  spec_packets :: "string list"
  multiple :: bool
  nonzero :: bool
  zero_one :: bool
  topic_value :: bool
  subscribe_singleton :: bool

definition ALL_PACKETS :: "string list" where
  "ALL_PACKETS = [''CONNECT'', ''CONNACK'', ''PUBLISH'', ''PUBACK'', ''PUBREC'', ''PUBREL'', ''PUBCOMP'',
     ''SUBSCRIBE'', ''SUBACK'', ''UNSUBSCRIBE'', ''UNSUBACK'', ''DISCONNECT'', ''AUTH'', ''WILL'']"

definition mk_spec :: "int \<Rightarrow> string \<Rightarrow> prop_type \<Rightarrow> string list \<Rightarrow> property_spec" where
  "mk_spec i name t packets =
     \<lparr>spec_id = i, spec_name = name, spec_type = t, spec_packets = packets, multiple = False, nonzero = False,
      zero_one = False, topic_value = False, subscribe_singleton = False\<rparr>"

definition SPECS :: "property_spec list" where
  "SPECS =
    [(mk_spec 0x01 ''payload_format_indicator'' BYTE [''PUBLISH'', ''WILL''])\<lparr>zero_one := True\<rparr>,
     mk_spec 0x02 ''message_expiry_interval'' U32 [''PUBLISH'', ''WILL''],
     mk_spec 0x03 ''content_type'' STRING [''PUBLISH'', ''WILL''],
     (mk_spec 0x08 ''response_topic'' STRING [''PUBLISH'', ''WILL''])\<lparr>topic_value := True\<rparr>,
     mk_spec 0x09 ''correlation_data'' BINARY [''PUBLISH'', ''WILL''],
     (mk_spec 0x0B ''subscription_identifier'' VBI [''PUBLISH'', ''SUBSCRIBE''])
       \<lparr>multiple := True, nonzero := True, subscribe_singleton := True\<rparr>,
     mk_spec 0x11 ''session_expiry_interval'' U32 [''CONNECT'', ''CONNACK'', ''DISCONNECT''],
     mk_spec 0x12 ''assigned_client_identifier'' STRING [''CONNACK''],
     mk_spec 0x13 ''server_keep_alive'' U16 [''CONNACK''],
     mk_spec 0x15 ''authentication_method'' STRING [''CONNECT'', ''CONNACK'', ''AUTH''],
     mk_spec 0x16 ''authentication_data'' BINARY [''CONNECT'', ''CONNACK'', ''AUTH''],
     (mk_spec 0x17 ''request_problem_information'' BYTE [''CONNECT''])\<lparr>zero_one := True\<rparr>,
     mk_spec 0x18 ''will_delay_interval'' U32 [''WILL''],
     (mk_spec 0x19 ''request_response_information'' BYTE [''CONNECT''])\<lparr>zero_one := True\<rparr>,
     mk_spec 0x1A ''response_information'' STRING [''CONNACK''],
     mk_spec 0x1C ''server_reference'' STRING [''CONNACK'', ''DISCONNECT''],
     mk_spec 0x1F ''reason_string'' STRING
       [''CONNACK'', ''PUBACK'', ''PUBREC'', ''PUBREL'', ''PUBCOMP'', ''SUBACK'', ''UNSUBACK'', ''DISCONNECT'', ''AUTH''],
     (mk_spec 0x21 ''receive_maximum'' U16 [''CONNECT'', ''CONNACK''])\<lparr>nonzero := True\<rparr>,
     mk_spec 0x22 ''topic_alias_maximum'' U16 [''CONNECT'', ''CONNACK''],
     (mk_spec 0x23 ''topic_alias'' U16 [''PUBLISH''])\<lparr>nonzero := True\<rparr>,
     (mk_spec 0x24 ''maximum_qos'' BYTE [''CONNACK''])\<lparr>zero_one := True\<rparr>,
     (mk_spec 0x25 ''retain_available'' BYTE [''CONNACK''])\<lparr>zero_one := True\<rparr>,
     (mk_spec 0x26 ''user_property'' STRING_PAIR ALL_PACKETS)\<lparr>multiple := True\<rparr>,
     (mk_spec 0x27 ''maximum_packet_size'' U32 [''CONNECT'', ''CONNACK''])\<lparr>nonzero := True\<rparr>,
     (mk_spec 0x28 ''wildcard_subscription_available'' BYTE [''CONNACK''])\<lparr>zero_one := True\<rparr>,
     (mk_spec 0x29 ''subscription_identifier_available'' BYTE [''CONNACK''])\<lparr>zero_one := True\<rparr>,
     (mk_spec 0x2A ''shared_subscription_available'' BYTE [''CONNACK''])\<lparr>zero_one := True\<rparr>]"

definition BY_ID :: "int \<Rightarrow> property_spec option" where
  "BY_ID i = find (\<lambda>s. spec_id s = i) SPECS"

definition BY_NAME :: "string \<Rightarrow> property_spec option" where
  "BY_NAME name = find (\<lambda>s. spec_name s = name) SPECS"

subsection \<open>Value codecs\<close>

definition encode_byte_value :: "prop_value \<Rightarrow> bytes result" where
  "encode_byte_value v =
     (case v of VInt n \<Rightarrow> if 0 \<le> n \<and> n \<le> 255 then py_bytes [n] else Inl ProtocolError | _ \<Rightarrow> Inl ProtocolError)"

definition encode_u16_value :: "prop_value \<Rightarrow> bytes result" where
  "encode_u16_value v =
     (case v of VInt n \<Rightarrow> if 0 \<le> n \<and> n \<le> 65535 then pack_u16 n else Inl ProtocolError | _ \<Rightarrow> Inl ProtocolError)"

definition encode_u32_value :: "prop_value \<Rightarrow> bytes result" where
  "encode_u32_value v =
     (case v of VInt n \<Rightarrow> if 0 \<le> n \<and> n \<le> 0xFFFFFFFF then pack_u32 n else Inl ProtocolError | _ \<Rightarrow> Inl ProtocolError)"

definition encode_vbi_value :: "prop_value \<Rightarrow> bytes result" where
  "encode_vbi_value v =
     (case v of VInt n \<Rightarrow> if 0 \<le> n \<and> n \<le> 268435455 then encode_vbi n else Inl ProtocolError | _ \<Rightarrow> Inl ProtocolError)"

definition encode_string_value :: "prop_value \<Rightarrow> bytes result" where
  "encode_string_value v = (case v of VStr s \<Rightarrow> pack_utf8 s | _ \<Rightarrow> Inl ProtocolError)"

definition encode_string_pair :: "prop_value \<Rightarrow> bytes result" where
  "encode_string_pair v =
     (case v of
        VTuple [a, b] \<Rightarrow>
          rbind (encode_string_value a) (\<lambda>x. rbind (encode_string_value b) (\<lambda>y. Inr (x @ y)))
      | _ \<Rightarrow> Inl ProtocolError)"

definition encode_binary_value :: "prop_value \<Rightarrow> bytes result" where
  "encode_binary_value v =
     (case v of
        VBytes bs \<Rightarrow> (case pack_binary bs of Inl ValueError \<Rightarrow> Inl ProtocolError | r \<Rightarrow> r)
      | _ \<Rightarrow> Inl ProtocolError)"

definition encode_value :: "prop_type \<Rightarrow> prop_value \<Rightarrow> bytes result" where
  "encode_value t =
     (case t of BYTE \<Rightarrow> encode_byte_value | U16 \<Rightarrow> encode_u16_value | U32 \<Rightarrow> encode_u32_value
      | VBI \<Rightarrow> encode_vbi_value | STRING \<Rightarrow> encode_string_value | STRING_PAIR \<Rightarrow> encode_string_pair
      | BINARY \<Rightarrow> encode_binary_value)"

definition decode_byte_value :: "bytes \<Rightarrow> nat \<Rightarrow> (int \<times> nat) result" where
  "decode_byte_value buf offset =
     (if offset \<ge> length buf then Inl MalformedPacketError
      else rbind (byte_at buf offset) (\<lambda>b. Inr (b, offset + 1)))"

definition decode_string_pair :: "bytes \<Rightarrow> nat \<Rightarrow> (prop_value \<times> nat) result" where
  "decode_string_pair buf offset =
     rbind (unpack_utf8 buf offset) (\<lambda>(key, pos).
       rbind (unpack_utf8 buf pos) (\<lambda>(v, pos'). Inr (VTuple [VStr key, VStr v], pos')))"

definition wrap_value :: "('a \<Rightarrow> prop_value) \<Rightarrow> ('a \<times> nat) result \<Rightarrow> (prop_value \<times> nat) result" where
  "wrap_value f r = rbind r (\<lambda>(v, pos). Inr (f v, pos))"

definition decode_value :: "prop_type \<Rightarrow> bytes \<Rightarrow> nat \<Rightarrow> (prop_value \<times> nat) result" where
  "decode_value t buf offset =
     (case t of
        BYTE \<Rightarrow> wrap_value VInt (decode_byte_value buf offset)
      | U16 \<Rightarrow> wrap_value VInt (unpack_u16 buf offset)
      | U32 \<Rightarrow> wrap_value VInt (unpack_u32 buf offset)
      | VBI \<Rightarrow> wrap_value VInt (decode_vbi buf offset None)
      | STRING \<Rightarrow> wrap_value VStr (unpack_utf8 buf offset)
      | STRING_PAIR \<Rightarrow> decode_string_pair buf offset
      | BINARY \<Rightarrow> wrap_value VBytes (unpack_binary buf offset))"

subsection \<open>Encoding a table\<close>

definition validate_response_topic :: "prop_value \<Rightarrow> exn \<Rightarrow> unit result" where
  "validate_response_topic v error_type =
     (case v of
        VStr s \<Rightarrow> if s = [] then Inl error_type
                  else if 43 \<in> set s \<or> 35 \<in> set s then Inl error_type else Inr ()
      | _ \<Rightarrow> Inr ())"

text \<open>The per-value constraints of a specification, with the error class of the direction.\<close>

definition check_item :: "exn \<Rightarrow> property_spec \<Rightarrow> prop_value \<Rightarrow> unit result" where
  "check_item error_type spec item =
     (if nonzero spec \<and> item = VInt 0 then Inl error_type
      else if zero_one spec \<and> item \<notin> {VInt 0, VInt 1} then Inl error_type
      else if topic_value spec then validate_response_topic item error_type
      else Inr ())"

definition item_list :: "property_spec \<Rightarrow> string \<Rightarrow> prop_value \<Rightarrow> prop_value list result" where
  "item_list spec packet v =
     (if multiple spec then
        (if subscribe_singleton spec \<and> packet = ''SUBSCRIBE'' then
           (case v of
              VTuple items \<Rightarrow> if length items \<noteq> 1 then Inl ProtocolError else Inr items
            | _ \<Rightarrow> Inr [v])
         else case v of VTuple items \<Rightarrow> Inr items | _ \<Rightarrow> Inr [v])
      else case v of VTuple items \<Rightarrow> Inl ProtocolError | _ \<Rightarrow> Inr [v])"

fun encode_items :: "property_spec \<Rightarrow> prop_value list \<Rightarrow> bytes \<Rightarrow> bytes result" where
  "encode_items spec [] body = Inr body"
| "encode_items spec (item # items) body =
     rbind (check_item ProtocolError spec item) (\<lambda>_.
       rbind (encode_value (spec_type spec) item) (\<lambda>data.
         encode_items spec items ((body @ [byte_of (spec_id spec)]) @ data)))"

fun encode_entries :: "prop_table \<Rightarrow> string \<Rightarrow> bytes \<Rightarrow> bytes result" where
  "encode_entries [] packet body = Inr body"
| "encode_entries ((name, v) # entries) packet body =
     (case BY_NAME name of
        None \<Rightarrow> Inl ProtocolError
      | Some spec \<Rightarrow>
          if packet \<notin> set (spec_packets spec) then Inl ProtocolError
          else rbind (item_list spec packet v) (\<lambda>items.
            rbind (encode_items spec items body) (\<lambda>body'. encode_entries entries packet body')))"

definition encode_properties_uncached :: "properties \<Rightarrow> string \<Rightarrow> bytes result" where
  "encode_properties_uncached props packet =
     rbind (encode_entries (prop_values props) packet []) (\<lambda>body.
       rbind (encode_vbi (int (length body))) (\<lambda>len. Inr (len @ body)))"

text \<open>The memo of an immutable table, by packet context; a table that fails to encode is not
  remembered.\<close>

type_synonym prop_cache = "(string \<times> bytes) list"

definition encode_properties_cached :: "prop_cache \<Rightarrow> properties option \<Rightarrow> string \<Rightarrow> bytes result \<times> prop_cache" where
  "encode_properties_cached cache props packet =
     (case props of
        None \<Rightarrow> (Inr [0], cache)
      | Some p \<Rightarrow>
          if \<not> props_bool props then (Inr [0], cache)
          else case map_of cache packet of
            Some bs \<Rightarrow> (Inr bs, cache)
          | None \<Rightarrow>
              (case encode_properties_uncached p packet of
                 Inl e \<Rightarrow> (Inl e, cache)
               | Inr bs \<Rightarrow> (Inr bs, (packet, bs) # cache)))"

text \<open>What a caller sees of it.\<close>

definition encode_properties :: "properties option \<Rightarrow> string \<Rightarrow> bytes result" where
  "encode_properties props packet =
     (case props of
        None \<Rightarrow> Inr [0]
      | Some p \<Rightarrow> if \<not> props_bool props then Inr [0] else encode_properties_uncached p packet)"

subsection \<open>Decoding a table\<close>

definition MAX_REPEATABLE_PROPERTIES :: nat where
  "MAX_REPEATABLE_PROPERTIES = 1024"

definition in_seen :: "string \<Rightarrow> prop_table \<Rightarrow> bool" where
  "in_seen name seen \<longleftrightarrow> name \<in> set (map fst seen)"

text \<open>\<^verbatim>\<open>seen.setdefault(name, []).append(value)\<close>\<close>

fun seen_append :: "string \<Rightarrow> prop_value \<Rightarrow> prop_table \<Rightarrow> prop_table" where
  "seen_append name v [] = [(name, VTuple [v])]"
| "seen_append name v ((n, w) # seen) =
     (if n = name then (n, case w of VTuple ws \<Rightarrow> VTuple (ws @ [v]) | _ \<Rightarrow> w) # seen
      else (n, w) # seen_append name v seen)"

definition add_seen :: "string \<Rightarrow> property_spec \<Rightarrow> prop_value \<Rightarrow> prop_table \<Rightarrow> prop_table result" where
  "add_seen packet spec v seen =
     (if multiple spec then
        (if subscribe_singleton spec \<and> packet = ''SUBSCRIBE'' then
           (if in_seen (spec_name spec) seen then Inl MalformedPacketError
            else Inr (seen @ [(spec_name spec, v)]))
         else Inr (seen_append (spec_name spec) v seen))
      else if in_seen (spec_name spec) seen then Inl MalformedPacketError
      else Inr (seen @ [(spec_name spec, v)]))"

lemma decode_value_progress: "decode_value t buf p = Inr (v, q) \<Longrightarrow> p \<le> q \<and> q \<le> length buf"
  by (auto simp: decode_value_def wrap_value_def decode_byte_value_def decode_string_pair_def
      dest: u16.dec_sound u32.dec_sound vbi.dec_sound utf8.dec_sound binary.dec_sound
      split: prop_type.splits if_splits)
    (meson order.trans utf8.dec_sound)

function decode_props_loop ::
  "bytes \<Rightarrow> nat \<Rightarrow> string \<Rightarrow> nat \<Rightarrow> prop_table \<Rightarrow> nat \<Rightarrow> (prop_table \<times> nat) result" where
  "decode_props_loop buf end packet pos seen repeated =
     (if pos \<ge> end then Inr (seen, pos)
      else rbind (byte_at buf pos) (\<lambda>prop_id.
        case BY_ID prop_id of
          None \<Rightarrow> Inl MalformedPacketError
        | Some spec \<Rightarrow>
            if packet \<notin> set (spec_packets spec) then Inl MalformedPacketError
            else
              (let repeated' = (if multiple spec then repeated + 1 else repeated)
               in if multiple spec \<and> repeated' > MAX_REPEATABLE_PROPERTIES then Inl ProtocolError
                  else rbind (decode_value (spec_type spec) buf (pos + 1)) (\<lambda>(v, pos').
                    rbind (check_item MalformedPacketError spec v) (\<lambda>_.
                      rbind (add_seen packet spec v seen) (\<lambda>seen'.
                        decode_props_loop buf end packet pos' seen' repeated'))))))"
  by pat_completeness auto
termination
  by (relation "measure (\<lambda>(buf, end, packet, pos, seen, repeated). end - pos)") (auto dest: decode_value_progress)

declare decode_props_loop.simps [simp del]

definition EMPTY_PROPERTIES :: properties where
  "EMPTY_PROPERTIES = mk_properties []"

definition decode_properties :: "bytes \<Rightarrow> nat \<Rightarrow> string \<Rightarrow> (properties \<times> nat) result" where
  "decode_properties buf offset packet =
     (if offset \<ge> length buf then Inl MalformedPacketError
      else rbind (byte_at buf offset) (\<lambda>first.
        if first = 0 then Inr (EMPTY_PROPERTIES, offset + 1)
        else rbind (decode_vbi buf offset None) (\<lambda>(props_len, pos).
          let end = pos + nat props_len
          in if end > length buf then Inl MalformedPacketError
             else rbind (decode_props_loop buf end packet pos [] 0) (\<lambda>(seen, pos').
               if pos' \<noteq> end then Inl MalformedPacketError
               else Inr (mk_properties seen, end)))))"

subsection \<open>The value codecs satisfy the codec contract\<close>

interpretation byte_codec: prefix_codec "\<lambda>n. py_bytes [n]" decode_byte_value
proof
  fix n bs and pre rest :: bytes
  assume "py_bytes [n] = Inr bs"
  then have "0 \<le> n" "n \<le> 255" "bs = [byte_of n]" by (auto split: if_splits)
  then show "decode_byte_value (pre @ bs @ rest) (length pre) = Inr (n, length pre + length bs)"
    by (simp add: decode_byte_value_def)
next
  fix buf off v p
  assume "decode_byte_value buf off = Inr (v, p)"
  then show "off \<le> p \<and> p \<le> length buf \<and> py_bytes [v] = Inr (py_slice buf off p)"
    by (auto simp: decode_byte_value_def py_slice_Cons split: if_splits)
qed

lemma pack_binary_error: "pack_binary bs = Inl e \<Longrightarrow> e = ValueError"
  by (auto simp: pack_binary_def pack_u16_def split: if_splits)

lemma encode_value_eq_Inr:
  "encode_value BYTE v = Inr bs \<longleftrightarrow> (\<exists>n. v = VInt n \<and> py_bytes [n] = Inr bs)"
  "encode_value U16 v = Inr bs \<longleftrightarrow> (\<exists>n. v = VInt n \<and> pack_u16 n = Inr bs)"
  "encode_value U32 v = Inr bs \<longleftrightarrow> (\<exists>n. v = VInt n \<and> pack_u32 n = Inr bs)"
  "encode_value VBI v = Inr bs \<longleftrightarrow> (\<exists>n. v = VInt n \<and> encode_vbi n = Inr bs)"
  "encode_value STRING v = Inr bs \<longleftrightarrow> (\<exists>s. v = VStr s \<and> pack_utf8 s = Inr bs)"
  "encode_value STRING_PAIR v = Inr bs \<longleftrightarrow>
     (\<exists>k w x y. v = VTuple [VStr k, VStr w] \<and> pack_utf8 k = Inr x \<and> pack_utf8 w = Inr y \<and> bs = x @ y)"
  "encode_value BINARY v = Inr bs \<longleftrightarrow> (\<exists>b. v = VBytes b \<and> pack_binary b = Inr bs)"
proof -
  show "encode_value BYTE v = Inr bs \<longleftrightarrow> (\<exists>n. v = VInt n \<and> py_bytes [n] = Inr bs)"
    by (auto simp: encode_value_def encode_byte_value_def split: prop_value.splits if_splits)
  show "encode_value U16 v = Inr bs \<longleftrightarrow> (\<exists>n. v = VInt n \<and> pack_u16 n = Inr bs)"
    by (auto simp: encode_value_def encode_u16_value_def pack_u16_def split: prop_value.splits if_splits)
  show "encode_value U32 v = Inr bs \<longleftrightarrow> (\<exists>n. v = VInt n \<and> pack_u32 n = Inr bs)"
    by (auto simp: encode_value_def encode_u32_value_def pack_u32_def split: prop_value.splits if_splits)
  show "encode_value VBI v = Inr bs \<longleftrightarrow> (\<exists>n. v = VInt n \<and> encode_vbi n = Inr bs)"
    by (auto simp: encode_value_def encode_vbi_value_def encode_vbi_eq_Inr MAX_VBI_def split: prop_value.splits if_splits)
  show "encode_value STRING v = Inr bs \<longleftrightarrow> (\<exists>s. v = VStr s \<and> pack_utf8 s = Inr bs)"
    by (auto simp: encode_value_def encode_string_value_def split: prop_value.splits)
  show "encode_value STRING_PAIR v = Inr bs \<longleftrightarrow>
     (\<exists>k w x y. v = VTuple [VStr k, VStr w] \<and> pack_utf8 k = Inr x \<and> pack_utf8 w = Inr y \<and> bs = x @ y)"
    by (auto simp: encode_value_def encode_string_pair_def encode_string_value_def split: prop_value.splits list.splits)
  show "encode_value BINARY v = Inr bs \<longleftrightarrow> (\<exists>b. v = VBytes b \<and> pack_binary b = Inr bs)"
    by (auto simp: encode_value_def encode_binary_value_def dest: pack_binary_error split: prop_value.splits sum.splits exn.splits)
qed

interpretation value_codec: prefix_codec "encode_value t" "decode_value t" for t
proof
  fix v bs and pre rest :: bytes
  assume e: "encode_value t v = Inr bs"
  show "decode_value t (pre @ bs @ rest) (length pre) = Inr (v, length pre + length bs)"
  proof (cases t)
    case STRING_PAIR
    with e obtain k w x y where v: "v = VTuple [VStr k, VStr w]" "pack_utf8 k = Inr x" "pack_utf8 w = Inr y" "bs = x @ y"
      by (auto simp: encode_value_eq_Inr)
    from utf8.dec_enc [OF v(2), of pre "y @ rest"] utf8.dec_enc [OF v(3), of "pre @ x" rest] v(1,4) STRING_PAIR show ?thesis
      by (simp add: decode_value_def decode_string_pair_def)
  qed (use e byte_codec.dec_enc u16.dec_enc u32.dec_enc vbi.dec_enc utf8.dec_enc binary.dec_enc in
      \<open>auto simp: encode_value_eq_Inr decode_value_def wrap_value_def simp del: py_bytes.simps\<close>)
next
  fix buf off v p
  assume d: "decode_value t buf off = Inr (v, p)"
  show "off \<le> p \<and> p \<le> length buf \<and> encode_value t v = Inr (py_slice buf off p)"
  proof (cases t)
    case STRING_PAIR
    with d obtain k w q where v: "v = VTuple [VStr k, VStr w]" "unpack_utf8 buf off = Inr (k, q)" "unpack_utf8 buf q = Inr (w, p)"
      by (auto simp: decode_value_def decode_string_pair_def)
    from utf8.dec_sound [OF v(2)] utf8.dec_sound [OF v(3)] v(1) STRING_PAIR show ?thesis
      by (auto simp: encode_value_eq_Inr py_slice_append_split [of off q p])
  qed (use d byte_codec.dec_sound u16.dec_sound u32.dec_sound vbi.dec_sound utf8.dec_sound binary.dec_sound in
      \<open>auto simp: encode_value_eq_Inr decode_value_def wrap_value_def simp del: py_bytes.simps\<close>)
qed

subsection \<open>The table is consistent\<close>

lemma find_key: "distinct (map f xs) \<Longrightarrow> x \<in> set xs \<Longrightarrow> find (\<lambda>y. f y = f x) xs = Some x"
  by (induction xs) auto

lemma specs_distinct: "distinct (map spec_id SPECS)" "distinct (map spec_name SPECS)"
  by (simp_all add: SPECS_def mk_spec_def)

lemma specs_ids: "list_all (\<lambda>s. 0 < spec_id s \<and> spec_id s \<le> 255) SPECS"
  by (simp add: SPECS_def mk_spec_def)

lemma specs_pairs: "list_all (\<lambda>s. spec_type s = STRING_PAIR \<longrightarrow> multiple s \<and> \<not> subscribe_singleton s) SPECS"
  by (simp add: SPECS_def mk_spec_def)

lemma BY_NAME_spec:
  assumes "BY_NAME name = Some spec"
  shows "spec_name spec = name" "BY_ID (spec_id spec) = Some spec" "0 < spec_id spec" "spec_id spec \<le> 255"
    "spec_type spec = STRING_PAIR \<longrightarrow> multiple spec \<and> \<not> subscribe_singleton spec"
proof -
  from assms have "spec \<in> set SPECS" "spec_name spec = name"
    by (auto simp: BY_NAME_def find_Some_iff)
  then show "spec_name spec = name" "BY_ID (spec_id spec) = Some spec" "0 < spec_id spec" "spec_id spec \<le> 255"
    "spec_type spec = STRING_PAIR \<longrightarrow> multiple spec \<and> \<not> subscribe_singleton spec"
    using find_key [OF specs_distinct(1)] specs_ids specs_pairs by (auto simp: BY_ID_def list_all_iff)
qed

lemma BY_ID_spec: "BY_ID i = Some spec \<Longrightarrow> BY_NAME (spec_name spec) = Some spec \<and> spec_id spec = i"
  using find_key [OF specs_distinct(2)] by (auto simp: BY_ID_def BY_NAME_def find_Some_iff)

subsection \<open>Valid tables\<close>

text \<open>Whether the values of a property are collected into a tuple on this packet.\<close>

definition collects :: "property_spec \<Rightarrow> string \<Rightarrow> bool" where
  "collects spec packet \<longleftrightarrow> multiple spec \<and> \<not> (subscribe_singleton spec \<and> packet = ''SUBSCRIBE'')"

definition item_valid :: "property_spec \<Rightarrow> prop_value \<Rightarrow> bool" where
  "item_valid spec item \<longleftrightarrow> check_item MalformedPacketError spec item = Inr () \<and> is_ok (encode_value (spec_type spec) item)"

definition entry_items :: "string \<Rightarrow> string \<times> prop_value \<Rightarrow> (property_spec \<times> prop_value list) option" where
  "entry_items packet nv = (case BY_NAME (fst nv) of
     None \<Rightarrow> None
   | Some spec \<Rightarrow>
       if collects spec packet then (case snd nv of VTuple items \<Rightarrow> Some (spec, items) | _ \<Rightarrow> None)
       else (case snd nv of VTuple _ \<Rightarrow> None | v \<Rightarrow> Some (spec, [v])))"

definition entry_valid :: "string \<Rightarrow> string \<times> prop_value \<Rightarrow> bool" where
  "entry_valid packet nv = (case entry_items packet nv of
     None \<Rightarrow> False
   | Some (spec, items) \<Rightarrow> packet \<in> set (spec_packets spec) \<and> items \<noteq> [] \<and> list_all (item_valid spec) items)"

definition repeat_count :: "string \<Rightarrow> prop_table \<Rightarrow> nat" where
  "repeat_count packet tbl = sum_list (map (\<lambda>nv. case entry_items packet nv of
     None \<Rightarrow> 0 | Some (spec, items) \<Rightarrow> if multiple spec then length items else 0) tbl)"

text \<open>The tables a packet may carry: names once each, known, allowed on the packet, with values in
  the shape the packet prescribes, each obeying the constraints of its specification.\<close>

definition valid_table :: "string \<Rightarrow> prop_table \<Rightarrow> bool" where
  "valid_table packet tbl \<longleftrightarrow> distinct (map fst tbl) \<and> list_all (entry_valid packet) tbl"

lemma check_item_dir: "check_item e spec item = Inr () \<longleftrightarrow> check_item e' spec item = Inr ()"
  by (auto simp: check_item_def validate_response_topic_def split: prop_value.splits)

lemma check_item_unit: "check_item e spec item = Inr u \<longleftrightarrow> check_item e spec item = Inr ()"
  by simp

lemma is_ok_iff: "is_ok r \<longleftrightarrow> (\<exists>x. r = Inr x)"
  by (cases r) auto

lemma entry_itemsD:
  assumes "entry_items packet nv = Some (spec, items)"
  shows "BY_NAME (fst nv) = Some spec" "spec_name spec = fst nv" "BY_ID (spec_id spec) = Some spec"
    "snd nv = (if collects spec packet then VTuple items else hd items)"
    "\<not> collects spec packet \<Longrightarrow> items = [snd nv] \<and> (\<forall>ws. snd nv \<noteq> VTuple ws)"
proof -
  from assms show n: "BY_NAME (fst nv) = Some spec" by (auto simp: entry_items_def split: option.splits if_splits prop_value.splits)
  from BY_NAME_spec(1,2) [OF n] show "spec_name spec = fst nv" "BY_ID (spec_id spec) = Some spec" by simp_all
  from assms show "snd nv = (if collects spec packet then VTuple items else hd items)"
    "\<not> collects spec packet \<Longrightarrow> items = [snd nv] \<and> (\<forall>ws. snd nv \<noteq> VTuple ws)"
    by (auto simp: entry_items_def split: option.splits if_splits prop_value.splits)
qed

lemma item_list_entry:
  assumes "entry_items packet nv = Some (spec, items)"
  shows "item_list spec packet (snd nv) = Inr items"
  using entry_itemsD(4,5) [OF assms]
  by (auto simp: item_list_def collects_def split: prop_value.splits)

text \<open>The bytes of the values of one property.\<close>

definition item_bytes :: "property_spec \<Rightarrow> prop_value list \<Rightarrow> bytes" where
  "item_bytes spec items = concat (map (\<lambda>v. byte_of (spec_id spec) # projr (encode_value (spec_type spec) v)) items)"

lemma encode_items_bytes:
  "list_all (item_valid spec) items \<Longrightarrow> encode_items spec items body = Inr (body @ item_bytes spec items)"
proof (induction items arbitrary: body)
  case (Cons v items)
  then have v: "check_item ProtocolError spec v = Inr ()" "encode_value (spec_type spec) v = Inr (projr (encode_value (spec_type spec) v))"
    using check_item_dir [of ProtocolError spec v MalformedPacketError] by (auto simp: item_valid_def is_ok_iff)
  from Cons.IH [of "body @ byte_of (spec_id spec) # projr (encode_value (spec_type spec) v)"] Cons.prems
  show ?case by (subst encode_items.simps, subst v(1), subst v(2)) (simp add: item_bytes_def)
qed (simp add: item_bytes_def)

definition entry_bytes :: "string \<Rightarrow> string \<times> prop_value \<Rightarrow> bytes" where
  "entry_bytes packet nv = (case entry_items packet nv of None \<Rightarrow> [] | Some (spec, items) \<Rightarrow> item_bytes spec items)"

lemma encode_entries_bytes:
  "list_all (entry_valid packet) tbl \<Longrightarrow>
   encode_entries tbl packet body = Inr (body @ concat (map (entry_bytes packet) tbl))"
proof (induction tbl arbitrary: body)
  case (Cons nv tbl)
  then obtain spec items where e: "entry_items packet nv = Some (spec, items)" "packet \<in> set (spec_packets spec)"
      "list_all (item_valid spec) items"
    by (auto simp: entry_valid_def split: option.splits)
  obtain name v where nv: "nv = (name, v)" by fastforce
  with item_list_entry [OF e(1)] entry_itemsD(1) [OF e(1)] encode_items_bytes [OF e(3)] e Cons
  show ?case by (simp add: entry_bytes_def)
qed simp

subsection \<open>Decoding what was encoded\<close>

fun add_all :: "string \<Rightarrow> property_spec \<Rightarrow> prop_value list \<Rightarrow> prop_table \<Rightarrow> prop_table result" where
  "add_all packet spec [] seen = Inr seen"
| "add_all packet spec (v # vs) seen = rbind (add_seen packet spec v seen) (add_all packet spec vs)"

lemma decode_props_step:
  assumes "pos < end" "byte_at buf pos = Inr (spec_id spec)" "BY_ID (spec_id spec) = Some spec" "packet \<in> set (spec_packets spec)"
    and "decode_value (spec_type spec) buf (pos + 1) = Inr (v, pos')" "check_item MalformedPacketError spec v = Inr ()"
    and "add_seen packet spec v seen = Inr seen'" "multiple spec \<longrightarrow> rep < MAX_REPEATABLE_PROPERTIES"
  shows "decode_props_loop buf end packet pos seen rep
    = decode_props_loop buf end packet pos' seen' (if multiple spec then rep + 1 else rep)"
  using assms by (subst decode_props_loop.simps) (cases "multiple spec"; simp add: Let_def)

lemma decode_props_items:
  assumes "list_all (item_valid spec) items" "BY_NAME name = Some spec" "packet \<in> set (spec_packets spec)"
    and "add_all packet spec items seen = Inr seen'" "multiple spec \<longrightarrow> rep + length items \<le> MAX_REPEATABLE_PROPERTIES"
    and "length pre + length (item_bytes spec items) \<le> end"
  shows "decode_props_loop (pre @ item_bytes spec items @ rest) end packet (length pre) seen rep
    = decode_props_loop (pre @ item_bytes spec items @ rest) end packet (length pre + length (item_bytes spec items)) seen'
        (if multiple spec then rep + length items else rep)"
  using assms
proof (induction items arbitrary: pre seen rep)
  case Nil
  then show ?case by (simp add: item_bytes_def)
next
  case (Cons v items)
  let ?i = "byte_of (spec_id spec)"
  obtain bs where v: "check_item MalformedPacketError spec v = Inr ()" "encode_value (spec_type spec) v = Inr bs"
    using Cons.prems(1) by (auto simp: item_valid_def is_ok_iff)
  have ib: "item_bytes spec (v # items) = (?i # bs) @ item_bytes spec items" by (simp add: item_bytes_def v)
  obtain seen1 where seen1: "add_seen packet spec v seen = Inr seen1" "add_all packet spec items seen1 = Inr seen'"
    using Cons.prems(4) by auto
  let ?buf = "pre @ item_bytes spec (v # items) @ rest"
  have buf: "?buf = (pre @ [?i]) @ bs @ item_bytes spec items @ rest" "?buf = (pre @ ?i # bs) @ item_bytes spec items @ rest"
    by (simp_all add: ib)
  note spec = BY_NAME_spec [OF Cons.prems(2)]
  have "byte_at ?buf (length pre) = Inr (spec_id spec)" using spec(3,4) by (simp add: ib)
  moreover have "decode_value (spec_type spec) ?buf (length pre + 1) = Inr (v, length (pre @ ?i # bs))"
    using value_codec.dec_enc [OF v(2), of "pre @ [?i]" "item_bytes spec items @ rest"] unfolding buf(1) by simp
  moreover have "length pre < end" using Cons.prems(6) by (simp add: ib)
  ultimately have "decode_props_loop ?buf end packet (length pre) seen rep
      = decode_props_loop ?buf end packet (length (pre @ ?i # bs)) seen1 (if multiple spec then rep + 1 else rep)"
    using spec(2) Cons.prems(3,5) v(1) seen1(1) by (intro decode_props_step [where v = v]) auto
  also have "\<dots> = decode_props_loop ?buf end packet (length (pre @ ?i # bs) + length (item_bytes spec items)) seen'
        (if multiple spec then (if multiple spec then rep + 1 else rep) + length items else (if multiple spec then rep + 1 else rep))"
    unfolding buf(2) using Cons.prems seen1(2) ib by (intro Cons.IH) auto
  finally show ?case by (simp add: ib add.assoc)
qed

lemma seen_append_new: "\<not> in_seen name seen \<Longrightarrow> seen_append name v seen = seen @ [(name, VTuple [v])]"
  by (induction name v seen rule: seen_append.induct) (auto simp: in_seen_def)

lemma seen_append_last: "\<not> in_seen name seen \<Longrightarrow> seen_append name v (seen @ [(name, VTuple ws)]) = seen @ [(name, VTuple (ws @ [v]))]"
  by (induction seen) (auto simp: in_seen_def)

lemma add_all_entry:
  assumes "entry_items packet nv = Some (spec, items)" "items \<noteq> []" "\<not> in_seen (fst nv) seen"
  shows "add_all packet spec items seen = Inr (seen @ [nv])"
proof (cases "collects spec packet")
  case False
  note e = entry_itemsD [OF assms(1)]
  with False assms(3) have "add_seen packet spec (snd nv) seen = Inr (seen @ [nv])"
    by (cases nv) (auto simp: add_seen_def collects_def)
  with e(5) [OF False] show ?thesis by simp
next
  case True
  note e = entry_itemsD [OF assms(1)]
  have add: "add_seen packet spec v s = Inr (seen_append (fst nv) v s)" for v s
    using True e(2) by (auto simp: add_seen_def collects_def)
  have rest: "add_all packet spec vs (seen @ [(fst nv, VTuple ws)]) = Inr (seen @ [(fst nv, VTuple (ws @ vs))])" for vs ws
    using assms(3) by (induction vs arbitrary: ws) (simp_all add: add seen_append_last)
  obtain v vs where items: "items = v # vs" using assms(2) by (cases items) auto
  have "nv = (fst nv, VTuple (v # vs))" using e(4) True items by (cases nv) simp
  then show ?thesis using rest [of vs "[v]"] assms(3) by (simp add: items add seen_append_new)
qed

lemma decode_props_entries:
  assumes "list_all (entry_valid packet) tbl" "distinct (map fst (seen @ tbl))"
    and "rep + repeat_count packet tbl \<le> MAX_REPEATABLE_PROPERTIES"
    and "length pre + length (concat (map (entry_bytes packet) tbl)) \<le> end"
  shows "decode_props_loop (pre @ concat (map (entry_bytes packet) tbl) @ rest) end packet (length pre) seen rep
    = decode_props_loop (pre @ concat (map (entry_bytes packet) tbl) @ rest) end packet
        (length pre + length (concat (map (entry_bytes packet) tbl))) (seen @ tbl) (rep + repeat_count packet tbl)"
  using assms
proof (induction tbl arbitrary: pre seen rep)
  case Nil
  then show ?case by (simp add: repeat_count_def)
next
  case (Cons nv tbl)
  let ?C = "concat (map (entry_bytes packet) tbl)"
  from Cons.prems(1) obtain spec items where e: "entry_items packet nv = Some (spec, items)" "packet \<in> set (spec_packets spec)"
      "list_all (item_valid spec) items" "items \<noteq> []"
    by (auto simp: entry_valid_def split: option.splits)
  have eb: "entry_bytes packet nv = item_bytes spec items" using e by (simp add: entry_bytes_def)
  let ?n = "if multiple spec then length items else 0"
  have cnt: "repeat_count packet (nv # tbl) = ?n + repeat_count packet tbl" using e by (simp add: repeat_count_def)
  have add: "add_all packet spec items seen = Inr (seen @ [nv])"
    using e(1,4) Cons.prems(2) by (intro add_all_entry) (auto simp: in_seen_def)
  have rep: "multiple spec \<longrightarrow> rep + length items \<le> MAX_REPEATABLE_PROPERTIES" using Cons.prems(3) cnt by auto
  have "decode_props_loop (pre @ item_bytes spec items @ (?C @ rest)) end packet (length pre) seen rep
    = decode_props_loop (pre @ item_bytes spec items @ (?C @ rest)) end packet (length pre + length (item_bytes spec items)) (seen @ [nv])
        (if multiple spec then rep + length items else rep)"
    using e(2,3) add rep Cons.prems(4) eb entry_itemsD(1) [OF e(1)] by (intro decode_props_items) auto
  moreover have "decode_props_loop ((pre @ item_bytes spec items) @ ?C @ rest) end packet (length (pre @ item_bytes spec items)) (seen @ [nv]) (rep + ?n)
    = decode_props_loop ((pre @ item_bytes spec items) @ ?C @ rest) end packet (length (pre @ item_bytes spec items) + length ?C)
        ((seen @ [nv]) @ tbl) (rep + ?n + repeat_count packet tbl)"
    using Cons.prems cnt eb by (intro Cons.IH) auto
  ultimately show ?case by (simp add: eb cnt add.assoc split: if_splits)
qed

lemma item_bytes_nonempty: "items \<noteq> [] \<Longrightarrow> item_bytes spec items \<noteq> []"
  by (cases items) (simp_all add: item_bytes_def)

lemma vbi_first_nonzero: "0 < n \<Longrightarrow> uint (vbi_loop n ! 0) \<noteq> 0"
proof (cases "n < 128")
  case True
  moreover assume "0 < n"
  ultimately show ?thesis by (simp add: vbi_loop_last)
next
  case False
  then have "vbi_loop n ! 0 = byte_of (n mod 128 + 128)" by (simp add: vbi_loop_step)
  moreover have "uint (byte_of (n mod 128 + 128)) = n mod 128 + 128"
    using pos_mod_bound [of 128 n] by (intro uint_byte_of) simp_all
  ultimately have "uint (vbi_loop n ! 0) = n mod 128 + 128" by simp
  moreover have "0 \<le> n mod 128" by simp
  ultimately show ?thesis by linarith
qed

lemma freeze_idem: "freeze_entry (freeze_entry nv) = freeze_entry nv"
  by (auto simp: freeze_entry_def is_str_def split: prod.splits prop_value.splits)

lemma mk_properties_idem: "mk_properties (prop_values (mk_properties tbl)) = mk_properties tbl"
  by (simp add: mk_properties_def freeze_idem comp_def)

text \<open>Decoding the encoding of a valid table, wherever it stands.\<close>

lemma decode_encode_properties:
  assumes "valid_table packet (prop_values props)" "props = mk_properties raw"
    and "repeat_count packet (prop_values props) \<le> MAX_REPEATABLE_PROPERTIES"
    and "encode_properties (Some props) packet = Inr bs"
  shows "decode_properties (pre @ bs @ rest) (length pre) packet = Inr (props, length pre + length bs)"
proof (cases "prop_values props = []")
  case True
  then have "bs = [0]" "props = EMPTY_PROPERTIES"
    using assms(4) by (auto simp: encode_properties_def props_bool_def EMPTY_PROPERTIES_def mk_properties_def)
  then show ?thesis by (simp add: decode_properties_def)
next
  case False
  let ?tbl = "prop_values props" let ?body = "concat (map (entry_bytes packet) ?tbl)" let ?n = "int (length ?body)"
  have val: "list_all (entry_valid packet) ?tbl" "distinct (map fst ?tbl)" using assms(1) by (auto simp: valid_table_def)
  from assms(4) False obtain len where len: "encode_vbi ?n = Inr len" "bs = len @ ?body"
    by (auto simp: encode_properties_def props_bool_def encode_properties_uncached_def encode_entries_bytes [OF val(1)])
  then have n: "len = vbi_loop ?n" "?n \<le> MAX_VBI" by (auto simp: encode_vbi_eq_Inr)
  obtain nv tbl where tbl: "?tbl = nv # tbl" using False by (cases ?tbl) auto
  with val(1) have "entry_bytes packet nv \<noteq> []"
    by (auto simp: entry_valid_def entry_bytes_def item_bytes_nonempty split: option.splits)
  with tbl have "?body \<noteq> []" by simp
  then have "0 < ?n" by (simp only: of_nat_0_less_iff length_greater_0_conv simp_thms)
  then have first: "uint (vbi_loop ?n ! 0) \<noteq> 0" by (rule vbi_first_nonzero)
  let ?buf = "pre @ bs @ rest"
  have at: "byte_at ?buf (length pre) = Inr (uint (vbi_loop ?n ! 0))"
    using vbi_loop_nonempty [of ?n] by (simp add: byte_at_def len(2) n(1) nth_append)
  have D: "decode_vbi ?buf (length pre) None = Inr (?n, length pre + length len)"
    using vbi.dec_enc [OF len(1), of pre "?body @ rest"] by (simp add: len(2))
  have "decode_props_loop ((pre @ len) @ ?body @ rest) (length pre + length bs) packet (length (pre @ len)) [] 0
    = decode_props_loop ((pre @ len) @ ?body @ rest) (length pre + length bs) packet (length (pre @ len) + length ?body) ([] @ ?tbl) (0 + repeat_count packet ?tbl)"
    using val assms(3) by (intro decode_props_entries) (auto simp: len(2))
  then have loop: "decode_props_loop ?buf (length pre + length bs) packet (length pre + length len) [] 0 = Inr (?tbl, length pre + length bs)"
    by (simp add: len(2) decode_props_loop.simps [of _ "length pre + (length len + length ?body)" packet "length pre + (length len + length ?body)"] add.assoc)
  have "mk_properties ?tbl = props" unfolding assms(2) by (rule mk_properties_idem)
  moreover have "len \<noteq> []" using n(1) by simp
  ultimately show ?thesis using at D loop first by (simp add: decode_properties_def len(2) add.assoc)
qed

text \<open>
  C30. Encoding a property table and decoding it gives it back: for every table valid on a packet
  (each name known, allowed and once, values within the constraints of the MQTT 5 property
  table) with at most 1024 repeatable values, the decoder reads the encoding, wherever it stands in
  the buffer, as the same table in the same order and stops exactly after it.
\<close>

theorem properties_roundtrip:
  assumes "valid_table packet (prop_values props)" "props = mk_properties raw"
    and "repeat_count packet (prop_values props) \<le> MAX_REPEATABLE_PROPERTIES"
    and "encode_properties (Some props) packet = Inr bs"
  shows "decode_properties (pre @ bs @ rest) (length pre) packet = Inr (props, length pre + length bs)"
  using assms by (rule decode_encode_properties)

theorem properties_roundtrip_witness:
  "decode_properties [0xFF, 7, 0x23, 0, 5, 0x0B, 9, 0x0B, 10] 1 ''PUBLISH''
     = Inr (mk_properties [(''topic_alias'', VInt 5), (''subscription_identifier'', VTuple [VInt 9, VInt 10])], 9)"
proof -
  let ?tbl = "[(''topic_alias'', VInt 5), (''subscription_identifier'', VTuple [VInt 9, VInt 10])]"
  have tbl: "prop_values (mk_properties ?tbl) = ?tbl" by (simp add: mk_properties_def freeze_entry_def)
  have specs: "BY_NAME ''topic_alias'' = Some ((mk_spec 0x23 ''topic_alias'' U16 [''PUBLISH''])\<lparr>nonzero := True\<rparr>)"
    "BY_NAME ''subscription_identifier'' = Some ((mk_spec 0x0B ''subscription_identifier'' VBI [''PUBLISH'', ''SUBSCRIBE''])
       \<lparr>multiple := True, nonzero := True, subscribe_singleton := True\<rparr>)"
    by (simp_all add: BY_NAME_def SPECS_def mk_spec_def)
  have ok: "encode_value U16 (VInt 5) = Inr [0, 5]" "encode_value VBI (VInt 9) = Inr [9]" "encode_value VBI (VInt 10) = Inr [10]"
    by (simp_all add: encode_value_def encode_u16_value_def encode_vbi_value_def pack_u16_def encode_vbi_def byte_of_def)
  have items: "entry_items ''PUBLISH'' (''topic_alias'', VInt 5) = Some ((mk_spec 0x23 ''topic_alias'' U16 [''PUBLISH''])\<lparr>nonzero := True\<rparr>, [VInt 5])"
    "entry_items ''PUBLISH'' (''subscription_identifier'', VTuple [VInt 9, VInt 10]) =
      Some ((mk_spec 0x0B ''subscription_identifier'' VBI [''PUBLISH'', ''SUBSCRIBE''])
       \<lparr>multiple := True, nonzero := True, subscribe_singleton := True\<rparr>, [VInt 9, VInt 10])"
    by (simp_all add: entry_items_def specs collects_def mk_spec_def)
  have valid: "valid_table ''PUBLISH'' ?tbl"
    by (simp add: valid_table_def entry_valid_def items item_valid_def check_item_def mk_spec_def ok)
  moreover have "encode_properties (Some (mk_properties ?tbl)) ''PUBLISH'' = Inr [7, 0x23, 0, 5, 0x0B, 9, 0x0B, 10]"
  proof -
    have "encode_entries ?tbl ''PUBLISH'' [] = Inr [0x23, 0, 5, 0x0B, 9, 0x0B, 10]"
      using valid unfolding valid_table_def
      by (subst encode_entries_bytes) (simp_all add: entry_bytes_def items item_bytes_def mk_spec_def ok byte_of_def)
    then show ?thesis
      by (simp add: encode_properties_def props_bool_def tbl encode_properties_uncached_def encode_vbi_def byte_of_def)
  qed
  moreover have "repeat_count ''PUBLISH'' ?tbl \<le> MAX_REPEATABLE_PROPERTIES"
    by (simp add: repeat_count_def items mk_spec_def MAX_REPEATABLE_PROPERTIES_def)
  ultimately show ?thesis
    using properties_roundtrip [of "''PUBLISH''" "mk_properties ?tbl" ?tbl "[7, 0x23, 0, 5, 0x0B, 9, 0x0B, 10]" "[0xFF]" "[]"]
    unfolding tbl by simp
qed

subsection \<open>Only valid tables are decoded\<close>

lemma decode_value_shape:
  "decode_value t buf p = Inr (v, q) \<Longrightarrow> t \<noteq> STRING_PAIR \<Longrightarrow> v \<noteq> VTuple ws"
  by (cases t) (auto simp: decode_value_def wrap_value_def)

lemma entry_items_collected:
  "BY_NAME name = Some spec \<Longrightarrow> collects spec packet \<Longrightarrow> entry_items packet (name, VTuple ws) = Some (spec, ws)"
  by (simp add: entry_items_def)

lemma entry_items_single:
  "BY_NAME name = Some spec \<Longrightarrow> \<not> collects spec packet \<Longrightarrow> \<forall>ws. v \<noteq> VTuple ws \<Longrightarrow> entry_items packet (name, v) = Some (spec, [v])"
  by (cases v) (auto simp: entry_items_def)

lemma repeat_count_append: "repeat_count packet (xs @ ys) = repeat_count packet xs + repeat_count packet ys"
  by (simp add: repeat_count_def)

lemma fst_seen_append: "map fst (seen_append name v seen) = (if in_seen name seen then map fst seen else map fst seen @ [name])"
  by (induction name v seen rule: seen_append.induct) (auto simp: in_seen_def)

lemma seen_append_valid:
  assumes "BY_NAME name = Some spec" "collects spec packet" "item_valid spec v" "packet \<in> set (spec_packets spec)"
    and "list_all (entry_valid packet) seen" "distinct (map fst seen)"
  shows "list_all (entry_valid packet) (seen_append name v seen)
    \<and> repeat_count packet (seen_append name v seen) = repeat_count packet seen + 1"
  using assms(1-6)
proof (induction name v seen rule: seen_append.induct)
  case (1 name v)
  then have "multiple spec" by (simp add: collects_def)
  with 1 show ?case by (simp add: entry_valid_def entry_items_collected repeat_count_def)
next
  case (2 name v n w seen)
  then have m: "multiple spec" by (simp add: collects_def)
  show ?case
  proof (cases "n = name")
    case False
    with 2 show ?thesis by (simp add: repeat_count_def)
  next
    case True
    from 2 have "entry_valid packet (name, w)" using True by simp
    then obtain ws where w: "w = VTuple ws" "list_all (item_valid spec) ws" "ws \<noteq> []"
      using 2(2,3) by (auto simp: entry_valid_def entry_items_def split: prop_value.splits)
    with True 2 m show ?thesis by (simp add: entry_valid_def entry_items_collected repeat_count_def)
  qed
qed

lemma add_seen_valid:
  assumes "BY_NAME (spec_name spec) = Some spec" "item_valid spec v" "packet \<in> set (spec_packets spec)"
    and "valid_table packet seen" "add_seen packet spec v seen = Inr seen'"
    and "spec_type spec \<noteq> STRING_PAIR \<longrightarrow> (\<forall>ws. v \<noteq> VTuple ws)"
  shows "valid_table packet seen' \<and> repeat_count packet seen' = repeat_count packet seen + (if multiple spec then 1 else 0)"
proof (cases "collects spec packet")
  case True
  then have "seen' = seen_append (spec_name spec) v seen" using assms(5) by (auto simp: add_seen_def collects_def)
  with seen_append_valid [OF assms(1) True assms(2,3), of seen] assms(4) True show ?thesis
    by (auto simp: valid_table_def fst_seen_append in_seen_def collects_def)
next
  case False
  have single: "\<forall>ws. v \<noteq> VTuple ws" using assms(6) BY_NAME_spec(5) [OF assms(1)] False by (auto simp: collects_def)
  from False assms(5) have "seen' = seen @ [(spec_name spec, v)]" "\<not> in_seen (spec_name spec) seen"
    by (auto simp: add_seen_def collects_def split: if_splits)
  with entry_items_single [OF assms(1) False single] assms(2-4) show ?thesis
    by (auto simp: valid_table_def in_seen_def repeat_count_append entry_valid_def) (auto simp: repeat_count_def)
qed

lemma decode_props_loop_valid:
  "decode_props_loop buf end packet pos seen rep = Inr (seen', p) \<Longrightarrow> valid_table packet seen \<Longrightarrow>
   repeat_count packet seen = rep \<Longrightarrow> rep \<le> MAX_REPEATABLE_PROPERTIES \<Longrightarrow>
   valid_table packet seen' \<and> repeat_count packet seen' \<le> MAX_REPEATABLE_PROPERTIES"
proof (induction buf "end" packet pos seen rep rule: decode_props_loop.induct)
  case (1 buf e packet pos seen rep)
  show ?case
  proof (cases "pos \<ge> e")
    case True
    with 1 show ?thesis by (simp add: decode_props_loop.simps [of buf e])
  next
    case False
    note run = "1.prems"(1) [unfolded decode_props_loop.simps [of buf e packet pos seen rep]]
    from run False obtain i spec where i: "byte_at buf pos = Inr i" "BY_ID i = Some spec" "packet \<in> set (spec_packets spec)"
      by (auto split: option.splits if_splits)
    let ?rep = "if multiple spec then rep + 1 else rep"
    from run False i obtain v q seen1 where
      v: "decode_value (spec_type spec) buf (pos + 1) = Inr (v, q)" "check_item MalformedPacketError spec v = Inr ()"
        "add_seen packet spec v seen = Inr seen1" "decode_props_loop buf e packet q seen1 ?rep = Inr (seen', p)"
        "\<not> (multiple spec \<and> ?rep > MAX_REPEATABLE_PROPERTIES)"
      by (auto simp: Let_def split: if_splits)
    have "item_valid spec v" using v(2) value_codec.dec_sound [OF v(1)] by (simp add: item_valid_def)
    moreover have "spec_type spec \<noteq> STRING_PAIR \<longrightarrow> (\<forall>ws. v \<noteq> VTuple ws)" using decode_value_shape [OF v(1)] by blast
    ultimately have "valid_table packet seen1 \<and> repeat_count packet seen1 = ?rep"
      using add_seen_valid [of spec v packet seen seen1] BY_ID_spec [OF i(2)] i(3) "1.prems" v(3) by auto
    then show ?thesis
      using "1.IH" [OF False i(1,2) _ refl v(5,1) refl v(2,3,4)] i(3) v(5) "1.prems"(4) by auto
  qed
qed

lemma freeze_valid: "entry_valid packet nv \<Longrightarrow> freeze_entry nv = nv"
proof -
  assume valid: "entry_valid packet nv"
  obtain name v where nv: "nv = (name, v)" by fastforce
  have pair: "BY_NAME ''user_property'' = Some ((mk_spec 0x26 ''user_property'' STRING_PAIR ALL_PACKETS)\<lparr>multiple := True\<rparr>)"
    by (simp add: BY_NAME_def SPECS_def mk_spec_def)
  have "\<not> (length items = 2 \<and> list_all is_str items)" if "name = ''user_property''" "v = VTuple items" for items
  proof
    assume "length items = 2 \<and> list_all is_str items"
    then obtain a bs where items: "items = a # bs" "is_str a" by (cases items) auto
    with valid nv that have "is_ok (encode_value STRING_PAIR a)"
      by (auto simp: entry_valid_def entry_items_def pair collects_def mk_spec_def item_valid_def)
    with items(2) show False by (auto simp: is_ok_iff encode_value_eq_Inr is_str_def)
  qed
  then show ?thesis by (auto simp: nv freeze_entry_def split: prop_value.splits)
qed

lemma mk_properties_valid: "valid_table packet tbl \<Longrightarrow> prop_values (mk_properties tbl) = tbl"
  by (auto simp: mk_properties_def valid_table_def list_all_iff intro!: map_idI freeze_valid)

lemma decode_properties_valid:
  assumes "decode_properties buf off packet = Inr (props, p)"
  shows "valid_table packet (prop_values props) \<and> repeat_count packet (prop_values props) \<le> MAX_REPEATABLE_PROPERTIES
    \<and> (\<exists>raw. props = mk_properties raw)"
proof (cases "props = EMPTY_PROPERTIES")
  case True
  then show ?thesis by (auto simp: EMPTY_PROPERTIES_def mk_properties_def valid_table_def repeat_count_def)
next
  case False
  with assms obtain n pos seen where "decode_props_loop buf (pos + nat n) packet pos [] 0 = Inr (seen, p)" "props = mk_properties seen"
    by (auto simp: decode_properties_def Let_def split: if_splits)
  with decode_props_loop_valid [of buf "pos + nat n" packet pos "[]" 0 seen p] show ?thesis
    by (auto simp: valid_table_def repeat_count_def mk_properties_valid [unfolded valid_table_def])
qed

text \<open>
  C31. The decoder accepts only tables valid on the packet: every property it returns is known,
  allowed on the packet, given once (repeatable ones collected in order), within its constraints,
  and there are at most 1024 repeatable values; such a table re-encodes, and
  whatever it re-encodes to decodes to the same table.
\<close>

theorem decode_properties_sound:
  assumes "decode_properties buf off packet = Inr (props, p)"
  shows "valid_table packet (prop_values props) \<and> repeat_count packet (prop_values props) \<le> 1024
    \<and> is_ok (encode_entries (prop_values props) packet [])
    \<and> (\<forall>bs. encode_properties (Some props) packet = Inr bs \<longrightarrow> decode_properties bs 0 packet = Inr (props, length bs))"
proof -
  from decode_properties_valid [OF assms] obtain raw where v: "valid_table packet (prop_values props)"
    "repeat_count packet (prop_values props) \<le> MAX_REPEATABLE_PROPERTIES" "props = mk_properties raw" by blast
  have "is_ok (encode_entries (prop_values props) packet [])"
    using v(1) by (simp add: encode_entries_bytes valid_table_def)
  moreover have "decode_properties bs 0 packet = Inr (props, length bs)" if "encode_properties (Some props) packet = Inr bs" for bs
    using decode_encode_properties [OF v(1,3,2) that, of "[]" "[]"] by simp
  ultimately show ?thesis using v by (simp add: MAX_REPEATABLE_PROPERTIES_def)
qed

theorem decode_properties_sound_witness:
  "is_ok (encode_entries (prop_values (mk_properties [(''topic_alias'', VInt 5)])) ''PUBLISH'' [])"
proof -
  have spec: "BY_ID 35 = Some ((mk_spec 0x23 ''topic_alias'' U16 [''PUBLISH''])\<lparr>nonzero := True\<rparr>)"
    by (simp add: BY_ID_def SPECS_def mk_spec_def)
  have "decode_properties [3, 0x23, 0, 5] 0 ''PUBLISH'' = Inr (mk_properties [(''topic_alias'', VInt 5)], 4)"
    by (simp add: decode_properties_def decode_vbi_def decode_props_loop.simps spec mk_spec_def decode_value_def
        wrap_value_def unpack_u16_value check_item_def add_seen_def in_seen_def)
  from decode_properties_sound [OF this] show ?thesis by blast
qed

lemma encode_properties_cached_eq:
  assumes "\<forall>packet bs. map_of cache packet = Some bs \<longrightarrow> encode_properties_uncached p packet = Inr bs"
  shows "fst (encode_properties_cached cache (Some p) packet) = encode_properties (Some p) packet
    \<and> (\<forall>q bs. map_of (snd (encode_properties_cached cache (Some p) packet)) q = Some bs \<longrightarrow> encode_properties_uncached p q = Inr bs)"
  using assms by (auto simp: encode_properties_cached_def encode_properties_def split: option.splits sum.splits)

subsection \<open>Any table that was encoded\<close>

text \<open>A dictionary has every key once.\<close>

definition dict_ok :: "properties option \<Rightarrow> bool" where
  "dict_ok props \<longleftrightarrow> (case props of None \<Rightarrow> True | Some p \<Rightarrow> distinct (map fst (prop_values p)))"

text \<open>
  How the peer reads an entry. The encoder takes a single value for a repeatable property and a tuple of one for the identifier of a
  SUBSCRIBE, and writes nothing for an empty tuple; the decoder always collects a repeatable property in a tuple, except on SUBSCRIBE.
\<close>

definition received_entry :: "string \<Rightarrow> string \<times> prop_value \<Rightarrow> prop_table" where
  "received_entry packet nv = (case BY_NAME (fst nv) of
     None \<Rightarrow> []
   | Some spec \<Rightarrow> (case item_list spec packet (snd nv) of
       Inl _ \<Rightarrow> []
     | Inr items \<Rightarrow> if items = [] then [] else [(fst nv, if collects spec packet then VTuple items else hd items)]))"

definition received_table :: "string \<Rightarrow> properties option \<Rightarrow> prop_table" where
  "received_table packet props = (case props of None \<Rightarrow> [] | Some p \<Rightarrow> concat (map (received_entry packet) (prop_values p)))"

definition props_received :: "string \<Rightarrow> properties option \<Rightarrow> properties" where
  "props_received packet props = mk_properties (received_table packet props)"

text \<open>More repeatable values than a decoder accepts.\<close>

definition over_budget :: "string \<Rightarrow> properties option \<Rightarrow> bool" where
  "over_budget packet props \<longleftrightarrow> repeat_count packet (received_table packet props) > MAX_REPEATABLE_PROPERTIES"

lemma received_None [simp]: "received_table packet None = []" "props_received packet None = EMPTY_PROPERTIES" "\<not> over_budget packet None" "dict_ok None"
  by (simp_all add: received_table_def props_received_def EMPTY_PROPERTIES_def over_budget_def repeat_count_def dict_ok_def)

lemma received_empty:
  assumes "\<not> props_bool props" shows "received_table packet props = []" "props_received packet props = EMPTY_PROPERTIES" "\<not> over_budget packet props"
  using assms by (auto simp: props_bool_def received_table_def props_received_def EMPTY_PROPERTIES_def over_budget_def repeat_count_def split: option.splits)

lemma encode_items_valid:
  "encode_items spec items body = Inr out \<Longrightarrow> list_all (item_valid spec) items"
proof (induction items arbitrary: body)
  case (Cons v items)
  then show ?case using check_item_dir [of ProtocolError spec v MalformedPacketError] by (auto simp: item_valid_def)
qed simp

lemma encode_tuple: "is_ok (encode_value t (VTuple ws)) \<Longrightarrow> t = STRING_PAIR"
  by (cases t) (auto simp: is_ok_iff encode_value_eq_Inr)

lemma received_entry_ok:
  assumes "BY_NAME name = Some spec" "packet \<in> set (spec_packets spec)" "item_list spec packet v = Inr items" "encode_items spec items body = Inr out"
  shows "list_all (entry_valid packet) (received_entry packet (name, v)) \<and> out = body @ concat (map (entry_bytes packet) (received_entry packet (name, v)))"
proof (cases "items = []")
  case True
  then show ?thesis using assms by (simp add: received_entry_def)
next
  case False
  have ok: "list_all (item_valid spec) items" by (rule encode_items_valid [OF assms(4)])
  have out: "out = body @ item_bytes spec items" using assms(4) encode_items_bytes [OF ok, of body] by simp
  have "entry_items packet (name, if collects spec packet then VTuple items else hd items) = Some (spec, items)"
  proof (cases "collects spec packet")
    case True
    then show ?thesis using entry_items_collected [OF assms(1)] by simp
  next
    case single: False
    then have "\<exists>x. items = [x]" using assms(3) by (auto simp: item_list_def collects_def length_Suc_conv split: if_splits prop_value.splits)
    then obtain x where x: "items = [x]" by blast
    have "spec_type spec \<noteq> STRING_PAIR" using single BY_NAME_spec(5) [OF assms(1)] by (auto simp: collects_def)
    moreover have "is_ok (encode_value (spec_type spec) x)" using ok x by (simp add: item_valid_def)
    ultimately have "\<forall>ws. x \<noteq> VTuple ws" using encode_tuple by blast
    from entry_items_single [OF assms(1) single this] x single show ?thesis by simp
  qed
  then show ?thesis using False ok out assms(1-3) by (simp add: received_entry_def entry_valid_def entry_bytes_def)
qed

lemma received_table_ok:
  assumes "encode_entries tbl packet body = Inr out"
  shows "list_all (entry_valid packet) (concat (map (received_entry packet) tbl))
    \<and> out = body @ concat (map (entry_bytes packet) (concat (map (received_entry packet) tbl)))"
  using assms
proof (induction tbl arbitrary: body)
  case Nil
  then show ?case by simp
next
  case (Cons nv tbl)
  obtain name v where nv: "nv = (name, v)" by fastforce
  from Cons.prems obtain spec items body' where e: "BY_NAME name = Some spec" "packet \<in> set (spec_packets spec)" "item_list spec packet v = Inr items"
      "encode_items spec items body = Inr body'" "encode_entries tbl packet body' = Inr out"
    unfolding nv by (auto split: option.splits if_splits)
  from received_entry_ok [OF e(1-4)] Cons.IH [OF e(5)] show ?case by (simp add: nv)
qed

lemma received_names: "set (map fst (received_entry packet nv)) \<subseteq> {fst nv}" "distinct (map fst (received_entry packet nv))"
  by (auto simp: received_entry_def split: option.splits sum.splits)

lemma received_keys: "fst ` set (concat (map (received_entry packet) tbl)) \<subseteq> fst ` set tbl"
proof (induction tbl)
  case (Cons nv tbl)
  have "fst ` set (received_entry packet nv) \<subseteq> {fst nv}" using received_names(1) by simp
  with Cons show ?case by (auto simp: image_Un)
qed simp

lemma received_distinct: "distinct (map fst tbl) \<Longrightarrow> distinct (map fst (concat (map (received_entry packet) tbl)))"
proof (induction tbl)
  case (Cons nv tbl)
  define A B where "A = map fst (received_entry packet nv)" and "B = map fst (concat (map (received_entry packet) tbl))"
  have AB: "map fst (concat (map (received_entry packet) (nv # tbl))) = A @ B" unfolding A_def B_def by (simp only: list.map concat.simps map_append)
  have "set A \<subseteq> {fst nv}" "distinct A" unfolding A_def by (rule received_names)+
  moreover have "set B \<subseteq> fst ` set tbl" unfolding B_def set_map by (rule received_keys)
  moreover have "fst nv \<notin> fst ` set tbl" "distinct B" using Cons by (simp_all add: B_def)
  ultimately show ?case unfolding AB distinct_append by blast
qed simp

text \<open>A table in the shape the decoder returns is read as it is.\<close>

lemma received_valid:
  assumes "valid_table packet (prop_values p)" "p = mk_properties raw"
  shows "props_received packet (Some p) = p"
proof -
  have "received_entry packet nv = [nv]" if "entry_valid packet nv" for nv
  proof -
    obtain spec items where e: "entry_items packet nv = Some (spec, items)" "items \<noteq> []" using \<open>entry_valid packet nv\<close> by (auto simp: entry_valid_def split: option.splits)
    from entry_itemsD(1,4) [OF e(1)] item_list_entry [OF e(1)] e(2) show ?thesis by (cases nv) (auto simp: received_entry_def)
  qed
  then have "concat (map (received_entry packet) tbl) = tbl" if "list_all (entry_valid packet) tbl" for tbl
    using that by (induction tbl) auto
  then show ?thesis using assms mk_properties_idem [of raw] by (simp add: props_received_def received_table_def valid_table_def)
qed

text \<open>The decoder stops at the first repeatable value beyond its budget.\<close>

lemma decode_props_items_over:
  assumes "list_all (item_valid spec) items" "BY_NAME name = Some spec" "packet \<in> set (spec_packets spec)"
    and "add_all packet spec items seen = Inr seen'" "multiple spec" "rep \<le> MAX_REPEATABLE_PROPERTIES" "rep + length items > MAX_REPEATABLE_PROPERTIES"
    and "length pre + length (item_bytes spec items) \<le> end"
  shows "decode_props_loop (pre @ item_bytes spec items @ rest) end packet (length pre) seen rep = Inl ProtocolError"
  using assms
proof (induction items arbitrary: pre seen rep)
  case (Cons v items)
  let ?i = "byte_of (spec_id spec)"
  obtain bs where v: "check_item MalformedPacketError spec v = Inr ()" "encode_value (spec_type spec) v = Inr bs"
    using Cons.prems(1) by (auto simp: item_valid_def is_ok_iff)
  have ib: "item_bytes spec (v # items) = (?i # bs) @ item_bytes spec items" by (simp add: item_bytes_def v)
  obtain seen1 where seen1: "add_seen packet spec v seen = Inr seen1" "add_all packet spec items seen1 = Inr seen'"
    using Cons.prems(4) by auto
  let ?buf = "pre @ item_bytes spec (v # items) @ rest"
  have buf: "?buf = (pre @ [?i]) @ bs @ item_bytes spec items @ rest" "?buf = (pre @ ?i # bs) @ item_bytes spec items @ rest"
    by (simp_all add: ib)
  note spec = BY_NAME_spec [OF Cons.prems(2)]
  have at: "byte_at ?buf (length pre) = Inr (spec_id spec)" using spec(3,4) by (simp add: ib)
  have lt: "length pre < end" using Cons.prems(8) by (simp add: ib)
  show ?case
  proof (cases "rep = MAX_REPEATABLE_PROPERTIES")
    case True
    then show ?thesis using lt at spec(2) Cons.prems(3,5) by (subst decode_props_loop.simps) (simp add: Let_def)
  next
    case False
    have "decode_value (spec_type spec) ?buf (length pre + 1) = Inr (v, length (pre @ ?i # bs))"
      using value_codec.dec_enc [OF v(2), of "pre @ [?i]" "item_bytes spec items @ rest"] unfolding buf(1) by simp
    then have "decode_props_loop ?buf end packet (length pre) seen rep
        = decode_props_loop ?buf end packet (length (pre @ ?i # bs)) seen1 (if multiple spec then rep + 1 else rep)"
      using at lt spec(2) Cons.prems(3,6) v(1) seen1(1) False by (intro decode_props_step [where v = v]) auto
    also have "\<dots> = Inl ProtocolError"
      unfolding buf(2) using Cons.prems seen1(2) ib False by (intro Cons.IH) auto
    finally show ?thesis .
  qed
qed simp

lemma decode_props_entries_over:
  assumes "list_all (entry_valid packet) tbl" "distinct (map fst (seen @ tbl))" "rep \<le> MAX_REPEATABLE_PROPERTIES"
    and "rep + repeat_count packet tbl > MAX_REPEATABLE_PROPERTIES"
    and "length pre + length (concat (map (entry_bytes packet) tbl)) \<le> end"
  shows "decode_props_loop (pre @ concat (map (entry_bytes packet) tbl) @ rest) end packet (length pre) seen rep = Inl ProtocolError"
  using assms
proof (induction tbl arbitrary: pre seen rep)
  case Nil
  then show ?case by (simp add: repeat_count_def)
next
  case (Cons nv tbl)
  let ?C = "concat (map (entry_bytes packet) tbl)"
  from Cons.prems(1) obtain spec items where e: "entry_items packet nv = Some (spec, items)" "packet \<in> set (spec_packets spec)"
      "list_all (item_valid spec) items" "items \<noteq> []"
    by (auto simp: entry_valid_def split: option.splits)
  have eb: "entry_bytes packet nv = item_bytes spec items" using e by (simp add: entry_bytes_def)
  let ?n = "if multiple spec then length items else 0"
  have cnt: "repeat_count packet (nv # tbl) = ?n + repeat_count packet tbl" using e by (simp add: repeat_count_def)
  have add: "add_all packet spec items seen = Inr (seen @ [nv])"
    using e(1,4) Cons.prems(2) by (intro add_all_entry) (auto simp: in_seen_def)
  have fits: "length pre + length (item_bytes spec items) \<le> end" using Cons.prems(5) eb by simp
  have goal: "pre @ concat (map (entry_bytes packet) (nv # tbl)) @ rest = pre @ item_bytes spec items @ (?C @ rest)" by (simp add: eb)
  show ?case
  proof (cases "rep + ?n \<le> MAX_REPEATABLE_PROPERTIES")
    case False
    then show ?thesis unfolding goal
      using e(2,3) add Cons.prems(3) fits entry_itemsD(1) [OF e(1)] by (intro decode_props_items_over) (auto split: if_splits)
  next
    case True
    have "decode_props_loop (pre @ item_bytes spec items @ (?C @ rest)) end packet (length pre) seen rep
      = decode_props_loop (pre @ item_bytes spec items @ (?C @ rest)) end packet (length pre + length (item_bytes spec items)) (seen @ [nv])
          (if multiple spec then rep + length items else rep)"
      using e(2,3) add True fits entry_itemsD(1) [OF e(1)] by (intro decode_props_items) auto
    moreover have "decode_props_loop ((pre @ item_bytes spec items) @ ?C @ rest) end packet (length (pre @ item_bytes spec items)) (seen @ [nv]) (rep + ?n) = Inl ProtocolError"
      using Cons.prems cnt eb True by (intro Cons.IH) auto
    ultimately show ?thesis by (simp add: eb split: if_splits)
  qed
qed

lemma decode_over_budget:
  assumes "list_all (entry_valid packet) tbl" "distinct (map fst tbl)" "repeat_count packet tbl > MAX_REPEATABLE_PROPERTIES"
    and "encode_vbi (int (length (concat (map (entry_bytes packet) tbl)))) = Inr len" "bs = len @ concat (map (entry_bytes packet) tbl)"
  shows "decode_properties (pre @ bs @ rest) (length pre) packet = Inl ProtocolError"
proof -
  let ?body = "concat (map (entry_bytes packet) tbl)" let ?n = "int (length ?body)" let ?buf = "pre @ bs @ rest"
  have n: "len = vbi_loop ?n" using assms(4) by (auto simp: encode_vbi_eq_Inr)
  obtain nv tbl' where tbl: "tbl = nv # tbl'" using assms(3) by (cases tbl) (auto simp: repeat_count_def)
  with assms(1) have "entry_bytes packet nv \<noteq> []"
    by (auto simp: entry_valid_def entry_bytes_def item_bytes_nonempty split: option.splits)
  with tbl have "?body \<noteq> []" by simp
  then have "0 < ?n" by (simp only: of_nat_0_less_iff length_greater_0_conv simp_thms)
  then have first: "uint (vbi_loop ?n ! 0) \<noteq> 0" by (rule vbi_first_nonzero)
  have at: "byte_at ?buf (length pre) = Inr (uint (vbi_loop ?n ! 0))"
    using vbi_loop_nonempty [of ?n] by (simp add: byte_at_def assms(5) n nth_append)
  have D: "decode_vbi ?buf (length pre) None = Inr (?n, length pre + length len)"
    using vbi.dec_enc [OF assms(4), of pre "?body @ rest"] by (simp add: assms(5))
  have "decode_props_loop ((pre @ len) @ ?body @ rest) (length pre + length bs) packet (length (pre @ len)) [] 0 = Inl ProtocolError"
    using assms(1-3) by (intro decode_props_entries_over) (auto simp: assms(5))
  moreover have "len \<noteq> []" using n by simp
  ultimately show ?thesis using at D first by (simp add: decode_properties_def assms(5) add.assoc)
qed

lemma encode_properties_nonempty: "encode_properties props packet = Inr bs \<Longrightarrow> bs \<noteq> []"
  by (auto simp: encode_properties_def encode_properties_uncached_def encode_vbi_eq_Inr split: option.splits if_splits)

text \<open>Whatever was encoded, wherever it stands: its canonical form, or a refusal beyond the budget.\<close>

lemma decode_encoded:
  assumes "dict_ok props" "encode_properties props packet = Inr bs"
  shows "decode_properties (pre @ bs @ rest) (length pre) packet
    = (if over_budget packet props then Inl ProtocolError else Inr (props_received packet props, length pre + length bs))"
proof (cases "props_bool props")
  case False
  with assms(2) have "bs = [0]" by (auto simp: encode_properties_def split: option.splits)
  with received_empty [OF False] show ?thesis by (simp add: decode_properties_def)
next
  case True
  then obtain p where p: "props = Some p" by (cases props) (auto simp: props_bool_def)
  let ?t = "received_table packet props"
  have t: "?t = concat (map (received_entry packet) (prop_values p))" by (simp add: received_table_def p)
  from assms(2) True p obtain body len where enc: "encode_entries (prop_values p) packet [] = Inr body" "encode_vbi (int (length body)) = Inr len" "bs = len @ body"
    by (auto simp: encode_properties_def encode_properties_uncached_def)
  have v: "list_all (entry_valid packet) ?t" and body: "body = concat (map (entry_bytes packet) ?t)" using received_table_ok [OF enc(1)] by (simp_all add: t)
  have d: "distinct (map fst ?t)" unfolding t by (rule received_distinct) (use assms(1) in \<open>simp add: p dict_ok_def\<close>)
  have same: "prop_values (mk_properties ?t) = ?t" by (rule mk_properties_valid [of packet]) (simp add: valid_table_def v d)
  show ?thesis
  proof (cases "over_budget packet props")
    case over: True
    then show ?thesis using decode_over_budget [OF v d, of len bs pre rest] enc(2,3) body by (simp add: over_budget_def)
  next
    case within: False
    have "encode_properties (Some (mk_properties ?t)) packet = Inr bs"
    proof (cases "?t = []")
      case empty: True
      with body enc(2,3) have "bs = [0]" by (simp add: encode_vbi_def byte_of_def)
      with empty same show ?thesis by (simp add: encode_properties_def props_bool_def)
    next
      case False
      then show ?thesis using same enc(2,3) body encode_entries_bytes [OF v, of "[]"] by (simp add: encode_properties_def props_bool_def encode_properties_uncached_def)
    qed
    then show ?thesis using decode_encode_properties [of packet "mk_properties ?t" ?t bs pre rest] v d within
      by (simp add: valid_table_def same over_budget_def props_received_def)
  qed
qed

end
