(* ===== verification/Packets_Common.thy ===== *)
theory Packets_Common
  imports Buffer Properties
begin

text \<open>
  Framing and validation helpers shared by every packet module:
  \<^verbatim>\<open>src/src/mqttium/packets/_common.py\<close>, \<^verbatim>\<open>src/src/mqttium/codec/packet_validation.py\<close> and the write
  items of \<^verbatim>\<open>src/src/mqttium/transport/writes.py\<close>. Every encoder goes through the frame shape
  \<open>frame_bytes\<close> that the incremental decoder accepts.
\<close>

subsection \<open>Framing\<close>

definition encode_frame :: "packet_type \<Rightarrow> int \<Rightarrow> bytes \<Rightarrow> bytes result" where
  "encode_frame packet_type flags rest =
     (if flags AND 0xF0 \<noteq> 0 then Inl ValueError
      else rbind (py_bytes [packet_type_value packet_type OR (flags AND 0x0F)]) (\<lambda>header.
        rbind (append_vbi header (int (length rest))) (\<lambda>header'. Inr (header' @ rest))))"

definition require_outbound_mid :: "int \<Rightarrow> unit result" where
  "require_outbound_mid mid = guard (1 \<le> mid \<and> mid \<le> 65535) ProtocolError"

definition require_outbound_reason :: "int \<Rightarrow> int set \<Rightarrow> unit result" where
  "require_outbound_reason reason allowed = guard (reason \<in> allowed) ProtocolError"

definition validate_payload_format :: "bytes \<Rightarrow> properties option \<Rightarrow> unit result" where
  "validate_payload_format payload props =
     (case props of
        None \<Rightarrow> Inr ()
      | Some p \<Rightarrow>
          if props_get p ''payload_format_indicator'' \<noteq> Some (VInt 1) then Inr ()
          else case utf8_decode payload of Inl _ \<Rightarrow> Inl ProtocolError | Inr _ \<Rightarrow> Inr ())"

subsection \<open>Fixed header and body validation\<close>

fun FIXED_FLAGS :: "packet_type \<Rightarrow> int option" where
  "FIXED_FLAGS CONNECT = Some 0"
| "FIXED_FLAGS CONNACK = Some 0"
| "FIXED_FLAGS PUBACK = Some 0"
| "FIXED_FLAGS PUBREC = Some 0"
| "FIXED_FLAGS PUBREL = Some 2"
| "FIXED_FLAGS PUBCOMP = Some 0"
| "FIXED_FLAGS SUBSCRIBE = Some 2"
| "FIXED_FLAGS SUBACK = Some 0"
| "FIXED_FLAGS UNSUBSCRIBE = Some 2"
| "FIXED_FLAGS UNSUBACK = Some 0"
| "FIXED_FLAGS PINGREQ = Some 0"
| "FIXED_FLAGS PINGRESP = Some 0"
| "FIXED_FLAGS DISCONNECT = Some 0"
| "FIXED_FLAGS AUTH = Some 0"
| "FIXED_FLAGS PUBLISH = None"

definition validate_raw_packet :: "raw_packet \<Rightarrow> unit result" where
  "validate_raw_packet raw =
     (if raw_type raw = PUBLISH then
        (let qos = drop_bit 1 (raw_flags raw) AND 0x03
         in if qos = 3 then Inl MalformedPacketError else Inr ())
      else case FIXED_FLAGS (raw_type raw) of
        None \<Rightarrow> Inl MalformedPacketError
      | Some expected \<Rightarrow> if raw_flags raw \<noteq> expected then Inl MalformedPacketError else Inr ())"

definition require_nonzero_mid :: "int \<Rightarrow> unit result" where
  "require_nonzero_mid mid = guard (mid \<noteq> 0) MalformedPacketError"

definition require_end :: "nat \<Rightarrow> nat \<Rightarrow> unit result" where
  "require_end pos len = guard (pos = len) MalformedPacketError"

definition require_reason_code :: "int \<Rightarrow> int set \<Rightarrow> unit result" where
  "require_reason_code reason allowed = guard (reason \<in> allowed) MalformedPacketError"

subsection \<open>Write items\<close>

datatype write_item = Contiguous bytes | Segmented bytes bytes

definition SEGMENT_THRESHOLD :: nat where
  "SEGMENT_THRESHOLD = 131072"

definition item_size :: "write_item \<Rightarrow> nat" where
  "item_size item = (case item of Contiguous bs \<Rightarrow> length bs | Segmented h p \<Rightarrow> length h + length p)"

text \<open>The bytes an item puts on the wire.\<close>

definition item_bytes_out :: "write_item \<Rightarrow> bytes" where
  "item_bytes_out item = (case item of Contiguous bs \<Rightarrow> bs | Segmented h p \<Rightarrow> h @ p)"

lemma item_size_out: "item_size item = length (item_bytes_out item)"
  by (simp add: item_size_def item_bytes_out_def split: write_item.splits)

subsection \<open>Encoders produce frames\<close>

lemma type_or_flags:
  assumes "0 \<le> flags" "flags < 16"
  shows "packet_type_value t OR flags = packet_type_value t + flags"
proof -
  have "packet_type_value t AND flags = 0"
  proof (rule bit_eqI)
    fix n
    have low: "\<not> bit flags n" if "4 \<le> n"
    proof -
      from that have "flags < 2 ^ n" using assms power_increasing [of 4 n "2::int"] by simp
      with assms(1) show ?thesis by (simp add: bit_iff_odd)
    qed
    have high: "\<not> bit (packet_type_value t) n" if "n < 4"
    proof -
      have "n = 0 \<or> n = 1 \<or> n = 2 \<or> n = 3" using that by linarith
      then show ?thesis by (cases t) (auto simp: bit_iff_odd)
    qed
    show "bit (packet_type_value t AND flags) n = bit 0 n"
      using low high by (cases "4 \<le> n") (auto simp: bit_simps)
  qed
  then show ?thesis using plus_and_or [of "packet_type_value t" flags] by simp
qed

lemma flags_low:
  assumes "0 \<le> flags" "flags < 16"
  shows "flags AND 0xF0 = (0 :: int)" "flags AND 0x0F = flags"
proof -
  have "flags AND 0x0F = flags mod 16" by (rule int_and_0F)
  then show "flags AND 0x0F = flags" using assms by simp
  show "flags AND 0xF0 = 0"
  proof (rule bit_eqI)
    fix n
    have "\<not> bit flags n" if "4 \<le> n"
    proof -
      from that have "flags < 2 ^ n" using assms power_increasing [of 4 n "2::int"] by simp
      with assms(1) show ?thesis by (simp add: bit_iff_odd)
    qed
    moreover have "\<not> bit (0xF0 :: int) n" if "n < 4"
    proof -
      have "n = 0 \<or> n = 1 \<or> n = 2 \<or> n = 3" using that by linarith
      then show ?thesis by (auto simp: bit_iff_odd)
    qed
    ultimately show "bit (flags AND 0xF0) n = bit 0 n" by (cases "4 \<le> n") (auto simp: bit_simps)
  qed
qed

lemma encode_frame_eq:
  assumes "0 \<le> flags" "flags < 16"
  shows "encode_frame t flags rest =
    (if int (length rest) \<le> MAX_VBI then Inr (frame_bytes \<lparr>raw_type = t, raw_flags = flags, remaining = rest\<rparr>)
     else Inl ValueError)"
  using assms packet_type_value_range [of t]
  by (simp add: encode_frame_def flags_low type_or_flags append_vbi_def frame_bytes_def)

text \<open>What a frame the decoder accepts must satisfy is what the encoders give.\<close>

lemma encode_frame_wf:
  assumes "encode_frame t flags rest = Inr bs" "0 \<le> flags" "flags < 16"
  shows "bs = frame_bytes \<lparr>raw_type = t, raw_flags = flags, remaining = rest\<rparr>
    \<and> raw_wf \<lparr>raw_type = t, raw_flags = flags, remaining = rest\<rparr>"
  using assms by (auto simp: encode_frame_eq raw_wf_def split: if_splits)

end
