(* ===== verification/Acks.thy ===== *)
theory Acks
  imports Packets_Common
begin

text \<open>
  The acknowledgements PUBACK, PUBREC, PUBREL and PUBCOMP, \<^verbatim>\<open>src/src/mqttium/packets/_ack.py\<close> with the
  version dispatch of \<^verbatim>\<open>packets/acks.py\<close>. Encoding and decoding are inverse for both protocol
  versions, and the validation-free success frames equal the validated ones.
\<close>

type_synonym ack_fields = "int \<times> int \<times> properties option"

subsection \<open>Decoders\<close>

text \<open>The four 3.1.1 decoders differ only in their messages.\<close>

definition decode_ack_v311 :: "bytes \<Rightarrow> ack_fields result" where
  "decode_ack_v311 rest =
     (if length rest \<noteq> 2 then Inl MalformedPacketError
      else rbind (byte_at rest 0) (\<lambda>high. rbind (byte_at rest 1) (\<lambda>low.
        (let mid = push_bit 8 high OR low
         in if mid = 0 then Inl MalformedPacketError else Inr (mid, 0, None)))))"

definition decode_puback_v311 :: "bytes \<Rightarrow> ack_fields result" where
  "decode_puback_v311 rest = decode_ack_v311 rest"

definition decode_pubrec_v311 :: "bytes \<Rightarrow> ack_fields result" where
  "decode_pubrec_v311 rest = decode_ack_v311 rest"

definition decode_pubrel_v311 :: "bytes \<Rightarrow> ack_fields result" where
  "decode_pubrel_v311 rest = decode_ack_v311 rest"

definition decode_pubcomp_v311 :: "bytes \<Rightarrow> ack_fields result" where
  "decode_pubcomp_v311 rest = decode_ack_v311 rest"

definition PUBACK_REASONS :: "int set" where
  "PUBACK_REASONS = {0x00, 0x10, 0x80, 0x83, 0x87, 0x90, 0x91, 0x97, 0x99}"

definition PUBREC_REASONS :: "int set" where
  "PUBREC_REASONS = PUBACK_REASONS"

definition PUBREL_REASONS :: "int set" where
  "PUBREL_REASONS = {0x00, 0x92}"

definition PUBCOMP_REASONS :: "int set" where
  "PUBCOMP_REASONS = PUBREL_REASONS"

definition decode_ack_v5 :: "string \<Rightarrow> int set \<Rightarrow> bytes \<Rightarrow> ack_fields result" where
  "decode_ack_v5 packet reasons rest =
     (let size = length rest
      in if size < 2 then Inl MalformedPacketError
         else rbind (byte_at rest 0) (\<lambda>high. rbind (byte_at rest 1) (\<lambda>low.
           (let mid = push_bit 8 high OR low
            in if mid = 0 then Inl MalformedPacketError
               else if size = 2 then Inr (mid, 0, None)
               else rbind (byte_at rest 2) (\<lambda>reason.
                 if reason \<notin> reasons then Inl MalformedPacketError
                 else if size = 3 then Inr (mid, reason, None)
                 else rbind (decode_properties rest 3 packet) (\<lambda>(props, pos).
                   rbind (require_end pos size) (\<lambda>_. Inr (mid, reason, Some props))))))))"

definition decode_puback_v5 :: "bytes \<Rightarrow> ack_fields result" where
  "decode_puback_v5 rest = decode_ack_v5 ''PUBACK'' PUBACK_REASONS rest"

definition decode_pubrec_v5 :: "bytes \<Rightarrow> ack_fields result" where
  "decode_pubrec_v5 rest = decode_ack_v5 ''PUBREC'' PUBREC_REASONS rest"

definition decode_pubrel_v5 :: "bytes \<Rightarrow> ack_fields result" where
  "decode_pubrel_v5 rest = decode_ack_v5 ''PUBREL'' PUBREL_REASONS rest"

definition decode_pubcomp_v5 :: "bytes \<Rightarrow> ack_fields result" where
  "decode_pubcomp_v5 rest = decode_ack_v5 ''PUBCOMP'' PUBCOMP_REASONS rest"

subsection \<open>Encoders\<close>

definition encode_puback_success :: "int \<Rightarrow> bytes result" where
  "encode_puback_success mid = py_bytes [0x40, 2, drop_bit 8 mid, mid AND 0xFF]"

definition encode_pubrec_success :: "int \<Rightarrow> bytes result" where
  "encode_pubrec_success mid = py_bytes [0x50, 2, drop_bit 8 mid, mid AND 0xFF]"

definition encode_pubrel_success :: "int \<Rightarrow> bytes result" where
  "encode_pubrel_success mid = py_bytes [0x62, 2, drop_bit 8 mid, mid AND 0xFF]"

definition encode_pubcomp_success :: "int \<Rightarrow> bytes result" where
  "encode_pubcomp_success mid = py_bytes [0x70, 2, drop_bit 8 mid, mid AND 0xFF]"

definition encode_ack_v311 :: "int \<Rightarrow> int \<Rightarrow> int \<Rightarrow> properties option \<Rightarrow> bytes result" where
  "encode_ack_v311 first_byte mid reason_code props =
     (if \<not> (1 \<le> mid \<and> mid \<le> 65535) then Inl ProtocolError
      else if reason_code \<noteq> 0 \<or> props_bool props then Inl ProtocolError
      else py_bytes [first_byte, 2, drop_bit 8 mid, mid AND 0xFF])"

definition encode_puback_v311 :: "int \<Rightarrow> int \<Rightarrow> properties option \<Rightarrow> bytes result" where
  "encode_puback_v311 mid reason_code props = encode_ack_v311 0x40 mid reason_code props"

definition encode_pubrec_v311 :: "int \<Rightarrow> int \<Rightarrow> properties option \<Rightarrow> bytes result" where
  "encode_pubrec_v311 mid reason_code props = encode_ack_v311 0x50 mid reason_code props"

definition encode_pubrel_v311 :: "int \<Rightarrow> int \<Rightarrow> properties option \<Rightarrow> bytes result" where
  "encode_pubrel_v311 mid reason_code props = encode_ack_v311 0x62 mid reason_code props"

definition encode_pubcomp_v311 :: "int \<Rightarrow> int \<Rightarrow> properties option \<Rightarrow> bytes result" where
  "encode_pubcomp_v311 mid reason_code props = encode_ack_v311 0x70 mid reason_code props"

definition encode_ack_v5 ::
  "int \<Rightarrow> string \<Rightarrow> int set \<Rightarrow> int \<Rightarrow> int \<Rightarrow> properties option \<Rightarrow> bytes result" where
  "encode_ack_v5 first_byte packet allowed mid reason_code props =
     (if \<not> (1 \<le> mid \<and> mid \<le> 65535) then Inl ProtocolError
      else if reason_code = 0 \<and> \<not> props_bool props then
        py_bytes [first_byte, 2, drop_bit 8 mid, mid AND 0xFF]
      else if reason_code \<notin> allowed then Inl ProtocolError
      else if \<not> props_bool props then
        py_bytes [first_byte, 3, drop_bit 8 mid, mid AND 0xFF, reason_code]
      else
        rbind (py_bytes [drop_bit 8 mid, mid AND 0xFF, reason_code]) (\<lambda>body.
          rbind (encode_properties props packet) (\<lambda>p.
            rbind (py_bytes [first_byte]) (\<lambda>header.
              rbind (append_vbi header (int (length (body @ p)))) (\<lambda>header'.
                Inr (header' @ (body @ p)))))))"

definition encode_puback_v5 :: "int \<Rightarrow> int \<Rightarrow> properties option \<Rightarrow> bytes result" where
  "encode_puback_v5 mid reason_code props = encode_ack_v5 0x40 ''PUBACK'' PUBACK_REASONS mid reason_code props"

definition encode_pubrec_v5 :: "int \<Rightarrow> int \<Rightarrow> properties option \<Rightarrow> bytes result" where
  "encode_pubrec_v5 mid reason_code props = encode_ack_v5 0x50 ''PUBREC'' PUBREC_REASONS mid reason_code props"

definition encode_pubrel_v5 :: "int \<Rightarrow> int \<Rightarrow> properties option \<Rightarrow> bytes result" where
  "encode_pubrel_v5 mid reason_code props = encode_ack_v5 0x62 ''PUBREL'' PUBREL_REASONS mid reason_code props"

definition encode_pubcomp_v5 :: "int \<Rightarrow> int \<Rightarrow> properties option \<Rightarrow> bytes result" where
  "encode_pubcomp_v5 mid reason_code props = encode_ack_v5 0x70 ''PUBCOMP'' PUBCOMP_REASONS mid reason_code props"

subsection \<open>Version dispatch of the packet classes\<close>

record ack_packet =
  ack_mid :: int
  ack_reason :: int
  ack_properties :: "properties option"

definition PubAckPacket_encode :: "ack_packet \<Rightarrow> protocol_version \<Rightarrow> bytes result" where
  "PubAckPacket_encode p v =
     (if v = MQTTv5 then encode_puback_v5 (ack_mid p) (ack_reason p) (ack_properties p)
      else encode_puback_v311 (ack_mid p) (ack_reason p) (ack_properties p))"

definition PubRecPacket_encode :: "ack_packet \<Rightarrow> protocol_version \<Rightarrow> bytes result" where
  "PubRecPacket_encode p v =
     (if v = MQTTv5 then encode_pubrec_v5 (ack_mid p) (ack_reason p) (ack_properties p)
      else encode_pubrec_v311 (ack_mid p) (ack_reason p) (ack_properties p))"

definition PubRelPacket_encode :: "ack_packet \<Rightarrow> protocol_version \<Rightarrow> bytes result" where
  "PubRelPacket_encode p v =
     (if v = MQTTv5 then encode_pubrel_v5 (ack_mid p) (ack_reason p) (ack_properties p)
      else encode_pubrel_v311 (ack_mid p) (ack_reason p) (ack_properties p))"

definition PubCompPacket_encode :: "ack_packet \<Rightarrow> protocol_version \<Rightarrow> bytes result" where
  "PubCompPacket_encode p v =
     (if v = MQTTv5 then encode_pubcomp_v5 (ack_mid p) (ack_reason p) (ack_properties p)
      else encode_pubcomp_v311 (ack_mid p) (ack_reason p) (ack_properties p))"

definition mk_ack :: "ack_fields result \<Rightarrow> ack_packet result" where
  "mk_ack r = rbind r (\<lambda>(mid, reason, props).
     Inr \<lparr>ack_mid = mid, ack_reason = reason, ack_properties = props\<rparr>)"

definition PubAckPacket_decode :: "bytes \<Rightarrow> protocol_version \<Rightarrow> ack_packet result" where
  "PubAckPacket_decode rest v = mk_ack (if v = MQTTv5 then decode_puback_v5 rest else decode_puback_v311 rest)"

definition PubRecPacket_decode :: "bytes \<Rightarrow> protocol_version \<Rightarrow> ack_packet result" where
  "PubRecPacket_decode rest v = mk_ack (if v = MQTTv5 then decode_pubrec_v5 rest else decode_pubrec_v311 rest)"

definition PubRelPacket_decode :: "bytes \<Rightarrow> protocol_version \<Rightarrow> ack_packet result" where
  "PubRelPacket_decode rest v = mk_ack (if v = MQTTv5 then decode_pubrel_v5 rest else decode_pubrel_v311 rest)"

definition PubCompPacket_decode :: "bytes \<Rightarrow> protocol_version \<Rightarrow> ack_packet result" where
  "PubCompPacket_decode rest v = mk_ack (if v = MQTTv5 then decode_pubcomp_v5 rest else decode_pubcomp_v311 rest)"

subsection \<open>Round trips\<close>

text \<open>An acknowledgement without properties is decoded without a table.\<close>

definition present :: "string \<Rightarrow> properties option \<Rightarrow> properties option" where
  "present packet props = (if props_bool props then Some (props_received packet props) else None)"

lemma mid_bytes:
  assumes "1 \<le> mid" "mid \<le> 65535"
  defines "hi \<equiv> byte_of (drop_bit 8 mid)" and "lo \<equiv> byte_of (mid AND 0xFF)"
  shows "0 \<le> drop_bit 8 mid" "drop_bit 8 mid \<le> 255" "0 \<le> mid AND 0xFF" "mid AND 0xFF \<le> 255"
    "push_bit 8 (uint hi) OR uint lo = mid"
proof -
  have hi: "drop_bit 8 mid = mid div 256" by (simp add: drop_bit_eq_div)
  show b: "0 \<le> drop_bit 8 mid" "drop_bit 8 mid \<le> 255" "0 \<le> mid AND 0xFF" "mid AND 0xFF \<le> 255"
    using assms(1,2) pos_mod_bound [of 256 mid] by (simp_all add: hi int_and_FF)
  then have "uint hi = mid div 256" "uint lo = mid mod 256" unfolding hi_def lo_def by (simp_all add: hi int_and_FF)
  moreover have "push_bit 8 (uint hi) OR uint lo = uint hi * 256 + uint lo" by simp
  ultimately show "push_bit 8 (uint hi) OR uint lo = mid" by (simp only: div_mult_mod_eq)
qed

text \<open>Behind the length checks no \<^verbatim>\<open>IndexError\<close> is left.\<close>

lemma decode_ack_v311_value:
  "decode_ack_v311 rest =
     (if length rest \<noteq> 2 then Inl MalformedPacketError
      else
        (let mid = push_bit 8 (uint (rest ! 0)) OR uint (rest ! 1)
         in if mid = 0 then Inl MalformedPacketError else Inr (mid, 0, None)))"
  by (simp add: decode_ack_v311_def del: shift_or_bytes)

lemma decode_ack_v5_value:
  "decode_ack_v5 packet reasons rest =
     (let size = length rest
      in if size < 2 then Inl MalformedPacketError
         else
           (let mid = push_bit 8 (uint (rest ! 0)) OR uint (rest ! 1)
            in if mid = 0 then Inl MalformedPacketError
               else if size = 2 then Inr (mid, 0, None)
               else
                 (let reason = uint (rest ! 2)
                  in if reason \<notin> reasons then Inl MalformedPacketError
                     else if size = 3 then Inr (mid, reason, None)
                     else rbind (decode_properties rest 3 packet) (\<lambda>(props, pos).
                       rbind (require_end pos size) (\<lambda>_. Inr (mid, reason, Some props))))))"
proof -
  consider "length rest < 2" | "length rest = 2" | "3 \<le> length rest" by linarith
  then show ?thesis
  proof cases
    case 3
    then have "byte_at rest 0 = Inr (uint (rest ! 0))" "byte_at rest 1 = Inr (uint (rest ! 1))" "byte_at rest 2 = Inr (uint (rest ! 2))" by (intro byte_at_ok; linarith)+
    with 3 show ?thesis by (simp add: decode_ack_v5_def Let_def del: shift_or_bytes)
  qed (simp_all add: decode_ack_v5_def Let_def del: shift_or_bytes)
qed

lemma ack_v311_roundtrip:
  assumes "encode_ack_v311 (packet_type_value t + flags) mid reason props = Inr bs" "0 \<le> flags" "flags < 16"
  shows "\<exists>body. bs = frame_bytes \<lparr>raw_type = t, raw_flags = flags, remaining = body\<rparr>
    \<and> decode_ack_v311 body = Inr (mid, reason, None)"
proof -
  from assms(1) have mid: "1 \<le> mid" "mid \<le> 65535" and r: "reason = 0" "\<not> props_bool props"
    by (auto simp: encode_ack_v311_def split: if_splits)
  note m = mid_bytes [OF mid]
  have "0 \<le> packet_type_value t + flags" "packet_type_value t + flags \<le> 255"
    using packet_type_value_range [of t] assms(2,3) by auto
  with assms(1) mid r m have "bs = [byte_of (packet_type_value t + flags), byte_of 2, byte_of (drop_bit 8 mid), byte_of (mid AND 0xFF)]"
    by (auto simp: encode_ack_v311_def)
  then show ?thesis using m mid r
    by (intro exI [of _ "[byte_of (drop_bit 8 mid), byte_of (mid AND 0xFF)]"])
      (simp add: frame_bytes_def vbi_loop_last decode_ack_v311_value present_def del: shift_or_bytes)
qed

lemma ack_v5_roundtrip:
  assumes "encode_ack_v5 (packet_type_value t + flags) packet allowed mid reason props = Inr bs" "0 \<le> flags" "flags < 16"
    and "dict_ok props" "allowed \<subseteq> {0..255}"
  shows "\<exists>body. bs = frame_bytes \<lparr>raw_type = t, raw_flags = flags, remaining = body\<rparr>
    \<and> decode_ack_v5 packet allowed body = (if over_budget packet props then Inl ProtocolError else Inr (mid, reason, present packet props))"
proof -
  let ?f = "packet_type_value t + flags" and ?hi = "byte_of (drop_bit 8 mid)" and ?lo = "byte_of (mid AND 0xFF)"
  have f: "0 \<le> ?f" "?f \<le> 255" using packet_type_value_range [of t] assms(2,3) by auto
  from assms(1) have mid: "1 \<le> mid" "mid \<le> 65535" by (auto simp: encode_ack_v5_def split: if_splits)
  note m = mid_bytes [OF mid]
  show ?thesis
  proof (cases "props_bool props")
    case False
    note none = received_empty(3) [OF False, of packet]
    show ?thesis
    proof (cases "reason = 0")
      case True
      with False assms(1) mid m f have "bs = [byte_of ?f, byte_of 2, ?hi, ?lo]" by (auto simp: encode_ack_v5_def)
      then show ?thesis using m mid True False none
        by (intro exI [of _ "[?hi, ?lo]"])
          (simp add: frame_bytes_def vbi_loop_last decode_ack_v5_value present_def del: shift_or_bytes)
    next
      case r: False
      with False assms(1) mid have "reason \<in> allowed" by (auto simp: encode_ack_v5_def split: if_splits)
      moreover from this assms(5) have rr: "0 \<le> reason" "reason \<le> 255" by auto
      ultimately have "bs = [byte_of ?f, byte_of 3, ?hi, ?lo, byte_of reason]"
        using r False assms(1) mid m f by (auto simp: encode_ack_v5_def)
      then show ?thesis using m mid False \<open>reason \<in> allowed\<close> rr none
        by (intro exI [of _ "[?hi, ?lo, byte_of reason]"])
          (simp add: frame_bytes_def vbi_loop_last decode_ack_v5_value present_def del: shift_or_bytes)
    qed
  next
    case True
    from True assms(1) mid have "reason \<in> allowed" by (auto simp: encode_ack_v5_def split: if_splits)
    moreover from this assms(5) have rr: "0 \<le> reason" "reason \<le> 255" by auto
    ultimately obtain pb where pb: "encode_properties props packet = Inr pb"
      and len: "append_vbi [byte_of ?f] (int (length ([?hi, ?lo, byte_of reason] @ pb)))
        = Inr (byte_of ?f # vbi_loop (int (length ([?hi, ?lo, byte_of reason] @ pb))))"
      and bs: "bs = byte_of ?f # vbi_loop (int (length ([?hi, ?lo, byte_of reason] @ pb))) @ [?hi, ?lo, byte_of reason] @ pb"
      using True assms(1) mid m f by (auto simp: encode_ack_v5_def append_vbi_def split: if_splits)
    let ?body = "[?hi, ?lo, byte_of reason] @ pb"
    have d: "decode_properties ?body 3 packet = (if over_budget packet props then Inl ProtocolError else Inr (props_received packet props, length ?body))"
      using decode_encoded [OF assms(4) pb, of "[?hi, ?lo, byte_of reason]" "[]"] by (simp add: numeral_3_eq_3)
    have "pb \<noteq> []" using pb True encode_properties_nonempty by blast
    with d m mid \<open>reason \<in> allowed\<close> rr
    have "decode_ack_v5 packet allowed ?body = (if over_budget packet props then Inl ProtocolError else Inr (mid, reason, Some (props_received packet props)))"
      by (simp add: decode_ack_v5_value require_end_def Let_def del: shift_or_bytes)
    with bs True show ?thesis by (intro exI [of _ ?body]) (simp add: frame_bytes_def present_def)
  qed
qed

lemma reasons_bytes: "PUBACK_REASONS \<subseteq> {0..255}" "PUBREC_REASONS \<subseteq> {0..255}" "PUBREL_REASONS \<subseteq> {0..255}" "PUBCOMP_REASONS \<subseteq> {0..255}"
  by (auto simp: PUBACK_REASONS_def PUBREC_REASONS_def PUBREL_REASONS_def PUBCOMP_REASONS_def)

text \<open>What the encoders make of an acknowledgement, read back with the decoder of the same packet.\<close>

definition ack_read_back :: "packet_type \<Rightarrow> int \<Rightarrow> string \<Rightarrow> (ack_packet \<Rightarrow> protocol_version \<Rightarrow> bytes result) \<Rightarrow> (bytes \<Rightarrow> protocol_version \<Rightarrow> ack_packet result)
    \<Rightarrow> ack_packet \<Rightarrow> protocol_version \<Rightarrow> bool" where
  "ack_read_back t flags packet enc dec p v \<longleftrightarrow> (\<forall>bs. enc p v = Inr bs \<longrightarrow> (\<exists>body. bs = frame_bytes \<lparr>raw_type = t, raw_flags = flags, remaining = body\<rparr>
     \<and> dec body v = (if over_budget packet (ack_properties p) then Inl ProtocolError else Inr (p\<lparr>ack_properties := present packet (ack_properties p)\<rparr>))))"

lemma ack_read_backI:
  assumes "dict_ok (ack_properties p)" "allowed \<subseteq> {0..255}" "0 \<le> flags" "flags < 16"
    and "\<And>p v. enc p v = (if v = MQTTv5 then encode_ack_v5 (packet_type_value t + flags) packet allowed (ack_mid p) (ack_reason p) (ack_properties p)
      else encode_ack_v311 (packet_type_value t + flags) (ack_mid p) (ack_reason p) (ack_properties p))"
    and "\<And>body v. dec body v = mk_ack (if v = MQTTv5 then decode_ack_v5 packet allowed body else decode_ack_v311 body)"
  shows "ack_read_back t flags packet enc dec p v"
  unfolding ack_read_back_def
proof (intro allI impI)
  fix bs assume enc: "enc p v = Inr bs"
  let ?P = "ack_properties p"
  have pk: "mk_ack (Inr (ack_mid p, ack_reason p, x)) = Inr (p\<lparr>ack_properties := x\<rparr>)" for x by (cases p) (simp add: mk_ack_def)
  have err: "mk_ack (Inl e) = Inl e" for e by (simp add: mk_ack_def)
  show "\<exists>body. bs = frame_bytes \<lparr>raw_type = t, raw_flags = flags, remaining = body\<rparr>
     \<and> dec body v = (if over_budget packet ?P then Inl ProtocolError else Inr (p\<lparr>ack_properties := present packet ?P\<rparr>))"
  proof (cases "v = MQTTv5")
    case True
    with ack_v5_roundtrip [of t flags packet allowed "ack_mid p" "ack_reason p" ?P bs] enc assms pk err show ?thesis by fastforce
  next
    case False
    then have e: "encode_ack_v311 (packet_type_value t + flags) (ack_mid p) (ack_reason p) ?P = Inr bs" using enc assms(5) by simp
    then have "\<not> props_bool ?P" by (auto simp: encode_ack_v311_def split: if_splits)
    with ack_v311_roundtrip [OF e assms(3,4)] False received_empty(3) [of ?P packet] show ?thesis
      using assms(6) pk [of None] by (auto simp: present_def)
  qed
qed

text \<open>
  C32. Every acknowledgement the library encodes is read back as it was written, in both protocol
  versions: the bytes are one frame of the packet's type with its fixed flags, and decoding its body returns the same packet
  identifier, reason code and properties, or refuses them with a \<^verbatim>\<open>ProtocolError\<close> exactly when they hold more than 1024 values of repeatable
  properties, which the encoder does not limit. An empty table reads back as no properties, and a table as the decoder shapes it: a
  repeatable property as a tuple, an empty tuple not at all.
\<close>

theorem ack_roundtrip:
  assumes "dict_ok (ack_properties p)"
  shows "ack_read_back PUBACK 0 ''PUBACK'' PubAckPacket_encode PubAckPacket_decode p v \<and> ack_read_back PUBREC 0 ''PUBREC'' PubRecPacket_encode PubRecPacket_decode p v
    \<and> ack_read_back PUBREL 2 ''PUBREL'' PubRelPacket_encode PubRelPacket_decode p v \<and> ack_read_back PUBCOMP 0 ''PUBCOMP'' PubCompPacket_encode PubCompPacket_decode p v"
proof (intro conjI)
  show "ack_read_back PUBACK 0 ''PUBACK'' PubAckPacket_encode PubAckPacket_decode p v"
    by (rule ack_read_backI [OF assms reasons_bytes(1)]) (simp_all add: PubAckPacket_encode_def PubAckPacket_decode_def encode_puback_v5_def encode_puback_v311_def decode_puback_v5_def decode_puback_v311_def)
  show "ack_read_back PUBREC 0 ''PUBREC'' PubRecPacket_encode PubRecPacket_decode p v"
    by (rule ack_read_backI [OF assms reasons_bytes(2)]) (simp_all add: PubRecPacket_encode_def PubRecPacket_decode_def encode_pubrec_v5_def encode_pubrec_v311_def decode_pubrec_v5_def decode_pubrec_v311_def)
  show "ack_read_back PUBREL 2 ''PUBREL'' PubRelPacket_encode PubRelPacket_decode p v"
    by (rule ack_read_backI [OF assms reasons_bytes(3)]) (simp_all add: PubRelPacket_encode_def PubRelPacket_decode_def encode_pubrel_v5_def encode_pubrel_v311_def decode_pubrel_v5_def decode_pubrel_v311_def)
  show "ack_read_back PUBCOMP 0 ''PUBCOMP'' PubCompPacket_encode PubCompPacket_decode p v"
    by (rule ack_read_backI [OF assms reasons_bytes(4)]) (simp_all add: PubCompPacket_encode_def PubCompPacket_decode_def encode_pubcomp_v5_def encode_pubcomp_v311_def decode_pubcomp_v5_def decode_pubcomp_v311_def)
qed

theorem ack_roundtrip_witness:
  "\<exists>body. [0x62, 3, 1, 2, 0x92] = frame_bytes \<lparr>raw_type = PUBREL, raw_flags = 2, remaining = body\<rparr>
     \<and> PubRelPacket_decode body MQTTv5 = Inr \<lparr>ack_mid = 258, ack_reason = 0x92, ack_properties = None\<rparr>"
proof -
  have "PubRelPacket_encode \<lparr>ack_mid = 258, ack_reason = 0x92, ack_properties = None\<rparr> MQTTv5 = Inr [0x62, 3, 1, 2, 0x92]"
    by (simp add: PubRelPacket_encode_def encode_pubrel_v5_def encode_ack_v5_def props_bool_def PUBREL_REASONS_def
        drop_bit_eq_div int_and_FF byte_of_def)
  with ack_roundtrip [of "\<lparr>ack_mid = 258, ack_reason = 0x92, ack_properties = None\<rparr>" MQTTv5]
  show ?thesis by (simp add: ack_read_back_def present_def props_bool_def)
qed

text \<open>
  The validation-free success frames the sessions send for every message are, for every packet
  identifier in range, the very bytes the validated encoders produce for reason code 0
  without properties, in both protocol versions.
\<close>

theorem success_frames_equal:
  assumes "1 \<le> mid" "mid \<le> 65535"
  shows "encode_puback_success mid = encode_puback_v311 mid 0 None \<and> encode_puback_success mid = encode_puback_v5 mid 0 None
   \<and> encode_pubrec_success mid = encode_pubrec_v311 mid 0 None \<and> encode_pubrec_success mid = encode_pubrec_v5 mid 0 None
   \<and> encode_pubrel_success mid = encode_pubrel_v311 mid 0 None \<and> encode_pubrel_success mid = encode_pubrel_v5 mid 0 None
   \<and> encode_pubcomp_success mid = encode_pubcomp_v311 mid 0 None \<and> encode_pubcomp_success mid = encode_pubcomp_v5 mid 0 None
   \<and> is_ok (encode_puback_success mid) \<and> is_ok (encode_pubrec_success mid)
   \<and> is_ok (encode_pubrel_success mid) \<and> is_ok (encode_pubcomp_success mid)"
  using assms mid_bytes(1-4) [OF assms]
  by (simp add: encode_puback_success_def encode_pubrec_success_def encode_pubrel_success_def encode_pubcomp_success_def
      encode_puback_v311_def encode_pubrec_v311_def encode_pubrel_v311_def encode_pubcomp_v311_def encode_ack_v311_def
      encode_puback_v5_def encode_pubrec_v5_def encode_pubrel_v5_def encode_pubcomp_v5_def encode_ack_v5_def props_bool_def)

theorem success_frames_equal_witness:
  "encode_puback_success 65535 = encode_puback_v5 65535 0 None \<and> is_ok (encode_pubcomp_success 65535)"
  using success_frames_equal [of 65535] by fastforce

end
