(* ===== verification/Publish.thy ===== *)
theory Publish
  imports Acks Topics
begin

text \<open>
  PUBLISH: \<^verbatim>\<open>src/src/mqttium/packets/_publish.py\<close> and \<^verbatim>\<open>packets/publish.py\<close>, with the message types of
  \<^verbatim>\<open>types.py\<close> they produce. A QoS level is an integer; the conversion \<^verbatim>\<open>QoS(qos)\<close> is
  \<open>publish_level\<close>. The encoders and the generic decoder are inverse, the specialised decoders of
  the receive path agree with the generic one, and the segmented write form changes no byte.
\<close>

subsection \<open>Delivered messages\<close>

record message =
  msg_topic :: pystr
  msg_payload :: bytes
  msg_qos :: int
  msg_retain :: bool
  msg_dup :: bool
  msg_mid :: "int option"
  msg_properties :: "properties option"

definition decoded_message ::
  "pystr \<Rightarrow> bytes \<Rightarrow> int \<Rightarrow> bool \<Rightarrow> bool \<Rightarrow> int option \<Rightarrow> properties option \<Rightarrow> message" where
  "decoded_message topic payload qos retain dup mid props =
     \<lparr>msg_topic = topic, msg_payload = payload, msg_qos = qos, msg_retain = retain, msg_dup = dup,
      msg_mid = mid, msg_properties = props\<rparr>"

subsection \<open>Specialised decoders\<close>

definition decode_qos0_message_v311 :: "raw_packet \<Rightarrow> message result" where
  "decode_qos0_message_v311 raw =
     (if raw_flags raw AND 0x08 \<noteq> 0 then Inl MalformedPacketError
      else rbind (unpack_utf8 (remaining raw) 0) (\<lambda>(topic, payload_pos).
        if topic = [] then Inl MalformedPacketError
        else rbind (validate_received_publish_topic topic True) (\<lambda>_.
          Inr (decoded_message topic (drop payload_pos (remaining raw)) 0 (raw_flags raw AND 0x01 \<noteq> 0)
                 False None None))))"

definition decode_qos0_message_v5 :: "raw_packet \<Rightarrow> (message \<times> nat) result" where
  "decode_qos0_message_v5 raw =
     (if raw_flags raw AND 0x08 \<noteq> 0 then Inl MalformedPacketError
      else rbind (unpack_utf8 (remaining raw) 0) (\<lambda>(topic, properties_pos).
        rbind (decode_properties (remaining raw) properties_pos ''PUBLISH'') (\<lambda>(props, pos).
          rbind (validate_received_publish_topic topic True) (\<lambda>_.
            Inr (decoded_message topic (drop pos (remaining raw)) 0 (raw_flags raw AND 0x01 \<noteq> 0)
                   False None (Some props), pos - properties_pos)))))"

definition decode_qos12_fields_v311 :: "raw_packet \<Rightarrow> (pystr \<times> bytes \<times> int \<times> bool \<times> bool) result" where
  "decode_qos12_fields_v311 raw =
     rbind (unpack_utf8 (remaining raw) 0) (\<lambda>(topic, pos).
       if topic = [] then Inl MalformedPacketError
       else rbind (validate_received_publish_topic topic True) (\<lambda>_.
         rbind (unpack_u16 (remaining raw) pos) (\<lambda>(mid, pos').
           rbind (require_nonzero_mid mid) (\<lambda>_.
             Inr (topic, drop pos' (remaining raw), mid, raw_flags raw AND 0x01 \<noteq> 0, raw_flags raw AND 0x08 \<noteq> 0)))))"

definition decode_publish_fields_v5 ::
  "raw_packet \<Rightarrow> int \<Rightarrow> (pystr \<times> bytes \<times> int option \<times> bool \<times> bool \<times> properties \<times> nat) result" where
  "decode_publish_fields_v5 raw qos =
     (let dup = (raw_flags raw AND 0x08 \<noteq> 0)
      in if qos = 0 \<and> dup then Inl MalformedPacketError
         else rbind (unpack_utf8 (remaining raw) 0) (\<lambda>(topic, pos).
           rbind (if qos \<noteq> 0 then
                    rbind (unpack_u16 (remaining raw) pos) (\<lambda>(mid, pos').
                      rbind (require_nonzero_mid mid) (\<lambda>_. Inr (Some mid, pos')))
                  else Inr (None, pos)) (\<lambda>(mid, properties_pos).
             rbind (decode_properties (remaining raw) properties_pos ''PUBLISH'') (\<lambda>(props, pos').
               rbind (validate_received_publish_topic topic True) (\<lambda>_.
                 Inr (topic, drop pos' (remaining raw), mid, raw_flags raw AND 0x01 \<noteq> 0, dup, props,
                      pos' - properties_pos))))))"

subsection \<open>Encoders\<close>

text \<open>\<^verbatim>\<open>QoS(qos)\<close>, whose \<^verbatim>\<open>ValueError\<close> becomes a \<^verbatim>\<open>ProtocolError\<close>.\<close>

definition publish_level :: "int \<Rightarrow> int result" where
  "publish_level qos = (if qos \<in> {0, 1, 2} then Inr qos else Inl ProtocolError)"

definition publish_checks :: "int \<Rightarrow> bool \<Rightarrow> int option \<Rightarrow> unit result" where
  "publish_checks level dup mid =
     (if level \<noteq> 0 then
        (case mid of None \<Rightarrow> Inl ProtocolError | Some m \<Rightarrow> require_outbound_mid m)
      else if mid \<noteq> None then Inl ProtocolError
      else if dup then Inl ProtocolError
      else Inr ())"

definition publish_flags :: "int \<Rightarrow> bool \<Rightarrow> bool \<Rightarrow> int" where
  "publish_flags level retain dup =
     (push_bit 1 level OR (if retain then 0x01 else 0)) OR (if dup then 0x08 else 0)"

text \<open>The construction of the header, with the property table of MQTT 5 (empty bytes for 3.1.1).
  Each \<^verbatim>\<open>header.append\<close> raises outside 0..255.\<close>

definition publish_header :: "int \<Rightarrow> int \<Rightarrow> bytes \<Rightarrow> int \<Rightarrow> int option \<Rightarrow> bytes \<Rightarrow> bytes result" where
  "publish_header flags remaining_length topic_bytes level mid props =
     (let topic_size = int (length topic_bytes) in
      rbind (py_bytes [packet_type_value PUBLISH OR flags]) (\<lambda>header.
        rbind (append_vbi header remaining_length) (\<lambda>header.
          rbind (py_bytes [drop_bit 8 topic_size AND 0xFF, topic_size AND 0xFF]) (\<lambda>prefix.
            rbind (if level \<noteq> 0 then
                     (case mid of None \<Rightarrow> Inl AssertionError
                      | Some m \<Rightarrow> py_bytes [drop_bit 8 m AND 0xFF, m AND 0xFF])
                   else Inr []) (\<lambda>midb.
              Inr (header @ prefix @ topic_bytes @ midb @ props))))))"

definition publish_item :: "bytes \<Rightarrow> bytes \<Rightarrow> write_item" where
  "publish_item header payload =
     (if length payload \<ge> SEGMENT_THRESHOLD then Segmented header payload
      else Contiguous (header @ payload))"

definition encode_publish_item_v311 ::
  "pystr \<Rightarrow> bytes \<Rightarrow> int \<Rightarrow> bool \<Rightarrow> bool \<Rightarrow> int option \<Rightarrow> properties option \<Rightarrow> bytes option \<Rightarrow> bytes option
   \<Rightarrow> write_item result" where
  "encode_publish_item_v311 topic payload qos retain dup mid props topic_bytes_opt property_bytes_opt =
     rbind (publish_level qos) (\<lambda>level.
       rbind (publish_checks level dup mid) (\<lambda>_.
         (let flags = publish_flags level retain dup in
          rbind (case topic_bytes_opt of None \<Rightarrow> encode_utf8 topic | Some tb \<Rightarrow> Inr tb) (\<lambda>topic_bytes.
            (let remaining_length =
               2 + int (length topic_bytes) + (if level \<noteq> 0 then 2 else 0) + int (length payload)
             in if remaining_length > MAX_VBI then Inl PacketTooLargeError
                else rbind (publish_header flags remaining_length topic_bytes level mid []) (\<lambda>header.
                  Inr (publish_item header payload)))))))"

definition EMPTY_PROPS :: bytes where
  "EMPTY_PROPS = [0]"

definition encode_publish_item_v5 ::
  "pystr \<Rightarrow> bytes \<Rightarrow> int \<Rightarrow> bool \<Rightarrow> bool \<Rightarrow> int option \<Rightarrow> properties option \<Rightarrow> bytes option \<Rightarrow> bytes option
   \<Rightarrow> write_item result" where
  "encode_publish_item_v5 topic payload qos retain dup mid props topic_bytes_opt property_bytes_opt =
     rbind (publish_level qos) (\<lambda>level.
       rbind (publish_checks level dup mid) (\<lambda>_.
         (let flags = publish_flags level retain dup in
          rbind (case topic_bytes_opt of None \<Rightarrow> encode_utf8 topic | Some tb \<Rightarrow> Inr tb) (\<lambda>topic_bytes.
            rbind (case property_bytes_opt of
                     Some pb \<Rightarrow> Inr pb
                   | None \<Rightarrow>
                       if \<not> props_bool props then Inr EMPTY_PROPS
                       else rbind (validate_payload_format payload props) (\<lambda>_.
                         encode_properties props ''PUBLISH'')) (\<lambda>pb.
              (let remaining_length =
                 2 + int (length topic_bytes) + (if level \<noteq> 0 then 2 else 0) + int (length pb)
                   + int (length payload)
               in if remaining_length > MAX_VBI then Inl PacketTooLargeError
                  else rbind (publish_header flags remaining_length topic_bytes level mid pb) (\<lambda>header.
                    Inr (publish_item header payload))))))))"

definition encode_publish_item ::
  "pystr \<Rightarrow> bytes \<Rightarrow> int \<Rightarrow> bool \<Rightarrow> bool \<Rightarrow> int option \<Rightarrow> properties option \<Rightarrow> protocol_version
   \<Rightarrow> bytes option \<Rightarrow> bytes option \<Rightarrow> write_item result" where
  "encode_publish_item topic payload qos retain dup mid props v topic_bytes_opt property_bytes_opt =
     (if v = MQTTv5 then
        encode_publish_item_v5 topic payload qos retain dup mid props topic_bytes_opt property_bytes_opt
      else if props_bool props then Inl ProtocolError
      else encode_publish_item_v311 topic payload qos retain dup mid props topic_bytes_opt property_bytes_opt)"

subsection \<open>The packet class\<close>

record publish_packet =
  pub_topic :: pystr
  pub_payload :: bytes
  pub_qos :: int
  pub_retain :: bool
  pub_dup :: bool
  pub_mid :: "int option"
  pub_properties :: "properties option"

definition PublishPacket_encode_write_item :: "publish_packet \<Rightarrow> protocol_version \<Rightarrow> write_item result" where
  "PublishPacket_encode_write_item p v =
     (if v = MQTTv5 then
        encode_publish_item_v5 (pub_topic p) (pub_payload p) (pub_qos p) (pub_retain p) (pub_dup p)
          (pub_mid p) (pub_properties p) None None
      else if props_bool (pub_properties p) then Inl ProtocolError
      else encode_publish_item_v311 (pub_topic p) (pub_payload p) (pub_qos p) (pub_retain p) (pub_dup p)
          (pub_mid p) (pub_properties p) None None)"

definition PublishPacket_encode :: "publish_packet \<Rightarrow> protocol_version \<Rightarrow> bytes result" where
  "PublishPacket_encode p v =
     rbind (PublishPacket_encode_write_item p v) (\<lambda>item.
       Inr (case item of Contiguous bs \<Rightarrow> bs | Segmented h payload \<Rightarrow> h @ payload))"

definition PublishPacket_decode :: "int \<Rightarrow> bytes \<Rightarrow> protocol_version \<Rightarrow> publish_packet result" where
  "PublishPacket_decode flags rest v =
     (let dup = (flags AND 0x08 \<noteq> 0); qos_raw = drop_bit 1 flags AND 0x03
      in if qos_raw = 3 then Inl MalformedPacketError
         else if qos_raw = 0 \<and> dup then Inl MalformedPacketError
         else rbind (unpack_utf8 rest 0) (\<lambda>(topic, pos).
           rbind (if qos_raw \<noteq> 0 then
                    rbind (unpack_u16 rest pos) (\<lambda>(mid, pos').
                      rbind (require_nonzero_mid mid) (\<lambda>_. Inr (Some mid, pos')))
                  else Inr (None, pos)) (\<lambda>(mid, pos).
             rbind (if v = MQTTv5 then
                      rbind (decode_properties rest pos ''PUBLISH'') (\<lambda>(props, pos'). Inr (Some props, pos'))
                    else Inr (None, pos)) (\<lambda>(props, pos).
               rbind (validate_received_publish_topic topic True) (\<lambda>_.
                 if v \<noteq> MQTTv5 \<and> topic = [] then Inl MalformedPacketError
                 else Inr \<lparr>pub_topic = topic, pub_payload = drop pos rest, pub_qos = qos_raw,
                           pub_retain = (flags AND 0x01 \<noteq> 0), pub_dup = dup, pub_mid = mid,
                           pub_properties = props\<rparr>)))))"

subsection \<open>The frames the encoders build\<close>

lemma publish_flags_bits:
  fixes retain dup :: bool
  assumes "level \<in> {0, 1, 2}"
  defines "f \<equiv> publish_flags level retain dup"
  shows "0 \<le> f" "f < 16" "drop_bit 1 f AND 3 = level" "(f AND 8 \<noteq> 0) = dup" "(f AND 1 \<noteq> 0) = retain"
  using assms(1) unfolding f_def
  by (auto simp: publish_flags_def split: if_splits)

lemma publish_level_eq [simp]: "publish_level qos = Inr l \<longleftrightarrow> l = qos \<and> qos \<in> {0, 1, 2}"
  by (auto simp: publish_level_def)

lemma publish_checks_eq:
  "publish_checks level dup mid = Inr u \<longleftrightarrow>
     (if level \<noteq> 0 then \<exists>m. mid = Some m \<and> 1 \<le> m \<and> m \<le> 65535 else mid = None \<and> \<not> dup)"
  by (auto simp: publish_checks_def require_outbound_mid_def split: option.splits)

lemma and_FF_byte [simp]: "0 \<le> (v :: int) AND 0xFF" "(v :: int) AND 0xFF \<le> 255"
proof -
  show "v AND 0xFF \<le> 255" using pos_mod_bound [of 256 v] unfolding int_and_FF by linarith
qed (simp add: int_and_FF)

lemma masked_bytes: "py_bytes [a AND 0xFF, b AND 0xFF] = Inr [byte_of (a AND 0xFF), byte_of (b AND 0xFF)]"
  by simp

lemma pack_u16_masked:
  "0 \<le> n \<Longrightarrow> n \<le> 65535 \<Longrightarrow> pack_u16 n = Inr [byte_of (drop_bit 8 n AND 0xFF), byte_of (n AND 0xFF)]"
  by (simp add: pack_u16_def drop_bit_eq_div int_and_FF)

text \<open>The packet identifier on the wire: two bytes above QoS 0, nothing at QoS 0.\<close>

definition mid_wire :: "int \<Rightarrow> int option \<Rightarrow> bytes" where
  "mid_wire level mid = (if level \<noteq> 0 then case mid of None \<Rightarrow> [] | Some m \<Rightarrow> (case pack_u16 m of Inr bs \<Rightarrow> bs | Inl _ \<Rightarrow> []) else [])"

lemma length_mid_wire:
  "publish_checks level dup mid = Inr u \<Longrightarrow> length (mid_wire level mid) = (if level \<noteq> 0 then 2 else 0)"
  by (auto simp: publish_checks_eq mid_wire_def pack_u16_def split: if_splits)

lemma publish_header_eq:
  assumes lvl: "level \<in> {0, 1, 2}" and chk: "publish_checks level dup mid = Inr u"
    and topic: "encode_utf8 topic = Inr tb" "pack_utf8 topic = Inr tw"
    and len: "n = int (length (tw @ mid_wire level mid @ pb @ payload))" "n \<le> MAX_VBI"
  shows "rbind (publish_header (publish_flags level retain dup) n tb level mid pb) (\<lambda>h. Inr (item_bytes_out (publish_item h payload)))
    = Inr (frame_bytes \<lparr>raw_type = PUBLISH, raw_flags = publish_flags level retain dup, remaining = tw @ mid_wire level mid @ pb @ payload\<rparr>)"
proof -
  let ?f = "publish_flags level retain dup" and ?t = "int (length tb)"
  note fl = publish_flags_bits(1,2) [OF lvl, of retain dup]
  have t: "?t \<le> 65535" using topic(1) by (auto simp: encode_utf8_def split: sum.splits if_splits)
  then have tw: "tw = [byte_of (drop_bit 8 ?t AND 0xFF), byte_of (?t AND 0xFF)] @ tb"
    using topic by (auto simp: pack_utf8_def pack_u16_masked)
  have mw: "(if level \<noteq> 0 then (case mid of None \<Rightarrow> Inl AssertionError | Some m \<Rightarrow> py_bytes [drop_bit 8 m AND 0xFF, m AND 0xFF]) else Inr [])
    = Inr (mid_wire level mid)"
    using chk by (auto simp: publish_checks_eq mid_wire_def pack_u16_masked masked_bytes)
  have hd: "py_bytes [packet_type_value PUBLISH OR ?f] = Inr [byte_of (packet_type_value PUBLISH + ?f)]"
    using fl packet_type_value_range [of PUBLISH] unfolding type_or_flags [OF fl] by simp
  have vb: "append_vbi hb n = Inr (hb @ vbi_loop n)" for hb using len by (simp add: append_vbi_def)
  show ?thesis
    unfolding publish_header_def Let_def hd mw unfolding masked_bytes rbind_Inr vb
    by (simp add: publish_item_def item_bytes_out_def frame_bytes_def len(1) tw)
qed

text \<open>The property table an MQTT 5 PUBLISH carries.\<close>

definition props_wire :: "bytes \<Rightarrow> properties option \<Rightarrow> bytes result" where
  "props_wire payload props =
     (if \<not> props_bool props then Inr EMPTY_PROPS
      else rbind (validate_payload_format payload props) (\<lambda>_. encode_properties props ''PUBLISH''))"

lemma encode_v5_frame:
  assumes "encode_publish_item_v5 topic payload qos retain dup mid props None None = Inr item"
  shows "\<exists>tw pb. qos \<in> {0, 1, 2} \<and> publish_checks qos dup mid = Inr () \<and> pack_utf8 topic = Inr tw \<and> props_wire payload props = Inr pb
    \<and> int (length (tw @ mid_wire qos mid @ pb @ payload)) \<le> MAX_VBI
    \<and> item_bytes_out item = frame_bytes \<lparr>raw_type = PUBLISH, raw_flags = publish_flags qos retain dup,
        remaining = tw @ mid_wire qos mid @ pb @ payload\<rparr>"
proof -
  let ?n = "\<lambda>tb pb. 2 + int (length tb) + (if qos \<noteq> 0 then 2 else 0) + int (length pb) + int (length payload)"
  from assms obtain tb pb h where q: "qos \<in> {0, 1, 2}" and c: "publish_checks qos dup mid = Inr ()"
    and tb: "encode_utf8 topic = Inr tb" and pb: "props_wire payload props = Inr pb"
    and n: "?n tb pb \<le> MAX_VBI" and h: "publish_header (publish_flags qos retain dup) (?n tb pb) tb qos mid pb = Inr h"
    and item: "item = publish_item h payload"
    unfolding encode_publish_item_v5_def Let_def option.case props_wire_def [symmetric]
    by (auto simp del: not_le split: if_split_asm)
  obtain tw where tw: "pack_utf8 topic = Inr tw" "length tw = 2 + length tb"
    using tb by (auto simp: pack_utf8_def pack_u16_def encode_utf8_def split: sum.splits if_splits)
  have len: "?n tb pb = int (length (tw @ mid_wire qos mid @ pb @ payload))"
    using tw(2) length_mid_wire [OF c] by simp
  show ?thesis
    using publish_header_eq [OF q c tb tw(1) len n, of retain] h q c tw(1) pb n item
    unfolding len by auto
qed

lemma encode_v311_frame:
  assumes "encode_publish_item_v311 topic payload qos retain dup mid props None None = Inr item"
  shows "\<exists>tw. qos \<in> {0, 1, 2} \<and> publish_checks qos dup mid = Inr () \<and> pack_utf8 topic = Inr tw
    \<and> int (length (tw @ mid_wire qos mid @ payload)) \<le> MAX_VBI
    \<and> item_bytes_out item = frame_bytes \<lparr>raw_type = PUBLISH, raw_flags = publish_flags qos retain dup,
        remaining = tw @ mid_wire qos mid @ payload\<rparr>"
proof -
  let ?n = "\<lambda>tb. 2 + int (length tb) + (if qos \<noteq> 0 then 2 else 0) + int (length payload)"
  from assms obtain tb h where q: "qos \<in> {0, 1, 2}" and c: "publish_checks qos dup mid = Inr ()"
    and tb: "encode_utf8 topic = Inr tb"
    and n: "?n tb \<le> MAX_VBI" and h: "publish_header (publish_flags qos retain dup) (?n tb) tb qos mid [] = Inr h"
    and item: "item = publish_item h payload"
    unfolding encode_publish_item_v311_def Let_def option.case
    by (auto simp del: not_le split: if_split_asm)
  obtain tw where tw: "pack_utf8 topic = Inr tw" "length tw = 2 + length tb"
    using tb by (auto simp: pack_utf8_def pack_u16_def encode_utf8_def split: sum.splits if_splits)
  have len: "?n tb = int (length (tw @ mid_wire qos mid @ [] @ payload))"
    using tw(2) length_mid_wire [OF c] by simp
  show ?thesis
    using publish_header_eq [OF q c tb tw(1) len n, of retain] h q c tw(1) n item
    unfolding len by auto
qed

subsection \<open>Round trip\<close>

text \<open>Reading back a packet identifier.\<close>

lemma decode_mid_wire:
  assumes "publish_checks level dup mid = Inr ()"
  shows "(if level \<noteq> 0 then rbind (unpack_u16 (pre @ mid_wire level mid @ rest) (length pre)) (\<lambda>(m, pos').
            rbind (require_nonzero_mid m) (\<lambda>_. Inr (Some m, pos')))
          else Inr (None, length pre)) = Inr (mid, length pre + length (mid_wire level mid))"
proof (cases "level = 0")
  case True
  with assms show ?thesis by (simp add: publish_checks_eq mid_wire_def)
next
  case False
  with assms obtain m where m: "mid = Some m" "1 \<le> m" "m \<le> 65535" by (auto simp: publish_checks_eq)
  then have "pack_u16 m = Inr (mid_wire level mid)" using False by (simp add: mid_wire_def pack_u16_def)
  from u16.dec_enc [OF this, of pre rest] False m show ?thesis by (simp add: require_nonzero_mid_def)
qed

text \<open>What the peer sees as the property table: MQTT 5 always carries one.\<close>

definition props_seen :: "protocol_version \<Rightarrow> string \<Rightarrow> properties option \<Rightarrow> properties option" where
  "props_seen v packet props = (if v = MQTTv5 then Some (props_received packet props) else None)"

definition refused_table :: "protocol_version \<Rightarrow> string \<Rightarrow> properties option \<Rightarrow> bool" where
  "refused_table v packet props \<longleftrightarrow> v = MQTTv5 \<and> over_budget packet props"

lemma props_wire_encode: "props_wire payload props = Inr pb \<Longrightarrow> encode_properties props ''PUBLISH'' = Inr pb"
  by (cases props) (auto simp: props_wire_def EMPTY_PROPS_def encode_properties_def split: if_splits)

text \<open>A topic the receiver refuses: one with a wildcard, and before MQTT 5 the empty one.\<close>

definition refused_topic :: "protocol_version \<Rightarrow> pystr \<Rightarrow> bool" where
  "refused_topic v topic \<longleftrightarrow> PLUS \<in> set topic \<or> HASH \<in> set topic \<or> v \<noteq> MQTTv5 \<and> topic = []"

lemma received_topic_value:
  "validate_received_publish_topic t True = (if PLUS \<in> set t \<or> HASH \<in> set t then Inl MalformedPacketError else Inr ())"
  by (cases t) (auto simp: validate_received_publish_topic_def)

lemma decode_publish_body:
  assumes q: "qos \<in> {0, 1, 2}" and c: "publish_checks qos dup mid = Inr ()" and t: "pack_utf8 topic = Inr tw" and d: "dict_ok props"
    and pb: "if v = MQTTv5 then props_wire payload props = Inr pb else pb = []"
  shows "PublishPacket_decode (publish_flags qos retain dup) (tw @ mid_wire qos mid @ pb @ payload) v
    = (if refused_table v ''PUBLISH'' props then Inl ProtocolError
       else if refused_topic v topic then Inl MalformedPacketError
       else Inr \<lparr>pub_topic = topic, pub_payload = payload, pub_qos = qos, pub_retain = retain, pub_dup = dup, pub_mid = mid,
           pub_properties = props_seen v ''PUBLISH'' props\<rparr>)"
proof -
  let ?f = "publish_flags qos retain dup" and ?m = "mid_wire qos mid"
  note fl = publish_flags_bits [OF q, of retain dup]
  have qd: "\<not> (qos = 0 \<and> dup)" "qos \<noteq> 3" using c q by (auto simp: publish_checks_eq)
  have ut: "unpack_utf8 (tw @ ?m @ pb @ payload) 0 = Inr (topic, length tw)"
    using utf8.dec_enc_start [OF t] .
  have ud: "(if v = MQTTv5 then rbind (decode_properties (tw @ ?m @ pb @ payload) (length tw + length ?m) ''PUBLISH'') (\<lambda>(props, pos'). Inr (Some props, pos'))
      else Inr (None, length tw + length ?m))
    = (if refused_table v ''PUBLISH'' props then Inl ProtocolError else Inr (props_seen v ''PUBLISH'' props, length tw + length ?m + length pb))"
    using decode_encoded [OF d props_wire_encode, of payload pb "tw @ ?m" payload] pb by (auto simp: props_seen_def refused_table_def)
  show ?thesis
    unfolding PublishPacket_decode_def Let_def fl ut
    using qd decode_mid_wire [OF c, of tw "pb @ payload"] ud
    by (simp add: received_topic_value refused_topic_def cong: if_cong) blast
qed

text \<open>
  C33. Every PUBLISH the library encodes is read back as it was written, in both protocol versions and
  whether or not the payload is sent as a separate segment: the bytes are one PUBLISH frame that passes
  the fixed-header checks, and decoding its body with its flags returns the same topic, payload,
  QoS, retain, dup, packet identifier and properties (MQTT 5 reads an absent table as an empty one, and a repeatable property as a tuple).
  The encoder checks less than the decoder, which refuses exactly the packets with more than 1024 values of repeatable properties, by a
  \<^verbatim>\<open>ProtocolError\<close>, and those whose topic has a wildcard or is empty before MQTT 5, by a \<^verbatim>\<open>MalformedPacketError\<close>.
\<close>

theorem publish_roundtrip:
  assumes "PublishPacket_encode p v = Inr bs" "dict_ok (pub_properties p)"
  shows "\<exists>flags body. bs = frame_bytes \<lparr>raw_type = PUBLISH, raw_flags = flags, remaining = body\<rparr>
    \<and> raw_wf \<lparr>raw_type = PUBLISH, raw_flags = flags, remaining = body\<rparr>
    \<and> validate_raw_packet \<lparr>raw_type = PUBLISH, raw_flags = flags, remaining = body\<rparr> = Inr ()
    \<and> PublishPacket_decode flags body v
      = (if refused_table v ''PUBLISH'' (pub_properties p) then Inl ProtocolError
         else if refused_topic v (pub_topic p) then Inl MalformedPacketError
         else Inr (p\<lparr>pub_properties := props_seen v ''PUBLISH'' (pub_properties p)\<rparr>))"
proof -
  let ?f = "publish_flags (pub_qos p) (pub_retain p) (pub_dup p)"
  from assms(1) obtain item where item: "PublishPacket_encode_write_item p v = Inr item" "bs = item_bytes_out item"
    by (auto simp: PublishPacket_encode_def item_bytes_out_def)
  obtain tw pb where q: "pub_qos p \<in> {0, 1, 2}" and c: "publish_checks (pub_qos p) (pub_dup p) (pub_mid p) = Inr ()"
    and t: "pack_utf8 (pub_topic p) = Inr tw"
    and pb: "if v = MQTTv5 then props_wire (pub_payload p) (pub_properties p) = Inr pb else pb = []"
    and n: "int (length (tw @ mid_wire (pub_qos p) (pub_mid p) @ pb @ pub_payload p)) \<le> MAX_VBI"
    and bs: "bs = frame_bytes \<lparr>raw_type = PUBLISH, raw_flags = ?f, remaining = tw @ mid_wire (pub_qos p) (pub_mid p) @ pb @ pub_payload p\<rparr>"
  proof (cases "v = MQTTv5")
    case True
    with item have e: "encode_publish_item_v5 (pub_topic p) (pub_payload p) (pub_qos p) (pub_retain p) (pub_dup p) (pub_mid p) (pub_properties p) None None = Inr item"
      by (simp add: PublishPacket_encode_write_item_def)
    from encode_v5_frame [OF e] item(2) True that show ?thesis by auto
  next
    case False
    with item have e: "encode_publish_item_v311 (pub_topic p) (pub_payload p) (pub_qos p) (pub_retain p) (pub_dup p) (pub_mid p) (pub_properties p) None None = Inr item"
      by (auto simp: PublishPacket_encode_write_item_def split: if_splits)
    from encode_v311_frame [OF e] item(2) False that [where pb = "[]"] show ?thesis by auto
  qed
  have "PublishPacket_decode ?f (tw @ mid_wire (pub_qos p) (pub_mid p) @ pb @ pub_payload p) v
      = (if refused_table v ''PUBLISH'' (pub_properties p) then Inl ProtocolError
         else if refused_topic v (pub_topic p) then Inl MalformedPacketError
         else Inr (p\<lparr>pub_properties := props_seen v ''PUBLISH'' (pub_properties p)\<rparr>))"
    unfolding decode_publish_body [OF q c t assms(2) pb] by (cases p) simp
  moreover have "pub_qos p \<noteq> 3" using q by auto
  ultimately show ?thesis
    using bs n publish_flags_bits [OF q, of "pub_retain p" "pub_dup p"]
    by (intro exI [of _ ?f] exI) (auto simp: raw_wf_def validate_raw_packet_def)
qed

theorem publish_roundtrip_witness:
  "\<exists>flags body. [0x33, 6, 0, 1, 97, 0, 7, 104] = frame_bytes \<lparr>raw_type = PUBLISH, raw_flags = flags, remaining = body\<rparr>
     \<and> PublishPacket_decode flags body MQTTv311
       = Inr \<lparr>pub_topic = [97], pub_payload = [104], pub_qos = 1, pub_retain = True, pub_dup = False, pub_mid = Some 7,
              pub_properties = None\<rparr>"
proof -
  let ?p = "\<lparr>pub_topic = [97], pub_payload = [104], pub_qos = 1, pub_retain = True, pub_dup = False, pub_mid = Some 7, pub_properties = None\<rparr>"
  have "PublishPacket_encode ?p MQTTv311 = Inr [0x33, 6, 0, 1, 97, 0, 7, 104]"
    by (simp add: PublishPacket_encode_def PublishPacket_encode_write_item_def encode_publish_item_v311_def publish_checks_def
        require_outbound_mid_def publish_flags_def publish_header_def publish_item_def props_bool_def encode_utf8_def validate_mqtt_utf8_def
        utf8_char_def append_vbi_def vbi_loop_last MAX_VBI_def SEGMENT_THRESHOLD_def byte_of_def byte_of_nat_def)
  moreover have "dict_ok (pub_properties ?p)" "\<not> refused_table MQTTv311 ''PUBLISH'' (pub_properties ?p)" "\<not> refused_topic MQTTv311 (pub_topic ?p)"
    by (simp_all add: refused_table_def refused_topic_def)
  moreover have "?p\<lparr>pub_properties := props_seen MQTTv311 ''PUBLISH'' (pub_properties ?p)\<rparr> = ?p" by (simp add: props_seen_def)
  ultimately show ?thesis using publish_roundtrip [of ?p MQTTv311 "[0x33, 6, 0, 1, 97, 0, 7, 104]"] by metis
qed

subsection \<open>The specialised decoders\<close>

definition to_message :: "publish_packet \<Rightarrow> message" where
  "to_message p = decoded_message (pub_topic p) (pub_payload p) (pub_qos p) (pub_retain p) (pub_dup p) (pub_mid p) (pub_properties p)"

lemma unpack_u16_error: "unpack_u16 buf off = Inl e \<Longrightarrow> e = MalformedPacketError"
  by (auto simp: unpack_u16_value split: if_splits)

lemma received_topic_error: "validate_received_publish_topic t True = Inl e \<Longrightarrow> e = MalformedPacketError"
  by (auto simp: validate_received_publish_topic_def split: if_splits)

lemmas publish_decoder_defs = PublishPacket_decode_def decode_qos0_message_v311_def decode_qos0_message_v5_def
  decode_qos12_fields_v311_def decode_publish_fields_v5_def to_message_def decoded_message_def

text \<open>
  C34. The decoders specialised by version and QoS on the receive path agree with the generic PUBLISH
  decoder on every raw packet whose fixed header passed validation: they accept the same packets, with
  the same exception class otherwise, and return the same fields.
\<close>

theorem specialised_decoders_agree:
  assumes "validate_raw_packet raw = Inr ()" "raw_type raw = PUBLISH"
  defines "qos \<equiv> drop_bit 1 (raw_flags raw) AND 3"
  shows "(qos = 0 \<longrightarrow> decode_qos0_message_v311 raw = map_sum id to_message (PublishPacket_decode (raw_flags raw) (remaining raw) MQTTv311))
    \<and> (qos = 0 \<longrightarrow> map_sum id fst (decode_qos0_message_v5 raw) = map_sum id to_message (PublishPacket_decode (raw_flags raw) (remaining raw) MQTTv5))
    \<and> (qos \<noteq> 0 \<longrightarrow> map_sum id (\<lambda>(topic, payload, mid, retain, dup). (topic, payload, qos, retain, dup, Some mid)) (decode_qos12_fields_v311 raw)
        = map_sum id (\<lambda>p. (pub_topic p, pub_payload p, pub_qos p, pub_retain p, pub_dup p, pub_mid p)) (PublishPacket_decode (raw_flags raw) (remaining raw) MQTTv311))
    \<and> map_sum id (\<lambda>(topic, payload, mid, retain, dup, props, size). (topic, payload, qos, retain, dup, mid, Some props)) (decode_publish_fields_v5 raw qos)
        = map_sum id (\<lambda>p. (pub_topic p, pub_payload p, pub_qos p, pub_retain p, pub_dup p, pub_mid p, pub_properties p)) (PublishPacket_decode (raw_flags raw) (remaining raw) MQTTv5)"
proof -
  have q: "qos \<noteq> 3" using assms by (auto simp: validate_raw_packet_def Let_def split: if_splits)
  note q' = q [unfolded qos_def]
  show ?thesis
  proof (intro conjI impI)
    assume z: "qos = 0"
    show "decode_qos0_message_v311 raw = map_sum id to_message (PublishPacket_decode (raw_flags raw) (remaining raw) MQTTv311)"
      using z q' received_topic_error unfolding qos_def
      by (auto simp: publish_decoder_defs rbind_def Let_def split: sum.splits prod.splits)
    show "map_sum id fst (decode_qos0_message_v5 raw) = map_sum id to_message (PublishPacket_decode (raw_flags raw) (remaining raw) MQTTv5)"
      using z q' unfolding qos_def
      by (auto simp: publish_decoder_defs rbind_def Let_def split: sum.splits prod.splits)
  next
    assume nz: "qos \<noteq> 0"
    show "map_sum id (\<lambda>(topic, payload, mid, retain, dup). (topic, payload, qos, retain, dup, Some mid)) (decode_qos12_fields_v311 raw)
        = map_sum id (\<lambda>p. (pub_topic p, pub_payload p, pub_qos p, pub_retain p, pub_dup p, pub_mid p)) (PublishPacket_decode (raw_flags raw) (remaining raw) MQTTv311)"
      using nz q' unfolding qos_def
      by (auto dest: received_topic_error unpack_u16_error simp: publish_decoder_defs rbind_def Let_def require_nonzero_mid_def guard_def split: sum.splits prod.splits if_splits)
  next
    show "map_sum id (\<lambda>(topic, payload, mid, retain, dup, props, size). (topic, payload, qos, retain, dup, mid, Some props)) (decode_publish_fields_v5 raw qos)
        = map_sum id (\<lambda>p. (pub_topic p, pub_payload p, pub_qos p, pub_retain p, pub_dup p, pub_mid p, pub_properties p)) (PublishPacket_decode (raw_flags raw) (remaining raw) MQTTv5)"
      using q' unfolding qos_def
      by (auto simp: publish_decoder_defs rbind_def Let_def split: sum.splits prod.splits)
  qed
qed

theorem specialised_decoders_agree_witness:
  "decode_qos0_message_v311 \<lparr>raw_type = PUBLISH, raw_flags = 1, remaining = [0, 1, 97, 104]\<rparr>
   = map_sum id to_message (PublishPacket_decode 1 [0, 1, 97, 104] MQTTv311)"
proof -
  let ?r = "\<lparr>raw_type = PUBLISH, raw_flags = 1, remaining = [0, 1, 97, 104]\<rparr>"
  have "validate_raw_packet ?r = Inr ()" "raw_type ?r = PUBLISH" by code_simp+
  from specialised_decoders_agree [OF this] show ?thesis by simp
qed

end
