(* ===== verification/Subscriptions.thy ===== *)
theory Subscriptions
  imports Publish
begin

text \<open>
  SUBSCRIBE, SUBACK, UNSUBSCRIBE and UNSUBACK: \<^verbatim>\<open>src/src/mqttium/packets/_subscribe.py\<close>,
  \<^verbatim>\<open>packets/_suback.py\<close> and the classes of \<^verbatim>\<open>packets/subscription.py\<close>. The requests are proved against a
  reference parser of the broker side, built from the primitive decoders; the acknowledgements against
  the layout they decode.
\<close>

subsection \<open>Subscription options\<close>

record subscribe_options =
  opt_qos :: int
  no_local :: bool
  retain_as_published :: bool
  retain_handling :: int

definition encode_byte :: "subscribe_options \<Rightarrow> protocol_version \<Rightarrow> int result" where
  "encode_byte opt v =
     (if opt_qos opt \<notin> {0, 1, 2} then Inl ValueError
      else if v \<noteq> MQTTv5 then
        (if no_local opt \<or> retain_as_published opt \<or> retain_handling opt \<noteq> 0 then Inl ProtocolError
         else Inr (opt_qos opt))
      else if retain_handling opt \<notin> {0, 1, 2} then Inl ValueError
      else Inr (((opt_qos opt OR push_bit 2 (of_bool (no_local opt)))
                  OR push_bit 3 (of_bool (retain_as_published opt)))
                  OR push_bit 4 (retain_handling opt AND 0x03)))"

record subscription =
  sub_topic :: pystr
  sub_options :: subscribe_options

subsection \<open>Requests\<close>

text \<open>The loops over the filters, which extend the body.\<close>

fun append_subscriptions :: "protocol_version \<Rightarrow> subscription list \<Rightarrow> bytes \<Rightarrow> bytes result" where
  "append_subscriptions v [] body = Inr body"
| "append_subscriptions v (s # subs) body =
     rbind (pack_utf8 (sub_topic s)) (\<lambda>t.
       rbind (encode_byte (sub_options s) v) (\<lambda>opt.
         rbind (py_bytes [opt]) (\<lambda>b. append_subscriptions v subs (body @ t @ b))))"

fun append_topics :: "pystr list \<Rightarrow> bytes \<Rightarrow> bytes result" where
  "append_topics [] body = Inr body"
| "append_topics (t # ts) body = rbind (pack_utf8 t) (\<lambda>b. append_topics ts (body @ b))"

definition encode_subscribe_v311 :: "int \<Rightarrow> subscription list \<Rightarrow> properties option \<Rightarrow> bytes result" where
  "encode_subscribe_v311 mid subs props =
     (if subs = [] then Inl ProtocolError
      else rbind (require_outbound_mid mid) (\<lambda>_.
        rbind (pack_u16 mid) (\<lambda>body.
          rbind (append_subscriptions MQTTv311 subs body) (\<lambda>body. encode_frame SUBSCRIBE 0x02 body))))"

definition encode_unsubscribe_v311 :: "int \<Rightarrow> pystr list \<Rightarrow> properties option \<Rightarrow> bytes result" where
  "encode_unsubscribe_v311 mid topics props =
     (if topics = [] then Inl ProtocolError
      else rbind (require_outbound_mid mid) (\<lambda>_.
        rbind (pack_u16 mid) (\<lambda>body.
          rbind (append_topics topics body) (\<lambda>body. encode_frame UNSUBSCRIBE 0x02 body))))"

definition encode_subscribe_v5 :: "int \<Rightarrow> subscription list \<Rightarrow> properties option \<Rightarrow> bytes result" where
  "encode_subscribe_v5 mid subs props =
     (if subs = [] then Inl ProtocolError
      else rbind (require_outbound_mid mid) (\<lambda>_.
        rbind (pack_u16 mid) (\<lambda>body.
          rbind (encode_properties props ''SUBSCRIBE'') (\<lambda>p.
            rbind (append_subscriptions MQTTv5 subs (body @ p)) (\<lambda>body. encode_frame SUBSCRIBE 0x02 body)))))"

definition encode_unsubscribe_v5 :: "int \<Rightarrow> pystr list \<Rightarrow> properties option \<Rightarrow> bytes result" where
  "encode_unsubscribe_v5 mid topics props =
     (if topics = [] then Inl ProtocolError
      else rbind (require_outbound_mid mid) (\<lambda>_.
        rbind (pack_u16 mid) (\<lambda>body.
          rbind (encode_properties props ''UNSUBSCRIBE'') (\<lambda>p.
            rbind (append_topics topics (body @ p)) (\<lambda>body. encode_frame UNSUBSCRIBE 0x02 body)))))"

record subscribe_packet =
  sp_mid :: int
  sp_subscriptions :: "subscription list"
  sp_properties :: "properties option"

record unsubscribe_packet =
  up_mid :: int
  up_topics :: "pystr list"
  up_properties :: "properties option"

definition SubscribePacket_encode :: "subscribe_packet \<Rightarrow> protocol_version \<Rightarrow> bytes result" where
  "SubscribePacket_encode p v =
     (if v = MQTTv5 then encode_subscribe_v5 (sp_mid p) (sp_subscriptions p) (sp_properties p)
      else if props_bool (sp_properties p) then Inl ProtocolError
      else encode_subscribe_v311 (sp_mid p) (sp_subscriptions p) (sp_properties p))"

definition UnsubscribePacket_encode :: "unsubscribe_packet \<Rightarrow> protocol_version \<Rightarrow> bytes result" where
  "UnsubscribePacket_encode p v =
     (if v = MQTTv5 then encode_unsubscribe_v5 (up_mid p) (up_topics p) (up_properties p)
      else if props_bool (up_properties p) then Inl ProtocolError
      else encode_unsubscribe_v311 (up_mid p) (up_topics p) (up_properties p))"

subsection \<open>Acknowledgements\<close>

type_synonym suback_fields = "int \<times> int list \<times> properties option"

text \<open>\<^verbatim>\<open>for reason in reason_codes: require_reason_code(...)\<close>\<close>

fun require_reasons :: "int set \<Rightarrow> int list \<Rightarrow> unit result" where
  "require_reasons allowed [] = Inr ()"
| "require_reasons allowed (r # rs) = rbind (require_reason_code r allowed) (\<lambda>_. require_reasons allowed rs)"

definition SUBACK_V311_REASONS :: "int set" where
  "SUBACK_V311_REASONS = {0x00, 0x01, 0x02, 0x80}"

definition SUBACK_V5_REASONS :: "int set" where
  "SUBACK_V5_REASONS = {0x00, 0x01, 0x02, 0x80, 0x83, 0x87, 0x8F, 0x91, 0x97, 0x9E, 0xA1, 0xA2}"

definition UNSUBACK_REASONS :: "int set" where
  "UNSUBACK_REASONS = {0x00, 0x11, 0x80, 0x83, 0x87, 0x8F, 0x91}"

definition decode_suback_v311 :: "bytes \<Rightarrow> suback_fields result" where
  "decode_suback_v311 rest =
     (if length rest < 3 then Inl MalformedPacketError
      else rbind (unpack_u16 rest 0) (\<lambda>(mid, pos).
        rbind (require_nonzero_mid mid) (\<lambda>_.
          (let reason_codes = map uint (drop pos rest) in
           rbind (require_reasons SUBACK_V311_REASONS reason_codes) (\<lambda>_. Inr (mid, reason_codes, None))))))"

definition decode_unsuback_v311 :: "bytes \<Rightarrow> suback_fields result" where
  "decode_unsuback_v311 rest =
     (if length rest < 2 then Inl MalformedPacketError
      else rbind (unpack_u16 rest 0) (\<lambda>(mid, pos).
        rbind (require_nonzero_mid mid) (\<lambda>_.
          rbind (require_end pos (length rest)) (\<lambda>_. Inr (mid, [], None)))))"

definition decode_suback_v5 :: "bytes \<Rightarrow> suback_fields result" where
  "decode_suback_v5 rest =
     (if length rest < 3 then Inl MalformedPacketError
      else rbind (unpack_u16 rest 0) (\<lambda>(mid, pos).
        rbind (require_nonzero_mid mid) (\<lambda>_.
          rbind (decode_properties rest pos ''SUBACK'') (\<lambda>(props, pos).
            if pos \<ge> length rest then Inl MalformedPacketError
            else
              (let reason_codes = map uint (drop pos rest) in
               rbind (require_reasons SUBACK_V5_REASONS reason_codes) (\<lambda>_.
                 Inr (mid, reason_codes, Some props)))))))"

definition decode_unsuback_v5 :: "bytes \<Rightarrow> suback_fields result" where
  "decode_unsuback_v5 rest =
     (if length rest < 2 then Inl MalformedPacketError
      else rbind (unpack_u16 rest 0) (\<lambda>(mid, pos).
        rbind (require_nonzero_mid mid) (\<lambda>_.
          rbind (decode_properties rest pos ''UNSUBACK'') (\<lambda>(props, pos).
            if pos \<ge> length rest then Inl MalformedPacketError
            else
              (let reason_codes = map uint (drop pos rest) in
               rbind (require_reasons UNSUBACK_REASONS reason_codes) (\<lambda>_.
                 Inr (mid, reason_codes, Some props)))))))"

record suback_packet =
  sa_mid :: int
  sa_reason_codes :: "int list"
  sa_properties :: "properties option"

definition mk_suback :: "suback_fields result \<Rightarrow> suback_packet result" where
  "mk_suback r = rbind r (\<lambda>(mid, codes, props).
     Inr \<lparr>sa_mid = mid, sa_reason_codes = codes, sa_properties = props\<rparr>)"

definition SubAckPacket_decode :: "bytes \<Rightarrow> protocol_version \<Rightarrow> suback_packet result" where
  "SubAckPacket_decode rest v = mk_suback (if v = MQTTv5 then decode_suback_v5 rest else decode_suback_v311 rest)"

definition UnsubAckPacket_decode :: "bytes \<Rightarrow> protocol_version \<Rightarrow> suback_packet result" where
  "UnsubAckPacket_decode rest v = mk_suback (if v = MQTTv5 then decode_unsuback_v5 rest else decode_unsuback_v311 rest)"

subsection \<open>The broker's reading of the requests\<close>

text \<open>The option byte of one filter, as the specification lays it out.\<close>

definition options_of_byte :: "int \<Rightarrow> subscribe_options" where
  "options_of_byte b = \<lparr>opt_qos = b AND 3, no_local = bit b 2, retain_as_published = bit b 3, retain_handling = drop_bit 4 b AND 3\<rparr>"

lemma options_of_encode_byte:
  assumes "encode_byte opt v = Inr b"
  shows "options_of_byte b = opt" "0 \<le> b" "b \<le> 255"
proof -
  from assms have q: "opt_qos opt \<in> {0, 1, 2}" by (auto simp: encode_byte_def split: if_splits)
  have "options_of_byte b = opt \<and> 0 \<le> b \<and> b \<le> 255"
  proof (cases "v = MQTTv5")
    case True
    with assms have r: "retain_handling opt \<in> {0, 1, 2}" by (auto simp: encode_byte_def split: if_splits)
    with True q assms have b: "b = ((opt_qos opt OR push_bit 2 (of_bool (no_local opt)))
                  OR push_bit 3 (of_bool (retain_as_published opt))) OR push_bit 4 (retain_handling opt AND 0x03)"
      by (auto simp: encode_byte_def split: if_split_asm)
    show ?thesis using q r unfolding b
      by (cases opt; cases "no_local opt"; cases "retain_as_published opt")
        (auto simp: options_of_byte_def bit_iff_odd)
  next
    case False
    with assms q show ?thesis
      by (cases opt) (auto simp: encode_byte_def options_of_byte_def bit_iff_odd split: if_splits)
  qed
  then show "options_of_byte b = opt" "0 \<le> b" "b \<le> 255" by auto
qed

text \<open>One filter with its options, as an encoder and a decoder: the contract of the primitives carries
  the list of filters.\<close>

definition enc_filter :: "pystr \<times> byte \<Rightarrow> bytes result" where
  "enc_filter f = rbind (pack_utf8 (fst f)) (\<lambda>t. Inr (t @ [snd f]))"

definition dec_filter :: "bytes \<Rightarrow> nat \<Rightarrow> ((pystr \<times> byte) \<times> nat) result" where
  "dec_filter buf pos = rbind (unpack_utf8 buf pos) (\<lambda>(t, p).
     if p < length buf then Inr ((t, buf ! p), p + 1) else Inl MalformedPacketError)"

interpretation filter_codec: prefix_codec enc_filter dec_filter
proof
  fix v bs pre rest
  assume "enc_filter v = Inr bs"
  then obtain t where t: "pack_utf8 (fst v) = Inr t" "bs = t @ [snd v]" by (auto simp: enc_filter_def)
  show "dec_filter (pre @ bs @ rest) (length pre) = Inr (v, length pre + length bs)"
    using utf8.dec_enc [OF t(1), of pre "snd v # rest"] t(2) by (simp add: dec_filter_def nth_append)
next
  fix buf off v p
  assume "dec_filter buf off = Inr (v, p)"
  then obtain q where q: "unpack_utf8 buf off = Inr (fst v, q)" "q < length buf" "p = q + 1" "snd v = buf ! q"
    by (auto simp: dec_filter_def split: if_splits)
  with utf8.dec_sound [OF q(1)] have u: "off \<le> q" "pack_utf8 (fst v) = Inr (py_slice buf off q)" by auto
  have "py_slice buf off p = py_slice buf off q @ [buf ! q]"
    using q u py_slice_append_split [of off q p buf] py_slice_Cons [of q p buf] by simp
  with q u show "off \<le> p \<and> p \<le> length buf \<and> enc_filter v = Inr (py_slice buf off p)"
    by (simp add: enc_filter_def)
qed

text \<open>The fixed part of a request, up to the first filter.\<close>

definition read_request :: "protocol_version \<Rightarrow> string \<Rightarrow> bytes \<Rightarrow> (int \<times> properties option \<times> nat) result" where
  "read_request v packet body = rbind (unpack_u16 body 0) (\<lambda>(mid, pos).
     if v = MQTTv5 then rbind (decode_properties body pos packet) (\<lambda>(props, pos). Inr (mid, Some props, pos))
     else Inr (mid, None, pos))"

lemma append_subscriptions_eq:
  assumes "append_subscriptions v subs body = Inr out"
  shows "\<exists>filters bs. out = body @ bs \<and> filter_codec.enc_many filters = Inr bs \<and> length filters = length subs
    \<and> map (\<lambda>(t, b). \<lparr>sub_topic = t, sub_options = options_of_byte (uint b)\<rparr>) filters = subs"
  using assms
proof (induction subs arbitrary: body)
  case (Cons s subs)
  then obtain t opt where t: "pack_utf8 (sub_topic s) = Inr t" and o: "encode_byte (sub_options s) v = Inr opt"
    and r: "append_subscriptions v subs (body @ t @ [byte_of opt]) = Inr out"
    by (auto split: if_splits)
  from Cons.IH [OF r] obtain filters bs where f: "out = (body @ t @ [byte_of opt]) @ bs" "filter_codec.enc_many filters = Inr bs"
    "length filters = length subs" "map (\<lambda>(t, b). \<lparr>sub_topic = t, sub_options = options_of_byte (uint b)\<rparr>) filters = subs"
    by blast
  moreover have "\<lparr>sub_topic = sub_topic s, sub_options = options_of_byte (uint (byte_of opt))\<rparr> = s"
    using options_of_encode_byte [OF o] by (cases s) simp
  moreover have "enc_filter (sub_topic s, byte_of opt) = Inr (t @ [byte_of opt])" using t by (simp add: enc_filter_def)
  ultimately show ?case by (intro exI [of _ "(sub_topic s, byte_of opt) # filters"]) simp
qed simp

lemma append_topics_eq:
  assumes "append_topics ts body = Inr out"
  shows "\<exists>bs. out = body @ bs \<and> utf8.enc_many ts = Inr bs"
  using assms
proof (induction ts arbitrary: body)
  case (Cons t ts)
  then obtain b where b: "pack_utf8 t = Inr b" "append_topics ts (body @ b) = Inr out" by auto
  from Cons.IH [OF b(2)] b(1) show ?case by auto
qed simp

text \<open>Any request body: the identifier, the properties of MQTT 5, then the filters.\<close>

lemma read_request_head:
  assumes "require_outbound_mid mid = Inr ()" "pack_u16 mid = Inr mb" "dict_ok props"
    and "if v = MQTTv5 then encode_properties props packet = Inr pb else pb = []"
  shows "read_request v packet ((mb @ pb) @ rest)
    = (if refused_table v packet props then Inl ProtocolError else Inr (mid, props_seen v packet props, length (mb @ pb)))"
proof -
  have m: "unpack_u16 (mb @ pb @ rest) 0 = Inr (mid, length mb)" using u16.dec_enc_start [OF assms(2)] .
  with assms(4) decode_encoded [OF assms(3), of packet pb mb rest] show ?thesis
    by (auto simp: read_request_def props_seen_def refused_table_def)
qed

text \<open>
  C35. Every SUBSCRIBE and UNSUBSCRIBE the library encodes is read by a broker as it was requested, in
  both protocol versions: the bytes are one frame with the mandatory flags 2, its head gives the
  packet identifier and properties, and reading as many filters as were requested ends exactly at the end
  of the frame and gives every filter in order, with its QoS, no-local, retain-as-published and
  retain-handling options. The head is read with the library's own property decoder, which refuses a table of more than 1024 values of
  repeatable properties by a \<^verbatim>\<open>ProtocolError\<close>; the encoder has no such limit, and the filters follow the head all the same.
\<close>

theorem subscribe_wire:
  assumes "dict_ok (sp_properties p)" "dict_ok (up_properties u)"
  shows "(\<forall>bs. SubscribePacket_encode p v = Inr bs \<longrightarrow> (\<exists>body pos filters.
        bs = frame_bytes \<lparr>raw_type = SUBSCRIBE, raw_flags = 2, remaining = body\<rparr>
      \<and> read_request v ''SUBSCRIBE'' body = (if refused_table v ''SUBSCRIBE'' (sp_properties p) then Inl ProtocolError
          else Inr (sp_mid p, props_seen v ''SUBSCRIBE'' (sp_properties p), pos))
      \<and> filter_codec.dec_many body pos (length (sp_subscriptions p)) = Inr (filters, length body)
      \<and> map (\<lambda>(t, b). \<lparr>sub_topic = t, sub_options = options_of_byte (uint b)\<rparr>) filters = sp_subscriptions p))
   \<and> (\<forall>bs. UnsubscribePacket_encode u v = Inr bs \<longrightarrow> (\<exists>body pos.
        bs = frame_bytes \<lparr>raw_type = UNSUBSCRIBE, raw_flags = 2, remaining = body\<rparr>
      \<and> read_request v ''UNSUBSCRIBE'' body = (if refused_table v ''UNSUBSCRIBE'' (up_properties u) then Inl ProtocolError
          else Inr (up_mid u, props_seen v ''UNSUBSCRIBE'' (up_properties u), pos))
      \<and> utf8.dec_many body pos (length (up_topics u)) = Inr (up_topics u, length body)))"
proof (intro conjI allI impI)
  fix bs
  assume "SubscribePacket_encode p v = Inr bs"
  then obtain mb pb body where m: "require_outbound_mid (sp_mid p) = Inr ()" "pack_u16 (sp_mid p) = Inr mb"
    and pb: "if v = MQTTv5 then encode_properties (sp_properties p) ''SUBSCRIBE'' = Inr pb else pb = []"
    and a: "append_subscriptions v (sp_subscriptions p) (mb @ pb) = Inr body" and e: "encode_frame SUBSCRIBE 2 body = Inr bs"
    by (cases v) (auto simp: SubscribePacket_encode_def encode_subscribe_v5_def encode_subscribe_v311_def split: if_splits)
  from append_subscriptions_eq [OF a] obtain filters fs where f: "body = (mb @ pb) @ fs" "filter_codec.enc_many filters = Inr fs"
    "length filters = length (sp_subscriptions p)"
    "map (\<lambda>(t, b). \<lparr>sub_topic = t, sub_options = options_of_byte (uint b)\<rparr>) filters = sp_subscriptions p" by blast
  show "\<exists>body pos filters. bs = frame_bytes \<lparr>raw_type = SUBSCRIBE, raw_flags = 2, remaining = body\<rparr>
      \<and> read_request v ''SUBSCRIBE'' body = (if refused_table v ''SUBSCRIBE'' (sp_properties p) then Inl ProtocolError
          else Inr (sp_mid p, props_seen v ''SUBSCRIBE'' (sp_properties p), pos))
      \<and> filter_codec.dec_many body pos (length (sp_subscriptions p)) = Inr (filters, length body)
      \<and> map (\<lambda>(t, b). \<lparr>sub_topic = t, sub_options = options_of_byte (uint b)\<rparr>) filters = sp_subscriptions p"
    using encode_frame_wf [OF e] read_request_head [OF m assms(1) pb, of fs] filter_codec.dec_many_enc_many [OF f(2), of "mb @ pb" "[]"] f
    by (intro exI [of _ body] exI [of _ "length (mb @ pb)"] exI [of _ filters]) simp
next
  fix bs
  assume "UnsubscribePacket_encode u v = Inr bs"
  then obtain mb pb body where m: "require_outbound_mid (up_mid u) = Inr ()" "pack_u16 (up_mid u) = Inr mb"
    and pb: "if v = MQTTv5 then encode_properties (up_properties u) ''UNSUBSCRIBE'' = Inr pb else pb = []"
    and a: "append_topics (up_topics u) (mb @ pb) = Inr body" and e: "encode_frame UNSUBSCRIBE 2 body = Inr bs"
    by (cases v) (auto simp: UnsubscribePacket_encode_def encode_unsubscribe_v5_def encode_unsubscribe_v311_def split: if_splits)
  from append_topics_eq [OF a] obtain fs where f: "body = (mb @ pb) @ fs" "utf8.enc_many (up_topics u) = Inr fs" by blast
  show "\<exists>body pos. bs = frame_bytes \<lparr>raw_type = UNSUBSCRIBE, raw_flags = 2, remaining = body\<rparr>
      \<and> read_request v ''UNSUBSCRIBE'' body = (if refused_table v ''UNSUBSCRIBE'' (up_properties u) then Inl ProtocolError
          else Inr (up_mid u, props_seen v ''UNSUBSCRIBE'' (up_properties u), pos))
      \<and> utf8.dec_many body pos (length (up_topics u)) = Inr (up_topics u, length body)"
    using encode_frame_wf [OF e] read_request_head [OF m assms(2) pb, of fs] utf8.dec_many_enc_many [OF f(2), of "mb @ pb" "[]"] f
    by (intro exI [of _ body] exI [of _ "length (mb @ pb)"]) simp
qed

theorem subscribe_wire_witness:
  "\<exists>body pos filters. [0x82, 6, 0, 9, 0, 1, 97, 1] = frame_bytes \<lparr>raw_type = SUBSCRIBE, raw_flags = 2, remaining = body\<rparr>
      \<and> read_request MQTTv311 ''SUBSCRIBE'' body = Inr (9, None, pos)
      \<and> filter_codec.dec_many body pos 1 = Inr (filters, length body)
      \<and> map (\<lambda>(t, b). \<lparr>sub_topic = t, sub_options = options_of_byte (uint b)\<rparr>) filters
        = [\<lparr>sub_topic = [97], sub_options = \<lparr>opt_qos = 1, no_local = False, retain_as_published = False, retain_handling = 0\<rparr>\<rparr>]"
proof -
  let ?s = "\<lparr>sub_topic = [97], sub_options = \<lparr>opt_qos = 1, no_local = False, retain_as_published = False, retain_handling = 0\<rparr>\<rparr>"
  let ?p = "\<lparr>sp_mid = 9, sp_subscriptions = [?s], sp_properties = None\<rparr>" let ?u = "\<lparr>up_mid = 9, up_topics = [], up_properties = None\<rparr>"
  have "SubscribePacket_encode ?p MQTTv311 = Inr [0x82, 6, 0, 9, 0, 1, 97, 1]"
    by (simp add: SubscribePacket_encode_def encode_subscribe_v311_def props_bool_def require_outbound_mid_def pack_u16_def
        pack_utf8_def encode_utf8_def validate_mqtt_utf8_def utf8_char_def encode_byte_def encode_frame_def append_vbi_def
        vbi_loop_last MAX_VBI_def byte_of_def byte_of_nat_def)
  moreover have "dict_ok (sp_properties ?p)" "dict_ok (up_properties ?u)" by simp_all
  ultimately show ?thesis using subscribe_wire [of ?p ?u MQTTv311] by (auto simp: props_seen_def refused_table_def)
qed

subsection \<open>The layout of the acknowledgements\<close>

lemma require_reasons_iff: "require_reasons allowed rs = Inr u \<longleftrightarrow> set rs \<subseteq> allowed"
  by (induction rs) (auto simp: require_reason_code_def)

lemma suback_reasons_bytes: "SUBACK_V311_REASONS \<subseteq> {0..255}" "SUBACK_V5_REASONS \<subseteq> {0..255}" "UNSUBACK_REASONS \<subseteq> {0..255}"
  by (auto simp: SUBACK_V311_REASONS_def SUBACK_V5_REASONS_def UNSUBACK_REASONS_def)

lemma uint_byte_of_codes: "set codes \<subseteq> {0..255} \<Longrightarrow> map (uint \<circ> byte_of) codes = codes"
  by (induction codes) auto

lemma unpack_u16_range: "unpack_u16 buf off = Inr (mid, pos) \<Longrightarrow> 0 \<le> mid \<and> mid \<le> 65535 \<and> pos = off + 2 \<and> off + 2 \<le> length buf"
  using uint_byte_le [of "buf ! off"] uint_byte_le [of "buf ! (off + 1)"] by (auto simp: unpack_u16_value split: if_splits simp del: uint_byte_le)

lemma read_request_parts:
  assumes "read_request v packet body = Inr (mid, props, pos)"
  shows "unpack_u16 body 0 = Inr (mid, 2)"
    and "v = MQTTv5 \<Longrightarrow> \<exists>p. props = Some p \<and> decode_properties body 2 packet = Inr (p, pos)"
    and "v \<noteq> MQTTv5 \<Longrightarrow> props = None \<and> pos = 2"
  using assms by (auto simp: read_request_def unpack_u16_value numeral_2_eq_2 split: if_splits)

text \<open>
  A SUBACK or UNSUBACK with any packet identifier, properties and non-empty list of reason codes
  allowed in its version is decoded to exactly these values (a 3.1.1 UNSUBACK carries no codes);
  and whatever is decoded has an identifier in 1..65535 and only allowed codes, at least one where the
  version carries codes.
\<close>

theorem suback_exact:
  assumes "1 \<le> mid" "mid \<le> 65535" "pack_u16 mid = Inr mb" "codes \<noteq> []"
    and "dict_ok props" "\<not> over_budget ''SUBACK'' props" "\<not> over_budget ''UNSUBACK'' props"
    and "encode_properties props ''SUBACK'' = Inr pb" "encode_properties props ''UNSUBACK'' = Inr ub"
  shows "(set codes \<subseteq> SUBACK_V311_REASONS \<longrightarrow> SubAckPacket_decode (mb @ map byte_of codes) MQTTv311
        = Inr \<lparr>sa_mid = mid, sa_reason_codes = codes, sa_properties = None\<rparr>)
    \<and> (set codes \<subseteq> SUBACK_V5_REASONS \<longrightarrow> SubAckPacket_decode (mb @ pb @ map byte_of codes) MQTTv5
        = Inr \<lparr>sa_mid = mid, sa_reason_codes = codes, sa_properties = Some (props_received ''SUBACK'' props)\<rparr>)
    \<and> UnsubAckPacket_decode mb MQTTv311 = Inr \<lparr>sa_mid = mid, sa_reason_codes = [], sa_properties = None\<rparr>
    \<and> (set codes \<subseteq> UNSUBACK_REASONS \<longrightarrow> UnsubAckPacket_decode (mb @ ub @ map byte_of codes) MQTTv5
        = Inr \<lparr>sa_mid = mid, sa_reason_codes = codes, sa_properties = Some (props_received ''UNSUBACK'' props)\<rparr>)
    \<and> (\<forall>body v a. SubAckPacket_decode body v = Inr a \<longrightarrow> 1 \<le> sa_mid a \<and> sa_mid a \<le> 65535 \<and> sa_reason_codes a \<noteq> []
        \<and> set (sa_reason_codes a) \<subseteq> (if v = MQTTv5 then SUBACK_V5_REASONS else SUBACK_V311_REASONS))
    \<and> (\<forall>body v a. UnsubAckPacket_decode body v = Inr a \<longrightarrow> 1 \<le> sa_mid a \<and> sa_mid a \<le> 65535
        \<and> (if v = MQTTv5 then sa_reason_codes a \<noteq> [] \<and> set (sa_reason_codes a) \<subseteq> UNSUBACK_REASONS else sa_reason_codes a = []))"
proof -
  have mb: "length mb = 2" using assms(1-3) by (auto simp: pack_u16_def)
  have ok: "require_outbound_mid mid = Inr ()" using assms(1,2) by (simp add: require_outbound_mid_def)
  have n: "\<not> length (mb @ map byte_of codes) < 3" "\<not> length (mb @ x @ map byte_of codes) < 3" for x :: bytes
    using mb assms(4) by (cases codes; simp)+
  have h311: "unpack_u16 (mb @ rest) 0 = Inr (mid, 2)" for rest using u16.dec_enc_start [OF assms(3)] mb by simp
  have h5: "decode_properties (mb @ pb @ rest) 2 ''SUBACK'' = Inr (props_received ''SUBACK'' props, 2 + length pb)" for rest
    using decode_encoded [OF assms(5,8), of mb rest] assms(6) mb by simp
  have u5: "decode_properties (mb @ ub @ rest) 2 ''UNSUBACK'' = Inr (props_received ''UNSUBACK'' props, 2 + length ub)" for rest
    using decode_encoded [OF assms(5,9), of mb rest] assms(7) mb by simp
  note cs = uint_byte_of_codes [OF order.trans [OF _ suback_reasons_bytes(1)]] uint_byte_of_codes [OF order.trans [OF _ suback_reasons_bytes(2)]]
    uint_byte_of_codes [OF order.trans [OF _ suback_reasons_bytes(3)]]
  show ?thesis
    using assms(1,4) n mb cs
    by (auto simp: SubAckPacket_decode_def UnsubAckPacket_decode_def mk_suback_def decode_suback_v311_def decode_suback_v5_def
        decode_unsuback_v311_def decode_unsuback_v5_def h311 h311 [of "[]", simplified] h5 u5 require_nonzero_mid_def require_reasons_iff require_end_def Let_def
        dest!: unpack_u16_range split: if_splits)
qed

theorem suback_exact_witness:
  "SubAckPacket_decode ([0, 5] @ [0] @ map byte_of [0x80]) MQTTv5
     = Inr \<lparr>sa_mid = 5, sa_reason_codes = [0x80], sa_properties = Some EMPTY_PROPERTIES\<rparr>"
proof -
  have "pack_u16 5 = Inr [0, 5]" "encode_properties None ''SUBACK'' = Inr [0]" "encode_properties None ''UNSUBACK'' = Inr [0]"
    by (simp_all add: pack_u16_def byte_of_def encode_properties_def)
  then show ?thesis using suback_exact [of 5 "[0, 5]" "[0x80]" None "[0]" "[0]"]
    by (simp add: SUBACK_V5_REASONS_def)
qed

end
