(* ===== verification/Control.thy ===== *)
theory Control
  imports Subscriptions
begin

text \<open>
  PINGREQ, PINGRESP, DISCONNECT and AUTH: \<^verbatim>\<open>src/src/mqttium/packets/_control.py\<close> and
  \<^verbatim>\<open>packets/control.py\<close>. What the client sends is read back with the layout the decoders use, and a
  client never sends what only a server may.
\<close>

subsection \<open>Operations\<close>

definition PINGREQ_FRAME :: bytes where
  "PINGREQ_FRAME = [0xC0, 0x00]"

definition PINGRESP_FRAME :: bytes where
  "PINGRESP_FRAME = [0xD0, 0x00]"

definition DISCONNECT_FRAME :: bytes where
  "DISCONNECT_FRAME = [0xE0, 0x00]"

definition decode_disconnect_v311 :: "bytes \<Rightarrow> (int \<times> properties option) result" where
  "decode_disconnect_v311 rest = rbind (require_end 0 (length rest)) (\<lambda>_. Inl ProtocolError)"

definition encode_pingreq :: bytes where
  "encode_pingreq = PINGREQ_FRAME"

definition encode_pingresp :: bytes where
  "encode_pingresp = PINGRESP_FRAME"

definition encode_disconnect_v311 :: "int \<Rightarrow> properties option \<Rightarrow> bytes result" where
  "encode_disconnect_v311 reason_code props =
     (if reason_code \<noteq> 0 \<or> props_bool props then Inl ProtocolError else Inr DISCONNECT_FRAME)"

definition DISCONNECT_REASONS :: "int set" where
  "DISCONNECT_REASONS = {0x00, 0x04, 0x80, 0x81, 0x82, 0x83, 0x87, 0x89, 0x8B, 0x8C, 0x8D, 0x8E, 0x8F, 0x90,
     0x93, 0x94, 0x95, 0x96, 0x97, 0x98, 0x99, 0x9A, 0x9B, 0x9C, 0x9D, 0x9E, 0x9F, 0xA0, 0xA1, 0xA2}"

definition CLIENT_DISCONNECT_REASONS :: "int set" where
  "CLIENT_DISCONNECT_REASONS = {0x00, 0x04, 0x80, 0x81, 0x82, 0x83, 0x90, 0x93, 0x94, 0x95, 0x96, 0x97, 0x98, 0x99}"

definition SERVER_DISCONNECT_REASONS :: "int set" where
  "SERVER_DISCONNECT_REASONS = DISCONNECT_REASONS - {0x04}"

definition AUTH_REASONS :: "int set" where
  "AUTH_REASONS = {0x00, 0x18, 0x19}"

definition decode_control_v5 :: "bytes \<Rightarrow> string \<Rightarrow> int set \<Rightarrow> (int \<times> properties option) result" where
  "decode_control_v5 rest packet_name allowed =
     (if rest = [] then Inr (0, Some EMPTY_PROPERTIES)
      else rbind (byte_at rest 0) (\<lambda>reason.
        rbind (require_reason_code reason allowed) (\<lambda>_.
          if length rest = 1 then Inr (reason, Some EMPTY_PROPERTIES)
          else rbind (decode_properties rest 1 packet_name) (\<lambda>(props, pos).
            rbind (require_end pos (length rest)) (\<lambda>_. Inr (reason, Some props))))))"

definition decode_disconnect_v5 :: "bytes \<Rightarrow> (int \<times> properties option) result" where
  "decode_disconnect_v5 rest = decode_control_v5 rest ''DISCONNECT'' SERVER_DISCONNECT_REASONS"

definition encode_auth_v5 :: "int \<Rightarrow> properties option \<Rightarrow> bytes result" where
  "encode_auth_v5 reason_code props =
     rbind (require_outbound_reason reason_code AUTH_REASONS) (\<lambda>_.
       rbind (py_bytes [reason_code]) (\<lambda>body.
         rbind (encode_properties props ''AUTH'') (\<lambda>p. encode_frame AUTH 0 (body @ p))))"

definition decode_auth_v5 :: "bytes \<Rightarrow> (int \<times> properties option) result" where
  "decode_auth_v5 rest = decode_control_v5 rest ''AUTH'' AUTH_REASONS"

text \<open>\<^verbatim>\<open>properties.get(name) is not None\<close>\<close>

definition props_has :: "properties option \<Rightarrow> string \<Rightarrow> bool" where
  "props_has props name = (case props of None \<Rightarrow> False
     | Some p \<Rightarrow> props_get p name \<noteq> None \<and> props_get p name \<noteq> Some VNone)"

definition encode_disconnect_v5 :: "int \<Rightarrow> properties option \<Rightarrow> bytes result" where
  "encode_disconnect_v5 reason_code props =
     rbind (require_outbound_reason reason_code CLIENT_DISCONNECT_REASONS) (\<lambda>_.
       if props_has props ''server_reference'' then Inl ProtocolError
       else if reason_code = 0 \<and> \<not> props_bool props then Inr DISCONNECT_FRAME
       else rbind (py_bytes [reason_code]) (\<lambda>body.
         rbind (encode_properties props ''DISCONNECT'') (\<lambda>p. encode_frame DISCONNECT 0 (body @ p))))"

record control_packet =
  cp_reason_code :: int
  cp_properties :: "properties option"

definition mk_control :: "(int \<times> properties option) result \<Rightarrow> control_packet result" where
  "mk_control r = rbind r (\<lambda>(reason, props). Inr \<lparr>cp_reason_code = reason, cp_properties = props\<rparr>)"

definition DisconnectPacket_decode :: "bytes \<Rightarrow> protocol_version \<Rightarrow> control_packet result" where
  "DisconnectPacket_decode rest v =
     mk_control (if v = MQTTv5 then decode_disconnect_v5 rest else decode_disconnect_v311 rest)"

definition AuthPacket_encode :: "control_packet \<Rightarrow> protocol_version \<Rightarrow> bytes result" where
  "AuthPacket_encode p v =
     (if v \<noteq> MQTTv5 then Inl ProtocolError else encode_auth_v5 (cp_reason_code p) (cp_properties p))"

definition AuthPacket_decode :: "bytes \<Rightarrow> protocol_version \<Rightarrow> control_packet result" where
  "AuthPacket_decode rest v = (if v \<noteq> MQTTv5 then Inl ProtocolError else mk_control (decode_auth_v5 rest))"

definition encode_disconnect :: "int \<Rightarrow> protocol_version \<Rightarrow> properties option \<Rightarrow> bytes result" where
  "encode_disconnect reason_code v props =
     (if v = MQTTv5 then encode_disconnect_v5 reason_code props else encode_disconnect_v311 reason_code props)"

subsection \<open>Round trips\<close>

lemma control_reasons_bytes: "AUTH_REASONS \<subseteq> {0..255}" "CLIENT_DISCONNECT_REASONS \<subseteq> {0..255}"
  by (auto simp: AUTH_REASONS_def CLIENT_DISCONNECT_REASONS_def)

lemma control_body_roundtrip:
  assumes "reason \<in> allowed" "allowed \<subseteq> {0..255}" "dict_ok props" "encode_properties props packet = Inr pb"
  shows "decode_control_v5 (byte_of reason # pb) packet allowed = (if over_budget packet props then Inl ProtocolError else Inr (reason, Some (props_received packet props)))"
proof -
  have r: "uint (byte_of reason) = reason" using assms(1,2) by auto
  have d: "decode_properties (byte_of reason # pb) 1 packet = (if over_budget packet props then Inl ProtocolError else Inr (props_received packet props, Suc (length pb)))"
    using decode_encoded [OF assms(3,4), of "[byte_of reason]" "[]"] by simp
  have "pb \<noteq> []" by (rule encode_properties_nonempty [OF assms(4)])
  with d r assms(1) show ?thesis
    by (auto simp: decode_control_v5_def require_reason_code_def require_end_def Let_def byte_at_def)
qed

text \<open>
  AUTH survives the round trip, and every DISCONNECT the client sends is one DISCONNECT frame whose
  body a server reads as the same reason code and properties. Neither an encoder nor a decoder lets
  through what the other side must not send: a client DISCONNECT carries a reason of the client's set and
  no server reference, a received one is never 0x04 (disconnect with will), and before MQTT 5 a
  received DISCONNECT is always an error.
\<close>

theorem control_wire:
  assumes "dict_ok (cp_properties p)" "\<not> over_budget ''AUTH'' (cp_properties p)" "dict_ok props" "\<not> over_budget ''DISCONNECT'' props"
  shows "(\<forall>bs. AuthPacket_encode p v = Inr bs \<longrightarrow> (\<exists>body. bs = frame_bytes \<lparr>raw_type = AUTH, raw_flags = 0, remaining = body\<rparr>
        \<and> AuthPacket_decode body v = Inr (p\<lparr>cp_properties := Some (props_received ''AUTH'' (cp_properties p))\<rparr>)))
    \<and> (\<forall>bs reason. encode_disconnect reason v props = Inr bs \<longrightarrow>
        reason \<in> CLIENT_DISCONNECT_REASONS \<and> \<not> (v = MQTTv5 \<and> props_has props ''server_reference'')
        \<and> (\<exists>body. bs = frame_bytes \<lparr>raw_type = DISCONNECT, raw_flags = 0, remaining = body\<rparr>
            \<and> decode_control_v5 body ''DISCONNECT'' CLIENT_DISCONNECT_REASONS = Inr (reason, Some (props_received ''DISCONNECT'' props))
            \<and> (v = MQTTv311 \<longrightarrow> body = [])))
    \<and> (\<forall>body d. DisconnectPacket_decode body v = Inr d \<longrightarrow> v = MQTTv5 \<and> cp_reason_code d \<in> DISCONNECT_REASONS \<and> cp_reason_code d \<noteq> 0x04)"
proof (intro conjI allI impI)
  fix bs
  assume "AuthPacket_encode p v = Inr bs"
  then obtain pb where v: "v = MQTTv5" and r: "cp_reason_code p \<in> AUTH_REASONS" and pb: "encode_properties (cp_properties p) ''AUTH'' = Inr pb"
    and e: "encode_frame AUTH 0 (byte_of (cp_reason_code p) # pb) = Inr bs"
    by (auto simp: AuthPacket_encode_def encode_auth_v5_def require_outbound_reason_def split: if_splits)
  with encode_frame_wf [OF e] control_body_roundtrip [OF r control_reasons_bytes(1) assms(1) pb] assms(2)
  show "\<exists>body. bs = frame_bytes \<lparr>raw_type = AUTH, raw_flags = 0, remaining = body\<rparr>
        \<and> AuthPacket_decode body v = Inr (p\<lparr>cp_properties := Some (props_received ''AUTH'' (cp_properties p))\<rparr>)"
    by (cases p) (auto simp: AuthPacket_decode_def decode_auth_v5_def mk_control_def)
next
  fix bs reason
  assume enc: "encode_disconnect reason v props = Inr bs"
  then show r: "reason \<in> CLIENT_DISCONNECT_REASONS"
    by (auto simp: encode_disconnect_def encode_disconnect_v5_def encode_disconnect_v311_def require_outbound_reason_def CLIENT_DISCONNECT_REASONS_def split: if_splits)
  from enc show "\<not> (v = MQTTv5 \<and> props_has props ''server_reference'')"
    by (auto simp: encode_disconnect_def encode_disconnect_v5_def split: if_splits)
  show "\<exists>body. bs = frame_bytes \<lparr>raw_type = DISCONNECT, raw_flags = 0, remaining = body\<rparr>
            \<and> decode_control_v5 body ''DISCONNECT'' CLIENT_DISCONNECT_REASONS = Inr (reason, Some (props_received ''DISCONNECT'' props))
            \<and> (v = MQTTv311 \<longrightarrow> body = [])"
  proof (cases "reason = 0 \<and> \<not> props_bool props")
    case True
    with enc have "bs = DISCONNECT_FRAME" by (cases v) (auto simp: encode_disconnect_def encode_disconnect_v5_def encode_disconnect_v311_def split: if_splits)
    with True show ?thesis
      by (intro exI [of _ "[]"]) (simp add: DISCONNECT_FRAME_def frame_bytes_def vbi_loop_last byte_of_def decode_control_v5_def received_empty)
  next
    case False
    with enc obtain pb where v: "v = MQTTv5" and pb: "encode_properties props ''DISCONNECT'' = Inr pb"
      and e: "encode_frame DISCONNECT 0 (byte_of reason # pb) = Inr bs"
      by (cases v) (auto simp: encode_disconnect_def encode_disconnect_v5_def encode_disconnect_v311_def split: if_splits)
    from encode_frame_wf [OF e] control_body_roundtrip [OF r control_reasons_bytes(2) assms(3) pb] assms(4) v show ?thesis by auto
  qed
next
  fix body d
  assume dec: "DisconnectPacket_decode body v = Inr d"
  then show v: "v = MQTTv5"
    by (cases v) (auto simp: DisconnectPacket_decode_def mk_control_def decode_disconnect_v311_def)
  with dec show "cp_reason_code d \<in> DISCONNECT_REASONS" "cp_reason_code d \<noteq> 0x04"
    by (auto simp: DisconnectPacket_decode_def mk_control_def decode_disconnect_v5_def decode_control_v5_def Let_def
        require_reason_code_def SERVER_DISCONNECT_REASONS_def DISCONNECT_REASONS_def split: list.splits if_splits)
qed

theorem control_wire_witness:
  "\<exists>body. [0xE0, 2, 0x04, 0] = frame_bytes \<lparr>raw_type = DISCONNECT, raw_flags = 0, remaining = body\<rparr>
     \<and> decode_control_v5 body ''DISCONNECT'' CLIENT_DISCONNECT_REASONS = Inr (0x04, Some EMPTY_PROPERTIES)"
proof -
  have "encode_disconnect 4 MQTTv5 None = Inr [0xE0, 2, 0x04, 0]"
    by (simp add: encode_disconnect_def encode_disconnect_v5_def require_outbound_reason_def CLIENT_DISCONNECT_REASONS_def props_has_def
        props_bool_def encode_properties_def encode_frame_def append_vbi_def vbi_loop_last MAX_VBI_def byte_of_def)
  then show ?thesis
    using control_wire [of "\<lparr>cp_reason_code = 0, cp_properties = None\<rparr>" None MQTTv5] by auto
qed

end
