(* ===== verification/Connect.thy ===== *)
theory Connect
  imports Control
begin

text \<open>
  CONNECT and CONNACK: \<^verbatim>\<open>src/src/mqttium/packets/_connect.py\<close>, \<^verbatim>\<open>packets/_connack.py\<close> and
  \<^verbatim>\<open>packets/connect.py\<close>. CONNECT is proved against a reference parser of the broker side.
\<close>

subsection \<open>CONNECT\<close>

definition PREFIX_V311 :: bytes where
  "PREFIX_V311 = [0x00, 0x04, 0x4D, 0x51, 0x54, 0x54, 0x04]"

definition PREFIX_V5 :: bytes where
  "PREFIX_V5 = [0x00, 0x04, 0x4D, 0x51, 0x54, 0x54, 0x05]"

definition validate_connect ::
  "bool \<Rightarrow> int \<Rightarrow> bytes option \<Rightarrow> pystr option \<Rightarrow> bytes \<Rightarrow> int \<Rightarrow> bool \<Rightarrow> properties option \<Rightarrow> properties option
   \<Rightarrow> int result" where
  "validate_connect v5 keepalive password will_topic will_payload will_qos will_retain will_properties props =
     (if \<not> (0 \<le> keepalive \<and> keepalive \<le> 65535) then Inl ProtocolError
      else if \<not> v5 \<and> props_bool props then Inl ProtocolError
      else if \<not> v5 \<and> props_bool will_properties then Inl ProtocolError
      else if will_qos \<notin> {0, 1, 2} then Inl ProtocolError
      else if will_topic = None \<and> (will_qos \<noteq> 0 \<or> will_retain) then Inl ProtocolError
      else if will_topic = None \<and> (will_payload \<noteq> [] \<or> props_bool will_properties) then Inl ProtocolError
      else if password \<noteq> None \<and> length (the password) > 65535 then Inl ProtocolError
      else if length will_payload > 65535 then Inl ProtocolError
      else rbind (if v5 then validate_payload_format will_payload will_properties else Inr ()) (\<lambda>_.
        if v5 \<and> props_has props ''authentication_data'' \<and> \<not> props_has props ''authentication_method''
        then Inl ProtocolError else Inr will_qos))"

definition connect_flags :: "bool \<Rightarrow> bool \<Rightarrow> int \<Rightarrow> bool \<Rightarrow> bool \<Rightarrow> bool \<Rightarrow> int" where
  "connect_flags clean_start has_will encoded_will_qos will_retain has_password has_username =
     (let flags = 0;
          flags = (if clean_start then flags OR 0x02 else flags);
          flags = (if has_will then
                     (let flags = flags OR (0x04 OR push_bit 3 encoded_will_qos)
                      in if will_retain then flags OR 0x20 else flags)
                   else flags);
          flags = (if has_password then flags OR 0x40 else flags)
      in if has_username then flags OR 0x80 else flags)"

text \<open>An optional section of the body.\<close>

definition opt_section :: "'a option \<Rightarrow> ('a \<Rightarrow> bytes result) \<Rightarrow> bytes result" where
  "opt_section x f = (case x of None \<Rightarrow> Inr [] | Some y \<Rightarrow> f y)"

definition sized_bytes :: "bytes \<Rightarrow> bytes result" where
  "sized_bytes bs = rbind (pack_u16 (int (length bs))) (\<lambda>n. Inr (n @ bs))"

definition encode_connect_body ::
  "bytes \<Rightarrow> bool \<Rightarrow> pystr \<Rightarrow> bool \<Rightarrow> int \<Rightarrow> pystr option \<Rightarrow> bytes option \<Rightarrow> pystr option \<Rightarrow> bytes \<Rightarrow> int \<Rightarrow> bool
   \<Rightarrow> properties option \<Rightarrow> properties option \<Rightarrow> bytes result" where
  "encode_connect_body prefix v5 client_id clean_start keepalive username password will_topic will_payload
     will_qos will_retain will_properties props =
     rbind (validate_connect v5 keepalive password will_topic will_payload will_qos will_retain
              will_properties props) (\<lambda>encoded_will_qos.
       rbind (py_bytes [connect_flags clean_start (will_topic \<noteq> None) encoded_will_qos will_retain
                          (password \<noteq> None) (username \<noteq> None)]) (\<lambda>flags.
         rbind (pack_u16 keepalive) (\<lambda>ka.
           rbind (if v5 then encode_properties props ''CONNECT'' else Inr []) (\<lambda>pb.
             rbind (pack_utf8 client_id) (\<lambda>cid.
               rbind (opt_section will_topic (\<lambda>topic.
                        rbind (if v5 then encode_properties will_properties ''WILL'' else Inr []) (\<lambda>wp.
                          rbind (pack_utf8 topic) (\<lambda>wt.
                            rbind (sized_bytes will_payload) (\<lambda>wb. Inr (wp @ wt @ wb)))))) (\<lambda>will.
                 rbind (opt_section username pack_utf8) (\<lambda>user.
                   rbind (opt_section password sized_bytes) (\<lambda>pw.
                     Inr (prefix @ flags @ ka @ pb @ cid @ will @ user @ pw)))))))))"

definition encode_connect ::
  "bytes \<Rightarrow> bool \<Rightarrow> pystr \<Rightarrow> bool \<Rightarrow> int \<Rightarrow> pystr option \<Rightarrow> bytes option \<Rightarrow> pystr option \<Rightarrow> bytes \<Rightarrow> int \<Rightarrow> bool
   \<Rightarrow> properties option \<Rightarrow> properties option \<Rightarrow> bytes result" where
  "encode_connect prefix v5 client_id clean_start keepalive username password will_topic will_payload
     will_qos will_retain will_properties props =
     rbind (encode_connect_body prefix v5 client_id clean_start keepalive username password will_topic
              will_payload will_qos will_retain will_properties props) (\<lambda>body. encode_frame CONNECT 0 body)"

record connect_packet =
  client_id :: pystr
  clean_start :: bool
  keepalive :: int
  username :: "pystr option"
  password :: "bytes option"
  will_topic :: "pystr option"
  will_payload :: bytes
  will_qos :: int
  will_retain :: bool
  will_properties :: "properties option"
  connect_protocol :: protocol_version
  connect_properties :: "properties option"

text \<open>\<^verbatim>\<open>encode_connect_v311\<close> and \<^verbatim>\<open>encode_connect_v5\<close>, whose arguments are the fields of the packet.\<close>

definition encode_connect_v311 :: "connect_packet \<Rightarrow> bytes result" where
  "encode_connect_v311 p = encode_connect PREFIX_V311 False (client_id p) (clean_start p) (keepalive p) (username p)
     (password p) (will_topic p) (will_payload p) (will_qos p) (will_retain p) (will_properties p) (connect_properties p)"

definition encode_connect_v5 :: "connect_packet \<Rightarrow> bytes result" where
  "encode_connect_v5 p = encode_connect PREFIX_V5 True (client_id p) (clean_start p) (keepalive p) (username p)
     (password p) (will_topic p) (will_payload p) (will_qos p) (will_retain p) (will_properties p) (connect_properties p)"

definition ConnectPacket_encode :: "connect_packet \<Rightarrow> bytes result" where
  "ConnectPacket_encode p =
     (case connect_protocol p of MQTTv311 \<Rightarrow> encode_connect_v311 p | MQTTv5 \<Rightarrow> encode_connect_v5 p)"

subsection \<open>CONNACK\<close>

definition CONNACK_V311_REASONS :: "int set" where
  "CONNACK_V311_REASONS = {0, 1, 2, 3, 4, 5}"

definition decode_connack_v311 :: "bytes \<Rightarrow> (bool \<times> int \<times> properties option) result" where
  "decode_connack_v311 rest =
     (if length rest < 2 then Inl MalformedPacketError
      else rbind (byte_at rest 0) (\<lambda>flags.
        if flags \<notin> {0, 1} then Inl MalformedPacketError
        else rbind (byte_at rest 1) (\<lambda>reason.
          (let session_present = (flags \<noteq> 0)
           in rbind (require_reason_code reason CONNACK_V311_REASONS) (\<lambda>_.
                rbind (require_end 2 (length rest)) (\<lambda>_.
                  if reason \<noteq> 0 \<and> session_present then Inl MalformedPacketError
                  else Inr (session_present, reason, None)))))))"

definition CONNACK_V5_REASONS :: "int set" where
  "CONNACK_V5_REASONS = {0x00, 0x80, 0x81, 0x82, 0x83, 0x84, 0x85, 0x86, 0x87, 0x88, 0x89, 0x8A, 0x8C, 0x90, 0x95,
     0x97, 0x99, 0x9A, 0x9B, 0x9C, 0x9D, 0x9F}"

definition decode_connack_v5 :: "bytes \<Rightarrow> (bool \<times> int \<times> properties option) result" where
  "decode_connack_v5 rest =
     (if length rest < 2 then Inl MalformedPacketError
      else rbind (byte_at rest 0) (\<lambda>flags.
        if flags \<notin> {0, 1} then Inl MalformedPacketError
        else rbind (byte_at rest 1) (\<lambda>reason.
          (let session_present = (flags \<noteq> 0)
           in rbind (require_reason_code reason CONNACK_V5_REASONS) (\<lambda>_.
                rbind (decode_properties rest 2 ''CONNACK'') (\<lambda>(props, pos).
                  rbind (require_end pos (length rest)) (\<lambda>_.
                    if reason \<noteq> 0 \<and> session_present then Inl MalformedPacketError
                    else Inr (session_present, reason, Some props))))))))"

record connack_packet =
  session_present :: bool
  connack_reason :: int
  connack_properties :: "properties option"

definition ConnAckPacket_decode :: "bytes \<Rightarrow> protocol_version \<Rightarrow> connack_packet result" where
  "ConnAckPacket_decode rest v =
     rbind (if v = MQTTv5 then decode_connack_v5 rest else decode_connack_v311 rest) (\<lambda>(present, reason, props).
       Inr \<lparr>session_present = present, connack_reason = reason, connack_properties = props\<rparr>)"

subsection \<open>The broker's reading of CONNECT\<close>

definition read_props :: "protocol_version \<Rightarrow> string \<Rightarrow> bytes \<Rightarrow> nat \<Rightarrow> (properties option \<times> nat) result" where
  "read_props v packet body pos =
     (if v = MQTTv5 then rbind (decode_properties body pos packet) (\<lambda>(p, q). Inr (Some p, q)) else Inr (None, pos))"

definition read_opt :: "bool \<Rightarrow> (bytes \<Rightarrow> nat \<Rightarrow> ('a \<times> nat) result) \<Rightarrow> bytes \<Rightarrow> nat \<Rightarrow> ('a option \<times> nat) result" where
  "read_opt b dec body pos = (if b then rbind (dec body pos) (\<lambda>(x, q). Inr (Some x, q)) else Inr (None, pos))"

definition read_will :: "protocol_version \<Rightarrow> bytes \<Rightarrow> nat \<Rightarrow> ((properties option \<times> pystr \<times> bytes) \<times> nat) result" where
  "read_will v body pos = rbind (read_props v ''WILL'' body pos) (\<lambda>(wp, pos).
     rbind (unpack_utf8 body pos) (\<lambda>(topic, pos).
       rbind (unpack_binary body pos) (\<lambda>(payload, pos). Inr ((wp, topic, payload), pos))))"

definition parse_connect :: "protocol_version \<Rightarrow> bytes \<Rightarrow> connect_packet result" where
  "parse_connect v body =
     (if take 7 body \<noteq> (if v = MQTTv5 then PREFIX_V5 else PREFIX_V311) then Inl MalformedPacketError
      else rbind (byte_at body 7) (\<lambda>flags.
        rbind (unpack_u16 body 8) (\<lambda>(ka, pos).
          rbind (read_props v ''CONNECT'' body pos) (\<lambda>(props, pos).
            rbind (unpack_utf8 body pos) (\<lambda>(cid, pos).
              rbind (read_opt (bit flags 2) (read_will v) body pos) (\<lambda>(will, pos).
                rbind (read_opt (bit flags 7) unpack_utf8 body pos) (\<lambda>(user, pos).
                  rbind (read_opt (bit flags 6) unpack_binary body pos) (\<lambda>(pw, pos).
                    rbind (require_end pos (length body)) (\<lambda>_.
                      Inr \<lparr>client_id = cid, clean_start = bit flags 1, keepalive = ka, username = user, password = pw,
                           will_topic = map_option (\<lambda>w. fst (snd w)) will,
                           will_payload = (case will of None \<Rightarrow> [] | Some w \<Rightarrow> snd (snd w)),
                           will_qos = drop_bit 3 flags AND 3, will_retain = bit flags 5,
                           will_properties = (case will of None \<Rightarrow> None | Some w \<Rightarrow> fst w),
                           connect_protocol = v, connect_properties = props\<rparr>)))))))))"

lemma connect_flags_bits:
  fixes clean w r pw user :: bool
  assumes "q \<in> {0, 1, 2}" "w \<or> q = 0 \<and> \<not> r"
  defines "f \<equiv> connect_flags clean w q r pw user"
  shows "0 \<le> f" "f \<le> 255" "bit f 1 = clean" "bit f 2 = w" "drop_bit 3 f AND 3 = q" "bit f 5 = r" "bit f 6 = pw" "bit f 7 = user"
proof -
  have "0 \<le> f \<and> f \<le> 255 \<and> bit f 1 = clean \<and> bit f 2 = w \<and> drop_bit 3 f AND 3 = q \<and> bit f 5 = r \<and> bit f 6 = pw \<and> bit f 7 = user"
    using assms(1,2) unfolding f_def
    by (cases clean; cases w; cases r; cases pw; cases user) (auto simp: connect_flags_def bit_iff_odd)
  then show "0 \<le> f" "f \<le> 255" "bit f 1 = clean" "bit f 2 = w" "drop_bit 3 f AND 3 = q" "bit f 5 = r" "bit f 6 = pw" "bit f 7 = user" by auto
qed

text \<open>Each reader inverts the section the encoder wrote, wherever it stands.\<close>

lemma read_props_section:
  assumes "dict_ok props" "if v = MQTTv5 then encode_properties props packet = Inr pb else pb = []"
  shows "read_props v packet (pre @ pb @ rest) (length pre)
    = (if refused_table v packet props then Inl ProtocolError else Inr (props_seen v packet props, length pre + length pb))"
  using assms decode_encoded [of props packet pb pre rest] by (auto simp: read_props_def props_seen_def refused_table_def)

lemma read_opt_section:
  assumes "opt_section x enc = Inr bs" "\<And>y b. x = Some y \<Longrightarrow> enc y = Inr b \<Longrightarrow> dec (pre @ b @ rest) (length pre) = Inr (g y, length pre + length b)"
  shows "read_opt (x \<noteq> None) dec (pre @ bs @ rest) (length pre) = Inr (map_option g x, length pre + length bs)"
  using assms by (cases x) (auto simp: read_opt_def opt_section_def)

lemma sized_bytes_binary: "sized_bytes bs = Inr out \<Longrightarrow> length bs \<le> 65535 \<Longrightarrow> pack_binary bs = Inr out"
  by (simp add: sized_bytes_def pack_binary_def)

lemma read_sized: "sized_bytes bs = Inr out \<Longrightarrow> length bs \<le> 65535 \<Longrightarrow>
  unpack_binary (pre @ out @ rest) (length pre) = Inr (bs, length pre + length out)"
  using binary.dec_enc [OF sized_bytes_binary] by blast

lemma read_will_section:
  assumes "dict_ok wprops" "if v = MQTTv5 then encode_properties wprops ''WILL'' = Inr wp else wp = []"
    and "pack_utf8 topic = Inr wt" "sized_bytes payload = Inr wb" "length payload \<le> 65535"
  shows "read_will v (pre @ (wp @ wt @ wb) @ rest) (length pre)
    = (if refused_table v ''WILL'' wprops then Inl ProtocolError else Inr ((props_seen v ''WILL'' wprops, topic, payload), length pre + length (wp @ wt @ wb)))"
  using read_props_section [OF assms(1,2), of pre "wt @ wb @ rest"] utf8.dec_enc [OF assms(3), of "pre @ wp" "wb @ rest"]
    read_sized [OF assms(4,5), of "pre @ wp @ wt" rest]
  by (simp add: read_will_def add.assoc)

lemma read_opt_will:
  assumes "dict_ok wprops" "length payload \<le> 65535"
    and "opt_section wtopic (\<lambda>topic. rbind (if v = MQTTv5 then encode_properties wprops ''WILL'' else Inr []) (\<lambda>wp.
        rbind (pack_utf8 topic) (\<lambda>wt. rbind (sized_bytes payload) (\<lambda>wb. Inr (wp @ wt @ wb))))) = Inr will"
  shows "read_opt (wtopic \<noteq> None) (read_will v) (pre @ will @ rest) (length pre)
    = (if wtopic \<noteq> None \<and> refused_table v ''WILL'' wprops then Inl ProtocolError
       else Inr (map_option (\<lambda>t. (props_seen v ''WILL'' wprops, t, payload)) wtopic, length pre + length will))"
proof (cases wtopic)
  case None
  then show ?thesis using assms(3) by (simp add: read_opt_def opt_section_def)
next
  case (Some topic)
  with assms(3) obtain wp wt wb where "if v = MQTTv5 then encode_properties wprops ''WILL'' = Inr wp else wp = []"
    "pack_utf8 topic = Inr wt" "sized_bytes payload = Inr wb" "will = wp @ wt @ wb" by (auto simp: opt_section_def split: if_splits)
  then show ?thesis using read_will_section [OF assms(1) _ _ _ assms(2), of v wp topic wt wb pre rest] Some by (simp add: read_opt_def)
qed

text \<open>
  What a broker makes of a CONNECT: the packet itself, with MQTT 5 tables always present and no
  will properties without a will.
\<close>

definition connect_seen :: "connect_packet \<Rightarrow> connect_packet" where
  "connect_seen p = p\<lparr>connect_properties := props_seen (connect_protocol p) ''CONNECT'' (connect_properties p),
     will_properties := (if will_topic p = None then None else props_seen (connect_protocol p) ''WILL'' (will_properties p))\<rparr>"

text \<open>A CONNECT or will table beyond the budget of the property decoder.\<close>

definition refused_connect :: "connect_packet \<Rightarrow> bool" where
  "refused_connect p \<longleftrightarrow> refused_table (connect_protocol p) ''CONNECT'' (connect_properties p)
     \<or> will_topic p \<noteq> None \<and> refused_table (connect_protocol p) ''WILL'' (will_properties p)"

lemma validate_connect_ok:
  assumes "validate_connect v5 ka pw wt wpl wq wr wp props = Inr q"
  shows "q = wq" "wq \<in> {0, 1, 2}" "0 \<le> ka" "ka \<le> 65535" "wt \<noteq> None \<or> wq = 0 \<and> \<not> wr" "wt = None \<Longrightarrow> wpl = []"
    "length wpl \<le> 65535" "pw = Some b \<Longrightarrow> length b \<le> 65535"
  using assms by (auto simp: validate_connect_def split: if_splits)

lemma encode_connect_sections:
  assumes "ConnectPacket_encode p = Inr bs"
  defines "v \<equiv> connect_protocol p"
  obtains f ka pb cid will user pw where
    "validate_connect (v = MQTTv5) (keepalive p) (password p) (will_topic p) (will_payload p) (will_qos p) (will_retain p) (will_properties p) (connect_properties p) = Inr (will_qos p)"
    "py_bytes [connect_flags (clean_start p) (will_topic p \<noteq> None) (will_qos p) (will_retain p) (password p \<noteq> None) (username p \<noteq> None)] = Inr [f]"
    "pack_u16 (keepalive p) = Inr ka" "if v = MQTTv5 then encode_properties (connect_properties p) ''CONNECT'' = Inr pb else pb = []"
    "pack_utf8 (client_id p) = Inr cid"
    "opt_section (will_topic p) (\<lambda>topic. rbind (if v = MQTTv5 then encode_properties (will_properties p) ''WILL'' else Inr []) (\<lambda>wp.
        rbind (pack_utf8 topic) (\<lambda>wt. rbind (sized_bytes (will_payload p)) (\<lambda>wb. Inr (wp @ wt @ wb))))) = Inr will"
    "opt_section (username p) pack_utf8 = Inr user" "opt_section (password p) sized_bytes = Inr pw"
    "encode_frame CONNECT 0 ((if v = MQTTv5 then PREFIX_V5 else PREFIX_V311) @ [f] @ ka @ pb @ cid @ will @ user @ pw) = Inr bs"
proof -
  let ?x = "if v = MQTTv5 then PREFIX_V5 else PREFIX_V311"
  have "encode_connect ?x (v = MQTTv5) (client_id p) (clean_start p) (keepalive p) (username p) (password p) (will_topic p)
     (will_payload p) (will_qos p) (will_retain p) (will_properties p) (connect_properties p) = Inr bs"
    using assms(1) unfolding v_def ConnectPacket_encode_def encode_connect_v311_def encode_connect_v5_def
    by (cases "connect_protocol p") auto
  then obtain q fl ka pb cid will user pw where
    q: "validate_connect (v = MQTTv5) (keepalive p) (password p) (will_topic p) (will_payload p) (will_qos p) (will_retain p) (will_properties p) (connect_properties p) = Inr q"
    and fl: "py_bytes [connect_flags (clean_start p) (will_topic p \<noteq> None) q (will_retain p) (password p \<noteq> None) (username p \<noteq> None)] = Inr fl"
    and rest: "pack_u16 (keepalive p) = Inr ka" "(if v = MQTTv5 then encode_properties (connect_properties p) ''CONNECT'' else Inr []) = Inr pb"
    "pack_utf8 (client_id p) = Inr cid"
    "opt_section (will_topic p) (\<lambda>topic. rbind (if v = MQTTv5 then encode_properties (will_properties p) ''WILL'' else Inr []) (\<lambda>wp.
        rbind (pack_utf8 topic) (\<lambda>wt. rbind (sized_bytes (will_payload p)) (\<lambda>wb. Inr (wp @ wt @ wb))))) = Inr will"
    "opt_section (username p) pack_utf8 = Inr user" "opt_section (password p) sized_bytes = Inr pw"
    "encode_frame CONNECT 0 (?x @ fl @ ka @ pb @ cid @ will @ user @ pw) = Inr bs"
    unfolding encode_connect_def encode_connect_body_def rbind_eq_Inr by blast
  from q have "q = will_qos p" by (rule validate_connect_ok)
  moreover obtain f where "fl = [f]" using length_py_bytes [OF fl] by (cases fl) auto
  ultimately show thesis using q fl rest by (intro that) (auto split: if_splits)
qed

lemma parse_connect_refused:
  assumes "take 7 body = (if v = MQTTv5 then PREFIX_V5 else PREFIX_V311)" "byte_at body 7 = Inr flags" "unpack_u16 body 8 = Inr (ka, 10)"
    and "read_props v ''CONNECT'' body 10 = Inl e \<or> (\<exists>props a1 cid a2. read_props v ''CONNECT'' body 10 = Inr (props, a1) \<and> unpack_utf8 body a1 = Inr (cid, a2)
      \<and> read_opt (bit flags 2) (read_will v) body a2 = Inl e)"
  shows "parse_connect v body = Inl e"
  unfolding parse_connect_def using assms by (elim disjE exE conjE) simp_all

lemma parse_connect_sections:
  assumes sec: "read_props v ''CONNECT'' body (10) = Inr (props, a1)" "unpack_utf8 body a1 = Inr (cid, a2)"
    "read_opt (bit flags 2) (read_will v) body a2 = Inr (will, a3)" "read_opt (bit flags 7) unpack_utf8 body a3 = Inr (user, a4)"
    "read_opt (bit flags 6) unpack_binary body a4 = Inr (pw, length body)"
    and hd: "take 7 body = (if v = MQTTv5 then PREFIX_V5 else PREFIX_V311)" "byte_at body 7 = Inr flags" "unpack_u16 body 8 = Inr (ka, 10)"
  shows "parse_connect v body = Inr \<lparr>client_id = cid, clean_start = bit flags 1, keepalive = ka, username = user, password = pw,
      will_topic = map_option (\<lambda>w. fst (snd w)) will, will_payload = (case will of None \<Rightarrow> [] | Some w \<Rightarrow> snd (snd w)),
      will_qos = drop_bit 3 flags AND 3, will_retain = bit flags 5, will_properties = (case will of None \<Rightarrow> None | Some w \<Rightarrow> fst w),
      connect_protocol = v, connect_properties = props\<rparr>"
  unfolding parse_connect_def using sec hd by (simp add: require_end_def)

text \<open>
  C36. Every CONNECT the library encodes is read by a broker as the packet it was built from, in both
  protocol versions: one CONNECT frame that states the version, and whose body gives back the client
  identifier, clean start, keep-alive, credentials, properties and the whole will (topic, payload, QoS,
  retain, properties), the flag byte selecting exactly the sections that follow. Tables are read with the library's own decoder, so a
  CONNECT or will table of more than 1024 values of repeatable properties, which the encoder does not limit, is refused by a \<^verbatim>\<open>ProtocolError\<close>. Keep-alive and will are
  within their limits in every packet encoded.
\<close>

theorem connect_wire:
  assumes "ConnectPacket_encode p = Inr bs" "dict_ok (connect_properties p)" "dict_ok (will_properties p)"
  shows "\<exists>body. bs = frame_bytes \<lparr>raw_type = CONNECT, raw_flags = 0, remaining = body\<rparr>
    \<and> parse_connect (connect_protocol p) body = (if refused_connect p then Inl ProtocolError else Inr (connect_seen p))
    \<and> 0 \<le> keepalive p \<and> keepalive p \<le> 65535 \<and> will_qos p \<in> {0, 1, 2} \<and> length (will_payload p) \<le> 65535"
proof -
  let ?v = "connect_protocol p"
  define x where "x = (if ?v = MQTTv5 then PREFIX_V5 else PREFIX_V311)"
  let ?F = "connect_flags (clean_start p) (will_topic p \<noteq> None) (will_qos p) (will_retain p) (password p \<noteq> None) (username p \<noteq> None)"
  from assms(1) obtain f ka pb cid will user pw where
    val: "validate_connect (?v = MQTTv5) (keepalive p) (password p) (will_topic p) (will_payload p) (will_qos p) (will_retain p) (will_properties p) (connect_properties p) = Inr (will_qos p)"
    and f: "py_bytes [?F] = Inr [f]"
    and ka: "pack_u16 (keepalive p) = Inr ka" and pb: "if ?v = MQTTv5 then encode_properties (connect_properties p) ''CONNECT'' = Inr pb else pb = []"
    and cid: "pack_utf8 (client_id p) = Inr cid"
    and will: "opt_section (will_topic p) (\<lambda>topic. rbind (if ?v = MQTTv5 then encode_properties (will_properties p) ''WILL'' else Inr []) (\<lambda>wp.
        rbind (pack_utf8 topic) (\<lambda>wt. rbind (sized_bytes (will_payload p)) (\<lambda>wb. Inr (wp @ wt @ wb))))) = Inr will"
    and user: "opt_section (username p) pack_utf8 = Inr user" and pw: "opt_section (password p) sized_bytes = Inr pw"
    and frame: "encode_frame CONNECT 0 (x @ [f] @ ka @ pb @ cid @ will @ user @ pw) = Inr bs"
    unfolding x_def by (rule encode_connect_sections)
  note ok = validate_connect_ok [OF val]
  have fb: "uint f = ?F" using f by (auto split: if_splits)
  note bits = connect_flags_bits [OF ok(2,5), of "clean_start p" "password p \<noteq> None" "username p \<noteq> None"]
  let ?body = "x @ [f] @ ka @ pb @ cid @ will @ user @ pw" and ?g = "\<lambda>t. (props_seen ?v ''WILL'' (will_properties p), t, will_payload p)"
  let ?c = "refused_table ?v ''CONNECT'' (connect_properties p)" and ?w = "will_topic p \<noteq> None \<and> refused_table ?v ''WILL'' (will_properties p)"
  have x: "length x = 7" by (simp add: x_def PREFIX_V5_def PREFIX_V311_def)
  have k: "length ka = 2" using ok(3,4) ka by (auto simp: pack_u16_def)
  have h8: "unpack_u16 ?body 8 = Inr (keepalive p, 10)"
    using u16.dec_enc [OF ka, of "x @ [f]" "pb @ cid @ will @ user @ pw"] x k by simp
  have h1: "read_props ?v ''CONNECT'' ?body 10 = (if ?c then Inl ProtocolError else Inr (props_seen ?v ''CONNECT'' (connect_properties p), 10 + length pb))"
    using read_props_section [OF assms(2) pb, of "x @ [f] @ ka" "cid @ will @ user @ pw"] x k by simp
  have h2: "unpack_utf8 ?body (10 + length pb) = Inr (client_id p, 10 + length pb + length cid)"
    using utf8.dec_enc [OF cid, of "x @ [f] @ ka @ pb" "will @ user @ pw"] x k by (simp add: add.assoc)
  have h3: "read_opt (will_topic p \<noteq> None) (read_will ?v) ?body (10 + length pb + length cid)
    = (if ?w then Inl ProtocolError else Inr (map_option ?g (will_topic p), 10 + length pb + length cid + length will))"
    using read_opt_will [OF assms(3) ok(7) will, of "x @ [f] @ ka @ pb @ cid" "user @ pw"] x k by (simp add: add.assoc)
  have h4: "read_opt (username p \<noteq> None) unpack_utf8 ?body (10 + length pb + length cid + length will)
    = Inr (username p, 10 + length pb + length cid + length will + length user)"
    using read_opt_section [OF user, of unpack_utf8 "x @ [f] @ ka @ pb @ cid @ will" pw id] x k
      utf8.dec_enc [of _ _ "x @ [f] @ ka @ pb @ cid @ will" pw] by (simp add: add.assoc option.map_id)
  have h5: "read_opt (password p \<noteq> None) unpack_binary ?body (10 + length pb + length cid + length will + length user) = Inr (password p, length ?body)"
    using read_opt_section [OF pw, of unpack_binary "x @ [f] @ ka @ pb @ cid @ will @ user" "[]" id] x k
      read_sized [of _ _ "x @ [f] @ ka @ pb @ cid @ will @ user" "[]"] ok(8) by (simp add: add.assoc option.map_id)
  have h7: "byte_at ?body 7 = Inr ?F" using byte_at_append [of x f] x fb by simp
  have ht: "take 7 ?body = (if ?v = MQTTv5 then PREFIX_V5 else PREFIX_V311)" using x by (simp add: x_def)
  have "parse_connect ?v ?body = (if refused_connect p then Inl ProtocolError else Inr (connect_seen p))"
  proof (cases "refused_connect p")
    case True
    then have "?c \<or> ?w" by (simp only: refused_connect_def)
    then have "read_props ?v ''CONNECT'' ?body 10 = Inl ProtocolError \<or> (\<exists>props a1 cid a2. read_props ?v ''CONNECT'' ?body 10 = Inr (props, a1)
        \<and> unpack_utf8 ?body a1 = Inr (cid, a2) \<and> read_opt (bit ?F 2) (read_will ?v) ?body a2 = Inl ProtocolError)"
      using h1 h2 h3 unfolding bits by (cases ?c) auto
    from parse_connect_refused [OF ht h7 h8 this] True show ?thesis by simp
  next
    case False
    then have "\<not> ?c" "\<not> ?w" by (auto simp: refused_connect_def)
    note h1' = h1 [unfolded if_not_P [OF this(1)]] and h3' = h3 [unfolded if_not_P [OF this(2)]]
    show ?thesis using parse_connect_sections [where flags = ?F, unfolded bits, OF h1' h2 h3' h4 h5 ht h7 h8] ok(6) False
      by (cases p) (auto simp: connect_seen_def option.map_comp comp_def split: option.splits)
  qed
  moreover have "bs = frame_bytes \<lparr>raw_type = CONNECT, raw_flags = 0, remaining = ?body\<rparr>" using encode_frame_wf [OF frame] by simp
  ultimately show ?thesis using ok(2-4,7) by blast
qed

theorem connect_wire_witness:
  "\<exists>body. [0x10, 13, 0, 4, 0x4D, 0x51, 0x54, 0x54, 4, 2, 0, 60, 0, 1, 97] = frame_bytes \<lparr>raw_type = CONNECT, raw_flags = 0, remaining = body\<rparr>
     \<and> parse_connect MQTTv311 body = Inr \<lparr>client_id = [97], clean_start = True, keepalive = 60, username = None, password = None,
         will_topic = None, will_payload = [], will_qos = 0, will_retain = False, will_properties = None,
         connect_protocol = MQTTv311, connect_properties = None\<rparr>"
proof -
  let ?p = "\<lparr>client_id = [97], clean_start = True, keepalive = 60, username = None, password = None,
         will_topic = None, will_payload = [], will_qos = 0, will_retain = False, will_properties = None,
         connect_protocol = MQTTv311, connect_properties = None\<rparr>"
  have "ConnectPacket_encode ?p = Inr [0x10, 13, 0, 4, 0x4D, 0x51, 0x54, 0x54, 4, 2, 0, 60, 0, 1, 97]"
    by (simp add: ConnectPacket_encode_def encode_connect_v311_def encode_connect_def encode_connect_body_def validate_connect_def props_bool_def
        connect_flags_def opt_section_def PREFIX_V311_def pack_u16_def pack_utf8_def encode_utf8_def validate_mqtt_utf8_def utf8_char_def
        encode_frame_def append_vbi_def vbi_loop_last MAX_VBI_def byte_of_def byte_of_nat_def)
  moreover have "dict_ok (connect_properties ?p)" "dict_ok (will_properties ?p)" "\<not> refused_connect ?p" by (simp_all add: refused_connect_def refused_table_def)
  ultimately show ?thesis using connect_wire [of ?p] by (simp add: connect_seen_def props_seen_def)
qed

text \<open>
  C37. A CONNACK with a session-present bit, a reason code allowed in its version and (in MQTT 5) any
  properties is decoded to exactly these values, provided a refusal does not claim a session and the table is within the budget of 1024 values of repeatable
  properties, beyond which it is refused by a \<^verbatim>\<open>ProtocolError\<close>; and whatever
  is decoded has an allowed reason code, a session only with success, and properties exactly in MQTT 5.
\<close>

theorem connack_exact:
  assumes "sp \<longrightarrow> reason = 0" "dict_ok props" "encode_properties props ''CONNACK'' = Inr pb"
  shows "(reason \<in> CONNACK_V311_REASONS \<longrightarrow> ConnAckPacket_decode [byte_of (of_bool sp), byte_of reason] MQTTv311
        = Inr \<lparr>session_present = sp, connack_reason = reason, connack_properties = None\<rparr>)
    \<and> (reason \<in> CONNACK_V5_REASONS \<longrightarrow> ConnAckPacket_decode ([byte_of (of_bool sp), byte_of reason] @ pb) MQTTv5
        = (if over_budget ''CONNACK'' props then Inl ProtocolError
           else Inr \<lparr>session_present = sp, connack_reason = reason, connack_properties = Some (props_received ''CONNACK'' props)\<rparr>))
    \<and> (\<forall>body v c. ConnAckPacket_decode body v = Inr c \<longrightarrow> (session_present c \<longrightarrow> connack_reason c = 0)
        \<and> connack_reason c \<in> (if v = MQTTv5 then CONNACK_V5_REASONS else CONNACK_V311_REASONS)
        \<and> (connack_properties c = None) = (v = MQTTv311))"
proof (intro conjI impI allI)
  assume r: "reason \<in> CONNACK_V311_REASONS"
  then have "0 \<le> reason" "reason \<le> 255" by (auto simp: CONNACK_V311_REASONS_def)
  with r assms(1) show "ConnAckPacket_decode [byte_of (of_bool sp), byte_of reason] MQTTv311
        = Inr \<lparr>session_present = sp, connack_reason = reason, connack_properties = None\<rparr>"
    by (auto simp: ConnAckPacket_decode_def decode_connack_v311_def require_reason_code_def require_end_def)
next
  assume r: "reason \<in> CONNACK_V5_REASONS"
  then have "0 \<le> reason" "reason \<le> 255" by (auto simp: CONNACK_V5_REASONS_def)
  with r assms(1) decode_encoded [OF assms(2,3), of "[byte_of (of_bool sp), byte_of reason]" "[]"]
  show "ConnAckPacket_decode ([byte_of (of_bool sp), byte_of reason] @ pb) MQTTv5
        = (if over_budget ''CONNACK'' props then Inl ProtocolError
           else Inr \<lparr>session_present = sp, connack_reason = reason, connack_properties = Some (props_received ''CONNACK'' props)\<rparr>)"
    by (auto simp: ConnAckPacket_decode_def decode_connack_v5_def require_reason_code_def require_end_def props_seen_def numeral_2_eq_2)
next
  fix body v c
  assume d: "ConnAckPacket_decode body v = Inr c"
  show "session_present c \<Longrightarrow> connack_reason c = 0" "connack_reason c \<in> (if v = MQTTv5 then CONNACK_V5_REASONS else CONNACK_V311_REASONS)"
    "(connack_properties c = None) = (v = MQTTv311)"
    using d by (cases v; auto simp: ConnAckPacket_decode_def decode_connack_v311_def decode_connack_v5_def require_reason_code_def Let_def split: if_splits)+
qed

theorem connack_exact_witness:
  "ConnAckPacket_decode ([byte_of (of_bool True), byte_of 0] @ [0]) MQTTv5
     = Inr \<lparr>session_present = True, connack_reason = 0, connack_properties = Some EMPTY_PROPERTIES\<rparr>"
proof -
  have "encode_properties None ''CONNACK'' = Inr [0]" by (simp add: encode_properties_def)
  with connack_exact [of True 0 None "[0]"] show ?thesis
    by (simp add: CONNACK_V5_REASONS_def del: append_Cons append_Nil of_bool_eq)
qed

end
