(* ===== verification/Bindings.thy ===== *)
theory Bindings
  imports Connect
begin

text \<open>
  The version-bound codec table, \<^verbatim>\<open>src/src/mqttium/packets/_bindings.py\<close>: a record of functions chosen once
  from the protocol version, and its agreement with the packet classes that dispatch per call.
\<close>

definition auth_requires_v5 :: "bytes \<Rightarrow> (int \<times> properties option) result" where
  "auth_requires_v5 rest = Inl ProtocolError"

record codec_bindings =
  protocol :: protocol_version
  is_mqtt5 :: bool
  decode_puback :: "bytes \<Rightarrow> ack_fields result"
  decode_pubrec :: "bytes \<Rightarrow> ack_fields result"
  decode_pubrel :: "bytes \<Rightarrow> ack_fields result"
  decode_pubcomp :: "bytes \<Rightarrow> ack_fields result"
  encode_pubrel :: "int \<Rightarrow> int \<Rightarrow> properties option \<Rightarrow> bytes result"
  decode_connack :: "bytes \<Rightarrow> (bool \<times> int \<times> properties option) result"
  decode_suback :: "bytes \<Rightarrow> suback_fields result"
  decode_unsuback :: "bytes \<Rightarrow> suback_fields result"
  decode_disconnect :: "bytes \<Rightarrow> (int \<times> properties option) result"
  decode_auth :: "bytes \<Rightarrow> (int \<times> properties option) result"
  pingreq_frame :: bytes
  bound_encode_disconnect :: "int \<Rightarrow> properties option \<Rightarrow> bytes result"
  bound_encode_publish_item :: "pystr \<Rightarrow> bytes \<Rightarrow> int \<Rightarrow> bool \<Rightarrow> bool \<Rightarrow> int option \<Rightarrow> properties option
    \<Rightarrow> bytes option \<Rightarrow> bytes option \<Rightarrow> write_item result"
  encode_subscribe :: "int \<Rightarrow> subscription list \<Rightarrow> properties option \<Rightarrow> bytes result"
  encode_unsubscribe :: "int \<Rightarrow> pystr list \<Rightarrow> properties option \<Rightarrow> bytes result"

definition bind_codec :: "protocol_version \<Rightarrow> codec_bindings" where
  "bind_codec v =
     (if v = MQTTv5 then
        \<lparr>protocol = v, is_mqtt5 = True,
         decode_puback = decode_puback_v5, decode_pubrec = decode_pubrec_v5,
         decode_pubrel = decode_pubrel_v5, decode_pubcomp = decode_pubcomp_v5,
         encode_pubrel = encode_pubrel_v5, decode_connack = decode_connack_v5,
         decode_suback = decode_suback_v5, decode_unsuback = decode_unsuback_v5,
         decode_disconnect = decode_disconnect_v5, decode_auth = decode_auth_v5,
         pingreq_frame = encode_pingreq, bound_encode_disconnect = encode_disconnect_v5,
         bound_encode_publish_item = encode_publish_item_v5,
         encode_subscribe = encode_subscribe_v5, encode_unsubscribe = encode_unsubscribe_v5\<rparr>
      else
        \<lparr>protocol = v, is_mqtt5 = False,
         decode_puback = decode_puback_v311, decode_pubrec = decode_pubrec_v311,
         decode_pubrel = decode_pubrel_v311, decode_pubcomp = decode_pubcomp_v311,
         encode_pubrel = encode_pubrel_v311, decode_connack = decode_connack_v311,
         decode_suback = decode_suback_v311, decode_unsuback = decode_unsuback_v311,
         decode_disconnect = decode_disconnect_v311, decode_auth = auth_requires_v5,
         pingreq_frame = encode_pingreq, bound_encode_disconnect = encode_disconnect_v311,
         bound_encode_publish_item = encode_publish_item_v311,
         encode_subscribe = encode_subscribe_v311, encode_unsubscribe = encode_unsubscribe_v311\<rparr>)"

text \<open>
  Binding the codec once is the same as dispatching on the version at every call: for both versions
  the bound decoders and encoders give exactly what the packet classes give for that version; only
  the refusal of properties before MQTT 5, which the PUBLISH, SUBSCRIBE and UNSUBSCRIBE classes add, is left to the
  session that calls the bound encoder.
\<close>

theorem bind_codec_agrees:
  "mk_ack (decode_puback (bind_codec v) rest) = PubAckPacket_decode rest v
   \<and> mk_ack (decode_pubrec (bind_codec v) rest) = PubRecPacket_decode rest v
   \<and> mk_ack (decode_pubrel (bind_codec v) rest) = PubRelPacket_decode rest v
   \<and> mk_ack (decode_pubcomp (bind_codec v) rest) = PubCompPacket_decode rest v
   \<and> encode_pubrel (bind_codec v) mid reason props = PubRelPacket_encode \<lparr>ack_mid = mid, ack_reason = reason, ack_properties = props\<rparr> v
   \<and> map_sum id (\<lambda>(sp, r, p). \<lparr>session_present = sp, connack_reason = r, connack_properties = p\<rparr>) (decode_connack (bind_codec v) rest)
       = ConnAckPacket_decode rest v
   \<and> mk_suback (decode_suback (bind_codec v) rest) = SubAckPacket_decode rest v
   \<and> mk_suback (decode_unsuback (bind_codec v) rest) = UnsubAckPacket_decode rest v
   \<and> mk_control (decode_disconnect (bind_codec v) rest) = DisconnectPacket_decode rest v
   \<and> mk_control (decode_auth (bind_codec v) rest) = AuthPacket_decode rest v
   \<and> bound_encode_disconnect (bind_codec v) reason props = encode_disconnect reason v props
   \<and> encode_publish_item topic payload qos retain dup pmid props v tb pb
       = (if v = MQTTv311 \<and> props_bool props then Inl ProtocolError
          else bound_encode_publish_item (bind_codec v) topic payload qos retain dup pmid props tb pb)
   \<and> SubscribePacket_encode \<lparr>sp_mid = mid, sp_subscriptions = subs, sp_properties = props\<rparr> v
       = (if v = MQTTv311 \<and> props_bool props then Inl ProtocolError else encode_subscribe (bind_codec v) mid subs props)
   \<and> UnsubscribePacket_encode \<lparr>up_mid = mid, up_topics = topics, up_properties = props\<rparr> v
       = (if v = MQTTv311 \<and> props_bool props then Inl ProtocolError else encode_unsubscribe (bind_codec v) mid topics props)
   \<and> is_mqtt5 (bind_codec v) = (v = MQTTv5)"
  by (cases v) (auto simp: bind_codec_def PubAckPacket_decode_def PubRecPacket_decode_def PubRelPacket_decode_def PubCompPacket_decode_def
      PubRelPacket_encode_def ConnAckPacket_decode_def SubAckPacket_decode_def UnsubAckPacket_decode_def DisconnectPacket_decode_def
      AuthPacket_decode_def auth_requires_v5_def mk_control_def encode_disconnect_def encode_publish_item_def SubscribePacket_encode_def
      UnsubscribePacket_encode_def rbind_def map_sum_def split: sum.splits prod.splits)

end
