(* ===== verification/Settings.thy ===== *)
theory Settings
  imports Bindings
begin

text \<open>
  The engine's configuration and what a CONNACK negotiates: \<^verbatim>\<open>src/src/mqttium/protocol/config.py\<close> and
  \<^verbatim>\<open>src/src/mqttium/protocol/negotiated.py\<close>.
\<close>

subsection \<open>Configuration\<close>

record engine_config =
  cfg_client_id :: pystr
  cfg_protocol :: protocol_version
  cfg_clean_start :: bool
  cfg_keepalive :: int
  cfg_username :: "pystr option"
  cfg_password :: "bytes option"
  max_inbound_inflight :: int
  max_inbound_inflight_bytes :: "int option"
  max_outbound_inflight :: "int option"
  max_unacknowledged_messages :: "int option"
  max_unacknowledged_bytes :: "int option"
  cfg_connect_properties :: "properties option"
  cfg_will :: "message option"
  cfg_will_properties :: "properties option"
  cfg_maximum_packet_size :: "int option"
  cfg_topic_alias_maximum :: int
  manual_ack :: bool
  accept_auth :: bool

definition validate_bounds :: "engine_config \<Rightarrow> unit result" where
  "validate_bounds c =
     (if \<not> (1 \<le> max_inbound_inflight c \<and> max_inbound_inflight c \<le> 65535) then Inl ValueError
      else if (case max_outbound_inflight c of None \<Rightarrow> False | Some n \<Rightarrow> \<not> (1 \<le> n \<and> n \<le> 65535)) then Inl ValueError
      else if (\<exists>limit \<in> set [max_unacknowledged_messages c, max_unacknowledged_bytes c, max_inbound_inflight_bytes c].
                 case limit of None \<Rightarrow> False | Some n \<Rightarrow> n < 0) then Inl ValueError
      else if (case cfg_maximum_packet_size c of None \<Rightarrow> False | Some n \<Rightarrow> \<not> (2 \<le> n \<and> n \<le> 268435460)) then Inl ValueError
      else if \<not> (0 \<le> cfg_topic_alias_maximum c \<and> cfg_topic_alias_maximum c \<le> 65535) then Inl ValueError
      else Inr ())"

definition refuse_mqtt5_options :: "engine_config \<Rightarrow> unit result" where
  "refuse_mqtt5_options c =
     (if props_bool (cfg_connect_properties c) then Inl ProtocolError
      else if props_bool (cfg_will_properties c) then Inl ProtocolError
      else if cfg_topic_alias_maximum c \<noteq> 0 then Inl ProtocolError
      else if accept_auth c then Inl ProtocolError
      else Inr ())"

definition reserved_connect_names :: "string list" where
  "reserved_connect_names = [''receive_maximum'', ''maximum_packet_size'', ''topic_alias_maximum'']"

text \<open>\<^verbatim>\<open>__post_init__\<close>: the configuration is returned unchanged when every check passes. The protocol check has
  nothing to refuse among the two members of the enumeration.\<close>

definition mk_config :: "engine_config \<Rightarrow> engine_config result" where
  "mk_config c =
     (if \<not> (0 \<le> cfg_keepalive c \<and> cfg_keepalive c \<le> 65535) then Inl ValueError
      else rbind (validate_bounds c) (\<lambda>_.
        rbind (if cfg_protocol c \<noteq> MQTTv5 then refuse_mqtt5_options c
               else if props_bool (cfg_will_properties c) then
                 rbind (encode_properties (cfg_will_properties c) ''WILL'') (\<lambda>_. Inr ())
               else Inr ()) (\<lambda>_.
          if (case cfg_connect_properties c of None \<Rightarrow> False
              | Some p \<Rightarrow> (\<exists>name \<in> set reserved_connect_names. name \<in> set (map fst (prop_values p))))
          then Inl ProtocolError else Inr c)))"

subsection \<open>Negotiated settings\<close>

text \<open>
  A CONNACK table comes from the decoder, which gives each name a value of its declared type; the
  lookups below read that type (\<open>decoded_int\<close> and \<open>decoded_str\<close> below show that nothing is lost).
\<close>

definition get_int :: "properties option \<Rightarrow> string \<Rightarrow> int option" where
  "get_int props name = (case props of None \<Rightarrow> None
     | Some p \<Rightarrow> (case props_get p name of Some (VInt n) \<Rightarrow> Some n | _ \<Rightarrow> None))"

definition get_str :: "properties option \<Rightarrow> string \<Rightarrow> pystr option" where
  "get_str props name = (case props of None \<Rightarrow> None
     | Some p \<Rightarrow> (case props_get p name of Some (VStr s) \<Rightarrow> Some s | _ \<Rightarrow> None))"

definition int_or :: "int \<Rightarrow> int option \<Rightarrow> int" where
  "int_or d x = (case x of None \<Rightarrow> d | Some n \<Rightarrow> n)"

record negotiated_settings =
  receive_maximum :: int
  maximum_packet_size :: "int option"
  maximum_qos :: int
  retain_available :: bool
  topic_alias_maximum :: int
  server_keep_alive :: "int option"
  assigned_client_identifier :: "pystr option"
  session_expiry_interval :: "int option"
  wildcard_subscription_available :: bool
  shared_subscription_available :: bool
  subscription_identifier_available :: bool
  server_reference :: "pystr option"
  response_information :: "pystr option"

definition default_negotiated :: negotiated_settings where
  "default_negotiated =
     \<lparr>receive_maximum = 65535, maximum_packet_size = None, maximum_qos = 2, retain_available = True,
      topic_alias_maximum = 0, server_keep_alive = None, assigned_client_identifier = None,
      session_expiry_interval = None, wildcard_subscription_available = True,
      shared_subscription_available = True, subscription_identifier_available = True,
      server_reference = None, response_information = None\<rparr>"

definition from_connack :: "properties option \<Rightarrow> int option \<Rightarrow> negotiated_settings" where
  "from_connack props requested_session_expiry =
     \<lparr>receive_maximum = int_or 65535 (get_int props ''receive_maximum''),
      maximum_packet_size = get_int props ''maximum_packet_size'',
      maximum_qos = int_or 2 (get_int props ''maximum_qos''),
      retain_available = (int_or 1 (get_int props ''retain_available'') \<noteq> 0),
      topic_alias_maximum = int_or 0 (get_int props ''topic_alias_maximum''),
      server_keep_alive = get_int props ''server_keep_alive'',
      assigned_client_identifier =
        (case get_str props ''assigned_client_identifier'' of None \<Rightarrow> None | Some s \<Rightarrow> if s = [] then None else Some s),
      session_expiry_interval =
        (case get_int props ''session_expiry_interval'' of None \<Rightarrow> requested_session_expiry | Some n \<Rightarrow> Some n),
      wildcard_subscription_available = (int_or 1 (get_int props ''wildcard_subscription_available'') \<noteq> 0),
      shared_subscription_available = (int_or 1 (get_int props ''shared_subscription_available'') \<noteq> 0),
      subscription_identifier_available = (int_or 1 (get_int props ''subscription_identifier_available'') \<noteq> 0),
      server_reference = get_str props ''server_reference'',
      response_information = get_str props ''response_information''\<rparr>"

subsection \<open>Decoded tables have the declared types\<close>

lemma table_value_valid:
  assumes "valid_table packet (prop_values p)" "props_get p name = Some v" "BY_NAME name = Some spec" "\<not> multiple spec"
  shows "item_valid spec v"
proof -
  have "(name, v) \<in> set (prop_values p)" using assms(2) by (auto simp: props_get_def dest: map_of_SomeD)
  with assms(1) have "entry_valid packet (name, v)" by (auto simp: valid_table_def list_all_iff)
  with assms(3,4) show ?thesis
    by (auto simp: entry_valid_def entry_items_def collects_def split: option.splits prop_value.splits)
qed

lemma spec_of_name:
  "BY_NAME ''receive_maximum'' = Some ((mk_spec 0x21 ''receive_maximum'' U16 [''CONNECT'', ''CONNACK''])\<lparr>nonzero := True\<rparr>)"
  "BY_NAME ''maximum_packet_size'' = Some ((mk_spec 0x27 ''maximum_packet_size'' U32 [''CONNECT'', ''CONNACK''])\<lparr>nonzero := True\<rparr>)"
  "BY_NAME ''maximum_qos'' = Some ((mk_spec 0x24 ''maximum_qos'' BYTE [''CONNACK''])\<lparr>zero_one := True\<rparr>)"
  "BY_NAME ''topic_alias_maximum'' = Some (mk_spec 0x22 ''topic_alias_maximum'' U16 [''CONNECT'', ''CONNACK''])"
  "BY_NAME ''server_keep_alive'' = Some (mk_spec 0x13 ''server_keep_alive'' U16 [''CONNACK''])"
  by (simp_all add: BY_NAME_def SPECS_def mk_spec_def)

lemma item_int:
  assumes "item_valid spec v"
  shows "spec_type spec = BYTE \<Longrightarrow> \<exists>n. v = VInt n \<and> 0 \<le> n \<and> n \<le> 255"
    and "spec_type spec = U16 \<Longrightarrow> \<exists>n. v = VInt n \<and> 0 \<le> n \<and> n \<le> 65535"
    and "spec_type spec = U32 \<Longrightarrow> \<exists>n. v = VInt n \<and> 0 \<le> n \<and> n \<le> 4294967295"
    and "nonzero spec \<Longrightarrow> v \<noteq> VInt 0" and "zero_one spec \<Longrightarrow> v = VInt n \<Longrightarrow> n \<in> {0, 1}"
  using assms by (auto simp: item_valid_def is_ok_iff encode_value_eq_Inr pack_u16_def pack_u32_def check_item_def split: if_splits)

lemma decoded_int:
  assumes "valid_table packet (prop_values p)" "BY_NAME name = Some spec" "\<not> multiple spec" "spec_type spec \<in> {BYTE, U16, U32}"
  shows "props_get p name = map_option VInt (get_int (Some p) name)"
  using table_value_valid [OF assms(1) _ assms(2,3)] item_int(1-3) assms(4) by (fastforce simp: get_int_def split: option.splits)

text \<open>
  What the engine works with after a successful CONNACK is within the protocol's limits for every
  property table the decoder lets through: a send window of 1..65535, a packet size limit of at least 1
  when there is one, a maximum QoS of 0, 1 or 2, an alias maximum and keep-alive of 16 bits; a
  limit the broker omits takes the protocol's default, and its session expiry defaults to the requested one.
\<close>

theorem negotiated_bounds:
  fixes requested :: "int option"
  assumes "decode_properties buf off ''CONNACK'' = Inr (p, q)"
  defines "n \<equiv> from_connack (Some p) requested"
  shows "1 \<le> receive_maximum n \<and> receive_maximum n \<le> 65535
    \<and> (\<forall>k. maximum_packet_size n = Some k \<longrightarrow> 1 \<le> k \<and> k \<le> 4294967295)
    \<and> maximum_qos n \<in> {0, 1, 2}
    \<and> 0 \<le> topic_alias_maximum n \<and> topic_alias_maximum n \<le> 65535
    \<and> (\<forall>k. server_keep_alive n = Some k \<longrightarrow> 0 \<le> k \<and> k \<le> 65535)
    \<and> (props_get p ''session_expiry_interval'' = None \<longrightarrow> session_expiry_interval n = requested)
    \<and> from_connack None requested = default_negotiated\<lparr>session_expiry_interval := requested\<rparr>"
proof -
  have v: "valid_table ''CONNACK'' (prop_values p)" using decode_properties_valid [OF assms(1)] by blast
  note item = table_value_valid [OF v _ spec_of_name(1)] table_value_valid [OF v _ spec_of_name(2)] table_value_valid [OF v _ spec_of_name(3)]
    table_value_valid [OF v _ spec_of_name(4)] table_value_valid [OF v _ spec_of_name(5)]
  have rm: "1 \<le> k \<and> k \<le> 65535" if "props_get p ''receive_maximum'' = Some (VInt k)" for k
    using item_int(2,4) [OF item(1) [OF that]] by (auto simp: mk_spec_def)
  have ps: "1 \<le> k \<and> k \<le> 4294967295" if "props_get p ''maximum_packet_size'' = Some (VInt k)" for k
    using item_int(3,4) [OF item(2) [OF that]] by (auto simp: mk_spec_def)
  have mq: "k \<in> {0, 1}" if "props_get p ''maximum_qos'' = Some (VInt k)" for k
    using item_int(5) [OF item(3) [OF that]] by (auto simp: mk_spec_def)
  have ta: "0 \<le> k \<and> k \<le> 65535" if "props_get p ''topic_alias_maximum'' = Some (VInt k)" for k
    using item_int(2) [OF item(4) [OF that]] by (auto simp: mk_spec_def)
  have ka: "0 \<le> k \<and> k \<le> 65535" if "props_get p ''server_keep_alive'' = Some (VInt k)" for k
    using item_int(2) [OF item(5) [OF that]] by (auto simp: mk_spec_def)
  have gi: "get_int (Some p) name = Some k \<longleftrightarrow> props_get p name = Some (VInt k)" for name k
    by (auto simp: get_int_def split: option.splits prop_value.splits)
  have "1 \<le> receive_maximum n \<and> receive_maximum n \<le> 65535"
    using rm by (simp add: n_def from_connack_def int_or_def gi split: option.split)
  moreover have "\<forall>k. maximum_packet_size n = Some k \<longrightarrow> 1 \<le> k \<and> k \<le> 4294967295"
    using ps by (simp add: n_def from_connack_def gi)
  moreover have "maximum_qos n \<in> {0, 1, 2}"
    using mq by (auto simp: n_def from_connack_def int_or_def gi split: option.split)
  moreover have "0 \<le> topic_alias_maximum n \<and> topic_alias_maximum n \<le> 65535"
    using ta by (simp add: n_def from_connack_def int_or_def gi split: option.split)
  moreover have "\<forall>k. server_keep_alive n = Some k \<longrightarrow> 0 \<le> k \<and> k \<le> 65535"
    using ka by (simp add: n_def from_connack_def gi)
  moreover have "props_get p ''session_expiry_interval'' = None \<longrightarrow> session_expiry_interval n = requested"
    by (simp add: n_def from_connack_def get_int_def)
  moreover have "from_connack None requested = default_negotiated\<lparr>session_expiry_interval := requested\<rparr>"
    by (simp add: from_connack_def default_negotiated_def int_or_def get_int_def get_str_def)
  ultimately show ?thesis by blast
qed

theorem negotiated_bounds_witness:
  "receive_maximum (from_connack (Some (mk_properties [(''receive_maximum'', VInt 20)])) None) \<le> 65535"
proof -
  have spec: "BY_ID 33 = Some ((mk_spec 0x21 ''receive_maximum'' U16 [''CONNECT'', ''CONNACK''])\<lparr>nonzero := True\<rparr>)"
    by (simp add: BY_ID_def SPECS_def mk_spec_def)
  have "decode_properties [3, 0x21, 0, 20] 0 ''CONNACK'' = Inr (mk_properties [(''receive_maximum'', VInt 20)], 4)"
    by (simp add: decode_properties_def decode_vbi_def decode_props_loop.simps spec mk_spec_def decode_value_def
        wrap_value_def unpack_u16_value check_item_def add_seen_def in_seen_def)
  from negotiated_bounds [OF this] show ?thesis by blast
qed

text \<open>
  A configuration the engine accepts is usable as it stands: every limit is in its range, an MQTT 3.1.1
  client carries no MQTT 5 option, the properties of an MQTT 5 will can be encoded, and the limits that have
  dedicated arguments are not smuggled in as CONNECT properties. The check never alters the configuration.
\<close>

theorem config_accepted:
  "mk_config c = Inr d \<longleftrightarrow> d = c
    \<and> 0 \<le> cfg_keepalive c \<and> cfg_keepalive c \<le> 65535 \<and> 1 \<le> max_inbound_inflight c \<and> max_inbound_inflight c \<le> 65535
    \<and> (\<forall>n. max_outbound_inflight c = Some n \<longrightarrow> 1 \<le> n \<and> n \<le> 65535)
    \<and> (\<forall>n. max_unacknowledged_messages c = Some n \<longrightarrow> 0 \<le> n) \<and> (\<forall>n. max_unacknowledged_bytes c = Some n \<longrightarrow> 0 \<le> n)
    \<and> (\<forall>n. max_inbound_inflight_bytes c = Some n \<longrightarrow> 0 \<le> n)
    \<and> (\<forall>n. cfg_maximum_packet_size c = Some n \<longrightarrow> 2 \<le> n \<and> n \<le> 268435460)
    \<and> 0 \<le> cfg_topic_alias_maximum c \<and> cfg_topic_alias_maximum c \<le> 65535
    \<and> (if cfg_protocol c = MQTTv311
        then \<not> props_bool (cfg_connect_properties c) \<and> \<not> props_bool (cfg_will_properties c) \<and> cfg_topic_alias_maximum c = 0 \<and> \<not> accept_auth c
        else is_ok (encode_properties (cfg_will_properties c) ''WILL''))
    \<and> (\<forall>p. cfg_connect_properties c = Some p \<longrightarrow> set reserved_connect_names \<inter> fst ` set (prop_values p) = {})"
proof -
  have w: "is_ok (encode_properties (cfg_will_properties c) ''WILL'')" if "\<not> props_bool (cfg_will_properties c)"
    using that by (auto simp: encode_properties_def split: option.splits)
  have b: "validate_bounds c = Inr u \<longleftrightarrow> 1 \<le> max_inbound_inflight c \<and> max_inbound_inflight c \<le> 65535
    \<and> (\<forall>n. max_outbound_inflight c = Some n \<longrightarrow> 1 \<le> n \<and> n \<le> 65535)
    \<and> (\<forall>n. max_unacknowledged_messages c = Some n \<longrightarrow> 0 \<le> n) \<and> (\<forall>n. max_unacknowledged_bytes c = Some n \<longrightarrow> 0 \<le> n)
    \<and> (\<forall>n. max_inbound_inflight_bytes c = Some n \<longrightarrow> 0 \<le> n)
    \<and> (\<forall>n. cfg_maximum_packet_size c = Some n \<longrightarrow> 2 \<le> n \<and> n \<le> 268435460)
    \<and> 0 \<le> cfg_topic_alias_maximum c \<and> cfg_topic_alias_maximum c \<le> 65535" for u
    unfolding validate_bounds_def by (auto split: option.splits)
  have p: "(case cfg_connect_properties c of None \<Rightarrow> False | Some p \<Rightarrow> (\<exists>name \<in> set reserved_connect_names. name \<in> set (map fst (prop_values p))))
    \<longleftrightarrow> \<not> (\<forall>p. cfg_connect_properties c = Some p \<longrightarrow> set reserved_connect_names \<inter> fst ` set (prop_values p) = {})"
    by (auto split: option.splits)
  show ?thesis
    unfolding mk_config_def p using w
    by (cases "cfg_protocol c") (auto simp: b refuse_mqtt5_options_def is_ok_iff split: if_splits)
qed

theorem config_accepted_witness:
  "mk_config \<lparr>cfg_client_id = [97], cfg_protocol = MQTTv5, cfg_clean_start = False, cfg_keepalive = 60, cfg_username = None, cfg_password = None,
      max_inbound_inflight = 65535, max_inbound_inflight_bytes = Some 67108864, max_outbound_inflight = None,
      max_unacknowledged_messages = Some 10000, max_unacknowledged_bytes = Some 67108864, cfg_connect_properties = None, cfg_will = None,
      cfg_will_properties = None, cfg_maximum_packet_size = None, cfg_topic_alias_maximum = 16, manual_ack = False, accept_auth = True\<rparr>
   = Inr \<lparr>cfg_client_id = [97], cfg_protocol = MQTTv5, cfg_clean_start = False, cfg_keepalive = 60, cfg_username = None, cfg_password = None,
      max_inbound_inflight = 65535, max_inbound_inflight_bytes = Some 67108864, max_outbound_inflight = None,
      max_unacknowledged_messages = Some 10000, max_unacknowledged_bytes = Some 67108864, cfg_connect_properties = None, cfg_will = None,
      cfg_will_properties = None, cfg_maximum_packet_size = None, cfg_topic_alias_maximum = 16, manual_ack = False, accept_auth = True\<rparr>"
  unfolding config_accepted by (simp add: encode_properties_def)

end
