(* ===== verification/Reconnect.thy ===== *)
theory Reconnect
  imports Complex_Main Enums
begin

text \<open>
  The reconnect policy, \<^verbatim>\<open>src/src/mqttium/protocol/reconnect.py\<close>. Delays are real numbers; the product of
  two floats is the parameter \<open>fmul\<close>, because rounding is the platform's, and the draw of
  \<^verbatim>\<open>random.uniform(0.5, 1.0)\<close> is the argument \<open>jitter\<close>. Properties that involve a product state what they
  use of it.
\<close>

definition V311_TERMINAL :: "int set" where
  "V311_TERMINAL = {1, 2, 4, 5}"

definition V5_TERMINAL :: "int set" where
  "V5_TERMINAL = {0x81, 0x82, 0x84, 0x85, 0x86, 0x87, 0x8A, 0x8C, 0x8E, 0x90, 0x95, 0x99, 0x9A, 0x9B, 0x9C, 0x9D}"

record reconnect_policy =
  initial_delay :: real
  multiplier :: real
  max_delay :: real
  max_retries :: "int option"
  stable_after :: real
  retry_refused :: bool

text \<open>\<^verbatim>\<open>__post_init__\<close>; the finiteness checks have nothing to refuse among the reals.\<close>

definition mk_policy :: "reconnect_policy \<Rightarrow> reconnect_policy result" where
  "mk_policy p =
     (if initial_delay p < 0 then Inl ValueError
      else if multiplier p < 1 then Inl ValueError
      else if max_delay p < initial_delay p then Inl ValueError
      else if max_retries p \<noteq> None \<and> the (max_retries p) < 0 then Inl ValueError
      else if stable_after p < 0 then Inl ValueError
      else Inr p)"

record reconnect_state =
  policy :: "reconnect_policy option"
  attempt :: nat
  current_delay :: real

definition first_delay :: "reconnect_policy option \<Rightarrow> real" where
  "first_delay pol = (case pol of Some p \<Rightarrow> initial_delay p | None \<Rightarrow> 0)"

definition new_reconnect :: "reconnect_policy option \<Rightarrow> reconnect_state" where
  "new_reconnect pol = \<lparr>policy = pol, attempt = 0, current_delay = first_delay pol\<rparr>"

definition reconnect_enabled :: "reconnect_state \<Rightarrow> bool" where
  "reconnect_enabled s = (policy s \<noteq> None)"

definition reconnect_reset :: "reconnect_state \<Rightarrow> reconnect_state" where
  "reconnect_reset s = s\<lparr>attempt := 0, current_delay := first_delay (policy s)\<rparr>"

definition next_delay :: "(real \<Rightarrow> real \<Rightarrow> real) \<Rightarrow> real \<Rightarrow> reconnect_state \<Rightarrow> real result \<times> reconnect_state" where
  "next_delay fmul jitter s =
     (case policy s of
        None \<Rightarrow> (Inl AssertionError, s)
      | Some pol \<Rightarrow>
          (let base = min (current_delay s) (max_delay pol);
               delay = fmul jitter base
           in (Inr delay,
               s\<lparr>attempt := attempt s + 1,
                 current_delay := min (fmul (current_delay s) (multiplier pol)) (max_delay pol)\<rparr>)))"

definition should_retry :: "reconnect_state \<Rightarrow> int option \<Rightarrow> protocol_version \<Rightarrow> bool \<Rightarrow> bool" where
  "should_retry s reason_code v refused =
     (case policy s of
        None \<Rightarrow> False
      | Some pol \<Rightarrow>
          if max_retries pol \<noteq> None \<and> int (attempt s) \<ge> the (max_retries pol) then False
          else case reason_code of
            None \<Rightarrow> True
          | Some reason \<Rightarrow>
              if refused \<and> retry_refused pol then True
              else if v = MQTTv5 then reason \<notin> V5_TERMINAL
              else reason \<notin> V311_TERMINAL)"

definition is_terminal_connack :: "int \<Rightarrow> protocol_version \<Rightarrow> bool" where
  "is_terminal_connack reason_code v =
     (if v = MQTTv5 then reason_code \<in> V5_TERMINAL else reason_code \<in> V311_TERMINAL)"

subsection \<open>Bounded backoff\<close>

text \<open>What a rounded product of floats keeps of the exact one: it is never below the first factor when
  the second is at least 1, and stays between 0 and the second when the first is between 0 and 1.\<close>

definition rounded_product :: "(real \<Rightarrow> real \<Rightarrow> real) \<Rightarrow> bool" where
  "rounded_product fmul \<longleftrightarrow> (\<forall>x m. 0 \<le> x \<longrightarrow> 1 \<le> m \<longrightarrow> x \<le> fmul x m) \<and> (\<forall>j b. 0 \<le> j \<longrightarrow> j \<le> 1 \<longrightarrow> 0 \<le> b \<longrightarrow> 0 \<le> fmul j b \<and> fmul j b \<le> b)"

lemma rounded_growth: "rounded_product fmul \<Longrightarrow> 0 \<le> x \<Longrightarrow> 1 \<le> m \<Longrightarrow> x \<le> fmul x m"
  by (simp add: rounded_product_def)

lemma rounded_jitter: "rounded_product fmul \<Longrightarrow> 0 \<le> j \<Longrightarrow> j \<le> 1 \<Longrightarrow> 0 \<le> b \<Longrightarrow> 0 \<le> fmul j b \<and> fmul j b \<le> b"
  by (simp add: rounded_product_def)

text \<open>A run of failed attempts: the delays drawn, one per jitter, and the state after them.\<close>

fun delays :: "(real \<Rightarrow> real \<Rightarrow> real) \<Rightarrow> real list \<Rightarrow> reconnect_state \<Rightarrow> real list \<times> reconnect_state" where
  "delays fmul [] s = ([], s)"
| "delays fmul (j # js) s =
     (case next_delay fmul j s of
        (Inl e, s') \<Rightarrow> ([], s')
      | (Inr d, s') \<Rightarrow> (let (ds, s'') = delays fmul js s' in (d # ds, s'')))"

lemma delays_append:
  assumes "policy s \<noteq> None"
  shows "delays fmul (js @ ks) s = (let (ds, t) = delays fmul js s; (es, u) = delays fmul ks t in (ds @ es, u))"
  using assms
proof (induction js arbitrary: s)
  case (Cons j js)
  obtain d t where n: "next_delay fmul j s = (Inr d, t)" "policy t = policy s" using Cons.prems by (auto simp: next_delay_def Let_def)
  with Cons show ?case by (simp add: split_beta Let_def)
qed (simp add: split_beta)

lemma delays_policy: "policy (snd (delays fmul js s)) = policy s"
proof (induction js arbitrary: s)
  case (Cons j js)
  show ?case
  proof (cases "policy s")
    case None
    then show ?thesis by (simp add: next_delay_def)
  next
    case (Some pol)
    then obtain d t where n: "next_delay fmul j s = (Inr d, t)" "policy t = policy s" by (auto simp: next_delay_def Let_def)
    with Cons [of t] show ?thesis by (simp add: split_beta)
  qed
qed simp

lemma delays_run:
  assumes "mk_policy pol = Inr pol" "rounded_product fmul" "policy s = Some pol"
    and "initial_delay pol \<le> current_delay s" "current_delay s \<le> max_delay pol"
    and "\<forall>j \<in> set js. 1 / 2 \<le> j \<and> j \<le> 1"
  shows "length (fst (delays fmul js s)) = length js \<and> (\<forall>d \<in> set (fst (delays fmul js s)). 0 \<le> d \<and> d \<le> max_delay pol)
    \<and> attempt (snd (delays fmul js s)) = attempt s + length js
    \<and> current_delay s \<le> current_delay (snd (delays fmul js s)) \<and> current_delay (snd (delays fmul js s)) \<le> max_delay pol"
  using assms(3-6)
proof (induction js arbitrary: s)
  case Nil
  then show ?case by simp
next
  case (Cons j js)
  have pol: "0 \<le> initial_delay pol" "1 \<le> multiplier pol" using assms(1) by (auto simp: mk_policy_def split: if_splits)
  have cur: "0 \<le> current_delay s" using pol(1) Cons.prems(2) by simp
  let ?s = "s\<lparr>attempt := attempt s + 1, current_delay := min (fmul (current_delay s) (multiplier pol)) (max_delay pol)\<rparr>"
  have up: "current_delay s \<le> current_delay ?s" "current_delay ?s \<le> max_delay pol"
    using rounded_growth [OF assms(2) cur pol(2)] Cons.prems(3) by simp_all
  have j: "0 \<le> j" "j \<le> 1" using Cons.prems(4) by auto
  have d: "0 \<le> fmul j (current_delay s)" "fmul j (current_delay s) \<le> max_delay pol"
    using rounded_jitter [OF assms(2) j cur] Cons.prems(3) by simp_all
  have n: "next_delay fmul j s = (Inr (fmul j (current_delay s)), ?s)"
    using Cons.prems(1,3) by (simp add: next_delay_def min_absorb1 Let_def)
  have "initial_delay pol \<le> current_delay ?s" using Cons.prems(2) up(1) by linarith
  from Cons.IH [of ?s, OF _ this up(2)] Cons.prems(1,4)
  have ih: "length (fst (delays fmul js ?s)) = length js \<and> (\<forall>d \<in> set (fst (delays fmul js ?s)). 0 \<le> d \<and> d \<le> max_delay pol)
    \<and> attempt (snd (delays fmul js ?s)) = attempt ?s + length js
    \<and> current_delay ?s \<le> current_delay (snd (delays fmul js ?s)) \<and> current_delay (snd (delays fmul js ?s)) \<le> max_delay pol" by simp
  then show ?case using n d up(1) by (auto simp: split_beta Let_def)
qed

text \<open>The state after the first \<open>n\<close> attempts of a run, and the base delay of the attempt that follows.\<close>

definition after_attempts :: "(real \<Rightarrow> real \<Rightarrow> real) \<Rightarrow> real list \<Rightarrow> reconnect_state \<Rightarrow> nat \<Rightarrow> reconnect_state" where
  "after_attempts fmul js s n = snd (delays fmul (take n js) s)"

lemma after_attempts_run:
  assumes "mk_policy pol = Inr pol" "rounded_product fmul" "\<forall>j \<in> set js. 1 / 2 \<le> j \<and> j \<le> 1" "m \<le> n" "n \<le> length js"
  defines "t \<equiv> after_attempts fmul js (new_reconnect (Some pol))"
  shows "policy (t n) = Some pol" "attempt (t n) = n" "initial_delay pol \<le> current_delay (t n)" "current_delay (t n) \<le> max_delay pol" "current_delay (t m) \<le> current_delay (t n)"
proof -
  let ?s = "new_reconnect (Some pol)"
  have p: "initial_delay pol \<le> max_delay pol" using assms(1) by (auto simp: mk_policy_def split: if_splits)
  have s: "policy ?s = Some pol" "initial_delay pol \<le> current_delay ?s" "current_delay ?s \<le> max_delay pol" "attempt ?s = 0" "current_delay ?s = initial_delay pol"
    using p by (simp_all add: new_reconnect_def first_delay_def)
  have sub: "\<forall>j \<in> set (take k js). 1 / 2 \<le> j \<and> j \<le> 1" for k using assms(3) set_take_subset [of k js] by blast
  note run = delays_run [OF assms(1,2) s(1-3) sub]
  show pol: "policy (t n) = Some pol" by (simp add: t_def after_attempts_def delays_policy s(1))
  show "attempt (t n) = n" "initial_delay pol \<le> current_delay (t n)" "current_delay (t n) \<le> max_delay pol"
    using run [of n] s(4,5) assms(5) by (simp_all add: t_def after_attempts_def)
  have tm: "policy (t m) = Some pol" "initial_delay pol \<le> current_delay (t m)" "current_delay (t m) \<le> max_delay pol"
    using run [of m] s(5) by (simp_all add: t_def after_attempts_def delays_policy s(1))
  have "take n js = take m js @ take (n - m) (drop m js)" using assms(4) by (metis le_add_diff_inverse take_add)
  then have step: "t n = snd (delays fmul (take (n - m) (drop m js)) (t m))"
    using delays_append [of ?s fmul "take m js"] s(1) by (simp add: t_def after_attempts_def split_beta Let_def)
  have "\<forall>j \<in> set (take (n - m) (drop m js)). 1 / 2 \<le> j \<and> j \<le> 1"
    using assms(3) set_take_subset [of "n - m" "drop m js"] set_drop_subset [of m js] by blast
  from delays_run [OF assms(1,2) tm this] show "current_delay (t m) \<le> current_delay (t n)" unfolding step by blast
qed

lemma delays_drawn:
  assumes "policy s \<noteq> None" "n < length js"
  shows "fst (delays fmul js s) ! n = projr (fst (next_delay fmul (js ! n) (after_attempts fmul js s n)))"
  using assms
proof (induction js arbitrary: s n)
  case (Cons j js)
  obtain d t where n: "next_delay fmul j s = (Inr d, t)" "policy t = policy s" using Cons.prems(1) by (auto simp: next_delay_def Let_def)
  show ?case
  proof (cases n)
    case 0
    then show ?thesis using n(1) by (simp add: after_attempts_def split_beta)
  next
    case (Suc k)
    then show ?thesis using Cons.IH [of t k] Cons.prems n by (simp add: after_attempts_def split_beta)
  qed
qed simp

text \<open>
  C38. A run of reconnection attempts under an accepted policy: attempt \<open>n\<close> waits the jittered base delay of its state, within [0, max_delay]; the base is never lower than
  that of any earlier attempt of the run, starts at initial_delay and never exceeds max_delay; and each attempt is counted once, so with a
  retry limit the policy allows a further attempt exactly while fewer were made. A reset starts over from any point of the run.
\<close>

theorem reconnect_bounded:
  assumes "mk_policy pol = Inr pol" "rounded_product fmul" "\<forall>j \<in> set js. 1 / 2 \<le> j \<and> j \<le> 1"
  defines "ds \<equiv> fst (delays fmul js (new_reconnect (Some pol)))" and "t \<equiv> after_attempts fmul js (new_reconnect (Some pol))"
  shows "length ds = length js
    \<and> (\<forall>n < length js. ds ! n = fmul (js ! n) (current_delay (t n)) \<and> 0 \<le> ds ! n \<and> ds ! n \<le> max_delay pol)
    \<and> current_delay (t 0) = initial_delay pol
    \<and> (\<forall>m n. m \<le> n \<longrightarrow> n \<le> length js \<longrightarrow> current_delay (t m) \<le> current_delay (t n) \<and> current_delay (t n) \<le> max_delay pol)
    \<and> (\<forall>n \<le> length js. \<forall>limit. max_retries pol = Some limit \<longrightarrow> should_retry (t n) None v refused = (int n < limit))
    \<and> (\<forall>n \<le> length js. reconnect_reset (t n) = new_reconnect (Some pol))"
proof -
  let ?s = "new_reconnect (Some pol)"
  have p: "initial_delay pol \<le> max_delay pol" using assms(1) by (auto simp: mk_policy_def split: if_splits)
  have s: "policy ?s = Some pol" "initial_delay pol \<le> current_delay ?s" "current_delay ?s \<le> max_delay pol"
    using p by (simp_all add: new_reconnect_def first_delay_def)
  note all = delays_run [OF assms(1,2) s assms(3), folded ds_def]
  note at = after_attempts_run [OF assms(1-3), folded t_def]
  have draw: "ds ! n = fmul (js ! n) (current_delay (t n))" if "n < length js" for n
    using delays_drawn [of ?s n js fmul] s(1) that at(1,4) [of n n] by (simp add: ds_def t_def [symmetric] next_delay_def min_absorb1 Let_def)
  have range: "0 \<le> ds ! n \<and> ds ! n \<le> max_delay pol" if "n < length js" for n using all that by simp
  have retry: "should_retry (t n) None v refused = (int n < limit)" if "n \<le> length js" "max_retries pol = Some limit" for n limit
    using at(1,2) [of n n] that by (auto simp: should_retry_def)
  have reset: "reconnect_reset (t n) = ?s" if "n \<le> length js" for n
    using at(1) [of n n] that by (cases "t n") (simp add: reconnect_reset_def new_reconnect_def)
  have "current_delay (t 0) = initial_delay pol" by (simp add: t_def after_attempts_def new_reconnect_def first_delay_def)
  then show ?thesis using all draw range at(4,5) retry reset by auto
qed

definition sample_policy :: reconnect_policy where
  "sample_policy = \<lparr>initial_delay = 1, multiplier = 2, max_delay = 60, max_retries = Some 2, stable_after = 30, retry_refused = False\<rparr>"

theorem reconnect_bounded_witness:
  "fst (delays (*) [1/2, 1] (new_reconnect (Some sample_policy))) = [1/2, 2]
   \<and> current_delay (after_attempts (*) [1/2, 1] (new_reconnect (Some sample_policy)) 1) \<le> current_delay (after_attempts (*) [1/2, 1] (new_reconnect (Some sample_policy)) 2)
   \<and> \<not> should_retry (after_attempts (*) [1/2, 1] (new_reconnect (Some sample_policy)) 2) None MQTTv5 False"
proof -
  have "rounded_product (*)"
    unfolding rounded_product_def by (auto simp: mult_left_le_one_le mult_le_cancel_left1)
  moreover have "mk_policy sample_policy = Inr sample_policy" "max_retries sample_policy = Some 2" by (simp_all add: mk_policy_def sample_policy_def)
  moreover have "fst (delays (*) [1/2, 1] (new_reconnect (Some sample_policy))) = [1/2, 2]"
    by (simp add: next_delay_def new_reconnect_def first_delay_def sample_policy_def Let_def)
  ultimately show ?thesis using reconnect_bounded [of sample_policy "(*)" "[1/2, 1]" MQTTv5 False] by simp
qed

text \<open>
  Whether a lost connection is retried: never without a policy or past the retry limit; always when
  there is no reason code; for a CONNACK refusal also when the policy retries refusals; otherwise exactly
  when the reason is not terminal in the protocol version. In particular a session taken over
  (0x8E) or a bad user name or password ends the loop, and a busy or unavailable server does not.
\<close>

theorem should_retry_exact:
  "should_retry s reason v refused =
     (\<exists>pol. policy s = Some pol \<and> (\<forall>n. max_retries pol = Some n \<longrightarrow> int (attempt s) < n)
        \<and> (\<forall>r. reason = Some r \<longrightarrow> (refused \<and> retry_refused pol) \<or> \<not> is_terminal_connack r v))
   \<and> is_terminal_connack 0x8E MQTTv5 \<and> is_terminal_connack 0x86 MQTTv5 \<and> \<not> is_terminal_connack 0x89 MQTTv5
   \<and> \<not> is_terminal_connack 0x88 MQTTv5 \<and> is_terminal_connack 4 MQTTv311 \<and> \<not> is_terminal_connack 3 MQTTv311"
  by (auto simp: should_retry_def is_terminal_connack_def V5_TERMINAL_def V311_TERMINAL_def split: option.splits)

theorem should_retry_exact_witness:
  "should_retry (new_reconnect (Some \<lparr>initial_delay = 1, multiplier = 2, max_delay = 60, max_retries = Some 1, stable_after = 30,
     retry_refused = False\<rparr>)) (Some 0x89) MQTTv5 True"
  using should_retry_exact [of "new_reconnect (Some \<lparr>initial_delay = 1, multiplier = 2, max_delay = 60, max_retries = Some 1,
     stable_after = 30, retry_refused = False\<rparr>)" "Some 0x89" MQTTv5 True]
  by (simp add: new_reconnect_def)

end
