(* ===== verification/Store.thy ===== *)
theory Store
  imports Bindings "HOL-Library.AList"
begin

text \<open>
  The in-memory inflight store, \<^verbatim>\<open>src/src/mqttium/persistence/memory.py\<close>, and the records of
  \<^verbatim>\<open>types.py\<close> it keeps. The store keeps references: the message object that the outbound session holds in its
  queue is the object in the table, and the code mutates it through either. Message objects are therefore
  addresses into a heap, a table is an ordered dictionary from packet identifiers to addresses, and a
  generator of pages is the list of identifiers it still has to visit.
\<close>

subsection \<open>Records\<close>

record outbound_message =
  om_mid :: int
  om_topic :: pystr
  om_payload :: bytes
  om_qos :: int
  om_retain :: bool
  om_state :: outbound_state
  om_dup :: bool
  om_properties :: "properties option"
  om_encoded_publish :: "write_item option"
  om_encoded_pubrel :: "bytes option"
  om_logical_size :: int

record outbound_summary =
  os_mid :: int
  os_topic :: pystr
  os_payload_size :: nat
  os_qos :: int
  os_retain :: bool
  os_state :: outbound_state
  os_dup :: bool
  os_properties :: "properties option"
  os_logical_size :: int

definition from_message :: "outbound_message \<Rightarrow> outbound_summary" where
  "from_message m =
     \<lparr>os_mid = om_mid m, os_topic = om_topic m, os_payload_size = length (om_payload m), os_qos = om_qos m,
      os_retain = om_retain m, os_state = om_state m, os_dup = om_dup m, os_properties = om_properties m,
      os_logical_size = om_logical_size m\<rparr>"

record out_record_meta =
  orm_mid :: int
  orm_state :: outbound_state
  orm_logical_size :: int

record in_record_meta =
  irm_mid :: int
  irm_state :: inbound_state
  irm_user_acked :: bool
  irm_delivered :: bool
  irm_logical_size :: int

record inbound_message =
  im_mid :: int
  im_topic :: pystr
  im_payload :: bytes
  im_qos :: int
  im_retain :: bool
  im_state :: inbound_state
  im_delivered :: bool
  im_properties :: "properties option"
  im_user_acked :: bool
  im_logical_size :: int

subsection \<open>The store\<close>

record mem_store =
  out_tab :: "(int \<times> nat) list"
  in_tab :: "(int \<times> nat) list"
  out_heap :: "outbound_message list"
  in_heap :: "inbound_message list"

definition new_store :: mem_store where
  "new_store = \<lparr>out_tab = [], in_tab = [], out_heap = [], in_heap = []\<rparr>"

text \<open>Construction of a message object.\<close>

definition new_out :: "outbound_message \<Rightarrow> mem_store \<Rightarrow> nat \<times> mem_store" where
  "new_out m st = (length (out_heap st), st\<lparr>out_heap := out_heap st @ [m]\<rparr>)"

definition new_in :: "inbound_message \<Rightarrow> mem_store \<Rightarrow> nat \<times> mem_store" where
  "new_in m st = (length (in_heap st), st\<lparr>in_heap := in_heap st @ [m]\<rparr>)"

definition put_out :: "nat \<Rightarrow> mem_store \<Rightarrow> unit result \<times> mem_store" where
  "put_out a st =
     (let m = out_heap st ! a
      in if om_logical_size m \<le> 0 then (Inl ValueError, st)
         else (Inr (), st\<lparr>out_tab := AList.update (om_mid m) a (out_tab st)\<rparr>))"

definition get_out :: "int \<Rightarrow> mem_store \<Rightarrow> nat option" where
  "get_out mid st = map_of (out_tab st) mid"

definition delete_out :: "int \<Rightarrow> mem_store \<Rightarrow> bool \<times> mem_store" where
  "delete_out mid st = (map_of (out_tab st) mid \<noteq> None, st\<lparr>out_tab := AList.delete mid (out_tab st)\<rparr>)"

definition clear_out :: "mem_store \<Rightarrow> mem_store" where
  "clear_out st = st\<lparr>out_tab := []\<rparr>"

definition out_meta :: "int \<Rightarrow> mem_store \<Rightarrow> out_record_meta option" where
  "out_meta mid st =
     (case map_of (out_tab st) mid of
        None \<Rightarrow> None
      | Some a \<Rightarrow>
          (let m = out_heap st ! a
           in Some \<lparr>orm_mid = mid, orm_state = om_state m, orm_logical_size = om_logical_size m\<rparr>))"

definition complete_out :: "int \<Rightarrow> outbound_state \<Rightarrow> mem_store \<Rightarrow> out_record_meta option \<times> mem_store" where
  "complete_out mid expected_state st =
     (case map_of (out_tab st) mid of
        None \<Rightarrow> (None, st)
      | Some a \<Rightarrow>
          (let m = out_heap st ! a
           in if om_state m \<noteq> expected_state then (None, st)
              else
                (let (_, st') = delete_out mid st
                 in (Some \<lparr>orm_mid = mid, orm_state = expected_state, orm_logical_size = om_logical_size m\<rparr>, st'))))"

definition transition_out ::
  "int \<Rightarrow> outbound_state \<Rightarrow> outbound_state \<Rightarrow> bool \<Rightarrow> mem_store \<Rightarrow> out_record_meta option \<times> mem_store" where
  "transition_out mid expected_state new_state compact st =
     (case map_of (out_tab st) mid of
        None \<Rightarrow> (None, st)
      | Some a \<Rightarrow>
          (let m = out_heap st ! a
           in if om_state m \<noteq> expected_state then (None, st)
              else
                (let m' = m\<lparr>om_state := new_state\<rparr>;
                     m'' = (if compact
                            then m'\<lparr>om_topic := [], om_payload := [], om_properties := None, om_encoded_publish := None\<rparr>
                            else m')
                 in (Some \<lparr>orm_mid = mid, orm_state = new_state, orm_logical_size = om_logical_size m\<rparr>,
                     st\<lparr>out_heap := (out_heap st)[a := m'']\<rparr>))))"

text \<open>\<^verbatim>\<open>out_summary_pages\<close>: the identifiers are fixed when the iteration starts, each page is read when it is
  asked for, and a page none of whose records is left is skipped. (Emptying the table replaces the dictionary, so
  an iteration does not see rows stored after that; the sessions run each iteration to its end before they store.)\<close>

definition out_pages_start :: "int \<Rightarrow> mem_store \<Rightarrow> int list result" where
  "out_pages_start page_size st = (if page_size \<le> 0 then Inl ValueError else Inr (map fst (out_tab st)))"

definition read_records :: "(int \<times> nat) list \<Rightarrow> int list \<Rightarrow> nat list" where
  "read_records tab mids = List.map_filter (map_of tab) mids"

function out_summary_next :: "nat \<Rightarrow> mem_store \<Rightarrow> int list \<Rightarrow> (outbound_summary list \<times> int list) option" where
  "out_summary_next page_size st mids =
     (if mids = [] \<or> page_size = 0 then None
      else
        (let messages = read_records (out_tab st) (take page_size mids);
             rest = drop page_size mids
         in if messages \<noteq> [] then Some (map (\<lambda>a. from_message (out_heap st ! a)) messages, rest)
            else out_summary_next page_size st rest))"
  by pat_completeness auto
termination
  by (relation "measure (\<lambda>(n, st, mids). length mids)") auto

declare out_summary_next.simps [simp del]

definition put_in :: "nat \<Rightarrow> mem_store \<Rightarrow> unit result \<times> mem_store" where
  "put_in a st =
     (let m = in_heap st ! a
      in if im_logical_size m \<le> 0 then (Inl ValueError, st)
         else (Inr (), st\<lparr>in_tab := AList.update (im_mid m) a (in_tab st)\<rparr>))"

definition get_in :: "int \<Rightarrow> mem_store \<Rightarrow> nat option" where
  "get_in mid st = map_of (in_tab st) mid"

definition in_count :: "mem_store \<Rightarrow> nat" where
  "in_count st = length (in_tab st)"

text \<open>
  \<^verbatim>\<open>in_replay_pages\<close>: the generator walks a snapshot of the message objects and yields a page when the next
  message would exceed a bound or the bounds are reached. Between two pages its whole state is the part of
  the snapshot not yet collected (the message that closed the previous page opens the next one).
\<close>

fun collect_replay :: "mem_store \<Rightarrow> nat \<Rightarrow> int \<Rightarrow> nat list \<Rightarrow> int list \<Rightarrow> int \<Rightarrow> (int list \<times> nat list)" where
  "collect_replay st max_messages max_bytes [] mids hydrated_bytes = (mids, [])"
| "collect_replay st max_messages max_bytes (a # index) mids hydrated_bytes =
     (let message_bytes = im_logical_size (in_heap st ! a)
      in if mids \<noteq> [] \<and> (length mids \<ge> max_messages \<or> hydrated_bytes + message_bytes > max_bytes)
         then (mids, a # index)
         else
           (let mids' = mids @ [im_mid (in_heap st ! a)];
                hydrated' = hydrated_bytes + message_bytes
            in if length mids' \<ge> max_messages \<or> hydrated' \<ge> max_bytes then (mids', index)
               else collect_replay st max_messages max_bytes index mids' hydrated'))"

lemma collect_replay_shorter:
  "collect_replay st mm mb index mids hb = (ms, rest) \<Longrightarrow> length rest \<le> length index \<and> (mids = [] \<and> index \<noteq> [] \<longrightarrow> length rest < length index)"
  by (induction index arbitrary: mids hb) (fastforce simp: Let_def split: if_splits)+

function in_replay_next :: "nat \<Rightarrow> int \<Rightarrow> mem_store \<Rightarrow> nat list \<Rightarrow> (nat list \<times> nat list) option" where
  "in_replay_next max_messages max_bytes st index =
     (if index = [] then None
      else
        (let (mids, rest) = collect_replay st max_messages max_bytes index [] 0;
             page = read_records (in_tab st) mids
         in if page \<noteq> [] then Some (page, rest) else in_replay_next max_messages max_bytes st rest))"
  by pat_completeness auto
termination
  by (relation "measure (\<lambda>(mm, mb, st, index). length index)") (auto dest: collect_replay_shorter [OF sym])

declare in_replay_next.simps [simp del]

definition in_replay_start :: "int \<Rightarrow> int \<Rightarrow> mem_store \<Rightarrow> nat list result" where
  "in_replay_start max_messages max_bytes st =
     (if max_messages \<le> 0 then Inl ValueError
      else if max_bytes \<le> 0 then Inl ValueError
      else Inr (map snd (in_tab st)))"

definition clear_in :: "mem_store \<Rightarrow> mem_store" where
  "clear_in st = st\<lparr>in_tab := []\<rparr>"

definition in_record_of :: "int \<Rightarrow> inbound_message \<Rightarrow> in_record_meta" where
  "in_record_of mid m = \<lparr>irm_mid = mid, irm_state = im_state m, irm_user_acked = im_user_acked m,
     irm_delivered = im_delivered m, irm_logical_size = im_logical_size m\<rparr>"

definition in_meta :: "int \<Rightarrow> mem_store \<Rightarrow> in_record_meta option" where
  "in_meta mid st = map_option (\<lambda>a. in_record_of mid (in_heap st ! a)) (map_of (in_tab st) mid)"

text \<open>\<^verbatim>\<open>in_index_pages\<close>, from start to end: nothing changes the table while the session loads it.\<close>

definition in_index :: "mem_store \<Rightarrow> in_record_meta list" where
  "in_index st = map (\<lambda>(mid, a). in_record_of mid (in_heap st ! a)) (in_tab st)"

definition mark_in_delivered :: "int \<Rightarrow> mem_store \<Rightarrow> bool \<times> mem_store" where
  "mark_in_delivered mid st =
     (case map_of (in_tab st) mid of
        None \<Rightarrow> (False, st)
      | Some a \<Rightarrow>
          if im_delivered (in_heap st ! a) then (False, st)
          else (True, st\<lparr>in_heap := (in_heap st)[a := (in_heap st ! a)\<lparr>im_delivered := True\<rparr>]\<rparr>))"

definition transition_in ::
  "int \<Rightarrow> inbound_state \<Rightarrow> inbound_state \<Rightarrow> bool option \<Rightarrow> mem_store \<Rightarrow> in_record_meta option \<times> mem_store" where
  "transition_in mid expected_state new_state user_acked st =
     (case map_of (in_tab st) mid of
        None \<Rightarrow> (None, st)
      | Some a \<Rightarrow>
          (let m = in_heap st ! a
           in if im_state m \<noteq> expected_state then (None, st)
              else
                (let m' = m\<lparr>im_state := new_state\<rparr>;
                     m'' = (case user_acked of None \<Rightarrow> m' | Some b \<Rightarrow> m'\<lparr>im_user_acked := b\<rparr>)
                 in (Some (in_record_of mid m''), st\<lparr>in_heap := (in_heap st)[a := m'']\<rparr>))))"

definition complete_in :: "int \<Rightarrow> inbound_state \<Rightarrow> mem_store \<Rightarrow> in_record_meta option \<times> mem_store" where
  "complete_in mid expected_state st =
     (case map_of (in_tab st) mid of
        None \<Rightarrow> (None, st)
      | Some a \<Rightarrow>
          (let m = in_heap st ! a
           in if im_state m \<noteq> expected_state then (None, st)
              else (Some (in_record_of mid m), st\<lparr>in_tab := AList.delete mid (in_tab st)\<rparr>)))"

subsection \<open>The contract of an inflight table\<close>

text \<open>
  What a session relies on, for either direction: rows under packet identifiers, settled or advanced
  only from the expected phase, each operation touching one row. \<open>X\<close> is a set of identifiers left out
  of the accounts.
\<close>

locale inflight_rows =
  fixes inv :: "'st \<Rightarrow> bool" and row :: "'st \<Rightarrow> int \<Rightarrow> 'm option" and phase :: "'m \<Rightarrow> 'q" and size_of :: "'m \<Rightarrow> int"
    and complete :: "int \<Rightarrow> 'q \<Rightarrow> 'st \<Rightarrow> 'r option \<times> 'st" and settled :: "'r \<Rightarrow> int"
    and advance :: "int \<Rightarrow> 'q \<Rightarrow> 'q \<Rightarrow> 'c \<Rightarrow> 'st \<Rightarrow> 'r option \<times> 'st"
  assumes rows_finite: "inv st \<Longrightarrow> finite (dom (row st))"
    and size_pos: "inv st \<Longrightarrow> row st mid = Some m \<Longrightarrow> 0 < size_of m"
    and complete_law: "inv st \<Longrightarrow> complete mid q st = (r, st') \<Longrightarrow> inv st' \<and>
      (case row st mid of
         None \<Rightarrow> r = None \<and> st' = st
       | Some m \<Rightarrow> if phase m \<noteq> q then r = None \<and> st' = st
                   else (\<exists>t. r = Some t \<and> settled t = size_of m) \<and> row st' = (row st)(mid := None))"
    and advance_law: "inv st \<Longrightarrow> advance mid q q' c st = (r, st') \<Longrightarrow> inv st' \<and>
      (case row st mid of
         None \<Rightarrow> r = None \<and> st' = st
       | Some m \<Rightarrow> if phase m \<noteq> q then r = None \<and> st' = st
                   else (\<exists>t m'. r = Some t \<and> settled t = size_of m \<and> phase m' = q' \<and> size_of m' = size_of m
                           \<and> row st' = (row st)(mid := Some m')))"
begin

definition weight :: "int set \<Rightarrow> 'st \<Rightarrow> int" where
  "weight X st = (\<Sum>mid \<in> dom (row st) - X. size_of (the (row st mid)))"

definition count :: "int set \<Rightarrow> 'st \<Rightarrow> int" where
  "count X st = int (card (dom (row st) - X))"

lemma complete_Some:
  assumes "inv st" "complete mid q st = (Some t, st')"
  obtains m where "row st mid = Some m" "phase m = q" "settled t = size_of m" "row st' = (row st)(mid := None)" "inv st'"
  using complete_law [OF assms] by (auto split: option.splits if_splits)

lemma weight_remove:
  assumes "inv st" "row st mid = Some m" "row st' = (row st)(mid := None)"
  shows "weight X st' = weight X st - (if mid \<in> X then 0 else size_of m)" "count X st' = count X st - (if mid \<in> X then 0 else 1)"
proof -
  have d: "dom (row st') - X = (dom (row st) - X) - {mid}" using assms(3) by auto
  have f: "finite (dom (row st) - X)" using rows_finite [OF assms(1)] by simp
  have s: "(\<Sum>i \<in> dom (row st') - X. size_of (the (row st' i))) = (\<Sum>i \<in> (dom (row st) - X) - {mid}. size_of (the (row st i)))"
    unfolding d using assms(3) by (intro sum.cong) auto
  show "weight X st' = weight X st - (if mid \<in> X then 0 else size_of m)"
    unfolding weight_def s using f assms(2) by (auto simp: sum_diff1)
  show "count X st' = count X st - (if mid \<in> X then 0 else 1)"
    unfolding count_def d using f assms(2) card_Suc_Diff1 [of "dom (row st) - X" mid] by (auto simp: domI)
qed

lemma weight_replace:
  assumes "row st mid = Some m" "row st' = (row st)(mid := Some m')" "size_of m' = size_of m"
  shows "weight X st' = weight X st" "count X st' = count X st"
proof -
  have d: "dom (row st') = dom (row st)" using assms(1,2) by auto
  show "weight X st' = weight X st" unfolding weight_def d using assms by (intro sum.cong) auto
  show "count X st' = count X st" unfolding count_def d ..
qed

lemma weight_add:
  assumes "inv st" "row st mid = None" "row st' = (row st)(mid := Some m)" "mid \<notin> X"
  shows "weight X st' = weight X st + size_of m" "count X st' = count X st + 1"
proof -
  have d: "dom (row st') - X = insert mid (dom (row st) - X)" "mid \<notin> dom (row st)" using assms(2-4) by auto
  have f: "finite (dom (row st) - X)" using rows_finite [OF assms(1)] by simp
  have s: "(\<Sum>i \<in> dom (row st) - X. size_of (the (row st' i))) = (\<Sum>i \<in> dom (row st) - X. size_of (the (row st i)))"
    using assms(2,3) by (intro sum.cong) auto
  show "weight X st' = weight X st + size_of m" unfolding weight_def d(1) using f d(2) s assms(3) by simp
  show "count X st' = count X st + 1" unfolding count_def d(1) using f d(2) by simp
qed

text \<open>A row leaves the accounts when its identifier is left out of them.\<close>

lemma weight_exclude:
  assumes "inv st" "row st mid = Some m" "mid \<notin> X"
  shows "weight (insert mid X) st = weight X st - size_of m" "count (insert mid X) st = count X st - 1"
proof -
  have d: "dom (row st) - insert mid X = (dom (row st) - X) - {mid}" by auto
  have f: "finite (dom (row st) - X)" "mid \<in> dom (row st) - X" using rows_finite [OF assms(1)] assms(2,3) by auto
  show "weight (insert mid X) st = weight X st - size_of m" unfolding weight_def d using f assms(2) by (simp add: sum_diff1)
  show "count (insert mid X) st = count X st - 1" unfolding count_def d using f card_Suc_Diff1 [of "dom (row st) - X" mid] by simp
qed

lemma weight_nonneg: "inv st \<Longrightarrow> 0 \<le> weight X st"
  unfolding weight_def by (intro sum_nonneg) (auto dest!: size_pos)

lemma weight_member:
  assumes "inv st" "row st mid = Some m" "mid \<notin> X"
  shows "size_of m \<le> weight X st" "1 \<le> count X st"
proof -
  have "0 \<le> weight (insert mid X) st" using assms(1) by (rule weight_nonneg)
  then show "size_of m \<le> weight X st" using weight_exclude(1) [OF assms] by simp
  show "1 \<le> count X st" using weight_exclude(2) [OF assms] unfolding count_def by linarith
qed

text \<open>Settling conserves the accounts, and a settled identifier cannot be settled again.\<close>

lemma complete_conserves:
  assumes "inv st" "complete mid q st = (Some t, st')" "mid \<notin> X"
  shows "weight X st = settled t + weight X st'" "count X st = 1 + count X st'"
proof -
  obtain m where "row st mid = Some m" "settled t = size_of m" "row st' = (row st)(mid := None)"
    using complete_Some [OF assms(1,2)] .
  with weight_remove [OF assms(1)] assms(3) show "weight X st = settled t + weight X st'" "count X st = 1 + count X st'" by simp_all
qed

lemma complete_once:
  assumes "inv st" "complete mid q st = (Some t, st')"
  shows "complete mid q' st' = (None, st')"
proof -
  obtain r st'' where r: "complete mid q' st' = (r, st'')" by fastforce
  obtain m where "inv st'" "row st' = (row st)(mid := None)" using complete_Some [OF assms] by blast
  with complete_law [OF _ r] r show ?thesis by simp
qed

end

subsection \<open>The memory store satisfies it in both directions\<close>

definition tab_inv :: "(int \<times> nat) list \<Rightarrow> 'm list \<Rightarrow> ('m \<Rightarrow> int) \<Rightarrow> ('m \<Rightarrow> int) \<Rightarrow> bool" where
  "tab_inv tab heap midf sizef \<longleftrightarrow> distinct (map fst tab) \<and> distinct (map snd tab)
     \<and> (\<forall>(mid, a) \<in> set tab. a < length heap \<and> midf (heap ! a) = mid \<and> 0 < sizef (heap ! a))"

definition store_inv :: "mem_store \<Rightarrow> bool" where
  "store_inv st \<longleftrightarrow> tab_inv (out_tab st) (out_heap st) om_mid om_logical_size \<and> tab_inv (in_tab st) (in_heap st) im_mid im_logical_size"

definition tab_row :: "(int \<times> nat) list \<Rightarrow> 'm list \<Rightarrow> int \<Rightarrow> 'm option" where
  "tab_row tab heap mid = map_option (\<lambda>a. heap ! a) (map_of tab mid)"

definition out_row :: "mem_store \<Rightarrow> int \<Rightarrow> outbound_message option" where
  "out_row st = tab_row (out_tab st) (out_heap st)"

definition in_row :: "mem_store \<Rightarrow> int \<Rightarrow> inbound_message option" where
  "in_row st = tab_row (in_tab st) (in_heap st)"

lemma tab_inv_addr:
  assumes "tab_inv tab heap midf sizef" "map_of tab mid = Some a"
  shows "a < length heap" "midf (heap ! a) = mid" "0 < sizef (heap ! a)"
  using assms map_of_SomeD [OF assms(2)] by (auto simp: tab_inv_def)

lemma tab_inv_inj:
  assumes "tab_inv tab heap midf sizef" "map_of tab mid = Some a" "map_of tab mid' = Some a"
  shows "mid = mid'"
  using tab_inv_addr(2) [OF assms(1,2)] tab_inv_addr(2) [OF assms(1,3)] by simp

lemma dom_tab_row [simp]: "dom (tab_row tab heap) = fst ` set tab"
  unfolding tab_row_def dom_map_of_conv_image_fst [symmetric] by (auto simp: dom_def)

lemma tab_inv_delete:
  assumes "tab_inv tab heap midf sizef"
  shows "tab_inv (AList.delete mid tab) heap midf sizef" "tab_row (AList.delete mid tab) heap = (tab_row tab heap)(mid := None)"
proof -
  have "distinct (map snd (AList.delete mid tab))"
    using assms by (simp add: tab_inv_def AList.delete_eq distinct_map_filter)
  moreover have "distinct (map fst (AList.delete mid tab))"
    using assms by (simp add: tab_inv_def AList.delete_eq distinct_map_filter)
  ultimately show "tab_inv (AList.delete mid tab) heap midf sizef"
    using assms by (auto simp: tab_inv_def AList.delete_eq)
  show "tab_row (AList.delete mid tab) heap = (tab_row tab heap)(mid := None)"
    by (rule ext) (simp add: tab_row_def AList.delete_conv')
qed

lemma tab_inv_mutate:
  assumes "tab_inv tab heap midf sizef" "map_of tab mid = Some a" "midf m' = mid" "sizef m' = sizef (heap ! a)"
  shows "tab_inv tab (heap[a := m']) midf sizef" "tab_row tab (heap[a := m']) = (tab_row tab heap)(mid := Some m')"
proof -
  note a = tab_inv_addr [OF assms(1,2)]
  show "tab_inv tab (heap[a := m']) midf sizef"
    using assms(1,3,4) a unfolding tab_inv_def by (auto simp: nth_list_update)
  show "tab_row tab (heap[a := m']) = (tab_row tab heap)(mid := Some m')"
  proof
    fix i
    show "tab_row tab (heap[a := m']) i = ((tab_row tab heap)(mid := Some m')) i"
    proof (cases "i = mid")
      case True
      with assms(2) a show ?thesis by (simp add: tab_row_def)
    next
      case False
      with tab_inv_inj [OF assms(1,2)] have "map_of tab i \<noteq> Some a" by blast
      with False show ?thesis by (cases "map_of tab i") (auto simp: tab_row_def nth_list_update)
    qed
  qed
qed

lemma update_new: "k \<notin> fst ` set al \<Longrightarrow> AList.update k v al = al @ [(k, v)]"
  by (induction al) auto

lemma tab_inv_add:
  assumes "tab_inv tab heap midf sizef" "a < length heap" "a \<notin> snd ` set tab" "map_of tab (midf (heap ! a)) = None" "0 < sizef (heap ! a)"
  shows "tab_inv (AList.update (midf (heap ! a)) a tab) heap midf sizef"
    "tab_row (AList.update (midf (heap ! a)) a tab) heap = (tab_row tab heap)(midf (heap ! a) := Some (heap ! a))"
proof -
  let ?k = "midf (heap ! a)"
  have "?k \<notin> fst ` set tab" using assms(4) by (simp add: map_of_eq_None_iff)
  then show "tab_inv (AList.update ?k a tab) heap midf sizef"
    using assms by (simp add: tab_inv_def update_new)
  show "tab_row (AList.update ?k a tab) heap = (tab_row tab heap)(?k := Some (heap ! a))"
    by (rule ext) (simp add: tab_row_def AList.update_conv')
qed

lemma store_invD:
  assumes "store_inv st"
  shows "tab_inv (out_tab st) (out_heap st) om_mid om_logical_size" "tab_inv (in_tab st) (in_heap st) im_mid im_logical_size"
  using assms by (auto simp: store_inv_def)

interpretation orows: inflight_rows store_inv out_row om_state om_logical_size complete_out orm_logical_size transition_out
proof
  fix st :: mem_store and mid :: int and m :: outbound_message
  assume "store_inv st"
  then have ti: "tab_inv (out_tab st) (out_heap st) om_mid om_logical_size" by (simp add: store_inv_def)
  show "finite (dom (out_row st))" by (simp add: out_row_def)
  show "out_row st mid = Some m \<Longrightarrow> 0 < om_logical_size m" using tab_inv_addr(3) [OF ti] by (auto simp: out_row_def tab_row_def)
next
  fix st st' mid q and r :: "out_record_meta option"
  assume inv: "store_inv st" and run: "complete_out mid q st = (r, st')"
  note del = tab_inv_delete [OF store_invD(1) [OF inv], of mid]
  show "store_inv st' \<and> (case out_row st mid of None \<Rightarrow> r = None \<and> st' = st
     | Some m \<Rightarrow> if om_state m \<noteq> q then r = None \<and> st' = st
         else (\<exists>t. r = Some t \<and> orm_logical_size t = om_logical_size m) \<and> out_row st' = (out_row st)(mid := None))"
  proof (cases "map_of (out_tab st) mid")
    case None
    with run inv show ?thesis by (simp add: complete_out_def out_row_def tab_row_def)
  next
    case (Some a)
    then have row: "out_row st mid = Some (out_heap st ! a)" by (simp add: out_row_def tab_row_def)
    show ?thesis
    proof (cases "om_state (out_heap st ! a) = q")
      case False
      with run Some have "r = None" "st' = st" by (simp_all add: complete_out_def Let_def)
      with inv row False show ?thesis by simp
    next
      case True
      with run Some have "r = Some \<lparr>orm_mid = mid, orm_state = q, orm_logical_size = om_logical_size (out_heap st ! a)\<rparr>"
        and st': "st' = st\<lparr>out_tab := AList.delete mid (out_tab st)\<rparr>"
        by (simp_all add: complete_out_def delete_out_def Let_def)
      moreover have "store_inv st'" "out_row st' = (out_row st)(mid := None)"
        using del inv unfolding st' by (simp_all add: store_inv_def out_row_def)
      ultimately show ?thesis using row True by simp
    qed
  qed
next
  fix st st' mid q q' c and r :: "out_record_meta option"
  assume inv: "store_inv st" and run: "transition_out mid q q' c st = (r, st')"
  note ti = store_invD(1) [OF inv]
  show "store_inv st' \<and> (case out_row st mid of None \<Rightarrow> r = None \<and> st' = st
     | Some m \<Rightarrow> if om_state m \<noteq> q then r = None \<and> st' = st
         else (\<exists>t m'. r = Some t \<and> orm_logical_size t = om_logical_size m \<and> om_state m' = q' \<and> om_logical_size m' = om_logical_size m
           \<and> out_row st' = (out_row st)(mid := Some m')))"
  proof (cases "map_of (out_tab st) mid")
    case None
    with run inv show ?thesis by (simp add: transition_out_def out_row_def tab_row_def)
  next
    case (Some a)
    let ?m = "out_heap st ! a"
    define m' where "m' = (if c then ?m\<lparr>om_state := q', om_topic := [], om_payload := [], om_properties := None, om_encoded_publish := None\<rparr> else ?m\<lparr>om_state := q'\<rparr>)"
    have m': "om_mid m' = mid" "om_logical_size m' = om_logical_size ?m" "om_state m' = q'"
      using tab_inv_addr(2) [OF ti Some] by (simp_all add: m'_def)
    have row: "out_row st mid = Some ?m" using Some by (simp add: out_row_def tab_row_def)
    show ?thesis
    proof (cases "om_state ?m = q")
      case False
      with run Some have "r = None" "st' = st" by (simp_all add: transition_out_def Let_def)
      with inv row False show ?thesis by simp
    next
      case True
      with run Some have r: "r = Some \<lparr>orm_mid = mid, orm_state = q', orm_logical_size = om_logical_size ?m\<rparr>"
        and st': "st' = st\<lparr>out_heap := (out_heap st)[a := m']\<rparr>"
        by (simp_all add: transition_out_def m'_def Let_def)
      have "store_inv st'" "out_row st' = (out_row st)(mid := Some m')"
        using tab_inv_mutate [OF ti Some m'(1,2)] inv unfolding st' by (simp_all add: store_inv_def out_row_def)
      with r m' row True show ?thesis by auto
    qed
  qed
qed

interpretation irows: inflight_rows store_inv in_row im_state im_logical_size complete_in irm_logical_size transition_in
proof
  fix st :: mem_store and mid :: int and m :: inbound_message
  assume "store_inv st"
  then have ti: "tab_inv (in_tab st) (in_heap st) im_mid im_logical_size" by (simp add: store_inv_def)
  show "finite (dom (in_row st))" by (simp add: in_row_def)
  show "in_row st mid = Some m \<Longrightarrow> 0 < im_logical_size m" using tab_inv_addr(3) [OF ti] by (auto simp: in_row_def tab_row_def)
next
  fix st st' mid q and r :: "in_record_meta option"
  assume inv: "store_inv st" and run: "complete_in mid q st = (r, st')"
  note del = tab_inv_delete [OF store_invD(2) [OF inv], of mid]
  show "store_inv st' \<and> (case in_row st mid of None \<Rightarrow> r = None \<and> st' = st
     | Some m \<Rightarrow> if im_state m \<noteq> q then r = None \<and> st' = st
         else (\<exists>t. r = Some t \<and> irm_logical_size t = im_logical_size m) \<and> in_row st' = (in_row st)(mid := None))"
  proof (cases "map_of (in_tab st) mid")
    case None
    with run inv show ?thesis by (simp add: complete_in_def in_row_def tab_row_def)
  next
    case (Some a)
    then have row: "in_row st mid = Some (in_heap st ! a)" by (simp add: in_row_def tab_row_def)
    show ?thesis
    proof (cases "im_state (in_heap st ! a) = q")
      case False
      with run Some have "r = None" "st' = st" by (simp_all add: complete_in_def Let_def)
      with inv row False show ?thesis by simp
    next
      case True
      with run Some have "r = Some (in_record_of mid (in_heap st ! a))" and st': "st' = st\<lparr>in_tab := AList.delete mid (in_tab st)\<rparr>"
        by (simp_all add: complete_in_def Let_def)
      moreover have "store_inv st'" "in_row st' = (in_row st)(mid := None)"
        using del inv unfolding st' by (simp_all add: store_inv_def in_row_def)
      ultimately show ?thesis using row True by (simp add: in_record_of_def)
    qed
  qed
next
  fix st st' mid q q' c and r :: "in_record_meta option"
  assume inv: "store_inv st" and run: "transition_in mid q q' c st = (r, st')"
  note ti = store_invD(2) [OF inv]
  show "store_inv st' \<and> (case in_row st mid of None \<Rightarrow> r = None \<and> st' = st
     | Some m \<Rightarrow> if im_state m \<noteq> q then r = None \<and> st' = st
         else (\<exists>t m'. r = Some t \<and> irm_logical_size t = im_logical_size m \<and> im_state m' = q' \<and> im_logical_size m' = im_logical_size m
           \<and> in_row st' = (in_row st)(mid := Some m')))"
  proof (cases "map_of (in_tab st) mid")
    case None
    with run inv show ?thesis by (simp add: transition_in_def in_row_def tab_row_def)
  next
    case (Some a)
    let ?m = "in_heap st ! a"
    define m' where "m' = (case c of None \<Rightarrow> ?m\<lparr>im_state := q'\<rparr> | Some b \<Rightarrow> ?m\<lparr>im_state := q', im_user_acked := b\<rparr>)"
    have m': "im_mid m' = mid" "im_logical_size m' = im_logical_size ?m" "im_state m' = q'"
      using tab_inv_addr(2) [OF ti Some] by (simp_all add: m'_def split: option.split)
    have row: "in_row st mid = Some ?m" using Some by (simp add: in_row_def tab_row_def)
    show ?thesis
    proof (cases "im_state ?m = q")
      case False
      with run Some have "r = None" "st' = st" by (simp_all add: transition_in_def Let_def)
      with inv row False show ?thesis by simp
    next
      case True
      with run Some have r: "r = Some (in_record_of mid m')" and st': "st' = st\<lparr>in_heap := (in_heap st)[a := m']\<rparr>"
        by (simp_all add: transition_in_def m'_def Let_def cong: option.case_cong)
      have "store_inv st'" "in_row st' = (in_row st)(mid := Some m')"
        using tab_inv_mutate [OF ti Some m'(1,2)] inv unfolding st' by (simp_all add: store_inv_def in_row_def)
      with r m' row True show ?thesis by (auto simp: in_record_of_def)
    qed
  qed
qed

subsection \<open>Paging\<close>

definition sample_out :: "int \<Rightarrow> outbound_state \<Rightarrow> outbound_message" where
  "sample_out mid q = \<lparr>om_mid = mid, om_topic = [97], om_payload = [104], om_qos = 1, om_retain = False, om_state = q, om_dup = False,
     om_properties = None, om_encoded_publish = None, om_encoded_pubrel = None, om_logical_size = 2\<rparr>"

text \<open>All pages of an iteration that nothing interrupts.\<close>

lemma out_summary_next_shorter: "out_summary_next n st mids = Some (page, rest) \<Longrightarrow> length rest < length mids"
proof (induction n st mids rule: out_summary_next.induct)
  case (1 n st mids)
  from "1.prems" have ne: "\<not> (mids = [] \<or> n = 0)" by (subst (asm) out_summary_next.simps) (auto split: if_splits)
  then have lt: "length (drop n mids) < length mids" by simp
  show ?case
  proof (cases "read_records (out_tab st) (take n mids) = []")
    case True
    with "1.prems" ne have "out_summary_next n st (drop n mids) = Some (page, rest)"
      by (subst (asm) out_summary_next.simps) simp
    with "1.IH" [OF ne refl refl] True lt show ?thesis by (meson less_trans)
  next
    case False
    with "1.prems" ne have "rest = drop n mids" by (subst (asm) out_summary_next.simps) simp
    with lt show ?thesis by simp
  qed
qed

function out_pages :: "nat \<Rightarrow> mem_store \<Rightarrow> int list \<Rightarrow> outbound_summary list list" where
  "out_pages n st mids = (case out_summary_next n st mids of None \<Rightarrow> [] | Some (page, rest) \<Rightarrow> page # out_pages n st rest)"
  by pat_completeness auto
termination
  by (relation "measure (\<lambda>(n, st, mids). length mids)") (auto dest: out_summary_next_shorter)

declare out_pages.simps [simp del]

lemma map_of_member:
  assumes "k \<in> fst ` set tab"
  obtains a where "map_of tab k = Some a"
  using assms by (cases "map_of tab k") (auto simp: map_of_eq_None_iff)

lemma read_records_all:
  "set mids \<subseteq> fst ` set tab \<Longrightarrow> read_records tab mids = map (\<lambda>mid. the (map_of tab mid)) mids"
proof (induction mids)
  case Nil
  then show ?case by (simp add: read_records_def)
next
  case (Cons mid mids)
  then have "mid \<in> fst ` set tab" by simp
  then obtain a where "map_of tab mid = Some a" by (rule map_of_member)
  with Cons show ?case by (simp add: read_records_def map_filter_simps)
qed

lemma out_pages_concat:
  assumes "0 < n" "set mids \<subseteq> fst ` set (out_tab st)"
  shows "concat (out_pages n st mids) = map (\<lambda>mid. from_message (the (out_row st mid))) mids
    \<and> (\<forall>page \<in> set (out_pages n st mids). page \<noteq> [] \<and> length page \<le> n)"
  using assms
proof (induction n st mids rule: out_pages.induct)
  case (1 n st mids)
  show ?case
  proof (cases "mids = []")
    case True
    then show ?thesis by (subst (1 2) out_pages.simps) (simp add: out_summary_next.simps)
  next
    case False
    let ?page = "map (\<lambda>mid. from_message (the (out_row st mid))) (take n mids)"
    have sub: "set (take n mids) \<subseteq> fst ` set (out_tab st)" "set (drop n mids) \<subseteq> fst ` set (out_tab st)"
      using "1.prems"(2) set_take_subset [of n mids] set_drop_subset [of n mids] by blast+
    have the_row: "the (out_row st mid) = out_heap st ! the (map_of (out_tab st) mid)" if "mid \<in> set (take n mids)" for mid
      using map_of_member [OF subsetD [OF sub(1) that]] by (force simp: out_row_def tab_row_def)
    have next_page: "out_summary_next n st mids = Some (?page, drop n mids)"
      using False "1.prems"(1) the_row by (subst out_summary_next.simps) (simp add: read_records_all [OF sub(1)])
    from "1.IH" [OF next_page refl "1.prems"(1) sub(2)] False "1.prems"(1)
    show ?thesis by (subst (1 2) out_pages.simps) (simp add: next_page flip: map_append)
  qed
qed

text \<open>
  Paging through the outbound table with a positive page size, when nothing changes it meanwhile, yields a
  summary of every stored message exactly once, in the order the messages were stored, in pages that are never
  empty and never longer than the page size.
\<close>

theorem out_summary_pages_complete:
  assumes "store_inv st" "out_pages_start page_size st = Inr mids"
  shows "concat (out_pages (nat page_size) st mids) = map (\<lambda>(mid, a). from_message (out_heap st ! a)) (out_tab st)
    \<and> (\<forall>page \<in> set (out_pages (nat page_size) st mids). page \<noteq> [] \<and> int (length page) \<le> page_size)"
proof -
  from assms(2) have start: "0 < nat page_size" "mids = map fst (out_tab st)" by (auto simp: out_pages_start_def split: if_splits)
  have "the (out_row st mid) = out_heap st ! a" if "(mid, a) \<in> set (out_tab st)" for mid a
    using map_of_is_SomeI [OF _ that] store_invD(1) [OF assms(1)] by (simp add: out_row_def tab_row_def tab_inv_def)
  then have "map (\<lambda>mid. from_message (the (out_row st mid))) mids = map (\<lambda>(mid, a). from_message (out_heap st ! a)) (out_tab st)"
    by (auto simp: start(2))
  with out_pages_concat [OF start(1), of mids st] start show ?thesis by (auto simp: le_nat_iff)
qed

theorem out_summary_pages_complete_witness:
  "length (concat (out_pages (nat 1) \<lparr>out_tab = [(5, 0), (6, 1)], in_tab = [], out_heap = [sample_out 5 WAIT_PUBACK, sample_out 6 WAIT_PUBREC], in_heap = []\<rparr> [5, 6])) = 2"
proof -
  let ?st = "\<lparr>out_tab = [(5, 0), (6, 1)], in_tab = [], out_heap = [sample_out 5 WAIT_PUBACK, sample_out 6 WAIT_PUBREC], in_heap = []\<rparr>"
  have "store_inv ?st" by (simp add: store_inv_def tab_inv_def sample_out_def)
  moreover have "out_pages_start 1 ?st = Inr [5, 6]" by (simp add: out_pages_start_def)
  ultimately show ?thesis using out_summary_pages_complete [of ?st 1 "[5, 6]"] by simp
qed

end
