(* ===== verification/Store_Refinement.thy ===== *)
theory Store_Refinement
  imports Store
begin

text \<open>
  The contract \<^verbatim>\<open>InflightStore\<close> of \<^verbatim>\<open>src/src/mqttium/persistence/memory.py\<close> and its refinement by the memory store. The contract
  knows values only: two dictionaries from packet identifiers to messages, in the order of insertion, which the operations read and update. The memory store
  keeps references to mutable objects instead and changes them in place; no caller of the operations can tell the difference.
\<close>

subsection \<open>The contract\<close>











subsection \<open>The memory store\<close>


subsection \<open>References and values\<close>












subsection \<open>Refinement\<close>












end
