(* ===== verification/Wire_Errors.thy ===== *)
theory Wire_Errors
  imports Bindings
begin

text \<open>
  What the decoders raise: whatever bytes the peer sends, every decoder of the bound codec either returns or raises
  \<^verbatim>\<open>MalformedPacketError\<close> or \<^verbatim>\<open>ProtocolError\<close>. No \<^verbatim>\<open>IndexError\<close>, \<^verbatim>\<open>struct.error\<close> or \<^verbatim>\<open>UnicodeDecodeError\<close> of the
  language escapes, which is what lets the engine tell the peer's faults from its own.
\<close>

definition peer_error :: "exn \<Rightarrow> bool" where
  "peer_error e \<longleftrightarrow> e = MalformedPacketError \<or> e = ProtocolError"

named_theorems wire_errors \<open>errors of the decoders\<close>

lemma peer_errorI [simp]: "peer_error MalformedPacketError" "peer_error ProtocolError"
  by (simp_all add: peer_error_def)

lemma unpack_u16_peer [wire_errors]: "unpack_u16 buf off = Inl e \<Longrightarrow> peer_error e"
  by (auto simp: unpack_u16_value split: if_splits)

lemma unpack_u32_peer [wire_errors]: "unpack_u32 buf off = Inl e \<Longrightarrow> peer_error e"
  by (auto simp: unpack_u32_value split: if_splits)

lemma unpack_utf8_peer [wire_errors]: "unpack_utf8 buf off = Inl e \<Longrightarrow> peer_error e"
  by (auto simp: unpack_utf8_value validate_mqtt_utf8_def Let_def rbind_eq_Inl split: if_splits sum.splits)

lemma unpack_binary_peer [wire_errors]: "unpack_binary buf off = Inl e \<Longrightarrow> peer_error e"
  by (auto simp: unpack_binary_def Let_def rbind_eq_Inl split: if_splits dest: unpack_u16_peer)

lemma decode_vbi_peer [wire_errors]:
  assumes "decode_vbi buf off None = Inl e"
  shows "peer_error e"
proof -
  have "decode_vbi buf off (Some (length buf)) = Inl e" using assms by (simp add: decode_vbi_def)
  then show ?thesis using decode_vbi_error [of buf off "length buf" e] by simp
qed

lemma check_item_peer [wire_errors]: "check_item MalformedPacketError spec v = Inl e \<Longrightarrow> peer_error e"
  by (auto simp: check_item_def validate_response_topic_def split: if_splits prop_value.splits)

lemma add_seen_peer [wire_errors]: "add_seen packet spec v seen = Inl e \<Longrightarrow> peer_error e"
  by (auto simp: add_seen_def split: if_splits)

lemma decode_value_peer [wire_errors]: "decode_value t buf off = Inl e \<Longrightarrow> peer_error e"
  by (auto simp: decode_value_def wrap_value_def decode_byte_value_def decode_string_pair_def rbind_eq_Inl
      split: prop_type.splits if_splits dest: wire_errors)

lemma decode_props_loop_peer [wire_errors]:
  "decode_props_loop buf end packet pos seen repeated = Inl e \<Longrightarrow> end \<le> length buf \<Longrightarrow> peer_error e"
proof (induction "end - pos" arbitrary: pos seen repeated rule: less_induct)
  case less
  have step: "peer_error e" if "decode_props_loop buf end packet pos' seen' rep' = Inl e" "decode_value t buf (Suc pos) = Inr (v, pos')" "\<not> end \<le> pos"
    for pos' seen' rep' t v
  proof -
    have "end - pos' < end - pos" using decode_value_progress [OF that(2)] that(3) by arith
    from less.hyps [OF this that(1)] less.prems(2) show ?thesis by simp
  qed
  from less.prems show ?case
    by (subst (asm) decode_props_loop.simps)
      (auto simp: Let_def rbind_eq_Inl split: if_splits option.splits dest: wire_errors step)
qed

lemma decode_properties_peer [wire_errors]: "decode_properties buf off packet = Inl e \<Longrightarrow> peer_error e"
  by (auto simp: decode_properties_def Let_def rbind_eq_Inl split: if_splits dest: wire_errors)

lemma decode_ack_peer [wire_errors]:
  "decode_ack_v311 rest = Inl e \<Longrightarrow> peer_error e" "decode_ack_v5 packet reasons rest = Inl e \<Longrightarrow> peer_error e"
  by (auto simp: decode_ack_v311_value decode_ack_v5_value require_end_def Let_def rbind_eq_Inl split: if_splits dest: wire_errors)

lemma require_reasons_peer [wire_errors]: "require_reasons allowed codes = Inl e \<Longrightarrow> peer_error e"
  by (induction codes) (auto simp: require_reason_code_def rbind_eq_Inl)

lemma decode_suback_peer [wire_errors]:
  "decode_suback (bind_codec v) rest = Inl e \<Longrightarrow> peer_error e" "decode_unsuback (bind_codec v) rest = Inl e \<Longrightarrow> peer_error e"
  by (auto simp: bind_codec_def decode_suback_v311_def decode_suback_v5_def decode_unsuback_v311_def decode_unsuback_v5_def
      require_nonzero_mid_def require_end_def Let_def rbind_eq_Inl split: if_splits dest: wire_errors)

lemma decode_connack_peer [wire_errors]: "decode_connack (bind_codec v) rest = Inl e \<Longrightarrow> peer_error e"
  by (auto simp: bind_codec_def decode_connack_v311_def decode_connack_v5_def require_end_def require_reason_code_def byte_at_def
      Let_def rbind_eq_Inl split: if_splits dest: wire_errors)

lemma decode_control_peer [wire_errors]:
  "decode_disconnect (bind_codec v) rest = Inl e \<Longrightarrow> peer_error e" "decode_auth (bind_codec v) rest = Inl e \<Longrightarrow> peer_error e"
  by (auto simp: bind_codec_def decode_disconnect_v311_def decode_disconnect_v5_def decode_auth_v5_def auth_requires_v5_def
      decode_control_v5_def require_end_def require_reason_code_def byte_at_def Let_def rbind_eq_Inl split: if_splits list.splits dest: wire_errors)

lemma decode_publish_peer [wire_errors]:
  "decode_qos0_message_v311 raw = Inl e \<Longrightarrow> peer_error e" "decode_qos0_message_v5 raw = Inl e \<Longrightarrow> peer_error e"
  "decode_qos12_fields_v311 raw = Inl e \<Longrightarrow> peer_error e" "decode_publish_fields_v5 raw qos = Inl e \<Longrightarrow> peer_error e"
  by (auto simp: decode_qos0_message_v311_def decode_qos0_message_v5_def decode_qos12_fields_v311_def decode_publish_fields_v5_def
      require_nonzero_mid_def Let_def rbind_eq_Inl split: if_splits dest: wire_errors received_topic_error)

lemma decode_bound_ack_peer [wire_errors]:
  "decode_puback (bind_codec v) rest = Inl e \<Longrightarrow> peer_error e" "decode_pubrec (bind_codec v) rest = Inl e \<Longrightarrow> peer_error e"
  "decode_pubrel (bind_codec v) rest = Inl e \<Longrightarrow> peer_error e" "decode_pubcomp (bind_codec v) rest = Inl e \<Longrightarrow> peer_error e"
  by (auto simp: bind_codec_def decode_puback_v311_def decode_pubrec_v311_def decode_pubrel_v311_def decode_pubcomp_v311_def
      decode_puback_v5_def decode_pubrec_v5_def decode_pubrel_v5_def decode_pubcomp_v5_def split: if_splits dest: wire_errors)

text \<open>A computation that can only raise one of the two classes that blame the peer.\<close>

definition raises_peer :: "'a result \<Rightarrow> bool" where
  "raises_peer r = (case r of Inl e \<Rightarrow> e = MalformedPacketError \<or> e = ProtocolError | Inr _ \<Rightarrow> True)"

lemma raises_peerI: "(\<And>e. r = Inl e \<Longrightarrow> peer_error e) \<Longrightarrow> raises_peer r"
  by (simp add: raises_peer_def peer_error_def split: sum.split)

text \<open>
  C40. Whatever bytes a peer sends, every decoder of the codec bound to either version returns or raises
  \<^verbatim>\<open>MalformedPacketError\<close> or \<^verbatim>\<open>ProtocolError\<close>: the bodies of CONNACK, PUBACK, PUBREC, PUBREL, PUBCOMP, SUBACK, UNSUBACK,
  DISCONNECT and AUTH, and PUBLISH packets of every quality of service.
\<close>

theorem decoders_raise_peer_errors:
  "raises_peer (decode_connack (bind_codec v) rest) \<and> raises_peer (decode_puback (bind_codec v) rest)
   \<and> raises_peer (decode_pubrec (bind_codec v) rest) \<and> raises_peer (decode_pubrel (bind_codec v) rest)
   \<and> raises_peer (decode_pubcomp (bind_codec v) rest) \<and> raises_peer (decode_suback (bind_codec v) rest)
   \<and> raises_peer (decode_unsuback (bind_codec v) rest) \<and> raises_peer (decode_disconnect (bind_codec v) rest)
   \<and> raises_peer (decode_auth (bind_codec v) rest) \<and> raises_peer (decode_qos0_message_v311 raw)
   \<and> raises_peer (decode_qos0_message_v5 raw) \<and> raises_peer (decode_qos12_fields_v311 raw)
   \<and> raises_peer (decode_publish_fields_v5 raw qos)"
  by (auto intro!: raises_peerI dest: wire_errors)

end
