(* ===== verification/Ops.thy ===== *)
theory Ops
  imports Prelude
begin

text \<open>
  Operations of the sessions: code that reads and updates the engine's state and may raise. A raise keeps the
  state reached so far, as in Python. Every operation has a weakest precondition, computed by rewriting, with one
  postcondition for a return and one for a raise.
\<close>

type_synonym ('s, 'a) op = "'s \<Rightarrow> 'a result \<times> 's"

definition sret :: "'a \<Rightarrow> ('s, 'a) op" where
  "sret x s = (Inr x, s)"

definition sraise :: "exn \<Rightarrow> ('s, 'a) op" where
  "sraise e s = (Inl e, s)"

definition sbind :: "('s, 'a) op \<Rightarrow> ('a \<Rightarrow> ('s, 'b) op) \<Rightarrow> ('s, 'b) op" where
  "sbind m f s = (case m s of (Inl e, s') \<Rightarrow> (Inl e, s') | (Inr x, s') \<Rightarrow> f x s')"

definition sthen :: "('s, 'a) op \<Rightarrow> ('s, 'b) op \<Rightarrow> ('s, 'b) op" where
  "sthen m n = sbind m (\<lambda>_. n)"

text \<open>Reading the state, updating it, calling pure code that may raise, raising unless a condition holds.\<close>

definition sget :: "('s \<Rightarrow> 'a) \<Rightarrow> ('s, 'a) op" where
  "sget f s = (Inr (f s), s)"

definition smod :: "('s \<Rightarrow> 's) \<Rightarrow> ('s, unit) op" where
  "smod f s = (Inr (), f s)"

definition slift :: "'a result \<Rightarrow> ('s, 'a) op" where
  "slift r s = (r, s)"

definition sask :: "('s \<Rightarrow> 'a result) \<Rightarrow> ('s, 'a) op" where
  "sask f s = (f s, s)"

text \<open>\<^verbatim>\<open>try ... except Exception as e: handler\<close>.\<close>

definition scatch :: "('s, 'a) op \<Rightarrow> (exn \<Rightarrow> ('s, 'a) op) \<Rightarrow> ('s, 'a) op" where
  "scatch m h s = (case m s of (Inl e, s') \<Rightarrow> h e s' | (Inr x, s') \<Rightarrow> (Inr x, s'))"

definition sunless :: "bool \<Rightarrow> ('s, unit) op \<Rightarrow> ('s, unit) op" where
  "sunless b m = (if b then sret () else m)"

definition swhen :: "bool \<Rightarrow> ('s, unit) op \<Rightarrow> ('s, unit) op" where
  "swhen b m = (if b then m else sret ())"

text \<open>\<^verbatim>\<open>for x in xs: body\<close>, with the list fixed when the loop starts.\<close>

fun sfor :: "('x \<Rightarrow> ('s, unit) op) \<Rightarrow> 'x list \<Rightarrow> ('s, unit) op" where
  "sfor f [] = sret ()"
| "sfor f (x # xs) = sthen (f x) (sfor f xs)"

text \<open>The same loop with local variables.\<close>

fun sfold :: "('x \<Rightarrow> 'a \<Rightarrow> ('s, 'a) op) \<Rightarrow> 'x list \<Rightarrow> 'a \<Rightarrow> ('s, 'a) op" where
  "sfold f [] a = sret a"
| "sfold f (x # xs) a = sbind (f x a) (sfold f xs)"

subsection \<open>Weakest preconditions\<close>

definition wp :: "('s, 'a) op \<Rightarrow> ('a \<Rightarrow> 's \<Rightarrow> bool) \<Rightarrow> (exn \<Rightarrow> 's \<Rightarrow> bool) \<Rightarrow> 's \<Rightarrow> bool" where
  "wp m Q E s = (case m s of (Inl e, s') \<Rightarrow> E e s' | (Inr x, s') \<Rightarrow> Q x s')"

named_theorems wp_simps \<open>weakest preconditions by rewriting\<close>

lemma wp_sret [wp_simps]: "wp (sret x) Q E = (\<lambda>s. Q x s)"
  by (rule ext) (simp add: wp_def sret_def)

lemma wp_sraise [wp_simps]: "wp (sraise e) Q E = (\<lambda>s. E e s)"
  by (rule ext) (simp add: wp_def sraise_def)

lemma wp_sbind [wp_simps]: "wp (sbind m f) Q E = (\<lambda>s. wp m (\<lambda>x. wp (f x) Q E) E s)"
  by (rule ext) (auto simp: wp_def sbind_def split: prod.splits sum.splits)

lemma wp_sthen [wp_simps]: "wp (sthen m n) Q E = (\<lambda>s. wp m (\<lambda>_. wp n Q E) E s)"
  by (rule ext) (simp add: sthen_def wp_sbind)

lemma wp_sget [wp_simps]: "wp (sget f) Q E = (\<lambda>s. Q (f s) s)"
  by (rule ext) (simp add: wp_def sget_def)

lemma wp_smod [wp_simps]: "wp (smod f) Q E = (\<lambda>s. Q () (f s))"
  by (rule ext) (simp add: wp_def smod_def)

lemma wp_slift [wp_simps]: "wp (slift r) Q E = (\<lambda>s. (case r of Inl e \<Rightarrow> E e s | Inr x \<Rightarrow> Q x s))"
  by (rule ext) (simp add: wp_def slift_def split: sum.split)

lemma wp_sask [wp_simps]: "wp (sask f) Q E = (\<lambda>s. (case f s of Inl e \<Rightarrow> E e s | Inr x \<Rightarrow> Q x s))"
  by (rule ext) (simp add: wp_def sask_def split: sum.split)

lemma wp_scatch [wp_simps]: "wp (scatch m h) Q E = (\<lambda>s. wp m Q (\<lambda>e. wp (h e) Q E) s)"
  by (rule ext) (auto simp: wp_def scatch_def split: prod.splits sum.splits)

lemma wp_if [wp_simps]: "wp (if b then m else n) Q E = (\<lambda>s. (if b then wp m Q E s else wp n Q E s))"
  by (rule ext) simp

lemma wp_swhen [wp_simps]: "wp (swhen b m) Q E = (\<lambda>s. (if b then wp m Q E s else Q () s))"
  by (rule ext) (simp add: swhen_def wp_sret)

lemma wp_sunless [wp_simps]: "wp (sunless b m) Q E = (\<lambda>s. (if b then Q () s else wp m Q E s))"
  by (rule ext) (simp add: sunless_def wp_sret)

lemma wp_option [wp_simps]:
  "wp (case x of None \<Rightarrow> m | Some y \<Rightarrow> n y) Q E = (\<lambda>s. (case x of None \<Rightarrow> wp m Q E s | Some y \<Rightarrow> wp (n y) Q E s))"
  by (rule ext) (simp split: option.split)

lemma wp_prod [wp_simps]: "wp (case p of (a, b) \<Rightarrow> m a b) Q E = (\<lambda>s. (case p of (a, b) \<Rightarrow> wp (m a b) Q E s))"
  by (rule ext) (simp split: prod.split)

lemma wp_Let [wp_simps]: "wp (Let x f) Q E = wp (f x) Q E"
  by simp

lemma wp_sfor_Nil [wp_simps]: "wp (sfor f []) Q E = (\<lambda>s. Q () s)"
  by (rule ext) (simp add: wp_sret)

lemma wp_mono:
  assumes "wp m Q E s" "\<And>x s'. Q x s' \<Longrightarrow> Q' x s'" "\<And>e s'. E e s' \<Longrightarrow> E' e s'"
  shows "wp m Q' E' s"
  using assms by (auto simp: wp_def split: prod.splits sum.splits)

lemma wp_conj:
  assumes "wp m Q E s" "wp m Q' E' s"
  shows "wp m (\<lambda>x t. Q x t \<and> Q' x t) (\<lambda>e t. E e t \<and> E' e t) s"
  using assms by (auto simp: wp_def split: prod.splits sum.splits)

text \<open>A loop keeps an invariant that relates the state to the elements still to visit.\<close>

lemma wp_sfor:
  assumes "I xs s" "\<And>y ys t. I (y # ys) t \<Longrightarrow> wp (f y) (\<lambda>_. I ys) E t"
  shows "wp (sfor f xs) (\<lambda>_. I []) E s"
  using assms(1)
proof (induction xs arbitrary: s)
  case Nil
  then show ?case by (simp add: wp_sret)
next
  case (Cons y ys)
  from assms(2) [OF Cons.prems] show ?case
    by (simp add: wp_sthen) (erule wp_mono, rule Cons.IH, assumption)
qed

lemma wp_sfold:
  assumes "I xs a s" "\<And>y ys b t. I (y # ys) b t \<Longrightarrow> wp (f y b) (\<lambda>c. I ys c) E t"
  shows "wp (sfold f xs a) (\<lambda>b. I [] b) E s"
  using assms(1)
proof (induction xs arbitrary: s a)
  case Nil
  then show ?case by (simp add: wp_sret)
next
  case (Cons y ys)
  from assms(2) [OF Cons.prems] show ?case
    by (simp add: wp_sbind) (erule wp_mono, rule Cons.IH, assumption)
qed

lemma wpI: "(\<And>r s'. m s = (r, s') \<Longrightarrow> case r of Inl e \<Rightarrow> E e s' | Inr x \<Rightarrow> Q x s') \<Longrightarrow> wp m Q E s"
  by (auto simp: wp_def split: prod.splits sum.splits)

lemma wp_Inr: "wp m Q E s \<Longrightarrow> m s = (Inr x, s') \<Longrightarrow> Q x s'"
  by (simp add: wp_def)

lemma wp_Inl: "wp m Q E s \<Longrightarrow> m s = (Inl e, s') \<Longrightarrow> E e s'"
  by (simp add: wp_def)

text \<open>Operations that only read.\<close>

definition reads :: "('s, 'a) op \<Rightarrow> bool" where
  "reads m \<longleftrightarrow> (\<forall>s. snd (m s) = s)"

named_theorems reads_intros \<open>operations that only read\<close>

lemma reads_basic [reads_intros]:
  "reads (sret x)" "reads (sraise e)" "reads (sget f)" "reads (slift r)" "reads (sask g)"
  by (simp_all add: reads_def sret_def sraise_def sget_def slift_def sask_def)

lemma reads_sbind [reads_intros]: "reads m \<Longrightarrow> (\<And>x. reads (f x)) \<Longrightarrow> reads (sbind m f)"
  by (auto simp: reads_def sbind_def split: prod.split sum.split) (metis snd_conv)+

lemma reads_sthen [reads_intros]: "reads m \<Longrightarrow> reads n \<Longrightarrow> reads (sthen m n)"
  unfolding sthen_def by (rule reads_sbind)

lemma reads_scatch [reads_intros]: "reads m \<Longrightarrow> (\<And>x. reads (h x)) \<Longrightarrow> reads (scatch m h)"
  by (auto simp: reads_def scatch_def split: prod.split sum.split) (metis snd_conv)+

lemma reads_cases [reads_intros]:
  "(b \<Longrightarrow> reads m) \<Longrightarrow> (\<not> b \<Longrightarrow> reads n) \<Longrightarrow> reads (if b then m else n)"
  "(x = None \<Longrightarrow> reads m) \<Longrightarrow> (\<And>y. x = Some y \<Longrightarrow> reads (g y)) \<Longrightarrow> reads (case x of None \<Rightarrow> m | Some y \<Rightarrow> g y)"
  "(\<And>a c. p = (a, c) \<Longrightarrow> reads (h a c)) \<Longrightarrow> reads (case p of (a, c) \<Rightarrow> h a c)"
  "reads (k y) \<Longrightarrow> reads (Let y k)" "(b \<Longrightarrow> reads u) \<Longrightarrow> reads (swhen b u)" "(\<not> b \<Longrightarrow> reads u) \<Longrightarrow> reads (sunless b u)"
  by (auto simp: swhen_def sunless_def reads_basic split: option.split prod.split)

lemma wp_reads: "reads m \<Longrightarrow> (\<And>x. Q x s) \<Longrightarrow> (\<And>e. E e s) \<Longrightarrow> wp m Q E s"
  by (simp add: reads_def wp_def split: prod.split sum.split) (metis snd_conv)

text \<open>Running an operation, for concrete states.\<close>

lemma sbind_run: "m s = (Inr x, s') \<Longrightarrow> sbind m f s = f x s'" "m s = (Inl e, s') \<Longrightarrow> sbind m f s = (Inl e, s')"
  by (simp_all add: sbind_def)

lemmas run_simps = sret_def sraise_def sbind_def sthen_def sget_def smod_def slift_def sask_def scatch_def swhen_def sunless_def

end
