(* ===== verification/Engine_State.thy ===== *)
theory Engine_State
  imports Ops Packet_Ids Flow_Control Settings Store
begin

text \<open>
  The state of the protocol engine and of its two sessions, and the operations of
  \<^verbatim>\<open>src/src/mqttium/protocol/engine.py\<close> that the sessions call back: emitting effects, the packet size limit and the
  local teardown of a connection. The sessions keep a reference to their engine and the engine to its sessions, so
  all three are one state. The effects are those of \<^verbatim>\<open>protocol/effects.py\<close>.
\<close>

subsection \<open>Effects\<close>

datatype connection_state = NEW | CONNECTING | CONNECTED | DISCONNECTING | DISCONNECTED | RECONNECTING

text \<open>Why a publication failed: the broker's rejection with its reason code and properties, or an exception.\<close>

datatype failure = PublishRejected string int "properties option" | Raised exn

text \<open>A delivered message. \<open>d_decoded\<close> tells \<^verbatim>\<open>DECODED_MESSAGE\<close> from \<^verbatim>\<open>MESSAGE\<close>; \<open>d_ack_token\<close> is
  the message's \<^verbatim>\<open>_ack_token\<close>. A token \<^verbatim>\<open>object()\<close>, only compared by identity, is a number never used before.\<close>

record delivery =
  d_decoded :: bool
  d_message :: message
  d_mark :: bool
  d_wire_size :: "nat option"
  d_exchange :: "nat option"
  d_ack_token :: "nat option"

datatype effect =
    EffSend write_item
  | EffSendAck bytes
  | EffMessage delivery
  | EffConnack connack_packet
  | EffPublishComplete "int option"
  | EffPublishFailed int failure
  | EffSuback suback_packet
  | EffUnsuback suback_packet
  | EffDisconnected int "properties option" bool
  | EffProtocolError exn
  | EffPingresp
  | EffAuth control_packet "int option"
  | EffContinueInboundReplay

record publish_handle =
  handle_mid :: "int option"
  handle_qos :: int

subsection \<open>The sessions and the engine\<close>

text \<open>A queue entry is a message object or the frozen summary of a stored one.\<close>

datatype queue_entry = Held nat | Summary outbound_summary

record outbound_session =
  o_packet_ids :: pool
  o_flow :: flow
  o_queued :: "queue_entry list"
  o_parked :: "int set"
  o_sealed :: "(int \<times> bool) list"
  o_pending_messages :: int
  o_pending_bytes :: int
  o_high_messages :: int
  o_high_bytes :: int
  o_topic_aliases :: "int \<Rightarrow> pystr option"

text \<open>The replay cursor: what its generator has still to visit, the page being read, the message pushed back and
  the number of stored messages not yet paged.\<close>

record replay_cursor =
  rc_pages :: "nat list"
  rc_page_messages :: "nat list option"
  rc_pending :: "nat option"
  rc_remaining :: int

record inbound_session =
  i_aliases :: "(int \<times> pystr) list"
  i_receive_maximum :: int
  i_topic_alias_maximum :: int
  i_current_persisted_mids :: "int set"
  i_exchange_tokens :: "int \<Rightarrow> nat option"
  i_pending_completions :: "int \<Rightarrow> inbound_state option"
  i_autoack_handoff_required :: bool
  i_pending_auto_qos1_mids :: "int set"
  i_pending_pubcomps :: "int set"
  i_pending_pubcomp_slots :: int
  i_pending_manual_qos1_acks :: "int set"
  i_manual_qos1_order :: "int list"
  i_pending_bytes :: int
  i_pending_high_water_bytes :: int
  i_recovered_mids :: "int set"
  i_replay :: "replay_cursor option"
  i_stored_inbound :: int
  i_next_token :: nat

record engine =
  e_config :: engine_config
  e_store :: mem_store
  e_state :: connection_state
  e_session_present :: bool
  e_negotiated :: negotiated_settings
  e_effects :: "effect list"
  e_out :: outbound_session
  e_in :: inbound_session
  e_prefer_session_resume :: bool
  e_session_client_id :: "pystr option"
  e_sent_client_id :: pystr
  e_sent_clean_start :: bool
  e_sent_session_expiry_interval :: "int option"
  e_sent_maximum_packet_size :: "int option"
  e_sent_request_problem_information :: int
  e_sent_request_response_information :: int
  e_auth_method :: "pystr option"
  e_reauth_in_progress :: bool
  e_auth_challenges :: int
  e_auth_response_due :: "int option"
  e_pending_sub_requests :: "(int \<times> packet_type \<times> nat) list"

type_synonym 'a eop = "(engine, 'a) op"

definition e_codec :: "engine \<Rightarrow> codec_bindings" where
  "e_codec e = bind_codec (cfg_protocol (e_config e))"

text \<open>Updates of a part of the state.\<close>

definition mod_out :: "(outbound_session \<Rightarrow> outbound_session) \<Rightarrow> unit eop" where
  "mod_out f = smod (\<lambda>e. e\<lparr>e_out := f (e_out e)\<rparr>)"

definition mod_in :: "(inbound_session \<Rightarrow> inbound_session) \<Rightarrow> unit eop" where
  "mod_in f = smod (\<lambda>e. e\<lparr>e_in := f (e_in e)\<rparr>)"

text \<open>A call on a component that returns a value and its new state.\<close>

definition on_store :: "(mem_store \<Rightarrow> 'a \<times> mem_store) \<Rightarrow> 'a eop" where
  "on_store f e = (let (x, st) = f (e_store e) in (Inr x, e\<lparr>e_store := st\<rparr>))"

definition on_store_try :: "(mem_store \<Rightarrow> 'a result \<times> mem_store) \<Rightarrow> 'a eop" where
  "on_store_try f e = (let (x, st) = f (e_store e) in (x, e\<lparr>e_store := st\<rparr>))"

definition on_flow :: "(flow \<Rightarrow> 'a result \<times> flow) \<Rightarrow> 'a eop" where
  "on_flow f e = (let (x, w) = f (o_flow (e_out e)) in (x, e\<lparr>e_out := (e_out e)\<lparr>o_flow := w\<rparr>\<rparr>))"

definition on_ids :: "(pool \<Rightarrow> 'a result \<times> pool) \<Rightarrow> 'a eop" where
  "on_ids f e = (let (x, p) = f (o_packet_ids (e_out e)) in (x, e\<lparr>e_out := (e_out e)\<lparr>o_packet_ids := p\<rparr>\<rparr>))"

definition free_flow :: "int \<Rightarrow> unit eop" where
  "free_flow mid = mod_out (\<lambda>s. s\<lparr>o_flow := snd (flow_release mid (o_flow s))\<rparr>)"

definition free_id :: "int \<Rightarrow> unit eop" where
  "free_id mid = mod_out (\<lambda>s. s\<lparr>o_packet_ids := release mid (o_packet_ids s)\<rparr>)"

subsection \<open>Emission\<close>

definition emit :: "effect \<Rightarrow> unit eop" where
  "emit eff = smod (\<lambda>e. e\<lparr>e_effects := e_effects e @ [eff]\<rparr>)"

definition send :: "write_item \<Rightarrow> unit eop" where
  "send packet = emit (EffSend packet)"

definition send_ack :: "bytes \<Rightarrow> unit eop" where
  "send_ack packet = emit (EffSendAck packet)"

definition check_outbound_size :: "write_item \<Rightarrow> unit eop" where
  "check_outbound_size wire = sask (\<lambda>e.
     case maximum_packet_size (e_negotiated e) of
       None \<Rightarrow> Inr ()
     | Some limit \<Rightarrow> if int (item_size wire) > limit then Inl PacketTooLargeError else Inr ())"

text \<open>\<^verbatim>\<open>isinstance(exc, ProtocolError)\<close>: the class and its subclasses.\<close>

definition is_protocol_error :: "exn \<Rightarrow> bool" where
  "is_protocol_error e \<longleftrightarrow> (case e of ProtocolError \<Rightarrow> True | PublishRejectedError _ \<Rightarrow> True | PacketTooLargeError \<Rightarrow> True
     | MandatoryResponseTooLargeError \<Rightarrow> True | _ \<Rightarrow> False)"

definition is_too_large :: "exn \<Rightarrow> bool" where
  "is_too_large e \<longleftrightarrow> e = PacketTooLargeError \<or> e = MandatoryResponseTooLargeError"

subsection \<open>Local teardown\<close>

definition holds_packet_ids :: "outbound_session \<Rightarrow> bool" where
  "holds_packet_ids s \<longleftrightarrow> o_pending_messages s > 0 \<or> o_sealed s \<noteq> []"

definition release_pending_subscription_requests :: "unit eop" where
  "release_pending_subscription_requests =
     sbind (sget e_pending_sub_requests) (\<lambda>pending.
       sunless (pending = [])
         (sthen
            (sbind (sget (\<lambda>e. holds_packet_ids (e_out e))) (\<lambda>held.
               if \<not> held then mod_out (\<lambda>s. s\<lparr>o_packet_ids := pool_clear (o_packet_ids s)\<rparr>)
               else sfor (\<lambda>(mid, _). free_id mid) pending))
            (smod (\<lambda>e. e\<lparr>e_pending_sub_requests := []\<rparr>))))"

definition enter_disconnected :: "unit eop" where
  "enter_disconnected =
     smod (\<lambda>e. e\<lparr>e_reauth_in_progress := False, e_auth_response_due := None, e_state := DISCONNECTED\<rparr>)"

definition protocol_disconnect :: "int \<Rightarrow> unit eop" where
  "protocol_disconnect reason_code =
     sthen
       (sbind (sget e_codec) (\<lambda>codec.
          swhen (is_mqtt5 codec)
            (sbind (slift (bound_encode_disconnect codec reason_code None)) (\<lambda>packet.
               sbind (scatch (sthen (check_outbound_size (Contiguous packet)) (sret True))
                        (\<lambda>e. if is_too_large e then sret False else sraise e)) (\<lambda>fits.
                 swhen fits (send (Contiguous packet)))))))
       (sthen enter_disconnected
         (sthen release_pending_subscription_requests
           (emit (EffDisconnected reason_code None False))))"

definition validate_inbound_problem_information :: "properties option \<Rightarrow> unit eop" where
  "validate_inbound_problem_information props =
     sbind (sget id) (\<lambda>e.
       if \<not> is_mqtt5 (e_codec e) \<or> e_sent_request_problem_information e \<noteq> 0 \<or> props = None then sret ()
       else if \<not> props_has props ''reason_string'' \<and> \<not> props_has props ''user_property'' then sret ()
       else sthen (protocol_disconnect 0x82) (sraise ProtocolError))"

subsection \<open>Weakest preconditions of the primitives\<close>

lemma wp_mod_out [wp_simps]: "wp (mod_out f) Q E = (\<lambda>e. Q () (e\<lparr>e_out := f (e_out e)\<rparr>))"
  by (rule ext) (simp add: mod_out_def wp_simps)

lemma wp_mod_in [wp_simps]: "wp (mod_in f) Q E = (\<lambda>e. Q () (e\<lparr>e_in := f (e_in e)\<rparr>))"
  by (rule ext) (simp add: mod_in_def wp_simps)

lemma wp_on_store [wp_simps]: "wp (on_store f) Q E = (\<lambda>e. (case f (e_store e) of (x, st) \<Rightarrow> Q x (e\<lparr>e_store := st\<rparr>)))"
  by (rule ext) (simp add: wp_def on_store_def split: prod.split)

lemma wp_on_store_try [wp_simps]:
  "wp (on_store_try f) Q E = (\<lambda>e. (case f (e_store e) of (r, st) \<Rightarrow>
     case r of Inl x \<Rightarrow> E x (e\<lparr>e_store := st\<rparr>) | Inr x \<Rightarrow> Q x (e\<lparr>e_store := st\<rparr>)))"
  by (rule ext) (simp add: wp_def on_store_try_def split: prod.split sum.split)

lemma wp_on_flow [wp_simps]:
  "wp (on_flow f) Q E = (\<lambda>e. (case f (o_flow (e_out e)) of (r, w) \<Rightarrow>
     case r of Inl x \<Rightarrow> E x (e\<lparr>e_out := (e_out e)\<lparr>o_flow := w\<rparr>\<rparr>) | Inr x \<Rightarrow> Q x (e\<lparr>e_out := (e_out e)\<lparr>o_flow := w\<rparr>\<rparr>)))"
  by (rule ext) (simp add: wp_def on_flow_def split: prod.split sum.split)

lemma wp_on_ids [wp_simps]:
  "wp (on_ids f) Q E = (\<lambda>e. (case f (o_packet_ids (e_out e)) of (r, p) \<Rightarrow>
     case r of Inl x \<Rightarrow> E x (e\<lparr>e_out := (e_out e)\<lparr>o_packet_ids := p\<rparr>\<rparr>) | Inr x \<Rightarrow> Q x (e\<lparr>e_out := (e_out e)\<lparr>o_packet_ids := p\<rparr>\<rparr>)))"
  by (rule ext) (simp add: wp_def on_ids_def split: prod.split sum.split)

lemma wp_free_flow [wp_simps]:
  "wp (free_flow mid) Q E = (\<lambda>e. Q () (e\<lparr>e_out := (e_out e)\<lparr>o_flow := snd (flow_release mid (o_flow (e_out e)))\<rparr>\<rparr>))"
  by (rule ext) (simp add: free_flow_def wp_simps)

lemma wp_free_id [wp_simps]:
  "wp (free_id mid) Q E = (\<lambda>e. Q () (e\<lparr>e_out := (e_out e)\<lparr>o_packet_ids := release mid (o_packet_ids (e_out e))\<rparr>\<rparr>))"
  by (rule ext) (simp add: free_id_def wp_simps)

lemma wp_emit [wp_simps]: "wp (emit eff) Q E = (\<lambda>e. Q () (e\<lparr>e_effects := e_effects e @ [eff]\<rparr>))"
  by (rule ext) (simp add: emit_def wp_simps)

lemma wp_send [wp_simps]: "wp (send w) Q E = (\<lambda>e. Q () (e\<lparr>e_effects := e_effects e @ [EffSend w]\<rparr>))"
  by (rule ext) (simp add: send_def wp_simps)

lemma wp_send_ack [wp_simps]: "wp (send_ack w) Q E = (\<lambda>e. Q () (e\<lparr>e_effects := e_effects e @ [EffSendAck w]\<rparr>))"
  by (rule ext) (simp add: send_ack_def wp_simps)

definition fits :: "write_item \<Rightarrow> engine \<Rightarrow> bool" where
  "fits wire e \<longleftrightarrow> (case maximum_packet_size (e_negotiated e) of None \<Rightarrow> True | Some limit \<Rightarrow> int (item_size wire) \<le> limit)"

lemma wp_check_outbound_size [wp_simps]:
  "wp (check_outbound_size wire) Q E = (\<lambda>e. (if fits wire e then Q () e else E PacketTooLargeError e))"
  by (rule ext) (simp add: check_outbound_size_def wp_simps fits_def split: option.split)

lemma wp_enter_disconnected [wp_simps]:
  "wp enter_disconnected Q E = (\<lambda>e. Q () (e\<lparr>e_reauth_in_progress := False, e_auth_response_due := None, e_state := DISCONNECTED\<rparr>))"
  by (rule ext) (simp add: enter_disconnected_def wp_simps)

end
