(* ===== verification/Outbound.thy ===== *)
theory Outbound
  imports Engine_State
begin

text \<open>
  Client to broker publication, \<^verbatim>\<open>src/src/mqttium/protocol/outbound.py\<close> with \<^verbatim>\<open>protocol/_sizing.py\<close>: admission under
  the unacknowledged budgets, packet identifiers, the send window, the acknowledgement handlers, the queue of
  publications waiting for a slot, hydration from a durable store, replay on a resumed session and the purge
  after a lost one. The store is the in-memory one, whose deletions and conditional updates never raise, so the
  handlers for a failing store have nothing to handle. \<^verbatim>\<open>int(alias)\<close> of a property that is not an integer is given
  the error of the property encoder, which refuses the value on every path.
\<close>

subsection \<open>Write items\<close>

definition retain_publish_item :: "write_item \<Rightarrow> write_item option" where
  "retain_publish_item item = (case item of Contiguous _ \<Rightarrow> None | Segmented _ _ \<Rightarrow> Some item)"

text \<open>Every encoded frame has a first byte; an empty one would raise \<^verbatim>\<open>IndexError\<close>.\<close>

fun mark_dup_bytes :: "bytes \<Rightarrow> bytes result" where
  "mark_dup_bytes [] = Inl IndexError"
| "mark_dup_bytes (b # bs) = Inr (if b AND 0x08 \<noteq> 0 then b # bs else (b OR 0x08) # bs)"

definition mark_publish_dup :: "write_item \<Rightarrow> write_item result" where
  "mark_publish_dup item =
     (case item of
        Contiguous bs \<Rightarrow> rbind (mark_dup_bytes bs) (\<lambda>bs'. Inr (Contiguous bs'))
      | Segmented header payload \<Rightarrow> rbind (mark_dup_bytes header) (\<lambda>h. Inr (Segmented h payload)))"

text \<open>\<^verbatim>\<open>QoS(qos)\<close> and \<^verbatim>\<open>int(value)\<close> of a property value. Text and bytes are read as decimal numerals: white space around, a sign, digits with single
  underscores between them, at most 4300 of them; of the characters only ASCII ones are recognised. A float, whose value the model drops, is refused
  here with the class that the encoder of the property raises for it.\<close>

definition qos_of :: "int \<Rightarrow> int result" where
  "qos_of qos = (if qos \<in> {0, 1, 2} then Inr qos else Inl ValueError)"

fun digit_run :: "int \<Rightarrow> bool \<Rightarrow> nat list \<Rightarrow> int option" where
  "digit_run n after_digit [] = (if after_digit then Some n else None)"
| "digit_run n after_digit (c # cs) =
     (if 48 \<le> c \<and> c \<le> 57 then digit_run (10 * n + int c - 48) True cs
      else if c = 95 \<and> after_digit then digit_run n False cs
      else None)"

definition int_of_text :: "nat set \<Rightarrow> nat list \<Rightarrow> int result" where
  "int_of_text space text =
     (let t = rev (dropWhile (\<lambda>c. c \<in> space) (rev (dropWhile (\<lambda>c. c \<in> space) text)));
          digits = (if t \<noteq> [] \<and> hd t \<in> {43, 45} then tl t else t)
      in if 4300 < length (filter (\<lambda>c. c \<noteq> 95) digits) then Inl ValueError
         else case digit_run 0 False digits of None \<Rightarrow> Inl ValueError | Some n \<Rightarrow> Inr (if hd t = 45 then - n else n))"

definition py_int :: "prop_value \<Rightarrow> int result" where
  "py_int v = (case v of
      VInt n \<Rightarrow> Inr n
    | VStr s \<Rightarrow> int_of_text {9, 10, 11, 12, 13, 28, 29, 30, 31, 32} s
    | VBytes bs \<Rightarrow> int_of_text {9, 10, 11, 12, 13, 32} (map unat bs)
    | VFloat \<Rightarrow> Inl ProtocolError
    | _ \<Rightarrow> Inl TypeError)"

text \<open>\<^verbatim>\<open>properties.get("topic_alias")\<close>, when it is not \<^verbatim>\<open>None\<close>.\<close>

definition alias_value :: "properties option \<Rightarrow> prop_value option" where
  "alias_value props = (case props of None \<Rightarrow> None
     | Some p \<Rightarrow> (case props_get p ''topic_alias'' of Some VNone \<Rightarrow> None | v \<Rightarrow> v))"

definition utf8_size :: "pystr \<Rightarrow> nat result" where
  "utf8_size topic = (if isascii topic then Inr (length topic) else rbind (utf8_encode topic) (\<lambda>bs. Inr (length bs)))"

subsection \<open>Queue entries\<close>

definition entry_view :: "mem_store \<Rightarrow> queue_entry \<Rightarrow> outbound_summary" where
  "entry_view st m = (case m of Held a \<Rightarrow> from_message (out_heap st ! a) | Summary s \<Rightarrow> s)"

definition entry_mid :: "mem_store \<Rightarrow> queue_entry \<Rightarrow> int" where
  "entry_mid st m = os_mid (entry_view st m)"

definition entry_publish :: "mem_store \<Rightarrow> queue_entry \<Rightarrow> write_item option" where
  "entry_publish st m = (case m of Held a \<Rightarrow> om_encoded_publish (out_heap st ! a) | Summary _ \<Rightarrow> None)"

definition entry_pubrel :: "mem_store \<Rightarrow> queue_entry \<Rightarrow> bytes option" where
  "entry_pubrel st m = (case m of Held a \<Rightarrow> om_encoded_pubrel (out_heap st ! a) | Summary _ \<Rightarrow> None)"

text \<open>Reading and mutating a message object.\<close>

definition get_msg :: "nat \<Rightarrow> outbound_message eop" where
  "get_msg a = sget (\<lambda>e. out_heap (e_store e) ! a)"

definition mod_msg :: "nat \<Rightarrow> (outbound_message \<Rightarrow> outbound_message) \<Rightarrow> unit eop" where
  "mod_msg a f = smod (\<lambda>e. e\<lparr>e_store := (e_store e)\<lparr>out_heap := (out_heap (e_store e))[a := f (out_heap (e_store e) ! a)]\<rparr>\<rparr>)"

subsection \<open>Connection-scoped topic aliases\<close>

definition new_outbound :: "engine_config \<Rightarrow> outbound_session" where
  "new_outbound c =
     \<lparr>o_packet_ids = new_pool, o_flow = new_flow (max_inbound_inflight c), o_queued = [], o_parked = {},
      o_sealed = [], o_pending_messages = 0, o_pending_bytes = 0, o_high_messages = 0, o_high_bytes = 0,
      o_topic_aliases = Map.empty\<rparr>"

definition out_start_connection :: "unit eop" where
  "out_start_connection = mod_out (\<lambda>s. s\<lparr>o_topic_aliases := Map.empty\<rparr>)"

definition out_transport_closed :: "unit eop" where
  "out_transport_closed = mod_out (\<lambda>s. s\<lparr>o_topic_aliases := Map.empty\<rparr>)"

definition commit_topic_alias :: "pystr \<Rightarrow> properties option \<Rightarrow> unit eop" where
  "commit_topic_alias topic props =
     (if topic \<noteq> [] then
        (case alias_value props of
           None \<Rightarrow> sret ()
         | Some v \<Rightarrow> sbind (slift (py_int v)) (\<lambda>alias. mod_out (\<lambda>s. s\<lparr>o_topic_aliases := (o_topic_aliases s)(alias \<mapsto> topic)\<rparr>)))
      else sret ())"

definition fail_publish :: "int \<Rightarrow> failure \<Rightarrow> unit eop" where
  "fail_publish mid reason = emit (EffPublishFailed mid reason)"

subsection \<open>Admission\<close>

definition can_ever_admit :: "int \<Rightarrow> engine \<Rightarrow> bool result" where
  "can_ever_admit qos e =
     rbind (qos_of qos) (\<lambda>level.
       if level = 0 then Inr True
       else case max_unacknowledged_messages (e_config e) of None \<Rightarrow> Inr True | Some limit \<Rightarrow> Inr (limit \<ge> 1))"

definition reserve_budget :: "int \<Rightarrow> unit eop" where
  "reserve_budget logical_size =
     sbind (sget id) (\<lambda>e.
       let s = e_out e in
       if (case max_unacknowledged_messages (e_config e) of None \<Rightarrow> False | Some limit \<Rightarrow> o_pending_messages s \<ge> limit)
       then sraise FlowControlError
       else if (case max_unacknowledged_bytes (e_config e) of None \<Rightarrow> False
                | Some limit \<Rightarrow> o_pending_bytes s + logical_size > limit \<and> o_pending_bytes s \<noteq> 0)
       then sraise FlowControlError
       else mod_out (\<lambda>s. s\<lparr>o_pending_messages := o_pending_messages s + 1, o_pending_bytes := o_pending_bytes s + logical_size\<rparr>))"

definition release_reservation :: "int \<Rightarrow> unit eop" where
  "release_reservation logical_size =
     sbind (sget e_out) (\<lambda>s.
       if o_pending_messages s \<le> 0 then sraise AssertionError
       else if logical_size < 0 \<or> logical_size > o_pending_bytes s then sraise AssertionError
       else mod_out (\<lambda>s. s\<lparr>
              o_high_messages := (if o_pending_messages s > o_high_messages s then o_pending_messages s else o_high_messages s),
              o_high_bytes := (if o_pending_bytes s > o_high_bytes s then o_pending_bytes s else o_high_bytes s),
              o_pending_messages := o_pending_messages s - 1,
              o_pending_bytes := o_pending_bytes s - logical_size\<rparr>))"

definition delete_failed_admission :: "int \<Rightarrow> bool eop" where
  "delete_failed_admission mid = sthen (on_store (delete_out mid)) (sret True)"

definition rollback :: "int \<Rightarrow> int \<Rightarrow> int list \<Rightarrow> unit eop" where
  "rollback messages_start bytes_start mids =
     sthen
       (sfor (\<lambda>mid. sthen (free_flow mid) (sbind (delete_failed_admission mid) (\<lambda>free. swhen free (free_id mid)))) mids)
       (mod_out (\<lambda>s. s\<lparr>o_pending_messages := messages_start, o_pending_bytes := bytes_start\<rparr>))"

definition resolve_outbound_alias :: "pystr \<Rightarrow> int \<Rightarrow> engine \<Rightarrow> pystr result" where
  "resolve_outbound_alias topic alias e =
     (if alias = 0 then Inl ProtocolError
      else if topic \<noteq> [] then Inr topic
      else if e_state e \<noteq> CONNECTED then Inl ProtocolError
      else if alias > topic_alias_maximum (e_negotiated e) then Inl ProtocolError
      else case o_topic_aliases (e_out e) alias of
             None \<Rightarrow> Inl ProtocolError
           | Some canonical \<Rightarrow> if canonical = [] then Inl ProtocolError else Inr canonical)"

subsection \<open>Sizing\<close>

definition publish_logical_size :: "bool \<Rightarrow> pystr \<Rightarrow> int \<Rightarrow> properties option \<Rightarrow> nat option \<Rightarrow> int result" where
  "publish_logical_size is_v5 topic payload_size props property_wire_size =
     rbind (if is_v5 \<and> props_bool props then
              (case property_wire_size of
                 None \<Rightarrow> rbind (encode_properties props ''PUBLISH'') (\<lambda>bs. Inr (int (length bs)))
               | Some n \<Rightarrow> Inr (int n))
            else Inr 0) (\<lambda>property_bytes.
       rbind (utf8_size topic) (\<lambda>topic_bytes. Inr (payload_size + int topic_bytes + property_bytes)))"

definition is_v5 :: "engine \<Rightarrow> bool" where
  "is_v5 e = is_mqtt5 (e_codec e)"

definition out_logical_size_from_size :: "pystr \<Rightarrow> int \<Rightarrow> properties option \<Rightarrow> engine \<Rightarrow> int result" where
  "out_logical_size_from_size topic payload_size props e = publish_logical_size (is_v5 e) topic payload_size props None"

definition out_logical_size :: "pystr \<Rightarrow> bytes \<Rightarrow> properties option \<Rightarrow> engine \<Rightarrow> int result" where
  "out_logical_size topic payload props e = out_logical_size_from_size topic (int (length payload)) props e"

definition stored_logical_size :: "outbound_summary \<Rightarrow> int result" where
  "stored_logical_size stored = (if os_logical_size stored \<le> 0 then Inl ValueError else Inr (os_logical_size stored))"

definition size_parts ::
  "pystr \<Rightarrow> properties option \<Rightarrow> nat option \<Rightarrow> engine \<Rightarrow> (int \<times> int \<times> int \<times> bytes option) result" where
  "size_parts topic props topic_size_opt e =
     rbind (case topic_size_opt of None \<Rightarrow> utf8_size topic | Some n \<Rightarrow> Inr n) (\<lambda>topic_size.
       if \<not> is_v5 e then Inr (int topic_size, 0, 0, None)
       else if \<not> props_bool props then Inr (int topic_size, 1, 0, Some [0])
       else rbind (encode_properties props ''PUBLISH'') (\<lambda>encoded.
         Inr (int topic_size, int (length encoded), int (length encoded), Some encoded)))"

definition publish_wire_size_from_parts :: "int \<Rightarrow> int \<Rightarrow> int \<Rightarrow> int \<Rightarrow> int result" where
  "publish_wire_size_from_parts topic_bytes wire_property_bytes payload_size qos =
     (let remaining = 2 + topic_bytes + (if qos \<noteq> 0 then 2 else 0) + wire_property_bytes + payload_size
      in if remaining > MAX_VBI then Inl PacketTooLargeError
         else rbind (vbi_len remaining) (\<lambda>n. Inr (1 + int n + remaining)))"

definition publish_wire_size :: "pystr \<Rightarrow> int \<Rightarrow> int \<Rightarrow> properties option \<Rightarrow> engine \<Rightarrow> int result" where
  "publish_wire_size topic payload_size qos props e =
     rbind (qos_of qos) (\<lambda>level.
       rbind (size_parts topic props None e) (\<lambda>(topic_bytes, wire_property_bytes, _, _).
         publish_wire_size_from_parts topic_bytes wire_property_bytes payload_size level))"

definition check_publish_wire_size :: "int \<Rightarrow> int \<Rightarrow> int \<Rightarrow> int \<Rightarrow> bool \<Rightarrow> engine \<Rightarrow> int option result" where
  "check_publish_wire_size topic_bytes wire_property_bytes payload_size qos include_wire_size e =
     (let limit = maximum_packet_size (e_negotiated e)
      in if limit = None \<and> \<not> include_wire_size then Inr None
         else rbind (publish_wire_size_from_parts topic_bytes wire_property_bytes payload_size qos) (\<lambda>encoded_size.
           if (case limit of None \<Rightarrow> False | Some n \<Rightarrow> encoded_size > n) then Inl PacketTooLargeError
           else Inr (Some encoded_size)))"

definition check_publish_size :: "pystr \<Rightarrow> int \<Rightarrow> int \<Rightarrow> properties option \<Rightarrow> engine \<Rightarrow> unit result" where
  "check_publish_size topic payload_size qos props e =
     rbind (size_parts topic props None e) (\<lambda>(topic_bytes, wire_property_bytes, _, _).
       rbind (check_publish_wire_size topic_bytes wire_property_bytes payload_size qos False e) (\<lambda>_. Inr ()))"

subsection \<open>Preparing a publication\<close>

text \<open>QoS, encoded topic, canonical topic, encoded properties, logical size and exact wire size.\<close>

type_synonym prepared_publish = "int \<times> bytes option \<times> pystr \<times> bytes option \<times> int \<times> int option"

definition prepare_alias :: "pystr \<Rightarrow> properties option \<Rightarrow> engine \<Rightarrow> (int option \<times> pystr) result" where
  "prepare_alias topic props e =
     (case (if is_v5 e then alias_value props else None) of
        None \<Rightarrow> Inr (None, topic)
      | Some v \<Rightarrow> rbind (py_int v) (\<lambda>alias. rbind (resolve_outbound_alias topic alias e) (\<lambda>canonical. Inr (Some alias, canonical))))"

definition refuse_publish_properties :: "properties option \<Rightarrow> engine \<Rightarrow> unit result" where
  "refuse_publish_properties props e =
     (if \<not> is_v5 e \<and> props_bool props then Inl ProtocolError
      else if is_v5 e \<and> props_has props ''subscription_identifier'' then Inl ProtocolError
      else Inr ())"

definition prepare_publish_request ::
  "pystr \<Rightarrow> bytes \<Rightarrow> int \<Rightarrow> bool \<Rightarrow> properties option \<Rightarrow> bool \<Rightarrow> engine \<Rightarrow> prepared_publish result" where
  "prepare_publish_request topic payload qos retain props include_wire_size e =
     rbind (qos_of qos) (\<lambda>level.
     rbind (refuse_publish_properties props e) (\<lambda>_.
     rbind (if level \<noteq> 0 \<and> is_v5 e then validate_payload_format payload props else Inr ()) (\<lambda>_.
     rbind (prepare_alias topic props e) (\<lambda>(alias, canonical_topic).
     let allow_empty = (alias \<noteq> None \<and> topic = []) in
     rbind (if level = 0 \<or> (e_state e = CONNECTED \<and> flow_available (o_flow (e_out e)) > 0)
            then rbind (encode_validated_publish_topic topic allow_empty) (\<lambda>bs. Inr (Some bs, length bs))
            else rbind (validate_publish_topic topic allow_empty) (\<lambda>n. Inr (None, n))) (\<lambda>(topic_bytes, topic_size).
     rbind (if e_state e = CONNECTED then
              (if level > maximum_qos (e_negotiated e) then Inl ProtocolError
               else if retain \<and> \<not> retain_available (e_negotiated e) then Inl ProtocolError
               else case alias of None \<Rightarrow> Inr ()
                    | Some a \<Rightarrow> if a > topic_alias_maximum (e_negotiated e) then Inl ProtocolError else Inr ())
            else Inr ()) (\<lambda>_.
     if e_state e \<noteq> CONNECTED \<and> level = 0 then Inl NotConnectedError
     else if level = 0 then Inr (level, topic_bytes, canonical_topic, None, 0, None)
     else
       rbind (size_parts topic props (Some topic_size) e) (\<lambda>(topic_size, wire_property_bytes, logical_property_bytes, property_bytes).
       rbind (check_publish_wire_size topic_size wire_property_bytes (int (length payload)) level include_wire_size e) (\<lambda>wire_size.
       rbind (if canonical_topic \<noteq> topic then rbind (utf8_size canonical_topic) (\<lambda>n. Inr (int n)) else Inr topic_size) (\<lambda>logical_topic_size.
         Inr (level, topic_bytes, canonical_topic, property_bytes,
              int (length payload) + logical_topic_size + logical_property_bytes, wire_size))))))))))"

definition prepare_qos0 :: "pystr \<Rightarrow> bytes \<Rightarrow> bool \<Rightarrow> properties option \<Rightarrow> write_item eop" where
  "prepare_qos0 topic payload retain props =
     sbind (sget id) (\<lambda>e.
     sbind (if props = None then slift (rbind (encode_validated_publish_topic topic False) (\<lambda>bs. Inr (None, bs)))
            else slift (rbind (refuse_publish_properties props e) (\<lambda>_.
                   rbind (prepare_alias topic props e) (\<lambda>(alias, _).
                     rbind (encode_validated_publish_topic topic (alias \<noteq> None \<and> topic = [])) (\<lambda>bs. Inr (alias, bs)))))) (\<lambda>(alias, topic_bytes).
     sthen (slift (if e_state e = CONNECTED then
                     (if retain \<and> \<not> retain_available (e_negotiated e) then Inl ProtocolError
                      else case alias of None \<Rightarrow> Inr ()
                           | Some a \<Rightarrow> if a > topic_alias_maximum (e_negotiated e) then Inl ProtocolError else Inr ())
                   else Inl NotConnectedError))
     (sbind (slift (bound_encode_publish_item (e_codec e) topic payload 0 retain False None props (Some topic_bytes) None)) (\<lambda>item.
        sthen (check_outbound_size item) (sret item)))))"

subsection \<open>Launching and retransmission\<close>

definition launch :: "nat \<Rightarrow> bool \<Rightarrow> bytes option \<Rightarrow> bytes option \<Rightarrow> pystr option \<Rightarrow> unit eop" where
  "launch a persisted property_bytes topic_bytes wire_topic_opt =
     sbind (get_msg a) (\<lambda>msg.
     sbind (sget e_codec) (\<lambda>codec.
     let wire_topic = (case wire_topic_opt of None \<Rightarrow> om_topic msg | Some t \<Rightarrow> t) in
     sbind (case om_encoded_publish msg of
              Some wire \<Rightarrow> sret wire
            | None \<Rightarrow> slift (bound_encode_publish_item codec wire_topic (om_payload msg) (om_qos msg) (om_retain msg) (om_dup msg)
                              (Some (om_mid msg)) (om_properties msg) topic_bytes property_bytes)) (\<lambda>wire.
     sthen (check_outbound_size wire)
     (let target_state = (if om_qos msg = 1 then WAIT_PUBACK else WAIT_PUBREC);
          retained = (if wire_topic = om_topic msg then retain_publish_item wire else None);
          follow = mod_msg a (\<lambda>m. m\<lparr>om_state := target_state, om_encoded_publish := retained\<rparr>)
      in sthen
           (if persisted then
              sbind (on_store (transition_out (om_mid msg) QUEUED target_state False)) (\<lambda>changed.
                case changed of None \<Rightarrow> sraise RuntimeError | Some _ \<Rightarrow> follow)
            else sthen follow (on_store_try (put_out a)))
           (sthen (send wire) (commit_topic_alias wire_topic (om_properties msg)))))))"

definition try_launch :: "nat \<Rightarrow> bytes option \<Rightarrow> bytes option \<Rightarrow> pystr option \<Rightarrow> bool eop" where
  "try_launch a property_bytes topic_bytes wire_topic =
     sbind (get_msg a) (\<lambda>msg.
     sbind (on_flow (try_acquire (om_mid msg))) (\<lambda>acquired.
       if \<not> acquired then sret False
       else sthen
              (scatch (launch a False property_bytes topic_bytes wire_topic)
                (\<lambda>exc. sthen (free_flow (om_mid msg)) (sraise exc)))
              (sret True)))"

definition retransmit :: "nat \<Rightarrow> unit eop" where
  "retransmit a =
     sbind (get_msg a) (\<lambda>msg.
     sbind (sget e_codec) (\<lambda>codec.
       if om_state msg \<in> {WAIT_PUBACK, WAIT_PUBREC} then
         (let replay_properties = properties_without_topic_alias (om_properties msg);
              changed = (replay_properties \<noteq> om_properties msg);
              retained = (if changed then None else om_encoded_publish msg)
          in sthen (mod_msg a (\<lambda>m. if changed then m\<lparr>om_dup := True, om_properties := replay_properties, om_encoded_publish := None\<rparr>
                                  else m\<lparr>om_dup := True\<rparr>))
             (sbind (case retained of
                       None \<Rightarrow> slift (bound_encode_publish_item codec (om_topic msg) (om_payload msg) (om_qos msg) (om_retain msg) True
                                        (Some (om_mid msg)) replay_properties None None)
                     | Some w \<Rightarrow> slift (mark_publish_dup w)) (\<lambda>wire.
              sthen (check_outbound_size wire)
              (sthen (mod_msg a (\<lambda>m. m\<lparr>om_encoded_publish := retain_publish_item wire\<rparr>))
              (sthen (send wire) (commit_topic_alias (om_topic msg) replay_properties))))))
       else if om_state msg = WAIT_PUBCOMP then
         sbind (case om_encoded_pubrel msg of
                  Some wire \<Rightarrow> sret wire
                | None \<Rightarrow> sbind (slift (encode_pubrel_success (om_mid msg))) (\<lambda>wire.
                    sthen (mod_msg a (\<lambda>m. m\<lparr>om_encoded_pubrel := Some wire\<rparr>))
                    (sthen (check_outbound_size (Contiguous wire)) (sret wire)))) (\<lambda>wire.
           send (Contiguous wire))
       else sraise ProtocolError))"

definition materialize :: "queue_entry \<Rightarrow> nat eop" where
  "materialize stored = (case stored of
       Held a \<Rightarrow> sret a
     | Summary s \<Rightarrow> sask (\<lambda>e. case get_out (os_mid s) (e_store e) of None \<Rightarrow> Inl RuntimeError | Some a \<Rightarrow> Inr a))"

definition discard_record :: "int \<Rightarrow> queue_entry \<Rightarrow> unit eop" where
  "discard_record mid stored =
     sthen (on_store (delete_out mid))
       (sbind (sask (\<lambda>e. stored_logical_size (entry_view (e_store e) stored))) release_reservation)"

definition pop_queue :: "unit eop" where
  "pop_queue = mod_out (\<lambda>s. s\<lparr>o_queued := tl (o_queued s)\<rparr>)"

definition discard_parked :: "int \<Rightarrow> unit eop" where
  "discard_parked mid = mod_out (\<lambda>s. s\<lparr>o_parked := o_parked s - {mid}\<rparr>)"

text \<open>The loop of \<^verbatim>\<open>drain\<close>: what it tries for the head of the queue, what it does when that raises, and one turn
  of the loop, which tells whether it goes on.\<close>

definition send_head :: "queue_entry \<Rightarrow> unit eop" where
  "send_head stored =
     sbind (materialize stored) (\<lambda>a.
     sbind (get_msg a) (\<lambda>msg.
       if om_state msg = QUEUED then
         sthen (swhen (om_dup msg) (mod_msg a (\<lambda>m. m\<lparr>om_dup := False, om_encoded_publish := None\<rparr>)))
               (launch a True None None None)
       else retransmit a))"

definition abandon_head :: "int \<Rightarrow> queue_entry \<Rightarrow> exn \<Rightarrow> unit eop" where
  "abandon_head mid stored exc =
     sthen (free_flow mid)
     (sthen (discard_record mid stored)
     (sthen pop_queue
     (sthen (discard_parked mid)
     (sthen (free_id mid) (fail_publish mid (Raised exc))))))"

definition drain_step :: "bool eop" where
  "drain_step =
     sbind (sget (\<lambda>e. (o_queued (e_out e), e_store e))) (\<lambda>(queued, st).
       case queued of
         [] \<Rightarrow> sret False
       | stored # _ \<Rightarrow>
           (let mid = entry_mid st stored
            in sbind (on_flow (try_acquire mid)) (\<lambda>acquired.
                 if \<not> acquired then sret False
                 else scatch
                   (sthen (send_head stored) (sthen pop_queue (sthen (discard_parked mid) (sret True))))
                   (\<lambda>exc. sthen (abandon_head mid stored exc) (sret True)))))"

lemma wp_get_msg [wp_simps]: "wp (get_msg a) Q E = (\<lambda>e. Q (out_heap (e_store e) ! a) e)"
  by (rule ext) (simp add: get_msg_def wp_simps)

lemma wp_mod_msg [wp_simps]:
  "wp (mod_msg a f) Q E = (\<lambda>e. Q () (e\<lparr>e_store := (e_store e)\<lparr>out_heap := (out_heap (e_store e))[a := f (out_heap (e_store e) ! a)]\<rparr>\<rparr>))"
  by (rule ext) (simp add: mod_msg_def wp_simps)

lemma wp_pop_queue [wp_simps]: "wp pop_queue Q E = (\<lambda>e. Q () (e\<lparr>e_out := (e_out e)\<lparr>o_queued := tl (o_queued (e_out e))\<rparr>\<rparr>))"
  by (rule ext) (simp add: pop_queue_def wp_simps)

lemma wp_discard_parked [wp_simps]:
  "wp (discard_parked mid) Q E = (\<lambda>e. Q () (e\<lparr>e_out := (e_out e)\<lparr>o_parked := o_parked (e_out e) - {mid}\<rparr>\<rparr>))"
  by (rule ext) (simp add: discard_parked_def wp_simps)

lemma wp_fail_publish [wp_simps]: "wp (fail_publish mid f) Q E = (\<lambda>e. Q () (e\<lparr>e_effects := e_effects e @ [EffPublishFailed mid f]\<rparr>))"
  by (rule ext) (simp add: fail_publish_def wp_simps)

text \<open>Sending a publication never touches the queue.\<close>

lemma commit_topic_alias_queue:
  "o_queued (e_out e) = q \<Longrightarrow> wp (commit_topic_alias t p) (\<lambda>_ e. o_queued (e_out e) = q) (\<lambda>_ e. o_queued (e_out e) = q) e"
  by (simp add: commit_topic_alias_def wp_simps split: option.split sum.split)

lemma launch_queue:
  assumes "o_queued (e_out e) = q"
  shows "wp (launch a b pb tb wt) (\<lambda>_ e. o_queued (e_out e) = q) (\<lambda>_ e. o_queued (e_out e) = q) e"
  using assms by (simp add: launch_def wp_simps commit_topic_alias_queue split: option.split sum.split prod.split)

lemma retransmit_queue:
  assumes "o_queued (e_out e) = q"
  shows "wp (retransmit a) (\<lambda>_ e. o_queued (e_out e) = q) (\<lambda>_ e. o_queued (e_out e) = q) e"
  using assms by (simp add: retransmit_def wp_simps commit_topic_alias_queue split: option.split sum.split prod.split)

lemma release_reservation_queue:
  "o_queued (e_out e) = q \<Longrightarrow> wp (release_reservation n) (\<lambda>_ e. o_queued (e_out e) = q) (\<lambda>_ e. o_queued (e_out e) = q) e"
  by (simp add: release_reservation_def wp_simps)

lemma discard_record_queue:
  assumes "o_queued (e_out e) = q"
  shows "wp (discard_record mid m) (\<lambda>_ e. o_queued (e_out e) = q) (\<lambda>_ e. o_queued (e_out e) = q) e"
  using assms by (simp add: discard_record_def wp_simps delete_out_def release_reservation_queue split: sum.split)

lemma send_head_queue:
  assumes "o_queued (e_out e) = q"
  shows "wp (send_head m) (\<lambda>_ e. o_queued (e_out e) = q) (\<lambda>_ e. o_queued (e_out e) = q) e"
  using assms by (simp add: send_head_def materialize_def wp_simps launch_queue retransmit_queue split: queue_entry.split option.split sum.split)

lemma abandon_head_queue:
  assumes "o_queued (e_out e) = q"
  shows "wp (abandon_head mid m exc) (\<lambda>_ e. o_queued (e_out e) = tl q) (\<lambda>_ _. True) e"
  unfolding abandon_head_def wp_simps
  by (rule wp_mono, rule discard_record_queue [where q = q]) (use assms in auto)

lemma drain_step_pops:
  assumes "drain_step e = (Inr True, e')"
  shows "length (o_queued (e_out e')) < length (o_queued (e_out e))"
proof -
  let ?P = "\<lambda>go e'. go \<longrightarrow> length (o_queued (e_out e')) < length (o_queued (e_out e))"
  have "wp drain_step ?P (\<lambda>_ _. True) e"
  proof (cases "o_queued (e_out e)")
    case Nil
    then show ?thesis by (simp add: drain_step_def wp_simps)
  next
    case (Cons stored rest)
    have abandon: "wp (abandon_head mid stored exc) (\<lambda>_. ?P True) (\<lambda>_ _. True) e1"
      if "o_queued (e_out e1) = stored # rest" for mid exc e1
      by (rule wp_mono, rule abandon_head_queue [OF that]) (use Cons in auto)
    have "wp (send_head stored) (\<lambda>_ e1. length (tl (o_queued (e_out e1))) < length (o_queued (e_out e)))
       (\<lambda>exc. wp (abandon_head mid stored exc) (\<lambda>_. ?P True) (\<lambda>_ _. True)) e1"
      if "o_queued (e_out e1) = stored # rest" for mid e1
      by (rule wp_mono, rule send_head_queue [OF that]) (use Cons abandon in auto)
    with Cons show ?thesis by (simp add: drain_step_def wp_simps Let_def split: prod.split sum.split)
  qed
  from wp_Inr [OF this assms] show ?thesis by simp
qed

function drain :: "unit eop" where
  "drain e = (case drain_step e of
      (Inl x, e') \<Rightarrow> (Inl x, e')
    | (Inr go, e') \<Rightarrow> if go then drain e' else (Inr (), e'))"
  by pat_completeness auto
termination
  by (relation "measure (\<lambda>e. length (o_queued (e_out e)))") (auto dest!: drain_step_pops [OF sym])

declare drain.simps [simp del]

lemma drain_unfold: "drain = sbind drain_step (\<lambda>go. if go then drain else sret ())"
  by (rule ext, subst drain.simps) (simp add: sbind_def sret_def split: prod.split sum.split)

lemma wp_drain:
  assumes "I e" "\<And>t. I t \<Longrightarrow> wp drain_step (\<lambda>go t'. if go then I t' else Q () t') E t"
  shows "wp drain Q E e"
  using assms(1)
proof (induction e rule: drain.induct)
  case (1 e)
  have step: "wp drain_step (\<lambda>go t'. if go then I t' else Q () t') E e" using 1(2) by (rule assms(2))
  have "wp drain_step (\<lambda>go t'. wp (if go then drain else sret ()) Q E t') E e"
  proof (rule wpI)
    fix r s'
    assume run: "drain_step e = (r, s')"
    show "case r of Inl x \<Rightarrow> E x s' | Inr go \<Rightarrow> wp (if go then drain else sret ()) Q E s'"
      using wp_Inl [OF step] wp_Inr [OF step] 1(1) run by (cases r) (auto simp: wp_simps)
  qed
  then show ?case by (subst drain_unfold) (simp add: wp_simps)
qed

subsection \<open>Publishing\<close>

text \<open>The part of \<^verbatim>\<open>queue_publish\<close> that acquires: budget, identifier, and either a slot and the wire or a place in the
  queue. Whatever it acquired is given back when it raises.\<close>

definition admit_publish :: "(int set \<Rightarrow> int) \<Rightarrow> pystr \<Rightarrow> bytes \<Rightarrow> bool \<Rightarrow> properties option \<Rightarrow> prepared_publish \<Rightarrow> publish_handle eop" where
  "admit_publish pick topic payload retain props prepared =
     (case prepared of (qos, topic_bytes, canonical_topic, property_bytes, logical_size, _) \<Rightarrow>
      sbind (sget e_out) (\<lambda>start.
      sthen (reserve_budget logical_size)
      (sbind (scatch (on_ids (allocate pick))
               (\<lambda>exc. sthen (rollback (o_pending_messages start) (o_pending_bytes start) []) (sraise exc))) (\<lambda>mid.
       scatch
         (sbind (on_store (new_out \<lparr>om_mid = mid, om_topic = canonical_topic, om_payload = payload, om_qos = qos, om_retain = retain,
                    om_state = QUEUED, om_dup = False, om_properties = props, om_encoded_publish = None,
                    om_encoded_pubrel = None, om_logical_size = logical_size\<rparr>)) (\<lambda>a.
          sbind (sbind (sget e_state) (\<lambda>st. if st = CONNECTED then try_launch a property_bytes topic_bytes (Some topic) else sret False)) (\<lambda>launched.
            if launched then sret \<lparr>handle_mid = Some mid, handle_qos = qos\<rparr>
            else sthen (on_store_try (put_out a))
                   (sthen (mod_out (\<lambda>s. s\<lparr>o_queued := o_queued s @ [Held a]\<rparr>))
                     (sret \<lparr>handle_mid = Some mid, handle_qos = qos\<rparr>)))))
         (\<lambda>exc. sthen (rollback (o_pending_messages start) (o_pending_bytes start) [mid]) (sraise exc))))))"

definition queue_publish ::
  "(int set \<Rightarrow> int) \<Rightarrow> pystr \<Rightarrow> bytes \<Rightarrow> int \<Rightarrow> bool \<Rightarrow> properties option \<Rightarrow> prepared_publish option \<Rightarrow> publish_handle eop" where
  "queue_publish pick topic payload qos retain props prepared_opt =
     (case prepared_opt of
        Some prepared \<Rightarrow> admit_publish pick topic payload retain props prepared
      | None \<Rightarrow>
          sbind (sget e_state) (\<lambda>st.
            if st = DISCONNECTING then sraise NotConnectedError
            else sbind (slift (qos_of qos)) (\<lambda>level.
              if level = 0 then
                sbind (prepare_qos0 topic payload retain props) (\<lambda>item.
                sthen (send item)
                (sthen (commit_topic_alias topic props)
                (sthen (emit (EffPublishComplete None))
                  (sret \<lparr>handle_mid = None, handle_qos = level\<rparr>))))
              else
                sbind (sask (prepare_publish_request topic payload level retain props False)) (\<lambda>prepared.
                  admit_publish pick topic payload retain props prepared))))"

subsection \<open>Broker acknowledgements\<close>

definition report :: "int \<Rightarrow> failure option \<Rightarrow> unit eop" where
  "report mid failure = (case failure of None \<Rightarrow> emit (EffPublishComplete (Some mid)) | Some f \<Rightarrow> fail_publish mid f)"

fun remove_entry :: "mem_store \<Rightarrow> int \<Rightarrow> queue_entry list \<Rightarrow> queue_entry list option" where
  "remove_entry st mid [] = None"
| "remove_entry st mid (m # ms) =
     (if entry_mid st m = mid then Some ms else map_option ((#) m) (remove_entry st mid ms))"

definition unpark :: "int \<Rightarrow> unit eop" where
  "unpark mid =
     sbind (sget id) (\<lambda>e.
       if mid \<notin> o_parked (e_out e) then sret ()
       else sthen (discard_parked mid)
              (case remove_entry (e_store e) mid (o_queued (e_out e)) of
                 None \<Rightarrow> sraise AssertionError
               | Some queued \<Rightarrow> mod_out (\<lambda>s. s\<lparr>o_queued := queued\<rparr>)))"

definition finish :: "int \<Rightarrow> outbound_state \<Rightarrow> failure option \<Rightarrow> unit eop" where
  "finish mid expected_state failure =
     sbind (on_store (complete_out mid expected_state)) (\<lambda>meta_opt.
       case meta_opt of
         None \<Rightarrow> sret ()
       | Some record \<Rightarrow>
           sthen
             (sbind (sget (\<lambda>e. o_sealed (e_out e))) (\<lambda>sealed.
                if mid \<in> fst ` set sealed then mod_out (\<lambda>s. s\<lparr>o_sealed := AList.delete mid (o_sealed s)\<rparr>)
                else sthen (release_reservation (orm_logical_size record))
                       (sthen (unpark mid) (free_flow mid))))
             (sthen (report mid failure) (sthen (free_id mid) drain)))"

definition check_problem_information :: "properties option \<Rightarrow> unit eop" where
  "check_problem_information props = sunless (props = None) (validate_inbound_problem_information props)"

definition on_puback :: "raw_packet \<Rightarrow> unit eop" where
  "on_puback raw =
     sbind (sask (\<lambda>e. decode_puback (e_codec e) (remaining raw))) (\<lambda>(mid, reason_code, props).
       sthen (check_problem_information props)
         (finish mid WAIT_PUBACK (if reason_code < 128 then None else Some (PublishRejected ''PUBACK'' reason_code props))))"

definition require_pubrel_capacity :: "nat \<Rightarrow> unit eop" where
  "require_pubrel_capacity wire_size = sask (\<lambda>e.
     case maximum_packet_size (e_negotiated e) of
       None \<Rightarrow> Inr ()
     | Some limit \<Rightarrow> if int wire_size > limit then Inl MandatoryResponseTooLargeError else Inr ())"

definition send_orphan_pubrel :: "int \<Rightarrow> unit eop" where
  "send_orphan_pubrel mid =
     sbind (sget e_codec) (\<lambda>codec.
     sbind (slift (encode_pubrel codec mid (if is_mqtt5 codec then 0x92 else 0) None)) (\<lambda>wire.
       sthen (require_pubrel_capacity (length wire)) (send (Contiguous wire))))"

definition send_pubrel :: "int \<Rightarrow> unit eop" where
  "send_pubrel mid = sbind (slift (encode_pubrel_success mid)) (\<lambda>wire. send (Contiguous wire))"

definition on_pubrec :: "raw_packet \<Rightarrow> unit eop" where
  "on_pubrec raw =
     sbind (sask (\<lambda>e. decode_pubrec (e_codec e) (remaining raw))) (\<lambda>(mid, reason_code, props).
     sthen (check_problem_information props)
     (if reason_code \<ge> 128 then finish mid WAIT_PUBREC (Some (PublishRejected ''PUBREC'' reason_code props))
      else sbind (sget (\<lambda>e. maximum_packet_size (e_negotiated e))) (\<lambda>limit.
        if (case limit of None \<Rightarrow> False | Some n \<Rightarrow> n < 4) then
          sbind (sget (\<lambda>e. out_meta mid (e_store e))) (\<lambda>record_opt.
            case record_opt of
              None \<Rightarrow> send_orphan_pubrel mid
            | Some record \<Rightarrow>
                if orm_state record \<notin> {WAIT_PUBREC, WAIT_PUBCOMP} then sret ()
                else require_pubrel_capacity 4)
        else
          sbind (on_store (transition_out mid WAIT_PUBREC WAIT_PUBCOMP True)) (\<lambda>changed.
            case changed of
              Some _ \<Rightarrow> sthen (unpark mid) (send_pubrel mid)
            | None \<Rightarrow>
                sbind (sget (\<lambda>e. out_meta mid (e_store e))) (\<lambda>record_opt.
                  case record_opt of
                    None \<Rightarrow> send_orphan_pubrel mid
                  | Some record \<Rightarrow> if orm_state record = WAIT_PUBCOMP then send_pubrel mid else sret ())))))"

definition on_pubcomp :: "raw_packet \<Rightarrow> unit eop" where
  "on_pubcomp raw =
     sbind (sask (\<lambda>e. decode_pubcomp (e_codec e) (remaining raw))) (\<lambda>(mid, reason_code, props).
       sthen (check_problem_information props)
         (finish mid WAIT_PUBCOMP (if reason_code < 128 then None else Some (PublishRejected ''PUBCOMP'' reason_code props))))"

subsection \<open>Iterating over the stored summaries\<close>

text \<open>The pages are read one at a time while the body runs, with the default page size.\<close>

definition OUT_PAGE_SIZE :: nat where
  "OUT_PAGE_SIZE = 256"

function for_pages :: "(outbound_summary \<Rightarrow> 'a \<Rightarrow> 'a eop) \<Rightarrow> int list \<Rightarrow> 'a \<Rightarrow> 'a eop" where
  "for_pages f mids acc e = (case out_summary_next OUT_PAGE_SIZE (e_store e) mids of
      None \<Rightarrow> (Inr acc, e)
    | Some (page, rest) \<Rightarrow> (case sfold f page acc e of (Inl x, e') \<Rightarrow> (Inl x, e') | (Inr acc', e') \<Rightarrow> for_pages f rest acc' e'))"
  by pat_completeness auto
termination
  by (relation "measure (\<lambda>(f, mids, acc, e). length mids)") (auto dest: out_summary_next_shorter)

declare for_pages.simps [simp del]

definition for_summaries :: "(outbound_summary \<Rightarrow> 'a \<Rightarrow> 'a eop) \<Rightarrow> 'a \<Rightarrow> 'a eop" where
  "for_summaries f acc = sbind (sask (\<lambda>e. out_pages_start (int OUT_PAGE_SIZE) (e_store e))) (\<lambda>mids. for_pages f mids acc)"

definition each :: "(outbound_summary \<Rightarrow> unit eop) \<Rightarrow> outbound_summary \<Rightarrow> unit \<Rightarrow> unit eop" where
  "each f m u = f m"

definition out_has_client_session_state :: "outbound_session \<Rightarrow> bool" where
  "out_has_client_session_state s \<longleftrightarrow> inflight (o_flow s) > 0 \<or> (\<exists>x \<in> set (o_sealed s). snd x)"

subsection \<open>Sealing, hydration and negotiation\<close>

fun seal_loop :: "int list \<Rightarrow> int set \<Rightarrow> int set eop" where
  "seal_loop [] newly = sret newly"
| "seal_loop (mid # mids) newly =
     sbind (sget id) (\<lambda>e.
       if mid \<in> fst ` set (o_sealed (e_out e)) then seal_loop mids newly
       else case out_meta mid (e_store e) of
              None \<Rightarrow> seal_loop mids newly
            | Some record \<Rightarrow>
                sthen (mod_out (\<lambda>s. s\<lparr>o_sealed := AList.update mid (orm_state record \<noteq> QUEUED) (o_sealed s)\<rparr>))
                (sthen (release_reservation (orm_logical_size record))
                (sthen (free_flow mid) (seal_loop mids (insert mid newly)))))"

definition seal :: "int list \<Rightarrow> unit eop" where
  "seal mids =
     sbind (seal_loop mids {}) (\<lambda>newly.
     sbind (sget id) (\<lambda>e.
       swhen (newly \<noteq> {} \<and> o_queued (e_out e) \<noteq> [])
         (mod_out (\<lambda>s. s\<lparr>o_queued := filter (\<lambda>m. entry_mid (e_store e) m \<notin> newly) (o_queued s), o_parked := o_parked s - newly\<rparr>))))"

definition hydrate_message :: "outbound_summary \<Rightarrow> unit eop" where
  "hydrate_message msg =
     sthen (on_ids (reserve (os_mid msg)))
     (sbind (slift (stored_logical_size msg)) (\<lambda>logical_size.
      sthen (mod_out (\<lambda>s. s\<lparr>o_pending_messages := o_pending_messages s + 1, o_pending_bytes := o_pending_bytes s + logical_size\<rparr>))
        (if os_state msg = QUEUED then mod_out (\<lambda>s. s\<lparr>o_queued := o_queued s @ [Summary msg]\<rparr>)
         else if os_state msg \<in> {WAIT_PUBACK, WAIT_PUBREC, WAIT_PUBCOMP} then
           sthen (on_flow (try_acquire (os_mid msg))) (sret ())
         else sret ())))"

definition hydrate :: "unit eop" where
  "hydrate = for_summaries (each hydrate_message) ()"

definition validate_against_negotiated :: "queue_entry \<Rightarrow> unit eop" where
  "validate_against_negotiated m =
     sbind (sget id) (\<lambda>e.
     let msg = entry_view (e_store e) m; negotiated = e_negotiated e in
     if os_state msg = WAIT_PUBCOMP then
       sbind (case entry_pubrel (e_store e) m of Some wire \<Rightarrow> sret wire | None \<Rightarrow> slift (encode_pubrel_success (os_mid msg))) (\<lambda>wire.
         check_outbound_size (Contiguous wire))
     else if os_qos msg > maximum_qos negotiated then sraise ProtocolError
     else if os_retain msg \<and> \<not> retain_available negotiated then sraise ProtocolError
     else
       (let replaying_publish = (os_state msg \<in> {WAIT_PUBACK, WAIT_PUBREC});
            props = (if replaying_publish then properties_without_topic_alias (os_properties msg) else os_properties msg)
        in sthen
             (case alias_value props of
                None \<Rightarrow> sret ()
              | Some v \<Rightarrow> sbind (slift (py_int v)) (\<lambda>alias.
                  if alias = 0 \<or> alias > topic_alias_maximum negotiated then sraise ProtocolError else sret ()))
             (case (if props \<noteq> os_properties msg then None else entry_publish (e_store e) m) of
                Some wire \<Rightarrow> check_outbound_size wire
              | None \<Rightarrow> slift (check_publish_size (os_topic msg) (int (os_payload_size msg)) (os_qos msg) props e))))"

definition validate_replay :: "outbound_summary \<Rightarrow> unit eop" where
  "validate_replay msg =
     scatch (validate_against_negotiated (Summary msg))
       (\<lambda>exc. if is_protocol_error exc then sraise SessionReplayError else sraise exc)"

definition check_session_replayable :: "unit eop" where
  "check_session_replayable =
     sbind (sget id) (\<lambda>e.
       let negotiated = e_negotiated e in
       if maximum_qos negotiated \<ge> 2 \<and> retain_available negotiated \<and> maximum_packet_size negotiated = None then sret ()
       else for_summaries (each (\<lambda>msg.
              swhen (os_state msg \<noteq> QUEUED \<and> os_mid msg \<notin> fst ` set (o_sealed (e_out e))) (validate_replay msg))) ())"

subsection \<open>Replay of a resumed session\<close>

definition drop_failed :: "outbound_summary \<Rightarrow> exn \<Rightarrow> unit eop" where
  "drop_failed msg exc =
     sthen (discard_record (os_mid msg) (Summary msg))
       (sthen (free_id (os_mid msg)) (fail_publish (os_mid msg) (Raised exc)))"

definition replay_message :: "outbound_summary \<Rightarrow> unit eop" where
  "replay_message msg =
     sbind (sget (\<lambda>e. o_sealed (e_out e))) (\<lambda>sealed.
       if os_mid msg \<in> fst ` set sealed then sret ()
       else if os_state msg = QUEUED then
         sbind (scatch (sthen (validate_against_negotiated (Summary msg)) (sret True))
                  (\<lambda>exc. if is_protocol_error exc then sthen (drop_failed msg exc) (sret False) else sraise exc)) (\<lambda>ok.
           swhen ok (mod_out (\<lambda>s. s\<lparr>o_queued := o_queued s @ [Summary msg]\<rparr>)))
       else if os_state msg = WAIT_PUBCOMP then
         scatch (sbind (materialize (Summary msg)) retransmit) (drop_failed msg)
       else
         sbind (on_flow (try_acquire (os_mid msg))) (\<lambda>acquired.
           if \<not> acquired then
             mod_out (\<lambda>s. s\<lparr>o_parked := insert (os_mid msg) (o_parked s), o_queued := o_queued s @ [Summary msg]\<rparr>)
           else scatch (sbind (materialize (Summary msg)) retransmit)
                  (\<lambda>exc. sthen (free_flow (os_mid msg)) (drop_failed msg exc))))"

definition reset_flow_for_connection :: "unit eop" where
  "reset_flow_for_connection =
     sbind (sget id) (\<lambda>e. mod_out (\<lambda>s. s\<lparr>o_flow :=
       apply_broker_receive_maximum (receive_maximum (e_negotiated e)) (max_outbound_inflight (e_config e)) (flow_reset (o_flow s))\<rparr>))"

definition out_replay_session :: "unit eop" where
  "out_replay_session =
     sthen reset_flow_for_connection
     (sthen (mod_out (\<lambda>s. s\<lparr>o_queued := [], o_parked := {}\<rparr>))
     (sthen (for_summaries (each replay_message) ()) drain))"

subsection \<open>A lost session\<close>

definition purge_message ::
  "outbound_summary \<Rightarrow> queue_entry list \<times> int list \<Rightarrow> (queue_entry list \<times> int list) eop" where
  "purge_message msg acc =
     (case acc of (resent, released) \<Rightarrow>
      if os_state msg = QUEUED then sret (resent, released)
      else
        (let mid = os_mid msg
         in sbind (sget (\<lambda>e. o_sealed (e_out e))) (\<lambda>sealed.
              if mid \<in> fst ` set sealed then
                sthen (mod_out (\<lambda>s. s\<lparr>o_sealed := AList.delete mid (o_sealed s)\<rparr>))
                  (sthen (on_store (delete_out mid)) (sret (resent, released @ [mid])))
              else if os_state msg = WAIT_PUBACK then
                sbind (on_store (transition_out mid WAIT_PUBACK QUEUED False)) (\<lambda>changed.
                  case changed of
                    None \<Rightarrow> sraise RuntimeError
                  | Some _ \<Rightarrow> sret (resent @ [Summary (msg\<lparr>os_state := QUEUED\<rparr>)], released))
              else
                sthen (discard_record mid (Summary msg))
                  (sthen (fail_publish mid (Raised SessionDiscardedError)) (sret (resent, released @ [mid]))))))"

definition purge_after_clean_session :: "bool \<Rightarrow> unit eop" where
  "purge_after_clean_session sub_mids_pending =
     sthen (smod (\<lambda>e. e\<lparr>e_out := (e_out e)\<lparr>
              o_queued := filter (\<lambda>m. os_state (entry_view (e_store e) m) = QUEUED) (o_queued (e_out e)), o_parked := {}\<rparr>\<rparr>))
     (sbind (for_summaries purge_message ([], [])) (\<lambda>(resent, released).
      sthen (mod_out (\<lambda>s. s\<lparr>o_queued := resent @ o_queued s\<rparr>))
      (sbind (sget e_out) (\<lambda>s.
        if o_queued s = [] \<and> \<not> sub_mids_pending \<and> (\<forall>x \<in> set (o_sealed s). snd x)
        then mod_out (\<lambda>s. s\<lparr>o_packet_ids := pool_clear (o_packet_ids s)\<rparr>)
        else sfor free_id released))))"

fun fail_queued_loop :: "queue_entry list \<Rightarrow> queue_entry list \<Rightarrow> unit eop" where
  "fail_queued_loop [] kept = mod_out (\<lambda>s. s\<lparr>o_queued := kept\<rparr>)"
| "fail_queued_loop (msg # rest) kept =
     sbind (sget (\<lambda>e. entry_mid (e_store e) msg)) (\<lambda>mid.
     sbind (scatch (sthen (validate_against_negotiated msg) (sret True))
              (\<lambda>exc. if is_protocol_error exc then
                        sthen (discard_record mid msg)
                          (sthen pop_queue (sthen (free_id mid) (sthen (fail_publish mid (Raised exc)) (sret False))))
                      else sraise exc)) (\<lambda>ok.
       if ok then sthen pop_queue (fail_queued_loop rest (kept @ [msg])) else fail_queued_loop rest kept))"

definition fail_queued_violating_negotiation :: "unit eop" where
  "fail_queued_violating_negotiation = sbind (sget (\<lambda>e. o_queued (e_out e))) (\<lambda>queued. fail_queued_loop queued [])"

end
