(* ===== verification/Inbound.thy ===== *)
theory Inbound
  imports Outbound
begin

text \<open>
  Broker to client publication, \<^verbatim>\<open>src/src/mqttium/protocol/inbound.py\<close>: topic aliases, the Receive Maximum slots, the
  stored QoS 1 and QoS 2 exchanges, the handlers of PUBLISH and PUBREL, delivery marks, manual
  acknowledgement and the bounded redelivery after a resumed session. The store is the in-memory one.
\<close>

subsection \<open>The replay cursor\<close>

definition REPLAY_PAGE_SIZE :: int where
  "REPLAY_PAGE_SIZE = 256"

definition REPLAY_BATCH_MESSAGES :: nat where
  "REPLAY_BATCH_MESSAGES = 64"

definition REPLAY_BATCH_BYTES :: int where
  "REPLAY_BATCH_BYTES = 1048576"

definition bounded_complete :: "replay_cursor \<Rightarrow> bool" where
  "bounded_complete c \<longleftrightarrow> rc_remaining c = 0 \<and> rc_pending c = None \<and> rc_page_messages c = None"

definition begin_page :: "mem_store \<Rightarrow> replay_cursor \<Rightarrow> bool \<times> replay_cursor" where
  "begin_page st c =
     (if rc_pending c \<noteq> None \<or> rc_page_messages c \<noteq> None then (True, c)
      else case in_replay_next REPLAY_BATCH_MESSAGES REPLAY_BATCH_BYTES st (rc_pages c) of
             None \<Rightarrow> (False, c\<lparr>rc_pages := []\<rparr>)
           | Some (page, rest) \<Rightarrow>
               (True, c\<lparr>rc_pages := rest, rc_page_messages := Some page, rc_remaining := rc_remaining c - int (length page)\<rparr>))"

definition next_page_message :: "replay_cursor \<Rightarrow> nat option \<times> replay_cursor" where
  "next_page_message c =
     (case rc_pending c of
        Some a \<Rightarrow> (Some a, c\<lparr>rc_pending := None\<rparr>)
      | None \<Rightarrow>
          (case rc_page_messages c of
             None \<Rightarrow> (None, c)
           | Some [] \<Rightarrow> (None, c\<lparr>rc_page_messages := None\<rparr>)
           | Some (a # rest) \<Rightarrow> (Some a, c\<lparr>rc_page_messages := (if rest = [] then None else Some rest)\<rparr>)))"

definition push_back :: "nat \<Rightarrow> replay_cursor \<Rightarrow> replay_cursor result" where
  "push_back a c = (if rc_pending c \<noteq> None then Inl AssertionError else Inr (c\<lparr>rc_pending := Some a\<rparr>))"

subsection \<open>Construction and lifecycle\<close>

text \<open>One turn of the loop of \<^verbatim>\<open>_load_recovered_state\<close>: the identifiers, the bytes and the QoS 1 rows in order.\<close>

fun load_recovered :: "in_record_meta list \<Rightarrow> int set \<times> int \<times> int list \<Rightarrow> (int set \<times> int \<times> int list) result" where
  "load_recovered [] acc = Inr acc"
| "load_recovered (m # ms) (mids, pending_bytes, recovered_qos1) =
     (let mids' = insert (irm_mid m) mids;
          qos1' = (if irm_state m = IN_WAIT_PUBACK then recovered_qos1 @ [irm_mid m] else recovered_qos1)
      in if irm_logical_size m \<le> 0 then Inl ValueError
         else load_recovered ms (mids', pending_bytes + irm_logical_size m, qos1'))"

definition load_recovered_state :: "mem_store \<Rightarrow> (int set \<times> int \<times> int list) result" where
  "load_recovered_state st = load_recovered (in_index st) ({}, 0, [])"

definition new_inbound :: "engine_config \<Rightarrow> mem_store \<Rightarrow> inbound_session result" where
  "new_inbound c st =
     rbind (load_recovered_state st) (\<lambda>(recovered, pending_bytes, recovered_qos1).
       Inr \<lparr>i_aliases = [], i_receive_maximum = max_inbound_inflight c, i_topic_alias_maximum = cfg_topic_alias_maximum c,
            i_current_persisted_mids = {}, i_exchange_tokens = Map.empty, i_pending_completions = Map.empty,
            i_autoack_handoff_required = False, i_pending_auto_qos1_mids = {}, i_pending_pubcomps = {},
            i_pending_pubcomp_slots = 0, i_pending_manual_qos1_acks = {},
            i_manual_qos1_order = (if manual_ack c then recovered_qos1 else []),
            i_pending_bytes = pending_bytes, i_pending_high_water_bytes = pending_bytes,
            i_recovered_mids = recovered, i_replay = None, i_stored_inbound = int (card recovered), i_next_token = 0\<rparr>)"

definition in_start_connection :: "int \<Rightarrow> int \<Rightarrow> unit eop" where
  "in_start_connection rm alias_maximum = mod_in (\<lambda>s. s\<lparr>
     i_aliases := [], i_receive_maximum := rm, i_topic_alias_maximum := alias_maximum, i_current_persisted_mids := {},
     i_autoack_handoff_required := False, i_pending_auto_qos1_mids := {}, i_pending_pubcomps := {},
     i_pending_pubcomp_slots := 0, i_pending_manual_qos1_acks := {}, i_replay := None\<rparr>)"

definition release_pending_acks :: "unit eop" where
  "release_pending_acks = mod_in (\<lambda>s.
     let s1 = s\<lparr>i_autoack_handoff_required := False, i_pending_auto_qos1_mids := {}\<rparr>
     in if i_pending_pubcomps s1 \<noteq> {} then s1\<lparr>i_pending_pubcomp_slots := 0, i_pending_pubcomps := {}\<rparr> else s1)"

definition in_transport_closed :: "unit eop" where
  "in_transport_closed =
     sthen (mod_in (\<lambda>s. s\<lparr>i_aliases := [], i_current_persisted_mids := {}, i_pending_completions := Map.empty,
              i_pending_manual_qos1_acks := {}\<rparr>))
     (sthen release_pending_acks (mod_in (\<lambda>s. s\<lparr>i_replay := None\<rparr>)))"

definition discard_session :: "unit eop" where
  "discard_session =
     sthen (on_store (\<lambda>st. ((), clear_in st)))
       (mod_in (\<lambda>s. s\<lparr>i_recovered_mids := {}, i_replay := None, i_current_persisted_mids := {}, i_exchange_tokens := Map.empty,
          i_pending_completions := Map.empty, i_pending_bytes := 0, i_stored_inbound := 0, i_autoack_handoff_required := False,
          i_pending_auto_qos1_mids := {}, i_pending_pubcomps := {}, i_pending_pubcomp_slots := 0,
          i_pending_manual_qos1_acks := {}, i_manual_qos1_order := []\<rparr>))"

definition in_inflight :: "inbound_session \<Rightarrow> int" where
  "in_inflight s = int (card (i_current_persisted_mids s)) + int (card (i_pending_auto_qos1_mids s)) + i_pending_pubcomp_slots s"

definition replay_pending :: "inbound_session \<Rightarrow> bool" where
  "replay_pending s \<longleftrightarrow> i_replay s \<noteq> None"

definition in_has_client_session_state :: "inbound_session \<Rightarrow> bool" where
  "in_has_client_session_state s \<longleftrightarrow> i_stored_inbound s > 0"

definition lookup_stored_inbound :: "int \<Rightarrow> engine \<Rightarrow> in_record_meta option" where
  "lookup_stored_inbound mid e = (if i_stored_inbound (e_in e) = 0 then None else in_meta mid (e_store e))"

definition remember_inbound :: "unit eop" where
  "remember_inbound = mod_in (\<lambda>s. s\<lparr>i_stored_inbound := i_stored_inbound s + 1\<rparr>)"

definition forget_inbound :: "unit eop" where
  "forget_inbound =
     sbind (sget (\<lambda>e. i_stored_inbound (e_in e))) (\<lambda>n.
       if n \<le> 0 then sraise AssertionError else mod_in (\<lambda>s. s\<lparr>i_stored_inbound := i_stored_inbound s - 1\<rparr>))"

definition complete_stored_inbound :: "int \<Rightarrow> inbound_state \<Rightarrow> int eop" where
  "complete_stored_inbound mid expected_state =
     sbind (on_store (complete_in mid expected_state)) (\<lambda>completed.
       case completed of
         None \<Rightarrow> sraise RuntimeError
       | Some record \<Rightarrow>
           sthen (mod_in (\<lambda>s. s\<lparr>i_exchange_tokens := (i_exchange_tokens s)(mid := None),
                    i_pending_completions := (i_pending_completions s)(mid := None)\<rparr>))
             (sret (irm_logical_size record)))"

text \<open>\<^verbatim>\<open>tokens[mid] = object()\<close>.\<close>

definition fresh_token :: "int \<Rightarrow> nat eop" where
  "fresh_token mid =
     sbind (sget (\<lambda>e. i_next_token (e_in e))) (\<lambda>t.
       sthen (mod_in (\<lambda>s. s\<lparr>i_exchange_tokens := (i_exchange_tokens s)(mid \<mapsto> t), i_next_token := t + 1\<rparr>)) (sret t))"

definition exchange_token :: "int \<Rightarrow> nat eop" where
  "exchange_token mid =
     sbind (sget (\<lambda>e. i_exchange_tokens (e_in e) mid)) (\<lambda>token.
       case token of None \<Rightarrow> fresh_token mid | Some t \<Rightarrow> sret t)"

text \<open>\<^verbatim>\<open>if self._binds_ack_tokens: self._bind_ack_token(message)\<close>: the token the message carries.\<close>

definition bind_ack_token :: "message \<Rightarrow> nat option eop" where
  "bind_ack_token m =
     sbind (sget (\<lambda>e. manual_ack (e_config e))) (\<lambda>binds.
       if \<not> binds then sret None
       else case msg_mid m of
              None \<Rightarrow> sraise AssertionError
            | Some mid \<Rightarrow> sbind (exchange_token mid) (\<lambda>t. sret (Some t)))"

definition deliver :: "message \<Rightarrow> bool \<Rightarrow> nat option \<Rightarrow> nat option \<Rightarrow> nat option \<Rightarrow> unit eop" where
  "deliver m mark wire_size exchange token =
     emit (EffMessage \<lparr>d_decoded = (wire_size \<noteq> None), d_message = m, d_mark = mark, d_wire_size = wire_size,
       d_exchange = exchange, d_ack_token = token\<rparr>)"

subsection \<open>Aliases and Receive Maximum\<close>

definition reject :: "int \<Rightarrow> 'a eop" where
  "reject reason_code = sthen (protocol_disconnect reason_code) (sraise ProtocolError)"

definition resolve_topic_fields :: "pystr \<Rightarrow> properties option \<Rightarrow> pystr eop" where
  "resolve_topic_fields topic props =
     (case (if props_bool props then alias_value props else None) of
        None \<Rightarrow> if topic = [] then reject 0x82 else sret topic
      | Some v \<Rightarrow>
          sbind (slift (py_int v)) (\<lambda>alias.
          sbind (sget e_in) (\<lambda>s.
            if alias = 0 \<or> alias > i_topic_alias_maximum s then reject 0x94
            else if topic \<noteq> [] then sthen (mod_in (\<lambda>s. s\<lparr>i_aliases := AList.update alias topic (i_aliases s)\<rparr>)) (sret topic)
            else case map_of (i_aliases s) alias of
                   None \<Rightarrow> reject 0x94
                 | Some known \<Rightarrow> sret known)))"

definition in_logical_size :: "pystr \<Rightarrow> bytes \<Rightarrow> properties option \<Rightarrow> nat option \<Rightarrow> engine \<Rightarrow> int result" where
  "in_logical_size topic payload props decoded_property_wire_size e =
     publish_logical_size (is_v5 e) topic (int (length payload)) props decoded_property_wire_size"

definition in_stored_logical_size :: "inbound_message \<Rightarrow> int result" where
  "in_stored_logical_size m = (if im_logical_size m \<le> 0 then Inl ValueError else Inr (im_logical_size m))"

definition acquire_slot :: "int option \<Rightarrow> int eop" where
  "acquire_slot logical_size =
     sbind (sget id) (\<lambda>e.
     let s = e_in e; occupied = in_inflight s in
       if occupied \<ge> i_receive_maximum s then reject 0x93
       else if (case (logical_size, max_inbound_inflight_bytes (e_config e)) of
                  (Some n, Some limit) \<Rightarrow> i_pending_bytes s + n > limit | _ \<Rightarrow> False) then reject 0x97
       else
         sthen (swhen (occupied + 1 \<ge> i_receive_maximum s \<and> (i_pending_auto_qos1_mids s \<noteq> {} \<or> i_pending_pubcomps s \<noteq> {}))
                  (mod_in (\<lambda>s. s\<lparr>i_autoack_handoff_required := True\<rparr>)))
         (sthen (case logical_size of
                   None \<Rightarrow> sret ()
                 | Some n \<Rightarrow> mod_in (\<lambda>s. s\<lparr>i_pending_bytes := i_pending_bytes s + n,
                     i_pending_high_water_bytes := (if i_pending_bytes s + n > i_pending_high_water_bytes s
                       then i_pending_bytes s + n else i_pending_high_water_bytes s)\<rparr>))
           (sret (occupied + 1))))"

definition release_pending_bytes :: "int option \<Rightarrow> unit eop" where
  "release_pending_bytes logical_size =
     (case logical_size of
        None \<Rightarrow> sret ()
      | Some n \<Rightarrow>
          sbind (sget (\<lambda>e. i_pending_bytes (e_in e))) (\<lambda>pending.
            if n \<le> 0 \<or> n > pending then sraise AssertionError
            else mod_in (\<lambda>s. s\<lparr>i_pending_bytes := i_pending_bytes s - n\<rparr>)))"

definition release_persisted_slot :: "int \<Rightarrow> int \<Rightarrow> unit eop" where
  "release_persisted_slot mid logical_size =
     sthen (mod_in (\<lambda>s. s\<lparr>i_current_persisted_mids := i_current_persisted_mids s - {mid}\<rparr>))
       (release_pending_bytes (Some logical_size))"

definition hold_until_pubcomp_handoff :: "int \<Rightarrow> int \<Rightarrow> unit eop" where
  "hold_until_pubcomp_handoff mid logical_size =
     sthen (release_pending_bytes (Some logical_size))
       (mod_in (\<lambda>s.
          let s1 = s\<lparr>i_pending_pubcomps := insert mid (i_pending_pubcomps s)\<rparr>
          in if mid \<in> i_current_persisted_mids s1 then
               (let s2 = s1\<lparr>i_current_persisted_mids := i_current_persisted_mids s1 - {mid},
                            i_pending_pubcomp_slots := i_pending_pubcomp_slots s1 + 1\<rparr>
                in if in_inflight s2 \<ge> i_receive_maximum s2 then s2\<lparr>i_autoack_handoff_required := True\<rparr> else s2)
             else s1))"

text \<open>\<^verbatim>\<open>_reject_packet_id_collision\<close> ends the connection and raises.\<close>

definition reject_packet_id_collision :: "int \<Rightarrow> 'a eop" where
  "reject_packet_id_collision mid = reject 0x82"

subsection \<open>Completing an exchange\<close>

definition complete_qos2 :: "int \<Rightarrow> inbound_state \<Rightarrow> unit eop" where
  "complete_qos2 mid st =
     sbind (complete_stored_inbound mid st) (\<lambda>logical_size.
     sthen forget_inbound
     (sbind (slift (encode_pubcomp_success mid)) (\<lambda>wire.
     sthen (send_ack wire) (hold_until_pubcomp_handoff mid logical_size))))"

definition complete_qos1 :: "int \<Rightarrow> unit eop" where
  "complete_qos1 mid =
     sbind (complete_stored_inbound mid IN_WAIT_PUBACK) (\<lambda>logical_size.
     sthen forget_inbound
     (sbind (slift (encode_puback_success mid)) (\<lambda>wire.
     sthen (send_ack wire) (release_persisted_slot mid logical_size))))"

text \<open>The loop of \<^verbatim>\<open>_drain_manual_qos1_acks\<close> over the order of arrival, of which it only removes the head.\<close>

fun drain_manual_loop :: "int list \<Rightarrow> unit eop" where
  "drain_manual_loop [] = sret ()"
| "drain_manual_loop (mid # order) =
     sbind (sget id) (\<lambda>e.
       if mid \<notin> i_pending_manual_qos1_acks (e_in e) \<or> mid \<notin> i_current_persisted_mids (e_in e) then sret ()
       else case lookup_stored_inbound mid e of
              None \<Rightarrow> sraise ProtocolError
            | Some record \<Rightarrow>
                if irm_state record \<noteq> IN_WAIT_PUBACK then sraise ProtocolError
                else sthen (complete_qos1 mid)
                  (sthen (mod_in (\<lambda>s. s\<lparr>i_manual_qos1_order := tl (i_manual_qos1_order s),
                            i_pending_manual_qos1_acks := i_pending_manual_qos1_acks s - {mid}\<rparr>))
                     (drain_manual_loop order)))"

definition drain_manual_qos1_acks :: "unit eop" where
  "drain_manual_qos1_acks = sbind (sget (\<lambda>e. i_manual_qos1_order (e_in e))) drain_manual_loop"

subsection \<open>Packet handlers\<close>

type_synonym publish_fields = "pystr \<times> bytes \<times> int \<times> bool \<times> bool \<times> properties option \<times> nat option"

definition emit_message :: "inbound_message \<Rightarrow> bool \<Rightarrow> unit eop" where
  "emit_message m dup =
     (let message = decoded_message (im_topic m) (im_payload m) (im_qos m) (im_retain m) dup (Some (im_mid m)) (im_properties m)
      in sbind (bind_ack_token message) (\<lambda>token.
         sbind (exchange_token (im_mid m)) (\<lambda>exchange.
           deliver message True None (Some exchange) token)))"

text \<open>Occupying a slot for a stored exchange seen again on this connection.\<close>

definition claim_slot :: "int \<Rightarrow> unit eop" where
  "claim_slot mid =
     sbind (sget (\<lambda>e. mid \<in> i_current_persisted_mids (e_in e))) (\<lambda>held.
       sunless held (sthen (acquire_slot None)
         (mod_in (\<lambda>s. s\<lparr>i_current_persisted_mids := insert mid (i_current_persisted_mids s)\<rparr>))))"

text \<open>What \<^verbatim>\<open>_on_qos2\<close> and \<^verbatim>\<open>_on_qos1_manual\<close> share: reserve, store the new exchange, give back the bytes when the store
  raises, take the slot and the token.\<close>

definition store_inbound :: "publish_fields \<Rightarrow> int \<Rightarrow> inbound_state \<Rightarrow> nat eop" where
  "store_inbound publication qos st =
     (case publication of (topic, payload, mid, retain, dup, props, wire_size) \<Rightarrow>
      sbind (sask (in_logical_size topic payload props wire_size)) (\<lambda>logical_size.
      sthen (acquire_slot (Some logical_size))
      (sbind (on_store (new_in \<lparr>im_mid = mid, im_topic = topic, im_payload = payload, im_qos = qos, im_retain = retain,
                 im_state = st, im_delivered = False, im_properties = props, im_user_acked = False, im_logical_size = logical_size\<rparr>)) (\<lambda>a.
       sthen (scatch (on_store_try (put_in a)) (\<lambda>exc. sthen (release_pending_bytes (Some logical_size)) (sraise exc)))
       (sthen (mod_in (\<lambda>s. s\<lparr>i_current_persisted_mids := insert mid (i_current_persisted_mids s)\<rparr>))
       (sbind (fresh_token mid) (\<lambda>t. sthen remember_inbound (sret t))))))))"

definition on_qos2 :: "publish_fields \<Rightarrow> unit eop" where
  "on_qos2 publication =
     (case publication of (topic, payload, mid, retain, dup, props, wire_size) \<Rightarrow>
      sbind (sget id) (\<lambda>e.
      case lookup_stored_inbound mid e of
        Some existing \<Rightarrow>
          if irm_state existing = IN_WAIT_PUBACK then reject_packet_id_collision mid
          else if irm_state existing = IN_WAIT_USER_ACK \<or> i_pending_completions (e_in e) mid \<noteq> None then reject 0x82
          else if irm_state existing \<noteq> IN_WAIT_PUBREL then sraise RuntimeError
          else sthen (claim_slot mid) (sbind (slift (encode_pubrec_success mid)) send_ack)
      | None \<Rightarrow>
          if mid \<in> i_pending_pubcomps (e_in e) then reject_packet_id_collision mid
          else if mid \<in> i_pending_auto_qos1_mids (e_in e) then reject 0x82
          else
            sbind (store_inbound publication 2 IN_WAIT_PUBREL) (\<lambda>exchange.
            sthen (sbind (slift (encode_pubrec_success mid)) send_ack)
            (let message = decoded_message topic payload 2 retain dup (Some mid) props
             in sbind (bind_ack_token message) (\<lambda>token. deliver message True wire_size (Some exchange) token)))))"

definition complete_recovered_qos1_auto :: "int \<Rightarrow> unit eop" where
  "complete_recovered_qos1_auto mid =
     sbind (sget id) (\<lambda>e.
       if i_pending_completions (e_in e) mid \<noteq> None then sret ()
       else if (case lookup_stored_inbound mid e of None \<Rightarrow> False | Some record \<Rightarrow> \<not> irm_delivered record) then
         sthen (claim_slot mid)
           (mod_in (\<lambda>s. s\<lparr>i_pending_completions := (i_pending_completions s)(mid \<mapsto> IN_WAIT_PUBACK)\<rparr>))
       else
         sbind (acquire_slot None) (\<lambda>occupied.
         sbind (complete_stored_inbound mid IN_WAIT_PUBACK) (\<lambda>logical_size.
         sthen forget_inbound
         (sthen (sbind (slift (encode_puback_success mid)) send_ack)
         (sthen (release_pending_bytes (Some logical_size))
           (mod_in (\<lambda>s.
              let s1 = s\<lparr>i_pending_auto_qos1_mids := insert mid (i_pending_auto_qos1_mids s)\<rparr>
              in if occupied \<ge> i_receive_maximum s1 then s1\<lparr>i_autoack_handoff_required := True\<rparr> else s1)))))))"

definition on_qos1_auto :: "publish_fields \<Rightarrow> unit eop" where
  "on_qos1_auto publication =
     (case publication of (topic, payload, mid, retain, dup, props, wire_size) \<Rightarrow>
      sbind (sget id) (\<lambda>e.
      case lookup_stored_inbound mid e of
        Some existing \<Rightarrow>
          if irm_state existing = IN_WAIT_PUBACK then complete_recovered_qos1_auto mid
          else reject_packet_id_collision mid
      | None \<Rightarrow>
          if mid \<in> i_pending_pubcomps (e_in e) then reject_packet_id_collision mid
          else
            (let retransmission = (mid \<in> i_pending_auto_qos1_mids (e_in e))
             in sbind (if retransmission then sret 0 else acquire_slot None) (\<lambda>occupied.
                sthen (sbind (slift (encode_puback_success mid)) send_ack)
                (sthen (deliver (decoded_message topic payload 1 retain dup (Some mid) props) False wire_size None None)
                  (sunless retransmission
                    (mod_in (\<lambda>s.
                       let s1 = s\<lparr>i_pending_auto_qos1_mids := insert mid (i_pending_auto_qos1_mids s)\<rparr>
                       in if occupied \<ge> i_receive_maximum s1 then s1\<lparr>i_autoack_handoff_required := True\<rparr> else s1))))))))"

definition on_qos1_manual :: "publish_fields \<Rightarrow> unit eop" where
  "on_qos1_manual publication =
     (case publication of (topic, payload, mid, retain, dup, props, wire_size) \<Rightarrow>
      sbind (sget id) (\<lambda>e.
      case lookup_stored_inbound mid e of
        Some existing \<Rightarrow>
          if irm_state existing \<noteq> IN_WAIT_PUBACK then reject_packet_id_collision mid
          else
            (let acquired = (mid \<notin> i_current_persisted_mids (e_in e))
             in sthen (claim_slot mid)
                (if mid \<in> i_pending_manual_qos1_acks (e_in e) then drain_manual_qos1_acks
                 else sbind (sget (\<lambda>e. map_option (\<lambda>a. in_heap (e_store e) ! a) (get_in mid (e_store e)))) (\<lambda>inbound.
                   case inbound of
                     None \<Rightarrow>
                       sthen (swhen acquired (mod_in (\<lambda>s. s\<lparr>i_current_persisted_mids := i_current_persisted_mids s - {mid}\<rparr>)))
                         (sraise RuntimeError)
                   | Some m \<Rightarrow> emit_message m True)))
      | None \<Rightarrow>
          if mid \<in> i_pending_pubcomps (e_in e) then reject_packet_id_collision mid
          else
            sbind (store_inbound publication 1 IN_WAIT_PUBACK) (\<lambda>exchange.
            sthen (mod_in (\<lambda>s. s\<lparr>i_manual_qos1_order := i_manual_qos1_order s @ [mid]\<rparr>))
            (let message = decoded_message topic payload 1 retain dup (Some mid) props
             in sbind (bind_ack_token message) (\<lambda>token. deliver message True wire_size (Some exchange) token)))))"

definition on_qos1 :: "publish_fields \<Rightarrow> unit eop" where
  "on_qos1 publication = sbind (sget (\<lambda>e. manual_ack (e_config e))) (\<lambda>manual. if manual then on_qos1_manual publication else on_qos1_auto publication)"

definition flags_qos :: "raw_packet \<Rightarrow> int" where
  "flags_qos raw = drop_bit 1 (raw_flags raw) AND 0x03"

definition on_publish_v311 :: "raw_packet \<Rightarrow> unit eop" where
  "on_publish_v311 raw =
     (if flags_qos raw = 0 then
        sbind (slift (decode_qos0_message_v311 raw)) (\<lambda>m. deliver m False None None None)
      else if flags_qos raw = 3 then sraise MalformedPacketError
      else
        sbind (slift (decode_qos12_fields_v311 raw)) (\<lambda>(topic, payload, mid, retain, dup).
          (if flags_qos raw = 1 then on_qos1 else on_qos2) (topic, payload, mid, retain, dup, None, None)))"

text \<open>Resolving the alias of a decoded MQTT 5 PUBLISH: the topic, the properties without the alias and the wire size
  of the properties, or zero when an alias was measured.\<close>

definition resolve_alias :: "pystr \<Rightarrow> properties option \<Rightarrow> nat \<Rightarrow> (pystr \<times> properties option \<times> nat) eop" where
  "resolve_alias topic props wire_size =
     (if topic = [] \<or> alias_value props \<noteq> None then
        sbind (resolve_topic_fields topic props) (\<lambda>resolved. sret (resolved, properties_without_topic_alias props, 0))
      else sret (topic, props, wire_size))"

definition wire_size_if :: "nat \<Rightarrow> properties option \<Rightarrow> nat option" where
  "wire_size_if wire_size props = (if wire_size \<noteq> 0 \<and> props_bool props then Some wire_size else None)"

definition on_publish_v5 :: "raw_packet \<Rightarrow> unit eop" where
  "on_publish_v5 raw =
     (if flags_qos raw = 0 then
        sbind (slift (decode_qos0_message_v5 raw)) (\<lambda>(m, wire_size).
        if msg_properties m = None then sraise AssertionError
        else if msg_topic m = [] \<or> alias_value (msg_properties m) \<noteq> None then
          sbind (resolve_topic_fields (msg_topic m) (msg_properties m)) (\<lambda>topic.
            deliver (decoded_message topic (msg_payload m) 0 (msg_retain m) False None (properties_without_topic_alias (msg_properties m)))
              False None None None)
        else deliver m False (wire_size_if wire_size (msg_properties m)) None None)
      else if flags_qos raw = 3 then sraise MalformedPacketError
      else
        sbind (slift (decode_publish_fields_v5 raw (flags_qos raw))) (\<lambda>(topic, payload, mid_opt, retain, dup, props, wire_size).
        sbind (resolve_alias topic (Some props) wire_size) (\<lambda>(topic', props', wire_size').
        case mid_opt of
          None \<Rightarrow> sraise AssertionError
        | Some mid \<Rightarrow> (if flags_qos raw = 1 then on_qos1 else on_qos2)
                        (topic', payload, mid, retain, dup, props', wire_size_if wire_size' props'))))"

definition handle_publish :: "raw_packet \<Rightarrow> unit eop" where
  "handle_publish raw = sbind (sget is_v5) (\<lambda>v5. if v5 then on_publish_v5 raw else on_publish_v311 raw)"

definition on_pubrel :: "raw_packet \<Rightarrow> unit eop" where
  "on_pubrel raw =
     sbind (sask (\<lambda>e. decode_pubrel (e_codec e) (remaining raw))) (\<lambda>(mid, _, props).
     sthen (check_problem_information props)
     (sbind (sget id) (\<lambda>e.
      case lookup_stored_inbound mid e of
        None \<Rightarrow> sbind (slift (encode_pubcomp_success mid)) send_ack
      | Some record \<Rightarrow>
          (let manual = manual_ack (e_config e);
               finish = (if \<not> irm_delivered record \<and> \<not> irm_user_acked record then
                           mod_in (\<lambda>s. s\<lparr>i_pending_completions := (i_pending_completions s)(mid \<mapsto> irm_state record)\<rparr>)
                         else complete_qos2 mid (irm_state record))
           in if irm_state record = IN_WAIT_USER_ACK then (if manual then sret () else finish)
              else if irm_state record \<noteq> IN_WAIT_PUBREL then sraise ProtocolError
              else if manual \<and> \<not> irm_user_acked record then
                sbind (on_store (transition_in mid IN_WAIT_PUBREL IN_WAIT_USER_ACK None)) (\<lambda>changed.
                  case changed of None \<Rightarrow> sraise RuntimeError | Some _ \<Rightarrow> sret ())
              else finish))))"

subsection \<open>Application acknowledgement and replay\<close>

definition mark_delivered :: "int \<Rightarrow> nat option \<Rightarrow> unit eop" where
  "mark_delivered mid token =
     sbind (sget id) (\<lambda>e.
       if token \<noteq> None \<and> i_exchange_tokens (e_in e) mid \<noteq> token then sret ()
       else
         sthen (mod_in (\<lambda>s. s\<lparr>i_pending_completions := (i_pending_completions s)(mid := None)\<rparr>))
           (case i_pending_completions (e_in e) mid of
              None \<Rightarrow> swhen (i_stored_inbound (e_in e) \<noteq> 0) (sthen (on_store (mark_in_delivered mid)) (sret ()))
            | Some waiting \<Rightarrow> if waiting = IN_WAIT_PUBACK then complete_qos1 mid else complete_qos2 mid waiting))"

text \<open>\<^verbatim>\<open>message\<close> is a delivered message with the token it carries.\<close>

definition in_ack :: "int \<Rightarrow> delivery option \<Rightarrow> unit eop" where
  "in_ack mid message =
     sbind (sget id) (\<lambda>e.
       if \<not> manual_ack (e_config e) then sraise ProtocolError
       else if (case message of None \<Rightarrow> False
                | Some d \<Rightarrow> msg_mid (d_message d) \<noteq> Some mid \<or> d_ack_token d = None \<or> i_exchange_tokens (e_in e) mid \<noteq> d_ack_token d)
       then sraise ProtocolError
       else case lookup_stored_inbound mid e of
              None \<Rightarrow> sraise ProtocolError
            | Some record \<Rightarrow>
                if irm_state record = IN_WAIT_PUBREL then
                  sbind (on_store (transition_in mid IN_WAIT_PUBREL IN_WAIT_PUBREL (Some True))) (\<lambda>changed.
                    case changed of None \<Rightarrow> sraise ProtocolError | Some _ \<Rightarrow> sret ())
                else if irm_state record = IN_WAIT_PUBACK then
                  sthen (sbind (slift (encode_puback_success mid)) (\<lambda>wire. check_outbound_size (Contiguous wire)))
                  (sthen (mod_in (\<lambda>s. s\<lparr>i_pending_manual_qos1_acks := insert mid (i_pending_manual_qos1_acks s)\<rparr>))
                    drain_manual_qos1_acks)
                else if irm_state record \<noteq> IN_WAIT_USER_ACK then sraise ProtocolError
                else
                  sthen (sbind (slift (encode_pubcomp_success mid)) (\<lambda>wire. check_outbound_size (Contiguous wire)))
                    (complete_qos2 mid IN_WAIT_USER_ACK))"

definition should_redeliver :: "inbound_message \<Rightarrow> engine \<Rightarrow> bool" where
  "should_redeliver m e \<longleftrightarrow>
     (if \<not> im_delivered m then True
      else if im_mid m \<notin> i_recovered_mids (e_in e) \<or> \<not> manual_ack (e_config e) then False
      else if im_state m \<in> {IN_WAIT_PUBACK, IN_WAIT_USER_ACK} then True
      else im_state m = IN_WAIT_PUBREL \<and> \<not> im_user_acked m)"

text \<open>What the cursor still holds of the page it is reading.\<close>

definition page_left :: "replay_cursor \<Rightarrow> nat" where
  "page_left c = (case rc_pending c of None \<Rightarrow> 0 | Some _ \<Rightarrow> 1) + (case rc_page_messages c of None \<Rightarrow> 0 | Some p \<Rightarrow> length p)"

lemma next_page_message_shorter: "next_page_message c = (Some a, c') \<Longrightarrow> page_left c' < page_left c"
  by (auto simp: next_page_message_def page_left_def split: option.splits list.splits if_splits)

function replay_loop :: "replay_cursor \<Rightarrow> nat \<Rightarrow> int \<Rightarrow> replay_cursor eop" where
  "replay_loop c emitted emitted_bytes e =
     (if emitted < REPLAY_BATCH_MESSAGES \<and> emitted_bytes < REPLAY_BATCH_BYTES then
        (case next_page_message c of
           (None, c') \<Rightarrow> (Inr c', e)
         | (Some a, c') \<Rightarrow>
             (let inbound = in_heap (e_store e) ! a; message_bytes = im_logical_size inbound
              in if \<not> should_redeliver inbound e then replay_loop c' emitted emitted_bytes e
                 else if emitted \<noteq> 0 \<and> emitted_bytes + message_bytes > REPLAY_BATCH_BYTES then slift (push_back a c') e
                 else case emit_message inbound True e of
                        (Inl x, e') \<Rightarrow> (Inl x, e')
                      | (Inr _, e') \<Rightarrow> replay_loop c' (emitted + 1) (emitted_bytes + message_bytes) e'))
      else (Inr c, e))"
  by pat_completeness auto
termination
  by (relation "measure (\<lambda>(c, emitted, emitted_bytes, e). page_left c)") (auto dest: next_page_message_shorter [OF sym])

declare replay_loop.simps [simp del]

definition drain_replay :: "unit eop" where
  "drain_replay =
     sbind (sget id) (\<lambda>e.
       case i_replay (e_in e) of
         None \<Rightarrow> sret ()
       | Some cursor \<Rightarrow>
           (case begin_page (e_store e) cursor of
              (False, _) \<Rightarrow> mod_in (\<lambda>s. s\<lparr>i_replay := None, i_recovered_mids := {}\<rparr>)
            | (True, cursor') \<Rightarrow>
                sbind (replay_loop cursor' 0 0) (\<lambda>cursor''.
                  if bounded_complete cursor'' then mod_in (\<lambda>s. s\<lparr>i_replay := None, i_recovered_mids := {}\<rparr>)
                  else sthen (mod_in (\<lambda>s. s\<lparr>i_replay := Some cursor''\<rparr>)) (emit EffContinueInboundReplay))))"

definition in_replay_session :: "unit eop" where
  "in_replay_session =
     sbind (sget (\<lambda>e. in_count (e_store e))) (\<lambda>persisted.
     sthen (mod_in (\<lambda>s. s\<lparr>i_current_persisted_mids := {}\<rparr>))
     (if persisted = 0 then mod_in (\<lambda>s. s\<lparr>i_recovered_mids := {}\<rparr>)
      else
        sbind (sask (\<lambda>e. in_replay_start (int REPLAY_BATCH_MESSAGES) REPLAY_BATCH_BYTES (e_store e))) (\<lambda>pages.
        sthen (mod_in (\<lambda>s. s\<lparr>i_replay := Some \<lparr>rc_pages = pages, rc_page_messages = None, rc_pending = None, rc_remaining = int persisted\<rparr>\<rparr>))
          drain_replay)))"

subsection \<open>Snapshots\<close>

text \<open>\<^verbatim>\<open>protocol/stats.py\<close> and the two \<^verbatim>\<open>stats\<close> methods.\<close>

record outbound_stats =
  unacknowledged_messages :: int
  unacknowledged_bytes :: int
  unacknowledged_high_water_messages :: int
  unacknowledged_high_water_bytes :: int
  awaiting_slot :: nat
  out_inflight :: int
  out_inflight_limit :: int
  packet_ids_in_use :: int

record inbound_stats =
  stat_inflight :: int
  inflight_limit :: int
  inflight_bytes :: int
  inflight_high_water_bytes :: int
  inflight_byte_limit :: "int option"
  topic_aliases :: nat
  stat_replay_pending :: bool

definition out_stats :: "outbound_session \<Rightarrow> outbound_stats" where
  "out_stats s =
     \<lparr>unacknowledged_messages = o_pending_messages s, unacknowledged_bytes = o_pending_bytes s,
      unacknowledged_high_water_messages = max (o_high_messages s) (o_pending_messages s),
      unacknowledged_high_water_bytes = max (o_high_bytes s) (o_pending_bytes s),
      awaiting_slot = length (o_queued s), out_inflight = inflight (o_flow s), out_inflight_limit = flow_limit (o_flow s),
      packet_ids_in_use = pool_len (o_packet_ids s)\<rparr>"

definition in_stats :: "engine_config \<Rightarrow> inbound_session \<Rightarrow> inbound_stats" where
  "in_stats c s =
     \<lparr>stat_inflight = in_inflight s, inflight_limit = i_receive_maximum s, inflight_bytes = i_pending_bytes s,
      inflight_high_water_bytes = max (i_pending_high_water_bytes s) (i_pending_bytes s),
      inflight_byte_limit = max_inbound_inflight_bytes c, topic_aliases = length (i_aliases s),
      stat_replay_pending = replay_pending s\<rparr>"

end
