(* ===== verification/Engine.thy ===== *)
theory Engine
  imports Inbound
begin

text \<open>
  The protocol engine, \<^verbatim>\<open>src/src/mqttium/protocol/engine.py\<close>: construction, CONNECT and CONNACK, the dispatch of every
  packet of the peer, subscription requests, authentication, DISCONNECT, teardown and the hand-over of the
  effects. An operation that raises keeps the state it reached, as in Python.
\<close>

subsection \<open>Construction\<close>

text \<open>\<^verbatim>\<open>ProtocolEngine.__init__\<close>: the sessions are built from the configuration and the store, then the outbound session
  is hydrated.\<close>

definition bare_engine :: "engine_config \<Rightarrow> mem_store \<Rightarrow> inbound_session \<Rightarrow> engine" where
  "bare_engine c st i =
     \<lparr>e_config = c, e_store = st, e_state = NEW, e_session_present = False, e_negotiated = default_negotiated, e_effects = [],
      e_out = new_outbound c, e_in = i, e_prefer_session_resume = False,
      e_session_client_id = (if cfg_client_id c = [] then None else Some (cfg_client_id c)), e_sent_client_id = cfg_client_id c,
      e_sent_clean_start = False, e_sent_session_expiry_interval = None, e_sent_maximum_packet_size = cfg_maximum_packet_size c,
      e_sent_request_problem_information = 1, e_sent_request_response_information = 0, e_auth_method = None,
      e_reauth_in_progress = False, e_auth_challenges = 0, e_auth_response_due = None, e_pending_sub_requests = []\<rparr>"

definition new_engine :: "engine_config \<Rightarrow> mem_store \<Rightarrow> engine result" where
  "new_engine c st =
     rbind (new_inbound c st) (\<lambda>i. case hydrate (bare_engine c st i) of (Inl x, _) \<Rightarrow> Inl x | (Inr _, e) \<Rightarrow> Inr e)"

definition take_effects :: "effect list eop" where
  "take_effects =
     sbind (sget id) (\<lambda>e.
     sthen (smod (\<lambda>e. e\<lparr>e_effects := []\<rparr>))
     (sthen (swhen (i_pending_auto_qos1_mids (e_in e) \<noteq> {} \<or> i_pending_pubcomps (e_in e) \<noteq> {}) release_pending_acks)
       (sret (e_effects e))))"

definition has_pending_effects :: "engine \<Rightarrow> bool" where
  "has_pending_effects e \<longleftrightarrow> e_effects e \<noteq> []"

subsection \<open>Connecting\<close>

definition client_id_for_connect :: "bool \<Rightarrow> engine \<Rightarrow> pystr result" where
  "client_id_for_connect clean e =
     (let c = e_config e;
          client_id = (if e_prefer_session_resume e \<and> cfg_client_id c = []
                       then (case e_session_client_id e of None \<Rightarrow> cfg_client_id c | Some [] \<Rightarrow> cfg_client_id c | Some i \<Rightarrow> i)
                       else cfg_client_id c)
      in if cfg_protocol c = MQTTv5 \<and> client_id = [] \<and> \<not> clean
            \<and> (out_has_client_session_state (e_out e) \<or> in_has_client_session_state (e_in e))
         then Inl ProtocolError else Inr client_id)"

text \<open>The CONNECT properties sent under MQTT 5: the configured ones and the limits the engine announces.\<close>

definition connect_table :: "engine_config \<Rightarrow> properties option" where
  "connect_table c =
     (if cfg_protocol c \<noteq> MQTTv5 then cfg_connect_properties c
      else
        (let values = (case cfg_connect_properties c of Some p \<Rightarrow> prop_values p | None \<Rightarrow> []);
             v1 = AList.update ''receive_maximum'' (VInt (max_inbound_inflight c)) values;
             v2 = (case cfg_maximum_packet_size c of None \<Rightarrow> v1 | Some n \<Rightarrow> AList.update ''maximum_packet_size'' (VInt n) v1);
             v3 = (if cfg_topic_alias_maximum c \<noteq> 0 then AList.update ''topic_alias_maximum'' (VInt (cfg_topic_alias_maximum c)) v2 else v2)
         in Some (mk_properties v3)))"

definition connect_request :: "engine_config \<Rightarrow> pystr \<Rightarrow> bool \<Rightarrow> connect_packet" where
  "connect_request c cid clean =
     \<lparr>client_id = cid, clean_start = clean, keepalive = cfg_keepalive c, username = cfg_username c, password = cfg_password c,
      will_topic = map_option msg_topic (cfg_will c), will_payload = (case cfg_will c of None \<Rightarrow> [] | Some w \<Rightarrow> msg_payload w),
      will_qos = (case cfg_will c of None \<Rightarrow> 0 | Some w \<Rightarrow> msg_qos w), will_retain = (case cfg_will c of None \<Rightarrow> False | Some w \<Rightarrow> msg_retain w),
      will_properties = cfg_will_properties c, connect_protocol = cfg_protocol c, connect_properties = connect_table c\<rparr>"

text \<open>Everything \<^verbatim>\<open>begin_connect\<close> validates and the frame it encodes, before it commits anything. The encoded
  table has values of the declared types, so the integers and strings read back from it are those of \<open>get_int\<close> and \<open>get_str\<close>.\<close>

definition prepare_connect :: "engine \<Rightarrow> (pystr \<times> bool \<times> bytes) result" where
  "prepare_connect e =
     (let c = e_config e; clean = (if e_prefer_session_resume e then False else cfg_clean_start c)
      in if e_state e \<in> {CONNECTED, CONNECTING, DISCONNECTING} then Inl ProtocolError
         else rbind (client_id_for_connect clean e) (\<lambda>cid.
           if cfg_protocol c = MQTTv311 \<and> cfg_password c \<noteq> None \<and> cfg_username c = None then Inl ProtocolError
           else if accept_auth c \<and> \<not> (props_has (cfg_connect_properties c) ''authentication_method''
                                       \<and> get_str (cfg_connect_properties c) ''authentication_method'' \<noteq> Some []) then Inl ProtocolError
           else if cfg_protocol c = MQTTv311 \<and> cid = [] \<and> \<not> clean then Inl ProtocolError
           else rbind (case cfg_will c of None \<Rightarrow> Inr 0 | Some w \<Rightarrow> validate_publish_topic (msg_topic w) False) (\<lambda>_.
             rbind (ConnectPacket_encode (connect_request c cid clean)) (\<lambda>wire. Inr (cid, clean, wire)))))"

definition commit_connect :: "pystr \<Rightarrow> bool \<Rightarrow> unit eop" where
  "commit_connect cid clean =
     sbind (sget e_config) (\<lambda>c.
     let props = connect_table c; v5 = (cfg_protocol c = MQTTv5) in
     sthen (smod (\<lambda>e. e\<lparr>e_auth_method := get_str (cfg_connect_properties c) ''authentication_method'',
        e_reauth_in_progress := False, e_auth_response_due := None, e_sent_client_id := cid, e_sent_clean_start := clean,
        e_sent_session_expiry_interval := get_int props ''session_expiry_interval'',
        e_sent_maximum_packet_size := (if v5 then get_int props ''maximum_packet_size'' else cfg_maximum_packet_size c),
        e_sent_request_problem_information := int_or 1 (get_int props ''request_problem_information''),
        e_sent_request_response_information := int_or 0 (get_int props ''request_response_information''),
        e_state := CONNECTING\<rparr>))
     (sthen out_start_connection
     (sthen (in_start_connection (if v5 then int_or 65535 (get_int props ''receive_maximum'') else max_inbound_inflight c)
               (if v5 then int_or 0 (get_int props ''topic_alias_maximum'') else cfg_topic_alias_maximum c))
       (smod (\<lambda>e. e\<lparr>e_negotiated := default_negotiated\<rparr>)))))"

definition begin_connect :: "bytes eop" where
  "begin_connect = sbind (sask prepare_connect) (\<lambda>(cid, clean, wire). sthen (commit_connect cid clean) (sret wire))"

subsection \<open>Requests\<close>

text \<open>The encoder of an allocated identifier, the type of the acknowledgement and its number of entries.\<close>

type_synonym subscription_request = "(int \<Rightarrow> bytes result) \<times> packet_type \<times> nat"

text \<open>An item of \<^verbatim>\<open>topics\<close>: a filter, a filter with options, or a filter with a QoS. A single string is the one-element list.\<close>

datatype sub_item = Filter pystr | WithOptions pystr subscribe_options | WithQos pystr int

definition default_options :: "int \<Rightarrow> subscribe_options" where
  "default_options qos = \<lparr>opt_qos = qos, no_local = False, retain_as_published = False, retain_handling = 0\<rparr>"

definition item_subscription :: "int \<Rightarrow> sub_item \<Rightarrow> (pystr \<times> subscribe_options) result" where
  "item_subscription qos item =
     (case item of
        Filter t \<Rightarrow> rbind (qos_of qos) (\<lambda>q. Inr (t, default_options q))
      | WithOptions t opts \<Rightarrow> Inr (t, opts)
      | WithQos t q \<Rightarrow> rbind (qos_of q) (\<lambda>q'. Inr (t, default_options q')))"

definition check_subscribe_capabilities :: "pystr \<Rightarrow> subscribe_options \<Rightarrow> properties option \<Rightarrow> engine \<Rightarrow> unit result" where
  "check_subscribe_capabilities topic options props e =
     (let shared = py_startswith topic (lit ''$share/''); n = e_negotiated e
      in if shared \<and> no_local options then Inl ProtocolError
         else if shared \<and> \<not> shared_subscription_available n then Inl ProtocolError
         else if (PLUS \<in> set topic \<or> HASH \<in> set topic) \<and> \<not> wildcard_subscription_available n then Inl ProtocolError
         else if props_bool props \<and> props_has props ''subscription_identifier'' \<and> \<not> subscription_identifier_available n then Inl ProtocolError
         else Inr ())"

fun collect_subscriptions :: "int \<Rightarrow> properties option \<Rightarrow> engine \<Rightarrow> sub_item list \<Rightarrow> subscription list \<Rightarrow> subscription list result" where
  "collect_subscriptions qos props e [] subs = Inr subs"
| "collect_subscriptions qos props e (item # items) subs =
     rbind (item_subscription qos item) (\<lambda>(topic, options).
     rbind (validate_subscribe_filter topic) (\<lambda>_.
     rbind (check_subscribe_capabilities topic options props e) (\<lambda>_.
       collect_subscriptions qos props e items (subs @ [\<lparr>sub_topic = topic, sub_options = options\<rparr>]))))"

definition prepare_subscribe :: "sub_item list \<Rightarrow> int \<Rightarrow> properties option \<Rightarrow> engine \<Rightarrow> subscription_request result" where
  "prepare_subscribe items qos props e =
     (if e_state e \<noteq> CONNECTED then Inl NotConnectedError
      else if cfg_protocol (e_config e) \<noteq> MQTTv5 \<and> props_bool props then Inl ProtocolError
      else rbind (collect_subscriptions qos props e items []) (\<lambda>subs.
        Inr (\<lambda>mid. encode_subscribe (e_codec e) mid subs props, SUBACK, length subs)))"

fun validate_filters :: "pystr list \<Rightarrow> unit result" where
  "validate_filters [] = Inr ()"
| "validate_filters (t # ts) = rbind (validate_subscribe_filter t) (\<lambda>_. validate_filters ts)"

definition prepare_unsubscribe :: "pystr list \<Rightarrow> engine \<Rightarrow> subscription_request result" where
  "prepare_unsubscribe topics e =
     (if e_state e \<noteq> CONNECTED then Inl NotConnectedError
      else if topics = [] then Inl ProtocolError
      else rbind (validate_filters topics) (\<lambda>_.
        Inr (\<lambda>mid. encode_unsubscribe (e_codec e) mid topics None, UNSUBACK, length topics)))"

definition queue_subscription_request :: "(int set \<Rightarrow> int) \<Rightarrow> subscription_request \<Rightarrow> int eop" where
  "queue_subscription_request pick request =
     (case request of (encode, ack_type, expected_count) \<Rightarrow>
      sbind (on_ids (allocate pick)) (\<lambda>mid.
      sbind (scatch (sbind (slift (encode mid)) (\<lambda>wire. sthen (check_outbound_size (Contiguous wire)) (sret wire)))
               (\<lambda>exc. sthen (free_id mid) (sraise exc))) (\<lambda>wire.
      sthen (smod (\<lambda>e. e\<lparr>e_pending_sub_requests := AList.update mid (ack_type, expected_count) (e_pending_sub_requests e)\<rparr>))
      (sthen (send (Contiguous wire)) (sret mid)))))"

definition queue_subscribe :: "(int set \<Rightarrow> int) \<Rightarrow> sub_item list \<Rightarrow> int \<Rightarrow> properties option \<Rightarrow> int eop" where
  "queue_subscribe pick items qos props = sbind (sask (prepare_subscribe items qos props)) (queue_subscription_request pick)"

definition queue_unsubscribe :: "(int set \<Rightarrow> int) \<Rightarrow> pystr list \<Rightarrow> int eop" where
  "queue_unsubscribe pick topics = sbind (sask (prepare_unsubscribe topics)) (queue_subscription_request pick)"

definition queue_ping :: "unit eop" where
  "queue_ping =
     sbind (sget id) (\<lambda>e.
       if e_state e \<noteq> CONNECTED then sraise NotConnectedError
       else let wire = Contiguous (pingreq_frame (e_codec e)) in sthen (check_outbound_size wire) (send wire))"

definition check_disconnect_session_expiry :: "properties option \<Rightarrow> engine \<Rightarrow> unit result" where
  "check_disconnect_session_expiry props e =
     (if \<not> is_mqtt5 (e_codec e) \<or> props = None then Inr ()
      else if \<not> props_has props ''session_expiry_interval'' \<or> get_int props ''session_expiry_interval'' = Some 0 then Inr ()
      else if e_sent_session_expiry_interval e \<in> {None, Some 0} then Inl ProtocolError
      else Inr ())"

definition begin_disconnect :: "int \<Rightarrow> properties option \<Rightarrow> bytes eop" where
  "begin_disconnect reason_code props =
     sbind (sget id) (\<lambda>e.
       if e_state e \<notin> {CONNECTING, CONNECTED} then sraise NotConnectedError
       else
         sthen (slift (check_disconnect_session_expiry props e))
         (sbind (slift (bound_encode_disconnect (e_codec e) reason_code props)) (\<lambda>wire.
          sthen (check_outbound_size (Contiguous wire))
          (sthen (smod (\<lambda>e. e\<lparr>e_state := DISCONNECTING\<rparr>)) (sret wire)))))"

definition notify_transport_closed :: "unit eop" where
  "notify_transport_closed =
     sbind (sget e_state) (\<lambda>was.
     sthen enter_disconnected
     (sthen out_transport_closed
     (sthen in_transport_closed
     (sthen release_pending_subscription_requests
       (swhen (was \<noteq> DISCONNECTED) (emit (EffDisconnected 0 None False)))))))"

subsection \<open>CONNACK\<close>

definition validate_connack_v5 :: "connack_packet \<Rightarrow> unit eop" where
  "validate_connack_v5 connack =
     sbind (sget id) (\<lambda>e.
     let props = connack_properties connack; connack_method = get_str props ''authentication_method'' in
       if connack_method \<noteq> None \<and> connack_method \<noteq> e_auth_method e then reject 0x82
       else if connack_reason connack = 0 \<and> e_auth_method e \<noteq> None \<and> connack_method = None then reject 0x82
       else if props_has props ''authentication_data'' \<and> e_auth_method e = None then reject 0x82
       else if e_sent_request_response_information e = 0 \<and> props_has props ''response_information'' then reject 0x82
       else sret ())"

definition validate_accepted_connack :: "connack_packet \<Rightarrow> unit eop" where
  "validate_accepted_connack connack =
     sbind (sget id) (\<lambda>e.
       if is_mqtt5 (e_codec e) \<and> e_sent_client_id e = []
          \<and> get_str (connack_properties connack) ''assigned_client_identifier'' \<in> {None, Some []} then reject 0x82
       else if session_present connack \<and> e_sent_clean_start e then reject 0x82
       else sret ())"

definition update_session_resume_preference :: "unit eop" where
  "update_session_resume_preference = smod (\<lambda>e. e\<lparr>e_prefer_session_resume :=
     (if cfg_protocol (e_config e) = MQTTv5 then session_expiry_interval (e_negotiated e) \<notin> {None, Some 0}
      else \<not> cfg_clean_start (e_config e))\<rparr>)"

text \<open>The parts of \<^verbatim>\<open>_on_connack\<close>: a refusal, what is negotiated and checked before the connection is accepted, and what is
  done once it is.\<close>

definition refuse_connack :: "connack_packet \<Rightarrow> unit eop" where
  "refuse_connack connack =
     sthen enter_disconnected
     (sthen (emit (EffConnack connack))
       (emit (EffDisconnected (connack_reason connack) (connack_properties connack) True)))"

definition negotiate :: "connack_packet \<Rightarrow> unit eop" where
  "negotiate connack =
     sthen (smod (\<lambda>e. e\<lparr>e_negotiated := from_connack (connack_properties connack) (e_sent_session_expiry_interval e)\<rparr>))
     (sthen (smod (\<lambda>e. e\<lparr>e_session_client_id :=
               (if e_sent_client_id e \<noteq> [] then Some (e_sent_client_id e)
                else case assigned_client_identifier (e_negotiated e) of
                       None \<Rightarrow> e_session_client_id e | Some [] \<Rightarrow> e_session_client_id e | Some i \<Rightarrow> Some i)\<rparr>))
     (sbind (sget id) (\<lambda>e.
       if is_mqtt5 (e_codec e) \<and> (case maximum_packet_size (e_negotiated e) of None \<Rightarrow> False | Some n \<Rightarrow> n < 4)
       then sthen enter_disconnected (sraise MandatoryResponseTooLargeError)
       else swhen (session_present connack)
              (scatch check_session_replayable
                (\<lambda>exc. if exc = SessionReplayError then sthen enter_disconnected (sraise exc) else sraise exc)))))"

definition accept_connack :: "connack_packet \<Rightarrow> unit eop" where
  "accept_connack connack =
     sthen (smod (\<lambda>e. e\<lparr>e_reauth_in_progress := False, e_auth_response_due := None, e_state := CONNECTED,
              e_session_present := session_present connack\<rparr>))
     (sthen update_session_resume_preference
     (sthen (if \<not> session_present connack then
               sbind (sget (\<lambda>e. e_pending_sub_requests e \<noteq> [])) (\<lambda>sub_mids_pending.
               sthen (purge_after_clean_session sub_mids_pending)
               (sthen discard_session (sthen reset_flow_for_connection fail_queued_violating_negotiation)))
             else out_replay_session)
     (sthen (emit (EffConnack connack))
     (sthen (swhen (session_present connack) in_replay_session) drain))))"

definition on_connack :: "raw_packet \<Rightarrow> unit eop" where
  "on_connack raw =
     sbind (sget e_state) (\<lambda>st.
       if st \<noteq> CONNECTING then sraise ProtocolError
       else sbind (sask (\<lambda>e. decode_connack (e_codec e) (remaining raw))) (\<lambda>(present_flag, reason_code, props).
         let connack = \<lparr>session_present = present_flag, connack_reason = reason_code, connack_properties = props\<rparr> in
         sthen (sbind (sget is_v5) (\<lambda>v5. swhen v5 (validate_connack_v5 connack)))
           (if reason_code \<noteq> 0 then refuse_connack connack
            else sthen (validate_accepted_connack connack) (sthen (negotiate connack) (accept_connack connack)))))"

subsection \<open>The other packets\<close>

definition complete_subscription_request :: "int \<Rightarrow> packet_type \<Rightarrow> nat option \<Rightarrow> unit eop" where
  "complete_subscription_request mid ack_type reason_count =
     sbind (sget e_pending_sub_requests) (\<lambda>pending.
       case map_of pending mid of
         None \<Rightarrow> sraise ProtocolError
       | Some (expected_type, expected_count) \<Rightarrow>
           if ack_type \<noteq> expected_type then sraise ProtocolError
           else if (case reason_count of None \<Rightarrow> False | Some n \<Rightarrow> n \<noteq> expected_count) then sraise ProtocolError
           else sthen (smod (\<lambda>e. e\<lparr>e_pending_sub_requests := AList.delete mid (e_pending_sub_requests e)\<rparr>)) (free_id mid))"

definition on_suback :: "raw_packet \<Rightarrow> unit eop" where
  "on_suback raw =
     sbind (sask (\<lambda>e. decode_suback (e_codec e) (remaining raw))) (\<lambda>(mid, reason_codes, props).
     sthen (validate_inbound_problem_information props)
     (sthen (complete_subscription_request mid SUBACK (Some (length reason_codes)))
       (emit (EffSuback \<lparr>sa_mid = mid, sa_reason_codes = reason_codes, sa_properties = props\<rparr>))))"

definition on_unsuback :: "raw_packet \<Rightarrow> unit eop" where
  "on_unsuback raw =
     sbind (sask (\<lambda>e. decode_unsuback (e_codec e) (remaining raw))) (\<lambda>(mid, reason_codes, props).
     sthen (validate_inbound_problem_information props)
     (sbind (sget is_v5) (\<lambda>v5.
      sthen (complete_subscription_request mid UNSUBACK (if v5 then Some (length reason_codes) else None))
       (emit (EffUnsuback \<lparr>sa_mid = mid, sa_reason_codes = reason_codes, sa_properties = props\<rparr>)))))"

definition on_pingresp :: "raw_packet \<Rightarrow> unit eop" where
  "on_pingresp raw = (if remaining raw \<noteq> [] then sraise MalformedPacketError else emit EffPingresp)"

definition on_disconnect :: "raw_packet \<Rightarrow> unit eop" where
  "on_disconnect raw =
     sbind (sask (\<lambda>e. decode_disconnect (e_codec e) (remaining raw))) (\<lambda>(reason_code, props).
     sthen enter_disconnected
     (sthen release_pending_subscription_requests
     (sthen (emit (EffDisconnected reason_code props True))
     (sbind (sget is_v5) (\<lambda>v5. swhen (v5 \<and> props_has props ''session_expiry_interval'') (sraise ProtocolError))))))"

text \<open>\<^verbatim>\<open>_on_auth\<close> up to the acceptance of the packet's method and reason.\<close>

definition check_auth :: "int \<Rightarrow> properties option \<Rightarrow> unit eop" where
  "check_auth reason_code props =
     sbind (sget id) (\<lambda>e.
       if e_auth_method e = None then reject 0x82
       else if get_str props ''authentication_method'' \<noteq> e_auth_method e then reject 0x82
       else if reason_code = 0x19 then reject 0x82
       else if e_state e = CONNECTING then swhen (reason_code \<noteq> 0x18) (reject 0x82)
       else if e_state e = CONNECTED then
         (if \<not> e_reauth_in_progress e then reject 0x82
          else if reason_code = 0x00 then smod (\<lambda>e. e\<lparr>e_reauth_in_progress := False, e_auth_response_due := None\<rparr>)
          else swhen (reason_code \<noteq> 0x18) (reject 0x82))
       else sret ())"

definition on_auth :: "raw_packet \<Rightarrow> unit eop" where
  "on_auth raw =
     sbind (sget is_v5) (\<lambda>v5.
       if \<not> v5 then reject 0x82
       else sbind (sask (\<lambda>e. decode_auth (e_codec e) (remaining raw))) (\<lambda>(reason_code, props).
         sthen (validate_inbound_problem_information props)
         (sthen (check_auth reason_code props)
         (sbind (sget (\<lambda>e. accept_auth (e_config e))) (\<lambda>accepts.
            if \<not> accepts then protocol_disconnect 0x82
            else
              sthen (swhen (reason_code = 0x18)
                       (smod (\<lambda>e. e\<lparr>e_auth_challenges := e_auth_challenges e + 1, e_auth_response_due := Some (e_auth_challenges e + 1)\<rparr>)))
              (sbind (sget e_auth_challenges) (\<lambda>n.
                emit (EffAuth \<lparr>cp_reason_code = reason_code, cp_properties = props\<rparr> (if reason_code = 0x18 then Some n else None)))))))))"

text \<open>\<^verbatim>\<open>_handlers_by_state\<close>.\<close>

definition handler_of :: "connection_state \<Rightarrow> packet_type \<Rightarrow> (raw_packet \<Rightarrow> unit eop) option" where
  "handler_of st t =
     (case st of
        CONNECTING \<Rightarrow> (case t of CONNACK \<Rightarrow> Some on_connack | AUTH \<Rightarrow> Some on_auth | _ \<Rightarrow> None)
      | CONNECTED \<Rightarrow>
          (case t of
             PUBLISH \<Rightarrow> Some handle_publish | PUBACK \<Rightarrow> Some on_puback | PUBREC \<Rightarrow> Some on_pubrec | PUBREL \<Rightarrow> Some on_pubrel
           | PUBCOMP \<Rightarrow> Some on_pubcomp | SUBACK \<Rightarrow> Some on_suback | UNSUBACK \<Rightarrow> Some on_unsuback | PINGRESP \<Rightarrow> Some on_pingresp
           | DISCONNECT \<Rightarrow> Some on_disconnect | AUTH \<Rightarrow> Some on_auth | _ \<Rightarrow> None)
      | _ \<Rightarrow> None)"

definition dispatch :: "raw_packet \<Rightarrow> unit eop" where
  "dispatch raw =
     sthen (slift (validate_raw_packet raw))
     (sbind (sget e_state) (\<lambda>st.
       case handler_of st (raw_type raw) of None \<Rightarrow> sraise ProtocolError | Some handler \<Rightarrow> handler raw))"

text \<open>The errors \<^verbatim>\<open>handle_raw\<close> attributes to the peer; any other is raised to the caller.\<close>

definition blames_peer :: "exn \<Rightarrow> bool" where
  "blames_peer x \<longleftrightarrow> (is_protocol_error x \<or> x = MalformedPacketError) \<and> x \<noteq> MandatoryResponseTooLargeError"

definition handle_raw :: "raw_packet \<Rightarrow> exn option eop" where
  "handle_raw raw =
     sbind (sget e_state) (\<lambda>st.
       if st \<in> {DISCONNECTING, DISCONNECTED} then sret None
       else scatch (sthen (dispatch raw) (sret None))
              (\<lambda>exc. if blames_peer exc then sthen (emit (EffProtocolError exc)) (sret (Some exc)) else sraise exc))"

subsection \<open>The calls of the application\<close>

definition seal_publications :: "int list \<Rightarrow> unit eop" where
  "seal_publications mids = seal mids"

definition continue_inbound_replay :: "unit eop" where
  "continue_inbound_replay = drain_replay"

definition mark_inbound_delivered :: "int \<Rightarrow> nat option \<Rightarrow> unit eop" where
  "mark_inbound_delivered mid token = mark_delivered mid token"

definition engine_ack :: "int \<Rightarrow> delivery option \<Rightarrow> unit eop" where
  "engine_ack mid message =
     sbind (sget e_state) (\<lambda>st. if st \<noteq> CONNECTED then sraise NotConnectedError else in_ack mid message)"

definition CLIENT_AUTH_REASON_CODES :: "int set" where
  "CLIENT_AUTH_REASON_CODES = {0x18, 0x19}"

definition prepare_auth :: "int \<Rightarrow> properties option \<Rightarrow> engine \<Rightarrow> bytes result" where
  "prepare_auth reason_code props e =
     (if cfg_protocol (e_config e) \<noteq> MQTTv5 then Inl ProtocolError
      else if e_state e \<notin> {CONNECTING, CONNECTED} then Inl NotConnectedError
      else case e_auth_method e of
        None \<Rightarrow> Inl ProtocolError
      | Some auth_method \<Rightarrow>
          if reason_code \<notin> CLIENT_AUTH_REASON_CODES then Inl ProtocolError
          else if (if reason_code = 0x19 then e_state e \<noteq> CONNECTED \<or> e_reauth_in_progress e
                   else e_state e = CONNECTED \<and> \<not> e_reauth_in_progress e) then Inl ProtocolError
          else
            (let table = mk_properties (case props of None \<Rightarrow> [] | Some p \<Rightarrow> prop_values p);
                 given = props_has (Some table) ''authentication_method''
             in if given \<and> props_get table ''authentication_method'' \<noteq> Some (VStr auth_method) then Inl ProtocolError
                else AuthPacket_encode \<lparr>cp_reason_code = reason_code,
                       cp_properties = Some (if given then table
                         else mk_properties (AList.update ''authentication_method'' (VStr auth_method) (prop_values table)))\<rparr>
                     (cfg_protocol (e_config e))))"

definition queue_auth :: "int \<Rightarrow> properties option \<Rightarrow> unit eop" where
  "queue_auth reason_code props =
     sbind (sask (prepare_auth reason_code props)) (\<lambda>wire.
     sthen (check_outbound_size (Contiguous wire))
     (sthen (send (Contiguous wire))
       (smod (\<lambda>e. e\<lparr>e_auth_response_due := None, e_reauth_in_progress := (if reason_code = 0x19 then True else e_reauth_in_progress e)\<rparr>))))"

definition respond_auth :: "int option \<Rightarrow> int \<Rightarrow> properties option \<Rightarrow> bool eop" where
  "respond_auth challenge reason_code props =
     sbind (sget id) (\<lambda>e.
       if challenge = None \<or> challenge \<noteq> e_auth_response_due e then sret False
       else if e_state e \<notin> {CONNECTING, CONNECTED} then sret False
       else sthen (queue_auth reason_code props) (sret True))"

definition effective_client_id :: "engine \<Rightarrow> pystr" where
  "effective_client_id e =
     (case assigned_client_identifier (e_negotiated e) of
        Some (c # cs) \<Rightarrow> c # cs
      | _ \<Rightarrow> if e_sent_client_id e \<noteq> [] then e_sent_client_id e else cfg_client_id (e_config e))"

end
