(* ===== verification/Outbound_Inv.thy ===== *)
theory Outbound_Inv
  imports Outbound
begin

text \<open>
  The invariant of the outbound session and its preservation by every operation: the identifiers in use are those
  of the stored publications and of the pending subscription requests, the budgets are exactly the stored
  publications not yet given up, only live publications hold a send slot, and every publication waiting for a slot
  is queued once.
\<close>

subsection \<open>The invariant\<close>

definition out_mids :: "mem_store \<Rightarrow> int set" where
  "out_mids st = fst ` set (out_tab st)"

definition sealed_mids :: "outbound_session \<Rightarrow> int set" where
  "sealed_mids s = fst ` set (o_sealed s)"

definition queue_mids :: "mem_store \<Rightarrow> outbound_session \<Rightarrow> int list" where
  "queue_mids st s = map (entry_mid st) (o_queued s)"

text \<open>A queue entry stands for a stored, unsealed publication, in the phase and with the size of its row.\<close>

definition entry_ok :: "mem_store \<Rightarrow> outbound_session \<Rightarrow> queue_entry \<Rightarrow> bool" where
  "entry_ok st s m \<longleftrightarrow> entry_mid st m \<notin> sealed_mids s \<and> (\<exists>a. map_of (out_tab st) (entry_mid st m) = Some a
     \<and> (case m of Held b \<Rightarrow> b = a
        | Summary q \<Rightarrow> os_state q = om_state (out_heap st ! a) \<and> os_logical_size q = om_logical_size (out_heap st ! a)))"

definition row_state :: "mem_store \<Rightarrow> int \<Rightarrow> outbound_state option" where
  "row_state st mid = map_option om_state (out_row st mid)"

text \<open>\<open>P\<close>: rows still to be queued; \<open>subs\<close>: identifiers of the pending subscription requests.\<close>

definition oinv :: "int set \<Rightarrow> mem_store \<Rightarrow> outbound_session \<Rightarrow> int set \<Rightarrow> bool" where
  "oinv P st s subs \<longleftrightarrow>
     store_inv st
   \<and> pool_inv (o_packet_ids s) \<and> used (o_packet_ids s) = out_mids st \<union> subs \<and> out_mids st \<inter> subs = {}
   \<and> flow_inv (o_flow s) \<and> holders (o_flow s) \<subseteq> out_mids st - sealed_mids s - set (queue_mids st s)
   \<and> distinct (map fst (o_sealed s)) \<and> sealed_mids s \<subseteq> out_mids st
   \<and> o_pending_messages s = orows.count (sealed_mids s) st \<and> o_pending_bytes s = orows.weight (sealed_mids s) st
   \<and> distinct (queue_mids st s) \<and> (\<forall>m \<in> set (o_queued s). entry_ok st s m)
   \<and> o_parked s = {mid \<in> set (queue_mids st s). row_state st mid \<noteq> Some QUEUED}
   \<and> (\<forall>mid. row_state st mid = Some QUEUED \<and> mid \<notin> sealed_mids s \<longrightarrow> mid \<in> set (queue_mids st s) \<union> P)
   \<and> (\<forall>(mid, sent) \<in> set (o_sealed s). sent \<longleftrightarrow> row_state st mid \<noteq> Some QUEUED)"

lemma out_mids_dom: "out_mids st = dom (out_row st)"
  by (simp add: out_mids_def out_row_def)

lemma row_state_None [simp]: "row_state st mid = None \<longleftrightarrow> mid \<notin> out_mids st"
  by (auto simp: row_state_def out_mids_dom domIff)

lemma weight_cong: "out_row st' = out_row st \<Longrightarrow> orows.weight X st' = orows.weight X st"
  "out_row st' = out_row st \<Longrightarrow> orows.count X st' = orows.count X st"
  by (simp_all add: orows.weight_def orows.count_def)

lemma out_row_addr: "map_of (out_tab st) mid = Some a \<Longrightarrow> out_row st mid = Some (out_heap st ! a)"
  by (simp add: out_row_def tab_row_def)

lemma row_addr:
  assumes "out_row st mid = Some m"
  obtains a where "map_of (out_tab st) mid = Some a" "m = out_heap st ! a"
  using assms by (auto simp: out_row_def tab_row_def)

text \<open>Changing the object of one row.\<close>

definition set_msg :: "nat \<Rightarrow> outbound_message \<Rightarrow> mem_store \<Rightarrow> mem_store" where
  "set_msg a m st = st\<lparr>out_heap := (out_heap st)[a := m]\<rparr>"

lemma set_msg_simps [simp]:
  "out_tab (set_msg a m st) = out_tab st" "in_tab (set_msg a m st) = in_tab st" "in_heap (set_msg a m st) = in_heap st"
  "out_mids (set_msg a m st) = out_mids st" "set_msg a m (set_msg a m' st) = set_msg a m st"
  by (simp_all add: set_msg_def out_mids_def)

lemma set_msg_row:
  assumes "store_inv st" "map_of (out_tab st) mid = Some a" "om_mid m = mid" "om_logical_size m = om_logical_size (out_heap st ! a)"
  shows "store_inv (set_msg a m st)" "out_row (set_msg a m st) = (out_row st)(mid := Some m)"
    "orows.weight X (set_msg a m st) = orows.weight X st" "orows.count X (set_msg a m st) = orows.count X st"
proof -
  note mu = tab_inv_mutate [OF store_invD(1) [OF assms(1)] assms(2-4)]
  show inv: "store_inv (set_msg a m st)" using mu(1) assms(1) by (simp add: store_inv_def set_msg_def)
  show row: "out_row (set_msg a m st) = (out_row st)(mid := Some m)" using mu(2) by (simp add: out_row_def set_msg_def)
  show "orows.weight X (set_msg a m st) = orows.weight X st" "orows.count X (set_msg a m st) = orows.count X st"
    using orows.weight_replace [OF out_row_addr [OF assms(2)] row assms(4)] by simp_all
qed

lemma entry_view_set_msg:
  assumes "store_inv st" "entry_ok st s m" "map_of (out_tab st) mid = Some a" "om_mid m' = mid"
  shows "entry_mid (set_msg a m' st) m = entry_mid st m"
    "entry_mid st m \<noteq> mid \<Longrightarrow> entry_view (set_msg a m' st) m = entry_view st m"
proof -
  note addr = tab_inv_addr [OF store_invD(1) [OF assms(1)] assms(3)]
  show "entry_mid (set_msg a m' st) m = entry_mid st m"
    using addr assms(4) by (cases m) (auto simp: entry_mid_def entry_view_def set_msg_def from_message_def nth_list_update)
  show "entry_view (set_msg a m' st) m = entry_view st m" if "entry_mid st m \<noteq> mid"
  proof (cases m)
    case (Held b)
    with that assms addr have "b \<noteq> a" by (auto simp: entry_mid_def entry_view_def from_message_def)
    with Held show ?thesis by (simp add: entry_view_def set_msg_def)
  qed (simp add: entry_view_def)
qed

subsection \<open>Transitions of one publication\<close>

lemma oinvD:
  assumes "oinv P st s subs"
  shows "store_inv st" "pool_inv (o_packet_ids s)" "used (o_packet_ids s) = out_mids st \<union> subs" "out_mids st \<inter> subs = {}"
    "flow_inv (o_flow s)" "holders (o_flow s) \<subseteq> out_mids st - sealed_mids s - set (queue_mids st s)"
    "distinct (map fst (o_sealed s))" "sealed_mids s \<subseteq> out_mids st"
    "o_pending_messages s = orows.count (sealed_mids s) st" "o_pending_bytes s = orows.weight (sealed_mids s) st"
    "distinct (queue_mids st s)" "\<And>m. m \<in> set (o_queued s) \<Longrightarrow> entry_ok st s m"
    "o_parked s = {mid \<in> set (queue_mids st s). row_state st mid \<noteq> Some QUEUED}"
    "\<And>mid. row_state st mid = Some QUEUED \<Longrightarrow> mid \<notin> sealed_mids s \<Longrightarrow> mid \<in> set (queue_mids st s) \<union> P"
    "\<And>mid sent. (mid, sent) \<in> set (o_sealed s) \<Longrightarrow> sent \<longleftrightarrow> row_state st mid \<noteq> Some QUEUED"
  using assms unfolding oinv_def by (blast+)

lemma oinvI:
  assumes "store_inv st" "pool_inv (o_packet_ids s)" "used (o_packet_ids s) = out_mids st \<union> subs" "out_mids st \<inter> subs = {}"
    "flow_inv (o_flow s)" "holders (o_flow s) \<subseteq> out_mids st - sealed_mids s - set (queue_mids st s)"
    "distinct (map fst (o_sealed s))" "sealed_mids s \<subseteq> out_mids st"
    "o_pending_messages s = orows.count (sealed_mids s) st" "o_pending_bytes s = orows.weight (sealed_mids s) st"
    "distinct (queue_mids st s)" "\<And>m. m \<in> set (o_queued s) \<Longrightarrow> entry_ok st s m"
    "o_parked s = {mid \<in> set (queue_mids st s). row_state st mid \<noteq> Some QUEUED}"
    "\<And>mid. row_state st mid = Some QUEUED \<Longrightarrow> mid \<notin> sealed_mids s \<Longrightarrow> mid \<in> set (queue_mids st s) \<union> P"
    "\<And>mid sent. (mid, sent) \<in> set (o_sealed s) \<Longrightarrow> sent \<longleftrightarrow> row_state st mid \<noteq> Some QUEUED"
  shows "oinv P st s subs"
  using assms unfolding oinv_def by blast

lemma entry_ok_mid: "entry_ok st s m \<Longrightarrow> entry_mid st m \<in> out_mids st - sealed_mids s"
  by (auto simp: entry_ok_def out_mids_def dest!: map_of_SomeD) (force simp: entry_ok_def dest: map_of_SomeD)

lemma entry_ok_other:
  assumes "store_inv st" "entry_ok st s m" "map_of (out_tab st) mid = Some a" "om_mid m' = mid" "entry_mid st m \<noteq> mid"
    "sealed_mids s' \<subseteq> insert mid (sealed_mids s)" "out_heap st' = (out_heap st)[a := m']"
    "\<And>k. k \<noteq> mid \<Longrightarrow> map_of (out_tab st') k = map_of (out_tab st) k"
  shows "entry_ok st' s' m" "entry_mid st' m = entry_mid st m" "entry_view st' m = entry_view st m"
proof -
  from assms(2) obtain b where b: "map_of (out_tab st) (entry_mid st m) = Some b" "entry_mid st m \<notin> sealed_mids s"
    "case m of Held c \<Rightarrow> c = b | Summary q \<Rightarrow> os_state q = om_state (out_heap st ! b) \<and> os_logical_size q = om_logical_size (out_heap st ! b)"
    by (auto simp: entry_ok_def)
  have ne: "b \<noteq> a" using tab_inv_inj [OF store_invD(1) [OF assms(1)] b(1)] assms(3,5) by blast
  show view: "entry_view st' m = entry_view st m" using b(3) ne assms(7) by (cases m) (auto simp: entry_view_def)
  then show mid: "entry_mid st' m = entry_mid st m" by (simp add: entry_mid_def)
  show "entry_ok st' s' m" unfolding entry_ok_def mid using assms(5-8) b ne by (cases m) auto
qed

text \<open>The head of the queue was sent: it holds a slot and is no longer queued.\<close>

lemma oinv_send:
  assumes inv: "oinv P st s subs" and queue: "o_queued s = m # rest" and addr: "map_of (out_tab st) (entry_mid st m) = Some a"
    and m': "om_mid m' = entry_mid st m" "om_logical_size m' = om_logical_size (out_heap st ! a)" "om_state m' \<noteq> QUEUED"
    and flow: "flow_inv (o_flow s')" "holders (o_flow s') = insert (entry_mid st m) (holders (o_flow s))"
    and s': "o_packet_ids s' = o_packet_ids s" "o_sealed s' = o_sealed s" "o_queued s' = rest" "o_parked s' = o_parked s - {entry_mid st m}"
      "o_pending_messages s' = o_pending_messages s" "o_pending_bytes s' = o_pending_bytes s"
  shows "oinv P (set_msg a m' st) s' subs"
proof -
  note D = oinvD [OF inv]
  define mid where "mid = entry_mid st m"
  note row = set_msg_row [OF D(1) addr m'(1,2)]
  have sealed: "sealed_mids s' = sealed_mids s" by (simp add: sealed_mids_def s')
  have other: "entry_ok (set_msg a m' st) s' n" "entry_mid (set_msg a m' st) n = entry_mid st n" if "n \<in> set rest" for n
  proof -
    have ne: "entry_mid st n \<noteq> entry_mid st m" using D(11) that by (auto simp: queue_mids_def queue image_iff)
    show "entry_ok (set_msg a m' st) s' n" "entry_mid (set_msg a m' st) n = entry_mid st n"
      by (rule entry_ok_other [OF D(1) D(12) addr m'(1) ne]; use that queue sealed in \<open>auto simp: set_msg_def\<close>)+
  qed
  then have qm: "queue_mids (set_msg a m' st) s' = map (entry_mid st) rest" by (simp add: queue_mids_def s')
  have qold: "queue_mids st s = mid # map (entry_mid st) rest" by (simp add: queue_mids_def queue mid_def)
  have rs: "row_state (set_msg a m' st) k = (if k = mid then Some (om_state m') else row_state st k)" for k
    by (simp add: row_state_def row mid_def)
  have mid: "mid \<in> out_mids st - sealed_mids s" using entry_ok_mid [OF D(12), of m] queue by (simp add: mid_def)
  show ?thesis
  proof (rule oinvI)
    show "holders (o_flow s') \<subseteq> out_mids (set_msg a m' st) - sealed_mids s' - set (queue_mids (set_msg a m' st) s')"
      using D(6) D(11) mid qold by (auto simp: flow qm sealed mid_def [symmetric])
    show "o_parked s' = {k \<in> set (queue_mids (set_msg a m' st) s'). row_state (set_msg a m' st) k \<noteq> Some QUEUED}"
      using D(11) by (auto simp: s' D(13) qm qold rs mid_def [symmetric])
    show "row_state (set_msg a m' st) k = Some QUEUED \<Longrightarrow> k \<notin> sealed_mids s' \<Longrightarrow> k \<in> set (queue_mids (set_msg a m' st) s') \<union> P" for k
      using D(14) [of k] m'(3) by (auto simp: rs qm qold sealed split: if_splits)
    show "distinct (queue_mids (set_msg a m' st) s')" using D(11) by (simp add: qm qold)
    show "(k, b) \<in> set (o_sealed s') \<Longrightarrow> b \<longleftrightarrow> row_state (set_msg a m' st) k \<noteq> Some QUEUED" for k b
      using D(15) [of k b] mid by (auto simp: s' rs sealed_mids_def image_iff)
  qed (use D row flow s' sealed other in \<open>simp_all\<close>)
qed

text \<open>Deleting a row.\<close>

definition drop_row :: "int \<Rightarrow> mem_store \<Rightarrow> mem_store" where
  "drop_row mid st = st\<lparr>out_tab := AList.delete mid (out_tab st)\<rparr>"

lemma delete_out_eq: "delete_out mid st = (mid \<in> out_mids st, drop_row mid st)"
  by (simp add: delete_out_def drop_row_def out_mids_def map_of_eq_None_iff)

lemma drop_row_simps [simp]:
  "out_heap (drop_row mid st) = out_heap st" "in_tab (drop_row mid st) = in_tab st" "in_heap (drop_row mid st) = in_heap st"
  "map_of (out_tab (drop_row mid st)) = (map_of (out_tab st))(mid := None)"
  "entry_view (drop_row mid st) = entry_view st" "entry_mid (drop_row mid st) = entry_mid st"
  by (auto simp: drop_row_def AList.delete_conv' entry_view_def entry_mid_def fun_eq_iff split: queue_entry.split)

lemma out_mids_drop_row [simp]: "out_mids (drop_row mid st) = out_mids st - {mid}"
  by (force simp: drop_row_def out_mids_def AList.delete_eq)

lemma drop_row_row:
  assumes "store_inv st"
  shows "store_inv (drop_row mid st)" "out_row (drop_row mid st) = (out_row st)(mid := None)"
    "row_state (drop_row mid st) = (row_state st)(mid := None)"
  using tab_inv_delete [OF store_invD(1) [OF assms], of mid] assms
  by (auto simp: drop_row_def store_inv_def out_row_def row_state_def fun_eq_iff)

lemma oinv_drop:
  assumes inv: "oinv P st s subs" and addr: "map_of (out_tab st) mid = Some a" and unsealed: "mid \<notin> sealed_mids s"
    and m': "om_mid m' = mid" "om_logical_size m' = om_logical_size (out_heap st ! a)"
    and pool: "pool_inv (o_packet_ids s')" "used (o_packet_ids s') = used (o_packet_ids s) - {mid}"
    and flow: "flow_inv (o_flow s')" "holders (o_flow s') = holders (o_flow s) - {mid}"
    and s': "o_sealed s' = o_sealed s" "o_queued s' = filter (\<lambda>n. entry_mid st n \<noteq> mid) (o_queued s)" "o_parked s' = o_parked s - {mid}"
      "o_pending_messages s' = o_pending_messages s - 1" "o_pending_bytes s' = o_pending_bytes s - om_logical_size (out_heap st ! a)"
  shows "oinv P (drop_row mid (set_msg a m' st)) s' subs"
proof -
  note D = oinvD [OF inv]
  note row = set_msg_row [OF D(1) addr m']
  let ?st = "set_msg a m' st"
  let ?st' = "drop_row mid ?st"
  note gone = drop_row_row [OF row(1), of mid]
  have sealed: "sealed_mids s' = sealed_mids s" by (simp add: sealed_mids_def s')
  have other: "entry_ok ?st' s' n" "entry_mid ?st' n = entry_mid st n" if "n \<in> set (o_queued s')" for n
  proof -
    have n: "n \<in> set (o_queued s)" "entry_mid st n \<noteq> mid" using that by (auto simp: s')
    show "entry_ok ?st' s' n" "entry_mid ?st' n = entry_mid st n"
      by (rule entry_ok_other [OF D(1) D(12) [OF n(1)] addr m'(1) n(2)]; use sealed in \<open>auto simp: set_msg_def\<close>)+
  qed
  have qm: "queue_mids ?st' s' = filter (\<lambda>k. k \<noteq> mid) (queue_mids st s)"
    using other(2) by (simp add: queue_mids_def s' filter_map o_def cong: map_cong)
  have rs: "row_state ?st' k = (if k = mid then None else row_state st k)" for k
    by (simp add: gone row row_state_def)
  have mid: "mid \<in> out_mids st" "out_row ?st mid = Some m'" using addr row(2) by (auto simp: out_mids_def dest: map_of_SomeD intro: rev_image_eqI)
  note w = orows.weight_remove [OF row(1) mid(2) gone(2), of "sealed_mids s"]
  show ?thesis
  proof (rule oinvI)
    show "used (o_packet_ids s') = out_mids ?st' \<union> subs" using D(3,4) mid(1) pool(2) by auto
    show "holders (o_flow s') \<subseteq> out_mids ?st' - sealed_mids s' - set (queue_mids ?st' s')"
      using D(6) by (auto simp: flow qm sealed)
    show "o_parked s' = {k \<in> set (queue_mids ?st' s'). row_state ?st' k \<noteq> Some QUEUED}"
      by (auto simp: s' D(13) qm rs)
    show "row_state ?st' k = Some QUEUED \<Longrightarrow> k \<notin> sealed_mids s' \<Longrightarrow> k \<in> set (queue_mids ?st' s') \<union> P" for k
      using D(14) [of k] by (auto simp: rs qm sealed split: if_splits)
    show "o_pending_messages s' = orows.count (sealed_mids s') ?st'" "o_pending_bytes s' = orows.weight (sealed_mids s') ?st'"
      using w unsealed m'(2) D(9,10) by (simp_all add: s' sealed row)
    show "(k, b) \<in> set (o_sealed s') \<Longrightarrow> b \<longleftrightarrow> row_state ?st' k \<noteq> Some QUEUED" for k b
      using D(15) [of k b] unsealed by (auto simp: s' rs sealed_mids_def image_iff)
  qed (use D gone pool flow s' sealed other unsealed in \<open>auto simp: qm\<close>)
qed

lemma oinv_drop_sealed:
  assumes inv: "oinv P st s subs" and sealed: "mid \<in> sealed_mids s"
    and pool: "pool_inv (o_packet_ids s')" "used (o_packet_ids s') = used (o_packet_ids s) - {mid}"
    and s': "o_sealed s' = AList.delete mid (o_sealed s)" "o_flow s' = o_flow s" "o_queued s' = o_queued s" "o_parked s' = o_parked s"
      "o_pending_messages s' = o_pending_messages s" "o_pending_bytes s' = o_pending_bytes s"
  shows "oinv P (drop_row mid st) s' subs"
proof -
  note D = oinvD [OF inv]
  note gone = drop_row_row [OF D(1), of mid]
  have sm: "sealed_mids s' = sealed_mids s - {mid}" by (auto simp: sealed_mids_def s' AList.delete_eq)
  have mid: "mid \<in> out_mids st" using D(8) sealed by auto
  have qnot: "mid \<notin> set (queue_mids st s)" using D(12) sealed by (auto simp: queue_mids_def entry_ok_def)
  have ok: "entry_ok (drop_row mid st) s' n" if "n \<in> set (o_queued s)" for n
    using D(12) [OF that] qnot that by (cases n) (auto simp: entry_ok_def sm queue_mids_def)
  have qm: "queue_mids (drop_row mid st) s' = queue_mids st s" by (simp add: queue_mids_def s')
  have d: "dom (out_row (drop_row mid st)) - (sealed_mids s - {mid}) = dom (out_row st) - sealed_mids s"
    using sealed by (auto simp: gone split: if_splits)
  have w: "orows.weight (sealed_mids s - {mid}) (drop_row mid st) = orows.weight (sealed_mids s) st"
    unfolding orows.weight_def d using sealed by (intro sum.cong) (auto simp: gone)
  have c: "orows.count (sealed_mids s - {mid}) (drop_row mid st) = orows.count (sealed_mids s) st"
    unfolding orows.count_def d ..
  show ?thesis
  proof (rule oinvI)
    show "used (o_packet_ids s') = out_mids (drop_row mid st) \<union> subs" using D(3,4) mid pool(2) by auto
    show "distinct (map fst (o_sealed s'))" using D(7) by (simp add: s' AList.delete_eq distinct_map_filter)
    show "o_parked s' = {k \<in> set (queue_mids (drop_row mid st) s'). row_state (drop_row mid st) k \<noteq> Some QUEUED}"
      using qnot by (auto simp: s' D(13) qm gone)
    show "row_state (drop_row mid st) k = Some QUEUED \<Longrightarrow> k \<notin> sealed_mids s' \<Longrightarrow> k \<in> set (queue_mids (drop_row mid st) s') \<union> P" for k
      using D(14) [of k] by (auto simp: gone qm sm split: if_splits)
    show "(k, b) \<in> set (o_sealed s') \<Longrightarrow> b \<longleftrightarrow> row_state (drop_row mid st) k \<noteq> Some QUEUED" for k b
      using D(15) [of k b] by (auto simp: s' gone AList.delete_eq)
  qed (use D gone pool s' sm ok w c sealed in \<open>auto simp: qm\<close>)
qed

subsection \<open>Sending one publication\<close>

text \<open>An operation that only changes the object at \<open>a\<close>, never its identifier or size, the topic aliases, and appends effects.\<close>

definition touch :: "nat \<Rightarrow> outbound_message \<Rightarrow> (int \<Rightarrow> pystr option) \<Rightarrow> effect list \<Rightarrow> engine \<Rightarrow> engine" where
  "touch a m' al eff e = e\<lparr>e_store := set_msg a m' (e_store e), e_effects := e_effects e @ eff, e_out := (e_out e)\<lparr>o_topic_aliases := al\<rparr>\<rparr>"

definition is_send :: "effect \<Rightarrow> bool" where
  "is_send x \<longleftrightarrow> (\<exists>w. x = EffSend w)"

definition touched :: "nat \<Rightarrow> engine \<Rightarrow> engine \<Rightarrow> bool" where
  "touched a e e' \<longleftrightarrow> (\<exists>m' al eff. om_mid m' = om_mid (out_heap (e_store e) ! a)
     \<and> om_logical_size m' = om_logical_size (out_heap (e_store e) ! a) \<and> list_all is_send eff \<and> e' = touch a m' al eff e)"

lemma touched_shapes:
  "touched a e e"
  "om_mid m' = om_mid (out_heap (e_store e) ! a) \<Longrightarrow> om_logical_size m' = om_logical_size (out_heap (e_store e) ! a)
     \<Longrightarrow> touched a e (e\<lparr>e_store := (e_store e)\<lparr>out_heap := (out_heap (e_store e))[a := m']\<rparr>\<rparr>)"
  "om_mid m' = om_mid (out_heap (e_store e) ! a) \<Longrightarrow> om_logical_size m' = om_logical_size (out_heap (e_store e) ! a)
     \<Longrightarrow> touched a e (e\<lparr>e_store := (e_store e)\<lparr>out_heap := (out_heap (e_store e))[a := m']\<rparr>, e_effects := e_effects e @ [EffSend x]\<rparr>)"
  "om_mid m' = om_mid (out_heap (e_store e) ! a) \<Longrightarrow> om_logical_size m' = om_logical_size (out_heap (e_store e) ! a)
     \<Longrightarrow> touched a e (e\<lparr>e_store := (e_store e)\<lparr>out_heap := (out_heap (e_store e))[a := m']\<rparr>, e_effects := e_effects e @ [EffSend x],
           e_out := (e_out e)\<lparr>o_topic_aliases := al\<rparr>\<rparr>)"
  "touched a e (e\<lparr>e_effects := e_effects e @ [EffSend x]\<rparr>)"
proof -
  have e: "e = touch a (out_heap (e_store e) ! a) (o_topic_aliases (e_out e)) [] e" by (simp add: touch_def set_msg_def)
  have e': "e\<lparr>e_effects := e_effects e @ [EffSend x]\<rparr> = touch a (out_heap (e_store e) ! a) (o_topic_aliases (e_out e)) [EffSend x] e" by (simp add: touch_def set_msg_def)
  show "touched a e e" unfolding touched_def by (intro exI conjI, rule refl, rule refl, rule list.pred_inject(1), rule e)
  have "list_all is_send [EffSend x]" by (simp add: is_send_def)
  then show "touched a e (e\<lparr>e_effects := e_effects e @ [EffSend x]\<rparr>)" unfolding touched_def using e' by blast
  assume m': "om_mid m' = om_mid (out_heap (e_store e) ! a)" "om_logical_size m' = om_logical_size (out_heap (e_store e) ! a)"
  have "touched a e (touch a m' al eff e)" if "list_all is_send eff" for al eff unfolding touched_def using m' that by blast
  from this [of "[]" "o_topic_aliases (e_out e)"] this [of "[EffSend x]" "o_topic_aliases (e_out e)"] this [of "[EffSend x]" al]
  show "touched a e (e\<lparr>e_store := (e_store e)\<lparr>out_heap := (out_heap (e_store e))[a := m']\<rparr>\<rparr>)"
    "touched a e (e\<lparr>e_store := (e_store e)\<lparr>out_heap := (out_heap (e_store e))[a := m']\<rparr>, e_effects := e_effects e @ [EffSend x]\<rparr>)"
    "touched a e (e\<lparr>e_store := (e_store e)\<lparr>out_heap := (out_heap (e_store e))[a := m']\<rparr>, e_effects := e_effects e @ [EffSend x],
       e_out := (e_out e)\<lparr>o_topic_aliases := al\<rparr>\<rparr>)"
    by (simp_all add: touch_def set_msg_def is_send_def)
qed

lemma touched_trans:
  assumes "touched a e e1" "touched a e1 e2" "a < length (out_heap (e_store e))"
  shows "touched a e e2"
proof -
  from assms(1) obtain m1 al1 f1 where 1: "om_mid m1 = om_mid (out_heap (e_store e) ! a)" "om_logical_size m1 = om_logical_size (out_heap (e_store e) ! a)"
    "e1 = touch a m1 al1 f1 e" "list_all is_send f1" by (auto simp: touched_def)
  from assms(2) obtain m2 al2 f2 where 2: "om_mid m2 = om_mid (out_heap (e_store e1) ! a)" "om_logical_size m2 = om_logical_size (out_heap (e_store e1) ! a)"
    "e2 = touch a m2 al2 f2 e1" "list_all is_send f2" by (auto simp: touched_def)
  have "e2 = touch a m2 al2 (f1 @ f2) e" "list_all is_send (f1 @ f2)" using 1(4) 2(4) by (simp_all add: 1(3) 2(3) touch_def)
  moreover have "om_mid m2 = om_mid (out_heap (e_store e) ! a)" "om_logical_size m2 = om_logical_size (out_heap (e_store e) ! a)"
    using 1 2 assms(3) by (simp_all add: touch_def set_msg_def)
  ultimately show ?thesis unfolding touched_def by blast
qed

lemma commit_topic_alias_frame:
  "(\<And>al. Q () (e\<lparr>e_out := (e_out e)\<lparr>o_topic_aliases := al\<rparr>\<rparr>)) \<Longrightarrow> (\<And>x. E x e) \<Longrightarrow> Q () e \<Longrightarrow> wp (commit_topic_alias t p) Q E e"
  by (simp add: commit_topic_alias_def wp_simps split: option.split sum.split)

lemma launch_touches:
  assumes "a < length (out_heap (e_store e))" "map_of (out_tab (e_store e)) (om_mid (out_heap (e_store e) ! a)) = Some a"
    "om_state (out_heap (e_store e) ! a) = QUEUED"
  shows "wp (launch a True pb tb wt) (\<lambda>_ e'. touched a e e' \<and> om_state (out_heap (e_store e') ! a) \<noteq> QUEUED) (\<lambda>_ e'. touched a e e') e"
  using assms
  by (simp add: launch_def wp_simps transition_out_def Let_def commit_topic_alias_frame touched_shapes split: option.split sum.split)

lemma retransmit_touches:
  assumes "a < length (out_heap (e_store e))"
  shows "wp (retransmit a) (\<lambda>_ e'. touched a e e' \<and> om_state (out_heap (e_store e') ! a) = om_state (out_heap (e_store e) ! a)) (\<lambda>_ e'. touched a e e') e"
  using assms
  by (simp add: retransmit_def wp_simps commit_topic_alias_frame touched_shapes split: option.split sum.split)

lemma send_head_touches:
  assumes inv: "store_inv (e_store e)" and ok: "entry_ok (e_store e) s m" and addr: "map_of (out_tab (e_store e)) (entry_mid (e_store e) m) = Some a"
  shows "wp (send_head m) (\<lambda>_ e'. touched a e e' \<and> om_state (out_heap (e_store e') ! a) \<noteq> QUEUED) (\<lambda>_ e'. touched a e e') e"
proof -
  note t = tab_inv_addr [OF store_invD(1) [OF inv] addr]
  have mat: "wp (materialize m) Q E e = Q a e" for Q E
  proof (cases m)
    case (Held b)
    with ok addr have "b = a" by (auto simp: entry_ok_def)
    with Held show ?thesis by (simp add: materialize_def wp_simps)
  next
    case (Summary q)
    with addr show ?thesis by (simp add: materialize_def wp_simps get_out_def entry_mid_def entry_view_def)
  qed
  show ?thesis
  proof (cases "om_state (out_heap (e_store e) ! a) = QUEUED")
    case False
    have "wp (retransmit a) (\<lambda>_ e'. touched a e e' \<and> om_state (out_heap (e_store e') ! a) \<noteq> QUEUED) (\<lambda>_ e'. touched a e e') e"
      by (rule wp_mono, rule retransmit_touches [OF t(1)]) (use False in auto)
    with False show ?thesis by (simp add: send_head_def wp_simps mat)
  next
    case True
    define e1 where "e1 = (if om_dup (out_heap (e_store e) ! a)
      then e\<lparr>e_store := (e_store e)\<lparr>out_heap := (out_heap (e_store e))[a := (out_heap (e_store e) ! a)\<lparr>om_dup := False, om_encoded_publish := None\<rparr>]\<rparr>\<rparr>
      else e)"
    have e1: "touched a e e1" by (simp add: e1_def touched_shapes)
    have "wp (launch a True None None None) (\<lambda>_ e'. touched a e1 e' \<and> om_state (out_heap (e_store e') ! a) \<noteq> QUEUED) (\<lambda>_ e'. touched a e1 e') e1"
      by (rule launch_touches) (use t addr True in \<open>auto simp: e1_def\<close>)
    then have "wp (launch a True None None None) (\<lambda>_ e'. touched a e e' \<and> om_state (out_heap (e_store e') ! a) \<noteq> QUEUED) (\<lambda>_ e'. touched a e e') e1"
      by (rule wp_mono) (use touched_trans [OF e1] t(1) in auto)
    with True show ?thesis by (simp add: send_head_def wp_simps mat e1_def split: if_splits)
  qed
qed

subsection \<open>Draining the queue\<close>

definition sub_mids :: "engine \<Rightarrow> int set" where
  "sub_mids e = fst ` set (e_pending_sub_requests e)"

definition out_ok :: "engine \<Rightarrow> bool" where
  "out_ok e \<longleftrightarrow> oinv {} (e_store e) (e_out e) (sub_mids e)"

text \<open>What the outbound operations leave alone.\<close>

definition outbound_effect :: "int set \<Rightarrow> effect \<Rightarrow> bool" where
  "outbound_effect M x \<longleftrightarrow> (case x of EffSend _ \<Rightarrow> True | EffPublishComplete k \<Rightarrow> k \<in> Some ` M | EffPublishFailed k _ \<Rightarrow> k \<in> M | _ \<Rightarrow> False)"

definition same_rest :: "engine \<Rightarrow> engine \<Rightarrow> bool" where
  "same_rest e e' \<longleftrightarrow> out_mids (e_store e') \<subseteq> out_mids (e_store e) \<and> e_config e' = e_config e \<and> e_state e' = e_state e \<and> e_negotiated e' = e_negotiated e \<and> e_in e' = e_in e
     \<and> in_tab (e_store e') = in_tab (e_store e) \<and> in_heap (e_store e') = in_heap (e_store e)
     \<and> e_pending_sub_requests e' = e_pending_sub_requests e \<and> (\<exists>eff. e_effects e' = e_effects e @ eff \<and> list_all (outbound_effect (out_mids (e_store e))) eff)"

lemma outbound_effect_mono: "M \<subseteq> N \<Longrightarrow> outbound_effect M x \<Longrightarrow> outbound_effect N x"
  by (auto simp: outbound_effect_def split: effect.splits)

lemma outbound_sends: "list_all is_send eff \<Longrightarrow> list_all (outbound_effect M) eff"
  by (auto simp: is_send_def outbound_effect_def list_all_iff)

lemma same_rest_refl [simp]: "same_rest e e"
  by (simp add: same_rest_def)

lemma same_rest_trans:
  assumes "same_rest e e1" "same_rest e1 e2"
  shows "same_rest e e2"
proof -
  from assms obtain f1 f2 where "e_effects e1 = e_effects e @ f1" "list_all (outbound_effect (out_mids (e_store e))) f1"
    "e_effects e2 = e_effects e1 @ f2" "list_all (outbound_effect (out_mids (e_store e1))) f2" "out_mids (e_store e1) \<subseteq> out_mids (e_store e)"
    by (auto simp: same_rest_def)
  then have "e_effects e2 = e_effects e @ (f1 @ f2)" "list_all (outbound_effect (out_mids (e_store e))) (f1 @ f2)"
    using outbound_effect_mono by (auto simp: list_all_iff)
  with assms show ?thesis by (auto simp: same_rest_def)
qed

lemma release_reservation_ok:
  assumes "0 < o_pending_messages (e_out e)" "0 \<le> n" "n \<le> o_pending_bytes (e_out e)"
  shows "wp (release_reservation n) Q E e = Q () (e\<lparr>e_out := (e_out e)\<lparr>
      o_high_messages := max (o_high_messages (e_out e)) (o_pending_messages (e_out e)),
      o_high_bytes := max (o_high_bytes (e_out e)) (o_pending_bytes (e_out e)),
      o_pending_messages := o_pending_messages (e_out e) - 1, o_pending_bytes := o_pending_bytes (e_out e) - n\<rparr>\<rparr>)"
  using assms by (auto simp: release_reservation_def wp_simps max_def)

lemma oinv_budget:
  assumes "oinv P st s subs" "map_of (out_tab st) mid = Some a" "mid \<notin> sealed_mids s"
  shows "0 < o_pending_messages s" "0 < om_logical_size (out_heap st ! a)" "om_logical_size (out_heap st ! a) \<le> o_pending_bytes s"
  using orows.weight_member [OF oinvD(1) [OF assms(1)] out_row_addr [OF assms(2)] assms(3)]
    orows.size_pos [OF oinvD(1) [OF assms(1)] out_row_addr [OF assms(2)]] oinvD(9,10) [OF assms(1)] by simp_all

text \<open>Discarding a record that is stored and counted.\<close>

lemma discard_record_ok:
  assumes "0 < os_logical_size (entry_view (e_store e) m)" "0 < o_pending_messages (e_out e)"
    "os_logical_size (entry_view (e_store e) m) \<le> o_pending_bytes (e_out e)"
  shows "wp (discard_record mid m) Q E e = Q () (e\<lparr>e_store := drop_row mid (e_store e), e_out := (e_out e)\<lparr>
      o_high_messages := max (o_high_messages (e_out e)) (o_pending_messages (e_out e)),
      o_high_bytes := max (o_high_bytes (e_out e)) (o_pending_bytes (e_out e)),
      o_pending_messages := o_pending_messages (e_out e) - 1,
      o_pending_bytes := o_pending_bytes (e_out e) - os_logical_size (entry_view (e_store e) m)\<rparr>\<rparr>)"
  using assms by (simp add: discard_record_def wp_simps delete_out_eq stored_logical_size_def release_reservation_ok)

lemma flow_release_holders:
  assumes "flow_inv f"
  shows "flow_inv (snd (flow_release mid f))" "holders (snd (flow_release mid f)) = holders f - {mid}"
    "flow_limit (snd (flow_release mid f)) = flow_limit f"
  using quota.free_law [OF assms, of mid "fst (flow_release mid f)" "snd (flow_release mid f)"] by simp_all

lemma filter_head:
  assumes "distinct (map f (m # rest))"
  shows "filter (\<lambda>n. f n \<noteq> f m) (m # rest) = rest"
  using assms by (auto simp: filter_id_conv image_iff)

lemma oinv_entry:
  assumes "oinv P st s subs" "m \<in> set (o_queued s)"
  obtains a where "map_of (out_tab st) (entry_mid st m) = Some a" "entry_mid st m \<notin> sealed_mids s" "entry_mid st m \<notin> holders (o_flow s)"
    "os_logical_size (entry_view st m) = om_logical_size (out_heap st ! a)" "os_state (entry_view st m) = om_state (out_heap st ! a)"
    "entry_ok st s m"
proof -
  note D = oinvD [OF assms(1)]
  from D(12) [OF assms(2)] obtain a where "map_of (out_tab st) (entry_mid st m) = Some a" "entry_mid st m \<notin> sealed_mids s"
    "case m of Held b \<Rightarrow> b = a | Summary q \<Rightarrow> os_state q = om_state (out_heap st ! a) \<and> os_logical_size q = om_logical_size (out_heap st ! a)"
    by (auto simp: entry_ok_def)
  moreover have "entry_mid st m \<notin> holders (o_flow s)" using D(6) assms(2) by (auto simp: queue_mids_def)
  ultimately show ?thesis using that D(12) [OF assms(2)] by (cases m) (auto simp: entry_view_def from_message_def)
qed

lemma drain_step_ok:
  assumes inv: "oinv P (e_store e) (e_out e) subs"
  shows "wp drain_step (\<lambda>go e'. oinv P (e_store e') (e_out e') subs \<and> same_rest e e' \<and> flow_limit (o_flow (e_out e')) = flow_limit (o_flow (e_out e))
      \<and> (\<not> go \<longrightarrow> o_queued (e_out e') = [] \<or> flow_available (o_flow (e_out e')) = 0)) (\<lambda>_ _. False) e"
proof (cases "o_queued (e_out e)")
  case Nil
  with inv show ?thesis by (simp add: drain_step_def wp_simps same_rest_def)
next
  case (Cons m rest)
  note D = oinvD [OF inv]
  define mid where "mid = entry_mid (e_store e) m"
  from oinv_entry [OF inv, of m] Cons obtain a where a: "map_of (out_tab (e_store e)) mid = Some a" "mid \<notin> sealed_mids (e_out e)"
    "mid \<notin> holders (o_flow (e_out e))" "os_logical_size (entry_view (e_store e) m) = om_logical_size (out_heap (e_store e) ! a)"
    "entry_ok (e_store e) (e_out e) m" unfolding mid_def by (metis list.set_intros(1))
  note t = tab_inv_addr [OF store_invD(1) [OF D(1)] a(1)]
  note bud = oinv_budget [OF inv a(1,2)]
  have mid_in: "mid \<in> out_mids (e_store e)" using a(1) by (force simp: out_mids_def dest: map_of_SomeD)
  obtain r w where run: "try_acquire mid (o_flow (e_out e)) = (r, w)" by fastforce
  note law = quota.acquire_law [OF D(5) run]
  show ?thesis
  proof (cases "int (card (holders (o_flow (e_out e)))) \<ge> flow_limit (o_flow (e_out e))")
    case True
    with law have "r = Inr False" "w = o_flow (e_out e)" by simp_all
    with Cons run inv True show ?thesis
      by (simp add: drain_step_def wp_simps mid_def [symmetric] same_rest_def flow_available_def)
  next
    case False
    with law a(3) have w: "r = Inr True" "flow_inv w" "holders w = insert mid (holders (o_flow (e_out e)))" "flow_limit w = flow_limit (o_flow (e_out e))" by auto
    let ?e1 = "e\<lparr>e_out := (e_out e)\<lparr>o_flow := w\<rparr>\<rparr>"
    let ?G = "\<lambda>e'. oinv P (e_store e') (e_out e') subs \<and> same_rest e e' \<and> flow_limit (o_flow (e_out e')) = flow_limit (o_flow (e_out e))"
    have sent: "?G (e2\<lparr>e_out := (e_out e2)\<lparr>o_queued := tl (o_queued (e_out e2)), o_parked := o_parked (e_out e2) - {mid}\<rparr>\<rparr>)"
      if e2: "touched a ?e1 e2" and q: "om_state (out_heap (e_store e2) ! a) \<noteq> QUEUED" for e2
    proof -
      from e2 obtain m' al eff where m': "om_mid m' = mid" "om_logical_size m' = om_logical_size (out_heap (e_store e) ! a)" "e2 = touch a m' al eff ?e1" "list_all is_send eff"
        using t(2) by (auto simp: touched_def)
      have "om_state m' \<noteq> QUEUED" using q t(1) by (simp add: m' touch_def set_msg_def)
      then have "oinv P (set_msg a m' (e_store e)) ((e_out e)\<lparr>o_flow := w, o_topic_aliases := al, o_queued := rest, o_parked := o_parked (e_out e) - {mid}\<rparr>) subs"
        by (rule oinv_send [OF inv Cons a(1) [unfolded mid_def] m'(1) [unfolded mid_def] m'(2)]) (simp_all add: w mid_def)
      then show ?thesis using Cons w(4) outbound_sends [OF m'(4)] by (simp add: m'(3) touch_def same_rest_def)
    qed
    have failed: "wp (abandon_head mid m exc) (\<lambda>_. ?G) (\<lambda>_ _. False) e2" if e2: "touched a ?e1 e2" for e2 exc
    proof -
      from e2 obtain m' al eff where m': "om_mid m' = mid" "om_logical_size m' = om_logical_size (out_heap (e_store e) ! a)" "e2 = touch a m' al eff ?e1" "list_all is_send eff"
        using t(2) by (auto simp: touched_def)
      have size: "os_logical_size (entry_view (set_msg a m' (e_store e)) m) = om_logical_size (out_heap (e_store e) ! a)"
      proof (cases m)
        case (Held b)
        with a(4) m'(2) t(1) show ?thesis by (cases "b = a") (simp_all add: entry_view_def from_message_def set_msg_def)
      qed (use a(4) in \<open>simp add: entry_view_def\<close>)
      have "distinct (map (entry_mid (e_store e)) (m # rest))" using D(11) by (simp add: queue_mids_def Cons)
      note rest = filter_head [OF this, folded mid_def]
      let ?s' = "(e_out e)\<lparr>o_topic_aliases := al, o_flow := snd (flow_release mid w),
          o_high_messages := max (o_high_messages (e_out e)) (o_pending_messages (e_out e)), o_high_bytes := max (o_high_bytes (e_out e)) (o_pending_bytes (e_out e)),
          o_pending_messages := o_pending_messages (e_out e) - 1, o_pending_bytes := o_pending_bytes (e_out e) - om_logical_size (out_heap (e_store e) ! a),
          o_queued := rest, o_parked := o_parked (e_out e) - {mid}, o_packet_ids := release mid (o_packet_ids (e_out e))\<rparr>"
      have "oinv P (drop_row mid (set_msg a m' (e_store e))) ?s' subs"
        by (rule oinv_drop [OF inv a(1,2) m'(1,2)])
          (use rest Cons mids.free_law [OF D(2), of mid] flow_release_holders [OF w(2), of mid] w(3) in \<open>simp_all\<close>)
      then show ?thesis
        using bud Cons flow_release_holders [OF w(2), of mid] w(4) outbound_sends [OF m'(4)] mid_in
        by (simp add: outbound_effect_def abandon_head_def wp_simps m'(3) touch_def discard_record_ok size same_rest_def)
    qed
    have "wp (send_head m) (\<lambda>_ e2. ?G (e2\<lparr>e_out := (e_out e2)\<lparr>o_queued := tl (o_queued (e_out e2)), o_parked := o_parked (e_out e2) - {mid}\<rparr>\<rparr>))
        (\<lambda>exc. wp (abandon_head mid m exc) (\<lambda>_. ?G) (\<lambda>_ _. False)) ?e1"
    proof (rule wp_mono, rule send_head_touches [where a = a])
      show "store_inv (e_store ?e1)" using D(1) by simp
      show "entry_ok (e_store ?e1) (e_out e) m" using a(5) by simp
      show "map_of (out_tab (e_store ?e1)) (entry_mid (e_store ?e1) m) = Some a" using a(1) by (simp add: mid_def)
    qed (use sent failed in auto)
    with Cons run w(1) show ?thesis by (simp add: drain_step_def wp_simps mid_def [symmetric])
  qed
qed

lemma drain_ok:
  assumes "oinv P (e_store e) (e_out e) subs"
  shows "wp drain (\<lambda>_ e'. oinv P (e_store e') (e_out e') subs \<and> same_rest e e' \<and> flow_limit (o_flow (e_out e')) = flow_limit (o_flow (e_out e))
      \<and> (o_queued (e_out e') = [] \<or> flow_available (o_flow (e_out e')) = 0)) (\<lambda>_ _. False) e"
proof (rule wp_drain [where I = "\<lambda>t. oinv P (e_store t) (e_out t) subs \<and> same_rest e t \<and> flow_limit (o_flow (e_out t)) = flow_limit (o_flow (e_out e))"])
  fix t
  assume t: "oinv P (e_store t) (e_out t) subs \<and> same_rest e t \<and> flow_limit (o_flow (e_out t)) = flow_limit (o_flow (e_out e))"
  show "wp drain_step (\<lambda>go t'. if go then oinv P (e_store t') (e_out t') subs \<and> same_rest e t' \<and> flow_limit (o_flow (e_out t')) = flow_limit (o_flow (e_out e))
      else oinv P (e_store t') (e_out t') subs \<and> same_rest e t' \<and> flow_limit (o_flow (e_out t')) = flow_limit (o_flow (e_out e))
        \<and> (o_queued (e_out t') = [] \<or> flow_available (o_flow (e_out t')) = 0)) (\<lambda>_ _. False) t"
    by (rule wp_mono, rule drain_step_ok [of P t subs]) (use t same_rest_trans in auto)
qed (use assms in simp)

subsection \<open>Acknowledgements\<close>

lemma complete_out_eq:
  "complete_out mid q st = (case out_row st mid of
      Some m \<Rightarrow> if om_state m = q then (Some \<lparr>orm_mid = mid, orm_state = q, orm_logical_size = om_logical_size m\<rparr>, drop_row mid st) else (None, st)
    | None \<Rightarrow> (None, st))"
  by (simp add: complete_out_def out_row_def tab_row_def Let_def delete_out_eq split: option.split)

lemma remove_entry_filter:
  "distinct (map (entry_mid st) q) \<Longrightarrow> mid \<in> set (map (entry_mid st) q) \<Longrightarrow>
   remove_entry st mid q = Some (filter (\<lambda>n. entry_mid st n \<noteq> mid) q)"
proof (induction q)
  case (Cons m q)
  show ?case
  proof (cases "entry_mid st m = mid")
    case True
    with filter_head [OF Cons.prems(1)] show ?thesis by simp
  qed (use Cons in auto)
qed simp

lemma unpark_ok:
  assumes "distinct (queue_mids (e_store e) (e_out e))" "mid \<in> o_parked (e_out e) \<longleftrightarrow> mid \<in> set (queue_mids (e_store e) (e_out e))"
  shows "wp (unpark mid) Q E e = Q () (e\<lparr>e_out := (e_out e)\<lparr>o_parked := o_parked (e_out e) - {mid},
           o_queued := filter (\<lambda>n. entry_mid (e_store e) n \<noteq> mid) (o_queued (e_out e))\<rparr>\<rparr>)"
proof (cases "mid \<in> o_parked (e_out e)")
  case True
  with assms remove_entry_filter [of "e_store e" "o_queued (e_out e)" mid] show ?thesis
    by (simp add: unpark_def wp_simps queue_mids_def)
next
  case False
  with assms(2) have "filter (\<lambda>n. entry_mid (e_store e) n \<noteq> mid) (o_queued (e_out e)) = o_queued (e_out e)"
    by (auto simp: queue_mids_def filter_id_conv)
  with False show ?thesis by (simp add: unpark_def wp_simps)
qed

text \<open>A row past its queueing is queued exactly when it is parked.\<close>

lemma oinv_parked:
  assumes "oinv P st s subs" "row_state st mid \<noteq> Some QUEUED"
  shows "mid \<in> o_parked s \<longleftrightarrow> mid \<in> set (queue_mids st s)"
  using assms(2) by (simp add: oinvD(13) [OF assms(1)])

definition outcome :: "int \<Rightarrow> failure option \<Rightarrow> effect" where
  "outcome mid f = (case f of None \<Rightarrow> EffPublishComplete (Some mid) | Some r \<Rightarrow> EffPublishFailed mid r)"

lemma wp_report [wp_simps]: "wp (report mid f) Q E = (\<lambda>e. Q () (e\<lparr>e_effects := e_effects e @ [outcome mid f]\<rparr>))"
  by (rule ext) (simp add: report_def outcome_def wp_simps split: option.split)

definition settled :: "int \<Rightarrow> outbound_state \<Rightarrow> failure option \<Rightarrow> engine \<Rightarrow> engine \<Rightarrow> bool" where
  "settled mid q f e e' \<longleftrightarrow>
     (if row_state (e_store e) mid = Some q then
        mid \<notin> out_mids (e_store e') \<and> (o_queued (e_out e') = [] \<or> flow_available (o_flow (e_out e')) = 0)
        \<and> (\<exists>eff. e_effects e' = e_effects e @ outcome mid f # eff \<and> list_all (outbound_effect (out_mids (e_store e) - {mid})) eff)
      else e' = e)"

lemma drain_after:
  assumes "oinv P (e_store e1) (e_out e1) subs" "out_mids (e_store e1) = out_mids (e_store e) - {mid}" "mid \<in> out_mids (e_store e)"
    "e_effects e1 = e_effects e @ [outcome mid f]" "row_state (e_store e) mid = Some q"
    "e_config e1 = e_config e" "e_state e1 = e_state e" "e_negotiated e1 = e_negotiated e" "e_in e1 = e_in e"
    "in_tab (e_store e1) = in_tab (e_store e)" "in_heap (e_store e1) = in_heap (e_store e)" "e_pending_sub_requests e1 = e_pending_sub_requests e"
  shows "wp drain (\<lambda>_ e'. oinv P (e_store e') (e_out e') subs \<and> same_rest e e' \<and> settled mid q f e e') (\<lambda>_ _. False) e1"
proof (rule wp_mono [OF drain_ok [OF assms(1)]])
  fix u e'
  assume d: "oinv P (e_store e') (e_out e') subs \<and> same_rest e1 e' \<and> flow_limit (o_flow (e_out e')) = flow_limit (o_flow (e_out e1))
      \<and> (o_queued (e_out e') = [] \<or> flow_available (o_flow (e_out e')) = 0)"
  have "outbound_effect (out_mids (e_store e)) (outcome mid f)"
    using assms(3) by (simp add: outbound_effect_def outcome_def split: option.split)
  then have "same_rest e e1" using assms by (auto simp: same_rest_def)
  with d same_rest_trans have "same_rest e e'" by blast
  moreover have "settled mid q f e e'" using d assms by (auto simp: settled_def same_rest_def)
  ultimately show "oinv P (e_store e') (e_out e') subs \<and> same_rest e e' \<and> settled mid q f e e'" using d by blast
qed

lemma finish_ok:
  assumes inv: "oinv P (e_store e) (e_out e) subs" and q: "q \<noteq> QUEUED"
  shows "wp (finish mid q f) (\<lambda>_ e'. oinv P (e_store e') (e_out e') subs \<and> same_rest e e' \<and> settled mid q f e e') (\<lambda>_ _. False) e"
proof (cases "row_state (e_store e) mid = Some q")
  case False
  then have "complete_out mid q (e_store e) = (None, e_store e)"
    by (auto simp: complete_out_eq row_state_def split: option.split)
  with False inv show ?thesis by (simp add: finish_def wp_simps settled_def)
next
  case True
  note D = oinvD [OF inv]
  from True obtain m where m: "out_row (e_store e) mid = Some m" "om_state m = q" by (auto simp: row_state_def)
  then obtain a where a: "map_of (out_tab (e_store e)) mid = Some a" "m = out_heap (e_store e) ! a" using row_addr by blast
  have mid: "mid \<in> out_mids (e_store e)" using m(1) by (auto simp: out_mids_dom)
  have com: "complete_out mid q (e_store e) = (Some \<lparr>orm_mid = mid, orm_state = q, orm_logical_size = om_logical_size m\<rparr>, drop_row mid (e_store e))"
    using m by (simp add: complete_out_eq)
  have pool: "pool_inv (release mid (o_packet_ids (e_out e)))" "used (release mid (o_packet_ids (e_out e))) = used (o_packet_ids (e_out e)) - {mid}"
    using mids.free_law [OF D(2), of mid] by simp_all
  show ?thesis
  proof (cases "mid \<in> sealed_mids (e_out e)")
    case sealed: True
    let ?e1 = "e\<lparr>e_store := drop_row mid (e_store e), e_effects := e_effects e @ [outcome mid f],
      e_out := (e_out e)\<lparr>o_sealed := AList.delete mid (o_sealed (e_out e)), o_packet_ids := release mid (o_packet_ids (e_out e))\<rparr>\<rparr>"
    have "oinv P (drop_row mid (e_store e)) (e_out ?e1) subs"
      by (rule oinv_drop_sealed [OF inv sealed]) (use pool in simp_all)
    then have "oinv P (e_store ?e1) (e_out ?e1) subs" by simp
    from drain_after [OF this, of e mid f q] mid True sealed
    show ?thesis by (simp add: finish_def wp_simps com sealed_mids_def)
  next
    case False
    note bud = oinv_budget [OF inv a(1) False]
    have same: "set_msg a m (e_store e) = e_store e" by (simp add: set_msg_def a(2))
    have mm: "om_mid m = mid" using tab_inv_addr(2) [OF store_invD(1) [OF D(1)] a(1)] a(2) by simp
    note fr = flow_release_holders [OF D(5), of mid]
    let ?s = "(e_out e)\<lparr>o_high_messages := max (o_high_messages (e_out e)) (o_pending_messages (e_out e)), o_high_bytes := max (o_high_bytes (e_out e)) (o_pending_bytes (e_out e)),
      o_pending_messages := o_pending_messages (e_out e) - 1, o_pending_bytes := o_pending_bytes (e_out e) - om_logical_size m\<rparr>"
    let ?e0 = "e\<lparr>e_store := drop_row mid (e_store e), e_out := ?s\<rparr>"
    let ?s1 = "?s\<lparr>o_parked := o_parked (e_out e) - {mid}, o_queued := filter (\<lambda>n. entry_mid (e_store e) n \<noteq> mid) (o_queued (e_out e)),
      o_flow := snd (flow_release mid (o_flow (e_out e))), o_packet_ids := release mid (o_packet_ids (e_out e))\<rparr>"
    let ?e1 = "e\<lparr>e_store := drop_row mid (e_store e), e_effects := e_effects e @ [outcome mid f], e_out := ?s1\<rparr>"
    have "oinv P (drop_row mid (set_msg a m (e_store e))) ?s1 subs"
      by (rule oinv_drop [OF inv a(1) False mm]) (use fr pool a(2) in \<open>simp_all\<close>)
    then have "oinv P (e_store ?e1) (e_out ?e1) subs" by (simp add: same)
    note dr = drain_after [OF this, of e mid f q]
    have "row_state (e_store e) mid \<noteq> Some QUEUED" using True q by simp
    from oinv_parked [OF inv this] D(11)
    have un: "wp (unpark mid) Q E ?e0 = Q () (?e0\<lparr>e_out := (e_out ?e0)\<lparr>o_parked := o_parked (e_out ?e0) - {mid},
        o_queued := filter (\<lambda>n. entry_mid (e_store ?e0) n \<noteq> mid) (o_queued (e_out ?e0))\<rparr>\<rparr>)" for Q E
      by (intro unpark_ok) (simp_all add: queue_mids_def)
    show ?thesis
      using dr mid True False bud [folded a(2)]
      by (simp add: finish_def wp_simps com sealed_mids_def release_reservation_ok un)
  qed
qed

end
