(* ===== verification/Outbound_Ops.thy ===== *)
theory Outbound_Ops
  imports Outbound_Inv Wire_Errors
begin

text \<open>
  Every operation of the outbound session keeps the invariant of \<^verbatim>\<open>Outbound_Inv\<close> and never fails locally: the
  acknowledgement handlers, publishing with its rollback, sealing, hydration, the replay of a resumed session
  and the purge of a lost one.
\<close>

subsection \<open>Teardown\<close>

lemma fold_release:
  assumes "pool_inv p"
  shows "pool_inv (fold release ms p) \<and> used (fold release ms p) = used p - set ms"
  using assms
proof (induction ms arbitrary: p)
  case (Cons m ms)
  from mids.free_law [OF Cons.prems, of m] Cons.IH [of "release m p"] show ?case by auto
qed simp

lemma wp_free_ids: "wp (sfor free_id ms) Q E = (\<lambda>e. Q () (e\<lparr>e_out := (e_out e)\<lparr>o_packet_ids := fold release ms (o_packet_ids (e_out e))\<rparr>\<rparr>))"
proof (induction ms)
  case Nil
  show ?case by (rule ext) (simp add: wp_simps)
next
  case (Cons m ms)
  then show ?case by (intro ext) (simp add: wp_simps)
qed

lemma sfor_map: "sfor (\<lambda>(mid, _). free_id mid) l = sfor free_id (map fst l)"
  by (induction l) auto

lemma oinv_pool:
  assumes "oinv P st s subs" "pool_inv p" "used p = out_mids st \<union> subs'" "out_mids st \<inter> subs' = {}"
  shows "oinv P st (s\<lparr>o_packet_ids := p\<rparr>) subs'"
  using oinvD [OF assms(1)] assms(2-4)
  by (intro oinvI) (auto simp: sealed_mids_def queue_mids_def entry_ok_def)

text \<open>No counted and no sealed publication: the table is empty.\<close>

lemma oinv_none:
  assumes inv: "oinv P st s subs" and none: "\<not> holds_packet_ids s"
  shows "out_mids st = {}"
proof -
  from none have "sealed_mids s = {}" "orows.count {} st \<le> 0"
    using oinvD(9) [OF inv] by (auto simp: holds_packet_ids_def sealed_mids_def)
  then have "card (dom (out_row st)) = 0" by (simp add: orows.count_def)
  moreover have "finite (dom (out_row st))" by (simp add: out_row_def)
  ultimately show ?thesis by (simp add: out_mids_dom)
qed

lemma release_subs_ok:
  assumes inv: "oinv P (e_store e) (e_out e) (sub_mids e)"
    and Q: "\<And>p. oinv P (e_store e) ((e_out e)\<lparr>o_packet_ids := p\<rparr>) {} \<Longrightarrow>
      Q () (e\<lparr>e_out := (e_out e)\<lparr>o_packet_ids := p\<rparr>, e_pending_sub_requests := []\<rparr>)"
  shows "wp release_pending_subscription_requests Q E e"
proof -
  note D = oinvD [OF inv]
  show ?thesis
  proof (cases "e_pending_sub_requests e = []")
    case True
    then have "e\<lparr>e_pending_sub_requests := []\<rparr> = e" by (cases e) simp
    with True Q [of "o_packet_ids (e_out e)"] inv show ?thesis
      by (simp add: release_pending_subscription_requests_def wp_simps sub_mids_def)
  next
    case ne: False
    show ?thesis
    proof (cases "holds_packet_ids (e_out e)")
      case False
      have "oinv P (e_store e) ((e_out e)\<lparr>o_packet_ids := new_pool\<rparr>) {}"
        using oinv_none [OF inv False] new_pool_inv by (intro oinv_pool [OF inv]) auto
      from Q [OF this] ne False show ?thesis
        by (simp add: release_pending_subscription_requests_def wp_simps pool_clear_eq)
    next
      case True
      have "oinv P (e_store e) ((e_out e)\<lparr>o_packet_ids := fold release (map fst (e_pending_sub_requests e)) (o_packet_ids (e_out e))\<rparr>) {}"
        using fold_release [OF D(2), of "map fst (e_pending_sub_requests e)"] D(3,4)
        by (intro oinv_pool [OF inv]) (auto simp: sub_mids_def)
      from Q [OF this] ne True show ?thesis
        by (simp add: release_pending_subscription_requests_def wp_simps sfor_map wp_free_ids)
    qed
  qed
qed

lemma encode_disconnect_reasons:
  assumes "reason \<in> {0x82, 0x93, 0x94, 0x97}"
  shows "\<exists>wire. encode_disconnect_v5 reason None = Inr wire"
  using assms
  by (auto simp: encode_disconnect_v5_def require_outbound_reason_def CLIENT_DISCONNECT_REASONS_def DISCONNECT_REASONS_def props_has_def
      props_bool_def encode_properties_def encode_frame_def append_vbi_def encode_vbi_def MAX_VBI_def type_or_flags)

text \<open>A connection torn down locally: the sessions stay, the requests of the connection are gone.\<close>

definition torn_down :: "int \<Rightarrow> engine \<Rightarrow> engine \<Rightarrow> bool" where
  "torn_down reason e e' \<longleftrightarrow> e_state e' = DISCONNECTED \<and> e_pending_sub_requests e' = [] \<and> e_store e' = e_store e
     \<and> (\<exists>p. e_out e' = (e_out e)\<lparr>o_packet_ids := p\<rparr>) \<and> e_in e' = e_in e \<and> e_config e' = e_config e \<and> e_negotiated e' = e_negotiated e
     \<and> (\<exists>eff. e_effects e' = e_effects e @ eff @ [EffDisconnected reason None False] \<and> list_all is_send eff)"

lemma protocol_disconnect_ok:
  assumes inv: "oinv P (e_store e) (e_out e) (sub_mids e)" and reason: "reason \<in> {0x82, 0x93, 0x94, 0x97}"
  shows "wp (protocol_disconnect reason) (\<lambda>_ e'. torn_down reason e e' \<and> oinv P (e_store e') (e_out e') {}) (\<lambda>_ _. False) e"
proof -
  have tail: "wp (sthen enter_disconnected (sthen release_pending_subscription_requests (emit (EffDisconnected reason None False))))
      (\<lambda>_ e'. torn_down reason e e' \<and> oinv P (e_store e') (e_out e') {}) (\<lambda>_ _. False) (e\<lparr>e_effects := e_effects e @ eff\<rparr>)"
    if "list_all is_send eff" for eff
    unfolding wp_simps
    by (rule release_subs_ok [where P = P]) (use inv that in \<open>auto simp: sub_mids_def torn_down_def\<close>)
  show ?thesis
  proof (cases "is_mqtt5 (e_codec e)")
    case False
    with tail [of "[]"] show ?thesis by (simp add: protocol_disconnect_def wp_simps)
  next
    case True
    then have "cfg_protocol (e_config e) = MQTTv5" by (simp add: e_codec_def bind_codec_def split: if_splits)
    with encode_disconnect_reasons [OF reason] obtain wire where wire: "bound_encode_disconnect (e_codec e) reason None = Inr wire"
      by (auto simp: e_codec_def bind_codec_def)
    show ?thesis
      using True tail [of "[]"] tail [of "[EffSend (Contiguous wire)]"]
      by (simp add: protocol_disconnect_def wp_simps wire is_too_large_def is_send_def)
  qed
qed

lemma torn_down_ok:
  assumes "torn_down reason e e' \<and> oinv P (e_store e') (e_out e') {}"
  shows "oinv P (e_store e') (e_out e') (sub_mids e')"
  using assms by (elim conjE) (simp add: torn_down_def sub_mids_def)

text \<open>What the outbound handlers promise to the rest of the engine.\<close>

definition out_step :: "engine \<Rightarrow> engine \<Rightarrow> bool" where
  "out_step e e' \<longleftrightarrow> out_ok e' \<and> e_in e' = e_in e \<and> e_config e' = e_config e
     \<and> in_tab (e_store e') = in_tab (e_store e) \<and> in_heap (e_store e') = in_heap (e_store e)"

lemma out_step_same: "oinv {} (e_store e') (e_out e') (sub_mids e) \<Longrightarrow> same_rest e e' \<Longrightarrow> out_step e e'"
  by (simp add: out_step_def out_ok_def same_rest_def sub_mids_def)

lemma out_step_torn: "torn_down r e e' \<and> oinv {} (e_store e') (e_out e') {} \<Longrightarrow> out_step e e'"
  by (auto simp: out_step_def out_ok_def torn_down_def sub_mids_def)

lemma check_problem_information_ok:
  assumes inv: "oinv P (e_store e) (e_out e) (sub_mids e)" and Q: "Q () e"
    and E: "\<And>e'. torn_down 0x82 e e' \<and> oinv P (e_store e') (e_out e') {} \<Longrightarrow> E ProtocolError e'"
  shows "wp (check_problem_information props) Q E e" "wp (validate_inbound_problem_information props) Q E e"
proof -
  have "wp (protocol_disconnect 0x82) (\<lambda>_. E ProtocolError) E e"
    by (rule wp_mono, rule protocol_disconnect_ok [OF inv]) (use E in auto)
  then show "wp (check_problem_information props) Q E e" "wp (validate_inbound_problem_information props) Q E e"
    using Q by (simp_all add: check_problem_information_def validate_inbound_problem_information_def wp_simps)
qed

subsection \<open>The acknowledgement handlers\<close>

lemma ack_mid_range:
  "decode_ack_v311 rest = Inr (mid, r, p) \<Longrightarrow> 1 \<le> mid \<and> mid \<le> 65535"
  "decode_ack_v5 packet reasons rest = Inr (mid, r, p) \<Longrightarrow> 1 \<le> mid \<and> mid \<le> 65535"
proof -
  have two: "1 \<le> uint a * 256 + uint b \<and> uint a * 256 + uint b \<le> 65535" if "uint a * 256 + uint b \<noteq> 0" for a b :: byte
  proof -
    have "0 \<le> uint a" "uint a < 256" "0 \<le> uint b" "uint b < 256" using uint_lt2p [of a] uint_lt2p [of b] by simp_all
    with that show ?thesis by linarith
  qed
  show "decode_ack_v311 rest = Inr (mid, r, p) \<Longrightarrow> 1 \<le> mid \<and> mid \<le> 65535"
    using two [of "rest ! 0" "rest ! 1"] by (auto simp: decode_ack_v311_value Let_def split: if_splits)
  show "decode_ack_v5 packet reasons rest = Inr (mid, r, p) \<Longrightarrow> 1 \<le> mid \<and> mid \<le> 65535"
    using two [of "rest ! 0" "rest ! 1"] by (auto simp: decode_ack_v5_value Let_def split: if_splits)
qed

lemma bound_mid_range:
  "decode_puback (e_codec e) rest = Inr (mid, r, p) \<Longrightarrow> 1 \<le> mid \<and> mid \<le> 65535"
  "decode_pubrec (e_codec e) rest = Inr (mid, r, p) \<Longrightarrow> 1 \<le> mid \<and> mid \<le> 65535"
  "decode_pubrel (e_codec e) rest = Inr (mid, r, p) \<Longrightarrow> 1 \<le> mid \<and> mid \<le> 65535"
  "decode_pubcomp (e_codec e) rest = Inr (mid, r, p) \<Longrightarrow> 1 \<le> mid \<and> mid \<le> 65535"
  by (auto simp: e_codec_def bind_codec_def decode_puback_v311_def decode_pubrec_v311_def decode_pubcomp_v311_def decode_pubrel_v311_def
      decode_puback_v5_def decode_pubrec_v5_def decode_pubcomp_v5_def decode_pubrel_v5_def split: if_splits dest: ack_mid_range)

lemma success_frame:
  assumes "1 \<le> mid" "mid \<le> 65535"
  shows "\<exists>wire. encode_puback_success mid = Inr wire \<and> length wire = 4" "\<exists>wire. encode_pubrec_success mid = Inr wire \<and> length wire = 4"
    "\<exists>wire. encode_pubrel_success mid = Inr wire \<and> length wire = 4" "\<exists>wire. encode_pubcomp_success mid = Inr wire \<and> length wire = 4"
proof -
  have "0 \<le> drop_bit 8 mid" "drop_bit 8 mid \<le> 255" "0 \<le> mid AND 0xFF" "mid AND 0xFF \<le> 255"
    using assms by (auto simp: drop_bit_eq_div int_and_FF)
  then show "\<exists>wire. encode_puback_success mid = Inr wire \<and> length wire = 4" "\<exists>wire. encode_pubrec_success mid = Inr wire \<and> length wire = 4"
    "\<exists>wire. encode_pubrel_success mid = Inr wire \<and> length wire = 4" "\<exists>wire. encode_pubcomp_success mid = Inr wire \<and> length wire = 4"
    by (simp_all add: encode_puback_success_def encode_pubrec_success_def encode_pubrel_success_def encode_pubcomp_success_def)
qed

lemma orphan_frame:
  assumes "1 \<le> mid" "mid \<le> 65535"
  shows "\<exists>wire. encode_pubrel (e_codec e) mid (if is_mqtt5 (e_codec e) then 0x92 else 0) None = Inr wire"
proof -
  have "0 \<le> drop_bit 8 mid" "drop_bit 8 mid \<le> 255" "0 \<le> mid AND 0xFF" "mid AND 0xFF \<le> 255"
    using assms by (auto simp: drop_bit_eq_div int_and_FF)
  with assms show ?thesis
    by (simp add: e_codec_def bind_codec_def encode_pubrel_v5_def encode_pubrel_v311_def encode_ack_v5_def encode_ack_v311_def props_bool_def PUBREL_REASONS_def)
qed

lemma ack_handler_ok:
  assumes inv: "out_ok e" and q: "q \<noteq> QUEUED" and err: "\<And>x. dec e = Inl x \<Longrightarrow> peer_error x"
  shows "wp (sbind (sask dec) (\<lambda>(mid, r, p). sthen (check_problem_information p) (finish mid q (f r p))))
    (\<lambda>_ e'. out_step e e' \<and> (\<exists>mid r p. dec e = Inr (mid, r, p) \<and> settled mid q (f r p) e e'))
    (\<lambda>x e'. out_step e e' \<and> peer_error x) e"
proof (cases "dec e")
  case (Inl x)
  with err inv show ?thesis by (simp add: wp_simps out_step_def)
next
  case (Inr t)
  obtain mid r p where t: "t = (mid, r, p)" by (cases t)
  have inv': "oinv {} (e_store e) (e_out e) (sub_mids e)" using inv by (simp add: out_ok_def)
  have "wp (finish mid q (f r p)) (\<lambda>_ e'. out_step e e' \<and> settled mid q (f r p) e e') (\<lambda>x e'. out_step e e' \<and> peer_error x) e"
    by (rule wp_mono, rule finish_ok [OF inv' q]) (auto intro: out_step_same)
  then have "wp (check_problem_information p) (\<lambda>_. wp (finish mid q (f r p)) (\<lambda>_ e'. out_step e e' \<and> settled mid q (f r p) e e') (\<lambda>x e'. out_step e e' \<and> peer_error x))
      (\<lambda>x e'. out_step e e' \<and> peer_error x) e"
    by (intro check_problem_information_ok(1) [OF inv']) (auto intro: out_step_torn)
  then show ?thesis by (simp add: wp_simps Inr t)
qed

lemma on_puback_ok:
  assumes "out_ok e"
  shows "wp (on_puback raw) (\<lambda>_ e'. out_step e e' \<and> (\<exists>mid r p. decode_puback (e_codec e) (remaining raw) = Inr (mid, r, p)
      \<and> settled mid WAIT_PUBACK (if r < 128 then None else Some (PublishRejected ''PUBACK'' r p)) e e')) (\<lambda>x e'. out_step e e' \<and> peer_error x) e"
  unfolding on_puback_def by (rule ack_handler_ok [OF assms]) (auto simp: e_codec_def dest: wire_errors)

lemma on_pubcomp_ok:
  assumes "out_ok e"
  shows "wp (on_pubcomp raw) (\<lambda>_ e'. out_step e e' \<and> (\<exists>mid r p. decode_pubcomp (e_codec e) (remaining raw) = Inr (mid, r, p)
      \<and> settled mid WAIT_PUBCOMP (if r < 128 then None else Some (PublishRejected ''PUBCOMP'' r p)) e e')) (\<lambda>x e'. out_step e e' \<and> peer_error x) e"
  unfolding on_pubcomp_def by (rule ack_handler_ok [OF assms]) (auto simp: e_codec_def dest: wire_errors)

text \<open>A row that moves on between phases after QUEUED leaves the queue it was parked in.\<close>

lemma oinv_advance:
  assumes inv: "oinv P st s subs" and addr: "map_of (out_tab st) mid = Some a" and old: "om_state (out_heap st ! a) \<noteq> QUEUED"
    and m': "om_mid m' = mid" "om_logical_size m' = om_logical_size (out_heap st ! a)" "om_state m' \<noteq> QUEUED"
    and s': "o_packet_ids s' = o_packet_ids s" "o_flow s' = o_flow s" "o_sealed s' = o_sealed s"
      "o_queued s' = filter (\<lambda>n. entry_mid st n \<noteq> mid) (o_queued s)" "o_parked s' = o_parked s - {mid}"
      "o_pending_messages s' = o_pending_messages s" "o_pending_bytes s' = o_pending_bytes s"
  shows "oinv P (set_msg a m' st) s' subs"
proof -
  note D = oinvD [OF inv]
  let ?st = "set_msg a m' st"
  note row = set_msg_row [OF D(1) addr m'(1,2)]
  have sealed: "sealed_mids s' = sealed_mids s" by (simp add: sealed_mids_def s')
  have other: "entry_ok ?st s' n" "entry_mid ?st n = entry_mid st n" if "n \<in> set (o_queued s')" for n
  proof -
    have n: "n \<in> set (o_queued s)" "entry_mid st n \<noteq> mid" using that by (auto simp: s')
    show "entry_ok ?st s' n" "entry_mid ?st n = entry_mid st n"
      by (rule entry_ok_other [OF D(1) D(12) [OF n(1)] addr m'(1) n(2)]; use sealed in \<open>auto simp: set_msg_def\<close>)+
  qed
  have qm: "queue_mids ?st s' = filter (\<lambda>k. k \<noteq> mid) (queue_mids st s)"
    using other(2) by (simp add: queue_mids_def s' filter_map o_def cong: map_cong)
  have rs: "row_state ?st k = (if k = mid then Some (om_state m') else row_state st k)" for k
    by (simp add: row_state_def row)
  show ?thesis
  proof (rule oinvI)
    show "holders (o_flow s') \<subseteq> out_mids ?st - sealed_mids s' - set (queue_mids ?st s')" using D(6) by (auto simp: s' qm sealed)
    show "o_parked s' = {k \<in> set (queue_mids ?st s'). row_state ?st k \<noteq> Some QUEUED}" by (auto simp: s' D(13) qm rs)
    show "row_state ?st k = Some QUEUED \<Longrightarrow> k \<notin> sealed_mids s' \<Longrightarrow> k \<in> set (queue_mids ?st s') \<union> P" for k
      using D(14) [of k] m'(3) by (auto simp: rs qm sealed split: if_splits)
    have "row_state st mid \<noteq> Some QUEUED" using old by (simp add: row_state_def out_row_addr [OF addr])
    then show "(k, b) \<in> set (o_sealed s') \<Longrightarrow> b \<longleftrightarrow> row_state ?st k \<noteq> Some QUEUED" for k b
      using D(15) [of k b] m'(3) by (auto simp: s' rs)
  qed (use D row s' sealed other in \<open>auto simp: qm\<close>)
qed

definition compacted :: "outbound_message \<Rightarrow> outbound_message" where
  "compacted m = m\<lparr>om_state := WAIT_PUBCOMP, om_topic := [], om_payload := [], om_properties := None, om_encoded_publish := None\<rparr>"

lemma transition_pubrec_eq:
  "transition_out mid WAIT_PUBREC WAIT_PUBCOMP True st = (case map_of (out_tab st) mid of
      None \<Rightarrow> (None, st)
    | Some a \<Rightarrow> if om_state (out_heap st ! a) = WAIT_PUBREC
        then (Some \<lparr>orm_mid = mid, orm_state = WAIT_PUBCOMP, orm_logical_size = om_logical_size (out_heap st ! a)\<rparr>, set_msg a (compacted (out_heap st ! a)) st)
        else (None, st))"
  by (cases "map_of (out_tab st) mid") (simp_all add: transition_out_def Let_def compacted_def set_msg_def)

lemma send_orphan_ok:
  assumes "1 \<le> mid" "mid \<le> 65535" "\<And>wire. Q () (e\<lparr>e_effects := e_effects e @ [EffSend (Contiguous wire)]\<rparr>)" "E MandatoryResponseTooLargeError e"
  shows "wp (send_orphan_pubrel mid) Q E e"
proof -
  obtain wire where "encode_pubrel (e_codec e) mid (if is_mqtt5 (e_codec e) then 0x92 else 0) None = Inr wire"
    using orphan_frame [OF assms(1,2)] by blast
  with assms(3,4) show ?thesis
    by (simp add: send_orphan_pubrel_def wp_simps require_pubrel_capacity_def split: option.split)
qed

lemma send_pubrel_ok:
  assumes "1 \<le> mid" "mid \<le> 65535"
  obtains wire where "encode_pubrel_success mid = Inr wire" "\<And>Q E. wp (send_pubrel mid) Q E = (\<lambda>e. Q () (e\<lparr>e_effects := e_effects e @ [EffSend (Contiguous wire)]\<rparr>))"
  using success_frame(3) [OF assms] by (auto simp: send_pubrel_def wp_simps)

text \<open>How a successful PUBREC is answered, when the peer's packet size limit leaves room for a PUBREL.\<close>

definition pubrec_reply :: "int \<Rightarrow> engine \<Rightarrow> engine \<Rightarrow> bool" where
  "pubrec_reply mid e e' \<longleftrightarrow>
     (case row_state (e_store e) mid of
        None \<Rightarrow> \<exists>wire. encode_pubrel (e_codec e) mid (if is_mqtt5 (e_codec e) then 0x92 else 0) None = Inr wire
          \<and> e' = e\<lparr>e_effects := e_effects e @ [EffSend (Contiguous wire)]\<rparr>
      | Some WAIT_PUBREC \<Rightarrow> \<exists>wire. encode_pubrel_success mid = Inr wire \<and> e_effects e' = e_effects e @ [EffSend (Contiguous wire)]
          \<and> row_state (e_store e') = (row_state (e_store e))(mid \<mapsto> WAIT_PUBCOMP)
      | Some WAIT_PUBCOMP \<Rightarrow> \<exists>wire. encode_pubrel_success mid = Inr wire \<and> e' = e\<lparr>e_effects := e_effects e @ [EffSend (Contiguous wire)]\<rparr>
      | Some _ \<Rightarrow> e' = e)"

definition room_for_pubrel :: "engine \<Rightarrow> bool" where
  "room_for_pubrel e \<longleftrightarrow> (case maximum_packet_size (e_negotiated e) of None \<Rightarrow> True | Some n \<Rightarrow> n \<ge> 4)"

lemma out_meta_eq: "out_meta mid st = map_option (\<lambda>m. \<lparr>orm_mid = mid, orm_state = om_state m, orm_logical_size = om_logical_size m\<rparr>) (out_row st mid)"
  by (simp add: out_meta_def out_row_def tab_row_def Let_def split: option.split)

lemma out_step_effect: "out_ok e \<Longrightarrow> out_step e (e\<lparr>e_effects := x\<rparr>)"
  by (simp add: out_step_def out_ok_def sub_mids_def)

definition answer_pubrec :: "int \<Rightarrow> unit eop" where
  "answer_pubrec mid =
     sbind (on_store (transition_out mid WAIT_PUBREC WAIT_PUBCOMP True)) (\<lambda>changed.
       case changed of
         Some _ \<Rightarrow> sthen (unpark mid) (send_pubrel mid)
       | None \<Rightarrow>
           sbind (sget (\<lambda>e. out_meta mid (e_store e))) (\<lambda>record_opt.
             case record_opt of
               None \<Rightarrow> send_orphan_pubrel mid
             | Some record \<Rightarrow> if orm_state record = WAIT_PUBCOMP then send_pubrel mid else sret ()))"

lemma answer_pubrec_ok:
  assumes inv: "out_ok e" and mid: "1 \<le> mid" "mid \<le> 65535"
  shows "wp (answer_pubrec mid) (\<lambda>_ e'. out_step e e' \<and> pubrec_reply mid e e') (\<lambda>x e'. out_step e e' \<and> x = MandatoryResponseTooLargeError) e"
proof -
  have inv': "oinv {} (e_store e) (e_out e) (sub_mids e)" using inv by (simp add: out_ok_def)
  note D = oinvD [OF inv']
  obtain wire where w: "encode_pubrel_success mid = Inr wire"
    and send: "\<And>Q E. wp (send_pubrel mid) Q E = (\<lambda>e. Q () (e\<lparr>e_effects := e_effects e @ [EffSend (Contiguous wire)]\<rparr>))"
    using send_pubrel_ok [OF mid] by blast
  have keep: "out_step e e" using inv by (simp add: out_step_def)
  show ?thesis
  proof (cases "out_row (e_store e) mid")
    case None
    then have none: "map_of (out_tab (e_store e)) mid = None" and rn: "row_state (e_store e) mid = None"
      by (simp_all add: out_row_def tab_row_def row_state_def)
    obtain ow where ow: "encode_pubrel (e_codec e) mid (if is_mqtt5 (e_codec e) then 0x92 else 0) None = Inr ow"
      using orphan_frame [OF mid] by blast
    have "pubrec_reply mid e (e\<lparr>e_effects := e_effects e @ [EffSend (Contiguous ow)]\<rparr>)"
      unfolding pubrec_reply_def rn using ow by auto
    with none None ow keep out_step_effect [OF inv] show ?thesis
      by (simp add: answer_pubrec_def wp_simps transition_pubrec_eq out_meta_eq send_orphan_pubrel_def require_pubrel_capacity_def split: option.split)
  next
    case (Some m)
    then obtain a where a: "map_of (out_tab (e_store e)) mid = Some a" "m = out_heap (e_store e) ! a" using row_addr by blast
    have rs: "row_state (e_store e) mid = Some (om_state m)" using Some by (simp add: row_state_def)
    show ?thesis
    proof (cases "om_state m = WAIT_PUBREC")
      case False
      with a Some rs w keep out_step_effect [OF inv] show ?thesis
        by (cases "om_state m") (simp_all add: answer_pubrec_def wp_simps transition_pubrec_eq out_meta_eq send pubrec_reply_def)
    next
      case True
      let ?st = "set_msg a (compacted m) (e_store e)"
      have m': "om_mid (compacted m) = mid" "om_logical_size (compacted m) = om_logical_size (out_heap (e_store e) ! a)" "om_state (compacted m) \<noteq> QUEUED"
        using tab_inv_addr(2) [OF store_invD(1) [OF D(1)] a(1)] a(2) by (simp_all add: compacted_def)
      let ?q = "filter (\<lambda>n. entry_mid (e_store e) n \<noteq> mid) (o_queued (e_out e))"
      let ?s = "(e_out e)\<lparr>o_parked := o_parked (e_out e) - {mid}, o_queued := ?q\<rparr>"
      have "oinv {} ?st ?s (sub_mids e)" by (rule oinv_advance [OF inv' a(1) _ m']) (use True a(2) in simp_all)
      then have ok: "out_step e (e\<lparr>e_store := ?st, e_out := ?s, e_effects := x\<rparr>)" for x
        by (simp add: out_step_def out_ok_def sub_mids_def)
      have emid: "entry_mid ?st n = entry_mid (e_store e) n" if "n \<in> set (o_queued (e_out e))" for n
        by (rule entry_view_set_msg(1) [OF D(1) D(12) [OF that] a(1) m'(1)])
      have qm: "queue_mids ?st (e_out e) = queue_mids (e_store e) (e_out e)" using emid by (simp add: queue_mids_def)
      have fq: "filter (\<lambda>n. entry_mid ?st n \<noteq> mid) (o_queued (e_out e)) = ?q" using emid by (simp cong: filter_cong)
      have un: "wp (unpark mid) Q E (e\<lparr>e_store := ?st\<rparr>) = Q () (e\<lparr>e_store := ?st, e_out := ?s\<rparr>)" for Q E
        using unpark_ok [of "e\<lparr>e_store := ?st\<rparr>" mid Q E] D(11) oinv_parked [OF inv', of mid] rs True by (simp add: qm fq)
      have "row_state ?st = (row_state (e_store e))(mid \<mapsto> WAIT_PUBCOMP)"
        using set_msg_row(2) [OF D(1) a(1) m'(1,2)] by (auto simp: row_state_def fun_eq_iff compacted_def)
      with True a w ok rs show ?thesis
        by (simp add: answer_pubrec_def wp_simps transition_pubrec_eq un [unfolded a(2)] send pubrec_reply_def)
    qed
  qed
qed

lemma on_pubrec_alt:
  "on_pubrec raw =
     sbind (sask (\<lambda>e. decode_pubrec (e_codec e) (remaining raw))) (\<lambda>(mid, reason_code, props).
     sthen (check_problem_information props)
     (if reason_code \<ge> 128 then finish mid WAIT_PUBREC (Some (PublishRejected ''PUBREC'' reason_code props))
      else sbind (sget (\<lambda>e. maximum_packet_size (e_negotiated e))) (\<lambda>limit.
        if (case limit of None \<Rightarrow> False | Some n \<Rightarrow> n < 4) then
          sbind (sget (\<lambda>e. out_meta mid (e_store e))) (\<lambda>record_opt.
            case record_opt of
              None \<Rightarrow> send_orphan_pubrel mid
            | Some record \<Rightarrow>
                if orm_state record \<notin> {WAIT_PUBREC, WAIT_PUBCOMP} then sret ()
                else require_pubrel_capacity 4)
        else answer_pubrec mid)))"
  unfolding on_pubrec_def answer_pubrec_def ..

lemma on_pubrec_ok:
  assumes inv: "out_ok e"
  shows "wp (on_pubrec raw) (\<lambda>_ e'. out_step e e' \<and> (\<exists>mid r p. decode_pubrec (e_codec e) (remaining raw) = Inr (mid, r, p)
      \<and> (if r \<ge> 128 then settled mid WAIT_PUBREC (Some (PublishRejected ''PUBREC'' r p)) e e' else room_for_pubrel e \<longrightarrow> pubrec_reply mid e e')))
    (\<lambda>x e'. out_step e e' \<and> (peer_error x \<or> x = MandatoryResponseTooLargeError)) e"
proof (cases "decode_pubrec (e_codec e) (remaining raw)")
  case (Inl x)
  then have "peer_error x" by (auto simp: e_codec_def dest: wire_errors)
  with Inl inv show ?thesis by (simp add: on_pubrec_alt wp_simps out_step_def)
next
  case (Inr t)
  obtain mid r p where t: "t = (mid, r, p)" by (cases t)
  have inv': "oinv {} (e_store e) (e_out e) (sub_mids e)" using inv by (simp add: out_ok_def)
  have keep: "out_step e e" using inv by (simp add: out_step_def)
  have mid: "1 \<le> mid" "mid \<le> 65535" using bound_mid_range(2) Inr t by blast+
  let ?E = "\<lambda>x e'. out_step e e' \<and> (peer_error x \<or> x = MandatoryResponseTooLargeError)"
  have fin: "wp (finish mid WAIT_PUBREC (Some (PublishRejected ''PUBREC'' r p)))
      (\<lambda>_ e'. out_step e e' \<and> settled mid WAIT_PUBREC (Some (PublishRejected ''PUBREC'' r p)) e e') ?E e"
    by (rule wp_mono, rule finish_ok [OF inv']) (auto intro: out_step_same)
  have ans: "wp (answer_pubrec mid) (\<lambda>_ e'. out_step e e' \<and> pubrec_reply mid e e') ?E e"
    by (rule wp_mono, rule answer_pubrec_ok [OF inv mid]) auto
  have tiny: "wp (send_orphan_pubrel mid) (\<lambda>_ e'. out_step e e') ?E e"
    by (rule send_orphan_ok [OF mid]) (use keep out_step_effect [OF inv] in auto)
  have check: "wp (check_problem_information p) Q ?E e" if "Q () e" for Q
    using that by (intro check_problem_information_ok(1) [OF inv']) (auto intro: out_step_torn)
  show ?thesis
    unfolding on_pubrec_alt using fin ans tiny keep
    by (auto simp: wp_simps Inr t require_pubrel_capacity_def out_meta_eq room_for_pubrel_def intro!: check split: option.split)
qed

end
