(* ===== verification/Outbound_Publish.thy ===== *)
theory Outbound_Publish
  imports Outbound_Ops
begin

text \<open>
  Publishing: an admitted publication is stored, counted and either on the wire or queued; one that raises leaves the
  session as it was.
\<close>

subsection \<open>A new message object\<close>

definition grow :: "outbound_message \<Rightarrow> mem_store \<Rightarrow> mem_store" where
  "grow m st = st\<lparr>out_heap := out_heap st @ [m]\<rparr>"

definition add_row :: "int \<Rightarrow> outbound_message \<Rightarrow> mem_store \<Rightarrow> mem_store" where
  "add_row mid m st = (grow m st)\<lparr>out_tab := out_tab st @ [(mid, length (out_heap st))]\<rparr>"

lemma grow_simps [simp]:
  "out_tab (grow m st) = out_tab st" "in_tab (grow m st) = in_tab st" "in_heap (grow m st) = in_heap st" "out_heap (grow m st) = out_heap st @ [m]"
  "out_mids (grow m st) = out_mids st"
  by (simp_all add: grow_def out_mids_def)

lemma add_row_simps [simp]:
  "out_tab (add_row mid m st) = out_tab st @ [(mid, length (out_heap st))]" "in_tab (add_row mid m st) = in_tab st"
  "in_heap (add_row mid m st) = in_heap st" "out_heap (add_row mid m st) = out_heap st @ [m]"
  "out_mids (add_row mid m st) = insert mid (out_mids st)"
  by (simp_all add: add_row_def out_mids_def)

lemma store_addr:
  assumes "store_inv st" "map_of (out_tab st) k = Some a"
  shows "a < length (out_heap st)"
  using tab_inv_addr(1) [OF store_invD(1) [OF assms(1)] assms(2)] .

lemma grow_row:
  assumes "store_inv st"
  shows "store_inv (grow m st)" "out_row (grow m st) = out_row st"
proof -
  show "store_inv (grow m st)"
    using assms by (auto simp: store_inv_def tab_inv_def nth_append split: prod.splits)
  show "out_row (grow m st) = out_row st"
    by (rule ext) (auto simp: out_row_def tab_row_def nth_append map_option_case split: option.split dest: store_addr [OF assms])
qed

lemma add_row_row:
  assumes "store_inv st" "mid \<notin> out_mids st" "om_mid m = mid" "0 < om_logical_size m"
  shows "store_inv (add_row mid m st)" "out_row (add_row mid m st) = (out_row st)(mid := Some m)"
proof -
  have tab: "tab_inv (out_tab (grow m st)) (out_heap (grow m st)) om_mid om_logical_size"
    using store_invD(1) [OF grow_row(1) [OF assms(1)]] .
  have "length (out_heap st) \<notin> snd ` set (out_tab st)" using store_invD(1) [OF assms(1)] by (force simp: tab_inv_def)
  then have "tab_inv (AList.update mid (length (out_heap st)) (out_tab st)) (out_heap (grow m st)) om_mid om_logical_size"
      "tab_row (AList.update mid (length (out_heap st)) (out_tab st)) (out_heap (grow m st)) = (tab_row (out_tab st) (out_heap (grow m st)))(mid := Some m)"
    using tab_inv_add [OF tab, of "length (out_heap st)"] assms(2-4) by (simp_all add: map_of_eq_None_iff out_mids_def)
  moreover have "AList.update mid (length (out_heap st)) (out_tab st) = out_tab st @ [(mid, length (out_heap st))]"
    using assms(2) by (intro update_new) (simp add: out_mids_def)
  moreover have "tab_row (out_tab st) (out_heap (grow m st)) = out_row st"
    using grow_row(2) [OF assms(1), of m] by (simp add: out_row_def)
  ultimately show "store_inv (add_row mid m st)" "out_row (add_row mid m st) = (out_row st)(mid := Some m)"
    using assms(1) by (simp_all add: store_inv_def out_row_def)
qed

lemma entry_ok_addr:
  assumes "store_inv st" "entry_ok st s n"
  shows "entry_view (grow m st) n = entry_view st n" "entry_view (add_row mid m st) n = entry_view st n"
    "entry_mid (grow m st) n = entry_mid st n" "entry_mid (add_row mid m st) n = entry_mid st n"
proof -
  have "case n of Held b \<Rightarrow> b < length (out_heap st) | Summary q \<Rightarrow> True"
    using assms(2) by (cases n) (auto simp: entry_ok_def dest: store_addr [OF assms(1)])
  then show "entry_view (grow m st) n = entry_view st n" "entry_view (add_row mid m st) n = entry_view st n"
    by (cases n; simp add: entry_view_def nth_append)+
  then show "entry_mid (grow m st) n = entry_mid st n" "entry_mid (add_row mid m st) n = entry_mid st n"
    by (simp_all add: entry_mid_def)
qed

lemma entry_ok_grow:
  assumes "store_inv st" "entry_ok st s n" "sealed_mids s' = sealed_mids s"
  shows "entry_ok (grow m st) s' n" "mid \<notin> out_mids st \<Longrightarrow> entry_ok (add_row mid m st) s' n"
proof -
  from assms(2) obtain b where b: "map_of (out_tab st) (entry_mid st n) = Some b" "entry_mid st n \<notin> sealed_mids s"
    "case n of Held c \<Rightarrow> c = b | Summary q \<Rightarrow> os_state q = om_state (out_heap st ! b) \<and> os_logical_size q = om_logical_size (out_heap st ! b)"
    by (auto simp: entry_ok_def)
  have lt: "b < length (out_heap st)" using store_addr [OF assms(1) b(1)] .
  show "entry_ok (grow m st) s' n" unfolding entry_ok_def entry_ok_addr [OF assms(1,2)]
    using b assms(3) lt by (cases n) (auto simp: nth_append)
  show "entry_ok (add_row mid m st) s' n" if "mid \<notin> out_mids st" unfolding entry_ok_def entry_ok_addr [OF assms(1,2)]
    using b assms(3) lt by (cases n) (auto simp: nth_append map_add_def)
qed

lemma oinv_grow:
  assumes "oinv P st s subs"
  shows "oinv P (grow m st) s subs"
proof -
  note D = oinvD [OF assms]
  note g = grow_row [OF D(1), of m]
  have qm: "queue_mids (grow m st) s = queue_mids st s" using entry_ok_addr(3) [OF D(1) D(12)] by (simp add: queue_mids_def)
  have rs: "row_state (grow m st) = row_state st" by (simp add: row_state_def g fun_eq_iff)
  show ?thesis
    by (rule oinvI) (use D g weight_cong [OF g(2)] entry_ok_grow(1) [OF D(1) D(12) refl] in \<open>auto simp: qm rs\<close>)
qed

lemma oinv_add:
  assumes inv: "oinv P st s subs" and new: "mid \<notin> out_mids st" "mid \<notin> subs" and m: "om_mid m = mid" "0 < om_logical_size m"
    and pool: "pool_inv (o_packet_ids s')" "used (o_packet_ids s') = insert mid (used (o_packet_ids s))" and flow: "flow_inv (o_flow s')"
    and s': "o_sealed s' = o_sealed s" "o_parked s' = o_parked s"
      "o_pending_messages s' = o_pending_messages s + 1" "o_pending_bytes s' = o_pending_bytes s + om_logical_size m"
    and place: "om_state m \<noteq> QUEUED \<and> o_queued s' = o_queued s \<and> holders (o_flow s') = insert mid (holders (o_flow s))
      \<or> om_state m = QUEUED \<and> o_queued s' = o_queued s @ [Held (length (out_heap st))] \<and> holders (o_flow s') = holders (o_flow s)"
  shows "oinv P (add_row mid m st) s' subs"
proof -
  note D = oinvD [OF inv]
  note a = add_row_row [OF D(1) new(1) m]
  let ?st = "add_row mid m st" and ?new = "Held (length (out_heap st))"
  have sealed: "sealed_mids s' = sealed_mids s" by (simp add: sealed_mids_def s')
  have fresh: "mid \<notin> sealed_mids s" "mid \<notin> set (queue_mids st s)" "mid \<notin> holders (o_flow s)"
    using new(1) D(6,8) entry_ok_mid [OF D(12)] by (auto simp: queue_mids_def)
  have rs: "row_state ?st k = (if k = mid then Some (om_state m) else row_state st k)" for k by (simp add: row_state_def a)
  have old: "map (entry_mid ?st) (o_queued s) = queue_mids st s" using entry_ok_addr(4) [OF D(1) D(12)] by (simp add: queue_mids_def)
  have nm: "entry_mid ?st ?new = mid" by (simp add: entry_mid_def entry_view_def from_message_def m)
  have "map_of (out_tab st) mid = None" using new(1) by (simp add: map_of_eq_None_iff out_mids_def)
  then have nok: "entry_ok ?st s' ?new" using fresh(1) by (simp add: entry_ok_def nm sealed map_add_def)
  have qm: "queue_mids ?st s' = queue_mids st s @ (if om_state m = QUEUED then [mid] else [])"
    using place old nm by (auto simp: queue_mids_def)
  have w: "orows.weight (sealed_mids s) ?st = orows.weight (sealed_mids s) st + om_logical_size m" "orows.count (sealed_mids s) ?st = orows.count (sealed_mids s) st + 1"
    using orows.weight_add [OF D(1) _ a(2) fresh(1)] new(1) by (auto simp: out_mids_dom)
  have parked: "k \<in> set (queue_mids st s) \<Longrightarrow> row_state ?st k = row_state st k" for k using fresh(2) by (auto simp: rs)
  show ?thesis
  proof (rule oinvI)
    show "used (o_packet_ids s') = out_mids ?st \<union> subs" "out_mids ?st \<inter> subs = {}" using D(3,4) new pool(2) by auto
    show "holders (o_flow s') \<subseteq> out_mids ?st - sealed_mids s' - set (queue_mids ?st s')"
      using D(6) fresh place by (auto simp: sealed qm)
    show "sealed_mids s' \<subseteq> out_mids ?st" "distinct (map fst (o_sealed s'))" using D(7,8) by (auto simp: sealed s')
    show "distinct (queue_mids ?st s')" using D(11) fresh(2) by (simp add: qm)
    show "n \<in> set (o_queued s') \<Longrightarrow> entry_ok ?st s' n" for n
      using place nok entry_ok_grow(2) [OF D(1) D(12) sealed new(1)] by auto
    show "o_parked s' = {k \<in> set (queue_mids ?st s'). row_state ?st k \<noteq> Some QUEUED}"
      using fresh(2) by (auto simp: s' D(13) qm rs)
    show "row_state ?st k = Some QUEUED \<Longrightarrow> k \<notin> sealed_mids s' \<Longrightarrow> k \<in> set (queue_mids ?st s') \<union> P" for k
      using D(14) [of k] by (auto simp: rs qm sealed split: if_splits)
    show "o_pending_messages s' = orows.count (sealed_mids s') ?st" "o_pending_bytes s' = orows.weight (sealed_mids s') ?st"
      using w D(9,10) by (simp_all add: s' sealed)
    show "(k, b) \<in> set (o_sealed s') \<Longrightarrow> b \<longleftrightarrow> row_state ?st k \<noteq> Some QUEUED" for k b
      using D(15) [of k b] fresh(1) by (auto simp: s' rs sealed_mids_def image_iff)
  qed (fact a(1) pool(1) flow)+
qed

subsection \<open>Launching a new publication\<close>

text \<open>The states \<^verbatim>\<open>queue_publish\<close> goes through after it allocated the identifier of a message \<open>m\<close>: the object exists, its
  row may, aliases and effects may have been added.\<close>

definition pending_state :: "engine \<Rightarrow> int \<Rightarrow> outbound_message \<Rightarrow> bool \<Rightarrow> outbound_session \<Rightarrow> effect list \<Rightarrow> engine" where
  "pending_state e mid m stored s eff =
     e\<lparr>e_store := (if stored then add_row mid m (e_store e) else grow m (e_store e)), e_effects := e_effects e @ eff, e_out := s\<rparr>"

definition fresh_message :: "int \<Rightarrow> int \<Rightarrow> outbound_message \<Rightarrow> bool" where
  "fresh_message mid n m \<longleftrightarrow> om_mid m = mid \<and> om_logical_size m = n"

lemma put_out_new:
  assumes "mid \<notin> out_mids st" "om_mid m = mid"
  shows "put_out (length (out_heap st)) (grow m st) = (if om_logical_size m \<le> 0 then (Inl ValueError, grow m st) else (Inr (), add_row mid m st))"
  using assms by (simp add: put_out_def Let_def add_row_def update_new out_mids_def)

definition launched :: "engine \<Rightarrow> int \<Rightarrow> int \<Rightarrow> outbound_session \<Rightarrow> engine \<Rightarrow> bool" where
  "launched e mid n s e' \<longleftrightarrow> (\<exists>m' al w. fresh_message mid n m' \<and> om_state m' \<noteq> QUEUED \<and> 0 < n
     \<and> e' = pending_state e mid m' True (s\<lparr>o_topic_aliases := al\<rparr>) [EffSend w])"

definition not_launched :: "engine \<Rightarrow> int \<Rightarrow> int \<Rightarrow> outbound_session \<Rightarrow> engine \<Rightarrow> bool" where
  "not_launched e mid n s e' \<longleftrightarrow> (\<exists>m' stored al eff. fresh_message mid n m' \<and> list_all is_send eff \<and> (stored \<longrightarrow> 0 < n)
     \<and> e' = pending_state e mid m' stored (s\<lparr>o_topic_aliases := al\<rparr>) eff)"

lemma launched_shapes:
  assumes "fresh_message mid n m'"
  shows "not_launched e mid n s (e\<lparr>e_store := grow m' (e_store e), e_out := s\<rparr>)" "not_launched e mid n s (e\<lparr>e_out := s, e_store := grow m' (e_store e)\<rparr>)"
    "0 < n \<Longrightarrow> not_launched e mid n s (e\<lparr>e_out := s, e_store := add_row mid m' (e_store e), e_effects := e_effects e @ [EffSend w]\<rparr>)"
    "0 < n \<Longrightarrow> om_state m' \<noteq> QUEUED \<Longrightarrow> launched e mid n s (e\<lparr>e_out := s, e_store := add_row mid m' (e_store e), e_effects := e_effects e @ [EffSend w]\<rparr>)"
    "0 < n \<Longrightarrow> om_state m' \<noteq> QUEUED \<Longrightarrow> launched e mid n s (e\<lparr>e_store := add_row mid m' (e_store e), e_effects := e_effects e @ [EffSend w], e_out := s\<lparr>o_topic_aliases := al\<rparr>\<rparr>)"
proof -
  have self: "s\<lparr>o_topic_aliases := o_topic_aliases s\<rparr> = s" by simp
  show "not_launched e mid n s (e\<lparr>e_store := grow m' (e_store e), e_out := s\<rparr>)" "not_launched e mid n s (e\<lparr>e_out := s, e_store := grow m' (e_store e)\<rparr>)"
    unfolding not_launched_def pending_state_def using assms
    by (intro exI [of _ m'] exI [of _ False] exI [of _ "o_topic_aliases s"] exI [of _ "[]"]; simp)+
  show "0 < n \<Longrightarrow> not_launched e mid n s (e\<lparr>e_out := s, e_store := add_row mid m' (e_store e), e_effects := e_effects e @ [EffSend w]\<rparr>)"
    unfolding not_launched_def pending_state_def using assms
    by (intro exI [of _ m'] exI [of _ True] exI [of _ "o_topic_aliases s"] exI [of _ "[EffSend w]"]) (simp add: is_send_def)
  show "0 < n \<Longrightarrow> om_state m' \<noteq> QUEUED \<Longrightarrow> launched e mid n s (e\<lparr>e_out := s, e_store := add_row mid m' (e_store e), e_effects := e_effects e @ [EffSend w]\<rparr>)"
    unfolding launched_def pending_state_def using assms
    by (intro exI [of _ m'] exI [of _ "o_topic_aliases s"] exI [of _ w]) simp
  show "0 < n \<Longrightarrow> om_state m' \<noteq> QUEUED \<Longrightarrow> launched e mid n s (e\<lparr>e_store := add_row mid m' (e_store e), e_effects := e_effects e @ [EffSend w], e_out := s\<lparr>o_topic_aliases := al\<rparr>\<rparr>)"
    unfolding launched_def pending_state_def using assms
    by (intro exI [of _ m'] exI [of _ al] exI [of _ w]) simp
qed

lemma launch_fresh:
  assumes new: "mid \<notin> out_mids (e_store e)" and m: "fresh_message mid n m"
  shows "wp (launch (length (out_heap (e_store e))) False pb tb wt) (\<lambda>_. launched e mid n s) (\<lambda>_. not_launched e mid n s)
    (e\<lparr>e_store := grow m (e_store e), e_out := s\<rparr>)"
proof -
  let ?a = "length (out_heap (e_store e))"
  have upd: "(grow m (e_store e))\<lparr>out_heap := out_heap (e_store e) @ [m']\<rparr> = grow m' (e_store e)" for m'
    by (simp add: grow_def)
  define m1 where "m1 q r = m\<lparr>om_state := q, om_encoded_publish := r\<rparr>" for q r
  have m1: "fresh_message mid n (m1 q r)" "om_state (m1 q r) = q" for q r using m by (simp_all add: fresh_message_def m1_def)
  have put: "put_out ?a (grow (m1 q r) (e_store e)) = (if n \<le> 0 then (Inl ValueError, grow (m1 q r) (e_store e)) else (Inr (), add_row mid (m1 q r) (e_store e)))"
    for q r using put_out_new [OF new, of "m1 q r"] m1(1) [of q r] by (simp add: fresh_message_def)
  note shapes = launched_shapes [OF m1(1)]
  show ?thesis
    using launched_shapes(1) [OF m]
    by (simp add: launch_def wp_simps upd m1_def [symmetric] put shapes m1(2) commit_topic_alias_frame split: option.split sum.split)
qed

subsection \<open>Admission\<close>

text \<open>The outbound session as its client sees it is unchanged.\<close>

definition same_session :: "engine \<Rightarrow> engine \<Rightarrow> bool" where
  "same_session e e' \<longleftrightarrow> out_tab (e_store e') = out_tab (e_store e) \<and> (\<forall>a < length (out_heap (e_store e)). out_heap (e_store e') ! a = out_heap (e_store e) ! a)
     \<and> used (o_packet_ids (e_out e')) = used (o_packet_ids (e_out e)) \<and> holders (o_flow (e_out e')) = holders (o_flow (e_out e))
     \<and> flow_limit (o_flow (e_out e')) = flow_limit (o_flow (e_out e))
     \<and> o_queued (e_out e') = o_queued (e_out e) \<and> o_parked (e_out e') = o_parked (e_out e) \<and> o_sealed (e_out e') = o_sealed (e_out e)
     \<and> o_pending_messages (e_out e') = o_pending_messages (e_out e) \<and> o_pending_bytes (e_out e') = o_pending_bytes (e_out e)
     \<and> e_pending_sub_requests e' = e_pending_sub_requests e \<and> e_state e' = e_state e \<and> e_negotiated e' = e_negotiated e"

lemma oinv_same:
  assumes inv: "oinv P st s subs" and "pool_inv (o_packet_ids s')" "used (o_packet_ids s') = used (o_packet_ids s)"
    "flow_inv (o_flow s')" "holders (o_flow s') = holders (o_flow s)"
    "o_sealed s' = o_sealed s" "o_queued s' = o_queued s" "o_parked s' = o_parked s"
    "o_pending_messages s' = o_pending_messages s" "o_pending_bytes s' = o_pending_bytes s"
  shows "oinv P st s' subs"
  using oinvD [OF inv] assms(2-) by (intro oinvI) (auto simp: sealed_mids_def queue_mids_def entry_ok_def)

lemma drop_new:
  assumes "mid \<notin> out_mids st"
  shows "drop_row mid (add_row mid m st) = grow m st" "drop_row mid (grow m st) = grow m st"
proof -
  have "AList.delete mid (out_tab st) = out_tab st" "AList.delete mid (out_tab st @ [(mid, a)]) = out_tab st" for a
    using assms by (force simp: out_mids_def AList.delete_eq filter_id_conv)+
  then show "drop_row mid (add_row mid m st) = grow m st" "drop_row mid (grow m st) = grow m st"
    by (cases st; simp add: drop_row_def add_row_def grow_def)+
qed

lemma rollback_new:
  assumes "mid \<notin> out_mids (e_store e)"
  shows "wp (rollback k b [mid]) Q E (pending_state e mid m' stored s eff) =
    Q () (e\<lparr>e_store := grow m' (e_store e), e_effects := e_effects e @ eff, e_out := s\<lparr>o_flow := snd (flow_release mid (o_flow s)),
      o_packet_ids := release mid (o_packet_ids s), o_pending_messages := k, o_pending_bytes := b\<rparr>\<rparr>)"
  using drop_new [OF assms, of m']
  by (cases e) (simp add: rollback_def wp_simps delete_failed_admission_def delete_out_eq pending_state_def)

lemma rolled_back:
  assumes inv: "out_ok e" and mid: "mid \<notin> used (o_packet_ids (e_out e))"
    and s: "pool_inv (o_packet_ids s)" "used (o_packet_ids s) = insert mid (used (o_packet_ids (e_out e)))"
      "flow_inv (o_flow s)" "holders (o_flow s) \<subseteq> insert mid (holders (o_flow (e_out e)))" "holders (o_flow (e_out e)) \<subseteq> holders (o_flow s)"
      "flow_limit (o_flow s) = flow_limit (o_flow (e_out e))"
      "o_sealed s = o_sealed (e_out e)" "o_queued s = o_queued (e_out e)" "o_parked s = o_parked (e_out e)"
  shows "wp (rollback (o_pending_messages (e_out e)) (o_pending_bytes (e_out e)) [mid]) (\<lambda>_ e'. out_step e e' \<and> same_session e e') (\<lambda>_ _. False)
    (pending_state e mid m' stored s eff)"
proof -
  have inv': "oinv {} (e_store e) (e_out e) (sub_mids e)" using inv by (simp add: out_ok_def)
  note D = oinvD [OF inv']
  have new: "mid \<notin> out_mids (e_store e)" "mid \<notin> holders (o_flow (e_out e))" using D(3,6) mid by auto
  let ?s = "s\<lparr>o_flow := snd (flow_release mid (o_flow s)), o_packet_ids := release mid (o_packet_ids s),
    o_pending_messages := o_pending_messages (e_out e), o_pending_bytes := o_pending_bytes (e_out e)\<rparr>"
  have pool: "pool_inv (release mid (o_packet_ids s))" "used (release mid (o_packet_ids s)) = used (o_packet_ids (e_out e))"
    using mids.free_law [OF s(1), of mid] s(2) mid by auto
  have flow: "flow_inv (snd (flow_release mid (o_flow s)))" "holders (snd (flow_release mid (o_flow s))) = holders (o_flow (e_out e))"
    "flow_limit (snd (flow_release mid (o_flow s))) = flow_limit (o_flow (e_out e))"
    using flow_release_holders [OF s(3), of mid] s(4-6) new(2) by auto
  have "oinv {} (grow m' (e_store e)) ?s (sub_mids e)"
    by (rule oinv_same [OF oinv_grow [OF inv']]) (use pool flow s in simp_all)
  then show ?thesis
    unfolding rollback_new [OF new(1)] using pool flow s by (simp add: out_step_def out_ok_def sub_mids_def same_session_def nth_append)
qed

definition budget_full :: "int \<Rightarrow> engine \<Rightarrow> bool" where
  "budget_full n e \<longleftrightarrow> (case max_unacknowledged_messages (e_config e) of None \<Rightarrow> False | Some limit \<Rightarrow> o_pending_messages (e_out e) \<ge> limit)
     \<or> (case max_unacknowledged_bytes (e_config e) of None \<Rightarrow> False
        | Some limit \<Rightarrow> o_pending_bytes (e_out e) + n > limit \<and> o_pending_bytes (e_out e) \<noteq> 0)"

lemma wp_reserve_budget [wp_simps]:
  "wp (reserve_budget n) Q E = (\<lambda>e. if budget_full n e then E FlowControlError e
     else Q () (e\<lparr>e_out := (e_out e)\<lparr>o_pending_messages := o_pending_messages (e_out e) + 1, o_pending_bytes := o_pending_bytes (e_out e) + n\<rparr>\<rparr>))"
  by (rule ext) (auto simp: reserve_budget_def wp_simps budget_full_def Let_def split: option.splits)

text \<open>An admitted publication has a fresh identifier, is counted and is either on the wire or queued.\<close>

definition admitted :: "int \<Rightarrow> engine \<Rightarrow> publish_handle \<Rightarrow> engine \<Rightarrow> bool" where
  "admitted n e h e' \<longleftrightarrow> (\<exists>mid. handle_mid h = Some mid \<and> mid \<in> {1..65535} \<and> mid \<notin> used (o_packet_ids (e_out e)) \<and> \<not> budget_full n e
     \<and> used (o_packet_ids (e_out e')) = insert mid (used (o_packet_ids (e_out e))) \<and> out_mids (e_store e') = insert mid (out_mids (e_store e))
     \<and> o_pending_messages (e_out e') = o_pending_messages (e_out e) + 1 \<and> o_pending_bytes (e_out e') = o_pending_bytes (e_out e) + n
     \<and> ((\<exists>w. e_effects e' = e_effects e @ [EffSend w] \<and> mid \<in> holders (o_flow (e_out e')) \<and> o_queued (e_out e') = o_queued (e_out e)
            \<and> row_state (e_store e') mid \<noteq> Some QUEUED)
        \<or> (e_effects e' = e_effects e \<and> holders (o_flow (e_out e')) = holders (o_flow (e_out e)) \<and> row_state (e_store e') mid = Some QUEUED
            \<and> (\<exists>a. o_queued (e_out e') = o_queued (e_out e) @ [Held a]) \<and> (e_state e = CONNECTED \<longrightarrow> flow_available (o_flow (e_out e)) = 0))))"

definition first_message :: "int \<Rightarrow> pystr \<Rightarrow> bytes \<Rightarrow> bool \<Rightarrow> properties option \<Rightarrow> int \<Rightarrow> int \<Rightarrow> outbound_message" where
  "first_message mid topic payload retain props qos n = \<lparr>om_mid = mid, om_topic = topic, om_payload = payload, om_qos = qos, om_retain = retain,
     om_state = QUEUED, om_dup = False, om_properties = props, om_encoded_publish = None, om_encoded_pubrel = None, om_logical_size = n\<rparr>"

definition enqueue :: "nat \<Rightarrow> publish_handle \<Rightarrow> publish_handle eop" where
  "enqueue a h = sthen (on_store_try (put_out a)) (sthen (mod_out (\<lambda>s. s\<lparr>o_queued := o_queued s @ [Held a]\<rparr>)) (sret h))"

definition place :: "nat \<Rightarrow> bytes option \<Rightarrow> bytes option \<Rightarrow> pystr \<Rightarrow> publish_handle \<Rightarrow> publish_handle eop" where
  "place a property_bytes topic_bytes topic h =
     sbind (sbind (sget e_state) (\<lambda>st. if st = CONNECTED then try_launch a property_bytes topic_bytes (Some topic) else sret False)) (\<lambda>launched.
       if launched then sret h else enqueue a h)"

text \<open>The publication after its identifier was allocated.\<close>

lemma place_ok:
  assumes inv: "out_ok e" and mid: "mid \<in> {1..65535} - used (o_packet_ids (e_out e))" and m: "fresh_message mid n m" "om_state m = QUEUED"
    and p: "pool_inv p" "used p = insert mid (used (o_packet_ids (e_out e)))" and full: "\<not> budget_full n e" and h: "handle_mid h = Some mid"
    and s: "s = (e_out e)\<lparr>o_pending_messages := o_pending_messages (e_out e) + 1, o_pending_bytes := o_pending_bytes (e_out e) + n, o_packet_ids := p\<rparr>"
  shows "wp (place (length (out_heap (e_store e))) pb tb t h) (\<lambda>h e'. out_step e e' \<and> admitted n e h e')
    (\<lambda>_ e'. \<exists>w. flow_inv w \<and> holders w = holders (o_flow (e_out e)) \<and> flow_limit w = flow_limit (o_flow (e_out e)) \<and> not_launched e mid n (s\<lparr>o_flow := w\<rparr>) e')
    (e\<lparr>e_out := s, e_store := grow m (e_store e)\<rparr>)"
proof -
  have inv': "oinv {} (e_store e) (e_out e) (sub_mids e)" using inv by (simp add: out_ok_def)
  note D = oinvD [OF inv']
  have new: "mid \<notin> out_mids (e_store e)" "mid \<notin> sub_mids e" "mid \<notin> holders (o_flow (e_out e))" using D(3,6) mid by auto
  let ?a = "length (out_heap (e_store e))"
  let ?E = "\<lambda>_ e'. \<exists>w. flow_inv w \<and> holders w = holders (o_flow (e_out e)) \<and> flow_limit w = flow_limit (o_flow (e_out e)) \<and> not_launched e mid n (s\<lparr>o_flow := w\<rparr>) e'"
  have ms: "om_mid m = mid" "om_logical_size m = n" using m(1) by (simp_all add: fresh_message_def)
  have quiet: "?E x (e\<lparr>e_out := s, e_store := grow m (e_store e)\<rparr>)" for x
    by (rule exI [of _ "o_flow (e_out e)"]) (use D(5) launched_shapes(2) [OF m(1), of e s] in \<open>simp add: s\<close>)
  have swap: "e\<lparr>e_store := x, e_out := y\<rparr> = e\<lparr>e_out := y, e_store := x\<rparr>" for x y by simp
  have queue: "wp (enqueue ?a h) (\<lambda>h e'. out_step e e' \<and> admitted n e h e') ?E (e\<lparr>e_out := s, e_store := grow m (e_store e)\<rparr>)"
    if free: "e_state e = CONNECTED \<longrightarrow> flow_available (o_flow (e_out e)) = 0"
  proof (cases "n \<le> 0")
    case True
    with quiet show ?thesis by (simp add: enqueue_def wp_simps put_out_new [OF new(1) ms(1)] ms)
  next
    case False
    let ?s' = "s\<lparr>o_queued := o_queued (e_out e) @ [Held ?a]\<rparr>"
    have "oinv {} (add_row mid m (e_store e)) ?s' (sub_mids e)"
      by (rule oinv_add [OF inv' new(1,2) ms(1)]) (use False p D(5) m(2) ms in \<open>auto simp: s\<close>)
    then have "out_step e (e\<lparr>e_store := add_row mid m (e_store e), e_out := ?s'\<rparr>)" by (simp add: out_step_def out_ok_def sub_mids_def)
    moreover have "row_state (add_row mid m (e_store e)) mid = Some QUEUED"
      using add_row_row(2) [OF D(1) new(1) ms(1)] False ms m(2) by (simp add: row_state_def)
    then have "admitted n e h (e\<lparr>e_store := add_row mid m (e_store e), e_out := ?s'\<rparr>)"
      unfolding admitted_def using mid p h full free by (intro exI [of _ mid]) (auto simp: s)
    ultimately show ?thesis using False by (simp add: enqueue_def wp_simps put_out_new [OF new(1) ms(1)] ms s)
  qed
  show ?thesis
  proof (cases "e_state e = CONNECTED")
    case False
    with queue show ?thesis by (simp add: place_def wp_simps)
  next
    case True
    obtain r w where run: "try_acquire mid (o_flow (e_out e)) = (r, w)" by fastforce
    note law = quota.acquire_law [OF D(5) run]
    have run': "try_acquire mid (o_flow s) = (r, w)" using run by (simp add: s)
    show ?thesis
    proof (cases "int (card (holders (o_flow (e_out e)))) \<ge> flow_limit (o_flow (e_out e))")
      case full: True
      with law have "r = Inr False" "w = o_flow s" by (simp_all add: s)
      with True queue run' full show ?thesis
        by (simp add: place_def try_launch_def wp_simps ms flow_available_def swap)
    next
      case False
      with law new(3) have w: "r = Inr True" "flow_inv w" "holders w = insert mid (holders (o_flow (e_out e)))" "flow_limit w = flow_limit (o_flow (e_out e))" by auto
      note fr = flow_release_holders [OF w(2), of mid]
      let ?s = "s\<lparr>o_flow := w\<rparr>"
      have ok: "out_step e e' \<and> admitted n e h e'" if "launched e mid n ?s e'" for e'
      proof -
        from that obtain m' al wi where l: "fresh_message mid n m'" "om_state m' \<noteq> QUEUED" "0 < n" "e' = pending_state e mid m' True (?s\<lparr>o_topic_aliases := al\<rparr>) [EffSend wi]"
          by (auto simp: launched_def)
        have m': "om_mid m' = mid" "om_logical_size m' = n" using l(1) by (simp_all add: fresh_message_def)
        have "oinv {} (add_row mid m' (e_store e)) (?s\<lparr>o_topic_aliases := al\<rparr>) (sub_mids e)"
          by (rule oinv_add [OF inv' new(1,2) m'(1)]) (use l p w m' in \<open>auto simp: s\<close>)
        then have "out_step e e'" by (simp add: out_step_def out_ok_def sub_mids_def l(4) pending_state_def)
        moreover have "row_state (add_row mid m' (e_store e)) mid \<noteq> Some QUEUED"
          using add_row_row(2) [OF D(1) new(1) m'(1)] l m' by (simp add: row_state_def)
        then have "admitted n e h e'"
          unfolding admitted_def using mid p h full w by (intro exI [of _ mid]) (auto simp: s l(4) pending_state_def)
        ultimately show ?thesis by blast
      qed
      have bad: "?E x (e'\<lparr>e_out := (e_out e')\<lparr>o_flow := snd (flow_release mid (o_flow (e_out e')))\<rparr>\<rparr>)" if "not_launched e mid n ?s e'" for x e'
      proof -
        from that obtain m' stored al eff where l: "fresh_message mid n m'" "list_all is_send eff" "stored \<longrightarrow> 0 < n"
          "e' = pending_state e mid m' stored (?s\<lparr>o_topic_aliases := al\<rparr>) eff" by (auto simp: not_launched_def)
        have "not_launched e mid n (?s\<lparr>o_flow := snd (flow_release mid w)\<rparr>) (e'\<lparr>e_out := (e_out e')\<lparr>o_flow := snd (flow_release mid (o_flow (e_out e')))\<rparr>\<rparr>)"
          unfolding not_launched_def using l by (intro exI [of _ m'] exI [of _ stored] exI [of _ al] exI [of _ eff]) (simp add: pending_state_def)
        then show ?thesis using fr w new(3) by (intro exI [of _ "snd (flow_release mid w)"]) (simp add: s)
      qed
      have "wp (launch ?a False pb tb (Some t)) (\<lambda>_ e'. out_step e e' \<and> admitted n e h e')
          (\<lambda>x e'. ?E x (e'\<lparr>e_out := (e_out e')\<lparr>o_flow := snd (flow_release mid (o_flow (e_out e')))\<rparr>\<rparr>)) (e\<lparr>e_store := grow m (e_store e), e_out := ?s\<rparr>)"
        by (rule wp_mono, rule launch_fresh [OF new(1) m(1), of pb tb "Some t" ?s]) (use ok bad in auto)
      with True run' w(1) show ?thesis by (simp add: place_def try_launch_def wp_simps ms)
    qed
  qed
qed

lemma admit_publish_alt:
  "admit_publish pick topic payload retain props (qos, tb, canonical, pb, n, ws) =
     sbind (sget e_out) (\<lambda>start.
     sthen (reserve_budget n)
     (sbind (scatch (on_ids (allocate pick)) (\<lambda>exc. sthen (rollback (o_pending_messages start) (o_pending_bytes start) []) (sraise exc))) (\<lambda>mid.
      scatch (sbind (on_store (new_out (first_message mid canonical payload retain props qos n))) (\<lambda>a. place a pb tb topic \<lparr>handle_mid = Some mid, handle_qos = qos\<rparr>))
        (\<lambda>exc. sthen (rollback (o_pending_messages start) (o_pending_bytes start) [mid]) (sraise exc)))))"
  unfolding admit_publish_def first_message_def place_def enqueue_def by simp

lemma admit_publish_ok:
  assumes inv: "out_ok e" and pick: "pops pick"
  shows "wp (admit_publish pick topic payload retain props (qos, tb, canonical, pb, n, ws))
    (\<lambda>h e'. out_step e e' \<and> admitted n e h e') (\<lambda>_ e'. out_step e e' \<and> same_session e e') e"
proof (cases "budget_full n e")
  case True
  with inv show ?thesis by (simp add: admit_publish_alt wp_simps out_step_def same_session_def)
next
  case False
  have inv': "oinv {} (e_store e) (e_out e) (sub_mids e)" using inv by (simp add: out_ok_def)
  note D = oinvD [OF inv']
  let ?s0 = "(e_out e)\<lparr>o_pending_messages := o_pending_messages (e_out e) + 1, o_pending_bytes := o_pending_bytes (e_out e) + n\<rparr>"
  obtain r p where run: "allocate pick (o_packet_ids (e_out e)) = (r, p)" by fastforce
  note law = mids.alloc_law [OF pick D(2) run]
  show ?thesis
  proof (cases r)
    case (Inl x)
    with law have p: "pool_inv p" "used p = used (o_packet_ids (e_out e))" by auto
    let ?e' = "e\<lparr>e_out := (e_out e)\<lparr>o_packet_ids := p\<rparr>\<rparr>"
    have "oinv {} (e_store e) (e_out ?e') (sub_mids e)" by (rule oinv_same [OF inv']) (use p D(5) in simp_all)
    then have "out_step e ?e' \<and> same_session e ?e'" using p by (simp add: out_step_def out_ok_def sub_mids_def same_session_def)
    then show ?thesis using Inl run False by (simp add: admit_publish_alt wp_simps rollback_def)
  next
    case (Inr mid)
    with law have mid: "mid \<in> {1..65535} - used (o_packet_ids (e_out e))" and p: "pool_inv p" "used p = insert mid (used (o_packet_ids (e_out e)))"
      by (auto simp: MAX_ID_def)
    let ?m = "first_message mid canonical payload retain props qos n" and ?h = "\<lparr>handle_mid = Some mid, handle_qos = qos\<rparr>"
    let ?s = "?s0\<lparr>o_packet_ids := p\<rparr>"
    have undo: "wp (rollback (o_pending_messages (e_out e)) (o_pending_bytes (e_out e)) [mid]) (\<lambda>_ e'. out_step e e' \<and> same_session e e')
        (\<lambda>_ e'. out_step e e' \<and> same_session e e') e1"
      if e1: "\<exists>w. flow_inv w \<and> holders w = holders (o_flow (e_out e)) \<and> flow_limit w = flow_limit (o_flow (e_out e)) \<and> not_launched e mid n (?s\<lparr>o_flow := w\<rparr>) e1" for e1
    proof -
      from e1 obtain w m' stored al eff where w: "flow_inv w" "holders w = holders (o_flow (e_out e))" "flow_limit w = flow_limit (o_flow (e_out e))"
        and e1': "e1 = pending_state e mid m' stored (?s\<lparr>o_flow := w, o_topic_aliases := al\<rparr>) eff" by (auto simp: not_launched_def)
      have "wp (rollback (o_pending_messages (e_out e)) (o_pending_bytes (e_out e)) [mid]) (\<lambda>_ e'. out_step e e' \<and> same_session e e') (\<lambda>_ _. False) e1"
        unfolding e1' by (rule rolled_back [OF inv]) (use mid p w in auto)
      then show ?thesis by (rule wp_mono) auto
    qed
    have "fresh_message mid n ?m" "om_state ?m = QUEUED" by (simp_all add: fresh_message_def first_message_def)
    then have "wp (place (length (out_heap (e_store e))) pb tb topic ?h) (\<lambda>h e'. out_step e e' \<and> admitted n e h e')
        (\<lambda>_. wp (rollback (o_pending_messages (e_out e)) (o_pending_bytes (e_out e)) [mid]) (\<lambda>_ e'. out_step e e' \<and> same_session e e') (\<lambda>_ e'. out_step e e' \<and> same_session e e'))
        (e\<lparr>e_out := ?s, e_store := grow ?m (e_store e)\<rparr>)"
      by (intro wp_mono [OF place_ok [OF inv mid _ _ p False, where s = ?s]]) (use undo in auto)
    then show ?thesis using Inr run False
      by (simp add: admit_publish_alt wp_simps new_out_def grow_def [symmetric])
  qed
qed

lemma alias_step:
  assumes "out_ok e"
  shows "out_step e (e\<lparr>e_out := (e_out e)\<lparr>o_topic_aliases := al\<rparr>, e_effects := x\<rparr>)" "same_session e (e\<lparr>e_out := (e_out e)\<lparr>o_topic_aliases := al\<rparr>, e_effects := x\<rparr>)"
proof -
  have inv: "oinv {} (e_store e) (e_out e) (sub_mids e)" using assms by (simp add: out_ok_def)
  note D = oinvD [OF inv]
  have "oinv {} (e_store e) ((e_out e)\<lparr>o_topic_aliases := al\<rparr>) (sub_mids e)" by (rule oinv_same [OF inv]) (use D(2,5) in simp_all)
  then show "out_step e (e\<lparr>e_out := (e_out e)\<lparr>o_topic_aliases := al\<rparr>, e_effects := x\<rparr>)" by (simp add: out_step_def out_ok_def sub_mids_def)
  show "same_session e (e\<lparr>e_out := (e_out e)\<lparr>o_topic_aliases := al\<rparr>, e_effects := x\<rparr>)" by (simp add: same_session_def)
qed

lemma prepare_qos0_reads: "(\<And>x. Q x e) \<Longrightarrow> (\<And>x. E x e) \<Longrightarrow> wp (prepare_qos0 topic payload retain props) Q E e"
  by (auto simp: prepare_qos0_def wp_simps split: sum.split option.split)

definition published :: "engine \<Rightarrow> publish_handle \<Rightarrow> engine \<Rightarrow> bool" where
  "published e h e' \<longleftrightarrow> (if handle_qos h = 0 then handle_mid h = None \<and> same_session e e' \<and> (\<exists>w. e_effects e' = e_effects e @ [EffSend w, EffPublishComplete None])
     else \<exists>n. admitted n e h e')"

lemma admit_level:
  assumes "handle_qos h \<noteq> 0" "admitted n e h e'"
  shows "published e h e'"
  using assms by (auto simp: published_def)

lemma admit_qos: "wp (admit_publish pick topic payload retain props (qos, tb, canonical, pb, n, ws)) (\<lambda>h _. handle_qos h = qos) (\<lambda>_ _. True) e"
  by (simp add: admit_publish_alt place_def enqueue_def wp_simps try_launch_def split: sum.split prod.split)
     (auto simp: wp_def split: prod.splits sum.splits)

lemma prepared_level:
  assumes "prepare_publish_request topic payload qos retain props ws e = Inr (level, tb, canonical, pb, n, wsz)"
  shows "level = qos"
  using assms by (auto simp: prepare_publish_request_def qos_of_def Let_def split: if_splits)

lemma queue_publish_ok:
  assumes inv: "out_ok e" and pick: "pops pick"
  shows "wp (queue_publish pick topic payload qos retain props None) (\<lambda>h e'. out_step e e' \<and> handle_qos h = qos \<and> published e h e')
    (\<lambda>_ e'. out_step e e' \<and> same_session e e') e"
proof -
  have keep: "out_step e e" "same_session e e" using inv by (simp_all add: out_step_def same_session_def)
  show ?thesis
  proof (cases "e_state e = DISCONNECTING \<or> qos \<notin> {0, 1, 2}")
    case True
    with keep show ?thesis by (auto simp: queue_publish_def wp_simps qos_of_def)
  next
    case False
    then have level: "qos_of qos = Inr qos" by (simp add: qos_of_def)
    show ?thesis
    proof (cases "qos = 0")
      case True
      let ?h = "\<lparr>handle_mid = None, handle_qos = 0\<rparr>"
      have step: "out_step e (e\<lparr>e_effects := x\<rparr>)" "same_session e (e\<lparr>e_effects := x\<rparr>)" for x
        using out_step_effect [OF inv] by (simp_all add: same_session_def)
      have fin: "out_step e e' \<and> handle_qos ?h = qos \<and> published e ?h e'"
        if "e' = e\<lparr>e_effects := e_effects e @ [EffSend w, EffPublishComplete None]\<rparr> \<or> e' = e\<lparr>e_out := (e_out e)\<lparr>o_topic_aliases := al\<rparr>, e_effects := e_effects e @ [EffSend w, EffPublishComplete None]\<rparr>"
        for e' w al
        using that step alias_step [OF inv] True
        by (auto simp: published_def)
      have "wp (commit_topic_alias topic props) (\<lambda>_ e1. out_step e (e1\<lparr>e_effects := e_effects e1 @ [EffPublishComplete None]\<rparr>) \<and> handle_qos ?h = qos
            \<and> published e ?h (e1\<lparr>e_effects := e_effects e1 @ [EffPublishComplete None]\<rparr>))
          (\<lambda>_ e'. out_step e e' \<and> same_session e e') (e\<lparr>e_effects := e_effects e @ [EffSend w]\<rparr>)" for w
        by (rule commit_topic_alias_frame) (use step fin [of _ w] in \<open>auto\<close>)
      then have "wp (prepare_qos0 topic payload retain props) (\<lambda>item. wp (sthen (send item) (sthen (commit_topic_alias topic props)
            (sthen (emit (EffPublishComplete None)) (sret ?h)))) (\<lambda>h e'. out_step e e' \<and> handle_qos h = qos \<and> published e h e') (\<lambda>_ e'. out_step e e' \<and> same_session e e'))
          (\<lambda>_ e'. out_step e e' \<and> same_session e e') e"
        by (intro prepare_qos0_reads) (use keep in \<open>simp_all add: wp_simps\<close>)
      with False True level show ?thesis by (simp add: queue_publish_def wp_simps)
    next
      case nz: False
      show ?thesis
      proof (cases "prepare_publish_request topic payload qos retain props False e")
        case (Inl x)
        with False nz level keep show ?thesis by (simp add: queue_publish_def wp_simps)
      next
        case (Inr prep)
        obtain lv tb canonical pb n ws where prep: "prep = (lv, tb, canonical, pb, n, ws)" by (cases prep)
        have lv: "lv = qos" using prepared_level Inr prep by blast
        have "wp (admit_publish pick topic payload retain props (qos, tb, canonical, pb, n, ws)) (\<lambda>h e'. out_step e e' \<and> handle_qos h = qos \<and> published e h e')
            (\<lambda>_ e'. out_step e e' \<and> same_session e e') e"
          by (rule wp_mono, rule wp_conj, rule admit_publish_ok [OF inv pick], rule admit_qos) (use nz admit_level in auto)
        with False nz level Inr prep lv show ?thesis by (simp add: queue_publish_def wp_simps)
      qed
    qed
  qed
qed

end
