(* ===== verification/Outbound_Session.thy ===== *)
theory Outbound_Session
  imports Outbound_Publish
begin

text \<open>
  The outbound session across connections: sealing, hydration from a store, the replay of a resumed session, the purge
  of a lost one and the check of the queue against a new negotiation keep the invariant of \<^verbatim>\<open>Outbound_Inv\<close>.
\<close>

subsection \<open>Iterating over the stored summaries\<close>

definition out_summary :: "mem_store \<Rightarrow> int \<Rightarrow> outbound_summary option" where
  "out_summary st mid = map_option from_message (out_row st mid)"

lemma out_summary_None [simp]: "out_summary st mid = None \<longleftrightarrow> mid \<notin> out_mids st"
  by (auto simp: out_summary_def out_mids_dom)

lemma same_summary: "out_summary st' k = out_summary st k \<Longrightarrow> k \<in> out_mids st' \<longleftrightarrow> k \<in> out_mids st"
  using out_summary_None [of st' k] out_summary_None [of st k] by simp

lemma read_summaries:
  "map (\<lambda>a. from_message (out_heap st ! a)) (read_records (out_tab st) mids) = List.map_filter (out_summary st) mids"
  by (induction mids) (simp_all add: read_records_def map_filter_simps out_summary_def out_row_def tab_row_def split: option.split)

text \<open>
  The rule of the paged loop: an invariant over the identifiers still to visit, kept by the body on the summary of the
  next stored one and by skipping one that is gone; the body leaves the summaries it has not visited alone.
\<close>

lemma wp_page:
  assumes "ys = List.map_filter (out_summary (e_store e)) ms" "J (ms @ rest) acc e"
    and step: "\<And>mid ks acc e q. J (mid # ks) acc e \<Longrightarrow> out_summary (e_store e) mid = Some q \<Longrightarrow>
      wp (f q acc) (\<lambda>acc' e'. J ks acc' e' \<and> (\<forall>k \<in> set ks. out_summary (e_store e') k = out_summary (e_store e) k)) E e"
    and skip: "\<And>mid ks acc e. J (mid # ks) acc e \<Longrightarrow> mid \<notin> out_mids (e_store e) \<Longrightarrow> J ks acc e"
  shows "wp (sfold f ys acc) (\<lambda>acc. J rest acc) E e"
  using assms(1,2)
proof (induction ms arbitrary: ys acc e)
  case Nil
  then show ?case by (simp add: wp_simps map_filter_simps)
next
  case (Cons mid ms)
  show ?case
  proof (cases "out_summary (e_store e) mid")
    case None
    with Cons.prems skip [of mid "ms @ rest"] Cons.IH show ?thesis by (simp add: map_filter_simps)
  next
    case (Some q)
    have "wp (f q acc) (\<lambda>acc'. wp (sfold f (List.map_filter (out_summary (e_store e)) ms) acc') (\<lambda>acc. J rest acc) E) E e"
    proof (rule wp_mono, rule step [of mid "ms @ rest"])
      fix acc' e'
      assume e': "J (ms @ rest) acc' e' \<and> (\<forall>k \<in> set (ms @ rest). out_summary (e_store e') k = out_summary (e_store e) k)"
      then have "List.map_filter (out_summary (e_store e)) ms = List.map_filter (out_summary (e_store e')) ms"
        by (simp add: List.map_filter_def cong: map_cong filter_cong)
      with Cons.IH e' show "wp (sfold f (List.map_filter (out_summary (e_store e)) ms) acc') (\<lambda>acc. J rest acc) E e'" by blast
    qed (use Cons.prems Some in simp_all)
    with Cons.prems Some show ?thesis by (simp add: map_filter_simps wp_simps)
  qed
qed

lemma next_page:
  assumes "0 < n"
  shows "case out_summary_next n st mids of
      None \<Rightarrow> List.map_filter (out_summary st) mids = []
    | Some (page, rest) \<Rightarrow> \<exists>ms. mids = ms @ rest \<and> page = List.map_filter (out_summary st) ms"
  using assms
proof (induction n st mids rule: out_summary_next.induct)
  case (1 n st mids)
  show ?case
  proof (cases "mids = [] \<or> read_records (out_tab st) (take n mids) \<noteq> []")
    case True
    then show ?thesis using "1.prems" by (subst out_summary_next.simps) (auto simp: read_summaries intro!: exI [of _ "take n mids"])
  next
    case False
    then have none: "List.map_filter (out_summary st) (take n mids) = []" using read_summaries [of st "take n mids"] by simp
    have step: "out_summary_next n st mids = out_summary_next n st (drop n mids)" using False "1.prems" by (subst out_summary_next.simps) simp
    have cut: "List.map_filter (out_summary st) (take n mids @ ks) = List.map_filter (out_summary st) ks" for ks
      using none by (simp add: List.map_filter_def)
    have ih: "case out_summary_next n st (drop n mids) of None \<Rightarrow> List.map_filter (out_summary st) (drop n mids) = []
      | Some (page, rest) \<Rightarrow> \<exists>ms. drop n mids = ms @ rest \<and> page = List.map_filter (out_summary st) ms"
      by (rule "1.IH") (use False "1.prems" in auto)
    show ?thesis
    proof (cases "out_summary_next n st (drop n mids)")
      case None
      with ih cut [of "drop n mids"] show ?thesis by (simp add: step)
    next
      case (Some pr)
      obtain page rest where pr: "pr = (page, rest)" by (cases pr)
      from ih Some pr obtain ms where ms: "drop n mids = ms @ rest" "page = List.map_filter (out_summary st) ms" by auto
      have "mids = (take n mids @ ms) @ rest" using ms(1) append_take_drop_id [of n mids] by simp
      moreover have "page = List.map_filter (out_summary st) (take n mids @ ms)" using cut ms(2) by simp
      ultimately have "\<exists>ms. mids = ms @ rest \<and> page = List.map_filter (out_summary st) ms" by blast
      then show ?thesis by (simp add: step Some pr)
    qed
  qed
qed

lemma wp_for_pages:
  assumes "J mids acc e"
    and step: "\<And>mid ks acc e q. J (mid # ks) acc e \<Longrightarrow> out_summary (e_store e) mid = Some q \<Longrightarrow>
      wp (f q acc) (\<lambda>acc' e'. J ks acc' e' \<and> (\<forall>k \<in> set ks. out_summary (e_store e') k = out_summary (e_store e) k)) E e"
    and skip: "\<And>mid ks acc e. J (mid # ks) acc e \<Longrightarrow> mid \<notin> out_mids (e_store e) \<Longrightarrow> J ks acc e"
  shows "wp (for_pages f mids acc) (\<lambda>acc. J [] acc) E e"
  using assms(1)
proof (induction "length mids" arbitrary: mids acc e rule: less_induct)
  case less
  have pg: "case out_summary_next OUT_PAGE_SIZE (e_store e) mids of None \<Rightarrow> List.map_filter (out_summary (e_store e)) mids = []
    | Some (page, rest) \<Rightarrow> \<exists>ms. mids = ms @ rest \<and> page = List.map_filter (out_summary (e_store e)) ms"
    by (rule next_page) (simp add: OUT_PAGE_SIZE_def)
  have page: "wp (sfold f (List.map_filter (out_summary (e_store e)) ms) acc) (\<lambda>acc. J rest acc) E e" if "mids = ms @ rest" for ms rest
    using less.prems that by (intro wp_page [OF refl _ step skip]) auto
  show ?case
  proof (cases "out_summary_next OUT_PAGE_SIZE (e_store e) mids")
    case None
    with page [of mids "[]"] pg show ?thesis by (simp add: wp_simps) (simp add: wp_def for_pages.simps [of f mids])
  next
    case (Some pr)
    obtain ys rest where pr: "pr = (ys, rest)" by (cases pr)
    with Some pg obtain ms where ms: "mids = ms @ rest" "ys = List.map_filter (out_summary (e_store e)) ms" by auto
    have "length rest < length mids" using out_summary_next_shorter Some pr by blast
    then have ih: "J rest acc' e' \<Longrightarrow> wp (for_pages f rest acc') (\<lambda>acc. J [] acc) E e'" for acc' e' by (rule less.hyps)
    have "wp (sfold f ys acc) (\<lambda>acc'. wp (for_pages f rest acc') (\<lambda>acc. J [] acc) E) E e"
      unfolding ms(2) by (rule wp_mono, rule page [OF ms(1)]) (use ih in auto)
    then show ?thesis
      by (simp add: wp_def for_pages.simps [of f mids] Some pr split: prod.splits sum.splits)
  qed
qed

lemma wp_for_summaries:
  assumes "J (map fst (out_tab (e_store e))) acc e"
    and "\<And>mid ks acc e q. J (mid # ks) acc e \<Longrightarrow> out_summary (e_store e) mid = Some q \<Longrightarrow>
      wp (f q acc) (\<lambda>acc' e'. J ks acc' e' \<and> (\<forall>k \<in> set ks. out_summary (e_store e') k = out_summary (e_store e) k)) E e"
    and "\<And>mid ks acc e. J (mid # ks) acc e \<Longrightarrow> mid \<notin> out_mids (e_store e) \<Longrightarrow> J ks acc e"
  shows "wp (for_summaries f acc) (\<lambda>acc. J [] acc) E e"
  using wp_for_pages [of J, OF assms] by (simp add: for_summaries_def wp_simps out_pages_start_def OUT_PAGE_SIZE_def)

subsection \<open>Sealing\<close>

lemma weight_insert:
  assumes "store_inv st" "out_row st mid = Some m" "mid \<notin> X"
  shows "orows.weight (insert mid X) st = orows.weight X st - om_logical_size m" "orows.count (insert mid X) st = orows.count X st - 1"
proof -
  have d: "dom (out_row st) - insert mid X = dom (out_row st) - X - {mid}" by auto
  have mem: "mid \<in> dom (out_row st) - X" using assms by auto
  have fin: "finite (dom (out_row st) - X)" by (simp add: out_row_def)
  show "orows.weight (insert mid X) st = orows.weight X st - om_logical_size m"
    unfolding orows.weight_def d using mem fin assms(2) by (simp add: sum_diff1)
  show "orows.count (insert mid X) st = orows.count X st - 1"
    unfolding orows.count_def d using card_Suc_Diff1 [OF fin mem] by simp
qed

lemma oinv_seal:
  assumes inv: "oinv P st s subs" and addr: "map_of (out_tab st) mid = Some a" and unsealed: "mid \<notin> sealed_mids s"
    and flow: "flow_inv (o_flow s')" "holders (o_flow s') = holders (o_flow s) - {mid}"
    and s': "o_packet_ids s' = o_packet_ids s" "o_sealed s' = AList.update mid (om_state (out_heap st ! a) \<noteq> QUEUED) (o_sealed s)"
      "o_queued s' = filter (\<lambda>n. entry_mid st n \<noteq> mid) (o_queued s)" "o_parked s' = o_parked s - {mid}"
      "o_pending_messages s' = o_pending_messages s - 1" "o_pending_bytes s' = o_pending_bytes s - om_logical_size (out_heap st ! a)"
  shows "oinv P st s' subs"
proof -
  note D = oinvD [OF inv]
  have upd: "o_sealed s' = o_sealed s @ [(mid, om_state (out_heap st ! a) \<noteq> QUEUED)]"
    using unsealed by (simp add: s' update_new sealed_mids_def)
  have sealed: "sealed_mids s' = insert mid (sealed_mids s)" by (auto simp: sealed_mids_def upd)
  have row: "out_row st mid = Some (out_heap st ! a)" by (rule out_row_addr [OF addr])
  have mid: "mid \<in> out_mids st" using row by (auto simp: out_mids_dom)
  have qm: "queue_mids st s' = filter (\<lambda>k. k \<noteq> mid) (queue_mids st s)" by (simp add: queue_mids_def s' filter_map o_def)
  note w = weight_insert [OF D(1) row unsealed]
  show ?thesis
  proof (rule oinvI)
    show "holders (o_flow s') \<subseteq> out_mids st - sealed_mids s' - set (queue_mids st s')" using D(6) by (auto simp: flow sealed qm)
    show "distinct (map fst (o_sealed s'))" using D(7) unsealed by (auto simp: upd sealed_mids_def)
    show "m \<in> set (o_queued s') \<Longrightarrow> entry_ok st s' m" for m using D(12) [of m] by (auto simp: s' entry_ok_def sealed)
    show "row_state st k = Some QUEUED \<Longrightarrow> k \<notin> sealed_mids s' \<Longrightarrow> k \<in> set (queue_mids st s') \<union> P" for k
      using D(14) [of k] by (auto simp: sealed qm)
    show "(k, b) \<in> set (o_sealed s') \<Longrightarrow> b \<longleftrightarrow> row_state st k \<noteq> Some QUEUED" for k b
      using D(15) [of k b] row by (auto simp: upd row_state_def)
  qed (use D flow s' sealed mid w in \<open>auto simp: qm\<close>)
qed

text \<open>While the loop runs the queue still has the entries that the end of \<^verbatim>\<open>seal\<close> removes.\<close>

definition unqueued :: "mem_store \<Rightarrow> int set \<Rightarrow> outbound_session \<Rightarrow> outbound_session" where
  "unqueued st X s = s\<lparr>o_queued := filter (\<lambda>m. entry_mid st m \<notin> X) (o_queued s), o_parked := o_parked s - X\<rparr>"

definition only_out :: "engine \<Rightarrow> engine \<Rightarrow> bool" where
  "only_out e e' \<longleftrightarrow> (\<exists>s. e' = e\<lparr>e_out := s\<rparr>)"

lemma only_out_refl [simp]: "only_out e e"
  unfolding only_out_def by (rule exI [of _ "e_out e"]) simp

lemma seal_loop_ok:
  assumes "oinv P (e_store e) (unqueued (e_store e) X (e_out e)) subs"
  shows "wp (seal_loop mids X) (\<lambda>Y e'. oinv P (e_store e') (unqueued (e_store e') Y (e_out e')) subs \<and> only_out e e' \<and> o_queued (e_out e') = o_queued (e_out e) \<and> o_parked (e_out e') = o_parked (e_out e)
      \<and> sealed_mids (e_out e') = sealed_mids (e_out e) \<union> (set mids \<inter> out_mids (e_store e))
      \<and> Y = X \<union> (sealed_mids (e_out e') - sealed_mids (e_out e))) (\<lambda>_ _. False) e"
  using assms
proof (induction mids arbitrary: e X)
  case Nil
  then show ?case by (simp add: wp_simps)
next
  case (Cons mid mids)
  note D = oinvD [OF Cons.prems]
  have sm: "sealed_mids (unqueued (e_store e) X (e_out e)) = sealed_mids (e_out e)" by (simp add: unqueued_def sealed_mids_def)
  show ?case
  proof (cases "mid \<in> sealed_mids (e_out e) \<or> out_row (e_store e) mid = None")
    case True
    have "mid \<in> sealed_mids (e_out e) \<or> mid \<notin> out_mids (e_store e)" using True by (auto simp: out_mids_dom domIff)
    then have same: "sealed_mids (e_out e) \<union> (set (mid # mids) \<inter> out_mids (e_store e)) = sealed_mids (e_out e) \<union> (set mids \<inter> out_mids (e_store e))" by auto
    from True Cons.IH [OF Cons.prems] show ?thesis unfolding same
      by (auto simp: wp_simps out_meta_eq sealed_mids_def)
  next
    case False
    then obtain a where a: "map_of (out_tab (e_store e)) mid = Some a" "out_row (e_store e) mid = Some (out_heap (e_store e) ! a)"
      using row_addr by (metis not_Some_eq)
    have mid: "mid \<in> out_mids (e_store e)" using a(2) by (auto simp: out_mids_dom)
    let ?s = "(e_out e)\<lparr>o_sealed := AList.update mid (om_state (out_heap (e_store e) ! a) \<noteq> QUEUED) (o_sealed (e_out e)),
        o_high_messages := max (o_high_messages (e_out e)) (o_pending_messages (e_out e)), o_high_bytes := max (o_high_bytes (e_out e)) (o_pending_bytes (e_out e)),
        o_pending_messages := o_pending_messages (e_out e) - 1, o_pending_bytes := o_pending_bytes (e_out e) - om_logical_size (out_heap (e_store e) ! a),
        o_flow := snd (flow_release mid (o_flow (e_out e)))\<rparr>"
    have uns: "mid \<notin> sealed_mids (unqueued (e_store e) X (e_out e))" using False sm by simp
    note bud = oinv_budget [OF Cons.prems a(1) uns]
    have fl: "flow_inv (o_flow (e_out e))" using D(5) by (simp add: unqueued_def)
    have "oinv P (e_store e) (unqueued (e_store e) (insert mid X) ?s) subs"
      by (rule oinv_seal [OF Cons.prems a(1) uns]) (use flow_release_holders [OF fl, of mid] in \<open>auto simp: unqueued_def conj_ac intro!: filter_cong\<close>)
    then have ih: "oinv P (e_store (e\<lparr>e_out := ?s\<rparr>)) (unqueued (e_store (e\<lparr>e_out := ?s\<rparr>)) (insert mid X) (e_out (e\<lparr>e_out := ?s\<rparr>))) subs" by simp
    have seal': "sealed_mids ?s = insert mid (sealed_mids (e_out e))"
      using uns by (simp add: unqueued_def sealed_mids_def update_new)
    have oo: "only_out (e\<lparr>e_out := ?s\<rparr>) e' \<Longrightarrow> only_out e e'" for e' by (auto simp: only_out_def)
    have fin: "wp (seal_loop mids (insert mid X)) (\<lambda>Y e'. oinv P (e_store e') (unqueued (e_store e') Y (e_out e')) subs \<and> only_out e e' \<and> o_queued (e_out e') = o_queued (e_out e) \<and> o_parked (e_out e') = o_parked (e_out e)
      \<and> sealed_mids (e_out e') = sealed_mids (e_out e) \<union> (set (mid # mids) \<inter> out_mids (e_store e))
      \<and> Y = X \<union> (sealed_mids (e_out e') - sealed_mids (e_out e))) (\<lambda>_ _. False) (e\<lparr>e_out := ?s\<rparr>)"
      by (rule wp_mono, rule Cons.IH [OF ih]) (use oo mid False in \<open>auto simp: seal'\<close>)
    show ?thesis
      using False a(2) bud fin
      by (simp add: wp_simps out_meta_eq release_reservation_ok unqueued_def sealed_mids_def)
  qed
qed

lemma seal_ok:
  assumes inv: "oinv P (e_store e) (e_out e) subs"
  shows "wp (seal mids) (\<lambda>_ e'. oinv P (e_store e') (e_out e') subs \<and> only_out e e'
      \<and> sealed_mids (e_out e') = sealed_mids (e_out e) \<union> (set mids \<inter> out_mids (e_store e))) (\<lambda>_ _. False) e"
proof -
  have inv': "oinv P (e_store e) (unqueued (e_store e) {} (e_out e)) subs" using inv by (simp add: unqueued_def)
  have id: "unqueued (e_store e1) Y (e_out e1) = e_out e1"
    if "Y = {} \<or> o_queued (e_out e) = []" "o_queued (e_out e1) = o_queued (e_out e)" "o_parked (e_out e1) = o_parked (e_out e)" for e1 Y
  proof -
    have "o_queued (e_out e) = [] \<Longrightarrow> o_parked (e_out e) = {}" using oinvD(13) [OF inv] by (simp add: queue_mids_def)
    with that show ?thesis by (cases "e_out e1") (auto simp: unqueued_def)
  qed
  have oo: "only_out e e1 \<Longrightarrow> only_out e (e1\<lparr>e_out := s\<rparr>)" for e1 s by (auto simp: only_out_def)
  show ?thesis
    unfolding seal_def wp_simps
  proof (rule wp_mono, rule seal_loop_ok [OF inv'], goal_cases)
    case (1 Y e1)
    show ?case
    proof (cases "Y = {} \<or> o_queued (e_out e) = []")
      case True
      with 1 id [of Y e1] show ?thesis by auto
    next
      case False
      with 1 oo show ?thesis by (auto simp: unqueued_def sealed_mids_def)
    qed
  qed simp
qed

subsection \<open>Hydration\<close>

text \<open>The session while the rows \<open>R\<close> of the store are not yet accounted for.\<close>

definition hydrating :: "int set \<Rightarrow> mem_store \<Rightarrow> outbound_session \<Rightarrow> bool" where
  "hydrating R st s \<longleftrightarrow> store_inv st \<and> pool_inv (o_packet_ids s) \<and> used (o_packet_ids s) = out_mids st - R
     \<and> flow_inv (o_flow s) \<and> holders (o_flow s) \<subseteq> out_mids st - R - set (queue_mids st s)
     \<and> o_sealed s = [] \<and> o_parked s = {}
     \<and> o_pending_messages s = orows.count R st \<and> o_pending_bytes s = orows.weight R st
     \<and> distinct (queue_mids st s) \<and> set (queue_mids st s) = {mid. row_state st mid = Some QUEUED} - R
     \<and> (\<forall>m \<in> set (o_queued s). entry_ok st s m)"

lemma hydrating_done:
  assumes "hydrating {} st s"
  shows "oinv {} st s {}"
  using assms unfolding hydrating_def by (intro oinvI) (auto simp: sealed_mids_def)

lemma row_mid:
  assumes "store_inv st" "out_row st mid = Some m"
  shows "om_mid m = mid" "0 < om_logical_size m"
proof -
  from assms(2) obtain a where a: "map_of (out_tab st) mid = Some a" "m = out_heap st ! a" using row_addr by blast
  show "om_mid m = mid" "0 < om_logical_size m"
    using tab_inv_addr [OF store_invD(1) [OF assms(1)] a(1)] a(2) orows.size_pos [OF assms] by simp_all
qed

lemma summary_row:
  assumes "store_inv st" "out_summary st mid = Some q"
  obtains m where "out_row st mid = Some m" "q = from_message m" "os_mid q = mid" "os_state q = om_state m" "os_logical_size q = om_logical_size m"
    "row_state st mid = Some (om_state m)" "0 < om_logical_size m" "mid \<in> out_mids st"
proof -
  from assms(2) obtain m where m: "out_row st mid = Some m" "q = from_message m" by (auto simp: out_summary_def)
  with row_mid [OF assms(1) m(1)] that show ?thesis by (auto simp: from_message_def row_state_def out_mids_dom)
qed

lemma summary_entry:
  assumes "store_inv st" "out_summary st mid = Some q" "mid \<notin> sealed_mids s"
  shows "entry_mid st (Summary q) = mid" "entry_ok st s (Summary q)"
proof -
  from assms(1,2) obtain m where m: "out_row st mid = Some m" "os_mid q = mid" "os_state q = om_state m" "os_logical_size q = om_logical_size m"
    by (rule summary_row)
  from m(1) obtain a where "map_of (out_tab st) mid = Some a" "m = out_heap st ! a" using row_addr by blast
  with m assms(3) show "entry_mid st (Summary q) = mid" "entry_ok st s (Summary q)"
    by (simp_all add: entry_mid_def entry_view_def entry_ok_def)
qed

lemma hydrate_message_ok:
  assumes hyd: "hydrating (set (mid # ks)) (e_store e) (e_out e)" and d: "distinct (mid # ks)" and range: "out_mids (e_store e) \<subseteq> {1..65535}"
    and q: "out_summary (e_store e) mid = Some q"
  shows "wp (hydrate_message q) (\<lambda>_ e'. hydrating (set ks) (e_store e') (e_out e') \<and> only_out e e') (\<lambda>_ _. False) e"
proof -
  from hyd have H: "store_inv (e_store e)" "pool_inv (o_packet_ids (e_out e))" "used (o_packet_ids (e_out e)) = out_mids (e_store e) - set (mid # ks)"
    "flow_inv (o_flow (e_out e))" "holders (o_flow (e_out e)) \<subseteq> out_mids (e_store e) - set (mid # ks) - set (queue_mids (e_store e) (e_out e))"
    "o_sealed (e_out e) = []" "o_parked (e_out e) = {}" "o_pending_messages (e_out e) = orows.count (set (mid # ks)) (e_store e)"
    "o_pending_bytes (e_out e) = orows.weight (set (mid # ks)) (e_store e)" "distinct (queue_mids (e_store e) (e_out e))"
    "set (queue_mids (e_store e) (e_out e)) = {mid. row_state (e_store e) mid = Some QUEUED} - set (mid # ks)"
    "\<And>m. m \<in> set (o_queued (e_out e)) \<Longrightarrow> entry_ok (e_store e) (e_out e) m"
    by (auto simp: hydrating_def)
  from H(1) q obtain m where m: "out_row (e_store e) mid = Some m" "os_mid q = mid" "os_state q = om_state m" "os_logical_size q = om_logical_size m"
    "row_state (e_store e) mid = Some (om_state m)" "0 < om_logical_size m" "mid \<in> out_mids (e_store e)" by (rule summary_row)
  have new: "mid \<notin> set ks" using d by simp
  have w: "orows.weight (set ks) (e_store e) = o_pending_bytes (e_out e) + om_logical_size m" "orows.count (set ks) (e_store e) = o_pending_messages (e_out e) + 1"
    using weight_insert [OF H(1) m(1) new] H(8,9) by simp_all
  obtain r p where run: "reserve mid (o_packet_ids (e_out e)) = (r, p)" by fastforce
  have mr: "mid \<in> {1..MAX_ID}" using range m(7) by (auto simp: MAX_ID_def)
  from mids.claim_law [OF H(2) run] mr have p: "r = Inr ()" "pool_inv p" "used p = insert mid (used (o_packet_ids (e_out e)))" by auto
  let ?s = "(e_out e)\<lparr>o_packet_ids := p, o_pending_messages := o_pending_messages (e_out e) + 1, o_pending_bytes := o_pending_bytes (e_out e) + om_logical_size m\<rparr>"
  have oo: "only_out e (e\<lparr>e_out := s\<rparr>)" for s by (auto simp: only_out_def)
  have nosl: "mid \<notin> sealed_mids (e_out e)" by (simp add: sealed_mids_def H(6))
  note se = summary_entry [OF H(1) q nosl]
  have ok: "entry_ok (e_store e) s n \<longleftrightarrow> entry_ok (e_store e) (e_out e) n" if "o_sealed s = []" for s n
    using that H(6) by (simp add: entry_ok_def sealed_mids_def)
  have qm: "queue_mids (e_store e) s = queue_mids (e_store e) (e_out e)" if "o_queued s = o_queued (e_out e)" for s
    using that by (simp add: queue_mids_def)
  have mk: "hydrating (set ks) (e_store e) s"
    if "o_packet_ids s = p" "flow_inv (o_flow s)" "holders (o_flow s) \<subseteq> out_mids (e_store e) - set ks - set (queue_mids (e_store e) s)"
      "o_sealed s = []" "o_parked s = {}" "o_pending_messages s = o_pending_messages (e_out e) + 1" "o_pending_bytes s = o_pending_bytes (e_out e) + om_logical_size m"
      "queue_mids (e_store e) s = queue_mids (e_store e) (e_out e) @ (if om_state m = QUEUED then [mid] else [])"
      "\<And>n. n \<in> set (o_queued s) \<Longrightarrow> entry_ok (e_store e) (e_out e) n" for s
    unfolding hydrating_def using that H(1,3,10,11) p w new m(5,7) ok [OF that(4)] by auto
  show ?thesis
  proof (cases "om_state m = QUEUED")
    case True
    have "hydrating (set ks) (e_store e) (?s\<lparr>o_queued := o_queued (e_out e) @ [Summary q]\<rparr>)"
      by (rule mk) (use True H se new in \<open>auto simp: queue_mids_def\<close>)
    with True m p(1) run oo show ?thesis by (simp add: hydrate_message_def wp_simps stored_logical_size_def)
  next
    case False
    have keep: "hydrating (set ks) (e_store e) ?s"
      by (rule mk) (use False H new in \<open>auto simp: queue_mids_def\<close>)
    obtain r' w' where run': "try_acquire mid (o_flow (e_out e)) = (r', w')" by fastforce
    have nh: "mid \<notin> holders (o_flow (e_out e))" "mid \<notin> set (queue_mids (e_store e) (e_out e))" using H(5,11) by auto
    note law = quota.acquire_law [OF H(4) run']
    have fl: "\<exists>b. r' = Inr b" "flow_inv w'" "holders w' \<subseteq> insert mid (holders (o_flow (e_out e)))"
      using law nh by (auto split: if_splits)
    have "hydrating (set ks) (e_store e) (?s\<lparr>o_flow := w'\<rparr>)"
      by (rule mk) (use False H new nh fl m in \<open>auto simp: queue_mids_def\<close>)
    with False m p(1) run run' fl keep oo show ?thesis by (auto simp: hydrate_message_def wp_simps stored_logical_size_def)
  qed
qed

lemma hydrate_ok:
  assumes inv: "store_inv (e_store e)" and range: "out_mids (e_store e) \<subseteq> {1..65535}" and new: "e_out e = new_outbound (e_config e)"
  shows "wp hydrate (\<lambda>_ e'. oinv {} (e_store e') (e_out e') {} \<and> only_out e e') (\<lambda>_ _. False) e"
proof -
  let ?J = "\<lambda>ks (u :: unit) e'. hydrating (set ks) (e_store e') (e_out e') \<and> distinct ks \<and> set ks \<subseteq> out_mids (e_store e') \<and> only_out e e'"
  have d: "distinct (map fst (out_tab (e_store e)))" using store_invD(1) [OF inv] by (simp add: tab_inv_def)
  have "wp hydrate (\<lambda>u. ?J [] u) (\<lambda>_ _. False) e"
    unfolding hydrate_def
  proof (rule wp_for_summaries [where J = ?J])
    have "orows.weight (out_mids (e_store e)) (e_store e) = 0" "orows.count (out_mids (e_store e)) (e_store e) = 0"
      by (simp_all add: orows.weight_def orows.count_def out_mids_dom)
    moreover have "{mid. row_state (e_store e) mid = Some QUEUED} \<subseteq> out_mids (e_store e)" by (auto simp: row_state_def out_mids_dom)
    ultimately have "hydrating (out_mids (e_store e)) (e_store e) (new_outbound (e_config e))"
      using inv mids.initial flow_inv_ops(1) by (auto simp: hydrating_def new_outbound_def queue_mids_def new_flow_def)
    then show "?J (map fst (out_tab (e_store e))) () e" using d by (auto simp: new out_mids_def)
  next
    fix mid ks u e1 q
    assume J: "?J (mid # ks) u e1" and q: "out_summary (e_store e1) mid = Some q"
    then have st: "e_store e1 = e_store e" by (auto simp: only_out_def)
    have "wp (hydrate_message q) (\<lambda>_ e'. hydrating (set ks) (e_store e') (e_out e') \<and> only_out e1 e') (\<lambda>_ _. False) e1"
      by (rule hydrate_message_ok [OF _ _ _ q]) (use J st range in auto)
    then show "wp (each hydrate_message q u) (\<lambda>u' e'. ?J ks u' e' \<and> (\<forall>k \<in> set ks. out_summary (e_store e') k = out_summary (e_store e1) k)) (\<lambda>_ _. False) e1"
      unfolding each_def by (rule wp_mono) (use J in \<open>auto simp: only_out_def\<close>)
  next
    fix mid ks u e1
    assume J: "?J (mid # ks) u e1" and gone: "mid \<notin> out_mids (e_store e1)"
    then show "?J ks u e1" by simp
  qed
  then show ?thesis by (rule wp_mono) (use hydrating_done in auto)
qed

subsection \<open>Replay of a resumed session\<close>

lemma validate_reads:
  assumes "Q () e" "\<And>x. E x e"
  shows "wp (validate_against_negotiated m) Q E e"
  proof -
  have "reads (validate_against_negotiated m)"
    unfolding validate_against_negotiated_def check_outbound_size_def by (intro reads_intros)
  then show ?thesis by (rule wp_reads) (use assms in simp_all)
qed

lemma check_session_replayable_ok:
  assumes "Q () e" "\<And>x. E x e"
  shows "wp check_session_replayable Q E e"
proof -
  have val: "wp (validate_replay q) Q' (\<lambda>_ e'. e' = e) e" if "Q' () e" for q Q'
    using that by (simp add: validate_replay_def wp_simps validate_reads)
  have "wp (for_summaries (each (\<lambda>q. swhen (b q) (validate_replay q))) ()) (\<lambda>_ e'. e' = e) (\<lambda>_ e'. e' = e) e" for b
    by (rule wp_for_summaries [where J = "\<lambda>_ _ e'. e' = e"]) (use val in \<open>auto simp: each_def wp_simps\<close>)
  then have "wp (for_summaries (each (\<lambda>q. swhen (b q) (validate_replay q))) ()) Q E e" for b
    by (rule wp_mono) (use assms in auto)
  with assms(1) show ?thesis by (simp add: check_session_replayable_def wp_simps Let_def)
qed

lemma oinv_shrink:
  assumes "oinv (insert mid P) st s subs" "row_state st mid \<noteq> Some QUEUED \<or> mid \<in> sealed_mids s \<or> mid \<in> set (queue_mids st s)"
  shows "oinv P st s subs"
proof (rule oinvI)
  show "row_state st k = Some QUEUED \<Longrightarrow> k \<notin> sealed_mids s \<Longrightarrow> k \<in> set (queue_mids st s) \<union> P" for k
    using oinvD(14) [OF assms(1), of k] assms(2) by auto
qed (fact oinvD [OF assms(1)])+

lemma oinv_restart:
  assumes inv: "oinv P st s subs" and s': "o_packet_ids s' = o_packet_ids s" "o_sealed s' = o_sealed s" "flow_inv (o_flow s')" "holders (o_flow s') = {}"
      "o_queued s' = []" "o_parked s' = {}" "o_pending_messages s' = o_pending_messages s" "o_pending_bytes s' = o_pending_bytes s"
  shows "oinv (out_mids st) st s' subs"
proof -
  have "row_state st mid = Some QUEUED \<Longrightarrow> mid \<in> out_mids st" for mid by (auto simp: row_state_def out_mids_dom)
  then show ?thesis using oinvD [OF inv] s' by (intro oinvI) (auto simp: sealed_mids_def queue_mids_def)
qed

text \<open>A stored publication joins the queue, parked when it was already sent once.\<close>

lemma oinv_enqueue:
  assumes inv: "oinv P st s subs" and q: "out_summary st mid = Some q" and new: "mid \<notin> sealed_mids s" "mid \<notin> set (queue_mids st s)" "mid \<notin> holders (o_flow s)"
    and s': "o_packet_ids s' = o_packet_ids s" "o_flow s' = o_flow s" "o_sealed s' = o_sealed s" "o_queued s' = o_queued s @ [Summary q]"
      "o_parked s' = (if os_state q = QUEUED then o_parked s else insert mid (o_parked s))"
      "o_pending_messages s' = o_pending_messages s" "o_pending_bytes s' = o_pending_bytes s"
  shows "oinv P st s' subs"
proof -
  note D = oinvD [OF inv]
  obtain m :: outbound_message where m: "os_state q = om_state m" "row_state st mid = Some (om_state m)" "mid \<in> out_mids st"
    by (rule summary_row [OF D(1) q], rule that)
  note se = summary_entry [OF D(1) q new(1)]
  have sealed: "sealed_mids s' = sealed_mids s" by (simp add: sealed_mids_def s')
  have qm: "queue_mids st s' = queue_mids st s @ [mid]" by (simp add: queue_mids_def s' se)
  show ?thesis
  proof (rule oinvI)
    show "n \<in> set (o_queued s') \<Longrightarrow> entry_ok st s' n" for n using D(12) [of n] se(2) by (auto simp: s' entry_ok_def sealed)
    show "o_parked s' = {k \<in> set (queue_mids st s'). row_state st k \<noteq> Some QUEUED}" using m by (auto simp: s' qm D(13))
    show "(k, b) \<in> set (o_sealed s') \<Longrightarrow> b \<longleftrightarrow> row_state st k \<noteq> Some QUEUED" for k b using D(15) by (simp add: s')
  qed (use D s' sealed new m in \<open>auto simp: qm\<close>)
qed

lemma oinv_hold:
  assumes inv: "oinv P st s subs" and new: "mid \<in> out_mids st" "mid \<notin> sealed_mids s" "mid \<notin> set (queue_mids st s)"
    and w: "flow_inv w" "holders w = insert mid (holders (o_flow s))"
  shows "oinv P st (s\<lparr>o_flow := w\<rparr>) subs"
  using oinvD [OF inv] new w by (intro oinvI) (auto simp: sealed_mids_def queue_mids_def entry_ok_def)

definition replaying :: "int list \<Rightarrow> engine \<Rightarrow> engine \<Rightarrow> bool" where
  "replaying ks e0 e \<longleftrightarrow> oinv (set ks) (e_store e) (e_out e) (sub_mids e0) \<and> distinct ks \<and> set ks \<subseteq> out_mids (e_store e)
     \<and> set ks \<inter> set (queue_mids (e_store e) (e_out e)) = {} \<and> set ks \<inter> holders (o_flow (e_out e)) = {} \<and> same_rest e0 e"

lemma replaying_next:
  assumes r: "replaying (mid # ks) e0 e" and inv: "oinv (set (mid # ks)) (e_store e') (e_out e') (sub_mids e0)" and rest: "same_rest e e'"
    and row: "row_state (e_store e') mid \<noteq> Some QUEUED \<or> mid \<in> sealed_mids (e_out e') \<or> mid \<in> set (queue_mids (e_store e') (e_out e'))"
    and sums: "\<And>k. k \<in> set ks \<Longrightarrow> out_summary (e_store e') k = out_summary (e_store e) k"
    and queue: "set (queue_mids (e_store e') (e_out e')) \<subseteq> insert mid (set (queue_mids (e_store e) (e_out e)))"
    and held: "holders (o_flow (e_out e')) \<subseteq> insert mid (holders (o_flow (e_out e)))"
  shows "replaying ks e0 e' \<and> (\<forall>k \<in> set ks. out_summary (e_store e') k = out_summary (e_store e) k)"
proof -
  have "oinv (set ks) (e_store e') (e_out e') (sub_mids e0)" using oinv_shrink [OF _ row] inv by simp
  moreover have "k \<in> out_mids (e_store e')" if "k \<in> set ks" for k
    using same_summary [OF sums [OF that]] r that by (auto simp: replaying_def)
  ultimately show ?thesis using r sums queue held same_rest_trans [OF _ rest] by (auto simp: replaying_def)
qed

lemma summary_other:
  assumes "store_inv st" "map_of (out_tab st) mid = Some a" "om_mid m' = mid" "om_logical_size m' = om_logical_size (out_heap st ! a)" "k \<noteq> mid"
  shows "out_summary (set_msg a m' st) k = out_summary st k" "out_summary (drop_row mid (set_msg a m' st)) k = out_summary st k"
    "row_state (set_msg a m' st) mid = Some (om_state m')"
  using set_msg_row(1,2) [OF assms(1-4)] drop_row_row(2) [OF set_msg_row(1) [OF assms(1-4)], of mid] assms(5)
  by (simp_all add: out_summary_def row_state_def)

text \<open>The three ways the replay of one row ends: it is queued, sent again or dropped.\<close>

lemma replaying_queued:
  assumes r: "replaying (mid # ks) e0 e" and q: "out_summary (e_store e) mid = Some q" and uns: "mid \<notin> sealed_mids (e_out e)"
    and s': "s' = (e_out e)\<lparr>o_parked := (if os_state q = QUEUED then o_parked (e_out e) else insert mid (o_parked (e_out e))),
      o_queued := o_queued (e_out e) @ [Summary q]\<rparr>"
  shows "replaying ks e0 (e\<lparr>e_out := s'\<rparr>) \<and> (\<forall>k \<in> set ks. out_summary (e_store (e\<lparr>e_out := s'\<rparr>)) k = out_summary (e_store e) k)"
proof -
  have inv: "oinv (set (mid # ks)) (e_store e) (e_out e) (sub_mids e0)" and new: "mid \<notin> set (queue_mids (e_store e) (e_out e))" "mid \<notin> holders (o_flow (e_out e))"
    using r by (auto simp: replaying_def)
  have qm: "queue_mids (e_store e) s' = queue_mids (e_store e) (e_out e) @ [mid]"
    using summary_entry(1) [OF oinvD(1) [OF inv] q uns] by (simp add: queue_mids_def s')
  have "oinv (set (mid # ks)) (e_store e) s' (sub_mids e0)" by (rule oinv_enqueue [OF inv q uns new]) (simp_all add: s')
  moreover have "o_flow s' = o_flow (e_out e)" by (simp add: s')
  ultimately show ?thesis by (intro replaying_next [OF r]) (auto simp: qm same_rest_def)
qed

lemma replaying_sent:
  assumes r: "replaying (mid # ks) e0 e" and addr: "map_of (out_tab (e_store e)) mid = Some a" and uns: "mid \<notin> sealed_mids (e_out e)"
    and old: "om_state (out_heap (e_store e) ! a) \<noteq> QUEUED" and w: "flow_inv w" "holders w \<in> {holders (o_flow (e_out e)), insert mid (holders (o_flow (e_out e)))}"
    and t: "touched a (e\<lparr>e_out := (e_out e)\<lparr>o_flow := w\<rparr>\<rparr>) e'" "om_state (out_heap (e_store e') ! a) = om_state (out_heap (e_store e) ! a)"
  shows "replaying ks e0 e' \<and> (\<forall>k \<in> set ks. out_summary (e_store e') k = out_summary (e_store e) k)"
proof -
  have inv: "oinv (set (mid # ks)) (e_store e) (e_out e) (sub_mids e0)" and new: "mid \<notin> set (queue_mids (e_store e) (e_out e))" "mid \<notin> set ks"
    using r by (auto simp: replaying_def)
  note D = oinvD [OF inv]
  note ta = tab_inv_addr [OF store_invD(1) [OF D(1)] addr]
  obtain m' al eff where m': "om_mid m' = mid" "om_logical_size m' = om_logical_size (out_heap (e_store e) ! a)" "list_all is_send eff"
    "e' = touch a m' al eff (e\<lparr>e_out := (e_out e)\<lparr>o_flow := w\<rparr>\<rparr>)" using t(1) ta(2) by (auto simp: touched_def)
  have st: "om_state m' \<noteq> QUEUED" using t(2) old ta(1) by (simp add: m'(4) touch_def set_msg_def)
  have mid: "mid \<in> out_mids (e_store e)" using addr by (force simp: out_mids_def dest: map_of_SomeD)
  have held: "oinv (set (mid # ks)) (e_store e) ((e_out e)\<lparr>o_flow := w\<rparr>) (sub_mids e0)"
  proof (cases "holders w = holders (o_flow (e_out e))")
    case True
    show ?thesis by (rule oinv_same [OF inv]) (use D(2) w True in simp_all)
  next
    case False
    with w oinv_hold [OF inv mid uns new(1)] show ?thesis by auto
  qed
  let ?s = "(e_out e)\<lparr>o_flow := w, o_topic_aliases := al\<rparr>"
  have flt: "filter (\<lambda>n. entry_mid (e_store e) n \<noteq> mid) (o_queued (e_out e)) = o_queued (e_out e)"
    using new(1) by (auto simp: queue_mids_def filter_id_conv)
  have par: "o_parked (e_out e) - {mid} = o_parked (e_out e)" using D(13) new(1) by auto
  have inv': "oinv (set (mid # ks)) (set_msg a m' (e_store e)) ?s (sub_mids e0)"
    by (rule oinv_advance [OF held addr old m'(1,2) st]) (simp_all add: flt par)
  have emid: "entry_mid (set_msg a m' (e_store e)) n = entry_mid (e_store e) n" if "n \<in> set (o_queued (e_out e))" for n
    by (rule entry_view_set_msg(1) [OF D(1) D(12) [OF that] addr m'(1)])
  have qm: "queue_mids (set_msg a m' (e_store e)) ?s = queue_mids (e_store e) (e_out e)" using emid by (simp add: queue_mids_def)
  note so = summary_other [OF D(1) addr m'(1,2)]
  have e': "e' = e\<lparr>e_store := set_msg a m' (e_store e), e_effects := e_effects e @ eff, e_out := ?s\<rparr>" by (simp add: m'(4) touch_def)
  show ?thesis
  proof (rule replaying_next [OF r])
    show "oinv (set (mid # ks)) (e_store e') (e_out e') (sub_mids e0)" using inv' by (simp add: e')
    show "same_rest e e'" using outbound_sends [OF m'(3)] by (simp add: e' same_rest_def)
    show "row_state (e_store e') mid \<noteq> Some QUEUED \<or> mid \<in> sealed_mids (e_out e') \<or> mid \<in> set (queue_mids (e_store e') (e_out e'))"
      using so(3) [of "mid + 1"] st by (simp add: e')
    show "out_summary (e_store e') k = out_summary (e_store e) k" if "k \<in> set ks" for k using so(1) [of k] that new(2) by (auto simp: e')
  qed (use w in \<open>auto simp: e' qm\<close>)
qed

lemma replaying_dropped:
  assumes r: "replaying (mid # ks) e0 e" and q: "out_summary (e_store e) mid = Some q" and uns: "mid \<notin> sealed_mids (e_out e)"
    and addr: "map_of (out_tab (e_store e)) mid = Some a"
    and w: "flow_inv w" "holders w = holders (o_flow (e_out e))"
    and m': "om_mid m' = mid" "om_logical_size m' = om_logical_size (out_heap (e_store e) ! a)" and eff: "list_all is_send eff"
  shows "wp (drop_failed q exc) (\<lambda>_ e'. replaying ks e0 e' \<and> (\<forall>k \<in> set ks. out_summary (e_store e') k = out_summary (e_store e) k)) (\<lambda>_ _. False)
    (touch a m' al eff (e\<lparr>e_out := (e_out e)\<lparr>o_flow := w\<rparr>\<rparr>))"
proof -
  have inv: "oinv (set (mid # ks)) (e_store e) (e_out e) (sub_mids e0)" and new: "mid \<notin> set (queue_mids (e_store e) (e_out e))" "mid \<notin> set ks" "mid \<notin> holders (o_flow (e_out e))"
    using r by (auto simp: replaying_def)
  note D = oinvD [OF inv]
  have q': "os_mid q = mid" "os_logical_size q = om_logical_size (out_heap (e_store e) ! a)"
  proof -
    obtain m where "out_row (e_store e) mid = Some m" "os_mid q = mid" "os_logical_size q = om_logical_size m" by (rule summary_row [OF D(1) q], rule that)
    with out_row_addr [OF addr] show "os_mid q = mid" "os_logical_size q = om_logical_size (out_heap (e_store e) ! a)" by simp_all
  qed
  note bud = oinv_budget [OF inv addr uns]
  have mid: "mid \<in> out_mids (e_store e)" using addr by (force simp: out_mids_def dest: map_of_SomeD)
  have flt: "filter (\<lambda>n. entry_mid (e_store e) n \<noteq> mid) (o_queued (e_out e)) = o_queued (e_out e)"
    using new(1) by (auto simp: queue_mids_def filter_id_conv)
  let ?s = "(e_out e)\<lparr>o_flow := w, o_topic_aliases := al, o_high_messages := max (o_high_messages (e_out e)) (o_pending_messages (e_out e)),
    o_high_bytes := max (o_high_bytes (e_out e)) (o_pending_bytes (e_out e)), o_pending_messages := o_pending_messages (e_out e) - 1,
    o_pending_bytes := o_pending_bytes (e_out e) - om_logical_size (out_heap (e_store e) ! a), o_packet_ids := release mid (o_packet_ids (e_out e))\<rparr>"
  let ?st = "drop_row mid (set_msg a m' (e_store e))"
  let ?e = "e\<lparr>e_store := ?st, e_out := ?s, e_effects := e_effects e @ eff @ [EffPublishFailed mid (Raised exc)]\<rparr>"
  have inv': "oinv (set (mid # ks)) ?st ?s (sub_mids e0)"
    by (rule oinv_drop [OF inv addr uns m']) (use mids.free_law [OF D(2), of mid] w new D(13) flt in auto)
  have emid: "entry_mid (set_msg a m' (e_store e)) n = entry_mid (e_store e) n" if "n \<in> set (o_queued (e_out e))" for n
    by (rule entry_view_set_msg(1) [OF D(1) D(12) [OF that] addr m'(1)])
  have qm: "queue_mids ?st ?s = queue_mids (e_store e) (e_out e)" using emid by (simp add: queue_mids_def)
  have fin: "replaying ks e0 ?e \<and> (\<forall>k \<in> set ks. out_summary (e_store ?e) k = out_summary (e_store e) k)"
  proof (rule replaying_next [OF r])
    show "oinv (set (mid # ks)) (e_store ?e) (e_out ?e) (sub_mids e0)" using inv' by simp
    show "same_rest e ?e" using outbound_sends [OF eff] mid by (auto simp: same_rest_def outbound_effect_def)
    show "row_state (e_store ?e) mid \<noteq> Some QUEUED \<or> mid \<in> sealed_mids (e_out ?e) \<or> mid \<in> set (queue_mids (e_store ?e) (e_out ?e))"
      using drop_row_row(3) [OF set_msg_row(1) [OF D(1) addr m']] by simp
    show "out_summary (e_store ?e) k = out_summary (e_store e) k" if "k \<in> set ks" for k
      using summary_other(2) [OF D(1) addr m', of k] that new(2) by auto
  qed (use w in \<open>auto simp: qm\<close>)
  show ?thesis
    using fin bud by (simp add: drop_failed_def wp_simps discard_record_ok touch_def entry_view_def q')
qed

lemma replay_message_ok:
  assumes r: "replaying (mid # ks) e0 e" and q: "out_summary (e_store e) mid = Some q"
  shows "wp (replay_message q) (\<lambda>_ e'. replaying ks e0 e' \<and> (\<forall>k \<in> set ks. out_summary (e_store e') k = out_summary (e_store e) k))
    (\<lambda>_ e'. replaying (mid # ks) e0 e') e"
proof -
  let ?Q = "\<lambda>e'. replaying ks e0 e' \<and> (\<forall>k \<in> set ks. out_summary (e_store e') k = out_summary (e_store e) k)"
  have inv: "oinv (set (mid # ks)) (e_store e) (e_out e) (sub_mids e0)" and new: "mid \<notin> set (queue_mids (e_store e) (e_out e))" "mid \<notin> holders (o_flow (e_out e))"
    using r by (auto simp: replaying_def)
  note D = oinvD [OF inv]
  obtain m where m: "out_row (e_store e) mid = Some m" "os_mid q = mid" "os_state q = om_state m" by (rule summary_row [OF D(1) q], rule that)
  then obtain a where a: "map_of (out_tab (e_store e)) mid = Some a" "m = out_heap (e_store e) ! a" using row_addr by blast
  have lt: "a < length (out_heap (e_store e))" using store_addr [OF D(1) a(1)] .
  show ?thesis
  proof (cases "mid \<in> sealed_mids (e_out e)")
    case True
    have "?Q e" by (rule replaying_next [OF r inv]) (use True in auto)
    with True m show ?thesis by (simp add: replay_message_def wp_simps sealed_mids_def)
  next
    case uns: False
    then have ns: "os_mid q \<notin> fst ` set (o_sealed (e_out e))" by (simp add: m sealed_mids_def)
    have self: "touch a m (o_topic_aliases (e_out e)) [] (e\<lparr>e_out := (e_out e)\<lparr>o_flow := o_flow (e_out e)\<rparr>\<rparr>) = e" by (simp add: touch_def set_msg_def a(2))
    have send: "wp (scatch (sbind (materialize (Summary q)) retransmit) h) (\<lambda>_. ?Q) E e1"
      if e1: "e1 = e\<lparr>e_out := (e_out e)\<lparr>o_flow := w\<rparr>\<rparr>" and w: "flow_inv w" "holders w \<in> {holders (o_flow (e_out e)), insert mid (holders (o_flow (e_out e)))}"
        and nq: "om_state m \<noteq> QUEUED" and h: "\<And>x e2. touched a e1 e2 \<Longrightarrow> wp (h x) (\<lambda>_. ?Q) E e2" for h E e1 w
    proof -
      have "wp (retransmit a) (\<lambda>_. ?Q) (\<lambda>x. wp (h x) (\<lambda>_. ?Q) E) e1"
      proof (rule wp_mono, rule retransmit_touches)
        show "a < length (out_heap (e_store e1))" using lt by (simp add: e1)
        fix u e2 assume "touched a e1 e2 \<and> om_state (out_heap (e_store e2) ! a) = om_state (out_heap (e_store e1) ! a)"
        then show "?Q e2" using replaying_sent [OF r a(1) uns _ w, of e2] nq by (simp add: e1 a(2))
      qed (rule h)
      then show ?thesis using a(1) by (simp add: wp_simps materialize_def m get_out_def e1)
    qed
    have drop: "wp (drop_failed q x) (\<lambda>_. ?Q) E (e2\<lparr>e_out := (e_out e2)\<lparr>o_flow := f (o_flow (e_out e2))\<rparr>\<rparr>)"
      if t: "touched a (e\<lparr>e_out := (e_out e)\<lparr>o_flow := w\<rparr>\<rparr>) e2" and w: "flow_inv (f w)" "holders (f w) = holders (o_flow (e_out e))" for x e2 w f E
    proof -
      obtain m' al eff where m': "om_mid m' = mid" "om_logical_size m' = om_logical_size (out_heap (e_store e) ! a)" "list_all is_send eff"
        "e2 = touch a m' al eff (e\<lparr>e_out := (e_out e)\<lparr>o_flow := w\<rparr>\<rparr>)" using t row_mid(1) [OF D(1) m(1)] by (auto simp: touched_def a(2))
      have e2: "e2\<lparr>e_out := (e_out e2)\<lparr>o_flow := f (o_flow (e_out e2))\<rparr>\<rparr> = touch a m' al eff (e\<lparr>e_out := (e_out e)\<lparr>o_flow := f w\<rparr>\<rparr>)"
        by (simp add: m'(4) touch_def)
      show ?thesis unfolding e2 by (rule wp_mono, rule replaying_dropped [OF r q uns a(1) w m'(1-3)]) auto
    qed
    have self: "e = e\<lparr>e_out := (e_out e)\<lparr>o_flow := o_flow (e_out e)\<rparr>\<rparr>" by simp
    have drop0: "wp (drop_failed q x) (\<lambda>_. ?Q) E e2" if "touched a e e2" for x e2 E
      using drop [of "o_flow (e_out e)" e2 "\<lambda>w. w" x E] that D(5) by simp
    consider "om_state m = QUEUED" | "om_state m = WAIT_PUBCOMP" | "om_state m \<noteq> QUEUED" "om_state m \<noteq> WAIT_PUBCOMP" by blast
    then show ?thesis
    proof cases
      case 1
      have ok: "?Q (e\<lparr>e_out := (e_out e)\<lparr>o_queued := o_queued (e_out e) @ [Summary q]\<rparr>\<rparr>)"
        using replaying_queued [OF r q uns refl] 1 m(3) by simp
      have "wp (validate_against_negotiated (Summary q)) (\<lambda>_ e'. ?Q (e'\<lparr>e_out := (e_out e')\<lparr>o_queued := o_queued (e_out e') @ [Summary q]\<rparr>\<rparr>))
          (\<lambda>x. if is_protocol_error x then wp (drop_failed q x) (\<lambda>_. ?Q) (\<lambda>_ e'. replaying (mid # ks) e0 e') else replaying (mid # ks) e0) e"
        by (rule validate_reads) (use ok drop0 touched_shapes(1) r in auto)
      with 1 ns m show ?thesis
        by (simp add: replay_message_def wp_simps if_distrib [of "\<lambda>m. wp m _ _ _"] cong: if_cong) (erule wp_mono, simp, simp split: if_splits)
    next
      case 2
      have "wp (scatch (sbind (materialize (Summary q)) retransmit) (drop_failed q)) (\<lambda>_. ?Q) (\<lambda>_ e'. replaying (mid # ks) e0 e') e"
        by (rule send [OF self D(5)]) (use 2 drop0 in auto)
      with 2 ns m show ?thesis by (simp add: replay_message_def wp_simps)
    next
      case 3
      obtain r' w where run: "try_acquire mid (o_flow (e_out e)) = (r', w)" by fastforce
      note law = quota.acquire_law [OF D(5) run]
      show ?thesis
      proof (cases "int (card (holders (o_flow (e_out e)))) \<ge> flow_limit (o_flow (e_out e))")
        case True
        with law have "r' = Inr False" "w = o_flow (e_out e)" by simp_all
        with replaying_queued [OF r q uns refl] 3 ns m run show ?thesis by (simp add: replay_message_def wp_simps)
      next
        case False
        with law new(2) have w: "r' = Inr True" "flow_inv w" "holders w = insert mid (holders (o_flow (e_out e)))" by auto
        let ?e1 = "e\<lparr>e_out := (e_out e)\<lparr>o_flow := w\<rparr>\<rparr>"
        have fr: "flow_inv (snd (flow_release mid w))" "holders (snd (flow_release mid w)) = holders (o_flow (e_out e))"
          using flow_release_holders [OF w(2), of mid] w(3) new(2) by auto
        have "wp (scatch (sbind (materialize (Summary q)) retransmit) (\<lambda>x. sthen (free_flow mid) (drop_failed q x))) (\<lambda>_. ?Q) (\<lambda>_ e'. replaying (mid # ks) e0 e') ?e1"
          by (rule send [OF refl w(2)]) (use 3 w(3) drop [where f = "\<lambda>w. snd (flow_release mid w)", OF _ fr] in \<open>auto simp: wp_simps\<close>)
        with 3 ns m run w(1) show ?thesis by (simp add: replay_message_def wp_simps)
      qed
    qed
  qed
qed

lemma wp_reset_flow [wp_simps]:
  "wp reset_flow_for_connection Q E = (\<lambda>e. Q () (e\<lparr>e_out := (e_out e)\<lparr>o_flow :=
     apply_broker_receive_maximum (receive_maximum (e_negotiated e)) (max_outbound_inflight (e_config e)) (flow_reset (o_flow (e_out e)))\<rparr>\<rparr>))"
  by (rule ext) (simp add: reset_flow_for_connection_def wp_simps)

lemma reset_flow_inv:
  assumes "flow_inv f"
  shows "flow_inv (apply_broker_receive_maximum r c (flow_reset f))" "holders (apply_broker_receive_maximum r c (flow_reset f)) = {}"
  using flow_inv_ops(3,4) assms by (simp_all add: apply_broker_receive_maximum_def flow_reset_def Let_def)

lemma out_replay_session_ok:
  assumes inv: "oinv P (e_store e) (e_out e) (sub_mids e)"
  shows "wp out_replay_session (\<lambda>_ e'. oinv {} (e_store e') (e_out e') (sub_mids e) \<and> same_rest e e'
        \<and> (o_queued (e_out e') = [] \<or> flow_available (o_flow (e_out e')) = 0))
      (\<lambda>_ e'. \<exists>P. oinv P (e_store e') (e_out e') (sub_mids e) \<and> same_rest e e') e"
proof -
  note D = oinvD [OF inv]
  let ?w = "apply_broker_receive_maximum (receive_maximum (e_negotiated e)) (max_outbound_inflight (e_config e)) (flow_reset (o_flow (e_out e)))"
  let ?s = "(e_out e)\<lparr>o_flow := ?w, o_queued := [], o_parked := {}\<rparr>"
  let ?E = "\<lambda>_ e'. \<exists>P. oinv P (e_store e') (e_out e') (sub_mids e) \<and> same_rest e e'"
  have d: "distinct (map fst (out_tab (e_store e)))" using store_invD(1) [OF D(1)] by (simp add: tab_inv_def)
  have "oinv (out_mids (e_store e)) (e_store e) ?s (sub_mids e)"
    by (rule oinv_restart [OF inv]) (use reset_flow_inv [OF D(5)] in auto)
  then have start: "replaying (map fst (out_tab (e_store e))) e (e\<lparr>e_out := ?s\<rparr>)"
    using d reset_flow_inv(2) [OF D(5)] by (simp add: replaying_def out_mids_def queue_mids_def same_rest_def)
  have "wp (for_summaries (each replay_message) ()) (\<lambda>u. replaying [] e) ?E (e\<lparr>e_out := ?s\<rparr>)"
  proof (rule wp_for_summaries [where J = "\<lambda>ks u. replaying ks e"])
    show "replaying (map fst (out_tab (e_store (e\<lparr>e_out := ?s\<rparr>)))) e (e\<lparr>e_out := ?s\<rparr>)" using start by simp
  next
    fix mid ks u e1 q
    assume r: "replaying (mid # ks) e e1" and q: "out_summary (e_store e1) mid = Some q"
    show "wp (each replay_message q u) (\<lambda>u' e'. replaying ks e e' \<and> (\<forall>k \<in> set ks. out_summary (e_store e') k = out_summary (e_store e1) k)) ?E e1"
      unfolding each_def by (rule wp_mono, rule replay_message_ok [OF r q]) (auto simp: replaying_def)
  qed (simp add: replaying_def)
  then have "wp (for_summaries (each replay_message) ()) (\<lambda>u. wp drain (\<lambda>_ e'. oinv {} (e_store e') (e_out e') (sub_mids e) \<and> same_rest e e'
        \<and> (o_queued (e_out e') = [] \<or> flow_available (o_flow (e_out e')) = 0)) ?E) ?E (e\<lparr>e_out := ?s\<rparr>)"
  proof (rule wp_mono)
    fix u e1
    assume r: "replaying [] e e1"
    then have i: "oinv {} (e_store e1) (e_out e1) (sub_mids e)" and sr: "same_rest e e1" by (simp_all add: replaying_def)
    show "wp drain (\<lambda>_ e'. oinv {} (e_store e') (e_out e') (sub_mids e) \<and> same_rest e e' \<and> (o_queued (e_out e') = [] \<or> flow_available (o_flow (e_out e')) = 0)) ?E e1"
      by (rule wp_mono, rule drain_ok [OF i]) (use same_rest_trans [OF sr] in auto)
  qed
  then show ?thesis by (simp add: out_replay_session_def wp_simps)
qed

subsection \<open>A lost session\<close>

lemma oinv_unpark_all:
  assumes inv: "oinv P st s subs" and s': "o_packet_ids s' = o_packet_ids s" "o_sealed s' = o_sealed s" "flow_inv (o_flow s')" "holders (o_flow s') = {}"
      "o_queued s' = filter (\<lambda>m. os_state (entry_view st m) = QUEUED) (o_queued s)" "o_parked s' = {}"
      "o_pending_messages s' = o_pending_messages s" "o_pending_bytes s' = o_pending_bytes s"
  shows "oinv P st s' subs"
proof -
  note D = oinvD [OF inv]
  have st: "row_state st (entry_mid st m) = Some (os_state (entry_view st m))" if m: "m \<in> set (o_queued s)" for m
  proof -
    obtain a where "map_of (out_tab st) (entry_mid st m) = Some a" "os_state (entry_view st m) = om_state (out_heap st ! a)"
      by (rule oinv_entry [OF inv m], rule that)
    then show ?thesis by (simp add: row_state_def out_row_addr)
  qed
  have sealed: "sealed_mids s' = sealed_mids s" by (simp add: sealed_mids_def s')
  have qs: "filter (\<lambda>m. os_state (entry_view st m) = QUEUED) (o_queued s) = filter (\<lambda>m. row_state st (entry_mid st m) = Some QUEUED) (o_queued s)"
    using st by (intro filter_cong) auto
  have qm: "queue_mids st s' = filter (\<lambda>k. row_state st k = Some QUEUED) (queue_mids st s)" by (simp add: queue_mids_def s'(5) qs filter_map o_def)
  show ?thesis
  proof (rule oinvI)
    show "n \<in> set (o_queued s') \<Longrightarrow> entry_ok st s' n" for n using D(12) [of n] by (auto simp: s' entry_ok_def sealed)
    show "row_state st k = Some QUEUED \<Longrightarrow> k \<notin> sealed_mids s' \<Longrightarrow> k \<in> set (queue_mids st s') \<union> P" for k
      using D(14) [of k] by (auto simp: qm sealed)
    show "(k, b) \<in> set (o_sealed s') \<Longrightarrow> b \<longleftrightarrow> row_state st k \<noteq> Some QUEUED" for k b using D(15) by (simp add: s')
  qed (use D s' sealed in \<open>auto simp: qm\<close>)
qed

text \<open>A row goes back to the queue in its first phase.\<close>

lemma oinv_requeue:
  assumes inv: "oinv P st s subs" and addr: "map_of (out_tab st) mid = Some a" and queue: "o_queued s = xs @ ys"
    and new: "mid \<notin> sealed_mids s" "mid \<notin> set (queue_mids st s)" "mid \<notin> holders (o_flow s)"
    and m': "om_mid m' = mid" "om_logical_size m' = om_logical_size (out_heap st ! a)" "om_state m' = QUEUED"
    and n: "os_mid q = mid" "os_state q = QUEUED" "os_logical_size q = om_logical_size (out_heap st ! a)"
    and s': "o_packet_ids s' = o_packet_ids s" "o_flow s' = o_flow s" "o_sealed s' = o_sealed s" "o_queued s' = xs @ Summary q # ys" "o_parked s' = o_parked s"
      "o_pending_messages s' = o_pending_messages s" "o_pending_bytes s' = o_pending_bytes s"
  shows "oinv P (set_msg a m' st) s' subs"
proof -
  note D = oinvD [OF inv]
  let ?st = "set_msg a m' st"
  note row = set_msg_row [OF D(1) addr m'(1,2)]
  have lt: "a < length (out_heap st)" by (rule store_addr [OF D(1) addr])
  have sealed: "sealed_mids s' = sealed_mids s" by (simp add: sealed_mids_def s')
  have other: "entry_ok ?st s' k" "entry_mid ?st k = entry_mid st k" if "k \<in> set (o_queued s)" for k
  proof -
    have ne: "entry_mid st k \<noteq> mid" using that new(2) by (auto simp: queue_mids_def)
    show "entry_ok ?st s' k" "entry_mid ?st k = entry_mid st k"
      by (rule entry_ok_other [OF D(1) D(12) [OF that] addr m'(1) ne]; use sealed in \<open>auto simp: set_msg_def\<close>)+
  qed
  have nm: "entry_mid ?st (Summary q) = mid" by (simp add: entry_mid_def entry_view_def n)
  have nok: "entry_ok ?st s' (Summary q)" unfolding entry_ok_def nm using addr lt new(1) n m' by (simp add: sealed set_msg_def)
  have old: "map (entry_mid ?st) xs = map (entry_mid st) xs" "map (entry_mid ?st) ys = map (entry_mid st) ys"
    using other(2) by (simp_all add: queue)
  have qold: "queue_mids st s = map (entry_mid st) xs @ map (entry_mid st) ys" by (simp add: queue_mids_def queue)
  have qm: "queue_mids ?st s' = map (entry_mid st) xs @ mid # map (entry_mid st) ys" by (simp add: queue_mids_def s' nm old)
  have rs: "row_state ?st k = (if k = mid then Some QUEUED else row_state st k)" for k by (simp add: row_state_def row m'(3))
  have mid: "mid \<in> out_mids st" using addr by (force simp: out_mids_def dest: map_of_SomeD)
  show ?thesis
  proof (rule oinvI)
    show "holders (o_flow s') \<subseteq> out_mids ?st - sealed_mids s' - set (queue_mids ?st s')" using D(6) new by (auto simp: s' sealed qm qold)
    show "distinct (queue_mids ?st s')" using D(11) new(2) by (auto simp: qm qold)
    show "k \<in> set (o_queued s') \<Longrightarrow> entry_ok ?st s' k" for k using other(1) nok by (auto simp: s' queue)
    show "o_parked s' = {k \<in> set (queue_mids ?st s'). row_state ?st k \<noteq> Some QUEUED}" using new(2) by (auto simp: s' D(13) qm qold rs)
    show "row_state ?st k = Some QUEUED \<Longrightarrow> k \<notin> sealed_mids s' \<Longrightarrow> k \<in> set (queue_mids ?st s') \<union> P" for k
      using D(14) [of k] by (auto simp: rs qm qold sealed split: if_splits)
    show "(k, b) \<in> set (o_sealed s') \<Longrightarrow> b \<longleftrightarrow> row_state ?st k \<noteq> Some QUEUED" for k b
      using D(15) [of k b] new(1) by (auto simp: s' rs sealed_mids_def image_iff)
  qed (use D row s' sealed in simp_all)
qed

text \<open>The session as the end of the purge leaves it, with the send window reset as the caller does next.\<close>

definition purged :: "queue_entry list \<times> int list \<Rightarrow> outbound_session \<Rightarrow> outbound_session" where
  "purged acc s = s\<lparr>o_queued := fst acc @ o_queued s, o_packet_ids := fold release (snd acc) (o_packet_ids s), o_flow := flow_reset (o_flow s)\<rparr>"

definition purging :: "int set \<Rightarrow> int list \<Rightarrow> queue_entry list \<times> int list \<Rightarrow> engine \<Rightarrow> engine \<Rightarrow> bool" where
  "purging P ks acc e0 e \<longleftrightarrow> oinv P (e_store e) (purged acc (e_out e)) (sub_mids e0) \<and> distinct ks \<and> set ks \<subseteq> out_mids (e_store e)
     \<and> o_parked (e_out e) = {} \<and> (\<forall>mid \<in> out_mids (e_store e) - set ks. row_state (e_store e) mid = Some QUEUED) \<and> same_rest e0 e"

lemma purging_next:
  assumes r: "purging P (mid # ks) acc e0 e" and inv: "oinv P (e_store e') (purged acc' (e_out e')) (sub_mids e0)" and rest: "same_rest e e'"
    and row: "row_state (e_store e') mid \<in> {None, Some QUEUED}" and sums: "\<And>k. k \<noteq> mid \<Longrightarrow> out_summary (e_store e') k = out_summary (e_store e) k"
    and parked: "o_parked (e_out e') = {}"
  shows "purging P ks acc' e0 e' \<and> (\<forall>k \<in> set ks. out_summary (e_store e') k = out_summary (e_store e) k)"
proof -
  have ne: "mid \<notin> set ks" using r by (simp add: purging_def)
  have rs: "row_state st k = map_option os_state (out_summary st k)" for st k by (simp add: row_state_def out_summary_def from_message_def option.map_comp o_def)
  have "row_state (e_store e') k = Some QUEUED" if "k \<in> out_mids (e_store e') - set ks" for k
  proof (cases "k = mid")
    case True
    with row that show ?thesis by auto
  next
    case False
    then have "row_state (e_store e') k = row_state (e_store e) k" by (simp add: rs sums)
    moreover have "k \<in> out_mids (e_store e)" using same_summary [OF sums [OF False]] that by auto
    ultimately show ?thesis using r that False by (auto simp: purging_def)
  qed
  moreover have "k \<in> out_mids (e_store e')" if "k \<in> set ks" for k
    using same_summary [OF sums, of k] ne r that by (auto simp: purging_def)
  moreover have "out_summary (e_store e') k = out_summary (e_store e) k" if "k \<in> set ks" for k using sums that ne by metis
  ultimately show ?thesis using r inv parked same_rest_trans [OF _ rest] by (auto simp: purging_def)
qed

lemma purge_message_ok:
  assumes r: "purging P (mid # ks) acc e0 e" and q: "out_summary (e_store e) mid = Some q"
  shows "wp (purge_message q acc) (\<lambda>acc' e'. purging P ks acc' e0 e' \<and> (\<forall>k \<in> set ks. out_summary (e_store e') k = out_summary (e_store e) k)) (\<lambda>_ _. False) e"
proof -
  obtain resent released where acc: "acc = (resent, released)" by (cases acc)
  let ?s = "e_out e" and ?v = "purged acc (e_out e)"
  have inv: "oinv P (e_store e) ?v (sub_mids e0)" and parked: "o_parked ?s = {}" using r by (auto simp: purging_def)
  note D = oinvD [OF inv]
  obtain m where m: "out_row (e_store e) mid = Some m" "os_mid q = mid" "os_state q = om_state m" "os_logical_size q = om_logical_size m"
    "row_state (e_store e) mid = Some (om_state m)" by (rule summary_row [OF D(1) q], rule that)
  obtain a where a: "map_of (out_tab (e_store e)) mid = Some a" "m = out_heap (e_store e) ! a" using row_addr m(1) by blast
  have mm: "om_mid m = mid" by (rule row_mid(1) [OF D(1) m(1)])
  have mid: "mid \<in> out_mids (e_store e)" using m(1) by (auto simp: out_mids_dom)
  have sl: "sealed_mids ?v = sealed_mids ?s" by (simp add: purged_def sealed_mids_def)
  have same: "set_msg a m (e_store e) = e_store e" by (simp add: set_msg_def a(2))
  have pool: "pool_inv (release mid (o_packet_ids ?v))" "used (release mid (o_packet_ids ?v)) = used (o_packet_ids ?v) - {mid}"
    using mids.free_law [OF D(2), of mid] by simp_all
  have vp: "o_packet_ids ?v = fold release released (o_packet_ids ?s)" by (simp add: purged_def acc)
  note gone = drop_row_row [OF D(1), of mid]
  have dsum: "out_summary (drop_row mid (e_store e)) k = out_summary (e_store e) k" if "k \<noteq> mid" for k
    using that by (simp add: out_summary_def gone)
  show ?thesis
  proof (cases "om_state m = QUEUED")
    case True
    have "purging P ks acc e0 e" using r m(5) True by (auto simp: purging_def)
    with True m show ?thesis by (simp add: purge_message_def wp_simps acc)
  next
    case nq: False
    have unq: "mid \<notin> set (queue_mids (e_store e) ?v)" using D(13) m(5) nq parked by (auto simp: purged_def)
    have flt: "filter (\<lambda>n. entry_mid (e_store e) n \<noteq> mid) (o_queued ?v) = o_queued ?v" using unq by (auto simp: queue_mids_def filter_id_conv)
    show ?thesis
    proof (cases "mid \<in> sealed_mids ?s")
      case sealed: True
      let ?e = "e\<lparr>e_out := ?s\<lparr>o_sealed := AList.delete mid (o_sealed ?s)\<rparr>, e_store := drop_row mid (e_store e)\<rparr>"
      have v': "purged (resent, released @ [mid]) (e_out ?e) = ?v\<lparr>o_sealed := AList.delete mid (o_sealed ?s), o_packet_ids := release mid (o_packet_ids ?v)\<rparr>"
        by (simp add: purged_def acc)
      have "oinv P (drop_row mid (e_store e)) (?v\<lparr>o_sealed := AList.delete mid (o_sealed ?s), o_packet_ids := release mid (o_packet_ids ?v)\<rparr>) (sub_mids e0)"
        by (rule oinv_drop_sealed [OF inv]) (use sealed sl pool in \<open>simp_all add: purged_def\<close>)
      then have "purging P ks (resent, released @ [mid]) e0 ?e \<and> (\<forall>k \<in> set ks. out_summary (e_store ?e) k = out_summary (e_store e) k)"
        by (intro purging_next [OF r]) (use v' dsum gone parked in \<open>simp_all add: same_rest_def\<close>)
      with sealed nq m show ?thesis by (simp add: purge_message_def wp_simps acc delete_out_eq sealed_mids_def)
    next
      case uns: False
      have uns': "mid \<notin> sealed_mids ?v" using uns sl by simp
      show ?thesis
      proof (cases "om_state m = WAIT_PUBACK")
        case True
        let ?m = "m\<lparr>om_state := QUEUED\<rparr>" and ?q = "q\<lparr>os_state := QUEUED\<rparr>"
        let ?st = "set_msg a ?m (e_store e)"
        have tr: "transition_out mid WAIT_PUBACK QUEUED False (e_store e) = (Some \<lparr>orm_mid = mid, orm_state = QUEUED, orm_logical_size = om_logical_size m\<rparr>, ?st)"
          using a True by (simp add: transition_out_def Let_def set_msg_def)
        have v': "purged (resent @ [Summary ?q], released) (e_out (e\<lparr>e_store := ?st\<rparr>)) = ?v\<lparr>o_queued := resent @ Summary ?q # o_queued ?s\<rparr>"
          by (simp add: purged_def acc)
        have "oinv P ?st (?v\<lparr>o_queued := resent @ Summary ?q # o_queued ?s\<rparr>) (sub_mids e0)"
          by (rule oinv_requeue [OF inv a(1) _ uns' unq, of resent "o_queued ?s"]) (use mm m a(2) in \<open>simp_all add: purged_def acc flow_reset_def\<close>)
        moreover have "out_summary ?st k = out_summary (e_store e) k" if "k \<noteq> mid" for k
          using summary_other(1) [OF D(1) a(1) _ _ that, of ?m] mm a(2) by simp
        moreover have "row_state ?st mid = Some QUEUED" using summary_other(3) [OF D(1) a(1), of ?m "mid + 1"] mm a(2) by simp
        ultimately have "purging P ks (resent @ [Summary ?q], released) e0 (e\<lparr>e_store := ?st\<rparr>) \<and> (\<forall>k \<in> set ks. out_summary (e_store (e\<lparr>e_store := ?st\<rparr>)) k = out_summary (e_store e) k)"
          by (intro purging_next [OF r]) (use v' parked in \<open>simp_all add: same_rest_def\<close>)
        with True uns nq m tr show ?thesis by (simp add: purge_message_def wp_simps acc sealed_mids_def)
      next
        case False
        have bud: "0 < o_pending_messages ?s" "0 < om_logical_size m" "om_logical_size m \<le> o_pending_bytes ?s"
          using oinv_budget [OF inv a(1) uns'] a(2) by (simp_all add: purged_def)
        let ?s' = "?s\<lparr>o_high_messages := max (o_high_messages ?s) (o_pending_messages ?s), o_high_bytes := max (o_high_bytes ?s) (o_pending_bytes ?s),
          o_pending_messages := o_pending_messages ?s - 1, o_pending_bytes := o_pending_bytes ?s - om_logical_size m\<rparr>"
        let ?e = "e\<lparr>e_store := drop_row mid (e_store e), e_out := ?s', e_effects := e_effects e @ [EffPublishFailed mid (Raised SessionDiscardedError)]\<rparr>"
        have "oinv P (drop_row mid (set_msg a m (e_store e))) (purged (resent, released @ [mid]) ?s') (sub_mids e0)"
          by (rule oinv_drop [OF inv a(1) uns' mm]) (use pool vp a(2) flt parked D(5) in \<open>simp_all add: purged_def acc flow_reset_def\<close>)
        then have "oinv P (e_store ?e) (purged (resent, released @ [mid]) (e_out ?e)) (sub_mids e0)" by (simp add: same)
        then have "purging P ks (resent, released @ [mid]) e0 ?e \<and> (\<forall>k \<in> set ks. out_summary (e_store ?e) k = out_summary (e_store e) k)"
          by (intro purging_next [OF r]) (use dsum gone parked mid in \<open>auto simp: same_rest_def outbound_effect_def\<close>)
        with False uns nq m bud show ?thesis
          by (simp add: purge_message_def wp_simps acc sealed_mids_def discard_record_ok entry_view_def)
      qed
    qed
  qed
qed

lemma purge_ok:
  assumes inv: "oinv {} (e_store e) (e_out e) (sub_mids e)" and subs: "pending \<longleftrightarrow> sub_mids e \<noteq> {}"
  shows "wp (purge_after_clean_session pending) (\<lambda>_ e'. oinv {} (e_store e') ((e_out e')\<lparr>o_flow := flow_reset (o_flow (e_out e'))\<rparr>) (sub_mids e)
      \<and> o_parked (e_out e') = {} \<and> (\<forall>mid \<in> out_mids (e_store e'). row_state (e_store e') mid = Some QUEUED) \<and> same_rest e e') (\<lambda>_ _. False) e"
proof -
  note D = oinvD [OF inv]
  let ?Q = "\<lambda>e'. oinv {} (e_store e') ((e_out e')\<lparr>o_flow := flow_reset (o_flow (e_out e'))\<rparr>) (sub_mids e)
      \<and> o_parked (e_out e') = {} \<and> (\<forall>mid \<in> out_mids (e_store e'). row_state (e_store e') mid = Some QUEUED) \<and> same_rest e e'"
  let ?s = "(e_out e)\<lparr>o_queued := filter (\<lambda>m. os_state (entry_view (e_store e) m) = QUEUED) (o_queued (e_out e)), o_parked := {}\<rparr>"
  have d: "distinct (map fst (out_tab (e_store e)))" using store_invD(1) [OF D(1)] by (simp add: tab_inv_def)
  have "oinv {} (e_store e) (purged ([], []) ?s) (sub_mids e)"
    by (rule oinv_unpark_all [OF inv]) (use flow_inv_ops(3) [OF D(5)] in \<open>simp_all add: purged_def flow_reset_def\<close>)
  then have start: "purging {} (map fst (out_tab (e_store e))) ([], []) e (e\<lparr>e_out := ?s\<rparr>)"
    using d by (simp add: purging_def out_mids_def same_rest_def)
  have loop: "wp (for_summaries purge_message ([], [])) (\<lambda>acc. purging {} [] acc e) (\<lambda>_ _. False) (e\<lparr>e_out := ?s\<rparr>)"
    by (rule wp_for_summaries [where J = "\<lambda>ks acc. purging {} ks acc e"]) (use start purge_message_ok in \<open>auto simp: purging_def\<close>)
  have last: "wp (sthen (mod_out (\<lambda>s. s\<lparr>o_queued := resent @ o_queued s\<rparr>))
      (sbind (sget e_out) (\<lambda>s. if o_queued s = [] \<and> \<not> pending \<and> (\<forall>x \<in> set (o_sealed s). snd x)
        then mod_out (\<lambda>s. s\<lparr>o_packet_ids := pool_clear (o_packet_ids s)\<rparr>) else sfor free_id released))) (\<lambda>_. ?Q) (\<lambda>_ _. False) e1"
    if r: "purging {} [] (resent, released) e e1" for resent released e1
  proof -
    let ?v = "purged (resent, released) (e_out e1)"
    have i: "oinv {} (e_store e1) ?v (sub_mids e)" and all: "\<And>mid. mid \<in> out_mids (e_store e1) \<Longrightarrow> row_state (e_store e1) mid = Some QUEUED"
      and rest: "o_parked (e_out e1) = {}" "same_rest e e1" using r by (auto simp: purging_def)
    note E = oinvD [OF i]
    have clear: "oinv {} (e_store e1) (?v\<lparr>o_packet_ids := new_pool\<rparr>) (sub_mids e)"
      if q: "resent @ o_queued (e_out e1) = []" "\<not> pending" "\<forall>x \<in> set (o_sealed (e_out e1)). snd x"
    proof -
      have "sealed_mids ?v = {}"
      proof (rule ccontr)
        assume "sealed_mids ?v \<noteq> {}"
        then have "o_sealed ?v \<noteq> []" by (simp add: sealed_mids_def)
        then obtain x where "x \<in> set (o_sealed ?v)" by (meson last_in_set)
        then obtain mid b where mb: "(mid, b) \<in> set (o_sealed ?v)" by (metis surj_pair)
        then have "b" "mid \<in> out_mids (e_store e1)" using q(3) E(8) by (auto simp: purged_def sealed_mids_def)
        with E(15) [OF mb] all show False by simp
      qed
      then have none: "out_mids (e_store e1) = {}" using E(14) all q(1) by (auto simp: queue_mids_def purged_def)
      show ?thesis by (rule oinv_pool [OF i]) (use new_pool_inv none subs q(2) in auto)
    qed
    have fr: "\<not> (resent @ o_queued (e_out e1) = [] \<and> \<not> pending \<and> (\<forall>x \<in> set (o_sealed (e_out e1)). snd x)) \<Longrightarrow>
        ?Q (e1\<lparr>e_out := (e_out e1)\<lparr>o_queued := resent @ o_queued (e_out e1), o_packet_ids := fold release released (o_packet_ids (e_out e1))\<rparr>\<rparr>)"
      using i all rest by (simp add: purged_def same_rest_def)
    have cl: "resent @ o_queued (e_out e1) = [] \<and> \<not> pending \<and> (\<forall>x \<in> set (o_sealed (e_out e1)). snd x) \<Longrightarrow>
        ?Q (e1\<lparr>e_out := (e_out e1)\<lparr>o_queued := resent @ o_queued (e_out e1), o_packet_ids := pool_clear (o_packet_ids (e_out e1))\<rparr>\<rparr>)"
    proof -
      assume c: "resent @ o_queued (e_out e1) = [] \<and> \<not> pending \<and> (\<forall>x \<in> set (o_sealed (e_out e1)). snd x)"
      have "(e_out e1)\<lparr>o_queued := resent @ o_queued (e_out e1), o_packet_ids := pool_clear (o_packet_ids (e_out e1)), o_flow := flow_reset (o_flow (e_out e1))\<rparr>
          = ?v\<lparr>o_packet_ids := new_pool\<rparr>" by (simp add: purged_def pool_clear_eq)
      with clear c all rest show ?thesis by (simp add: same_rest_def)
    qed
    from fr cl show ?thesis by (simp add: wp_simps wp_free_ids)
  qed
  let ?last = "\<lambda>(resent, released). sthen (mod_out (\<lambda>s. s\<lparr>o_queued := resent @ o_queued s\<rparr>))
      (sbind (sget e_out) (\<lambda>s. if o_queued s = [] \<and> \<not> pending \<and> (\<forall>x \<in> set (o_sealed s). snd x)
        then mod_out (\<lambda>s. s\<lparr>o_packet_ids := pool_clear (o_packet_ids s)\<rparr>) else sfor free_id released))"
  have "wp (for_summaries purge_message ([], [])) (\<lambda>acc. wp (?last acc) (\<lambda>_. ?Q) (\<lambda>_ _. False)) (\<lambda>_ _. False) (e\<lparr>e_out := ?s\<rparr>)"
  proof (rule wp_mono [OF loop])
    fix acc e1
    assume "purging {} [] acc e e1"
    then show "wp (?last acc) (\<lambda>_. ?Q) (\<lambda>_ _. False) e1" using last [of "fst acc" "snd acc" e1] by (cases acc) (simp only: prod.case fst_conv snd_conv)
  qed
  then show ?thesis unfolding purge_after_clean_session_def wp_sthen [of "smod _"] wp_smod wp_sbind [of "for_summaries _ _"] by simp
qed

subsection \<open>The queue against a new negotiation\<close>

definition requeued :: "queue_entry list \<Rightarrow> outbound_session \<Rightarrow> outbound_session" where
  "requeued kept s = s\<lparr>o_queued := kept @ o_queued s\<rparr>"

lemma fail_queued_loop_ok:
  assumes "oinv {} (e_store e) (requeued kept (e_out e)) subs" "o_parked (e_out e) = {}" "o_queued (e_out e) = queue"
  shows "wp (fail_queued_loop queue kept) (\<lambda>_ e'. oinv {} (e_store e') (e_out e') subs \<and> same_rest e e' \<and> o_parked (e_out e') = {})
    (\<lambda>_ e'. \<exists>kept. oinv {} (e_store e') (requeued kept (e_out e')) subs \<and> same_rest e e') e"
  using assms
proof (induction queue arbitrary: kept e)
  case Nil
  then show ?case by (simp add: wp_simps requeued_def same_rest_def)
next
  case (Cons m rest)
  note inv = Cons.prems(1)
  note D = oinvD [OF inv]
  let ?st = "e_store e" and ?s = "e_out e"
  let ?Q = "\<lambda>e'. oinv {} (e_store e') (e_out e') subs \<and> same_rest e e' \<and> o_parked (e_out e') = {}"
  let ?E = "\<lambda>e'. \<exists>kept. oinv {} (e_store e') (requeued kept (e_out e')) subs \<and> same_rest e e'"
  define mid where "mid = entry_mid ?st m"
  have min: "m \<in> set (o_queued (requeued kept ?s))" by (simp add: requeued_def Cons.prems(3))
  obtain a where a: "map_of (out_tab ?st) mid = Some a" "mid \<notin> sealed_mids (requeued kept ?s)" "mid \<notin> holders (o_flow (requeued kept ?s))"
    "os_logical_size (entry_view ?st m) = om_logical_size (out_heap ?st ! a)" by (rule oinv_entry [OF inv min, folded mid_def], rule that)
  have mid: "mid \<in> out_mids ?st" using a(1) by (force simp: out_mids_def dest: map_of_SomeD)
  have same: "set_msg a (out_heap ?st ! a) ?st = ?st" by (simp add: set_msg_def)
  have next_ok: "wp (fail_queued_loop rest kept') (\<lambda>_. ?Q) (\<lambda>_. ?E) e1"
    if "oinv {} (e_store e1) (requeued kept' (e_out e1)) subs" "o_parked (e_out e1) = {}" "o_queued (e_out e1) = rest" "same_rest e e1" for e1 kept'
    by (rule wp_mono, rule Cons.IH [OF that(1-3)]) (use same_rest_trans [OF that(4)] in auto)
  have keep: "wp (fail_queued_loop rest (kept @ [m])) (\<lambda>_. ?Q) (\<lambda>_. ?E) (e\<lparr>e_out := ?s\<lparr>o_queued := tl (o_queued ?s)\<rparr>\<rparr>)"
    by (rule next_ok) (use inv Cons.prems(2,3) in \<open>simp_all add: requeued_def same_rest_def\<close>)
  note bud = oinv_budget [OF inv a(1,2)]
  have bud': "0 < o_pending_messages ?s" "0 < om_logical_size (out_heap ?st ! a)" "om_logical_size (out_heap ?st ! a) \<le> o_pending_bytes ?s"
    using bud by (simp_all add: requeued_def)
  let ?s' = "?s\<lparr>o_high_messages := max (o_high_messages ?s) (o_pending_messages ?s), o_high_bytes := max (o_high_bytes ?s) (o_pending_bytes ?s),
    o_pending_messages := o_pending_messages ?s - 1, o_pending_bytes := o_pending_bytes ?s - om_logical_size (out_heap ?st ! a), o_queued := rest,
    o_packet_ids := release mid (o_packet_ids ?s)\<rparr>"
  have split_queue: "filter (\<lambda>n. entry_mid ?st n \<noteq> mid) (kept @ m # rest) = kept @ rest"
  proof -
    have "\<forall>n \<in> set kept \<union> set rest. entry_mid ?st n \<noteq> mid" using D(11) by (auto simp: queue_mids_def requeued_def Cons.prems(3) mid_def image_iff)
    then have "filter (\<lambda>n. entry_mid ?st n \<noteq> mid) kept = kept" "filter (\<lambda>n. entry_mid ?st n \<noteq> mid) rest = rest" by (auto simp: filter_id_conv)
    then show ?thesis by (simp add: mid_def)
  qed
  have "oinv {} (drop_row mid (set_msg a (out_heap ?st ! a) ?st)) (requeued kept ?s') subs"
    by (rule oinv_drop [OF inv a(1,2)])
      (use mids.free_law [of "o_packet_ids ?s" mid] D(2,5) a(3) row_mid(1) [OF D(1) out_row_addr [OF a(1)]] split_queue Cons.prems in \<open>simp_all add: requeued_def\<close>)
  then have dropped: "oinv {} (drop_row mid ?st) (requeued kept ?s') subs" by (simp add: same)
  have fail: "wp (fail_queued_loop rest kept) (\<lambda>_. ?Q) (\<lambda>_. ?E) (e\<lparr>e_store := drop_row mid ?st, e_out := ?s', e_effects := e_effects e @ [EffPublishFailed mid (Raised x)]\<rparr>)" for x
    by (rule next_ok) (use dropped Cons.prems(2) mid in \<open>auto simp: same_rest_def outbound_effect_def\<close>)
  have here: "?E e" using inv by auto
  have "wp (validate_against_negotiated m) (\<lambda>_ e'. wp (fail_queued_loop rest (kept @ [m])) (\<lambda>_. ?Q) (\<lambda>_. ?E) (e'\<lparr>e_out := (e_out e')\<lparr>o_queued := tl (o_queued (e_out e'))\<rparr>\<rparr>))
      (\<lambda>x e'. if is_protocol_error x then wp (sthen (discard_record mid m) (sthen pop_queue (sthen (free_id mid) (fail_publish mid (Raised x)))))
          (\<lambda>_. wp (fail_queued_loop rest kept) (\<lambda>_. ?Q) (\<lambda>_. ?E)) (\<lambda>_. ?E) e' else ?E e') e"
    by (rule validate_reads) (use keep fail here bud' a(4) Cons.prems(3) in \<open>simp_all add: wp_simps discard_record_ok\<close>)
  then show ?case
    unfolding fail_queued_loop.simps wp_simps mid_def [symmetric]
    by (rule wp_mono) (simp_all add: wp_simps split: if_splits)
qed

lemma fail_queued_ok:
  assumes inv: "oinv {} (e_store e) (e_out e) subs" and "o_parked (e_out e) = {}"
  shows "wp fail_queued_violating_negotiation (\<lambda>_ e'. oinv {} (e_store e') (e_out e') subs \<and> same_rest e e' \<and> o_parked (e_out e') = {})
    (\<lambda>_ e'. \<exists>kept. oinv {} (e_store e') (requeued kept (e_out e')) subs \<and> same_rest e e') e"
  using fail_queued_loop_ok [of e "[]" subs] assms by (simp add: fail_queued_violating_negotiation_def wp_simps requeued_def)

end
