(* ===== verification/Inbound_Inv.thy ===== *)
theory Inbound_Inv
  imports Engine Outbound_Session
begin

text \<open>
  The invariant of the inbound session: the count and the byte reservation are exactly those of the stored exchanges, the
  slots in use never exceed the announced Receive Maximum and belong to disjoint sets of identifiers, a
  waiting completion names the phase of its row, and the order of manual acknowledgements is that of the stored QoS 1
  exchanges. Every handler keeps it, and none of them fails locally.
\<close>

subsection \<open>Changing the stored exchanges\<close>

definition in_mids :: "mem_store \<Rightarrow> int set" where
  "in_mids st = fst ` set (in_tab st)"

lemma in_mids_dom: "in_mids st = dom (in_row st)"
  by (simp add: in_mids_def in_row_def)

lemma in_mids_row: "mid \<in> in_mids st \<longleftrightarrow> (\<exists>m. in_row st mid = Some m)"
  by (auto simp: in_mids_dom)

lemma finite_in_mids [simp]: "finite (in_mids st)"
  by (simp add: in_mids_def)

definition drop_in :: "int \<Rightarrow> mem_store \<Rightarrow> mem_store" where
  "drop_in mid st = st\<lparr>in_tab := AList.delete mid (in_tab st)\<rparr>"

definition set_in :: "nat \<Rightarrow> inbound_message \<Rightarrow> mem_store \<Rightarrow> mem_store" where
  "set_in a m st = st\<lparr>in_heap := (in_heap st)[a := m]\<rparr>"

definition add_in :: "inbound_message \<Rightarrow> mem_store \<Rightarrow> mem_store" where
  "add_in m st = st\<lparr>in_heap := in_heap st @ [m], in_tab := in_tab st @ [(im_mid m, length (in_heap st))]\<rparr>"

definition same_out :: "mem_store \<Rightarrow> mem_store \<Rightarrow> bool" where
  "same_out st st' \<longleftrightarrow> out_tab st' = out_tab st \<and> out_heap st' = out_heap st"

lemma same_out_simps [simp]: "same_out st st" "same_out st (drop_in mid st)" "same_out st (set_in a m st)" "same_out st (add_in m st)"
  "same_out st (clear_in st)" "same_out st (st\<lparr>in_heap := h\<rparr>)"
  by (simp_all add: same_out_def drop_in_def set_in_def add_in_def clear_in_def)

lemma in_addr:
  assumes "in_row st mid = Some m"
  obtains a where "map_of (in_tab st) mid = Some a" "m = in_heap st ! a"
  using assms by (auto simp: in_row_def tab_row_def)

lemma in_row_facts:
  assumes "store_inv st" "in_row st mid = Some m"
  shows "im_mid m = mid" "0 < im_logical_size m" "mid \<in> in_mids st"
proof -
  from assms(2) obtain a where a: "map_of (in_tab st) mid = Some a" "m = in_heap st ! a" by (rule in_addr)
  show "im_mid m = mid" "0 < im_logical_size m" using tab_inv_addr [OF store_invD(2) [OF assms(1)] a(1)] a(2) by simp_all
  show "mid \<in> in_mids st" using assms(2) by (auto simp: in_mids_dom)
qed

lemma drop_in_row:
  assumes "store_inv st"
  shows "store_inv (drop_in mid st)" "in_row (drop_in mid st) = (in_row st)(mid := None)"
  using tab_inv_delete [OF store_invD(2) [OF assms], of mid] assms by (simp_all add: drop_in_def store_inv_def in_row_def)

lemma set_in_row:
  assumes "store_inv st" "map_of (in_tab st) mid = Some a" "im_mid m' = mid" "im_logical_size m' = im_logical_size (in_heap st ! a)"
  shows "store_inv (set_in a m' st)" "in_row (set_in a m' st) = (in_row st)(mid := Some m')"
  using tab_inv_mutate [OF store_invD(2) [OF assms(1)] assms(2-4)] assms(1) by (simp_all add: set_in_def store_inv_def in_row_def)

lemma heap_in_row:
  assumes "store_inv st"
  shows "store_inv (st\<lparr>in_heap := in_heap st @ [m]\<rparr>)" "in_row (st\<lparr>in_heap := in_heap st @ [m]\<rparr>) = in_row st"
proof -
  have lt: "map_of (in_tab st) k = Some a \<Longrightarrow> a < length (in_heap st)" for k a using tab_inv_addr(1) [OF store_invD(2) [OF assms]] .
  show "store_inv (st\<lparr>in_heap := in_heap st @ [m]\<rparr>)" using assms by (auto simp: store_inv_def tab_inv_def nth_append split: prod.splits)
  show "in_row (st\<lparr>in_heap := in_heap st @ [m]\<rparr>) = in_row st"
    by (rule ext) (auto simp: in_row_def tab_row_def nth_append map_option_case split: option.split dest: lt)
qed

lemma add_in_row:
  assumes "store_inv st" "im_mid m = mid" "mid \<notin> in_mids st" "0 < im_logical_size m"
  shows "store_inv (add_in m st)" "in_row (add_in m st) = (in_row st)(mid := Some m)"
proof -
  let ?st = "st\<lparr>in_heap := in_heap st @ [m]\<rparr>"
  have tab: "tab_inv (in_tab ?st) (in_heap ?st) im_mid im_logical_size" using store_invD(2) [OF heap_in_row(1) [OF assms(1)]] .
  have new: "length (in_heap st) \<notin> snd ` set (in_tab st)" using store_invD(2) [OF assms(1)] by (force simp: tab_inv_def)
  have none: "map_of (in_tab st) mid = None" using assms(3) by (simp add: in_mids_def map_of_eq_None_iff)
  have upd: "AList.update mid (length (in_heap st)) (in_tab st) = in_tab st @ [(mid, length (in_heap st))]"
    using assms(3) by (intro update_new) (simp add: in_mids_def)
  note add = tab_inv_add [OF tab, of "length (in_heap st)"]
  have "tab_inv (in_tab st @ [(mid, length (in_heap st))]) (in_heap st @ [m]) im_mid im_logical_size"
      "tab_row (in_tab st @ [(mid, length (in_heap st))]) (in_heap st @ [m]) = (tab_row (in_tab st) (in_heap st @ [m]))(mid := Some m)"
    using add assms(2,4) new none upd by simp_all
  moreover have "tab_row (in_tab st) (in_heap st @ [m]) = in_row st" using heap_in_row(2) [OF assms(1), of m] by (simp add: in_row_def)
  ultimately show "store_inv (add_in m st)" "in_row (add_in m st) = (in_row st)(mid := Some m)"
    using assms(1,2) by (simp_all add: add_in_def store_inv_def in_row_def)
qed

lemma complete_in_eq:
  "complete_in mid q st = (case in_row st mid of
      Some m \<Rightarrow> if im_state m = q then (Some (in_record_of mid m), drop_in mid st) else (None, st)
    | None \<Rightarrow> (None, st))"
  by (simp add: complete_in_def in_row_def tab_row_def Let_def drop_in_def split: option.split)

lemma in_meta_eq: "in_meta mid st = map_option (in_record_of mid) (in_row st mid)"
  by (simp add: in_meta_def in_row_def tab_row_def option.map_comp o_def)

lemma put_in_new:
  assumes "mid \<notin> in_mids st" "im_mid m = mid" "0 < im_logical_size m"
  shows "put_in (length (in_heap st)) (st\<lparr>in_heap := in_heap st @ [m]\<rparr>) = (Inr (), add_in m st)"
  using assms by (simp add: put_in_def Let_def add_in_def update_new in_mids_def)

text \<open>The outbound invariant does not read the inbound rows.\<close>

lemma oinv_in_change:
  assumes inv: "oinv P st s subs" and st': "store_inv st'" "same_out st st'"
  shows "oinv P st' s subs"
proof -
  from st'(2) have t: "out_tab st' = out_tab st" "out_heap st' = out_heap st" by (simp_all add: same_out_def)
  have row: "out_row st' = out_row st" "out_mids st' = out_mids st" "entry_view st' = entry_view st"
    by (simp_all add: out_row_def out_mids_def t entry_view_def fun_eq_iff split: queue_entry.split)
  then have q: "queue_mids st' s = queue_mids st s" "row_state st' = row_state st"
    by (simp_all add: queue_mids_def entry_mid_def row_state_def fun_eq_iff)
  have ok: "entry_ok st' s n = entry_ok st s n" for n by (cases n) (simp_all add: entry_ok_def entry_mid_def row t)
  show ?thesis
    using oinvD [OF inv] st'(1) by (intro oinvI) (simp_all add: row q ok weight_cong [OF row(1)])
qed

subsection \<open>The invariant\<close>

definition stored_qos1 :: "mem_store \<Rightarrow> int set" where
  "stored_qos1 st = {mid. \<exists>m. in_row st mid = Some m \<and> im_state m = IN_WAIT_PUBACK}"

definition iinv :: "engine_config \<Rightarrow> mem_store \<Rightarrow> inbound_session \<Rightarrow> bool" where
  "iinv c st s \<longleftrightarrow>
     store_inv st \<and> in_mids st \<subseteq> {1..65535} \<and> (\<forall>mid m. in_row st mid = Some m \<longrightarrow> im_state m \<noteq> IN_DONE)
   \<and> i_stored_inbound s = int (card (in_mids st)) \<and> i_pending_bytes s = irows.weight {} st
   \<and> i_current_persisted_mids s \<subseteq> in_mids st
   \<and> finite (i_pending_auto_qos1_mids s) \<and> finite (i_pending_pubcomps s)
   \<and> i_pending_auto_qos1_mids s \<inter> in_mids st = {} \<and> i_pending_pubcomps s \<inter> in_mids st = {}
   \<and> i_pending_auto_qos1_mids s \<inter> i_pending_pubcomps s = {}
   \<and> 0 \<le> i_pending_pubcomp_slots s \<and> i_pending_pubcomp_slots s \<le> int (card (i_pending_pubcomps s))
   \<and> in_inflight s \<le> i_receive_maximum s
   \<and> (manual_ack c \<longrightarrow> i_pending_auto_qos1_mids s = {} \<and> i_pending_completions s = Map.empty)
   \<and> (\<forall>mid q. i_pending_completions s mid = Some q \<longrightarrow> (\<exists>m. in_row st mid = Some m \<and> im_state m = q))
   \<and> (if manual_ack c then distinct (i_manual_qos1_order s) \<and> set (i_manual_qos1_order s) = stored_qos1 st else i_manual_qos1_order s = [])
   \<and> (\<forall>mid t. i_exchange_tokens s mid = Some t \<longrightarrow> t < i_next_token s)
   \<and> (\<forall>mid mid' t. i_exchange_tokens s mid = Some t \<longrightarrow> i_exchange_tokens s mid' = Some t \<longrightarrow> mid = mid')
   \<and> (\<not> manual_ack c \<longrightarrow> i_current_persisted_mids s \<inter> stored_qos1 st \<subseteq> dom (i_pending_completions s))"

lemma iinvD:
  assumes "iinv c st s"
  shows "store_inv st" "in_mids st \<subseteq> {1..65535}" "\<And>mid m. in_row st mid = Some m \<Longrightarrow> im_state m \<noteq> IN_DONE"
    "i_stored_inbound s = int (card (in_mids st))" "i_pending_bytes s = irows.weight {} st" "i_current_persisted_mids s \<subseteq> in_mids st"
    "finite (i_pending_auto_qos1_mids s)" "finite (i_pending_pubcomps s)"
    "i_pending_auto_qos1_mids s \<inter> in_mids st = {}" "i_pending_pubcomps s \<inter> in_mids st = {}" "i_pending_auto_qos1_mids s \<inter> i_pending_pubcomps s = {}"
    "0 \<le> i_pending_pubcomp_slots s" "i_pending_pubcomp_slots s \<le> int (card (i_pending_pubcomps s))" "in_inflight s \<le> i_receive_maximum s"
    "manual_ack c \<Longrightarrow> i_pending_auto_qos1_mids s = {}" "manual_ack c \<Longrightarrow> i_pending_completions s = Map.empty"
    "\<And>mid q. i_pending_completions s mid = Some q \<Longrightarrow> \<exists>m. in_row st mid = Some m \<and> im_state m = q"
    "manual_ack c \<Longrightarrow> distinct (i_manual_qos1_order s) \<and> set (i_manual_qos1_order s) = stored_qos1 st" "\<not> manual_ack c \<Longrightarrow> i_manual_qos1_order s = []"
    "\<And>mid t. i_exchange_tokens s mid = Some t \<Longrightarrow> t < i_next_token s"
    "\<And>mid mid' t. i_exchange_tokens s mid = Some t \<Longrightarrow> i_exchange_tokens s mid' = Some t \<Longrightarrow> mid = mid'"
    "\<not> manual_ack c \<Longrightarrow> i_current_persisted_mids s \<inter> stored_qos1 st \<subseteq> dom (i_pending_completions s)"
  using assms unfolding iinv_def by (auto split: if_splits)

lemma iinvI:
  assumes "store_inv st" "in_mids st \<subseteq> {1..65535}" "\<And>mid m. in_row st mid = Some m \<Longrightarrow> im_state m \<noteq> IN_DONE"
    "i_stored_inbound s = int (card (in_mids st))" "i_pending_bytes s = irows.weight {} st" "i_current_persisted_mids s \<subseteq> in_mids st"
    "finite (i_pending_auto_qos1_mids s)" "finite (i_pending_pubcomps s)"
    "i_pending_auto_qos1_mids s \<inter> in_mids st = {}" "i_pending_pubcomps s \<inter> in_mids st = {}" "i_pending_auto_qos1_mids s \<inter> i_pending_pubcomps s = {}"
    "0 \<le> i_pending_pubcomp_slots s" "i_pending_pubcomp_slots s \<le> int (card (i_pending_pubcomps s))" "in_inflight s \<le> i_receive_maximum s"
    "manual_ack c \<Longrightarrow> i_pending_auto_qos1_mids s = {}" "manual_ack c \<Longrightarrow> i_pending_completions s = Map.empty"
    "\<And>mid q. i_pending_completions s mid = Some q \<Longrightarrow> \<exists>m. in_row st mid = Some m \<and> im_state m = q"
    "manual_ack c \<Longrightarrow> distinct (i_manual_qos1_order s) \<and> set (i_manual_qos1_order s) = stored_qos1 st" "\<not> manual_ack c \<Longrightarrow> i_manual_qos1_order s = []"
    "\<And>mid t. i_exchange_tokens s mid = Some t \<Longrightarrow> t < i_next_token s"
    "\<And>mid mid' t. i_exchange_tokens s mid = Some t \<Longrightarrow> i_exchange_tokens s mid' = Some t \<Longrightarrow> mid = mid'"
    "\<not> manual_ack c \<Longrightarrow> i_current_persisted_mids s \<inter> stored_qos1 st \<subseteq> dom (i_pending_completions s)"
  shows "iinv c st s"
  using assms unfolding iinv_def by auto

text \<open>A stored exchange ends.\<close>

lemma iinv_complete:
  assumes inv: "iinv c st s" and m: "in_row st mid = Some m"
    and counts: "i_stored_inbound s' = i_stored_inbound s - 1" "i_pending_bytes s' = i_pending_bytes s - im_logical_size m"
    and slots: "i_current_persisted_mids s' \<subseteq> i_current_persisted_mids s - {mid}"
      "i_pending_auto_qos1_mids s' \<subseteq> insert mid (i_pending_auto_qos1_mids s)" "i_pending_pubcomps s' \<subseteq> insert mid (i_pending_pubcomps s)"
      "mid \<notin> i_pending_auto_qos1_mids s' \<or> mid \<notin> i_pending_pubcomps s'"
      "0 \<le> i_pending_pubcomp_slots s'" "i_pending_pubcomp_slots s' \<le> int (card (i_pending_pubcomps s'))" "in_inflight s' \<le> i_receive_maximum s'"
      "manual_ack c \<Longrightarrow> i_pending_auto_qos1_mids s' = {}"
    and order: "i_manual_qos1_order s' = filter (\<lambda>k. k \<noteq> mid) (i_manual_qos1_order s)"
    and maps: "i_exchange_tokens s' = (i_exchange_tokens s)(mid := None)" "i_pending_completions s' = (i_pending_completions s)(mid := None)"
      "i_next_token s' = i_next_token s"
  shows "iinv c (drop_in mid st) s'"
proof -
  note D = iinvD [OF inv]
  note row = drop_in_row [OF D(1), of mid]
  have mids: "in_mids (drop_in mid st) = in_mids st - {mid}" by (auto simp: in_mids_dom row)
  have mem: "mid \<in> in_mids st" using m by (auto simp: in_mids_dom)
  then have "card (in_mids st - {mid}) = card (in_mids st) - 1" "0 < card (in_mids st)" by (auto simp: card_gt_0_iff)
  then have card: "int (card (in_mids st - {mid})) = int (card (in_mids st)) - 1" by simp
  have w: "irows.weight {} (drop_in mid st) = irows.weight {} st - im_logical_size m"
    using irows.weight_remove(1) [OF D(1) m row(2), of "{}"] by simp
  have q1: "stored_qos1 (drop_in mid st) = stored_qos1 st - {mid}" by (auto simp: stored_qos1_def row)
  show ?thesis
  proof (rule iinvI)
    show "finite (i_pending_auto_qos1_mids s')" "finite (i_pending_pubcomps s')" using D(7,8) slots(2,3) finite_subset by blast+
    show "i_pending_auto_qos1_mids s' \<inter> i_pending_pubcomps s' = {}" using slots(2-4) D(9-11) mem by blast
    show "manual_ack c \<Longrightarrow> distinct (i_manual_qos1_order s') \<and> set (i_manual_qos1_order s') = stored_qos1 (drop_in mid st)"
      using D(18) by (auto simp: order q1)
    show "i_pending_completions s' k = Some q \<Longrightarrow> \<exists>m. in_row (drop_in mid st) k = Some m \<and> im_state m = q" for k q
      using D(17) [of k q] by (auto simp: maps row split: if_splits)
    show "i_exchange_tokens s' k = Some t \<Longrightarrow> t < i_next_token s'" for k t using D(20) [of k t] by (auto simp: maps split: if_splits)
    show "i_exchange_tokens s' k = Some t \<Longrightarrow> i_exchange_tokens s' k' = Some t \<Longrightarrow> k = k'" for k k' t
      using D(21) [of k t k'] by (auto simp: maps split: if_splits)
    show "in_row (drop_in mid st) k = Some m' \<Longrightarrow> im_state m' \<noteq> IN_DONE" for k m' using D(3) by (auto simp: row split: if_splits)
    show "\<not> manual_ack c \<Longrightarrow> i_current_persisted_mids s' \<inter> stored_qos1 (drop_in mid st) \<subseteq> dom (i_pending_completions s')"
      using D(22) slots(1) unfolding q1 maps(2) by fastforce
  qed (use D slots counts order card maps(2) in \<open>auto simp: mids row w\<close>)
qed

text \<open>A new exchange is stored.\<close>

lemma iinv_store:
  assumes inv: "iinv c st s" and m: "im_mid m = mid" "mid \<notin> in_mids st" "1 \<le> mid" "mid \<le> 65535" "0 < im_logical_size m" "im_state m \<noteq> IN_DONE"
    and automatic: "\<not> manual_ack c \<Longrightarrow> im_state m \<noteq> IN_WAIT_PUBACK"
    and free: "mid \<notin> i_pending_auto_qos1_mids s" "mid \<notin> i_pending_pubcomps s"
    and counts: "i_stored_inbound s' = i_stored_inbound s + 1" "i_pending_bytes s' = i_pending_bytes s + im_logical_size m"
    and slots: "i_current_persisted_mids s' = insert mid (i_current_persisted_mids s)" "i_pending_auto_qos1_mids s' = i_pending_auto_qos1_mids s"
      "i_pending_pubcomps s' = i_pending_pubcomps s" "i_pending_pubcomp_slots s' = i_pending_pubcomp_slots s" "i_receive_maximum s' = i_receive_maximum s"
      "in_inflight s < i_receive_maximum s"
    and order: "i_manual_qos1_order s' = i_manual_qos1_order s @ (if manual_ack c \<and> im_state m = IN_WAIT_PUBACK then [mid] else [])"
    and maps: "i_exchange_tokens s' = (i_exchange_tokens s)(mid \<mapsto> i_next_token s)" "i_pending_completions s' = i_pending_completions s"
      "i_next_token s' = i_next_token s + 1"
  shows "iinv c (add_in m st) s'"
proof -
  note D = iinvD [OF inv]
  note row = add_in_row [OF D(1) m(1,2,5)]
  have mids: "in_mids (add_in m st) = insert mid (in_mids st)" by (auto simp: in_mids_dom row)
  have none: "in_row st mid = None" using m(2) by (auto simp: in_mids_dom)
  have w: "irows.weight {} (add_in m st) = irows.weight {} st + im_logical_size m" using irows.weight_add(1) [OF D(1) none row(2)] by simp
  have new: "mid \<notin> i_current_persisted_mids s" "finite (i_current_persisted_mids s)" using D(6) m(2) finite_subset [OF D(6)] by auto
  have q1: "stored_qos1 (add_in m st) = (if im_state m = IN_WAIT_PUBACK then insert mid (stored_qos1 st) else stored_qos1 st)"
    using none by (auto simp: stored_qos1_def row)
  have fresh: "mid \<notin> stored_qos1 st" using none by (simp add: stored_qos1_def)
  have oldtok: "i_exchange_tokens s k \<noteq> Some (i_next_token s)" for k using D(20) [of k "i_next_token s"] by auto
  show ?thesis
  proof (rule iinvI)
    show "in_inflight s' \<le> i_receive_maximum s'" using slots new by (simp add: in_inflight_def)
    show "manual_ack c \<Longrightarrow> distinct (i_manual_qos1_order s') \<and> set (i_manual_qos1_order s') = stored_qos1 (add_in m st)"
      using D(18) fresh by (auto simp: order q1)
    show "i_pending_completions s' k = Some q \<Longrightarrow> \<exists>m'. in_row (add_in m st) k = Some m' \<and> im_state m' = q" for k q
      using D(17) [of k q] none by (auto simp: maps row)
    show "i_exchange_tokens s' k = Some t \<Longrightarrow> t < i_next_token s'" for k t using D(20) [of k t] by (auto simp: maps split: if_splits)
    show "i_exchange_tokens s' k = Some t \<Longrightarrow> i_exchange_tokens s' k' = Some t \<Longrightarrow> k = k'" for k k' t
      using D(21) [of k t k'] oldtok by (auto simp: maps split: if_splits)
    show "in_row (add_in m st) k = Some m' \<Longrightarrow> im_state m' \<noteq> IN_DONE" for k m' using D(3) m(6) by (auto simp: row split: if_splits)
    show "\<not> manual_ack c \<Longrightarrow> i_current_persisted_mids s' \<inter> stored_qos1 (add_in m st) \<subseteq> dom (i_pending_completions s')"
      using D(22) automatic fresh by (auto simp: q1 maps slots)
    show "in_mids (add_in m st) \<subseteq> {1..65535}" using D(2) m(3,4) by (auto simp: mids)
    show "i_stored_inbound s' = int (card (in_mids (add_in m st)))" using D(4) m(2) counts by (simp add: mids)
  qed (use D slots free counts order maps(2) row(1) in \<open>auto simp: mids w\<close>)
qed

text \<open>A stored exchange moves on: the order and the waiting completions still agree with its phase.\<close>

lemma iinv_advance:
  assumes inv: "iinv c st s" and a: "map_of (in_tab st) mid = Some a" and m': "im_mid m' = mid" "im_logical_size m' = im_logical_size (in_heap st ! a)"
    and phase: "im_state m' = im_state (in_heap st ! a) \<or> (manual_ack c \<and> im_state m' = IN_WAIT_USER_ACK \<and> im_state (in_heap st ! a) = IN_WAIT_PUBREL)"
  shows "iinv c (set_in a m' st) s"
proof -
  note D = iinvD [OF inv]
  note row = set_in_row [OF D(1) a m']
  have old: "in_row st mid = Some (in_heap st ! a)" using a by (simp add: in_row_def tab_row_def)
  have mids: "in_mids (set_in a m' st) = in_mids st" by (simp add: in_mids_def set_in_def)
  have w: "irows.weight {} (set_in a m' st) = irows.weight {} st" using irows.weight_replace(1) [OF old row(2) m'(2)] by simp
  have q1: "stored_qos1 (set_in a m' st) = stored_qos1 st" using phase old by (auto simp: stored_qos1_def row)
  show ?thesis
  proof (rule iinvI)
    show "i_pending_completions s k = Some q \<Longrightarrow> \<exists>m. in_row (set_in a m' st) k = Some m \<and> im_state m = q" for k q
      using D(17) [of k q] D(16) phase old by (auto simp: row)
    show "in_row (set_in a m' st) k = Some m \<Longrightarrow> im_state m \<noteq> IN_DONE" for k m
      using D(3) [of k m] D(3) [OF old] phase by (auto simp: row split: if_splits)
  qed (use D row(1) in \<open>auto simp: mids w q1\<close>)
qed

lemma iinv_same:
  assumes inv: "iinv c st s" and st': "store_inv st'" "in_row st' = in_row st"
    and same: "i_stored_inbound s' = i_stored_inbound s" "i_pending_bytes s' = i_pending_bytes s"
      "i_manual_qos1_order s' = i_manual_qos1_order s" "i_exchange_tokens s' = i_exchange_tokens s" "i_next_token s' = i_next_token s"
    and comp: "i_pending_completions s' \<subseteq>\<^sub>m i_pending_completions s"
    and slots: "i_current_persisted_mids s' \<subseteq> in_mids st" "i_pending_auto_qos1_mids s' \<subseteq> i_pending_auto_qos1_mids s"
      "i_pending_pubcomps s' \<subseteq> i_pending_pubcomps s" "0 \<le> i_pending_pubcomp_slots s'" "i_pending_pubcomp_slots s' \<le> int (card (i_pending_pubcomps s'))"
      "in_inflight s' \<le> i_receive_maximum s'"
      "\<not> manual_ack c \<Longrightarrow> i_current_persisted_mids s' \<inter> stored_qos1 st \<subseteq> dom (i_pending_completions s')"
  shows "iinv c st' s'"
proof -
  note D = iinvD [OF inv]
  have mids: "in_mids st' = in_mids st" "stored_qos1 st' = stored_qos1 st" by (simp_all add: in_mids_dom stored_qos1_def st')
  have w: "irows.weight {} st' = irows.weight {} st" by (simp add: irows.weight_def st')
  have c: "i_pending_completions s' k = Some q \<Longrightarrow> i_pending_completions s k = Some q" for k q
    using comp by (auto simp: map_le_def dom_def)
  show ?thesis
  proof (rule iinvI)
    show "manual_ack c \<Longrightarrow> i_pending_completions s' = Map.empty" using D(16) c by (metis option.exhaust option.distinct(1))
    show "i_pending_completions s' k = Some q \<Longrightarrow> \<exists>m. in_row st' k = Some m \<and> im_state m = q" for k q
      using D(17) [OF c] st'(2) by simp
    show "finite (i_pending_auto_qos1_mids s')" "finite (i_pending_pubcomps s')" using D(7,8) slots(2,3) finite_subset by blast+
    show "i_exchange_tokens s' k = Some t \<Longrightarrow> t < i_next_token s'" for k t using D(20) same by simp
    show "i_exchange_tokens s' k = Some t \<Longrightarrow> i_exchange_tokens s' k' = Some t \<Longrightarrow> k = k'" for k k' t using D(21) same by simp
  qed (use D st' same slots in \<open>auto simp: mids w\<close>)
qed

lemma iinv_token:
  assumes inv: "iinv c st s"
  shows "iinv c st (s\<lparr>i_exchange_tokens := (i_exchange_tokens s)(mid \<mapsto> i_next_token s), i_next_token := Suc (i_next_token s)\<rparr>)"
proof -
  note D = iinvD [OF inv]
  have old: "i_exchange_tokens s k \<noteq> Some (i_next_token s)" for k using D(20) [of k "i_next_token s"] by auto
  show ?thesis
    by (rule iinvI) (use D old in \<open>auto simp: in_inflight_def less_Suc_eq split: if_splits\<close>)
qed

end
