(* ===== verification/Inbound_Ops.thy ===== *)
theory Inbound_Ops
  imports Inbound_Inv
begin

text \<open>
  Every operation of the inbound session keeps the invariants of both sessions and raises only the errors
  the peer is answerable for.
\<close>

subsection \<open>The state of the engine\<close>

text \<open>The topics the alias table knows are not empty.\<close>

definition in_ok :: "engine \<Rightarrow> bool" where
  "in_ok e \<longleftrightarrow> iinv (e_config e) (e_store e) (e_in e) \<and> [] \<notin> snd ` set (i_aliases (e_in e))"

definition engine_ok :: "engine \<Rightarrow> bool" where
  "engine_ok e \<longleftrightarrow> out_ok e \<and> in_ok e"

definition eng_step :: "engine \<Rightarrow> engine \<Rightarrow> bool" where
  "eng_step e e' \<longleftrightarrow> engine_ok e' \<and> e_config e' = e_config e"

lemma eng_step_refl: "engine_ok e \<Longrightarrow> eng_step e e"
  by (simp add: eng_step_def)

lemma eng_step_trans: "eng_step e e1 \<Longrightarrow> eng_step e1 e2 \<Longrightarrow> eng_step e e2"
  by (simp add: eng_step_def)

lemma out_ok_store: "out_ok e \<Longrightarrow> store_inv (e_store e)"
  using oinvD(1) by (auto simp: out_ok_def)

lemma engine_okD:
  assumes "engine_ok e"
  shows "iinv (e_config e) (e_store e) (e_in e)" "oinv {} (e_store e) (e_out e) (sub_mids e)" "[] \<notin> snd ` set (i_aliases (e_in e))"
  using assms by (simp_all add: engine_ok_def in_ok_def out_ok_def)

lemma out_step_ok:
  assumes "engine_ok e" "out_step e e'"
  shows "eng_step e e'"
proof -
  have t: "in_tab (e_store e') = in_tab (e_store e)" "in_heap (e_store e') = in_heap (e_store e)" "e_in e' = e_in e" "e_config e' = e_config e" "out_ok e'"
    using assms(2) by (simp_all add: out_step_def)
  have i: "iinv (e_config e) (e_store e) (e_in e)" using assms(1) by (simp add: engine_ok_def in_ok_def)
  note D = iinvD [OF i]
  have "iinv (e_config e) (e_store e') (e_in e)"
    by (rule iinv_same [OF i]) (use out_ok_store [OF t(5)] D t in \<open>simp_all add: in_row_def\<close>)
  with t engine_okD(3) [OF assms(1)] show ?thesis by (simp add: eng_step_def engine_ok_def in_ok_def)
qed

lemma in_change:
  assumes "engine_ok e" "iinv (e_config e) (e_store e') (e_in e')" "i_aliases (e_in e') = i_aliases (e_in e) \<or> [] \<notin> snd ` set (i_aliases (e_in e'))"
    "same_out (e_store e) (e_store e')"
    "e_config e' = e_config e" "e_out e' = e_out e" "e_pending_sub_requests e' = e_pending_sub_requests e"
  shows "eng_step e e'"
proof -
  have "oinv {} (e_store e) (e_out e) (sub_mids e)" using assms(1) by (simp add: engine_ok_def out_ok_def)
  from oinv_in_change [OF this iinvD(1) [OF assms(2)] assms(4)] assms show ?thesis
    by (auto simp: eng_step_def engine_ok_def in_ok_def out_ok_def sub_mids_def)
qed

lemma eng_step_effects: "engine_ok e \<Longrightarrow> eng_step e (e\<lparr>e_effects := x\<rparr>)"
  by (rule in_change) (use engine_okD(1) in auto)

lemma eng_step_emit: "eng_step e e1 \<Longrightarrow> eng_step e (e1\<lparr>e_effects := x\<rparr>)"
  using eng_step_trans eng_step_effects [of e1 x] by (auto simp: eng_step_def)

subsection \<open>Teardown\<close>

lemma reject_ok:
  assumes "engine_ok e" "reason \<in> {0x82, 0x93, 0x94, 0x97}" "\<And>e'. eng_step e e' \<Longrightarrow> E ProtocolError e'"
  shows "wp (reject reason) Q E e"
proof -
  have "wp (protocol_disconnect reason) (\<lambda>_. E ProtocolError) E e"
    by (rule wp_mono, rule protocol_disconnect_ok [OF engine_okD(2) [OF assms(1)] assms(2)])
      (use assms out_step_torn out_step_ok in auto)
  then show ?thesis by (simp add: reject_def wp_simps)
qed

lemma check_info_ok:
  assumes "engine_ok e" "Q () e" "\<And>e'. eng_step e e' \<Longrightarrow> E ProtocolError e'"
  shows "wp (check_problem_information props) Q E e" "wp (validate_inbound_problem_information props) Q E e"
  using check_problem_information_ok [OF engine_okD(2) [OF assms(1)], of Q E props] assms out_step_torn out_step_ok by blast+

subsection \<open>Slots\<close>

lemma acquire_slot_ok:
  assumes "engine_ok e" "\<And>e'. eng_step e e' \<Longrightarrow> E ProtocolError e'"
    and "\<And>b. n = None \<Longrightarrow> in_inflight (e_in e) < i_receive_maximum (e_in e) \<Longrightarrow>
      Q (in_inflight (e_in e) + 1) (e\<lparr>e_in := (e_in e)\<lparr>i_autoack_handoff_required := b\<rparr>\<rparr>)"
    and "\<And>b k h. n = Some k \<Longrightarrow> in_inflight (e_in e) < i_receive_maximum (e_in e) \<Longrightarrow>
      Q (in_inflight (e_in e) + 1) (e\<lparr>e_in := (e_in e)\<lparr>i_autoack_handoff_required := b, i_pending_bytes := i_pending_bytes (e_in e) + k,
        i_pending_high_water_bytes := h\<rparr>\<rparr>)"
  shows "wp (acquire_slot n) Q E e"
proof -
  have rj: "wp (reject r) Q' E e" if "r \<in> {0x82, 0x93, 0x94, 0x97}" for r and Q' :: "int \<Rightarrow> engine \<Rightarrow> bool"
    by (rule reject_ok [OF assms(1) that]) (rule assms(2))
  have same: "e\<lparr>e_in := (e_in e)\<lparr>i_autoack_handoff_required := i_autoack_handoff_required (e_in e)\<rparr>\<rparr> = e" by simp
  have none: "n = None \<Longrightarrow> in_inflight (e_in e) < i_receive_maximum (e_in e) \<Longrightarrow> Q (in_inflight (e_in e) + 1) e"
    using assms(3) [of "i_autoack_handoff_required (e_in e)"] by simp
  have some: "n = Some k \<Longrightarrow> in_inflight (e_in e) < i_receive_maximum (e_in e) \<Longrightarrow>
      Q (in_inflight (e_in e) + 1) (e\<lparr>e_in := (e_in e)\<lparr>i_pending_bytes := i_pending_bytes (e_in e) + k, i_pending_high_water_bytes := h\<rparr>\<rparr>)" for k h
    using assms(4) [where b = "i_autoack_handoff_required (e_in e)" and k = k and h = h] by simp
  show ?thesis
  proof (cases "i_receive_maximum (e_in e) \<le> in_inflight (e_in e)")
    case True
    then show ?thesis by (simp add: acquire_slot_def wp_simps rj)
  next
    case False
    then show ?thesis
      using assms(3,4) none some by (cases n) (simp_all add: acquire_slot_def wp_simps rj split: option.split)
  qed
qed

text \<open>The flag that asks for a hand-over has no part in the invariant.\<close>

lemma iinv_flag [simp]:
  "iinv c st (s\<lparr>i_autoack_handoff_required := b\<rparr>) = iinv c st s" "iinv c st (s\<lparr>i_pending_high_water_bytes := h\<rparr>) = iinv c st s"
  "iinv c st (s\<lparr>i_aliases := al\<rparr>) = iinv c st s" "iinv c st (s\<lparr>i_recovered_mids := r\<rparr>) = iinv c st s" "iinv c st (s\<lparr>i_replay := p\<rparr>) = iinv c st s"
  "iinv c st (s\<lparr>i_topic_alias_maximum := k\<rparr>) = iinv c st s" "iinv c st (s\<lparr>i_pending_manual_qos1_acks := X\<rparr>) = iinv c st s"
  by (simp_all add: iinv_def in_inflight_def)

text \<open>Claiming the slot of a stored exchange.\<close>

definition claimed :: "int \<Rightarrow> bool \<Rightarrow> inbound_session \<Rightarrow> inbound_session" where
  "claimed mid b s = s\<lparr>i_autoack_handoff_required := b, i_current_persisted_mids := insert mid (i_current_persisted_mids s)\<rparr>"

lemma claim_slot_ok:
  assumes ok: "engine_ok e" and E: "\<And>e'. eng_step e e' \<Longrightarrow> E ProtocolError e'"
    and Q: "\<And>b. in_inflight (claimed mid b (e_in e)) \<le> i_receive_maximum (e_in e) \<Longrightarrow> Q () (e\<lparr>e_in := claimed mid b (e_in e)\<rparr>)"
  shows "wp (claim_slot mid) Q E e"
proof (cases "mid \<in> i_current_persisted_mids (e_in e)")
  case True
  then have same: "claimed mid (i_autoack_handoff_required (e_in e)) (e_in e) = e_in e" by (simp add: claimed_def insert_absorb)
  with Q [of "i_autoack_handoff_required (e_in e)"] iinvD(14) [OF engine_okD(1) [OF ok]] have "Q () e" by simp
  with True show ?thesis by (simp add: claim_slot_def wp_simps)
next
  case False
  have "finite (i_current_persisted_mids (e_in e))"
    by (rule finite_subset [OF iinvD(6) [OF engine_okD(1) [OF ok]]]) simp
  then have "in_inflight (claimed mid b (e_in e)) = in_inflight (e_in e) + 1" for b
    using False by (simp add: in_inflight_def claimed_def)
  then have "wp (acquire_slot None) (\<lambda>_ e'. Q () (e'\<lparr>e_in := (e_in e')\<lparr>i_current_persisted_mids := insert mid (i_current_persisted_mids (e_in e'))\<rparr>\<rparr>)) E e"
    by (intro acquire_slot_ok [OF ok]) (use E Q in \<open>auto simp: claimed_def\<close>)
  with False show ?thesis by (simp add: claim_slot_def wp_simps)
qed

lemma iinv_claimed:
  assumes "iinv c st s" "mid \<in> in_mids st" "in_inflight (claimed mid b s) \<le> i_receive_maximum s" "manual_ack c \<or> mid \<notin> stored_qos1 st"
  shows "iinv c st (claimed mid b s)"
  by (rule iinv_same [OF assms(1)]) (use iinvD [OF assms(1)] assms(2-4) in \<open>auto simp: claimed_def\<close>)

subsection \<open>Ending an exchange\<close>

lemma iinv_row:
  assumes "iinv c st s" "in_row st mid = Some m"
  shows "1 \<le> mid" "mid \<le> 65535" "0 < im_logical_size m" "im_logical_size m \<le> i_pending_bytes s" "0 < i_stored_inbound s" "mid \<in> in_mids st" "im_mid m = mid"
proof -
  note D = iinvD [OF assms(1)]
  note r = in_row_facts [OF D(1) assms(2)]
  show "1 \<le> mid" "mid \<le> 65535" "mid \<in> in_mids st" "im_mid m = mid" "0 < im_logical_size m" using D(2) r by auto
  show "im_logical_size m \<le> i_pending_bytes s" using irows.weight_member(1) [OF D(1) assms(2), of "{}"] D(5) by simp
  show "0 < i_stored_inbound s" using D(4) r(3) by (simp add: card_gt_0_iff) auto
qed

definition ended :: "int \<Rightarrow> inbound_message \<Rightarrow> inbound_session \<Rightarrow> inbound_session" where
  "ended mid m s = s\<lparr>i_exchange_tokens := (i_exchange_tokens s)(mid := None), i_pending_completions := (i_pending_completions s)(mid := None),
     i_stored_inbound := i_stored_inbound s - 1, i_pending_bytes := i_pending_bytes s - im_logical_size m\<rparr>"

lemma ended_aliases [simp]: "i_aliases (ended mid m s) = i_aliases s"
  by (simp add: ended_def)

lemma complete_stored_eq:
  assumes "in_row (e_store e) mid = Some m" "im_state m = q" "0 < i_stored_inbound (e_in e)"
  shows "wp (sbind (complete_stored_inbound mid q) (\<lambda>n. sthen forget_inbound (f n))) Q E e =
    wp (f (im_logical_size m)) Q E (e\<lparr>e_store := drop_in mid (e_store e), e_in := (e_in e)\<lparr>i_exchange_tokens := (i_exchange_tokens (e_in e))(mid := None),
      i_pending_completions := (i_pending_completions (e_in e))(mid := None), i_stored_inbound := i_stored_inbound (e_in e) - 1\<rparr>\<rparr>)"
  using assms by (simp add: complete_stored_inbound_def wp_simps complete_in_eq forget_inbound_def in_record_of_def)

text \<open>A PUBACK ends a stored QoS 1 exchange.\<close>

lemma complete_qos1_eq:
  assumes "iinv c (e_store e) ((e_in e)\<lparr>i_pending_completions := X\<rparr>)" "in_row (e_store e) mid = Some m" "im_state m = IN_WAIT_PUBACK" "encode_puback_success mid = Inr w"
  shows "wp (complete_qos1 mid) Q E e = Q () (e\<lparr>e_store := drop_in mid (e_store e), e_effects := e_effects e @ [EffSendAck w],
    e_in := (ended mid m (e_in e))\<lparr>i_current_persisted_mids := i_current_persisted_mids (e_in e) - {mid}\<rparr>\<rparr>)"
proof -
  note r = iinv_row [OF assms(1,2), simplified]
  have "(e_in e)\<lparr>i_exchange_tokens := (i_exchange_tokens (e_in e))(mid := None), i_pending_completions := (i_pending_completions (e_in e))(mid := None),
      i_stored_inbound := i_stored_inbound (e_in e) - 1, i_current_persisted_mids := i_current_persisted_mids (e_in e) - {mid},
      i_pending_bytes := i_pending_bytes (e_in e) - im_logical_size m\<rparr> = (ended mid m (e_in e))\<lparr>i_current_persisted_mids := i_current_persisted_mids (e_in e) - {mid}\<rparr>"
    by (simp add: ended_def)
  with r show ?thesis
    unfolding complete_qos1_def complete_stored_eq [OF assms(2,3) r(5)]
    by (simp add: wp_simps assms(4) release_persisted_slot_def release_pending_bytes_def)
qed

lemma inflight_drop:
  assumes "iinv c st s" "X \<subseteq> i_current_persisted_mids s"
  shows "int (card X) + int (card (i_pending_auto_qos1_mids s)) + i_pending_pubcomp_slots s \<le> i_receive_maximum s"
proof -
  have "finite (i_current_persisted_mids s)" by (rule finite_subset [OF iinvD(6) [OF assms(1)]]) simp
  from card_mono [OF this assms(2)] iinvD(14) [OF assms(1)] show ?thesis by (simp add: in_inflight_def)
qed

lemma iinv_acked:
  assumes inv: "iinv c st s" and m: "in_row st mid = Some m"
    and s': "s' = (ended mid m s)\<lparr>i_current_persisted_mids := i_current_persisted_mids s - {mid}, i_manual_qos1_order := filter (\<lambda>k. k \<noteq> mid) (i_manual_qos1_order s)\<rparr>"
  shows "iinv c (drop_in mid st) s'"
proof (rule iinv_complete [OF inv m])
  show "mid \<notin> i_pending_auto_qos1_mids s' \<or> mid \<notin> i_pending_pubcomps s'"
    using iinvD(9) [OF inv] in_row_facts(3) [OF iinvD(1) [OF inv] m] by (auto simp: s' ended_def)
  show "in_inflight s' \<le> i_receive_maximum s'"
    using inflight_drop [OF inv, of "i_current_persisted_mids s - {mid}"] by (auto simp: in_inflight_def s' ended_def)
qed (use iinvD(12,13,15) [OF inv] in \<open>auto simp: s' ended_def\<close>)

text \<open>A PUBCOMP ends a QoS 2 exchange; its slot and identifier stay held until the batch is handed over.\<close>

definition exchange_ended :: "int \<Rightarrow> bytes \<Rightarrow> engine \<Rightarrow> engine \<Rightarrow> bool" where
  "exchange_ended mid wire e e' \<longleftrightarrow> in_row (e_store e') = (in_row (e_store e))(mid := None) \<and> e_effects e' = e_effects e @ [EffSendAck wire]"

lemma not_in_order:
  assumes "iinv c st s" "in_row st mid = Some m" "im_state m \<noteq> IN_WAIT_PUBACK \<or> \<not> manual_ack c"
  shows "filter (\<lambda>k. k \<noteq> mid) (i_manual_qos1_order s) = i_manual_qos1_order s"
proof -
  have "mid \<notin> set (i_manual_qos1_order s)"
    using assms iinvD(18,19) [OF assms(1)] by (cases "manual_ack c") (auto simp: stored_qos1_def)
  then show ?thesis by (auto simp: filter_id_conv)
qed

lemma complete_qos2_ok:
  assumes ok: "engine_ok e" and m: "in_row (e_store e) mid = Some m" "im_state m = q" "q \<noteq> IN_WAIT_PUBACK"
  shows "wp (complete_qos2 mid q) (\<lambda>_ e'. eng_step e e' \<and> (\<exists>wire. encode_pubcomp_success mid = Inr wire \<and> exchange_ended mid wire e e')) (\<lambda>_ _. False) e"
proof -
  have i: "iinv (e_config e) (e_store e) (e_in e)" by (rule engine_okD(1) [OF ok])
  note D = iinvD [OF i]
  note r = iinv_row [OF i m(1)]
  obtain w where w: "encode_pubcomp_success mid = Inr w" using success_frame(4) [OF r(1,2)] by blast
  let ?s = "e_in e"
  let ?t = "?s\<lparr>i_exchange_tokens := (i_exchange_tokens ?s)(mid := None), i_pending_completions := (i_pending_completions ?s)(mid := None),
      i_stored_inbound := i_stored_inbound ?s - 1, i_pending_bytes := i_pending_bytes ?s - im_logical_size m,
      i_pending_pubcomps := insert mid (i_pending_pubcomps ?s)\<rparr>"
  let ?held = "?t\<lparr>i_current_persisted_mids := i_current_persisted_mids ?s - {mid}, i_pending_pubcomp_slots := i_pending_pubcomp_slots ?s + 1\<rparr>"
  have new: "mid \<notin> i_pending_pubcomps ?s" "mid \<notin> i_pending_auto_qos1_mids ?s" using D(9,10) r(6) by auto
  have fin: "finite (i_current_persisted_mids ?s)" by (rule finite_subset [OF D(6)]) simp
  note flt = not_in_order [OF i m(1), symmetric]
  have free: "iinv (e_config e) (drop_in mid (e_store e)) ?t" if "mid \<notin> i_current_persisted_mids ?s"
    by (rule iinv_complete [OF i m(1)]) (use that D new flt m(2,3) in \<open>auto simp: in_inflight_def\<close>)
  have held: "iinv (e_config e) (drop_in mid (e_store e)) ?held" if c: "mid \<in> i_current_persisted_mids ?s"
  proof -
    have "int (card (i_current_persisted_mids ?s - {mid})) = int (card (i_current_persisted_mids ?s)) - 1"
      using fin c card_Suc_Diff1 [OF fin c] by simp
    then show ?thesis by (intro iinv_complete [OF i m(1)]) (use c D new flt m(2,3) in \<open>auto simp: in_inflight_def\<close>)
  qed
  have step: "eng_step e (e\<lparr>e_store := drop_in mid (e_store e), e_effects := x, e_in := s\<rparr>)" 
    if "iinv (e_config e) (drop_in mid (e_store e)) s" "i_aliases s = i_aliases (e_in e)" for s x
    by (rule in_change [OF ok]) (use that in simp_all)
  have ends: "exchange_ended mid w e (e\<lparr>e_store := drop_in mid (e_store e), e_effects := e_effects e @ [EffSendAck w], e_in := s\<rparr>)" for s
    using drop_in_row(2) [OF D(1)] by (simp add: exchange_ended_def)
  show ?thesis
    unfolding complete_qos2_def complete_stored_eq [OF m(1,2) r(5)]
    using r step [OF free] step [OF held] step [of "?held\<lparr>i_autoack_handoff_required := True\<rparr>"] held ends
    by (auto simp: wp_simps w hold_until_pubcomp_handoff_def release_pending_bytes_def Let_def)
qed

lemma lookup_eq:
  assumes "in_ok e"
  shows "lookup_stored_inbound mid e = map_option (in_record_of mid) (in_row (e_store e) mid)"
proof -
  have i: "iinv (e_config e) (e_store e) (e_in e)" using assms by (simp add: in_ok_def)
  have "in_row (e_store e) mid = None" if "i_stored_inbound (e_in e) = 0"
  proof -
    from that iinvD(4) [OF i] have "in_mids (e_store e) = {}" by simp
    then show ?thesis by (auto simp: in_mids_dom)
  qed
  then show ?thesis by (simp add: lookup_stored_inbound_def in_meta_eq)
qed

lemma lookup_Some:
  assumes "engine_ok e" "lookup_stored_inbound mid e = Some record"
  obtains m where "in_row (e_store e) mid = Some m" "irm_state record = im_state m" "irm_delivered record = im_delivered m" "irm_user_acked record = im_user_acked m"
    "irm_logical_size record = im_logical_size m"
  using assms lookup_eq [of e mid] by (auto simp: engine_ok_def in_record_of_def)

lemma lookup_None: "engine_ok e \<Longrightarrow> lookup_stored_inbound mid e = None \<Longrightarrow> mid \<notin> in_mids (e_store e)"
  using lookup_eq [of e mid] by (auto simp: engine_ok_def in_mids_dom)

lemma drain_manual_loop_ok:
  assumes "engine_ok e" "manual_ack (e_config e)" "i_manual_qos1_order (e_in e) = order"
  shows "wp (drain_manual_loop order) (\<lambda>_ e'. eng_step e e') (\<lambda>_ _. False) e"
  using assms
proof (induction order arbitrary: e)
  case Nil
  then show ?case by (simp add: wp_simps eng_step_refl)
next
  case (Cons mid order)
  have i: "iinv (e_config e) (e_store e) (e_in e)" by (rule engine_okD(1) [OF Cons.prems(1)])
  note D = iinvD [OF i]
  have own: "iinv (e_config e) (e_store e) ((e_in e)\<lparr>i_pending_completions := i_pending_completions (e_in e)\<rparr>)" using i by simp
  have ord: "distinct (mid # order)" "mid \<in> stored_qos1 (e_store e)" using D(18) [OF Cons.prems(2)] by (auto simp: Cons.prems(3))
  then obtain m where m: "in_row (e_store e) mid = Some m" "im_state m = IN_WAIT_PUBACK" by (auto simp: stored_qos1_def)
  note r = iinv_row [OF i m(1)]
  obtain w where w: "encode_puback_success mid = Inr w" using success_frame(1) [OF r(1,2)] by blast
  let ?s = "(ended mid m (e_in e))\<lparr>i_current_persisted_mids := i_current_persisted_mids (e_in e) - {mid}\<rparr>"
  let ?e = "e\<lparr>e_store := drop_in mid (e_store e), e_effects := e_effects e @ [EffSendAck w],
    e_in := ?s\<lparr>i_manual_qos1_order := order, i_pending_manual_qos1_acks := i_pending_manual_qos1_acks (e_in e) - {mid}\<rparr>\<rparr>"
  have flt: "filter (\<lambda>k. k \<noteq> mid) (i_manual_qos1_order (e_in e)) = order" using ord(1) by (auto simp: Cons.prems(3) filter_id_conv)
  have "iinv (e_config e) (drop_in mid (e_store e)) (?s\<lparr>i_manual_qos1_order := order\<rparr>)"
    by (rule iinv_acked [OF i m(1)]) (simp add: flt)
  then have step: "eng_step e ?e" by (intro in_change [OF Cons.prems(1)]) simp_all
  then have "wp (drain_manual_loop order) (\<lambda>_ e'. eng_step e e') (\<lambda>_ _. False) ?e"
    by (intro wp_mono [OF Cons.IH]) (use Cons.prems(2) eng_step_trans in \<open>auto simp: eng_step_def\<close>)
  moreover have "lookup_stored_inbound mid e = Some (in_record_of mid m)" using lookup_eq [of e mid] Cons.prems(1) m(1) by (simp add: engine_ok_def)
  ultimately show ?case
    using m(2) eng_step_refl [OF Cons.prems(1)]
    by (simp add: wp_simps complete_qos1_eq [OF own m w] in_record_of_def Cons.prems(3) ended_def)
qed

lemma drain_manual_ok:
  assumes "engine_ok e" "manual_ack (e_config e)"
  shows "wp drain_manual_qos1_acks (\<lambda>_ e'. eng_step e e') (\<lambda>_ _. False) e"
  using drain_manual_loop_ok [OF assms refl] by (simp add: drain_manual_qos1_acks_def wp_simps)

subsection \<open>Delivery marks\<close>

lemma iinv_forget_completion:
  assumes "iinv c st s" "mid \<notin> stored_qos1 st \<or> i_pending_completions s mid = None"
  shows "iinv c st (s\<lparr>i_pending_completions := (i_pending_completions s)(mid := None)\<rparr>)"
  by (rule iinv_same [OF assms(1)]) (use iinvD [OF assms(1)] assms(2) in \<open>auto simp: map_le_def in_inflight_def\<close>)

lemma mark_in_delivered_ok:
  assumes "iinv c st s"
  shows "iinv c (snd (mark_in_delivered mid st)) s \<and> same_out st (snd (mark_in_delivered mid st))"
proof (cases "map_of (in_tab st) mid")
  case None
  with assms show ?thesis by (simp add: mark_in_delivered_def)
next
  case (Some a)
  let ?m = "in_heap st ! a"
  have "iinv c (set_in a (?m\<lparr>im_delivered := True\<rparr>) st) s"
    by (rule iinv_advance [OF assms Some]) (use tab_inv_addr(2) [OF store_invD(2) [OF iinvD(1) [OF assms]] Some] in simp_all)
  with Some assms show ?thesis by (simp add: mark_in_delivered_def set_in_def)
qed

text \<open>A mark of the current exchange ends the one that waited for it.\<close>

definition mark_ends :: "int \<Rightarrow> engine \<Rightarrow> engine \<Rightarrow> bool" where
  "mark_ends mid e e' \<longleftrightarrow> (case i_pending_completions (e_in e) mid of
      None \<Rightarrow> e_effects e' = e_effects e \<and> in_mids (e_store e') = in_mids (e_store e)
    | Some q \<Rightarrow> \<exists>wire. (if q = IN_WAIT_PUBACK then encode_puback_success mid else encode_pubcomp_success mid) = Inr wire \<and> exchange_ended mid wire e e')"

lemma mark_delivered_ok:
  assumes ok: "engine_ok e"
  shows "wp (mark_delivered mid token) (\<lambda>_ e'. eng_step e e' \<and>
      (if token \<noteq> None \<and> i_exchange_tokens (e_in e) mid \<noteq> token then e' = e else mark_ends mid e e')) (\<lambda>_ _. False) e"
proof (cases "token \<noteq> None \<and> i_exchange_tokens (e_in e) mid \<noteq> token")
  case True
  then show ?thesis using eng_step_refl [OF ok] by (auto simp: mark_delivered_def wp_simps)
next
  case tok: False
  have i: "iinv (e_config e) (e_store e) (e_in e)" by (rule engine_okD(1) [OF ok])
  note D = iinvD [OF i]
  let ?s = "(e_in e)\<lparr>i_pending_completions := (i_pending_completions (e_in e))(mid := None)\<rparr>"
  let ?e = "e\<lparr>e_in := ?s\<rparr>"
  let ?other = "mid \<notin> stored_qos1 (e_store e) \<or> i_pending_completions (e_in e) mid = None"
  have i': "iinv (e_config e) (e_store e) ?s" if ?other by (rule iinv_forget_completion [OF i that])
  have ok': "eng_step e ?e" if ?other by (rule in_change [OF ok]) (use i' [OF that] in simp_all)
  have body: "wp (mark_delivered mid token) Q E e = wp (case i_pending_completions (e_in e) mid of
      None \<Rightarrow> swhen (i_stored_inbound (e_in e) \<noteq> 0) (sthen (on_store (mark_in_delivered mid)) (sret ()))
    | Some waiting \<Rightarrow> if waiting = IN_WAIT_PUBACK then complete_qos1 mid else complete_qos2 mid waiting) Q E ?e" for Q E
    unfolding mark_delivered_def wp_sbind wp_sget id_apply if_not_P [OF tok] wp_sthen [of "mod_in _"] wp_mod_in ..
  have "wp (mark_delivered mid token) (\<lambda>_ e'. eng_step e e' \<and> mark_ends mid e e') (\<lambda>_ _. False) e"
  proof (cases "i_pending_completions (e_in e) mid")
    case None
    obtain b st where run: "mark_in_delivered mid (e_store e) = (b, st)" by fastforce
    have st: "iinv (e_config e) st ?s" "same_out (e_store e) st" using mark_in_delivered_ok [OF i', of mid] run None by simp_all
    have tab: "in_tab st = in_tab (e_store e)" using run by (auto simp: mark_in_delivered_def split: option.splits if_splits)
    have "eng_step e (e\<lparr>e_in := ?s, e_store := st\<rparr>)" by (rule in_change [OF ok]) (use st in simp_all)
    with ok' run tab show ?thesis unfolding body None by (simp add: wp_simps mark_ends_def None in_mids_def)
  next
    case (Some q)
    obtain m where m: "in_row (e_store e) mid = Some m" "im_state m = q" using D(17) [OF Some] by blast
    have auto: "\<not> manual_ack (e_config e)" using D(16) Some by auto
    show ?thesis
    proof (cases "q = IN_WAIT_PUBACK")
      case False
      have "wp (complete_qos2 mid q) (\<lambda>_ e'. eng_step e e' \<and> mark_ends mid e e') (\<lambda>_ _. False) ?e"
      proof -
        have step: "eng_step e ?e" by (rule ok') (use m False in \<open>simp add: stored_qos1_def\<close>)
        then have "wp (complete_qos2 mid q) (\<lambda>_ e'. eng_step ?e e' \<and> (\<exists>wire. encode_pubcomp_success mid = Inr wire \<and> exchange_ended mid wire ?e e')) (\<lambda>_ _. False) ?e"
          by (intro complete_qos2_ok) (use m False in \<open>simp_all add: eng_step_def\<close>)
        then show ?thesis
          by (rule wp_mono) (use False Some eng_step_trans [OF step] in \<open>auto simp: mark_ends_def exchange_ended_def\<close>)
      qed
      with False show ?thesis unfolding body Some by simp
    next
      case True
      note r = iinv_row [OF i m(1)]
      obtain w where w: "encode_puback_success mid = Inr w" using success_frame(1) [OF r(1,2)] by blast
      have ci: "iinv (e_config e) (e_store ?e) ((e_in ?e)\<lparr>i_pending_completions := i_pending_completions (e_in e)\<rparr>)" using i by simp
      let ?s' = "(ended mid m (e_in e))\<lparr>i_current_persisted_mids := i_current_persisted_mids (e_in e) - {mid}\<rparr>"
      have same: "?s' = (ended mid m (e_in e))\<lparr>i_current_persisted_mids := i_current_persisted_mids (e_in e) - {mid},
          i_manual_qos1_order := filter (\<lambda>k. k \<noteq> mid) (i_manual_qos1_order (e_in e))\<rparr>"
        using D(19) [OF auto] by (simp add: ended_def)
      have "iinv (e_config e) (drop_in mid (e_store e)) ?s'" by (rule iinv_acked [OF i m(1) same])
      then have "eng_step e (e\<lparr>e_store := drop_in mid (e_store e), e_effects := x, e_in := ?s'\<rparr>)" for x
        by (intro in_change [OF ok]) simp_all
      moreover have "wp (complete_qos1 mid) Q E ?e = Q () (e\<lparr>e_store := drop_in mid (e_store e), e_effects := e_effects e @ [EffSendAck w], e_in := ?s'\<rparr>)" for Q E
        using complete_qos1_eq [OF ci _ _ w, of m] m True by (simp add: ended_def)
      ultimately show ?thesis
        unfolding body Some using True w drop_in_row(2) [OF D(1), of mid] by (simp add: mark_ends_def Some exchange_ended_def)
    qed
  qed
  then show ?thesis unfolding if_not_P [OF tok] .
qed

end
