(* ===== verification/Inbound_Publish.thy ===== *)
theory Inbound_Publish
  imports Inbound_Ops
begin

text \<open>
  The handlers of PUBLISH and PUBREL, manual acknowledgement, redelivery and the lifecycle of the inbound session:
  each keeps the invariants of both sessions, whatever the peer sends, and none fails an internal check.
\<close>

subsection \<open>Internal errors\<close>

text \<open>The errors by which the program reports that its own bookkeeping is wrong.\<close>

definition internal :: "exn \<Rightarrow> bool" where
  "internal x \<longleftrightarrow> x = AssertionError \<or> x = RuntimeError"

named_theorems external \<open>errors that are not internal\<close>

lemma internal_simps [simp]: "\<not> internal ProtocolError" "\<not> internal MalformedPacketError" "\<not> internal PacketTooLargeError" "\<not> internal ValueError"
  by (simp_all add: internal_def)

lemma peer_external [external]: "peer_error x \<Longrightarrow> \<not> internal x"
  by (auto simp: peer_error_def)

lemma utf8_encode_external [external]: "utf8_encode s = Inl x \<Longrightarrow> \<not> internal x"
  by (induction s) (auto simp: utf8_char_def rbind_eq_Inl internal_def split: if_splits)

lemma encode_vbi_external [external]: "encode_vbi n = Inl x \<Longrightarrow> \<not> internal x"
  by (auto simp: encode_vbi_def internal_def split: if_splits)

lemma encode_value_external [external]: "encode_value t v = Inl x \<Longrightarrow> \<not> internal x"
  by (auto simp: encode_value_def encode_byte_value_def encode_u16_value_def encode_u32_value_def encode_vbi_value_def encode_string_value_def
      encode_string_pair_def encode_binary_value_def pack_u16_def pack_u32_def pack_utf8_def encode_utf8_def validate_mqtt_utf8_def  rbind_eq_Inl internal_def
      split: prop_type.splits prop_value.splits if_splits list.splits sum.splits exn.splits dest: external pack_binary_error)

lemma check_item_external [external]: "check_item ProtocolError spec item = Inl x \<Longrightarrow> \<not> internal x"
  by (auto simp: check_item_def validate_response_topic_def split: if_splits prop_value.splits)

lemma item_list_external [external]: "item_list spec packet v = Inl x \<Longrightarrow> \<not> internal x"
  by (auto simp: item_list_def split: if_splits prop_value.splits)

lemma encode_items_external [external]: "encode_items spec items body = Inl x \<Longrightarrow> \<not> internal x"
  by (induction items arbitrary: body) (auto simp: rbind_eq_Inl dest: external)

lemma encode_entries_external [external]: "encode_entries tbl packet body = Inl x \<Longrightarrow> \<not> internal x"
proof (induction tbl arbitrary: body)
  case (Cons nv tbl)
  then show ?case
    using item_list_external encode_items_external
    by (cases nv) (auto simp: rbind_eq_Inl split: if_splits option.splits)
qed simp

lemma encode_properties_external [external]: "encode_properties props packet = Inl x \<Longrightarrow> \<not> internal x"
  by (auto simp: encode_properties_def encode_properties_uncached_def rbind_eq_Inl split: option.splits if_splits dest: external)

lemma logical_size_external [external]: "publish_logical_size v5 topic n props wire = Inl x \<Longrightarrow> \<not> internal x"
  by (auto simp: publish_logical_size_def utf8_size_def rbind_eq_Inl split: if_splits option.splits dest: external)

text \<open>A publication with a topic has a positive size.\<close>

lemma utf8_size_pos: "utf8_size topic = Inr n \<Longrightarrow> topic \<noteq> [] \<Longrightarrow> 0 < n"
  by (cases topic) (auto simp: utf8_size_def rbind_eq_Inr split: if_splits dest: utf8_char_nonempty)

lemma logical_size_pos:
  "publish_logical_size v5 topic (int n) props wire = Inr size' \<Longrightarrow> topic \<noteq> [] \<Longrightarrow> 0 < size'"
  by (auto simp: publish_logical_size_def rbind_eq_Inr split: if_splits option.splits dest!: utf8_size_pos)

subsection \<open>Storing an exchange\<close>

definition stored :: "int \<Rightarrow> int \<Rightarrow> bool \<Rightarrow> int \<Rightarrow> inbound_session \<Rightarrow> inbound_session" where
  "stored mid n b h s = s\<lparr>i_autoack_handoff_required := b, i_pending_bytes := i_pending_bytes s + n, i_pending_high_water_bytes := h,
     i_current_persisted_mids := insert mid (i_current_persisted_mids s),
     i_exchange_tokens := (i_exchange_tokens s)(mid \<mapsto> i_next_token s), i_next_token := i_next_token s + 1, i_stored_inbound := i_stored_inbound s + 1\<rparr>"

lemma store_inbound_ok:
  assumes ok: "engine_ok e" and topic: "topic \<noteq> []" and new: "mid \<notin> in_mids (e_store e)"
    and E: "\<And>x e'. eng_step e e' \<Longrightarrow> \<not> internal x \<Longrightarrow> E x e'"
    and Q: "\<And>m b h. im_mid m = mid \<Longrightarrow> im_state m = q \<Longrightarrow> im_topic m = topic \<Longrightarrow> im_payload m = payload \<Longrightarrow> im_delivered m = False \<Longrightarrow> 0 < im_logical_size m \<Longrightarrow>
      in_inflight (e_in e) < i_receive_maximum (e_in e) \<Longrightarrow>
      Q (i_next_token (e_in e)) (e\<lparr>e_store := add_in m (e_store e), e_in := stored mid (im_logical_size m) b h (e_in e)\<rparr>)"
  shows "wp (store_inbound (topic, payload, mid, retain, dup, props, wire) qos q) Q E e"
proof (cases "in_logical_size topic payload props wire e")
  case (Inl x)
  with logical_size_external E eng_step_refl [OF ok] show ?thesis
    by (simp add: store_inbound_def wp_simps in_logical_size_def)
next
  case (Inr n)
  then have n: "0 < n" using logical_size_pos [OF _ topic] by (simp add: in_logical_size_def)
  let ?m = "\<lambda>n. \<lparr>im_mid = mid, im_topic = topic, im_payload = payload, im_qos = qos, im_retain = retain,
      im_state = q, im_delivered = False, im_properties = props, im_user_acked = False, im_logical_size = n\<rparr>"
  have put: "put_in (length (in_heap (e_store e))) ((e_store e)\<lparr>in_heap := in_heap (e_store e) @ [?m k]\<rparr>) = (Inr (), add_in (?m k) (e_store e))"
    if "0 < k" for k by (rule put_in_new [OF new]) (use that in simp_all)
  show ?thesis
    unfolding store_inbound_def prod.case wp_sbind [of "sask _"] wp_sask Inr sum.case wp_sthen [of "acquire_slot _"]
    by (rule acquire_slot_ok [OF ok])
      (use E Q [of "?m n"] n in \<open>simp_all add: wp_simps new_in_def put fresh_token_def remember_inbound_def stored_def\<close>)
qed

subsection \<open>Delivery\<close>

lemma exchange_token_ok:
  assumes "engine_ok e"
  shows "wp (exchange_token mid) (\<lambda>_ e'. eng_step e e' \<and> e_store e' = e_store e \<and> e_effects e' = e_effects e \<and> e_state e' = e_state e) (\<lambda>_ _. False) e"
proof -
  have "eng_step e (e\<lparr>e_in := (e_in e)\<lparr>i_exchange_tokens := (i_exchange_tokens (e_in e))(mid \<mapsto> i_next_token (e_in e)),
      i_next_token := Suc (i_next_token (e_in e))\<rparr>\<rparr>)"
    by (rule in_change [OF assms]) (use iinv_token [OF engine_okD(1) [OF assms]] in simp_all)
  then show ?thesis using eng_step_refl [OF assms] by (simp add: exchange_token_def fresh_token_def wp_simps split: option.split)
qed

lemma bind_token_ok:
  assumes "engine_ok e" "msg_mid m = Some mid"
  shows "wp (bind_ack_token m) (\<lambda>_ e'. eng_step e e' \<and> e_store e' = e_store e \<and> e_effects e' = e_effects e \<and> e_state e' = e_state e) (\<lambda>_ _. False) e"
  using exchange_token_ok [OF assms(1), of mid] eng_step_refl [OF assms(1)] by (simp add: bind_ack_token_def wp_simps assms(2))

text \<open>The operation hands over one message and leaves the store alone.\<close>

definition delivers :: "message \<Rightarrow> engine \<Rightarrow> engine \<Rightarrow> bool" where
  "delivers m e e' \<longleftrightarrow> eng_step e e' \<and> e_store e' = e_store e \<and> (\<exists>d. e_effects e' = e_effects e @ [EffMessage d] \<and> d_message d = m)"

lemma deliver_ok: "engine_ok e \<Longrightarrow> wp (deliver m mark wire exch token) (\<lambda>_ e'. delivers m e e') (\<lambda>_ _. False) e"
  using eng_step_effects by (simp add: deliver_def wp_simps delivers_def)

lemma bind_deliver_ok:
  assumes "engine_ok e" "msg_mid m = Some mid"
  shows "wp (sbind (bind_ack_token m) (\<lambda>token. deliver m mark wire exch token)) (\<lambda>_ e'. delivers m e e') (\<lambda>_ _. False) e"
  unfolding wp_sbind
proof (rule wp_mono [OF bind_token_ok [OF assms]])
  fix token e' assume step: "eng_step e e' \<and> e_store e' = e_store e \<and> e_effects e' = e_effects e \<and> e_state e' = e_state e"
  then show "wp (deliver m mark wire exch token) (\<lambda>_ e'. delivers m e e') (\<lambda>_ _. False) e'"
    by (intro wp_mono [OF deliver_ok]) (use eng_step_trans in \<open>auto simp: eng_step_def delivers_def\<close>)
qed simp

lemma emit_message_ok:
  assumes "engine_ok e"
  shows "wp (emit_message m dup) (\<lambda>_ e'. eng_step e e' \<and> e_store e' = e_store e \<and> e_state e' = e_state e) (\<lambda>_ _. False) e"
  unfolding emit_message_def Let_def wp_sbind
proof (rule wp_mono [OF bind_token_ok [OF assms]])
  let ?msg = "decoded_message (im_topic m) (im_payload m) (im_qos m) (im_retain m) dup (Some (im_mid m)) (im_properties m)"
  show "msg_mid ?msg = Some (im_mid m)" by (simp add: decoded_message_def)
  fix token e1 assume 1: "eng_step e e1 \<and> e_store e1 = e_store e \<and> e_effects e1 = e_effects e \<and> e_state e1 = e_state e"
  then have ok1: "engine_ok e1" by (simp add: eng_step_def)
  show "wp (exchange_token (im_mid m)) (\<lambda>x. wp (deliver ?msg True None (Some x) token) (\<lambda>_ e'. eng_step e e' \<and> e_store e' = e_store e \<and> e_state e' = e_state e) (\<lambda>_ _. False)) (\<lambda>_ _. False) e1"
  proof (rule wp_mono [OF exchange_token_ok [OF ok1]])
    fix x e2 assume 2: "eng_step e1 e2 \<and> e_store e2 = e_store e1 \<and> e_effects e2 = e_effects e1 \<and> e_state e2 = e_state e1"
    then have "eng_step e2 (e2\<lparr>e_effects := y\<rparr>)" for y by (intro eng_step_effects) (simp add: eng_step_def)
    with 1 2 have "eng_step e (e2\<lparr>e_effects := y\<rparr>)" for y using eng_step_trans by blast
    with 1 2 show "wp (deliver ?msg True None (Some x) token) (\<lambda>_ e'. eng_step e e' \<and> e_store e' = e_store e \<and> e_state e' = e_state e) (\<lambda>_ _. False) e2"
      by (simp add: deliver_def wp_simps)
  qed simp
qed simp

subsection \<open>QoS 2\<close>

lemma iinv_stored:
  assumes "engine_ok e" "im_mid m = mid" "mid \<notin> in_mids (e_store e)" "1 \<le> mid" "mid \<le> 65535" "0 < im_logical_size m"
    "im_state m = IN_WAIT_PUBREL \<or> manual_ack (e_config e) \<and> im_state m = IN_WAIT_PUBACK"
    "mid \<notin> i_pending_auto_qos1_mids (e_in e)" "mid \<notin> i_pending_pubcomps (e_in e)" "in_inflight (e_in e) < i_receive_maximum (e_in e)"
  shows "eng_step e (e\<lparr>e_store := add_in m (e_store e), e_in := (stored mid (im_logical_size m) b h (e_in e))\<lparr>i_manual_qos1_order :=
    i_manual_qos1_order (e_in e) @ (if im_state m = IN_WAIT_PUBACK then [mid] else [])\<rparr>\<rparr>)" (is "eng_step e ?e")
proof (rule in_change [OF assms(1)])
  have "iinv (e_config e) (add_in m (e_store e)) (e_in ?e)"
    by (rule iinv_store [OF engine_okD(1) [OF assms(1)] assms(2-6)]) (use assms in \<open>auto simp: stored_def\<close>)
  then show "iinv (e_config e) (e_store ?e) (e_in ?e)" by simp
qed (simp_all add: stored_def)

definition answered :: "bytes result \<Rightarrow> effect list \<Rightarrow> engine \<Rightarrow> engine \<Rightarrow> bool" where
  "answered frame rest e e' \<longleftrightarrow> (\<exists>wire. frame = Inr wire \<and> e_effects e' = e_effects e @ EffSendAck wire # rest)"

text \<open>The first arrival is stored, answered and handed over; a repeated one is only answered.\<close>

definition received_once :: "int \<Rightarrow> message \<Rightarrow> engine \<Rightarrow> engine \<Rightarrow> bool" where
  "received_once mid msg e e' \<longleftrightarrow>
     (case in_row (e_store e) mid of
        Some m \<Rightarrow> im_state m = IN_WAIT_PUBREL \<and> e_store e' = e_store e \<and> answered (encode_pubrec_success mid) [] e e'
      | None \<Rightarrow> (\<exists>d m. answered (encode_pubrec_success mid) [EffMessage d] e e' \<and> d_message d = msg
                 \<and> in_row (e_store e') = (in_row (e_store e))(mid \<mapsto> m) \<and> im_state m = IN_WAIT_PUBREL))"

lemma on_qos2_ok:
  assumes ok: "engine_ok e" and fields: "topic \<noteq> []" "1 \<le> mid" "mid \<le> 65535"
  shows "wp (on_qos2 (topic, payload, mid, retain, dup, props, wire))
    (\<lambda>_ e'. eng_step e e' \<and> received_once mid (decoded_message topic payload 2 retain dup (Some mid) props) e e')
    (\<lambda>x e'. eng_step e e' \<and> \<not> internal x) e"
proof -
  have i: "iinv (e_config e) (e_store e) (e_in e)" by (rule engine_okD(1) [OF ok])
  note D = iinvD [OF i]
  obtain w where w: "encode_pubrec_success mid = Inr w" using success_frame(2) [OF fields(2,3)] by blast
  have rj: "wp (reject r) Q (\<lambda>x e'. eng_step e e' \<and> \<not> internal x) e" if "r \<in> {0x82, 0x93, 0x94, 0x97}" for r and Q :: "unit \<Rightarrow> engine \<Rightarrow> bool"
    by (rule reject_ok [OF ok that]) simp
  show ?thesis
  proof (cases "lookup_stored_inbound mid e")
    case None
    then have new: "mid \<notin> in_mids (e_store e)" by (rule lookup_None [OF ok])
    then have none: "in_row (e_store e) mid = None" by (auto simp: in_mids_dom)
    let ?msg = "decoded_message topic payload 2 retain dup (Some mid) props"
    have "wp (sbind (store_inbound (topic, payload, mid, retain, dup, props, wire) 2 IN_WAIT_PUBREL) (\<lambda>exchange.
        sthen (sbind (slift (encode_pubrec_success mid)) send_ack)
          (sbind (bind_ack_token ?msg) (\<lambda>token. deliver ?msg True wire (Some exchange) token))))
      (\<lambda>_ e'. eng_step e e' \<and> received_once mid ?msg e e') (\<lambda>x e'. eng_step e e' \<and> \<not> internal x) e"
      if free: "mid \<notin> i_pending_auto_qos1_mids (e_in e)" "mid \<notin> i_pending_pubcomps (e_in e)"
      unfolding wp_sbind [of "store_inbound _ _ _"]
    proof (rule store_inbound_ok [OF ok fields(1) new])
      fix m :: inbound_message and b h
      assume m: "im_mid m = mid" "im_state m = IN_WAIT_PUBREL" "0 < im_logical_size m" "in_inflight (e_in e) < i_receive_maximum (e_in e)"
      let ?s = "stored mid (im_logical_size m) b h (e_in e)"
      let ?e = "e\<lparr>e_store := add_in m (e_store e), e_in := ?s, e_effects := e_effects e @ [EffSendAck w]\<rparr>"
      have same: "?s\<lparr>i_manual_qos1_order := i_manual_qos1_order (e_in e)\<rparr> = ?s" by (simp add: stored_def)
      have "eng_step e (e\<lparr>e_store := add_in m (e_store e), e_in := ?s\<rparr>)"
        using iinv_stored [OF ok m(1) new fields(2,3) m(3) _ free m(4), of b h] m(2) by (simp add: same)
      from eng_step_emit [OF this, of "e_effects e @ [EffSendAck w]"] have step: "eng_step e ?e" by simp
      then have ok': "engine_ok ?e" by (simp add: eng_step_def)
      have row: "in_row (e_store ?e) = (in_row (e_store e))(mid \<mapsto> m)" using add_in_row(2) [OF D(1) m(1) new m(3)] by simp
      have "received_once mid ?msg e e'" "eng_step e e'" if "delivers ?msg ?e e'" for e'
        using that row m(2) none w eng_step_trans [OF step] by (auto simp: delivers_def received_once_def answered_def)
      then have "wp (sbind (bind_ack_token ?msg) (\<lambda>token. deliver ?msg True wire (Some (i_next_token (e_in e))) token))
          (\<lambda>_ e'. eng_step e e' \<and> received_once mid ?msg e e') (\<lambda>x e'. eng_step e e' \<and> \<not> internal x) ?e"
        by (intro wp_mono [OF bind_deliver_ok [OF ok', of ?msg mid]]) (auto simp: decoded_message_def)
      then show "wp (sthen (sbind (slift (encode_pubrec_success mid)) send_ack)
          (sbind (bind_ack_token ?msg) (\<lambda>token. deliver ?msg True wire (Some (i_next_token (e_in e))) token)))
        (\<lambda>_ e'. eng_step e e' \<and> received_once mid ?msg e e') (\<lambda>x e'. eng_step e e' \<and> \<not> internal x) (e\<lparr>e_store := add_in m (e_store e), e_in := ?s\<rparr>)"
        by (simp only: wp_sthen wp_sbind [of "slift _"] wp_slift w sum.case wp_send_ack) simp
    qed simp_all
    with None rj show ?thesis by (simp add: on_qos2_def wp_simps reject_packet_id_collision_def Let_def)
  next
    case (Some meta)
    obtain m where m: "in_row (e_store e) mid = Some m" "irm_state meta = im_state m" by (rule lookup_Some [OF ok Some])
    have ack: "wp (sthen (claim_slot mid) (sbind (slift (encode_pubrec_success mid)) send_ack))
      (\<lambda>_ e'. eng_step e e' \<and> received_once mid msg e e') (\<lambda>x e'. eng_step e e' \<and> \<not> internal x) e" if q: "im_state m = IN_WAIT_PUBREL" for msg
      unfolding wp_sthen
    proof (rule claim_slot_ok [OF ok])
      fix b assume le: "in_inflight (claimed mid b (e_in e)) \<le> i_receive_maximum (e_in e)"
      have "iinv (e_config e) (e_store e) (claimed mid b (e_in e))"
        by (rule iinv_claimed [OF i _ le]) (use m q in \<open>auto simp: stored_qos1_def in_mids_dom\<close>)
      then have "eng_step e (e\<lparr>e_in := claimed mid b (e_in e), e_effects := y\<rparr>)" for y
        by (intro in_change [OF ok]) (simp_all add: claimed_def)
      with m(1) q w show "wp (sbind (slift (encode_pubrec_success mid)) send_ack)
          (\<lambda>_ e'. eng_step e e' \<and> received_once mid msg e e') (\<lambda>x e'. eng_step e e' \<and> \<not> internal x) (e\<lparr>e_in := claimed mid b (e_in e)\<rparr>)"
        by (simp add: wp_simps received_once_def answered_def)
    qed simp
    have "im_state m \<noteq> IN_DONE" by (rule D(3) [OF m(1)])
    with Some m(2) rj ack show ?thesis
      by (cases "im_state m") (simp_all add: on_qos2_def wp_simps reject_packet_id_collision_def)
  qed
qed

subsection \<open>QoS 1\<close>

text \<open>An exchange starts to wait for its delivery mark, with or without a slot.\<close>

lemma iinv_waiting:
  assumes inv: "iinv c st s" and m: "in_row st mid = Some m" "im_state m = q" and auto: "\<not> manual_ack c"
    and X: "X \<subseteq> insert mid (i_current_persisted_mids s)" "in_inflight (s\<lparr>i_current_persisted_mids := X\<rparr>) \<le> i_receive_maximum s"
  shows "iinv c st (s\<lparr>i_current_persisted_mids := X, i_pending_completions := (i_pending_completions s)(mid \<mapsto> q)\<rparr>)"
proof -
  note D = iinvD [OF inv]
  have mem: "mid \<in> in_mids st" using m(1) by (auto simp: in_mids_dom)
  show ?thesis
  proof (rule iinvI)
    let ?s = "s\<lparr>i_current_persisted_mids := X, i_pending_completions := (i_pending_completions s)(mid \<mapsto> q)\<rparr>"
    show "i_current_persisted_mids ?s \<subseteq> in_mids st" using X(1) D(6) mem by auto
    show "in_inflight ?s \<le> i_receive_maximum ?s" using X(2) by (simp add: in_inflight_def)
    show "i_pending_completions ?s k = Some r \<Longrightarrow> \<exists>m. in_row st k = Some m \<and> im_state m = r" for k r
      using D(17) [of k r] m by (auto split: if_splits)
    show "\<not> manual_ack c \<Longrightarrow> i_current_persisted_mids ?s \<inter> stored_qos1 st \<subseteq> dom (i_pending_completions ?s)" using D(22) X(1) by auto
    show "i_exchange_tokens ?s k = Some t \<Longrightarrow> t < i_next_token ?s" for k t using D(20) [of k t] by simp
    show "i_exchange_tokens ?s k = Some t \<Longrightarrow> i_exchange_tokens ?s k' = Some t \<Longrightarrow> k = k'" for k k' t using D(21) [of k t k'] by simp
  qed (use D auto in \<open>simp_all\<close>)
qed

text \<open>An automatic acknowledgement keeps its slot until the batch is handed over.\<close>

lemma iinv_auto:
  assumes inv: "iinv c st s" and mid: "mid \<notin> in_mids st" "mid \<notin> i_pending_pubcomps s" and slot: "in_inflight s < i_receive_maximum s" and auto: "\<not> manual_ack c"
  shows "iinv c st (s\<lparr>i_pending_auto_qos1_mids := insert mid (i_pending_auto_qos1_mids s)\<rparr>)"
proof -
  note D = iinvD [OF inv]
  show ?thesis
  proof (rule iinvI)
    let ?s = "s\<lparr>i_pending_auto_qos1_mids := insert mid (i_pending_auto_qos1_mids s)\<rparr>"
    show "in_inflight ?s \<le> i_receive_maximum ?s" using slot D(7) by (simp add: in_inflight_def card_insert_if)
    show "i_exchange_tokens ?s k = Some t \<Longrightarrow> t < i_next_token ?s" for k t using D(20) [of k t] by simp
    show "i_exchange_tokens ?s k = Some t \<Longrightarrow> i_exchange_tokens ?s k' = Some t \<Longrightarrow> k = k'" for k k' t using D(21) [of k t k'] by simp
  qed (use D mid auto in \<open>auto\<close>)
qed

lemma recovered_qos1_ok:
  assumes ok: "engine_ok e" and m: "in_row (e_store e) mid = Some m" "im_state m = IN_WAIT_PUBACK" and auto: "\<not> manual_ack (e_config e)"
  shows "wp (complete_recovered_qos1_auto mid) (\<lambda>_ e'. eng_step e e') (\<lambda>x e'. eng_step e e' \<and> \<not> internal x) e"
proof (cases "i_pending_completions (e_in e) mid = None")
  case False
  then show ?thesis using eng_step_refl [OF ok] by (auto simp: complete_recovered_qos1_auto_def wp_simps)
next
  case waits: True
  have i: "iinv (e_config e) (e_store e) (e_in e)" by (rule engine_okD(1) [OF ok])
  note D = iinvD [OF i]
  note r = iinv_row [OF i m(1)]
  obtain w where w: "encode_puback_success mid = Inr w" using success_frame(1) [OF r(1,2)] by blast
  have look: "lookup_stored_inbound mid e = Some (in_record_of mid m)" using lookup_eq [of e mid] ok m(1) by (simp add: engine_ok_def)
  have free: "mid \<notin> i_current_persisted_mids (e_in e)" using D(22) [OF auto] waits m by (auto simp: stored_qos1_def)
  show ?thesis
  proof (cases "im_delivered m")
    case False
    have "wp (sthen (claim_slot mid) (mod_in (\<lambda>s. s\<lparr>i_pending_completions := (i_pending_completions s)(mid \<mapsto> IN_WAIT_PUBACK)\<rparr>)))
      (\<lambda>_ e'. eng_step e e') (\<lambda>x e'. eng_step e e' \<and> \<not> internal x) e"
      unfolding wp_sthen
    proof (rule claim_slot_ok [OF ok])
      fix b assume le: "in_inflight (claimed mid b (e_in e)) \<le> i_receive_maximum (e_in e)"
      have "iinv (e_config e) (e_store e) ((e_in e)\<lparr>i_current_persisted_mids := insert mid (i_current_persisted_mids (e_in e)),
          i_pending_completions := (i_pending_completions (e_in e))(mid \<mapsto> IN_WAIT_PUBACK)\<rparr>)"
        by (rule iinv_waiting [OF i m auto]) (use le in \<open>simp_all add: claimed_def in_inflight_def\<close>)
      then have "iinv (e_config e) (e_store e) ((e_in e)\<lparr>i_current_persisted_mids := insert mid (i_current_persisted_mids (e_in e)),
          i_pending_completions := (i_pending_completions (e_in e))(mid \<mapsto> IN_WAIT_PUBACK), i_autoack_handoff_required := b\<rparr>)" by simp
      moreover have "(e_in e)\<lparr>i_current_persisted_mids := insert mid (i_current_persisted_mids (e_in e)),
          i_pending_completions := (i_pending_completions (e_in e))(mid \<mapsto> IN_WAIT_PUBACK), i_autoack_handoff_required := b\<rparr>
        = (claimed mid b (e_in e))\<lparr>i_pending_completions := (i_pending_completions (e_in e))(mid \<mapsto> IN_WAIT_PUBACK)\<rparr>" by (simp add: claimed_def)
      ultimately have "iinv (e_config e) (e_store e) ((claimed mid b (e_in e))\<lparr>i_pending_completions := (i_pending_completions (e_in e))(mid \<mapsto> IN_WAIT_PUBACK)\<rparr>)"
        by simp
      then have "eng_step e (e\<lparr>e_in := (claimed mid b (e_in e))\<lparr>i_pending_completions := (i_pending_completions (e_in e))(mid \<mapsto> IN_WAIT_PUBACK)\<rparr>\<rparr>)"
        by (intro in_change [OF ok]) (simp_all add: claimed_def)
      then show "wp (mod_in (\<lambda>s. s\<lparr>i_pending_completions := (i_pending_completions s)(mid \<mapsto> IN_WAIT_PUBACK)\<rparr>))
          (\<lambda>_ e'. eng_step e e') (\<lambda>x e'. eng_step e e' \<and> \<not> internal x) (e\<lparr>e_in := claimed mid b (e_in e)\<rparr>)"
        by (simp add: wp_simps claimed_def)
    qed simp
    with False waits look show ?thesis by (simp add: complete_recovered_qos1_auto_def wp_simps in_record_of_def)
  next
    case True
    let ?s = "\<lambda>b. (ended mid m (e_in e))\<lparr>i_pending_auto_qos1_mids := insert mid (i_pending_auto_qos1_mids (e_in e)), i_autoack_handoff_required := b\<rparr>"
    have inv: "iinv (e_config e) (drop_in mid (e_store e)) (?s b)" if "in_inflight (e_in e) < i_receive_maximum (e_in e)" for b
      by (rule iinv_complete [OF i m(1)])
        (use that D free r(6) auto in \<open>auto simp: ended_def in_inflight_def card_insert_if\<close>)
    have step: "eng_step e (e\<lparr>e_store := drop_in mid (e_store e), e_effects := y, e_in := ?s b\<rparr>)" if "in_inflight (e_in e) < i_receive_maximum (e_in e)" for b y
      by (rule in_change [OF ok]) (use inv [OF that] in simp_all)
    have body: "wp (sbind (complete_stored_inbound mid IN_WAIT_PUBACK) (\<lambda>logical_size. sthen forget_inbound
        (sthen (sbind (slift (encode_puback_success mid)) send_ack) (sthen (release_pending_bytes (Some logical_size))
          (mod_in (\<lambda>s. let s1 = s\<lparr>i_pending_auto_qos1_mids := insert mid (i_pending_auto_qos1_mids s)\<rparr>
              in if occupied \<ge> i_receive_maximum s1 then s1\<lparr>i_autoack_handoff_required := True\<rparr> else s1))))))
      (\<lambda>_ e'. eng_step e e') (\<lambda>x e'. eng_step e e' \<and> \<not> internal x) (e\<lparr>e_in := (e_in e)\<lparr>i_autoack_handoff_required := b\<rparr>\<rparr>)"
      if "in_inflight (e_in e) < i_receive_maximum (e_in e)" for b occupied
    proof -
      have "in_row (e_store (e\<lparr>e_in := (e_in e)\<lparr>i_autoack_handoff_required := b\<rparr>\<rparr>)) mid = Some m" using m(1) by simp
      moreover have "0 < i_stored_inbound (e_in (e\<lparr>e_in := (e_in e)\<lparr>i_autoack_handoff_required := b\<rparr>\<rparr>))" using r(5) by simp
      ultimately have eq: "wp (sbind (complete_stored_inbound mid IN_WAIT_PUBACK) (\<lambda>n. sthen forget_inbound (f n))) Q E (e\<lparr>e_in := (e_in e)\<lparr>i_autoack_handoff_required := b\<rparr>\<rparr>) =
          wp (f (im_logical_size m)) Q E (e\<lparr>e_store := drop_in mid (e_store e), e_in := (e_in e)\<lparr>i_autoack_handoff_required := b,
            i_exchange_tokens := (i_exchange_tokens (e_in e))(mid := None), i_pending_completions := (i_pending_completions (e_in e))(mid := None),
            i_stored_inbound := i_stored_inbound (e_in e) - 1\<rparr>\<rparr>)" for f :: "int \<Rightarrow> unit eop" and Q E
        by (subst complete_stored_eq [OF _ m(2)]) simp_all
      let ?t = "(e_in e)\<lparr>i_autoack_handoff_required := b, i_exchange_tokens := (i_exchange_tokens (e_in e))(mid := None),
          i_pending_completions := (i_pending_completions (e_in e))(mid := None), i_stored_inbound := i_stored_inbound (e_in e) - 1,
          i_pending_bytes := i_pending_bytes (e_in e) - im_logical_size m, i_pending_auto_qos1_mids := insert mid (i_pending_auto_qos1_mids (e_in e))\<rparr>"
      have "?t = ?s b" by (simp add: ended_def)
      with step [OF that, where b = b] have plain: "eng_step e (e\<lparr>e_store := drop_in mid (e_store e), e_effects := y, e_in := ?t\<rparr>)" for y by simp
      from step [OF that, where b = True] have full: "eng_step e (e\<lparr>e_store := drop_in mid (e_store e), e_effects := y, e_in :=
          (e_in e)\<lparr>i_exchange_tokens := (i_exchange_tokens (e_in e))(mid := None), i_pending_completions := (i_pending_completions (e_in e))(mid := None),
            i_stored_inbound := i_stored_inbound (e_in e) - 1, i_pending_bytes := i_pending_bytes (e_in e) - im_logical_size m,
            i_pending_auto_qos1_mids := insert mid (i_pending_auto_qos1_mids (e_in e)), i_autoack_handoff_required := True\<rparr>\<rparr>)" for y
        by (simp add: ended_def)
      show ?thesis unfolding eq using r(3,4) plain full by (simp add: wp_simps w release_pending_bytes_def Let_def)
    qed
    have "wp (acquire_slot None) (\<lambda>occupied. wp (sbind (complete_stored_inbound mid IN_WAIT_PUBACK) (\<lambda>logical_size. sthen forget_inbound
        (sthen (sbind (slift (encode_puback_success mid)) send_ack) (sthen (release_pending_bytes (Some logical_size))
          (mod_in (\<lambda>s. let s1 = s\<lparr>i_pending_auto_qos1_mids := insert mid (i_pending_auto_qos1_mids s)\<rparr>
              in if occupied \<ge> i_receive_maximum s1 then s1\<lparr>i_autoack_handoff_required := True\<rparr> else s1))))))
      (\<lambda>_ e'. eng_step e e') (\<lambda>x e'. eng_step e e' \<and> \<not> internal x)) (\<lambda>x e'. eng_step e e' \<and> \<not> internal x) e"
      by (rule acquire_slot_ok [OF ok]) (use body in simp_all)
    with True waits look show ?thesis
      unfolding complete_recovered_qos1_auto_def wp_sbind [of "sget _"] wp_sget id_apply by (simp add: in_record_of_def wp_sbind [of "acquire_slot _"])
  qed
qed

lemma on_qos1_auto_ok:
  assumes ok: "engine_ok e" and fields: "1 \<le> mid" "mid \<le> 65535" and auto: "\<not> manual_ack (e_config e)"
  shows "wp (on_qos1_auto (topic, payload, mid, retain, dup, props, wire)) (\<lambda>_ e'. eng_step e e') (\<lambda>x e'. eng_step e e' \<and> \<not> internal x) e"
proof -
  have i: "iinv (e_config e) (e_store e) (e_in e)" by (rule engine_okD(1) [OF ok])
  obtain w where w: "encode_puback_success mid = Inr w" using success_frame(1) [OF fields] by blast
  have rj: "wp (reject r) Q (\<lambda>x e'. eng_step e e' \<and> \<not> internal x) e" if "r \<in> {0x82, 0x93, 0x94, 0x97}" for r and Q :: "unit \<Rightarrow> engine \<Rightarrow> bool"
    by (rule reject_ok [OF ok that]) simp
  show ?thesis
  proof (cases "lookup_stored_inbound mid e")
    case None
    then have new: "mid \<notin> in_mids (e_store e)" by (rule lookup_None [OF ok])
    let ?keep = "\<lambda>occupied s. let s1 = s\<lparr>i_pending_auto_qos1_mids := insert mid (i_pending_auto_qos1_mids s)\<rparr>
        in if occupied \<ge> i_receive_maximum s1 then s1\<lparr>i_autoack_handoff_required := True\<rparr> else s1"
    have step: "eng_step e (e\<lparr>e_effects := y, e_in := ?keep occupied ((e_in e)\<lparr>i_autoack_handoff_required := b\<rparr>)\<rparr>)"
      if "in_inflight (e_in e) < i_receive_maximum (e_in e)" "mid \<notin> i_pending_pubcomps (e_in e)" for occupied b y
    proof (rule in_change [OF ok])
      have base: "iinv (e_config e) (e_store e) ((e_in e)\<lparr>i_pending_auto_qos1_mids := insert mid (i_pending_auto_qos1_mids (e_in e))\<rparr>)"
        by (rule iinv_auto [OF i new that(2,1) auto])
      have swap: "(e_in e)\<lparr>i_autoack_handoff_required := b, i_pending_auto_qos1_mids := X\<rparr> = (e_in e)\<lparr>i_pending_auto_qos1_mids := X, i_autoack_handoff_required := b\<rparr>" for X
        by simp
      have "iinv (e_config e) (e_store e) ((e_in e)\<lparr>i_autoack_handoff_required := b, i_pending_auto_qos1_mids := insert mid (i_pending_auto_qos1_mids (e_in e))\<rparr>)"
        unfolding swap using base by simp
      with base show "iinv (e_config e) (e_store (e\<lparr>e_effects := y, e_in := ?keep occupied ((e_in e)\<lparr>i_autoack_handoff_required := b\<rparr>)\<rparr>))
          (e_in (e\<lparr>e_effects := y, e_in := ?keep occupied ((e_in e)\<lparr>i_autoack_handoff_required := b\<rparr>)\<rparr>))"
        by (simp add: Let_def)
    qed (simp_all add: Let_def)
    have "wp (acquire_slot None) (\<lambda>occupied. wp (sthen (sbind (slift (encode_puback_success mid)) send_ack)
          (sthen (deliver (decoded_message topic payload 1 retain dup (Some mid) props) False wire None None) (mod_in (?keep occupied))))
        (\<lambda>_ e'. eng_step e e') (\<lambda>x e'. eng_step e e' \<and> \<not> internal x)) (\<lambda>x e'. eng_step e e' \<and> \<not> internal x) e"
      if free: "mid \<notin> i_pending_pubcomps (e_in e)"
      by (rule acquire_slot_ok [OF ok]) (use step [OF _ free] in \<open>simp_all add: wp_simps w deliver_def\<close>)
    with None rj eng_step_effects [OF ok] show ?thesis
      by (simp add: on_qos1_auto_def wp_simps reject_packet_id_collision_def w deliver_def)
  next
    case (Some meta)
    obtain m where m: "in_row (e_store e) mid = Some m" "irm_state meta = im_state m" by (rule lookup_Some [OF ok Some])
    from Some rj recovered_qos1_ok [OF ok m(1) _ auto] m(2) show ?thesis
      by (simp add: on_qos1_auto_def wp_simps reject_packet_id_collision_def)
  qed
qed

lemma get_in_row: "map_option (\<lambda>a. in_heap st ! a) (get_in mid st) = in_row st mid"
  by (simp add: get_in_def in_row_def tab_row_def)

lemma on_qos1_manual_ok:
  assumes ok: "engine_ok e" and fields: "topic \<noteq> []" "1 \<le> mid" "mid \<le> 65535" and manual: "manual_ack (e_config e)"
  shows "wp (on_qos1_manual (topic, payload, mid, retain, dup, props, wire)) (\<lambda>_ e'. eng_step e e') (\<lambda>x e'. eng_step e e' \<and> \<not> internal x) e"
proof -
  have i: "iinv (e_config e) (e_store e) (e_in e)" by (rule engine_okD(1) [OF ok])
  have rj: "wp (reject r) Q (\<lambda>x e'. eng_step e e' \<and> \<not> internal x) e" if "r \<in> {0x82, 0x93, 0x94, 0x97}" for r and Q :: "unit \<Rightarrow> engine \<Rightarrow> bool"
    by (rule reject_ok [OF ok that]) simp
  show ?thesis
  proof (cases "lookup_stored_inbound mid e")
    case None
    then have new: "mid \<notin> in_mids (e_store e)" by (rule lookup_None [OF ok])
    let ?msg = "decoded_message topic payload 1 retain dup (Some mid) props"
    have "wp (sbind (store_inbound (topic, payload, mid, retain, dup, props, wire) 1 IN_WAIT_PUBACK) (\<lambda>exchange.
        sthen (mod_in (\<lambda>s. s\<lparr>i_manual_qos1_order := i_manual_qos1_order s @ [mid]\<rparr>))
          (sbind (bind_ack_token ?msg) (\<lambda>token. deliver ?msg True wire (Some exchange) token))))
      (\<lambda>_ e'. eng_step e e') (\<lambda>x e'. eng_step e e' \<and> \<not> internal x) e"
      if free: "mid \<notin> i_pending_pubcomps (e_in e)"
      unfolding wp_sbind [of "store_inbound _ _ _"]
    proof (rule store_inbound_ok [OF ok fields(1) new])
      fix m :: inbound_message and b h
      assume m: "im_mid m = mid" "im_state m = IN_WAIT_PUBACK" "0 < im_logical_size m" "in_inflight (e_in e) < i_receive_maximum (e_in e)"
      let ?s = "stored mid (im_logical_size m) b h (e_in e)"
      let ?e = "e\<lparr>e_store := add_in m (e_store e), e_in := ?s\<lparr>i_manual_qos1_order := i_manual_qos1_order (e_in e) @ [mid]\<rparr>\<rparr>"
      have step: "eng_step e ?e"
        using iinv_stored [OF ok m(1) new fields(2,3) m(3) _ _ free m(4), of b h] m(2) manual iinvD(15) [OF i manual] by simp
      then have ok': "engine_ok ?e" by (simp add: eng_step_def)
      have "wp (sbind (bind_ack_token ?msg) (\<lambda>token. deliver ?msg True wire (Some (i_next_token (e_in e))) token))
          (\<lambda>_ e'. eng_step e e') (\<lambda>x e'. eng_step e e' \<and> \<not> internal x) ?e"
        by (rule wp_mono [OF bind_deliver_ok [OF ok', of ?msg mid]]) (use eng_step_trans [OF step] in \<open>auto simp: decoded_message_def delivers_def\<close>)
      then show "wp (sthen (mod_in (\<lambda>s. s\<lparr>i_manual_qos1_order := i_manual_qos1_order s @ [mid]\<rparr>))
          (sbind (bind_ack_token ?msg) (\<lambda>token. deliver ?msg True wire (Some (i_next_token (e_in e))) token)))
        (\<lambda>_ e'. eng_step e e') (\<lambda>x e'. eng_step e e' \<and> \<not> internal x) (e\<lparr>e_store := add_in m (e_store e), e_in := ?s\<rparr>)"
        by (simp only: wp_sthen wp_mod_in) (simp add: stored_def)
    qed simp_all
    with None rj show ?thesis by (simp add: on_qos1_manual_def wp_simps reject_packet_id_collision_def Let_def)
  next
    case (Some meta)
    obtain m where m: "in_row (e_store e) mid = Some m" "irm_state meta = im_state m" by (rule lookup_Some [OF ok Some])
    let ?rest = "if mid \<in> i_pending_manual_qos1_acks (e_in e) then drain_manual_qos1_acks
      else sbind (sget (\<lambda>e. map_option (\<lambda>a. in_heap (e_store e) ! a) (get_in mid (e_store e)))) (\<lambda>inbound.
        case inbound of None \<Rightarrow> sthen (swhen (mid \<notin> i_current_persisted_mids (e_in e))
            (mod_in (\<lambda>s. s\<lparr>i_current_persisted_mids := i_current_persisted_mids s - {mid}\<rparr>))) (sraise RuntimeError)
        | Some m \<Rightarrow> emit_message m True)"
    have "wp (sthen (claim_slot mid) ?rest) (\<lambda>_ e'. eng_step e e') (\<lambda>x e'. eng_step e e' \<and> \<not> internal x) e"
      unfolding wp_sthen [of "claim_slot _"]
    proof (rule claim_slot_ok [OF ok])
      fix b assume le: "in_inflight (claimed mid b (e_in e)) \<le> i_receive_maximum (e_in e)"
      let ?e = "e\<lparr>e_in := claimed mid b (e_in e)\<rparr>"
      have "iinv (e_config e) (e_store e) (claimed mid b (e_in e))"
        by (rule iinv_claimed [OF i _ le]) (use m manual in \<open>auto simp: in_mids_dom\<close>)
      then have step: "eng_step e ?e" by (intro in_change [OF ok]) (simp_all add: claimed_def)
      then have ok': "engine_ok ?e" by (simp add: eng_step_def)
      have "wp drain_manual_qos1_acks (\<lambda>_ e'. eng_step e e') (\<lambda>x e'. eng_step e e' \<and> \<not> internal x) ?e"
        by (rule wp_mono [OF drain_manual_ok [OF ok']]) (use manual eng_step_trans [OF step] in auto)
      moreover have "wp (emit_message m True) (\<lambda>_ e'. eng_step e e') (\<lambda>x e'. eng_step e e' \<and> \<not> internal x) ?e"
        by (rule wp_mono [OF emit_message_ok [OF ok']]) (use eng_step_trans [OF step] in auto)
      ultimately show "wp ?rest (\<lambda>_ e'. eng_step e e') (\<lambda>x e'. eng_step e e' \<and> \<not> internal x) ?e"
        using m(1) by (simp add: wp_simps get_in_row)
    qed simp
    with Some m(2) rj show ?thesis
      unfolding on_qos1_manual_def prod.case wp_sbind [of "sget _"] wp_sget id_apply by (simp add: Let_def reject_packet_id_collision_def)
  qed
qed

lemma on_qos1_ok:
  assumes "engine_ok e" "topic \<noteq> []" "1 \<le> mid" "mid \<le> 65535"
  shows "wp (on_qos1 (topic, payload, mid, retain, dup, props, wire)) (\<lambda>_ e'. eng_step e e') (\<lambda>x e'. eng_step e e' \<and> \<not> internal x) e"
  using on_qos1_auto_ok [OF assms(1,3,4)] on_qos1_manual_ok [OF assms] by (simp add: on_qos1_def wp_simps)

end
