(* ===== verification/Inbound_Session.thy ===== *)
theory Inbound_Session
  imports Inbound_Publish
begin

text \<open>
  The packet handlers of the inbound session, manual acknowledgement, the bounded redelivery after a resumed session and
  the lifecycle: every operation keeps the invariants of both sessions and fails none of its internal checks.
\<close>

subsection \<open>PUBLISH\<close>

lemma decode_qos12_fields:
  assumes "decode_qos12_fields_v311 raw = Inr (topic, payload, mid, retain, dup)"
  shows "topic \<noteq> []" "1 \<le> mid" "mid \<le> 65535"
  using assms unpack_u16_range by (fastforce simp: decode_qos12_fields_v311_def rbind_eq_Inr require_nonzero_mid_def guard_def split: if_splits)+

lemma decode_v5_fields:
  assumes "decode_publish_fields_v5 raw qos = Inr (topic, payload, mid_opt, retain, dup, props, n)" "qos \<noteq> 0"
  obtains mid where "mid_opt = Some mid" "1 \<le> mid" "mid \<le> 65535"
  using assms unpack_u16_range
  by (fastforce simp: decode_publish_fields_v5_def rbind_eq_Inr require_nonzero_mid_def guard_def Let_def split: if_splits)

lemma aliases_update: "[] \<notin> snd ` set al \<Longrightarrow> topic \<noteq> [] \<Longrightarrow> [] \<notin> snd ` set (AList.update k topic al)"
  by (induction al) auto

text \<open>The alias of a decoded table is an integer, so reading it does not fail.\<close>

definition int_alias :: "properties option \<Rightarrow> bool" where
  "int_alias props \<longleftrightarrow> (\<forall>v. alias_value props = Some v \<longrightarrow> (\<exists>n. v = VInt n))"

lemma decoded_alias:
  assumes "decode_properties buf off ''PUBLISH'' = Inr (props, p)"
  shows "int_alias (Some props)"
proof (unfold int_alias_def, intro allI impI)
  fix v assume "alias_value (Some props) = Some v"
  then have entry: "(''topic_alias'', v) \<in> set (prop_values props)" by (auto simp: alias_value_def props_get_def split: option.splits prop_value.splits dest: map_of_SomeD)
  have "BY_NAME ''topic_alias'' = Some ((mk_spec 0x23 ''topic_alias'' U16 [''PUBLISH''])\<lparr>nonzero := True\<rparr>)" by (simp add: BY_NAME_def SPECS_def mk_spec_def)
  moreover have "entry_valid ''PUBLISH'' (''topic_alias'', v)" using decode_properties_valid [OF assms] entry by (auto simp: valid_table_def list_all_iff)
  ultimately show "\<exists>n. v = VInt n"
    by (cases v) (auto simp: entry_valid_def entry_items_def collects_def mk_spec_def item_valid_def encode_value_def encode_u16_value_def)
qed

lemma decoded_message_alias:
  "decode_qos0_message_v5 raw = Inr (m, n) \<Longrightarrow> int_alias (msg_properties m)"
  "decode_publish_fields_v5 raw qos = Inr (topic, payload, mid_opt, retain, dup, props, n) \<Longrightarrow> int_alias (Some props)"
  by (auto simp: decode_qos0_message_v5_def decode_publish_fields_v5_def rbind_eq_Inr decoded_message_def Let_def intro: decoded_alias split: if_splits)

lemma resolve_topic_ok:
  assumes ok: "engine_ok e" and given: "int_alias props" and E: "\<And>e'. eng_step e e' \<Longrightarrow> E ProtocolError e'" and Q: "\<And>t e'. t \<noteq> [] \<Longrightarrow> eng_step e e' \<Longrightarrow> e_store e' = e_store e \<Longrightarrow> Q t e'"
  shows "wp (resolve_topic_fields topic props) Q E e"
proof -
  have rj: "wp (reject r) Q E e" if "r \<in> {0x82, 0x93, 0x94, 0x97}" for r
    by (rule reject_ok [OF ok that]) (rule E)
  have refl: "eng_step e e" by (rule eng_step_refl [OF ok])
  have learn: "eng_step e (e\<lparr>e_in := (e_in e)\<lparr>i_aliases := AList.update a topic (i_aliases (e_in e))\<rparr>\<rparr>)" if "topic \<noteq> []" for a
    by (rule in_change [OF ok]) (use engine_okD(1) [OF ok] aliases_update [OF engine_okD(3) [OF ok] that] in simp_all)
  have known: "t \<noteq> []" if "map_of (i_aliases (e_in e)) a = Some t" for a t
    using engine_okD(3) [OF ok] that by (force dest: map_of_SomeD)
  show ?thesis
    using rj refl learn known E Q given
    by (auto simp: resolve_topic_fields_def wp_simps py_int_def int_alias_def split: option.split prop_value.split)
qed

lemma resolve_alias_ok:
  assumes "engine_ok e" "int_alias props" "\<And>e'. eng_step e e' \<Longrightarrow> E ProtocolError e'" "\<And>t p n e'. t \<noteq> [] \<Longrightarrow> eng_step e e' \<Longrightarrow> Q (t, p, n) e'"
  shows "wp (resolve_alias topic props n) Q E e"
proof -
  have "wp (resolve_topic_fields topic props) (\<lambda>t. Q (t, properties_without_topic_alias props, 0)) E e"
    by (rule resolve_topic_ok [OF assms(1,2)]) (use assms in auto)
  with assms(4) eng_step_refl [OF assms(1)] show ?thesis by (simp add: resolve_alias_def wp_simps)
qed

lemma on_publish_ok:
  assumes ok: "engine_ok e"
  shows "wp (handle_publish raw) (\<lambda>_ e'. eng_step e e') (\<lambda>x e'. eng_step e e' \<and> \<not> internal x) e"
proof -
  let ?Q = "\<lambda>_ e'. eng_step e e'" and ?E = "\<lambda>x e'. eng_step e e' \<and> \<not> internal x"
  have refl: "eng_step e e" by (rule eng_step_refl [OF ok])
  have peer: "?E x e" if "peer_error x" for x using that refl peer_external by blast
  have del: "wp (deliver m mark w x t) ?Q ?E e'" if "eng_step e e'" for m mark w x t e'
    using that eng_step_emit by (simp add: deliver_def wp_simps)
  have h1: "wp (on_qos1 (topic, payload, mid, retain, dup, props, w)) ?Q ?E e'"
    and h2: "wp (on_qos2 (topic, payload, mid, retain, dup, props, w)) ?Q ?E e'"
    if "eng_step e e'" "topic \<noteq> []" "1 \<le> mid" "mid \<le> 65535" for topic payload mid retain dup props w e'
  proof -
    have ok': "engine_ok e'" using that(1) by (simp add: eng_step_def)
    show "wp (on_qos1 (topic, payload, mid, retain, dup, props, w)) ?Q ?E e'"
      by (rule wp_mono [OF on_qos1_ok [OF ok' that(2-4)]]) (use eng_step_trans [OF that(1)] in auto)
    show "wp (on_qos2 (topic, payload, mid, retain, dup, props, w)) ?Q ?E e'"
      by (rule wp_mono [OF on_qos2_ok [OF ok' that(2-4)]]) (use eng_step_trans [OF that(1)] in auto)
  qed
  have v311: "wp (on_publish_v311 raw) ?Q ?E e"
  proof (cases "decode_qos12_fields_v311 raw")
    case (Inl x)
    then show ?thesis using refl del [OF refl] peer decode_publish_peer by (simp add: on_publish_v311_def wp_simps split: sum.split)
  next
    case (Inr t)
    then obtain topic payload mid retain dup where t: "t = (topic, payload, mid, retain, dup)" by (cases t)
    note f = decode_qos12_fields [OF Inr [unfolded t]]
    show ?thesis using refl del [OF refl] peer decode_publish_peer h1 [OF refl f] h2 [OF refl f]
      by (simp add: on_publish_v311_def wp_simps Inr t split: sum.split)
  qed
  have v5: "wp (on_publish_v5 raw) ?Q ?E e"
  proof -
    have zero: "wp (sbind (slift (decode_qos0_message_v5 raw)) (\<lambda>(m, wire_size).
        if msg_properties m = None then sraise AssertionError
        else if msg_topic m = [] \<or> alias_value (msg_properties m) \<noteq> None then
          sbind (resolve_topic_fields (msg_topic m) (msg_properties m)) (\<lambda>topic.
            deliver (decoded_message topic (msg_payload m) 0 (msg_retain m) False None (properties_without_topic_alias (msg_properties m)))
              False None None None)
        else deliver m False (wire_size_if wire_size (msg_properties m)) None None)) ?Q ?E e"
    proof (cases "decode_qos0_message_v5 raw")
      case (Inl x)
      then show ?thesis using peer [OF decode_publish_peer(2)] refl by (simp add: wp_simps)
    next
      case (Inr t)
      obtain m n where t: "t = (m, n)" by (cases t)
      then obtain p where "msg_properties m = Some p" using Inr by (auto simp: decode_qos0_message_v5_def rbind_eq_Inr decoded_message_def split: if_splits)
      moreover have "wp (resolve_topic_fields (msg_topic m) (msg_properties m)) (\<lambda>topic. wp (deliver (decoded_message topic (msg_payload m) 0
          (msg_retain m) False None (properties_without_topic_alias (msg_properties m))) False None None None) ?Q ?E) ?E e"
        by (rule resolve_topic_ok [OF ok decoded_message_alias(1) [OF Inr [unfolded t]]]) (use del in auto)
      ultimately show ?thesis using del [OF refl] by (simp add: wp_simps Inr t)
    qed
    show ?thesis
    proof (cases "flags_qos raw = 0 \<or> flags_qos raw = 3")
      case True
      with zero refl show ?thesis by (auto simp: on_publish_v5_def wp_sraise)
    next
      case False
      show ?thesis
      proof (cases "decode_publish_fields_v5 raw (flags_qos raw)")
        case (Inl x)
        with False peer [OF decode_publish_peer(4)] refl show ?thesis by (simp add: on_publish_v5_def wp_simps)
      next
        case (Inr t)
        obtain topic payload mo retain dup props n where t: "t = (topic, payload, mo, retain, dup, props, n)" by (cases t)
        obtain mid where mid: "mo = Some mid" "1 \<le> mid" "mid \<le> 65535" using decode_v5_fields [OF Inr [unfolded t]] False by blast
        have "wp (resolve_alias topic (Some props) n) (\<lambda>x s. case x of (t', p', n') \<Rightarrow>
            wp (h (t', payload, mid, retain, dup, p', wire_size_if n' p')) ?Q ?E s) ?E e" if "h = on_qos1 \<or> h = on_qos2" for h
          by (rule resolve_alias_ok [OF ok decoded_message_alias(2) [OF Inr [unfolded t]]]) (use h1 h2 mid that in auto)
        with False mid(1) show ?thesis by (simp add: on_publish_v5_def wp_simps Inr t)
      qed
    qed
  qed
  from v311 v5 show ?thesis by (simp add: handle_publish_def wp_simps)
qed

subsection \<open>PUBREL\<close>

lemma transition_step:
  assumes ok: "engine_ok e" and m: "in_row (e_store e) mid = Some m" "im_state m = q"
    and q': "q' = q \<or> manual_ack (e_config e) \<and> q = IN_WAIT_PUBREL \<and> q' = IN_WAIT_USER_ACK"
    and Q: "\<And>r e'. eng_step e e' \<Longrightarrow> Q (Some r) e'"
  shows "wp (on_store (transition_in mid q q' u)) Q E e"
proof -
  from m(1) obtain a where a: "map_of (in_tab (e_store e)) mid = Some a" "in_heap (e_store e) ! a = m" by (auto simp: in_row_def tab_row_def)
  let ?m = "case u of None \<Rightarrow> m\<lparr>im_state := q'\<rparr> | Some b \<Rightarrow> m\<lparr>im_state := q', im_user_acked := b\<rparr>"
  have t: "transition_in mid q q' u (e_store e) = (Some (in_record_of mid ?m), set_in a ?m (e_store e))"
    using a m(2) by (simp add: transition_in_def Let_def set_in_def)
  have i: "iinv (e_config e) (e_store e) (e_in e)" by (rule engine_okD(1) [OF ok])
  have "iinv (e_config e) (set_in a ?m (e_store e)) (e_in e)"
    by (rule iinv_advance [OF i a(1)]) (use a(2) m(2) q' iinv_row(7) [OF i m(1)] in \<open>auto split: option.split\<close>)
  then have "eng_step e (e\<lparr>e_store := set_in a ?m (e_store e)\<rparr>)" by (intro in_change [OF ok]) simp_all
  with Q show ?thesis by (simp add: wp_simps t)
qed

lemma on_pubrel_ok:
  assumes ok: "engine_ok e"
  shows "wp (on_pubrel raw) (\<lambda>_ e'. eng_step e e') (\<lambda>x e'. eng_step e e' \<and> peer_error x) e"
proof (cases "decode_pubrel (e_codec e) (remaining raw)")
  case (Inl x)
  then have "peer_error x" by (auto simp: e_codec_def dest: wire_errors)
  with Inl eng_step_refl [OF ok] show ?thesis by (simp add: on_pubrel_def wp_simps)
next
  case (Inr t)
  obtain mid r props where t: "t = (mid, r, props)" by (cases t)
  let ?Q = "\<lambda>_ e'. eng_step e e'" and ?E = "\<lambda>x e'. eng_step e e' \<and> peer_error x"
  have mid: "1 \<le> mid" "mid \<le> 65535" using bound_mid_range(3) Inr t by blast+
  have i: "iinv (e_config e) (e_store e) (e_in e)" by (rule engine_okD(1) [OF ok])
  have refl: "eng_step e e" by (rule eng_step_refl [OF ok])
  obtain w where w: "encode_pubcomp_success mid = Inr w" using success_frame(4) [OF mid] by blast
  have check: "wp (check_problem_information props) Q ?E e" if "Q () e" for Q
    by (rule check_info_ok(1) [OF ok]) (use that in auto)
  show ?thesis
  proof (cases "lookup_stored_inbound mid e")
    case None
    then show ?thesis using eng_step_effects [OF ok] by (simp add: on_pubrel_def wp_simps Inr t check w)
  next
    case (Some meta)
    obtain m where m: "in_row (e_store e) mid = Some m" "irm_state meta = im_state m" "irm_delivered meta = im_delivered m" "irm_user_acked meta = im_user_acked m"
      by (rule lookup_Some [OF ok Some])
    have complete: "wp (complete_qos2 mid (im_state m)) ?Q ?E e" if "im_state m \<noteq> IN_WAIT_PUBACK"
      by (rule wp_mono [OF complete_qos2_ok [OF ok m(1) HOL.refl that]]) auto
    have wait: "eng_step e (e\<lparr>e_in := (e_in e)\<lparr>i_pending_completions := (i_pending_completions (e_in e))(mid \<mapsto> im_state m)\<rparr>\<rparr>)"
      if "\<not> manual_ack (e_config e)"
    proof -
      have "iinv (e_config e) (e_store e) ((e_in e)\<lparr>i_current_persisted_mids := i_current_persisted_mids (e_in e),
          i_pending_completions := (i_pending_completions (e_in e))(mid \<mapsto> im_state m)\<rparr>)"
        by (rule iinv_waiting [OF i m(1) _ that]) (use iinvD(14) [OF i] in \<open>auto simp: in_inflight_def\<close>)
      then show ?thesis by (intro in_change [OF ok]) simp_all
    qed
    have advance: "wp (on_store (transition_in mid IN_WAIT_PUBREL IN_WAIT_USER_ACK None)) (\<lambda>changed. wp (case changed of None \<Rightarrow> sraise RuntimeError | Some _ \<Rightarrow> sret ()) ?Q ?E) ?E e"
      if "manual_ack (e_config e)" "im_state m = IN_WAIT_PUBREL"
      by (rule transition_step [OF ok m(1) that(2)]) (use that in \<open>auto simp: wp_simps\<close>)
    show ?thesis
      using refl complete wait advance iinvD(3) [OF i m(1)] m(2-4)
      by (cases "im_state m") (auto simp: on_pubrel_def wp_simps Inr t Some Let_def intro!: check)
  qed
qed

subsection \<open>Manual acknowledgement\<close>

lemma in_ack_ok:
  assumes ok: "engine_ok e"
  shows "wp (in_ack mid message) (\<lambda>_ e'. eng_step e e') (\<lambda>x e'. eng_step e e' \<and> \<not> internal x) e"
proof -
  let ?Q = "\<lambda>_ e'. eng_step e e'" and ?E = "\<lambda>x e'. eng_step e e' \<and> \<not> internal x"
  have refl: "eng_step e e" by (rule eng_step_refl [OF ok])
  have i: "iinv (e_config e) (e_store e) (e_in e)" by (rule engine_okD(1) [OF ok])
  show ?thesis
  proof (cases "lookup_stored_inbound mid e")
    case None
    then show ?thesis using refl by (simp add: in_ack_def wp_simps)
  next
    case (Some meta)
    obtain m where m: "in_row (e_store e) mid = Some m" "irm_state meta = im_state m" by (rule lookup_Some [OF ok Some])
    note r = iinv_row [OF i m(1)]
    obtain w w' where w: "encode_puback_success mid = Inr w" "encode_pubcomp_success mid = Inr w'" using success_frame(1,4) [OF r(1,2)] by blast
    have mark: "wp (on_store (transition_in mid IN_WAIT_PUBREL IN_WAIT_PUBREL (Some True))) (\<lambda>changed s. (\<exists>r. changed = Some r) \<and> eng_step e s) ?E e"
      if "im_state m = IN_WAIT_PUBREL"
      by (rule transition_step [OF ok m(1) that]) auto
    have complete: "wp (complete_qos2 mid IN_WAIT_USER_ACK) ?Q ?E e" if "im_state m = IN_WAIT_USER_ACK"
      by (rule wp_mono [OF complete_qos2_ok [OF ok m(1) that]]) auto
    let ?e = "e\<lparr>e_in := (e_in e)\<lparr>i_pending_manual_qos1_acks := insert mid (i_pending_manual_qos1_acks (e_in e))\<rparr>\<rparr>"
    have step: "eng_step e ?e" by (rule in_change [OF ok]) (use i in simp_all)
    then have ok': "engine_ok ?e" by (simp add: eng_step_def)
    have drain: "wp drain_manual_qos1_acks ?Q ?E ?e" if "manual_ack (e_config e)"
      by (rule wp_mono [OF drain_manual_ok [OF ok']]) (use that eng_step_trans [OF step] in auto)
    show ?thesis
      using refl mark complete drain iinvD(3) [OF i m(1)] m(2)
      by (cases "im_state m") (auto simp: in_ack_def wp_simps Some w)
  qed
qed

subsection \<open>Redelivery\<close>

lemma replay_loop_ok:
  "engine_ok e \<Longrightarrow> wp (replay_loop c n b) (\<lambda>_ e'. eng_step e e' \<and> e_store e' = e_store e \<and> e_state e' = e_state e) (\<lambda>_ _. False) e"
proof (induction c n b e rule: replay_loop.induct)
  case (1 c n b e)
  note refl = eng_step_refl [OF "1.prems"]
  show ?case
  proof (cases "n < REPLAY_BATCH_MESSAGES \<and> b < REPLAY_BATCH_BYTES")
    case False
    then show ?thesis using refl by (auto simp: wp_def replay_loop.simps [of c n b e])
  next
    case go: True
    show ?thesis
    proof (cases "next_page_message c")
      case (Pair nx c')
      show ?thesis
      proof (cases nx)
        case None
        then show ?thesis using refl go by (simp add: wp_def replay_loop.simps [of c n b e] Pair)
      next
        case (Some a)
        let ?m = "in_heap (e_store e) ! a"
        have free: "rc_pending c' = None" using Pair Some by (auto simp: next_page_message_def split: option.splits list.splits)
        obtain r e1 where run: "emit_message ?m True e = (r, e1)" by fastforce
        from emit_message_ok [OF "1.prems", of ?m True] obtain u where u: "r = Inr u" and step: "eng_step e e1" "e_store e1 = e_store e" "e_state e1 = e_state e"
          by (auto simp: wp_def run split: sum.splits)
        have ok1: "engine_ok e1" using step(1) by (simp add: eng_step_def)
        have skip: "wp (replay_loop c' n b) (\<lambda>_ e'. eng_step e e' \<and> e_store e' = e_store e \<and> e_state e' = e_state e) (\<lambda>_ _. False) e" if "\<not> should_redeliver ?m e"
          by (rule "1.IH"(1) [OF _ Pair [symmetric] Some]) (use go that "1.prems" in auto)
        have rest: "wp (replay_loop c' (n + 1) (b + im_logical_size ?m)) (\<lambda>_ e'. eng_step e e' \<and> e_store e' = e_store e \<and> e_state e' = e_state e) (\<lambda>_ _. False) e1"
          if "should_redeliver ?m e" "\<not> (n \<noteq> 0 \<and> b + im_logical_size ?m > REPLAY_BATCH_BYTES)"
          by (rule wp_mono, rule "1.IH"(2) [OF _ Pair [symmetric] Some _ _ _ _ run [symmetric] u ok1])
            (use go that eng_step_trans [OF step(1)] step(2,3) in auto)
        show ?thesis
          using go skip rest refl free
          by (auto simp: wp_def replay_loop.simps [of c n b e] Pair Some Let_def run u push_back_def slift_def)
      qed
    qed
  qed
qed

lemma cursor_step:
  assumes "engine_ok e" "eng_step e e'"
  shows "eng_step e (e'\<lparr>e_in := (e_in e')\<lparr>i_replay := p\<rparr>\<rparr>)" "eng_step e (e'\<lparr>e_in := (e_in e')\<lparr>i_replay := p, i_recovered_mids := R\<rparr>\<rparr>)"
    "eng_step e (e'\<lparr>e_in := (e_in e')\<lparr>i_recovered_mids := R\<rparr>\<rparr>)"
proof -
  have ok: "engine_ok e'" using assms(2) by (simp add: eng_step_def)
  have "eng_step e' (e'\<lparr>e_in := (e_in e')\<lparr>i_replay := p\<rparr>\<rparr>)" "eng_step e' (e'\<lparr>e_in := (e_in e')\<lparr>i_replay := p, i_recovered_mids := R\<rparr>\<rparr>)"
    "eng_step e' (e'\<lparr>e_in := (e_in e')\<lparr>i_recovered_mids := R\<rparr>\<rparr>)"
    by (rule in_change [OF ok]; use engine_okD(1) [OF ok] in simp)+
  then show "eng_step e (e'\<lparr>e_in := (e_in e')\<lparr>i_replay := p\<rparr>\<rparr>)" "eng_step e (e'\<lparr>e_in := (e_in e')\<lparr>i_replay := p, i_recovered_mids := R\<rparr>\<rparr>)"
    "eng_step e (e'\<lparr>e_in := (e_in e')\<lparr>i_recovered_mids := R\<rparr>\<rparr>)"
    using eng_step_trans [OF assms(2)] by blast+
qed

lemma drain_replay_ok:
  assumes ok: "engine_ok e"
  shows "wp drain_replay (\<lambda>_ e'. eng_step e e' \<and> e_state e' = e_state e) (\<lambda>_ _. False) e"
proof (cases "i_replay (e_in e)")
  case None
  then show ?thesis using eng_step_refl [OF ok] by (simp add: drain_replay_def wp_simps)
next
  case (Some cursor)
  obtain more' cursor' where p: "begin_page (e_store e) cursor = (more', cursor')" by fastforce
  have "wp (replay_loop cursor' 0 0) (\<lambda>x s. (bounded_complete x \<longrightarrow> eng_step e (s\<lparr>e_in := (e_in s)\<lparr>i_replay := None, i_recovered_mids := {}\<rparr>\<rparr>) \<and> e_state s = e_state e) \<and>
      (\<not> bounded_complete x \<longrightarrow> eng_step e (s\<lparr>e_in := (e_in s)\<lparr>i_replay := Some x\<rparr>, e_effects := e_effects s @ [EffContinueInboundReplay]\<rparr>) \<and> e_state s = e_state e)) (\<lambda>_ _. False) e"
    by (rule wp_mono [OF replay_loop_ok [OF ok]]) (use cursor_step [OF ok] eng_step_emit in auto)
  then show ?thesis
    using cursor_step(2) [OF ok eng_step_refl [OF ok]] by (cases more') (simp_all add: drain_replay_def wp_simps Some p)
qed

lemma in_replay_session_ok:
  assumes ok: "engine_ok e"
  shows "wp in_replay_session (\<lambda>_ e'. eng_step e e' \<and> e_state e' = e_state e) (\<lambda>_ _. False) e"
proof -
  have i: "iinv (e_config e) (e_store e) (e_in e)" by (rule engine_okD(1) [OF ok])
  let ?e = "e\<lparr>e_in := (e_in e)\<lparr>i_current_persisted_mids := {}\<rparr>\<rparr>"
  have "iinv (e_config e) (e_store e) ((e_in e)\<lparr>i_current_persisted_mids := {}\<rparr>)"
    by (rule iinv_same [OF i]) (use iinvD [OF i] inflight_drop [OF i, of "{}"] in \<open>auto simp: in_inflight_def\<close>)
  then have step: "eng_step e ?e" by (intro in_change [OF ok]) simp_all
  have "wp drain_replay (\<lambda>_ e'. eng_step e e' \<and> e_state e' = e_state e) (\<lambda>_ _. False) (?e\<lparr>e_in := (e_in ?e)\<lparr>i_replay := p\<rparr>\<rparr>)" for p
  proof -
    have s': "eng_step e (?e\<lparr>e_in := (e_in ?e)\<lparr>i_replay := p\<rparr>\<rparr>)" by (rule cursor_step(1) [OF ok step])
    then have "engine_ok (?e\<lparr>e_in := (e_in ?e)\<lparr>i_replay := p\<rparr>\<rparr>)" by (simp add: eng_step_def)
    from drain_replay_ok [OF this] show ?thesis by (rule wp_mono) (use eng_step_trans [OF s'] in auto)
  qed
  with cursor_step(3) [OF ok step] show ?thesis
    by (simp add: in_replay_session_def wp_simps in_replay_start_def REPLAY_BATCH_MESSAGES_def REPLAY_BATCH_BYTES_def)
qed

subsection \<open>Lifecycle\<close>

lemma in_start_ok:
  assumes ok: "engine_ok e" and rm: "0 \<le> rm"
  shows "wp (in_start_connection rm k) (\<lambda>_ e'. eng_step e e') (\<lambda>_ _. False) e"
proof -
  have i: "iinv (e_config e) (e_store e) (e_in e)" by (rule engine_okD(1) [OF ok])
  let ?s = "(e_in e)\<lparr>i_aliases := [], i_receive_maximum := rm, i_topic_alias_maximum := k, i_current_persisted_mids := {},
     i_autoack_handoff_required := False, i_pending_auto_qos1_mids := {}, i_pending_pubcomps := {},
     i_pending_pubcomp_slots := 0, i_pending_manual_qos1_acks := {}, i_replay := None\<rparr>"
  have "iinv (e_config e) (e_store e) ?s"
    by (rule iinv_same [OF i]) (use iinvD [OF i] rm in \<open>auto simp: in_inflight_def\<close>)
  then have "eng_step e (e\<lparr>e_in := ?s\<rparr>)" by (intro in_change [OF ok]) simp_all
  then show ?thesis by (simp add: in_start_connection_def wp_simps)
qed

text \<open>Handing the batch over frees what its acknowledgements held.\<close>

lemma pubcomp_slots_zero: "iinv c st s \<Longrightarrow> i_pending_pubcomps s = {} \<Longrightarrow> i_pending_pubcomp_slots s = 0"
  using iinvD(12,13) by fastforce

lemma release_acks_ok:
  assumes ok: "engine_ok e"
  shows "wp release_pending_acks (\<lambda>_ e'. eng_step e e' \<and> i_pending_auto_qos1_mids (e_in e') = {} \<and> i_pending_pubcomps (e_in e') = {}) (\<lambda>_ _. False) e"
proof -
  have i: "iinv (e_config e) (e_store e) (e_in e)" by (rule engine_okD(1) [OF ok])
  note D = iinvD [OF i]
  let ?s = "\<lambda>n. (e_in e)\<lparr>i_autoack_handoff_required := False, i_pending_auto_qos1_mids := {}, i_pending_pubcomp_slots := n, i_pending_pubcomps := {}\<rparr>"
  have le: "int (card (i_current_persisted_mids (e_in e))) \<le> i_receive_maximum (e_in e)" using D(12,14) by (simp add: in_inflight_def)
  have "iinv (e_config e) (e_store e) (?s 0)"
    by (rule iinv_same [OF i]) (use D le in \<open>auto simp: in_inflight_def\<close>)
  then have step: "eng_step e (e\<lparr>e_in := ?s 0\<rparr>)" by (intro in_change [OF ok]) simp_all
  show ?thesis
  proof (cases "i_pending_pubcomps (e_in e) = {}")
    case True
    then have "(e_in e)\<lparr>i_autoack_handoff_required := False, i_pending_auto_qos1_mids := {}\<rparr> = ?s 0" using pubcomp_slots_zero [OF i] by simp
    with True step show ?thesis by (simp add: release_pending_acks_def wp_simps)
  next
    case False
    with step show ?thesis by (simp add: release_pending_acks_def wp_simps)
  qed
qed

lemma in_closed_ok:
  assumes ok: "engine_ok e"
  shows "wp in_transport_closed (\<lambda>_ e'. eng_step e e') (\<lambda>_ _. False) e"
proof -
  have i: "iinv (e_config e) (e_store e) (e_in e)" by (rule engine_okD(1) [OF ok])
  let ?s = "(e_in e)\<lparr>i_aliases := [], i_current_persisted_mids := {}, i_pending_completions := Map.empty, i_pending_manual_qos1_acks := {}\<rparr>"
  have "iinv (e_config e) (e_store e) ?s"
    by (rule iinv_same [OF i]) (use iinvD [OF i] inflight_drop [OF i, of "{}"] in \<open>auto simp: in_inflight_def\<close>)
  then have step: "eng_step e (e\<lparr>e_in := ?s\<rparr>)" by (intro in_change [OF ok]) simp_all
  then have ok': "engine_ok (e\<lparr>e_in := ?s\<rparr>)" by (simp add: eng_step_def)
  have "wp release_pending_acks (\<lambda>_ s. eng_step e (s\<lparr>e_in := (e_in s)\<lparr>i_replay := None\<rparr>\<rparr>)) (\<lambda>_ _. False) (e\<lparr>e_in := ?s\<rparr>)"
    by (rule wp_mono [OF release_acks_ok [OF ok']]) (use cursor_step(1) [OF ok] eng_step_trans [OF step] in auto)
  then show ?thesis by (simp add: in_transport_closed_def wp_simps)
qed

lemma discard_ok:
  assumes ok: "engine_ok e" and rm: "0 \<le> i_receive_maximum (e_in e)"
  shows "wp discard_session (\<lambda>_ e'. eng_step e e' \<and> in_mids (e_store e') = {} \<and> i_stored_inbound (e_in e') = 0) (\<lambda>_ _. False) e"
proof -
  have i: "iinv (e_config e) (e_store e) (e_in e)" by (rule engine_okD(1) [OF ok])
  have row: "in_row (clear_in st) = Map.empty" "in_mids (clear_in st) = {}" "stored_qos1 (clear_in st) = {}" for st
    by (auto simp: clear_in_def in_row_def tab_row_def in_mids_def stored_qos1_def)
  have inv: "store_inv (clear_in (e_store e))" using iinvD(1) [OF i] by (simp add: store_inv_def clear_in_def tab_inv_def)
  let ?s = "(e_in e)\<lparr>i_recovered_mids := {}, i_replay := None, i_current_persisted_mids := {}, i_exchange_tokens := Map.empty,
          i_pending_completions := Map.empty, i_pending_bytes := 0, i_stored_inbound := 0, i_autoack_handoff_required := False,
          i_pending_auto_qos1_mids := {}, i_pending_pubcomps := {}, i_pending_pubcomp_slots := 0,
          i_pending_manual_qos1_acks := {}, i_manual_qos1_order := []\<rparr>"
  have "iinv (e_config e) (clear_in (e_store e)) ?s"
    by (rule iinvI) (use inv rm in \<open>simp_all add: row in_inflight_def irows.weight_def\<close>)
  then have "eng_step e (e\<lparr>e_store := clear_in (e_store e), e_in := ?s\<rparr>)" by (intro in_change [OF ok]) simp_all
  then show ?thesis by (simp add: discard_session_def wp_simps row)
qed

subsection \<open>Recovery of a store\<close>

lemma load_recovered_eq:
  "list_all (\<lambda>m. 0 < irm_logical_size m) ms \<Longrightarrow> load_recovered ms (M, n, q) =
     Inr (M \<union> irm_mid ` set ms, n + sum_list (map irm_logical_size ms), q @ map irm_mid (filter (\<lambda>m. irm_state m = IN_WAIT_PUBACK) ms))"
  by (induction ms arbitrary: M n q) (auto simp: Let_def)

lemma new_inbound_ok:
  assumes inv: "store_inv st" and range: "in_mids st \<subseteq> {1..65535}" and live: "\<And>mid m. in_row st mid = Some m \<Longrightarrow> im_state m \<noteq> IN_DONE"
    and rm: "0 \<le> max_inbound_inflight c"
  obtains s where "new_inbound c st = Inr s" "iinv c st s" "i_aliases s = []"
proof -
  have tab: "distinct (map fst (in_tab st))" "\<And>mid a. (mid, a) \<in> set (in_tab st) \<Longrightarrow> 0 < im_logical_size (in_heap st ! a)"
    using store_invD(2) [OF inv] by (auto simp: tab_inv_def)
  have row: "in_row st mid = Some m \<longleftrightarrow> (\<exists>a. (mid, a) \<in> set (in_tab st) \<and> m = in_heap st ! a)" for mid m
    using tab(1) by (auto simp: in_row_def tab_row_def)
  have "list_all (\<lambda>m. 0 < irm_logical_size m) (in_index st)" using tab(2) by (auto simp: in_index_def in_record_of_def list_all_iff)
  from load_recovered_eq [OF this] have load: "load_recovered_state st = Inr (irm_mid ` set (in_index st), sum_list (map irm_logical_size (in_index st)),
      map irm_mid (filter (\<lambda>m. irm_state m = IN_WAIT_PUBACK) (in_index st)))" by (simp add: load_recovered_state_def)
  have mids: "irm_mid ` set (in_index st) = in_mids st" by (force simp: in_index_def in_record_of_def in_mids_def)
  have order: "map irm_mid (filter (\<lambda>m. irm_state m = IN_WAIT_PUBACK) (in_index st)) = map fst (filter (\<lambda>(mid, a). im_state (in_heap st ! a) = IN_WAIT_PUBACK) (in_tab st))"
    by (auto simp: in_index_def in_record_of_def filter_map o_def intro!: arg_cong2 [where f = map] filter_cong)
  have q1: "set (map fst (filter (\<lambda>(mid, a). im_state (in_heap st ! a) = IN_WAIT_PUBACK) (in_tab st))) = stored_qos1 st"
    by (force simp: stored_qos1_def row)
  have dist: "distinct (map fst (filter P (in_tab st)))" for P using tab(1) by (simp add: distinct_map_filter)
  have "sum_list (map irm_logical_size (in_index st)) = (\<Sum>mid \<in> in_mids st. im_logical_size (the (in_row st mid)))"
  proof -
    have "sum_list (map irm_logical_size (in_index st)) = sum_list (map (\<lambda>mid. im_logical_size (the (in_row st mid))) (map fst (in_tab st)))"
      using row by (auto simp: in_index_def in_record_of_def intro!: arg_cong [where f = sum_list] split: prod.split) (metis option.sel)
    then show ?thesis using sum_list_distinct_conv_sum_set [OF tab(1)] by (simp add: in_mids_def)
  qed
  then have w: "sum_list (map irm_logical_size (in_index st)) = irows.weight {} st" by (simp add: irows.weight_def in_mids_dom)
  let ?s = "\<lparr>i_aliases = [], i_receive_maximum = max_inbound_inflight c, i_topic_alias_maximum = cfg_topic_alias_maximum c,
            i_current_persisted_mids = {}, i_exchange_tokens = Map.empty, i_pending_completions = Map.empty,
            i_autoack_handoff_required = False, i_pending_auto_qos1_mids = {}, i_pending_pubcomps = {},
            i_pending_pubcomp_slots = 0, i_pending_manual_qos1_acks = {},
            i_manual_qos1_order = (if manual_ack c then map fst (filter (\<lambda>(mid, a). im_state (in_heap st ! a) = IN_WAIT_PUBACK) (in_tab st)) else []),
            i_pending_bytes = irows.weight {} st, i_pending_high_water_bytes = irows.weight {} st,
            i_recovered_mids = in_mids st, i_replay = None, i_stored_inbound = int (card (in_mids st)), i_next_token = 0\<rparr>"
  show ?thesis
  proof (rule that)
    show "new_inbound c st = Inr ?s" by (simp add: new_inbound_def load mids order w)
    show "iinv c st ?s"
      by (rule iinvI) (use inv range live rm dist q1 in \<open>simp_all add: in_inflight_def\<close>)
  qed simp
qed

end
