(* ===== verification/Engine_Inv.thy ===== *)
theory Engine_Inv
  imports Inbound_Session
begin

text \<open>
  The invariant of the whole engine: every operation of \<^verbatim>\<open>protocol/engine.py\<close> keeps the invariants of the two sessions,
  and no packet of the peer makes it fail one of its own checks.
\<close>

subsection \<open>Changes outside the sessions\<close>

lemma shell_step:
  assumes "engine_ok e" "e_store e' = e_store e" "e_out e' = e_out e" "e_in e' = e_in e" "e_config e' = e_config e"
    "e_pending_sub_requests e' = e_pending_sub_requests e"
  shows "eng_step e e'"
  by (rule in_change [OF assms(1)]) (use assms engine_okD [OF assms(1)] in simp_all)

lemma eng_ok: "eng_step e e' \<Longrightarrow> engine_ok e'"
  by (simp add: eng_step_def)

text \<open>The outbound session apart from what the invariant reads.\<close>

lemma oinv_aliases: "oinv P st (s\<lparr>o_topic_aliases := a\<rparr>) subs = oinv P st s subs"
proof -
  have "queue_mids st (s\<lparr>o_topic_aliases := a\<rparr>) = queue_mids st s" "entry_ok st (s\<lparr>o_topic_aliases := a\<rparr>) = entry_ok st s"
    "sealed_mids (s\<lparr>o_topic_aliases := a\<rparr>) = sealed_mids s"
    by (simp_all add: queue_mids_def entry_ok_def sealed_mids_def fun_eq_iff)
  then show ?thesis by (simp add: oinv_def)
qed

lemma out_change:
  assumes "engine_ok e" "oinv {} (e_store e') (e_out e') (sub_mids e')" "e_in e' = e_in e" "e_config e' = e_config e"
    "in_tab (e_store e') = in_tab (e_store e)" "in_heap (e_store e') = in_heap (e_store e)"
  shows "eng_step e e'"
  by (rule out_step_ok [OF assms(1)]) (use assms in \<open>simp add: out_step_def out_ok_def\<close>)

lemma same_rest_change: "engine_ok e \<Longrightarrow> oinv {} (e_store e') (e_out e') (sub_mids e) \<Longrightarrow> same_rest e e' \<Longrightarrow> eng_step e e'"
  using out_step_ok out_step_same by blast

subsection \<open>Construction\<close>

lemma new_engine_ok:
  assumes inv: "store_inv st" and range: "in_mids st \<subseteq> {1..65535}" "out_mids st \<subseteq> {1..65535}"
    and live: "\<And>mid m. in_row st mid = Some m \<Longrightarrow> im_state m \<noteq> IN_DONE" and rm: "0 \<le> max_inbound_inflight c"
  obtains e where "new_engine c st = Inr e" "engine_ok e" "e_config e = c" "e_state e = NEW"
proof -
  obtain s where s: "new_inbound c st = Inr s" "iinv c st s" "i_aliases s = []" by (rule new_inbound_ok [OF inv range(1) live rm])
  have "wp hydrate (\<lambda>_ e'. oinv {} (e_store e') (e_out e') {} \<and> only_out (bare_engine c st s) e') (\<lambda>_ _. False) (bare_engine c st s)"
    by (rule hydrate_ok) (use inv range(2) in \<open>simp_all add: bare_engine_def\<close>)
  then obtain u e where run: "hydrate (bare_engine c st s) = (Inr u, e)" "oinv {} (e_store e) (e_out e) {}" "only_out (bare_engine c st s) e"
    by (auto simp: wp_def split: prod.splits sum.splits)
  have "new_engine c st = Inr e" by (simp add: new_engine_def s(1) run(1))
  moreover have "engine_ok e" "e_config e = c" "e_state e = NEW"
    using run(2,3) s(2,3) by (auto simp: only_out_def bare_engine_def engine_ok_def out_ok_def in_ok_def sub_mids_def)
  ultimately show ?thesis by (rule that)
qed

subsection \<open>Calls of the runtime\<close>

lemma take_effects_ok:
  assumes ok: "engine_ok e"
  shows "wp take_effects (\<lambda>effs e'. eng_step e e' \<and> effs = e_effects e \<and> e_effects e' = [] \<and> i_pending_auto_qos1_mids (e_in e') = {} \<and> i_pending_pubcomps (e_in e') = {}) (\<lambda>_ _. False) e"
proof -
  have step: "eng_step e (e\<lparr>e_effects := []\<rparr>)" by (rule eng_step_effects [OF ok])
  have frame: "wp release_pending_acks (\<lambda>_ e'. e_effects e' = e_effects e0) (\<lambda>_ _. False) e0" for e0
    by (simp add: release_pending_acks_def wp_simps)
  have "wp release_pending_acks (\<lambda>_ e'. eng_step e e' \<and> e_effects e' = [] \<and> i_pending_auto_qos1_mids (e_in e') = {} \<and> i_pending_pubcomps (e_in e') = {}) (\<lambda>_ _. False) (e\<lparr>e_effects := []\<rparr>)"
    by (rule wp_mono [OF wp_conj [OF release_acks_ok [OF eng_ok [OF step]] frame]]) (use eng_step_trans [OF step] in auto)
  with step show ?thesis by (auto simp: take_effects_def wp_simps)
qed

lemma map_of_freeze: "map_of (map freeze_entry tbl) name = map_option (\<lambda>v. snd (freeze_entry (name, v))) (map_of tbl name)"
proof (induction tbl)
  case (Cons nv tbl)
  obtain k v where nv: "nv = (k, v)" by (cases nv)
  have "freeze_entry (k, v) = (k, snd (freeze_entry (k, v)))" by (simp add: freeze_entry_def)
  then have "map_of (freeze_entry (k, v) # l) name = (if name = k then Some (snd (freeze_entry (k, v))) else map_of l name)" for l
    by (metis map_of_Cons_code(2))
  with Cons nv show ?case by simp
qed simp

lemma connect_receive_maximum:
  assumes "cfg_protocol c = MQTTv5"
  shows "get_int (connect_table c) ''receive_maximum'' = Some (max_inbound_inflight c)"
  using assms
  by (simp add: connect_table_def get_int_def props_get_def mk_properties_def Let_def map_of_freeze update_conv' freeze_entry_def split: option.split)

lemma begin_connect_ok:
  assumes ok: "engine_ok e" and rm: "0 \<le> max_inbound_inflight (e_config e)"
  shows "wp begin_connect (\<lambda>_ e'. eng_step e e' \<and> e_state e' = CONNECTING) (\<lambda>_ e'. e' = e) e"
proof (cases "prepare_connect e")
  case (Inl x)
  then show ?thesis by (simp add: begin_connect_def wp_simps)
next
  case (Inr t)
  obtain cid clean wire where t: "t = (cid, clean, wire)" by (cases t)
  have body: "wp out_start_connection (\<lambda>_. wp (in_start_connection r k) (\<lambda>_ s. eng_step e (s\<lparr>e_negotiated := default_negotiated\<rparr>) \<and> e_state s = CONNECTING) E) E e1" if "eng_step e e1" "e_state e1 = CONNECTING" "0 \<le> r" for e1 r k E
  proof -
    let ?e = "e1\<lparr>e_out := (e_out e1)\<lparr>o_topic_aliases := Map.empty\<rparr>\<rparr>"
    have "eng_step e1 ?e"
      by (rule out_change [OF eng_ok [OF that(1)]])
        (use engine_okD(2) [OF eng_ok [OF that(1)]] in \<open>simp_all add: oinv_aliases sub_mids_def\<close>)
    with that(1) have step: "eng_step e ?e" by (rule eng_step_trans)
    have frame: "wp (in_start_connection r k) (\<lambda>_ e'. e_state e' = CONNECTING) (\<lambda>_ _. False) ?e"
      using that(2) by (simp add: in_start_connection_def wp_simps)
    have "wp (in_start_connection r k) (\<lambda>_ e'. eng_step e (e'\<lparr>e_negotiated := default_negotiated\<rparr>) \<and> e_state e' = CONNECTING) E ?e"
    proof (rule wp_mono [OF wp_conj [OF in_start_ok [OF eng_ok [OF step] that(3)] frame]])
      fix u e' assume *: "eng_step ?e e' \<and> e_state e' = CONNECTING"
      then have "eng_step e' (e'\<lparr>e_negotiated := default_negotiated\<rparr>)" by (intro shell_step) (auto simp: eng_step_def)
      with * step show "eng_step e (e'\<lparr>e_negotiated := default_negotiated\<rparr>) \<and> e_state e' = CONNECTING" using eng_step_trans by blast
    qed simp
    then show ?thesis by (simp add: out_start_connection_def wp_simps)
  qed
  show ?thesis
    using rm connect_receive_maximum [of "e_config e"]
    by (auto simp: begin_connect_def wp_simps Inr t commit_connect_def Let_def int_or_def
        intro!: body shell_step [OF ok])
qed

text \<open>A subscription request owns a fresh identifier until its acknowledgement.\<close>

lemma sub_request_ok:
  assumes ok: "engine_ok e" and pick: "pops pick"
  shows "wp (queue_subscription_request pick request) (\<lambda>mid e'. eng_step e e' \<and> mid \<notin> sub_mids e \<and> mid \<notin> out_mids (e_store e) \<and> sub_mids e' = insert mid (sub_mids e))
    (\<lambda>_ e'. eng_step e e') e"
proof -
  obtain encode q n where req: "request = (encode, q, n)" by (cases request)
  have o: "oinv {} (e_store e) (e_out e) (sub_mids e)" by (rule engine_okD(2) [OF ok])
  note D = oinvD [OF o]
  obtain r p where run: "allocate pick (o_packet_ids (e_out e)) = (r, p)" by fastforce
  note law = mids.alloc_law [OF pick D(2) run]
  let ?with = "\<lambda>p e. e\<lparr>e_out := (e_out e)\<lparr>o_packet_ids := p\<rparr>\<rparr>"
  show ?thesis
  proof (cases r)
    case (Inl x)
    with law have "oinv {} (e_store e) ((e_out e)\<lparr>o_packet_ids := p\<rparr>) (sub_mids e)" using D by (intro oinv_pool [OF o]) auto
    then have "eng_step e (?with p e)" by (intro out_change [OF ok]) (simp_all add: sub_mids_def)
    with Inl run show ?thesis by (simp add: queue_subscription_request_def wp_simps req)
  next
    case (Inr mid)
    with law have p: "pool_inv p" "used p = insert mid (out_mids (e_store e) \<union> sub_mids e)" and new: "mid \<notin> out_mids (e_store e)" "mid \<notin> sub_mids e"
      using D(3) by auto
    have "oinv {} (e_store e) ((e_out e)\<lparr>o_packet_ids := p\<rparr>) (insert mid (sub_mids e))" using D(4) p new by (intro oinv_pool [OF o]) auto
    then have sent: "eng_step e (e\<lparr>e_out := (e_out e)\<lparr>o_packet_ids := p\<rparr>, e_pending_sub_requests := AList.update mid v (e_pending_sub_requests e), e_effects := y\<rparr>)" for v y
      by (intro out_change [OF ok]) (simp_all add: sub_mids_def dom_update)
    have "oinv {} (e_store e) ((e_out e)\<lparr>o_packet_ids := release mid p\<rparr>) (sub_mids e)"
      using mids.free_law [OF p(1), of mid] p(2) new D(4) by (intro oinv_pool [OF o]) auto
    then have undone: "eng_step e (?with (release mid p) e)" by (intro out_change [OF ok]) (simp_all add: sub_mids_def)
    show ?thesis
      using sent undone new run Inr
      by (auto simp: queue_subscription_request_def wp_simps req sub_mids_def dom_update split: sum.split)
  qed
qed

lemma subscribe_ok:
  assumes ok: "engine_ok e" and pick: "pops pick"
  shows "wp (queue_subscribe pick items qos props) (\<lambda>_ e'. eng_step e e') (\<lambda>_ e'. eng_step e e') e"
    "wp (queue_unsubscribe pick topics) (\<lambda>_ e'. eng_step e e') (\<lambda>_ e'. eng_step e e') e"
  by (auto simp: queue_subscribe_def queue_unsubscribe_def wp_simps eng_step_refl [OF ok]
      intro!: wp_mono [OF sub_request_ok [OF ok pick]] split: sum.split)

lemma shell_ops_ok:
  assumes ok: "engine_ok e"
  shows "wp queue_ping (\<lambda>_ e'. eng_step e e') (\<lambda>_ e'. eng_step e e') e"
    "wp (begin_disconnect reason props) (\<lambda>_ e'. eng_step e e') (\<lambda>_ e'. eng_step e e') e"
    "wp (queue_auth reason props) (\<lambda>_ e'. eng_step e e') (\<lambda>_ e'. eng_step e e') e"
    "wp (respond_auth challenge reason props) (\<lambda>_ e'. eng_step e e') (\<lambda>_ e'. eng_step e e') e"
proof -
  show auth: "wp (queue_auth reason props) (\<lambda>_ e'. eng_step e e') (\<lambda>_ e'. eng_step e e') e"
    by (auto simp: queue_auth_def wp_simps intro!: shell_step [OF ok] split: sum.split)
  show "wp queue_ping (\<lambda>_ e'. eng_step e e') (\<lambda>_ e'. eng_step e e') e"
    "wp (begin_disconnect reason props) (\<lambda>_ e'. eng_step e e') (\<lambda>_ e'. eng_step e e') e"
    by (auto simp: queue_ping_def begin_disconnect_def wp_simps intro!: shell_step [OF ok] split: sum.split)
  show "wp (respond_auth challenge reason props) (\<lambda>_ e'. eng_step e e') (\<lambda>_ e'. eng_step e e') e"
    using auth eng_step_refl [OF ok] by (auto simp: respond_auth_def wp_simps)
qed

lemma closed_ok:
  assumes ok: "engine_ok e"
  shows "wp notify_transport_closed (\<lambda>_ e'. eng_step e e' \<and> e_state e' = DISCONNECTED) (\<lambda>_ _. False) e"
proof -
  let ?e = "e\<lparr>e_reauth_in_progress := False, e_auth_response_due := None, e_state := DISCONNECTED, e_out := (e_out e)\<lparr>o_topic_aliases := Map.empty\<rparr>\<rparr>"
  have step: "eng_step e ?e"
    by (rule out_change [OF ok]) (use engine_okD(2) [OF ok] in \<open>simp_all add: oinv_aliases sub_mids_def\<close>)
  have frame: "wp in_transport_closed (\<lambda>_ e'. e_state e' = DISCONNECTED) (\<lambda>_ _. False) ?e"
    by (simp add: in_transport_closed_def release_pending_acks_def wp_simps)
  have rel: "wp release_pending_subscription_requests (\<lambda>_ s. eng_step e s \<and> e_state s = DISCONNECTED) (\<lambda>_ _. False) e1" if "eng_step e e1" "e_state e1 = DISCONNECTED" for e1
  proof (rule release_subs_ok [OF engine_okD(2) [OF eng_ok [OF that(1)]]])
    fix p assume "oinv {} (e_store e1) ((e_out e1)\<lparr>o_packet_ids := p\<rparr>) {}"
    then have "eng_step e1 (e1\<lparr>e_out := (e_out e1)\<lparr>o_packet_ids := p\<rparr>, e_pending_sub_requests := []\<rparr>)"
      by (intro out_change [OF eng_ok [OF that(1)]]) (simp_all add: sub_mids_def)
    with that eng_step_trans show "eng_step e (e1\<lparr>e_out := (e_out e1)\<lparr>o_packet_ids := p\<rparr>, e_pending_sub_requests := []\<rparr>)
        \<and> e_state (e1\<lparr>e_out := (e_out e1)\<lparr>o_packet_ids := p\<rparr>, e_pending_sub_requests := []\<rparr>) = DISCONNECTED" by auto
  qed
  have emits: "wp release_pending_subscription_requests (\<lambda>_. wp (swhen b (emit x)) (\<lambda>_ e'. eng_step e e' \<and> e_state e' = DISCONNECTED) (\<lambda>_ _. False)) (\<lambda>_ _. False) e1"
    if "eng_step e e1" "e_state e1 = DISCONNECTED" for e1 b x
    by (rule wp_mono [OF rel [OF that]]) (auto simp: wp_simps eng_step_emit)
  have "wp in_transport_closed (\<lambda>_. wp release_pending_subscription_requests (\<lambda>_. wp (swhen b (emit x)) (\<lambda>_ e'. eng_step e e' \<and> e_state e' = DISCONNECTED) (\<lambda>_ _. False)) (\<lambda>_ _. False)) (\<lambda>_ _. False) ?e" for b x
    by (rule wp_mono [OF wp_conj [OF in_closed_ok [OF eng_ok [OF step]] frame]]) (use emits eng_step_trans [OF step] in auto)
  then show ?thesis unfolding notify_transport_closed_def by (simp add: wp_sbind wp_sthen wp_sget wp_enter_disconnected out_transport_closed_def wp_mod_out)
qed

lemma publish_ok:
  assumes ok: "engine_ok e" and pick: "pops pick"
  shows "wp (queue_publish pick topic payload qos retain props None) (\<lambda>_ e'. eng_step e e') (\<lambda>_ e'. eng_step e e') e"
proof -
  have "out_ok e" using ok by (simp add: engine_ok_def)
  from queue_publish_ok [OF this pick] show ?thesis by (rule wp_mono) (use out_step_ok [OF ok] in auto)
qed

lemma seal_publications_ok:
  assumes ok: "engine_ok e"
  shows "wp (seal_publications mids) (\<lambda>_ e'. eng_step e e') (\<lambda>_ _. False) e"
  unfolding seal_publications_def
  by (rule wp_mono [OF seal_ok [OF engine_okD(2) [OF ok]]]) (auto intro!: out_change [OF ok] simp: only_out_def sub_mids_def)

lemma application_ops_ok:
  assumes ok: "engine_ok e"
  shows "wp continue_inbound_replay (\<lambda>_ e'. eng_step e e') (\<lambda>_ _. False) e"
    "wp (mark_inbound_delivered mid token) (\<lambda>_ e'. eng_step e e') (\<lambda>_ _. False) e"
    "wp (engine_ack mid message) (\<lambda>_ e'. eng_step e e') (\<lambda>x e'. eng_step e e' \<and> \<not> internal x) e"
proof -
  show "wp continue_inbound_replay (\<lambda>_ e'. eng_step e e') (\<lambda>_ _. False) e"
    unfolding continue_inbound_replay_def by (rule wp_mono [OF drain_replay_ok [OF ok]]) auto
  show "wp (mark_inbound_delivered mid token) (\<lambda>_ e'. eng_step e e') (\<lambda>_ _. False) e"
    unfolding mark_inbound_delivered_def by (rule wp_mono [OF mark_delivered_ok [OF ok]]) auto
  show "wp (engine_ack mid message) (\<lambda>_ e'. eng_step e e') (\<lambda>x e'. eng_step e e' \<and> \<not> internal x) e"
    using in_ack_ok [OF ok, of mid message] eng_step_refl [OF ok] by (simp add: engine_ack_def wp_simps internal_def)
qed

subsection \<open>Packets of a connection\<close>

lemma complete_request_ok:
  assumes ok: "engine_ok e"
  shows "wp (complete_subscription_request mid q n) (\<lambda>_ e'. eng_step e e' \<and> mid \<in> sub_mids e \<and> sub_mids e' = sub_mids e - {mid} \<and> mid \<notin> used (o_packet_ids (e_out e')) \<and> e_effects e' = e_effects e)
    (\<lambda>x e'. e' = e \<and> x = ProtocolError) e"
proof (cases "map_of (e_pending_sub_requests e) mid")
  case None
  then show ?thesis by (simp add: complete_subscription_request_def wp_simps)
next
  case (Some v)
  have o: "oinv {} (e_store e) (e_out e) (sub_mids e)" by (rule engine_okD(2) [OF ok])
  note D = oinvD [OF o]
  have mem: "mid \<in> sub_mids e" using Some by (force simp: sub_mids_def dest: map_of_SomeD)
  note free = mids.free_law [OF D(2), of mid]
  have gone: "fst ` set (AList.delete mid (e_pending_sub_requests e)) = sub_mids e - {mid}" by (auto simp: sub_mids_def AList.delete_eq)
  have "oinv {} (e_store e) ((e_out e)\<lparr>o_packet_ids := release mid (o_packet_ids (e_out e))\<rparr>) (sub_mids e - {mid})"
    using free D(3,4) mem by (intro oinv_pool [OF o]) auto
  then have "eng_step e (e\<lparr>e_pending_sub_requests := AList.delete mid (e_pending_sub_requests e), e_out := (e_out e)\<lparr>o_packet_ids := release mid (o_packet_ids (e_out e))\<rparr>\<rparr>)"
    by (intro out_change [OF ok]) (simp_all add: sub_mids_def gone [unfolded sub_mids_def])
  with Some mem free gone show ?thesis
    by (auto simp: complete_subscription_request_def wp_simps sub_mids_def split: prod.split)
qed

lemma suback_ok:
  assumes ok: "engine_ok e"
  shows "wp (on_suback raw) (\<lambda>_ e'. eng_step e e') (\<lambda>x e'. eng_step e e' \<and> peer_error x) e"
    "wp (on_unsuback raw) (\<lambda>_ e'. eng_step e e') (\<lambda>x e'. eng_step e e' \<and> peer_error x) e"
proof -
  let ?E = "\<lambda>x e'. eng_step e e' \<and> peer_error x"
  have refl: "eng_step e e" by (rule eng_step_refl [OF ok])
  have req: "wp (complete_subscription_request mid q n) (\<lambda>_. wp (emit x) (\<lambda>_ e'. eng_step e e') ?E) ?E e" for mid q n x
    by (rule wp_mono [OF complete_request_ok [OF ok]]) (use refl eng_step_emit in \<open>auto simp: wp_simps\<close>)
  have check: "wp (validate_inbound_problem_information props) Q ?E e" if "Q () e" for props Q
    by (rule check_info_ok(2) [OF ok]) (use that in auto)
  have dec: "decode_suback (e_codec e) rest = Inl x \<Longrightarrow> peer_error x" "decode_unsuback (e_codec e) rest = Inl x \<Longrightarrow> peer_error x" for rest x
    by (auto simp: e_codec_def dest: wire_errors)
  show "wp (on_suback raw) (\<lambda>_ e'. eng_step e e') ?E e"
    unfolding on_suback_def wp_sbind wp_sask wp_prod wp_sthen using req refl dec by (auto intro!: check split: sum.split)
  show "wp (on_unsuback raw) (\<lambda>_ e'. eng_step e e') ?E e"
    unfolding on_unsuback_def wp_sbind wp_sask wp_prod wp_sthen wp_sget using req refl dec by (auto intro!: check split: sum.split)
qed

lemma torn_ok:
  assumes ok: "engine_ok e" and step: "eng_step e e1" and E: "\<And>x e'. eng_step e e' \<Longrightarrow> Q x e'"
  shows "wp (sthen enter_disconnected (sthen release_pending_subscription_requests (emit x))) Q E' e1"
proof -
  let ?e = "e1\<lparr>e_reauth_in_progress := False, e_auth_response_due := None, e_state := DISCONNECTED\<rparr>"
  have s: "eng_step e1 ?e" by (rule shell_step [OF eng_ok [OF step]]) simp_all
  have "wp release_pending_subscription_requests (\<lambda>_ s. Q () (s\<lparr>e_effects := e_effects s @ [x]\<rparr>)) E' ?e"
  proof (rule release_subs_ok [OF engine_okD(2) [OF eng_ok [OF s]]])
    fix p assume "oinv {} (e_store ?e) ((e_out ?e)\<lparr>o_packet_ids := p\<rparr>) {}"
    then have "eng_step ?e (?e\<lparr>e_out := (e_out ?e)\<lparr>o_packet_ids := p\<rparr>, e_pending_sub_requests := []\<rparr>)"
      by (intro out_change [OF eng_ok [OF s]]) (simp_all add: sub_mids_def)
    then show "Q () (?e\<lparr>e_out := (e_out ?e)\<lparr>o_packet_ids := p\<rparr>, e_pending_sub_requests := []\<rparr>\<lparr>e_effects :=
        e_effects (?e\<lparr>e_out := (e_out ?e)\<lparr>o_packet_ids := p\<rparr>, e_pending_sub_requests := []\<rparr>) @ [x]\<rparr>)"
      by (intro E eng_step_emit eng_step_trans [OF eng_step_trans [OF step s]])
  qed
  then show ?thesis by (simp add: wp_simps)
qed

lemma disconnect_ok:
  assumes ok: "engine_ok e"
  shows "wp (on_disconnect raw) (\<lambda>_ e'. eng_step e e') (\<lambda>x e'. eng_step e e' \<and> peer_error x) e"
    "wp (on_pingresp raw) (\<lambda>_ e'. eng_step e e') (\<lambda>x e'. eng_step e e' \<and> peer_error x) e"
proof -
  let ?E = "\<lambda>x e'. eng_step e e' \<and> peer_error x"
  have refl: "eng_step e e" by (rule eng_step_refl [OF ok])
  have dec: "decode_disconnect (e_codec e) rest = Inl x \<Longrightarrow> peer_error x" for rest x by (auto simp: e_codec_def dest: wire_errors)
  have "wp (sthen enter_disconnected (sthen release_pending_subscription_requests (emit x))) (\<lambda>_. wp (sbind (sget is_v5) (\<lambda>v5. swhen (v5 \<and> b) (sraise ProtocolError)))
      (\<lambda>_ e'. eng_step e e') ?E) ?E e" for x b
    by (rule torn_ok [OF ok refl]) (simp add: wp_simps)
  then have "wp enter_disconnected (\<lambda>_. wp release_pending_subscription_requests (\<lambda>_. wp (emit x) (\<lambda>_. wp (sbind (sget is_v5) (\<lambda>v5. swhen (v5 \<and> b) (sraise ProtocolError)))
      (\<lambda>_ e'. eng_step e e') ?E) ?E) ?E) ?E e" for x b
    unfolding wp_sthen .
  with refl dec show "wp (on_disconnect raw) (\<lambda>_ e'. eng_step e e') ?E e"
    unfolding on_disconnect_def wp_sbind [of "sask _"] wp_sask wp_prod wp_sthen by (auto split: sum.split)
  show "wp (on_pingresp raw) (\<lambda>_ e'. eng_step e e') ?E e"
    using refl eng_step_effects [OF ok] by (simp add: on_pingresp_def wp_simps)
qed

lemma auth_ok:
  assumes ok: "engine_ok e"
  shows "wp (on_auth raw) (\<lambda>_ e'. eng_step e e') (\<lambda>x e'. eng_step e e' \<and> peer_error x) e"
proof -
  let ?Q = "\<lambda>_ e'. eng_step e e'" and ?E = "\<lambda>x e'. eng_step e e' \<and> peer_error x"
  have refl: "eng_step e e" by (rule eng_step_refl [OF ok])
  have rj: "wp (reject 0x82) Q ?E e" for Q :: "unit \<Rightarrow> engine \<Rightarrow> bool" by (rule reject_ok [OF ok]) auto
  have check: "wp (validate_inbound_problem_information props) Q ?E e" if "Q () e" for props Q
    by (rule check_info_ok(2) [OF ok]) (use that in auto)
  have dec: "peer_error x" if "decode_auth (e_codec e) rest = Inl x" for rest x using that by (auto simp: e_codec_def dest: wire_errors)
  have checked: "wp (check_auth reason props) (\<lambda>_ e1. eng_step e e1) ?E e" for reason props
    using rj refl by (auto simp: check_auth_def wp_simps intro!: shell_step [OF ok])
  have tear: "wp (protocol_disconnect 0x82) ?Q ?E e1" if "eng_step e e1" for e1
    by (rule wp_mono [OF protocol_disconnect_ok [OF engine_okD(2) [OF eng_ok [OF that]]]])
      (use out_step_torn out_step_ok [OF eng_ok [OF that]] eng_step_trans [OF that] in auto)
  have tail: "wp (sbind (sget (\<lambda>e. accept_auth (e_config e))) (\<lambda>accepts. if \<not> accepts then protocol_disconnect 0x82
      else sthen (swhen (reason = 0x18) (smod (\<lambda>e. e\<lparr>e_auth_challenges := e_auth_challenges e + 1, e_auth_response_due := Some (e_auth_challenges e + 1)\<rparr>)))
        (sbind (sget e_auth_challenges) (\<lambda>n. emit (EffAuth \<lparr>cp_reason_code = reason, cp_properties = props\<rparr> (if reason = 0x18 then Some n else None)))))) ?Q ?E e1"
    if "eng_step e e1" for reason props e1
    using tear [OF that] by (auto simp: wp_simps intro!: eng_step_trans [OF that] shell_step [OF eng_ok [OF that]])
  have "wp (sthen (check_auth reason props) (sbind (sget (\<lambda>e. accept_auth (e_config e))) (\<lambda>accepts. if \<not> accepts then protocol_disconnect 0x82
      else sthen (swhen (reason = 0x18) (smod (\<lambda>e. e\<lparr>e_auth_challenges := e_auth_challenges e + 1, e_auth_response_due := Some (e_auth_challenges e + 1)\<rparr>)))
        (sbind (sget e_auth_challenges) (\<lambda>n. emit (EffAuth \<lparr>cp_reason_code = reason, cp_properties = props\<rparr> (if reason = 0x18 then Some n else None))))))) ?Q ?E e" for reason props
    unfolding wp_sthen [of "check_auth _ _"] by (rule wp_mono [OF checked]) (use tail in auto)
  with refl rj dec show ?thesis
    unfolding on_auth_def wp_sbind [of "sget is_v5"] wp_sget wp_if wp_sbind [of "sask _"] wp_sask wp_prod wp_sthen [of "validate_inbound_problem_information _"]
    by (auto intro!: check split: sum.split)
qed

subsection \<open>CONNACK\<close>

lemma oinv_free_flow:
  assumes "oinv P st s subs" "flow_inv w" "holders w = {}"
  shows "oinv P st (s\<lparr>o_flow := w\<rparr>) subs"
  using oinvD [OF assms(1)] assms(2,3) by (intro oinvI) (auto simp: sealed_mids_def queue_mids_def entry_ok_def)

text \<open>An error of the store's contents may interrupt the resumption of a session once the engine is connected.\<close>

lemma resume_ok:
  assumes ok: "engine_ok e" and st: "e_state e = CONNECTED"
  shows "wp out_replay_session (\<lambda>_ e'. eng_step e e' \<and> e_state e' = CONNECTED) (\<lambda>_ e'. e_state e' = CONNECTED) e"
  by (rule wp_mono [OF out_replay_session_ok [OF engine_okD(2) [OF ok]]]) (use st same_rest_change [OF ok] in \<open>auto simp: same_rest_def\<close>)

lemma fresh_ok:
  assumes ok: "engine_ok e" and st: "e_state e = CONNECTED" and pending: "pending \<longleftrightarrow> e_pending_sub_requests e \<noteq> []"
  shows "wp (sthen (purge_after_clean_session pending) (sthen discard_session (sthen reset_flow_for_connection fail_queued_violating_negotiation)))
    (\<lambda>_ e'. eng_step e e' \<and> e_state e' = CONNECTED) (\<lambda>_ e'. e_state e' = CONNECTED) e"
proof -
  have subs: "pending \<longleftrightarrow> sub_mids e \<noteq> {}" using pending by (simp add: sub_mids_def)
  have "wp (sthen discard_session (sthen reset_flow_for_connection fail_queued_violating_negotiation))
      (\<lambda>_ e'. eng_step e e' \<and> e_state e' = CONNECTED) (\<lambda>_ e'. e_state e' = CONNECTED) e1"
    if o: "oinv {} (e_store e1) ((e_out e1)\<lparr>o_flow := flow_reset (o_flow (e_out e1))\<rparr>) (sub_mids e)" and parked: "o_parked (e_out e1) = {}" and rest: "same_rest e e1" for e1
  proof -
    let ?f = "flow_reset (o_flow (e_out e1))"
    let ?e1 = "e1\<lparr>e_out := (e_out e1)\<lparr>o_flow := ?f\<rparr>\<rparr>"
    have s1: "eng_step e ?e1" by (rule same_rest_change [OF ok]) (use o rest in \<open>simp_all add: same_rest_def\<close>)
    have i1: "iinv (e_config e1) (e_store e1) (e_in e1)" using engine_okD(1) [OF eng_ok [OF s1]] by simp
    then have rm: "0 \<le> i_receive_maximum (e_in ?e1)" using iinvD(12,14) [OF i1] by (simp add: in_inflight_def)
    let ?w = "apply_broker_receive_maximum (receive_maximum (e_negotiated e1)) (max_outbound_inflight (e_config e1)) ?f"
    have w: "flow_inv ?w" "holders ?w = {}"
      using reset_flow_inv [of ?f] oinvD(5) [OF o] by (simp_all add: flow_reset_def)
    from discard_ok [OF eng_ok [OF s1] rm] have "eng_step ?e1 (?e1\<lparr>e_store := clear_in (e_store e1), e_in := (e_in e1)\<lparr>i_recovered_mids := {}, i_replay := None, i_current_persisted_mids := {}, i_exchange_tokens := Map.empty,
          i_pending_completions := Map.empty, i_pending_bytes := 0, i_stored_inbound := 0, i_autoack_handoff_required := False,
          i_pending_auto_qos1_mids := {}, i_pending_pubcomps := {}, i_pending_pubcomp_slots := 0,
          i_pending_manual_qos1_acks := {}, i_manual_qos1_order := []\<rparr>\<rparr>)" (is "eng_step _ ?e2")
      by (simp add: discard_session_def wp_simps)
    with s1 have s2: "eng_step e ?e2" by (rule eng_step_trans)
    let ?e3 = "?e2\<lparr>e_out := (e_out e1)\<lparr>o_flow := ?w\<rparr>\<rparr>"
    have "oinv {} (e_store ?e2) ((e_out ?e2)\<lparr>o_flow := ?w\<rparr>) (sub_mids ?e2)" by (rule oinv_free_flow [OF engine_okD(2) [OF eng_ok [OF s2]] w])
    then have "eng_step ?e2 ?e3" by (intro out_change [OF eng_ok [OF s2]]) (simp_all add: sub_mids_def)
    with s2 have s3: "eng_step e ?e3" by (rule eng_step_trans)
    have st3: "e_state ?e3 = CONNECTED" using rest st by (simp add: same_rest_def)
    have "wp fail_queued_violating_negotiation (\<lambda>_ e'. eng_step e e' \<and> e_state e' = CONNECTED) (\<lambda>_ e'. e_state e' = CONNECTED) ?e3"
      by (rule wp_mono [OF fail_queued_ok [OF engine_okD(2) [OF eng_ok [OF s3]]]])
        (use parked st3 same_rest_change [OF eng_ok [OF s3]] eng_step_trans [OF s3] in \<open>auto simp: same_rest_def\<close>)
    then show ?thesis by (simp add: discard_session_def wp_simps)
  qed
  then show ?thesis
    unfolding wp_sthen [of "purge_after_clean_session _"]
    by (intro wp_mono [OF purge_ok [OF engine_okD(2) [OF ok] subs]]) auto
qed

lemma accept_ok:
  assumes ok: "engine_ok e"
  shows "wp (accept_connack connack) (\<lambda>_ e'. eng_step e e' \<and> e_state e' = CONNECTED \<and> (o_queued (e_out e') = [] \<or> flow_available (o_flow (e_out e')) = 0))
    (\<lambda>_ e'. e_state e' = CONNECTED) e"
proof -
  let ?Q = "\<lambda>_ e'. eng_step e e' \<and> e_state e' = CONNECTED \<and> (o_queued (e_out e') = [] \<or> flow_available (o_flow (e_out e')) = 0)"
    and ?E = "\<lambda>_ e'. e_state e' = CONNECTED"
  have drains: "wp drain ?Q ?E e1" if "eng_step e e1" "e_state e1 = CONNECTED" for e1
    by (rule wp_mono [OF drain_ok [OF engine_okD(2) [OF eng_ok [OF that(1)]]]])
      (use that same_rest_change [OF eng_ok [OF that(1)]] eng_step_trans [OF that(1)] in \<open>auto simp: same_rest_def\<close>)
  have replay: "wp in_replay_session (\<lambda>_. wp drain ?Q ?E) ?E e1" if "eng_step e e1" "e_state e1 = CONNECTED" for e1
    by (rule wp_mono [OF in_replay_session_ok [OF eng_ok [OF that(1)]]])
      (use drains that(2) eng_step_trans [OF that(1)] in auto)
  have tail: "wp (sthen (emit (EffConnack connack)) (sthen (swhen b in_replay_session) drain)) ?Q ?E e1" if "eng_step e e1" "e_state e1 = CONNECTED" for e1 b
    using replay [OF eng_step_emit [OF that(1)]] drains [OF eng_step_emit [OF that(1)]] that(2) by (simp add: wp_simps)
  have body: "wp (sthen (if \<not> session_present connack then
               sbind (sget (\<lambda>e. e_pending_sub_requests e \<noteq> [])) (\<lambda>sub_mids_pending.
               sthen (purge_after_clean_session sub_mids_pending)
               (sthen discard_session (sthen reset_flow_for_connection fail_queued_violating_negotiation)))
             else out_replay_session)
     (sthen (emit (EffConnack connack)) (sthen (swhen (session_present connack) in_replay_session) drain))) ?Q ?E e1"
    if s: "eng_step e e1" "e_state e1 = CONNECTED" for e1
  proof (cases "session_present connack")
    case True
    have "wp out_replay_session (\<lambda>_. wp (sthen (emit (EffConnack connack)) (sthen (swhen (session_present connack) in_replay_session) drain)) ?Q ?E) ?E e1"
      by (rule wp_mono [OF resume_ok [OF eng_ok [OF s(1)] s(2)]]) (use tail eng_step_trans [OF s(1)] in auto)
    with True show ?thesis by (simp add: wp_sthen)
  next
    case False
    have "wp (sthen (purge_after_clean_session (e_pending_sub_requests e1 \<noteq> [])) (sthen discard_session (sthen reset_flow_for_connection fail_queued_violating_negotiation)))
        (\<lambda>_. wp (sthen (emit (EffConnack connack)) (sthen (swhen (session_present connack) in_replay_session) drain)) ?Q ?E) ?E e1"
      by (rule wp_mono [OF fresh_ok [OF eng_ok [OF s(1)] s(2)]]) (use tail eng_step_trans [OF s(1)] in auto)
    with False show ?thesis by (simp add: wp_sthen wp_sbind wp_sget)
  qed
  show ?thesis
    unfolding accept_connack_def wp_sthen [of "smod _"] wp_smod update_session_resume_preference_def
    by (rule body) (simp_all add: shell_step [OF ok])
qed

lemma negotiate_ok:
  assumes ok: "engine_ok e"
  shows "wp (negotiate connack) (\<lambda>_ e'. eng_step e e') (\<lambda>_ e'. eng_step e e') e"
proof -
  have shell: "eng_step e (e\<lparr>e_negotiated := n, e_session_client_id := i\<rparr>)"
    "eng_step e (e\<lparr>e_negotiated := n, e_session_client_id := i, e_reauth_in_progress := False, e_auth_response_due := None, e_state := DISCONNECTED\<rparr>)" for n i
    by (rule shell_step [OF ok]; simp)+
  then show ?thesis
    unfolding negotiate_def by (auto simp: wp_simps intro!: check_session_replayable_ok)
qed

lemma connack_checks_ok:
  assumes ok: "engine_ok e"
  shows "wp (validate_connack_v5 connack) (\<lambda>_ e'. e' = e) (\<lambda>x e'. eng_step e e' \<and> peer_error x) e"
    "wp (validate_accepted_connack connack) (\<lambda>_ e'. e' = e) (\<lambda>x e'. eng_step e e' \<and> peer_error x) e"
proof -
  have rj: "wp (reject 0x82) Q (\<lambda>x e'. eng_step e e' \<and> peer_error x) e" for Q :: "unit \<Rightarrow> engine \<Rightarrow> bool" by (rule reject_ok [OF ok]) auto
  show "wp (validate_connack_v5 connack) (\<lambda>_ e'. e' = e) (\<lambda>x e'. eng_step e e' \<and> peer_error x) e"
    "wp (validate_accepted_connack connack) (\<lambda>_ e'. e' = e) (\<lambda>x e'. eng_step e e' \<and> peer_error x) e"
    using rj by (simp_all add: validate_connack_v5_def validate_accepted_connack_def wp_simps Let_def)
qed

lemma connack_ok:
  assumes ok: "engine_ok e"
  shows "wp (on_connack raw) (\<lambda>_ e'. eng_step e e') (\<lambda>_ e'. eng_step e e' \<or> e_state e' = CONNECTED) e"
proof (cases "decode_connack (e_codec e) (remaining raw)")
  case (Inl x)
  with eng_step_refl [OF ok] show ?thesis by (simp add: on_connack_def wp_simps)
next
  case (Inr t)
  obtain flag reason props where t: "t = (flag, reason, props)" by (cases t)
  let ?c = "\<lparr>session_present = flag, connack_reason = reason, connack_properties = props\<rparr>"
  let ?Q = "\<lambda>_ e'. eng_step e e'" and ?E = "\<lambda>_ e'. eng_step e e' \<or> e_state e' = CONNECTED"
  have accept: "wp (sthen (negotiate ?c) (accept_connack ?c)) ?Q ?E e"
    unfolding wp_sthen
  proof (rule wp_mono [OF negotiate_ok [OF ok]])
    fix u e1 assume s: "eng_step e e1"
    show "wp (accept_connack ?c) ?Q ?E e1"
      by (rule wp_mono [OF accept_ok [OF eng_ok [OF s]]]) (use eng_step_trans [OF s] in auto)
  qed auto
  have valid: "wp (sthen (validate_accepted_connack ?c) (sthen (negotiate ?c) (accept_connack ?c))) ?Q ?E e"
    unfolding wp_sthen [of "validate_accepted_connack _"] by (rule wp_mono [OF connack_checks_ok(2) [OF ok]]) (use accept in auto)
  have refused: "wp (refuse_connack ?c) ?Q ?E e"
    by (auto simp: refuse_connack_def wp_simps intro!: shell_step [OF ok])
  let ?rest = "if reason \<noteq> 0 then refuse_connack ?c else sthen (validate_accepted_connack ?c) (sthen (negotiate ?c) (accept_connack ?c))"
  have rest: "wp ?rest ?Q ?E e" using valid refused by auto
  moreover have "wp (validate_connack_v5 ?c) (\<lambda>_. wp ?rest ?Q ?E) ?E e"
    by (rule wp_mono [OF connack_checks_ok(1) [OF ok]]) (use rest in auto)
  ultimately have "wp (sthen (sbind (sget is_v5) (\<lambda>v5. swhen v5 (validate_connack_v5 ?c))) ?rest) ?Q ?E e"
    unfolding wp_sthen wp_sbind wp_sget wp_swhen by simp
  with Inr t eng_step_refl [OF ok] show ?thesis
    unfolding on_connack_def wp_sbind [of "sget _"] wp_sget wp_if wp_sbind [of "sask _"] wp_sask by (simp add: wp_sraise Let_def)
qed

subsection \<open>Dispatch\<close>

text \<open>A packet of an established connection is handled or reported, and no internal check fails.\<close>

lemma outbound_handlers_ok:
  assumes ok: "engine_ok e"
  shows "wp (on_puback raw) (\<lambda>_ e'. eng_step e e') (\<lambda>x e'. eng_step e e' \<and> \<not> internal x) e"
    "wp (on_pubrec raw) (\<lambda>_ e'. eng_step e e') (\<lambda>x e'. eng_step e e' \<and> \<not> internal x) e"
    "wp (on_pubcomp raw) (\<lambda>_ e'. eng_step e e') (\<lambda>x e'. eng_step e e' \<and> \<not> internal x) e"
proof -
  have o: "out_ok e" using ok by (simp add: engine_ok_def)
  show "wp (on_puback raw) (\<lambda>_ e'. eng_step e e') (\<lambda>x e'. eng_step e e' \<and> \<not> internal x) e"
    by (rule wp_mono [OF on_puback_ok [OF o]]) (use out_step_ok [OF ok] peer_external in auto)
  show "wp (on_pubrec raw) (\<lambda>_ e'. eng_step e e') (\<lambda>x e'. eng_step e e' \<and> \<not> internal x) e"
    by (rule wp_mono [OF on_pubrec_ok [OF o]]) (use out_step_ok [OF ok] peer_external in \<open>auto simp: internal_def\<close>)
  show "wp (on_pubcomp raw) (\<lambda>_ e'. eng_step e e') (\<lambda>x e'. eng_step e e' \<and> \<not> internal x) e"
    by (rule wp_mono [OF on_pubcomp_ok [OF o]]) (use out_step_ok [OF ok] peer_external in auto)
qed

lemma handler_ok:
  assumes ok: "engine_ok e" and h: "handler_of CONNECTED t = Some h"
  shows "wp (h raw) (\<lambda>_ e'. eng_step e e') (\<lambda>x e'. eng_step e e' \<and> \<not> internal x) e"
proof -
  have peer: "wp m (\<lambda>_ e'. eng_step e e') (\<lambda>x e'. eng_step e e' \<and> \<not> internal x) e"
    if "wp m (\<lambda>_ e'. eng_step e e') (\<lambda>x e'. eng_step e e' \<and> peer_error x) e" for m :: "unit eop"
    by (rule wp_mono [OF that]) (use peer_external in auto)
  from h show ?thesis
    using on_publish_ok [OF ok, of raw] outbound_handlers_ok [OF ok, of raw] peer [OF on_pubrel_ok [OF ok]] peer [OF suback_ok(1) [OF ok]]
      peer [OF suback_ok(2) [OF ok]] peer [OF disconnect_ok(1) [OF ok]] peer [OF disconnect_ok(2) [OF ok]] peer [OF auth_ok [OF ok]]
    by (cases t) (auto simp: handler_of_def)
qed

lemma raw_error: "validate_raw_packet raw = Inl x \<Longrightarrow> peer_error x"
  by (auto simp: validate_raw_packet_def guard_def rbind_eq_Inl split: if_splits option.splits)

lemma handle_raw_connected:
  assumes ok: "engine_ok e" and st: "e_state e \<noteq> CONNECTING"
  shows "wp (handle_raw raw) (\<lambda>_ e'. eng_step e e') (\<lambda>x e'. eng_step e e' \<and> \<not> internal x \<and> \<not> blames_peer x) e"
proof -
  have refl: "eng_step e e" by (rule eng_step_refl [OF ok])
  have h: "wp (h raw) (\<lambda>_ e'. eng_step e e') (\<lambda>x e'. eng_step e e' \<and> \<not> internal x) e" if "handler_of (e_state e) (raw_type raw) = Some h" for h
    using handler_ok [OF ok, of "raw_type raw" h raw] that st by (cases "e_state e") (auto simp: handler_of_def)
  have "wp (dispatch raw) (\<lambda>_ e'. eng_step e e') (\<lambda>x e'. eng_step e e' \<and> \<not> internal x) e"
    using refl h raw_error peer_external by (auto simp: dispatch_def wp_simps split: sum.split option.split)
  then have "wp (dispatch raw) (\<lambda>_ e'. eng_step e e') (\<lambda>x s. (blames_peer x \<longrightarrow> eng_step e (s\<lparr>e_effects := e_effects s @ [EffProtocolError x]\<rparr>)) \<and>
      (\<not> blames_peer x \<longrightarrow> eng_step e s \<and> \<not> internal x)) e"
    by (rule wp_mono) (auto intro: eng_step_emit)
  with refl show ?thesis by (simp add: handle_raw_def wp_simps)
qed

lemma handle_raw_connecting:
  assumes ok: "engine_ok e" and st: "e_state e = CONNECTING"
  shows "wp (handle_raw raw) (\<lambda>r e'. eng_step e e' \<or> r \<noteq> None \<and> e_state e' = CONNECTED) (\<lambda>_ e'. eng_step e e' \<or> e_state e' = CONNECTED) e"
proof -
  have refl: "eng_step e e" by (rule eng_step_refl [OF ok])
  have a: "wp (on_auth raw) (\<lambda>_ e'. eng_step e e') (\<lambda>_ e'. eng_step e e' \<or> e_state e' = CONNECTED) e"
    by (rule wp_mono [OF auth_ok [OF ok]]) auto
  have "wp (dispatch raw) (\<lambda>_ e'. eng_step e e') (\<lambda>_ e'. eng_step e e' \<or> e_state e' = CONNECTED) e"
    using refl a connack_ok [OF ok, of raw] st
    by (auto simp: dispatch_def wp_simps handler_of_def split: sum.split packet_type.split)
  then have "wp (dispatch raw) (\<lambda>_ e'. eng_step e e') (\<lambda>x s. (blames_peer x \<longrightarrow> eng_step e (s\<lparr>e_effects := e_effects s @ [EffProtocolError x]\<rparr>) \<or> e_state s = CONNECTED) \<and>
      (\<not> blames_peer x \<longrightarrow> eng_step e s \<or> e_state s = CONNECTED)) e"
    by (rule wp_mono) (auto intro: eng_step_emit)
  with refl st show ?thesis by (simp add: handle_raw_def wp_simps)
qed

end
