(* ===== verification/Engine_Steps.thy ===== *)
theory Engine_Steps
  imports Engine_Inv
begin

text \<open>
  The engine as a transition system. A step is one call of the runtime or of the application, or one packet of the peer,
  whether it returns or raises; the invariant of the engine holds in every state that a run reaches, and with it
  the accounting of identifiers, quotas and bytes.
\<close>

subsection \<open>The steps of the engine\<close>

text \<open>The one interruption that leaves a session half rebuilt: handling a CONNACK fails, because of the contents of the
  store, after the engine became connected.\<close>

definition interrupted :: "engine \<Rightarrow> exn option result \<Rightarrow> engine \<Rightarrow> bool" where
  "interrupted e r e' \<longleftrightarrow> e_state e = CONNECTING \<and> e_state e' = CONNECTED \<and> r \<noteq> Inr None"

inductive engine_step :: "engine \<Rightarrow> engine \<Rightarrow> bool" where
  Connect: "begin_connect e = (r, e') \<Longrightarrow> engine_step e e'"
| Receive: "handle_raw raw e = (r, e') \<Longrightarrow> \<not> interrupted e r e' \<Longrightarrow> engine_step e e'"
| Publish: "pops pick \<Longrightarrow> queue_publish pick topic payload qos retain props None e = (r, e') \<Longrightarrow> engine_step e e'"
| Subscribe: "pops pick \<Longrightarrow> queue_subscribe pick items qos props e = (r, e') \<Longrightarrow> engine_step e e'"
| Unsubscribe: "pops pick \<Longrightarrow> queue_unsubscribe pick topics e = (r, e') \<Longrightarrow> engine_step e e'"
| Ping: "queue_ping e = (r, e') \<Longrightarrow> engine_step e e'"
| Disconnect: "begin_disconnect reason props e = (r, e') \<Longrightarrow> engine_step e e'"
| Auth: "queue_auth reason props e = (r, e') \<Longrightarrow> engine_step e e'"
| Respond: "respond_auth challenge reason props e = (r, e') \<Longrightarrow> engine_step e e'"
| Close: "notify_transport_closed e = (r, e') \<Longrightarrow> engine_step e e'"
| Seal: "seal_publications mids e = (r, e') \<Longrightarrow> engine_step e e'"
| Continue: "continue_inbound_replay e = (r, e') \<Longrightarrow> engine_step e e'"
| Mark: "mark_inbound_delivered mid token e = (r, e') \<Longrightarrow> engine_step e e'"
| Acknowledge: "engine_ack mid message e = (r, e') \<Longrightarrow> engine_step e e'"
| Take: "take_effects e = (r, e') \<Longrightarrow> engine_step e e'"

inductive_cases engine_step_cases: "engine_step e e'"

lemma wp_run: "wp m (\<lambda>_. P) (\<lambda>_. P) e \<Longrightarrow> m e = (r, e') \<Longrightarrow> P e'"
  by (auto simp: wp_def split: sum.splits)

definition sound :: "engine \<Rightarrow> bool" where
  "sound e \<longleftrightarrow> engine_ok e \<and> 0 \<le> max_inbound_inflight (e_config e)"

lemma step_sound:
  assumes s: "sound e" and step: "engine_step e e'"
  shows "sound e'"
proof -
  have ok: "engine_ok e" and rm: "0 \<le> max_inbound_inflight (e_config e)" using s by (simp_all add: sound_def)
  have returns: "eng_step e e'" if "wp m (\<lambda>_ e'. eng_step e e') E e" "\<And>x t. E x t \<Longrightarrow> eng_step e t" "m e = (r, e')" for m :: "'x eop" and r E
    using that by (auto simp: wp_def split: sum.splits)
  from step have "eng_step e e'"
  proof cases
    case (Connect r)
    have "wp begin_connect (\<lambda>_ t. eng_step e t) (\<lambda>_ t. t = e) e" by (rule wp_mono [OF begin_connect_ok [OF ok rm]]) auto
    from returns [OF this _ Connect] eng_step_refl [OF ok] show ?thesis by auto
  next
    case (Receive raw r)
    show ?thesis
    proof (cases "e_state e = CONNECTING")
      case True
      from handle_raw_connecting [OF ok True, of raw] Receive True show ?thesis
        by (auto simp: wp_def interrupted_def split: sum.splits)
    next
      case False
      from returns [OF handle_raw_connected [OF ok False] _ Receive(1)] show ?thesis by auto
    qed
  next
    case (Take r)
    have "wp take_effects (\<lambda>_ t. eng_step e t) (\<lambda>_ _. False) e" by (rule wp_mono [OF take_effects_ok [OF ok]]) auto
    from returns [OF this _ Take] show ?thesis by auto
  next
    case (Close r)
    have "wp notify_transport_closed (\<lambda>_ t. eng_step e t) (\<lambda>_ _. False) e" by (rule wp_mono [OF closed_ok [OF ok]]) auto
    from returns [OF this _ Close] show ?thesis by auto
  next
    case (Acknowledge mid message r)
    from returns [OF application_ops_ok(3) [OF ok] _ Acknowledge] show ?thesis by auto
  next
    case (Publish pick topic payload qos retain props r)
    from wp_run [OF publish_ok [OF ok Publish(1)] Publish(2)] show ?thesis .
  next
    case (Seal mids r)
    from returns [OF seal_publications_ok [OF ok] _ Seal] show ?thesis by auto
  next
    case (Continue r)
    from returns [OF application_ops_ok(1) [OF ok] _ Continue] show ?thesis by auto
  next
    case (Mark mid token r)
    from returns [OF application_ops_ok(2) [OF ok] _ Mark] show ?thesis by auto
  next
    case (Subscribe pick items qos props r)
    from wp_run [OF subscribe_ok(1) [OF ok Subscribe(1)] Subscribe(2)] show ?thesis .
  next
    case (Unsubscribe pick topics r)
    from wp_run [OF subscribe_ok(2) [OF ok Unsubscribe(1)] Unsubscribe(2)] show ?thesis .
  next
    case (Ping r)
    from wp_run [OF shell_ops_ok(1) [OF ok] Ping] show ?thesis .
  next
    case (Disconnect reason props r)
    from wp_run [OF shell_ops_ok(2) [OF ok] Disconnect] show ?thesis .
  next
    case (Auth reason props r)
    from wp_run [OF shell_ops_ok(3) [OF ok] Auth] show ?thesis .
  next
    case (Respond challenge reason props r)
    from wp_run [OF shell_ops_ok(4) [OF ok] Respond] show ?thesis .
  qed
  with rm show ?thesis by (simp add: sound_def eng_step_def)
qed

text \<open>A store a client may be opened on.\<close>

definition sound_store :: "mem_store \<Rightarrow> bool" where
  "sound_store st \<longleftrightarrow> store_inv st \<and> in_mids st \<subseteq> {1..65535} \<and> out_mids st \<subseteq> {1..65535} \<and> (\<forall>mid m. in_row st mid = Some m \<longrightarrow> im_state m \<noteq> IN_DONE)"

definition started :: "engine \<Rightarrow> bool" where
  "started e \<longleftrightarrow> (\<exists>c st. sound_store st \<and> 0 \<le> max_inbound_inflight c \<and> new_engine c st = Inr e)"

interpretation engine: kept_invariant started engine_step sound
proof
  fix e assume "started e"
  then obtain c st where st: "sound_store st" "0 \<le> max_inbound_inflight c" "new_engine c st = Inr e" by (auto simp: started_def)
  obtain e' where "new_engine c st = Inr e'" "engine_ok e'" "e_config e' = c"
    by (rule new_engine_ok [of st c]) (use st in \<open>auto simp: sound_store_def\<close>)
  with st show "sound e" by (simp add: sound_def)
qed (rule step_sound)

definition reachable :: "engine \<Rightarrow> bool" where
  "reachable e \<longleftrightarrow> (\<exists>e0. started e0 \<and> engine_step\<^sup>*\<^sup>* e0 e)"

lemma reachable_ok: "reachable e \<Longrightarrow> engine_ok e"
  using engine.always by (auto simp: reachable_def sound_def)

text \<open>A client on an empty store, and a run of it: a publication queued while offline and the start of a connection.\<close>

definition sample_config :: engine_config where
  "sample_config =
     \<lparr>cfg_client_id = [97], cfg_protocol = MQTTv5, cfg_clean_start = False, cfg_keepalive = 60, cfg_username = None, cfg_password = None,
      max_inbound_inflight = 65535, max_inbound_inflight_bytes = Some 67108864, max_outbound_inflight = None,
      max_unacknowledged_messages = Some 10000, max_unacknowledged_bytes = Some 67108864, cfg_connect_properties = None, cfg_will = None,
      cfg_will_properties = None, cfg_maximum_packet_size = None, cfg_topic_alias_maximum = 16, manual_ack = False, accept_auth = False\<rparr>"

definition sample_engine :: engine where
  "sample_engine = (case new_engine sample_config new_store of Inr e \<Rightarrow> e)"

definition sample_run :: engine where
  "sample_run = snd (begin_connect (snd (queue_publish Min (lit ''a/b'') [1] 1 False None None sample_engine)))"

lemma sample_store: "sound_store new_store"
  by (simp add: sound_store_def new_store_def store_inv_def tab_inv_def in_mids_def out_mids_def in_row_def tab_row_def)

lemma sample_ok: "new_engine sample_config new_store = Inr sample_engine" "engine_ok sample_engine" "e_config sample_engine = sample_config" "e_state sample_engine = NEW"
proof -
  obtain e where "new_engine sample_config new_store = Inr e" "engine_ok e" "e_config e = sample_config" "e_state e = NEW"
    by (rule new_engine_ok [of new_store sample_config]) (use sample_store in \<open>auto simp: sound_store_def sample_config_def\<close>)
  then show "new_engine sample_config new_store = Inr sample_engine" "engine_ok sample_engine" "e_config sample_engine = sample_config" "e_state sample_engine = NEW"
    by (simp_all add: sample_engine_def)
qed

lemma sample_steps: "engine_step\<^sup>*\<^sup>* sample_engine sample_run"
proof -
  have "engine_step e (snd (begin_connect e))" for e by (rule Connect [OF prod.collapse [symmetric]])
  moreover have "engine_step sample_engine (snd (queue_publish Min (lit ''a/b'') [1] 1 False None None sample_engine))"
    by (rule Publish [OF _ prod.collapse [symmetric]]) (simp add: pops_def)
  ultimately show ?thesis unfolding sample_run_def by (meson converse_rtranclp_into_rtranclp r_into_rtranclp)
qed

lemma sample_reachable: "reachable sample_engine" "reachable sample_run"
proof -
  have "started sample_engine" unfolding started_def
    by (intro exI [of _ sample_config] exI [of _ new_store]) (simp add: sample_store sample_ok(1), simp add: sample_config_def)
  then show "reachable sample_engine" "reachable sample_run" using sample_steps by (auto simp: reachable_def)
qed

text \<open>The number and the bytes of the stored publications whose receipts are still open.\<close>

definition open_publications :: "engine \<Rightarrow> int set" where
  "open_publications e = out_mids (e_store e) - sealed_mids (e_out e)"

definition out_bytes :: "mem_store \<Rightarrow> int \<Rightarrow> int" where
  "out_bytes st mid = (case out_row st mid of None \<Rightarrow> 0 | Some m \<Rightarrow> om_logical_size m)"

definition in_bytes :: "mem_store \<Rightarrow> int \<Rightarrow> int" where
  "in_bytes st mid = (case in_row st mid of None \<Rightarrow> 0 | Some m \<Rightarrow> im_logical_size m)"

lemma weights:
  "orows.weight X st = sum (out_bytes st) (out_mids st - X)" "orows.count X st = int (card (out_mids st - X))" "irows.weight {} st = sum (in_bytes st) (in_mids st)"
proof -
  show "orows.weight X st = sum (out_bytes st) (out_mids st - X)"
    unfolding orows.weight_def out_mids_dom by (rule sum.cong) (auto simp: out_bytes_def)
  show "orows.count X st = int (card (out_mids st - X))" by (simp add: orows.count_def out_mids_dom)
  show "irows.weight {} st = sum (in_bytes st) (in_mids st)"
    unfolding irows.weight_def in_mids_dom by (rule sum.cong) (auto simp: in_bytes_def)
qed

text \<open>
  C1. In every state a run of the engine reaches, from any store of an earlier run: the packet identifiers in use
  are exactly those of the stored publications and of the pending subscription requests, which are disjoint; the
  counted messages and bytes are those of the stored publications whose receipts are open; of these, each one still to be sent is queued, no two entries of the queue
  are the same publication, and only one that is not queued holds a send-quota slot (that one sent on admission does hold a slot is part of C3); the inbound counts and bytes are those of the
  stored exchanges, only stored exchanges are recorded as occupying an inbound slot for a stored message, and the inbound slots in use never exceed the announced Receive Maximum.
\<close>

theorem engine_invariant:
  assumes "sound_store st" "0 \<le> max_inbound_inflight c" "new_engine c st = Inr e0" "engine_step\<^sup>*\<^sup>* e0 e"
  shows "used (o_packet_ids (e_out e)) = out_mids (e_store e) \<union> sub_mids e \<and> out_mids (e_store e) \<inter> sub_mids e = {}
    \<and> o_pending_messages (e_out e) = int (card (open_publications e)) \<and> o_pending_bytes (e_out e) = sum (out_bytes (e_store e)) (open_publications e)
    \<and> {mid \<in> open_publications e. row_state (e_store e) mid = Some QUEUED} \<subseteq> set (queue_mids (e_store e) (e_out e)) \<and> distinct (queue_mids (e_store e) (e_out e))
    \<and> holders (o_flow (e_out e)) \<subseteq> open_publications e - set (queue_mids (e_store e) (e_out e))
    \<and> i_current_persisted_mids (e_in e) \<subseteq> in_mids (e_store e) \<and> in_inflight (e_in e) \<le> i_receive_maximum (e_in e)
    \<and> i_stored_inbound (e_in e) = int (card (in_mids (e_store e))) \<and> i_pending_bytes (e_in e) = sum (in_bytes (e_store e)) (in_mids (e_store e))"
proof -
  have "started e0" using assms(1-3) by (auto simp: started_def)
  from engine.always [OF this assms(4)] have ok: "engine_ok e" by (simp add: sound_def)
  note O = oinvD [OF engine_okD(2) [OF ok]] and I = iinvD [OF engine_okD(1) [OF ok]]
  show ?thesis
    using O(3,4,6,9,10,11,14) I(4,5,6,14) unfolding weights by (auto simp: open_publications_def)
qed

theorem engine_invariant_witness:
  "used (o_packet_ids (e_out sample_run)) = out_mids (e_store sample_run) \<union> sub_mids sample_run
    \<and> in_inflight (e_in sample_run) \<le> i_receive_maximum (e_in sample_run)"
  using engine_invariant [OF sample_store _ sample_ok(1) sample_steps] by (simp add: sample_config_def)

end
