(* ===== verification/Replay.thy ===== *)
theory Replay
  imports Engine_Steps
begin

text \<open>
  The redelivery of stored inbound messages: \<^verbatim>\<open>replay_session\<close> opens a cursor, every call of
  \<^verbatim>\<open>drain_replay\<close> hands over one bounded batch. The batches end, and together they are the messages due.
\<close>

subsection \<open>What a cursor still holds\<close>

text \<open>The messages behind the cursor, as far as they are still stored.\<close>

definition cursor_left :: "mem_store \<Rightarrow> replay_cursor \<Rightarrow> nat list" where
  "cursor_left st c =
     (case rc_pending c of None \<Rightarrow> [] | Some a \<Rightarrow> [a]) @ (case rc_page_messages c of None \<Rightarrow> [] | Some p \<Rightarrow> p)
     @ read_records (in_tab st) (map (\<lambda>a. im_mid (in_heap st ! a)) (rc_pages c))"

definition redelivered :: "inbound_message \<Rightarrow> message" where
  "redelivered m = decoded_message (im_topic m) (im_payload m) (im_qos m) (im_retain m) True (Some (im_mid m)) (im_properties m)"

definition due :: "nat list \<Rightarrow> engine \<Rightarrow> message list" where
  "due as e = map redelivered (filter (\<lambda>m. should_redeliver m e) (map (\<lambda>a. in_heap (e_store e) ! a) as))"

text \<open>A bound on the batches a cursor can still ask for.\<close>

definition cursor_work :: "replay_cursor \<Rightarrow> nat" where
  "cursor_work c = 2 * length (rc_pages c) + (case rc_pending c of None \<Rightarrow> 0 | Some _ \<Rightarrow> 1) + (case rc_page_messages c of None \<Rightarrow> 0 | Some p \<Rightarrow> length p + 1)"

text \<open>The count that lets the session end a replay without one more page never runs ahead of the pages.\<close>

definition cursor_inv :: "replay_cursor \<Rightarrow> bool" where
  "cursor_inv c \<longleftrightarrow> int (length (rc_pages c)) \<le> rc_remaining c"

definition opened :: "replay_cursor \<Rightarrow> bool" where
  "opened c \<longleftrightarrow> rc_pending c \<noteq> None \<or> rc_page_messages c \<noteq> None"

lemma collect_replay_mids:
  "collect_replay st mm mb index mids hb = (ms, rest) \<Longrightarrow>
     ms @ map (\<lambda>a. im_mid (in_heap st ! a)) rest = mids @ map (\<lambda>a. im_mid (in_heap st ! a)) index"
  by (induction index arbitrary: mids hb) (auto simp: Let_def split: if_splits)

lemma read_records_append: "read_records tab (xs @ ys) = read_records tab xs @ read_records tab ys"
  by (simp add: read_records_def map_filter_def)

lemma read_records_length: "length (read_records tab xs) \<le> length xs"
  by (simp add: read_records_def map_filter_def)

lemma in_replay_next_read:
  "case in_replay_next mm mb st index of None \<Rightarrow> read_records (in_tab st) (map (\<lambda>a. im_mid (in_heap st ! a)) index) = []
    | Some (page, rest) \<Rightarrow> read_records (in_tab st) (map (\<lambda>a. im_mid (in_heap st ! a)) index) = page @ read_records (in_tab st) (map (\<lambda>a. im_mid (in_heap st ! a)) rest)
        \<and> page \<noteq> [] \<and> length page + length rest \<le> length index"
proof (induction mm mb st index rule: in_replay_next.induct)
  case (1 mm mb st index)
  obtain ms rest where c: "collect_replay st mm mb index [] 0 = (ms, rest)" by fastforce
  have split: "map (\<lambda>a. im_mid (in_heap st ! a)) index = ms @ map (\<lambda>a. im_mid (in_heap st ! a)) rest" using collect_replay_mids [OF c] by simp
  then have len: "length index = length ms + length rest" by (metis length_append length_map)
  show ?case
  proof (cases "index = [] \<or> read_records (in_tab st) ms \<noteq> []")
    case True
    then show ?thesis using split len read_records_length [of "in_tab st" ms]
      by (auto simp: in_replay_next.simps [of mm mb st index] c read_records_append read_records_def map_filter_def)
  next
    case False
    with "1.IH" [of "(ms, rest)" ms rest] show ?thesis using c split len
      by (auto simp: in_replay_next.simps [of mm mb st index] read_records_append split: option.splits)
  qed
qed

lemma begin_page_left:
  assumes "begin_page st c = (b, c')"
  shows "if b then cursor_left st c' = cursor_left st c \<and> cursor_work c' \<le> cursor_work c \<and> opened c' \<and> (cursor_inv c \<longrightarrow> cursor_inv c')
    else cursor_left st c = []"
proof -
  have grown: "2 * length ba + length x < 2 * length ys" if "x \<noteq> []" "length x + length ba \<le> length ys" for x ba ys :: "nat list"
    using that by (cases x) auto
  show ?thesis
    using assms grown in_replay_next_read [where mm = REPLAY_BATCH_MESSAGES and mb = REPLAY_BATCH_BYTES and st = st and index = "rc_pages c"]
    by (auto simp: begin_page_def cursor_left_def cursor_work_def opened_def cursor_inv_def Suc_le_eq split: if_splits option.splits)
qed

lemma next_page_left:
  assumes "next_page_message c = (nx, c')"
  shows "rc_pages c' = rc_pages c" "rc_remaining c' = rc_remaining c" "rc_pending c' = None" "opened c \<Longrightarrow> cursor_work c' < cursor_work c" "cursor_work c' \<le> cursor_work c"
  using assms by (auto simp: next_page_message_def cursor_work_def opened_def split: option.splits list.splits if_splits)

lemma next_page_taken:
  assumes "next_page_message c = (nx, c')"
  shows "case nx of None \<Rightarrow> cursor_left st c' = cursor_left st c | Some a \<Rightarrow> cursor_left st c = a # cursor_left st c' \<and> cursor_work c' < cursor_work c"
  using assms by (auto simp: next_page_message_def cursor_left_def cursor_work_def split: option.splits list.splits if_splits)

lemma push_left:
  assumes "rc_pending c = None"
  shows "cursor_left st (c\<lparr>rc_pending := Some a\<rparr>) = a # cursor_left st c" "cursor_work (c\<lparr>rc_pending := Some a\<rparr>) = cursor_work c + 1"
  using assms by (simp_all add: cursor_left_def cursor_work_def)

subsection \<open>One batch\<close>

lemma emit_message_run:
  "wp (emit_message m True) (\<lambda>_ e'. e_store e' = e_store e \<and> e_config e' = e_config e \<and> i_recovered_mids (e_in e') = i_recovered_mids (e_in e)
      \<and> (\<exists>d. e_effects e' = e_effects e @ [EffMessage d] \<and> d_message d = redelivered m)) (\<lambda>_ _. False) e"
  by (auto simp: emit_message_def bind_ack_token_def exchange_token_def fresh_token_def deliver_def redelivered_def decoded_message_def wp_simps split: option.split)

lemma due_cong:
  "e_store e' = e_store e \<Longrightarrow> e_config e' = e_config e \<Longrightarrow> i_recovered_mids (e_in e') = i_recovered_mids (e_in e) \<Longrightarrow> due as e' = due as e"
  by (simp add: due_def should_redeliver_def)

lemma due_Cons: "due (a # as) e = (if should_redeliver (in_heap (e_store e) ! a) e then [redelivered (in_heap (e_store e) ! a)] else []) @ due as e"
  by (simp add: due_def)

text \<open>A batch that started with \<open>n\<close> messages: what it hands over is what the cursor loses.\<close>

definition batch :: "nat \<Rightarrow> replay_cursor \<Rightarrow> engine \<Rightarrow> replay_cursor \<Rightarrow> engine \<Rightarrow> bool" where
  "batch n c e c' e' \<longleftrightarrow> e_store e' = e_store e \<and> e_config e' = e_config e \<and> i_recovered_mids (e_in e') = i_recovered_mids (e_in e)
     \<and> rc_pages c' = rc_pages c \<and> rc_remaining c' = rc_remaining c \<and> cursor_work c' \<le> cursor_work c
     \<and> (\<exists>ds. e_effects e' = e_effects e @ map EffMessage ds \<and> n + length ds \<le> max n REPLAY_BATCH_MESSAGES
          \<and> due (cursor_left (e_store e) c) e = map d_message ds @ due (cursor_left (e_store e) c') e)"

lemma batch_more:
  assumes "batch (n + 1) c1 e1 c' e'" "n < REPLAY_BATCH_MESSAGES" "e_store e1 = e_store e" "e_config e1 = e_config e"
    "i_recovered_mids (e_in e1) = i_recovered_mids (e_in e)" "e_effects e1 = e_effects e @ [EffMessage d]" "d_message d = redelivered (in_heap (e_store e) ! a)"
    and "should_redeliver (in_heap (e_store e) ! a) e" "cursor_left (e_store e) c = a # cursor_left (e_store e) c1" "cursor_work c1 < cursor_work c"
    "rc_pages c1 = rc_pages c" "rc_remaining c1 = rc_remaining c"
  shows "batch n c e c' e'"
proof -
  from assms(1) obtain ds where ds: "e_effects e' = e_effects e1 @ map EffMessage ds" "n + 1 + length ds \<le> max (n + 1) REPLAY_BATCH_MESSAGES"
      "due (cursor_left (e_store e1) c1) e1 = map d_message ds @ due (cursor_left (e_store e1) c') e1"
    unfolding batch_def by blast
  have same: "due as e1 = due as e" for as by (rule due_cong) (use assms in auto)
  have "\<exists>ds. e_effects e' = e_effects e @ map EffMessage ds \<and> n + length ds \<le> max n REPLAY_BATCH_MESSAGES
          \<and> due (cursor_left (e_store e) c) e = map d_message ds @ due (cursor_left (e_store e) c') e"
    by (rule exI [of _ "d # ds"]) (use ds assms(2-9) same in \<open>auto simp: due_Cons\<close>)
  with assms show ?thesis by (auto simp: batch_def)
qed

lemma replay_loop_batch:
  "wp (replay_loop c n b) (\<lambda>c' e'. batch n c e c' e' \<and> (n = 0 \<longrightarrow> b = 0 \<longrightarrow> opened c \<longrightarrow> cursor_work c' < cursor_work c)) (\<lambda>_ _. False) e"
proof (induction c n b e rule: replay_loop.induct)
  case (1 c n b e)
  obtain nx c1 where nx: "next_page_message c = (nx, c1)" by fastforce
  note L = next_page_left [OF nx] and T = next_page_taken [OF nx, of "e_store e"]
  show ?case
  proof (cases "n < REPLAY_BATCH_MESSAGES \<and> b < REPLAY_BATCH_BYTES")
    case False
    then show ?thesis by (auto simp: wp_def replay_loop.simps [of c n b e] batch_def REPLAY_BATCH_MESSAGES_def REPLAY_BATCH_BYTES_def)
  next
    case go: True
    show ?thesis
    proof (cases nx)
      case None
      then show ?thesis using L T go by (auto simp: wp_def replay_loop.simps [of c n b e] nx batch_def)
    next
      case (Some a)
      let ?m = "in_heap (e_store e) ! a"
      have left: "cursor_left (e_store e) c = a # cursor_left (e_store e) c1" "cursor_work c1 < cursor_work c" using T Some by simp_all
      obtain r e1 where run: "emit_message ?m True e = (r, e1)" by fastforce
      from emit_message_run [of ?m e] obtain u d where u: "r = Inr u" and e1: "e_store e1 = e_store e" "e_config e1 = e_config e"
          "i_recovered_mids (e_in e1) = i_recovered_mids (e_in e)" "e_effects e1 = e_effects e @ [EffMessage d]" "d_message d = redelivered ?m"
        by (auto simp: wp_def run split: sum.splits)
      have skip: "wp (replay_loop c1 n b) (\<lambda>c' e'. batch n c e c' e' \<and> (n = 0 \<longrightarrow> b = 0 \<longrightarrow> opened c \<longrightarrow> cursor_work c' < cursor_work c)) (\<lambda>_ _. False) e"
        if no: "\<not> should_redeliver ?m e"
        by (rule wp_mono, rule "1.IH"(1) [OF _ nx [symmetric] Some])
          (use go no left L(1,2) in \<open>auto simp: batch_def due_Cons\<close>)
      have rest: "wp (replay_loop c1 (n + 1) (b + im_logical_size ?m)) (\<lambda>c' e'. batch n c e c' e' \<and> (n = 0 \<longrightarrow> b = 0 \<longrightarrow> opened c \<longrightarrow> cursor_work c' < cursor_work c)) (\<lambda>_ _. False) e1"
        if yes: "should_redeliver ?m e" "\<not> (n \<noteq> 0 \<and> b + im_logical_size ?m > REPLAY_BATCH_BYTES)"
      proof (rule wp_mono, rule "1.IH"(2) [OF _ nx [symmetric] Some _ _ _ _ run [symmetric] u])
        fix c' e' assume B: "batch (n + 1) c1 e1 c' e' \<and> (n + 1 = 0 \<longrightarrow> b + im_logical_size ?m = 0 \<longrightarrow> opened c1 \<longrightarrow> cursor_work c' < cursor_work c1)"
        then have "cursor_work c' \<le> cursor_work c1" by (simp add: batch_def)
        moreover have "batch n c e c' e'" by (rule batch_more [OF _ _ e1 yes(1) left L(1,2)]) (use B go in auto)
        ultimately show "batch n c e c' e' \<and> (n = 0 \<longrightarrow> b = 0 \<longrightarrow> opened c \<longrightarrow> cursor_work c' < cursor_work c)"
          using left(2) by simp
      qed (use go yes in auto)
      show ?thesis
        using go skip rest L left push_left [OF L(3)]
        by (auto simp: wp_def replay_loop.simps [of c n b e] nx Some Let_def run u push_back_def slift_def batch_def)
    qed
  qed
qed

text \<open>The messages among the effects.\<close>

definition deliveries :: "effect list \<Rightarrow> message list" where
  "deliveries effs = List.map_filter (\<lambda>eff. case eff of EffMessage d \<Rightarrow> Some (d_message d) | _ \<Rightarrow> None) effs"

lemma deliveries_simps [simp]:
  "deliveries [] = []" "deliveries (xs @ ys) = deliveries xs @ deliveries ys" "deliveries (map EffMessage ds) = map d_message ds"
  "deliveries [EffContinueInboundReplay] = []"
  by (auto simp: deliveries_def map_filter_def comp_def)

text \<open>What is still to be redelivered, and how many calls that can take.\<close>

definition replay_due :: "engine \<Rightarrow> message list" where
  "replay_due e = (case i_replay (e_in e) of None \<Rightarrow> [] | Some c \<Rightarrow> due (cursor_left (e_store e) c) e)"

definition replay_work :: "engine \<Rightarrow> nat" where
  "replay_work e = (case i_replay (e_in e) of None \<Rightarrow> 0 | Some c \<Rightarrow> cursor_work c + 1)"

definition replay_inv :: "engine \<Rightarrow> bool" where
  "replay_inv e \<longleftrightarrow> (case i_replay (e_in e) of None \<Rightarrow> True | Some c \<Rightarrow> cursor_inv c)"

definition batch_of :: "engine \<Rightarrow> engine \<Rightarrow> bool" where
  "batch_of e e' \<longleftrightarrow> e_store e' = e_store e \<and> replay_inv e' \<and> (replay_pending (e_in e) \<longrightarrow> replay_work e' < replay_work e)
     \<and> (\<exists>effs. e_effects e' = e_effects e @ effs \<and> length (deliveries effs) \<le> REPLAY_BATCH_MESSAGES \<and> replay_due e = deliveries effs @ replay_due e')"

lemma drain_replay_batch:
  assumes inv: "replay_inv e"
  shows "wp drain_replay (\<lambda>_ e'. batch_of e e') (\<lambda>_ _. False) e"
proof (cases "i_replay (e_in e)")
  case None
  then show ?thesis by (simp add: drain_replay_def wp_simps batch_of_def replay_inv_def replay_pending_def replay_due_def exI [of _ "[]"])
next
  case (Some c)
  obtain b c1 where p: "begin_page (e_store e) c = (b, c1)" by fastforce
  note P = begin_page_left [OF p]
  have "wp (replay_loop c1 0 0) (\<lambda>x s. (bounded_complete x \<longrightarrow> batch_of e (s\<lparr>e_in := (e_in s)\<lparr>i_replay := None, i_recovered_mids := {}\<rparr>\<rparr>)) \<and>
      (\<not> bounded_complete x \<longrightarrow> batch_of e (s\<lparr>e_in := (e_in s)\<lparr>i_replay := Some x\<rparr>, e_effects := e_effects s @ [EffContinueInboundReplay]\<rparr>))) (\<lambda>_ _. False) e" if b
  proof (rule wp_mono [OF replay_loop_batch])
    fix x s assume B: "batch 0 c1 e x s \<and> (0 = 0 \<longrightarrow> 0 = 0 \<longrightarrow> opened c1 \<longrightarrow> cursor_work x < cursor_work c1)"
    have work: "cursor_work x < cursor_work c" and ci: "cursor_inv x" and left: "cursor_left (e_store e) c1 = cursor_left (e_store e) c"
      using B P that inv by (auto simp: replay_inv_def Some batch_def cursor_inv_def)
    from B obtain ds where ds: "e_store s = e_store e" "e_config s = e_config e" "i_recovered_mids (e_in s) = i_recovered_mids (e_in e)"
        "e_effects s = e_effects e @ map EffMessage ds" "length ds \<le> REPLAY_BATCH_MESSAGES"
        "due (cursor_left (e_store e) c1) e = map d_message ds @ due (cursor_left (e_store e) x) e"
      by (auto simp: batch_def)
    have finished: "cursor_left (e_store e) x = []" if "bounded_complete x"
      using that ci by (auto simp: bounded_complete_def cursor_inv_def cursor_left_def read_records_def map_filter_def)
    have rest: "due as (s\<lparr>e_in := (e_in s)\<lparr>i_replay := Some x\<rparr>, e_effects := y\<rparr>) = due as e" for as y
      by (rule due_cong) (use ds in simp_all)
    show "(bounded_complete x \<longrightarrow> batch_of e (s\<lparr>e_in := (e_in s)\<lparr>i_replay := None, i_recovered_mids := {}\<rparr>\<rparr>)) \<and>
      (\<not> bounded_complete x \<longrightarrow> batch_of e (s\<lparr>e_in := (e_in s)\<lparr>i_replay := Some x\<rparr>, e_effects := e_effects s @ [EffContinueInboundReplay]\<rparr>))"
      using work ci ds finished rest left by (auto simp: batch_of_def replay_inv_def replay_work_def replay_due_def Some due_def [of "[]"])
  qed simp
  with P show ?thesis by (cases b) (simp_all add: drain_replay_def wp_simps Some p batch_of_def replay_inv_def replay_work_def replay_due_def due_def)
qed

subsection \<open>The whole replay\<close>

definition replay_calls :: "nat \<Rightarrow> engine \<Rightarrow> engine" where
  "replay_calls n e = ((\<lambda>e. snd (continue_inbound_replay e)) ^^ n) e"

lemma replay_calls_simps [simp]: "replay_calls 0 e = e" "replay_calls (Suc n) e = replay_calls n (snd (continue_inbound_replay e))"
  by (simp_all add: replay_calls_def funpow_Suc_right del: funpow.simps(2))

lemma batch_run:
  assumes "replay_inv e"
  shows "batch_of e (snd (continue_inbound_replay e))"
  using drain_replay_batch [OF assms] by (auto simp: wp_def continue_inbound_replay_def split: prod.splits sum.splits)

lemma replay_run:
  assumes "replay_inv e"
  obtains n effs where "n \<le> replay_work e" "\<not> replay_pending (e_in (replay_calls n e))" "e_store (replay_calls n e) = e_store e"
    "e_effects (replay_calls n e) = e_effects e @ effs" "deliveries effs = replay_due e"
  using assms
proof (induction "replay_work e" arbitrary: e thesis rule: less_induct)
  case less
  note B = batch_run [OF less.prems(2)]
  show ?case
  proof (cases "replay_pending (e_in e)")
    case False
    then show ?thesis by (intro less.prems(1) [of 0 "[]"]) (auto simp: replay_due_def replay_pending_def)
  next
    case True
    with B have smaller: "replay_work (snd (continue_inbound_replay e)) < replay_work e" by (simp add: batch_of_def)
    from B obtain effs where effs: "e_effects (snd (continue_inbound_replay e)) = e_effects e @ effs"
        "replay_due e = deliveries effs @ replay_due (snd (continue_inbound_replay e))" by (auto simp: batch_of_def)
    from B obtain n rest where n: "n \<le> replay_work (snd (continue_inbound_replay e))" "\<not> replay_pending (e_in (replay_calls n (snd (continue_inbound_replay e))))"
        "e_store (replay_calls n (snd (continue_inbound_replay e))) = e_store (snd (continue_inbound_replay e))"
        "e_effects (replay_calls n (snd (continue_inbound_replay e))) = e_effects (snd (continue_inbound_replay e)) @ rest"
        "deliveries rest = replay_due (snd (continue_inbound_replay e))"
      using less.hyps [OF smaller] by (auto simp: batch_of_def)
    show ?thesis by (rule less.prems(1) [of "Suc n" "effs @ rest"]) (use n effs smaller B in \<open>auto simp: batch_of_def\<close>)
  qed
qed

lemma batches_small:
  "replay_inv e \<Longrightarrow> replay_inv (replay_calls k e)
     \<and> (\<exists>effs. e_effects (replay_calls (Suc k) e) = e_effects (replay_calls k e) @ effs \<and> length (deliveries effs) \<le> REPLAY_BATCH_MESSAGES)"
proof (induction k arbitrary: e)
  case 0
  then show ?case using batch_run [OF 0] by (auto simp: batch_of_def)
next
  case (Suc k)
  have "replay_inv (snd (continue_inbound_replay e))" using batch_run [OF Suc.prems] by (simp add: batch_of_def)
  from Suc.IH [OF this] show ?case by simp
qed

lemma read_all_rows:
  assumes "store_inv st"
  shows "read_records (in_tab st) (map (\<lambda>a. im_mid (in_heap st ! a)) (map snd (in_tab st))) = map snd (in_tab st)"
proof -
  have ti: "tab_inv (in_tab st) (in_heap st) im_mid im_logical_size" by (rule store_invD(2) [OF assms])
  have keys: "im_mid (in_heap st ! a) = mid" if "(mid, a) \<in> set (in_tab st)" for mid a
    using that ti by (auto simp: tab_inv_def)
  have dist: "distinct (map fst (in_tab st))" using ti by (simp add: tab_inv_def)
  have eq: "map (\<lambda>a. im_mid (in_heap st ! a)) (map snd (in_tab st)) = map fst (in_tab st)"
    using keys by (auto intro: map_cong)
  have "read_records (in_tab st) (map fst (in_tab st)) = map (\<lambda>mid. the (map_of (in_tab st) mid)) (map fst (in_tab st))"
    by (rule read_records_all) simp
  also have "\<dots> = map snd (in_tab st)" using dist by (auto simp: comp_def intro!: map_cong)
  finally show ?thesis unfolding eq .
qed

lemma session_start:
  assumes "store_inv (e_store e)" "\<not> replay_pending (e_in e)"
  shows "wp in_replay_session (\<lambda>_ e1. e_store e1 = e_store e \<and> replay_inv e1 \<and> replay_work e1 \<le> 2 * in_count (e_store e)
     \<and> (\<exists>effs. e_effects e1 = e_effects e @ effs \<and> length (deliveries effs) \<le> REPLAY_BATCH_MESSAGES
          \<and> due (map snd (in_tab (e_store e))) e = deliveries effs @ replay_due e1)) (\<lambda>_ _. False) e"
proof (cases "in_tab (e_store e) = []")
  case True
  then show ?thesis using assms(2)
    by (simp add: in_replay_session_def wp_simps in_count_def replay_inv_def replay_work_def replay_due_def due_def replay_pending_def)
next
  case False
  let ?c = "\<lparr>rc_pages = map snd (in_tab (e_store e)), rc_page_messages = None, rc_pending = None, rc_remaining = int (length (in_tab (e_store e)))\<rparr>"
  let ?e = "e\<lparr>e_in := (e_in e)\<lparr>i_current_persisted_mids := {}, i_replay := Some ?c\<rparr>\<rparr>"
  have left: "cursor_left (e_store e) ?c = map snd (in_tab (e_store e))"
    using read_all_rows [OF assms(1)] by (simp add: cursor_left_def)
  have "due as ?e = due as e" for as by (rule due_cong) simp_all
  then have d: "replay_due ?e = due (map snd (in_tab (e_store e))) e" using left by (simp add: replay_due_def)
  have "replay_inv ?e" by (simp add: replay_inv_def cursor_inv_def)
  from drain_replay_batch [OF this] have "wp drain_replay (\<lambda>_ e1. e_store e1 = e_store e \<and> replay_inv e1 \<and> replay_work e1 \<le> 2 * in_count (e_store e)
     \<and> (\<exists>effs. e_effects e1 = e_effects e @ effs \<and> length (deliveries effs) \<le> REPLAY_BATCH_MESSAGES
          \<and> due (map snd (in_tab (e_store e))) e = deliveries effs @ replay_due e1)) (\<lambda>_ _. False) ?e"
    by (rule wp_mono) (auto simp: batch_of_def d replay_pending_def replay_work_def [of ?e] cursor_work_def in_count_def)
  then show ?thesis using False
    by (simp add: in_replay_session_def wp_simps in_count_def in_replay_start_def REPLAY_BATCH_MESSAGES_def REPLAY_BATCH_BYTES_def)
qed

text \<open>
  C8. When a resumed session replays its inbound messages, the opening call and the calls of continue_inbound_replay the engine asks for
  never fail and come to an end after at most twice as many calls as there are stored messages; each hands over at most 64 messages;
  together they hand over, marked as duplicates and in the order of the store, exactly the stored messages
  that were not delivered or, under manual acknowledgement, not acknowledged; and the store is left as it was.
\<close>

theorem replay_complete:
  assumes "reachable e" "\<not> replay_pending (e_in e)"
  shows "\<exists>e1 n effs. in_replay_session e = (Inr (), e1) \<and> n \<le> 2 * in_count (e_store e)
    \<and> \<not> replay_pending (e_in (replay_calls n e1)) \<and> e_store (replay_calls n e1) = e_store e
    \<and> e_effects (replay_calls n e1) = e_effects e @ effs \<and> deliveries effs = due (map snd (in_tab (e_store e))) e
    \<and> (\<forall>k. \<exists>batch. e_effects (replay_calls (Suc k) e1) = e_effects (replay_calls k e1) @ batch \<and> length (deliveries batch) \<le> REPLAY_BATCH_MESSAGES)"
proof -
  have "store_inv (e_store e)" using iinvD(1) [OF engine_okD(1) [OF reachable_ok [OF assms(1)]]] .
  from session_start [OF this assms(2)] obtain e1 first where run: "in_replay_session e = (Inr (), e1)" and s: "e_store e1 = e_store e" "replay_inv e1"
      "replay_work e1 \<le> 2 * in_count (e_store e)" "e_effects e1 = e_effects e @ first" "due (map snd (in_tab (e_store e))) e = deliveries first @ replay_due e1"
    by (auto simp: wp_def split: prod.splits sum.splits)
  obtain n effs where n: "n \<le> replay_work e1" "\<not> replay_pending (e_in (replay_calls n e1))" "e_store (replay_calls n e1) = e_store e1"
    "e_effects (replay_calls n e1) = e_effects e1 @ effs" "deliveries effs = replay_due e1"
    by (rule replay_run [OF s(2)])
  show ?thesis
    by (rule exI [of _ e1], rule exI [of _ n], rule exI [of _ "first @ effs"]) (use run s n batches_small [OF s(2)] in auto)
qed

theorem replay_complete_witness:
  "\<exists>e1 n. in_replay_session sample_engine = (Inr (), e1) \<and> \<not> replay_pending (e_in (replay_calls n e1))"
proof -
  have "\<not> replay_pending (e_in sample_engine)" by code_simp
  from replay_complete [OF sample_reachable(1) this] show ?thesis by blast
qed

end
