(* ===== verification/Session_Properties.thy ===== *)
theory Session_Properties
  imports Replay
begin

text \<open>
  What the two sessions promise their caller in every state a run of the engine reaches: publications are taken whole or
  not at all, an acknowledgement ends exactly the exchange it names, an incoming exchange is received once, and no packet of
  a peer reaches a failed assertion. \<open>wp m Q E e\<close> says that the call \<open>m\<close> in the state \<open>e\<close> returns
  a value and a state of \<open>Q\<close>, or raises with an error and a state of \<open>E\<close>.
\<close>

lemma reachable_step: "reachable e \<Longrightarrow> engine_step e e' \<Longrightarrow> reachable e'"
  unfolding reachable_def by (meson rtranclp.rtrancl_into_rtrancl)

lemma reachable_out: "reachable e \<Longrightarrow> out_ok e"
  using reachable_ok by (simp add: engine_ok_def)

lemma handle_raw_report:
  "wp (handle_raw raw) (\<lambda>r e'. \<forall>x. r = Some x \<longrightarrow> blames_peer x \<and> (\<exists>effs. e_effects e' = effs @ [EffProtocolError x])) (\<lambda>x _. \<not> blames_peer x) e"
  by (simp add: handle_raw_def wp_simps) (simp add: wp_def split: prod.split sum.split)

text \<open>
  C2. Whatever packet arrives in a reachable state that is not waiting for its CONNACK, handling it returns or raises; an error it
  blames on the peer is returned and reported as the last effect; no raised error is a failed assertion or an inconsistency the code
  guards against with RuntimeError; and the engine it leaves is one of the reachable, hence consistent, states.
\<close>

theorem receive_safe:
  assumes "reachable e" "e_state e \<noteq> CONNECTING"
  shows "wp (handle_raw raw)
    (\<lambda>r e'. reachable e' \<and> (\<forall>x. r = Some x \<longrightarrow> blames_peer x \<and> (\<exists>effs. e_effects e' = effs @ [EffProtocolError x])))
    (\<lambda>x e'. reachable e' \<and> \<not> blames_peer x \<and> x \<noteq> AssertionError \<and> x \<noteq> RuntimeError) e"
proof -
  have "reachable e'" if "handle_raw raw e = (r, e')" for r e'
    by (rule reachable_step [OF assms(1) Receive [OF that]]) (use assms(2) in \<open>simp add: interrupted_def\<close>)
  then show ?thesis
    using handle_raw_connected [OF reachable_ok [OF assms(1)] assms(2), of raw] handle_raw_report [of raw e]
    by (auto simp: wp_def internal_def split: prod.split sum.split)
qed

theorem receive_safe_witness:
  "wp (handle_raw \<lparr>raw_type = PINGRESP, raw_flags = 0, remaining = [7]\<rparr>) (\<lambda>_ e'. reachable e') (\<lambda>x e'. x \<noteq> AssertionError) sample_engine"
  by (rule wp_mono [OF receive_safe [OF sample_reachable(1)]]) (simp_all add: sample_ok(4))

text \<open>
  C3. A publication is taken whole or not at all. If \<^verbatim>\<open>queue_publish\<close> raises, the stored publications, the identifiers
  and send-quota slots in use, the queue and the counted messages and bytes are what they were. If it returns, a QoS 0
  publication was sent and completed without touching them; any other has an identifier of its own in 1..65535 that was unused,
  is stored and counted once, within the limits of the configuration, and is either sent, holding a send-quota slot, or queued behind the others, which while connected
  happens only when the window is full.
\<close>

theorem publish_all_or_nothing:
  assumes "reachable e" "pops pick"
  shows "wp (queue_publish pick topic payload qos retain props None)
    (\<lambda>h e'. reachable e' \<and> handle_qos h = qos \<and> published e h e') (\<lambda>_ e'. reachable e' \<and> same_session e e') e"
proof -
  have "reachable e'" if "queue_publish pick topic payload qos retain props None e = (r, e')" for r e'
    by (rule reachable_step [OF assms(1) Publish [OF assms(2) that]])
  then show ?thesis
    using queue_publish_ok [OF reachable_out [OF assms(1)] assms(2), of topic payload qos retain props] by (auto simp: wp_def split: prod.split sum.split)
qed

theorem publish_all_or_nothing_witness:
  "wp (queue_publish Min (lit ''a/b'') [1] 2 False None None) (\<lambda>h e'. handle_qos h = 2 \<and> published sample_run h e') (\<lambda>_ e'. same_session sample_run e') sample_run"
  by (rule wp_mono [OF publish_all_or_nothing [OF sample_reachable(2) pops_Min]]) simp_all

text \<open>
  C4. A PUBACK ends the QoS 1 publication it names and a PUBCOMP the QoS 2 publication it names, if that waits for it: it leaves the store, its outcome
  (completed, or failed with the broker's reason) is reported exactly once, first, and every other report concerns another publication; publications
  waiting for a slot are then sent until none is left or the window is full. An acknowledgement nothing waits for changes nothing.
\<close>

theorem acknowledgement_settles:
  assumes "reachable e"
  shows "wp (on_puback raw) (\<lambda>_ e'. \<exists>mid r p. decode_puback (e_codec e) (remaining raw) = Inr (mid, r, p)
      \<and> settled mid WAIT_PUBACK (if r < 128 then None else Some (PublishRejected ''PUBACK'' r p)) e e') (\<lambda>x _. peer_error x) e
    \<and> wp (on_pubcomp raw) (\<lambda>_ e'. \<exists>mid r p. decode_pubcomp (e_codec e) (remaining raw) = Inr (mid, r, p)
      \<and> settled mid WAIT_PUBCOMP (if r < 128 then None else Some (PublishRejected ''PUBCOMP'' r p)) e e') (\<lambda>x _. peer_error x) e"
  by (intro conjI; rule wp_mono, rule on_puback_ok [OF reachable_out [OF assms]] on_pubcomp_ok [OF reachable_out [OF assms]]) auto

theorem acknowledgement_settles_witness:
  "wp (on_puback \<lparr>raw_type = PUBACK, raw_flags = 0, remaining = [0, 1]\<rparr>)
     (\<lambda>_ e'. \<exists>mid r p. settled mid WAIT_PUBACK (if r < 128 then None else Some (PublishRejected ''PUBACK'' r p)) sample_run e') (\<lambda>x _. peer_error x) sample_run"
  by (rule wp_mono [OF conjunct1 [OF acknowledgement_settles [OF sample_reachable(2)]]]) blast+

text \<open>
  C5. An incoming QoS 2 publication is received once. Its first arrival is answered with a PUBREC, stored until the PUBREL comes, and handed
  to the application; while it is stored, further copies are answered again and nothing else. A call that cannot do so
  raises, with no failed assertion.
\<close>

theorem qos2_received_once:
  assumes "reachable e" "topic \<noteq> []" "1 \<le> mid" "mid \<le> 65535"
  shows "wp (on_qos2 (topic, payload, mid, retain, dup, props, wire))
    (\<lambda>_ e'. received_once mid (decoded_message topic payload 2 retain dup (Some mid) props) e e') (\<lambda>x _. \<not> internal x) e"
  by (rule wp_mono [OF on_qos2_ok [OF reachable_ok [OF assms(1)] assms(2-4)]]) simp_all

theorem qos2_received_once_witness:
  "wp (on_qos2 ([97], [1, 2], 7, False, False, None, None))
    (\<lambda>_ e'. received_once 7 (decoded_message [97] [1, 2] 2 False False (Some 7) None) sample_engine e') (\<lambda>x _. \<not> internal x) sample_engine"
  by (rule qos2_received_once [OF sample_reachable(1)]) simp_all

text \<open>
  C6. The runtime's mark that a message was handed over ends the exchange that waited for it: the row is dropped and the PUBACK or
  PUBCOMP sent. A mark with the token of an exchange that has ended meanwhile, though its identifier is in use again, changes nothing; the call never raises.
\<close>

theorem mark_ends_exchange:
  assumes "reachable e"
  shows "wp (mark_delivered mid token)
    (\<lambda>_ e'. if token \<noteq> None \<and> i_exchange_tokens (e_in e) mid \<noteq> token then e' = e else mark_ends mid e e') (\<lambda>_ _. False) e"
  by (rule wp_mono [OF mark_delivered_ok [OF reachable_ok [OF assms]]]) simp_all

theorem mark_ends_exchange_witness:
  "wp (mark_delivered 7 (Some 3)) (\<lambda>_ e'. e' = sample_engine) (\<lambda>_ _. False) sample_engine"
proof -
  have "i_exchange_tokens (e_in sample_engine) 7 = None" by code_simp
  then show ?thesis by (intro wp_mono [OF mark_ends_exchange [OF sample_reachable(1)]]) simp_all
qed

text \<open>
  C7. The queue of publications is never stuck: the drain loop always comes to an end without raising, and then the queue is empty or the window
  has no free slot; meanwhile it only sends queued publications or reports the ones it had to give up.
\<close>

theorem drain_progress:
  assumes "reachable e"
  shows "wp drain (\<lambda>_ e'. (o_queued (e_out e') = [] \<or> flow_available (o_flow (e_out e')) = 0)
      \<and> (\<exists>effs. e_effects e' = e_effects e @ effs \<and> list_all (outbound_effect (out_mids (e_store e))) effs)
      \<and> flow_limit (o_flow (e_out e')) = flow_limit (o_flow (e_out e))) (\<lambda>_ _. False) e"
  by (rule wp_mono [OF drain_ok [of "{}" e "sub_mids e"]]) (use reachable_out [OF assms] in \<open>auto simp: out_ok_def same_rest_def\<close>)

theorem drain_progress_witness:
  "wp drain (\<lambda>_ e'. o_queued (e_out e') = [] \<or> flow_available (o_flow (e_out e')) = 0) (\<lambda>_ _. False) sample_run"
  by (rule wp_mono [OF drain_progress [OF sample_reachable(2)]]) auto

end
