(* ===== verification/Writer.thy ===== *)
theory Writer
  imports Packets_Common
begin

text \<open>
  The transport writer, \<^verbatim>\<open>src/src/mqttium/api/_writer.py\<close>: the queue of frames with its message and byte bounds, the eager writes that
  pass an idle queue by, the latency batch, the producers that wait for room and the task that writes batches. A coroutine runs alone
  between two of its suspensions, so every operation here is one such stretch of code. A call of the transport has an
  outcome: it takes the bytes, declines them, or raises after exposing some of them. Left out: the time of the last write, which only
  the keep-alive timer reads, and the lock of \<^verbatim>\<open>space\<close>, which is only ever held between suspensions.
\<close>

subsection \<open>State\<close>

text \<open>Two fields are no part of the program: \<open>p_wire\<close>, the bytes given to the transport of this connection, and
  \<open>p_admitted\<close>, the frames the pump took over for it. \<open>p_batch\<close> and \<open>p_todo\<close> are the writer task's
  local batch and the calls it has still to make; \<open>p_parked\<close> are the producers waiting for room (\<^verbatim>\<open>waiters\<close> of them) and
  \<open>p_callbacks\<close> the generations of the scheduled re-arm callbacks. \<open>p_nowait\<close>: the transport offers \<^verbatim>\<open>write_nowait\<close>.\<close>

datatype writer_call = CountSegmented | WriteMany "bytes list" | WriteOne bytes

record write_pump =
  p_max_bytes :: int
  p_max_messages :: int
  p_queue :: "write_item list"
  p_unfinished :: int
  p_queued_bytes :: int
  p_resident :: int
  p_high_messages :: int
  p_high_bytes :: int
  p_parked :: "(write_item \<times> int) list"
  p_running :: bool
  p_nowait :: bool
  p_epoch :: int
  p_eager_armed :: bool
  p_ack_eager_armed :: bool
  p_generation :: nat
  p_rearm_scheduled :: bool
  p_callbacks :: "nat list"
  p_ack_owner :: "nat option"
  p_ack_deferred :: bool
  p_writing :: bool
  p_sealed :: bool
  p_latency_failure :: "exn option"
  p_batches :: int
  p_batched_items :: int
  p_batched_bytes :: int
  p_segmented_writes :: int
  p_enqueue_suspensions :: int
  p_eager_writes :: int
  p_eager_bytes :: int
  p_batch :: "write_item list"
  p_todo :: "writer_call list"
  p_wire :: bytes
  p_admitted :: "write_item list"

definition LATENCY_BATCH_MIN_ITEMS :: nat where "LATENCY_BATCH_MIN_ITEMS = 4"
definition LATENCY_BATCH_MAX_ITEMS :: nat where "LATENCY_BATCH_MAX_ITEMS = 16"
definition LATENCY_BATCH_TARGET_BYTES :: int where "LATENCY_BATCH_TARGET_BYTES = 49152"

definition new_pump :: "int \<Rightarrow> int \<Rightarrow> write_pump" where
  "new_pump max_bytes max_messages =
     \<lparr>p_max_bytes = max_bytes, p_max_messages = max_messages, p_queue = [], p_unfinished = 0, p_queued_bytes = 0, p_resident = 0,
      p_high_messages = 0, p_high_bytes = 0, p_parked = [], p_running = False, p_nowait = False, p_epoch = 0, p_eager_armed = False,
      p_ack_eager_armed = False, p_generation = 0, p_rearm_scheduled = False, p_callbacks = [], p_ack_owner = None, p_ack_deferred = False,
      p_writing = False, p_sealed = False, p_latency_failure = None, p_batches = 0, p_batched_items = 0, p_batched_bytes = 0,
      p_segmented_writes = 0, p_enqueue_suspensions = 0, p_eager_writes = 0, p_eager_bytes = 0, p_batch = [], p_todo = [],
      p_wire = [], p_admitted = []\<rparr>"

text \<open>What a call of the transport does: take the bytes, decline them, or raise after exposing the first \<open>n\<close> of them.\<close>

datatype outcome_of_write = Accepted | Declined | Broken nat exn

subsection \<open>Accounting\<close>

definition admit_queued :: "int \<Rightarrow> write_pump \<Rightarrow> write_pump" where
  "admit_queued n p = p\<lparr>p_resident := p_resident p + n\<rparr>"

definition release_resident :: "int \<Rightarrow> write_pump \<Rightarrow> unit result \<times> write_pump" where
  "release_resident n p =
     (if n < 0 \<or> n > p_resident p then (Inl AssertionError, p) else (Inr (), p\<lparr>p_resident := p_resident p - n\<rparr>))"

definition sample_high_water :: "int option \<Rightarrow> write_pump \<Rightarrow> write_pump" where
  "sample_high_water queued_messages p =
     (let messages = (case queued_messages of None \<Rightarrow> int (length (p_queue p)) | Some n \<Rightarrow> n)
      in p\<lparr>p_high_messages := (if messages > p_high_messages p then messages else p_high_messages p),
           p_high_bytes := (if p_queued_bytes p > p_high_bytes p then p_queued_bytes p else p_high_bytes p)\<rparr>)"

definition can_enqueue_size :: "int \<Rightarrow> write_pump \<Rightarrow> bool" where
  "can_enqueue_size n p =
     (if p_resident p \<ge> p_max_messages p then False
      else p_queued_bytes p + n \<le> p_max_bytes p \<or> p_resident p = 0 \<and> p_queued_bytes p = 0)"

text \<open>\<^verbatim>\<open>queue.put_nowait\<close> and the accounting of the frame.\<close>

definition put_frame :: "write_item \<Rightarrow> write_pump \<Rightarrow> write_pump" where
  "put_frame item p =
     admit_queued 1 (p\<lparr>p_queue := p_queue p @ [item], p_unfinished := p_unfinished p + 1, p_queued_bytes := p_queued_bytes p + int (item_size item)\<rparr>)"

subsection \<open>Eager permits and lifecycle\<close>

definition drop_eager_binding :: "write_pump \<Rightarrow> write_pump" where
  "drop_eager_binding p = p\<lparr>p_generation := p_generation p + 1, p_eager_armed := False, p_ack_eager_armed := False, p_rearm_scheduled := False,
     p_ack_owner := None, p_ack_deferred := False, p_nowait := False\<rparr>"

definition own_ack_rearm :: "nat option \<Rightarrow> write_pump \<Rightarrow> write_pump" where
  "own_ack_rearm task p = p\<lparr>p_ack_owner := task, p_ack_deferred := False\<rparr>"

definition rearm_deferred_ack :: "write_pump \<Rightarrow> write_pump" where
  "rearm_deferred_ack p =
     (if p_ack_deferred p
      then (let q = p\<lparr>p_ack_deferred := False\<rparr>
            in if p_nowait q \<and> \<not> p_writing q \<and> p_queue q = [] then q\<lparr>p_ack_eager_armed := True\<rparr> else q)
      else p)"

definition rearm_eager_if_idle :: "nat \<Rightarrow> write_pump \<Rightarrow> write_pump" where
  "rearm_eager_if_idle generation p =
     (if generation \<noteq> p_generation p then p
      else (let q = p\<lparr>p_rearm_scheduled := False\<rparr>
            in if p_nowait q \<and> \<not> p_writing q \<and> p_queue q = [] then q\<lparr>p_eager_armed := True, p_ack_eager_armed := True\<rparr> else q))"

definition schedule_eager_rearm :: "write_pump \<Rightarrow> write_pump" where
  "schedule_eager_rearm p =
     (if p_rearm_scheduled p then p else p\<lparr>p_rearm_scheduled := True, p_callbacks := p_callbacks p @ [p_generation p]\<rparr>)"

definition pump_reset :: "write_pump \<Rightarrow> write_pump" where
  "pump_reset p = (drop_eager_binding ((sample_high_water None p)\<lparr>p_queue := [], p_unfinished := 0, p_queued_bytes := 0, p_resident := 0,
     p_latency_failure := None, p_sealed := False\<rparr>))\<lparr>p_writing := False\<rparr>"

text \<open>The idle point of the writer task, before it waits for a frame.\<close>

definition writer_idle :: "write_pump \<Rightarrow> write_pump" where
  "writer_idle p = (if p_queue p = [] \<and> p_nowait p then p\<lparr>p_eager_armed := True, p_ack_eager_armed := True\<rparr> else p)"

definition pump_start :: "bool \<Rightarrow> write_pump \<Rightarrow> unit result \<times> write_pump" where
  "pump_start offers_nowait p =
     (if p_running p then (Inl RuntimeError, p)
      else (Inr (), p\<lparr>p_writing := False, p_generation := p_generation p + 1, p_nowait := offers_nowait, p_eager_armed := offers_nowait,
              p_ack_eager_armed := offers_nowait, p_rearm_scheduled := False, p_running := True, p_batch := [], p_todo := [],
              p_wire := [], p_admitted := []\<rparr>))"

definition pump_seal :: "write_pump \<Rightarrow> write_pump" where
  "pump_seal p = p\<lparr>p_sealed := True\<rparr>"

definition set_epoch :: "int \<Rightarrow> write_pump \<Rightarrow> write_pump" where
  "set_epoch n p = p\<lparr>p_epoch := n\<rparr>"

definition pump_discard :: "write_pump \<Rightarrow> unit result \<times> write_pump" where
  "pump_discard p =
     (let q = (drop_eager_binding (sample_high_water None p))\<lparr>p_writing := False\<rparr>; remaining = length (p_queue q)
      in release_resident (int remaining) (q\<lparr>p_queue := [], p_unfinished := p_unfinished q - int remaining, p_queued_bytes := 0\<rparr>))"

subsection \<open>Eager writes\<close>

definition fence_eager_failure :: "exn \<Rightarrow> write_pump \<Rightarrow> write_pump" where
  "fence_eager_failure failure p =
     (let q = drop_eager_binding (p\<lparr>p_latency_failure := Some failure\<rparr>) in q\<lparr>p_epoch := p_epoch q + 1\<rparr>)"

definition retain_failed_eager :: "write_item \<Rightarrow> exn \<Rightarrow> write_pump \<Rightarrow> write_pump" where
  "retain_failed_eager item failure p = put_frame item (fence_eager_failure failure p)"

text \<open>The bytes a producer-side write exposes, and the frame it stands for.\<close>

definition exposes :: "bytes \<Rightarrow> write_item list \<Rightarrow> write_pump \<Rightarrow> write_pump" where
  "exposes bs items p = p\<lparr>p_wire := p_wire p @ bs, p_admitted := p_admitted p @ items\<rparr>"

definition count_eager :: "bytes \<Rightarrow> write_pump \<Rightarrow> write_pump" where
  "count_eager bs p = p\<lparr>p_eager_writes := p_eager_writes p + 1, p_eager_bytes := p_eager_bytes p + int (length bs)\<rparr>"

definition try_write_data_eager :: "outcome_of_write \<Rightarrow> write_item \<Rightarrow> write_pump \<Rightarrow> bool result \<times> write_pump" where
  "try_write_data_eager call item p =
     (case item of
        Segmented _ _ \<Rightarrow> (Inr False, p)
      | Contiguous bs \<Rightarrow>
          if \<not> p_eager_armed p \<or> \<not> p_nowait p \<or> p_writing p \<or> p_parked p \<noteq> [] \<or> p_queue p \<noteq> [] then (Inr False, p)
          else case call of
            Declined \<Rightarrow> (Inr False, p)
          | Broken n x \<Rightarrow> (Inl x, retain_failed_eager item x (exposes (take n bs) [item] p))
          | Accepted \<Rightarrow> (Inr True, count_eager bs (schedule_eager_rearm ((exposes bs [item] p)\<lparr>p_eager_armed := False\<rparr>))))"

definition try_write_ack_eager :: "outcome_of_write \<Rightarrow> nat \<Rightarrow> bytes \<Rightarrow> write_pump \<Rightarrow> bool result \<times> write_pump" where
  "try_write_ack_eager call current_task bs p =
     (if \<not> p_ack_eager_armed p \<or> \<not> p_nowait p \<or> p_writing p \<or> p_parked p \<noteq> [] \<or> p_queue p \<noteq> [] then (Inr False, p)
      else case call of
        Declined \<Rightarrow> (Inr False, p)
      | Broken n x \<Rightarrow> (Inl x, retain_failed_eager (Contiguous bs) x (exposes (take n bs) [Contiguous bs] p))
      | Accepted \<Rightarrow>
          (let q = (exposes bs [Contiguous bs] p)\<lparr>p_ack_eager_armed := False\<rparr>
           in (Inr True, count_eager bs (if p_ack_owner q = Some current_task then q\<lparr>p_ack_deferred := True\<rparr> else schedule_eager_rearm q))))"

subsection \<open>Admission\<close>

definition stale :: "int \<Rightarrow> write_pump \<Rightarrow> bool" where
  "stale epoch p \<longleftrightarrow> p_sealed p \<or> p_latency_failure p \<noteq> None \<or> epoch \<noteq> p_epoch p"

text \<open>A queued frame is taken over.\<close>

definition queue_frame :: "write_item \<Rightarrow> write_pump \<Rightarrow> write_pump" where
  "queue_frame item p = put_frame item (exposes [] [item] p)"

definition try_enqueue :: "outcome_of_write \<Rightarrow> write_item \<Rightarrow> int option \<Rightarrow> write_pump \<Rightarrow> bool result \<times> write_pump" where
  "try_enqueue call item epoch_arg p =
     (let epoch = (case epoch_arg of None \<Rightarrow> p_epoch p | Some n \<Rightarrow> n)
      in if stale epoch p then (Inl StaleConnectionEffect, p)
         else if \<not> can_enqueue_size (int (item_size item)) p then (Inr False, p)
         else case try_write_data_eager call item p of
                (Inl x, q) \<Rightarrow> (Inl x, q)
              | (Inr True, q) \<Rightarrow> (Inr True, q)
              | (Inr False, q) \<Rightarrow> (Inr True, queue_frame item q))"

definition try_enqueue_terminal :: "outcome_of_write \<Rightarrow> write_item \<Rightarrow> int \<Rightarrow> write_pump \<Rightarrow> bool result \<times> write_pump" where
  "try_enqueue_terminal call item epoch p =
     (case try_enqueue call item (Some epoch) p of (r, q) \<Rightarrow> (r, if epoch = p_epoch q then q\<lparr>p_sealed := True\<rparr> else q))"

definition try_enqueue_ack :: "outcome_of_write \<Rightarrow> nat \<Rightarrow> bytes \<Rightarrow> int option \<Rightarrow> write_pump \<Rightarrow> bool result \<times> write_pump" where
  "try_enqueue_ack call current_task bs epoch_arg p =
     (let epoch = (case epoch_arg of None \<Rightarrow> p_epoch p | Some n \<Rightarrow> n)
      in if stale epoch p then (Inl StaleConnectionEffect, p)
         else if \<not> can_enqueue_size (int (length bs)) p then (Inr False, p)
         else case try_write_ack_eager call current_task bs p of
                (Inl x, q) \<Rightarrow> (Inl x, q)
              | (Inr True, q) \<Rightarrow> (Inr True, q)
              | (Inr False, q) \<Rightarrow> (Inr True, queue_frame (Contiguous bs) q))"

text \<open>One turn of the loop of \<^verbatim>\<open>_enqueue_after_wait\<close>: \<open>Inr True\<close> when the frame was admitted, \<open>Inr False\<close> when the
  producer has to wait.\<close>

definition enqueue_after_wait :: "write_item \<Rightarrow> int \<Rightarrow> write_pump \<Rightarrow> bool result \<times> write_pump" where
  "enqueue_after_wait item epoch p =
     (if stale epoch p then (Inl StaleConnectionEffect, p)
      else
        (let messages_full = (p_resident p \<ge> p_max_messages p);
             empty = (p_resident p = 0 \<and> p_queued_bytes p = 0 \<and> p_queue p = []);
             bytes_blocked = (p_queued_bytes p + int (item_size item) > p_max_bytes p \<and> \<not> empty)
         in if (\<not> messages_full \<and> \<not> bytes_blocked) \<or> (p_queue p = [] \<and> p_queued_bytes p = 0)
            then (Inr True, queue_frame item p)
            else (Inr False, p)))"

text \<open>\<^verbatim>\<open>enqueue\<close> and \<^verbatim>\<open>enqueue_ack\<close> after their immediate attempt was refused: with \<open>nowait\<close> they raise, else
  the producer takes its turn and parks. A parked producer that is woken takes another turn; one that is cancelled leaves.\<close>

definition park :: "bool \<Rightarrow> write_item \<Rightarrow> int \<Rightarrow> write_pump \<Rightarrow> bool result \<times> write_pump" where
  "park nowait item epoch p =
     (if nowait then (Inl FlowControlError, p)
      else case enqueue_after_wait item epoch p of
             (Inr False, q) \<Rightarrow> (Inr False, q\<lparr>p_parked := p_parked q @ [(item, epoch)], p_enqueue_suspensions := p_enqueue_suspensions q + 1\<rparr>)
           | (r, q) \<Rightarrow> (r, q))"

definition unpark_at :: "nat \<Rightarrow> write_pump \<Rightarrow> write_pump" where
  "unpark_at i p = p\<lparr>p_parked := take i (p_parked p) @ drop (Suc i) (p_parked p)\<rparr>"

definition wake :: "nat \<Rightarrow> write_pump \<Rightarrow> bool result \<times> write_pump" where
  "wake i p = (case p_parked p ! i of (item, epoch) \<Rightarrow> park False item epoch (unpark_at i p))"

subsection \<open>The latency batch\<close>

definition try_flush_latency_batch :: "outcome_of_write \<Rightarrow> write_pump \<Rightarrow> bool result \<times> write_pump" where
  "try_flush_latency_batch call p =
     (let queued = length (p_queue p)
      in if queued < LATENCY_BATCH_MIN_ITEMS \<or> queued > LATENCY_BATCH_MAX_ITEMS
            \<or> (queued < LATENCY_BATCH_MAX_ITEMS \<and> p_queued_bytes p < LATENCY_BATCH_TARGET_BYTES) then (Inr False, p)
         else if \<not> p_nowait p \<or> p_writing p \<or> p_parked p \<noteq> [] then (Inr False, p)
         else
           (let q = sample_high_water (Some (int queued)) p; items = p_queue q
            in if (\<exists>item \<in> set items. \<exists>h b. item = Segmented h b) then (Inr False, q)
               else
                 (let combined = concat (map item_bytes_out items)
                  in case call of
                       Broken n x \<Rightarrow> (Inl x, fence_eager_failure x (exposes (take n combined) [] q))
                     | Declined \<Rightarrow> (Inr False, q)
                     | Accepted \<Rightarrow>
                         (case release_resident (int queued)
                                ((exposes combined [] q)\<lparr>p_queue := [], p_unfinished := p_unfinished q - int queued, p_queued_bytes := p_queued_bytes q - int (length combined)\<rparr>) of
                            (Inl x, q1) \<Rightarrow> (Inl x, q1)
                          | (Inr _, q1) \<Rightarrow>
                              if p_queued_bytes q1 \<noteq> 0 then (Inl AssertionError, q1)
                              else (Inr True, q1\<lparr>p_batches := p_batches q1 + 1, p_batched_items := p_batched_items q1 + int queued,
                                     p_batched_bytes := p_batched_bytes q1 + int (length combined)\<rparr>)))))"

subsection \<open>The writer task\<close>

text \<open>The calls that write a batch: runs of contiguous frames together, the parts of a segmented frame one by one.\<close>

fun batch_calls :: "bytes list \<Rightarrow> write_item list \<Rightarrow> writer_call list" where
  "batch_calls contiguous [] = (if contiguous = [] then [] else [WriteMany contiguous])"
| "batch_calls contiguous (Contiguous b # items) = batch_calls (contiguous @ [b]) items"
| "batch_calls contiguous (Segmented h b # items) =
     CountSegmented # (if contiguous = [] then [] else [WriteMany contiguous]) @ [WriteOne h, WriteOne b] @ batch_calls [] items"

definition call_bytes :: "writer_call \<Rightarrow> bytes" where
  "call_bytes c = (case c of CountSegmented \<Rightarrow> [] | WriteMany parts \<Rightarrow> concat parts | WriteOne b \<Rightarrow> b)"

definition WRITER_BATCH :: nat where "WRITER_BATCH = 256"

definition take_batch :: "write_pump \<Rightarrow> write_pump" where
  "take_batch p =
     (let q = sample_high_water (Some (int (length (p_queue p)))) (p\<lparr>p_eager_armed := False\<rparr>); batch = take WRITER_BATCH (p_queue q)
      in q\<lparr>p_queue := drop WRITER_BATCH (p_queue q), p_batches := p_batches q + 1, p_batched_items := p_batched_items q + int (length batch),
           p_writing := True, p_batch := batch, p_todo := (if p_latency_failure q = None then batch_calls [] batch else [])\<rparr>)"

definition write_next :: "write_pump \<Rightarrow> write_pump" where
  "write_next p = (case p_todo p of
      [] \<Rightarrow> p
    | c # cs \<Rightarrow> p\<lparr>p_todo := cs, p_wire := p_wire p @ call_bytes c,
                 p_segmented_writes := p_segmented_writes p + (if c = CountSegmented then 1 else 0)\<rparr>)"

text \<open>The \<^verbatim>\<open>finally\<close> clause of a batch: the frames are released whatever became of them.\<close>

definition release_batch :: "write_pump \<Rightarrow> unit result \<times> write_pump" where
  "release_batch p =
     (let released = sum_list (map (\<lambda>item. int (item_size item)) (p_batch p)); n = int (length (p_batch p))
      in release_resident n (p\<lparr>p_writing := False, p_unfinished := p_unfinished p - n, p_batched_bytes := p_batched_bytes p + released,
           p_queued_bytes := max 0 (p_queued_bytes p - released), p_batch := [], p_todo := []\<rparr>))"

definition complete_batch :: "write_pump \<Rightarrow> unit result \<times> write_pump" where
  "complete_batch p = (case release_batch p of (Inl x, q) \<Rightarrow> (Inl x, q) | (Inr _, q) \<Rightarrow> (Inr (), writer_idle q))"

text \<open>A batch that fails ends the task: the first \<open>n\<close> bytes of the call were exposed.\<close>

definition fail_batch :: "nat \<Rightarrow> write_pump \<Rightarrow> unit result \<times> write_pump" where
  "fail_batch n p =
     (let exposed = (case p_todo p of [] \<Rightarrow> [] | c # _ \<Rightarrow> take n (call_bytes c))
      in case release_batch (p\<lparr>p_wire := p_wire p @ exposed\<rparr>) of
           (r, q) \<Rightarrow> (let q1 = (drop_eager_binding q)\<lparr>p_writing := False, p_running := False\<rparr>
                     in (r, q1\<lparr>p_epoch := p_epoch q1 + (if p_latency_failure q1 = None then 1 else 0)\<rparr>)))"

text \<open>\<^verbatim>\<open>stop\<close>: the permits are dropped at once; then the task is cancelled, which interrupts a call of the transport after its first \<open>n\<close> bytes and releases the batch,
  and joined.\<close>

definition stop_begin :: "write_pump \<Rightarrow> write_pump" where
  "stop_begin p = drop_eager_binding p"

definition stop_end :: "nat \<Rightarrow> write_pump \<Rightarrow> unit result \<times> write_pump" where
  "stop_end n p =
     (let exposed = (case p_todo p of [] \<Rightarrow> [] | c # _ \<Rightarrow> take n (call_bytes c))
      in case (if p_batch p = [] then (Inr (), p) else release_batch (p\<lparr>p_wire := p_wire p @ exposed\<rparr>)) of
           (r, q) \<Rightarrow> (r, q\<lparr>p_running := False, p_writing := False\<rparr>))"

end
