(* ===== verification/Delivery_Queue.thy ===== *)
theory Delivery_Queue
  imports Outbound
begin

text \<open>
  The destination of inbound messages, \<^verbatim>\<open>src/src/mqttium/api/_delivery.py\<close>: the bounded queue the application iterates over, or its
  synchronous callbacks. Like the writer, every definition is the code a coroutine runs between two suspensions. An \<^verbatim>\<open>asyncio.Event\<close> is
  its flag and the waiters it has to wake. Left out: \<^verbatim>\<open>stats\<close>, the reports to the loop's exception handler, and the queue's own getters, which
  nothing uses.
\<close>

subsection \<open>State\<close>

datatype queue_item = Plain message | Sized message int

primrec item_message :: "queue_item \<Rightarrow> message" where
  "item_message (Plain m) = m"
| "item_message (Sized m n) = m"

primrec item_charge :: "queue_item \<Rightarrow> int" where
  "item_charge (Plain m) = 0"
| "item_charge (Sized m n) = n"

text \<open>A suspended \<^verbatim>\<open>_accept_waiting_...\<close>: its arguments and whether \<^verbatim>\<open>space\<close> has woken it.\<close>

record waiting_admission =
  w_message :: message
  w_size :: "int option"
  w_generation :: nat
  w_woken :: bool

text \<open>\<open>a_parked\<close> are the suspended admissions (\<^verbatim>\<open>waiters\<close> of them) and \<open>a_consumers\<close> the suspended iterators with their generation and
  whether \<^verbatim>\<open>message_ready\<close> has woken them. Three fields are no part of the program: \<open>a_committed\<close>, the messages put into the iterator
  queue, \<open>a_handed\<close>, those an iterator yielded, and \<open>a_over\<close>, the items committed past the bounds.\<close>

record app_delivery =
  a_callback_mode :: bool
  a_is_v5 :: bool
  a_max_messages :: int
  a_max_bytes :: "int option"
  a_pending_bytes :: int
  a_high_bytes :: int
  a_space :: bool
  a_parked :: "waiting_admission list"
  a_queue :: "queue_item list"
  a_ready :: bool
  a_closed :: bool
  a_stream_generation :: nat
  a_waiting_generation :: "nat option"
  a_consumers :: "(nat \<times> bool) list"
  a_admission_generation :: nat
  a_invocations :: nat
  a_failures :: nat
  a_unrouted :: nat
  a_since_yield :: nat
  a_committed :: "message list"
  a_handed :: "message list"
  a_over :: "queue_item list"

definition new_delivery :: "bool \<Rightarrow> bool \<Rightarrow> int \<Rightarrow> int option \<Rightarrow> app_delivery" where
  "new_delivery callback_mode v5 max_messages max_bytes =
     \<lparr>a_callback_mode = callback_mode, a_is_v5 = v5, a_max_messages = max_messages, a_max_bytes = max_bytes, a_pending_bytes = 0, a_high_bytes = 0,
      a_space = False, a_parked = [], a_queue = [], a_ready = False, a_closed = False, a_stream_generation = 0, a_waiting_generation = None,
      a_consumers = [], a_admission_generation = 0, a_invocations = 0, a_failures = 0, a_unrouted = 0, a_since_yield = 0,
      a_committed = [], a_handed = [], a_over = []\<rparr>"

definition CALLBACK_QUANTUM :: nat where "CALLBACK_QUANTUM = 128"

subsection \<open>Events\<close>

text \<open>\<^verbatim>\<open>Event.set\<close> does nothing on an event that is set; otherwise it wakes everyone waiting.\<close>

definition set_space :: "app_delivery \<Rightarrow> app_delivery" where
  "set_space d = (if a_space d then d else d\<lparr>a_space := True, a_parked := map (\<lambda>w. w\<lparr>w_woken := True\<rparr>) (a_parked d)\<rparr>)"

definition set_message_ready :: "app_delivery \<Rightarrow> app_delivery" where
  "set_message_ready d = (if a_ready d then d else d\<lparr>a_ready := True, a_consumers := map (\<lambda>(g, w). (g, True)) (a_consumers d)\<rparr>)"

definition delivery_wake_waiters :: "app_delivery \<Rightarrow> app_delivery" where
  "delivery_wake_waiters d = (if a_parked d \<noteq> [] then set_space d else d)"

definition invalidate_waiting_admissions :: "app_delivery \<Rightarrow> app_delivery" where
  "invalidate_waiting_admissions d = delivery_wake_waiters (d\<lparr>a_admission_generation := a_admission_generation d + 1\<rparr>)"

definition release_bytes :: "int \<Rightarrow> app_delivery \<Rightarrow> app_delivery" where
  "release_bytes n d = delivery_wake_waiters (d\<lparr>a_pending_bytes := a_pending_bytes d - n\<rparr>)"

definition delivery_reopen :: "app_delivery \<Rightarrow> app_delivery" where
  "delivery_reopen d = d\<lparr>a_closed := False\<rparr>"

definition delivery_close :: "app_delivery \<Rightarrow> app_delivery" where
  "delivery_close d = set_message_ready (d\<lparr>a_closed := True\<rparr>)"

subsection \<open>The queue\<close>

definition queue_full :: "app_delivery \<Rightarrow> bool" where
  "queue_full d \<longleftrightarrow> 0 < a_max_messages d \<and> a_max_messages d \<le> int (length (a_queue d))"

text \<open>\<^verbatim>\<open>_DeliveryQueue.put_nowait\<close> and \<^verbatim>\<open>put_over_bound\<close>.\<close>

definition put_item :: "queue_item \<Rightarrow> app_delivery \<Rightarrow> app_delivery" where
  "put_item item d = d\<lparr>a_queue := a_queue d @ [item], a_committed := a_committed d @ [item_message item]\<rparr>"

definition queue_put_nowait :: "queue_item \<Rightarrow> app_delivery \<Rightarrow> unit result \<times> app_delivery" where
  "queue_put_nowait item d = (if queue_full d then (Inl QueueFull, d) else (Inr (), put_item item d))"

definition put_over_bound :: "queue_item \<Rightarrow> app_delivery \<Rightarrow> app_delivery" where
  "put_over_bound item d = (put_item item d)\<lparr>a_over := a_over d @ [item]\<rparr>"

definition charge :: "int \<Rightarrow> app_delivery \<Rightarrow> app_delivery" where
  "charge n d =
     (let d1 = d\<lparr>a_pending_bytes := a_pending_bytes d + n\<rparr>
      in if a_pending_bytes d1 > a_high_bytes d1 then d1\<lparr>a_high_bytes := a_pending_bytes d1\<rparr> else d1)"

definition enqueue_accounted :: "message \<Rightarrow> int \<Rightarrow> app_delivery \<Rightarrow> unit result \<times> app_delivery" where
  "enqueue_accounted m n d = (case queue_put_nowait (Sized m n) (charge n d) of
      (Inl x, d1) \<Rightarrow> (Inl x, d1) | (Inr _, d1) \<Rightarrow> (Inr (), set_message_ready d1))"

definition enqueue_unaccounted :: "message \<Rightarrow> app_delivery \<Rightarrow> unit result \<times> app_delivery" where
  "enqueue_unaccounted m d = (case queue_put_nowait (Plain m) d of
      (Inl x, d1) \<Rightarrow> (Inl x, d1) | (Inr _, d1) \<Rightarrow> (Inr (), set_message_ready d1))"

definition enqueue_message :: "message \<Rightarrow> int option \<Rightarrow> app_delivery \<Rightarrow> unit result \<times> app_delivery" where
  "enqueue_message m amount d = (case amount of None \<Rightarrow> enqueue_unaccounted m d | Some n \<Rightarrow> enqueue_accounted m n d)"

subsection \<open>Callbacks\<close>

text \<open>What a call of a user callback does. A cancellation carries whether the delivering task was asked to cancel.\<close>

datatype callback_outcome = CallReturned | CallAwaitable | CallRaised | CallCancelled bool

definition invoke_sync_isolated :: "callback_outcome \<Rightarrow> app_delivery \<Rightarrow> unit result \<times> app_delivery" where
  "invoke_sync_isolated call d =
     (let d1 = d\<lparr>a_invocations := a_invocations d + 1, a_since_yield := a_since_yield d + 1\<rparr>; d2 = d1\<lparr>a_failures := a_failures d1 + 1\<rparr>
      in case call of
           CallReturned \<Rightarrow> (Inr (), d1)
         | CallAwaitable \<Rightarrow> (Inr (), d2)
         | CallRaised \<Rightarrow> (Inr (), d2)
         | CallCancelled owner \<Rightarrow> (if owner then Inl CancelledError else Inr (), d2))"

fun invoke_selected :: "callback_outcome list \<Rightarrow> app_delivery \<Rightarrow> unit result \<times> app_delivery" where
  "invoke_selected [] d = (Inr (), d)"
| "invoke_selected (c # cs) d = (case invoke_sync_isolated c d of (Inl x, d1) \<Rightarrow> (Inl x, d1) | (Inr _, d1) \<Rightarrow> invoke_selected cs d1)"

text \<open>The callback target: none, or the outcomes of the callbacks its route selects for the message (a plain callback selects itself).\<close>

type_synonym callback_target = "callback_outcome list option"

subsection \<open>Acceptance\<close>

text \<open>What \<^verbatim>\<open>accept\<close> returns: nothing to await, the fairness yield (after the hook \<^verbatim>\<open>before_yield\<close>), or the waiting admission.\<close>

datatype acceptance = HandedOver | FairnessYield | Waits "int option" nat

definition accept_callback :: "callback_target \<Rightarrow> app_delivery \<Rightarrow> acceptance result \<times> app_delivery" where
  "accept_callback callback d =
     (case callback of
        None \<Rightarrow> (Inr HandedOver, d\<lparr>a_unrouted := a_unrouted d + 1\<rparr>)
      | Some calls \<Rightarrow>
          (case invoke_selected calls d of
             (Inl x, d1) \<Rightarrow> (Inl x, d1)
           | (Inr _, d1) \<Rightarrow>
               if a_since_yield d1 \<ge> CALLBACK_QUANTUM then (Inr FairnessYield, d1\<lparr>a_since_yield := a_since_yield d1 mod CALLBACK_QUANTUM\<rparr>)
               else (Inr HandedOver, d1)))"

definition accept_iterator_unaccounted :: "message \<Rightarrow> app_delivery \<Rightarrow> acceptance result \<times> app_delivery" where
  "accept_iterator_unaccounted m d =
     (if queue_full d then (Inr (Waits None (a_admission_generation d)), d)
      else case enqueue_unaccounted m d of (Inl x, d1) \<Rightarrow> (Inl x, d1) | (Inr _, d1) \<Rightarrow> (Inr HandedOver, d1))"

definition delivery_logical_size :: "message \<Rightarrow> nat option \<Rightarrow> app_delivery \<Rightarrow> int result" where
  "delivery_logical_size m property_wire_size d =
     publish_logical_size (a_is_v5 d) (msg_topic m) (int (length (msg_payload m))) (msg_properties m) property_wire_size"

definition accept_iterator_accounted :: "message \<Rightarrow> nat option \<Rightarrow> app_delivery \<Rightarrow> acceptance result \<times> app_delivery" where
  "accept_iterator_accounted m property_wire_size d =
     (case delivery_logical_size m property_wire_size d of
        Inl x \<Rightarrow> (Inl x, d)
      | Inr n \<Rightarrow>
          (case a_max_bytes d of
             None \<Rightarrow> (Inl AssertionError, d)
           | Some limit \<Rightarrow>
               if n > limit then (Inl MessageDeliveryError, d)
               else if a_pending_bytes d + n > limit \<or> queue_full d then (Inr (Waits (Some n) (a_admission_generation d)), d)
               else case enqueue_accounted m n d of (Inl x, d1) \<Rightarrow> (Inl x, d1) | (Inr _, d1) \<Rightarrow> (Inr HandedOver, d1)))"

definition delivery_accept :: "message \<Rightarrow> callback_target \<Rightarrow> nat option \<Rightarrow> app_delivery \<Rightarrow> acceptance result \<times> app_delivery" where
  "delivery_accept m callback property_wire_size d =
     (if a_callback_mode d then accept_callback callback d
      else if a_max_bytes d = None then accept_iterator_unaccounted m d
      else accept_iterator_accounted m property_wire_size d)"

text \<open>The waiting admissions \<^verbatim>\<open>_accept_waiting_unaccounted\<close> and \<^verbatim>\<open>_accept_waiting_accounted\<close>, from the test of their loop on: the result is
  \<open>None\<close> when they suspend, else whether the message was committed.\<close>

definition must_wait :: "int option \<Rightarrow> app_delivery \<Rightarrow> bool" where
  "must_wait amount d \<longleftrightarrow>
     (case amount of None \<Rightarrow> queue_full d | Some n \<Rightarrow> a_pending_bytes d + n > the (a_max_bytes d) \<or> queue_full d)"

definition admission_turn :: "message \<Rightarrow> int option \<Rightarrow> nat \<Rightarrow> app_delivery \<Rightarrow> bool option result \<times> app_delivery" where
  "admission_turn m amount generation d =
     (if generation = a_admission_generation d \<and> must_wait amount d
      then (Inr None, d\<lparr>a_space := False,
              a_parked := a_parked d @ [\<lparr>w_message = m, w_size = amount, w_generation = generation, w_woken = False\<rparr>]\<rparr>)
      else if generation \<noteq> a_admission_generation d then (Inr (Some False), d)
      else case enqueue_message m amount d of (Inl x, d1) \<Rightarrow> (Inl x, d1) | (Inr _, d1) \<Rightarrow> (Inr (Some True), d1))"

text \<open>An admission leaves its wait: the timeout raises \<^verbatim>\<open>MessageDeliveryError\<close>, a cancellation propagates, a woken one takes another turn.\<close>

definition leave_admission :: "nat \<Rightarrow> app_delivery \<Rightarrow> app_delivery" where
  "leave_admission i d = d\<lparr>a_parked := take i (a_parked d) @ drop (Suc i) (a_parked d)\<rparr>"

definition admission_timeout :: "nat \<Rightarrow> app_delivery \<Rightarrow> bool option result \<times> app_delivery" where
  "admission_timeout i d = (Inl MessageDeliveryError, leave_admission i d)"

definition resume_admission :: "nat \<Rightarrow> app_delivery \<Rightarrow> bool option result \<times> app_delivery" where
  "resume_admission i d =
     (let w = a_parked d ! i in admission_turn (w_message w) (w_size w) (w_generation w) (leave_admission i d))"

definition deliver_acknowledged :: "message \<Rightarrow> callback_target \<Rightarrow> nat option \<Rightarrow> app_delivery \<Rightarrow> unit result \<times> app_delivery" where
  "deliver_acknowledged m callback property_wire_size d =
     (if a_callback_mode d then
        (case callback of None \<Rightarrow> (Inr (), d\<lparr>a_unrouted := a_unrouted d + 1\<rparr>) | Some calls \<Rightarrow> invoke_selected calls d)
      else if a_max_bytes d = None then (Inr (), set_message_ready (put_over_bound (Plain m) d))
      else case delivery_logical_size m property_wire_size d of
             Inl x \<Rightarrow> (Inl x, d)
           | Inr n \<Rightarrow> (Inr (), set_message_ready (put_over_bound (Sized m n) (charge n d))))"

subsection \<open>Iteration\<close>

datatype iteration = Yielded message | Finished | Suspended

definition wait_for_message :: "app_delivery \<Rightarrow> iteration result \<times> app_delivery" where
  "wait_for_message d =
     (let generation = a_stream_generation d
      in if a_waiting_generation d = Some generation then (Inl MQTTError, d)
         else (Inr Suspended, d\<lparr>a_waiting_generation := Some generation, a_ready := False, a_consumers := a_consumers d @ [(generation, False)]\<rparr>))"

text \<open>\<^verbatim>\<open>_messages_unaccounted\<close> and \<^verbatim>\<open>_messages_accounted\<close> from the test of their loop on. \<^verbatim>\<open>messages\<close> captures the generation and picks
  one of the two.\<close>

definition take_item :: "queue_item \<Rightarrow> queue_item list \<Rightarrow> app_delivery \<Rightarrow> app_delivery" where
  "take_item item rest d = d\<lparr>a_queue := rest, a_handed := a_handed d @ [item_message item]\<rparr>"

definition messages_turn :: "nat \<Rightarrow> app_delivery \<Rightarrow> iteration result \<times> app_delivery" where
  "messages_turn generation d =
     (if generation \<noteq> a_stream_generation d then (Inr Finished, d)
      else case a_queue d of
             [] \<Rightarrow> if a_closed d then (Inr Finished, d) else wait_for_message d
           | item # rest \<Rightarrow>
               if a_max_bytes d = None then (Inr (Yielded (item_message item)), delivery_wake_waiters (take_item item rest d))
               else (case item of
                       Plain m \<Rightarrow> (Inl TypeError, d\<lparr>a_queue := rest\<rparr>)
                     | Sized m n \<Rightarrow> (Inr (Yielded m), release_bytes n (take_item item rest d))))"

definition delivery_messages :: "nat \<Rightarrow> app_delivery \<Rightarrow> iteration result \<times> app_delivery" where
  "delivery_messages generation d = (if a_callback_mode d then (Inl MQTTError, d) else messages_turn generation d)"

text \<open>The \<^verbatim>\<open>finally\<close> clause of \<^verbatim>\<open>_wait_for_message\<close>, when the wait ends or is cancelled.\<close>

definition leave_consumer :: "nat \<Rightarrow> app_delivery \<Rightarrow> app_delivery" where
  "leave_consumer i d =
     (let generation = fst (a_consumers d ! i)
      in d\<lparr>a_consumers := take i (a_consumers d) @ drop (Suc i) (a_consumers d),
           a_waiting_generation := (if a_waiting_generation d = Some generation then None else a_waiting_generation d)\<rparr>)"

definition resume_consumer :: "nat \<Rightarrow> app_delivery \<Rightarrow> iteration result \<times> app_delivery" where
  "resume_consumer i d = messages_turn (fst (a_consumers d ! i)) (leave_consumer i d)"

text \<open>\<^verbatim>\<open>reset_stream\<close>: the loop moves the unread items to the replacement queue one by one.\<close>

fun move_items :: "queue_item list \<Rightarrow> queue_item list \<Rightarrow> queue_item list" where
  "move_items [] replacement = replacement"
| "move_items (item # old) replacement = move_items old (replacement @ [item])"

definition reset_stream :: "app_delivery \<Rightarrow> app_delivery" where
  "reset_stream d =
     (if \<not> a_closed d then d
      else
        (let d1 = invalidate_waiting_admissions d;
             d2 = d1\<lparr>a_stream_generation := a_stream_generation d1 + 1\<rparr>;
             replacement = move_items (a_queue d2) [];
             d3 = (set_message_ready d2)\<lparr>a_queue := replacement, a_ready := False\<rparr>;
             d4 = (if replacement \<noteq> [] then d3\<lparr>a_ready := True\<rparr> else d3)
         in d4\<lparr>a_closed := False\<rparr>))"

end
