(* ===== verification/Delivery_Lane.thy ===== *)
theory Delivery_Lane
  imports Engine_State
begin

text \<open>
  The reader's delivery lane, \<^verbatim>\<open>src/src/mqttium/api/_delivery_lane.py\<close>: lots of deliveries queued behind the protocol work of their batch, the lot the reader is handing
  over, and the acknowledged messages of retired connections that are carried over. Each definition is the code between two suspensions of the reader. The
  owner's call \<^verbatim>\<open>_apply_delivery_effect\<close> has an outcome: the delivery is complete, it has to be awaited, or it raises.
\<close>

definition survives_connection :: "effect \<Rightarrow> bool" where
  "survives_connection e = (case e of EffMessage m \<Rightarrow> \<not> d_mark m | _ \<Rightarrow> False)"

text \<open>A lot: the epoch it belongs to, the protocol work that goes before it and its effects.\<close>

type_synonym lot = "int \<times> int \<times> effect list"

text \<open>\<open>l_lot\<close> is the lot the reader owns and \<open>l_current\<close> the effect whose delivery it awaits, local variables of \<^verbatim>\<open>drain\<close>. Three fields are no part
  of the program: the effects collected, and those with which the lane was finished, handed over or refused by the application's queue.\<close>

record lane =
  l_pending :: "lot list"
  l_carryover :: "effect list"
  l_pending_count :: int
  l_active_count :: int
  l_enqueued :: int
  l_applied :: int
  l_high_water :: int
  l_lot :: "lot option"
  l_current :: "effect option"
  l_collected :: "effect list"
  l_finished :: "effect list"

definition new_lane :: lane where
  "new_lane = \<lparr>l_pending = [], l_carryover = [], l_pending_count = 0, l_active_count = 0, l_enqueued = 0, l_applied = 0, l_high_water = 0,
     l_lot = None, l_current = None, l_collected = [], l_finished = []\<rparr>"

definition lane_collect :: "effect list \<Rightarrow> int \<Rightarrow> int \<Rightarrow> lane \<Rightarrow> lane" where
  "lane_collect effects epoch protocol_target l =
     (let n = l_pending_count l + int (length effects)
      in l\<lparr>l_pending := l_pending l @ [(epoch, protocol_target, effects)], l_pending_count := n, l_enqueued := l_enqueued l + int (length effects),
           l_high_water := max (l_high_water l) n, l_collected := l_collected l @ effects\<rparr>)"

definition lane_outstanding :: "lane \<Rightarrow> int" where
  "lane_outstanding l = l_pending_count l + l_active_count l"

definition queued_effects :: "lane \<Rightarrow> effect list" where
  "queued_effects l = concat (map (\<lambda>(_, _, effects). effects) (l_pending l))"

definition lane_discard :: "lane \<Rightarrow> lane" where
  "lane_discard l =
     (let kept = filter survives_connection (queued_effects l);
          gone = int (length (queued_effects l)) - int (length kept)
      in l\<lparr>l_carryover := l_carryover l @ kept, l_applied := l_applied l + gone, l_pending_count := l_pending_count l - gone, l_pending := []\<rparr>)"

definition take_carryover :: "lane \<Rightarrow> effect list \<times> lane" where
  "take_carryover l =
     (let carried = l_carryover l
      in (carried, l\<lparr>l_carryover := [], l_pending_count := l_pending_count l - int (length carried), l_applied := l_applied l + int (length carried),
            l_finished := l_finished l @ carried\<rparr>))"

subsection \<open>The turns of \<^verbatim>\<open>drain\<close>\<close>

text \<open>The reader takes the next lot.\<close>

definition begin_lot :: "lane \<Rightarrow> lane" where
  "begin_lot l = (case l_pending l of
      [] \<Rightarrow> l
    | (epoch, target, effects) # rest \<Rightarrow>
        l\<lparr>l_pending := rest, l_pending_count := l_pending_count l - int (length effects), l_active_count := int (length effects),
          l_lot := Some (epoch, target, effects)\<rparr>)"

text \<open>The \<^verbatim>\<open>finally\<close> clause, run when the lot is finished or interrupted.\<close>

definition end_lot :: "lane \<Rightarrow> lane" where
  "end_lot l = (case l_lot l of
      None \<Rightarrow> l
    | Some (epoch, target, effects) \<Rightarrow>
        (let survivors = filter survives_connection effects; kept = int (length survivors)
         in l\<lparr>l_carryover := survivors @ l_carryover l, l_pending_count := l_pending_count l + kept, l_applied := l_applied l + (l_active_count l - kept),
              l_active_count := 0, l_lot := None, l_current := None\<rparr>))"

definition effect_finished :: "effect \<Rightarrow> lane \<Rightarrow> lane" where
  "effect_finished e l = l\<lparr>l_active_count := l_active_count l - 1, l_applied := l_applied l + 1, l_current := None, l_finished := l_finished l @ [e]\<rparr>"

datatype delivery_outcome = Complete | Awaited | Refused

text \<open>The next effect of the lot, at the connection epoch \<open>now\<close>: one of a retired connection that the session still owns is dropped. An exception of the delivery ends
  the lot without the effect.\<close>

definition next_effect :: "int \<Rightarrow> delivery_outcome \<Rightarrow> lane \<Rightarrow> lane" where
  "next_effect now outcome l = (case l_lot l of
      Some (epoch, target, e # effects) \<Rightarrow>
        (let l1 = l\<lparr>l_lot := Some (epoch, target, effects)\<rparr>
         in if epoch \<noteq> now \<and> \<not> survives_connection e then l1\<lparr>l_active_count := l_active_count l1 - 1, l_applied := l_applied l1 + 1\<rparr>
            else case outcome of
              Complete \<Rightarrow> effect_finished e l1
            | Awaited \<Rightarrow> l1\<lparr>l_current := Some e\<rparr>
            | Refused \<Rightarrow> end_lot (l1\<lparr>l_finished := l_finished l1 @ [e]\<rparr>))
    | _ \<Rightarrow> l)"

text \<open>The awaited delivery ends: it completes, it raises, or the reader is cancelled, when an iterator admission had not committed and the effect goes back.\<close>

definition awaited_done :: "lane \<Rightarrow> lane" where
  "awaited_done l = (case l_current l of None \<Rightarrow> l | Some e \<Rightarrow> effect_finished e l)"

definition awaited_refused :: "lane \<Rightarrow> lane" where
  "awaited_refused l = (case l_current l of None \<Rightarrow> l | Some e \<Rightarrow> end_lot (l\<lparr>l_finished := l_finished l @ [e]\<rparr>))"

definition awaited_cancelled :: "bool \<Rightarrow> lane \<Rightarrow> lane" where
  "awaited_cancelled iterator_mode l = (case (l_current l, l_lot l) of
      (Some e, Some (epoch, target, effects)) \<Rightarrow>
        end_lot (if iterator_mode \<and> survives_connection e then l\<lparr>l_lot := Some (epoch, target, e # effects), l_current := None\<rparr>
                 else l\<lparr>l_finished := l_finished l @ [e]\<rparr>)
    | _ \<Rightarrow> l)"

subsection \<open>The lane as a transition system\<close>

text \<open>The reader begins a lot only when nothing is carried over: a client hands the carried messages over before it starts a reader, and a discarded lane has no lot
  left to begin. The carried messages are taken when no reader owns a lot.\<close>

inductive lane_step :: "lane \<Rightarrow> lane \<Rightarrow> bool" where
  Collect: "lane_step l (lane_collect effects epoch target l)"
| Discard: "lane_step l (lane_discard l)"
| Carry: "l_lot l = None \<Longrightarrow> take_carryover l = (carried, m) \<Longrightarrow> lane_step l m"
| Begin: "l_lot l = None \<Longrightarrow> l_carryover l = [] \<Longrightarrow> l_pending l \<noteq> [] \<Longrightarrow> lane_step l (begin_lot l)"
| NextEffect: "l_lot l = Some (epoch, target, e # effects) \<Longrightarrow> l_current l = None \<Longrightarrow> lane_step l (next_effect now outcome l)"
| AwaitedDone: "l_current l = Some e \<Longrightarrow> lane_step l (awaited_done l)"
| AwaitedRefused: "l_current l = Some e \<Longrightarrow> lane_step l (awaited_refused l)"
| AwaitedCancelled: "l_current l = Some e \<Longrightarrow> lane_step l (awaited_cancelled iterator_mode l)"
| Finish: "l_lot l = Some (epoch, target, []) \<Longrightarrow> l_current l = None \<Longrightarrow> lane_step l (end_lot l)"
| Interrupted: "l_lot l = Some t \<Longrightarrow> l_current l = None \<Longrightarrow> lane_step l (end_lot l)"

definition lot_effects :: "lane \<Rightarrow> effect list" where
  "lot_effects l = (case l_lot l of None \<Rightarrow> [] | Some (_, _, effects) \<Rightarrow> effects)"

definition current_effects :: "lane \<Rightarrow> effect list" where
  "current_effects l = (case l_current l of None \<Rightarrow> [] | Some e \<Rightarrow> [e])"

definition acknowledged :: "effect list \<Rightarrow> effect list" where
  "acknowledged effects = filter survives_connection effects"

lemma acknowledged_simps [simp]: "acknowledged [] = []" "acknowledged (xs @ ys) = acknowledged xs @ acknowledged ys"
  "acknowledged (e # es) = (if survives_connection e then e # acknowledged es else acknowledged es)" "acknowledged (filter survives_connection xs) = acknowledged xs"
  "filter survives_connection xs = acknowledged xs" "acknowledged (acknowledged xs) = acknowledged xs"
  by (simp_all add: acknowledged_def)

definition lane_inv :: "lane \<Rightarrow> bool" where
  "lane_inv l \<longleftrightarrow>
     l_pending_count l = int (length (queued_effects l) + length (l_carryover l)) \<and> l_active_count l = int (length (lot_effects l) + length (current_effects l))
   \<and> l_enqueued l = l_applied l + l_pending_count l + l_active_count l \<and> (l_lot l = None \<longrightarrow> l_current l = None)
   \<and> acknowledged (l_carryover l) = l_carryover l
   \<and> acknowledged (l_collected l) = acknowledged (l_finished l @ current_effects l @ lot_effects l @ l_carryover l @ queued_effects l)"

lemmas lane_defs = lane_collect_def lane_discard_def take_carryover_def begin_lot_def end_lot_def next_effect_def effect_finished_def awaited_done_def
  awaited_refused_def awaited_cancelled_def

lemma end_lot_inv:
  assumes "l_pending_count l = int (length (queued_effects l) + length (l_carryover l))" "l_enqueued l = l_applied l + l_pending_count l + l_active_count l"
    "acknowledged (l_carryover l) = l_carryover l" "l_lot l = Some (epoch, target, effects)"
    "acknowledged (l_collected l) = acknowledged (l_finished l @ effects @ l_carryover l @ queued_effects l)"
  shows "lane_inv (end_lot l)"
  using assms by (simp add: end_lot_def Let_def lane_inv_def queued_effects_def lot_effects_def current_effects_def)

lemma lane_step_inv: "lane_step l m \<Longrightarrow> lane_inv l \<Longrightarrow> lane_inv m"
proof (induction rule: lane_step.induct)
  case (Collect l effects epoch target)
  then show ?case by (auto simp: lane_collect_def lane_inv_def queued_effects_def lot_effects_def current_effects_def Let_def)
next
  case (Discard l)
  then show ?case by (auto simp: lane_discard_def lane_inv_def queued_effects_def lot_effects_def current_effects_def Let_def)
next
  case (Carry l carried m)
  then show ?case by (auto simp: take_carryover_def lane_inv_def queued_effects_def lot_effects_def current_effects_def Let_def)
next
  case (Begin l)
  then show ?case by (auto simp: begin_lot_def lane_inv_def queued_effects_def lot_effects_def current_effects_def split: list.split)
next
  case (NextEffect l epoch target e effects now outcome)
  then show ?case
  proof (cases "outcome = Refused \<and> (epoch = now \<or> survives_connection e)")
    case True
    then have eq: "next_effect now outcome l = end_lot (l\<lparr>l_lot := Some (epoch, target, effects), l_finished := l_finished l @ [e]\<rparr>)"
      using NextEffect(1,2) by (auto simp: next_effect_def)
    show ?thesis unfolding eq
      by (rule end_lot_inv [of _ epoch target effects]) (use NextEffect in \<open>auto simp: lane_inv_def lot_effects_def current_effects_def queued_effects_def\<close>)
  next
    case False
    then show ?thesis using NextEffect
      by (cases outcome) (auto simp: next_effect_def Let_def lane_inv_def lot_effects_def current_effects_def queued_effects_def effect_finished_def)
  qed
next
  case (AwaitedDone l e)
  then show ?case by (auto simp: awaited_done_def effect_finished_def lane_inv_def queued_effects_def lot_effects_def current_effects_def)
next
  case (AwaitedRefused l e)
  then obtain epoch target effects where lot: "l_lot l = Some (epoch, target, effects)" by (cases "l_lot l") (auto simp: lane_inv_def)
  then have eq: "awaited_refused l = end_lot (l\<lparr>l_finished := l_finished l @ [e]\<rparr>)" using AwaitedRefused(1) by (simp add: awaited_refused_def)
  show ?case unfolding eq
    by (rule end_lot_inv [of _ epoch target effects]) (use AwaitedRefused lot in \<open>auto simp: lane_inv_def lot_effects_def current_effects_def queued_effects_def\<close>)
next
  case (AwaitedCancelled l e iterator_mode)
  then obtain epoch target effects where lot: "l_lot l = Some (epoch, target, effects)" by (cases "l_lot l") (auto simp: lane_inv_def)
  show ?case
  proof (cases "iterator_mode \<and> survives_connection e")
    case True
    then have eq: "awaited_cancelled iterator_mode l = end_lot (l\<lparr>l_lot := Some (epoch, target, e # effects), l_current := None\<rparr>)"
      using AwaitedCancelled(1) lot by (simp add: awaited_cancelled_def)
    show ?thesis unfolding eq
      by (rule end_lot_inv [of _ epoch target "e # effects"]) (use AwaitedCancelled lot in \<open>auto simp: lane_inv_def lot_effects_def current_effects_def queued_effects_def\<close>)
  next
    case False
    then have eq: "awaited_cancelled iterator_mode l = end_lot (l\<lparr>l_finished := l_finished l @ [e]\<rparr>)" using AwaitedCancelled(1) lot by (auto simp: awaited_cancelled_def)
    show ?thesis unfolding eq
      by (rule end_lot_inv [of _ epoch target effects]) (use AwaitedCancelled lot in \<open>auto simp: lane_inv_def lot_effects_def current_effects_def queued_effects_def\<close>)
  qed
next
  case (Finish l epoch target)
  then show ?case by (intro end_lot_inv) (auto simp: lane_inv_def lot_effects_def current_effects_def)
next
  case (Interrupted l t)
  obtain epoch target effects where t: "t = (epoch, target, effects)" by (cases t)
  show ?case
    by (rule end_lot_inv [of _ epoch target effects]) (use Interrupted t in \<open>auto simp: lane_inv_def lot_effects_def current_effects_def queued_effects_def\<close>)
qed

lemma new_lane_inv: "lane_inv new_lane"
  by (simp add: new_lane_def lane_inv_def queued_effects_def lot_effects_def current_effects_def)

interpretation lane: kept_invariant "\<lambda>l. l = new_lane" lane_step lane_inv
  by unfold_locales (auto simp: new_lane_inv intro: lane_step_inv)

text \<open>
  C15. A message that the client has already acknowledged, and that nobody will send again, is never lost or handed over twice by the delivery lane, and never overtakes
  another one: whatever lots are collected, begun, interrupted by a cancellation or retired with their connection, the acknowledged messages collected are, in
  order, those with which the lane was finished followed by those it still holds. Its counters are exact: every effect enqueued is counted as applied or outstanding.
\<close>

theorem lane_keeps_acknowledged:
  assumes "lane_step\<^sup>*\<^sup>* new_lane l"
  shows "acknowledged (l_collected l) = acknowledged (l_finished l) @ acknowledged (current_effects l @ lot_effects l @ l_carryover l @ queued_effects l)
    \<and> l_enqueued l = l_applied l + lane_outstanding l
    \<and> lane_outstanding l = int (length (current_effects l @ lot_effects l @ l_carryover l @ queued_effects l))"
  using lane.always [OF refl assms] by (simp add: lane_inv_def lane_outstanding_def)

text \<open>Two messages in a lot; the reader awaits room for the first when the connection is retired and the reader cancelled.\<close>

definition sample_effect :: "nat \<Rightarrow> bool \<Rightarrow> effect" where
  "sample_effect n marked = EffMessage \<lparr>d_decoded = False, d_message = \<lparr>msg_topic = [97], msg_payload = replicate n 0, msg_qos = 0, msg_retain = False, msg_dup = False,
     msg_mid = None, msg_properties = None\<rparr>, d_mark = marked, d_wire_size = None, d_exchange = None, d_ack_token = None\<rparr>"

definition sample_lane :: lane where
  "sample_lane = awaited_cancelled True (lane_discard (lane_collect [sample_effect 3 False] 1 0
     (next_effect 1 Awaited (begin_lot (lane_collect [sample_effect 1 False, sample_effect 2 True] 1 0 new_lane)))))"

lemma sample_lane_steps: "lane_step\<^sup>*\<^sup>* new_lane sample_lane"
proof -
  let ?a = "lane_collect [sample_effect 1 False, sample_effect 2 True] 1 0 new_lane"
  let ?b = "begin_lot ?a" let ?c = "next_effect 1 Awaited ?b" let ?d = "lane_discard (lane_collect [sample_effect 3 False] 1 0 ?c)"
  have "lane_step new_lane ?a" by (rule Collect)
  moreover have "lane_step ?a ?b" by (rule Begin) (simp_all add: new_lane_def lane_collect_def Let_def)
  moreover have "lane_step ?b ?c" by (rule NextEffect [of _ 1 0 "sample_effect 1 False" "[sample_effect 2 True]"]) (simp_all add: new_lane_def lane_collect_def begin_lot_def Let_def)
  moreover have "lane_step ?c (lane_collect [sample_effect 3 False] 1 0 ?c)" by (rule Collect)
  moreover have "lane_step (lane_collect [sample_effect 3 False] 1 0 ?c) ?d" by (rule Discard)
  moreover have "lane_step ?d sample_lane" unfolding sample_lane_def
    by (rule AwaitedCancelled [of _ "sample_effect 1 False"]) (simp add: new_lane_def lane_collect_def begin_lot_def next_effect_def lane_discard_def Let_def)
  ultimately show ?thesis by (meson rtranclp.rtrancl_into_rtrancl r_into_rtranclp)
qed

theorem lane_keeps_acknowledged_witness:
  "l_carryover sample_lane = [sample_effect 1 False, sample_effect 3 False] \<and> acknowledged (l_collected sample_lane) = l_carryover sample_lane"
proof -
  have "l_carryover sample_lane = [sample_effect 1 False, sample_effect 3 False]" "l_finished sample_lane = []" "current_effects sample_lane = []"
    "lot_effects sample_lane = []" "queued_effects sample_lane = []" "acknowledged (l_carryover sample_lane) = l_carryover sample_lane"
    by code_simp+
  with lane_keeps_acknowledged [OF sample_lane_steps] show ?thesis by simp
qed

end
