(* ===== verification/Receipts.thy ===== *)
theory Receipts
  imports Engine_State
begin

text \<open>
  Completion handles of publications: \<^verbatim>\<open>PublishReceipt\<close> and \<^verbatim>\<open>PublishBatchReceipt\<close> of \<^verbatim>\<open>src/src/mqttium/api/models.py\<close>, and the table of
  \<^verbatim>\<open>src/src/mqttium/api/async_client.py\<close> that keeps the outstanding handles of each packet identifier in order. A handle is an object of which the table
  holds a reference, so it has a number.
\<close>

subsection \<open>One publication\<close>

text \<open>The waiters of a receipt are futures: each has a number and may have been cancelled before its coroutine removed it. Two lists tell what became of them, the
  futures resolved and the ones that left; \<open>r_scheduled\<close> are the callbacks handed to \<^verbatim>\<open>call_soon\<close>.\<close>

record receipt =
  r_mid :: "int option"
  r_qos :: int
  r_waiters :: "(nat \<times> bool) list option"
  r_error :: "failure option"
  r_settled :: bool
  r_resolved :: "nat list"
  r_left :: "nat list"
  r_scheduled :: "nat list"

definition new_receipt :: "int option \<Rightarrow> int \<Rightarrow> receipt" where
  "new_receipt mid qos = \<lparr>r_mid = mid, r_qos = qos, r_waiters = None, r_error = None, r_settled = False, r_resolved = [], r_left = [], r_scheduled = []\<rparr>"

definition receipt_is_done :: "receipt \<Rightarrow> bool" where
  "receipt_is_done r \<longleftrightarrow> r_qos r = 0 \<or> r_settled r"

definition receipt_settle :: "receipt \<Rightarrow> receipt" where
  "receipt_settle r =
     (let s = r\<lparr>r_settled := True\<rparr>
      in case r_waiters s of
           None \<Rightarrow> s
         | Some waiters \<Rightarrow> s\<lparr>r_waiters := None, r_resolved := r_resolved s @ map fst (filter (\<lambda>(w, cancelled). \<not> cancelled) waiters)\<rparr>)"

definition add_waiter :: "nat \<Rightarrow> receipt \<Rightarrow> receipt" where
  "add_waiter w r = r\<lparr>r_waiters := Some (case r_waiters r of None \<Rightarrow> [(w, False)] | Some waiters \<Rightarrow> waiters @ [(w, False)])\<rparr>"

text \<open>\<^verbatim>\<open>wait\<close> up to its suspension: the outcome when the receipt is done, else \<open>None\<close> and the future is parked.\<close>

definition receipt_wait :: "nat \<Rightarrow> receipt \<Rightarrow> (failure + unit) option \<times> receipt" where
  "receipt_wait w r =
     (if r_qos r \<noteq> 0 \<and> \<not> r_settled r then (None, add_waiter w r)
      else (Some (case r_error r of Some x \<Rightarrow> Inl x | None \<Rightarrow> Inr ()), r))"

text \<open>A wait is cancelled: first its future, then, when its coroutine runs, the entry is removed.\<close>

definition cancel_waiter :: "nat \<Rightarrow> receipt \<Rightarrow> receipt" where
  "cancel_waiter w r = r\<lparr>r_waiters := map_option (map (\<lambda>(v, cancelled). (v, cancelled \<or> v = w))) (r_waiters r)\<rparr>"

definition remove_waiter :: "nat \<Rightarrow> receipt \<Rightarrow> receipt" where
  "remove_waiter w r =
     (case r_waiters r of
        None \<Rightarrow> r\<lparr>r_left := r_left r @ [w]\<rparr>
      | Some waiters \<Rightarrow>
          (let rest = filter (\<lambda>(v, _). v \<noteq> w) waiters
           in r\<lparr>r_waiters := (if rest = [] then None else Some rest), r_left := r_left r @ [w]\<rparr>))"

definition receipt_add_done_callback :: "nat \<Rightarrow> receipt \<Rightarrow> receipt" where
  "receipt_add_done_callback w r =
     (if r_settled r \<or> r_qos r = 0 then r\<lparr>r_scheduled := r_scheduled r @ [w]\<rparr> else add_waiter w r)"

definition receipt_exception :: "receipt \<Rightarrow> failure option result" where
  "receipt_exception r = (if \<not> receipt_is_done r then Inl InvalidStateError else Inr (r_error r))"

subsection \<open>A batch of publications\<close>

text \<open>The class name of an exception, the key of the failure counts.\<close>

fun exn_name :: "exn \<Rightarrow> string" where
  "exn_name MalformedPacketError = ''MalformedPacketError''"
| "exn_name ProtocolError = ''ProtocolError''"
| "exn_name (PublishRejectedError n) = ''PublishRejectedError''"
| "exn_name PacketTooLargeError = ''PacketTooLargeError''"
| "exn_name MandatoryResponseTooLargeError = ''MandatoryResponseTooLargeError''"
| "exn_name SessionReplayError = ''SessionReplayError''"
| "exn_name SessionDiscardedError = ''SessionDiscardedError''"
| "exn_name FlowControlError = ''FlowControlError''"
| "exn_name NotConnectedError = ''NotConnectedError''"
| "exn_name ValueError = ''ValueError''"
| "exn_name TypeError = ''TypeError''"
| "exn_name RuntimeError = ''RuntimeError''"
| "exn_name AssertionError = ''AssertionError''"
| "exn_name KeyError = ''KeyError''"
| "exn_name IndexError = ''IndexError''"
| "exn_name StructError = ''error''"
| "exn_name UnicodeEncodeError = ''UnicodeEncodeError''"
| "exn_name UnicodeDecodeError = ''UnicodeDecodeError''"
| "exn_name StoreError = ''StoreError''"
| "exn_name ConnectionError = ''ConnectionError''"
| "exn_name StaleConnectionEffect = ''StaleConnectionEffect''"
| "exn_name MessageDeliveryError = ''MessageDeliveryError''"
| "exn_name MQTTError = ''MQTTError''"
| "exn_name MQTTTimeoutError = ''MQTTTimeoutError''"
| "exn_name DependencyCancelledError = ''DependencyCancelledError''"
| "exn_name (BrokerDisconnectError n) = ''BrokerDisconnectError''"
| "exn_name (ConnectRefusedError n) = ''ConnectRefusedError''"
| "exn_name PublishBatchError = ''PublishBatchError''"
| "exn_name CancelledError = ''CancelledError''"
| "exn_name InvalidStateError = ''InvalidStateError''"
| "exn_name QueueFull = ''QueueFull''"

fun failure_name :: "failure \<Rightarrow> string" where
  "failure_name (PublishRejected op code props) = ''PublishRejectedError''"
| "failure_name (Raised x) = exn_name x"

text \<open>The dictionaries keep their insertion order.\<close>

record batch_receipt =
  b_pending :: "(int \<times> nat) list"
  b_failures :: "(nat \<times> failure) list"
  b_failure_counts :: "(string \<times> nat) list"
  b_max_failure_details :: nat
  b_done :: bool
  b_progress :: bool
  b_sealed :: bool
  b_submitted :: nat
  b_fatal :: "failure option"

definition new_batch :: "int \<Rightarrow> batch_receipt result" where
  "new_batch max_failure_details =
     (if max_failure_details < 0 then Inl ValueError
      else Inr \<lparr>b_pending = [], b_failures = [], b_failure_counts = [], b_max_failure_details = nat max_failure_details, b_done = False, b_progress = False,
                b_sealed = False, b_submitted = 0, b_fatal = None\<rparr>)"

definition failure_count :: "batch_receipt \<Rightarrow> nat" where
  "failure_count b = sum_list (map snd (b_failure_counts b))"

definition finish_if_ready :: "batch_receipt \<Rightarrow> batch_receipt" where
  "finish_if_ready b = (if b_sealed b \<and> b_pending b = [] then b\<lparr>b_done := True\<rparr> else b)"

definition batch_register :: "int option \<Rightarrow> batch_receipt \<Rightarrow> batch_receipt" where
  "batch_register mid b =
     (let c = b\<lparr>b_submitted := b_submitted b + 1\<rparr>
      in case mid of None \<Rightarrow> c | Some k \<Rightarrow> c\<lparr>b_pending := AList.update k (b_submitted b) (b_pending c)\<rparr>)"

definition rollback_qos0_registration :: "batch_receipt \<Rightarrow> unit result \<times> batch_receipt" where
  "rollback_qos0_registration b =
     (if b_sealed b \<or> b_submitted b = 0 then (Inl AssertionError, b) else (Inr (), b\<lparr>b_submitted := b_submitted b - 1\<rparr>))"

definition record_failure :: "nat \<Rightarrow> failure \<Rightarrow> batch_receipt \<Rightarrow> batch_receipt" where
  "record_failure index x b =
     (let name = failure_name x;
          n = (case map_of (b_failure_counts b) name of None \<Rightarrow> 0 | Some k \<Rightarrow> k);
          c = b\<lparr>b_failure_counts := AList.update name (n + 1) (b_failure_counts b)\<rparr>
      in if length (b_failures c) < b_max_failure_details c then c\<lparr>b_failures := AList.update index x (b_failures c)\<rparr> else c)"

definition batch_complete :: "int \<Rightarrow> failure option \<Rightarrow> batch_receipt \<Rightarrow> batch_receipt" where
  "batch_complete mid err b =
     (case map_of (b_pending b) mid of
        None \<Rightarrow> b
      | Some index \<Rightarrow>
          (let c = b\<lparr>b_pending := AList.delete mid (b_pending b)\<rparr>;
               d = (case err of None \<Rightarrow> c | Some x \<Rightarrow> record_failure index x c)
           in finish_if_ready (d\<lparr>b_progress := True\<rparr>)))"

definition batch_seal :: "batch_receipt \<Rightarrow> batch_receipt" where
  "batch_seal b = finish_if_ready (b\<lparr>b_sealed := True\<rparr>)"

definition fail_remaining :: "failure \<Rightarrow> batch_receipt \<Rightarrow> batch_receipt" where
  "fail_remaining x b =
     (let c = fold (\<lambda>(mid, index). record_failure index x) (b_pending b) (b\<lparr>b_fatal := Some x\<rparr>)
      in c\<lparr>b_pending := [], b_sealed := True, b_progress := True, b_done := True\<rparr>)"

text \<open>\<^verbatim>\<open>wait\<close> once the event is set.\<close>

definition batch_wait :: "batch_receipt \<Rightarrow> unit result option" where
  "batch_wait b =
     (if \<not> b_done b then None
      else Some (if b_fatal b \<noteq> None then Inl PublishBatchError else if b_failure_counts b \<noteq> [] then Inl PublishBatchError else Inr ()))"

text \<open>\<^verbatim>\<open>_wait_pending_at_most\<close>, from the test of its loop on: \<open>True\<close> when it returns, \<open>False\<close> when it suspends.\<close>

definition wait_pending_at_most :: "int \<Rightarrow> batch_receipt \<Rightarrow> bool \<times> batch_receipt" where
  "wait_pending_at_most limit b =
     (if int (length (b_pending b)) > limit then (False, b\<lparr>b_progress := False\<rparr>) else (True, b))"

subsection \<open>The outstanding handles of each identifier\<close>

datatype slot = One nat | Several "nat list"

type_synonym registry = "int \<Rightarrow> slot option"

definition fifo_register :: "int \<Rightarrow> nat \<Rightarrow> registry \<Rightarrow> registry" where
  "fifo_register mid h reg =
     (case reg mid of
        None \<Rightarrow> reg(mid \<mapsto> One h)
      | Some (Several hs) \<Rightarrow> reg(mid \<mapsto> Several (hs @ [h]))
      | Some (One g) \<Rightarrow> reg(mid \<mapsto> Several [g, h]))"

definition fifo_pop :: "int \<Rightarrow> registry \<Rightarrow> nat option \<times> registry" where
  "fifo_pop mid reg =
     (let rest = reg(mid := None)
      in case reg mid of
           None \<Rightarrow> (None, rest)
         | Some (One h) \<Rightarrow> (Some h, rest)
         | Some (Several hs) \<Rightarrow>
             (case hs of
                [] \<Rightarrow> (None, rest)
              | h # tail \<Rightarrow> (Some h, if length tail = 1 then rest(mid \<mapsto> One (hd tail)) else if tail \<noteq> [] then rest(mid \<mapsto> Several tail) else rest)))"

text \<open>What a table of queues promises its users: handles come back per key in the order of their registration.\<close>

locale queue_table =
  fixes add :: "'k \<Rightarrow> 'h \<Rightarrow> 't \<Rightarrow> 't" and pop :: "'k \<Rightarrow> 't \<Rightarrow> 'h option \<times> 't" and queued :: "'t \<Rightarrow> 'k \<Rightarrow> 'h list" and ok :: "'t \<Rightarrow> bool"
  assumes add_queued: "ok t \<Longrightarrow> queued (add k h t) = (queued t)(k := queued t k @ [h])"
    and add_ok: "ok t \<Longrightarrow> ok (add k h t)"
    and pop_result: "ok t \<Longrightarrow> fst (pop k t) = (case queued t k of [] \<Rightarrow> None | h # hs \<Rightarrow> Some h)"
    and pop_queued: "ok t \<Longrightarrow> queued (snd (pop k t)) = (queued t)(k := tl (queued t k))"
    and pop_ok: "ok t \<Longrightarrow> ok (snd (pop k t))"
begin

primrec pops :: "nat \<Rightarrow> 'k \<Rightarrow> 't \<Rightarrow> 'h option list \<times> 't" where
  "pops 0 k t = ([], t)"
| "pops (Suc n) k t = (let (h, t1) = pop k t; (hs, t2) = pops n k t1 in (h # hs, t2))"

primrec adds :: "'k \<Rightarrow> 'h list \<Rightarrow> 't \<Rightarrow> 't" where
  "adds k [] t = t"
| "adds k (h # hs) t = adds k hs (add k h t)"

lemma adds_queued: "ok t \<Longrightarrow> queued (adds k hs t) = (queued t)(k := queued t k @ hs) \<and> ok (adds k hs t)"
  by (induction hs arbitrary: t) (auto simp: add_queued add_ok)

lemma pops_in_order: "ok t \<Longrightarrow> fst (pops (length (queued t k)) k t) = map Some (queued t k) \<and> queued (snd (pops (length (queued t k)) k t)) k = []"
proof (induction "queued t k" arbitrary: t)
  case (Cons h hs)
  have "queued (snd (pop k t)) k = hs" "fst (pop k t) = Some h" "ok (snd (pop k t))"
    using Cons(2,3) pop_queued [of t k] pop_result [of t k] pop_ok [of t k] by (auto simp: Cons(2) [symmetric])
  then show ?case
    using Cons(1) [of "snd (pop k t)"] by (auto simp: Cons(2) [symmetric] Let_def case_prod_beta)
qed simp

lemma others_kept: "ok t \<Longrightarrow> j \<noteq> k \<Longrightarrow> queued (add k h t) j = queued t j \<and> queued (snd (pop k t)) j = queued t j"
  by (simp add: add_queued pop_queued)

end

definition slot_list :: "slot option \<Rightarrow> nat list" where
  "slot_list x = (case x of None \<Rightarrow> [] | Some (One h) \<Rightarrow> [h] | Some (Several hs) \<Rightarrow> hs)"

definition registry_ok :: "registry \<Rightarrow> bool" where
  "registry_ok reg \<longleftrightarrow> (\<forall>mid hs. reg mid = Some (Several hs) \<longrightarrow> 2 \<le> length hs)"

interpretation handles: queue_table fifo_register fifo_pop "\<lambda>reg mid. slot_list (reg mid)" registry_ok
proof
  fix reg :: registry and mid :: int and h :: nat
  assume ok: "registry_ok reg"
  show "(\<lambda>m. slot_list (fifo_register mid h reg m)) = (\<lambda>m. slot_list (reg m))(mid := slot_list (reg mid) @ [h])"
    by (rule ext) (auto simp: fifo_register_def slot_list_def split: option.splits slot.splits)
  show "registry_ok (fifo_register mid h reg)"
    using ok by (auto simp: fifo_register_def registry_ok_def split: option.splits slot.splits) fastforce
  show "fst (fifo_pop mid reg) = (case slot_list (reg mid) of [] \<Rightarrow> None | h # hs \<Rightarrow> Some h)"
    by (auto simp: fifo_pop_def slot_list_def Let_def split: option.splits slot.splits list.splits)
  show "(\<lambda>m. slot_list (snd (fifo_pop mid reg) m)) = (\<lambda>m. slot_list (reg m))(mid := tl (slot_list (reg mid)))"
    by (rule ext) (auto simp: fifo_pop_def slot_list_def Let_def length_Suc_conv split: option.splits slot.splits list.splits)
  show "registry_ok (snd (fifo_pop mid reg))"
  proof (cases "reg mid")
    case (Some s)
    then show ?thesis using ok
      by (cases s) (auto simp: fifo_pop_def registry_ok_def Let_def Suc_le_eq numeral_2_eq_2 neq_Nil_conv split: list.splits if_splits)
  qed (use ok in \<open>auto simp: fifo_pop_def registry_ok_def\<close>)
qed

subsection \<open>Batches: what they promise\<close>

text \<open>The specification: one entry for every admitted message, in input order.\<close>

datatype batch_entry = Outstanding int | Succeeded | Failed failure

type_synonym batch_spec = "batch_entry list"

definition spec_register :: "int option \<Rightarrow> batch_spec \<Rightarrow> batch_spec" where
  "spec_register mid es = es @ [case mid of None \<Rightarrow> Succeeded | Some k \<Rightarrow> Outstanding k]"

definition spec_complete :: "int \<Rightarrow> failure option \<Rightarrow> batch_spec \<Rightarrow> batch_spec" where
  "spec_complete mid err es =
     map (\<lambda>e. if e = Outstanding mid then (case err of None \<Rightarrow> Succeeded | Some x \<Rightarrow> Failed x) else e) es"

definition is_outstanding :: "batch_entry \<Rightarrow> bool" where "is_outstanding e \<longleftrightarrow> (\<exists>mid. e = Outstanding mid)"

definition is_failed :: "batch_entry \<Rightarrow> bool" where "is_failed e \<longleftrightarrow> (\<exists>x. e = Failed x)"

definition failed_as :: "string \<Rightarrow> batch_entry \<Rightarrow> bool" where "failed_as name e \<longleftrightarrow> (\<exists>x. e = Failed x \<and> failure_name x = name)"

definition class_count :: "batch_receipt \<Rightarrow> string \<Rightarrow> nat" where
  "class_count b name = (case map_of (b_failure_counts b) name of None \<Rightarrow> 0 | Some n \<Rightarrow> n)"

definition spec_fail_all :: "failure \<Rightarrow> batch_spec \<Rightarrow> batch_spec" where
  "spec_fail_all x es = map (\<lambda>e. if is_outstanding e then Failed x else e) es"

definition batch_rel :: "batch_spec \<Rightarrow> batch_receipt \<Rightarrow> bool" where
  "batch_rel es b \<longleftrightarrow> b_submitted b = length es \<and> distinct (map fst (b_pending b))
     \<and> (\<forall>mid i. (mid, i) \<in> set (b_pending b) \<longleftrightarrow> i < length es \<and> es ! i = Outstanding mid)
     \<and> failure_count b = length (filter is_failed es) \<and> distinct (map fst (b_failures b))
     \<and> length (b_failures b) = min (b_max_failure_details b) (failure_count b)
     \<and> (\<forall>(i, x) \<in> set (b_failures b). i < length es \<and> es ! i = Failed x)
     \<and> distinct (map fst (b_failure_counts b)) \<and> (\<forall>name. class_count b name = length (filter (failed_as name) es))
     \<and> (b_done b \<longleftrightarrow> b_sealed b \<and> b_pending b = [])"

lemma failed_indices:
  assumes "distinct (map fst fs)" "\<forall>(i, x) \<in> set fs. i < length es \<and> es ! i = Failed x" "i < length es" "\<not> is_failed (es ! i)"
  shows "i \<notin> fst ` set fs"
  using assms by (auto simp: is_failed_def)

lemma update_fresh_key: "k \<notin> fst ` set xs \<Longrightarrow> AList.update k v xs = xs @ [(k, v)]"
  by (induction xs) auto

lemma update_sum:
  assumes "distinct (map fst xs)"
  shows "sum_list (map snd (AList.update k ((case map_of xs k of None \<Rightarrow> 0 | Some n \<Rightarrow> n) + 1) xs)) = sum_list (map snd xs) + (1::nat)"
  using assms by (induction xs) auto

text \<open>One more failure, at an index that has none yet.\<close>

lemma record_failure_count:
  assumes "distinct (map fst (b_failure_counts b))"
  shows "failure_count (record_failure i x b) = failure_count b + 1" "distinct (map fst (b_failure_counts (record_failure i x b)))"
  using assms update_sum [OF assms, of "failure_name x"]
  by (auto simp: record_failure_def Let_def failure_count_def distinct_update)

lemma record_failure_details:
  assumes "i \<notin> fst ` set (b_failures b)"
  shows "b_failures (record_failure i x b) = (if length (b_failures b) < b_max_failure_details b then b_failures b @ [(i, x)] else b_failures b)"
  using assms by (simp add: record_failure_def Let_def update_fresh_key)

lemma record_failure_same [simp]:
  "b_pending (record_failure i x b) = b_pending b" "b_submitted (record_failure i x b) = b_submitted b" "b_sealed (record_failure i x b) = b_sealed b"
  "b_done (record_failure i x b) = b_done b" "b_max_failure_details (record_failure i x b) = b_max_failure_details b" "b_fatal (record_failure i x b) = b_fatal b"
  by (simp_all add: record_failure_def Let_def)

text \<open>The part of the relation that concerns failures.\<close>

definition failures_rel :: "batch_spec \<Rightarrow> batch_receipt \<Rightarrow> bool" where
  "failures_rel es b \<longleftrightarrow> failure_count b = length (filter is_failed es) \<and> distinct (map fst (b_failures b))
     \<and> length (b_failures b) = min (b_max_failure_details b) (failure_count b)
     \<and> (\<forall>(i, x) \<in> set (b_failures b). i < length es \<and> es ! i = Failed x) \<and> distinct (map fst (b_failure_counts b))
     \<and> (\<forall>name. class_count b name = length (filter (failed_as name) es))"

lemma filter_update:
  "i < length es \<Longrightarrow> \<not> P (es ! i) \<Longrightarrow> P e \<Longrightarrow> length (filter P (es[i := e])) = length (filter P es) + 1"
  by (induction es arbitrary: i) (auto simp: nth_Cons split: nat.splits)

lemma filter_update_other:
  "i < length es \<Longrightarrow> \<not> P (es ! i) \<Longrightarrow> \<not> P e \<Longrightarrow> length (filter P (es[i := e])) = length (filter P es)"
  by (induction es arbitrary: i) (auto simp: nth_Cons split: nat.splits)

lemma class_count_record: "class_count (record_failure i x b) name = class_count b name + (if name = failure_name x then 1 else 0)"
  by (auto simp: class_count_def record_failure_def Let_def update_conv' split: option.split)

lemma class_counts_step:
  assumes "\<forall>name. class_count b name = length (filter (failed_as name) es)" "i < length es" "\<not> is_failed (es ! i)"
  shows "class_count (record_failure i x b) name = length (filter (failed_as name) (es[i := Failed x]))"
proof -
  have "\<not> failed_as name (es ! i)" using assms(3) by (auto simp: failed_as_def is_failed_def)
  with filter_update [OF assms(2), of "failed_as name" "Failed x"] filter_update_other [OF assms(2), of "failed_as name" "Failed x"] show ?thesis
    using assms(1) by (cases "failure_name x = name") (auto simp: class_count_record failed_as_def)
qed

lemma failures_step:
  assumes rel: "failures_rel es b" and i: "i < length es" "\<not> is_failed (es ! i)"
  shows "failures_rel (es[i := Failed x]) (record_failure i x b)"
proof -
  have new: "i \<notin> fst ` set (b_failures b)" by (rule failed_indices [of _ es]) (use rel i in \<open>auto simp: failures_rel_def\<close>)
  have "j < length es \<and> es[i := Failed x] ! j = Failed y" if "(j, y) \<in> set (b_failures (record_failure i x b))" for j y
    using that rel i new by (cases "j = i") (auto simp: record_failure_details [OF new] failures_rel_def image_iff split: if_splits)
  then show ?thesis
    using rel i new record_failure_count [of b i x] class_counts_step [of b es i x] filter_update [OF i(1), of is_failed "Failed x"] i(2)
    by (auto simp: failures_rel_def record_failure_details [OF new] is_failed_def min_def)
qed

lemma batch_rel_split: "batch_rel es b \<longleftrightarrow> b_submitted b = length es \<and> distinct (map fst (b_pending b))
     \<and> (\<forall>mid i. (mid, i) \<in> set (b_pending b) \<longleftrightarrow> i < length es \<and> es ! i = Outstanding mid) \<and> failures_rel es b
     \<and> (b_done b \<longleftrightarrow> b_sealed b \<and> b_pending b = [])"
  by (auto simp: batch_rel_def failures_rel_def)

lemma complete_at:
  assumes rel: "batch_rel es b" and at: "(mid, i) \<in> set (b_pending b)"
  shows "spec_complete mid err es = es[i := (case err of None \<Rightarrow> Succeeded | Some x \<Rightarrow> Failed x)]"
proof (rule nth_equalityI)
  fix j assume j: "j < length (spec_complete mid err es)"
  have "j = i" if "j < length es" "es ! j = Outstanding mid"
  proof -
    have "(mid, j) \<in> set (b_pending b)" "distinct (map fst (b_pending b))" using rel that by (auto simp: batch_rel_def)
    with at show ?thesis by (metis eq_key_imp_eq_value)
  qed
  then show "spec_complete mid err es ! j = es[i := (case err of None \<Rightarrow> Succeeded | Some x \<Rightarrow> Failed x)] ! j"
    using rel at j by (auto simp: spec_complete_def batch_rel_def nth_list_update)
qed (simp add: spec_complete_def)

lemma finish_same [simp]:
  "b_pending (finish_if_ready b) = b_pending b" "b_submitted (finish_if_ready b) = b_submitted b" "b_sealed (finish_if_ready b) = b_sealed b"
  "failures_rel es (finish_if_ready b) = failures_rel es b"
  by (auto simp: finish_if_ready_def failures_rel_def failure_count_def class_count_def)

lemma done_finish: "b_done b \<longrightarrow> b_sealed b \<and> b_pending b = [] \<Longrightarrow> b_done (finish_if_ready b) \<longleftrightarrow> b_sealed b \<and> b_pending b = []"
  by (auto simp: finish_if_ready_def)

lemma failures_rel_same:
  assumes "failures_rel es b" "b_failures c = b_failures b" "b_failure_counts c = b_failure_counts b" "b_max_failure_details c = b_max_failure_details b"
  shows "failures_rel es c"
  using assms by (simp add: failures_rel_def failure_count_def class_count_def)

lemma seal_rel:
  assumes rel: "batch_rel es b"
  shows "batch_rel es (batch_seal b)"
  using rel failures_rel_same [of es b "b\<lparr>b_sealed := True\<rparr>"] done_finish [of "b\<lparr>b_sealed := True\<rparr>"]
  by (simp add: batch_rel_split batch_seal_def)

lemma register_rel:
  assumes rel: "batch_rel es b" and opened: "\<not> b_sealed b" and fresh: "\<forall>k. mid = Some k \<longrightarrow> k \<notin> fst ` set (b_pending b)"
  shows "batch_rel (spec_register mid es) (batch_register mid b)"
proof -
  have fails: "failures_rel (spec_register mid es) (batch_register mid b)"
    using rel by (auto simp: batch_rel_split failures_rel_def failure_count_def class_count_def spec_register_def batch_register_def is_failed_def failed_as_def nth_append split: option.splits)
  have "b_pending (batch_register mid b) = b_pending b @ (case mid of None \<Rightarrow> [] | Some k \<Rightarrow> [(k, length es)])"
    using fresh rel by (auto simp: batch_register_def batch_rel_split update_fresh_key split: option.splits)
  moreover have "b_submitted (batch_register mid b) = length es + 1" "b_sealed (batch_register mid b) = b_sealed b" "b_done (batch_register mid b) = b_done b"
    using rel by (auto simp: batch_register_def batch_rel_split Let_def split: option.splits)
  ultimately show ?thesis
    using rel opened fresh fails unfolding batch_rel_split
    by (cases mid) (auto simp: spec_register_def nth_append less_Suc_eq)
qed

lemma complete_rel:
  assumes rel: "batch_rel es b"
  shows "batch_rel (spec_complete mid err es) (batch_complete mid err b)"
proof (cases "map_of (b_pending b) mid")
  case None
  then have "(mid, i) \<notin> set (b_pending b)" for i by (auto simp: map_of_eq_None_iff image_iff)
  then have "Outstanding mid \<notin> set es" using rel unfolding batch_rel_def in_set_conv_nth by blast
  then have "spec_complete mid err es = es" by (auto simp: spec_complete_def intro: map_idI)
  then show ?thesis using None rel by (simp add: batch_complete_def)
next
  case (Some i)
  define c where "c = b\<lparr>b_pending := AList.delete mid (b_pending b)\<rparr>"
  define d where "d = (case err of None \<Rightarrow> c | Some x \<Rightarrow> record_failure i x c)"
  let ?e = "case err of None \<Rightarrow> Succeeded | Some x \<Rightarrow> Failed x"
  have at: "(mid, i) \<in> set (b_pending b)" using Some by (rule map_of_SomeD)
  have i: "i < length es" "es ! i = Outstanding mid" using rel at by (auto simp: batch_rel_def)
  have eq: "spec_complete mid err es = es[i := ?e]" by (rule complete_at [OF rel at])
  have c: "failures_rel es c" using rel failures_rel_same [of es b c] by (simp add: batch_rel_split c_def)
  have d: "failures_rel (es[i := ?e]) d"
  proof (cases err)
    case None
    have "filter is_failed (es[i := Succeeded]) = filter is_failed es"
      using i by (subst (2) id_take_nth_drop [OF i(1)]) (simp add: upd_conv_take_nth_drop is_failed_def)
    moreover have "\<forall>(j, x) \<in> set (b_failures c). j < length es \<and> es[i := Succeeded] ! j = Failed x"
      using c i by (fastforce simp: failures_rel_def nth_list_update)
    moreover have "length (filter (failed_as name) (es[i := Succeeded])) = length (filter (failed_as name) es)" for name
      by (rule filter_update_other [OF i(1)]) (use i(2) in \<open>simp_all add: failed_as_def\<close>)
    ultimately show ?thesis using None c by (simp add: failures_rel_def d_def)
  next
    case (Some x)
    then show ?thesis using failures_step [OF c i(1)] i(2) by (simp add: d_def is_failed_def)
  qed
  have pend: "b_pending d = AList.delete mid (b_pending b)" by (simp add: d_def c_def split: option.split)
  have keys: "(k, j) \<in> set (b_pending d) \<longleftrightarrow> j < length es \<and> es[i := ?e] ! j = Outstanding k" for k j
  proof -
    have "(k, j) \<in> set (b_pending b) \<longleftrightarrow> j < length es \<and> es ! j = Outstanding k" using rel by (simp add: batch_rel_def)
    moreover have "j = i \<longleftrightarrow> k = mid" if "(k, j) \<in> set (b_pending b)"
    proof
      assume "k = mid"
      with that at show "j = i" using rel eq_key_imp_eq_value [of "b_pending b" mid j i] by (simp add: batch_rel_def)
    qed (use that rel i in \<open>simp add: batch_rel_def\<close>)
    moreover have "es[i := ?e] ! j = Outstanding k \<longleftrightarrow> j \<noteq> i \<and> es ! j = Outstanding k" if "j < length es"
      using that i by (cases "j = i") (auto split: option.split)
    ultimately show ?thesis unfolding pend AList.delete_eq by auto
  qed
  have "b_submitted d = length es" "b_sealed d = b_sealed b" "b_done d = b_done b"
    using rel by (auto simp: d_def c_def batch_rel_split split: option.split)
  then have "batch_rel (es[i := ?e]) (finish_if_ready (d\<lparr>b_progress := True\<rparr>))"
    unfolding batch_rel_split
    using rel keys failures_rel_same [OF d, of "d\<lparr>b_progress := True\<rparr>"] done_finish [of "d\<lparr>b_progress := True\<rparr>"] distinct_delete [of "b_pending b" mid]
    by (simp add: batch_rel_split pend AList.delete_eq)
  then show ?thesis unfolding eq d_def c_def using Some by (simp add: batch_complete_def Let_def)
qed

lemma fail_many:
  assumes "failures_rel es b" "distinct (map snd ps)" "\<forall>(k, i) \<in> set ps. i < length es \<and> \<not> is_failed (es ! i)"
  shows "failures_rel (fold (\<lambda>(k, i) es. es[i := Failed x]) ps es) (fold (\<lambda>(k, i). record_failure i x) ps b)"
  using assms
proof (induction ps arbitrary: es b)
  case (Cons p ps)
  obtain k i where p: "p = (k, i)" by fastforce
  have "failures_rel (es[i := Failed x]) (record_failure i x b)" by (rule failures_step) (use Cons p in auto)
  moreover have "\<forall>(k, j) \<in> set ps. j < length (es[i := Failed x]) \<and> \<not> is_failed (es[i := Failed x] ! j)"
    using Cons(4) Cons(3) p by (force simp: nth_list_update image_iff)
  ultimately show ?case using Cons p by simp
qed simp

lemma fold_update: "length (fold (\<lambda>(k, i) es. es[i := e]) ps es) = length es \<and>
    (\<forall>j < length es. fold (\<lambda>(k, i) es. es[i := e]) ps es ! j = (if j \<in> snd ` set ps then e else es ! j))"
proof (induction ps arbitrary: es)
  case (Cons p ps)
  then show ?case using Cons [of "es[snd p := e]"] by (auto simp: case_prod_beta nth_list_update)
qed simp

lemma fold_record_same:
  "b_pending (fold (\<lambda>(k, i). record_failure i x) ps b) = b_pending b \<and> b_submitted (fold (\<lambda>(k, i). record_failure i x) ps b) = b_submitted b"
  by (induction ps arbitrary: b) auto

lemma fail_rel:
  assumes rel: "batch_rel es b"
  shows "batch_rel (spec_fail_all x es) (fail_remaining x b)"
proof -
  let ?c = "fold (\<lambda>(k, i). record_failure i x) (b_pending b) (b\<lparr>b_fatal := Some x\<rparr>)"
  have keys: "(k, i) \<in> set (b_pending b) \<longleftrightarrow> i < length es \<and> es ! i = Outstanding k" for k i using rel by (simp add: batch_rel_def)
  have live: "\<forall>(k, i) \<in> set (b_pending b). i < length es \<and> \<not> is_failed (es ! i)" by (auto simp: keys is_failed_def)
  have "inj_on snd (set (b_pending b))" by (auto simp: inj_on_def keys)
  then have dist: "distinct (map snd (b_pending b))" using rel by (simp add: distinct_map batch_rel_def)
  have eq: "fold (\<lambda>(k, i) es. es[i := Failed x]) (b_pending b) es = spec_fail_all x es"
  proof (rule nth_equalityI)
    fix j assume "j < length (fold (\<lambda>(k, i) es. es[i := Failed x]) (b_pending b) es)"
    then have j: "j < length es" by (simp add: fold_update)
    have "j \<in> snd ` set (b_pending b) \<longleftrightarrow> (\<exists>k. (k, j) \<in> set (b_pending b))" by force
    then have "j \<in> snd ` set (b_pending b) \<longleftrightarrow> is_outstanding (es ! j)" using j by (simp add: is_outstanding_def keys)
    then show "fold (\<lambda>(k, i) es. es[i := Failed x]) (b_pending b) es ! j = spec_fail_all x es ! j" using j by (simp add: fold_update spec_fail_all_def)
  qed (simp add: fold_update spec_fail_all_def)
  have "failures_rel es (b\<lparr>b_fatal := Some x\<rparr>)" using rel by (simp add: batch_rel_split failures_rel_def failure_count_def class_count_def)
  then have "failures_rel (spec_fail_all x es) ?c"
    using fail_many [OF _ dist live, of "b\<lparr>b_fatal := Some x\<rparr>" x] by (simp add: eq)
  then have "failures_rel (spec_fail_all x es) (fail_remaining x b)" using failures_rel_same by (simp add: fail_remaining_def Let_def failures_rel_same)
  then show ?thesis
    using rel by (auto simp: batch_rel_split fail_remaining_def Let_def fold_record_same spec_fail_all_def is_outstanding_def split: if_splits)
qed

subsection \<open>Properties\<close>

text \<open>
  The handles registered under a packet identifier come back in the order of their registration, one for each completion, even when an
  identifier is reused before its earlier publication was settled; other identifiers are not affected, and a completion with no handle left finds none.
\<close>

theorem receipts_in_order:
  assumes "registry_ok reg"
  shows "slot_list (fifo_register mid h reg m) = (if m = mid then slot_list (reg mid) @ [h] else slot_list (reg m))
    \<and> fst (fifo_pop mid reg) = (case slot_list (reg mid) of [] \<Rightarrow> None | h # hs \<Rightarrow> Some h)
    \<and> slot_list (snd (fifo_pop mid reg) m) = (if m = mid then tl (slot_list (reg mid)) else slot_list (reg m))
    \<and> fst (handles.pops (length (slot_list (reg mid))) mid reg) = map Some (slot_list (reg mid))
    \<and> registry_ok (fifo_register mid h reg) \<and> registry_ok (snd (fifo_pop mid reg))"
  using fun_cong [OF handles.add_queued [OF assms, of mid h], of m] fun_cong [OF handles.pop_queued [OF assms, of mid], of m] handles.pop_result [OF assms, of mid] handles.pops_in_order [OF assms, of mid]
    handles.add_ok [OF assms, of mid h] handles.pop_ok [OF assms, of mid]
  by auto

theorem receipts_in_order_witness:
  "fst (fifo_pop 7 (fifo_register 7 2 (fifo_register 7 1 Map.empty))) = Some 1"
proof -
  have "registry_ok (fifo_register 7 2 (fifo_register 7 1 Map.empty))" by (auto simp: registry_ok_def fifo_register_def)
  from receipts_in_order [OF this, of 7] show ?thesis by (simp add: fifo_register_def slot_list_def)
qed

text \<open>
  C19. A batch receipt implements a list with one entry for every admitted message: registrations, completions, the seal and the final failure do to it what they do to
  the list. So the pending identifiers are the entries still outstanding, the failure count is the number of failed entries, for each class of exceptions and in all, whatever the number of details retained, each detail is the failure of
  the message at that index, and the receipt is done exactly when it is sealed and no entry is outstanding.
\<close>

theorem batch_refines:
  assumes "batch_rel es b"
  shows "batch_rel (spec_complete mid err es) (batch_complete mid err b) \<and> batch_rel es (batch_seal b) \<and> batch_rel (spec_fail_all x es) (fail_remaining x b)
    \<and> (\<not> b_sealed b \<and> (\<forall>k. m = Some k \<longrightarrow> Outstanding k \<notin> set es) \<longrightarrow> batch_rel (spec_register m es) (batch_register m b))
    \<and> (\<not> b_sealed b \<longrightarrow> rollback_qos0_registration (batch_register None b) = (Inr (), b))
    \<and> (batch_wait b = Some (Inr ()) \<longrightarrow> (\<forall>e \<in> set es. e = Succeeded))"
proof -
  have keys: "(k, i) \<in> set (b_pending b) \<longleftrightarrow> i < length es \<and> es ! i = Outstanding k" for k i using assms by (simp add: batch_rel_def)
  have fresh: "k \<notin> fst ` set (b_pending b)" if "Outstanding k \<notin> set es" for k using that nth_mem [of _ es] by (fastforce simp: keys)
  have "batch_rel (spec_register m es) (batch_register m b)" if "\<not> b_sealed b" "\<forall>k. m = Some k \<longrightarrow> Outstanding k \<notin> set es"
    by (rule register_rel [OF assms that(1)]) (use that fresh in auto)
  moreover have "e = Succeeded" if e: "e \<in> set es" and waited: "batch_wait b = Some (Inr ())" for e
  proof -
    have done_ok: "b_pending b = []" "b_failure_counts b = []" using waited assms by (auto simp: batch_wait_def batch_rel_def split: if_splits)
    obtain i where i: "i < length es" "es ! i = e" using e by (auto simp: in_set_conv_nth)
    have "filter is_failed es = []" using assms done_ok by (simp add: batch_rel_def failure_count_def)
    then have "\<not> is_failed e" using e by (auto simp: filter_empty_conv)
    then show ?thesis using keys done_ok i by (cases e) (auto simp: is_failed_def)
  qed
  ultimately show ?thesis
    using complete_rel [OF assms] seal_rel [OF assms] fail_rel [OF assms]
    by (auto simp: rollback_qos0_registration_def batch_register_def)
qed

theorem batch_refines_witness:
  "\<exists>b. new_batch 1 = Inr b \<and> batch_rel [Succeeded, Failed (Raised ConnectionError)] (fail_remaining (Raised ConnectionError) (batch_register (Some 4) (batch_register None b)))"
proof -
  obtain b where b: "new_batch 1 = Inr b" by (simp add: new_batch_def)
  have "batch_rel [] b" using b by (auto simp: new_batch_def batch_rel_def failure_count_def class_count_def)
  from batch_refines [OF this, of _ _ _ None] have r: "batch_rel [Succeeded] (batch_register None b)"
    using b by (auto simp: new_batch_def spec_register_def)
  from batch_refines [OF r, of _ _ _ "Some 4"] have "batch_rel [Succeeded, Outstanding 4] (batch_register (Some 4) (batch_register None b))"
    using b by (auto simp: new_batch_def spec_register_def batch_register_def)
  from batch_refines [OF this, of _ _ "Raised ConnectionError"] show ?thesis using b by (auto simp: spec_fail_all_def is_outstanding_def)
qed

end
