(* ===== verification/Auth_Exchange.thy ===== *)
theory Auth_Exchange
  imports Engine_State
begin

text \<open>
  Enhanced authentication, \<^verbatim>\<open>src/src/mqttium/api/_auth.py\<close>: the server's challenges wait in order for the task that runs the user's handler, one at a time. The
  definitions are the code between two suspensions of that task; the handler's call has an outcome.
\<close>

record auth_exchange =
  x_pending :: "(control_packet \<times> int option \<times> int) list"
  x_running :: bool
  x_cancelled :: bool
  x_current :: "(control_packet \<times> int option \<times> int) option"

definition new_auth :: auth_exchange where
  "new_auth = \<lparr>x_pending = [], x_running = False, x_cancelled = False, x_current = None\<rparr>"

definition hand_off :: "control_packet \<Rightarrow> int option \<Rightarrow> int \<Rightarrow> auth_exchange \<Rightarrow> auth_exchange" where
  "hand_off packet challenge epoch x =
     (let y = x\<lparr>x_pending := x_pending x @ [(packet, challenge, epoch)]\<rparr>
      in if \<not> x_running y then y\<lparr>x_running := True, x_cancelled := False, x_current := None\<rparr> else y)"

text \<open>\<open>from_task\<close>: the handler itself retires the connection.\<close>

definition auth_retire :: "bool \<Rightarrow> auth_exchange \<Rightarrow> auth_exchange" where
  "auth_retire from_task x =
     (let y = x\<lparr>x_pending := []\<rparr> in if x_running y \<and> \<not> from_task then y\<lparr>x_cancelled := True\<rparr> else y)"

text \<open>The loop of \<^verbatim>\<open>_run\<close> up to the next call of the handler: challenges of retired connections are skipped.\<close>

fun next_challenge :: "int \<Rightarrow> (control_packet \<times> int option \<times> int) list \<Rightarrow> (control_packet \<times> int option \<times> int) option \<times> (control_packet \<times> int option \<times> int) list" where
  "next_challenge now [] = (None, [])"
| "next_challenge now ((packet, challenge, epoch) # rest) =
     (if epoch \<noteq> now then next_challenge now rest else (Some (packet, challenge, epoch), rest))"

definition auth_run :: "int \<Rightarrow> auth_exchange \<Rightarrow> auth_exchange" where
  "auth_run now x = (case next_challenge now (x_pending x) of
      (None, rest) \<Rightarrow> x\<lparr>x_pending := rest, x_running := False, x_current := None\<rparr>
    | (Some c, rest) \<Rightarrow> x\<lparr>x_pending := rest, x_current := Some c\<rparr>)"

text \<open>What the handler does with a challenge: there is none any more, it times out, is cancelled (with or without a request to this task), raises, or returns a
  packet or something else.\<close>

datatype handler_outcome = NoHandler | HandlerTimeout | HandlerCancelled bool | HandlerRaised exn | Answered control_packet | Unanswered

text \<open>What \<^verbatim>\<open>_answer\<close> comes to: nothing, the answer for \<^verbatim>\<open>respond_auth\<close>, a failure, or the cancellation of the task.\<close>

datatype auth_action = NoAnswer | Respond "int option" int "properties option" | AuthFailure exn | TaskCancelled

definition answer :: "handler_outcome \<Rightarrow> int \<Rightarrow> (control_packet \<times> int option \<times> int) \<Rightarrow> auth_action" where
  "answer outcome now c = (case c of (packet, challenge, epoch) \<Rightarrow>
     (case outcome of
        NoHandler \<Rightarrow> AuthFailure MQTTError
      | HandlerTimeout \<Rightarrow> AuthFailure MQTTTimeoutError
      | HandlerCancelled owner \<Rightarrow> if owner then TaskCancelled else AuthFailure DependencyCancelledError
      | HandlerRaised e \<Rightarrow> AuthFailure e
      | Unanswered \<Rightarrow> NoAnswer
      | Answered response \<Rightarrow> if epoch \<noteq> now then NoAnswer else Respond challenge (cp_reason_code response) (cp_properties response)))"

text \<open>After \<^verbatim>\<open>_answer\<close>, whose \<^verbatim>\<open>respond_auth\<close> may have raised: a failure of the current connection clears the challenges and is reported, another one is dropped.\<close>

definition auth_answered :: "exn option \<Rightarrow> int \<Rightarrow> auth_exchange \<Rightarrow> exn option \<times> auth_exchange" where
  "auth_answered failed now x = (case (failed, x_current x) of
      (Some e, Some (_, _, epoch)) \<Rightarrow>
        if epoch = now then (Some e, x\<lparr>x_pending := [], x_running := False, x_current := None\<rparr>) else (None, auth_run now x)
    | _ \<Rightarrow> (None, auth_run now x))"

definition auth_stopped :: "auth_exchange \<Rightarrow> auth_exchange" where
  "auth_stopped x = x\<lparr>x_running := False, x_current := None\<rparr>"

text \<open>The challenges of the current connection are put to the handler in the order of their arrival, and one of a retired connection never is.\<close>

lemma next_challenge_exact:
  "next_challenge now cs = (case filter (\<lambda>(_, _, epoch). epoch = now) cs of
     [] \<Rightarrow> (None, []) | c # _ \<Rightarrow> (Some c, tl (dropWhile (\<lambda>(_, _, epoch). epoch \<noteq> now) cs)))"
  by (induction now cs rule: next_challenge.induct) (auto split: list.splits)

lemma auth_in_order:
  assumes "x_current (auth_run now x) = Some c"
  shows "filter (\<lambda>(_, _, epoch). epoch = now) (x_pending x) = c # filter (\<lambda>(_, _, epoch). epoch = now) (x_pending (auth_run now x))"
proof -
  have "filter (\<lambda>(_, _, epoch). epoch = now) cs = d # filter (\<lambda>(_, _, epoch). epoch = now) rest" if "next_challenge now cs = (Some d, rest)" for cs d rest
    using that by (induction now cs rule: next_challenge.induct) (auto split: if_splits)
  then show ?thesis using assms by (auto simp: auth_run_def split: prod.splits option.splits)
qed

lemma retired_unanswered: "answer outcome now (packet, challenge, epoch) = Respond k reason props \<Longrightarrow> epoch = now \<and> k = challenge"
  by (cases outcome) (auto simp: answer_def split: if_splits)

end
