(* ===== verification/Effect_Pump.thy ===== *)
theory Effect_Pump
  imports Engine Writer Delivery_Queue Delivery_Lane Receipts Auth_Exchange
begin

text \<open>
  The runtime side of the engine's effects: \<^verbatim>\<open>EffectPump\<close> of \<^verbatim>\<open>src/src/mqttium/api/_effects.py\<close> and the part of \<^verbatim>\<open>AsyncClient\<close>
  (\<^verbatim>\<open>src/src/mqttium/api/async_client.py\<close>) that interprets single effects: writing frames, settling receipts, resolving the futures of callers, the
  cause of a disconnection. Pump and client refer to each other, so they are one state. The definitions are the code between two suspensions; the outcome of
  each call of the transport is the next of a list.
\<close>

subsection \<open>State\<close>

datatype 'a future = Waiting | Resolved 'a | Rejected exn

text \<open>The flusher task: not there, created, holding the lock between two effects, suspended in \<^verbatim>\<open>_apply_effect\<close>, or in the close after a failure.\<close>

datatype flusher = NoFlusher | Created | Between | Applying nat effect int | Closing

text \<open>A queued effect has a number, since the flusher compares objects. A suspended \<^verbatim>\<open>drain\<close> is its number, its target and whether \<^verbatim>\<open>progress\<close> woke it. No part of
  the program: \<open>c_sends\<close>, the frames of the effects collected for this connection, \<open>c_dropped\<close>, how many of them were dropped with their connection, and
  \<open>c_cancelled\<close>, how often the flusher was cancelled.\<close>

record client =
  c_epoch :: int
  c_engine :: engine
  c_local_failure :: "exn option"
  c_transport_open :: bool
  c_writer :: write_pump
  c_calls :: "outcome_of_write list"
  c_lane :: lane
  c_delivery :: app_delivery
  c_auth :: auth_exchange
  c_receipts :: registry
  c_batch_receipts :: registry
  c_receipt_of :: "nat \<Rightarrow> receipt"
  c_batch_of :: "nat \<Rightarrow> batch_receipt"
  c_waiter_futs :: "(nat \<times> bool) list"
  c_publish_waiters :: nat
  c_woken_publishers :: "nat list"
  c_publish_wakeups :: nat
  c_connack_fut :: "connack_packet future option"
  c_connections :: nat
  c_last_connack_reason :: "int option"
  c_sub_futs :: "int \<Rightarrow> suback_packet future option"
  c_unsub_futs :: "int \<Rightarrow> suback_packet future option"
  c_resolved :: "suback_packet list"
  c_ping_pending :: bool
  c_disconnect_exc :: "exn option"
  c_disconnect_rank :: int
  c_last_disconnect :: "(int \<times> properties option \<times> bool) option"
  pm_pending :: "(nat \<times> effect) list"
  pm_next_number :: nat
  pm_pending_epoch :: int
  pm_enqueued :: int
  pm_applied :: int
  pm_high_water :: int
  pm_progress :: bool
  pm_error :: "exn option"
  pm_next_waiter :: nat
  pm_waiters :: "(nat \<times> int \<times> bool) list"
  pm_error_waiters :: "nat list"
  pm_task :: flusher
  pm_flush_requested :: bool
  pm_draining_inline :: bool
  pm_failing_close :: bool
  pm_batches :: nat
  pm_multi_effect_batches :: nat
  pm_reordered_batches :: nat
  pm_inline_effects :: nat
  pm_apply_suspensions :: nat
  pm_observations :: nat
  c_sends :: "write_item list"
  c_dropped :: nat
  c_cancelled :: nat

subsection \<open>Kinds of effects\<close>

definition is_output :: "effect \<Rightarrow> bool" where
  "is_output e = (case e of EffSend _ \<Rightarrow> True | EffSendAck _ \<Rightarrow> True | _ \<Rightarrow> False)"

definition is_delivery :: "effect \<Rightarrow> bool" where
  "is_delivery e = (case e of EffMessage _ \<Rightarrow> True | EffContinueInboundReplay \<Rightarrow> True | _ \<Rightarrow> False)"

definition is_immediate :: "effect \<Rightarrow> bool" where
  "is_immediate e = (case e of EffAuth _ _ \<Rightarrow> True | EffConnack _ \<Rightarrow> True | EffPublishComplete _ \<Rightarrow> True | EffPublishFailed _ _ \<Rightarrow> True
     | EffSuback _ \<Rightarrow> True | EffUnsuback _ \<Rightarrow> True | EffPingresp \<Rightarrow> True | _ \<Rightarrow> False)"

definition is_early_observation :: "effect \<Rightarrow> bool" where
  "is_early_observation e = (case e of EffDisconnected _ _ _ \<Rightarrow> True | EffProtocolError _ \<Rightarrow> True | _ \<Rightarrow> False)"

definition is_terminal_publish :: "effect \<Rightarrow> bool" where
  "is_terminal_publish e = (case e of EffPublishComplete _ \<Rightarrow> True | EffPublishFailed _ _ \<Rightarrow> True | _ \<Rightarrow> False)"

text \<open>The frame of a send.\<close>

definition frame_of :: "effect \<Rightarrow> write_item" where
  "frame_of e = (case e of EffSend item \<Rightarrow> item | EffSendAck bs \<Rightarrow> Contiguous bs | _ \<Rightarrow> Contiguous [])"

definition frames :: "effect list \<Rightarrow> write_item list" where
  "frames es = map frame_of (filter is_output es)"

text \<open>\<^verbatim>\<open>_partition_effects\<close>: the loop with its four lists and the flag, and the lane it returns.\<close>

fun partition_loop :: "effect list \<Rightarrow> effect list \<Rightarrow> effect list \<Rightarrow> effect list \<Rightarrow> effect list \<Rightarrow> bool \<Rightarrow> effect list \<times> effect list \<times> effect list \<times> effect list \<times> bool" where
  "partition_loop [] sends others deliveries observed reordered = (sends, others, deliveries, observed, reordered)"
| "partition_loop (e # es) sends others deliveries observed reordered =
     (if is_output e then partition_loop es (sends @ [e]) others deliveries observed (reordered \<or> others \<noteq> [] \<or> deliveries \<noteq> [])
      else if is_delivery e then partition_loop es sends others (deliveries @ [e]) observed reordered
      else if is_immediate e then partition_loop es sends others deliveries (observed @ [e]) reordered
      else partition_loop es sends (others @ [e]) deliveries (if is_early_observation e then observed @ [e] else observed) reordered)"

definition partition_effects :: "effect list \<Rightarrow> effect list \<times> effect list \<times> effect list \<times> bool" where
  "partition_effects effects = (case partition_loop effects [] [] [] [] False of (sends, others, deliveries, observed, reordered) \<Rightarrow>
     (if reordered \<or> deliveries \<noteq> [] \<or> observed \<noteq> [] then sends @ others else effects, deliveries, observed, reordered))"

subsection \<open>The cause of a disconnection\<close>

definition CAUSE_SYNTHETIC :: int where "CAUSE_SYNTHETIC = 0"
definition CAUSE_TRANSPORT :: int where "CAUSE_TRANSPORT = 1"
definition CAUSE_BROKER :: int where "CAUSE_BROKER = 1"
definition CAUSE_PROTOCOL :: int where "CAUSE_PROTOCOL = 2"
definition CAUSE_LOCAL :: int where "CAUSE_LOCAL = 3"

definition propose_disconnect_cause :: "exn \<Rightarrow> int \<Rightarrow> client \<Rightarrow> client" where
  "propose_disconnect_cause x rank c =
     (if c_disconnect_exc c = None \<or> rank > c_disconnect_rank c then c\<lparr>c_disconnect_exc := Some x, c_disconnect_rank := rank\<rparr> else c)"

text \<open>\<^verbatim>\<open>isinstance(exc, (MalformedPacketError, ProtocolError))\<close>\<close>

definition is_peer_error :: "exn \<Rightarrow> bool" where
  "is_peer_error x = (case x of MalformedPacketError \<Rightarrow> True | ProtocolError \<Rightarrow> True | ConnectRefusedError _ \<Rightarrow> True | PublishRejectedError _ \<Rightarrow> True
     | PacketTooLargeError \<Rightarrow> True | MandatoryResponseTooLargeError \<Rightarrow> True | _ \<Rightarrow> False)"

definition fail_connack :: "exn \<Rightarrow> client \<Rightarrow> client" where
  "fail_connack x c = (if c_connack_fut c = Some Waiting then c\<lparr>c_connack_fut := Some (Rejected x)\<rparr> else c)"

definition observe_peer_error :: "exn \<Rightarrow> client \<Rightarrow> client" where
  "observe_peer_error x c = fail_connack x (propose_disconnect_cause x CAUSE_PROTOCOL c)"

definition observe_broker_disconnect :: "int \<Rightarrow> properties option \<Rightarrow> bool \<Rightarrow> client \<Rightarrow> client" where
  "observe_broker_disconnect reason props from_broker c =
     (let d = propose_disconnect_cause (if reason \<noteq> 0 then BrokerDisconnectError reason else MQTTError) CAUSE_BROKER (c\<lparr>c_last_disconnect := Some (reason, props, from_broker)\<rparr>)
      in d\<lparr>c_writer := pump_seal (c_writer d)\<rparr>)"

definition raise_protocol_effect :: "exn \<Rightarrow> client \<Rightarrow> exn \<times> client" where
  "raise_protocol_effect x c =
     (if \<not> is_peer_error x then (TypeError, c)
      else (x, if e_state (c_engine c) = DISCONNECTED then propose_disconnect_cause x CAUSE_PROTOCOL c else c))"

subsection \<open>Settling publications\<close>

text \<open>Up to \<open>n\<close> parked producers are woken; a future that was cancelled is passed over.\<close>

fun wake_publishers :: "nat \<Rightarrow> (nat \<times> bool) list \<Rightarrow> nat list \<times> (nat \<times> bool) list" where
  "wake_publishers 0 futs = ([], futs)"
| "wake_publishers n [] = ([], [])"
| "wake_publishers (Suc n) ((w, cancelled) # futs) =
     (if cancelled then wake_publishers (Suc n) futs else (let (ws, rest) = wake_publishers n futs in (w # ws, rest)))"

definition wake_publish_waiters :: "nat \<Rightarrow> client \<Rightarrow> client" where
  "wake_publish_waiters n c = (case wake_publishers n (c_waiter_futs c) of (ws, rest) \<Rightarrow>
     c\<lparr>c_waiter_futs := rest, c_woken_publishers := c_woken_publishers c @ ws, c_publish_wakeups := c_publish_wakeups c + length ws\<rparr>)"

definition settle_receipt :: "int \<Rightarrow> failure option \<Rightarrow> client \<Rightarrow> client" where
  "settle_receipt mid reason c = (case fifo_pop mid (c_receipts c) of (h, reg) \<Rightarrow>
     (let d = c\<lparr>c_receipts := reg\<rparr>
      in case h of
           None \<Rightarrow> d
         | Some k \<Rightarrow> d\<lparr>c_receipt_of := (c_receipt_of d)(k := receipt_settle (case reason of None \<Rightarrow> c_receipt_of d k | Some x \<Rightarrow> (c_receipt_of d k)\<lparr>r_error := Some x\<rparr>))\<rparr>))"

definition settle_batch :: "int \<Rightarrow> failure option \<Rightarrow> client \<Rightarrow> client" where
  "settle_batch mid reason c = (case fifo_pop mid (c_batch_receipts c) of (h, reg) \<Rightarrow>
     (let d = c\<lparr>c_batch_receipts := reg\<rparr>
      in case h of None \<Rightarrow> d | Some k \<Rightarrow> d\<lparr>c_batch_of := (c_batch_of d)(k := batch_complete mid reason (c_batch_of d k))\<rparr>))"

text \<open>The empty batch table is not looked up, which does not matter: the lookup finds nothing there.\<close>

definition settle_publish :: "int option \<Rightarrow> failure option \<Rightarrow> client \<Rightarrow> client" where
  "settle_publish mid reason c =
     (let d = (case mid of None \<Rightarrow> c | Some m \<Rightarrow> settle_batch m reason (settle_receipt m reason c))
      in if c_publish_waiters d \<noteq> 0 then wake_publish_waiters 1 d else d)"

definition settle_terminal_effect :: "effect \<Rightarrow> client \<Rightarrow> client" where
  "settle_terminal_effect e c = (case e of
      EffPublishComplete mid \<Rightarrow> settle_publish mid None c
    | EffPublishFailed mid reason \<Rightarrow> settle_publish (Some mid) (Some reason) c
    | _ \<Rightarrow> c)"

subsection \<open>Single effects\<close>

definition resolve_connack :: "connack_packet \<Rightarrow> client \<Rightarrow> client" where
  "resolve_connack p c =
     (let d = (if connack_reason p = 0 then c\<lparr>c_connections := c_connections c + 1\<rparr>
               else propose_disconnect_cause (ConnectRefusedError (connack_reason p)) CAUSE_BROKER (c\<lparr>c_last_connack_reason := Some (connack_reason p)\<rparr>))
      in if c_connack_fut d = Some Waiting then d\<lparr>c_connack_fut := Some (Resolved p)\<rparr> else d)"

text \<open>A request's future leaves the table and, unless its caller gave up, is resolved.\<close>

definition resolve_suback :: "suback_packet \<Rightarrow> client \<Rightarrow> client" where
  "resolve_suback p c = (case c_sub_futs c (sa_mid p) of
      None \<Rightarrow> c
    | Some f \<Rightarrow> c\<lparr>c_sub_futs := (c_sub_futs c)(sa_mid p := None), c_resolved := (if f = Waiting then c_resolved c @ [p] else c_resolved c)\<rparr>)"

definition resolve_unsuback :: "suback_packet \<Rightarrow> client \<Rightarrow> client" where
  "resolve_unsuback p c = (case c_unsub_futs c (sa_mid p) of
      None \<Rightarrow> c
    | Some f \<Rightarrow> c\<lparr>c_unsub_futs := (c_unsub_futs c)(sa_mid p := None), c_resolved := (if f = Waiting then c_resolved c @ [p] else c_resolved c)\<rparr>)"

definition next_call :: "client \<Rightarrow> outcome_of_write \<times> client" where
  "next_call c = (case c_calls c of [] \<Rightarrow> (Declined, c) | x # xs \<Rightarrow> (x, c\<lparr>c_calls := xs\<rparr>))"

text \<open>The writer's immediate attempt for a send; \<open>task\<close> is the task that runs.\<close>

definition try_send :: "nat \<Rightarrow> effect \<Rightarrow> int \<Rightarrow> client \<Rightarrow> bool result \<times> client" where
  "try_send task e epoch c =
     (let (call, d) = next_call c;
          (r, w) = (case e of EffSendAck bs \<Rightarrow> try_enqueue_ack call task bs (Some epoch) (c_writer d) | _ \<Rightarrow> try_enqueue call (frame_of e) (Some epoch) (c_writer d))
      in (r, d\<lparr>c_writer := w\<rparr>))"

definition drop_send :: "client \<Rightarrow> client" where
  "drop_send c = c\<lparr>c_dropped := c_dropped c + 1\<rparr>"

definition apply_immediate :: "effect \<Rightarrow> int \<Rightarrow> client \<Rightarrow> client" where
  "apply_immediate e epoch c = (case e of
      EffConnack p \<Rightarrow> resolve_connack p c
    | EffPublishComplete mid \<Rightarrow> settle_publish mid None c
    | EffPublishFailed mid reason \<Rightarrow> settle_publish (Some mid) (Some reason) c
    | EffSuback p \<Rightarrow> resolve_suback p c
    | EffUnsuback p \<Rightarrow> resolve_unsuback p c
    | EffPingresp \<Rightarrow> c\<lparr>c_ping_pending := False\<rparr>
    | EffAuth p challenge \<Rightarrow> c\<lparr>c_auth := hand_off p challenge epoch (c_auth c)\<rparr>
    | _ \<Rightarrow> c)"

definition apply_effect_inline :: "nat \<Rightarrow> effect \<Rightarrow> int \<Rightarrow> client \<Rightarrow> bool result \<times> client" where
  "apply_effect_inline task e epoch c =
     (if epoch \<noteq> c_epoch c then (Inr True, if is_output e then drop_send c else c)
      else if is_output e then
        (case try_send task e epoch c of
           (Inl x, d) \<Rightarrow> if x = StaleConnectionEffect then (Inr True, drop_send d) else (Inl x, d)
         | (Inr b, d) \<Rightarrow> (Inr b, d))
      else if is_immediate e then (Inr True, apply_immediate e epoch c)
      else case e of
             EffProtocolError x \<Rightarrow> (case raise_protocol_effect x c of (y, d) \<Rightarrow> (Inl y, d))
           | _ \<Rightarrow> (Inr False, c))"

definition apply_observation :: "effect \<Rightarrow> client \<Rightarrow> bool \<times> client" where
  "apply_observation e c =
     (if is_immediate e then (True, apply_immediate e (c_epoch c) c)
      else case e of
             EffDisconnected reason props from_broker \<Rightarrow> (False, if from_broker then observe_broker_disconnect reason props from_broker c else c)
           | EffProtocolError x \<Rightarrow> (False, if is_peer_error x then observe_peer_error x c else c)
           | _ \<Rightarrow> (False, c))"

subsection \<open>The pump\<close>

definition set_progress :: "client \<Rightarrow> client" where
  "set_progress c = (if pm_progress c then c else c\<lparr>pm_progress := True, pm_waiters := map (\<lambda>(w, target, woken). (w, target, True)) (pm_waiters c)\<rparr>)"

definition wake_drains :: "client \<Rightarrow> client" where
  "wake_drains c = (if pm_waiters c \<noteq> [] then set_progress c else c)"

definition complete_one :: "client \<Rightarrow> client" where
  "complete_one c = wake_drains (c\<lparr>pm_applied := pm_applied c + 1\<rparr>)"

text \<open>The loop of \<^verbatim>\<open>discard_connection_effects\<close>: the effects it retains, how many it discards, and the client after the settlements.\<close>

fun discard_loop :: "bool \<Rightarrow> (nat \<times> effect) list \<Rightarrow> client \<Rightarrow> (nat \<times> effect) list \<times> nat \<times> client" where
  "discard_loop settle [] c = ([], 0, c)"
| "discard_loop settle ((k, e) # es) c =
     (if \<not> is_terminal_publish e then (let (kept, n, d) = discard_loop settle es (if is_output e then drop_send c else c) in (kept, n + 1, d))
      else if \<not> settle then (let (kept, n, d) = discard_loop settle es c in ((k, e) # kept, n, d))
      else (let (kept, n, d) = discard_loop settle es (settle_terminal_effect e c) in (kept, n + 1, d)))"

definition discard_connection_effects :: "bool \<Rightarrow> client \<Rightarrow> client" where
  "discard_connection_effects settle c = (case discard_loop settle (pm_pending c) c of (kept, n, d) \<Rightarrow>
     wake_drains (d\<lparr>pm_pending := kept, pm_pending_epoch := (if kept \<noteq> [] then c_epoch d else pm_pending_epoch d), pm_applied := pm_applied d + int n\<rparr>))"

definition number_effects :: "nat \<Rightarrow> effect list \<Rightarrow> (nat \<times> effect) list" where
  "number_effects k es = zip [k ..< k + length es] es"

definition queue_effects :: "effect list \<Rightarrow> client \<Rightarrow> client" where
  "queue_effects es c =
     c\<lparr>pm_pending_epoch := (if pm_pending c = [] then c_epoch c else pm_pending_epoch c), pm_pending := pm_pending c @ number_effects (pm_next_number c) es,
       pm_next_number := pm_next_number c + length es, pm_enqueued := pm_enqueued c + int (length es)\<rparr>"

definition sample_pump_high_water :: "client \<Rightarrow> client" where
  "sample_pump_high_water c = c\<lparr>pm_high_water := max (pm_high_water c) (int (length (pm_pending c)) + lane_outstanding (c_lane c))\<rparr>"

definition collect_deliveries :: "effect list \<Rightarrow> client \<Rightarrow> client" where
  "collect_deliveries es c = c\<lparr>c_lane := lane_collect es (c_epoch c) (pm_enqueued c) (c_lane c)\<rparr>"

definition observe_single :: "effect \<Rightarrow> client \<Rightarrow> bool result \<times> client" where
  "observe_single e c =
     (if is_immediate e \<or> is_early_observation e
      then (case apply_observation e (c\<lparr>pm_observations := pm_observations c + 1\<rparr>) of (b, d) \<Rightarrow> (Inr b, d))
      else (Inr False, c))"

definition collect_single :: "nat \<Rightarrow> effect \<Rightarrow> client \<Rightarrow> bool result \<times> client" where
  "collect_single task e c =
     (if is_delivery e then (Inr True, sample_pump_high_water (collect_deliveries [e] c))
      else if pm_pending c = [] then
        (case apply_effect_inline task e (c_epoch c) c of
           (Inl x, d) \<Rightarrow> (Inl x, d)
         | (Inr True, d) \<Rightarrow> (Inr True, d\<lparr>pm_inline_effects := pm_inline_effects d + 1\<rparr>)
         | (Inr False, d) \<Rightarrow> observe_single e d)
      else observe_single e c)"

text \<open>The queueing end of \<^verbatim>\<open>collect_from_engine\<close>.\<close>

definition queue_batch :: "effect list \<Rightarrow> effect list \<Rightarrow> client \<Rightarrow> client" where
  "queue_batch es deliveries c =
     (let d = queue_effects es c in sample_pump_high_water (if deliveries \<noteq> [] then collect_deliveries deliveries d else d))"

definition collect_many :: "effect list \<Rightarrow> client \<Rightarrow> client" where
  "collect_many effects c = (case partition_effects effects of (es, deliveries, observed, reordered) \<Rightarrow>
     (let d = c\<lparr>pm_multi_effect_batches := pm_multi_effect_batches c + 1, pm_reordered_batches := pm_reordered_batches c + (if reordered then 1 else 0)\<rparr>
      in if observed \<noteq> [] then
           (let d1 = fold (\<lambda>e c. snd (apply_observation e c)) observed (d\<lparr>pm_observations := pm_observations d + length observed\<rparr>)
            in if es = [] \<and> deliveries = [] then d1 else queue_batch es deliveries d1)
         else queue_batch es deliveries d))"

definition collect_effects :: "nat \<Rightarrow> effect list \<Rightarrow> client \<Rightarrow> unit result \<times> client" where
  "collect_effects task effects c =
     (if effects = [] then (Inr (), c)
      else
        (let c1 = c\<lparr>pm_batches := pm_batches c + 1, c_sends := c_sends c @ frames effects\<rparr>;
             c2 = (if pm_pending c1 \<noteq> [] \<and> pm_pending_epoch c1 \<noteq> c_epoch c1 then discard_connection_effects False c1 else c1)
         in if pm_failing_close c2 then
              (let d = queue_effects effects c2
               in (Inr (), discard_connection_effects True (d\<lparr>pm_high_water := max (pm_high_water d) (int (length (pm_pending d)))\<rparr>)))
            else case effects of
              [e] \<Rightarrow> (case collect_single task e c2 of
                       (Inl x, d) \<Rightarrow> (Inl x, d)
                     | (Inr True, d) \<Rightarrow> (Inr (), d)
                     | (Inr False, d) \<Rightarrow> (Inr (), queue_batch [e] [] d))
            | _ \<Rightarrow> (Inr (), collect_many effects c2)))"

definition collect_from_engine :: "nat \<Rightarrow> client \<Rightarrow> unit result \<times> client" where
  "collect_from_engine task c = (case take_effects (c_engine c) of
      (Inl x, e) \<Rightarrow> (Inl x, c\<lparr>c_engine := e\<rparr>)
    | (Inr effects, e) \<Rightarrow> collect_effects task effects (c\<lparr>c_engine := e\<rparr>))"

definition pump_locked :: "client \<Rightarrow> bool" where
  "pump_locked c = (case pm_task c of NoFlusher \<Rightarrow> False | Created \<Rightarrow> False | _ \<Rightarrow> True)"

definition schedule_flush :: "client \<Rightarrow> client" where
  "schedule_flush c = c\<lparr>pm_flush_requested := True, pm_task := (if pm_task c = NoFlusher then Created else pm_task c)\<rparr>"

text \<open>The loop of \<^verbatim>\<open>drain_inline\<close> over the queue, which applying an effect does not change.\<close>

fun drain_loop :: "nat \<Rightarrow> int option \<Rightarrow> int \<Rightarrow> (nat \<times> effect) list \<Rightarrow> client \<Rightarrow> unit result \<times> client" where
  "drain_loop task target epoch [] c = (Inr (), c)"
| "drain_loop task target epoch ((k, e) # rest) c =
     (if \<not> (case target of None \<Rightarrow> True | Some t \<Rightarrow> pm_applied c < t) then (Inr (), c)
      else case apply_effect_inline task e epoch c of
             (Inl x, d) \<Rightarrow> (Inl x, d)
           | (Inr False, d) \<Rightarrow> (Inr (), d)
           | (Inr True, d) \<Rightarrow> drain_loop task target epoch rest (complete_one (d\<lparr>pm_pending := rest, pm_inline_effects := pm_inline_effects d + 1\<rparr>)))"

definition drain_inline :: "nat \<Rightarrow> int option \<Rightarrow> client \<Rightarrow> unit result \<times> client" where
  "drain_inline task target c =
     (if pm_draining_inline c \<or> pump_locked c \<or> pm_pending c = [] then (Inr (), c)
      else
        (let d = (if pm_pending_epoch c \<noteq> c_epoch c then discard_connection_effects False c else c)
         in if pm_pending d = [] then (Inr (), d)
            else case drain_loop task target (pm_pending_epoch d) (pm_pending d) (d\<lparr>pm_draining_inline := True\<rparr>) of
                   (Inl x, d1) \<Rightarrow> (Inl x, d1\<lparr>pm_draining_inline := False\<rparr>)
                 | (Inr _, d1) \<Rightarrow> (let d2 = d1\<lparr>pm_draining_inline := False\<rparr> in (Inr (), if pm_pending d2 \<noteq> [] then schedule_flush d2 else d2))))"

subsection \<open>The flusher\<close>

text \<open>The task takes the lock and the loop of \<^verbatim>\<open>_run_scheduled\<close> begins.\<close>

definition flush_start :: "client \<Rightarrow> client" where
  "flush_start c = c\<lparr>pm_task := Between, pm_flush_requested := False\<rparr>"

text \<open>The callback at the end of the task; \<open>failed\<close> when the task ended with an exception that is not a cancellation.\<close>

definition flusher_done :: "bool \<Rightarrow> client \<Rightarrow> client" where
  "flusher_done failed c =
     (let d = c\<lparr>pm_task := NoFlusher\<rparr>;
          d1 = (if failed \<and> pm_pending d = [] \<and> pm_error_waiters d = [] then d\<lparr>pm_error := None\<rparr> else d)
      in if pm_flush_requested d1 \<and> pm_pending d1 \<noteq> [] then schedule_flush d1 else d1)"

definition pop_applied :: "nat \<Rightarrow> client \<Rightarrow> client" where
  "pop_applied k c = (case pm_pending c of [] \<Rightarrow> c | (j, e) # rest \<Rightarrow> if j = k then complete_one (c\<lparr>pm_pending := rest\<rparr>) else c)"

text \<open>\<^verbatim>\<open>_fail_connection\<close> up to the close of the transport, and what follows it, \<open>raised\<close> when the close raised.\<close>

definition fail_connection :: "exn \<Rightarrow> client \<Rightarrow> client" where
  "fail_connection x c =
     (let owners = map fst (filter (\<lambda>(w, target, woken). target \<ge> pm_applied c) (pm_waiters c));
          d = (if owners \<noteq> [] then set_progress (c\<lparr>pm_error := Some x, pm_error_waiters := owners\<rparr>) else c);
          d1 = propose_disconnect_cause x CAUSE_TRANSPORT (fail_connack x d)
      in (discard_connection_effects True (d1\<lparr>pm_failing_close := True\<rparr>))\<lparr>pm_task := Closing\<rparr>)"

definition fail_closed :: "bool \<Rightarrow> client \<Rightarrow> client" where
  "fail_closed raised c = (let d = (if pm_pending c \<noteq> [] then discard_connection_effects True c else c) in flusher_done raised (d\<lparr>pm_failing_close := False\<rparr>))"

text \<open>\<^verbatim>\<open>_apply_effect\<close>: done, failed, or suspended.\<close>

datatype applied = Done | FailedWith exn | Pending

definition apply_send :: "nat \<Rightarrow> effect \<Rightarrow> int \<Rightarrow> client \<Rightarrow> applied \<times> client" where
  "apply_send task e epoch c =
     (case try_send task e epoch c of
        (Inl x, d) \<Rightarrow> if x = StaleConnectionEffect then (Done, drop_send d) else (FailedWith x, d)
      | (Inr True, d) \<Rightarrow> (Done, d)
      | (Inr False, d) \<Rightarrow>
          (case park False (frame_of e) epoch (c_writer d) of
             (Inl x, w) \<Rightarrow> if x = StaleConnectionEffect then (Done, drop_send (d\<lparr>c_writer := w\<rparr>)) else (FailedWith x, d\<lparr>c_writer := w\<rparr>)
           | (Inr True, w) \<Rightarrow> (Done, d\<lparr>c_writer := w\<rparr>)
           | (Inr False, w) \<Rightarrow> (Pending, d\<lparr>c_writer := w\<rparr>)))"

definition apply_effect :: "nat \<Rightarrow> effect \<Rightarrow> int \<Rightarrow> client \<Rightarrow> applied \<times> client" where
  "apply_effect task e epoch c =
     (if is_output e then apply_send task e epoch c
      else if is_immediate e then (Done, apply_immediate e (c_epoch c) c)
      else case e of
             EffDisconnected reason props from_broker \<Rightarrow>
               (let d = c\<lparr>c_last_disconnect := Some (reason, props, from_broker)\<rparr>;
                    d1 = (if from_broker then observe_broker_disconnect reason props from_broker d else d)
                in (if c_transport_open d1 then Pending else Done, d1))
           | EffProtocolError x \<Rightarrow> (case raise_protocol_effect x c of (y, d) \<Rightarrow> (FailedWith y, d))
           | _ \<Rightarrow> (FailedWith MQTTError, c))"

definition flush_next :: "nat \<Rightarrow> client \<Rightarrow> client" where
  "flush_next task c = (case pm_pending c of
      [] \<Rightarrow> if pm_flush_requested c then c\<lparr>pm_flush_requested := False\<rparr> else flusher_done False c
    | (k, e) # rest \<Rightarrow>
        if pm_pending_epoch c \<noteq> c_epoch c then discard_connection_effects False c
        else case apply_effect task e (pm_pending_epoch c) c of
               (Done, d) \<Rightarrow> pop_applied k d
             | (FailedWith x, d) \<Rightarrow> fail_connection x (pop_applied k d)
             | (Pending, d) \<Rightarrow> d\<lparr>pm_task := Applying k e (pm_pending_epoch c)\<rparr>)"

text \<open>A suspended send is woken in the writer at position \<open>i\<close> of its waiting producers; a suspended disconnection has closed the transport.\<close>

definition flush_wake :: "nat \<Rightarrow> client \<Rightarrow> client" where
  "flush_wake i c = (case pm_task c of
      Applying k e epoch \<Rightarrow>
        (if is_output e then
           (case wake i (c_writer c) of
              (Inl x, w) \<Rightarrow> if x = StaleConnectionEffect then (pop_applied k (drop_send (c\<lparr>c_writer := w\<rparr>)))\<lparr>pm_task := Between\<rparr>
                           else fail_connection x (pop_applied k (c\<lparr>c_writer := w\<rparr>))
            | (Inr True, w) \<Rightarrow> (pop_applied k (c\<lparr>c_writer := w\<rparr>))\<lparr>pm_task := Between\<rparr>
            | (Inr False, w) \<Rightarrow> c\<lparr>c_writer := w\<rparr>)
         else (pop_applied k (c\<lparr>c_transport_open := False\<rparr>))\<lparr>pm_task := Between\<rparr>)
    | _ \<Rightarrow> c)"

text \<open>The task is cancelled by its owner while it is suspended: the effect stays queued.\<close>

definition flush_cancelled :: "nat \<Rightarrow> client \<Rightarrow> client" where
  "flush_cancelled i c = (case pm_task c of
      Applying k e epoch \<Rightarrow>
        flusher_done False (if is_output e then c\<lparr>c_writer := unpark_at i (c_writer c), c_cancelled := c_cancelled c + 1\<rparr> else c\<lparr>c_cancelled := c_cancelled c + 1\<rparr>)
    | _ \<Rightarrow> flusher_done False (c\<lparr>c_cancelled := c_cancelled c + 1\<rparr>))"

subsection \<open>Waiting for progress\<close>

definition pump_settled :: "int option \<Rightarrow> client \<Rightarrow> bool" where
  "pump_settled target c \<longleftrightarrow> pm_pending c = [] \<and> pm_applied c \<ge> (case target of None \<Rightarrow> pm_enqueued c | Some t \<Rightarrow> t)"

text \<open>The \<^verbatim>\<open>finally\<close> clause of \<^verbatim>\<open>drain\<close>.\<close>

definition leave_drain :: "nat \<Rightarrow> client \<Rightarrow> client" where
  "leave_drain w c =
     (let d = c\<lparr>pm_error_waiters := filter (\<lambda>v. v \<noteq> w) (pm_error_waiters c), pm_waiters := filter (\<lambda>(v, _, _). v \<noteq> w) (pm_waiters c)\<rparr>
      in if pm_error d \<noteq> None \<and> pm_error_waiters d = [] then d\<lparr>pm_error := None\<rparr> else d)"

text \<open>One turn of the loop of \<^verbatim>\<open>drain\<close> for the waiter \<open>w\<close>: \<open>Inr True\<close> when it returns, \<open>Inr False\<close> when it suspends.\<close>

definition drain_turn :: "nat \<Rightarrow> int \<Rightarrow> client \<Rightarrow> bool result \<times> client" where
  "drain_turn w target c =
     (if w \<in> set (pm_error_waiters c) then
        (case pm_error c of None \<Rightarrow> (Inl AssertionError, leave_drain w c) | Some x \<Rightarrow> (Inl x, leave_drain w c))
      else if pm_applied c \<ge> target then (Inr True, leave_drain w c)
      else (Inr False, schedule_flush (c\<lparr>pm_progress := False, pm_waiters := map (\<lambda>(v, t, woken). (v, t, if v = w then False else woken)) (pm_waiters c)\<rparr>)))"

definition pump_drain :: "nat \<Rightarrow> bool \<Rightarrow> int option \<Rightarrow> client \<Rightarrow> bool result \<times> client" where
  "pump_drain task nowait target c =
     (case drain_inline task target c of
        (Inl x, d) \<Rightarrow> (Inl x, d)
      | (Inr _, d) \<Rightarrow>
          if nowait then (Inr True, if pm_pending d \<noteq> [] then schedule_flush d else d)
          else
            (let t = (case target of None \<Rightarrow> pm_enqueued d | Some n \<Rightarrow> n)
             in if pm_applied d \<ge> t then (Inr True, d)
                else
                  (let w = pm_next_waiter d
                   in drain_turn w t (d\<lparr>pm_next_waiter := w + 1, pm_waiters := pm_waiters d @ [(w, t, False)], pm_apply_suspensions := pm_apply_suspensions d + 1\<rparr>))))"

subsection \<open>Retiring a connection\<close>

definition retire_connection_epoch :: "client \<Rightarrow> client" where
  "retire_connection_epoch c =
     (let epoch = c_epoch c + 1
      in c\<lparr>c_epoch := epoch, c_lane := lane_discard (c_lane c), c_delivery := invalidate_waiting_admissions (c_delivery c), c_writer := set_epoch epoch (c_writer c)\<rparr>)"

subsection \<open>Deliveries\<close>

definition latch_local_failure :: "exn \<Rightarrow> client \<Rightarrow> client" where
  "latch_local_failure x c = (if c_local_failure c = None then c\<lparr>c_local_failure := Some x\<rparr> else c)"

text \<open>A failure of the engine or its store while a delivery is recorded retires the session at once.\<close>

definition fail_engine :: "exn \<Rightarrow> client \<Rightarrow> client" where
  "fail_engine x c = (let d = latch_local_failure x c in d\<lparr>c_engine := snd (notify_transport_closed (c_engine d))\<rparr>)"

definition mark_delivered_locked :: "int \<Rightarrow> nat option \<Rightarrow> client \<Rightarrow> unit result \<times> client" where
  "mark_delivered_locked mid token c = (case mark_delivered mid token (c_engine c) of
      (Inr _, e) \<Rightarrow> (Inr (), c\<lparr>c_engine := e\<rparr>)
    | (Inl x, e) \<Rightarrow> (Inl x, fail_engine x (c\<lparr>c_engine := e\<rparr>)))"

text \<open>\<^verbatim>\<open>_continue_inbound_replay\<close>, which the marker behind a replayed lot calls.\<close>

definition client_continue_replay :: "nat \<Rightarrow> int \<Rightarrow> client \<Rightarrow> unit result \<times> client" where
  "client_continue_replay task epoch c =
     (if epoch \<noteq> c_epoch c then (Inr (), c)
      else case continue_inbound_replay (c_engine c) of
             (Inl x, e) \<Rightarrow> (Inl x, fail_engine x (c\<lparr>c_engine := e\<rparr>))
           | (Inr _, e) \<Rightarrow> collect_from_engine task (c\<lparr>c_engine := e\<rparr>))"

text \<open>What \<^verbatim>\<open>_apply_delivery_effect\<close> returns: nothing, the fairness yield, an admission to await (with the mark it owes), or the continuation of the replay.\<close>

datatype delivery_work =
    NoWork
  | YieldWork
  | AdmissionWork message "nat option" "int option" nat "(int \<times> nat option) option"
  | ReplayWork

definition apply_delivery_effect :: "callback_target \<Rightarrow> effect \<Rightarrow> client \<Rightarrow> delivery_work result \<times> client" where
  "apply_delivery_effect callback e c = (case e of
      EffMessage m \<Rightarrow>
        (case delivery_accept (d_message m) callback (d_wire_size m) (c_delivery c) of
           (Inl x, d) \<Rightarrow> (Inl x, c\<lparr>c_delivery := d\<rparr>)
         | (Inr accepted, d) \<Rightarrow>
             (let c1 = c\<lparr>c_delivery := d\<rparr>;
                  owed = (if d_mark m then map_option (\<lambda>mid. (mid, d_exchange m)) (msg_mid (d_message m)) else None)
              in case accepted of
                   Waits n g \<Rightarrow> (Inr (AdmissionWork (d_message m) (d_wire_size m) n g owed), c1)
                 | _ \<Rightarrow>
                     (let work = (case accepted of FairnessYield \<Rightarrow> YieldWork | _ \<Rightarrow> NoWork)
                      in case owed of
                           None \<Rightarrow> (Inr work, c1)
                         | Some (mid, token) \<Rightarrow> (case mark_delivered_locked mid token c1 of (Inl x, c2) \<Rightarrow> (Inl x, c2) | (Inr _, c2) \<Rightarrow> (Inr work, c2)))))
    | EffContinueInboundReplay \<Rightarrow> (Inr ReplayWork, c)
    | _ \<Rightarrow> (Inl MQTTError, c))"

text \<open>After the admission: \<^verbatim>\<open>_admit_acknowledged\<close> commits a message whose admission was retired, \<^verbatim>\<open>_mark_after_admission\<close> marks one that was committed.\<close>

definition finish_admission :: "message \<Rightarrow> nat option \<Rightarrow> (int \<times> nat option) option \<Rightarrow> bool \<Rightarrow> client \<Rightarrow> unit result \<times> client" where
  "finish_admission m wire owed committed c = (case owed of
      None \<Rightarrow>
        if \<not> committed then (case deliver_acknowledged m None wire (c_delivery c) of (r, d) \<Rightarrow> (r, c\<lparr>c_delivery := d\<rparr>))
        else (Inr (), c)
    | Some (mid, token) \<Rightarrow> if committed then mark_delivered_locked mid token c else (Inr (), c))"

text \<open>The two coroutines between suspensions: \<open>Inr False\<close> when the admission suspends, \<open>Inr True\<close> when the delivery is over. The first turn is the call, the next
  ones resume the waiting admission at position \<open>i\<close>.\<close>

definition after_turn :: "message \<Rightarrow> nat option \<Rightarrow> (int \<times> nat option) option \<Rightarrow> bool option result \<times> app_delivery \<Rightarrow> client \<Rightarrow> bool result \<times> client" where
  "after_turn m wire owed turn c = (case turn of
      (Inl x, d) \<Rightarrow> (Inl x, c\<lparr>c_delivery := d\<rparr>)
    | (Inr None, d) \<Rightarrow> (Inr False, c\<lparr>c_delivery := d\<rparr>)
    | (Inr (Some committed), d) \<Rightarrow>
        (case finish_admission m wire owed committed (c\<lparr>c_delivery := d\<rparr>) of (Inl x, c1) \<Rightarrow> (Inl x, c1) | (Inr _, c1) \<Rightarrow> (Inr True, c1)))"

definition await_admission :: "message \<Rightarrow> nat option \<Rightarrow> int option \<Rightarrow> nat \<Rightarrow> (int \<times> nat option) option \<Rightarrow> client \<Rightarrow> bool result \<times> client" where
  "await_admission m wire amount generation owed c = after_turn m wire owed (admission_turn m amount generation (c_delivery c)) c"

definition resume_delivery :: "nat \<Rightarrow> nat option \<Rightarrow> (int \<times> nat option) option \<Rightarrow> client \<Rightarrow> bool result \<times> client" where
  "resume_delivery i wire owed c = after_turn (w_message (a_parked (c_delivery c) ! i)) wire owed (resume_admission i (c_delivery c)) c"

definition flush_released_completions :: "nat \<Rightarrow> client \<Rightarrow> unit result \<times> client" where
  "flush_released_completions task c =
     (if has_pending_effects (c_engine c) then
        (case collect_from_engine task c of (Inl x, d) \<Rightarrow> (Inl x, d) | (Inr _, d) \<Rightarrow> drain_inline task None d)
      else (Inr (), c))"

text \<open>\<^verbatim>\<open>_flush_delivery_carryover\<close>; \<open>callback\<close> gives the outcomes of the callbacks for each message.\<close>

fun deliver_carried :: "(effect \<Rightarrow> callback_target) \<Rightarrow> effect list \<Rightarrow> app_delivery \<Rightarrow> unit result \<times> app_delivery" where
  "deliver_carried callback [] d = (Inr (), d)"
| "deliver_carried callback (EffMessage m # es) d =
     (case deliver_acknowledged (d_message m) (callback (EffMessage m)) (d_wire_size m) d of (Inl x, d1) \<Rightarrow> (Inl x, d1) | (Inr _, d1) \<Rightarrow> deliver_carried callback es d1)"
| "deliver_carried callback (e # es) d = deliver_carried callback es d"

definition flush_delivery_carryover :: "(effect \<Rightarrow> callback_target) \<Rightarrow> client \<Rightarrow> unit result \<times> client" where
  "flush_delivery_carryover callback c =
     (if l_carryover (c_lane c) = [] then (Inr (), c)
      else case take_carryover (c_lane c) of (carried, l) \<Rightarrow>
             (case deliver_carried callback carried (c_delivery c) of (r, d) \<Rightarrow> (r, c\<lparr>c_lane := l, c_delivery := d\<rparr>)))"

end
