(* ===== verification/Writer_Inv.thy ===== *)
theory Writer_Inv
  imports Writer
begin

text \<open>
  The writer as a transition system: whatever the interleaving of producers, callbacks, the writer task and the lifecycle calls, the transport is given the
  admitted frames in order, each whole before the next, and the accounting is exact.
\<close>

definition flat :: "write_item list \<Rightarrow> bytes" where
  "flat items = concat (map item_bytes_out items)"

definition bytes_of :: "write_item list \<Rightarrow> int" where
  "bytes_of items = sum_list (map (\<lambda>item. int (item_size item)) items)"

lemma flat_simps [simp]: "flat [] = []" "flat (x # xs) = item_bytes_out x @ flat xs" "flat (xs @ ys) = flat xs @ flat ys"
  by (simp_all add: flat_def)

lemma bytes_of_simps [simp]: "bytes_of [] = 0" "bytes_of (x # xs) = int (item_size x) + bytes_of xs" "bytes_of (xs @ ys) = bytes_of xs + bytes_of ys"
  by (simp_all add: bytes_of_def)

lemma bytes_of_flat: "bytes_of xs = int (length (flat xs))"
  by (induction xs) (simp_all add: item_size_out)

definition positive :: "write_item list \<Rightarrow> bool" where
  "positive items \<longleftrightarrow> (\<forall>item \<in> set items. 0 < item_size item)"

lemma positive_simps [simp]: "positive []" "positive (x # xs) \<longleftrightarrow> 0 < item_size x \<and> positive xs" "positive (xs @ ys) \<longleftrightarrow> positive xs \<and> positive ys"
  by (auto simp: positive_def)

lemma positive_sub: "positive xs \<Longrightarrow> set ys \<subseteq> set xs \<Longrightarrow> positive ys"
  by (auto simp: positive_def)

text \<open>The client opens a connection with \<^verbatim>\<open>reset\<close> and \<^verbatim>\<open>start\<close> in one go, and discards only after the task has ended. A frame is never empty.\<close>

inductive pump_step :: "write_pump \<Rightarrow> write_pump \<Rightarrow> bool" where
  Open: "pump_start offers (pump_reset p) = (Inr (), q) \<Longrightarrow> pump_step p q"
| Enqueue: "0 < item_size item \<Longrightarrow> try_enqueue call item epoch p = (r, q) \<Longrightarrow> pump_step p q"
| Terminal: "0 < item_size item \<Longrightarrow> try_enqueue_terminal call item n p = (r, q) \<Longrightarrow> pump_step p q"
| Ack: "bs \<noteq> [] \<Longrightarrow> try_enqueue_ack call task bs epoch p = (r, q) \<Longrightarrow> pump_step p q"
| Park: "0 < item_size item \<Longrightarrow> park nowait item n p = (r, q) \<Longrightarrow> pump_step p q"
| Wake: "i < length (p_parked p) \<Longrightarrow> wake i p = (r, q) \<Longrightarrow> pump_step p q"
| Cancel: "i < length (p_parked p) \<Longrightarrow> pump_step p (unpark_at i p)"
| Flush: "try_flush_latency_batch call p = (r, q) \<Longrightarrow> pump_step p q"
| Callback: "g \<in> set (p_callbacks p) \<Longrightarrow> pump_step p (rearm_eager_if_idle g (p\<lparr>p_callbacks := remove1 g (p_callbacks p)\<rparr>))"
| Rearm: "pump_step p (rearm_deferred_ack p)"
| Own: "pump_step p (own_ack_rearm task p)"
| Take: "p_running p \<Longrightarrow> p_batch p = [] \<Longrightarrow> p_queue p \<noteq> [] \<Longrightarrow> pump_step p (take_batch p)"
| Write: "p_batch p \<noteq> [] \<Longrightarrow> p_todo p \<noteq> [] \<Longrightarrow> pump_step p (write_next p)"
| Complete: "p_batch p \<noteq> [] \<Longrightarrow> p_todo p = [] \<Longrightarrow> p_latency_failure p = None \<Longrightarrow> complete_batch p = (r, q) \<Longrightarrow> pump_step p q"
| Fail: "p_batch p \<noteq> [] \<Longrightarrow> fail_batch n p = (r, q) \<Longrightarrow> pump_step p q"
| Stop: "pump_step p (stop_begin p)"
| Stopped: "p_running p \<Longrightarrow> \<not> p_nowait p \<Longrightarrow> stop_end n p = (r, q) \<Longrightarrow> pump_step p q"
| Discard: "\<not> p_running p \<Longrightarrow> pump_discard p = (r, q) \<Longrightarrow> pump_step p q"
| Seal: "pump_step p (pump_seal p)"
| Epoch: "pump_step p (set_epoch n p)"

subsection \<open>The invariant\<close>

definition todo_bytes :: "write_pump \<Rightarrow> bytes" where
  "todo_bytes p = concat (map call_bytes (p_todo p))"

text \<open>While the writer is healthy nothing is lost: what was written, what it is writing and what is queued are the admitted frames.\<close>

definition wire_ok :: "write_pump \<Rightarrow> bool" where
  "wire_ok p \<longleftrightarrow>
     (if p_running p \<and> p_latency_failure p = None then p_wire p @ todo_bytes p @ flat (p_queue p) = flat (p_admitted p)
      else (\<exists>rest. p_wire p @ rest = flat (p_admitted p)))"

definition pump_inv :: "write_pump \<Rightarrow> bool" where
  "pump_inv p \<longleftrightarrow>
     p_resident p = int (length (p_queue p) + length (p_batch p)) \<and> p_unfinished p = p_resident p
   \<and> p_queued_bytes p = bytes_of (p_queue p) + bytes_of (p_batch p)
   \<and> (p_batch p \<noteq> [] \<longrightarrow> p_writing p \<and> p_running p) \<and> (p_batch p = [] \<longrightarrow> \<not> p_writing p \<and> p_todo p = [])
   \<and> (p_nowait p \<longrightarrow> p_running p \<and> p_latency_failure p = None) \<and> (p_latency_failure p \<noteq> None \<longrightarrow> p_todo p = [])
   \<and> wire_ok p \<and> positive (p_queue p @ p_batch p @ map fst (p_parked p))
   \<and> (1 \<le> p_max_messages p \<longrightarrow> p_resident p \<le> p_max_messages p) \<and> (p_queued_bytes p \<le> p_max_bytes p \<or> p_resident p \<le> 1)"

lemma pump_invD:
  assumes "pump_inv p"
  shows "p_resident p = int (length (p_queue p) + length (p_batch p))" "p_unfinished p = p_resident p"
    "p_queued_bytes p = bytes_of (p_queue p) + bytes_of (p_batch p)"
    "p_batch p \<noteq> [] \<Longrightarrow> p_writing p \<and> p_running p" "p_batch p = [] \<Longrightarrow> \<not> p_writing p \<and> p_todo p = []"
    "p_nowait p \<Longrightarrow> p_running p \<and> p_latency_failure p = None" "p_latency_failure p \<noteq> None \<Longrightarrow> p_todo p = []"
    "p_running p \<Longrightarrow> p_latency_failure p = None \<Longrightarrow> p_wire p @ todo_bytes p @ flat (p_queue p) = flat (p_admitted p)"
    "\<exists>rest. p_wire p @ rest = flat (p_admitted p)"
    "positive (p_queue p @ p_batch p @ map fst (p_parked p))"
    "1 \<le> p_max_messages p \<Longrightarrow> p_resident p \<le> p_max_messages p" "p_queued_bytes p \<le> p_max_bytes p \<or> p_resident p \<le> 1"
  using assms by (auto simp: pump_inv_def wire_ok_def split: if_splits)

lemma batch_calls_bytes: "concat (map call_bytes (batch_calls contiguous items)) = concat contiguous @ flat items"
  by (induction contiguous items rule: batch_calls.induct) (auto simp: call_bytes_def item_bytes_out_def)

text \<open>What does not matter to the invariant: permits, high-water marks, counters, epochs and the seal.\<close>

definition same_core :: "write_pump \<Rightarrow> write_pump \<Rightarrow> bool" where
  "same_core p q \<longleftrightarrow> p_queue q = p_queue p \<and> p_unfinished q = p_unfinished p \<and> p_queued_bytes q = p_queued_bytes p \<and> p_resident q = p_resident p
     \<and> p_batch q = p_batch p \<and> p_todo q = p_todo p \<and> p_writing q = p_writing p \<and> p_running q = p_running p \<and> p_latency_failure q = p_latency_failure p
     \<and> p_wire q = p_wire p \<and> p_admitted q = p_admitted p \<and> set (map fst (p_parked q)) \<subseteq> set (map fst (p_parked p))
     \<and> p_max_messages q = p_max_messages p \<and> p_max_bytes q = p_max_bytes p \<and> (p_nowait q \<longrightarrow> p_nowait p)"

lemma inv_same_core:
  assumes inv: "pump_inv p" and same: "same_core p q"
  shows "pump_inv q"
proof -
  have eqs: "p_queue q = p_queue p" "p_unfinished q = p_unfinished p" "p_queued_bytes q = p_queued_bytes p" "p_resident q = p_resident p"
      "p_batch q = p_batch p" "p_todo q = p_todo p" "p_writing q = p_writing p" "p_running q = p_running p" "p_latency_failure q = p_latency_failure p"
      "p_max_messages q = p_max_messages p" "p_max_bytes q = p_max_bytes p" "wire_ok q = wire_ok p"
    using same by (simp_all add: same_core_def wire_ok_def todo_bytes_def)
  have "positive (map fst (p_parked q))" "p_nowait q \<longrightarrow> p_nowait p"
    using same inv positive_sub [of "map fst (p_parked p)" "map fst (p_parked q)"] by (simp_all add: same_core_def pump_inv_def)
  with inv show ?thesis unfolding pump_inv_def eqs positive_simps by blast
qed

lemma permits_same_core:
  "same_core p (sample_high_water n p)" "same_core p (drop_eager_binding p)" "same_core p (own_ack_rearm task p)" "same_core p (rearm_deferred_ack p)"
  "same_core p (rearm_eager_if_idle g p)" "same_core p (schedule_eager_rearm p)" "same_core p (writer_idle p)" "same_core p (pump_seal p)"
  "same_core p (set_epoch e p)" "same_core p (count_eager bs p)" "same_core p (unpark_at i p)" "same_core p (p\<lparr>p_callbacks := cs\<rparr>)"
  by (auto simp: same_core_def sample_high_water_def drop_eager_binding_def own_ack_rearm_def rearm_deferred_ack_def rearm_eager_if_idle_def schedule_eager_rearm_def
      writer_idle_def pump_seal_def set_epoch_def count_eager_def unpark_at_def Let_def dest: in_set_takeD in_set_dropD)

lemma permits_inv:
  assumes "pump_inv p"
  shows "pump_inv (sample_high_water n p)" "pump_inv (drop_eager_binding p)" "pump_inv (own_ack_rearm task p)" "pump_inv (rearm_deferred_ack p)"
    "pump_inv (rearm_eager_if_idle g p)" "pump_inv (schedule_eager_rearm p)" "pump_inv (writer_idle p)" "pump_inv (pump_seal p)"
    "pump_inv (set_epoch e p)" "pump_inv (count_eager bs p)" "pump_inv (unpark_at i p)" "pump_inv (p\<lparr>p_callbacks := cs\<rparr>)"
  using inv_same_core [OF assms] permits_same_core by blast+

subsection \<open>Admission\<close>

lemma room_for:
  assumes "pump_inv p" "can_enqueue_size n p"
  shows "1 \<le> p_max_messages p \<longrightarrow> p_resident p < p_max_messages p" "p_queued_bytes p + n \<le> p_max_bytes p \<or> p_resident p = 0"
  using assms by (auto simp: can_enqueue_size_def split: if_splits)

lemma room_after_wait:
  assumes "pump_inv p" "enqueue_after_wait item n p = (Inr True, q)"
  shows "p_latency_failure p = None" "q = queue_frame item p" "1 \<le> p_max_messages p \<longrightarrow> p_resident p < p_max_messages p"
    "p_queued_bytes p + int (item_size item) \<le> p_max_bytes p \<or> p_resident p = 0"
proof -
  note D = pump_invD [OF assms(1)]
  have pos: "0 < bytes_of xs" if "xs \<noteq> []" "positive xs" for xs
    using that bytes_of_flat [of "tl xs"] by (cases xs) auto
  have free: "p_resident p = 0" if "p_queue p = []" "p_queued_bytes p = 0"
    using that D(1,3) D(10) pos [of "p_batch p"] by (cases "p_batch p = []") auto
  show "p_latency_failure p = None" "q = queue_frame item p" "1 \<le> p_max_messages p \<longrightarrow> p_resident p < p_max_messages p"
    "p_queued_bytes p + int (item_size item) \<le> p_max_bytes p \<or> p_resident p = 0"
    using assms(2) free by (auto simp: enqueue_after_wait_def stale_def Let_def split: if_splits)
qed

lemma queue_frame_inv:
  assumes inv: "pump_inv p" and "0 < item_size item" "p_latency_failure p = None" "1 \<le> p_max_messages p \<longrightarrow> p_resident p < p_max_messages p"
    "p_queued_bytes p + int (item_size item) \<le> p_max_bytes p \<or> p_resident p = 0"
  shows "pump_inv (queue_frame item p)"
proof -
  note D = pump_invD [OF inv]
  obtain rest where rest: "p_wire p @ rest = flat (p_admitted p)" using D(9) by blast
  then have "\<exists>r. p_wire p @ r = flat (p_admitted p) @ item_bytes_out item" by (intro exI [of _ "rest @ item_bytes_out item"]) (simp flip: rest)
  moreover have "p_wire p @ todo_bytes p @ flat (p_queue p) @ item_bytes_out item = flat (p_admitted p) @ item_bytes_out item" if "p_running p"
    using D(8) [OF that assms(3)] by (metis append.assoc)
  ultimately show ?thesis
    using D(1-6) D(10) assms(2-5) unfolding pump_inv_def wire_ok_def queue_frame_def put_frame_def admit_queued_def exposes_def
    by (auto simp: todo_bytes_def split: if_splits)
qed

lemma eager_inv:
  assumes inv: "pump_inv p" and idle: "p_nowait p" "\<not> p_writing p" "p_queue p = []" and bs: "bs \<noteq> []" and room: "1 \<le> p_max_messages p \<longrightarrow> p_resident p < p_max_messages p"
  shows "pump_inv (exposes bs [Contiguous bs] p)" "pump_inv (retain_failed_eager (Contiguous bs) x (exposes (take n bs) [Contiguous bs] p))"
proof -
  note D = pump_invD [OF inv]
  have state: "p_batch p = []" "p_todo p = []" "p_running p" "p_latency_failure p = None" using D(4-6) idle by auto
  have wire: "p_wire p = flat (p_admitted p)" using D(8) [OF state(3,4)] state idle by (simp add: todo_bytes_def)
  have "\<exists>r. take n bs @ r = bs" by (rule exI [of _ "drop n bs"]) simp
  then show "pump_inv (exposes bs [Contiguous bs] p)" "pump_inv (retain_failed_eager (Contiguous bs) x (exposes (take n bs) [Contiguous bs] p))"
    using D(1-3,5,10,11,12) state wire idle bs room
    by (simp_all add: pump_inv_def wire_ok_def exposes_def retain_failed_eager_def fence_eager_failure_def drop_eager_binding_def put_frame_def admit_queued_def Let_def todo_bytes_def
        item_bytes_out_def item_size_def)
qed

lemma data_eager_inv:
  assumes "pump_inv p" "try_write_data_eager call item p = (r, q)" "0 < item_size item" "1 \<le> p_max_messages p \<longrightarrow> p_resident p < p_max_messages p"
  shows "pump_inv q" "r = Inr False \<Longrightarrow> q = p"
proof -
  show "r = Inr False \<Longrightarrow> q = p" using assms(2) by (auto simp: try_write_data_eager_def split: write_item.splits if_splits outcome_of_write.splits)
  show "pump_inv q"
  proof (cases item)
    case (Contiguous bs)
    with assms(3) have "bs \<noteq> []" by (auto simp: item_size_def)
    note E = eager_inv [OF assms(1) _ _ _ this assms(4)]
    have "pump_inv ((exposes bs [Contiguous bs] p)\<lparr>p_eager_armed := False\<rparr>)" if "p_nowait p" "\<not> p_writing p" "p_queue p = []"
      by (rule inv_same_core [OF E(1) [OF that]]) (simp add: same_core_def)
    with E(2) assms(1,2) show ?thesis
      by (auto simp: try_write_data_eager_def Contiguous intro: permits_inv split: if_splits outcome_of_write.splits)
  next
    case (Segmented h b)
    with assms(1,2) show ?thesis by (simp add: try_write_data_eager_def)
  qed
qed

lemma ack_eager_inv:
  assumes "pump_inv p" "try_write_ack_eager call task bs p = (r, q)" "bs \<noteq> []" "1 \<le> p_max_messages p \<longrightarrow> p_resident p < p_max_messages p"
  shows "pump_inv q" "r = Inr False \<Longrightarrow> q = p"
proof -
  show "r = Inr False \<Longrightarrow> q = p" using assms(2) by (auto simp: try_write_ack_eager_def Let_def split: if_splits outcome_of_write.splits)
  note E = eager_inv [OF assms(1) _ _ _ assms(3,4)]
  have "pump_inv ((exposes bs [Contiguous bs] p)\<lparr>p_ack_eager_armed := False\<rparr>)" "pump_inv ((exposes bs [Contiguous bs] p)\<lparr>p_ack_eager_armed := False, p_ack_deferred := True\<rparr>)"
    if "p_nowait p" "\<not> p_writing p" "p_queue p = []"
    by (rule inv_same_core [OF E(1) [OF that]]; simp add: same_core_def)+
  with E(2) assms(1,2) show "pump_inv q"
    by (auto simp: try_write_ack_eager_def Let_def intro: permits_inv split: if_splits outcome_of_write.splits)
qed

lemma try_enqueue_inv:
  assumes inv: "pump_inv p" and run: "try_enqueue call item epoch p = (r, q)" and pos: "0 < item_size item"
  shows "pump_inv q"
proof (cases "stale (case epoch of None \<Rightarrow> p_epoch p | Some n \<Rightarrow> n) p \<or> \<not> can_enqueue_size (int (item_size item)) p")
  case True
  then show ?thesis using inv run by (auto simp: try_enqueue_def Let_def split: if_splits)
next
  case False
  note room = room_for [OF inv] and lat = False
  obtain r1 q1 where e: "try_write_data_eager call item p = (r1, q1)" by fastforce
  have q1: "pump_inv q1" "r1 = Inr False \<Longrightarrow> q1 = p" using data_eager_inv [OF inv e pos] room(1) False by auto
  have "pump_inv (queue_frame item p)" by (rule queue_frame_inv [OF inv pos]) (use room False in \<open>auto simp: stale_def\<close>)
  with run False e q1 show ?thesis by (auto simp: try_enqueue_def Let_def split: sum.splits bool.splits)
qed

lemma try_enqueue_ack_inv:
  assumes inv: "pump_inv p" and run: "try_enqueue_ack call task bs epoch p = (r, q)" and pos: "bs \<noteq> []"
  shows "pump_inv q"
proof (cases "stale (case epoch of None \<Rightarrow> p_epoch p | Some n \<Rightarrow> n) p \<or> \<not> can_enqueue_size (int (length bs)) p")
  case True
  then show ?thesis using inv run by (auto simp: try_enqueue_ack_def Let_def split: if_splits)
next
  case False
  note room = room_for [OF inv]
  obtain r1 q1 where e: "try_write_ack_eager call task bs p = (r1, q1)" by fastforce
  have q1: "pump_inv q1" "r1 = Inr False \<Longrightarrow> q1 = p" using ack_eager_inv [OF inv e pos] room(1) False by auto
  have "pump_inv (queue_frame (Contiguous bs) p)" by (rule queue_frame_inv [OF inv]) (use room False pos in \<open>auto simp: stale_def item_size_def\<close>)
  with run False e q1 show ?thesis by (auto simp: try_enqueue_ack_def Let_def split: sum.splits bool.splits)
qed

lemma park_inv:
  assumes inv: "pump_inv p" and run: "park nowait item n p = (r, q)" and pos: "0 < item_size item"
  shows "pump_inv q"
proof -
  obtain r1 q1 where e: "enqueue_after_wait item n p = (r1, q1)" by fastforce
  have "pump_inv q1"
  proof (cases "r1 = Inr True")
    case True
    note R = room_after_wait [OF inv e [unfolded True]]
    then show ?thesis using queue_frame_inv [OF inv pos R(1,3,4)] by simp
  next
    case False
    then have "q1 = p" using e by (auto simp: enqueue_after_wait_def Let_def split: if_splits)
    with inv show ?thesis by simp
  qed
  moreover have "pump_inv (q1\<lparr>p_parked := p_parked q1 @ [(item, n)], p_enqueue_suspensions := k\<rparr>)" for k
    using calculation pos by (auto simp: pump_inv_def wire_ok_def todo_bytes_def)
  ultimately show ?thesis using run inv e by (auto simp: park_def split: if_splits sum.splits bool.splits)
qed

subsection \<open>The latency batch and the writer task\<close>

lemma flush_inv:
  assumes inv: "pump_inv p" and run: "try_flush_latency_batch call p = (r, q)"
  shows "pump_inv q" "r \<noteq> Inl AssertionError \<or> (\<exists>n. call = Broken n AssertionError)"
proof -
  let ?s = "sample_high_water (Some (int (length (p_queue p)))) p" and ?c = "flat (p_queue p)"
  have s: "pump_inv ?s" by (rule permits_inv(1) [OF inv])
  note D = pump_invD [OF s]
  have same: "p_queue ?s = p_queue p" "p_nowait ?s = p_nowait p" "p_writing ?s = p_writing p" by (simp_all add: sample_high_water_def Let_def)
  have "pump_inv q \<and> (r \<noteq> Inl AssertionError \<or> (\<exists>n. call = Broken n AssertionError))"
  proof (cases "p_nowait p \<and> \<not> p_writing p")
    case False
    then have "q = p \<and> r = Inr False" using run by (auto simp: try_flush_latency_batch_def Let_def split: if_splits)
    with inv show ?thesis by simp
  next
    case True
    then have st: "p_batch ?s = []" "p_todo ?s = []" "p_running ?s" "p_latency_failure ?s = None" using D(4-6) same by auto
    have acc: "p_resident ?s = int (length (p_queue p))" "p_unfinished ?s = int (length (p_queue p))" "p_queued_bytes ?s = int (length ?c)"
      using D(1-3) st same by (simp_all add: bytes_of_flat)
    have wire: "p_wire ?s @ ?c = flat (p_admitted ?s)" using D(8) [OF st(3,4)] st same by (simp add: todo_bytes_def)
    have broken: "pump_inv (fence_eager_failure x (exposes (take n ?c) [] ?s))" for n x
    proof -
      have "\<exists>rest. p_wire ?s @ take n ?c @ rest = flat (p_admitted ?s)" using wire by (intro exI [of _ "drop n ?c"]) simp
      then show ?thesis using D(1-3,5,10-12) st
        by (auto simp: pump_inv_def wire_ok_def fence_eager_failure_def drop_eager_binding_def exposes_def Let_def)
    qed
    have sent: "pump_inv (((exposes ?c [] ?s)\<lparr>p_queue := [], p_unfinished := 0, p_queued_bytes := 0, p_resident := 0\<rparr>)\<lparr>p_batches := a, p_batched_items := b, p_batched_bytes := c\<rparr>)" for a b c
      using s st wire by (simp add: pump_inv_def wire_ok_def exposes_def todo_bytes_def)
    have "pump_inv q"
      using run inv s broken sent acc same
      by (auto simp: try_flush_latency_batch_def Let_def flat_def [symmetric] release_resident_def exposes_def [of _ "[]"] split: if_splits outcome_of_write.splits)
    moreover have "r \<noteq> Inl AssertionError \<or> (\<exists>n. call = Broken n AssertionError)"
      using run acc same by (auto simp: try_flush_latency_batch_def Let_def flat_def [symmetric] release_resident_def exposes_def split: if_splits outcome_of_write.splits)
    ultimately show ?thesis by blast
  qed
  then show "pump_inv q" "r \<noteq> Inl AssertionError \<or> (\<exists>n. call = Broken n AssertionError)" by blast+
qed

lemma take_batch_inv:
  assumes inv: "pump_inv p" and run: "p_running p" "p_batch p = []" "p_queue p \<noteq> []"
  shows "pump_inv (take_batch p)"
proof -
  note D = pump_invD [OF inv]
  have sp: "take WRITER_BATCH (p_queue p) @ drop WRITER_BATCH (p_queue p) = p_queue p" by simp
  have len: "length (take WRITER_BATCH (p_queue p)) + length (drop WRITER_BATCH (p_queue p)) = length (p_queue p)" by (metis length_append sp)
  have bts: "bytes_of (take WRITER_BATCH (p_queue p)) + bytes_of (drop WRITER_BATCH (p_queue p)) = bytes_of (p_queue p)" by (metis bytes_of_simps(3) sp)
  have fl: "flat (take WRITER_BATCH (p_queue p)) @ flat (drop WRITER_BATCH (p_queue p)) = flat (p_queue p)" by (metis flat_simps(3) sp)
  have ne: "take WRITER_BATCH (p_queue p) \<noteq> []" using run(3) by (simp add: WRITER_BATCH_def)
  have els: "positive (drop WRITER_BATCH (p_queue p))" "positive (take WRITER_BATCH (p_queue p))"
    by (rule positive_sub [of "p_queue p"]; use D(10) in \<open>auto dest: in_set_takeD in_set_dropD\<close>)+
  have wire: "p_latency_failure p = None \<Longrightarrow> p_wire p @ flat (p_queue p) = flat (p_admitted p)" using D(8) [OF run(1)] D(5) run(2) by (simp add: todo_bytes_def)
  show ?thesis
    using D(1-3,6) D(9-12) run els ne wire len bts fl batch_calls_bytes [of "[]" "take WRITER_BATCH (p_queue p)"]
    unfolding pump_inv_def wire_ok_def take_batch_def sample_high_water_def Let_def todo_bytes_def
    by (simp split del: if_split) (auto split: if_splits)
qed

lemma write_next_inv:
  assumes inv: "pump_inv p" and "p_todo p \<noteq> []"
  shows "pump_inv (write_next p)"
proof -
  obtain c cs where t: "p_todo p = c # cs" using assms(2) by (cases "p_todo p") auto
  then have "p_batch p \<noteq> []" "p_latency_failure p = None" "p_running p" using pump_invD(4,5,7) [OF inv] by (cases "p_latency_failure p"; auto)+
  with pump_invD(1-3,6,8,10-12) [OF inv] pump_invD(4) [OF inv] t show ?thesis by (auto simp: pump_inv_def wire_ok_def write_next_def todo_bytes_def)
qed

text \<open>Releasing a batch, after a last call that exposed \<open>e\<close>: \<open>k\<close> tells the task that goes on from the one that ends.\<close>

lemma release_batch_inv:
  assumes inv: "pump_inv p" and run: "release_batch (p\<lparr>p_wire := p_wire p @ e\<rparr>) = (r, q)"
    and wire: "k \<Longrightarrow> e = [] \<and> p_todo p = [] \<and> p_latency_failure p = None" "\<exists>rest. p_wire p @ e @ rest = flat (p_admitted p)"
  shows "r = Inr ()" "pump_inv (if k then q else q\<lparr>p_running := False, p_nowait := False\<rparr>)"
proof -
  note D = pump_invD [OF inv]
  have acc: "p_resident p - int (length (p_batch p)) = int (length (p_queue p))" "p_queued_bytes p - bytes_of (p_batch p) = bytes_of (p_queue p)" "0 \<le> bytes_of (p_queue p)"
    using D(1,3) by (simp_all add: bytes_of_flat)
  show "r = Inr ()" using run D(1) by (auto simp: release_batch_def release_resident_def Let_def split: if_splits)
  have q: "q = p\<lparr>p_wire := p_wire p @ e, p_writing := False, p_unfinished := int (length (p_queue p)), p_batched_bytes := p_batched_bytes p + bytes_of (p_batch p),
      p_queued_bytes := bytes_of (p_queue p), p_batch := [], p_todo := [], p_resident := int (length (p_queue p))\<rparr>"
    using run D(1,2) acc by (auto simp: release_batch_def release_resident_def Let_def bytes_of_def [symmetric] split: if_splits)
  have bound: "bytes_of (p_queue p) \<le> p_max_bytes p \<or> int (length (p_queue p)) \<le> 1" "1 \<le> p_max_messages p \<Longrightarrow> int (length (p_queue p)) \<le> p_max_messages p"
    using D(1,3,11,12) bytes_of_flat [of "p_batch p"] by auto
  show "pump_inv (if k then q else q\<lparr>p_running := False, p_nowait := False\<rparr>)"
    using D(6,8-10) wire bound unfolding q by (cases k) (auto simp: pump_inv_def wire_ok_def todo_bytes_def)
qed

lemma complete_batch_inv:
  assumes inv: "pump_inv p" and run: "complete_batch p = (r, q)" and fin: "p_todo p = []" "p_latency_failure p = None"
  shows "r = Inr ()" "pump_inv q"
proof -
  obtain r1 q1 where b: "release_batch p = (r1, q1)" by fastforce
  then have b': "release_batch (p\<lparr>p_wire := p_wire p @ []\<rparr>) = (r1, q1)" by simp
  have "r1 = Inr ()" "pump_inv q1" using release_batch_inv [OF inv b', of True] pump_invD(9) [OF inv] fin by auto
  with run b permits_inv(7) show "r = Inr ()" "pump_inv q" by (auto simp: complete_batch_def)
qed

lemma exposed_prefix:
  assumes inv: "pump_inv p"
  shows "\<exists>rest. p_wire p @ (case p_todo p of [] \<Rightarrow> [] | c # _ \<Rightarrow> take n (call_bytes c)) @ rest = flat (p_admitted p)"
proof (cases "p_todo p")
  case Nil
  then show ?thesis using pump_invD(9) [OF inv] by simp
next
  case (Cons c cs)
  then have "p_running p" "p_latency_failure p = None" using pump_invD(4,5,7) [OF inv] by (cases "p_latency_failure p"; auto)+
  from pump_invD(8) [OF inv this] Cons show ?thesis
    by (intro exI [of _ "drop n (call_bytes c) @ concat (map call_bytes cs) @ flat (p_queue p)"]) (simp add: todo_bytes_def append_assoc [symmetric] del: append_assoc)
qed

lemma fail_batch_inv:
  assumes inv: "pump_inv p" and run: "fail_batch n p = (r, q)"
  shows "r = Inr ()" "pump_inv q"
proof -
  obtain r1 q1 where b: "release_batch (p\<lparr>p_wire := p_wire p @ (case p_todo p of [] \<Rightarrow> [] | c # _ \<Rightarrow> take n (call_bytes c))\<rparr>) = (r1, q1)" by fastforce
  have r: "r1 = Inr ()" "pump_inv (q1\<lparr>p_running := False, p_nowait := False\<rparr>)"
    using release_batch_inv [OF inv b, of False] exposed_prefix [OF inv] by simp_all
  have w: "\<not> p_writing q1" using b by (auto simp: release_batch_def release_resident_def Let_def split: if_splits)
  show "r = Inr ()" using run b r(1) by (simp add: fail_batch_def Let_def)
  show "pump_inv q"
    by (rule inv_same_core [OF r(2)]) (use run b w in \<open>auto simp: fail_batch_def Let_def same_core_def drop_eager_binding_def\<close>)
qed

lemma stop_end_inv:
  assumes inv: "pump_inv p" and run: "stop_end n p = (r, q)" and nw: "\<not> p_nowait p"
  shows "r = Inr ()" "pump_inv q"
proof -
  obtain r1 q1 where b: "release_batch (p\<lparr>p_wire := p_wire p @ (case p_todo p of [] \<Rightarrow> [] | c # _ \<Rightarrow> take n (call_bytes c))\<rparr>) = (r1, q1)" by fastforce
  have r: "r1 = Inr ()" "pump_inv (q1\<lparr>p_running := False, p_nowait := False\<rparr>)"
    using release_batch_inv [OF inv b, of False] exposed_prefix [OF inv] by simp_all
  have w: "\<not> p_writing q1" "\<not> p_nowait q1" using b nw by (auto simp: release_batch_def release_resident_def Let_def split: if_splits)
  have "pump_inv (q1\<lparr>p_running := False, p_writing := False\<rparr>)" by (rule inv_same_core [OF r(2)]) (use w in \<open>simp add: same_core_def\<close>)
  moreover have "pump_inv (p\<lparr>p_running := False, p_writing := False\<rparr>)" if "p_batch p = []"
    using that pump_invD [OF inv] nw by (auto simp: pump_inv_def wire_ok_def todo_bytes_def)
  ultimately show "r = Inr ()" "pump_inv q" using run b r(1) by (auto simp: stop_end_def Let_def split: if_splits)
qed

lemma discard_inv:
  assumes inv: "pump_inv p" and run: "pump_discard p = (r, q)" and st: "\<not> p_running p"
  shows "r = Inr ()" "pump_inv q"
proof -
  have "pump_inv (drop_eager_binding (sample_high_water None p))" by (intro permits_inv inv)
  note D = pump_invD [OF this]
  have nr: "\<not> p_running (drop_eager_binding (sample_high_water None p))" using st by (simp add: drop_eager_binding_def sample_high_water_def Let_def)
  with D(4) have b: "p_batch (drop_eager_binding (sample_high_water None p)) = []" by auto
  show "r = Inr ()" using run D(1) by (auto simp: pump_discard_def release_resident_def Let_def split: if_splits)
  then show "pump_inv q" using run D(1-3,5,9,10) D(6) b nr by (auto simp: pump_discard_def release_resident_def pump_inv_def wire_ok_def Let_def todo_bytes_def split: if_splits)
qed

lemma open_inv:
  assumes "pump_inv p" "pump_start offers (pump_reset p) = (Inr (), q)"
  shows "pump_inv q"
proof -
  have "positive (map fst (p_parked p))" using pump_invD(10) [OF assms(1)] by simp
  with assms(2) show ?thesis
    by (auto simp: pump_start_def pump_reset_def drop_eager_binding_def sample_high_water_def Let_def pump_inv_def wire_ok_def todo_bytes_def split: if_splits)
qed

subsection \<open>Every run\<close>

lemma pump_step_inv:
  assumes step: "pump_step p q" and inv: "pump_inv p"
  shows "pump_inv q"
  using step
proof cases
  case (Terminal item call n r)
  obtain r1 q1 where e: "try_enqueue call item (Some n) p = (r1, q1)" by fastforce
  have "pump_inv q1" by (rule try_enqueue_inv [OF inv e Terminal(1)])
  with e Terminal(2) permits_inv(8) [of q1] show ?thesis by (auto simp: try_enqueue_terminal_def pump_seal_def)
next
  case (Wake i r)
  obtain item n where w: "p_parked p ! i = (item, n)" by fastforce
  have "item \<in> set (p_queue p @ p_batch p @ map fst (p_parked p))" using w Wake(1) by (force simp: in_set_conv_nth)
  then have "0 < item_size item" using pump_invD(10) [OF inv] unfolding positive_def by blast
  from park_inv [OF permits_inv(11) [OF inv] _ this] Wake(2) w show ?thesis by (simp add: wake_def)
next
  case (Stop)
  then show ?thesis using permits_inv(2) [OF inv] by (simp add: stop_begin_def)
qed (auto intro: open_inv [OF inv] try_enqueue_inv [OF inv] try_enqueue_ack_inv [OF inv] park_inv [OF inv] flush_inv [OF inv] take_batch_inv [OF inv] write_next_inv [OF inv]
  complete_batch_inv(2) [OF inv] fail_batch_inv(2) [OF inv] stop_end_inv(2) [OF inv] discard_inv(2) [OF inv] permits_inv [OF inv] permits_inv [OF permits_inv(12) [OF inv]])

lemmas pump_op_defs = pump_start_def pump_reset_def drop_eager_binding_def sample_high_water_def try_enqueue_def try_enqueue_terminal_def try_enqueue_ack_def
  try_write_data_eager_def try_write_ack_eager_def retain_failed_eager_def fence_eager_failure_def queue_frame_def put_frame_def admit_queued_def exposes_def
  count_eager_def schedule_eager_rearm_def park_def wake_def unpark_at_def enqueue_after_wait_def try_flush_latency_batch_def release_resident_def
  rearm_eager_if_idle_def rearm_deferred_ack_def own_ack_rearm_def take_batch_def write_next_def complete_batch_def release_batch_def fail_batch_def writer_idle_def
  stop_begin_def stop_end_def pump_discard_def pump_seal_def set_epoch_def

lemma pump_step_limits: "pump_step p q \<Longrightarrow> p_max_messages q = p_max_messages p \<and> p_max_bytes q = p_max_bytes p"
  by (erule pump_step.cases)
    (auto simp: pump_op_defs Let_def split: if_splits option.splits sum.splits bool.splits write_item.splits outcome_of_write.splits list.splits prod.splits)

definition pump_sound :: "int \<Rightarrow> int \<Rightarrow> write_pump \<Rightarrow> bool" where
  "pump_sound mb mm p \<longleftrightarrow> pump_inv p \<and> p_max_bytes p = mb \<and> p_max_messages p = mm"

interpretation writer: kept_invariant "\<lambda>p. p = new_pump mb mm \<and> 0 \<le> mb" pump_step "pump_sound mb mm" for mb mm
proof
  fix p assume "p = new_pump mb mm \<and> 0 \<le> mb"
  then show "pump_sound mb mm p" by (auto simp: pump_sound_def new_pump_def pump_inv_def wire_ok_def todo_bytes_def)
next
  fix p q assume "pump_sound mb mm p" "pump_step p q"
  then show "pump_sound mb mm q" using pump_step_inv pump_step_limits by (auto simp: pump_sound_def)
qed

text \<open>
  C16. Whatever producers, acknowledgements, callbacks, waiting and cancelled producers, the writer task, failures and lifecycle calls do in whatever
  order, the transport of a connection is given a prefix of the frames admitted for it, in the order of their admission, so that no frame is written twice, out of turn or in between
  the parts of another. While the writer runs and no eager write has failed, nothing is missing either: the
  bytes written, those of the batch in progress and those of the queue are exactly the admitted frames.
\<close>

theorem writer_in_order:
  assumes "pump_step\<^sup>*\<^sup>* (new_pump mb mm) p" "0 \<le> mb"
  shows "(\<exists>rest. p_wire p @ rest = flat (p_admitted p))
    \<and> (p_running p \<and> p_latency_failure p = None \<longrightarrow> p_wire p @ todo_bytes p @ flat (p_queue p) = flat (p_admitted p))"
proof -
  have "pump_inv p" using writer.always [of _ mb mm p] assms by (auto simp: pump_sound_def)
  then show ?thesis using pump_invD(8,9) by blast
qed

text \<open>
  C17. The writer's accounting is exact in every reachable state: the resident frames are those queued and those of the batch in progress, at most
  \<^verbatim>\<open>max_messages\<close>; the charged bytes are theirs, at most \<^verbatim>\<open>max_bytes\<close> unless a single frame is larger; \<^verbatim>\<open>join\<close> waits
  for exactly these frames; and no release of frames fails the assertion that guards it.
\<close>

theorem writer_bounded:
  assumes "pump_step\<^sup>*\<^sup>* (new_pump mb mm) p" "0 \<le> mb" "1 \<le> mm"
  shows "p_resident p = int (length (p_queue p) + length (p_batch p)) \<and> p_resident p \<le> mm \<and> p_unfinished p = p_resident p
    \<and> p_queued_bytes p = bytes_of (p_queue p) + bytes_of (p_batch p) \<and> (p_queued_bytes p \<le> mb \<or> p_resident p \<le> 1)
    \<and> fst (release_batch p) = Inr () \<and> (\<not> p_running p \<longrightarrow> fst (pump_discard p) = Inr ())
    \<and> (fst (try_flush_latency_batch call p) = Inl AssertionError \<longrightarrow> (\<exists>n. call = Broken n AssertionError))"
proof -
  have p: "pump_inv p" "p_max_bytes p = mb" "p_max_messages p = mm" using writer.always [of _ mb mm p] assms(1,2) by (auto simp: pump_sound_def)
  have "fst (release_batch p) = Inr ()" "\<not> p_running p \<Longrightarrow> fst (pump_discard p) = Inr ()"
    using pump_invD(1) [OF p(1)] discard_inv(1) [OF p(1) prod.collapse [symmetric]] by (auto simp: release_batch_def release_resident_def Let_def)
  moreover have "fst (try_flush_latency_batch call p) = Inl AssertionError \<Longrightarrow> \<exists>n. call = Broken n AssertionError"
    using flush_inv(2) [OF p(1) prod.collapse [symmetric]] by blast
  ultimately show ?thesis using pump_invD(1,2,3,11,12) [OF p(1)] assms(3) unfolding p by auto
qed

text \<open>A connection whose first frame is written eagerly and whose second waits for the writer.\<close>

definition sample_pump :: write_pump where
  "sample_pump = snd (try_enqueue Accepted (Contiguous [3]) None (snd (try_enqueue Accepted (Contiguous [1, 2]) None
     (snd (pump_start True (pump_reset (new_pump 100 10)))))))"

lemma sample_pump_steps: "pump_step\<^sup>*\<^sup>* (new_pump 100 10) sample_pump"
proof -
  let ?p1 = "snd (pump_start True (pump_reset (new_pump 100 10)))"
  have "pump_start True (pump_reset (new_pump 100 10)) = (Inr (), ?p1)" by code_simp
  then have "pump_step (new_pump 100 10) ?p1" by (rule Open)
  moreover have "pump_step p (snd (try_enqueue Accepted (Contiguous (b # bs)) None p))" for p b bs
    by (rule Enqueue [OF _ prod.collapse [symmetric]]) (simp add: item_size_def)
  ultimately show ?thesis unfolding sample_pump_def by (meson rtranclp.rtrancl_into_rtrancl r_into_rtranclp)
qed

theorem writer_in_order_witness: "p_wire sample_pump @ todo_bytes sample_pump @ flat (p_queue sample_pump) = flat (p_admitted sample_pump) \<and> p_wire sample_pump = [1, 2] \<and> p_queue sample_pump = [Contiguous [3]]"
proof -
  have "p_running sample_pump \<and> p_latency_failure sample_pump = None" "p_wire sample_pump = [1, 2]" "p_queue sample_pump = [Contiguous [3]]"
    by code_simp+
  with writer_in_order [OF sample_pump_steps] show ?thesis by simp
qed

theorem writer_bounded_witness: "p_resident sample_pump = 1 \<and> p_queued_bytes sample_pump = 1 \<and> fst (release_batch sample_pump) = Inr ()"
proof -
  have "p_resident sample_pump = 1" "p_queued_bytes sample_pump = 1" by code_simp+
  with writer_bounded [OF sample_pump_steps] show ?thesis by simp
qed

end
