(* ===== verification/Client_Inv.thy ===== *)
theory Client_Inv
  imports Effect_Pump Engine_Steps Writer_Inv "HOL-Library.Sublist"
begin

text \<open>
  The engine, the effect pump, the writer and the flusher task as one transition system: what the engine sends is what the transport is given, in order, and whoever waits for
  the pump's progress is woken.
\<close>

subsection \<open>The writer, as the pump sees it\<close>

definition healthy :: "write_pump \<Rightarrow> bool" where
  "healthy w \<longleftrightarrow> p_latency_failure w = None \<and> \<not> p_sealed w"

text \<open>What matters of a writer: the frames it took over, whether it is healthy, and its epoch.\<close>

definition wview :: "write_pump \<Rightarrow> write_item list \<times> bool \<times> int" where
  "wview w = (p_admitted w, healthy w, p_epoch w)"

lemma wview_simps [simp]:
  "p_admitted (put_frame item w) = p_admitted w" "p_epoch (put_frame item w) = p_epoch w" "healthy (put_frame item w) = healthy w"
  "p_admitted (exposes bs items w) = p_admitted w @ items" "p_epoch (exposes bs items w) = p_epoch w" "healthy (exposes bs items w) = healthy w"
  "p_admitted (count_eager bs w) = p_admitted w" "p_epoch (count_eager bs w) = p_epoch w" "healthy (count_eager bs w) = healthy w"
  "p_admitted (schedule_eager_rearm w) = p_admitted w" "p_epoch (schedule_eager_rearm w) = p_epoch w" "healthy (schedule_eager_rearm w) = healthy w"
  "p_admitted (fence_eager_failure x w) = p_admitted w" "p_epoch (fence_eager_failure x w) = p_epoch w + 1" "\<not> healthy (fence_eager_failure x w)"
  by (auto simp: put_frame_def admit_queued_def exposes_def count_eager_def schedule_eager_rearm_def fence_eager_failure_def drop_eager_binding_def healthy_def Let_def)

text \<open>An attempt to hand a frame over: it was stale, declined, taken, or taken by a write that failed.\<close>

definition attempted :: "write_item \<Rightarrow> int \<Rightarrow> write_pump \<Rightarrow> bool result \<Rightarrow> write_pump \<Rightarrow> bool" where
  "attempted item epoch w r v \<longleftrightarrow>
     (v = w \<and> r = Inl StaleConnectionEffect) \<or> (p_admitted v = p_admitted w \<and> r = Inr False \<and> healthy v = healthy w \<and> p_epoch v = p_epoch w)
   \<or> (\<not> stale epoch w \<and> p_admitted v = p_admitted w @ [item]
      \<and> ((r = Inr True \<and> healthy v = healthy w \<and> p_epoch v = p_epoch w) \<or> ((\<exists>x. r = Inl x) \<and> \<not> healthy v \<and> p_epoch v = p_epoch w + 1)))"

lemma healthy_updates [simp]:
  "healthy (w\<lparr>p_eager_armed := b\<rparr>) = healthy w" "healthy (w\<lparr>p_ack_eager_armed := b\<rparr>) = healthy w" "healthy (w\<lparr>p_ack_deferred := b\<rparr>) = healthy w"
  "healthy (w\<lparr>p_parked := ps, p_enqueue_suspensions := k\<rparr>) = healthy w"
  by (simp_all add: healthy_def)

definition eager_attempt :: "write_item \<Rightarrow> write_pump \<Rightarrow> bool result \<Rightarrow> write_pump \<Rightarrow> bool" where
  "eager_attempt item w r v \<longleftrightarrow> (r = Inr False \<and> v = w)
     \<or> (r = Inr True \<and> p_admitted v = p_admitted w @ [item] \<and> healthy v = healthy w \<and> p_epoch v = p_epoch w)
     \<or> ((\<exists>x. r = Inl x) \<and> p_admitted v = p_admitted w @ [item] \<and> \<not> healthy v \<and> p_epoch v = p_epoch w + 1)"

lemma eager_declined: "eager_attempt item w (Inr False) w"
  by (simp add: eager_attempt_def)

lemma eager_data: "eager_attempt item w (fst (try_write_data_eager call item w)) (snd (try_write_data_eager call item w))"
proof (cases item)
  case (Contiguous bs)
  show ?thesis
  proof (cases "\<not> p_eager_armed w \<or> \<not> p_nowait w \<or> p_writing w \<or> p_parked w \<noteq> [] \<or> p_queue w \<noteq> []")
    case True
    then have "try_write_data_eager call item w = (Inr False, w)" unfolding try_write_data_eager_def Contiguous by (simp only: write_item.case if_True)
    then show ?thesis by (simp add: eager_declined)
  next
    case False
    then have "try_write_data_eager call item w = (case call of
            Declined \<Rightarrow> (Inr False, w)
          | Broken n x \<Rightarrow> (Inl x, retain_failed_eager item x (exposes (take n bs) [item] w))
          | Accepted \<Rightarrow> (Inr True, count_eager bs (schedule_eager_rearm ((exposes bs [item] w)\<lparr>p_eager_armed := False\<rparr>))))"
      unfolding try_write_data_eager_def Contiguous by (simp only: write_item.case if_False)
    then show ?thesis by (cases call) (simp_all add: eager_attempt_def retain_failed_eager_def)
  qed
qed (simp add: try_write_data_eager_def eager_attempt_def)

lemma eager_ack: "eager_attempt (Contiguous bs) w (fst (try_write_ack_eager call task bs w)) (snd (try_write_ack_eager call task bs w))"
proof (cases "\<not> p_ack_eager_armed w \<or> \<not> p_nowait w \<or> p_writing w \<or> p_parked w \<noteq> [] \<or> p_queue w \<noteq> []")
  case True
  then have "try_write_ack_eager call task bs w = (Inr False, w)" unfolding try_write_ack_eager_def by (simp only: if_True)
  then show ?thesis by (simp add: eager_declined)
next
  case False
  then have "try_write_ack_eager call task bs w = (case call of
        Declined \<Rightarrow> (Inr False, w)
      | Broken n x \<Rightarrow> (Inl x, retain_failed_eager (Contiguous bs) x (exposes (take n bs) [Contiguous bs] w))
      | Accepted \<Rightarrow>
          (let q = (exposes bs [Contiguous bs] w)\<lparr>p_ack_eager_armed := False\<rparr>
           in (Inr True, count_eager bs (if p_ack_owner q = Some task then q\<lparr>p_ack_deferred := True\<rparr> else schedule_eager_rearm q))))"
    unfolding try_write_ack_eager_def by (simp only: if_False)
  then show ?thesis by (cases call) (simp_all add: eager_attempt_def retain_failed_eager_def Let_def)
qed

lemma queue_frame_view: "p_admitted (queue_frame item w) = p_admitted w @ [item]" "healthy (queue_frame item w) = healthy w" "p_epoch (queue_frame item w) = p_epoch w"
  by (simp_all add: queue_frame_def)

lemma eager_then_queue:
  assumes "eager_attempt item w r0 v0" "\<not> stale epoch w"
    and "(case (r0, v0) of (Inl x, q) \<Rightarrow> (Inl x, q) | (Inr True, q) \<Rightarrow> (Inr True, q) | (Inr False, q) \<Rightarrow> (Inr True, queue_frame item q)) = (r, v)"
  shows "attempted item epoch w r v"
  using assms unfolding eager_attempt_def
  by (elim disjE conjE exE) (auto simp: attempted_def queue_frame_view)

lemma attempted_idle: "attempted item epoch w (Inr False) w" "attempted item epoch w (Inl StaleConnectionEffect) w"
  by (simp_all add: attempted_def)

lemma try_enqueue_attempted:
  assumes "try_enqueue call item (Some epoch) w = (r, v)"
  shows "attempted item epoch w r v"
proof -
  consider "stale epoch w" | "\<not> stale epoch w" "\<not> can_enqueue_size (int (item_size item)) w" | "\<not> stale epoch w" "can_enqueue_size (int (item_size item)) w" by blast
  then show ?thesis
  proof cases
    case 3
    then show ?thesis using eager_then_queue [OF eager_data [of item w call] 3(1)] assms by (simp add: try_enqueue_def)
  qed (use assms attempted_idle in \<open>auto simp: try_enqueue_def\<close>)
qed

lemma try_enqueue_ack_attempted:
  assumes "try_enqueue_ack call task bs (Some epoch) w = (r, v)"
  shows "attempted (Contiguous bs) epoch w r v"
proof -
  consider "stale epoch w" | "\<not> stale epoch w" "\<not> can_enqueue_size (int (length bs)) w" | "\<not> stale epoch w" "can_enqueue_size (int (length bs)) w" by blast
  then show ?thesis
  proof cases
    case 3
    then show ?thesis using eager_then_queue [OF eager_ack [of bs w call task] 3(1)] assms by (simp add: try_enqueue_ack_def)
  qed (use assms attempted_idle in \<open>auto simp: try_enqueue_ack_def\<close>)
qed

lemma if_either: "(if b then x else y) = x \<or> (if b then x else y) = y"
  by simp

lemma after_wait_cases:
  assumes "\<not> stale epoch w"
  shows "enqueue_after_wait item epoch w = (Inr True, queue_frame item w) \<or> enqueue_after_wait item epoch w = (Inr False, w)"
  unfolding enqueue_after_wait_def Let_def if_not_P [OF assms] by (rule if_either)

lemma attempted_taken: "\<not> stale epoch w \<Longrightarrow> attempted item epoch w (Inr True) (queue_frame item w)"
  by (simp add: attempted_def queue_frame_view)

lemma attempted_parked:
  "p_admitted v = p_admitted w \<Longrightarrow> healthy v = healthy w \<Longrightarrow> p_epoch v = p_epoch w \<Longrightarrow> attempted item epoch w (Inr False) v"
  by (simp add: attempted_def)

lemma park_attempted:
  assumes "park False item epoch w = (r, v)"
  shows "attempted item epoch w r v"
proof (cases "stale epoch w")
  case True
  then have "enqueue_after_wait item epoch w = (Inl StaleConnectionEffect, w)" unfolding enqueue_after_wait_def by (rule if_P)
  with assms have "r = Inl StaleConnectionEffect" "v = w" by (simp_all add: park_def)
  then show ?thesis using attempted_idle by simp
next
  case False
  from after_wait_cases [OF this, of item] show ?thesis
  proof
    assume "enqueue_after_wait item epoch w = (Inr True, queue_frame item w)"
    with assms have "r = Inr True" "v = queue_frame item w" by (simp_all add: park_def)
    then show ?thesis using attempted_taken [OF False] by simp
  next
    assume "enqueue_after_wait item epoch w = (Inr False, w)"
    with assms have r: "r = Inr False" and v: "v = w\<lparr>p_parked := p_parked w @ [(item, epoch)], p_enqueue_suspensions := p_enqueue_suspensions w + 1\<rparr>"
      by (simp_all add: park_def)
    show ?thesis unfolding r by (rule attempted_parked) (simp_all add: v)
  qed
qed

lemma wake_attempted:
  assumes "wake i w = (r, v)" "p_parked w ! i = (item, epoch)"
  shows "attempted item epoch w r v \<or> r = Inl StaleConnectionEffect \<and> wview v = wview w"
proof -
  have same: "wview (unpark_at i w) = wview w" "stale epoch (unpark_at i w) = stale epoch w" by (simp_all add: unpark_at_def wview_def healthy_def stale_def)
  have "attempted item epoch (unpark_at i w) r v" using assms park_attempted by (simp add: wake_def)
  then show ?thesis using same by (auto simp: attempted_def wview_def)
qed

subsection \<open>What the operations leave alone\<close>

text \<open>The pump's queue, counters, waiters and task, and the connection they belong to.\<close>

definition pview where
  "pview c = ((pm_pending c, pm_next_number c, pm_pending_epoch c, pm_enqueued c, pm_applied c), (pm_progress c, pm_waiters c, pm_next_waiter c, pm_error c, pm_error_waiters c),
     pm_task c, c_epoch c, c_sends c, c_cancelled c, pm_failing_close c)"

definition same_pump :: "client \<Rightarrow> client \<Rightarrow> bool" where
  "same_pump c d \<longleftrightarrow> pview d = pview c"

lemma same_pump_refl [simp]: "same_pump c c" by (simp add: same_pump_def)

lemma same_pump_trans: "same_pump c d \<Longrightarrow> same_pump d e \<Longrightarrow> same_pump c e" by (simp add: same_pump_def)

lemma same_pumpD:
  assumes "same_pump c d"
  shows "pm_pending d = pm_pending c" "pm_next_number d = pm_next_number c" "pm_pending_epoch d = pm_pending_epoch c" "pm_enqueued d = pm_enqueued c" "pm_applied d = pm_applied c"
    "pm_progress d = pm_progress c" "pm_waiters d = pm_waiters c" "pm_next_waiter d = pm_next_waiter c" "pm_error d = pm_error c" "pm_error_waiters d = pm_error_waiters c"
    "pm_task d = pm_task c" "c_epoch d = c_epoch c" "c_sends d = c_sends c" "c_cancelled d = c_cancelled c" "pm_failing_close d = pm_failing_close c"
  using assms by (simp_all add: same_pump_def pview_def)

definition quiet :: "client \<Rightarrow> client \<Rightarrow> bool" where
  "quiet c d \<longleftrightarrow> same_pump c d \<and> c_writer d = c_writer c \<and> c_dropped d = c_dropped c"

lemma quiet_refl [simp]: "quiet c c" by (simp add: quiet_def)

lemma quiet_trans: "quiet c d \<Longrightarrow> quiet d e \<Longrightarrow> quiet c e" by (simp add: quiet_def same_pump_def)

lemma quiet_updates:
  "quiet c (propose_disconnect_cause x rank c)" "quiet c (fail_connack x c)" "quiet c (wake_publish_waiters n c)" "quiet c (settle_receipt mid reason c)"
  "quiet c (settle_batch mid reason c)" "quiet c (resolve_connack p c)" "quiet c (resolve_suback q c)" "quiet c (resolve_unsuback q c)" "quiet c (c\<lparr>c_ping_pending := b\<rparr>)"
  "quiet c (c\<lparr>c_auth := a\<rparr>)" "quiet c (snd (next_call c))" "quiet c (c\<lparr>pm_inline_effects := n\<rparr>)" "quiet c (c\<lparr>pm_observations := n\<rparr>)" "quiet c (c\<lparr>pm_draining_inline := b\<rparr>)"
  "quiet c (c\<lparr>c_last_disconnect := l\<rparr>)" "quiet c c" "quiet c (c\<lparr>c_transport_open := b\<rparr>)" "quiet c (sample_pump_high_water c)" "quiet c (collect_deliveries es c)"
  "quiet c (c\<lparr>pm_multi_effect_batches := n, pm_reordered_batches := m\<rparr>)" "quiet c (c\<lparr>pm_high_water := h\<rparr>)" "quiet c (c\<lparr>c_engine := e\<rparr>)"
  "quiet c (c\<lparr>pm_apply_suspensions := n\<rparr>)" "quiet c (c\<lparr>pm_flush_requested := b\<rparr>)"
  by (auto simp: quiet_def same_pump_def pview_def propose_disconnect_cause_def fail_connack_def wake_publish_waiters_def settle_receipt_def settle_batch_def resolve_connack_def resolve_suback_def
      resolve_unsuback_def next_call_def sample_pump_high_water_def collect_deliveries_def Let_def split: option.splits prod.splits list.splits)

lemma quiet_settle_publish: "quiet c (settle_publish mid reason c)"
proof -
  let ?d = "case mid of None \<Rightarrow> c | Some m \<Rightarrow> settle_batch m reason (settle_receipt m reason c)"
  have d: "quiet c ?d" using quiet_trans [OF quiet_updates(4,5)] by (simp split: option.split)
  then show ?thesis using quiet_trans [OF d quiet_updates(3)] by (simp add: settle_publish_def Let_def)
qed

lemma quiet_apply_immediate: "quiet c (apply_immediate e epoch c)"
  using quiet_updates quiet_settle_publish by (simp add: apply_immediate_def split: effect.split)

lemma quiet_settle_terminal: "quiet c (settle_terminal_effect e c)"
  using quiet_settle_publish by (simp add: settle_terminal_effect_def split: effect.split)

lemma quiet_raise: "quiet c (snd (raise_protocol_effect x c))"
  using quiet_updates(1) by (simp add: raise_protocol_effect_def)

text \<open>An observation at most seals the writer.\<close>

definition at_most_seals :: "client \<Rightarrow> client \<Rightarrow> bool" where
  "at_most_seals c d \<longleftrightarrow> same_pump c d \<and> c_dropped d = c_dropped c \<and> p_admitted (c_writer d) = p_admitted (c_writer c) \<and> p_epoch (c_writer d) = p_epoch (c_writer c)
     \<and> (healthy (c_writer d) \<longrightarrow> healthy (c_writer c))"

lemma quiet_seals: "quiet c d \<Longrightarrow> at_most_seals c d" by (simp add: quiet_def at_most_seals_def)

lemma seals_trans: "at_most_seals c d \<Longrightarrow> at_most_seals d e \<Longrightarrow> at_most_seals c e" by (auto simp: at_most_seals_def same_pump_def)

lemma seals_broker: "at_most_seals c (observe_broker_disconnect reason props b c)"
proof -
  let ?d = "propose_disconnect_cause (if reason \<noteq> 0 then BrokerDisconnectError reason else MQTTError) CAUSE_BROKER (c\<lparr>c_last_disconnect := Some (reason, props, b)\<rparr>)"
  have "at_most_seals c ?d" using quiet_seals [OF quiet_trans [OF quiet_updates(15,1)]] .
  moreover have "at_most_seals ?d (?d\<lparr>c_writer := pump_seal (c_writer ?d)\<rparr>)" by (simp add: at_most_seals_def same_pump_def pview_def pump_seal_def healthy_def)
  ultimately show ?thesis unfolding observe_broker_disconnect_def Let_def by (rule seals_trans)
qed

lemma seals_observation: "at_most_seals c (snd (apply_observation e c))"
  using quiet_seals [OF quiet_apply_immediate] quiet_seals [OF quiet_trans [OF quiet_updates(1,2)]] seals_broker quiet_seals [OF quiet_refl]
  by (simp add: apply_observation_def observe_peer_error_def split: effect.split)

lemma seals_observations: "at_most_seals c (fold (\<lambda>e c. snd (apply_observation e c)) es c)"
proof (induction es arbitrary: c)
  case (Cons e es)
  from seals_trans [OF seals_observation [of c e] this] show ?case by simp
qed (simp add: quiet_seals)

subsection \<open>Frames keep their order\<close>

text \<open>With the frames \<open>fs\<close> still to be handed over: what the writer took over is a part of what was collected, in its order; a healthy writer can still take the rest in order; and
  while nothing was dropped nothing is missing.\<close>

definition in_turn :: "write_item list \<Rightarrow> client \<Rightarrow> bool" where
  "in_turn fs c \<longleftrightarrow> subseq (p_admitted (c_writer c)) (c_sends c)
     \<and> (healthy (c_writer c) \<longrightarrow> subseq (p_admitted (c_writer c) @ fs) (c_sends c))
     \<and> (healthy (c_writer c) \<and> c_dropped c = 0 \<longrightarrow> p_admitted (c_writer c) @ fs = c_sends c)"

lemma in_turn_seals: "at_most_seals c d \<Longrightarrow> in_turn fs c \<Longrightarrow> in_turn fs d"
  by (auto simp: in_turn_def at_most_seals_def dest: same_pumpD(13))

lemma in_turn_unhealthy: "subseq (p_admitted (c_writer c)) (c_sends c) \<Longrightarrow> \<not> healthy (c_writer c) \<Longrightarrow> in_turn fs c"
  by (simp add: in_turn_def)

lemma subseq_shorter: "subseq (xs @ f # fs) ys \<Longrightarrow> subseq (xs @ fs) ys"
  by (rule subseq_order.order_trans [OF list_emb_append_mono [OF subseq_order.order_refl list_emb_Cons [OF subseq_order.order_refl]]])

lemma in_turn_drop: "in_turn (f # fs) c \<Longrightarrow> in_turn fs (drop_send c)"
  by (auto simp: in_turn_def drop_send_def intro: subseq_shorter)

lemma in_turn_collect:
  "in_turn fs c \<Longrightarrow> c_sends d = c_sends c @ gs \<Longrightarrow> c_writer d = c_writer c \<Longrightarrow> c_dropped d = c_dropped c \<Longrightarrow> in_turn (fs @ gs) d"
  using list_emb_append_mono [of "(=)" "p_admitted (c_writer c) @ fs" "c_sends c" gs gs]
  by (auto simp: in_turn_def)

lemma in_turn_attempted:
  assumes turn: "in_turn (f # fs) c" and attempt: "attempted f epoch (c_writer c) r (c_writer d)" and same: "c_sends d = c_sends c" "c_dropped d = c_dropped c"
  shows "r = Inr True \<Longrightarrow> in_turn fs d" "r = Inr False \<Longrightarrow> in_turn (f # fs) d" "r = Inl x \<Longrightarrow> in_turn (f # fs) d"
    "r = Inl x \<Longrightarrow> x \<noteq> StaleConnectionEffect \<Longrightarrow> in_turn fs d" "p_epoch (c_writer c) \<le> p_epoch (c_writer d)"
proof -
  have live: "healthy (c_writer c)" if "\<not> stale epoch (c_writer c)" using that by (simp add: stale_def healthy_def)
  have more: "subseq (p_admitted (c_writer c) @ [f]) (c_sends c)" if "healthy (c_writer c)"
    using turn that by (auto simp: in_turn_def intro: subseq_order.order_trans [OF list_emb_append_mono [of _ "p_admitted (c_writer c)" "p_admitted (c_writer c)" "[f]" "f # fs"]])
  note facts = turn attempt same live more
  show "r = Inr True \<Longrightarrow> in_turn fs d" "r = Inr False \<Longrightarrow> in_turn (f # fs) d" "r = Inl x \<Longrightarrow> in_turn (f # fs) d"
    "r = Inl x \<Longrightarrow> x \<noteq> StaleConnectionEffect \<Longrightarrow> in_turn fs d" "p_epoch (c_writer c) \<le> p_epoch (c_writer d)"
    using facts by (auto simp: in_turn_def attempted_def)
qed

lemma try_send_attempted:
  assumes "try_send task e epoch c = (r, d)" "is_output e"
  shows "attempted (frame_of e) epoch (c_writer c) r (c_writer d) \<and> same_pump c d \<and> c_dropped d = c_dropped c"
proof -
  define d0 where "d0 = snd (next_call c)"
  have q: "quiet c d0" unfolding d0_def by (rule quiet_updates(11))
  then have w: "c_writer d0 = c_writer c" by (simp add: quiet_def)
  let ?x = "case e of EffSendAck bs \<Rightarrow> try_enqueue_ack (fst (next_call c)) task bs (Some epoch) (c_writer c) | _ \<Rightarrow> try_enqueue (fst (next_call c)) (frame_of e) (Some epoch) (c_writer c)"
  have eq: "try_send task e epoch c = (fst ?x, d0\<lparr>c_writer := snd ?x\<rparr>)"
    unfolding try_send_def Let_def case_prod_beta d0_def [symmetric] w by (rule refl)
  have d: "d = d0\<lparr>c_writer := snd ?x\<rparr>" and r: "r = fst ?x" using assms(1) eq by simp_all
  have "attempted (frame_of e) epoch (c_writer c) (fst ?x) (snd ?x)"
    using assms(2) try_enqueue_ack_attempted [OF prod.collapse [symmetric]] try_enqueue_attempted [OF prod.collapse [symmetric]]
    by (cases e) (simp_all add: is_output_def frame_of_def)
  moreover have "same_pump c d" "c_dropped d = c_dropped c" using q by (simp_all add: d quiet_def same_pump_def pview_def)
  ultimately show ?thesis by (simp add: d r)
qed

lemma frames_simps [simp]: "frames [] = []" "frames (xs @ ys) = frames xs @ frames ys" "frames (e # es) = (if is_output e then frame_of e # frames es else frames es)"
  by (simp_all add: frames_def)

lemma drop_same: "same_pump c (drop_send c)" "c_writer (drop_send c) = c_writer c"
  by (simp_all add: drop_send_def same_pump_def pview_def)

text \<open>One effect applied inline: taken and no longer owed, declined and still owed, or failed.\<close>

lemma inline_turn:
  assumes turn: "in_turn (frames (e # es)) c" and eq: "apply_effect_inline task e epoch c = (r, d)"
  shows "same_pump c d \<and> p_epoch (c_writer c) \<le> p_epoch (c_writer d) \<and> (r = Inr True \<longrightarrow> in_turn (frames es) d) \<and> (r = Inr False \<longrightarrow> in_turn (frames (e # es)) d)
    \<and> (\<forall>x. r = Inl x \<longrightarrow> in_turn (frames (e # es)) d \<and> in_turn (frames es) d)"
proof (cases "epoch \<noteq> c_epoch c")
  case True
  then show ?thesis
    using turn eq in_turn_drop drop_same by (auto simp: apply_effect_inline_def split: if_splits)
next
  case current: False
  show ?thesis
  proof (cases "is_output e")
    case True
    obtain r0 d0 where send: "try_send task e epoch c = (r0, d0)" by fastforce
    have facts: "attempted (frame_of e) epoch (c_writer c) r0 (c_writer d0)" "same_pump c d0" "c_dropped d0 = c_dropped c"
      using try_send_attempted [OF send True] by auto
    have turn': "in_turn (frame_of e # frames es) c" using turn True by simp
    note t = in_turn_attempted [OF turn' facts(1) same_pumpD(13) [OF facts(2)] facts(3)]
    have "in_turn (frames es) (drop_send d0)" if "r0 = Inl x" for x by (rule in_turn_drop [OF t(3) [OF that]])
    then show ?thesis
      using eq current True send t facts(2) drop_same same_pump_trans [OF facts(2) drop_same(1)]
      by (auto simp: apply_effect_inline_def split: sum.splits if_splits)
  next
    case False
    have "quiet c d" using eq current False quiet_apply_immediate quiet_raise [of c]
      by (auto simp: apply_effect_inline_def split: if_splits effect.splits prod.splits) (metis snd_conv)+
    then show ?thesis using in_turn_seals [OF quiet_seals turn [unfolded frames_simps if_not_P [OF False]]] False by (auto simp: quiet_def)
  qed
qed

subsection \<open>The invariant\<close>

abbreviation pending_frames :: "client \<Rightarrow> write_item list" where
  "pending_frames c \<equiv> frames (map snd (pm_pending c))"

definition queue_ok :: "client \<Rightarrow> bool" where
  "queue_ok c \<longleftrightarrow> pm_enqueued c = pm_applied c + int (length (pm_pending c)) \<and> distinct (map fst (pm_pending c)) \<and> (\<forall>k \<in> fst ` set (pm_pending c). k < pm_next_number c)"

text \<open>While the flusher is suspended on an effect of the current connection, that effect is the head of the queue.\<close>

definition flush_ok :: "client \<Rightarrow> bool" where
  "flush_ok c \<longleftrightarrow> (pm_failing_close c \<longrightarrow> pm_task c = Closing) \<and> (\<forall>k e ep. pm_task c = Applying k e ep \<longrightarrow> ep \<le> c_epoch c \<and> k < pm_next_number c \<and> (\<forall>e'. (k, e') \<in> set (pm_pending c) \<longrightarrow> e' = e)
     \<and> (ep = c_epoch c \<longrightarrow> pm_pending_epoch c = ep \<and> (\<exists>rest. pm_pending c = (k, e) # rest)))"

definition unwoken :: "client \<Rightarrow> bool" where
  "unwoken c \<longleftrightarrow> (\<exists>w t. (w, t, False) \<in> set (pm_waiters c))"

text \<open>A suspended \<^verbatim>\<open>drain\<close> that nobody has woken has something to wait for.\<close>

definition drain_base :: "client \<Rightarrow> bool" where
  "drain_base c \<longleftrightarrow> distinct (map fst (pm_waiters c)) \<and> (\<forall>(w, t, woken) \<in> set (pm_waiters c). w < pm_next_waiter c \<and> t \<le> pm_enqueued c \<and> (\<not> woken \<longrightarrow> \<not> pm_progress c))
     \<and> set (pm_error_waiters c) \<subseteq> fst ` set (pm_waiters c) \<and> (pm_error_waiters c \<noteq> [] \<longrightarrow> pm_error c \<noteq> None)"

definition drain_ok :: "client \<Rightarrow> bool" where
  "drain_ok c \<longleftrightarrow> drain_base c \<and> (\<forall>w t. (w, t, False) \<in> set (pm_waiters c) \<longrightarrow> pm_applied c < t \<and> w \<notin> set (pm_error_waiters c))"

definition served :: "client \<Rightarrow> bool" where
  "served c \<longleftrightarrow> (c_cancelled c = 0 \<and> unwoken c \<longrightarrow> pm_task c \<noteq> NoFlusher)"

definition client_inv :: "client \<Rightarrow> bool" where
  "client_inv c \<longleftrightarrow> queue_ok c \<and> flush_ok c \<and> drain_ok c \<and> served c \<and> c_epoch c \<le> p_epoch (c_writer c) \<and> in_turn (pending_frames c) c"

text \<open>Everything but the flusher and the frames.\<close>

definition base_inv :: "client \<Rightarrow> bool" where
  "base_inv c \<longleftrightarrow> queue_ok c \<and> drain_ok c \<and> c_epoch c \<le> p_epoch (c_writer c)"

lemma client_inv_alt: "client_inv c \<longleftrightarrow> base_inv c \<and> flush_ok c \<and> served c \<and> in_turn (pending_frames c) c"
  by (auto simp: client_inv_def base_inv_def)

lemma same_base:
  assumes "same_pump c d" "base_inv c" "p_epoch (c_writer c) \<le> p_epoch (c_writer d)"
  shows "base_inv d"
proof -
  have "queue_ok d = queue_ok c" "drain_ok d = drain_ok c" by (simp_all only: queue_ok_def drain_ok_def drain_base_def same_pumpD [OF assms(1)])
  then show ?thesis using assms(2,3) same_pumpD(12) [OF assms(1)] by (simp add: base_inv_def)
qed

lemma same_flush:
  assumes "same_pump c d" shows "flush_ok d = flush_ok c" "served d = served c"
  by (simp_all add: flush_ok_def served_def unwoken_def same_pumpD [OF assms])

text \<open>Waking everyone restores what progress may have broken.\<close>

lemma wake_drains_same [simp]:
  "pm_pending (wake_drains c) = pm_pending c" "pm_next_number (wake_drains c) = pm_next_number c" "pm_pending_epoch (wake_drains c) = pm_pending_epoch c"
  "pm_enqueued (wake_drains c) = pm_enqueued c" "pm_applied (wake_drains c) = pm_applied c" "pm_error (wake_drains c) = pm_error c" "pm_error_waiters (wake_drains c) = pm_error_waiters c"
  "pm_task (wake_drains c) = pm_task c" "c_epoch (wake_drains c) = c_epoch c" "c_sends (wake_drains c) = c_sends c" "c_writer (wake_drains c) = c_writer c"
  "c_dropped (wake_drains c) = c_dropped c" "c_cancelled (wake_drains c) = c_cancelled c" "pm_next_waiter (wake_drains c) = pm_next_waiter c"
  "pm_flush_requested (wake_drains c) = pm_flush_requested c" "in_turn fs (wake_drains c) = in_turn fs c" "queue_ok (wake_drains c) = queue_ok c" "flush_ok (wake_drains c) = flush_ok c"
  "pm_failing_close (wake_drains c) = pm_failing_close c"
  by (auto simp: wake_drains_def set_progress_def in_turn_def queue_ok_def flush_ok_def)

lemma wake_all:
  assumes "drain_base c"
  shows "drain_base (wake_drains c)" "\<not> unwoken (wake_drains c)"
proof -
  have f: "(fst \<circ> (\<lambda>(w, t, woken). (w, t, True))) = (fst :: nat \<times> int \<times> bool \<Rightarrow> nat)" by (auto simp: fun_eq_iff)
  have "fst ` (\<lambda>(w, t, woken). (w, t, True)) ` set ws = fst ` set ws" for ws :: "(nat \<times> int \<times> bool) list" by (simp add: image_image case_prod_beta)
  then show "drain_base (wake_drains c)" "\<not> unwoken (wake_drains c)"
    using assms by (auto simp: drain_base_def unwoken_def wake_drains_def set_progress_def f)
qed

lemma drain_woken: "drain_base c \<Longrightarrow> drain_ok (wake_drains c) \<and> served (wake_drains c)"
  using wake_all [of c] by (auto simp: drain_ok_def unwoken_def served_def)

lemma popped:
  assumes base: "base_inv c" and pending: "pm_pending c = p # pm_pending d"
    and same: "pm_next_number d = pm_next_number c" "pm_enqueued d = pm_enqueued c" "pm_applied d = pm_applied c" "pm_progress d = pm_progress c" "pm_waiters d = pm_waiters c"
      "pm_next_waiter d = pm_next_waiter c" "pm_error d = pm_error c" "pm_error_waiters d = pm_error_waiters c" "c_epoch d = c_epoch c" "c_writer d = c_writer c"
  shows "base_inv (complete_one d)" "served (complete_one d)"
proof -
  let ?d = "d\<lparr>pm_applied := pm_applied d + 1\<rparr>"
  have "drain_base ?d" using base by (simp add: base_inv_def drain_ok_def drain_base_def same)
  moreover have "queue_ok ?d" using base pending by (auto simp: base_inv_def queue_ok_def same)
  ultimately show "base_inv (complete_one d)" "served (complete_one d)" using base drain_woken [of ?d] by (simp_all add: complete_one_def base_inv_def same)
qed

lemma complete_turn [simp]: "in_turn fs (complete_one c) = in_turn fs c" by (simp add: complete_one_def in_turn_def)

lemma complete_same [simp]:
  "pm_pending (complete_one c) = pm_pending c" "pm_task (complete_one c) = pm_task c" "c_epoch (complete_one c) = c_epoch c" "pm_pending_epoch (complete_one c) = pm_pending_epoch c"
  "pm_next_number (complete_one c) = pm_next_number c" "c_writer (complete_one c) = c_writer c" "c_cancelled (complete_one c) = c_cancelled c" "pm_flush_requested (complete_one c) = pm_flush_requested c"
  "pm_failing_close (complete_one c) = pm_failing_close c" "c_sends (complete_one c) = c_sends c" "c_dropped (complete_one c) = c_dropped c"
  by (simp_all add: complete_one_def)

subsection \<open>Discarding\<close>

lemma discard_loop_facts:
  assumes "discard_loop settle P c = (kept, n, d)"
  shows "same_pump c d \<and> c_writer d = c_writer c \<and> kept = (if settle then [] else filter (\<lambda>p. is_terminal_publish (snd p)) P) \<and> n + length kept = length P
    \<and> (in_turn (frames (map snd P) @ fs) c \<longrightarrow> in_turn fs d)"
  using assms
proof (induction settle P c arbitrary: kept n d rule: discard_loop.induct)
  case (2 settle k e es c)
  show ?case
  proof (cases "is_terminal_publish e")
    case terminal: True
    then have out: "\<not> is_output e" by (cases e) (auto simp: is_terminal_publish_def is_output_def)
    show ?thesis
    proof (cases settle)
      case True
      obtain kept0 n0 where rec: "discard_loop settle es (settle_terminal_effect e c) = (kept0, n0, d)" and eqs: "kept = kept0" "n = n0 + 1"
        using 2(4) terminal True by (auto simp: Let_def split: prod.splits)
      have q: "quiet c (settle_terminal_effect e c)" by (rule quiet_settle_terminal)
      from 2(3) [OF _ _ rec] show ?thesis
        using q terminal True out eqs in_turn_seals [OF quiet_seals [OF q]] by (auto simp: quiet_def same_pump_def)
    next
      case False
      obtain kept0 n0 where rec: "discard_loop settle es c = (kept0, n0, d)" and eqs: "kept = (k, e) # kept0" "n = n0"
        using 2(4) terminal False by (auto simp: Let_def split: prod.splits)
      from 2(2) [OF _ _ rec] show ?thesis using terminal False out eqs by auto
    qed
  next
    case False
    let ?c = "if is_output e then drop_send c else c"
    obtain kept0 n0 where rec: "discard_loop settle es ?c = (kept0, n0, d)" and eqs: "kept = kept0" "n = n0 + 1"
      using 2(4) False by (auto simp: Let_def split: prod.splits)
    have "same_pump c ?c" "c_writer ?c = c_writer c" using drop_same by auto
    moreover have "in_turn (frames (map snd es) @ fs) ?c" if "in_turn (frames (map snd ((k, e) # es)) @ fs) c"
      using that in_turn_drop [of "frame_of e" "frames (map snd es) @ fs" c] by auto
    ultimately show ?thesis using 2(1) [OF False rec] eqs False by (auto simp: same_pump_def)
  qed
qed auto

text \<open>The queue after a discard holds at most terminal outcomes of publications, and no frame.\<close>

lemma effects_discarded:
  assumes base: "base_inv c" and turn: "in_turn (pending_frames c @ fs) c" and d: "d = discard_connection_effects settle c"
  shows "base_inv d" "served d" "in_turn fs d" "pending_frames d = []" "c_epoch d = c_epoch c" "pm_task d = pm_task c" "set (pm_pending d) \<subseteq> set (pm_pending c)"
    "settle \<Longrightarrow> pm_pending d = []" "pm_pending d \<noteq> [] \<Longrightarrow> pm_pending_epoch d = c_epoch d" "pm_next_number d = pm_next_number c" "c_cancelled d = c_cancelled c"
    "pm_failing_close d = pm_failing_close c" "c_writer d = c_writer c" "c_sends d = c_sends c"
proof -
  obtain kept n c1 where loop: "discard_loop settle (pm_pending c) c = (kept, n, c1)" by (cases "discard_loop settle (pm_pending c) c") auto
  note f = discard_loop_facts [OF loop, of fs]
  let ?c2 = "c1\<lparr>pm_pending := kept, pm_pending_epoch := (if kept \<noteq> [] then c_epoch c1 else pm_pending_epoch c1), pm_applied := pm_applied c1 + int n\<rparr>"
  have d': "d = wake_drains ?c2" using loop by (simp add: d discard_connection_effects_def)
  note same = same_pumpD [OF conjunct1 [OF f]]
  have kept: "kept = (if settle then [] else filter (\<lambda>p. is_terminal_publish (snd p)) (pm_pending c))" and n: "int n + int (length kept) = int (length (pm_pending c))" using f by auto
  have w: "c_writer c1 = c_writer c" using f by simp
  have "frames (map snd (filter (\<lambda>p. is_terminal_publish (snd p)) xs)) = []" for xs :: "(nat \<times> effect) list"
  proof (induction xs)
    case (Cons x xs)
    then show ?case by (cases "snd x") (auto simp: is_terminal_publish_def is_output_def)
  qed simp
  then show "pending_frames d = []" by (simp add: d' kept)
  have "queue_ok ?c2"
  proof -
    have "distinct (map fst kept)" using base by (auto simp: base_inv_def queue_ok_def kept distinct_map_filter)
    then show ?thesis using base n by (auto simp: base_inv_def queue_ok_def same kept)
  qed
  moreover have "drain_base ?c2" using base by (simp add: base_inv_def drain_ok_def drain_base_def same)
  ultimately show "base_inv d" "served d" using base drain_woken [of ?c2] by (auto simp: d' base_inv_def same w)
  have "in_turn fs c1" using f turn by simp
  then show "in_turn fs d" by (simp add: d' in_turn_def)
  show "c_epoch d = c_epoch c" "pm_task d = pm_task c" "set (pm_pending d) \<subseteq> set (pm_pending c)" "settle \<Longrightarrow> pm_pending d = []"
    "pm_pending d \<noteq> [] \<Longrightarrow> pm_pending_epoch d = c_epoch d" "pm_next_number d = pm_next_number c" "c_cancelled d = c_cancelled c"
    "pm_failing_close d = pm_failing_close c" "c_writer d = c_writer c" "c_sends d = c_sends c"
    using w by (auto simp: d' same kept)
qed

subsection \<open>Collecting\<close>

lemma kinds:
  "is_output e \<or> is_delivery e \<or> is_immediate e \<or> is_early_observation e" "is_output e \<Longrightarrow> \<not> is_delivery e \<and> \<not> is_immediate e \<and> \<not> is_early_observation e"
  "is_delivery e \<Longrightarrow> \<not> is_immediate e \<and> \<not> is_early_observation e" "is_immediate e \<Longrightarrow> \<not> is_early_observation e"
  by (cases e; simp add: is_output_def is_delivery_def is_immediate_def is_early_observation_def)+

lemma partition_loop_exact:
  "\<exists>flag. partition_loop es sends others deliveries observed reordered =
     (sends @ filter is_output es, others @ filter is_early_observation es, deliveries @ filter is_delivery es,
      observed @ filter (\<lambda>e. is_immediate e \<or> is_early_observation e) es, flag)"
proof (induction es arbitrary: sends others deliveries observed reordered)
  case (Cons e es)
  consider "is_output e" | "is_delivery e" | "is_immediate e" | "is_early_observation e" using kinds(1) by blast
  then show ?case
  proof cases
    case 1
    then show ?thesis using Cons [of "sends @ [e]" others deliveries observed "reordered \<or> others \<noteq> [] \<or> deliveries \<noteq> []"] kinds(2) [OF 1] by simp
  next
    case 2
    then show ?thesis using Cons [of sends others "deliveries @ [e]" observed reordered] kinds(2,3) by auto
  next
    case 3
    then show ?thesis using Cons [of sends others deliveries "observed @ [e]" reordered] kinds(2,3,4) by auto
  next
    case 4
    then show ?thesis using Cons [of sends "others @ [e]" deliveries "observed @ [e]" reordered] kinds(2,3,4) by auto
  qed
qed simp

lemma partition_exact:
  "\<exists>flag. partition_effects effects = (filter is_output effects @ filter is_early_observation effects, filter is_delivery effects,
     filter (\<lambda>e. is_immediate e \<or> is_early_observation e) effects, flag)"
proof -
  obtain flag where loop: "partition_loop effects [] [] [] [] False =
     (filter is_output effects, filter is_early_observation effects, filter is_delivery effects, filter (\<lambda>e. is_immediate e \<or> is_early_observation e) effects, flag)"
    using partition_loop_exact [of effects "[]" "[]" "[]" "[]" False] by auto
  have all: "effects = filter is_output effects @ filter is_early_observation effects"
    if "filter is_delivery effects = []" "filter (\<lambda>e. is_immediate e \<or> is_early_observation e) effects = []"
  proof -
    have "\<forall>e \<in> set effects. is_output e" using that kinds(1) by (fastforce simp: filter_empty_conv)
    then have "filter is_output effects = effects" "filter is_early_observation effects = []" using kinds(2) by (auto simp: filter_empty_conv)
    then show ?thesis by simp
  qed
  show ?thesis unfolding partition_effects_def loop using all by auto
qed

lemma frames_filter: "frames (filter is_output es) = frames es" "frames (filter is_delivery es) = []" "frames (filter is_early_observation es) = []"
  using kinds(2) by (auto simp: frames_def filter_empty_conv)

lemma number_effects_simps: "map snd (number_effects k es) = es" "map fst (number_effects k es) = [k ..< k + length es]"
  by (simp_all add: number_effects_def)

lemma queue_effects_inv:
  assumes base: "base_inv c" and fl: "flush_ok c" and sv: "served c" and turn: "in_turn (pending_frames c @ frames es) c"
  shows "client_inv (queue_effects es c)"
proof -
  let ?d = "queue_effects es c"
  have "a < k + length es \<and> k \<le> a" if "(a, b) \<in> set (number_effects k es)" for a b k using that by (auto simp: number_effects_def in_set_zip)
  then have "distinct (map fst (pm_pending ?d)) \<and> (\<forall>k \<in> fst ` set (pm_pending ?d). k < pm_next_number ?d)"
    using base by (fastforce simp: queue_effects_def base_inv_def queue_ok_def number_effects_simps)
  then have "queue_ok ?d" using base by (simp add: queue_effects_def base_inv_def queue_ok_def number_effects_def)
  moreover have "drain_ok ?d" using base by (auto simp: base_inv_def drain_ok_def drain_base_def queue_effects_def)
  moreover have "flush_ok ?d"
    unfolding flush_ok_def
  proof (intro conjI allI impI)
    show "pm_failing_close ?d \<Longrightarrow> pm_task ?d = Closing" using fl by (simp add: flush_ok_def queue_effects_def)
    fix k e ep assume "pm_task ?d = Applying k e ep"
    then have "pm_task c = Applying k e ep" by (simp add: queue_effects_def)
    then have t: "ep \<le> c_epoch c" "k < pm_next_number c" "\<forall>e'. (k, e') \<in> set (pm_pending c) \<longrightarrow> e' = e"
        "ep = c_epoch c \<longrightarrow> pm_pending_epoch c = ep \<and> (\<exists>rest. pm_pending c = (k, e) # rest)"
      using fl unfolding flush_ok_def by blast+
    have "(k, e') \<notin> set (number_effects (pm_next_number c) es)" for e' using t(2) by (auto simp: number_effects_def in_set_zip)
    with t show "ep \<le> c_epoch ?d" "k < pm_next_number ?d" "(k, e') \<in> set (pm_pending ?d) \<Longrightarrow> e' = e"
        "ep = c_epoch ?d \<Longrightarrow> pm_pending_epoch ?d = ep" "ep = c_epoch ?d \<Longrightarrow> \<exists>rest. pm_pending ?d = (k, e) # rest" for e'
      by (auto simp: queue_effects_def)
  qed
  moreover have "in_turn (pending_frames ?d) ?d" using turn by (simp add: queue_effects_def number_effects_simps in_turn_def)
  moreover have "served ?d" "c_epoch ?d \<le> p_epoch (c_writer ?d)" using sv base by (simp_all add: queue_effects_def served_def unwoken_def base_inv_def)
  ultimately show ?thesis by (simp add: client_inv_def)
qed

lemma seals_inv:
  assumes "at_most_seals c d" "base_inv c" "flush_ok c" "served c" "in_turn fs c"
  shows "base_inv d" "flush_ok d" "served d" "in_turn fs d" "pm_pending d = pm_pending c"
proof -
  have s: "same_pump c d" using assms(1) by (simp add: at_most_seals_def)
  show "base_inv d" by (rule same_base [OF s assms(2)]) (use assms(1) in \<open>simp add: at_most_seals_def\<close>)
  show "flush_ok d" "served d" "in_turn fs d" "pm_pending d = pm_pending c" using same_flush [OF s] assms(3,4) in_turn_seals [OF assms(1,5)] same_pumpD(1) [OF s] by auto
qed

lemma queue_batch_inv:
  assumes "base_inv c" "flush_ok c" "served c" "in_turn (pending_frames c @ frames es) c"
  shows "client_inv (queue_batch es deliveries c)"
proof -
  let ?d = "queue_effects es c"
  have "quiet ?d (queue_batch es deliveries c)"
    using quiet_trans [OF quiet_updates(19,18)] quiet_updates(18) by (simp add: queue_batch_def Let_def)
  from seals_inv [OF quiet_seals [OF this], of "pending_frames ?d"] queue_effects_inv [OF assms] show ?thesis by (simp add: client_inv_alt)
qed

lemma observe_single_inv:
  assumes pre: "base_inv c" "flush_ok c" "served c" "in_turn (pending_frames c @ frames [e]) c" and eq: "observe_single e c = (r, d)"
  shows "base_inv d \<and> flush_ok d \<and> served d \<and> in_turn (pending_frames d @ frames [e]) d \<and> (r = Inr True \<longrightarrow> client_inv d) \<and> (\<forall>x. r \<noteq> Inl x)"
proof (cases "is_immediate e \<or> is_early_observation e")
  case True
  let ?c = "c\<lparr>pm_observations := pm_observations c + 1\<rparr>"
  have d: "d = snd (apply_observation e ?c)" and r: "r = Inr (fst (apply_observation e ?c))" using eq True by (auto simp: observe_single_def split: prod.splits)
  have "at_most_seals c d" unfolding d by (rule seals_trans [OF quiet_seals [OF quiet_updates(13)] seals_observation])
  note s = seals_inv [OF this pre]
  moreover have "frames [e] = []" using True kinds(2) by auto
  ultimately show ?thesis using r by (simp add: client_inv_alt)
next
  case False
  then show ?thesis using pre eq by (auto simp: observe_single_def)
qed

lemma collect_single_inv:
  assumes pre: "base_inv c" "flush_ok c" "served c" "in_turn (pending_frames c @ frames [e]) c" and eq: "collect_single task e c = (r, d)"
  shows "(r \<noteq> Inr False \<longrightarrow> client_inv d) \<and> (r = Inr False \<longrightarrow> base_inv d \<and> flush_ok d \<and> served d \<and> in_turn (pending_frames d @ frames [e]) d)"
proof (cases "is_delivery e")
  case True
  have "d = sample_pump_high_water (collect_deliveries [e] c)" "r = Inr True" using eq True by (auto simp: collect_single_def)
  moreover have "frames [e] = []" using True kinds(2) by auto
  ultimately show ?thesis using seals_inv [OF quiet_seals [OF quiet_trans [OF quiet_updates(19,18)]] pre] by (simp add: client_inv_alt)
next
  case other: False
  show ?thesis
  proof (cases "pm_pending c = []")
    case True
    obtain r0 d0 where inline: "apply_effect_inline task e (c_epoch c) c = (r0, d0)" by fastforce
    have "in_turn (frames (e # [])) c" using pre(4) True by simp
    note t = inline_turn [OF this inline]
    have same: "same_pump c d0" using t by simp
    have d0: "base_inv d0" "flush_ok d0" "served d0" "pm_pending d0 = []"
      using same_base [OF same pre(1)] t same_flush [OF same] pre(2,3) same_pumpD(1) [OF same] True by auto
    show ?thesis
    proof (cases r0)
      case (Inl x)
      then have "r = Inl x" "d = d0" using eq other True inline by (auto simp: collect_single_def)
      then show ?thesis using d0 t Inl by (simp add: client_inv_alt)
    next
      case (Inr b)
      show ?thesis
      proof (cases b)
        case True
        then have r: "r = Inr True" and d: "d = d0\<lparr>pm_inline_effects := pm_inline_effects d0 + 1\<rparr>" using eq other Inr \<open>pm_pending c = []\<close> inline by (auto simp: collect_single_def)
        have "in_turn [] d0" using t Inr True by simp
        from seals_inv [OF quiet_seals [OF quiet_updates(12)] d0(1-3) this] show ?thesis using d0(4) r by (simp add: d client_inv_alt)
      next
        case False
        then have "observe_single e d0 = (r, d)" using eq other Inr \<open>pm_pending c = []\<close> inline by (auto simp: collect_single_def)
        from observe_single_inv [OF d0(1-3) _ this] show ?thesis using t Inr False d0(4) by (cases r) auto
      qed
    qed
  next
    case False
    then have "observe_single e c = (r, d)" using eq other by (simp add: collect_single_def)
    from observe_single_inv [OF pre this] show ?thesis by (cases r) auto
  qed
qed

definition retired_flush :: "client \<Rightarrow> bool" where
  "retired_flush c \<longleftrightarrow> (\<forall>k e ep. pm_task c = Applying k e ep \<longrightarrow> ep \<noteq> c_epoch c)"

lemma discard_flush:
  assumes base: "base_inv c" and turn: "in_turn (pending_frames c @ fs) c" and fl: "flush_ok c" and gone: "retired_flush c"
  shows "flush_ok (discard_connection_effects settle c)" "retired_flush (discard_connection_effects settle c)"
proof -
  note d = effects_discarded [OF base turn refl, of settle]
  show "retired_flush (discard_connection_effects settle c)" using gone d(5,6) by (simp add: retired_flush_def)
  show "flush_ok (discard_connection_effects settle c)"
    using fl gone d(5,6,7,10,12) unfolding flush_ok_def retired_flush_def by (metis subsetD)
qed

lemma discard_client_inv:
  assumes "client_inv c" "retired_flush c"
  shows "client_inv (discard_connection_effects settle c)"
proof -
  have pre: "base_inv c" "in_turn (pending_frames c @ []) c" "flush_ok c" using assms(1) by (simp_all add: client_inv_alt)
  note d = effects_discarded [OF pre(1,2) refl, of settle] and fl = discard_flush [OF pre assms(2), of settle]
  show ?thesis unfolding client_inv_alt d(4) using d(1-3) fl(1) by blast
qed

lemma discard_task:
  assumes "client_inv c"
  shows "pm_task (discard_connection_effects settle c) = pm_task c"
proof -
  have pre: "base_inv c" "in_turn (pending_frames c @ []) c" using assms by (simp_all add: client_inv_alt)
  show ?thesis by (rule effects_discarded(6) [OF pre refl])
qed

text \<open>Effects of another connection than the current one are not being applied.\<close>

lemma other_epoch_retired: "flush_ok c \<Longrightarrow> pm_pending_epoch c \<noteq> c_epoch c \<Longrightarrow> retired_flush c"
  by (auto simp: flush_ok_def retired_flush_def)

lemma closing_retired: "flush_ok c \<Longrightarrow> pm_failing_close c \<Longrightarrow> retired_flush c"
  by (simp add: flush_ok_def retired_flush_def)

lemma collect_many_inv:
  assumes pre: "base_inv c" "flush_ok c" "served c" "in_turn (pending_frames c @ frames es) c"
  shows "client_inv (collect_many es c)"
proof -
  obtain flag where part: "partition_effects es = (filter is_output es @ filter is_early_observation es, filter is_delivery es, filter (\<lambda>e. is_immediate e \<or> is_early_observation e) es, flag)"
    using partition_exact by blast
  define obs where "obs = filter (\<lambda>e. is_immediate e \<or> is_early_observation e) es"
  define d where "d = c\<lparr>pm_multi_effect_batches := pm_multi_effect_batches c + 1, pm_reordered_batches := pm_reordered_batches c + (if flag then 1 else 0)\<rparr>"
  define d1 where "d1 = (if obs \<noteq> [] then fold (\<lambda>e c. snd (apply_observation e c)) obs (d\<lparr>pm_observations := pm_observations d + length obs\<rparr>) else d)"
  have d: "at_most_seals c d" unfolding d_def by (rule quiet_seals [OF quiet_updates(20)])
  have o: "at_most_seals d (fold (\<lambda>e c. snd (apply_observation e c)) obs (d\<lparr>pm_observations := pm_observations d + length obs\<rparr>))"
    by (rule seals_trans [OF quiet_seals [OF quiet_updates(13)] seals_observations])
  have s1: "at_most_seals c d1" unfolding d1_def using seals_trans [OF d o] d by simp
  note s = seals_inv [OF s1 pre]
  have fr: "frames (filter is_output es @ filter is_early_observation es) = frames es" by (simp add: frames_filter)
  have q: "client_inv (queue_batch (filter is_output es @ filter is_early_observation es) (filter is_delivery es) d1)"
    by (rule queue_batch_inv [OF s(1-3)]) (use s(4,5) fr in simp)
  have "client_inv d1" if "filter is_output es @ filter is_early_observation es = []"
  proof -
    have "frames es = []" using fr unfolding that by simp
    then show ?thesis using s by (simp add: client_inv_alt)
  qed
  moreover have "collect_many es c =
      (if obs \<noteq> [] then
         (if filter is_output es @ filter is_early_observation es = [] \<and> filter is_delivery es = []
          then fold (\<lambda>e c. snd (apply_observation e c)) obs (d\<lparr>pm_observations := pm_observations d + length obs\<rparr>)
          else queue_batch (filter is_output es @ filter is_early_observation es) (filter is_delivery es)
            (fold (\<lambda>e c. snd (apply_observation e c)) obs (d\<lparr>pm_observations := pm_observations d + length obs\<rparr>)))
       else queue_batch (filter is_output es @ filter is_early_observation es) (filter is_delivery es) d)"
    unfolding collect_many_def part prod.case Let_def d_def obs_def by (rule refl)
  ultimately show ?thesis using q unfolding d1_def by (cases "obs = []") simp_all
qed

lemma collect_effects_inv:
  assumes inv: "client_inv c" and eq: "collect_effects task es c = (r, d)"
  shows "client_inv d"
proof (cases "es = []")
  case False
  define c1 where "c1 = c\<lparr>pm_batches := pm_batches c + 1, c_sends := c_sends c @ frames es\<rparr>"
  define c2 where "c2 = (if pm_pending c1 \<noteq> [] \<and> pm_pending_epoch c1 \<noteq> c_epoch c1 then discard_connection_effects False c1 else c1)"
  have c1: "base_inv c1" "flush_ok c1" "served c1"
    using inv by (auto simp: client_inv_def base_inv_def c1_def queue_ok_def drain_ok_def drain_base_def flush_ok_def served_def unwoken_def)
  have t1: "in_turn (pending_frames c1 @ frames es) c1"
    using inv in_turn_collect [of "pending_frames c" c c1 "frames es"] by (simp add: client_inv_def c1_def)
  have c2: "base_inv c2" "flush_ok c2" "served c2" "in_turn (pending_frames c2 @ frames es) c2"
    using c1 t1 effects_discarded [OF c1(1) t1 refl, of False] discard_flush [OF c1(1) t1 c1(2) other_epoch_retired [OF c1(2)], of False]
    by (auto simp: c2_def)
  have body: "collect_effects task es c =
     (if pm_failing_close c2 then
        (let d = queue_effects es c2 in (Inr (), discard_connection_effects True (d\<lparr>pm_high_water := max (pm_high_water d) (int (length (pm_pending d)))\<rparr>)))
      else case es of
        [e] \<Rightarrow> (case collect_single task e c2 of (Inl x, d) \<Rightarrow> (Inl x, d) | (Inr True, d) \<Rightarrow> (Inr (), d) | (Inr False, d) \<Rightarrow> (Inr (), queue_batch [e] [] d))
      | _ \<Rightarrow> (Inr (), collect_many es c2))"
    unfolding collect_effects_def if_not_P [OF False] Let_def c2_def c1_def by (rule refl)
  show ?thesis
  proof (cases "pm_failing_close c2")
    case True
    let ?q = "queue_effects es c2"
    let ?h = "?q\<lparr>pm_high_water := max (pm_high_water ?q) (int (length (pm_pending ?q)))\<rparr>"
    have q: "client_inv ?q" by (rule queue_effects_inv [OF c2])
    have "client_inv ?h"
      using seals_inv [OF quiet_seals [OF quiet_updates(21)], of ?q "pending_frames ?q"] q by (simp add: client_inv_alt)
    moreover have "retired_flush ?h" using closing_retired [OF c2(2) True] by (simp add: retired_flush_def queue_effects_def)
    ultimately have "client_inv (discard_connection_effects True ?h)" by (rule discard_client_inv)
    then show ?thesis using eq True unfolding body by (simp add: Let_def)
  next
    case calm: False
    show ?thesis
    proof (cases "\<exists>e. es = [e]")
      case True
      then obtain e where e: "es = [e]" by blast
      obtain r0 d0 where single: "collect_single task e c2 = (r0, d0)" by fastforce
      note s = collect_single_inv [OF c2(1-3) c2(4) [unfolded e] single]
      show ?thesis
      proof (cases "r0 = Inr False")
        case True
        then have "d = queue_batch [e] [] d0" using eq calm single unfolding body by (simp add: e)
        then show ?thesis using queue_batch_inv [of d0 "[e]" "[]"] s True by simp
      next
        case False
        then have "d = d0" using eq calm single unfolding body by (auto simp: e split: sum.splits bool.splits)
        then show ?thesis using s False by simp
      qed
    next
      case many: False
      then obtain e e' es' where "es = e # e' # es'" using False by (cases es rule: list.exhaust; metis list.exhaust)
      then have "d = collect_many es c2" using eq calm unfolding body by simp
      then show ?thesis using collect_many_inv [OF c2] by simp
    qed
  qed
qed (use inv eq in \<open>simp add: collect_effects_def\<close>)

subsection \<open>Draining\<close>

lemma idle_flush:
  assumes "\<not> pump_locked c" "\<not> pm_failing_close c"
  shows "flush_ok c" "retired_flush c"
  using assms by (auto simp: pump_locked_def flush_ok_def retired_flush_def split: flusher.splits)

lemma drain_loop_inv:
  assumes "client_inv c" "pm_pending c = P" "\<not> pump_locked c" "drain_loop task target epoch P c = (r, d)"
  shows "client_inv d \<and> pm_task d = pm_task c"
  using assms
proof (induction P arbitrary: c)
  case (Cons p rest)
  obtain k e where p: "p = (k, e)" by fastforce
  show ?case
  proof (cases "case target of None \<Rightarrow> True | Some t \<Rightarrow> pm_applied c < t")
    case True
    obtain r0 d0 where inline: "apply_effect_inline task e epoch c = (r0, d0)" by fastforce
    have "in_turn (frames (e # map snd rest)) c" using Cons(2,3) p by (simp add: client_inv_def)
    note t = inline_turn [OF this inline]
    have same: "same_pump c d0" using t by simp
    have base: "base_inv d0" "flush_ok d0" "served d0"
      using same_base [OF same] t same_flush [OF same] Cons(2) by (auto simp: client_inv_alt)
    have pend: "pm_pending d0 = (k, e) # rest" using same_pumpD(1) [OF same] Cons(3) p by simp
    show ?thesis
    proof (cases "r0 = Inr True")
      case ok: True
      let ?d = "complete_one (d0\<lparr>pm_pending := rest, pm_inline_effects := pm_inline_effects d0 + 1\<rparr>)"
      have rec: "drain_loop task target epoch rest ?d = (r, d)" using Cons(5) True inline ok p by simp
      have task: "pm_task ?d = pm_task c" "pm_pending ?d = rest" using same_pumpD(11) [OF same] by simp_all
      then have lock: "\<not> pump_locked ?d" using Cons(4) by (simp add: pump_locked_def)
      have "pm_failing_close c \<longrightarrow> False" using Cons(2,4) by (auto simp: client_inv_def flush_ok_def pump_locked_def)
      then have "\<not> pm_failing_close ?d" using same_pumpD(15) [OF same] by simp
      moreover have "in_turn (frames (map snd rest)) ?d" using t ok by (simp add: in_turn_def)
      ultimately have "client_inv ?d"
        using popped [OF base(1), of "(k, e)" "d0\<lparr>pm_pending := rest, pm_inline_effects := pm_inline_effects d0 + 1\<rparr>"] pend idle_flush [OF lock] task by (simp add: client_inv_alt)
      from Cons(1) [OF this task(2) lock rec] show ?thesis using task by simp
    next
      case False
      then have "d = d0" using Cons(5) True inline p by (auto split: sum.splits bool.splits)
      moreover have "in_turn (pending_frames d0) d0"
        using t False pend by (cases r0) auto
      ultimately show ?thesis using base same_pumpD(11) [OF same] by (simp add: client_inv_alt)
    qed
  next
    case False
    then show ?thesis using Cons p by auto
  qed
qed auto

text \<open>The task and the counters of requests and cancellations matter only to the flusher's part of the invariant.\<close>

lemma task_base:
  "base_inv (c\<lparr>pm_task := t\<rparr>) = base_inv c" "in_turn fs (c\<lparr>pm_task := t\<rparr>) = in_turn fs c" "base_inv (c\<lparr>pm_flush_requested := b, pm_task := t\<rparr>) = base_inv c"
  "in_turn fs (c\<lparr>pm_flush_requested := b, pm_task := t\<rparr>) = in_turn fs c" "base_inv (c\<lparr>pm_flush_requested := b\<rparr>) = base_inv c" "in_turn fs (c\<lparr>pm_flush_requested := b\<rparr>) = in_turn fs c"
  "base_inv (c\<lparr>pm_failing_close := b\<rparr>) = base_inv c" "in_turn fs (c\<lparr>pm_failing_close := b\<rparr>) = in_turn fs c"
  by (simp_all add: base_inv_def queue_ok_def drain_ok_def drain_base_def in_turn_def)

lemma schedule_flush_parts:
  "base_inv (schedule_flush c) = base_inv c" "in_turn fs (schedule_flush c) = in_turn fs c" "pm_pending (schedule_flush c) = pm_pending c" "served (schedule_flush c)"
  by (simp_all add: schedule_flush_def task_base served_def)

lemma schedule_inv:
  assumes "client_inv c"
  shows "client_inv (schedule_flush c)"
proof -
  have "flush_ok (schedule_flush c)" using assms by (auto simp: client_inv_def schedule_flush_def flush_ok_def)
  then show ?thesis using assms by (simp add: client_inv_alt schedule_flush_parts)
qed

lemma drain_inline_inv:
  assumes inv: "client_inv c" and eq: "drain_inline task target c = (r, d)"
  shows "client_inv d"
proof (cases "pm_draining_inline c \<or> pump_locked c \<or> pm_pending c = []")
  case True
  then show ?thesis using inv eq by (auto simp: drain_inline_def)
next
  case False
  define e where "e = (if pm_pending_epoch c \<noteq> c_epoch c then discard_connection_effects False c else c)"
  have free: "\<not> pm_failing_close c" using inv False by (auto simp: client_inv_def flush_ok_def pump_locked_def)
  have e: "client_inv e" "\<not> pump_locked e"
  proof -
    have "retired_flush c" using idle_flush(2) free False by blast
    then show "client_inv e" using discard_client_inv inv by (simp add: e_def)
    show "\<not> pump_locked e" using False discard_task [OF inv, of False] by (simp add: e_def pump_locked_def)
  qed
  have body: "drain_inline task target c =
      (if pm_pending e = [] then (Inr (), e)
       else case drain_loop task target (pm_pending_epoch e) (pm_pending e) (e\<lparr>pm_draining_inline := True\<rparr>) of
              (Inl x, d1) \<Rightarrow> (Inl x, d1\<lparr>pm_draining_inline := False\<rparr>)
            | (Inr _, d1) \<Rightarrow> (let d2 = d1\<lparr>pm_draining_inline := False\<rparr> in (Inr (), if pm_pending d2 \<noteq> [] then schedule_flush d2 else d2)))"
    unfolding drain_inline_def if_not_P [OF False] Let_def e_def by (rule refl)
  show ?thesis
  proof (cases "pm_pending e = []")
    case True
    then show ?thesis using eq e unfolding body by simp
  next
    case more: False
    let ?f = "e\<lparr>pm_draining_inline := True\<rparr>"
    obtain r0 d0 where loop: "drain_loop task target (pm_pending_epoch e) (pm_pending e) ?f = (r0, d0)" by fastforce
    have f: "client_inv ?f" using seals_inv [OF quiet_seals [OF quiet_updates(14)], of e "pending_frames e"] e(1) by (simp add: client_inv_alt)
    have "client_inv d0" using drain_loop_inv [OF f _ _ loop] e(2) by (simp add: pump_locked_def)
    then have d1: "client_inv (d0\<lparr>pm_draining_inline := False\<rparr>)"
      using seals_inv [OF quiet_seals [OF quiet_updates(14)], of d0 "pending_frames d0"] by (simp add: client_inv_alt)
    have "d = d0\<lparr>pm_draining_inline := False\<rparr> \<or> d = schedule_flush (d0\<lparr>pm_draining_inline := False\<rparr>)"
      using eq more loop unfolding body by (auto simp: Let_def split: sum.splits if_splits)
    then show ?thesis using d1 schedule_inv by auto
  qed
qed

subsection \<open>The flusher\<close>

lemma empty_unwoken:
  assumes "base_inv c" "pm_pending c = []"
  shows "\<not> unwoken c"
proof
  assume "unwoken c"
  then obtain w t where w: "(w, t, False) \<in> set (pm_waiters c)" by (auto simp: unwoken_def)
  have "pm_applied c < t" using assms(1) w unfolding base_inv_def drain_ok_def by blast
  moreover have "t \<le> pm_enqueued c" using assms(1) w unfolding base_inv_def drain_ok_def drain_base_def by fastforce
  moreover have "pm_enqueued c = pm_applied c" using assms by (simp add: base_inv_def queue_ok_def)
  ultimately show False by simp
qed

lemma flusher_done_inv:
  assumes base: "base_inv c" and turn: "in_turn (pending_frames c) c" and calm: "\<not> pm_failing_close c" and why: "pm_pending c = [] \<or> 0 < c_cancelled c"
  shows "client_inv (flusher_done failed c)"
proof -
  let ?d = "c\<lparr>pm_task := NoFlusher\<rparr>"
  have "served ?d" using why empty_unwoken [OF base] by (auto simp: served_def unwoken_def)
  moreover have "flush_ok ?d" using calm by (simp add: flush_ok_def)
  ultimately have d: "client_inv ?d" using base turn by (simp add: client_inv_alt task_base)
  then have "client_inv (?d\<lparr>pm_error := None\<rparr>)" if "pm_error_waiters ?d = []"
    using that by (auto simp: client_inv_def queue_ok_def drain_ok_def drain_base_def flush_ok_def served_def unwoken_def in_turn_def)
  with d show ?thesis using schedule_inv by (simp add: flusher_done_def Let_def)
qed

lemma flush_start_inv: "client_inv c \<Longrightarrow> pm_task c = Created \<Longrightarrow> client_inv (flush_start c)"
  by (auto simp: client_inv_alt flush_start_def base_inv_def queue_ok_def drain_ok_def drain_base_def in_turn_def flush_ok_def served_def)

lemma in_turn_dropped: "in_turn fs c \<Longrightarrow> in_turn fs (drop_send c)"
  by (simp add: in_turn_def drop_send_def)

lemma pop_parts [simp]:
  "c_epoch (pop_applied k c) = c_epoch c" "pm_task (pop_applied k c) = pm_task c" "c_writer (pop_applied k c) = c_writer c" "pm_failing_close (pop_applied k c) = pm_failing_close c"
  "pm_pending_epoch (pop_applied k c) = pm_pending_epoch c" "c_cancelled (pop_applied k c) = c_cancelled c"
  by (auto simp: pop_applied_def split: list.split)

lemma pop_head:
  assumes base: "base_inv c" and pending: "pm_pending c = (k, e) # rest" and turn: "in_turn (frames (map snd rest)) c"
  shows "base_inv (pop_applied k c)" "served (pop_applied k c)" "in_turn (pending_frames (pop_applied k c)) (pop_applied k c)"
proof -
  have eq: "pop_applied k c = complete_one (c\<lparr>pm_pending := rest\<rparr>)" using pending by (simp add: pop_applied_def)
  show "base_inv (pop_applied k c)" "served (pop_applied k c)"
    unfolding eq by (rule popped [OF base, of "(k, e)"]; simp add: pending)+
  show "in_turn (pending_frames (pop_applied k c)) (pop_applied k c)" using turn by (simp add: eq in_turn_def)
qed

lemma fail_connection_inv:
  assumes base: "base_inv c" and turn: "in_turn (pending_frames c) c"
  shows "client_inv (fail_connection x c)"
proof -
  define owners where "owners = map fst (filter (\<lambda>(w, target, woken). target \<ge> pm_applied c) (pm_waiters c))"
  define d where "d = (if owners \<noteq> [] then set_progress (c\<lparr>pm_error := Some x, pm_error_waiters := owners\<rparr>) else c)"
  define d1 where "d1 = (propose_disconnect_cause x CAUSE_TRANSPORT (fail_connack x d))\<lparr>pm_failing_close := True\<rparr>"
  have base_d: "base_inv d"
  proof (cases "owners = []")
    case False
    let ?e = "c\<lparr>pm_error := Some x, pm_error_waiters := owners\<rparr>"
    have "pm_waiters c \<noteq> []" using False by (auto simp: owners_def)
    then have d: "d = wake_drains ?e" using False by (simp add: d_def wake_drains_def)
    have "drain_base ?e" using base by (auto simp: base_inv_def drain_ok_def drain_base_def owners_def)
    then show ?thesis using drain_woken base by (simp add: d base_inv_def) (simp add: queue_ok_def)
  qed (use base in \<open>simp add: d_def\<close>)
  have turn_d: "in_turn (pending_frames d @ []) d" using turn by (simp add: d_def set_progress_def in_turn_def)
  have q: "at_most_seals d (propose_disconnect_cause x CAUSE_TRANSPORT (fail_connack x d))" by (rule quiet_seals [OF quiet_trans [OF quiet_updates(2,1)]])
  have s: "same_pump d (propose_disconnect_cause x CAUSE_TRANSPORT (fail_connack x d))" using q by (simp add: at_most_seals_def)
  have base1: "base_inv d1" unfolding d1_def task_base by (rule same_base [OF s base_d]) (use q in \<open>simp add: at_most_seals_def\<close>)
  have turn1: "in_turn (pending_frames d1 @ []) d1" using in_turn_seals [OF q turn_d] same_pumpD(1) [OF s] by (simp add: d1_def task_base)
  note e = effects_discarded [OF base1 turn1 refl, of True]
  have eq: "fail_connection x c = (discard_connection_effects True d1)\<lparr>pm_task := Closing\<rparr>"
    unfolding fail_connection_def Let_def owners_def d_def d1_def by (rule refl)
  show ?thesis unfolding eq client_inv_alt task_base using e(1,3,8) by (simp add: flush_ok_def served_def)
qed

lemma fail_closed_inv:
  assumes inv: "client_inv c" and task: "pm_task c = Closing"
  shows "client_inv (fail_closed raised c)"
proof -
  have ret: "retired_flush c" using task by (simp add: retired_flush_def)
  define d where "d = (if pm_pending c \<noteq> [] then discard_connection_effects True c else c)"
  have pre: "base_inv c" "in_turn (pending_frames c @ []) c" using inv by (simp_all add: client_inv_alt)
  have d: "base_inv d" "in_turn (pending_frames d) d" "pm_pending d = []"
    using inv discard_client_inv [OF inv ret, of True] effects_discarded(8) [OF pre refl, of True] by (auto simp: d_def client_inv_alt)
  have "client_inv (flusher_done raised (d\<lparr>pm_failing_close := False\<rparr>))"
    by (rule flusher_done_inv) (use d in \<open>simp_all add: task_base\<close>)
  then show ?thesis by (simp add: fail_closed_def d_def Let_def)
qed

lemma apply_send_turn:
  assumes turn: "in_turn (frame_of e # fs) c" and out: "is_output e" and eq: "apply_send task e epoch c = (a, d)"
  shows "same_pump c d \<and> p_epoch (c_writer c) \<le> p_epoch (c_writer d) \<and> (a = Pending \<longrightarrow> in_turn (frame_of e # fs) d) \<and> (a \<noteq> Pending \<longrightarrow> in_turn fs d)"
proof -
  obtain r0 d0 where send: "try_send task e epoch c = (r0, d0)" by fastforce
  have f: "attempted (frame_of e) epoch (c_writer c) r0 (c_writer d0)" "same_pump c d0" "c_dropped d0 = c_dropped c" using try_send_attempted [OF send out] by auto
  note t = in_turn_attempted [OF turn f(1) same_pumpD(13) [OF f(2)] f(3)]
  show ?thesis
  proof (cases "r0 = Inr False")
    case True
    obtain r1 v where park: "park False (frame_of e) epoch (c_writer d0) = (r1, v)" by fastforce
    let ?d1 = "d0\<lparr>c_writer := v\<rparr>"
    have at: "attempted (frame_of e) epoch (c_writer d0) r1 (c_writer ?d1)" using park_attempted [OF park] by simp
    note t1 = in_turn_attempted [OF t(2) [OF True] at]
    have s1: "same_pump c ?d1" "same_pump c (drop_send ?d1)" using f(2) drop_same by (auto simp: same_pump_def pview_def)
    have le: "p_epoch (c_writer c) \<le> p_epoch (c_writer ?d1)" using t(5) t1(5) by simp
    show ?thesis
    proof (cases r1)
      case (Inl x)
      then show ?thesis
        using eq send True park s1 le t1(4) in_turn_drop [OF t1(3)] by (auto simp: apply_send_def drop_same split: if_splits)
    next
      case (Inr b)
      then show ?thesis using eq send True park s1 le t1(1,2) by (cases b) (auto simp: apply_send_def)
    qed
  next
    case False
    then show ?thesis
      using eq send f(2) t in_turn_drop [OF t(3)] same_pump_trans [OF f(2) drop_same(1)]
      by (auto simp: apply_send_def drop_same split: sum.splits bool.splits if_splits)
  qed
qed

lemma apply_effect_turn:
  assumes turn: "in_turn (frames (e # es)) c" and eq: "apply_effect task e epoch c = (a, d)"
  shows "same_pump c d \<and> p_epoch (c_writer c) \<le> p_epoch (c_writer d) \<and> (a = Pending \<longrightarrow> in_turn (frames (e # es)) d) \<and> (a \<noteq> Pending \<longrightarrow> in_turn (frames es) d)"
proof (cases "is_output e")
  case True
  then show ?thesis using apply_send_turn [of e "frames es" c task epoch a d] turn eq by (simp add: apply_effect_def)
next
  case False
  have seal: "at_most_seals c (observe_broker_disconnect reason props b (c\<lparr>c_last_disconnect := l\<rparr>))" for reason props b l
    by (rule seals_trans [OF quiet_seals [OF quiet_updates(15)] seals_broker])
  have "at_most_seals c d"
    using eq False quiet_seals [OF quiet_apply_immediate, of c e "c_epoch c"] quiet_seals [OF quiet_updates(15), of c] seal quiet_seals [OF quiet_raise, of c] quiet_seals [OF quiet_refl, of c]
    by (auto simp: apply_effect_def Let_def split: if_splits effect.splits prod.splits) (metis snd_conv)+
  then show ?thesis using in_turn_seals [OF _ turn [unfolded frames_simps if_not_P [OF False]]] False by (simp add: at_most_seals_def)
qed

lemma flush_next_inv:
  assumes inv: "client_inv c" and task: "pm_task c = Between"
  shows "client_inv (flush_next t c)"
proof (cases "pm_pending c")
  case Nil
  have calm: "\<not> pm_failing_close c" using inv task by (auto simp: client_inv_def flush_ok_def)
  have "client_inv (c\<lparr>pm_flush_requested := False\<rparr>)"
    using seals_inv [OF quiet_seals [OF quiet_updates(24)], of c "pending_frames c"] inv by (simp add: client_inv_alt)
  then show ?thesis using flusher_done_inv [of c False] inv calm Nil by (simp add: flush_next_def client_inv_alt)
next
  case (Cons p rest)
  obtain k e where p: "p = (k, e)" by fastforce
  have ret: "retired_flush c" using task by (simp add: retired_flush_def)
  have calm: "\<not> pm_failing_close c" using inv task by (auto simp: client_inv_def flush_ok_def)
  show ?thesis
  proof (cases "pm_pending_epoch c = c_epoch c")
    case False
    then show ?thesis using discard_client_inv [OF inv ret, of False] Cons p by (simp add: flush_next_def)
  next
    case True
    obtain a d where app: "apply_effect t e (pm_pending_epoch c) c = (a, d)" by fastforce
    have "in_turn (frames (e # map snd rest)) c" using inv Cons p by (simp add: client_inv_def)
    note f = apply_effect_turn [OF this app]
    have same: "same_pump c d" using f by simp
    have d: "base_inv d" "pm_pending d = (k, e) # rest" "pm_task d = Between" "\<not> pm_failing_close d" "c_epoch d = c_epoch c" "pm_pending_epoch d = pm_pending_epoch c"
      "pm_next_number d = pm_next_number c"
      using same_base [OF same] f inv same_pumpD [OF same] Cons p task calm by (auto simp: client_inv_alt)
    show ?thesis
    proof (cases a)
      case Done
      note q = pop_head [OF d(1,2) conjunct2 [OF conjunct2 [OF conjunct2 [OF f]], rule_format]]
      have "client_inv (pop_applied k d)" using q Done d(3,4) by (simp add: client_inv_alt flush_ok_def)
      then show ?thesis using app Done Cons p True by (simp add: flush_next_def)
    next
      case (FailedWith x)
      note q = pop_head [OF d(1,2) conjunct2 [OF conjunct2 [OF conjunct2 [OF f]], rule_format]]
      have "client_inv (fail_connection x (pop_applied k d))" by (rule fail_connection_inv) (use q FailedWith in auto)
      then show ?thesis using app FailedWith Cons p True by (simp add: flush_next_def)
    next
      case Pending
      let ?d = "d\<lparr>pm_task := Applying k e (pm_pending_epoch c)\<rparr>"
      have "k < pm_next_number d" "\<forall>e'. (k, e') \<in> set (pm_pending d) \<longrightarrow> e' = e" using d(1,2) by (force simp: base_inv_def queue_ok_def)+
      then have "flush_ok ?d" using d True by (simp add: flush_ok_def)
      moreover have "in_turn (pending_frames ?d) ?d" using f Pending d(2) by (simp add: task_base)
      ultimately have "client_inv ?d" using d(1) by (simp add: client_inv_alt task_base served_def)
      then show ?thesis using app Pending Cons p True by (simp add: flush_next_def)
    qed
  qed
qed

text \<open>When the suspended effect is done with: it leaves the queue if it is still there.\<close>

lemma resume_popped:
  assumes inv: "base_inv c" "flush_ok c" and task: "pm_task c = Applying k e ep" and base: "base_inv d" and same: "pm_pending d = pm_pending c" "pm_failing_close d = pm_failing_close c"
    and stay: "in_turn (pending_frames c) d" and popped: "\<And>es. pending_frames c = frames (e # es) \<Longrightarrow> in_turn (frames es) d"
  shows "base_inv (pop_applied k d)" "in_turn (pending_frames (pop_applied k d)) (pop_applied k d)" "client_inv ((pop_applied k d)\<lparr>pm_task := Between\<rparr>)"
proof -
  have parts: "base_inv (pop_applied k d) \<and> in_turn (pending_frames (pop_applied k d)) (pop_applied k d)"
  proof (cases "\<exists>e' rest. pm_pending c = (k, e') # rest")
    case True
    then obtain e' rest where P: "pm_pending c = (k, e') # rest" by blast
    have "e' = e" using inv(2) task P by (auto simp: flush_ok_def)
    then have "in_turn (frames (map snd rest)) d" using popped [of "map snd rest"] P by simp
    then show ?thesis using pop_head [OF base, of k e' rest] P same by simp
  next
    case False
    then have "pop_applied k d = d" using same by (auto simp: pop_applied_def split: list.split)
    then show ?thesis using base stay same by simp
  qed
  then show "base_inv (pop_applied k d)" "in_turn (pending_frames (pop_applied k d)) (pop_applied k d)" by auto
  have "\<not> pm_failing_close c" using inv(2) task by (auto simp: flush_ok_def)
  then show "client_inv ((pop_applied k d)\<lparr>pm_task := Between\<rparr>)" using parts same by (simp add: client_inv_alt task_base flush_ok_def served_def)
qed

lemma flush_wake_inv:
  assumes inv: "client_inv c" and task: "pm_task c = Applying k e ep" and at: "is_output e \<Longrightarrow> p_parked (c_writer c) ! i = (frame_of e, ep)"
  shows "client_inv (flush_wake i c)"
proof -
  have pre: "base_inv c" "flush_ok c" "served c" "in_turn (pending_frames c) c" using inv by (simp_all add: client_inv_alt)
  show ?thesis
  proof (cases "is_output e")
    case False
    let ?d = "c\<lparr>c_transport_open := False\<rparr>"
    note s = seals_inv [OF quiet_seals [OF quiet_updates(17)] pre, of False]
    have "client_inv ((pop_applied k ?d)\<lparr>pm_task := Between\<rparr>)"
      by (rule resume_popped(3) [OF pre(1,2) task]) (use s False in auto)
    then show ?thesis using task False by (simp add: flush_wake_def)
  next
    case True
    obtain r v where wake: "wake i (c_writer c) = (r, v)" by fastforce
    let ?d = "c\<lparr>c_writer := v\<rparr>"
    have same: "same_pump c ?d" by (simp add: same_pump_def pview_def)
    note w = wake_attempted [OF wake at [OF True]]
    have le: "p_epoch (c_writer c) \<le> p_epoch v" using w by (auto simp: attempted_def wview_def)
    have based: "base_inv ?d" using same_base [OF same pre(1)] le by simp
    have head: "\<exists>rest. pm_pending c = (k, e) # rest" if "\<not> stale ep (c_writer c)"
    proof -
      have "ep = p_epoch (c_writer c)" using that by (simp add: stale_def)
      then have "ep = c_epoch c" using pre(1,2) task by (force simp: base_inv_def flush_ok_def)
      then show ?thesis using pre(2) task by (simp add: flush_ok_def)
    qed
    show ?thesis
    proof (cases "attempted (frame_of e) ep (c_writer c) r v \<and> \<not> stale ep (c_writer c)")
      case live: True
      then obtain rest where P: "pm_pending c = (k, e) # rest" using head by blast
      have "in_turn (frame_of e # frames (map snd rest)) c" using pre(4) P True by simp
      note t = in_turn_attempted [OF this, of ep r ?d]
      show ?thesis
      proof (cases "r = Inr False")
        case declined: True
        have "client_inv ?d" using t(2) declined live P True based same_flush [OF same] pre by (simp add: client_inv_alt)
        then show ?thesis using task True wake declined by (simp add: flush_wake_def)
      next
        case False
        have here: "pm_pending ?d = (k, e) # rest" using P by simp
        have done_with: "in_turn (frames (map snd rest)) ?d \<or> r = Inl StaleConnectionEffect"
          using t live False by (cases r) auto
        show ?thesis
        proof (cases "r = Inl StaleConnectionEffect")
          case stale: True
          have q: "in_turn (frames (map snd rest)) (drop_send ?d)" using in_turn_drop [OF t(3)] live stale by simp
          have b: "base_inv (drop_send ?d)" using same_base [OF drop_same(1) based] by (simp add: drop_same)
          have hd: "pm_pending (drop_send ?d) = (k, e) # rest" using here by (simp add: drop_send_def)
          have "\<not> pm_failing_close c" using pre(2) task by (auto simp: flush_ok_def)
          then have "client_inv ((pop_applied k (drop_send ?d))\<lparr>pm_task := Between\<rparr>)"
            using pop_head [OF b hd q] by (simp add: client_inv_alt task_base flush_ok_def served_def) (simp add: drop_send_def)
          then show ?thesis using task True wake stale by (simp add: flush_wake_def)
        next
          case other: False
          then have q: "in_turn (frames (map snd rest)) ?d" using done_with by blast
          note h = pop_head [OF based here q]
          have nf: "\<not> pm_failing_close c" using pre(2) task by (auto simp: flush_ok_def)
          have "client_inv ((pop_applied k ?d)\<lparr>pm_task := Between\<rparr>)" using h nf by (simp add: client_inv_alt task_base flush_ok_def served_def)
          moreover have "client_inv (fail_connection x (pop_applied k ?d))" for x by (rule fail_connection_inv [OF h(1,3)])
          ultimately show ?thesis using task True wake False other by (auto simp: flush_wake_def split: sum.split bool.split)
        qed
      qed
    next
      case dead: False
      then have r: "r = Inl StaleConnectionEffect \<and> wview v = wview (c_writer c) \<or> r = Inr False \<and> wview v = wview (c_writer c)"
        using w by (auto simp: attempted_def wview_def)
      have turn: "in_turn (pending_frames c) ?d" using pre(4) r by (auto simp: in_turn_def wview_def)
      show ?thesis
      proof (cases "r = Inr False")
        case True
        have "client_inv ?d" using based same_flush [OF same] pre turn by (simp add: client_inv_alt)
        then show ?thesis using task \<open>is_output e\<close> wake True by (simp add: flush_wake_def)
      next
        case False
        have b: "base_inv (drop_send ?d)" using same_base [OF drop_same(1) based] by (simp add: drop_same)
        have "client_inv ((pop_applied k (drop_send ?d))\<lparr>pm_task := Between\<rparr>)"
        proof (rule resume_popped(3) [OF pre(1,2) task b])
          show "pm_pending (drop_send ?d) = pm_pending c" "pm_failing_close (drop_send ?d) = pm_failing_close c" by (simp_all add: drop_send_def)
          show "in_turn (pending_frames c) (drop_send ?d)" by (rule in_turn_dropped [OF turn])
          show "in_turn (frames es) (drop_send ?d)" if "pending_frames c = frames (e # es)" for es
            using in_turn_drop [of "frame_of e" "frames es" ?d] turn that \<open>is_output e\<close> by simp
        qed
        then show ?thesis using task \<open>is_output e\<close> wake False r by (auto simp: flush_wake_def)
      qed
    qed
  qed
qed

lemma writer_base:
  "p_epoch (c_writer c) \<le> p_epoch w \<Longrightarrow> base_inv c \<Longrightarrow> base_inv (c\<lparr>c_writer := w, c_cancelled := n\<rparr>)" "base_inv (c\<lparr>c_cancelled := n\<rparr>) = base_inv c"
proof -
  have "queue_ok (c\<lparr>c_writer := w, c_cancelled := n\<rparr>) = queue_ok c" "drain_ok (c\<lparr>c_writer := w, c_cancelled := n\<rparr>) = drain_ok c"
    "queue_ok (c\<lparr>c_cancelled := n\<rparr>) = queue_ok c" "drain_ok (c\<lparr>c_cancelled := n\<rparr>) = drain_ok c"
    by (simp_all add: queue_ok_def drain_ok_def drain_base_def)
  then show "p_epoch (c_writer c) \<le> p_epoch w \<Longrightarrow> base_inv c \<Longrightarrow> base_inv (c\<lparr>c_writer := w, c_cancelled := n\<rparr>)" "base_inv (c\<lparr>c_cancelled := n\<rparr>) = base_inv c"
    by (simp_all add: base_inv_def)
qed

lemma flush_cancelled_inv:
  assumes inv: "client_inv c" and task: "pm_task c \<noteq> Closing"
  shows "client_inv (flush_cancelled i c)"
proof -
  have nf: "\<not> pm_failing_close c" using inv task by (auto simp: client_inv_def flush_ok_def)
  have pre: "base_inv c" "in_turn (pending_frames c) c" using inv by (simp_all add: client_inv_alt)
  have "client_inv (flusher_done False (c\<lparr>c_cancelled := c_cancelled c + 1\<rparr>))"
    by (rule flusher_done_inv) (use pre nf in \<open>simp_all add: writer_base in_turn_def\<close>)
  moreover have "client_inv (flusher_done False (c\<lparr>c_writer := unpark_at i (c_writer c), c_cancelled := c_cancelled c + 1\<rparr>))"
    by (rule flusher_done_inv) (use pre nf writer_base in \<open>simp_all add: in_turn_def unpark_at_def healthy_def\<close>)
  ultimately show ?thesis by (simp add: flush_cancelled_def split: flusher.split)
qed

subsection \<open>Waiting for progress\<close>

lemma leave_drain_inv:
  assumes inv: "client_inv c"
  shows "client_inv (leave_drain w c)"
proof -
  define d where "d = c\<lparr>pm_error_waiters := filter (\<lambda>v. v \<noteq> w) (pm_error_waiters c), pm_waiters := filter (\<lambda>(v, _, _). v \<noteq> w) (pm_waiters c)\<rparr>"
  have sub: "(v, t, b) \<in> set (pm_waiters d) \<longleftrightarrow> (v, t, b) \<in> set (pm_waiters c) \<and> v \<noteq> w" for v t b by (auto simp: d_def)
  have "drain_base d"
  proof -
    have b: "drain_base c" using inv by (simp add: client_inv_def drain_ok_def)
    have "v \<in> fst ` set (pm_waiters d)" if v: "v \<in> set (pm_error_waiters d)" for v
    proof -
      have "v \<noteq> w" "v \<in> fst ` set (pm_waiters c)" using v b by (auto simp: drain_base_def d_def)
      then obtain t b' where "(v, t, b') \<in> set (pm_waiters c)" by auto
      then have "(v, t, b') \<in> set (pm_waiters d)" using sub \<open>v \<noteq> w\<close> by blast
      then show ?thesis by (rule image_eqI [rotated]) simp
    qed
    then have "set (pm_error_waiters d) \<subseteq> fst ` set (pm_waiters d)" by blast
    moreover have "distinct (map fst (pm_waiters d))" using b by (simp add: drain_base_def d_def distinct_map_filter)
    moreover have "pm_error_waiters d \<noteq> [] \<longrightarrow> pm_error d \<noteq> None" using b by (auto simp: drain_base_def d_def)
    moreover have "\<forall>(v, t, b) \<in> set (pm_waiters d). v < pm_next_waiter d \<and> t \<le> pm_enqueued d \<and> (\<not> b \<longrightarrow> \<not> pm_progress d)" using b by (auto simp: drain_base_def d_def)
    ultimately show ?thesis by (simp add: drain_base_def)
  qed
  moreover have "\<forall>v t. (v, t, False) \<in> set (pm_waiters d) \<longrightarrow> pm_applied d < t \<and> v \<notin> set (pm_error_waiters d)"
    using inv by (auto simp: client_inv_def drain_ok_def d_def)
  ultimately have dr: "drain_ok d" by (simp add: drain_ok_def)
  have rest: "queue_ok d" "flush_ok d" "served d" "c_epoch d \<le> p_epoch (c_writer d)" "in_turn (pending_frames d) d"
  proof -
    have parts: "queue_ok d = queue_ok c" "flush_ok d = flush_ok c" "in_turn fs d = in_turn fs c" for fs by (simp_all add: d_def queue_ok_def flush_ok_def in_turn_def)
    have "unwoken d \<Longrightarrow> unwoken c" using sub by (auto simp: unwoken_def)
    then show "queue_ok d" "flush_ok d" "served d" "c_epoch d \<le> p_epoch (c_writer d)" "in_turn (pending_frames d) d"
      using inv unfolding client_inv_def parts by (auto simp: served_def d_def)
  qed
  have "client_inv d" using dr rest by (simp add: client_inv_def)
  moreover have "client_inv (d\<lparr>pm_error := None\<rparr>)" if "pm_error_waiters d = []"
  proof -
    have "drain_ok (d\<lparr>pm_error := None\<rparr>)" using dr that by (simp add: drain_ok_def drain_base_def)
    then show ?thesis using rest by (simp add: client_inv_def queue_ok_def flush_ok_def served_def unwoken_def in_turn_def)
  qed
  ultimately show ?thesis by (simp add: leave_drain_def d_def [symmetric] Let_def)
qed

lemma drain_turn_inv:
  assumes inv: "client_inv c" and w: "(w, t, b) \<in> set (pm_waiters c)" and eq: "drain_turn w t c = (r, d)"
  shows "client_inv d" "r \<noteq> Inl AssertionError \<or> pm_error c = Some AssertionError"
proof -
  have base: "drain_base c" using inv by (simp add: client_inv_def drain_ok_def)
  show "r \<noteq> Inl AssertionError \<or> pm_error c = Some AssertionError"
    using eq base by (auto simp: drain_turn_def drain_base_def split: if_splits option.splits)
  show "client_inv d"
  proof (cases "w \<in> set (pm_error_waiters c) \<or> t \<le> pm_applied c")
    case True
    then have "d = leave_drain w c" using eq by (auto simp: drain_turn_def split: if_splits option.splits)
    then show ?thesis using leave_drain_inv [OF inv] by simp
  next
    case False
    define f :: "nat \<times> int \<times> bool \<Rightarrow> nat \<times> int \<times> bool" where "f = (\<lambda>(v, t, woken). (v, t, if v = w then False else woken))"
    let ?e = "c\<lparr>pm_progress := False, pm_waiters := map f (pm_waiters c)\<rparr>"
    have d: "d = schedule_flush ?e" using eq False by (auto simp: drain_turn_def f_def split: if_splits)
    have fst_f: "fst \<circ> f = fst" by (auto simp: f_def fun_eq_iff)
    have img: "fst ` f ` X = fst ` X" for X by (simp add: image_comp fst_f)
    have only: "t' = t" if "(w, t', b') \<in> set (pm_waiters c)" for t' b'
      using that w base eq_key_imp_eq_value [of "pm_waiters c" w "(t', b')" "(t, b)"] by (simp add: drain_base_def)
    have "\<forall>(v, t', b') \<in> set (map f (pm_waiters c)). v < pm_next_waiter c \<and> t' \<le> pm_enqueued c" using base by (auto simp: drain_base_def f_def)
    then have "drain_base ?e" using base by (simp add: drain_base_def fst_f img)
    moreover have "pm_applied c < t' \<and> v \<notin> set (pm_error_waiters c)" if "(v, t', False) \<in> set (map f (pm_waiters c))" for v t'
    proof (cases "v = w")
      case True
      with that obtain b' where "(w, t', b') \<in> set (pm_waiters c)" by (auto simp: f_def split: if_splits)
      then show ?thesis using only False True by auto
    next
      case other: False
      with that have "(v, t', False) \<in> set (pm_waiters c)" by (auto simp: f_def split: if_splits)
      then show ?thesis using inv by (auto simp: client_inv_def drain_ok_def)
    qed
    ultimately have dr: "drain_ok ?e" by (simp add: drain_ok_def)
    have rest: "queue_ok ?e" "c_epoch ?e \<le> p_epoch (c_writer ?e)" "in_turn (pending_frames ?e) ?e" "flush_ok (schedule_flush ?e)"
      using inv by (auto simp: client_inv_def queue_ok_def in_turn_def flush_ok_def schedule_flush_def)
    have "base_inv ?e" using dr rest by (simp add: base_inv_def)
    then show ?thesis using rest unfolding d client_inv_alt schedule_flush_parts(1-3) by (simp add: schedule_flush_parts(4))
  qed
qed

lemma pump_drain_inv:
  assumes inv: "client_inv c" and target: "\<forall>t. target = Some t \<longrightarrow> t \<le> pm_enqueued (snd (drain_inline task target c))" and eq: "pump_drain task nowait target c = (r, d)"
  shows "client_inv d"
proof -
  obtain r0 d0 where inline: "drain_inline task target c = (r0, d0)" by fastforce
  have d0: "client_inv d0" by (rule drain_inline_inv [OF inv inline])
  define t where "t = (case target of None \<Rightarrow> pm_enqueued d0 | Some n \<Rightarrow> n)"
  have t: "t \<le> pm_enqueued d0" using target inline by (auto simp: t_def split: option.split)
  let ?e = "d0\<lparr>pm_next_waiter := pm_next_waiter d0 + 1, pm_waiters := pm_waiters d0 @ [(pm_next_waiter d0, t, False)], pm_apply_suspensions := pm_apply_suspensions d0 + 1\<rparr>"
  consider "d = d0" | "d = schedule_flush d0" | "pm_applied d0 < t" "drain_turn (pm_next_waiter d0) t ?e = (r, d)"
    using eq inline by (auto simp: pump_drain_def t_def Let_def split: sum.splits if_splits)
  then show ?thesis
  proof cases
    case 3
    let ?w = "pm_next_waiter d0"
    have base: "drain_base d0" using d0 by (simp add: client_inv_def drain_ok_def)
    have new: "?w \<notin> fst ` set (pm_waiters d0)" using base by (fastforce simp: drain_base_def)
    then have free: "?w \<notin> set (pm_error_waiters d0)" using base by (auto simp: drain_base_def)
    let ?e2 = "d0\<lparr>pm_next_waiter := ?w + 1, pm_waiters := pm_waiters d0 @ [(?w, t, True)], pm_apply_suspensions := pm_apply_suspensions d0 + 1\<rparr>"
    have "drain_base ?e2" using base new t by (auto simp: drain_base_def)
    moreover have "queue_ok ?e2 = queue_ok d0" "flush_ok ?e2 = flush_ok d0" "in_turn fs ?e2 = in_turn fs d0" "served ?e2 = served d0" for fs
      by (simp_all add: queue_ok_def flush_ok_def in_turn_def served_def unwoken_def)
    ultimately have "client_inv ?e2" using d0 by (auto simp: client_inv_def drain_ok_def)
    moreover have "drain_turn ?w t ?e2 = (r, d)" using 3 free
      by (auto simp: drain_turn_def leave_drain_def Let_def)
    ultimately show ?thesis using drain_turn_inv(1) [of ?e2 ?w t True r d] by simp
  qed (use d0 schedule_inv in auto)
qed

end
