(* ===== verification/Delivery_Inv.thy ===== *)
theory Delivery_Inv
  imports Delivery_Queue
begin

text \<open>
  The application's message queue as a transition system: whatever the interleaving of the reader, waiting admissions, iterators, teardown and
  the reset of the stream, committed messages are read once and in order, the bounds hold, and no wake-up is lost.
\<close>

inductive delivery_step :: "app_delivery \<Rightarrow> app_delivery \<Rightarrow> bool" where
  Accept: "delivery_accept m callback wire d = (r, d1) \<Longrightarrow> delivery_step d d1"
| Await: "delivery_accept m callback wire d = (Inr (Waits n g), d1) \<Longrightarrow> admission_turn m n g d1 = (r, d2) \<Longrightarrow> delivery_step d d2"
| Resume: "i < length (a_parked d) \<Longrightarrow> w_woken (a_parked d ! i) \<Longrightarrow> resume_admission i d = (r, d1) \<Longrightarrow> delivery_step d d1"
| Timeout: "i < length (a_parked d) \<Longrightarrow> admission_timeout i d = (r, d1) \<Longrightarrow> delivery_step d d1"
| Cancelled: "i < length (a_parked d) \<Longrightarrow> delivery_step d (leave_admission i d)"
| Iterate: "g \<le> a_stream_generation d \<Longrightarrow> delivery_messages g d = (r, d1) \<Longrightarrow> delivery_step d d1"
| Consumer: "i < length (a_consumers d) \<Longrightarrow> snd (a_consumers d ! i) \<Longrightarrow> resume_consumer i d = (r, d1) \<Longrightarrow> delivery_step d d1"
| ConsumerCancelled: "i < length (a_consumers d) \<Longrightarrow> delivery_step d (leave_consumer i d)"
| Acknowledged: "deliver_acknowledged m callback wire d = (r, d1) \<Longrightarrow> delivery_step d d1"
| Invalidate: "delivery_step d (invalidate_waiting_admissions d)"
| Close: "delivery_step d (delivery_close d)"
| Reopen: "delivery_step d (delivery_reopen d)"
| Reset: "delivery_step d (reset_stream d)"

subsection \<open>The invariant\<close>

definition charges :: "queue_item list \<Rightarrow> int" where
  "charges items = sum_list (map item_charge items)"

lemma charges_simps [simp]: "charges [] = 0" "charges (x # xs) = item_charge x + charges xs" "charges (xs @ ys) = charges xs + charges ys"
  by (simp_all add: charges_def)

definition content_ok :: "app_delivery \<Rightarrow> bool" where
  "content_ok d \<longleftrightarrow> a_committed d = a_handed d @ map item_message (a_queue d)"

fun right_kind :: "int option \<Rightarrow> queue_item \<Rightarrow> bool" where
  "right_kind None (Plain m) = True"
| "right_kind (Some l) (Sized m n) = (0 \<le> n)"
| "right_kind _ _ = False"

fun right_size :: "int option \<Rightarrow> int option \<Rightarrow> bool" where
  "right_size None None = True"
| "right_size (Some l) (Some n) = (0 \<le> n)"
| "right_size _ _ = False"

definition accounts_ok :: "app_delivery \<Rightarrow> bool" where
  "accounts_ok d \<longleftrightarrow> a_pending_bytes d = charges (a_queue d) \<and> (\<forall>item \<in> set (a_queue d @ a_over d). right_kind (a_max_bytes d) item)
     \<and> (\<forall>w \<in> set (a_parked d). right_size (a_max_bytes d) (w_size w))"

definition parked_ok :: "app_delivery \<Rightarrow> bool" where
  "parked_ok d \<longleftrightarrow> (\<forall>w \<in> set (a_parked d). \<not> w_woken w \<longrightarrow> \<not> a_space d \<and> w_generation w = a_admission_generation d \<and> must_wait (w_size w) d)"

definition consumers_ok :: "app_delivery \<Rightarrow> bool" where
  "consumers_ok d \<longleftrightarrow> (\<forall>(g, woken) \<in> set (a_consumers d). \<not> woken \<longrightarrow>
     \<not> a_ready d \<and> a_queue d = [] \<and> \<not> a_closed d \<and> g = a_stream_generation d)"

definition single_ok :: "app_delivery \<Rightarrow> bool" where
  "single_ok d \<longleftrightarrow>
     length (filter (\<lambda>c. fst c = a_stream_generation d) (a_consumers d)) = (if a_waiting_generation d = Some (a_stream_generation d) then 1 else 0)
   \<and> (\<forall>c \<in> set (a_consumers d). fst c \<le> a_stream_generation d) \<and> (\<forall>g. a_waiting_generation d = Some g \<longrightarrow> g \<le> a_stream_generation d)"

definition bounds_ok :: "app_delivery \<Rightarrow> bool" where
  "bounds_ok d \<longleftrightarrow> (0 < a_max_messages d \<longrightarrow> int (length (a_queue d)) \<le> a_max_messages d + int (length (a_over d)))
     \<and> (\<forall>limit. a_max_bytes d = Some limit \<longrightarrow> 0 \<le> limit \<longrightarrow> a_pending_bytes d \<le> limit + charges (a_over d))"

definition delivery_inv :: "app_delivery \<Rightarrow> bool" where
  "delivery_inv d \<longleftrightarrow> content_ok d \<and> accounts_ok d \<and> parked_ok d \<and> consumers_ok d \<and> single_ok d \<and> bounds_ok d"

lemma delivery_invI: "content_ok d \<Longrightarrow> accounts_ok d \<Longrightarrow> parked_ok d \<Longrightarrow> consumers_ok d \<Longrightarrow> single_ok d \<Longrightarrow> bounds_ok d \<Longrightarrow> delivery_inv d"
  by (simp add: delivery_inv_def)

lemma delivery_invD: "delivery_inv d \<Longrightarrow> content_ok d" "delivery_inv d \<Longrightarrow> accounts_ok d" "delivery_inv d \<Longrightarrow> parked_ok d" "delivery_inv d \<Longrightarrow> consumers_ok d"
    "delivery_inv d \<Longrightarrow> single_ok d" "delivery_inv d \<Longrightarrow> bounds_ok d"
  by (simp_all add: delivery_inv_def)

lemmas delivery_parts = content_ok_def accounts_ok_def parked_ok_def consumers_ok_def single_ok_def bounds_ok_def

lemma logical_size_nonneg: "delivery_logical_size m w d = Inr n \<Longrightarrow> 0 \<le> n"
  by (auto simp: delivery_logical_size_def publish_logical_size_def split: if_splits option.splits)

lemma charges_nonneg: "\<forall>item \<in> set items. right_kind limit item \<Longrightarrow> 0 \<le> charges items"
proof (induction items)
  case (Cons x xs)
  then show ?case by (cases limit; cases x) auto
qed simp

subsection \<open>The waiters\<close>

lemma parked_mono:
  assumes "parked_ok d" "set (a_parked e) \<subseteq> set (a_parked d)" "a_space e = a_space d" "a_admission_generation e = a_admission_generation d"
    "\<And>n. must_wait n d \<Longrightarrow> must_wait n e"
  shows "parked_ok e"
  using assms by (auto simp: parked_ok_def)

lemma all_woken:
  assumes "\<forall>w \<in> set (a_parked d). \<not> w_woken w \<longrightarrow> \<not> a_space d"
  shows "\<forall>w \<in> set (a_parked (delivery_wake_waiters d)). w_woken w"
  using assms by (auto simp: delivery_wake_waiters_def set_space_def)

lemma parked_woken:
  assumes "parked_ok d" "a_parked e = a_parked d" "a_space e = a_space d"
  shows "parked_ok (delivery_wake_waiters e)"
  using assms all_woken [of e] by (auto simp: parked_ok_def)

lemma wake_same [simp]:
  "a_queue (delivery_wake_waiters d) = a_queue d" "a_pending_bytes (delivery_wake_waiters d) = a_pending_bytes d" "a_max_bytes (delivery_wake_waiters d) = a_max_bytes d"
  "a_max_messages (delivery_wake_waiters d) = a_max_messages d" "a_consumers (delivery_wake_waiters d) = a_consumers d" "a_ready (delivery_wake_waiters d) = a_ready d"
  "a_closed (delivery_wake_waiters d) = a_closed d" "a_stream_generation (delivery_wake_waiters d) = a_stream_generation d"
  "a_waiting_generation (delivery_wake_waiters d) = a_waiting_generation d" "a_committed (delivery_wake_waiters d) = a_committed d"
  "a_handed (delivery_wake_waiters d) = a_handed d" "a_over (delivery_wake_waiters d) = a_over d"
  "map w_size (a_parked (delivery_wake_waiters d)) = map w_size (a_parked d)"
  "a_callback_mode (delivery_wake_waiters d) = a_callback_mode d"
  by (auto simp: delivery_wake_waiters_def set_space_def)

lemma ready_same [simp]:
  "a_queue (set_message_ready d) = a_queue d" "a_pending_bytes (set_message_ready d) = a_pending_bytes d" "a_max_bytes (set_message_ready d) = a_max_bytes d"
  "a_max_messages (set_message_ready d) = a_max_messages d" "a_parked (set_message_ready d) = a_parked d" "a_space (set_message_ready d) = a_space d"
  "a_closed (set_message_ready d) = a_closed d" "a_stream_generation (set_message_ready d) = a_stream_generation d"
  "a_waiting_generation (set_message_ready d) = a_waiting_generation d" "a_committed (set_message_ready d) = a_committed d"
  "a_handed (set_message_ready d) = a_handed d" "a_over (set_message_ready d) = a_over d" "a_admission_generation (set_message_ready d) = a_admission_generation d"
  "map fst (a_consumers (set_message_ready d)) = map fst (a_consumers d)" "a_callback_mode (set_message_ready d) = a_callback_mode d"
  by (auto simp: set_message_ready_def case_prod_beta)

lemma consumers_woken:
  assumes "\<forall>(g, woken) \<in> set (a_consumers d). \<not> woken \<longrightarrow> \<not> a_ready d"
  shows "\<forall>c \<in> set (a_consumers (set_message_ready d)). snd c"
  using assms by (auto simp: set_message_ready_def)

lemma consumers_ready:
  assumes "consumers_ok d" "a_consumers e = a_consumers d" "a_ready e = a_ready d"
  shows "consumers_ok (set_message_ready e)"
proof -
  have "\<forall>c \<in> set (a_consumers (set_message_ready e)). snd c"
    by (rule consumers_woken) (use assms in \<open>auto simp: consumers_ok_def\<close>)
  then show ?thesis by (auto simp: consumers_ok_def)
qed

lemma filter_fst: "length (filter (\<lambda>c. fst c = g) xs) = length (filter (\<lambda>h. h = g) (map fst xs))"
  by (induction xs) auto

lemma single_same:
  assumes "single_ok d" "map fst (a_consumers e) = map fst (a_consumers d)" "a_stream_generation e = a_stream_generation d"
    "a_waiting_generation e = a_waiting_generation d"
  shows "single_ok e"
proof -
  have "(\<forall>c \<in> set (a_consumers e). fst c \<le> k) = (\<forall>h \<in> set (map fst (a_consumers e)). h \<le> k)"
    "(\<forall>c \<in> set (a_consumers d). fst c \<le> k) = (\<forall>h \<in> set (map fst (a_consumers d)). h \<le> k)" for k by auto
  with assms show ?thesis unfolding single_ok_def filter_fst by metis
qed

lemma sizes_ok: "(\<forall>w \<in> set ws. right_size l (w_size w)) = list_all (right_size l) (map w_size ws)"
  by (induction ws) auto

subsection \<open>Every step keeps the invariant\<close>

text \<open>A commit: the item joins the queue and its bytes are charged; it goes past the bounds or finds room.\<close>

definition grown :: "queue_item \<Rightarrow> app_delivery \<Rightarrow> app_delivery \<Rightarrow> bool" where
  "grown item d e \<longleftrightarrow> a_queue e = a_queue d @ [item] \<and> a_committed e = a_committed d @ [item_message item] \<and> a_handed e = a_handed d
     \<and> a_pending_bytes e = a_pending_bytes d + item_charge item \<and> a_max_bytes e = a_max_bytes d \<and> a_max_messages e = a_max_messages d
     \<and> a_parked e = a_parked d \<and> a_space e = a_space d \<and> a_admission_generation e = a_admission_generation d \<and> a_consumers e = a_consumers d
     \<and> a_ready e = a_ready d \<and> a_stream_generation e = a_stream_generation d \<and> a_waiting_generation e = a_waiting_generation d
     \<and> (a_over e = a_over d \<and> \<not> queue_full d \<and> (\<forall>limit. a_max_bytes d = Some limit \<longrightarrow> a_pending_bytes e \<le> limit) \<or> a_over e = a_over d @ [item])"

lemma right_kind_charge: "right_kind l item \<Longrightarrow> 0 \<le> item_charge item"
  by (cases l; cases item) auto

lemma waits_more:
  assumes "must_wait n d" "a_pending_bytes d \<le> a_pending_bytes e" "length (a_queue d) \<le> length (a_queue e)" "a_max_bytes e = a_max_bytes d"
    "a_max_messages e = a_max_messages d"
  shows "must_wait n e"
  using assms by (auto simp: must_wait_def queue_full_def split: option.splits)

lemma grown_inv:
  assumes inv: "delivery_inv d" and grown: "grown item d e" and kind: "right_kind (a_max_bytes d) item"
  shows "delivery_inv (set_message_ready e)"
proof -
  have pos: "0 \<le> item_charge item" and over: "0 \<le> charges (a_over d)"
    using right_kind_charge [OF kind] charges_nonneg [of "a_over d" "a_max_bytes d"] inv by (auto simp: delivery_inv_def accounts_ok_def)
  have "content_ok (set_message_ready e)" using inv grown by (simp add: delivery_inv_def content_ok_def grown_def)
  moreover have "accounts_ok (set_message_ready e)" using inv grown kind by (auto simp: delivery_inv_def accounts_ok_def grown_def)
  moreover have "parked_ok (set_message_ready e)"
    by (rule parked_mono [of d]) (use inv grown pos in \<open>auto simp: delivery_inv_def grown_def intro: waits_more\<close>)
  moreover have "consumers_ok (set_message_ready e)"
    using inv grown by (auto intro: consumers_ready simp: delivery_inv_def grown_def)
  moreover have "single_ok (set_message_ready e)"
    by (rule single_same [of d]) (use inv grown in \<open>auto simp: delivery_inv_def grown_def\<close>)
  moreover have "bounds_ok (set_message_ready e)"
    using inv grown pos over by (auto simp: delivery_inv_def bounds_ok_def grown_def queue_full_def)
  ultimately show ?thesis by (simp add: delivery_inv_def)
qed

lemma charge_same [simp]:
  "a_queue (charge n d) = a_queue d" "a_pending_bytes (charge n d) = a_pending_bytes d + n" "a_max_bytes (charge n d) = a_max_bytes d"
  "a_max_messages (charge n d) = a_max_messages d" "a_parked (charge n d) = a_parked d" "a_space (charge n d) = a_space d"
  "a_admission_generation (charge n d) = a_admission_generation d" "a_consumers (charge n d) = a_consumers d" "a_ready (charge n d) = a_ready d"
  "a_stream_generation (charge n d) = a_stream_generation d" "a_waiting_generation (charge n d) = a_waiting_generation d"
  "a_committed (charge n d) = a_committed d" "a_handed (charge n d) = a_handed d" "a_over (charge n d) = a_over d" "queue_full (charge n d) = queue_full d"
  by (auto simp: charge_def Let_def queue_full_def)

lemma enqueue_inv:
  assumes inv: "delivery_inv d" and room: "\<not> must_wait n d" and right_sized: "right_size (a_max_bytes d) n" and eq: "enqueue_message m n d = (r, e)"
  shows "delivery_inv e \<and> r = Inr ()"
proof (cases n)
  case None
  with room eq have e: "e = set_message_ready (put_item (Plain m) d)" and r: "r = Inr ()"
    by (auto simp: enqueue_message_def enqueue_unaccounted_def queue_put_nowait_def must_wait_def)
  have "a_max_bytes d = None" using right_sized None by (cases "a_max_bytes d") auto
  then have "delivery_inv e" unfolding e
    by (intro grown_inv [OF inv, of "Plain m"]) (use room None in \<open>auto simp: grown_def put_item_def must_wait_def\<close>)
  with r show ?thesis by simp
next
  case (Some k)
  with room eq have e: "e = set_message_ready (put_item (Sized m k) (charge k d))" and r: "r = Inr ()"
    by (auto simp: enqueue_message_def enqueue_accounted_def queue_put_nowait_def must_wait_def)
  obtain limit where "a_max_bytes d = Some limit" "0 \<le> k" using right_sized Some by (cases "a_max_bytes d") auto
  then have "delivery_inv e" unfolding e
    by (intro grown_inv [OF inv, of "Sized m k"]) (use room Some in \<open>auto simp: grown_def put_item_def must_wait_def\<close>)
  with r show ?thesis by simp
qed

lemma acknowledged_inv:
  assumes inv: "delivery_inv d" and iterator: "\<not> a_callback_mode d" and eq: "deliver_acknowledged m callback wire d = (r, e)"
  shows "delivery_inv e"
proof (cases "a_max_bytes d")
  case None
  with eq iterator have e: "e = set_message_ready (put_over_bound (Plain m) d)" by (auto simp: deliver_acknowledged_def)
  show ?thesis unfolding e
    by (rule grown_inv [OF inv, of "Plain m"]) (use None in \<open>auto simp: grown_def put_over_bound_def put_item_def\<close>)
next
  case (Some limit)
  show ?thesis
  proof (cases "delivery_logical_size m wire d")
    case (Inr n)
    with eq iterator Some have e: "e = set_message_ready (put_over_bound (Sized m n) (charge n d))" by (auto simp: deliver_acknowledged_def)
    show ?thesis unfolding e
      by (rule grown_inv [OF inv, of "Sized m n"])
        (use Some logical_size_nonneg [OF Inr] in \<open>auto simp: grown_def put_over_bound_def put_item_def\<close>)
  qed (use eq iterator Some inv in \<open>auto simp: deliver_acknowledged_def\<close>)
qed

text \<open>Callbacks touch none of this.\<close>

definition counted :: "app_delivery \<Rightarrow> app_delivery \<Rightarrow> bool" where
  "counted d e \<longleftrightarrow> e\<lparr>a_invocations := 0, a_failures := 0, a_unrouted := 0, a_since_yield := 0\<rparr> =
     d\<lparr>a_invocations := 0, a_failures := 0, a_unrouted := 0, a_since_yield := 0\<rparr>"

lemma counted_refl: "counted d d" by (simp add: counted_def)

lemma counted_trans: "counted d e \<Longrightarrow> counted e f \<Longrightarrow> counted d f" by (simp add: counted_def)

lemma counted_inv: "counted d e \<Longrightarrow> delivery_inv d \<Longrightarrow> delivery_inv e"
  by (cases d; cases e) (simp add: counted_def delivery_inv_def delivery_parts must_wait_def queue_full_def cong: option.case_cong)

lemma counted_updates:
  "counted d (d\<lparr>a_unrouted := u\<rparr>)" "counted d (d\<lparr>a_since_yield := y\<rparr>)" "counted d (d\<lparr>a_invocations := n, a_since_yield := y\<rparr>)" "counted d (d\<lparr>a_failures := f\<rparr>)"
  by (simp_all add: counted_def)

lemma invoke_counted: "invoke_sync_isolated c d = (r, e) \<Longrightarrow> counted d e"
  using counted_trans [OF counted_updates(3) counted_updates(4)] counted_updates(3)
  by (auto simp: invoke_sync_isolated_def Let_def split: callback_outcome.splits)

lemma selected_counted: "invoke_selected cs d = (r, e) \<Longrightarrow> counted d e"
proof (induction cs d arbitrary: r e rule: invoke_selected.induct)
  case (2 c cs d)
  then show ?case using invoke_counted counted_trans by (fastforce split: prod.splits sum.splits)
qed (auto intro: counted_refl)

lemma callback_counted: "accept_callback cb d = (r, e) \<Longrightarrow> counted d e"
  using counted_updates(1) selected_counted counted_trans [OF selected_counted counted_updates(2)]
  by (fastforce simp: accept_callback_def split: option.splits prod.splits sum.splits if_splits)

lemma accept_inv:
  assumes inv: "delivery_inv d" and eq: "delivery_accept m callback wire d = (r, e)"
  shows "delivery_inv e \<and> (\<forall>n g. r = Inr (Waits n g) \<longrightarrow> e = d \<and> right_size (a_max_bytes d) n)"
proof (cases "a_callback_mode d")
  case True
  with eq have "accept_callback callback d = (r, e)" by (simp add: delivery_accept_def)
  moreover from this have "r \<noteq> Inr (Waits n g)" for n g
    by (auto simp: accept_callback_def split: option.splits prod.splits sum.splits if_splits)
  ultimately show ?thesis using counted_inv [OF callback_counted inv] by simp
next
  case iterator: False
  show ?thesis
  proof (cases "a_max_bytes d")
    case None
    then show ?thesis
      using eq iterator inv enqueue_inv [OF inv, of None m]
      by (auto simp: delivery_accept_def accept_iterator_unaccounted_def must_wait_def enqueue_message_def split: if_splits prod.splits sum.splits)
  next
    case (Some limit)
    then show ?thesis
    proof (cases "delivery_logical_size m wire d")
      case (Inr n)
      then show ?thesis
        using eq iterator Some inv enqueue_inv [OF inv, of "Some n" m] logical_size_nonneg [OF Inr]
        by (auto simp: delivery_accept_def accept_iterator_accounted_def must_wait_def enqueue_message_def split: if_splits prod.splits sum.splits)
    qed (use eq iterator Some inv in \<open>auto simp: delivery_accept_def accept_iterator_accounted_def\<close>)
  qed
qed

lemma turn_inv:
  assumes inv: "delivery_inv d" and right_sized: "right_size (a_max_bytes d) n" and eq: "admission_turn m n g d = (r, e)"
  shows "delivery_inv e"
proof (cases "g = a_admission_generation d \<and> must_wait n d")
  case True
  with eq have e: "e = d\<lparr>a_space := False, a_parked := a_parked d @ [\<lparr>w_message = m, w_size = n, w_generation = g, w_woken = False\<rparr>]\<rparr>"
    by (simp add: admission_turn_def)
  have "must_wait k e = must_wait k d" for k by (simp add: e must_wait_def queue_full_def cong: option.case_cong)
  with inv True right_sized show ?thesis by (auto simp: e delivery_inv_def delivery_parts)
next
  case False
  then show ?thesis
    using eq inv enqueue_inv [OF inv _ right_sized, of m] by (auto simp: admission_turn_def split: if_splits prod.splits sum.splits)
qed

lemma must_wait_cong:
  "a_queue e = a_queue d \<Longrightarrow> a_pending_bytes e = a_pending_bytes d \<Longrightarrow> a_max_bytes e = a_max_bytes d \<Longrightarrow> a_max_messages e = a_max_messages d \<Longrightarrow>
     must_wait n e = must_wait n d"
  by (auto simp: must_wait_def queue_full_def split: option.split)

lemma leave_admission_inv:
  assumes inv: "delivery_inv d"
  shows "delivery_inv (leave_admission i d)"
proof -
  let ?e = "leave_admission i d"
  have sub: "set (a_parked ?e) \<subseteq> set (a_parked d)" by (auto simp: leave_admission_def dest: in_set_takeD in_set_dropD)
  have wait: "must_wait n ?e = must_wait n d" for n by (rule must_wait_cong) (simp_all add: leave_admission_def)
  have "parked_ok ?e" by (rule parked_mono [OF delivery_invD(3) [OF inv] sub]) (auto simp: wait, auto simp: leave_admission_def)
  moreover have "accounts_ok ?e" using delivery_invD(2) [OF inv] sub by (auto simp: accounts_ok_def leave_admission_def)
  ultimately show ?thesis
    using delivery_invD [OF inv] by (intro delivery_invI) (simp_all add: leave_admission_def content_ok_def consumers_ok_def single_ok_def bounds_ok_def)
qed

lemma resume_inv:
  assumes inv: "delivery_inv d" and i: "i < length (a_parked d)" and eq: "resume_admission i d = (r, e)"
  shows "delivery_inv e"
proof -
  have "right_size (a_max_bytes d) (w_size (a_parked d ! i))" using inv i by (auto simp: delivery_inv_def accounts_ok_def)
  then show ?thesis
    using turn_inv [OF leave_admission_inv [OF inv]] eq by (auto simp: resume_admission_def Let_def leave_admission_def)
qed

lemma woken_inv:
  assumes inv: "delivery_inv d" and same: "a_parked e = a_parked d" "a_space e = a_space d"
    and rest: "content_ok e" "accounts_ok e" "consumers_ok e" "single_ok e" "bounds_ok e"
  shows "delivery_inv (delivery_wake_waiters e)"
proof -
  have "parked_ok (delivery_wake_waiters e)" by (rule parked_woken) (use inv same in \<open>auto simp: delivery_inv_def\<close>)
  then show ?thesis using rest unfolding delivery_inv_def content_ok_def accounts_ok_def consumers_ok_def single_ok_def bounds_ok_def sizes_ok wake_same by simp
qed

lemma invalidate_inv:
  assumes "delivery_inv d"
  shows "delivery_inv (invalidate_waiting_admissions d)"
  unfolding invalidate_waiting_admissions_def by (rule woken_inv [OF assms]) (use assms in \<open>auto simp: delivery_inv_def delivery_parts\<close>)

lemma wait_for_message_inv:
  assumes inv: "delivery_inv d" and empty: "a_queue d = []" "\<not> a_closed d" and eq: "wait_for_message d = (r, e)"
  shows "delivery_inv e"
proof (cases "a_waiting_generation d = Some (a_stream_generation d)")
  case False
  with eq have e: "e = d\<lparr>a_waiting_generation := Some (a_stream_generation d), a_ready := False, a_consumers := a_consumers d @ [(a_stream_generation d, False)]\<rparr>"
    by (simp add: wait_for_message_def Let_def)
  have wait: "must_wait n e = must_wait n d" for n by (rule must_wait_cong) (simp_all add: e)
  have "single_ok e" using inv False by (auto simp: delivery_inv_def single_ok_def e)
  moreover have "consumers_ok e" using inv empty by (auto simp: delivery_inv_def consumers_ok_def e)
  moreover have "parked_ok e" using inv wait by (simp add: delivery_inv_def parked_ok_def e)
  ultimately show ?thesis
    using delivery_invD [OF inv] by (intro delivery_invI) (simp_all add: content_ok_def accounts_ok_def bounds_ok_def e)
qed (use eq inv in \<open>simp add: wait_for_message_def\<close>)

lemma messages_inv:
  assumes inv: "delivery_inv d" and eq: "messages_turn g d = (r, e)"
  shows "delivery_inv e"
proof (cases "g = a_stream_generation d")
  case current: True
  show ?thesis
  proof (cases "a_queue d")
    case Nil
    then show ?thesis using eq inv current wait_for_message_inv [OF inv Nil] by (auto simp: messages_turn_def split: if_splits)
  next
    case (Cons item rest)
    have kind: "right_kind (a_max_bytes d) item" using inv Cons by (auto simp: delivery_inv_def accounts_ok_def)
    define d1 where "d1 = take_item item rest d\<lparr>a_pending_bytes := a_pending_bytes d - item_charge item\<rparr>"
    have e: "e = delivery_wake_waiters d1"
    proof (cases "a_max_bytes d")
      case None
      with kind obtain m where "item = Plain m" by (cases item) auto
      then show ?thesis using eq current Cons None by (auto simp: messages_turn_def d1_def take_item_def)
    next
      case (Some l)
      with kind obtain m n where "item = Sized m n" by (cases item) auto
      then show ?thesis using eq current Cons Some by (auto simp: messages_turn_def d1_def take_item_def release_bytes_def)
    qed
    show ?thesis unfolding e
      by (rule woken_inv [OF inv])
        (use inv Cons right_kind_charge [OF kind] in \<open>auto simp: d1_def take_item_def delivery_inv_def content_ok_def accounts_ok_def consumers_ok_def single_ok_def bounds_ok_def\<close>)
  qed
qed (use eq inv in \<open>auto simp: messages_turn_def\<close>)

lemma without:
  assumes "i < length xs"
  shows "length (filter P xs) = length (filter P (take i xs @ drop (Suc i) xs)) + (if P (xs ! i) then 1 else 0)"
  by (subst id_take_nth_drop [OF assms]) simp

lemma leave_consumer_inv:
  assumes inv: "delivery_inv d" and i: "i < length (a_consumers d)"
  shows "delivery_inv (leave_consumer i d)"
proof -
  let ?e = "leave_consumer i d"
  have sub: "c \<in> set (a_consumers d)" if "c \<in> set (a_consumers ?e)" for c
    using that by (auto simp: leave_consumer_def Let_def dest: in_set_takeD in_set_dropD)
  have gen: "a_waiting_generation ?e = (if a_waiting_generation d = Some (fst (a_consumers d ! i)) then None else a_waiting_generation d)"
      "a_stream_generation ?e = a_stream_generation d" by (simp_all add: leave_consumer_def Let_def)
  have "length (filter (\<lambda>c. fst c = a_stream_generation d) (a_consumers ?e)) = (if a_waiting_generation ?e = Some (a_stream_generation d) then 1 else 0)"
    using inv without [OF i, of "\<lambda>c. fst c = a_stream_generation d"]
    by (auto simp: delivery_inv_def single_ok_def leave_consumer_def Let_def split: if_splits)
  then have "single_ok ?e" using inv sub by (auto simp: delivery_inv_def single_ok_def gen)
  moreover have "consumers_ok ?e" using inv sub unfolding delivery_inv_def consumers_ok_def by (simp add: leave_consumer_def Let_def)
  moreover have "must_wait n ?e = must_wait n d" for n by (rule must_wait_cong) (simp_all add: leave_consumer_def Let_def)
  ultimately show ?thesis
    using delivery_invD [OF inv]
    by (intro delivery_invI) (simp_all add: content_ok_def accounts_ok_def parked_ok_def bounds_ok_def leave_consumer_def Let_def)
qed

lemma move_items_append [simp]: "move_items old acc = acc @ old"
  by (induction old acc rule: move_items.induct) auto

lemma reset_inv:
  assumes inv: "delivery_inv d"
  shows "delivery_inv (reset_stream d)"
proof (cases "a_closed d")
  case True
  define d2 where "d2 = (invalidate_waiting_admissions d)\<lparr>a_stream_generation := a_stream_generation (invalidate_waiting_admissions d) + 1\<rparr>"
  have inv1: "delivery_inv (invalidate_waiting_admissions d)" by (rule invalidate_inv [OF inv])
  have woken: "\<forall>c \<in> set (a_consumers (set_message_ready d2)). snd c"
    by (rule consumers_woken) (use inv1 in \<open>auto simp: d2_def delivery_inv_def consumers_ok_def\<close>)
  have old: "\<forall>c \<in> set (a_consumers (set_message_ready d2)). fst c \<le> a_stream_generation (invalidate_waiting_admissions d)"
    using inv1 by (auto simp: d2_def set_message_ready_def delivery_inv_def single_ok_def)
  then have none: "filter (\<lambda>c. fst c = Suc (a_stream_generation (invalidate_waiting_admissions d))) (a_consumers (set_message_ready d2)) = []"
    by (force simp: filter_empty_conv)
  have "reset_stream d = (set_message_ready d2)\<lparr>a_queue := a_queue d2, a_ready := a_queue d2 \<noteq> [], a_closed := False\<rparr>"
    using True by (auto simp: reset_stream_def d2_def Let_def)
  moreover have "delivery_inv e" if e: "e = (set_message_ready d2)\<lparr>a_queue := a_queue d2, a_ready := a_queue d2 \<noteq> [], a_closed := False\<rparr>" for e
  proof -
    have "must_wait n e = must_wait n (invalidate_waiting_admissions d)" for n by (rule must_wait_cong) (simp_all add: e d2_def)
    then have "parked_ok e" using inv1 by (simp add: delivery_inv_def parked_ok_def e d2_def)
    moreover have "consumers_ok e" using woken by (auto simp: e consumers_ok_def)
    moreover have "single_ok e" using inv1 old none by (auto simp: e single_ok_def delivery_inv_def d2_def le_Suc_eq)
    ultimately show ?thesis
      using delivery_invD [OF inv1] by (intro delivery_invI) (simp_all add: e content_ok_def accounts_ok_def bounds_ok_def d2_def)
  qed
  ultimately show ?thesis by simp
qed (use inv in \<open>simp add: reset_stream_def\<close>)

lemma close_inv:
  assumes "delivery_inv d"
  shows "delivery_inv (delivery_close d)"
proof -
  have "consumers_ok (delivery_close d)" unfolding delivery_close_def by (rule consumers_ready [of d]) (use assms in \<open>auto simp: delivery_inv_def\<close>)
  moreover have "single_ok (delivery_close d)" by (rule single_same [of d]) (use assms in \<open>auto simp: delivery_inv_def delivery_close_def\<close>)
  moreover have "must_wait n (delivery_close d) = must_wait n d" for n by (simp add: delivery_close_def must_wait_def queue_full_def cong: option.case_cong)
  ultimately show ?thesis using assms by (auto simp: delivery_inv_def content_ok_def accounts_ok_def parked_ok_def bounds_ok_def delivery_close_def)
qed

lemma delivery_step_inv: "delivery_step d e \<Longrightarrow> delivery_inv d \<Longrightarrow> delivery_inv e"
proof (induction rule: delivery_step.induct)
  case (Accept m callback wire d r d1)
  then show ?case using accept_inv by blast
next
  case (Await m callback wire d n g d1 r d2)
  then show ?case using accept_inv [OF Await(3,1)] turn_inv by blast
next
  case (Acknowledged m callback wire d r d1)
  then show ?case
    using acknowledged_inv [OF Acknowledged(2) _ Acknowledged(1)] counted_inv [OF _ Acknowledged(2)] counted_updates(1) selected_counted
    by (cases "a_callback_mode d") (auto simp: deliver_acknowledged_def split: option.splits)
next
  case (Iterate g d r d1)
  then show ?case using messages_inv by (auto simp: delivery_messages_def split: if_splits)
next
  case (Consumer i d r d1)
  then show ?case using messages_inv [OF leave_consumer_inv] by (simp add: resume_consumer_def)
next
  case (Resume i d r d1)
  then show ?case using resume_inv by blast
next
  case (Timeout i d r d1)
  then show ?case using leave_admission_inv by (auto simp: admission_timeout_def)
next
  case (Reopen d)
  have "must_wait n (delivery_reopen d) = must_wait n d" for n by (rule must_wait_cong) (simp_all add: delivery_reopen_def)
  with Reopen show ?case by (auto simp: delivery_reopen_def delivery_inv_def content_ok_def accounts_ok_def parked_ok_def consumers_ok_def single_ok_def bounds_ok_def)
qed (simp_all add: leave_admission_inv leave_consumer_inv invalidate_inv close_inv reset_inv)

lemma new_delivery_inv: "delivery_inv (new_delivery c v l b)"
  by (simp add: new_delivery_def delivery_inv_def delivery_parts)

lemma enqueue_limits: "enqueue_message m n d = (r, e) \<Longrightarrow> a_max_messages e = a_max_messages d \<and> a_max_bytes e = a_max_bytes d"
  by (auto simp: enqueue_message_def enqueue_unaccounted_def enqueue_accounted_def queue_put_nowait_def put_item_def split: option.splits if_splits)

lemma counted_limits: "counted d e \<Longrightarrow> a_max_messages e = a_max_messages d \<and> a_max_bytes e = a_max_bytes d"
  by (cases d; cases e) (simp add: counted_def)

lemma accept_limits: "delivery_accept m callback wire d = (r, e) \<Longrightarrow> a_max_messages e = a_max_messages d \<and> a_max_bytes e = a_max_bytes d"
  using enqueue_limits [of m None d] enqueue_limits [of m "Some _" d] counted_limits [OF callback_counted]
  by (fastforce simp: delivery_accept_def accept_iterator_unaccounted_def accept_iterator_accounted_def enqueue_message_def split: if_splits prod.splits sum.splits option.splits)

lemma turn_limits: "admission_turn m n g d = (r, e) \<Longrightarrow> a_max_messages e = a_max_messages d \<and> a_max_bytes e = a_max_bytes d"
  using enqueue_limits [of m n d] by (fastforce simp: admission_turn_def split: if_splits prod.splits sum.splits)

lemma messages_limits: "messages_turn g d = (r, e) \<Longrightarrow> a_max_messages e = a_max_messages d \<and> a_max_bytes e = a_max_bytes d"
  by (auto simp: messages_turn_def wait_for_message_def Let_def take_item_def release_bytes_def split: if_splits list.splits queue_item.splits)

lemma acknowledged_limits: "deliver_acknowledged m callback wire d = (r, e) \<Longrightarrow> a_max_messages e = a_max_messages d \<and> a_max_bytes e = a_max_bytes d"
  using counted_limits [OF selected_counted]
  by (fastforce simp: deliver_acknowledged_def put_over_bound_def put_item_def split: if_splits option.splits sum.splits)

lemma delivery_step_limits: "delivery_step d e \<Longrightarrow> a_max_messages e = a_max_messages d \<and> a_max_bytes e = a_max_bytes d"
proof (induction rule: delivery_step.induct)
  case (Await m callback wire d n g d1 r d2)
  then show ?case using accept_limits turn_limits by metis
next
  case (Resume i d r d1)
  then show ?case using turn_limits by (fastforce simp: resume_admission_def Let_def leave_admission_def)
next
  case (Iterate g d r d1)
  then show ?case using messages_limits by (auto simp: delivery_messages_def split: if_splits)
next
  case (Consumer i d r d1)
  then show ?case using messages_limits by (fastforce simp: resume_consumer_def leave_consumer_def Let_def)
qed (auto simp: accept_limits acknowledged_limits admission_timeout_def leave_admission_def leave_consumer_def delivery_close_def delivery_reopen_def
    invalidate_waiting_admissions_def reset_stream_def Let_def)

definition delivery_sound :: "int \<Rightarrow> int option \<Rightarrow> app_delivery \<Rightarrow> bool" where
  "delivery_sound l b d \<longleftrightarrow> delivery_inv d \<and> a_max_messages d = l \<and> a_max_bytes d = b"

interpretation stream: kept_invariant "\<lambda>d. \<exists>c v. d = new_delivery c v l b" delivery_step "delivery_sound l b" for l b
proof
  fix d assume "\<exists>c v. d = new_delivery c v l b"
  then show "delivery_sound l b d" using new_delivery_inv by (auto simp: delivery_sound_def new_delivery_def)
next
  fix d e assume "delivery_sound l b d" "delivery_step d e"
  then show "delivery_sound l b e" using delivery_step_inv delivery_step_limits by (simp add: delivery_sound_def)
qed

lemma reachable_delivery:
  assumes "delivery_step\<^sup>*\<^sup>* (new_delivery c v l b) d"
  shows "delivery_inv d" "a_max_messages d = l" "a_max_bytes d = b"
  using stream.always [of "new_delivery c v l b" l b d] assms by (auto simp: delivery_sound_def)

subsection \<open>Properties\<close>

text \<open>
  C12. Whatever admissions, waits, cancellations, iterators, resets of the stream and teardowns do in whatever order, the application's iterators have together read a
  prefix of the messages committed to the queue, each once and in the order of commitment, and the rest is exactly what the queue still holds: nothing committed is lost
  when the stream is closed or restarted. At most one iterator of the current stream is ever waiting for a message.
\<close>

theorem delivery_in_order:
  assumes "delivery_step\<^sup>*\<^sup>* (new_delivery c v l b) d"
  shows "a_committed d = a_handed d @ map item_message (a_queue d) \<and> length (filter (\<lambda>k. fst k = a_stream_generation d) (a_consumers d)) \<le> 1"
proof -
  have "content_ok d" "single_ok d" using delivery_invD(1,5) [OF reachable_delivery(1) [OF assms]] by auto
  then show ?thesis by (auto simp: content_ok_def single_ok_def split: if_splits)
qed

text \<open>
  C13. No wake-up of the message queue is lost. An admission that is suspended and not yet woken belongs to the current generation and has no room; an iterator that is
  suspended and not yet woken reads the current stream, which is open and empty. So as soon as there is room, or a message, or the stream ends, whoever waits is woken.
\<close>

theorem delivery_no_lost_wakeup:
  assumes "delivery_step\<^sup>*\<^sup>* (new_delivery c v l b) d"
  shows "(\<forall>w \<in> set (a_parked d). w_woken w \<or> w_generation w = a_admission_generation d \<and> must_wait (w_size w) d)
    \<and> (\<forall>k \<in> set (a_consumers d). snd k \<or> a_queue d = [] \<and> \<not> a_closed d \<and> fst k = a_stream_generation d)"
proof -
  have "parked_ok d" "consumers_ok d" using delivery_invD(3,4) [OF reachable_delivery(1) [OF assms]] by auto
  then show ?thesis by (auto simp: parked_ok_def consumers_ok_def)
qed

text \<open>
  C14. The queue of the application is bounded in every reachable state: apart from the already acknowledged messages of retired connections, which are committed past
  the bounds, it holds at most \<^verbatim>\<open>max_iterator_messages\<close> messages and at most \<^verbatim>\<open>max_iterator_bytes\<close> bytes; and \<^verbatim>\<open>pending_bytes\<close> is exactly the sum of
  the logical sizes of the queued messages.
\<close>

theorem delivery_bounded:
  assumes "delivery_step\<^sup>*\<^sup>* (new_delivery c v l b) d" "0 < l" "\<forall>limit. b = Some limit \<longrightarrow> 0 \<le> limit"
  shows "int (length (a_queue d)) \<le> l + int (length (a_over d)) \<and> a_pending_bytes d = charges (a_queue d)
    \<and> (case b of None \<Rightarrow> a_pending_bytes d = 0 | Some limit \<Rightarrow> a_pending_bytes d \<le> limit + charges (a_over d))"
proof -
  note d = reachable_delivery [OF assms(1)]
  have "charges items = 0" if "\<forall>item \<in> set items. right_kind None item" for items
    using that
  proof (induction items)
    case (Cons x xs)
    then show ?case by (cases x) auto
  qed simp
  then show ?thesis
    using delivery_invD(2,6) [OF d(1)] d(2,3) assms(2,3) by (cases b) (auto simp: accounts_ok_def bounds_ok_def)
qed

text \<open>A queue of one message: an iterator waits, a message wakes it, a second one waits for room.\<close>

definition sample_message :: "nat \<Rightarrow> message" where
  "sample_message n = \<lparr>msg_topic = [97], msg_payload = replicate n 0, msg_qos = 0, msg_retain = False, msg_dup = False, msg_mid = None, msg_properties = None\<rparr>"

definition sample_delivery :: app_delivery where
  "sample_delivery =
     (let d1 = snd (delivery_messages 0 (new_delivery False True 1 (Some 10)));
          d2 = snd (delivery_accept (sample_message 3) None None d1)
      in snd (admission_turn (sample_message 2) (Some 3) 0 d2))"

lemma sample_delivery_steps: "delivery_step\<^sup>*\<^sup>* (new_delivery False True 1 (Some 10)) sample_delivery"
proof -
  let ?d1 = "snd (delivery_messages 0 (new_delivery False True 1 (Some 10)))"
  let ?d2 = "snd (delivery_accept (sample_message 3) None None ?d1)"
  have "delivery_step (new_delivery False True 1 (Some 10)) ?d1" by (rule Iterate [OF _ prod.collapse [symmetric]]) simp
  moreover have "delivery_step ?d1 ?d2" by (rule Accept [OF prod.collapse [symmetric]])
  moreover have "delivery_accept (sample_message 2) None None ?d2 = (Inr (Waits (Some 3) 0), ?d2)" by code_simp
  from Await [OF this prod.collapse [symmetric]] have "delivery_step ?d2 sample_delivery" by (simp add: sample_delivery_def Let_def)
  ultimately show ?thesis by (meson rtranclp.rtrancl_into_rtrancl r_into_rtranclp)
qed

theorem delivery_in_order_witness:
  "a_committed sample_delivery = a_handed sample_delivery @ map item_message (a_queue sample_delivery) \<and> a_committed sample_delivery = [sample_message 3]"
proof -
  have "a_committed sample_delivery = [sample_message 3]" by code_simp
  with delivery_in_order [OF sample_delivery_steps] show ?thesis by simp
qed

theorem delivery_no_lost_wakeup_witness:
  "a_consumers sample_delivery = [(0, True)] \<and> length (a_parked sample_delivery) = 1 \<and> must_wait (w_size (hd (a_parked sample_delivery))) sample_delivery"
proof -
  have "a_consumers sample_delivery = [(0, True)]" "map w_woken (a_parked sample_delivery) = [False]" by code_simp+
  with delivery_no_lost_wakeup [OF sample_delivery_steps] show ?thesis by (auto simp: map_eq_Cons_conv)
qed

theorem delivery_bounded_witness: "int (length (a_queue sample_delivery)) \<le> 1 \<and> a_pending_bytes sample_delivery = 4"
proof -
  have "a_over sample_delivery = []" "a_pending_bytes sample_delivery = 4" by code_simp+
  with delivery_bounded [OF sample_delivery_steps] show ?thesis by simp
qed

end
