(* ===== verification/Client_Steps.thy ===== *)
theory Client_Steps
  imports Client_Inv Delivery_Inv
begin

text \<open>
  The client's steps: engine operations, the effect pump with its flusher, the writer, deliveries and the retirement of connections in any order. Every
  step keeps the invariants of all the components, which gives the properties that span them.
\<close>

subsection \<open>The client as a transition system\<close>

text \<open>What the writer does on its own account, besides taking frames over.\<close>

inductive writer_internal :: "write_pump \<Rightarrow> write_pump \<Rightarrow> bool" where
  Batch: "try_flush_latency_batch call p = (r, q) \<Longrightarrow> writer_internal p q"
| Callback: "g \<in> set (p_callbacks p) \<Longrightarrow> writer_internal p (rearm_eager_if_idle g (p\<lparr>p_callbacks := remove1 g (p_callbacks p)\<rparr>))"
| Rearm: "writer_internal p (rearm_deferred_ack p)"
| Own: "writer_internal p (own_ack_rearm task p)"
| Take: "p_running p \<Longrightarrow> p_batch p = [] \<Longrightarrow> p_queue p \<noteq> [] \<Longrightarrow> writer_internal p (take_batch p)"
| Write: "p_batch p \<noteq> [] \<Longrightarrow> p_todo p \<noteq> [] \<Longrightarrow> writer_internal p (write_next p)"
| Complete: "p_batch p \<noteq> [] \<Longrightarrow> p_todo p = [] \<Longrightarrow> p_latency_failure p = None \<Longrightarrow> complete_batch p = (r, q) \<Longrightarrow> writer_internal p q"
| Fail: "p_batch p \<noteq> [] \<Longrightarrow> fail_batch n p = (r, q) \<Longrightarrow> writer_internal p q"
| Stop: "writer_internal p (stop_begin p)"
| Stopped: "p_running p \<Longrightarrow> \<not> p_nowait p \<Longrightarrow> stop_end n p = (r, q) \<Longrightarrow> writer_internal p q"
| Discarded: "\<not> p_running p \<Longrightarrow> pump_discard p = (r, q) \<Longrightarrow> writer_internal p q"

lemma internal_pump_step: "writer_internal p q \<Longrightarrow> pump_step p q"
  by (induction rule: writer_internal.induct) (auto intro: pump_step.intros)

definition milder :: "write_pump \<Rightarrow> write_pump \<Rightarrow> bool" where
  "milder p q \<longleftrightarrow> p_admitted q = p_admitted p \<and> p_epoch p \<le> p_epoch q \<and> (healthy q \<longrightarrow> healthy p)"

lemma milder_trans: "milder p q \<Longrightarrow> milder q r \<Longrightarrow> milder p r" by (auto simp: milder_def)

lemma milder_ops:
  "milder p p" "milder p (sample_high_water n p)" "milder p (drop_eager_binding p)" "milder p (rearm_eager_if_idle g p)" "milder p (rearm_deferred_ack p)" "milder p (own_ack_rearm task p)"
  "milder p (write_next p)" "milder p (writer_idle p)" "milder p (snd (release_resident m p))" "milder p (fence_eager_failure x p)" "milder p (exposes bs [] p)" "milder p (p\<lparr>p_callbacks := cs\<rparr>)"
  "milder p (take_batch p)"
  by (auto simp: milder_def sample_high_water_def drop_eager_binding_def rearm_eager_if_idle_def rearm_deferred_ack_def own_ack_rearm_def write_next_def writer_idle_def
      release_resident_def fence_eager_failure_def exposes_def take_batch_def healthy_def Let_def split: list.split)

lemma milder_release: "milder p (snd (release_batch p))"
  by (auto simp: release_batch_def release_resident_def milder_def healthy_def Let_def)

lemma milder_complete: "milder p (snd (complete_batch p))"
  using milder_release [of p] milder_trans [OF milder_release [of p] milder_ops(8)] by (auto simp: complete_batch_def split: sum.split prod.split)

lemma milder_fail: "milder p (snd (fail_batch n p))"
  by (auto simp: fail_batch_def release_batch_def release_resident_def drop_eager_binding_def milder_def healthy_def Let_def)

lemma milder_stop: "milder p (snd (stop_end n p))" "milder p (snd (pump_discard p))"
  by (auto simp: stop_end_def release_batch_def pump_discard_def release_resident_def sample_high_water_def drop_eager_binding_def milder_def healthy_def Let_def)

lemma milder_if: "milder p (snd a) \<Longrightarrow> milder p (snd b) \<Longrightarrow> milder p (snd (if b0 then a else b))"
  by simp

lemma milder_flush: "milder p (snd (try_flush_latency_batch call p))"
proof -
  define q where "q = sample_high_water (Some (int (length (p_queue p)))) p"
  have q: "milder p q" unfolding q_def by (rule milder_ops(2))
  have flushed: "milder p (snd (case release_resident n ((exposes bs [] q)\<lparr>p_queue := [], p_unfinished := u, p_queued_bytes := k\<rparr>) of
      (Inl x, q1) \<Rightarrow> (Inl x, q1)
    | (Inr _, q1) \<Rightarrow> if p_queued_bytes q1 \<noteq> 0 then (Inl AssertionError, q1)
        else (Inr True, q1\<lparr>p_batches := p_batches q1 + 1, p_batched_items := p_batched_items q1 + m, p_batched_bytes := p_batched_bytes q1 + j\<rparr>)))"
    for n bs u k m j using q by (auto simp: release_resident_def exposes_def milder_def healthy_def)
  have fenced: "milder p (fence_eager_failure x (exposes bs [] q))" for x bs by (rule milder_trans [OF q milder_trans [OF milder_ops(11) milder_ops(10)]])
  show ?thesis unfolding try_flush_latency_batch_def Let_def q_def [symmetric]
    by (intro milder_if; (cases call)?) (simp_all add: milder_ops(1) q fenced flushed)
qed

lemma internal_view: "writer_internal p q \<Longrightarrow> milder p q"
proof (induction rule: writer_internal.induct)
  case (Batch call p r q)
  then show ?case using milder_flush [of p call] by simp
next
  case (Callback g p)
  show ?case by (rule milder_trans [OF milder_ops(12) milder_ops(4)])
next
  case (Complete p r q)
  then show ?case using milder_complete [of p] by simp
next
  case (Fail p n r q)
  then show ?case using milder_fail [of p n] by simp
next
  case (Stopped p n r q)
  then show ?case using milder_stop(1) [of p n] by simp
next
  case (Discarded p r q)
  then show ?case using milder_stop(2) [of p] by simp
qed (simp_all add: milder_ops stop_begin_def)

text \<open>A frame handed to the writer without the pump: a ready QoS 0 publication, and the DISCONNECT that seals the writer.\<close>

definition direct_send :: "outcome_of_write \<Rightarrow> write_item \<Rightarrow> client \<Rightarrow> bool result \<times> client" where
  "direct_send call item c = (case try_enqueue call item (Some (c_epoch c)) (c_writer c) of (r, w) \<Rightarrow>
     (r, c\<lparr>c_writer := w, c_sends := c_sends c @ (if p_admitted w = p_admitted (c_writer c) then [] else [item])\<rparr>))"

definition terminal_send :: "outcome_of_write \<Rightarrow> write_item \<Rightarrow> client \<Rightarrow> bool result \<times> client" where
  "terminal_send call item c = (case try_enqueue_terminal call item (c_epoch c) (c_writer c) of (r, w) \<Rightarrow>
     (r, c\<lparr>c_writer := w, c_sends := c_sends c @ (if p_admitted w = p_admitted (c_writer c) then [] else [item])\<rparr>))"

text \<open>The writer's part of opening a connection, when the old connection's sends have been discarded.\<close>

definition open_writer :: "bool \<Rightarrow> client \<Rightarrow> unit result \<times> client" where
  "open_writer offers c = (case pump_start offers (pump_reset (c_writer c)) of (r, w) \<Rightarrow> (r, c\<lparr>c_writer := w, c_transport_open := True, c_sends := [], c_dropped := 0\<rparr>))"

definition sized :: "effect list \<Rightarrow> bool" where
  "sized es \<longleftrightarrow> (\<forall>e \<in> set es. is_output e \<longrightarrow> 0 < item_size (frame_of e))"

text \<open>A frame of the engine is never empty. The connection's effects are discarded only after its epoch was retired; \<^verbatim>\<open>drain\<close> waits for effects already queued.\<close>

inductive client_step :: "client \<Rightarrow> client \<Rightarrow> bool" where
  Engine: "engine_step (c_engine c) e \<Longrightarrow> client_step c (c\<lparr>c_engine := e\<rparr>)"
| Collect: "sized (e_effects (c_engine c)) \<Longrightarrow> collect_from_engine task c = (r, d) \<Longrightarrow> client_step c d"
| Inline: "drain_inline task target c = (r, d) \<Longrightarrow> client_step c d"
| Drain: "\<forall>t. target = Some t \<longrightarrow> t \<le> pm_enqueued (snd (drain_inline task target c)) \<Longrightarrow> pump_drain task nowait target c = (r, d) \<Longrightarrow> client_step c d"
| Resume: "(w, t, True) \<in> set (pm_waiters c) \<Longrightarrow> drain_turn w t c = (r, d) \<Longrightarrow> client_step c d"
| Leave: "client_step c (leave_drain w c)"
| Start: "pm_task c = Created \<Longrightarrow> client_step c (flush_start c)"
| Next: "pm_task c = Between \<Longrightarrow> client_step c (flush_next task c)"
| Woken: "pm_task c = Applying k e ep \<Longrightarrow> (is_output e \<longrightarrow> i < length (p_parked (c_writer c)) \<and> p_parked (c_writer c) ! i = (frame_of e, ep)) \<Longrightarrow> client_step c (flush_wake i c)"
| Closed: "pm_task c = Closing \<Longrightarrow> client_step c (fail_closed raised c)"
| Cancelled: "pm_task c \<noteq> Closing \<Longrightarrow> (\<forall>k e ep. pm_task c = Applying k e ep \<and> is_output e \<longrightarrow> i < length (p_parked (c_writer c))) \<Longrightarrow> client_step c (flush_cancelled i c)"
| Retire: "client_step c (retire_connection_epoch c)"
| Discard: "retired_flush c \<Longrightarrow> client_step c (discard_connection_effects settle c)"
| Open: "pending_frames c = [] \<Longrightarrow> open_writer offers c = (Inr (), d) \<Longrightarrow> client_step c d"
| Direct: "pm_pending c = [] \<Longrightarrow> 0 < item_size item \<Longrightarrow> direct_send call item c = (r, d) \<Longrightarrow> client_step c d"
| Terminal: "0 < item_size item \<Longrightarrow> terminal_send call item c = (r, d) \<Longrightarrow> client_step c d"
| Writer: "writer_internal (c_writer c) w \<Longrightarrow> client_step c (c\<lparr>c_writer := w\<rparr>)"
| Lane: "lane_step (c_lane c) l \<Longrightarrow> client_step c (c\<lparr>c_lane := l\<rparr>)"
| Delivery: "delivery_step (c_delivery c) a \<Longrightarrow> client_step c (c\<lparr>c_delivery := a\<rparr>)"

lemma retire_inv:
  assumes inv: "client_inv c"
  shows "client_inv (retire_connection_epoch c)"
proof -
  let ?d = "retire_connection_epoch c"
  have "queue_ok ?d = queue_ok c" "drain_ok ?d = drain_ok c" "served ?d = served c" "in_turn fs ?d = in_turn fs c" for fs
    by (simp_all add: retire_connection_epoch_def Let_def queue_ok_def drain_ok_def drain_base_def served_def unwoken_def in_turn_def set_epoch_def healthy_def)
  moreover have "flush_ok ?d" using inv by (fastforce simp: client_inv_def flush_ok_def retire_connection_epoch_def Let_def)
  ultimately show ?thesis using inv by (simp add: client_inv_def) (simp add: retire_connection_epoch_def Let_def set_epoch_def)
qed

text \<open>A change of the writer alone.\<close>

lemma writer_change:
  assumes inv: "client_inv c" and epoch: "p_epoch (c_writer c) \<le> p_epoch w" and turn: "in_turn (pending_frames c) (c\<lparr>c_writer := w, c_sends := ss\<rparr>)"
  shows "client_inv (c\<lparr>c_writer := w, c_sends := ss\<rparr>)"
proof -
  let ?d = "c\<lparr>c_writer := w, c_sends := ss\<rparr>"
  have "queue_ok ?d = queue_ok c" "drain_ok ?d = drain_ok c" "served ?d = served c" "flush_ok ?d = flush_ok c"
    by (simp_all add: queue_ok_def drain_ok_def drain_base_def served_def unwoken_def flush_ok_def)
  then show ?thesis using inv epoch turn by (simp add: client_inv_def)
qed

lemma direct_inv:
  assumes inv: "client_inv c" and empty: "pm_pending c = []" and eq: "direct_send call item c = (r, d)"
  shows "client_inv d"
proof -
  obtain w where tried: "try_enqueue call item (Some (c_epoch c)) (c_writer c) = (r, w)"
    and d: "d = c\<lparr>c_writer := w, c_sends := c_sends c @ (if p_admitted w = p_admitted (c_writer c) then [] else [item])\<rparr>"
    using eq by (auto simp: direct_send_def split: prod.splits)
  have at: "attempted item (c_epoch c) (c_writer c) r w" by (rule try_enqueue_attempted [OF tried])
  have "in_turn [] c" using inv empty by (simp add: client_inv_def)
  then have "in_turn [] d" using at list_emb_append_mono [of "(=)" "p_admitted (c_writer c)" "c_sends c" "[item]" "[item]"]
    by (auto simp: d in_turn_def attempted_def stale_def healthy_def)
  moreover have "p_epoch (c_writer c) \<le> p_epoch w" using at by (auto simp: attempted_def)
  ultimately show ?thesis using writer_change [OF inv, of w] empty unfolding d by simp
qed

lemma terminal_inv:
  assumes inv: "client_inv c" and eq: "terminal_send call item c = (r, d)"
  shows "client_inv d"
proof -
  obtain r0 v where tried: "try_enqueue call item (Some (c_epoch c)) (c_writer c) = (r0, v)" by fastforce
  define w where "w = (if c_epoch c = p_epoch v then v\<lparr>p_sealed := True\<rparr> else v)"
  have d: "d = c\<lparr>c_writer := w, c_sends := c_sends c @ (if p_admitted w = p_admitted (c_writer c) then [] else [item])\<rparr>"
    using eq tried by (auto simp: terminal_send_def try_enqueue_terminal_def w_def)
  have at: "attempted item (c_epoch c) (c_writer c) r0 v" by (rule try_enqueue_attempted [OF tried])
  have w: "p_admitted w = p_admitted v" "p_epoch w = p_epoch v" "healthy w \<longrightarrow> healthy v \<and> c_epoch c \<noteq> p_epoch v" by (auto simp: w_def healthy_def)
  have turn: "in_turn (pending_frames c) c" using inv by (simp add: client_inv_def)
  have "in_turn (pending_frames c) d"
  proof (cases "p_admitted v = p_admitted (c_writer c)")
    case True
    then have "healthy v \<longrightarrow> healthy (c_writer c)" using at by (auto simp: attempted_def)
    then show ?thesis using turn True w by (auto simp: d in_turn_def)
  next
    case False
    then have taken: "\<not> stale (c_epoch c) (c_writer c)" "p_admitted v = p_admitted (c_writer c) @ [item]" "p_epoch v = p_epoch (c_writer c) \<or> \<not> healthy v"
      using at by (auto simp: attempted_def)
    then have "\<not> healthy w" using w by (auto simp: stale_def)
    moreover have "subseq (p_admitted (c_writer c) @ [item]) (c_sends c @ [item])" using turn by (auto simp: in_turn_def intro: list_emb_append_mono)
    ultimately show ?thesis using taken w by (simp add: d in_turn_def)
  qed
  moreover have "p_epoch (c_writer c) \<le> p_epoch w" using at w by (auto simp: attempted_def)
  ultimately show ?thesis using writer_change [OF inv, of w] unfolding d by simp
qed

lemma connection_opened:
  assumes inv: "client_inv c" and none: "pending_frames c = []" and eq: "open_writer offers c = (Inr (), d)"
  shows "client_inv d"
proof -
  obtain w where start: "pump_start offers (pump_reset (c_writer c)) = (Inr (), w)" and d: "d = c\<lparr>c_writer := w, c_transport_open := True, c_sends := [], c_dropped := 0\<rparr>"
    using eq by (auto simp: open_writer_def split: prod.splits)
  have w: "p_admitted w = []" "p_epoch w = p_epoch (c_writer c)"
    using start by (auto simp: pump_start_def pump_reset_def drop_eager_binding_def sample_high_water_def Let_def split: if_splits)
  have "queue_ok d = queue_ok c" "drain_ok d = drain_ok c" "served d = served c" "flush_ok d = flush_ok c" "pending_frames d = []"
    using none by (simp_all add: d queue_ok_def drain_ok_def drain_base_def served_def unwoken_def flush_ok_def)
  moreover have "in_turn [] d" using w by (simp add: d in_turn_def)
  ultimately show ?thesis using inv w by (simp add: client_inv_def) (simp add: d)
qed

lemma client_step_inv: "client_step c d \<Longrightarrow> client_inv c \<Longrightarrow> client_inv d"
proof (induction rule: client_step.induct)
  case (Engine c e)
  then show ?case using seals_inv [OF quiet_seals [OF quiet_updates(22)], of c "pending_frames c"] by (simp add: client_inv_alt)
next
  case (Collect c task r d)
  have "client_inv (c\<lparr>c_engine := e\<rparr>)" for e
    using Collect(3) seals_inv [OF quiet_seals [OF quiet_updates(22)], of c "pending_frames c"] by (simp add: client_inv_alt)
  then show ?case using Collect(2) unfolding collect_from_engine_def by (auto split: prod.splits sum.splits intro: collect_effects_inv)
next
  case (Writer c w)
  have m: "milder (c_writer c) w" by (rule internal_view [OF Writer(1)])
  have "in_turn (pending_frames c) (c\<lparr>c_writer := w, c_sends := c_sends c\<rparr>)" using Writer(2) m by (auto simp: client_inv_def in_turn_def milder_def)
  from writer_change [OF Writer(2) _ this] m show ?case by (simp add: milder_def)
next
  case (Lane c l)
  then have "quiet c (c\<lparr>c_lane := l\<rparr>)" by (simp add: quiet_def same_pump_def pview_def)
  from seals_inv [OF quiet_seals [OF this], of "pending_frames c"] Lane(2) show ?case by (simp add: client_inv_alt)
next
  case (Delivery c a)
  then have "quiet c (c\<lparr>c_delivery := a\<rparr>)" by (simp add: quiet_def same_pump_def pview_def)
  from seals_inv [OF quiet_seals [OF this], of "pending_frames c"] Delivery(2) show ?case by (simp add: client_inv_alt)
next
  case (Woken c k e ep i)
  then show ?case by (intro flush_wake_inv) auto
next
  case (Resume w t c r d)
  then show ?case using drain_turn_inv by blast
qed (auto intro: drain_inline_inv pump_drain_inv leave_drain_inv flush_start_inv flush_next_inv fail_closed_inv flush_cancelled_inv retire_inv discard_client_inv connection_opened direct_inv terminal_inv)

end
