(* ===== verification/Client_Wire.thy ===== *)
theory Client_Wire
  imports Client_Steps Writer_Inv
begin

text \<open>
  From the engine's effects to the bytes of the connection: every step of the client moves the writer by steps of its own, so the order of the frames in the
  pump and the order of the bytes in the writer compose.
\<close>

subsection \<open>The writer within the client\<close>

definition queue_sized :: "client \<Rightarrow> bool" where
  "queue_sized c \<longleftrightarrow> sized (map snd (pm_pending c))"

definition moves :: "client \<Rightarrow> client \<Rightarrow> bool" where
  "moves c d \<longleftrightarrow> (queue_sized c \<longrightarrow> pump_step\<^sup>*\<^sup>* (c_writer c) (c_writer d) \<and> queue_sized d)"

lemma moves_trans: "moves c d \<Longrightarrow> moves d e \<Longrightarrow> moves c e"
  by (auto simp: moves_def)

lemma moves_same: "c_writer d = c_writer c \<Longrightarrow> snd ` set (pm_pending d) \<subseteq> snd ` set (pm_pending c) \<Longrightarrow> moves c d"
  unfolding moves_def queue_sized_def sized_def by (metis list.set_map rtranclp.rtrancl_refl subsetD)

lemma moves_quiet: "quiet c d \<Longrightarrow> moves c d"
  using same_pumpD(1) [of c d] by (intro moves_same) (simp_all add: quiet_def)

lemma moves_step: "same_pump c d \<Longrightarrow> pump_step (c_writer c) (c_writer d) \<Longrightarrow> moves c d"
  by (auto simp: moves_def queue_sized_def dest: same_pumpD(1))

lemma moves_observation: "moves c (snd (apply_observation e c))"
proof -
  have seal: "moves c (observe_broker_disconnect reason props b c)" for reason props b
  proof -
    let ?d = "propose_disconnect_cause (if reason \<noteq> 0 then BrokerDisconnectError reason else MQTTError) CAUSE_BROKER (c\<lparr>c_last_disconnect := Some (reason, props, b)\<rparr>)"
    have "moves c ?d" by (rule moves_quiet [OF quiet_trans [OF quiet_updates(15,1)]])
    moreover have "moves ?d (?d\<lparr>c_writer := pump_seal (c_writer ?d)\<rparr>)" by (rule moves_step) (simp_all add: same_pump_def pview_def pump_step.Seal)
    ultimately show ?thesis unfolding observe_broker_disconnect_def Let_def by (rule moves_trans)
  qed
  show ?thesis using seal moves_quiet [OF quiet_apply_immediate] moves_quiet [OF quiet_trans [OF quiet_updates(1,2)]] moves_quiet [OF quiet_refl]
    by (simp add: apply_observation_def observe_peer_error_def split: effect.split)
qed

lemma moves_observations: "moves c (fold (\<lambda>e c. snd (apply_observation e c)) es c)"
proof (induction es arbitrary: c)
  case (Cons e es)
  from moves_trans [OF moves_observation this] show ?case by simp
qed (simp add: moves_quiet)

lemma moves_send:
  assumes eq: "try_send task e epoch c = (r, d)" and out: "is_output e" and size: "0 < item_size (frame_of e)"
  shows "moves c d"
proof -
  define d0 where "d0 = snd (next_call c)"
  have q: "quiet c d0" unfolding d0_def by (rule quiet_updates(11))
  then have w: "c_writer d0 = c_writer c" by (simp add: quiet_def)
  let ?x = "case e of EffSendAck bs \<Rightarrow> try_enqueue_ack (fst (next_call c)) task bs (Some epoch) (c_writer c) | _ \<Rightarrow> try_enqueue (fst (next_call c)) (frame_of e) (Some epoch) (c_writer c)"
  have "try_send task e epoch c = (fst ?x, d0\<lparr>c_writer := snd ?x\<rparr>)"
    unfolding try_send_def Let_def case_prod_beta d0_def [symmetric] w by (rule refl)
  then have d: "d = d0\<lparr>c_writer := snd ?x\<rparr>" using eq by simp
  have "pump_step (c_writer c) (snd ?x)"
    using out size pump_step.Ack [OF _ prod.collapse [symmetric]] pump_step.Enqueue [OF _ prod.collapse [symmetric]]
    by (cases e) (auto simp: is_output_def frame_of_def item_size_def)
  then show ?thesis by (intro moves_step) (use q in \<open>simp_all add: d quiet_def same_pump_def pview_def\<close>)
qed

lemma moves_inline:
  assumes eq: "apply_effect_inline task e epoch c = (r, d)" and size: "is_output e \<Longrightarrow> 0 < item_size (frame_of e)"
  shows "moves c d"
proof (cases "epoch \<noteq> c_epoch c \<or> \<not> is_output e")
  case True
  have "moves c (drop_send c)" "moves c c" by (simp_all add: moves_same drop_send_def)
  then show ?thesis using True eq moves_quiet [OF quiet_apply_immediate] moves_quiet [OF quiet_raise [of c]]
    by (auto simp: apply_effect_inline_def split: if_splits effect.splits prod.splits) (metis snd_conv)+
next
  case False
  obtain r0 d0 where send: "try_send task e epoch c = (r0, d0)" by fastforce
  have "moves c d0" using moves_send [OF send] False size by simp
  moreover have "moves c (drop_send d0)" by (rule moves_trans [OF \<open>moves c d0\<close>]) (simp add: moves_same drop_send_def)
  ultimately show ?thesis using False eq send by (auto simp: apply_effect_inline_def split: sum.splits if_splits)
qed

lemma inline_pending:
  assumes eq: "apply_effect_inline task e epoch c = (r, d)"
  shows "pm_pending d = pm_pending c"
proof (cases "epoch = c_epoch c \<and> is_output e")
  case True
  obtain r0 d0 where send: "try_send task e epoch c = (r0, d0)" by fastforce
  have "pm_pending d0 = pm_pending c" using try_send_attempted [OF send] True same_pumpD(1) by blast
  then show ?thesis using eq True send by (auto simp: apply_effect_inline_def drop_send_def split: sum.splits if_splits)
next
  case False
  have "quiet c d \<or> d = drop_send c" using eq False quiet_apply_immediate quiet_raise [of c]
    by (auto simp: apply_effect_inline_def split: if_splits effect.splits prod.splits) (metis snd_conv)+
  then show ?thesis by (auto simp: quiet_def drop_send_def same_pumpD(1))
qed

lemma moves_discard: "moves c (discard_connection_effects settle c)"
proof -
  obtain kept n d where loop: "discard_loop settle (pm_pending c) c = (kept, n, d)" by (cases "discard_loop settle (pm_pending c) c") auto
  note f = discard_loop_facts [OF loop, of "[]"]
  show ?thesis using f by (intro moves_same) (auto simp: discard_connection_effects_def loop)
qed

lemma moves_complete: "moves c (complete_one c)" "moves c (schedule_flush c)" "moves c (flusher_done failed c)" "moves c (pop_applied k c)" "moves c (drop_send c)"
  by (auto intro!: moves_same simp: schedule_flush_def flusher_done_def pop_applied_def drop_send_def Let_def split: list.split)

subsection \<open>Operations of the pump\<close>

lemma moves_loop:
  assumes "drain_loop task target epoch P c = (r, d)" "pm_pending c = P"
  shows "moves c d"
  using assms
proof (induction task target epoch P c rule: drain_loop.induct)
  case (2 task target epoch k e rest c)
  show ?case
  proof (cases "queue_sized c \<and> (case target of None \<Rightarrow> True | Some t \<Rightarrow> pm_applied c < t)")
    case True
    obtain r0 d0 where inline: "apply_effect_inline task e epoch c = (r0, d0)" by fastforce
    have size: "is_output e \<Longrightarrow> 0 < item_size (frame_of e)" using True 2(3) by (auto simp: queue_sized_def sized_def)
    have m: "moves c d0" by (rule moves_inline [OF inline size])
    have same: "pm_pending d0 = pm_pending c" using inline_pending [OF inline] .
    let ?d1 = "complete_one (d0\<lparr>pm_pending := rest, pm_inline_effects := pm_inline_effects d0 + 1\<rparr>)"
    have m1: "moves c ?d1" by (rule moves_trans [OF m]) (use same 2(3) in \<open>auto intro!: moves_same\<close>)
    show ?thesis
    proof (cases r0)
      case (Inl x)
      then show ?thesis using 2(2) True inline m by auto
    next
      case (Inr b)
      show ?thesis
      proof (cases b)
        case True': True
        have "drain_loop task target epoch rest ?d1 = (r, d)" using 2(2) True inline Inr True' by auto
        from 2(1) [OF _ inline [symmetric] Inr _ this] True True' have "moves ?d1 d" by auto
        from moves_trans [OF m1 this] show ?thesis .
      next
        case False
        then show ?thesis using 2(2) True inline m Inr by auto
      qed
    qed
  next
    case False
    then show ?thesis using 2(2) by (auto simp: moves_def split: if_splits)
  qed
qed (simp add: moves_same)

lemma moves_drain_inline:
  assumes eq: "drain_inline task target c = (r, d)"
  shows "moves c d"
proof (cases "pm_draining_inline c \<or> pump_locked c \<or> pm_pending c = []")
  case True
  then show ?thesis using eq by (simp add: drain_inline_def moves_same)
next
  case False
  define c1 where "c1 = (if pm_pending_epoch c \<noteq> c_epoch c then discard_connection_effects False c else c)"
  have m1: "moves c c1" by (simp add: c1_def moves_discard moves_same)
  let ?c2 = "c1\<lparr>pm_draining_inline := True\<rparr>"
  have m2: "moves c ?c2" by (rule moves_trans [OF m1]) (simp add: moves_same)
  show ?thesis
  proof (cases "pm_pending c1 = []")
    case True
    then show ?thesis using eq False m1 unfolding drain_inline_def Let_def c1_def [symmetric] by simp
  next
    case more: False
    obtain r0 d0 where loop: "drain_loop task target (pm_pending_epoch c1) (pm_pending c1) ?c2 = (r0, d0)" by fastforce
    have m3: "moves c (d0\<lparr>pm_draining_inline := False\<rparr>)"
      by (rule moves_trans [OF moves_trans [OF m2 moves_loop [OF loop]]]) (simp_all add: moves_same)
    have "d = d0\<lparr>pm_draining_inline := False\<rparr> \<or> d = schedule_flush (d0\<lparr>pm_draining_inline := False\<rparr>)"
      using eq False more loop unfolding drain_inline_def Let_def c1_def [symmetric] by (auto split: sum.splits if_splits)
    then show ?thesis using m3 moves_trans [OF m3 moves_complete(2)] by auto
  qed
qed

lemma moves_queue:
  assumes "sized es"
  shows "moves c (queue_effects es c)" "moves c (queue_batch es deliveries c)"
proof -
  show m: "moves c (queue_effects es c)"
    using assms by (auto simp: moves_def queue_effects_def queue_sized_def sized_def number_effects_simps)
  have "moves (queue_effects es c) (queue_batch es deliveries c)"
    using moves_quiet [OF quiet_trans [OF quiet_updates(19,18)]] moves_quiet [OF quiet_updates(18)] by (simp add: queue_batch_def Let_def)
  from moves_trans [OF m this] show "moves c (queue_batch es deliveries c)" .
qed

lemma moves_single:
  assumes eq: "collect_single task e c = (r, d)" and size: "sized [e]"
  shows "moves c d"
proof -
  have observe: "moves c1 (snd (observe_single e c1))" for c1
    using moves_trans [OF moves_quiet [OF quiet_updates(13)] moves_observation] by (simp add: observe_single_def moves_same case_prod_beta)
  show ?thesis
  proof (cases "is_delivery e \<or> pm_pending c \<noteq> []")
    case True
    then show ?thesis using eq observe [of c] moves_quiet [OF quiet_trans [OF quiet_updates(19) [of c "[e]"] quiet_updates(18)]] by (auto simp: collect_single_def split: if_splits)
  next
    case False
    obtain r0 d0 where inline: "apply_effect_inline task e (c_epoch c) c = (r0, d0)" by fastforce
    have m: "moves c d0" by (rule moves_inline [OF inline]) (use size in \<open>simp add: sized_def\<close>)
    then show ?thesis using eq False inline moves_trans [OF m observe] moves_trans [OF m moves_quiet [OF quiet_updates(12)]]
      by (auto simp: collect_single_def split: sum.splits bool.splits)
  qed
qed

lemma moves_many:
  assumes size: "sized es"
  shows "moves c (collect_many es c)"
proof -
  obtain qs deliveries observed reordered where part: "partition_effects es = (qs, deliveries, observed, reordered)" by (cases "partition_effects es") auto
  have qs: "sized qs" using partition_exact [of es] part size by (auto simp: sized_def)
  define c1 where "c1 = c\<lparr>pm_multi_effect_batches := pm_multi_effect_batches c + 1, pm_reordered_batches := pm_reordered_batches c + (if reordered then 1 else 0)\<rparr>"
  have m1: "moves c c1" unfolding c1_def by (rule moves_quiet [OF quiet_updates(20)])
  define c2 where "c2 = fold (\<lambda>e c. snd (apply_observation e c)) observed (c1\<lparr>pm_observations := pm_observations c1 + length observed\<rparr>)"
  have m2: "moves c c2" unfolding c2_def by (rule moves_trans [OF moves_trans [OF m1 moves_quiet [OF quiet_updates(13)]] moves_observations])
  show ?thesis unfolding collect_many_def part prod.case Let_def c1_def [symmetric] c2_def [symmetric]
    using m2 moves_trans [OF m1 moves_queue(2) [OF qs]] moves_trans [OF m2 moves_queue(2) [OF qs]] by simp
qed

lemma moves_collect:
  assumes eq: "collect_effects task es c = (r, d)" and size: "sized es"
  shows "moves c d"
proof (cases "es = []")
  case False
  define c1 where "c1 = c\<lparr>pm_batches := pm_batches c + 1, c_sends := c_sends c @ frames es\<rparr>"
  define c2 where "c2 = (if pm_pending c1 \<noteq> [] \<and> pm_pending_epoch c1 \<noteq> c_epoch c1 then discard_connection_effects False c1 else c1)"
  have "moves c c1" by (simp add: c1_def moves_same)
  then have m: "moves c c2" using moves_trans [OF _ moves_discard] by (simp add: c2_def)
  note body = eq [unfolded collect_effects_def if_not_P [OF False] Let_def, folded c1_def, folded c2_def]
  show ?thesis
  proof (cases "pm_failing_close c2")
    case True
    then have "d = discard_connection_effects True ((queue_effects es c2)\<lparr>pm_high_water := max (pm_high_water (queue_effects es c2)) (int (length (pm_pending (queue_effects es c2))))\<rparr>)"
      using body by simp
    then show ?thesis
      using moves_trans [OF moves_trans [OF moves_trans [OF m moves_queue(1) [OF size]] moves_quiet [OF quiet_updates(21)]] moves_discard] by simp
  next
    case open_: False
    show ?thesis
    proof (cases "\<exists>e. es = [e]")
      case True
      then obtain e where e: "es = [e]" by blast
      obtain r0 d0 where single: "collect_single task e c2 = (r0, d0)" by fastforce
      have "moves c d0" by (rule moves_trans [OF m moves_single [OF single]]) (use size in \<open>simp add: e\<close>)
      then show ?thesis using body open_ e single moves_trans [OF _ moves_queue(2) [OF size], of c d0] by (auto split: sum.splits bool.splits)
    next
      case False
      then have "d = collect_many es c2" using body open_ \<open>es \<noteq> []\<close> by (auto split: list.splits)
      then show ?thesis using moves_trans [OF m moves_many [OF size]] by simp
    qed
  qed
qed (use eq in \<open>simp add: collect_effects_def moves_same\<close>)

lemma moves_fail: "moves c (fail_connection x c)" "moves c (fail_closed raised c)"
proof -
  have task: "moves d (d\<lparr>pm_task := t\<rparr>)" for d t by (simp add: moves_same)
  let ?owners = "map fst (filter (\<lambda>(w, target, woken). target \<ge> pm_applied c) (pm_waiters c))"
  let ?d = "if ?owners \<noteq> [] then set_progress (c\<lparr>pm_error := Some x, pm_error_waiters := ?owners\<rparr>) else c"
  have "c_writer ?d = c_writer c" "pm_pending ?d = pm_pending c" by (auto simp: set_progress_def)
  then have "moves c ?d" by (intro moves_same) auto
  from moves_trans [OF this moves_quiet [OF quiet_trans [OF quiet_updates(2,1)]]] have "moves c (propose_disconnect_cause x CAUSE_TRANSPORT (fail_connack x ?d))" .
  from moves_trans [OF this moves_same]
  have m: "moves c ((propose_disconnect_cause x CAUSE_TRANSPORT (fail_connack x ?d))\<lparr>pm_failing_close := True\<rparr>)" by simp
  show "moves c (fail_connection x c)" unfolding fail_connection_def Let_def
    using moves_trans [OF moves_trans [OF m moves_discard] task] .
  let ?e = "if pm_pending c \<noteq> [] then discard_connection_effects True c else c"
  have "moves c ?e" by (simp add: moves_discard moves_same)
  then have "moves c (?e\<lparr>pm_failing_close := False\<rparr>)" by (rule moves_trans) (simp add: moves_same)
  from moves_trans [OF this moves_complete(3)] show "moves c (fail_closed raised c)" unfolding fail_closed_def Let_def .
qed

lemma moves_apply:
  assumes eq: "apply_effect task e epoch c = (r, d)" and size: "is_output e \<Longrightarrow> 0 < item_size (frame_of e)"
  shows "moves c d"
proof (cases "is_output e")
  case True
  obtain r0 d0 where send: "try_send task e epoch c = (r0, d0)" by fastforce
  obtain r1 w where parked: "park False (frame_of e) epoch (c_writer d0) = (r1, w)" by fastforce
  have m: "moves c d0" by (rule moves_send [OF send True size [OF True]])
  have "pump_step (c_writer d0) w" by (rule pump_step.Park [OF size [OF True] parked])
  then have w: "moves c (d0\<lparr>c_writer := w\<rparr>)" by (intro moves_trans [OF m] moves_step) (simp_all add: same_pump_def pview_def)
  show ?thesis using eq True send parked m w moves_trans [OF m moves_complete(5)] moves_trans [OF w moves_complete(5)]
    by (auto simp: apply_effect_def apply_send_def split: sum.splits bool.splits if_splits)
next
  case False
  have seal: "moves c1 (observe_broker_disconnect reason props True c1)" for c1 reason props
    using moves_observation [of c1 "EffDisconnected reason props True"] by (simp add: apply_observation_def is_immediate_def)
  have "moves c (snd (apply_effect task e epoch c))"
    using False moves_quiet [OF quiet_apply_immediate] moves_quiet [OF quiet_raise] moves_quiet [OF quiet_updates(15)] moves_trans [OF moves_quiet [OF quiet_updates(15)] seal] moves_quiet [OF quiet_refl]
    by (simp add: apply_effect_def Let_def case_prod_beta split: effect.split)
  then show ?thesis using eq by simp
qed

lemma moves_flush_next: "moves c (flush_next task c)"
proof (cases "pm_pending c")
  case Nil
  then show ?thesis by (simp add: flush_next_def moves_complete moves_quiet [OF quiet_updates(24)])
next
  case (Cons p rest)
  obtain k e where p: "p = (k, e)" by (cases p)
  obtain r d where apply_: "apply_effect task e (pm_pending_epoch c) c = (r, d)" by fastforce
  show ?thesis
  proof (cases "queue_sized c")
    case True
    have m: "moves c d" by (rule moves_apply [OF apply_]) (use True Cons p in \<open>simp add: queue_sized_def sized_def\<close>)
    have t: "moves c (d\<lparr>pm_task := t\<rparr>)" for t by (rule moves_trans [OF m]) (simp add: moves_same)
    show ?thesis unfolding flush_next_def Cons list.case p prod.case apply_ using t moves_discard moves_trans [OF m moves_complete(4)] moves_trans [OF moves_trans [OF m moves_complete(4)] moves_fail(1)]
      by (simp split: applied.split)
  next
    case False
    then show ?thesis by (simp add: moves_def)
  qed
qed

lemma moves_wake:
  assumes "pm_task c = Applying k e ep" "is_output e \<longrightarrow> i < length (p_parked (c_writer c))"
  shows "moves c (flush_wake i c)"
proof (cases "is_output e")
  case True
  obtain r w where woken: "wake i (c_writer c) = (r, w)" by fastforce
  have "pump_step (c_writer c) w" by (rule pump_step.Wake [OF _ woken]) (use assms(2) True in simp)
  then have m: "moves c (c\<lparr>c_writer := w\<rparr>)" by (intro moves_step) (simp_all add: same_pump_def pview_def)
  have t: "moves d (d\<lparr>pm_task := t\<rparr>)" for d t by (simp add: moves_same)
  note p = moves_trans [OF m moves_complete(4)] moves_trans [OF moves_trans [OF m moves_complete(5)] moves_complete(4)]
  show ?thesis using True assms(1) woken m moves_trans [OF p(1) t] moves_trans [OF p(2) t] moves_trans [OF p(1) moves_fail(1)]
    by (simp add: flush_wake_def split: sum.split bool.split)
next
  case False
  have "moves c (pop_applied k (c\<lparr>c_transport_open := False\<rparr>))" by (rule moves_trans [OF moves_quiet [OF quiet_updates(17)] moves_complete(4)])
  from moves_trans [OF this, of "(pop_applied k (c\<lparr>c_transport_open := False\<rparr>))\<lparr>pm_task := Between\<rparr>"] show ?thesis
    using False assms(1) by (simp add: flush_wake_def moves_same)
qed

lemma moves_cancelled:
  assumes "\<forall>k e ep. pm_task c = Applying k e ep \<and> is_output e \<longrightarrow> i < length (p_parked (c_writer c))"
  shows "moves c (flush_cancelled i c)"
proof -
  have plain: "moves c (c\<lparr>c_cancelled := n\<rparr>)" for n by (simp add: moves_same)
  have out: "moves c (c\<lparr>c_writer := unpark_at i (c_writer c), c_cancelled := n\<rparr>)" if "i < length (p_parked (c_writer c))" for n
    using pump_step.Cancel [OF that] by (auto simp: moves_def queue_sized_def)
  show ?thesis using assms moves_trans [OF plain moves_complete(3)] moves_trans [OF out moves_complete(3)]
    by (auto simp: flush_cancelled_def split: flusher.split)
qed

lemma moves_turn: "drain_turn w t c = (r, d) \<Longrightarrow> moves c d" "moves c (leave_drain w c)"
proof -
  show leave: "moves c (leave_drain w c)" by (simp add: leave_drain_def Let_def moves_same)
  let ?c = "c\<lparr>pm_progress := False, pm_waiters := map (\<lambda>(v, t, woken). (v, t, if v = w then False else woken)) (pm_waiters c)\<rparr>"
  have "moves c ?c" by (simp add: moves_same)
  from leave moves_trans [OF this moves_complete(2)] show "drain_turn w t c = (r, d) \<Longrightarrow> moves c d"
    by (auto simp: drain_turn_def split: if_splits option.splits)
qed

lemma moves_drain:
  assumes eq: "pump_drain task nowait target c = (r, d)"
  shows "moves c d"
proof -
  obtain r0 d0 where inline: "drain_inline task target c = (r0, d0)" by fastforce
  have m: "moves c d0" by (rule moves_drain_inline [OF inline])
  define d1 where "d1 = d0\<lparr>pm_next_waiter := pm_next_waiter d0 + 1,
    pm_waiters := pm_waiters d0 @ [(pm_next_waiter d0, (case target of None \<Rightarrow> pm_enqueued d0 | Some n \<Rightarrow> n), False)], pm_apply_suspensions := pm_apply_suspensions d0 + 1\<rparr>"
  have "moves c d1" by (rule moves_trans [OF m]) (simp add: d1_def moves_same)
  then have "moves c d2" if "drain_turn w t d1 = (r2, d2)" for w t r2 d2 using moves_trans moves_turn(1) [OF that] by blast
  moreover have "d = d0 \<or> d = schedule_flush d0 \<or> (\<exists>w t. drain_turn w t d1 = (r, d))"
    using eq inline by (auto simp: pump_drain_def Let_def d1_def split: sum.splits if_splits)
  ultimately show ?thesis using m moves_trans [OF m moves_complete(2)] by auto
qed

subsection \<open>Steps of the client\<close>

lemma moves_client:
  assumes "client_step c d" shows "moves c d"
  using assms
proof (induction rule: client_step.induct)
  case (Collect c task r d)
  have m: "moves c (c\<lparr>c_engine := e\<rparr>)" for e by (rule moves_quiet [OF quiet_updates(22)])
  have es: "fst (take_effects (c_engine c)) = Inr es \<Longrightarrow> es = e_effects (c_engine c)" for es
    by (auto simp: take_effects_def sbind_def sthen_def sget_def sret_def smod_def split: prod.splits sum.splits)
  obtain r0 e where took: "take_effects (c_engine c) = (r0, e)" by fastforce
  show ?case
  proof (cases r0)
    case (Inl x)
    then show ?thesis using Collect(2) took m by (auto simp: collect_from_engine_def)
  next
    case (Inr effs)
    have "collect_effects task effs (c\<lparr>c_engine := e\<rparr>) = (r, d)" using Collect(2) took Inr by (simp add: collect_from_engine_def)
    moreover have "sized effs" using es [of effs] took Inr Collect(1) by simp
    ultimately show ?thesis using moves_trans [OF m moves_collect] by blast
  qed
next
  case (Open c offers d)
  then obtain w where start: "pump_start offers (pump_reset (c_writer c)) = (Inr (), w)" and d: "d = c\<lparr>c_writer := w, c_transport_open := True, c_sends := [], c_dropped := 0\<rparr>"
    by (auto simp: open_writer_def split: prod.splits)
  from pump_step.Open [OF start] show ?case by (auto simp: moves_def queue_sized_def d)
next
  case (Direct c item call r d)
  obtain w where "try_enqueue call item (Some (c_epoch c)) (c_writer c) = (r, w)" "c_writer d = w" "pm_pending d = pm_pending c"
    using Direct(3) by (auto simp: direct_send_def split: prod.splits)
  with pump_step.Enqueue [OF Direct(2)] show ?case by (auto simp: moves_def queue_sized_def)
next
  case (Terminal item call c r d)
  obtain w where "try_enqueue_terminal call item (c_epoch c) (c_writer c) = (r, w)" "c_writer d = w" "pm_pending d = pm_pending c"
    using Terminal(2) by (auto simp: terminal_send_def split: prod.splits)
  with pump_step.Terminal [OF Terminal(1)] show ?case by (auto simp: moves_def queue_sized_def)
next
  case (Writer c w)
  from internal_pump_step [OF this] show ?case by (auto simp: moves_def queue_sized_def)
next
  case (Retire c)
  show ?case by (auto simp: moves_def queue_sized_def retire_connection_epoch_def Let_def intro: pump_step.Epoch)
qed (auto intro: moves_drain_inline moves_drain moves_turn moves_flush_next moves_wake moves_fail moves_cancelled moves_discard simp: flush_start_def moves_same)

subsection \<open>Runs\<close>

text \<open>The state \<^verbatim>\<open>AsyncClient.__init__\<close> and \<^verbatim>\<open>EffectPump.__init__\<close> build around an engine; \<open>calls\<close> are the outcomes of the transport's calls to come.\<close>

definition new_client :: "engine \<Rightarrow> int \<Rightarrow> int \<Rightarrow> app_delivery \<Rightarrow> outcome_of_write list \<Rightarrow> client" where
  "new_client e max_bytes max_messages delivery calls =
     \<lparr>c_epoch = 0, c_engine = e, c_local_failure = None, c_transport_open = False, c_writer = new_pump max_bytes max_messages, c_calls = calls, c_lane = new_lane,
      c_delivery = delivery, c_auth = new_auth, c_receipts = Map.empty, c_batch_receipts = Map.empty, c_receipt_of = (\<lambda>_. new_receipt None 0),
      c_batch_of = (\<lambda>_. case new_batch 0 of Inr b \<Rightarrow> b), c_waiter_futs = [], c_publish_waiters = 0, c_woken_publishers = [], c_publish_wakeups = 0, c_connack_fut = None,
      c_connections = 0, c_last_connack_reason = None, c_sub_futs = Map.empty, c_unsub_futs = Map.empty, c_resolved = [], c_ping_pending = False, c_disconnect_exc = None,
      c_disconnect_rank = CAUSE_TRANSPORT, c_last_disconnect = None, pm_pending = [], pm_next_number = 0, pm_pending_epoch = 0, pm_enqueued = 0, pm_applied = 0,
      pm_high_water = 0, pm_progress = False, pm_error = None, pm_next_waiter = 0, pm_waiters = [], pm_error_waiters = [], pm_task = NoFlusher, pm_flush_requested = False,
      pm_draining_inline = False, pm_failing_close = False, pm_batches = 0, pm_multi_effect_batches = 0, pm_reordered_batches = 0, pm_inline_effects = 0,
      pm_apply_suspensions = 0, pm_observations = 0, c_sends = [], c_dropped = 0, c_cancelled = 0\<rparr>"

definition client_sound :: "int \<Rightarrow> int \<Rightarrow> client \<Rightarrow> bool" where
  "client_sound mb mm c \<longleftrightarrow> client_inv c \<and> queue_sized c \<and> pump_sound mb mm (c_writer c)"

interpretation client: kept_invariant "\<lambda>c. 0 \<le> mb \<and> (\<exists>e d calls. c = new_client e mb mm d calls)" client_step "client_sound mb mm" for mb mm
proof
  fix c assume "0 \<le> mb \<and> (\<exists>e d calls. c = new_client e mb mm d calls)"
  then obtain e d calls where c: "0 \<le> mb" "c = new_client e mb mm d calls" by blast
  have "client_inv c" by (auto simp: c(2) new_client_def client_inv_def queue_ok_def flush_ok_def drain_ok_def drain_base_def served_def unwoken_def in_turn_def new_pump_def)
  moreover have "pump_sound mb mm (new_pump mb mm)" using writer.init_inv c(1) by blast
  ultimately show "client_sound mb mm c" by (simp add: client_sound_def c(2) queue_sized_def sized_def new_client_def)
next
  fix c d assume c: "client_sound mb mm c" and step: "client_step c d"
  have "pump_step\<^sup>*\<^sup>* (c_writer c) (c_writer d)" "queue_sized d" using moves_client [OF step] c by (auto simp: moves_def client_sound_def)
  then show "client_sound mb mm d" using c client_step_inv [OF step] writer.run_inv [of "c_writer c" "c_writer d" mb mm] by (simp add: client_sound_def)
qed

lemma reachable_client:
  assumes "client_step\<^sup>*\<^sup>* (new_client e mb mm d calls) c" "0 \<le> mb"
  shows "client_inv c" "pump_inv (c_writer c)"
  using client.always [of mb _ mm c] assms by (auto simp: client_sound_def pump_sound_def)

subsection \<open>Properties\<close>

text \<open>
  C9. From the engine to the wire, whatever the interleaving of engine calls, inline and scheduled flushes, suspended and cancelled sends, observations, failures, retired
  connections, the writer and its producers: the bytes given to the transport of a connection are those of frames the engine emitted for it, in the order in which it emitted them, up to
  a point. While the writer runs unsealed without failure and no frame was dropped with its connection, none is missing: what is written, being written, queued in
  the writer and pending in the pump is exactly what the engine emitted.
\<close>

theorem sends_in_order:
  assumes "client_step\<^sup>*\<^sup>* (new_client e mb mm d calls) c" "0 \<le> mb"
  shows "(\<exists>sent rest. subseq sent (c_sends c) \<and> p_wire (c_writer c) @ rest = flat sent)
    \<and> (p_running (c_writer c) \<and> healthy (c_writer c) \<and> c_dropped c = 0 \<longrightarrow>
        p_wire (c_writer c) @ todo_bytes (c_writer c) @ flat (p_queue (c_writer c)) @ flat (pending_frames c) = flat (c_sends c))"
proof -
  note inv = reachable_client [OF assms]
  have turn: "in_turn (pending_frames c) c" using inv(1) by (simp add: client_inv_def)
  have "\<exists>sent rest. subseq sent (c_sends c) \<and> p_wire (c_writer c) @ rest = flat sent"
    using turn pump_invD(9) [OF inv(2)] by (auto simp: in_turn_def)
  moreover have "p_wire (c_writer c) @ todo_bytes (c_writer c) @ flat (p_queue (c_writer c)) @ flat (pending_frames c) = flat (c_sends c)"
    if live: "p_running (c_writer c)" "healthy (c_writer c)" "c_dropped c = 0"
  proof -
    have "p_wire (c_writer c) @ todo_bytes (c_writer c) @ flat (p_queue (c_writer c)) = flat (p_admitted (c_writer c))"
      using pump_invD(8) [OF inv(2)] live by (simp add: healthy_def)
    moreover have "c_sends c = p_admitted (c_writer c) @ pending_frames c" using turn live by (simp add: in_turn_def)
    ultimately show ?thesis by (metis append.assoc flat_simps(3))
  qed
  ultimately show ?thesis by blast
qed

text \<open>
  C10. No suspended \<^verbatim>\<open>drain\<close> is forgotten. One that nobody has woken waits for an effect that is still pending: fewer effects than its target were applied, no more than were queued, and no failure is
  reported to it; and unless the flusher was cancelled from outside there is one at work that will apply them.
\<close>

theorem drains_wake:
  assumes "client_step\<^sup>*\<^sup>* (new_client e mb mm d calls) c" "0 \<le> mb" "(w, target, False) \<in> set (pm_waiters c)"
  shows "pm_applied c < target \<and> target \<le> pm_applied c + int (length (pm_pending c)) \<and> pm_pending c \<noteq> [] \<and> w \<notin> set (pm_error_waiters c)
    \<and> (c_cancelled c = 0 \<longrightarrow> pm_task c \<noteq> NoFlusher)"
proof -
  have inv: "queue_ok c" "drain_ok c" "served c" using reachable_client(1) [OF assms(1,2)] by (auto simp: client_inv_def)
  have "pm_applied c < target" "w \<notin> set (pm_error_waiters c)" "target \<le> pm_enqueued c" using inv(2) assms(3) by (auto simp: drain_ok_def drain_base_def)
  moreover have "unwoken c" using assms(3) by (auto simp: unwoken_def)
  ultimately show ?thesis using inv(1,3) by (auto simp: queue_ok_def served_def)
qed

text \<open>A client whose writer has room for one frame: a frame of the engine finds it full, and a \<^verbatim>\<open>drain\<close> waits for it.\<close>

definition sample_start :: client where
  "sample_start = new_client (sample_engine\<lparr>e_effects := [EffSend (Contiguous [192, 0])]\<rparr>) 100 1 (new_delivery False True 1 (Some 10)) []"

definition sample_full :: client where
  "sample_full = snd (direct_send Declined (Contiguous [1]) (snd (open_writer False sample_start)))"

definition sample_client :: client where
  "sample_client = snd (pump_drain 0 False None (snd (collect_from_engine 0 sample_full)))"

lemma sample_client_eval:
  "fst (open_writer False sample_start) = Inr ()" "pm_pending (snd (open_writer False sample_start)) = []"
  "sized (e_effects (c_engine sample_full))" "pm_waiters sample_client = [(0, 1, False)]" "p_running (c_writer sample_client) \<and> healthy (c_writer sample_client) \<and> c_dropped sample_client = 0"
  "p_queue (c_writer sample_client) = [Contiguous [1]]" "length (pending_frames sample_client) = 1"
  by code_simp+

lemma sample_client_steps: "client_step\<^sup>*\<^sup>* sample_start sample_client"
proof -
  define c1 where "c1 = snd (open_writer False sample_start)"
  have "pending_frames sample_start = []" by (simp add: sample_start_def new_client_def)
  moreover have "open_writer False sample_start = (Inr (), c1)" using sample_client_eval(1) by (simp add: c1_def prod_eq_iff)
  ultimately have "client_step sample_start c1" by (rule client_step.Open)
  moreover have "client_step c1 sample_full" unfolding sample_full_def c1_def [symmetric]
    by (rule Direct [OF _ _ prod.collapse [symmetric]]) (simp_all add: c1_def sample_client_eval(2) item_size_def)
  moreover have "client_step sample_full (snd (collect_from_engine 0 sample_full))" by (rule Collect [OF sample_client_eval(3) prod.collapse [symmetric]])
  moreover have "client_step c (snd (pump_drain 0 False None c))" for c by (rule Drain [OF _ prod.collapse [symmetric]]) simp
  ultimately show ?thesis unfolding sample_client_def by (meson converse_rtranclp_into_rtranclp r_into_rtranclp)
qed

theorem sends_in_order_witness:
  "p_wire (c_writer sample_client) @ todo_bytes (c_writer sample_client) @ [1] @ flat (pending_frames sample_client) = flat (c_sends sample_client) \<and> length (pending_frames sample_client) = 1"
  using sends_in_order [OF sample_client_steps [unfolded sample_start_def]] sample_client_eval by (simp add: item_bytes_out_def)

theorem drains_wake_witness: "pm_applied sample_client < 1 \<and> pm_pending sample_client \<noteq> [] \<and> c_cancelled sample_client = 0 \<and> pm_task sample_client \<noteq> NoFlusher"
proof -
  have "c_cancelled sample_client = 0" by code_simp
  with drains_wake [OF sample_client_steps [unfolded sample_start_def], of 0 1] sample_client_eval(4) show ?thesis by simp
qed

subsection \<open>Deliveries and their marks\<close>

text \<open>The mark a message owes the engine once the application has it.\<close>

definition owed_mark :: "delivery \<Rightarrow> (int \<times> nat option) option" where
  "owed_mark m = (if d_mark m then map_option (\<lambda>mid. (mid, d_exchange m)) (msg_mid (d_message m)) else None)"

lemma enqueue_committed:
  assumes "delivery_accept m callback wire d = (r, e)" "\<not> a_callback_mode d"
  shows "a_committed e = a_committed d \<and> (\<forall>a. r = Inr a \<longrightarrow> (\<exists>n. a = Waits n (a_admission_generation d))) \<or> a_committed e = a_committed d @ [m] \<and> r = Inr HandedOver"
  using assms by (auto simp: delivery_accept_def accept_iterator_unaccounted_def accept_iterator_accounted_def enqueue_unaccounted_def enqueue_accounted_def queue_put_nowait_def put_item_def
      split: if_splits sum.splits option.splits prod.splits)

text \<open>What a mark that is owed does to the client: the engine marks exactly this exchange. A failure of the engine is raised, kept as the cause, and ends the session.\<close>

definition marks :: "(int \<times> nat option) option \<Rightarrow> 'w \<Rightarrow> client \<Rightarrow> 'w result \<Rightarrow> client \<Rightarrow> bool" where
  "marks owed w c r d \<longleftrightarrow> (case owed of
      None \<Rightarrow> r = Inr w \<and> c_engine d = c_engine c \<and> c_local_failure d = c_local_failure c
    | Some (mid, token) \<Rightarrow> (case mark_delivered mid token (c_engine c) of
          (Inr _, e) \<Rightarrow> r = Inr w \<and> c_engine d = e \<and> c_local_failure d = c_local_failure c
        | (Inl x, e) \<Rightarrow> r = Inl x \<and> c_engine d = snd (notify_transport_closed e) \<and> c_local_failure d = (case c_local_failure c of None \<Rightarrow> Some x | first \<Rightarrow> first)))"

definition untouched :: "client \<Rightarrow> client \<Rightarrow> bool" where
  "untouched c d \<longleftrightarrow> a_committed (c_delivery d) = a_committed (c_delivery c) \<and> c_engine d = c_engine c \<and> c_local_failure d = c_local_failure c"

text \<open>One turn of an admission of the message \<open>m\<close> from the generation \<open>g\<close>: what it commits and marks, and its result.\<close>

definition turn_marks :: "message \<Rightarrow> int option \<Rightarrow> nat \<Rightarrow> (int \<times> nat option) option \<Rightarrow> client \<Rightarrow> bool result \<Rightarrow> client \<Rightarrow> bool" where
  "turn_marks m n g owed c r d \<longleftrightarrow> (let retired = (g \<noteq> a_admission_generation (c_delivery c))
     in untouched c d \<and> (case r of Inr False \<Rightarrow> \<not> retired \<and> must_wait n (c_delivery c) | Inr True \<Rightarrow> retired \<and> owed \<noteq> None | Inl _ \<Rightarrow> retired \<and> owed = None)
        \<or> (retired \<longrightarrow> owed = None) \<and> a_committed (c_delivery d) = a_committed (c_delivery c) @ [m] \<and> marks owed True c r d)"

lemma marks_delivery [simp]: "marks owed w (c\<lparr>c_delivery := a\<rparr>) r d = marks owed w c r d"
  by (cases owed) (auto simp: marks_def split: prod.split sum.split)

lemma marked_locked:
  assumes "mark_delivered_locked mid token c = (r, d)"
  shows "c_delivery d = c_delivery c" "marks (Some (mid, token)) () c r d"
  using assms by (auto simp: mark_delivered_locked_def marks_def fail_engine_def latch_local_failure_def Let_def split: prod.splits sum.splits option.splits if_splits)

lemma marks_result:
  assumes "marks owed () c r d"
  shows "marks owed w c (case r of Inl x \<Rightarrow> Inl x | Inr _ \<Rightarrow> Inr w) d"
  using assms by (auto simp: marks_def split: option.splits prod.splits sum.splits)

lemma turn_committed:
  assumes "admission_turn m n g d = (r, e)"
  shows "a_callback_mode e = a_callback_mode d \<and> (case r of
      Inr (Some True) \<Rightarrow> g = a_admission_generation d \<and> a_committed e = a_committed d @ [m]
    | Inr (Some False) \<Rightarrow> g \<noteq> a_admission_generation d \<and> e = d
    | Inr None \<Rightarrow> g = a_admission_generation d \<and> must_wait n d \<and> a_committed e = a_committed d
    | Inl x \<Rightarrow> False)"
  using assms by (auto simp: admission_turn_def must_wait_def enqueue_message_def enqueue_unaccounted_def enqueue_accounted_def queue_put_nowait_def put_item_def charge_def queue_full_def
      set_message_ready_def Let_def split: if_splits sum.splits option.splits prod.splits)

lemma acknowledged_committed:
  assumes "deliver_acknowledged m callback wire d = (r, e)" "\<not> a_callback_mode d"
  shows "a_committed e = (if r = Inr () then a_committed d @ [m] else a_committed d)"
  using assms by (auto simp: deliver_acknowledged_def put_over_bound_def put_item_def charge_def set_message_ready_def Let_def split: if_splits sum.splits)

lemma after_turn_marks:
  assumes turn: "admission_turn m n g a = (t, e)" and run: "after_turn m wire owed (t, e) c = (r, d)" and iterator: "\<not> a_callback_mode a"
    and same: "a_committed a = a_committed (c_delivery c)" "a_admission_generation a = a_admission_generation (c_delivery c)" "must_wait n a = must_wait n (c_delivery c)"
  shows "turn_marks m n g owed c r d"
proof -
  note t = turn_committed [OF turn]
  show ?thesis
  proof (cases t)
    case (Inl x)
    then show ?thesis using t by simp
  next
    case (Inr s)
    show ?thesis
    proof (cases s)
      case None
      then show ?thesis using t run Inr same by (auto simp: after_turn_def turn_marks_def untouched_def)
    next
      case (Some b)
      let ?c = "c\<lparr>c_delivery := e\<rparr>"
      obtain r0 d0 where fin: "finish_admission m wire owed b ?c = (r0, d0)" by fastforce
      have rd: "r = (case r0 of Inl x \<Rightarrow> Inl x | Inr _ \<Rightarrow> Inr True)" "d = d0" using run Inr Some fin by (auto simp: after_turn_def split: sum.splits)
      show ?thesis
      proof (cases b)
        case True
        have "marks owed () ?c r0 d0 \<and> c_delivery d0 = e"
        proof (cases owed)
          case owes: (Some p)
          obtain mid token where p: "p = (mid, token)" by (cases p)
          then have "mark_delivered_locked mid token ?c = (r0, d0)" using fin True owes by (simp add: finish_admission_def)
          from marked_locked [OF this] show ?thesis by (simp add: owes p)
        qed (use fin True in \<open>auto simp: finish_admission_def marks_def\<close>)
        then have "marks owed True c r d" "c_delivery d = e" using marks_result [of owed ?c r0 d0 True] rd by auto
        then show ?thesis using t Inr Some True same by (simp add: turn_marks_def)
      next
        case False
        have e: "e = a" "g \<noteq> a_admission_generation (c_delivery c)" using t Inr Some False same by simp_all
        show ?thesis
        proof (cases owed)
          case None
          obtain r1 d1 where ack: "deliver_acknowledged m None wire e = (r1, d1)" by fastforce
          then have "r0 = r1" "d0 = c\<lparr>c_delivery := d1\<rparr>" using fin False None by (auto simp: finish_admission_def)
          then show ?thesis using acknowledged_committed [OF ack] e None same iterator rd by (cases r1) (auto simp: turn_marks_def untouched_def marks_def)
        next
          case (Some p)
          then show ?thesis using fin False e same rd by (auto simp: finish_admission_def turn_marks_def untouched_def split: prod.splits)
        qed
      qed
    qed
  qed
qed

lemma first_call_marks:
  assumes "\<not> a_callback_mode (c_delivery c)" and run: "apply_delivery_effect callback (EffMessage m) c = (r, d)"
  shows "untouched c d \<and> (\<forall>work. r = Inr work \<longrightarrow> (\<exists>n. work = AdmissionWork (d_message m) (d_wire_size m) n (a_admission_generation (c_delivery c)) (owed_mark m)))
      \<or> a_committed (c_delivery d) = a_committed (c_delivery c) @ [d_message m] \<and> marks (owed_mark m) NoWork c r d"
proof -
  obtain a e where accept: "delivery_accept (d_message m) callback (d_wire_size m) (c_delivery c) = (a, e)" by fastforce
  let ?c = "c\<lparr>c_delivery := e\<rparr>"
  have body: "(r, d) = (case a of Inl x \<Rightarrow> (Inl x, ?c)
      | Inr (Waits n g) \<Rightarrow> (Inr (AdmissionWork (d_message m) (d_wire_size m) n g (owed_mark m)), ?c)
      | Inr accepted \<Rightarrow>
         (let work = (case accepted of FairnessYield \<Rightarrow> YieldWork | _ \<Rightarrow> NoWork)
          in case owed_mark m of None \<Rightarrow> (Inr work, ?c)
             | Some (mid, token) \<Rightarrow> (case mark_delivered_locked mid token ?c of (Inl x, c2) \<Rightarrow> (Inl x, c2) | (Inr _, c2) \<Rightarrow> (Inr work, c2))))"
    using run unfolding apply_delivery_effect_def effect.case accept Let_def owed_mark_def [symmetric] by (auto split: sum.splits acceptance.splits)
  from enqueue_committed [OF accept assms(1)] show ?thesis
  proof
    assume "a_committed e = a_committed (c_delivery c) \<and> (\<forall>b. a = Inr b \<longrightarrow> (\<exists>n. b = Waits n (a_admission_generation (c_delivery c))))"
    then show ?thesis using body by (cases a) (auto simp: untouched_def)
  next
    assume handed: "a_committed e = a_committed (c_delivery c) @ [d_message m] \<and> a = Inr HandedOver"
    have "marks (owed_mark m) NoWork ?c r d \<and> c_delivery d = e"
    proof (cases "owed_mark m")
      case None
      then show ?thesis using handed body by (simp add: marks_def)
    next
      case (Some p)
      obtain mid token where p: "p = (mid, token)" by (cases p)
      obtain r1 d1 where marked: "mark_delivered_locked mid token ?c = (r1, d1)" by fastforce
      have rd: "r = (case r1 of Inl x \<Rightarrow> Inl x | Inr _ \<Rightarrow> Inr NoWork)" "d = d1" using handed body Some p marked by (auto split: sum.splits)
      show ?thesis using marked_locked(1) [OF marked] marks_result [OF marked_locked(2) [OF marked], of NoWork] unfolding rd Some p by simp
    qed
    then show ?thesis using handed by simp
  qed
qed

text \<open>
  C11. A message of the iterator is marked as delivered exactly when it is committed to the application's queue, and no suspension separates the two, whether the queue has room
  at once, after a wait, or only after the connection was replaced. The first call either touches neither queue nor engine and, unless it raises, returns the admission to await with the mark it
  owes; or commits the message, once, at the end of the queue, and marks its exchange, if it owes a mark. Each turn of the awaited admission, the first and every resumed one, does the same:
  it suspends, with nothing committed or marked, only while its message does not fit; or it commits the message and marks its exchange before it returns;
  or it was retired with its connection, then a message that owes a mark is left to its replay, neither committed nor marked, and one that owes none is
  committed over the bounds (only the computation of its size can raise). When the engine refuses the mark, the failure is raised and kept, and the session ends.
\<close>

theorem marked_after_commit:
  assumes "\<not> a_callback_mode (c_delivery c)"
  shows "(case apply_delivery_effect callback (EffMessage m) c of (r, d) \<Rightarrow>
        untouched c d \<and> (\<forall>work. r = Inr work \<longrightarrow> (\<exists>n. work = AdmissionWork (d_message m) (d_wire_size m) n (a_admission_generation (c_delivery c)) (owed_mark m)))
      \<or> a_committed (c_delivery d) = a_committed (c_delivery c) @ [d_message m] \<and> marks (owed_mark m) NoWork c r d)
    \<and> (case await_admission msg wire n g owed c of (r, d) \<Rightarrow> turn_marks msg n g owed c r d)
    \<and> (case resume_delivery i wire owed c of (r, d) \<Rightarrow>
        turn_marks (w_message (a_parked (c_delivery c) ! i)) (w_size (a_parked (c_delivery c) ! i)) (w_generation (a_parked (c_delivery c) ! i)) owed c r d)"
proof (intro conjI)
  show "case apply_delivery_effect callback (EffMessage m) c of (r, d) \<Rightarrow>
        untouched c d \<and> (\<forall>work. r = Inr work \<longrightarrow> (\<exists>n. work = AdmissionWork (d_message m) (d_wire_size m) n (a_admission_generation (c_delivery c)) (owed_mark m)))
      \<or> a_committed (c_delivery d) = a_committed (c_delivery c) @ [d_message m] \<and> marks (owed_mark m) NoWork c r d"
    using first_call_marks [OF assms] by (simp split: prod.split)
  show "case await_admission msg wire n g owed c of (r, d) \<Rightarrow> turn_marks msg n g owed c r d"
    using after_turn_marks [of msg n g "c_delivery c", OF prod.collapse [symmetric] _ assms refl refl refl] by (simp add: await_admission_def split: prod.split)
  let ?w = "a_parked (c_delivery c) ! i" and ?a = "leave_admission i (c_delivery c)"
  have "must_wait n ?a = must_wait n (c_delivery c)" for n by (rule must_wait_cong) (simp_all add: leave_admission_def)
  then show "case resume_delivery i wire owed c of (r, d) \<Rightarrow> turn_marks (w_message ?w) (w_size ?w) (w_generation ?w) owed c r d"
    using after_turn_marks [of "w_message ?w" "w_size ?w" "w_generation ?w" ?a, OF prod.collapse [symmetric]] assms
    by (simp add: resume_delivery_def resume_admission_def Let_def leave_admission_def split: prod.split)
qed

subsection \<open>The cause of a disconnection\<close>

text \<open>The causes proposed while a connection ends, in their order.\<close>

definition propose_all :: "(exn \<times> int) list \<Rightarrow> client \<Rightarrow> client" where
  "propose_all causes c = fold (\<lambda>(x, rank) c. propose_disconnect_cause x rank c) causes c"

definition first_highest :: "(exn \<times> int) list \<Rightarrow> exn \<Rightarrow> int \<Rightarrow> bool" where
  "first_highest causes x rank \<longleftrightarrow> (\<exists>before after. causes = before @ (x, rank) # after \<and> (\<forall>(y, s) \<in> set before. s < rank) \<and> (\<forall>(y, s) \<in> set after. s \<le> rank))"

lemma first_highest_later:
  assumes "first_highest causes x rank" "s < rank" shows "first_highest ((y, s) # causes) x rank"
proof -
  obtain before after where "causes = before @ (x, rank) # after" "\<forall>(y, s) \<in> set before. s < rank" "\<forall>(y, s) \<in> set after. s \<le> rank"
    using assms(1) by (auto simp: first_highest_def)
  then show ?thesis using assms(2) unfolding first_highest_def by (intro exI [of _ "(y, s) # before"] exI [of _ after]) auto
qed

lemma first_highest_bound: "first_highest causes x rank \<Longrightarrow> (y, s) \<in> set causes \<Longrightarrow> s \<le> rank"
  by (fastforce simp: first_highest_def)

lemma first_highest_insert:
  assumes "first_highest ((x0, r0) # causes) x rank" "s \<le> r0" shows "first_highest ((x0, r0) # (y, s) # causes) x rank"
proof -
  obtain before after where d: "(x0, r0) # causes = before @ (x, rank) # after" "\<forall>(y, s) \<in> set before. s < rank" "\<forall>(y, s) \<in> set after. s \<le> rank"
    using assms(1) by (auto simp: first_highest_def)
  show ?thesis
  proof (cases before)
    case Nil
    then show ?thesis using d assms(2) unfolding first_highest_def by (intro exI [of _ "[]"] exI [of _ "(y, s) # causes"]) auto
  next
    case (Cons p bs)
    then show ?thesis using d assms(2) unfolding first_highest_def by (intro exI [of _ "(x0, r0) # (y, s) # bs"] exI [of _ after]) auto
  qed
qed

lemma propose_all_kept:
  assumes "c_disconnect_exc c = Some x0" "c_disconnect_rank c = r0"
  shows "\<exists>x rank. first_highest ((x0, r0) # causes) x rank \<and> c_disconnect_exc (propose_all causes c) = Some x"
  using assms
proof (induction causes arbitrary: c x0 r0)
  case Nil
  have "first_highest [(x0, r0)] x0 r0" unfolding first_highest_def by (intro exI [of _ "[]"]) simp
  then show ?case using Nil by (auto simp: propose_all_def)
next
  case (Cons p causes)
  obtain y s where p: "p = (y, s)" by (cases p)
  let ?c = "propose_disconnect_cause y s c"
  have step: "propose_all (p # causes) c = propose_all causes ?c" by (simp add: propose_all_def p)
  show ?case
  proof (cases "s > r0")
    case True
    then have "c_disconnect_exc ?c = Some y" "c_disconnect_rank ?c = s" using Cons(2,3) by (simp_all add: propose_disconnect_cause_def)
    from Cons(1) [OF this] obtain x rank where "first_highest (p # causes) x rank" "c_disconnect_exc (propose_all (p # causes) c) = Some x" unfolding step using p by blast
    moreover from this(1) have "r0 < rank" using first_highest_bound [of "p # causes" x rank y s] True p by simp
    ultimately show ?thesis using first_highest_later by blast
  next
    case False
    then have "?c = c" using Cons(2,3) by (simp add: propose_disconnect_cause_def)
    with Cons(1) [OF Cons(2,3)] obtain x rank where "first_highest ((x0, r0) # causes) x rank" "c_disconnect_exc (propose_all (p # causes) c) = Some x" unfolding step by metis
    moreover from this(1) have "first_highest ((x0, r0) # p # causes) x rank" unfolding p by (rule first_highest_insert) (use False in simp)
    ultimately show ?thesis by blast
  qed
qed

text \<open>
  C20. Of the causes proposed while a connection ends, in whatever order the reader, the pump, the writer and the teardown propose them, the one reported is the first of the highest
  rank: a local failure before a violation by the peer, that before a failure of the transport or a DISCONNECT of the broker, those before a synthetic cause.
\<close>

theorem cause_precedence:
  assumes "c_disconnect_exc c = None" "causes \<noteq> []"
  shows "\<exists>before x rank after. causes = before @ (x, rank) # after \<and> c_disconnect_exc (propose_all causes c) = Some x \<and> (\<forall>(y, s) \<in> set before. s < rank) \<and> (\<forall>(y, s) \<in> set after. s \<le> rank)"
proof -
  obtain y s rest where causes: "causes = (y, s) # rest" using assms(2) by (metis list.exhaust surj_pair)
  let ?c = "propose_disconnect_cause y s c"
  have c: "c_disconnect_exc ?c = Some y" "c_disconnect_rank ?c = s" using assms(1) by (simp_all add: propose_disconnect_cause_def)
  have step: "propose_all causes c = propose_all rest ?c" by (simp add: propose_all_def causes)
  obtain x rank where all: "first_highest causes x rank" "c_disconnect_exc (propose_all causes c) = Some x"
    unfolding step using propose_all_kept [OF c, of rest] causes by blast
  from all(1) show ?thesis unfolding first_highest_def using all(2) by blast
qed

text \<open>A QoS 2 message whose PUBREL has come already waits for room in a queue of one message; the application takes the message before it, and the admission is resumed.\<close>

definition sample_exchange :: engine where
  "sample_exchange = snd (on_pubrel \<lparr>raw_type = PUBREL, raw_flags = 2, remaining = [0, 7]\<rparr> (snd (on_qos2 ([97], [1, 2], 7, False, False, None, None) sample_engine)))"

definition sample_inbound :: delivery where
  "sample_inbound = \<lparr>d_decoded = False, d_message = decoded_message [97] [1, 2] 2 False False (Some 7) None, d_mark = True, d_wire_size = None, d_exchange = Some 0, d_ack_token = None\<rparr>"

definition sample_waiting :: client where
  "sample_waiting =
     (let c0 = new_client sample_exchange 100 1 (snd (delivery_accept (sample_message 3) None None (new_delivery False True 1 (Some 100)))) []
      in case apply_delivery_effect None (EffMessage sample_inbound) c0 of
           (Inr (AdmissionWork m wire n g owed), c1) \<Rightarrow> snd (await_admission m wire n g owed c1)
         | (_, c1) \<Rightarrow> c1)"

definition sample_resumable :: client where
  "sample_resumable = sample_waiting\<lparr>c_delivery := snd (messages_turn 0 (c_delivery sample_waiting))\<rparr>"

lemma sample_resumable_eval:
  "EffMessage sample_inbound \<in> set (e_effects sample_exchange)"
  "map w_message (a_parked (c_delivery sample_resumable)) = [d_message sample_inbound]" "map w_generation (a_parked (c_delivery sample_resumable)) = [0]"
  "\<not> a_callback_mode (c_delivery sample_resumable) \<and> a_admission_generation (c_delivery sample_resumable) = 0" "a_committed (c_delivery sample_resumable) = [sample_message 3]"
  "owed_mark sample_inbound = Some (7, Some 0)" "fst (resume_delivery 0 None (Some (7, Some 0)) sample_resumable) = Inr True"
  "fst (mark_delivered 7 (Some 0) (c_engine sample_resumable)) = Inr ()"
  "last (e_effects (snd (mark_delivered 7 (Some 0) (c_engine sample_resumable)))) = EffSendAck [112, 2, 0, 7]"
  by code_simp+

theorem marked_after_commit_witness:
  "\<not> a_callback_mode (c_delivery sample_resumable) \<and> owed_mark sample_inbound = Some (7, Some 0)
   \<and> (case resume_delivery 0 None (Some (7, Some 0)) sample_resumable of (r, d) \<Rightarrow>
       a_committed (c_delivery d) = [sample_message 3, d_message sample_inbound] \<and> last (e_effects (c_engine d)) = EffSendAck [112, 2, 0, 7])"
proof -
  have mode: "\<not> a_callback_mode (c_delivery sample_resumable)" using sample_resumable_eval(4) by blast
  let ?w = "a_parked (c_delivery sample_resumable) ! 0"
  have parked: "w_message ?w = d_message sample_inbound" "w_generation ?w = 0" using sample_resumable_eval(2,3) by (auto simp: map_eq_Cons_conv)
  obtain r d where run: "resume_delivery 0 None (Some (7, Some 0)) sample_resumable = (r, d)" by fastforce
  have r: "r = Inr True" using sample_resumable_eval(7) run by simp
  from marked_after_commit [OF mode, where i = 0 and wire = None and owed = "Some (7, Some 0)"]
  have "turn_marks (d_message sample_inbound) (w_size ?w) 0 (Some (7, Some 0)) sample_resumable (Inr True) d" unfolding run parked r by simp
  then have c: "a_committed (c_delivery d) = [sample_message 3, d_message sample_inbound]" and m: "marks (Some (7, Some 0)) True sample_resumable (Inr True) d"
    using sample_resumable_eval(4,5) by (auto simp: turn_marks_def)
  obtain e where e: "mark_delivered 7 (Some 0) (c_engine sample_resumable) = (Inr (), e)" using sample_resumable_eval(8) by (metis prod.collapse)
  with m have "c_engine d = e" by (simp add: marks_def)
  then show ?thesis using mode sample_resumable_eval(6,9) run c e by simp
qed

theorem cause_precedence_witness:
  "\<exists>before x rank after. [(MQTTError, CAUSE_TRANSPORT), (ProtocolError, CAUSE_PROTOCOL), (MalformedPacketError, CAUSE_PROTOCOL)] = before @ (x, rank) # after
    \<and> c_disconnect_exc (propose_all [(MQTTError, CAUSE_TRANSPORT), (ProtocolError, CAUSE_PROTOCOL), (MalformedPacketError, CAUSE_PROTOCOL)] sample_start) = Some x \<and> x = ProtocolError"
proof -
  let ?causes = "[(MQTTError, CAUSE_TRANSPORT), (ProtocolError, CAUSE_PROTOCOL), (MalformedPacketError, CAUSE_PROTOCOL)]"
  have "c_disconnect_exc sample_start = None" by (simp add: sample_start_def new_client_def)
  from cause_precedence [OF this, of ?causes] obtain before x rank after
    where w: "?causes = before @ (x, rank) # after" "c_disconnect_exc (propose_all ?causes sample_start) = Some x" by auto
  have "x = ProtocolError" using w(2) by (simp add: propose_all_def propose_disconnect_cause_def CAUSE_TRANSPORT_def CAUSE_PROTOCOL_def sample_start_def new_client_def)
  with w show ?thesis by blast
qed

end
