(* ===== verification/Ingress.thy ===== *)
theory Ingress
  imports Effect_Pump Buffer Engine_Steps
begin

text \<open>
  The reader's side of a connection, \<^verbatim>\<open>AsyncClient._process_ingress_batch\<close> and the body of \<^verbatim>\<open>_read_loop\<close> (\<^verbatim>\<open>src/src/mqttium/api/async_client.py\<close>): received packets
  are handled in bounded lots, and a lot's effects are applied before the next one is decoded. \<^verbatim>\<open>store.batch\<close> of the memory store does nothing.
\<close>

definition MAX_INGRESS_BATCH_BYTES :: int where "MAX_INGRESS_BATCH_BYTES = 1048576"

definition terminal_state :: "engine \<Rightarrow> bool" where
  "terminal_state e \<longleftrightarrow> e_state e = DISCONNECTING \<or> e_state e = DISCONNECTED"

text \<open>What a lot comes to: the packets and bytes handled, whether it stopped to hand acknowledgements over, and the error of the peer that ended it.\<close>

type_synonym lot_result = "nat \<times> int \<times> bool \<times> exn option"

text \<open>\<^verbatim>\<open>engine._effects.pop()\<close>\<close>

definition pop_effect :: "engine \<Rightarrow> unit result \<times> engine" where
  "pop_effect e = (if e_effects e = [] then (Inl IndexError, e) else (Inr (), e\<lparr>e_effects := butlast (e_effects e)\<rparr>))"

fun ingress_loop :: "nat \<Rightarrow> nat \<Rightarrow> int \<Rightarrow> decoder \<Rightarrow> engine \<Rightarrow> lot_result result \<times> decoder \<times> engine" where
  "ingress_loop 0 count decoded_bytes d e = (Inr (count, decoded_bytes, False, None), d, e)"
| "ingress_loop (Suc n) count decoded_bytes d e = (case next_packet d of
      Inl x \<Rightarrow>
        if x = MalformedPacketError \<or> x = PacketTooLargeError
        then (Inr (count, decoded_bytes, False, if terminal_state e then None else Some x), d, e)
        else (Inl x, d, e)
    | Inr (None, d1) \<Rightarrow> (Inr (count, decoded_bytes, False, None), d1, e)
    | Inr (Some p, d1) \<Rightarrow>
        (case handle_raw p e of
           (Inl x, e1) \<Rightarrow> (Inl x, d1, e1)
         | (Inr (Some x), e1) \<Rightarrow> (case pop_effect e1 of (Inl y, e2) \<Rightarrow> (Inl y, d1, e2) | (Inr _, e2) \<Rightarrow> (Inr (count + 1, decoded_bytes, False, Some x), d1, e2))
         | (Inr None, e1) \<Rightarrow>
             (let total_bytes = decoded_bytes + int (length (remaining p)) + 5
              in if i_autoack_handoff_required (e_in e1) then (Inr (count + 1, total_bytes, True, None), d1, e1)
                 else if total_bytes \<ge> MAX_INGRESS_BATCH_BYTES then (Inr (count + 1, total_bytes, False, None), d1, e1)
                 else ingress_loop n (count + 1) total_bytes d1 e1)))"

definition process_ingress_batch :: "decoder \<Rightarrow> engine \<Rightarrow> lot_result result \<times> decoder \<times> engine" where
  "process_ingress_batch d e = ingress_loop 256 0 0 d e"

subsection \<open>One lot of the reader\<close>

text \<open>The errors the reader passes on without blaming the local state for them.\<close>

definition passes_reader :: "exn \<Rightarrow> bool" where
  "passes_reader x \<longleftrightarrow> is_peer_error x \<or> x = SessionReplayError"

text \<open>A local failure: it is latched, a waiting \<^verbatim>\<open>connect\<close> fails with it, of the lot's effects only the outcomes of publications are kept, and the session is retired.\<close>

definition keep_terminal_outcomes :: "nat \<Rightarrow> engine \<Rightarrow> engine" where
  "keep_terminal_outcomes start e = e\<lparr>e_effects := take start (e_effects e) @ filter is_terminal_publish (drop start (e_effects e))\<rparr>"

definition fail_lot :: "nat \<Rightarrow> exn \<Rightarrow> client \<Rightarrow> client" where
  "fail_lot start x c =
     (let d = fail_connack x (latch_local_failure x c)
      in d\<lparr>c_engine := snd (notify_transport_closed (keep_terminal_outcomes start (c_engine d)))\<rparr>)"

text \<open>The part of the loop under the engine's lock; the result has the target of the drain that follows. \<^verbatim>\<open>collect_from_engine\<close> may raise the error of an effect.\<close>

definition reader_lot :: "nat \<Rightarrow> decoder \<Rightarrow> client \<Rightarrow> (lot_result \<times> int) result \<times> decoder \<times> client" where
  "reader_lot task d c =
     (let start = length (e_effects (c_engine c))
      in case process_ingress_batch d (c_engine c) of
           (Inl x, d1, e) \<Rightarrow> (let c1 = c\<lparr>c_engine := e\<rparr> in (Inl x, d1, if passes_reader x then c1 else fail_lot start x c1))
         | (Inr (handled, bytes, handoff, peer), d1, e) \<Rightarrow>
             (let c1 = c\<lparr>c_engine := e\<rparr>
              in case (if handled \<noteq> 0 \<and> has_pending_effects e then collect_from_engine task c1 else (Inr (), c1)) of
                   (Inl x, c2) \<Rightarrow> (Inl x, d1, c2)
                 | (Inr _, c2) \<Rightarrow>
                     (Inr ((handled, bytes, handoff, peer), pm_enqueued c2), d1, case peer of None \<Rightarrow> c2 | Some x \<Rightarrow> observe_peer_error x c2)))"

text \<open>Whether the reader goes back to its transport after the lot.\<close>

definition lot_exhausted :: "lot_result \<Rightarrow> bool" where
  "lot_exhausted r = (case r of (handled, bytes, handoff, _) \<Rightarrow> \<not> handoff \<and> handled < 256 \<and> bytes < MAX_INGRESS_BATCH_BYTES)"

subsection \<open>What a lot handles\<close>

text \<open>Packets handled one after the other, up to the first that fails.\<close>

fun handle_each :: "raw_packet list \<Rightarrow> exn option eop" where
  "handle_each [] e = (Inr None, e)"
| "handle_each (p # ps) e = (case handle_raw p e of (Inr None, e1) \<Rightarrow> handle_each ps e1 | r \<Rightarrow> r)"

definition packet_bytes :: "raw_packet list \<Rightarrow> int" where
  "packet_bytes ps = sum_list (map (\<lambda>p. int (length (remaining p)) + 5) ps)"

lemma packet_bytes_simps [simp]: "packet_bytes [] = 0" "packet_bytes (p # ps) = int (length (remaining p)) + 5 + packet_bytes ps"
  by (simp_all add: packet_bytes_def)

lemma peer_error_emitted: "handle_raw p e = (Inr (Some x), e1) \<Longrightarrow> \<exists>effs. e_effects e1 = effs @ [EffProtocolError x]"
  by (auto simp: handle_raw_def sbind_def sget_def sret_def scatch_def sthen_def emit_def smod_def sraise_def split: if_splits sum.splits prod.splits)

lemma frame_head_errors: "frame_head mx bs = Inl x \<Longrightarrow> x = MalformedPacketError \<or> x = PacketTooLargeError"
  using from_byte_error [of "uint (bs ! 0)" x]
  by (cases "from_byte (uint (bs ! 0))") (auto simp: frame_head_def split: if_splits sum.splits)

text \<open>A lot of \<open>m\<close> packets out of \<open>ps\<close>, when \<open>k\<close> bytes were handled before. All were handled in their order; or the last one failed, and its error, which the engine emitted as its
  last effect, ends the lot instead.\<close>

definition handled_all :: "raw_packet list \<Rightarrow> exn option \<Rightarrow> int \<Rightarrow> engine \<Rightarrow> nat \<Rightarrow> int \<Rightarrow> exn option \<Rightarrow> engine \<Rightarrow> bool" where
  "handled_all ps err k e m k' peer e' \<longleftrightarrow> handle_each (take m ps) e = (Inr None, e') \<and> k' = k + packet_bytes (take m ps) \<and> (peer = None \<or> m = length ps \<and> peer = err \<and> \<not> terminal_state e')"

definition handled_up_to :: "raw_packet list \<Rightarrow> int \<Rightarrow> engine \<Rightarrow> nat \<Rightarrow> int \<Rightarrow> exn option \<Rightarrow> engine \<Rightarrow> bool" where
  "handled_up_to ps k e m k' peer e' \<longleftrightarrow> (\<exists>x. peer = Some x \<and> 0 < m \<and> handle_each (take m ps) e = (Inr (Some x), e'\<lparr>e_effects := e_effects e' @ [EffProtocolError x]\<rparr>)
     \<and> k' = k + packet_bytes (take (m - 1) ps))"

text \<open>The lot ended because of a bound or of a hand-over, because of an error, or because no packet is left.\<close>

definition lot_bounded :: "raw_packet list \<Rightarrow> nat \<Rightarrow> int \<Rightarrow> nat \<Rightarrow> bool" where
  "lot_bounded ps n k m \<longleftrightarrow> m \<le> n \<and> m \<le> length ps \<and> (0 < m \<longrightarrow> k + packet_bytes (take (m - 1) ps) < MAX_INGRESS_BATCH_BYTES)"

definition lot_end :: "raw_packet list \<Rightarrow> exn option \<Rightarrow> nat \<Rightarrow> nat \<Rightarrow> int \<Rightarrow> bool \<Rightarrow> exn option \<Rightarrow> engine \<Rightarrow> bool" where
  "lot_end ps err n m k' handoff peer e' \<longleftrightarrow> (handoff \<longrightarrow> 0 < m \<and> peer = None)
     \<and> (peer = None \<and> \<not> handoff \<and> m < n \<and> k' < MAX_INGRESS_BATCH_BYTES \<longrightarrow> m = length ps \<and> (err = None \<or> terminal_state e'))"

definition lot_of :: "raw_packet list \<Rightarrow> exn option \<Rightarrow> nat \<Rightarrow> int \<Rightarrow> engine \<Rightarrow> nat \<Rightarrow> int \<Rightarrow> bool \<Rightarrow> exn option \<Rightarrow> engine \<Rightarrow> bool" where
  "lot_of ps err n k e m k' handoff peer e' \<longleftrightarrow> (handled_all ps err k e m k' peer e' \<or> handled_up_to ps k e m k' peer e') \<and> lot_bounded ps n k m \<and> lot_end ps err n m k' handoff peer e'"

lemma packet_bytes_pred: "0 < m \<Longrightarrow> packet_bytes (take m (p # ps)) = int (length (remaining p)) + 5 + packet_bytes (take (m - 1) ps)"
  by (cases m) simp_all

lemma handle_first: "handle_raw p e = (Inr None, e1) \<Longrightarrow> handle_each (take (Suc m) (p # ps)) e = handle_each (take m ps) e1"
  by simp

lemma lot_of_Cons:
  assumes lot: "lot_of ps err n (k + int (length (remaining p)) + 5) e1 m k' handoff peer e'" and handled: "handle_raw p e = (Inr None, e1)" and room: "k < MAX_INGRESS_BATCH_BYTES"
  shows "lot_of (p # ps) err (Suc n) k e (Suc m) k' handoff peer e'"
proof -
  note first = handle_first [OF handled, of m ps]
  have "handled_all (p # ps) err k e (Suc m) k' peer e'" if "handled_all ps err (k + int (length (remaining p)) + 5) e1 m k' peer e'"
    using that first unfolding handled_all_def by simp
  moreover have "handled_up_to (p # ps) k e (Suc m) k' peer e'" if "handled_up_to ps (k + int (length (remaining p)) + 5) e1 m k' peer e'"
    using that first packet_bytes_pred [of m p ps] unfolding handled_up_to_def by auto
  moreover have "lot_bounded (p # ps) (Suc n) k (Suc m)"
    using lot room packet_bytes_pred [of m p ps] by (cases "m = 0") (simp_all add: lot_of_def lot_bounded_def)
  moreover have "lot_end (p # ps) err (Suc n) (Suc m) k' handoff peer e'" using lot by (simp add: lot_of_def lot_end_def)
  ultimately show ?thesis using lot unfolding lot_of_def by blast
qed

text \<open>One turn of the loop: no packet is taken, a packet fails, or a packet is handled.\<close>

lemma lot_of_none: "ps = [] \<Longrightarrow> peer = None \<or> peer = err \<and> \<not> terminal_state e \<Longrightarrow> peer = None \<longrightarrow> err = None \<or> terminal_state e \<Longrightarrow> lot_of ps err n k e 0 k False peer e"
  by (auto simp: lot_of_def handled_all_def lot_bounded_def lot_end_def)

lemma lot_of_peer:
  assumes "handle_raw p e = (Inr (Some x), e1\<lparr>e_effects := e_effects e1 @ [EffProtocolError x]\<rparr>)" "k < MAX_INGRESS_BATCH_BYTES"
  shows "lot_of (p # ps) err (Suc n) k e 1 k False (Some x) e1"
  using assms by (simp add: lot_of_def handled_up_to_def lot_bounded_def lot_end_def)

lemma lot_of_last:
  assumes "handle_raw p e = (Inr None, e1)" "k < MAX_INGRESS_BATCH_BYTES" "k' = k + int (length (remaining p)) + 5" "handoff \<or> k' \<ge> MAX_INGRESS_BATCH_BYTES"
  shows "lot_of (p # ps) err (Suc n) k e 1 k' handoff None e1"
  using assms by (auto simp: lot_of_def handled_all_def lot_bounded_def lot_end_def)

lemma ingress_loop_exact:
  assumes "decoder_inv d" "parse_stream (max_packet_size d) (live d) = (ps, err, rest)" "ingress_loop n count k d e = (Inr (count', k', handoff, peer), d1, e1)" "k < MAX_INGRESS_BATCH_BYTES"
  shows "\<exists>m. count' = count + m \<and> decoder_inv d1 \<and> parse_stream (max_packet_size d) (live d1) = (drop m ps, err, rest) \<and> lot_of ps err n k e m k' handoff peer e1"
  using assms
proof (induction n arbitrary: count k d e ps)
  case 0
  then have "lot_of ps err 0 k e 0 k' handoff peer e1" by (simp add: lot_of_def handled_all_def lot_bounded_def lot_end_def)
  with 0 show ?case by (intro exI [of _ 0]) simp
next
  case (Suc n)
  note law = decoder.pull_law [OF Suc.prems(1)] and parse = Suc.prems(2) [unfolded parse_stream.simps [of _ "live d"]]
  show ?case
  proof (cases "frame_head (max_packet_size d) (live d)")
    case (Inl x)
    then have ps: "ps = []" "err = Some x" "next_packet d = Inl x" using law parse by auto
    then have r: "count' = count" "k' = k" "handoff = False" "peer = (if terminal_state e then None else Some x)" "d1 = d" "e1 = e"
      using Suc.prems(3) frame_head_errors [OF Inl] by (auto split: if_splits)
    have "lot_of ps err (Suc n) k e 0 k' handoff peer e1" unfolding r using ps by (intro lot_of_none) simp_all
    then show ?thesis using Suc.prems(1,2) ps by (intro exI [of _ 0]) (simp add: r)
  next
    case (Inr f)
    show ?thesis
    proof (cases f)
      case None
      then have ps: "ps = []" "err = None" "next_packet d = Inr (None, d)" using law parse Inr by auto
      then have r: "count' = count" "k' = k" "handoff = False" "peer = None" "d1 = d" "e1 = e" using Suc.prems(3) by auto
      have "lot_of ps err (Suc n) k e 0 k' handoff peer e1" unfolding r using ps by (intro lot_of_none) simp_all
      then show ?thesis using Suc.prems(1,2) ps by (intro exI [of _ 0]) (simp add: r)
    next
      case (Some pr)
      obtain p tail where pr: "pr = (p, tail)" by fastforce
      obtain d2 where d2: "next_packet d = Inr (Some p, d2)" "decoder_inv d2" "live d2 = tail" "max_packet_size d2 = max_packet_size d" using law Inr Some pr by auto
      obtain qs where qs: "ps = p # qs" "parse_stream (max_packet_size d) tail = (qs, err, rest)" using parse Inr Some pr by (auto split: prod.splits)
      obtain r e2 where handled: "handle_raw p e = (r, e2)" by fastforce
      note turn = Suc.prems(3) [unfolded ingress_loop.simps d2(1) sum.case prod.case option.case handled]
      let ?k = "k + int (length (remaining p)) + 5"
      have rest: "parse_stream (max_packet_size d) (live d2) = (drop 1 ps, err, rest)" by (simp add: qs d2(3))
      show ?thesis
      proof (cases r)
        case (Inl x)
        then show ?thesis using turn by simp
      next
        case (Inr y)
        show ?thesis
        proof (cases y)
          case (Some x)
          obtain effs where effs: "e_effects e2 = effs @ [EffProtocolError x]" using peer_error_emitted handled Inr Some by blast
          have res: "count' = count + 1" "k' = k" "handoff = False" "peer = Some x" "d1 = d2" "e1 = e2\<lparr>e_effects := effs\<rparr>"
            using turn Inr Some effs by (auto simp: pop_effect_def)
          have "handle_raw p e = (Inr (Some x), e1\<lparr>e_effects := e_effects e1 @ [EffProtocolError x]\<rparr>)" using handled Inr Some effs by (simp add: res(6))
          from lot_of_peer [OF this Suc.prems(4)] rest d2(2) show ?thesis by (intro exI [of _ 1]) (simp add: res(1-5) qs(1))
        next
          case None
          note fine = handled [unfolded Inr None]
          show ?thesis
          proof (cases "i_autoack_handoff_required (e_in e2) \<or> ?k \<ge> MAX_INGRESS_BATCH_BYTES")
            case True
            then have res: "count' = count + 1" "k' = ?k" "handoff = i_autoack_handoff_required (e_in e2)" "peer = None" "d1 = d2" "e1 = e2"
              using turn Inr None by (auto simp: Let_def split: if_splits)
            have "lot_of (p # qs) err (Suc n) k e 1 k' handoff None e2" by (rule lot_of_last [OF fine Suc.prems(4) res(2)]) (use True in \<open>simp add: res(2,3)\<close>)
            with rest d2(2) show ?thesis by (intro exI [of _ 1]) (simp add: res(1,4,5,6) qs(1))
          next
            case False
            then have loop: "ingress_loop n (count + 1) ?k d2 e2 = (Inr (count', k', handoff, peer), d1, e1)" "?k < MAX_INGRESS_BATCH_BYTES"
              using turn Inr None by (auto simp: Let_def)
            from Suc.IH [OF d2(2) _ loop, of qs] qs(2) d2(3,4) obtain m where m: "count' = count + 1 + m" "decoder_inv d1"
                "parse_stream (max_packet_size d) (live d1) = (drop m qs, err, rest)" "lot_of qs err n ?k e2 m k' handoff peer e1" by auto
            from lot_of_Cons [OF m(4) fine Suc.prems(4)] m(1-3) show ?thesis by (intro exI [of _ "Suc m"]) (simp add: qs)
          qed
        qed
      qed
    qed
  qed
qed

subsection \<open>Properties\<close>

text \<open>
  C18. A lot of the reader handles exactly the first packets of the received stream, in order, as if they were handled one by one, and leaves the others to the decoder. It has at most 256 packets and stops at the first one
  that brings it to the byte bound. An error of the peer ends it: the error of the last packet, whose copy among the effects is withdrawn, or that of the bytes behind the last complete packet. The
  reader goes back to its transport only when no complete packet is left; every other lot has made progress.
\<close>

theorem ingress_lot_exact:
  assumes "decoder_inv d" "parse_stream (max_packet_size d) (live d) = (ps, err, rest)" "process_ingress_batch d e = (Inr (n, k, handoff, peer), d1, e1)"
  shows "n \<le> 256 \<and> n \<le> length ps \<and> decoder_inv d1 \<and> parse_stream (max_packet_size d) (live d1) = (drop n ps, err, rest)
    \<and> (handle_each (take n ps) e = (Inr None, e1) \<and> k = packet_bytes (take n ps) \<and> (peer = None \<or> n = length ps \<and> peer = err)
       \<or> (\<exists>x. peer = Some x \<and> 0 < n \<and> handle_each (take n ps) e = (Inr (Some x), e1\<lparr>e_effects := e_effects e1 @ [EffProtocolError x]\<rparr>)))
    \<and> (0 < n \<longrightarrow> packet_bytes (take (n - 1) ps) < MAX_INGRESS_BATCH_BYTES)
    \<and> (peer = None \<and> lot_exhausted (n, k, handoff, peer) \<longrightarrow> n = length ps \<and> (err = None \<or> terminal_state e1))
    \<and> (peer = None \<and> \<not> lot_exhausted (n, k, handoff, peer) \<longrightarrow> 0 < n)"
proof -
  have "ingress_loop 256 0 0 d e = (Inr (n, k, handoff, peer), d1, e1)" "0 < MAX_INGRESS_BATCH_BYTES" using assms(3) by (simp_all add: process_ingress_batch_def MAX_INGRESS_BATCH_BYTES_def)
  from ingress_loop_exact [OF assms(1,2) this] have d1: "decoder_inv d1" "parse_stream (max_packet_size d) (live d1) = (drop n ps, err, rest)" and lot: "lot_of ps err 256 0 e n k handoff peer e1" by auto
  have bounded: "n \<le> 256 \<and> n \<le> length ps \<and> (0 < n \<longrightarrow> packet_bytes (take (n - 1) ps) < MAX_INGRESS_BATCH_BYTES)" using lot by (simp add: lot_of_def lot_bounded_def)
  have handled: "handle_each (take n ps) e = (Inr None, e1) \<and> k = packet_bytes (take n ps) \<and> (peer = None \<or> n = length ps \<and> peer = err)
       \<or> (\<exists>x. peer = Some x \<and> 0 < n \<and> handle_each (take n ps) e = (Inr (Some x), e1\<lparr>e_effects := e_effects e1 @ [EffProtocolError x]\<rparr>))"
    using lot by (auto simp: lot_of_def handled_all_def handled_up_to_def)
  have exhausted: "peer = None \<and> lot_exhausted (n, k, handoff, peer) \<longrightarrow> n = length ps \<and> (err = None \<or> terminal_state e1)"
    using lot by (auto simp: lot_of_def lot_end_def lot_exhausted_def)
  have "0 < n" if "peer = None" "\<not> lot_exhausted (n, k, handoff, peer)"
  proof (rule ccontr)
    assume "\<not> 0 < n"
    then have "k = 0" "\<not> handoff" using lot that(1) by (auto simp: lot_of_def handled_all_def handled_up_to_def lot_end_def)
    then show False using that(2) \<open>\<not> 0 < n\<close> by (simp add: lot_exhausted_def MAX_INGRESS_BATCH_BYTES_def)
  qed
  with bounded handled exhausted d1 show ?thesis by blast
qed

text \<open>Two PINGRESP packets that arrive after the engine was closed.\<close>

definition sample_decoder :: decoder where
  "sample_decoder = \<lparr>d_buf = [0xD0, 0x00, 0xD0, 0x00], d_start = 0, d_end = 4, d_capacity = 4, idle_drains = 0, window_peak = 0, drain_had_large_frame = False, d_offered = 0,
     target_window = INITIAL_WINDOW, full_fills = 0, max_packet_size = 100, high_water = 0\<rparr>"

definition closed_engine :: engine where
  "closed_engine = sample_engine\<lparr>e_state := DISCONNECTED, e_in := (e_in sample_engine)\<lparr>i_autoack_handoff_required := False\<rparr>\<rparr>"

theorem ingress_lot_exact_witness:
  "\<exists>ps d1 e1. parse_stream 100 (live sample_decoder) = (ps, None, []) \<and> length ps = 2 \<and> process_ingress_batch sample_decoder closed_engine = (Inr (2, 10, False, None), d1, e1)
    \<and> handle_each ps closed_engine = (Inr None, e1) \<and> parse_stream 100 (live d1) = ([], None, [])"
proof -
  let ?p = "\<lparr>raw_type = PINGRESP, raw_flags = 0, remaining = []\<rparr>"
  have inv: "decoder_inv sample_decoder" "max_packet_size sample_decoder = 100" "live sample_decoder = [0xD0, 0x00, 0xD0, 0x00]"
    by (simp_all add: decoder_inv_def sample_decoder_def live_def py_slice_def)
  have f: "frame_head 100 [0xD0, 0x00, 0xD0, 0x00] = Inr (Some (?p, [0xD0, 0x00]))" "frame_head 100 [0xD0, 0x00] = Inr (Some (?p, []))" "frame_head 100 [] = Inr None"
    by (simp_all add: frame_head_def decode_vbi_def from_byte_alt PACKET_TYPES_BY_NIBBLE_def)
  have ps: "parse_stream 100 (live sample_decoder) = ([?p, ?p], None, [])" using f by (simp add: parse_stream.simps inv(3))
  obtain d1 where d1: "next_packet sample_decoder = Inr (Some ?p, d1)" "decoder_inv d1" "live d1 = [0xD0, 0x00]" "max_packet_size d1 = 100"
    using decoder.pull_law [OF inv(1)] f(1) inv(2,3) by auto
  obtain d2 where d2: "next_packet d1 = Inr (Some ?p, d2)" "decoder_inv d2" "live d2 = []" "max_packet_size d2 = 100"
    using decoder.pull_law [OF d1(2)] f(2) d1(3,4) by auto
  have "next_packet d2 = Inr (None, d2)" using decoder.pull_law [OF d2(2)] f(3) d2(3,4) by auto
  moreover have "handle_raw ?p closed_engine = (Inr None, closed_engine)" by (simp add: handle_raw_def closed_engine_def sbind_def sget_def sret_def)
  moreover have "\<not> i_autoack_handoff_required (e_in closed_engine)" by (simp add: closed_engine_def)
  moreover have "(256 :: nat) = Suc (Suc (Suc 253))" by simp
  ultimately have lot: "process_ingress_batch sample_decoder closed_engine = (Inr (2, 10, False, None), d2, closed_engine)"
    by (simp only: process_ingress_batch_def ingress_loop.simps d1(1)) (simp add: d2(1) MAX_INGRESS_BATCH_BYTES_def)
  from ingress_lot_exact [OF inv(1) _ lot, of "[?p, ?p]" None "[]"] ps lot show ?thesis by (auto simp: inv(2))
qed

end
