(* ===== verification/WebSocket.thy ===== *)
theory WebSocket
  imports Prelude
begin

text \<open>
  The WebSocket transport, \<^verbatim>\<open>src/src/mqttium/transport/websocket.py\<close>: client framing and masking (RFC 6455),
  the frame parser, the extraction of application payloads with its control frames and fragmented messages, and the coalescing
  of packets into frames. The stream below is the sequence of bytes given to the writer and of the chunks its reader returns; waiting
  for it to drain moves no data. \<^verbatim>\<open>os.urandom(4)\<close> is a parameter: the \<open>n\<close>-th mask drawn.
  A broker reads exactly the bytes written, and the client exactly the messages sent, however the stream is cut.
\<close>

subsection \<open>Big-endian integers of \<^verbatim>\<open>struct\<close>\<close>

definition be_bytes :: "nat \<Rightarrow> nat \<Rightarrow> bytes" where
  "be_bytes n v = map (\<lambda>i. byte_of_nat (v div 256 ^ (n - 1 - i) mod 256)) [0..<n]"

definition be_value :: "bytes \<Rightarrow> nat" where
  "be_value bs = foldl (\<lambda>v b. 256 * v + unat b) 0 bs"

definition struct_pack :: "nat \<Rightarrow> nat \<Rightarrow> bytes result" where
  "struct_pack n v = (if v < 256 ^ n then Inr (be_bytes n v) else Inl StructError)"

subsection \<open>Masking\<close>

definition xor_tables :: "bytes list" where
  "xor_tables = map (\<lambda>key. map (\<lambda>v. byte_of_nat v XOR byte_of_nat key) [0..<256]) [0..<256]"

text \<open>The indices of the slice \<^verbatim>\<open>[offset::4]\<close> of a string of \<open>n\<close> bytes.\<close>

definition stride :: "nat \<Rightarrow> nat \<Rightarrow> nat list" where
  "stride offset n = filter (\<lambda>i. (i - offset) mod 4 = 0) [offset..<n]"

definition mask_stride :: "bytes \<Rightarrow> nat \<times> byte \<Rightarrow> bytes \<Rightarrow> bytes" where
  "mask_stride payload p masked =
     (case p of (offset, key) \<Rightarrow>
        fold (\<lambda>i out. out[i := xor_tables ! unat key ! unat (payload ! i)]) (stride offset (length payload)) masked)"

definition mask_payload :: "bytes \<Rightarrow> bytes \<Rightarrow> bytes" where
  "mask_payload payload msk = fold (mask_stride payload) (enumerate 0 msk) (replicate (length payload) 0)"

subsection \<open>Client frames\<close>

definition masked_frame_size :: "nat \<Rightarrow> nat" where
  "masked_frame_size payload_size =
     (if payload_size < 126 then payload_size + 6 else if payload_size < 65536 then payload_size + 8 else payload_size + 14)"

definition client_frame_header :: "int \<Rightarrow> nat \<Rightarrow> bytes \<Rightarrow> bytes result" where
  "client_frame_header opcode payload_size msk =
     (let first = byte_of (0x80 OR (opcode AND 0x0F))
      in if payload_size < 126 then Inr ([first, byte_of (0x80 OR int payload_size)] @ msk)
         else if payload_size < 65536 then rbind (struct_pack 2 payload_size) (\<lambda>size. Inr ([first, byte_of (0x80 OR 126)] @ size @ msk))
         else rbind (struct_pack 8 payload_size) (\<lambda>size. Inr ([first, byte_of (0x80 OR 127)] @ size @ msk)))"

definition mask_client_frame :: "int \<Rightarrow> bytes \<Rightarrow> bytes \<Rightarrow> bytes result" where
  "mask_client_frame opcode payload msk =
     (if length msk \<noteq> 4 then Inl ValueError
      else rbind (client_frame_header opcode (length payload) msk) (\<lambda>header. Inr (header @ mask_payload payload msk)))"

subsection \<open>Parsing\<close>

definition MAX_CONTROL_PAYLOAD :: nat where "MAX_CONTROL_PAYLOAD = 125"
definition MAX_PENDING_CONTROL :: nat where "MAX_PENDING_CONTROL = 16"
definition MAX_COALESCED_PAYLOAD :: nat where "MAX_COALESCED_PAYLOAD = 262144"

text \<open>The length field: its value and where the rest of the frame starts, or nothing while it is incomplete.\<close>

definition frame_length :: "bytes \<Rightarrow> (nat \<times> nat) option result" where
  "frame_length buf =
     (let ln = unat (buf ! 1 AND 0x7F)
      in if ln = 126 then
           (if length buf < 4 then Inr None
            else (let n = be_value (py_slice buf 2 4) in if n < 126 then Inl ConnectionError else Inr (Some (n, 4))))
         else if ln = 127 then
           (if length buf < 10 then Inr None
            else (let n = be_value (py_slice buf 2 10)
                  in if n \<ge> 2 ^ 63 then Inl ConnectionError
                     else if n < 65536 then Inl ConnectionError
                     else Inr (Some (n, 10))))
         else Inr (Some (ln, 2)))"

text \<open>The frame, if it is complete, and what is left of the buffer; a refusal leaves the buffer as it is.\<close>

definition parse_frame :: "bytes \<Rightarrow> nat \<Rightarrow> bool option \<Rightarrow> (bool \<times> nat \<times> bytes) option result \<times> bytes" where
  "parse_frame buf max_frame_size expect_masked =
     (if length buf < 2 then (Inr None, buf)
      else
        (let b0 = buf ! 0; b1 = buf ! 1
         in if b0 AND 0x70 \<noteq> 0 then (Inl ConnectionError, buf)
            else
              (let fin = (b0 AND 0x80 \<noteq> 0); masked = (b1 AND 0x80 \<noteq> 0)
               in if expect_masked \<noteq> None \<and> Some masked \<noteq> expect_masked then (Inl ConnectionError, buf)
                  else
                    (let opcode = unat (b0 AND 0x0F)
                     in if opcode \<notin> {0x0, 0x2, 0x8, 0x9, 0xA} then (Inl ConnectionError, buf)
                        else case frame_length buf of
                          Inl x \<Rightarrow> (Inl x, buf)
                        | Inr None \<Rightarrow> (Inr None, buf)
                        | Inr (Some (ln, pos)) \<Rightarrow>
                            if ln > max_frame_size then (Inl ConnectionError, buf)
                            else if opcode \<in> {0x8, 0x9, 0xA}
                                    \<and> (ln > MAX_CONTROL_PAYLOAD \<or> \<not> fin \<or> opcode = 0x8 \<and> ln = 1) then (Inl ConnectionError, buf)
                            else
                              (let mask_len = (if masked then 4 else 0); start = pos + mask_len; total = start + ln
                               in if length buf < total then (Inr None, buf)
                                  else
                                    (let msk = py_slice buf pos start; raw = py_slice buf start total
                                     in (Inr (Some (fin, opcode, if masked then map (\<lambda>(i, b). b XOR msk ! (i mod 4)) (enumerate 0 raw) else raw)),
                                         drop total buf)))))))"

subsection \<open>The transport\<close>

text \<open>\<open>ws_out\<close>: the bytes given to the stream's writer; \<open>ws_stream_closing\<close>: the stream refuses writes;
  \<open>ws_draws\<close>: how many masks were drawn.\<close>

record websocket =
  ws_recv_buf :: bytes
  ws_closing :: bool
  ws_pending_control :: "bytes list"
  ws_max_frame_size :: nat
  ws_max_write_batch_bytes :: nat
  ws_fragment :: "bytes option"
  ws_out :: bytes
  ws_stream_closing :: bool
  ws_draws :: nat

definition new_websocket :: "int \<Rightarrow> int \<Rightarrow> websocket result" where
  "new_websocket max_frame_size max_write_batch_bytes =
     (if max_frame_size \<le> 0 then Inl ValueError
      else if max_write_batch_bytes \<le> 0 then Inl ValueError
      else Inr \<lparr>ws_recv_buf = [], ws_closing = False, ws_pending_control = [], ws_max_frame_size = nat max_frame_size,
                ws_max_write_batch_bytes = nat max_write_batch_bytes, ws_fragment = None, ws_out = [], ws_stream_closing = False, ws_draws = 0\<rparr>)"

definition ensure_writable :: "websocket \<Rightarrow> unit result" where
  "ensure_writable w = (if ws_stream_closing w then Inl ConnectionError else Inr ())"

definition flush_control :: "websocket \<Rightarrow> unit result \<times> websocket" where
  "flush_control w =
     (if ws_pending_control w = [] then (Inr (), w)
      else case ensure_writable w of
        Inl x \<Rightarrow> (Inl x, w)
      | Inr _ \<Rightarrow> (Inr (), w\<lparr>ws_out := ws_out w @ concat (ws_pending_control w), ws_pending_control := []\<rparr>))"

text \<open>\<^verbatim>\<open>_mask_client_frame\<close> without a mask draws one.\<close>

definition draw_frame :: "(nat \<Rightarrow> bytes) \<Rightarrow> int \<Rightarrow> bytes \<Rightarrow> websocket \<Rightarrow> bytes result \<times> websocket" where
  "draw_frame urandom opcode payload w =
     (mask_client_frame opcode payload (urandom (ws_draws w)), w\<lparr>ws_draws := ws_draws w + 1\<rparr>)"

definition ws_write :: "(nat \<Rightarrow> bytes) \<Rightarrow> bytes \<Rightarrow> websocket \<Rightarrow> unit result \<times> websocket" where
  "ws_write urandom data w =
     (case ensure_writable w of
        Inl x \<Rightarrow> (Inl x, w)
      | Inr _ \<Rightarrow>
          (case flush_control w of
             (Inl x, w1) \<Rightarrow> (Inl x, w1)
           | (Inr _, w1) \<Rightarrow>
               (case draw_frame urandom 0x2 data w1 of
                  (Inl x, w2) \<Rightarrow> (Inl x, w2)
                | (Inr frame, w2) \<Rightarrow> (Inr (), w2\<lparr>ws_out := ws_out w2 @ frame\<rparr>))))"

definition write_payload_batch :: "(nat \<Rightarrow> bytes) \<Rightarrow> bytes list \<Rightarrow> nat \<Rightarrow> websocket \<Rightarrow> unit result \<times> websocket" where
  "write_payload_batch urandom parts payload_bytes w =
     (case ensure_writable w of
        Inl x \<Rightarrow> (Inl x, w)
      | Inr _ \<Rightarrow>
          (let payload = concat parts; msk = urandom (ws_draws w); w1 = w\<lparr>ws_draws := ws_draws w + 1\<rparr>
           in case client_frame_header 0x2 payload_bytes msk of
                Inl x \<Rightarrow> (Inl x, w1)
              | Inr header \<Rightarrow> (Inr (), w1\<lparr>ws_out := ws_out w1 @ header @ mask_payload payload msk\<rparr>)))"

text \<open>The loop of \<^verbatim>\<open>write_many\<close> over the remaining parts, with the batch collected so far.\<close>

fun write_many_loop :: "(nat \<Rightarrow> bytes) \<Rightarrow> bytes list \<Rightarrow> bytes list \<Rightarrow> nat \<Rightarrow> websocket \<Rightarrow> unit result \<times> websocket" where
  "write_many_loop urandom [] batch payload_bytes w =
     (if batch \<noteq> [] then write_payload_batch urandom batch payload_bytes w else (Inr (), w))"
| "write_many_loop urandom (part # parts) batch payload_bytes w =
     (let projected = payload_bytes + length part;
          full = (\<lambda>n. masked_frame_size n > ws_max_write_batch_bytes w \<or> n > ws_max_frame_size w \<or> n > MAX_COALESCED_PAYLOAD);
          reached = (\<lambda>n. masked_frame_size n \<ge> ws_max_write_batch_bytes w \<or> n \<ge> ws_max_frame_size w \<or> n \<ge> MAX_COALESCED_PAYLOAD)
      in case (if batch \<noteq> [] \<and> full projected
               then (case write_payload_batch urandom batch payload_bytes w of (r, w1) \<Rightarrow> (r, [], length part, w1))
               else (Inr (), batch, projected, w)) of
           (Inl x, _, _, w1) \<Rightarrow> (Inl x, w1)
         | (Inr _, batch1, projected1, w1) \<Rightarrow>
             (if reached projected1
              then (case write_payload_batch urandom (batch1 @ [part]) projected1 w1 of
                      (Inl x, w2) \<Rightarrow> (Inl x, w2)
                    | (Inr _, w2) \<Rightarrow> write_many_loop urandom parts [] 0 w2)
              else write_many_loop urandom parts (batch1 @ [part]) projected1 w1))"

definition write_many :: "(nat \<Rightarrow> bytes) \<Rightarrow> bytes list \<Rightarrow> websocket \<Rightarrow> unit result \<times> websocket" where
  "write_many urandom parts w =
     (if parts = [] then (Inr (), w)
      else case ensure_writable w of
        Inl x \<Rightarrow> (Inl x, w)
      | Inr _ \<Rightarrow>
          (case flush_control w of
             (Inl x, w1) \<Rightarrow> (Inl x, w1)
           | (Inr _, w1) \<Rightarrow> write_many_loop urandom parts [] 0 w1))"

subsection \<open>Reading\<close>

lemma parse_frame_shorter: "parse_frame buf n m = (Inr (Some f), buf') \<Longrightarrow> length buf' < length buf"
  by (auto simp: parse_frame_def frame_length_def Let_def split: if_splits sum.splits option.splits)

text \<open>The body of the loop on one parsed frame: \<open>Inr None\<close> goes on with the next one, \<open>Inr (Some p)\<close> returns \<open>p\<close>. A ping
  ends the turn so that its pong is sent.\<close>

definition take_frame :: "(nat \<Rightarrow> bytes) \<Rightarrow> bool \<times> nat \<times> bytes \<Rightarrow> websocket \<Rightarrow> bytes option option result \<times> websocket" where
  "take_frame urandom f w =
     (case f of (fin, opcode, raw) \<Rightarrow>
        if opcode = 0x8 then (Inr (Some (Some [])), w\<lparr>ws_closing := True\<rparr>)
        else if opcode = 0x9 then
          (if length (ws_pending_control w) \<ge> MAX_PENDING_CONTROL then (Inl ConnectionError, w)
           else case draw_frame urandom 0xA raw w of
                  (Inl x, w1) \<Rightarrow> (Inl x, w1)
                | (Inr pong, w1) \<Rightarrow> (Inr (Some None), w1\<lparr>ws_pending_control := ws_pending_control w1 @ [pong]\<rparr>))
        else if opcode = 0xA then (Inr None, w)
        else if opcode = 0x2 then
          (if ws_fragment w \<noteq> None then (Inl ConnectionError, w)
           else if \<not> fin then (Inr None, w\<lparr>ws_fragment := Some raw\<rparr>)
           else if raw = [] then (Inr None, w)
           else (Inr (Some (Some raw)), w))
        else if opcode = 0x0 then
          (case ws_fragment w of
             None \<Rightarrow> (Inl ConnectionError, w)
           | Some fragment \<Rightarrow>
               (let w1 = w\<lparr>ws_fragment := Some (fragment @ raw)\<rparr>
                in if length (fragment @ raw) > ws_max_frame_size w1 then (Inl ConnectionError, w1)
                   else if fin then
                     (let w2 = w1\<lparr>ws_fragment := None\<rparr>
                      in if fragment @ raw = [] then (Inr None, w2) else (Inr (Some (Some (fragment @ raw))), w2))
                   else (Inr None, w1)))
        else (Inl AssertionError, w))"

lemma take_frame_buffer: "take_frame urandom f w = (r, w') \<Longrightarrow> ws_recv_buf w' = ws_recv_buf w"
  by (auto simp: take_frame_def draw_frame_def Let_def split: prod.splits if_splits option.splits sum.splits)

lemma take_frame_control:
  "take_frame urandom f w = (r, w') \<Longrightarrow> ws_pending_control w' \<noteq> ws_pending_control w \<Longrightarrow> r = Inr (Some None)"
  by (auto simp: take_frame_def draw_frame_def Let_def split: prod.splits if_splits option.splits sum.splits)

function try_extract_application_payload :: "(nat \<Rightarrow> bytes) \<Rightarrow> websocket \<Rightarrow> bytes option result \<times> websocket" where
  "try_extract_application_payload urandom w =
     (case parse_frame (ws_recv_buf w) (ws_max_frame_size w) (Some False) of
        (Inl x, _) \<Rightarrow> (Inl x, w)
      | (Inr None, _) \<Rightarrow> (Inr None, w)
      | (Inr (Some f), buf) \<Rightarrow>
          (case take_frame urandom f (w\<lparr>ws_recv_buf := buf\<rparr>) of
             (Inl x, w1) \<Rightarrow> (Inl x, w1)
           | (Inr (Some payload), w1) \<Rightarrow> (Inr payload, w1)
           | (Inr None, w1) \<Rightarrow> try_extract_application_payload urandom w1))"
  by pat_completeness auto
termination
  by (relation "measure (\<lambda>(_, w). length (ws_recv_buf w))") (auto dest!: parse_frame_shorter [OF sym] take_frame_buffer [OF sym])

declare try_extract_application_payload.simps [simp del]

definition ws_backlog :: "websocket \<Rightarrow> nat" where
  "ws_backlog w = length (ws_recv_buf w) + (if ws_pending_control w = [] then 0 else 1)"

lemma extract_backlog:
  "try_extract_application_payload urandom w = (r, w') \<Longrightarrow>
     length (ws_recv_buf w') + (if ws_pending_control w = [] \<and> ws_pending_control w' \<noteq> [] then 1 else 0) \<le> length (ws_recv_buf w)"
proof (induction "length (ws_recv_buf w)" arbitrary: w rule: less_induct)
  case less
  note run = less.prems [unfolded try_extract_application_payload.simps [of urandom w]]
  obtain p buf where p: "parse_frame (ws_recv_buf w) (ws_max_frame_size w) (Some False) = (p, buf)" by fastforce
  show ?case
  proof (cases "\<exists>f. p = Inr (Some f)")
    case False
    with run show ?thesis by (auto simp: p split: sum.splits option.splits)
  next
    case True
    then obtain f where f: "p = Inr (Some f)" by blast
    then have shorter: "length buf < length (ws_recv_buf w)" using p parse_frame_shorter by blast
    obtain q w1 where t: "take_frame urandom f (w\<lparr>ws_recv_buf := buf\<rparr>) = (q, w1)" by fastforce
    note T = take_frame_buffer [OF t] take_frame_control [OF t]
    show ?thesis
      using run T shorter less.hyps [of w1] by (auto simp: p f t split: sum.splits option.splits if_splits)
  qed
qed

lemma flush_control_empties: "flush_control w = (Inr u, w') \<Longrightarrow> ws_pending_control w' = [] \<and> ws_recv_buf w' = ws_recv_buf w"
  by (auto simp: flush_control_def split: if_splits sum.splits)

lemma read_progress:
  assumes "(Inr p, w1) = try_extract_application_payload urandom w" "ws_pending_control w1 \<noteq> []" "(Inr u, w2) = flush_control w1"
  shows "ws_backlog w2 < ws_backlog w"
  using extract_backlog [OF assms(1) [symmetric]] flush_control_empties [OF assms(3) [symmetric]] assms(2)
  by (auto simp: ws_backlog_def split: if_splits)

text \<open>
  \<^verbatim>\<open>read\<close>, given the chunks the stream's reader returns from now on (the empty one at its end). It returns the
  payload, the chunks it has not used and the transport; \<open>Inr None\<close> while it waits for another chunk.
\<close>

function ws_read :: "(nat \<Rightarrow> bytes) \<Rightarrow> bytes list \<Rightarrow> websocket \<Rightarrow> bytes option result \<times> bytes list \<times> websocket" where
  "ws_read urandom chunks w =
     (case try_extract_application_payload urandom w of
        (Inl x, w1) \<Rightarrow> (Inl x, chunks, w1)
      | (Inr payload, w1) \<Rightarrow>
          (case (if ws_pending_control w1 \<noteq> [] then flush_control w1 else (Inr (), w1)) of
             (Inl x, w2) \<Rightarrow> (Inl x, chunks, w2)
           | (Inr _, w2) \<Rightarrow>
               (case payload of
                  Some p \<Rightarrow> (Inr (Some p), chunks, w2)
                | None \<Rightarrow>
                    if ws_pending_control w1 \<noteq> [] then ws_read urandom chunks w2
                    else case chunks of
                           [] \<Rightarrow> (Inr None, [], w2)
                         | chunk # rest \<Rightarrow>
                             if chunk = [] then (Inr (Some []), rest, w2\<lparr>ws_closing := True\<rparr>)
                             else ws_read urandom rest (w2\<lparr>ws_recv_buf := ws_recv_buf w2 @ chunk\<rparr>))))"
  by pat_completeness auto
termination
  by (relation "measures [\<lambda>(_, chunks, w). length chunks, \<lambda>(_, chunks, w). ws_backlog w]") (auto intro: read_progress)

declare ws_read.simps [simp del]

subsection \<open>Closing\<close>

text \<open>The close frame is queued before the stream closes; a stream that is already closing drops it.\<close>

definition ws_close :: "(nat \<Rightarrow> bytes) \<Rightarrow> websocket \<Rightarrow> websocket" where
  "ws_close urandom w =
     (let w1 = (case draw_frame urandom 0x8 [] w of
                  (Inl _, w1) \<Rightarrow> w1
                | (Inr frame, w1) \<Rightarrow> if ws_stream_closing w1 then w1 else w1\<lparr>ws_out := ws_out w1 @ frame\<rparr>)
      in w1\<lparr>ws_closing := True, ws_stream_closing := True, ws_recv_buf := [], ws_pending_control := [], ws_fragment := None\<rparr>)"

definition ws_is_closing :: "websocket \<Rightarrow> bool" where
  "ws_is_closing w \<longleftrightarrow> ws_closing w \<or> ws_stream_closing w"

end
