(* ===== verification/WebSocket_Frames.thy ===== *)
theory WebSocket_Frames
  imports WebSocket
begin

text \<open>
  The frames of RFC 6455 as a broker reads and writes them, and what the transport makes of them: masking is an involution,
  client frames are read back exactly, and a parser that has seen only a part of a frame waits.
\<close>

subsection \<open>Big-endian integers\<close>

lemma be_bytes_Suc: "be_bytes (Suc n) v = be_bytes n (v div 256) @ [byte_of_nat (v mod 256)]"
proof -
  have "v div 256 ^ (n - i) = v div 256 div 256 ^ (n - Suc i)" if "i < n" for i
    using that by (metis Suc_diff_Suc div_mult2_eq power_Suc)
  then show ?thesis by (simp add: be_bytes_def)
qed

lemma be_bytes_simps [simp]: "length (be_bytes n v) = n" "be_bytes 0 v = []"
  by (simp_all add: be_bytes_def)

lemma be_value_append: "be_value (bs @ [b]) = 256 * be_value bs + unat b"
  by (simp add: be_value_def)

lemma be_value_bytes [simp]: "v < 256 ^ n \<Longrightarrow> be_value (be_bytes n v) = v"
proof (induction n arbitrary: v)
  case (Suc n)
  then have "v div 256 < 256 ^ n" by (simp add: less_mult_imp_div_less mult.commute)
  with Suc.IH show ?case by (simp add: be_bytes_Suc be_value_append)
qed (simp add: be_value_def)

subsection \<open>Masking\<close>

lemma fold_updates:
  "length (fold (\<lambda>i out. out[i := g i]) js xs) = length xs"
  "j < length xs \<Longrightarrow> fold (\<lambda>i out. out[i := g i]) js xs ! j = (if j \<in> set js then g j else xs ! j)"
  by (induction js arbitrary: xs) (auto simp: nth_list_update)

lemma xor_tables_nth: "xor_tables ! unat key ! unat b = b XOR key"
proof -
  have "map f [0..<256] ! unat c = f (unat c)" for f :: "nat \<Rightarrow> 'x" and c :: byte
    by (subst nth_map) (use unat_byte_less [of c] in simp_all)
  then show ?thesis by (simp add: xor_tables_def)
qed

lemma in_stride: "i \<in> set (stride offset n) \<longleftrightarrow> offset \<le> i \<and> i < n \<and> (i - offset) mod 4 = 0"
  by (auto simp: stride_def)

definition hits :: "nat \<Rightarrow> nat \<Rightarrow> bool" where
  "hits offset i \<longleftrightarrow> offset \<le> i \<and> (i - offset) mod 4 = 0"

lemma hits_iff: "hits 0 i \<longleftrightarrow> i mod 4 = 0" "hits 1 i \<longleftrightarrow> i mod 4 = 1" "hits 2 i \<longleftrightarrow> i mod 4 = 2" "hits 3 i \<longleftrightarrow> i mod 4 = 3"
  unfolding hits_def by presburger+

lemma mask_stride_simps:
  "length (mask_stride payload p out) = length out"
  "i < length out \<Longrightarrow> i < length payload \<Longrightarrow> mask_stride payload (offset, key) out ! i = (if hits offset i then payload ! i XOR key else out ! i)"
  by (auto simp: mask_stride_def fold_updates in_stride xor_tables_nth hits_def split: prod.split)

definition unmask :: "bytes \<Rightarrow> bytes \<Rightarrow> bytes" where
  "unmask key data = (if key = [] then data else map (\<lambda>(i, b). b XOR key ! (i mod 4)) (enumerate 0 data))"

lemma unmask_simps [simp]: "unmask [] data = data" "length (unmask key data) = length data"
  by (simp_all add: unmask_def)

lemma unmask_nth: "key \<noteq> [] \<Longrightarrow> i < length data \<Longrightarrow> unmask key data ! i = data ! i XOR key ! (i mod 4)"
  by (simp add: unmask_def nth_enumerate_eq)

lemma mask_payload_eq:
  assumes "length key = 4"
  shows "mask_payload payload key = unmask key payload"
proof -
  obtain a b c d where key: "key = [a, b, c, d]" using assms by (auto simp: length_Suc_conv eval_nat_numeral)
  have eq: "mask_payload payload key = mask_stride payload (3, d) (mask_stride payload (2, c) (mask_stride payload (1, b) (mask_stride payload (0, a) (replicate (length payload) 0))))"
    by (simp add: mask_payload_def key eval_nat_numeral)
  have "mask_payload payload key ! i = payload ! i XOR key ! (i mod 4)" if "i < length payload" for i
  proof -
    have "mask_payload payload key ! i = (if hits 3 i then payload ! i XOR d else if hits 2 i then payload ! i XOR c
        else if hits 1 i then payload ! i XOR b else if hits 0 i then payload ! i XOR a else 0)"
      using that by (simp only: eq mask_stride_simps length_replicate nth_replicate)
    moreover have "i mod 4 = 0 \<or> i mod 4 = 1 \<or> i mod 4 = 2 \<or> i mod 4 = 3" by presburger
    ultimately show ?thesis by (elim disjE) (simp_all only: hits_iff, simp_all add: key)
  qed
  moreover have "length (mask_payload payload key) = length payload" unfolding eq by (simp add: mask_stride_simps(1))
  moreover have "key \<noteq> []" by (simp add: key)
  ultimately show ?thesis by (intro nth_equalityI) (simp_all add: unmask_nth)
qed

lemma unmask_unmask: "unmask key (unmask key data) = data"
proof (cases "key = []")
  case False
  then show ?thesis by (intro nth_equalityI) (simp_all add: unmask_nth xor.assoc)
qed simp

subsection \<open>The wire form of a frame\<close>

definition size_field :: "nat \<Rightarrow> nat \<times> bytes" where
  "size_field n = (if n < 126 then (n, []) else if n < 65536 then (126, be_bytes 2 n) else (127, be_bytes 8 n))"

definition frame_wire :: "bool \<Rightarrow> nat \<Rightarrow> bytes \<Rightarrow> bytes \<Rightarrow> bytes" where
  "frame_wire fin opcode key data =
     [byte_of_nat ((if fin then 128 else 0) + opcode), byte_of_nat ((if key = [] then 0 else 128) + fst (size_field (length data)))]
     @ snd (size_field (length data)) @ key @ data"

text \<open>The frames a parser with the given limit accepts.\<close>

definition good_frame :: "nat \<Rightarrow> bool \<Rightarrow> nat \<Rightarrow> nat \<Rightarrow> bool" where
  "good_frame limit fin opcode n \<longleftrightarrow> opcode \<in> {0, 2, 8, 9, 10} \<and> n \<le> limit \<and> n < 2 ^ 63
     \<and> (opcode \<in> {8, 9, 10} \<longrightarrow> n \<le> 125 \<and> fin \<and> (opcode = 8 \<longrightarrow> n \<noteq> 1))"

lemma first_byte:
  assumes "opcode \<in> {0, 2, 8, 9, 10}"
  shows "byte_of_nat ((if fin then 128 else 0) + opcode) AND 0x70 = 0" "byte_of_nat ((if fin then 128 else 0) + opcode) AND 0x80 \<noteq> 0 \<longleftrightarrow> fin"
    "unat (byte_of_nat ((if fin then 128 else 0) + opcode) AND 0x0F) = opcode"
proof -
  have all: "\<forall>opcode \<in> set [0, 2, 8, 9, 10]. \<forall>fin \<in> set [True, False]. byte_of_nat ((if fin then 128 else 0) + opcode) AND 0x70 = 0
      \<and> (byte_of_nat ((if fin then 128 else 0) + opcode) AND 0x80 \<noteq> 0 \<longleftrightarrow> fin) \<and> unat (byte_of_nat ((if fin then 128 else 0) + opcode) AND 0x0F) = opcode"
    by (simp add: byte_of_nat_def)
  have "opcode \<in> set [0, 2, 8, 9, 10]" "fin \<in> set [True, False]" using assms by auto
  from all [rule_format, OF this] show "byte_of_nat ((if fin then 128 else 0) + opcode) AND 0x70 = 0" "byte_of_nat ((if fin then 128 else 0) + opcode) AND 0x80 \<noteq> 0 \<longleftrightarrow> fin"
    "unat (byte_of_nat ((if fin then 128 else 0) + opcode) AND 0x0F) = opcode"
    by blast+
qed

lemma second_byte:
  assumes "s < 128"
  shows "byte_of_nat ((if m then 128 else 0) + s) AND 0x80 \<noteq> 0 \<longleftrightarrow> m" "unat (byte_of_nat ((if m then 128 else 0) + s) AND 0x7F) = s"
proof -
  let ?n = "(if m then 128 else 0) + s" and ?b = "byte_of_nat ((if m then 128 else 0) + s)"
  have "unat ?b = ?n" using assms by (cases m) simp_all
  then have b: "uint ?b = int ?n" by (simp only: uint_nat)
  have "uint (?b AND 0x80) = int ?n AND 0x80" "uint (?b AND 0x7F) = int ?n AND 0x7F" by (simp_all only: uint_and b) simp_all
  then have top: "uint (?b AND 0x80) = 0 \<longleftrightarrow> \<not> m" and low: "uint (?b AND 0x7F) = int s"
    using assms byte_top_bit [of "int ?n"] by (cases m; simp add: int_and_7F)+
  show "?b AND 0x80 \<noteq> 0 \<longleftrightarrow> m" using top by (simp add: word_uint_eq_iff)
  show "unat (?b AND 0x7F) = s" using low by (simp add: unat_eq_nat_uint)
qed

subsection \<open>Parsing a wire form\<close>

lemma slice_prefix:
  assumes "buf @ later = xs @ ys @ zs" "length xs + length ys \<le> length buf" "a = length xs" "b = length xs + length ys"
  shows "py_slice buf a b = ys"
proof -
  have "py_slice (buf @ later) a b = ys" unfolding assms(1,3,4) by simp
  moreover have "py_slice (buf @ later) a b = py_slice buf a b" using assms(2-4) by (simp add: py_slice_def)
  ultimately show ?thesis by simp
qed

lemma prefix_nth: "buf @ later = xs \<Longrightarrow> i < length buf \<Longrightarrow> buf ! i = xs ! i"
  by (metis nth_append)

lemma frame_length_wire:
  assumes pre: "buf @ later = [x, byte_of_nat ((if m then 128 else 0) + fst (size_field n))] @ snd (size_field n) @ rest" and two: "2 \<le> length buf" and n: "n < 2 ^ 63"
  shows "frame_length buf = (if length buf < 2 + length (snd (size_field n)) then Inr None else Inr (Some (n, 2 + length (snd (size_field n)))))"
proof -
  have "fst (size_field n) < 128" by (simp add: size_field_def)
  moreover have "buf ! 1 = byte_of_nat ((if m then 128 else 0) + fst (size_field n))" using prefix_nth [OF pre, of 1] two by simp
  ultimately have ln: "unat (buf ! 1 AND 0x7F) = fst (size_field n)" using second_byte(2) by simp
  have slice: "py_slice buf 2 (2 + length (snd (size_field n))) = snd (size_field n)" if "2 + length (snd (size_field n)) \<le> length buf"
    by (rule slice_prefix [OF pre]) (use that in simp_all)
  have small: "n < 256 ^ 8" using n by simp
  consider "n < 126" | "126 \<le> n" "n < 65536" | "65536 \<le> n" by linarith
  then show ?thesis
  proof cases
    case 1
    then show ?thesis using ln two by (simp add: frame_length_def size_field_def)
  next
    case 2
    with slice ln show ?thesis by (auto simp: frame_length_def size_field_def Let_def)
  next
    case 3
    with slice ln n small show ?thesis by (auto simp: frame_length_def size_field_def Let_def)
  qed
qed

lemma parse_frame_wire:
  assumes pre: "buf @ later = frame_wire fin opcode key data @ rest" and good: "good_frame limit fin opcode (length data)" and key: "key = [] \<or> length key = 4"
  shows "parse_frame buf limit (Some (key \<noteq> [])) =
    (if length buf < length (frame_wire fin opcode key data) then (Inr None, buf) else (Inr (Some (fin, opcode, unmask key data)), drop (length (frame_wire fin opcode key data)) buf))"
proof (cases "length buf < 2")
  case True
  then show ?thesis by (simp add: parse_frame_def frame_wire_def)
next
  case False
  let ?ext = "snd (size_field (length data))"
  let ?x = "byte_of_nat ((if fin then 128 else 0) + opcode)" and ?y = "byte_of_nat ((if key \<noteq> [] then 128 else 0) + fst (size_field (length data)))"
  have p: "buf @ later = [?x, ?y] @ ?ext @ key @ data @ rest" using pre by (simp add: frame_wire_def)
  have "0 < length buf" "1 < length buf" using False by linarith+
  from this [THEN prefix_nth [OF p]] have b: "buf ! 0 = ?x" "buf ! 1 = ?y" by simp_all
  have op: "opcode \<in> {0, 2, 8, 9, 10}" using good by (simp add: good_frame_def)
  have y: "?y AND 0x80 \<noteq> 0 \<longleftrightarrow> key \<noteq> []" by (rule second_byte) (simp add: size_field_def)
  have fl: "frame_length buf = (if length buf < 2 + length ?ext then Inr None else Inr (Some (length data, 2 + length ?ext)))"
    by (rule frame_length_wire [OF p]) (use False good in \<open>simp_all add: good_frame_def\<close>)
  have k: "py_slice buf (2 + length ?ext) (2 + length ?ext + length key) = key" if "2 + length ?ext + length key \<le> length buf"
    by (rule slice_prefix [of _ later "[?x, ?y] @ ?ext" _ "data @ rest"]) (use p that in simp_all)
  have d: "py_slice buf (2 + length ?ext + length key) (2 + length ?ext + length key + length data) = data" if "2 + length ?ext + length key + length data \<le> length buf"
    by (rule slice_prefix [of _ later "[?x, ?y] @ ?ext @ key" _ rest]) (use p that in simp_all)
  have len: "length (frame_wire fin opcode key data) = 2 + length ?ext + length key + length data" by (simp add: frame_wire_def)
  have kl: "(if key \<noteq> [] then 4 else 0) = length key" using key by auto
  have bits: "buf ! 0 AND 0x70 = 0" "buf ! 0 AND 0x80 \<noteq> 0 \<longleftrightarrow> fin" "unat (buf ! 0 AND 0x0F) = opcode" "buf ! 1 AND 0x80 \<noteq> 0 \<longleftrightarrow> key \<noteq> []"
    unfolding b using first_byte [OF op] y by blast+
  have ok: "\<not> limit < length data" "\<not> (opcode \<in> {0x8, 0x9, 0xA} \<and> (MAX_CONTROL_PAYLOAD < length data \<or> \<not> fin \<or> opcode = 0x8 \<and> length data = 1))"
    using good by (auto simp: good_frame_def MAX_CONTROL_PAYLOAD_def)
  have "parse_frame buf limit (Some (key \<noteq> [])) = (case frame_length buf of
        Inl x \<Rightarrow> (Inl x, buf) | Inr None \<Rightarrow> (Inr None, buf)
      | Inr (Some (ln, pos)) \<Rightarrow> if ln > limit then (Inl ConnectionError, buf)
          else if opcode \<in> {0x8, 0x9, 0xA} \<and> (ln > MAX_CONTROL_PAYLOAD \<or> \<not> fin \<or> opcode = 0x8 \<and> ln = 1) then (Inl ConnectionError, buf)
          else if length buf < pos + length key + ln then (Inr None, buf)
          else (Inr (Some (fin, opcode, if key \<noteq> [] then map (\<lambda>(i, c). c XOR py_slice buf pos (pos + length key) ! (i mod 4)) (enumerate 0 (py_slice buf (pos + length key) (pos + length key + ln)))
             else py_slice buf (pos + length key) (pos + length key + ln))), drop (pos + length key + ln) buf))"
    unfolding parse_frame_def Let_def bits kl using False op by (simp only: if_False if_True refl simp_thms not_not option.inject)
  also have "\<dots> = (if length buf < length (frame_wire fin opcode key data) then (Inr None, buf)
      else (Inr (Some (fin, opcode, unmask key data)), drop (length (frame_wire fin opcode key data)) buf))"
  proof (cases "length buf < 2 + length ?ext + length key + length data")
    case True
    then show ?thesis unfolding fl len using ok by (simp del: de_Morgan_conj)
  next
    case False
    with k d show ?thesis unfolding fl len using ok by (cases "key = []") (simp_all add: unmask_def del: de_Morgan_conj)
  qed
  finally show ?thesis .
qed

end
