(* ===== verification/WebSocket_Streams.thy ===== *)
theory WebSocket_Streams
  imports WebSocket_Frames
begin

text \<open>
  Both directions of a WebSocket connection: what a broker reads of the packets written, and what the client reads of the
  frames a broker sends.
\<close>

subsection \<open>Writing\<close>

lemma header_bytes:
  "opcode \<in> {0, 2, 8, 9, 10} \<Longrightarrow> byte_of (0x80 OR (int opcode AND 0x0F)) = byte_of_nat (128 + opcode)"
  "n < 128 \<Longrightarrow> byte_of (0x80 OR int n) = byte_of_nat (128 + n)"
proof -
  have sum: "byte_of (0x80 OR int k) = byte_of_nat (128 + k)" if "k < 128" for k
    using int_or_80 [of "int k"] that by (simp add: or.commute byte_of_def byte_of_nat_def)
  show "byte_of (0x80 OR int n) = byte_of_nat (128 + n)" if "n < 128" by (rule sum [OF that])
  show "byte_of (0x80 OR (int opcode AND 0x0F)) = byte_of_nat (128 + opcode)" if "opcode \<in> {0, 2, 8, 9, 10}"
  proof -
    have "int opcode AND 0x0F = int opcode" using that by auto
    then show ?thesis using sum [of opcode] that by auto
  qed
qed

lemma client_frame_eq:
  assumes "opcode \<in> {0, 2, 8, 9, 10}" "length key = 4" "length data < 2 ^ 63"
  obtains h where "client_frame_header (int opcode) (length data) key = Inr h" "h @ data = frame_wire True opcode key data"
    "length (h @ data) = masked_frame_size (length data)"
proof -
  have key: "key \<noteq> []" using assms(2) by auto
  let ?x = "byte_of_nat (128 + opcode)"
  have b: "byte_of (0x80 OR 126) = byte_of_nat (128 + 126)" "byte_of (0x80 OR 127) = byte_of_nat (128 + 127)"
    using header_bytes(2) [of 126] header_bytes(2) [of 127] by simp_all
  have "client_frame_header (int opcode) (length data) key
      = Inr ([?x, byte_of_nat (128 + fst (size_field (length data)))] @ snd (size_field (length data)) @ key)"
    using header_bytes(1) [OF assms(1)] header_bytes(2) [of "length data"] b assms(3)
    by (auto simp: client_frame_header_def size_field_def struct_pack_def Let_def)
  then show ?thesis by (rule that) (use key assms(2) in \<open>auto simp: frame_wire_def size_field_def masked_frame_size_def\<close>)
qed

text \<open>The frames of the given payloads, masked from the \<open>k\<close>-th draw on.\<close>

fun data_frames :: "(nat \<Rightarrow> bytes) \<Rightarrow> nat \<Rightarrow> bytes list \<Rightarrow> bytes" where
  "data_frames urandom k [] = []"
| "data_frames urandom k (p # ps) = frame_wire True 2 (urandom k) (unmask (urandom k) p) @ data_frames urandom (k + 1) ps"

lemma data_frames_append: "data_frames urandom k (ps @ qs) = data_frames urandom k ps @ data_frames urandom (k + length ps) qs"
  by (induction ps arbitrary: k) simp_all

lemma write_payload_batch_eq:
  assumes "\<not> ws_stream_closing w" "length (urandom (ws_draws w)) = 4" "length (concat parts) < 2 ^ 63"
  shows "write_payload_batch urandom parts (length (concat parts)) w =
    (Inr (), w\<lparr>ws_draws := ws_draws w + 1, ws_out := ws_out w @ data_frames urandom (ws_draws w) [concat parts]\<rparr>)"
proof -
  have l: "length (unmask (urandom (ws_draws w)) (concat parts)) < 2 ^ 63" using assms(3) by simp
  obtain h where "client_frame_header (int 2) (length (unmask (urandom (ws_draws w)) (concat parts))) (urandom (ws_draws w)) = Inr h"
      "h @ unmask (urandom (ws_draws w)) (concat parts) = frame_wire True 2 (urandom (ws_draws w)) (unmask (urandom (ws_draws w)) (concat parts))"
    by (rule client_frame_eq [of 2, OF _ assms(2) l]) auto
  then show ?thesis using assms(1) by (simp add: write_payload_batch_def ensure_writable_def mask_payload_eq [OF assms(2)] Let_def)
qed

text \<open>A batch is one packet, or stays within every bound.\<close>

definition fits :: "websocket \<Rightarrow> bytes list \<Rightarrow> bool" where
  "fits w g \<longleftrightarrow> length g = 1 \<or> masked_frame_size (length (concat g)) \<le> ws_max_write_batch_bytes w \<and> length (concat g) \<le> ws_max_frame_size w
     \<and> length (concat g) \<le> MAX_COALESCED_PAYLOAD"

definition written :: "(nat \<Rightarrow> bytes) \<Rightarrow> bytes list list \<Rightarrow> websocket \<Rightarrow> websocket" where
  "written urandom gs w = w\<lparr>ws_draws := ws_draws w + length gs, ws_out := ws_out w @ data_frames urandom (ws_draws w) (map concat gs)\<rparr>"

lemma written_simps [simp]:
  "ws_stream_closing (written urandom gs w) = ws_stream_closing w" "fits (written urandom gs w) = fits w"
  "ws_max_write_batch_bytes (written urandom gs w) = ws_max_write_batch_bytes w" "ws_max_frame_size (written urandom gs w) = ws_max_frame_size w"
  "written urandom [] w = w" "written urandom hs (written urandom gs w) = written urandom (gs @ hs) w"
  by (simp_all add: written_def fits_def fun_eq_iff data_frames_append add.assoc)

lemma write_many_loop_eq:
  assumes "\<not> ws_stream_closing w" "\<And>k. length (urandom k) = 4" "length (concat (batch @ parts)) < 2 ^ 63" "batch \<noteq> [] \<Longrightarrow> fits w batch"
  shows "\<exists>gs. write_many_loop urandom parts batch (length (concat batch)) w = (Inr (), written urandom gs w)
    \<and> concat gs = batch @ parts \<and> list_all (fits w) gs"
  using assms(1,3,4)
proof (induction parts arbitrary: batch w)
  case Nil
  show ?case
  proof (cases "batch = []")
    case True
    then show ?thesis by (intro exI [of _ "[]"]) simp
  next
    case False
    then show ?thesis using Nil assms(2) write_payload_batch_eq [of w urandom batch]
      by (intro exI [of _ "[batch]"]) (simp add: written_def)
  qed
next
  case (Cons part parts)
  define flushed where "flushed \<longleftrightarrow> batch \<noteq> [] \<and> \<not> fits w (batch @ [part])"
  define gs1 where "gs1 = (if flushed then [batch] else [])"
  define b1 where "b1 = (if flushed then [] else batch) @ [part]"
  have small: "length (concat batch) < 2 ^ 63" "length (concat b1) < 2 ^ 63" "length (concat (b1 @ parts)) < 2 ^ 63" "length (concat parts) < 2 ^ 63"
    using Cons.prems(2) by (auto simp: b1_def)
  have f1: "fits w b1" by (cases "flushed"; cases "batch = []") (auto simp: b1_def flushed_def fits_def)
  have split: "concat gs1 @ b1 = batch @ [part]" by (simp add: gs1_def b1_def)
  have first: "(if batch \<noteq> [] \<and> (masked_frame_size (length (concat batch) + length part) > ws_max_write_batch_bytes w
        \<or> length (concat batch) + length part > ws_max_frame_size w \<or> length (concat batch) + length part > MAX_COALESCED_PAYLOAD)
      then (case write_payload_batch urandom batch (length (concat batch)) w of (r, w1) \<Rightarrow> (r, [], length part, w1))
      else (Inr (), batch, length (concat batch) + length part, w)) = (Inr (), (if flushed then [] else batch), length (concat b1), written urandom gs1 w)"
    using write_payload_batch_eq [OF Cons.prems(1) assms(2) small(1)] by (auto simp: flushed_def fits_def gs1_def b1_def written_def)
  have all1: "list_all (fits w) gs1" using Cons.prems(3) by (simp add: gs1_def flushed_def)
  let ?w1 = "written urandom gs1 w"
  show ?case
  proof (cases "masked_frame_size (length (concat b1)) \<ge> ws_max_write_batch_bytes w \<or> length (concat b1) \<ge> ws_max_frame_size w \<or> length (concat b1) \<ge> MAX_COALESCED_PAYLOAD")
    case True
    let ?w2 = "written urandom (gs1 @ [b1]) w"
    have wb: "write_payload_batch urandom b1 (length (concat b1)) ?w1 = (Inr (), ?w2)"
      using write_payload_batch_eq [of ?w1 urandom b1] Cons.prems(1) assms(2) small(2) by (simp add: written_def data_frames_append)
    obtain gs where gs: "write_many_loop urandom parts [] 0 ?w2 = (Inr (), written urandom gs ?w2)" "concat gs = parts" "list_all (fits w) gs"
      using Cons.IH [of ?w2 "[]"] Cons.prems(1) small(4) by auto
    have "write_many_loop urandom (part # parts) batch (length (concat batch)) w = (Inr (), written urandom ((gs1 @ [b1]) @ gs) w)"
      using True wb gs(1) by (simp add: first Let_def b1_def [symmetric] split del: if_split)
    then show ?thesis using split gs all1 f1 by (intro exI [of _ "(gs1 @ [b1]) @ gs"]) auto
  next
    case False
    obtain gs where gs: "write_many_loop urandom parts b1 (length (concat b1)) ?w1 = (Inr (), written urandom gs ?w1)" "concat gs = b1 @ parts" "list_all (fits w) gs"
      using Cons.IH [of ?w1 b1] Cons.prems(1) small(3) f1 by auto
    have "write_many_loop urandom (part # parts) batch (length (concat batch)) w = (Inr (), written urandom (gs1 @ gs) w)"
      using False gs(1) by (simp add: first Let_def b1_def [symmetric] split del: if_split)
    then show ?thesis using split gs all1 by (intro exI [of _ "gs1 @ gs"]) auto
  qed
qed

text \<open>What a broker reads from a stream of client frames, and what it has left.\<close>

function broker_reads :: "nat \<Rightarrow> bytes \<Rightarrow> (bool \<times> nat \<times> bytes) list \<times> bytes" where
  "broker_reads limit buf =
     (case parse_frame buf limit (Some True) of
        (Inr (Some f), rest) \<Rightarrow> (case broker_reads limit rest of (fs, left) \<Rightarrow> (f # fs, left))
      | _ \<Rightarrow> ([], buf))"
  by pat_completeness auto
termination
  by (relation "measure (\<lambda>(_, buf). length buf)") (auto dest: parse_frame_shorter [OF sym])

declare broker_reads.simps [simp del]

lemma broker_reads_data:
  assumes "\<And>k. length (urandom k) = 4" "\<forall>p \<in> set ps. length p \<le> limit \<and> length p < 2 ^ 63"
  shows "broker_reads limit (data_frames urandom k ps) = (map (\<lambda>p. (True, 2, p)) ps, [])"
  using assms(2)
proof (induction ps arbitrary: k)
  case Nil
  show ?case by (simp add: broker_reads.simps [of limit "[]"] parse_frame_def)
next
  case (Cons p ps)
  let ?w = "frame_wire True 2 (urandom k) (unmask (urandom k) p)"
  have key: "urandom k \<noteq> []" using assms(1) [of k] by auto
  have "parse_frame (?w @ data_frames urandom (k + 1) ps) limit (Some (urandom k \<noteq> [])) = (Inr (Some (True, 2, unmask (urandom k) (unmask (urandom k) p))), data_frames urandom (k + 1) ps)"
    by (subst parse_frame_wire [where later = "[]" and rest = "data_frames urandom (k + 1) ps" and fin = True and opcode = 2 and key = "urandom k" and data = "unmask (urandom k) p"])
      (use Cons.prems assms(1) in \<open>simp_all add: good_frame_def\<close>)
  with Cons.IH [of "k + 1"] Cons.prems key show ?case
    by (simp add: broker_reads.simps [of limit "?w @ _"] unmask_unmask)
qed

text \<open>
  C21. Packets written to a WebSocket in one call arrive as they were written: the call succeeds, a broker that parses the bytes sent reads complete,
  final binary messages and nothing else, and these are the packets, in order, grouped so that every message holds
  either one packet or no more than the configured batch and frame bounds allow.
\<close>

theorem write_many_read_back:
  assumes "\<not> ws_stream_closing w" "ws_pending_control w = []" "\<And>k. length (urandom k) = 4" "length (concat parts) \<le> limit" "limit < 2 ^ 63"
  shows "\<exists>w' wire gs. write_many urandom parts w = (Inr (), w') \<and> ws_out w' = ws_out w @ wire
    \<and> concat gs = parts \<and> list_all (fits w) gs \<and> broker_reads limit wire = (map (\<lambda>g. (True, 2, concat g)) gs, [])"
proof -
  obtain gs where gs: "write_many_loop urandom parts [] 0 w = (Inr (), written urandom gs w)" "concat gs = parts" "list_all (fits w) gs"
    using write_many_loop_eq [of w urandom "[]" parts] assms by auto
  have "length (concat g) \<le> length (concat parts)" if "g \<in> set gs" for g
    using that unfolding gs(2) [symmetric] by (induction gs) auto
  then have "\<forall>p \<in> set (map concat gs). length p \<le> limit \<and> length p < 2 ^ 63" using assms(4,5) by fastforce
  from broker_reads_data [OF assms(3) this] have "broker_reads limit (data_frames urandom (ws_draws w) (map concat gs)) = (map (\<lambda>g. (True, 2, concat g)) gs, [])"
    by (simp add: comp_def)
  moreover have "write_many urandom parts w = (Inr (), written urandom gs w)"
    using gs(1) assms(1,2) by (auto simp: write_many_def ensure_writable_def flush_control_def)
  ultimately show ?thesis using gs(2,3)
    by (intro exI [of _ "written urandom gs w"] exI [of _ "data_frames urandom (ws_draws w) (map concat gs)"] exI [of _ gs]) (simp add: written_def)
qed

subsection \<open>Reading\<close>

type_synonym frame = "bool \<times> nat \<times> bytes"

definition frames_wire :: "frame list \<Rightarrow> bytes" where
  "frames_wire fs = concat (map (\<lambda>(fin, opcode, data). frame_wire fin opcode [] data) fs)"

text \<open>A message is a final binary frame, or a binary frame and its continuations; control frames may come between them.
  \<open>fr\<close> is the message being assembled.\<close>

definition frag_step :: "bytes option \<Rightarrow> frame \<Rightarrow> bytes option" where
  "frag_step fr f = (case f of (fin, opcode, data) \<Rightarrow>
     if opcode = 2 then (if fin then None else Some data) else if opcode = 0 then (if fin then None else Some (the fr @ data)) else fr)"

definition out_step :: "bytes option \<Rightarrow> frame \<Rightarrow> bytes list" where
  "out_step fr f = (case f of (fin, opcode, data) \<Rightarrow>
     if opcode = 2 \<and> fin \<and> data \<noteq> [] then [data] else if opcode = 0 \<and> fin \<and> the fr @ data \<noteq> [] then [the fr @ data] else [])"

fun payloads :: "bytes option \<Rightarrow> frame list \<Rightarrow> bytes list" where
  "payloads fr [] = []"
| "payloads fr (f # fs) = out_step fr f @ payloads (frag_step fr f) fs"

definition legal_step :: "nat \<Rightarrow> bytes option \<Rightarrow> frame \<Rightarrow> bool" where
  "legal_step limit fr f \<longleftrightarrow> (case f of (fin, opcode, data) \<Rightarrow>
     good_frame limit fin opcode (length data) \<and> opcode \<noteq> 8 \<and> (opcode = 2 \<longrightarrow> fr = None) \<and> (opcode = 0 \<longrightarrow> fr \<noteq> None \<and> length (the fr @ data) \<le> limit))"

fun legal :: "nat \<Rightarrow> bytes option \<Rightarrow> frame list \<Rightarrow> bool" where
  "legal limit fr [] = True"
| "legal limit fr (f # fs) \<longleftrightarrow> legal_step limit fr f \<and> legal limit (frag_step fr f) fs"

definition pings :: "frame list \<Rightarrow> bytes list" where
  "pings fs = map (\<lambda>(fin, opcode, data). data) (filter (\<lambda>(fin, opcode, data). opcode = 9) fs)"

definition pong :: "bytes \<Rightarrow> bytes \<Rightarrow> bytes" where
  "pong key data = frame_wire True 10 key (unmask key data)"

fun pongs :: "(nat \<Rightarrow> bytes) \<Rightarrow> nat \<Rightarrow> bytes list \<Rightarrow> bytes" where
  "pongs urandom k [] = []"
| "pongs urandom k (d # ds) = pong (urandom k) d @ pongs urandom (k + 1) ds"

lemma pings_simps [simp]: "pings [] = []" "pings (f # fs) = (if fst (snd f) = 9 then [snd (snd f)] else []) @ pings fs"
  by (auto simp: pings_def split: prod.splits)

lemma draw_pong:
  assumes "length (urandom (ws_draws w)) = 4" "length data < 2 ^ 63"
  shows "draw_frame urandom 0xA data w = (Inr (pong (urandom (ws_draws w)) data), w\<lparr>ws_draws := ws_draws w + 1\<rparr>)"
proof -
  have l: "length (unmask (urandom (ws_draws w)) data) < 2 ^ 63" using assms(2) by simp
  obtain h where "client_frame_header (int 10) (length (unmask (urandom (ws_draws w)) data)) (urandom (ws_draws w)) = Inr h"
      "h @ unmask (urandom (ws_draws w)) data = frame_wire True 10 (urandom (ws_draws w)) (unmask (urandom (ws_draws w)) data)"
    by (rule client_frame_eq [of 10, OF _ assms(1) l]) auto
  then show ?thesis using assms(1) by (simp add: draw_frame_def mask_client_frame_def mask_payload_eq pong_def)
qed

lemma take_frame_legal:
  assumes "legal_step (ws_max_frame_size w) (ws_fragment w) f" "ws_pending_control w = []" "\<And>k. length (urandom k) = 4"
  shows "take_frame urandom f w =
    (if fst (snd f) = 9 then (Inr (Some None), w\<lparr>ws_draws := ws_draws w + 1, ws_pending_control := [pong (urandom (ws_draws w)) (snd (snd f))]\<rparr>)
     else (Inr (case out_step (ws_fragment w) f of [] \<Rightarrow> None | p # _ \<Rightarrow> Some (Some p)), w\<lparr>ws_fragment := frag_step (ws_fragment w) f\<rparr>))"
proof -
  obtain fin opcode data where f: "f = (fin, opcode, data)" by (cases f)
  have "opcode \<in> {0, 2, 9, 10}" and good: "good_frame (ws_max_frame_size w) fin opcode (length data)"
    using assms(1) by (auto simp: legal_step_def f good_frame_def)
  moreover have d: "opcode = 9 \<Longrightarrow> draw_frame urandom 0xA data w = (Inr (pong (urandom (ws_draws w)) data), w\<lparr>ws_draws := ws_draws w + 1\<rparr>)"
    by (rule draw_pong) (use good assms(3) in \<open>auto simp: good_frame_def\<close>)
  moreover have "w\<lparr>ws_fragment := ws_fragment w\<rparr> = w" by simp
  ultimately show ?thesis
    using assms(1,2) by (auto simp: take_frame_def f legal_step_def out_step_def frag_step_def MAX_PENDING_CONTROL_def Let_def split: option.splits)
qed

text \<open>The transport has still to read the frames \<open>fs\<close>; \<open>later\<close> is what has not arrived.\<close>

definition sees :: "bytes \<Rightarrow> websocket \<Rightarrow> frame list \<Rightarrow> bool" where
  "sees later w fs \<longleftrightarrow> ws_recv_buf w @ later = frames_wire fs \<and> legal (ws_max_frame_size w) (ws_fragment w) fs \<and> \<not> ws_stream_closing w"

definition extracted :: "(nat \<Rightarrow> bytes) \<Rightarrow> bytes \<Rightarrow> websocket \<Rightarrow> frame list \<Rightarrow> bytes option \<Rightarrow> websocket \<Rightarrow> frame list \<Rightarrow> bool" where
  "extracted urandom later w fs r w' fs' \<longleftrightarrow> sees later w' fs' \<and> ws_out w' = ws_out w \<and> ws_max_frame_size w' = ws_max_frame_size w
     \<and> (case r of
          Some p \<Rightarrow> payloads (ws_fragment w) fs = p # payloads (ws_fragment w') fs' \<and> pings fs = pings fs' \<and> ws_draws w' = ws_draws w \<and> ws_pending_control w' = []
        | None \<Rightarrow> payloads (ws_fragment w) fs = payloads (ws_fragment w') fs' \<and>
            (if ws_pending_control w' = [] then pings fs = pings fs' \<and> ws_draws w' = ws_draws w \<and> (later = [] \<longrightarrow> fs' = [])
             else \<exists>d. pings fs = d # pings fs' \<and> ws_pending_control w' = [pong (urandom (ws_draws w)) d] \<and> ws_draws w' = ws_draws w + 1))"

lemma extract_sees:
  assumes keys: "\<And>k. length (urandom k) = 4"
  shows "sees later w fs \<Longrightarrow> ws_pending_control w = [] \<Longrightarrow>
    \<exists>r w' fs'. try_extract_application_payload urandom w = (Inr r, w') \<and> extracted urandom later w fs r w' fs'"
proof (induction fs arbitrary: w)
  case Nil
  then have "ws_recv_buf w = []" by (simp add: sees_def frames_wire_def)
  then have "try_extract_application_payload urandom w = (Inr None, w)"
    by (simp add: try_extract_application_payload.simps [of urandom w] parse_frame_def)
  moreover have "extracted urandom later w [] None w []" using Nil by (simp add: extracted_def)
  ultimately show ?case by blast
next
  case (Cons f fs)
  obtain fin opcode data where f: "f = (fin, opcode, data)" by (cases f)
  let ?wire = "frame_wire fin opcode [] data"
  have buf: "ws_recv_buf w @ later = ?wire @ frames_wire fs" and step: "legal_step (ws_max_frame_size w) (ws_fragment w) f"
    and rest: "legal (ws_max_frame_size w) (frag_step (ws_fragment w) f) fs" and open': "\<not> ws_stream_closing w"
    using Cons.prems(1) by (simp_all add: sees_def frames_wire_def f)
  have good: "good_frame (ws_max_frame_size w) fin opcode (length data)" using step by (simp add: legal_step_def f)
  note parse = parse_frame_wire [OF buf good disjI1 [OF refl], simplified]
  show ?case
  proof (cases "length (ws_recv_buf w) < length ?wire")
    case True
    then have "try_extract_application_payload urandom w = (Inr None, w)"
      by (simp add: try_extract_application_payload.simps [of urandom w] parse)
    moreover have "later \<noteq> []" using True buf by (metis append_Nil2 leD length_append trans_le_add1 order_refl)
    then have "extracted urandom later w (f # fs) None w (f # fs)" using Cons.prems by (simp add: extracted_def)
    ultimately show ?thesis by blast
  next
    case False
    let ?w1 = "w\<lparr>ws_recv_buf := drop (length ?wire) (ws_recv_buf w)\<rparr>"
    have left: "drop (length ?wire) (ws_recv_buf w) @ later = frames_wire fs"
      using buf False by (metis append_eq_append_conv_if drop_append not_less diff_is_0_eq drop_0 append_eq_conv_conj)
    have t: "take_frame urandom f ?w1 =
      (if opcode = 9 then (Inr (Some None), ?w1\<lparr>ws_draws := ws_draws w + 1, ws_pending_control := [pong (urandom (ws_draws w)) data]\<rparr>)
       else (Inr (case out_step (ws_fragment w) f of [] \<Rightarrow> None | p # _ \<Rightarrow> Some (Some p)), ?w1\<lparr>ws_fragment := frag_step (ws_fragment w) f\<rparr>))"
      using take_frame_legal [of ?w1 f urandom] step Cons.prems(2) keys by (simp add: f)
    have run: "try_extract_application_payload urandom w = (case take_frame urandom f ?w1 of
        (Inl x, w1) \<Rightarrow> (Inl x, w1) | (Inr (Some payload), w1) \<Rightarrow> (Inr payload, w1) | (Inr None, w1) \<Rightarrow> try_extract_application_payload urandom w1)"
      using False by (simp add: try_extract_application_payload.simps [of urandom w] parse f)
    show ?thesis
    proof (cases "opcode = 9")
      case True
      let ?w' = "?w1\<lparr>ws_draws := ws_draws w + 1, ws_pending_control := [pong (urandom (ws_draws w)) data]\<rparr>"
      have "extracted urandom later w (f # fs) None ?w' fs"
        using True left rest open' by (simp add: extracted_def sees_def f frag_step_def out_step_def)
      then show ?thesis using run t True by auto
    next
      case other: False
      let ?w' = "?w1\<lparr>ws_fragment := frag_step (ws_fragment w) f\<rparr>"
      have sees': "sees later ?w' fs" using left rest open' by (simp add: sees_def)
      show ?thesis
      proof (cases "out_step (ws_fragment w) f")
        case Nil
        then have run': "try_extract_application_payload urandom w = try_extract_application_payload urandom ?w'" using run t other by simp
        obtain r w2 fs' where ih: "try_extract_application_payload urandom ?w' = (Inr r, w2)" "extracted urandom later ?w' fs r w2 fs'"
          using Cons.IH [OF sees'] Cons.prems(2) by auto
        have "extracted urandom later w (f # fs) r w2 fs'" using ih(2) Nil other
          by (cases r; cases "ws_pending_control w2 = []") (simp_all add: extracted_def f)
        with run' ih(1) show ?thesis by auto
      next
        case (Cons p ps)
        have "extracted urandom later w (f # fs) (Some p) ?w' fs"
          using Cons sees' other \<open>ws_pending_control w = []\<close> by (auto simp: extracted_def f out_step_def split: if_splits)
        then show ?thesis using run t other Cons by auto
      qed
    qed
  qed
qed

text \<open>One call of \<^verbatim>\<open>read\<close>: the next message, with the pongs of the pings before it sent, or nothing when all has been read.\<close>

definition received :: "(nat \<Rightarrow> bytes) \<Rightarrow> websocket \<Rightarrow> frame list \<Rightarrow> bytes option \<Rightarrow> bytes list \<Rightarrow> websocket \<Rightarrow> frame list \<Rightarrow> bool" where
  "received urandom w fs r chunks' w' fs' \<longleftrightarrow> sees (concat chunks') w' fs' \<and> [] \<notin> set chunks' \<and> ws_pending_control w' = []
     \<and> (\<exists>ds. pings fs = ds @ pings fs' \<and> ws_out w' = ws_out w @ pongs urandom (ws_draws w) ds \<and> ws_draws w' = ws_draws w + length ds)
     \<and> payloads (ws_fragment w) fs = (case r of Some p \<Rightarrow> [p] | None \<Rightarrow> []) @ payloads (ws_fragment w') fs' \<and> (r = None \<longrightarrow> fs' = [] \<and> chunks' = [])"

lemma pongs_append: "pongs urandom k (ds @ es) = pongs urandom k ds @ pongs urandom (k + length ds) es"
  by (induction ds arbitrary: k) simp_all

lemma received_after:
  assumes "received urandom w1 fs1 r c w' fs'" "pings fs = ds @ pings fs1" "ws_out w1 = ws_out w @ pongs urandom (ws_draws w) ds" "ws_draws w1 = ws_draws w + length ds"
    "payloads (ws_fragment w) fs = payloads (ws_fragment w1) fs1"
  shows "received urandom w fs r c w' fs'"
proof -
  obtain es where "pings fs1 = es @ pings fs'" "ws_out w' = ws_out w1 @ pongs urandom (ws_draws w1) es" "ws_draws w' = ws_draws w1 + length es"
    using assms(1) by (auto simp: received_def)
  with assms show ?thesis unfolding received_def by (intro conjI exI [of _ "ds @ es"]) (simp_all add: pongs_append)
qed

lemma ws_read_sees:
  assumes keys: "\<And>k. length (urandom k) = 4"
  shows "sees (concat chunks) w fs \<Longrightarrow> [] \<notin> set chunks \<Longrightarrow> ws_pending_control w = [] \<Longrightarrow>
    \<exists>r chunks' w' fs'. ws_read urandom chunks w = (Inr r, chunks', w') \<and> received urandom w fs r chunks' w' fs'"
proof (induction "(length chunks, length (pings fs))" arbitrary: chunks w fs rule: wf_induct_rule [OF wf_lex_prod [OF wf_less_than wf_less_than]])
  case 1
  obtain r w1 fs1 where x: "try_extract_application_payload urandom w = (Inr r, w1)" and e: "extracted urandom (concat chunks) w fs r w1 fs1"
    using extract_sees [of urandom, OF keys "1.prems"(1,3)] by blast
  note run = ws_read.simps [of urandom chunks w, unfolded x]
  show ?case
  proof (cases "\<exists>p. r = Some p")
    case True
    then obtain p where p: "r = Some p" by blast
    have "ws_read urandom chunks w = (Inr (Some p), chunks, w1)" using run e by (simp add: p extracted_def)
    moreover have "received urandom w fs (Some p) chunks w1 fs1" using e "1.prems"(2) by (simp add: p extracted_def received_def exI [of _ "[]"])
    ultimately show ?thesis by blast
  next
    case False
    then have r: "r = None" by auto
    show ?thesis
    proof (cases "ws_pending_control w1 = []")
      case False
      let ?w2 = "w1\<lparr>ws_out := ws_out w1 @ concat (ws_pending_control w1), ws_pending_control := []\<rparr>"
      from e False obtain d where d: "pings fs = d # pings fs1" "ws_pending_control w1 = [pong (urandom (ws_draws w)) d]" "ws_draws w1 = ws_draws w + 1"
          "sees (concat chunks) w1 fs1" "ws_out w1 = ws_out w" "payloads (ws_fragment w) fs = payloads (ws_fragment w1) fs1"
        by (auto simp: extracted_def r)
      have "ws_read urandom chunks w = ws_read urandom chunks ?w2"
        using run False d(4) by (simp add: r flush_control_def ensure_writable_def sees_def)
      moreover obtain r' c w' fs' where ih: "ws_read urandom chunks ?w2 = (Inr r', c, w')" "received urandom ?w2 fs1 r' c w' fs'"
        using "1.hyps" [of chunks fs1 ?w2] d "1.prems"(2) by (auto simp: sees_def)
      moreover have "received urandom w fs r' c w' fs'" by (rule received_after [OF ih(2), of _ "[d]"]) (use d in simp_all)
      ultimately show ?thesis by auto
    next
      case True
      with e have n: "sees (concat chunks) w1 fs1" "ws_out w1 = ws_out w" "payloads (ws_fragment w) fs = payloads (ws_fragment w1) fs1" "pings fs = pings fs1"
          "ws_draws w1 = ws_draws w" "concat chunks = [] \<Longrightarrow> fs1 = []"
        by (simp_all add: extracted_def r)
      show ?thesis
      proof (cases chunks)
        case Nil
        have "ws_read urandom chunks w = (Inr None, [], w1)" using run True by (simp add: r Nil)
        moreover have "received urandom w fs None [] w1 fs1" using n True Nil by (simp add: received_def exI [of _ "[]"])
        ultimately show ?thesis by blast
      next
        case (Cons chunk rest)
        let ?w2 = "w1\<lparr>ws_recv_buf := ws_recv_buf w1 @ chunk\<rparr>"
        have "ws_read urandom chunks w = ws_read urandom rest ?w2" using run True "1.prems"(2) by (auto simp: r Cons)
        moreover obtain r' c w' fs' where ih: "ws_read urandom rest ?w2 = (Inr r', c, w')" "received urandom ?w2 fs1 r' c w' fs'"
          using "1.hyps" [of rest fs1 ?w2] n True "1.prems"(2) Cons by (auto simp: sees_def)
        moreover have "received urandom w fs r' c w' fs'" by (rule received_after [OF ih(2), of _ "[]"]) (use n in simp_all)
        ultimately show ?thesis by auto
      qed
    qed
  qed
qed

text \<open>Calls of \<^verbatim>\<open>read\<close> until one waits or fails, at most \<open>n\<close> of them.\<close>

fun ws_reads :: "(nat \<Rightarrow> bytes) \<Rightarrow> nat \<Rightarrow> bytes list \<Rightarrow> websocket \<Rightarrow> bytes list \<times> bytes list \<times> websocket" where
  "ws_reads urandom 0 chunks w = ([], chunks, w)"
| "ws_reads urandom (Suc n) chunks w =
     (case ws_read urandom chunks w of
        (Inr (Some p), chunks', w') \<Rightarrow> (case ws_reads urandom n chunks' w' of (ps, c, w'') \<Rightarrow> (p # ps, c, w''))
      | (_, chunks', w') \<Rightarrow> ([], chunks', w'))"

lemma ws_reads_sees:
  assumes keys: "\<And>k. length (urandom k) = 4"
  shows "sees (concat chunks) w fs \<Longrightarrow> [] \<notin> set chunks \<Longrightarrow> ws_pending_control w = [] \<Longrightarrow> length (payloads (ws_fragment w) fs) < n \<Longrightarrow>
    \<exists>w'. ws_reads urandom n chunks w = (payloads (ws_fragment w) fs, [], w') \<and> ws_recv_buf w' = [] \<and> ws_out w' = ws_out w @ pongs urandom (ws_draws w) (pings fs)"
proof (induction n arbitrary: chunks w fs)
  case (Suc n)
  obtain r c w1 fs1 where x: "ws_read urandom chunks w = (Inr r, c, w1)" and e: "received urandom w fs r c w1 fs1"
    using ws_read_sees [of urandom, OF keys Suc.prems(1-3)] by blast
  from e obtain ds where ds: "pings fs = ds @ pings fs1" "ws_out w1 = ws_out w @ pongs urandom (ws_draws w) ds" "ws_draws w1 = ws_draws w + length ds"
    by (auto simp: received_def)
  show ?case
  proof (cases r)
    case None
    with e x ds show ?thesis by (auto simp: received_def sees_def frames_wire_def)
  next
    case (Some p)
    with e Suc.prems(4) have "sees (concat c) w1 fs1" "[] \<notin> set c" "ws_pending_control w1 = []" "length (payloads (ws_fragment w1) fs1) < n"
      and ps: "payloads (ws_fragment w) fs = p # payloads (ws_fragment w1) fs1"
      by (auto simp: received_def)
    from Suc.IH [OF this(1-4)] obtain w' where "ws_reads urandom n c w1 = (payloads (ws_fragment w1) fs1, [], w')" "ws_recv_buf w' = []"
        "ws_out w' = ws_out w1 @ pongs urandom (ws_draws w1) (pings fs1)" by blast
    with x Some ps ds show ?thesis by (simp add: pongs_append)
  qed
qed simp

text \<open>
  C22. The client reads a WebSocket stream as the broker meant it: however the bytes of a legal sequence of frames are cut into chunks, successive reads return
  exactly the non-empty binary messages, fragmented ones reassembled, in order, and then wait with nothing left over; every ping
  in between has been answered by one pong with its payload, in order.
\<close>

theorem read_reassembles:
  assumes "\<And>k. length (urandom k) = 4" "new_websocket limit batch = Inr w" "legal (nat limit) None fs" "concat chunks = frames_wire fs" "[] \<notin> set chunks"
  shows "\<exists>w'. ws_reads urandom (Suc (length (payloads None fs))) chunks w = (payloads None fs, [], w')
    \<and> ws_recv_buf w' = [] \<and> ws_out w' = pongs urandom 0 (pings fs)"
proof -
  have w: "ws_recv_buf w = []" "ws_fragment w = None" "ws_pending_control w = []" "ws_out w = []" "ws_draws w = 0" "\<not> ws_stream_closing w" "ws_max_frame_size w = nat limit"
    using assms(2) by (auto simp: new_websocket_def split: if_splits)
  have "sees (concat chunks) w fs" using assms(3,4) w by (simp add: sees_def)
  from ws_reads_sees [of urandom, OF assms(1) this assms(5) w(3)] show ?thesis unfolding w(2,4,5) append_Nil by blast
qed

text \<open>A fragmented message with a ping between its parts, and a second message.\<close>

definition sample_frames :: "frame list" where
  "sample_frames = [(False, 2, [1, 2]), (True, 9, [7]), (True, 0, [3]), (True, 2, [4])]"

theorem read_reassembles_witness:
  "\<exists>w'. ws_reads (\<lambda>_. [1, 2, 3, 4]) 3 [frames_wire sample_frames]
     \<lparr>ws_recv_buf = [], ws_closing = False, ws_pending_control = [], ws_max_frame_size = 1000, ws_max_write_batch_bytes = 1000, ws_fragment = None,
      ws_out = [], ws_stream_closing = False, ws_draws = 0\<rparr> = ([[1, 2, 3], [4]], [], w') \<and> ws_out w' = pongs (\<lambda>_. [1, 2, 3, 4]) 0 [[7]]"
proof -
  have l: "legal (nat 1000) None sample_frames" and p: "payloads None sample_frames = [[1, 2, 3], [4]]" and q: "pings sample_frames = [[7]]"
    by (simp_all add: sample_frames_def legal_step_def good_frame_def frag_step_def out_step_def)
  have "frames_wire sample_frames \<noteq> []" by (simp add: frames_wire_def sample_frames_def frame_wire_def)
  then show ?thesis
    using read_reassembles [of "\<lambda>_. [1, 2, 3, 4]" 1000 1000 _ sample_frames "[frames_wire sample_frames]"] l
    by (auto simp: p q new_websocket_def eval_nat_numeral)
qed

theorem write_many_read_back_witness:
  "\<exists>w' wire gs. write_many (\<lambda>_. [1, 2, 3, 4]) [[1], [2, 3]]
     \<lparr>ws_recv_buf = [], ws_closing = False, ws_pending_control = [], ws_max_frame_size = 1000, ws_max_write_batch_bytes = 1000, ws_fragment = None,
      ws_out = [], ws_stream_closing = False, ws_draws = 0\<rparr> = (Inr (), w') \<and> ws_out w' = wire \<and> concat gs = [[1], [2, 3]]
     \<and> broker_reads 1000 wire = (map (\<lambda>g. (True, 2, concat g)) gs, [])"
  using write_many_read_back [of "\<lparr>ws_recv_buf = [], ws_closing = False, ws_pending_control = [], ws_max_frame_size = 1000, ws_max_write_batch_bytes = 1000,
      ws_fragment = None, ws_out = [], ws_stream_closing = False, ws_draws = 0\<rparr>" "\<lambda>_. [1, 2, 3, 4]" "[[1], [2, 3]]" 1000]
  by auto

end
