(* ===== verification/Spec2Isabelle.thy ===== *)
theory Spec2Isabelle
  imports Packet_Ids Flow_Control Matcher Settings Reconnect Store_Refinement Wire_Errors Session_Properties Client_Wire Ingress WebSocket_Streams
begin

text \<open>
  MQTTium is an asynchronous MQTT 3.1.1 and 5 client in Python. This library models its protocol core and the runtime around it, from
  the bytes of the wire to the engine that keeps the sessions and from its effects to the transport and the application, and proves what makes them correct. Paths are below \<^verbatim>\<open>src/src/mqttium/\<close>.

  \<^bold>\<open>The program.\<close> A transport gives bytes to an incremental decoder, which cuts them into packets. The engine dispatches each
  packet to a handler of its inbound or outbound session, which updates packet identifiers, send quota, receive window, the store of unfinished exchanges
  and the queue of waiting publications, and appends effects: packets to send, messages to deliver, outcomes to report. The client collects the effects in its pump, which hands
  packets to the writer, which serialises them onto the transport, settles receipts and futures, and leaves messages to the reader's delivery lane, which hands them to the application's queue or callbacks. Applications publish, subscribe and acknowledge through the same engine.

  \<^bold>\<open>Conventions.\<close> A record is a class with its fields, a definition a method on explicit state; every raise, failed assertion
  and early return is a branch. Python integers are \<^typ>\<open>int\<close>, lengths and offsets \<^typ>\<open>nat\<close>, bytes 8-bit words, text the list of its code points.
  A property table is a dictionary with every name once (\<open>dict_ok\<close>). Exceptions are classes without their message text; a call gives \<open>Inl\<close> the exception or \<open>Inr\<close> the value, and an operation on the
  engine's state gives the new state in both cases (theory \<open>Ops\<close>: the operations are Python's sequencing, \<^verbatim>\<open>try\<close> and \<^verbatim>\<open>for\<close>, with weakest
  preconditions \<open>wp\<close>). Typing discharges the \<^verbatim>\<open>isinstance\<close> guards of the public API. The element \<^verbatim>\<open>set.pop\<close> returns, the masks of \<^verbatim>\<open>os.urandom\<close>, the
  random jitter and the outcome of a transport call are parameters or nondeterministic. An \<^verbatim>\<open>object()\<close> used as a token is a number never used before. Objects that are
  shared and mutated (stored messages, matcher entries) are addresses into a heap. Loops are recursive functions proved terminating; no definition runs on fuel, and the one
  number of calls that appears in a statement (\<open>ws_reads\<close>) is proved enough there.

  \<^bold>\<open>Theories and sources.\<close>
  \<^item> \<open>Prelude\<close>: bytes, results, Python indexing; the locale \<open>kept_invariant\<close> of transition systems with an invariant, interpreted by the engine, the writer, the application's queue, the delivery lane and the client.
  \<^item> \<open>Vbi\<close>, \<open>Utf8\<close>, \<open>Primitives\<close>: \<^verbatim>\<open>codec/vbi.py\<close>, \<^verbatim>\<open>codec/primitives.py\<close> and the UTF-8 codec. Decoders accept exactly what the encoders produce.
  \<^item> \<open>Packet_Ids\<close>, \<open>Flow_Control\<close>: \<^verbatim>\<open>protocol/packet_ids.py\<close>, \<^verbatim>\<open>protocol/flow_control.py\<close>. Identifiers are fresh, the send window is bounded; both refine abstract sets.
  \<^item> \<open>Topics\<close>, \<open>Matcher\<close>: \<^verbatim>\<open>topics.py\<close>, \<^verbatim>\<open>dispatch/matcher.py\<close>. Validation agrees with the rules of MQTT 4.7; the tree walk returns exactly the matching filters.
  \<^item> \<open>Enums\<close>, \<open>Buffer\<close>: \<^verbatim>\<open>enums.py\<close>, \<^verbatim>\<open>codec/buffer.py\<close>. The packets do not depend on fragmentation or on the storage policy of the slab.
  \<^item> \<open>Properties\<close>, \<open>Packets_Common\<close>, \<open>Acks\<close>, \<open>Publish\<close>, \<open>Subscriptions\<close>, \<open>Control\<close>, \<open>Connect\<close>, \<open>Bindings\<close>: \<^verbatim>\<open>codec/properties.py\<close>, \<^verbatim>\<open>types.py\<close>, \<^verbatim>\<open>packets/\<close>,
    \<^verbatim>\<open>codec/packet_validation.py\<close>, \<^verbatim>\<open>transport/writes.py\<close>. Every packet survives the wire, but for the tables beyond the decoder's budget of 1024 repeatable values and the topics it refuses; specialised codecs agree with the generic ones.
  \<^item> \<open>Reconnect\<close>, \<open>Settings\<close>: \<^verbatim>\<open>protocol/reconnect.py\<close>, \<^verbatim>\<open>protocol/config.py\<close>, \<^verbatim>\<open>protocol/negotiated.py\<close>.
  \<^item> \<open>Store\<close>, \<open>Store_Refinement\<close>: \<^verbatim>\<open>persistence/memory.py\<close> and the inflight records of \<^verbatim>\<open>types.py\<close>; its objects and tables implement two ordered dictionaries of message values.
  \<^item> \<open>Ops\<close>, \<open>Engine_State\<close>, \<open>Outbound\<close>, \<open>Inbound\<close>, \<open>Engine\<close>: \<^verbatim>\<open>protocol/effects.py\<close>, \<^verbatim>\<open>protocol/outbound.py\<close>, \<^verbatim>\<open>protocol/_sizing.py\<close>, \<^verbatim>\<open>protocol/inbound.py\<close>,
    \<^verbatim>\<open>protocol/stats.py\<close>, \<^verbatim>\<open>protocol/engine.py\<close>. The sessions and their engine refer to each other and are one state.
  \<^item> \<open>Outbound_Inv\<close>, \<open>Outbound_Ops\<close>, \<open>Outbound_Publish\<close>, \<open>Outbound_Session\<close>: the invariant \<open>oinv\<close> of the outbound session and what each of its operations does and keeps.
  \<^item> \<open>Inbound_Inv\<close>, \<open>Inbound_Ops\<close>, \<open>Inbound_Publish\<close>, \<open>Inbound_Session\<close>: the same for the inbound session and its invariant \<open>iinv\<close>.
  \<^item> \<open>Wire_Errors\<close>: what decoders may raise on bytes of a peer.
  \<^item> \<open>Engine_Inv\<close>, \<open>Engine_Steps\<close>, \<open>Replay\<close>, \<open>Session_Properties\<close>: every call of the engine keeps its invariant, the engine as a step relation, the redelivery of a session, and the
    promises of the sessions in every reachable state.
  \<^item> \<open>Writer\<close>, \<open>Writer_Inv\<close>: \<^verbatim>\<open>api/_writer.py\<close> as a transition system whose steps are the stretches of code between two suspensions: order, completeness and bounds under every interleaving.
  \<^item> \<open>Delivery_Queue\<close>, \<open>Delivery_Inv\<close>: \<^verbatim>\<open>api/_delivery.py\<close>. Messages are read in order, each once, within the bounds, and no waiting admission or iterator misses its wake-up.
  \<^item> \<open>Delivery_Lane\<close>: \<^verbatim>\<open>api/_delivery_lane.py\<close>. No acknowledged message is lost or overtaken when a connection ends in the middle of a lot.
  \<^item> \<open>Receipts\<close>, \<open>Auth_Exchange\<close>: \<^verbatim>\<open>api/models.py\<close> and the receipt tables of \<^verbatim>\<open>api/async_client.py\<close>; \<^verbatim>\<open>api/_auth.py\<close>. A batch refines the list of its publications; a table of handles is a locale of queues.
  \<^item> \<open>Effect_Pump\<close>, \<open>Client_Inv\<close>, \<open>Client_Steps\<close>, \<open>Client_Wire\<close>: \<^verbatim>\<open>api/_effects.py\<close> and the part of \<^verbatim>\<open>api/async_client.py\<close> that interprets effects, one state with the engine, the writer, the lane and the
    application's queue, and its steps. The order of the engine's frames reaches the wire; suspended drains are served; messages are marked exactly when they are committed, also after a wait.
  \<^item> \<open>Ingress\<close>: the reader's lots (\<^verbatim>\<open>_process_ingress_batch\<close> and the body of \<^verbatim>\<open>_read_loop\<close>).
  \<^item> \<open>WebSocket\<close>, \<open>WebSocket_Frames\<close>, \<open>WebSocket_Streams\<close>: \<^verbatim>\<open>transport/websocket.py\<close> after its handshake: framing, masking, reassembly, coalescing.

  \<^bold>\<open>What is assumed of a run of the engine.\<close> The store it starts on is one an engine may have left: consistent tables, identifiers in range, no finished
  exchange (\<open>sound_store\<close>). One step is left out of runs (\<open>interrupted\<close>): a CONNACK whose handling raises after the engine became connected, which leaves a
  session half rebuilt and which the client answers by closing the connection.

  \<^bold>\<open>What is assumed of a run of the client.\<close> A step is what a coroutine does between two suspensions; any order of steps is a run. A frame the engine emits is not empty. The old connection's effects are discarded
  only after its epoch was retired, and a connection opens only with no frame of the old one pending, which is how \<^verbatim>\<open>_connect_once_locked\<close> begins.

  \<^bold>\<open>Not modelled.\<close> The rest of \<^verbatim>\<open>api/async_client.py\<close> with \<^verbatim>\<open>_lifecycle\<close> and \<^verbatim>\<open>_cancel\<close>: the tasks that connect, keep alive and reconnect, whose behaviour is that of timers, of the event loop's task
  cancellation and of user hooks. \<^verbatim>\<open>persistence/sqlite.py\<close>: SQL text executed by a database; the memory store it must agree with is modelled.
  \<^verbatim>\<open>transport/tcp.py\<close>, \<^verbatim>\<open>unix.py\<close>, \<^verbatim>\<open>_stream.py\<close>, \<^verbatim>\<open>_push.py\<close> and the WebSocket handshake: sockets, \<^verbatim>\<open>asyncio\<close> streams, URL parsing and SHA-1. \<^verbatim>\<open>errors.py\<close>, \<^verbatim>\<open>api/stats.py\<close>: exception
  classes and records without behaviour of their own. Clocks, time-outs and the text of messages are left out throughout.
\<close>

end
